(* ===== verification/Prelude.thy ===== *)
theory Prelude
  imports Main "HOL-Library.Word"
begin

text \<open>
  What every component of the model shares: the error type and the result type of operations
  that can abort, the for-loop combinator with its total-correctness rule, 32-bit unsigned
  arithmetic on \<^typ>\<open>nat\<close> with the wrap-around written out, the bounded iteration of a
  clocked component, and a few facts on lists that the components use.
\<close>

section \<open>Errors as values\<close>

text \<open>
  \<open>AssertFail\<close> is an \<open>assert\<close> of the source that does not hold (the build does not
  define \<open>NDEBUG\<close>), \<open>NullDeref\<close> the use of a connection or table entry that was never
  set, \<open>OutOfBounds\<close> an index outside a vector or an array, \<open>DivByZero\<close> an integer
  division by zero, \<open>IntOverflow\<close> an \<open>int\<close> that leaves its range. \<open>NotModelled\<close> is no behaviour of the program: it marks the combinations of
  networks and controllers this development does not describe. \<open>OutOfFuel\<close> is none either: it marks a
  \<open>while\<close> loop that took more iterations than the bound its model gives it.
\<close>

datatype serr = AssertFail | NullDeref | OutOfBounds | DivByZero | IntOverflow | NotModelled | OutOfFuel

type_synonym 'a res = "serr + 'a"

definition rbind :: "'a res \<Rightarrow> ('a \<Rightarrow> 'b res) \<Rightarrow> 'b res" where
  "rbind m f = (case m of Inl e \<Rightarrow> Inl e | Inr x \<Rightarrow> f x)"

definition rassert :: "bool \<Rightarrow> 'a res \<Rightarrow> 'a res" where
  "rassert b m = (if b then m else Inl AssertFail)"

definition rderef :: "'a option \<Rightarrow> ('a \<Rightarrow> 'b res) \<Rightarrow> 'b res" where
  "rderef p f = (case p of None \<Rightarrow> Inl NullDeref | Some x \<Rightarrow> f x)"

definition rnth :: "'a list \<Rightarrow> nat \<Rightarrow> 'a res" where
  "rnth xs i = (if i < length xs then Inr (xs ! i) else Inl OutOfBounds)"

definition rupd :: "'a list \<Rightarrow> nat \<Rightarrow> 'a \<Rightarrow> 'a list res" where
  "rupd xs i x = (if i < length xs then Inr (xs[i := x]) else Inl OutOfBounds)"

definition rdiv :: "nat \<Rightarrow> nat \<Rightarrow> nat res" where
  "rdiv a b = (if b = 0 then Inl DivByZero else Inr (a div b))"

lemma rbind_Inr [simp]: "rbind (Inr x) f = f x"
  by (simp add: rbind_def)

lemma rbind_Inl [simp]: "rbind (Inl e) f = Inl e"
  by (simp add: rbind_def)

lemma rbind_eq_Inr: "rbind m f = Inr y \<longleftrightarrow> (\<exists>x. m = Inr x \<and> f x = Inr y)"
  by (cases m) auto

lemma rbind_assoc: "rbind (rbind m f) g = rbind m (\<lambda>x. rbind (f x) g)"
  by (cases m) simp_all

lemma rassert_True [simp]: "b \<Longrightarrow> rassert b m = m"
  by (simp add: rassert_def)

lemma rassert_False [simp]: "\<not> b \<Longrightarrow> rassert b m = Inl AssertFail"
  by (simp add: rassert_def)

lemma rassert_eq_Inr: "rassert b m = Inr y \<longleftrightarrow> b \<and> m = Inr y"
  by (simp add: rassert_def)

lemma rderef_Some [simp]: "rderef (Some x) f = f x"
  by (simp add: rderef_def)

lemma rderef_None [simp]: "rderef None f = Inl NullDeref"
  by (simp add: rderef_def)

lemma rderef_eq_Inr: "rderef p f = Inr y \<longleftrightarrow> (\<exists>x. p = Some x \<and> f x = Inr y)"
  by (cases p) auto

lemma rnth_Inr [simp]: "i < length xs \<Longrightarrow> rnth xs i = Inr (xs ! i)"
  by (simp add: rnth_def)

lemma rnth_Inl [simp]: "length xs \<le> i \<Longrightarrow> rnth xs i = Inl OutOfBounds"
  by (simp add: rnth_def)

lemma rupd_Inr [simp]: "i < length xs \<Longrightarrow> rupd xs i x = Inr (xs[i := x])"
  by (simp add: rupd_def)

lemma rupd_Inl [simp]: "length xs \<le> i \<Longrightarrow> rupd xs i x = Inl OutOfBounds"
  by (simp add: rupd_def)

lemma rdiv_Inr [simp]: "0 < b \<Longrightarrow> rdiv a b = Inr (a div b)"
  by (simp add: rdiv_def)

lemma rdiv_0 [simp]: "rdiv a 0 = Inl DivByZero"
  by (simp add: rdiv_def)

section \<open>For-loops that can abort\<close>

text \<open>
  \<open>rfold f xs s\<close> runs the loop body \<open>f\<close> on the elements of \<open>xs\<close> from left to right and
  stops at the first error.
\<close>

fun rfold :: "('a \<Rightarrow> 's \<Rightarrow> 's res) \<Rightarrow> 'a list \<Rightarrow> 's \<Rightarrow> 's res" where
  "rfold f [] s = Inr s"
| "rfold f (x # xs) s = rbind (f x s) (rfold f xs)"

lemma rfold_append: "rfold f (xs @ ys) s = rbind (rfold f xs s) (rfold f ys)"
proof (induction xs arbitrary: s)
  case Nil
  then show ?case by simp
next
  case (Cons x xs)
  then show ?case by (cases "f x s") simp_all
qed

text \<open>\<open>while (b) body\<close> with at most \<open>n\<close> iterations.\<close>

fun rwhile :: "nat \<Rightarrow> ('s \<Rightarrow> bool) \<Rightarrow> ('s \<Rightarrow> 's res) \<Rightarrow> 's \<Rightarrow> 's res" where
  "rwhile 0 b body s = (if b s then Inl OutOfFuel else Inr s)"
| "rwhile (Suc n) b body s = (if b s then rbind (body s) (rwhile n b body) else Inr s)"

lemma rwhile_total:
  assumes "I s" and "\<And>s. I s \<Longrightarrow> b s \<Longrightarrow> \<exists>s'. body s = Inr s' \<and> I s' \<and> (\<mu> s' :: nat) < \<mu> s" and "\<mu> s \<le> n"
  shows "\<exists>s'. rwhile n b body s = Inr s' \<and> I s' \<and> \<not> b s'"
  using assms(1,3)
proof (induction n arbitrary: s)
  case 0
  then show ?case using assms(2) by fastforce
next
  case (Suc n)
  show ?case
  proof (cases "b s")
    case True
    then obtain s1 where "body s = Inr s1" "I s1" "\<mu> s1 < \<mu> s" using assms(2) Suc.prems(1) by blast
    then show ?thesis using Suc.IH [of s1] Suc.prems(2) True by simp
  qed (use Suc in simp)
qed

text \<open>
  Total correctness of a loop: an invariant that holds at the start and that every iteration
  can make progress from holds at the end, and the loop does not abort.
\<close>

lemma rfold_total:
  assumes "I 0 s"
    and "\<And>k s. k < length xs \<Longrightarrow> I k s \<Longrightarrow> \<exists>s'. f (xs ! k) s = Inr s' \<and> I (Suc k) s'"
  shows "\<exists>s'. rfold f xs s = Inr s' \<and> I (length xs) s'"
  using assms
proof (induction xs arbitrary: s I)
  case Nil
  then show ?case by simp
next
  case (Cons x xs)
  from Cons.prems(2) [of 0 s] Cons.prems(1) obtain s1
    where s1: "f x s = Inr s1" and I1: "I (Suc 0) s1" by auto
  have "\<exists>s'. rfold f xs s1 = Inr s' \<and> I (Suc (length xs)) s'"
  proof (rule Cons.IH [of "\<lambda>k. I (Suc k)"])
    show "I (Suc 0) s1" by (rule I1)
    show "\<exists>s'. f (xs ! k) s = Inr s' \<and> I (Suc (Suc k)) s'"
      if "k < length xs" "I (Suc k) s" for k s
      using Cons.prems(2) [of "Suc k" s] that by simp
  qed
  with s1 show ?case by simp
qed

lemma rfold_total_rev:
  assumes "I 0 s"
    and "\<And>k s. k < length xs \<Longrightarrow> I k s \<Longrightarrow>
      \<exists>s'. f (xs ! (length xs - Suc k)) s = Inr s' \<and> I (Suc k) s'"
  shows "\<exists>s'. rfold f (rev xs) s = Inr s' \<and> I (length xs) s'"
  using rfold_total [of I s "rev xs" f] assms by (simp add: rev_nth)

lemma rfold_upt_total:
  assumes "I 0 s"
    and "\<And>k s. k < n \<Longrightarrow> I k s \<Longrightarrow> \<exists>s'. f k s = Inr s' \<and> I (Suc k) s'"
  shows "\<exists>s'. rfold f [0..<n] s = Inr s' \<and> I n s'"
  using rfold_total [of I s "[0..<n]" f] assms by simp

lemma rfold_map: "rfold f (map h xs) s = rfold (\<lambda>x. f (h x)) xs s"
proof (induction xs arbitrary: s)
  case Nil
  then show ?case by simp
next
  case (Cons x xs)
  then have "rfold f (map h xs) = rfold (\<lambda>x. f (h x)) xs" by (simp add: fun_eq_iff)
  then show ?case by simp
qed

text \<open>Partial correctness: what every iteration keeps holds of the result, if there is one.\<close>

lemma rfold_invariant:
  assumes "rfold f xs s = Inr s'" and "P s"
    and "\<And>x s s'. x \<in> set xs \<Longrightarrow> P s \<Longrightarrow> f x s = Inr s' \<Longrightarrow> P s'"
  shows "P s'"
  using assms
proof (induction xs arbitrary: s)
  case Nil
  then show ?case by simp
next
  case (Cons x xs)
  then obtain s1 where "f x s = Inr s1" "rfold f xs s1 = Inr s'"
    by (auto simp: rbind_eq_Inr)
  with Cons show ?case by (metis list.set_intros)
qed

text \<open>Two nested loops are one loop over the pairs.\<close>

lemma rfold_product:
  "rfold (\<lambda>x. rfold (f x) ys) xs = rfold (\<lambda>(x, y). f x y) (List.product xs ys)"
proof
  show "rfold (\<lambda>x. rfold (f x) ys) xs s = rfold (\<lambda>(x, y). f x y) (List.product xs ys) s" for s
  proof (induction xs arbitrary: s)
    case (Cons x xs)
    have "rfold (f x) ys s = rfold (\<lambda>(x, y). f x y) (map (Pair x) ys) s" by (simp add: rfold_map)
    moreover have "rfold (\<lambda>x. rfold (f x) ys) xs = rfold (\<lambda>(x, y). f x y) (List.product xs ys)"
      using Cons by (simp add: fun_eq_iff)
    ultimately show ?case by (simp add: rfold_append)
  qed simp
qed

text \<open>A loop that writes one cell per iteration, each iteration its own.\<close>

lemma rfold_writes:
  assumes "\<And>p out. p \<in> set ps \<Longrightarrow> length out = L \<Longrightarrow> f p out = Inr (out[pos p := val p])"
    and "\<And>p. p \<in> set ps \<Longrightarrow> pos p < L" and "inj_on pos (set ps)" and "distinct ps" and "length out = L"
  shows "\<exists>out'. rfold f ps out = Inr out' \<and> length out' = L \<and> (\<forall>p \<in> set ps. out' ! pos p = val p)
     \<and> (\<forall>i. i \<notin> pos ` set ps \<longrightarrow> out' ! i = out ! i)"
  using assms
proof (induction ps arbitrary: out)
  case Nil
  then show ?case by simp
next
  case (Cons p ps)
  have 1: "f p out = Inr (out[pos p := val p])" using Cons.prems by simp
  have "\<exists>out'. rfold f ps (out[pos p := val p]) = Inr out' \<and> length out' = L \<and> (\<forall>p \<in> set ps. out' ! pos p = val p)
     \<and> (\<forall>i. i \<notin> pos ` set ps \<longrightarrow> out' ! i = out[pos p := val p] ! i)"
    by (rule Cons.IH) (use Cons.prems in \<open>auto intro: inj_on_subset\<close>)
  then obtain out' where 2: "rfold f ps (out[pos p := val p]) = Inr out'" "length out' = L"
     "\<forall>p \<in> set ps. out' ! pos p = val p" "\<forall>i. i \<notin> pos ` set ps \<longrightarrow> out' ! i = out[pos p := val p] ! i" by blast
  have "pos p \<notin> pos ` set ps" using Cons.prems(3,4) by auto
  then have "out' ! pos p = val p" using 2(4) Cons.prems(2,5) by simp
  moreover have "out' ! i = out ! i" if "i \<notin> pos ` set (p # ps)" for i
    using 2(4) that by simp
  ultimately show ?case using 1 2(1-3) by (intro exI [of _ out']) simp
qed

lemma rfold_cong: "(\<And>x s. x \<in> set xs \<Longrightarrow> f x s = g x s) \<Longrightarrow> rfold f xs s = rfold g xs s"
proof (induction xs arbitrary: s)
  case (Cons x xs)
  then show ?case by (cases "g x s") simp_all
qed simp

section \<open>Ordered maps\<close>

text \<open>A \<open>std::map\<close>: the entries in the order of their keys, one for each key.\<close>

fun smap_put :: "'k::linorder \<Rightarrow> 'v \<Rightarrow> ('k \<times> 'v) list \<Rightarrow> ('k \<times> 'v) list" where
  "smap_put k v [] = [(k, v)]"
| "smap_put k v ((k', v') # m) =
     (if k < k' then (k, v) # (k', v') # m else if k = k' then (k, v) # m else (k', v') # smap_put k v m)"

definition smap_ok :: "('k::linorder \<times> 'v) list \<Rightarrow> bool" where
  "smap_ok m \<longleftrightarrow> sorted_wrt (<) (map fst m)"

lemma smap_put_keys: "fst ` set (smap_put k v m) = insert k (fst ` set m)"
  by (induction k v m rule: smap_put.induct) auto

lemma smap_put_ok: "smap_ok m \<Longrightarrow> smap_ok (smap_put k v m)"
  unfolding smap_ok_def
proof (induction k v m rule: smap_put.induct)
  case (2 k v k' v' m)
  have "set (map fst (smap_put k v m)) = insert k (set (map fst m))" using smap_put_keys [of k v m] by simp
  then show ?case using 2 by (auto simp: not_less)
qed simp

lemma map_of_smap_put: "smap_ok m \<Longrightarrow> map_of (smap_put k v m) = (map_of m)(k \<mapsto> v)"
  unfolding smap_ok_def
proof (induction k v m rule: smap_put.induct)
  case (2 k v k' v' m)
  consider "k < k'" | "k = k'" | "k' < k" using less_linear by blast
  then show ?case
  proof cases
    case 1
    then show ?thesis by (auto simp: fun_eq_iff)
  next
    case 2
    then show ?thesis by (auto simp: fun_eq_iff)
  next
    case 3
    then have "map_of (smap_put k v m) = (map_of m)(k \<mapsto> v)" using 2 by (auto simp: not_less)
    then show ?thesis using 3 by (auto simp: fun_eq_iff)
  qed
qed simp

lemma smap_ok_Nil [simp]: "smap_ok []"
  by (simp add: smap_ok_def)

lemma smap_ok_distinct: "smap_ok m \<Longrightarrow> distinct (map fst m)"
  unfolding smap_ok_def using strict_sorted_iff by blast

lemma fold_product: "fold (\<lambda>x. fold (f x) ys) xs = fold (\<lambda>(x, y). f x y) (List.product xs ys)"
proof -
  have "fold (\<lambda>x. fold (f x) ys) xs s = fold (\<lambda>(x, y). f x y) (List.product xs ys) s" for s
    by (induction xs arbitrary: s) (simp_all add: fold_map o_def)
  then show ?thesis by blast
qed

text \<open>A loop that puts entries, the value of each a function of its key.\<close>

lemma fold_smap_put:
  assumes "smap_ok m" and "\<And>x. x \<in> set xs \<Longrightarrow> val x = h (key x)"
  shows "smap_ok (fold (\<lambda>x. smap_put (key x) (val x)) xs m)
     \<and> map_of (fold (\<lambda>x. smap_put (key x) (val x)) xs m) = (\<lambda>k. if k \<in> key ` set xs then Some (h k) else map_of m k)"
  using assms
proof (induction xs arbitrary: m)
  case (Cons x xs)
  then have "smap_ok (smap_put (key x) (val x) m)" "val x = h (key x)" by (simp_all add: smap_put_ok)
  moreover have "map_of (smap_put (key x) (val x) m) = (map_of m)(key x \<mapsto> val x)" by (rule map_of_smap_put) (rule Cons.prems)
  ultimately show ?case using Cons.IH [of "smap_put (key x) (val x) m"] Cons.prems(2) by (auto simp: fun_eq_iff)
qed (auto simp: fun_eq_iff)

section \<open>Unsigned 32-bit arithmetic\<close>

text \<open>
  \<open>unsigned int\<close> values that steer the control flow are natural numbers below \<open>2 ^ 32\<close>;
  the operations write the wrap-around out. Statistics counters are \<^typ>\<open>32 word\<close>.
\<close>

definition u32_max :: nat where
  "u32_max = 2 ^ 32"

definition uadd :: "nat \<Rightarrow> nat \<Rightarrow> nat" where
  "uadd a b = (a + b) mod u32_max"

definition usub :: "nat \<Rightarrow> nat \<Rightarrow> nat" where
  "usub a b = (a + u32_max - b) mod u32_max"

definition umul :: "nat \<Rightarrow> nat \<Rightarrow> nat" where
  "umul a b = (a * b) mod u32_max"

text \<open>\<open>a % b\<close> in an assertion: a division by zero comes before its failure.\<close>

definition rmod :: "nat \<Rightarrow> nat \<Rightarrow> nat res" where
  "rmod a b = (if b = 0 then Inl DivByZero else Inr (a mod b))"

text \<open>\<open>n++\<close> on an \<open>int\<close> that counts from zero.\<close>

definition iinc :: "nat \<Rightarrow> nat res" where
  "iinc n = (if n + 1 < 2 ^ 31 then Inr (n + 1) else Inl IntOverflow)"

lemma iinc_small: "n + 1 < 2 ^ 31 \<Longrightarrow> iinc n = Inr (Suc n)"
  by (simp add: iinc_def)

type_synonym counter = "32 word"

named_theorems u32_simps \<open>unsigned operations that do not wrap\<close>

lemma uadd_small [u32_simps]: "a + b < u32_max \<Longrightarrow> uadd a b = a + b"
  by (simp add: uadd_def)

lemma umul_small [u32_simps]: "a * b < u32_max \<Longrightarrow> umul a b = a * b"
  by (simp add: umul_def)

lemma usub_small [u32_simps]:
  assumes "b \<le> a" and "a < u32_max"
  shows "usub a b = a - b"
proof -
  have "usub a b = ((a - b) + u32_max) mod u32_max"
    unfolding usub_def by (rule arg_cong [where f = "\<lambda>x. x mod u32_max"]) (use assms(1) in arith)
  also have "\<dots> = (a - b) mod u32_max" by (rule mod_add_self2)
  also have "\<dots> = a - b" by (rule mod_less) (use assms(2) in arith)
  finally show ?thesis .
qed

lemma usub_0_1: "usub 0 1 = u32_max - 1"
  by (simp add: usub_def u32_max_def)

lemma u32_max_pos [simp]: "0 < u32_max"
  by (simp add: u32_max_def)

lemma u32_max_gt_1 [simp]: "Suc 0 < u32_max"
  by (simp add: u32_max_def)

lemma uadd_bound: "uadd a b < u32_max"
  by (simp add: uadd_def)

lemma usub_bound: "usub a b < u32_max"
  by (simp add: usub_def)

lemma umul_bound: "umul a b < u32_max"
  by (simp add: umul_def)

text \<open>\<open>a / b + ((a % b) != 0)\<close>: the number of tiles of size \<open>b\<close> that cover \<open>a\<close>.\<close>

definition ceil_div :: "nat \<Rightarrow> nat \<Rightarrow> nat" where
  "ceil_div a b = a div b + (if a mod b \<noteq> 0 then 1 else 0)"

lemma ceil_div_ge: "0 < b \<Longrightarrow> a \<le> ceil_div a b * b"
proof -
  assume "0 < b"
  have "a mod b \<le> (if a mod b \<noteq> 0 then 1 else 0) * b"
    using \<open>0 < b\<close> by (auto intro: less_imp_le)
  then have "a div b * b + a mod b \<le> a div b * b + (if a mod b \<noteq> 0 then 1 else 0) * b"
    by (rule add_left_mono)
  then show ?thesis unfolding ceil_div_def add_mult_distrib by (simp only: div_mult_mod_eq)
qed

lemma ceil_div_less_iff: "0 < b \<Longrightarrow> i < ceil_div a b \<longleftrightarrow> i * b < a"
proof
  assume b: "0 < b" and i: "i < ceil_div a b"
  show "i * b < a"
  proof (cases "a mod b = 0")
    case True
    with i have "i < a div b" by (simp add: ceil_div_def)
    then have "i * b < a div b * b" using b by simp
    also have "\<dots> \<le> a" by (simp add: div_mult_mod_eq)
    finally show ?thesis .
  next
    case False
    with i have "i * b \<le> a div b * b" by (simp add: ceil_div_def)
    also have "\<dots> < a" using False
      by (metis div_mult_mod_eq less_add_same_cancel1 neq0_conv)
    finally show ?thesis .
  qed
next
  assume b: "0 < b" and i: "i * b < a"
  have "a \<le> ceil_div a b * b" using b by (rule ceil_div_ge)
  with i have "i * b < ceil_div a b * b" by (rule less_le_trans)
  then show "i < ceil_div a b" by (rule mult_less_cancel2 [THEN iffD1, THEN conjunct2])
qed

section \<open>Single precision\<close>

text \<open>
  Natural numbers as \<open>float\<close> values: 24 significant bits, rounded to the nearest, ties to even.
  \<open>None\<close> is an infinity or not a number.
\<close>

definition round_div :: "nat \<Rightarrow> nat \<Rightarrow> nat" where
  "round_div p q = (let n = p div q; r = 2 * (p mod q) in if r < q \<or> r = q \<and> even n then n else n + 1)"

fun bit_size :: "nat \<Rightarrow> nat" where
  "bit_size n = (if n = 0 then 0 else Suc (bit_size (n div 2)))"

declare bit_size.simps [simp del]

definition f32_of_nat :: "nat \<Rightarrow> nat" where
  "f32_of_nat n = (if bit_size n \<le> 24 then n else round_div n (2 ^ (bit_size n - 24)) * 2 ^ (bit_size n - 24))"

text \<open>The quotient of two \<open>float\<close> values, itself rounded, and then up to the next integer.\<close>

definition f32_ceil_quotient :: "nat \<Rightarrow> nat \<Rightarrow> nat" where
  "f32_ceil_quotient p q =
     (let k = bit_size (p div q) in
      if k = 0 then (if p = 0 then 0 else 1)
      else if k \<le> 24 then ceil_div (round_div (p * 2 ^ (24 - k)) q) (2 ^ (24 - k))
      else round_div p (q * 2 ^ (k - 24)) * 2 ^ (k - 24))"

text \<open>\<open>ceil(a / (float) b)\<close> of two \<open>unsigned int\<close>.\<close>

definition f32_ceil_div :: "nat \<Rightarrow> nat \<Rightarrow> nat option" where
  "f32_ceil_div a b = (if b = 0 then None else Some (f32_ceil_quotient (f32_of_nat a) (f32_of_nat b)))"

definition f32_mul :: "nat option \<Rightarrow> nat option \<Rightarrow> nat option" where
  "f32_mul x y = (case x of None \<Rightarrow> None | Some a \<Rightarrow> (case y of None \<Rightarrow> None | Some b \<Rightarrow> Some (f32_of_nat (a * b))))"

text \<open>The conversion to \<open>unsigned int\<close>: a value out of range gives some number, about which nothing is known.\<close>

definition u32_of_f32 :: "nat option \<Rightarrow> nat" where
  "u32_of_f32 x = (case x of None \<Rightarrow> undefined | Some n \<Rightarrow> if n < u32_max then n else undefined)"

lemma bit_size_0 [simp]: "bit_size 0 = 0" and bit_size_pos: "0 < n \<Longrightarrow> bit_size n = Suc (bit_size (n div 2))"
  by (simp_all add: bit_size.simps)

lemma bit_size_le: "n < 2 ^ k \<Longrightarrow> bit_size n \<le> k"
proof (induction k arbitrary: n)
  case (Suc k)
  then have "bit_size (n div 2) \<le> k" by simp
  then show ?case by (cases "n = 0") (simp_all add: bit_size_pos)
qed simp

lemma bit_size_bounds: "n < 2 ^ bit_size n" "0 < n \<Longrightarrow> 2 ^ (bit_size n - 1) \<le> n"
proof -
  show "n < 2 ^ bit_size n"
  proof (induction n rule: bit_size.induct)
    case (1 n)
    then show ?case by (cases "n = 0") (simp_all add: bit_size_pos, linarith?)
  qed
  show "2 ^ (bit_size n - 1) \<le> n" if "0 < n" using that
  proof (induction n rule: bit_size.induct)
    case (1 n)
    show ?case
    proof (cases "n = 1")
      case False
      then have d: "0 < n div 2" using 1(2) by simp
      have "2 ^ (bit_size (n div 2) - 1) \<le> n div 2" using 1 d by simp
      moreover have "bit_size n - 1 = Suc (bit_size (n div 2) - 1)" using 1(2) d by (simp add: bit_size_pos)
      ultimately show ?thesis by simp
    qed (simp add: bit_size_pos)
  qed
qed

lemma f32_small: "n < 2 ^ 24 \<Longrightarrow> f32_of_nat n = n"
  using bit_size_le [of n 24] by (simp add: f32_of_nat_def)

lemma round_div_mono: "p \<le> p' \<Longrightarrow> round_div p q \<le> round_div p' q"
proof -
  assume le: "p \<le> p'"
  have d: "p div q \<le> p' div q" using le by (rule div_le_mono)
  show ?thesis
  proof (cases "p div q = p' div q")
    case True
    then have "p mod q \<le> p' mod q" using le by (simp add: modulo_nat_def)
    then show ?thesis using True by (auto simp: round_div_def Let_def)
  next
    case False
    then have "p div q + 1 \<le> p' div q" using d by simp
    then show ?thesis by (auto simp: round_div_def Let_def)
  qed
qed

lemma round_div_exact: "0 < q \<Longrightarrow> round_div (n * q) q = n"
  by (simp add: round_div_def)

lemma f32_mono: "a \<le> b \<Longrightarrow> f32_of_nat a \<le> f32_of_nat b"
proof -
  assume le: "a \<le> b"
  have up: "f32_of_nat n \<le> 2 ^ bit_size n" for n
  proof (cases "bit_size n \<le> 24")
    case False
    let ?e = "bit_size n - 24"
    have e: "(2 :: nat) ^ bit_size n = 2 ^ 24 * 2 ^ ?e" using False by (simp only: power_add [symmetric]) simp
    have "round_div n (2 ^ ?e) \<le> round_div (2 ^ 24 * 2 ^ ?e) (2 ^ ?e)"
      using bit_size_bounds(1) [of n] unfolding e by (intro round_div_mono less_imp_le)
    then have "round_div n (2 ^ ?e) * 2 ^ ?e \<le> 2 ^ 24 * 2 ^ ?e" by (simp add: round_div_exact del: power_numeral)
    then show ?thesis using False unfolding e by (simp add: f32_of_nat_def)
  qed (use bit_size_bounds(1) [of n] in \<open>simp add: f32_of_nat_def less_imp_le\<close>)
  have low: "2 ^ (bit_size n - 1) \<le> f32_of_nat n" if "0 < n" for n
  proof (cases "bit_size n \<le> 24")
    case False
    let ?e = "bit_size n - 24"
    have e: "bit_size n - 1 = 23 + ?e" using False by simp
    have "round_div (2 ^ 23 * 2 ^ ?e) (2 ^ ?e) \<le> round_div n (2 ^ ?e)"
      using bit_size_bounds(2) [OF that] unfolding e power_add by (rule round_div_mono)
    then have "2 ^ 23 * 2 ^ ?e \<le> round_div n (2 ^ ?e) * 2 ^ ?e" by (simp add: round_div_exact del: power_numeral)
    then show ?thesis using False unfolding e power_add by (simp add: f32_of_nat_def)
  qed (use bit_size_bounds(2) [OF that] in \<open>simp add: f32_of_nat_def\<close>)
  have sz: "bit_size a \<le> bit_size b" using bit_size_le [of a "bit_size b"] bit_size_bounds(1) [of b] le by simp
  show ?thesis
  proof (cases "bit_size a = bit_size b")
    case True
    then show ?thesis using le round_div_mono [OF le] by (simp add: f32_of_nat_def)
  next
    case False
    then have "0 < b" "bit_size a \<le> bit_size b - 1" using sz by (cases "b = 0"; simp)+
    then have "(2 :: nat) ^ bit_size a \<le> 2 ^ (bit_size b - 1)" by (intro power_increasing) simp_all
    then show ?thesis using up [of a] low [OF \<open>0 < b\<close>] by linarith
  qed
qed

lemma f32_pos: "0 < b \<Longrightarrow> 0 < f32_of_nat b"
  using f32_mono [of 1 b] f32_small [of 1] by simp

text \<open>At most one when the divisor is not smaller.\<close>

lemma f32_ceil_div_le: "0 < b \<Longrightarrow> a \<le> b \<Longrightarrow> \<exists>n. f32_ceil_div a b = Some n \<and> n \<le> 1"
proof -
  assume b: "0 < b" and le: "a \<le> b"
  let ?p = "f32_of_nat a" and ?q = "f32_of_nat b"
  have "f32_ceil_quotient ?p ?q \<le> 1"
  proof (cases "?p = ?q")
    case True
    have "bit_size 1 = 1" by (simp add: bit_size_pos)
    moreover have "round_div (?q * 2 ^ 23) ?q = 2 ^ 23" using round_div_exact [OF f32_pos [OF b], of "2 ^ 23"] by (simp add: mult.commute)
    ultimately show ?thesis using f32_pos [OF b] by (simp add: True f32_ceil_quotient_def ceil_div_def)
  next
    case False
    then have "?p div ?q = 0" using f32_mono [OF le] by simp
    then show ?thesis by (simp add: f32_ceil_quotient_def)
  qed
  then show ?thesis using b by (simp add: f32_ceil_div_def)
qed

text \<open>Below \<open>2 ^ 24\<close> the rounded quotient exceeds one exactly when the dividend exceeds the divisor.\<close>

lemma ceil_div_mono: "0 < b \<Longrightarrow> a \<le> a' \<Longrightarrow> ceil_div a b \<le> ceil_div a' b"
proof -
  assume b: "0 < b" and le: "a \<le> a'"
  have "\<not> ceil_div a' b * b < a" using ceil_div_ge [OF b, of a'] le by linarith
  then have "\<not> ceil_div a' b < ceil_div a b" by (simp only: ceil_div_less_iff [OF b] simp_thms)
  then show ?thesis by simp
qed

lemma ceil_div_exact: "0 < b \<Longrightarrow> ceil_div (n * b) b = n"
  by (simp add: ceil_div_def)

lemma round_div_scaled: "0 < q \<Longrightarrow> n * q \<le> p \<Longrightarrow> n * m \<le> round_div (p * m) q"
proof -
  assume q: "0 < q" and p: "n * q \<le> p"
  have "n * m * q \<le> p * m" using mult_le_mono1 [OF p, of m] by (simp add: mult.commute mult.left_commute)
  then have "round_div (n * m * q) q \<le> round_div (p * m) q" by (rule round_div_mono)
  then show ?thesis by (simp only: round_div_exact [OF q])
qed

lemma f32_quotient_bounds:
  assumes p: "0 < p" "p < 2 ^ 24" and q: "0 < q"
  shows "1 \<le> f32_ceil_quotient p q" and "f32_ceil_quotient p q \<le> p"
    and "q < 2 ^ 24 \<Longrightarrow> q < p \<Longrightarrow> 2 \<le> f32_ceil_quotient p q"
proof -
  let ?k = "bit_size (p div q)"
  let ?m = "2 ^ (24 - ?k) :: nat"
  let ?r = "round_div (p * ?m) q"
  have k24: "?k \<le> 24" using p(2) div_le_dividend [of p q] by (intro bit_size_le) linarith
  have m: "0 < ?m" by simp
  have eq: "f32_ceil_quotient p q = (if ?k = 0 then 1 else ceil_div ?r ?m)"
    using p(1) k24 by (simp add: f32_ceil_quotient_def Let_def)
  have ge: "n * q \<le> p \<Longrightarrow> n \<le> ceil_div ?r ?m" for n
    using round_div_scaled [OF q, of n p ?m] ceil_div_mono [OF m, of "n * ?m" ?r] ceil_div_exact [OF m, of n] by simp
  have k1: "q \<le> p" if "?k \<noteq> 0"
  proof (rule ccontr)
    assume "\<not> q \<le> p"
    then have "?k = 0" by simp
    with that show False by simp
  qed
  show "1 \<le> f32_ceil_quotient p q" using ge [of 1] k1 unfolding eq by simp
  have "p * ?m \<le> p * ?m * q" using q by simp
  then have "?r \<le> p * ?m" using round_div_mono [of "p * ?m" "p * ?m * q" q] round_div_exact [OF q, of "p * ?m"] by simp
  then have "ceil_div ?r ?m \<le> p" using ceil_div_mono [OF m, of ?r "p * ?m"] ceil_div_exact [OF m, of p] by simp
  then show "f32_ceil_quotient p q \<le> p" using p(1) unfolding eq by simp
  show "2 \<le> f32_ceil_quotient p q" if q24: "q < 2 ^ 24" and less: "q < p"
  proof -
    have k0: "?k \<noteq> 0" using less q bit_size_pos [of "p div q"] by (simp add: div_greater_zero_iff)
    show ?thesis
    proof (cases "2 * q \<le> p")
      case True
      then show ?thesis using ge [of 2] k0 unfolding eq by simp
    next
      case False
      then have d: "p div q = 1" using less q by (simp add: div_nat_eqI)
      have k: "?k = 1" unfolding d by (simp add: bit_size_pos)
      have "(q + 1) * 2 ^ 23 \<le> p * 2 ^ 23" using less by simp
      then have "round_div ((q + 1) * 2 ^ 23) q \<le> ?r" unfolding k by (intro round_div_mono) simp
      moreover have "2 ^ 23 < round_div ((q + 1) * 2 ^ 23) q"
      proof -
        let ?x = "(2 :: nat) ^ 23"
        have e: "(q + 1) * ?x = ?x + ?x * q" by (simp only: distrib_right mult_1 mult.commute add.commute)
        have dm: "((q + 1) * ?x) div q = ?x + ?x div q" "((q + 1) * ?x) mod q = ?x mod q"
          unfolding e using q by simp_all
        show ?thesis
        proof (cases "?x < q")
          case True
          then have "?x div q = 0" "?x mod q = ?x" by simp_all
          moreover have "q < 2 * ?x" using q24 by simp
          ultimately show ?thesis unfolding round_div_def Let_def dm by simp
        next
          case False
          then have "0 < ?x div q" using q by (simp only: div_greater_zero_iff not_less)
          then show ?thesis unfolding round_div_def Let_def dm by simp
        qed
      qed
      ultimately have "?m < ?r" unfolding k by simp
      then have "1 < ceil_div ?r ?m" using ceil_div_less_iff [OF m, of 1 ?r] by simp
      then show ?thesis using k0 unfolding eq by simp
    qed
  qed
qed

lemma f32_ceil_div_small:
  assumes "0 < a" "a < 2 ^ 24" "0 < b" "b < 2 ^ 24"
  shows "\<exists>n. f32_ceil_div a b = Some n \<and> 1 \<le> n \<and> n \<le> a \<and> (1 < n \<longleftrightarrow> b < a)"
proof -
  let ?n = "f32_ceil_quotient a b"
  have e: "f32_ceil_div a b = Some ?n" using assms by (simp add: f32_ceil_div_def f32_small)
  have "?n \<le> 1" if "\<not> b < a" using f32_ceil_div_le [of b a] that assms(3) e by auto
  moreover have "2 \<le> ?n" if "b < a" using f32_quotient_bounds(3) [OF assms(1-4) that] .
  ultimately have "1 < ?n \<longleftrightarrow> b < a" by (cases "b < a") auto
  then show ?thesis using e f32_quotient_bounds(1,2) [OF assms(1-3)] by blast
qed

lemma f32_mul_small: "a * b < 2 ^ 24 \<Longrightarrow> f32_mul (Some a) (Some b) = Some (a * b)"
  by (simp add: f32_mul_def f32_small)

section \<open>Iteration\<close>

fun riter :: "nat \<Rightarrow> ('s \<Rightarrow> 's res) \<Rightarrow> 's \<Rightarrow> 's res" where
  "riter 0 f s = Inr s"
| "riter (Suc n) f s = rbind (f s) (riter n f)"

lemma riter_add: "riter (m + n) f s = rbind (riter m f s) (riter n f)"
proof (induction m arbitrary: s)
  case 0
  then show ?case by simp
next
  case (Suc m)
  then show ?case by (cases "f s") simp_all
qed

lemma riter_Suc_right: "riter (Suc n) f s = rbind (riter n f s) f"
proof -
  have "riter (Suc n) f s = riter (n + 1) f s" by simp
  also have "\<dots> = rbind (riter n f s) (riter 1 f)" by (rule riter_add)
  also have "\<dots> = rbind (riter n f s) f"
    by (cases "riter n f s") (simp_all add: rbind_def split: sum.splits)
  finally show ?thesis .
qed

section \<open>Simulation loops\<close>

text \<open>
  \<open>run\<close> takes a \<open>step\<close> and goes on until the state is \<open>finished\<close>; a step that aborts ends it too. The
  facts a client needs to show what such a loop returns.
\<close>

locale clocked =
  fixes step :: "'s \<Rightarrow> 's res"
    and finished :: "'s \<Rightarrow> bool"
    and run :: "'s \<Rightarrow> 's res option"
  assumes run_unfold: "run s = (case step s of Inl e \<Rightarrow> Some (Inl e)
      | Inr s' \<Rightarrow> (if finished s' then Some (Inr s') else run s'))"
begin

lemma run_abort: "step s = Inl e \<Longrightarrow> run s = Some (Inl e)"
  by (subst run_unfold) simp

lemma run_continue: "step s = Inr s' \<Longrightarrow> \<not> finished s' \<Longrightarrow> run s = run s'"
  by (subst run_unfold) simp

lemma run_finish: "step s = Inr s' \<Longrightarrow> finished s' \<Longrightarrow> run s = Some (Inr s')"
  by (subst run_unfold) simp

lemma ends_step:
  assumes "step s = Inr s'" and "if finished s' then P s' else \<exists>s''. run s' = Some (Inr s'') \<and> P s''"
  shows "\<exists>s''. run s = Some (Inr s'') \<and> P s''"
  using assms run_continue [OF assms(1)] run_finish [OF assms(1)] by (cases "finished s'") simp_all

end

section \<open>Lists\<close>

lemma map_upt_snoc: "i \<le> j \<Longrightarrow> map f [i..<j] @ [f j] = map f [i..<Suc j]"
  by simp

lemma map_upt_Cons: "i < j \<Longrightarrow> map f [i..<j] = f i # map f [Suc i..<j]"
  by (simp add: upt_conv_Cons)

text \<open>Row-major indices.\<close>

lemma index_less:
  assumes "a < (n::nat)" and "k < m"
  shows "a * m + k < n * m"
proof -
  have "a * m + k < Suc a * m" using assms(2) by simp
  also have "\<dots> \<le> n * m" using assms(1) by (intro mult_le_mono1) simp
  finally show ?thesis .
qed

end
