(* ===== verification/Types.thy ===== *)
theory Types
  imports Prelude
begin

text \<open>
  The data of the simulator: the enumerations of \<^verbatim>\<open>include/types.h\<close>, the counters of
  \<^verbatim>\<open>include/Stats.h\<close>, the configuration objects of \<^verbatim>\<open>include/Config.h\<close>, tiles and layers
  (\<^verbatim>\<open>Tile.cpp\<close>, \<^verbatim>\<open>DNNLayer.cpp\<close>) and the packages that travel over the links
  (\<^verbatim>\<open>DataPackage.cpp\<close>).

  The element type \<open>data_t\<close> (a C++ \<open>float\<close>) is a type variable with the syntactic classes
  \<open>zero\<close>, \<open>plus\<close> and \<open>times\<close> only. The definitions assume nothing of the operations; a theorem that needs
  a law of arithmetic has it as a hypothesis. The order of additions is part of the statements, because
  IEEE addition is not associative.
\<close>

section \<open>Enumerations\<close>

datatype operand_t = WEIGHT | IACTIVATION | OACTIVATION | PSUM

datatype traffic_t = BROADCAST | MULTICAST | UNICAST

datatype direction_t = LEFT | RIGHT

datatype fl_t = RECEIVE | SEND | NOT_CONFIGURED

datatype adderconfig_t = ADD_2_1 | ADD_3_1 | ADD_1_1_PLUS_FW_1_1 | FW_2_2 | NO_MODE | FOLD

datatype Layer_t = CONV | POOL | FC | GEMM | SPARSE_DENSE

datatype ReduceNetwork_t = ASNETWORK | FENETWORK | TEMPORALRN

datatype MultiplierNetwork_t = LINEAR | OS_MESH

datatype MemoryController_t =
  MAERI_DENSE_WORKLOAD | SIGMA_SPARSE_GEMM | MAGMA_SPARSE_DENSE | TPU_OS_DENSE

datatype SparsityControllerState =
  CONFIGURING | DIST_STA_MATRIX | DIST_STR_MATRIX | WAITING_FOR_NEXT_STA_ITER | ALL_DATA_SENT

datatype OSMeshControllerState =
  OS_CONFIGURING | OS_DIST_INPUTS | OS_WAITING_FOR_NEXT_ITER | OS_ALL_DATA_SENT

datatype Dataflow = CNN_DATAFLOW | MK_STA_KN_STR | MK_STR_KN_STA | SPARSE_DENSE_DATAFLOW

datatype GENERATION_TYPE = GEN_BY_ROWS | GEN_BY_COLS

datatype adderoperation_t = ADDER | COMPARATOR | MULTIPLIER | NOP

section \<open>Statistics counters\<close>

record ConnectionStats =
  cs_n_sends :: counter
  cs_n_receives :: counter

definition ConnectionStats_reset :: ConnectionStats where
  "ConnectionStats_reset = \<lparr>cs_n_sends = 0, cs_n_receives = 0\<rparr>"

record FifoStats =
  fs_n_pops :: counter
  fs_n_pushes :: counter
  fs_n_fronts :: counter
  fs_max_occupancy :: counter

definition FifoStats_reset :: FifoStats where
  "FifoStats_reset =
     \<lparr>fs_n_pops = 0, fs_n_pushes = 0, fs_n_fronts = 0, fs_max_occupancy = 0\<rparr>"

record DSwitchStats =
  ds_total_cycles :: counter
  ds_n_broadcasts :: counter
  ds_n_unicasts :: counter
  ds_n_left_sends :: counter
  ds_n_right_sends :: counter

definition DSwitchStats_reset :: DSwitchStats where
  "DSwitchStats_reset =
     \<lparr>ds_total_cycles = 0, ds_n_broadcasts = 0, ds_n_unicasts = 0,
      ds_n_left_sends = 0, ds_n_right_sends = 0\<rparr>"

record MultiplierOSStats =
  mos_total_cycles :: counter
  mos_n_multiplications :: counter
  mos_n_bottom_forwardings_send :: counter
  mos_n_top_forwardings_receive :: counter
  mos_n_right_forwardings_send :: counter
  mos_n_left_forwardings_receive :: counter
  mos_n_configurations :: counter

definition MultiplierOSStats_reset :: MultiplierOSStats where
  "MultiplierOSStats_reset =
     \<lparr>mos_total_cycles = 0, mos_n_multiplications = 0, mos_n_bottom_forwardings_send = 0,
      mos_n_top_forwardings_receive = 0, mos_n_right_forwardings_send = 0,
      mos_n_left_forwardings_receive = 0, mos_n_configurations = 0\<rparr>"

record AccumulatorStats =
  as_total_cycles :: counter
  as_n_adds :: counter
  as_n_memory_send :: counter
  as_n_receives :: counter
  as_n_register_reads :: counter
  as_n_register_writes :: counter
  as_n_configurations :: counter

definition AccumulatorStats_reset :: AccumulatorStats where
  "AccumulatorStats_reset =
     \<lparr>as_total_cycles = 0, as_n_adds = 0, as_n_memory_send = 0, as_n_receives = 0,
      as_n_register_reads = 0, as_n_register_writes = 0, as_n_configurations = 0\<rparr>"

record SDMemoryStats =
  ss_total_cycles :: counter
  ss_n_SRAM_weight_reads :: counter
  ss_n_SRAM_input_reads :: counter
  ss_n_SRAM_psum_reads :: counter
  ss_n_SRAM_psum_writes :: counter
  ss_sta_sparsity :: counter
  ss_str_sparsity :: counter
  ss_n_sta_vectors_at_once_avg :: counter
  ss_n_sta_vectors_at_once_max :: counter
  ss_n_reconfigurations :: counter
  ss_dataflow :: Dataflow
  ss_n_SRAM_read_ports_weights_use :: "counter list"
  ss_n_SRAM_read_ports_inputs_use :: "counter list"
  ss_n_SRAM_read_ports_psums_use :: "counter list"
  ss_n_SRAM_write_ports_use :: "counter list"

record CollectionBusLineStats =
  bs_total_cycles :: counter
  bs_n_times_conflicts :: counter
  bs_n_conflicts_average :: counter
  bs_n_sends :: counter
  bs_n_inputs_receive :: "counter list"

section \<open>Configuration objects\<close>

record DSNetworkConfig =
  dsn_n_switches_traversed_by_cycle :: nat

record DSwitchConfig =
  dsc_latency :: nat
  dsc_input_ports :: nat
  dsc_output_ports :: nat
  dsc_port_width :: nat

record MSNetworkConfig =
  msn_multiplier_network_type :: MultiplierNetwork_t
  msn_ms_size :: nat
  msn_ms_rows :: nat
  msn_ms_cols :: nat

record MSwitchConfig =
  msc_latency :: nat
  msc_input_ports :: nat
  msc_output_ports :: nat
  msc_forwarding_ports :: nat
  msc_port_width :: nat
  msc_buffers_capacity :: nat

record ASNetworkConfig =
  asn_reduce_network_type :: ReduceNetwork_t
  asn_accumulation_buffer_enabled :: nat

record ASwitchConfig =
  asc_buffers_capacity :: nat
  asc_input_ports :: nat
  asc_output_ports :: nat
  asc_forwarding_ports :: nat
  asc_port_width :: nat
  asc_latency :: nat

record LookUpTableConfig =
  ltc_latency :: nat
  ltc_port_width :: nat

record SDMemoryConfig =
  sdc_mem_controller_type :: MemoryController_t
  sdc_write_buffer_capacity :: nat
  sdc_n_read_ports :: nat
  sdc_n_write_ports :: nat
  sdc_port_width :: nat

record Config =
  print_stats_enabled :: nat
  m_DSNetworkCfg :: DSNetworkConfig
  m_DSwitchCfg :: DSwitchConfig
  m_MSNetworkCfg :: MSNetworkConfig
  m_MSwitchCfg :: MSwitchConfig
  m_ASNetworkCfg :: ASNetworkConfig
  m_ASwitchCfg :: ASwitchConfig
  m_LookUpTableCfg :: LookUpTableConfig
  m_SDMemoryCfg :: SDMemoryConfig

text \<open>\<open>Config::reset\<close>: the default parameters, which the constructor installs.\<close>

definition Config_reset :: Config where
  "Config_reset =
     \<lparr>print_stats_enabled = 1,
      m_DSNetworkCfg = \<lparr>dsn_n_switches_traversed_by_cycle = 23\<rparr>,
      m_DSwitchCfg =
        \<lparr>dsc_latency = 1, dsc_input_ports = 1, dsc_output_ports = 2, dsc_port_width = 16\<rparr>,
      m_MSNetworkCfg =
        \<lparr>msn_multiplier_network_type = LINEAR, msn_ms_size = 64, msn_ms_rows = 0,
         msn_ms_cols = 0\<rparr>,
      m_MSwitchCfg =
        \<lparr>msc_latency = 1, msc_input_ports = 1, msc_output_ports = 1, msc_forwarding_ports = 1,
         msc_port_width = 16, msc_buffers_capacity = 2048\<rparr>,
      m_ASNetworkCfg =
        \<lparr>asn_reduce_network_type = ASNETWORK, asn_accumulation_buffer_enabled = 0\<rparr>,
      m_ASwitchCfg =
        \<lparr>asc_buffers_capacity = 256, asc_input_ports = 2, asc_output_ports = 1,
         asc_forwarding_ports = 1, asc_port_width = 16, asc_latency = 1\<rparr>,
      m_LookUpTableCfg = \<lparr>ltc_latency = 1, ltc_port_width = 1\<rparr>,
      m_SDMemoryCfg =
        \<lparr>sdc_mem_controller_type = MAERI_DENSE_WORKLOAD, sdc_write_buffer_capacity = 256,
         sdc_n_read_ports = 4, sdc_n_write_ports = 4, sdc_port_width = 16\<rparr>\<rparr>"

definition sparsitySupportEnabled :: "Config \<Rightarrow> bool" where
  "sparsitySupportEnabled cfg \<longleftrightarrow> sdc_mem_controller_type (m_SDMemoryCfg cfg) = SIGMA_SPARSE_GEMM"

definition convOperationSupported :: "Config \<Rightarrow> bool" where
  "convOperationSupported cfg \<longleftrightarrow>
     sdc_mem_controller_type (m_SDMemoryCfg cfg) = MAERI_DENSE_WORKLOAD"

section \<open>Names of enumeration values\<close>

text \<open>The \<open>get_string\<close> and \<open>get_type\<close> functions of \<^verbatim>\<open>utility.cpp\<close>; an unknown name fails an assertion.\<close>

fun get_string_adder_configuration :: "adderconfig_t \<Rightarrow> string" where
  "get_string_adder_configuration ADD_2_1 = ''ADD_2_1''"
| "get_string_adder_configuration ADD_3_1 = ''ADD_3_1''"
| "get_string_adder_configuration ADD_1_1_PLUS_FW_1_1 = ''ADD_1_1_PLUS_FW_1_1''"
| "get_string_adder_configuration FW_2_2 = ''FW_2_2''"
| "get_string_adder_configuration NO_MODE = ''NO_MODE''"
| "get_string_adder_configuration FOLD = ''FOLD''"

fun get_string_fwlink_direction :: "fl_t \<Rightarrow> string" where
  "get_string_fwlink_direction SEND = ''SEND''"
| "get_string_fwlink_direction RECEIVE = ''RECEIVE''"
| "get_string_fwlink_direction NOT_CONFIGURED = ''NOT_CONFIGURED''"

fun get_string_reduce_network_type :: "ReduceNetwork_t \<Rightarrow> string" where
  "get_string_reduce_network_type ASNETWORK = ''ASNETWORK''"
| "get_string_reduce_network_type FENETWORK = ''FENETWORK''"
| "get_string_reduce_network_type TEMPORALRN = ''TEMPORALRN''"

definition get_type_reduce_network_type :: "string \<Rightarrow> ReduceNetwork_t res" where
  "get_type_reduce_network_type s =
     (if s = ''ASNETWORK'' then Inr ASNETWORK
      else if s = ''FENETWORK'' then Inr FENETWORK
      else if s = ''TEMPORALRN'' then Inr TEMPORALRN
      else Inl AssertFail)"

fun get_string_multiplier_network_type :: "MultiplierNetwork_t \<Rightarrow> string" where
  "get_string_multiplier_network_type LINEAR = ''LINEAR''"
| "get_string_multiplier_network_type OS_MESH = ''OS_MESH''"

definition get_type_multiplier_network_type :: "string \<Rightarrow> MultiplierNetwork_t res" where
  "get_type_multiplier_network_type s =
     (if s = ''LINEAR'' then Inr LINEAR
      else if s = ''OS_MESH'' then Inr OS_MESH
      else Inl AssertFail)"

fun get_string_memory_controller_type :: "MemoryController_t \<Rightarrow> string" where
  "get_string_memory_controller_type MAERI_DENSE_WORKLOAD = ''MAERI_DENSE_WORKLOAD''"
| "get_string_memory_controller_type SIGMA_SPARSE_GEMM = ''SIGMA_SPARSE_GEMM''"
| "get_string_memory_controller_type MAGMA_SPARSE_DENSE = ''MAGMA_SPARSE_DENSE''"
| "get_string_memory_controller_type TPU_OS_DENSE = ''TPU_OS_DENSE''"

definition get_type_memory_controller_type :: "string \<Rightarrow> MemoryController_t res" where
  "get_type_memory_controller_type s =
     (if s = ''MAERI_DENSE_WORKLOAD'' then Inr MAERI_DENSE_WORKLOAD
      else if s = ''SIGMA_SPARSE_GEMM'' then Inr SIGMA_SPARSE_GEMM
      else if s = ''TPU_OS_DENSE'' then Inr TPU_OS_DENSE
      else if s = ''MAGMA_SPARSE_DENSE'' then Inr MAGMA_SPARSE_DENSE
      else Inl AssertFail)"

definition get_type_dataflow_type :: "string \<Rightarrow> Dataflow res" where
  "get_type_dataflow_type s =
     (if s = ''CNN_DATAFLOW'' then Inr CNN_DATAFLOW
      else if s = ''MK_STA_KN_STR'' then Inr MK_STA_KN_STR
      else if s = ''MK_STR_KN_STA'' then Inr MK_STR_KN_STA
      else if s = ''SPARSE_DENSE_DATAFLOW'' then Inr SPARSE_DENSE_DATAFLOW
      else Inl AssertFail)"

fun get_string_dataflow_type :: "Dataflow \<Rightarrow> string" where
  "get_string_dataflow_type CNN_DATAFLOW = ''CNN_DATAFLOW''"
| "get_string_dataflow_type MK_STR_KN_STA = ''MK_STR_KN_STA''"
| "get_string_dataflow_type MK_STA_KN_STR = ''MK_STA_KN_STR''"
| "get_string_dataflow_type SPARSE_DENSE_DATAFLOW = ''SPARSE_DENSE_DATAFLOW''"

lemma enum_strings_roundtrip:
  "get_type_reduce_network_type (get_string_reduce_network_type r) = Inr r"
  "get_type_multiplier_network_type (get_string_multiplier_network_type m) = Inr m"
  "get_type_memory_controller_type (get_string_memory_controller_type c) = Inr c"
  "get_type_dataflow_type (get_string_dataflow_type d) = Inr d"
     apply (cases r; simp add: get_type_reduce_network_type_def)
    apply (cases m; simp add: get_type_multiplier_network_type_def)
   apply (cases c; simp add: get_type_memory_controller_type_def)
  apply (cases d; simp add: get_type_dataflow_type_def)
  done

lemma enum_parse_sound:
  "get_type_reduce_network_type s = Inr r \<Longrightarrow> get_string_reduce_network_type r = s"
  "get_type_multiplier_network_type s = Inr m \<Longrightarrow> get_string_multiplier_network_type m = s"
  "get_type_memory_controller_type s = Inr c \<Longrightarrow> get_string_memory_controller_type c = s"
  "get_type_dataflow_type s = Inr d \<Longrightarrow> get_string_dataflow_type d = s"
  by (auto simp: get_type_reduce_network_type_def get_type_multiplier_network_type_def
      get_type_memory_controller_type_def get_type_dataflow_type_def split: if_splits)

section \<open>Reading a configuration file\<close>

text \<open>
  The TOML parser is a library; a parsed file is what its lookups return: a boolean for a
  top-level key, a number or a string for a qualified key, or nothing when the key is absent.
\<close>

record toml =
  get_as_bool :: "string \<Rightarrow> bool option"
  get_qualified_as_uint :: "string \<Rightarrow> nat option"
  get_qualified_as_string :: "string \<Rightarrow> string option"

text \<open>\<open>if(x_conf) field = *x_conf;\<close>\<close>

definition set_if :: "'v option \<Rightarrow> ('v \<Rightarrow> 'c \<Rightarrow> 'c) \<Rightarrow> 'c \<Rightarrow> 'c" where
  "set_if v f c = (case v of None \<Rightarrow> c | Some x \<Rightarrow> f x c)"

definition set_if_type :: "string option \<Rightarrow> (string \<Rightarrow> 't res) \<Rightarrow> ('t \<Rightarrow> 'c \<Rightarrow> 'c) \<Rightarrow> 'c \<Rightarrow> 'c res" where
  "set_if_type v parse f c =
     (case v of None \<Rightarrow> Inr c | Some s \<Rightarrow> rbind (parse s) (\<lambda>t. Inr (f t c)))"

definition Config_load_general :: "toml \<Rightarrow> Config \<Rightarrow> Config" where
  "Config_load_general t c =
     set_if (get_qualified_as_uint t ''DSNetwork.n_switches_traversed_by_cycle'')
       (\<lambda>v. m_DSNetworkCfg_update (dsn_n_switches_traversed_by_cycle_update (\<lambda>_. v)))
     (set_if (get_as_bool t ''print_stats_enabled'')
       (\<lambda>v. print_stats_enabled_update (\<lambda>_. if v then 1 else 0)) c)"

definition Config_load_DSwitch :: "toml \<Rightarrow> DSwitchConfig \<Rightarrow> DSwitchConfig" where
  "Config_load_DSwitch t =
     set_if (get_qualified_as_uint t ''DSwitch.port_width'') (\<lambda>v. dsc_port_width_update (\<lambda>_. v))
     \<circ> set_if (get_qualified_as_uint t ''DSwitch.output_ports'') (\<lambda>v. dsc_output_ports_update (\<lambda>_. v))
     \<circ> set_if (get_qualified_as_uint t ''DSwitch.input_ports'') (\<lambda>v. dsc_input_ports_update (\<lambda>_. v))
     \<circ> set_if (get_qualified_as_uint t ''DSwitch.latency'') (\<lambda>v. dsc_latency_update (\<lambda>_. v))"

definition Config_load_MSNetwork :: "toml \<Rightarrow> MSNetworkConfig \<Rightarrow> MSNetworkConfig res" where
  "Config_load_MSNetwork t =
     set_if_type (get_qualified_as_string t ''MSNetwork.type'') get_type_multiplier_network_type
       (\<lambda>v. msn_multiplier_network_type_update (\<lambda>_. v))
     \<circ> set_if (get_qualified_as_uint t ''MSNetwork.ms_cols'') (\<lambda>v. msn_ms_cols_update (\<lambda>_. v))
     \<circ> set_if (get_qualified_as_uint t ''MSNetwork.ms_rows'') (\<lambda>v. msn_ms_rows_update (\<lambda>_. v))
     \<circ> set_if (get_qualified_as_uint t ''MSNetwork.ms_size'') (\<lambda>v. msn_ms_size_update (\<lambda>_. v))"

definition Config_load_MSwitch :: "toml \<Rightarrow> MSwitchConfig \<Rightarrow> MSwitchConfig" where
  "Config_load_MSwitch t =
     set_if (get_qualified_as_uint t ''MSwitch.buffers_capacity'') (\<lambda>v. msc_buffers_capacity_update (\<lambda>_. v))
     \<circ> set_if (get_qualified_as_uint t ''MSwitch.port_width'') (\<lambda>v. msc_port_width_update (\<lambda>_. v))
     \<circ> set_if (get_qualified_as_uint t ''MSwitch.forwarding_ports'') (\<lambda>v. msc_forwarding_ports_update (\<lambda>_. v))
     \<circ> set_if (get_qualified_as_uint t ''MSwitch.output_ports'') (\<lambda>v. msc_output_ports_update (\<lambda>_. v))
     \<circ> set_if (get_qualified_as_uint t ''MSwitch.input_ports'') (\<lambda>v. msc_input_ports_update (\<lambda>_. v))
     \<circ> set_if (get_qualified_as_uint t ''MSwitch.latency'') (\<lambda>v. msc_latency_update (\<lambda>_. v))"

definition Config_load_ReduceNetwork :: "toml \<Rightarrow> ASNetworkConfig \<Rightarrow> ASNetworkConfig res" where
  "Config_load_ReduceNetwork t c =
     rbind (set_if_type (get_qualified_as_string t ''ReduceNetwork.type'') get_type_reduce_network_type
       (\<lambda>v. asn_reduce_network_type_update (\<lambda>_. v)) c) (\<lambda>c.
     Inr (set_if (get_qualified_as_uint t ''ReduceNetwork.accumulation_buffer_enabled'')
       (\<lambda>v. asn_accumulation_buffer_enabled_update (\<lambda>_. v)) c))"

definition Config_load_ASwitch :: "toml \<Rightarrow> ASwitchConfig \<Rightarrow> ASwitchConfig" where
  "Config_load_ASwitch t =
     set_if (get_qualified_as_uint t ''ASwitch.latency'') (\<lambda>v. asc_latency_update (\<lambda>_. v))
     \<circ> set_if (get_qualified_as_uint t ''ASwitch.port_width'') (\<lambda>v. asc_port_width_update (\<lambda>_. v))
     \<circ> set_if (get_qualified_as_uint t ''ASwitch.forwarding_ports'') (\<lambda>v. asc_forwarding_ports_update (\<lambda>_. v))
     \<circ> set_if (get_qualified_as_uint t ''ASwitch.output_ports'') (\<lambda>v. asc_output_ports_update (\<lambda>_. v))
     \<circ> set_if (get_qualified_as_uint t ''ASwitch.input_ports'') (\<lambda>v. asc_input_ports_update (\<lambda>_. v))
     \<circ> set_if (get_qualified_as_uint t ''ASwitch.buffers_capacity'') (\<lambda>v. asc_buffers_capacity_update (\<lambda>_. v))"

definition Config_load_LookUpTable :: "toml \<Rightarrow> LookUpTableConfig \<Rightarrow> LookUpTableConfig" where
  "Config_load_LookUpTable t =
     set_if (get_qualified_as_uint t ''LookUpTable.port_width'') (\<lambda>v. ltc_port_width_update (\<lambda>_. v))
     \<circ> set_if (get_qualified_as_uint t ''LookUpTable.latency'') (\<lambda>v. ltc_latency_update (\<lambda>_. v))"

definition Config_load_SDMemory :: "toml \<Rightarrow> SDMemoryConfig \<Rightarrow> SDMemoryConfig res" where
  "Config_load_SDMemory t =
     set_if_type (get_qualified_as_string t ''SDMemory.controller_type'') get_type_memory_controller_type
       (\<lambda>v. sdc_mem_controller_type_update (\<lambda>_. v))
     \<circ> set_if (get_qualified_as_uint t ''SDMemory.port_width'') (\<lambda>v. sdc_port_width_update (\<lambda>_. v))
     \<circ> set_if (get_qualified_as_uint t ''SDMemory.rn_bw'') (\<lambda>v. sdc_n_write_ports_update (\<lambda>_. v))
     \<circ> set_if (get_qualified_as_uint t ''SDMemory.dn_bw'') (\<lambda>v. sdc_n_read_ports_update (\<lambda>_. v))"

definition Config_loadFile :: "toml \<Rightarrow> Config \<Rightarrow> Config res" where
  "Config_loadFile t c =
     (let c = m_DSwitchCfg_update (Config_load_DSwitch t) (Config_load_general t c) in
      rbind (Config_load_MSNetwork t (m_MSNetworkCfg c)) (\<lambda>msn.
      let c = m_MSwitchCfg_update (Config_load_MSwitch t) (c\<lparr>m_MSNetworkCfg := msn\<rparr>) in
      rbind (Config_load_ReduceNetwork t (m_ASNetworkCfg c)) (\<lambda>asn.
      let c = m_LookUpTableCfg_update (Config_load_LookUpTable t)
                (m_ASwitchCfg_update (Config_load_ASwitch t) (c\<lparr>m_ASNetworkCfg := asn\<rparr>)) in
      rbind (Config_load_SDMemory t (m_SDMemoryCfg c)) (\<lambda>sdc.
      Inr (c\<lparr>m_SDMemoryCfg := sdc\<rparr>)))))"

section \<open>Tiles, layers and packages\<close>

record SparseVN =
  sv_size :: nat
  sv_folding :: bool

definition SparseVN_get_VN_Size :: "SparseVN \<Rightarrow> nat" where
  "SparseVN_get_VN_Size v = (if sv_folding v then uadd (sv_size v) 1 else sv_size v)"

record Tile =
  T_R :: nat
  T_S :: nat
  T_C :: nat
  T_K :: nat
  T_G :: nat
  T_N :: nat
  T_Xo :: nat
  T_Yo :: nat
  VN_Size :: nat
  Num_VNs :: nat
  t_folding :: bool

definition Tile_conv ::
  "nat \<Rightarrow> nat \<Rightarrow> nat \<Rightarrow> nat \<Rightarrow> nat \<Rightarrow> nat \<Rightarrow> nat \<Rightarrow> nat \<Rightarrow> bool \<Rightarrow> Tile" where
  "Tile_conv r s c k g n x y fd =
     \<lparr>T_R = r, T_S = s, T_C = c, T_K = k, T_G = g, T_N = n, T_Xo = x, T_Yo = y,
      VN_Size = (let v = umul (umul r s) c in if fd then uadd v 1 else v),
      Num_VNs = umul (umul (umul (umul k g) n) x) y,
      t_folding = fd\<rparr>"

text \<open>
  The constructor for fully connected layers. Inside the constructor the names \<open>T_K\<close> and
  \<open>T_N\<close> of the two products are its parameters, not the members of the same name.
\<close>

definition Tile_fc :: "nat \<Rightarrow> nat \<Rightarrow> nat \<Rightarrow> bool \<Rightarrow> Tile" where
  "Tile_fc m n k fd =
     \<lparr>T_R = 1, T_S = k, T_C = 1, T_K = n, T_G = 1, T_N = 1, T_Xo = m, T_Yo = 1,
      VN_Size = (let v = umul (umul 1 k) 1 in if fd then uadd v 1 else v),
      Num_VNs = umul (umul (umul (umul k 1) n) m) 1,
      t_folding = fd\<rparr>"

record DNNLayer =
  l_type :: Layer_t
  l_R :: nat
  l_S :: nat
  l_C :: nat
  l_K :: nat
  l_G :: nat
  l_N :: nat
  l_X :: nat
  l_Y :: nat
  l_Xo :: nat
  l_Yo :: nat
  l_strides :: nat

definition DNNLayer_new ::
  "Layer_t \<Rightarrow> nat \<Rightarrow> nat \<Rightarrow> nat \<Rightarrow> nat \<Rightarrow> nat \<Rightarrow> nat \<Rightarrow> nat \<Rightarrow> nat \<Rightarrow> nat \<Rightarrow> DNNLayer res" where
  "DNNLayer_new ty r s c k g n x y st =
     rbind (rdiv c g) (\<lambda>cg.
     rbind (rdiv k g) (\<lambda>kg.
     rbind (rdiv (uadd (usub x r) st) st) (\<lambda>xo.
     rbind (rdiv (uadd (usub y s) st) st) (\<lambda>yo.
     Inr \<lparr>l_type = ty, l_R = r, l_S = s, l_C = cg, l_K = kg, l_G = g, l_N = n, l_X = x, l_Y = y,
          l_Xo = xo, l_Yo = yo, l_strides = st\<rparr>))))"

text \<open>
  A package. A member that no constructor initialised is \<open>uninit\<close>, about which nothing can be
  proved; \<open>p_dests = None\<close> is the null pointer.
\<close>

abbreviation uninit :: 'a where
  "uninit \<equiv> undefined"

record 'd DataPackage =
  p_size_package :: nat
  p_data :: 'd
  p_data_type :: operand_t
  p_source :: nat
  p_dests :: "bool list option"
  p_n_dests :: nat
  p_unicast_dest :: nat
  p_traffic_type :: traffic_t
  p_VN :: nat
  p_operation_mode :: adderoperation_t
  p_output_port :: nat
  p_iteration_g :: nat
  p_iteration_k :: nat

definition DataPackage_general :: "nat \<Rightarrow> 'd \<Rightarrow> operand_t \<Rightarrow> nat \<Rightarrow> 'd DataPackage" where
  "DataPackage_general sz d ty src =
     \<lparr>p_size_package = sz, p_data = d, p_data_type = ty, p_source = src, p_dests = uninit,
      p_n_dests = uninit, p_unicast_dest = uninit, p_traffic_type = UNICAST, p_VN = uninit,
      p_operation_mode = uninit, p_output_port = uninit, p_iteration_g = uninit,
      p_iteration_k = uninit\<rparr>"

definition DataPackage_traffic ::
  "nat \<Rightarrow> 'd \<Rightarrow> operand_t \<Rightarrow> nat \<Rightarrow> traffic_t \<Rightarrow> 'd DataPackage" where
  "DataPackage_traffic sz d ty src tr =
     (DataPackage_general sz d ty src)\<lparr>p_traffic_type := tr, p_dests := None\<rparr>"

definition DataPackage_unicast ::
  "nat \<Rightarrow> 'd \<Rightarrow> operand_t \<Rightarrow> nat \<Rightarrow> traffic_t \<Rightarrow> nat \<Rightarrow> 'd DataPackage res" where
  "DataPackage_unicast sz d ty src tr dest =
     rassert (tr = UNICAST) (Inr ((DataPackage_traffic sz d ty src tr)\<lparr>p_unicast_dest := dest\<rparr>))"

definition DataPackage_multicast ::
  "nat \<Rightarrow> 'd \<Rightarrow> operand_t \<Rightarrow> nat \<Rightarrow> traffic_t \<Rightarrow> bool list \<Rightarrow> nat \<Rightarrow> 'd DataPackage" where
  "DataPackage_multicast sz d ty src tr dests n =
     (DataPackage_traffic sz d ty src tr)\<lparr>p_dests := Some dests, p_n_dests := n\<rparr>"

definition DataPackage_psum ::
  "nat \<Rightarrow> 'd \<Rightarrow> operand_t \<Rightarrow> nat \<Rightarrow> nat \<Rightarrow> adderoperation_t \<Rightarrow> 'd DataPackage" where
  "DataPackage_psum sz d ty src vn opm =
     (DataPackage_general sz d ty src)\<lparr>p_VN := vn, p_operation_mode := opm\<rparr>"

definition DataPackage_setOutputPort :: "nat \<Rightarrow> 'd DataPackage \<Rightarrow> 'd DataPackage" where
  "DataPackage_setOutputPort port p = p\<lparr>p_output_port := port\<rparr>"

definition DataPackage_setIterationK :: "nat \<Rightarrow> 'd DataPackage \<Rightarrow> 'd DataPackage" where
  "DataPackage_setIterationK k p = p\<lparr>p_iteration_k := k\<rparr>"

text \<open>
  The copy constructor: the output port of the copy stays uninitialised (the statement assigns
  the member to itself), and only a multicast package gets its own copy of the destinations, the
  first \<open>n_dests\<close> entries.
\<close>

definition DataPackage_copy :: "'d DataPackage \<Rightarrow> 'd DataPackage res" where
  "DataPackage_copy pck =
     (let c = (DataPackage_general (p_size_package pck) (p_data pck) (p_data_type pck) (p_source pck))
                \<lparr>p_traffic_type := p_traffic_type pck, p_unicast_dest := p_unicast_dest pck,
                 p_VN := p_VN pck, p_operation_mode := p_operation_mode pck,
                 p_iteration_k := p_iteration_k pck\<rparr>
      in if p_traffic_type pck = MULTICAST
         then rderef (p_dests pck) (\<lambda>ds.
              if p_n_dests pck \<le> length ds
              then Inr (c\<lparr>p_n_dests := p_n_dests pck, p_dests := Some (take (p_n_dests pck) ds)\<rparr>)
              else Inl OutOfBounds)
         else Inr c)"

end
