(* ===== verification/Links.thy ===== *)
theory Links
  imports Types
begin

text \<open>
  The links and buffers every unit is built from: \<^verbatim>\<open>Connection.cpp\<close>, \<^verbatim>\<open>Fifo.cpp\<close> and
  \<^verbatim>\<open>LookupTable.cpp\<close>. Units share connections through pointers; the model keeps the
  connections in a store that is indexed by the place where the code allocates them, and a unit
  holds indices into the store (\<open>None\<close> is a null pointer).

  Two interfaces are stated here as locales and interpreted on the definitions of the code: a
  one-place link (\<open>channel\<close>) and a first-in-first-out buffer (\<open>fifo_queue\<close>).
\<close>

section \<open>The interface of a link\<close>

locale channel =
  fixes pending :: "'c \<Rightarrow> bool"
    and contents :: "'c \<Rightarrow> 'x list"
    and send :: "'x list \<Rightarrow> 'c \<Rightarrow> 'c"
    and receive :: "'c \<Rightarrow> 'x list \<times> 'c"
  assumes pending_send: "pending (send xs c)"
    and contents_send: "contents (send xs c) = xs"
    and receive_pending: "pending c \<Longrightarrow> fst (receive c) = contents c"
    and receive_idle: "\<not> pending c \<Longrightarrow> fst (receive c) = []"
    and pending_receive: "\<not> pending (snd (receive c))"
begin

definition in_flight :: "'c \<Rightarrow> 'x list" where
  "in_flight c = (if pending c then contents c else [])"

lemma receive_in_flight: "fst (receive c) = in_flight c"
  by (simp add: in_flight_def receive_pending receive_idle)

lemma in_flight_send: "in_flight (send xs c) = xs"
  by (simp add: in_flight_def pending_send contents_send)

lemma in_flight_receive: "in_flight (snd (receive c)) = []"
  by (simp add: in_flight_def pending_receive)

lemma receive_send: "fst (receive (send xs c)) = xs"
  by (simp add: receive_in_flight in_flight_send)

text \<open>
  A reader that receives once after every send gets every batch, in order: \<open>transfer\<close> is a
  run in which the two alternate.
\<close>

fun transfer :: "'x list list \<Rightarrow> 'c \<Rightarrow> 'x list \<times> 'c" where
  "transfer [] c = ([], c)"
| "transfer (xs # xss) c =
     (let (ys, c1) = receive (send xs c); (zs, c2) = transfer xss c1 in (ys @ zs, c2))"

lemma transfer_lossless: "fst (transfer xss c) = concat xss"
proof (induction xss arbitrary: c)
  case Nil
  then show ?case by simp
next
  case (Cons xs xss)
  then show ?case
    using receive_send [of xs c] by (simp add: case_prod_beta Let_def)
qed

text \<open>A second send before the receive loses the first batch: there is no acknowledgement.\<close>

lemma send_overwrites: "fst (receive (send ys (send xs c))) = ys"
  by (rule receive_send)

end

section \<open>The interface of a buffer\<close>

locale fifo_queue =
  fixes items :: "'q \<Rightarrow> 'x list"
    and push :: "'x \<Rightarrow> 'q \<Rightarrow> 'q"
    and pop :: "'q \<Rightarrow> ('x \<times> 'q) res"
    and is_empty :: "'q \<Rightarrow> bool"
  assumes items_push: "items (push x q) = items q @ [x]"
    and pop_empty: "items q = [] \<Longrightarrow> pop q = Inl AssertFail"
    and pop_items: "items q = x # xs \<Longrightarrow> \<exists>q'. pop q = Inr (x, q') \<and> items q' = xs"
    and is_empty_items: "is_empty q \<longleftrightarrow> items q = []"
begin

lemma pop_ok: "\<not> is_empty q \<Longrightarrow>
    \<exists>q'. pop q = Inr (hd (items q), q') \<and> items q' = tl (items q)"
  using pop_items [of q "hd (items q)" "tl (items q)"] by (simp add: is_empty_items)

lemma pop_InrD: "pop q = Inr (x, q') \<Longrightarrow> items q = x # items q'"
  using pop_empty [of q] pop_items [of q]
  by (cases "items q") (fastforce, force)

definition push_all :: "'x list \<Rightarrow> 'q \<Rightarrow> 'q" where
  "push_all xs q = fold push xs q"

lemma items_push_all: "items (push_all xs q) = items q @ xs"
  unfolding push_all_def by (induction xs arbitrary: q) (simp_all add: items_push)

text \<open>\<open>n\<close> pops in a row.\<close>

fun pop_n :: "nat \<Rightarrow> 'q \<Rightarrow> ('x list \<times> 'q) res" where
  "pop_n 0 q = Inr ([], q)"
| "pop_n (Suc n) q = rbind (pop q) (\<lambda>(x, q). rbind (pop_n n q) (\<lambda>(xs, q). Inr (x # xs, q)))"

lemma pop_n_items:
  "n \<le> length (items q) \<Longrightarrow>
    \<exists>q'. pop_n n q = Inr (take n (items q), q') \<and> items q' = drop n (items q)"
proof (induction n arbitrary: q)
  case 0
  then show ?case by simp
next
  case (Suc n)
  then obtain x xs where q: "items q = x # xs" by (cases "items q") auto
  obtain q1 where q1: "pop q = Inr (x, q1)" "items q1 = xs" using pop_items [OF q] by blast
  from Suc.prems q q1 have "n \<le> length (items q1)" by simp
  from Suc.IH [OF this] q q1 show ?case by auto
qed

lemma pop_n_InrD: "pop_n n q = Inr (xs, q') \<Longrightarrow> items q = xs @ items q' \<and> length xs = n"
proof (induction n arbitrary: q xs)
  case 0
  then show ?case by simp
next
  case (Suc n)
  then obtain x q1 ys where p: "pop q = Inr (x, q1)" "pop_n n q1 = Inr (ys, q')" "xs = x # ys"
    by (auto simp: rbind_eq_Inr)
  from Suc.IH [OF p(2)] pop_InrD [OF p(1)] p(3) show ?case by simp
qed

lemma push_all_pop_n:
  "items q = [] \<Longrightarrow> \<exists>q'. pop_n (length xs) (push_all xs q) = Inr (xs, q') \<and> items q' = []"
  using pop_n_items [of "length xs" "push_all xs q"] by (simp add: items_push_all)

end

section \<open>Connections\<close>

record 'd Connection =
  c_pending_data :: bool
  c_bw :: nat
  c_data :: "'d DataPackage list"
  c_current_capacity :: nat
  c_stats :: ConnectionStats

definition Connection_new :: "nat \<Rightarrow> 'd Connection" where
  "Connection_new bw =
     \<lparr>c_pending_data = False, c_bw = bw, c_data = [], c_current_capacity = 0,
      c_stats = ConnectionStats_reset\<rparr>"

definition Connection_existPendingData :: "'d Connection \<Rightarrow> bool" where
  "Connection_existPendingData c = c_pending_data c"

text \<open>The bandwidth checks of \<open>send\<close> are compiled only in the debug build.\<close>

definition Connection_send :: "'d DataPackage list \<Rightarrow> 'd Connection \<Rightarrow> 'd Connection" where
  "Connection_send data_p c =
     c\<lparr>c_data := data_p, c_pending_data := True,
       c_stats := cs_n_sends_update (\<lambda>n. n + 1) (c_stats c)\<rparr>"

definition Connection_receive :: "'d Connection \<Rightarrow> 'd DataPackage list \<times> 'd Connection" where
  "Connection_receive c =
     (if c_pending_data c then (c_data c, c\<lparr>c_pending_data := False\<rparr>)
      else ([], c\<lparr>c_data := [], c_pending_data := False,
                  c_stats := cs_n_receives_update (\<lambda>n. n + 1) (c_stats c)\<rparr>))"

interpretation conn: channel Connection_existPendingData c_data Connection_send Connection_receive
  by unfold_locales
    (simp_all add: Connection_existPendingData_def Connection_send_def Connection_receive_def)

lemma in_flight_def2:
  "conn.in_flight c = (if c_pending_data c then c_data c else [])"
  by (simp add: conn.in_flight_def Connection_existPendingData_def)

lemma Connection_new_in_flight [simp]: "conn.in_flight (Connection_new bw) = []"
  by (simp add: in_flight_def2 Connection_new_def)

text \<open>The connections of the machine, by the place that allocates them.\<close>

datatype cid =
  OutAS                   \<comment> \<open>\<open>Stonne::outputASConnection\<close>\<close>
| OutLT                   \<comment> \<open>\<open>Stonne::outputLTConnection\<close>\<close>
| DSTop nat               \<comment> \<open>\<open>DSNetworkTop::connections[i]\<close>\<close>
| DSLink nat nat nat      \<comment> \<open>\<open>DSNetwork::connectiontable\<close> of tree, level, position\<close>
| FwLink nat              \<comment> \<open>\<open>MSNetwork::fwconnectiontable\<close>\<close>
| MeshVert nat nat        \<comment> \<open>\<open>OSMeshMN::verticalconnectiontable\<close>\<close>
| MeshHoriz nat nat       \<comment> \<open>\<open>OSMeshMN::horizontalconnectiontable\<close>\<close>
| RnLink nat nat          \<comment> \<open>\<open>ASNetwork::inputconnectiontable\<close>\<close>
| RnFw nat nat            \<comment> \<open>\<open>ASNetwork::forwardingconnectiontable\<close>\<close>
| AccLink nat             \<comment> \<open>the inputs of the accumulation buffer\<close>
| BusIn nat nat           \<comment> \<open>\<open>CollectionBusLine::input_connections\<close> of line, input\<close>
| BusOut nat              \<comment> \<open>\<open>CollectionBusLine::output_port\<close> of a line\<close>

type_synonym 'd store = "cid \<Rightarrow> 'd Connection"

text \<open>The packages that wait on a link of the store.\<close>

abbreviation flight :: "'d store \<Rightarrow> cid \<Rightarrow> 'd DataPackage list" where
  "flight st c \<equiv> conn.in_flight (st c)"

abbreviation pend :: "'d store \<Rightarrow> cid \<Rightarrow> bool" where
  "pend st c \<equiv> Connection_existPendingData (st c)"

text \<open>\<open>p->send(xs)\<close> and \<open>p->receive()\<close> through a pointer.\<close>

definition ptr_send :: "cid option \<Rightarrow> 'd DataPackage list \<Rightarrow> 'd store \<Rightarrow> 'd store res" where
  "ptr_send p xs st = rderef p (\<lambda>c. Inr (st(c := Connection_send xs (st c))))"

definition ptr_receive :: "cid option \<Rightarrow> 'd store \<Rightarrow> ('d DataPackage list \<times> 'd store) res" where
  "ptr_receive p st = rderef p (\<lambda>c.
     let (xs, k) = Connection_receive (st c) in Inr (xs, st(c := k)))"

definition ptr_pending :: "cid option \<Rightarrow> 'd store \<Rightarrow> bool res" where
  "ptr_pending p st = rderef p (\<lambda>c. Inr (Connection_existPendingData (st c)))"

lemma ptr_send_Some [simp]: "ptr_send (Some c) xs st = Inr (st(c := Connection_send xs (st c)))"
  by (simp add: ptr_send_def)

lemma ptr_receive_Some [simp]:
  "ptr_receive (Some c) st = Inr (flight st c, st(c := snd (Connection_receive (st c))))"
  using conn.receive_in_flight [of "st c"] by (simp add: ptr_receive_def case_prod_beta Let_def)

lemma ptr_pending_Some [simp]: "ptr_pending (Some c) st = Inr (pend st c)"
  by (simp add: ptr_pending_def)

lemma ptr_None [simp]:
  "ptr_send None xs st = Inl NullDeref"
  "ptr_receive None st = Inl NullDeref"
  "ptr_pending None st = Inl NullDeref"
  by (simp_all add: ptr_send_def ptr_receive_def ptr_pending_def)

lemma pend_send [simp]: "Connection_existPendingData (Connection_send xs c)"
  by (rule conn.pending_send)

lemma pend_receive [simp]: "\<not> Connection_existPendingData (snd (Connection_receive c))"
  by (rule conn.pending_receive)

lemma not_pend_flight: "\<not> pend st c \<Longrightarrow> flight st c = []"
  by (simp add: conn.in_flight_def)

lemmas flight_simps [simp] = conn.in_flight_send conn.in_flight_receive

text \<open>
  The state of a link as seen by its reader: what is in flight; a link with nothing in flight is
  not pending.
\<close>

definition link :: "'d store \<Rightarrow> cid \<Rightarrow> 'd DataPackage list \<Rightarrow> bool" where
  "link st c xs \<longleftrightarrow> flight st c = xs \<and> (pend st c \<longleftrightarrow> xs \<noteq> [])"

lemma link_send [simp]: "link (st(c := Connection_send xs k)) c ys \<longleftrightarrow> ys = xs \<and> xs \<noteq> []"
  by (auto simp: link_def)

lemma link_receive [simp]: "link (st(c := snd (Connection_receive k))) c ys \<longleftrightarrow> ys = []"
  by (auto simp: link_def)

lemma link_new [simp]: "link (st(c := Connection_new bw)) c ys \<longleftrightarrow> ys = []"
  by (auto simp: link_def Connection_new_def Connection_existPendingData_def in_flight_def2)

lemma link_other [simp]: "c \<noteq> d \<Longrightarrow> link (st(c := k)) d xs \<longleftrightarrow> link st d xs"
  by (simp add: link_def)

lemma link_flight: "link st c xs \<Longrightarrow> flight st c = xs"
  by (simp add: link_def)

lemma link_pend: "link st c xs \<Longrightarrow> pend st c \<longleftrightarrow> xs \<noteq> []"
  by (simp add: link_def)

lemma link_cong: "st' c = st c \<Longrightarrow> link st' c xs = link st c xs"
  by (simp add: link_def)

section \<open>Fifos\<close>

record 'd Fifo =
  f_fifo :: "'d DataPackage list"
  f_capacity :: nat
  f_capacity_words :: nat
  f_stats :: FifoStats

definition sizeof_data_t :: nat where
  "sizeof_data_t = 4"

definition Fifo_new :: "nat \<Rightarrow> 'd Fifo" where
  "Fifo_new cap =
     \<lparr>f_fifo = [], f_capacity = cap, f_capacity_words = cap div sizeof_data_t,
      f_stats = FifoStats_reset\<rparr>"

definition Fifo_isEmpty :: "'d Fifo \<Rightarrow> bool" where
  "Fifo_isEmpty q \<longleftrightarrow> length (f_fifo q) = 0"

definition Fifo_isFull :: "'d Fifo \<Rightarrow> bool" where
  "Fifo_isFull q \<longleftrightarrow> f_capacity_words q \<le> length (f_fifo q)"

definition Fifo_size :: "'d Fifo \<Rightarrow> nat" where
  "Fifo_size q = length (f_fifo q) mod u32_max"

text \<open>The capacity is not checked by \<open>push\<close>.\<close>

definition Fifo_push :: "'d DataPackage \<Rightarrow> 'd Fifo \<Rightarrow> 'd Fifo" where
  "Fifo_push p q =
     (let q1 = q\<lparr>f_fifo := f_fifo q @ [p]\<rparr>;
          n = word_of_nat (Fifo_size q1);
          st = (if fs_max_occupancy (f_stats q) < n
                then (f_stats q)\<lparr>fs_max_occupancy := n\<rparr> else f_stats q)
      in q1\<lparr>f_stats := fs_n_pushes_update (\<lambda>k. k + 1) st\<rparr>)"

definition Fifo_pop :: "'d Fifo \<Rightarrow> ('d DataPackage \<times> 'd Fifo) res" where
  "Fifo_pop q =
     rassert (\<not> Fifo_isEmpty q)
       (Inr (hd (f_fifo q),
         q\<lparr>f_fifo := tl (f_fifo q), f_stats := fs_n_pops_update (\<lambda>k. k + 1) (f_stats q)\<rparr>))"

definition Fifo_front :: "'d Fifo \<Rightarrow> ('d DataPackage \<times> 'd Fifo) res" where
  "Fifo_front q =
     rassert (\<not> Fifo_isEmpty q)
       (Inr (hd (f_fifo q), q\<lparr>f_stats := fs_n_fronts_update (\<lambda>k. k + 1) (f_stats q)\<rparr>))"

text \<open>\<open>for(...) { fifo->push(data_received[i]); }\<close>\<close>

definition Fifo_push_all :: "'d DataPackage list \<Rightarrow> 'd Fifo \<Rightarrow> 'd Fifo" where
  "Fifo_push_all xs q = fold Fifo_push xs q"

text \<open>\<open>while(!fifo->isEmpty()) { v.push_back(fifo->pop()); }\<close>\<close>

function Fifo_drain :: "'d Fifo \<Rightarrow> ('d DataPackage list \<times> 'd Fifo) res" where
  "Fifo_drain q =
     (if Fifo_isEmpty q then Inr ([], q)
      else case Fifo_pop q of
             Inl e \<Rightarrow> Inl e
           | Inr (x, q') \<Rightarrow> rbind (Fifo_drain q') (\<lambda>(xs, q'). Inr (x # xs, q')))"
  by pat_completeness auto
termination
  by (relation "measure (\<lambda>q. length (f_fifo q))")
    (auto simp: Fifo_isEmpty_def Fifo_pop_def rassert_def split: if_splits)

declare Fifo_drain.simps [simp del]

lemma Fifo_push_fifo [simp]: "f_fifo (Fifo_push p q) = f_fifo q @ [p]"
  by (simp add: Fifo_push_def Let_def)

lemma Fifo_push_capacity [simp]:
  "f_capacity (Fifo_push p q) = f_capacity q"
  "f_capacity_words (Fifo_push p q) = f_capacity_words q"
  by (simp_all add: Fifo_push_def Let_def)

lemma Fifo_new_fifo [simp]: "f_fifo (Fifo_new cap) = []"
  by (simp add: Fifo_new_def)

lemma Fifo_isEmpty_iff [simp]: "Fifo_isEmpty q \<longleftrightarrow> f_fifo q = []"
  by (simp add: Fifo_isEmpty_def)

interpretation fq: fifo_queue f_fifo Fifo_push Fifo_pop Fifo_isEmpty
  by unfold_locales (auto simp: Fifo_pop_def)

lemma Fifo_push_all_fifo [simp]: "f_fifo (Fifo_push_all xs q) = f_fifo q @ xs"
  using fq.items_push_all [of xs q] by (simp add: Fifo_push_all_def fq.push_all_def)

text \<open>The drain loop is as many pops as there are packages.\<close>

lemma Fifo_drain_pop_n: "Fifo_drain q = fq.pop_n (length (f_fifo q)) q"
proof (induction q rule: Fifo_drain.induct)
  case (1 q)
  show ?case
  proof (cases "f_fifo q")
    case Nil
    then show ?thesis by (simp add: Fifo_drain.simps)
  next
    case (Cons x xs)
    then obtain q' where q': "Fifo_pop q = Inr (x, q')" "f_fifo q' = xs"
      using fq.pop_items by blast
    with 1 Cons show ?thesis by (simp add: Fifo_drain.simps [of q])
  qed
qed

lemma Fifo_drain_all: "\<exists>q'. Fifo_drain q = Inr (f_fifo q, q') \<and> f_fifo q' = []"
  using fq.pop_n_items [of "length (f_fifo q)" q] by (simp add: Fifo_drain_pop_n)

lemma Fifo_drain_empty [simp]: "f_fifo q = [] \<Longrightarrow> Fifo_drain q = Inr ([], q)"
  by (simp add: Fifo_drain.simps)

lemma Fifo_pop_ok:
  "f_fifo q = x # xs \<Longrightarrow>
    Fifo_pop q = Inr (x, q\<lparr>f_fifo := xs, f_stats := fs_n_pops_update (\<lambda>k. k + 1) (f_stats q)\<rparr>)"
  by (simp add: Fifo_pop_def)

section \<open>The lookup table\<close>

record LookupTable =
  lt_latency :: nat
  lt_port_width :: nat
  lt_inputConnection :: "cid option"
  lt_outputConnection :: "cid option"

definition LookupTable_new :: "Config \<Rightarrow> cid option \<Rightarrow> cid option \<Rightarrow> LookupTable" where
  "LookupTable_new cfg i o' =
     \<lparr>lt_latency = ltc_latency (m_LookUpTableCfg cfg),
      lt_port_width = ltc_port_width (m_LookUpTableCfg cfg),
      lt_inputConnection = i, lt_outputConnection = o'\<rparr>"

definition LookupTable_cycle :: "LookupTable \<Rightarrow> 'd store \<Rightarrow> 'd store res" where
  "LookupTable_cycle lt st =
     rbind (ptr_pending (lt_inputConnection lt) st) (\<lambda>b.
     if b then
       rbind (ptr_receive (lt_inputConnection lt) st) (\<lambda>(pcks, st).
       ptr_send (lt_outputConnection lt) pcks st)
     else Inr st)"

lemma LookupTable_cycle_forwards:
  assumes "i \<noteq> j" and "pend st i"
  shows "\<exists>st'. LookupTable_cycle (LookupTable_new cfg (Some i) (Some j)) st = Inr st'
            \<and> flight st' j = flight st i \<and> \<not> pend st' i \<and> (\<forall>c. c \<noteq> i \<longrightarrow> c \<noteq> j \<longrightarrow> st' c = st c)"
  using assms by (simp add: LookupTable_cycle_def LookupTable_new_def)

lemma LookupTable_cycle_idle:
  "\<not> pend st i \<Longrightarrow> LookupTable_cycle (LookupTable_new cfg (Some i) j) st = Inr st"
  by (simp add: LookupTable_cycle_def LookupTable_new_def)

section \<open>Properties\<close>

text \<open>
  C26: a cycle of the lookup table moves what is pending on its input to its output and leaves
  every other link alone; with nothing pending it changes nothing, and without an input it
  crashes.
\<close>

theorem lookup_table_cycle:
  assumes "i \<noteq> j"
  shows "LookupTable_cycle (LookupTable_new cfg None p) st = Inl NullDeref
   \<and> (\<exists>st'. LookupTable_cycle (LookupTable_new cfg (Some i) (Some j)) st = Inr st'
     \<and> flight st' i = [] \<and> (\<forall>c. c \<noteq> i \<longrightarrow> c \<noteq> j \<longrightarrow> st' c = st c)
     \<and> (if pend st i then flight st' j = flight st i else st' = st))"
proof (cases "pend st i")
  case True
  from LookupTable_cycle_forwards [where i = i and j = j and st = st and cfg = cfg, OF assms True] show ?thesis
    using True by (auto simp: LookupTable_cycle_def LookupTable_new_def not_pend_flight)
next
  case False
  then show ?thesis using LookupTable_cycle_idle [where i = i and st = st and cfg = cfg and j = "Some j", OF False]
    by (simp add: LookupTable_cycle_def LookupTable_new_def not_pend_flight)
qed

theorem lookup_table_cycle_witness:
  "\<exists>st'. LookupTable_cycle (LookupTable_new Config_reset (Some OutAS) (Some OutLT))
      ((\<lambda>_. Connection_new 16)(OutAS := Connection_send [DataPackage_psum 4 (7::int) PSUM 0 3 ADDER] (Connection_new 16)))
      = Inr st' \<and> flight st' OutLT = [DataPackage_psum 4 7 PSUM 0 3 ADDER]"
  using lookup_table_cycle [of OutAS OutLT Config_reset None
      "(\<lambda>_. Connection_new 16)(OutAS := Connection_send [DataPackage_psum 4 (7::int) PSUM 0 3 ADDER] (Connection_new 16))"]
  by auto

end
