(* ===== verification/Mesh.thy ===== *)
theory Mesh
  imports Links
begin

text \<open>
  The output-stationary mesh of multipliers: \<^verbatim>\<open>CompilerMultiplierMesh.cpp\<close>,
  \<^verbatim>\<open>MultiplierOS.cpp\<close> and \<^verbatim>\<open>OSMeshMN.cpp\<close>. Weights enter at the top row and move down,
  activations enter at the left column and move right; a multiplier that holds one of each
  multiplies them, sends the product to its accumulator and forwards the operands.

  The lemmas describe one cycle of a multiplier on every branch, and then the mesh as a systolic
  array: when the operand pairs \<open>0, 1, \<dots>\<close> are put on the input links one per cycle, multiplier
  \<open>(i, j)\<close> consumes pair \<open>k\<close> in cycle \<open>i + j + k\<close>, no link ever overwrites a package, and no
  assertion fails.
\<close>

section \<open>The mesh compiler\<close>

text \<open>The order of the double loops: the rows from top to bottom, each from left to right.\<close>

definition mesh_positions :: "nat \<Rightarrow> nat \<Rightarrow> (nat \<times> nat) list" where
  "mesh_positions rows cols = List.product [0..<rows] [0..<cols]"

record CompilerMultiplierMesh =
  cm_forwarding_bottom_enabled :: "nat \<times> nat \<Rightarrow> bool option"
  cm_forwarding_right_enabled :: "nat \<times> nat \<Rightarrow> bool option"
  cm_ms_vn_configuration :: "nat \<times> nat \<Rightarrow> nat option"
  cm_ms_rows :: nat
  cm_ms_cols :: nat
  cm_current_tile :: "Tile option"
  cm_dnn_layer :: "DNNLayer option"
  cm_signals_configured :: bool

definition CompilerMultiplierMesh_new :: CompilerMultiplierMesh where
  "CompilerMultiplierMesh_new =
     \<lparr>cm_forwarding_bottom_enabled = Map.empty, cm_forwarding_right_enabled = Map.empty,
      cm_ms_vn_configuration = Map.empty, cm_ms_rows = uninit, cm_ms_cols = uninit,
      cm_current_tile = None, cm_dnn_layer = None, cm_signals_configured = False\<rparr>"

text \<open>\<open>std::map::operator[]\<close>: a missing entry reads as the default value.\<close>

definition map_get :: "'v \<Rightarrow> ('k \<Rightarrow> 'v option) \<Rightarrow> 'k \<Rightarrow> 'v" where
  "map_get dflt m k = (case m k of None \<Rightarrow> dflt | Some v \<Rightarrow> v)"

text \<open>The body of the double loop of \<open>generate_ms_signals\<close> at row \<open>i\<close> and column \<open>j\<close>.\<close>

definition generate_ms_signals_at ::
  "nat \<Rightarrow> nat \<Rightarrow> nat \<times> nat \<Rightarrow> CompilerMultiplierMesh \<Rightarrow> CompilerMultiplierMesh" where
  "generate_ms_signals_at rows_used cols_used = (\<lambda>(i, j) c.
     let c = (if i < rows_used \<and> j < cols_used
              then cm_ms_vn_configuration_update
                     (\<lambda>m. m((i, j) \<mapsto> uadd (umul i cols_used) j)) c
              else c);
         c = cm_forwarding_bottom_enabled_update
               (\<lambda>m. m((i, j) \<mapsto> (i < usub rows_used 1 \<and> j < cols_used))) c
     in cm_forwarding_right_enabled_update
          (\<lambda>m. m((i, j) \<mapsto> (j < usub cols_used 1 \<and> i < rows_used))) c)"

definition generate_ms_signals ::
  "nat \<Rightarrow> nat \<Rightarrow> Tile \<Rightarrow> CompilerMultiplierMesh \<Rightarrow> CompilerMultiplierMesh" where
  "generate_ms_signals ms_rows ms_cols tile c =
     (let rows_used = umul (T_Xo tile) (T_Yo tile);
          cols_used = T_K tile
      in fold (generate_ms_signals_at rows_used cols_used) (mesh_positions ms_rows ms_cols) c)"

definition CompilerMultiplierMesh_configureSignals ::
  "Tile \<Rightarrow> DNNLayer \<Rightarrow> nat \<Rightarrow> nat \<Rightarrow> CompilerMultiplierMesh \<Rightarrow> CompilerMultiplierMesh res" where
  "CompilerMultiplierMesh_configureSignals tile layer ms_rows ms_cols c =
     rassert (T_K tile \<le> ms_cols)
     (rassert (umul (T_Xo tile) (T_Yo tile) \<le> ms_rows)
     (Inr (generate_ms_signals ms_rows ms_cols tile
       (c\<lparr>cm_current_tile := Some tile, cm_dnn_layer := Some layer, cm_ms_rows := ms_rows,
          cm_ms_cols := ms_cols, cm_signals_configured := True\<rparr>))))"

definition CompilerMultiplierMesh_configureSparseSignals ::
  "SparseVN list \<Rightarrow> DNNLayer \<Rightarrow> nat \<Rightarrow> CompilerMultiplierMesh \<Rightarrow> CompilerMultiplierMesh res" where
  "CompilerMultiplierMesh_configureSparseSignals vns layer num_ms c = rassert False (Inr c)"

section \<open>One multiplier\<close>

record 'd MultiplierOS =
  mo_top_fifo :: "'d Fifo"
  mo_left_fifo :: "'d Fifo"
  mo_right_fifo :: "'d Fifo"
  mo_bottom_fifo :: "'d Fifo"
  mo_accbuffer_fifo :: "'d Fifo"
  mo_left_connection :: "cid option"
  mo_right_connection :: "cid option"
  mo_top_connection :: "cid option"
  mo_bottom_connection :: "cid option"
  mo_accbuffer_connection :: "cid option"
  mo_latency :: nat
  mo_row_num :: nat
  mo_col_num :: nat
  mo_num :: nat
  mo_input_ports :: nat
  mo_output_ports :: nat
  mo_forwarding_ports :: nat
  mo_buffers_capacity :: nat
  mo_port_width :: nat
  mo_ms_rows :: nat
  mo_ms_cols :: nat
  mo_local_cycle :: counter
  mo_stats :: MultiplierOSStats
  mo_VN :: nat
  mo_forward_right :: bool
  mo_forward_bottom :: bool

definition MultiplierOS_new :: "nat \<Rightarrow> nat \<Rightarrow> Config \<Rightarrow> 'd MultiplierOS" where
  "MultiplierOS_new row_num col_num cfg =
     (let ms = m_MSwitchCfg cfg; cap = msc_buffers_capacity ms;
          cols = msn_ms_cols (m_MSNetworkCfg cfg)
      in \<lparr>mo_top_fifo = Fifo_new cap, mo_left_fifo = Fifo_new cap, mo_right_fifo = Fifo_new cap,
          mo_bottom_fifo = Fifo_new cap, mo_accbuffer_fifo = Fifo_new cap,
          mo_left_connection = None, mo_right_connection = None, mo_top_connection = None,
          mo_bottom_connection = None, mo_accbuffer_connection = None,
          mo_latency = msc_latency ms, mo_row_num = row_num, mo_col_num = col_num,
          mo_num = uadd (umul row_num cols) col_num,
          mo_input_ports = msc_input_ports ms, mo_output_ports = msc_output_ports ms,
          mo_forwarding_ports = msc_forwarding_ports ms, mo_buffers_capacity = cap,
          mo_port_width = msc_port_width ms, mo_ms_rows = msn_ms_rows (m_MSNetworkCfg cfg),
          mo_ms_cols = cols, mo_local_cycle = 0, mo_stats = MultiplierOSStats_reset,
          mo_VN = 0, mo_forward_right = False, mo_forward_bottom = False\<rparr>)"

text \<open>
  \<open>while(!fifo->isEmpty()) fifo->pop();\<close> for the four operand fifos. The fifo of products is
  not emptied.
\<close>

definition MultiplierOS_resetSignals :: "'d MultiplierOS \<Rightarrow> 'd MultiplierOS res" where
  "MultiplierOS_resetSignals ms =
     (let ms = ms\<lparr>mo_forward_right := False, mo_forward_bottom := False, mo_VN := 0\<rparr> in
      rbind (Fifo_drain (mo_left_fifo ms)) (\<lambda>(_, l).
      rbind (Fifo_drain (mo_right_fifo ms)) (\<lambda>(_, r).
      rbind (Fifo_drain (mo_top_fifo ms)) (\<lambda>(_, t).
      rbind (Fifo_drain (mo_bottom_fifo ms)) (\<lambda>(_, b).
      Inr (ms\<lparr>mo_left_fifo := l, mo_right_fifo := r, mo_top_fifo := t, mo_bottom_fifo := b\<rparr>))))))"

definition MultiplierOS_setVirtualNeuron :: "nat \<Rightarrow> 'd MultiplierOS \<Rightarrow> 'd MultiplierOS" where
  "MultiplierOS_setVirtualNeuron vn ms =
     ms\<lparr>mo_VN := vn, mo_stats := mos_n_configurations_update (\<lambda>n. n + 1) (mo_stats ms)\<rparr>"

definition MultiplierOS_receive_left ::
  "'d MultiplierOS \<Rightarrow> 'd store \<Rightarrow> ('d MultiplierOS \<times> 'd store) res" where
  "MultiplierOS_receive_left ms st =
     rbind (ptr_pending (mo_left_connection ms) st) (\<lambda>b.
     if b then
       rbind (ptr_receive (mo_left_connection ms) st) (\<lambda>(data_received, st).
       rassert (length data_received = 1)
       (rbind (rfold (\<lambda>pck ms.
            rassert (p_data_type pck = IACTIVATION)
            (Inr (ms\<lparr>mo_stats := mos_n_left_forwardings_receive_update (\<lambda>n. n + 1) (mo_stats ms),
                     mo_left_fifo := Fifo_push pck (mo_left_fifo ms)\<rparr>)))
          data_received ms) (\<lambda>ms. Inr (ms, st))))
     else Inr (ms, st))"

definition MultiplierOS_receive_top ::
  "'d MultiplierOS \<Rightarrow> 'd store \<Rightarrow> ('d MultiplierOS \<times> 'd store) res" where
  "MultiplierOS_receive_top ms st =
     rbind (ptr_pending (mo_top_connection ms) st) (\<lambda>b.
     if b then
       rbind (ptr_receive (mo_top_connection ms) st) (\<lambda>(data_received, st).
       rassert (length data_received = 1)
       (rbind (rfold (\<lambda>pck ms.
            rassert (p_data_type pck = WEIGHT)
            (Inr (ms\<lparr>mo_stats := mos_n_top_forwardings_receive_update (\<lambda>n. n + 1) (mo_stats ms),
                     mo_top_fifo := Fifo_push pck (mo_top_fifo ms)\<rparr>)))
          data_received ms) (\<lambda>ms. Inr (ms, st))))
     else Inr (ms, st))"

definition MultiplierOS_receive ::
  "'d MultiplierOS \<Rightarrow> 'd store \<Rightarrow> ('d MultiplierOS \<times> 'd store) res" where
  "MultiplierOS_receive ms st =
     rbind (MultiplierOS_receive_left ms st) (\<lambda>(ms, st). MultiplierOS_receive_top ms st)"

text \<open>The product package; \<open>perform_operation_2_operands\<close> also counts the multiplication.\<close>

definition MultiplierOS_product ::
  "'d::times DataPackage \<Rightarrow> 'd DataPackage \<Rightarrow> nat \<Rightarrow> nat \<Rightarrow> 'd DataPackage" where
  "MultiplierOS_product pck_left pck_right num vn =
     DataPackage_psum sizeof_data_t (p_data pck_left * p_data pck_right) PSUM num vn MULTIPLIER"

definition MultiplierOS_perform_operation_2_operands ::
  "'d::times DataPackage \<Rightarrow> 'd DataPackage \<Rightarrow> 'd MultiplierOS \<Rightarrow> 'd DataPackage \<times> 'd MultiplierOS"
where
  "MultiplierOS_perform_operation_2_operands pck_left pck_right ms =
     (MultiplierOS_product pck_left pck_right (mo_num ms) (mo_VN ms),
      ms\<lparr>mo_stats := mos_n_multiplications_update (\<lambda>n. n + 1) (mo_stats ms)\<rparr>)"

definition MultiplierOS_send_bottom ::
  "'d MultiplierOS \<Rightarrow> 'd store \<Rightarrow> ('d MultiplierOS \<times> 'd store) res" where
  "MultiplierOS_send_bottom ms st =
     rbind (Fifo_drain (mo_bottom_fifo ms)) (\<lambda>(xs, q).
     let ms = ms\<lparr>mo_bottom_fifo := q\<rparr> in
     if 0 < length xs then
       rbind (ptr_send (mo_bottom_connection ms) xs st) (\<lambda>st.
       Inr (ms\<lparr>mo_stats := mos_n_bottom_forwardings_send_update (\<lambda>n. n + 1) (mo_stats ms)\<rparr>, st))
     else Inr (ms, st))"

definition MultiplierOS_send_right ::
  "'d MultiplierOS \<Rightarrow> 'd store \<Rightarrow> ('d MultiplierOS \<times> 'd store) res" where
  "MultiplierOS_send_right ms st =
     rbind (Fifo_drain (mo_right_fifo ms)) (\<lambda>(xs, q).
     let ms = ms\<lparr>mo_right_fifo := q\<rparr> in
     if 0 < length xs then
       rbind (ptr_send (mo_right_connection ms) xs st) (\<lambda>st.
       Inr (ms\<lparr>mo_stats := mos_n_right_forwardings_send_update (\<lambda>n. n + 1) (mo_stats ms)\<rparr>, st))
     else Inr (ms, st))"

definition MultiplierOS_send_psums ::
  "'d MultiplierOS \<Rightarrow> 'd store \<Rightarrow> ('d MultiplierOS \<times> 'd store) res" where
  "MultiplierOS_send_psums ms st =
     rbind (Fifo_drain (mo_accbuffer_fifo ms)) (\<lambda>(xs, q).
     let ms = ms\<lparr>mo_accbuffer_fifo := q\<rparr> in
     if 0 < length xs then
       rbind (ptr_send (mo_accbuffer_connection ms) xs st) (\<lambda>st. Inr (ms, st))
     else Inr (ms, st))"

definition MultiplierOS_send ::
  "'d MultiplierOS \<Rightarrow> 'd store \<Rightarrow> ('d MultiplierOS \<times> 'd store) res" where
  "MultiplierOS_send ms st =
     rbind (MultiplierOS_send_bottom ms st) (\<lambda>(ms, st).
     rbind (MultiplierOS_send_right ms st) (\<lambda>(ms, st).
     MultiplierOS_send_psums ms st))"

text \<open>The part of \<open>cycle\<close> that runs when both operand fifos hold a package.\<close>

definition MultiplierOS_multiply ::
  "'d::times MultiplierOS \<Rightarrow> 'd MultiplierOS res" where
  "MultiplierOS_multiply ms =
     rbind (Fifo_pop (mo_left_fifo ms)) (\<lambda>(activation, l).
     rbind (Fifo_pop (mo_top_fifo ms)) (\<lambda>(weight, t).
     let ms = ms\<lparr>mo_left_fifo := l, mo_top_fifo := t\<rparr>;
         (pck_result, ms) = MultiplierOS_perform_operation_2_operands activation weight ms;
         ms = ms\<lparr>mo_accbuffer_fifo := Fifo_push pck_result (mo_accbuffer_fifo ms)\<rparr>;
         ms = (if mo_forward_right ms
               then ms\<lparr>mo_right_fifo := Fifo_push activation (mo_right_fifo ms)\<rparr> else ms);
         ms = (if mo_forward_bottom ms
               then ms\<lparr>mo_bottom_fifo := Fifo_push weight (mo_bottom_fifo ms)\<rparr> else ms)
     in Inr ms))"

definition MultiplierOS_cycle ::
  "'d::times MultiplierOS \<Rightarrow> 'd store \<Rightarrow> ('d MultiplierOS \<times> 'd store) res" where
  "MultiplierOS_cycle ms st =
     (let ms = ms\<lparr>mo_local_cycle := mo_local_cycle ms + 1,
                  mo_stats := mos_total_cycles_update (\<lambda>n. n + 1) (mo_stats ms)\<rparr> in
      rbind (MultiplierOS_receive ms st) (\<lambda>(ms, st).
      if \<not> Fifo_isEmpty (mo_left_fifo ms) \<and> \<not> Fifo_isEmpty (mo_top_fifo ms) then
        rbind (MultiplierOS_multiply ms) (\<lambda>ms. MultiplierOS_send ms st)
      else Inr (ms, st)))"

subsection \<open>A cycle of a multiplier\<close>

text \<open>What a cycle does not change.\<close>

definition MultiplierOS_static where
  "MultiplierOS_static ms =
     (mo_left_connection ms, mo_right_connection ms, mo_top_connection ms, mo_bottom_connection ms,
      mo_accbuffer_connection ms, mo_num ms, mo_VN ms, mo_forward_right ms, mo_forward_bottom ms)"

lemma MultiplierOS_static_eqD:
  assumes "MultiplierOS_static ms' = MultiplierOS_static ms"
  shows "mo_left_connection ms' = mo_left_connection ms"
    "mo_right_connection ms' = mo_right_connection ms"
    "mo_top_connection ms' = mo_top_connection ms"
    "mo_bottom_connection ms' = mo_bottom_connection ms"
    "mo_accbuffer_connection ms' = mo_accbuffer_connection ms"
    "mo_num ms' = mo_num ms" "mo_VN ms' = mo_VN ms"
    "mo_forward_right ms' = mo_forward_right ms" "mo_forward_bottom ms' = mo_forward_bottom ms"
  using assms by (simp_all add: MultiplierOS_static_def)

lemma receive_left_ok:
  assumes "mo_left_connection ms = Some l" and "link st l L" and "length L \<le> 1"
    and "\<And>p. p \<in> set L \<Longrightarrow> p_data_type p = IACTIVATION"
  shows "\<exists>ms' st'. MultiplierOS_receive_left ms st = Inr (ms', st')
     \<and> MultiplierOS_static ms' = MultiplierOS_static ms
     \<and> f_fifo (mo_left_fifo ms') = f_fifo (mo_left_fifo ms) @ L
     \<and> mo_top_fifo ms' = mo_top_fifo ms \<and> mo_right_fifo ms' = mo_right_fifo ms
     \<and> mo_bottom_fifo ms' = mo_bottom_fifo ms \<and> mo_accbuffer_fifo ms' = mo_accbuffer_fifo ms
     \<and> link st' l [] \<and> (\<forall>c. c \<noteq> l \<longrightarrow> st' c = st c)"
proof (cases L)
  case Nil
  with assms show ?thesis by (simp add: MultiplierOS_receive_left_def link_pend)
next
  case (Cons p ps)
  with assms have "L = [p]" "p_data_type p = IACTIVATION" by auto
  with assms show ?thesis
    by (simp add: MultiplierOS_receive_left_def link_pend link_flight MultiplierOS_static_def)
qed

lemma receive_top_ok:
  assumes "mo_top_connection ms = Some t" and "link st t T" and "length T \<le> 1"
    and "\<And>p. p \<in> set T \<Longrightarrow> p_data_type p = WEIGHT"
  shows "\<exists>ms' st'. MultiplierOS_receive_top ms st = Inr (ms', st')
     \<and> MultiplierOS_static ms' = MultiplierOS_static ms
     \<and> f_fifo (mo_top_fifo ms') = f_fifo (mo_top_fifo ms) @ T
     \<and> mo_left_fifo ms' = mo_left_fifo ms \<and> mo_right_fifo ms' = mo_right_fifo ms
     \<and> mo_bottom_fifo ms' = mo_bottom_fifo ms \<and> mo_accbuffer_fifo ms' = mo_accbuffer_fifo ms
     \<and> link st' t [] \<and> (\<forall>c. c \<noteq> t \<longrightarrow> st' c = st c)"
proof (cases T)
  case Nil
  with assms show ?thesis by (simp add: MultiplierOS_receive_top_def link_pend)
next
  case (Cons p ps)
  with assms have "T = [p]" "p_data_type p = WEIGHT" by auto
  with assms show ?thesis
    by (simp add: MultiplierOS_receive_top_def link_pend link_flight MultiplierOS_static_def)
qed

lemma multiply_ok:
  assumes "f_fifo (mo_left_fifo ms) = a # as" and "f_fifo (mo_top_fifo ms) = w # ws"
    and "f_fifo (mo_right_fifo ms) = []" and "f_fifo (mo_bottom_fifo ms) = []"
    and "f_fifo (mo_accbuffer_fifo ms) = []"
  shows "\<exists>ms'. MultiplierOS_multiply ms = Inr ms'
     \<and> MultiplierOS_static ms' = MultiplierOS_static ms
     \<and> f_fifo (mo_left_fifo ms') = as \<and> f_fifo (mo_top_fifo ms') = ws
     \<and> f_fifo (mo_right_fifo ms') = (if mo_forward_right ms then [a] else [])
     \<and> f_fifo (mo_bottom_fifo ms') = (if mo_forward_bottom ms then [w] else [])
     \<and> f_fifo (mo_accbuffer_fifo ms') = [MultiplierOS_product a w (mo_num ms) (mo_VN ms)]"
  using assms
  by (simp add: MultiplierOS_multiply_def Fifo_pop_ok MultiplierOS_perform_operation_2_operands_def
      MultiplierOS_static_def Let_def)

text \<open>Draining a fifo onto a link sends one batch, or nothing when the fifo is empty.\<close>

lemma send_bottom_ok:
  assumes "f_fifo (mo_bottom_fifo ms) \<noteq> [] \<Longrightarrow> mo_bottom_connection ms = Some b"
  shows "\<exists>ms' st'. MultiplierOS_send_bottom ms st = Inr (ms', st')
     \<and> MultiplierOS_static ms' = MultiplierOS_static ms
     \<and> f_fifo (mo_bottom_fifo ms') = []
     \<and> mo_left_fifo ms' = mo_left_fifo ms \<and> mo_top_fifo ms' = mo_top_fifo ms
     \<and> mo_right_fifo ms' = mo_right_fifo ms \<and> mo_accbuffer_fifo ms' = mo_accbuffer_fifo ms
     \<and> st' = (if f_fifo (mo_bottom_fifo ms) = [] then st
              else st(b := Connection_send (f_fifo (mo_bottom_fifo ms)) (st b)))"
  using Fifo_drain_all [of "mo_bottom_fifo ms"] assms
  by (auto simp: MultiplierOS_send_bottom_def MultiplierOS_static_def Let_def)

lemma send_right_ok:
  assumes "f_fifo (mo_right_fifo ms) \<noteq> [] \<Longrightarrow> mo_right_connection ms = Some r"
  shows "\<exists>ms' st'. MultiplierOS_send_right ms st = Inr (ms', st')
     \<and> MultiplierOS_static ms' = MultiplierOS_static ms
     \<and> f_fifo (mo_right_fifo ms') = []
     \<and> mo_left_fifo ms' = mo_left_fifo ms \<and> mo_top_fifo ms' = mo_top_fifo ms
     \<and> mo_bottom_fifo ms' = mo_bottom_fifo ms \<and> mo_accbuffer_fifo ms' = mo_accbuffer_fifo ms
     \<and> st' = (if f_fifo (mo_right_fifo ms) = [] then st
              else st(r := Connection_send (f_fifo (mo_right_fifo ms)) (st r)))"
  using Fifo_drain_all [of "mo_right_fifo ms"] assms
  by (auto simp: MultiplierOS_send_right_def MultiplierOS_static_def Let_def)

lemma send_psums_ok:
  assumes "f_fifo (mo_accbuffer_fifo ms) \<noteq> [] \<Longrightarrow> mo_accbuffer_connection ms = Some a"
  shows "\<exists>ms' st'. MultiplierOS_send_psums ms st = Inr (ms', st')
     \<and> MultiplierOS_static ms' = MultiplierOS_static ms
     \<and> f_fifo (mo_accbuffer_fifo ms') = []
     \<and> mo_left_fifo ms' = mo_left_fifo ms \<and> mo_top_fifo ms' = mo_top_fifo ms
     \<and> mo_bottom_fifo ms' = mo_bottom_fifo ms \<and> mo_right_fifo ms' = mo_right_fifo ms
     \<and> st' = (if f_fifo (mo_accbuffer_fifo ms) = [] then st
              else st(a := Connection_send (f_fifo (mo_accbuffer_fifo ms)) (st a)))"
  using Fifo_drain_all [of "mo_accbuffer_fifo ms"] assms
  by (auto simp: MultiplierOS_send_psums_def MultiplierOS_static_def Let_def)

definition MultiplierOS_idle :: "'d MultiplierOS \<Rightarrow> bool" where
  "MultiplierOS_idle ms \<longleftrightarrow> f_fifo (mo_right_fifo ms) = [] \<and> f_fifo (mo_bottom_fifo ms) = []
     \<and> f_fifo (mo_accbuffer_fifo ms) = []"

lemma MultiplierOS_receive_ok:
  assumes "mo_left_connection ms = Some l" and "mo_top_connection ms = Some t" and "l \<noteq> t"
    and "link st l L" and "length L \<le> 1" and "\<And>p. p \<in> set L \<Longrightarrow> p_data_type p = IACTIVATION"
    and "link st t T" and "length T \<le> 1" and "\<And>p. p \<in> set T \<Longrightarrow> p_data_type p = WEIGHT"
    and "MultiplierOS_idle ms"
  shows "\<exists>ms' st'. MultiplierOS_receive ms st = Inr (ms', st')
     \<and> MultiplierOS_static ms' = MultiplierOS_static ms \<and> MultiplierOS_idle ms'
     \<and> f_fifo (mo_left_fifo ms') = f_fifo (mo_left_fifo ms) @ L
     \<and> f_fifo (mo_top_fifo ms') = f_fifo (mo_top_fifo ms) @ T
     \<and> link st' l [] \<and> link st' t [] \<and> (\<forall>c. c \<noteq> l \<longrightarrow> c \<noteq> t \<longrightarrow> st' c = st c)"
proof -
  obtain ms1 st1 where 1: "MultiplierOS_receive_left ms st = Inr (ms1, st1)"
      "MultiplierOS_static ms1 = MultiplierOS_static ms"
      "f_fifo (mo_left_fifo ms1) = f_fifo (mo_left_fifo ms) @ L" "mo_top_fifo ms1 = mo_top_fifo ms"
      "MultiplierOS_idle ms1" "link st1 l []" "\<And>c. c \<noteq> l \<Longrightarrow> st1 c = st c"
    using receive_left_ok [of ms l st L] assms unfolding MultiplierOS_idle_def by auto
  have T: "mo_top_connection ms1 = Some t" "link st1 t T"
    using MultiplierOS_static_eqD(3) [OF 1(2)] assms 1(7) [of t] by (simp_all add: link_def)
  obtain ms2 st2 where "MultiplierOS_receive_top ms1 st1 = Inr (ms2, st2)"
      "MultiplierOS_static ms2 = MultiplierOS_static ms1"
      "f_fifo (mo_top_fifo ms2) = f_fifo (mo_top_fifo ms1) @ T" "mo_left_fifo ms2 = mo_left_fifo ms1"
      "MultiplierOS_idle ms2" "link st2 t []" "\<And>c. c \<noteq> t \<Longrightarrow> st2 c = st1 c"
    using receive_top_ok [OF T assms(8,9)] 1(5) unfolding MultiplierOS_idle_def by auto
  with 1 \<open>l \<noteq> t\<close> show ?thesis by (auto simp: MultiplierOS_receive_def link_def)
qed

lemma MultiplierOS_send_ok:
  assumes "mo_accbuffer_connection ms = Some a"
    and "f_fifo (mo_bottom_fifo ms) \<noteq> [] \<Longrightarrow> mo_bottom_connection ms = Some b"
    and "f_fifo (mo_right_fifo ms) \<noteq> [] \<Longrightarrow> mo_right_connection ms = Some r"
    and "f_fifo (mo_accbuffer_fifo ms) \<noteq> []" and "distinct [a, b, r]"
  shows "\<exists>ms' st'. MultiplierOS_send ms st = Inr (ms', st')
     \<and> MultiplierOS_static ms' = MultiplierOS_static ms \<and> MultiplierOS_idle ms'
     \<and> mo_left_fifo ms' = mo_left_fifo ms \<and> mo_top_fifo ms' = mo_top_fifo ms
     \<and> (if f_fifo (mo_bottom_fifo ms) = [] then st' b = st b else link st' b (f_fifo (mo_bottom_fifo ms)))
     \<and> (if f_fifo (mo_right_fifo ms) = [] then st' r = st r else link st' r (f_fifo (mo_right_fifo ms)))
     \<and> link st' a (f_fifo (mo_accbuffer_fifo ms))
     \<and> (\<forall>c. c \<notin> {a, b, r} \<longrightarrow> st' c = st c)"
proof -
  obtain ms1 st1 where 1: "MultiplierOS_send_bottom ms st = Inr (ms1, st1)"
      "MultiplierOS_static ms1 = MultiplierOS_static ms" "f_fifo (mo_bottom_fifo ms1) = []"
      "mo_left_fifo ms1 = mo_left_fifo ms" "mo_top_fifo ms1 = mo_top_fifo ms"
      "mo_right_fifo ms1 = mo_right_fifo ms" "mo_accbuffer_fifo ms1 = mo_accbuffer_fifo ms"
      "st1 = (if f_fifo (mo_bottom_fifo ms) = [] then st
              else st(b := Connection_send (f_fifo (mo_bottom_fifo ms)) (st b)))"
    using send_bottom_ok [of ms b st] assms(2) by blast
  have r: "f_fifo (mo_right_fifo ms1) \<noteq> [] \<Longrightarrow> mo_right_connection ms1 = Some r"
    using MultiplierOS_static_eqD(2) [OF 1(2)] 1(6) assms(3) by simp
  obtain ms2 st2 where 2: "MultiplierOS_send_right ms1 st1 = Inr (ms2, st2)"
      "MultiplierOS_static ms2 = MultiplierOS_static ms" "f_fifo (mo_right_fifo ms2) = []"
      "mo_left_fifo ms2 = mo_left_fifo ms" "mo_top_fifo ms2 = mo_top_fifo ms"
      "f_fifo (mo_bottom_fifo ms2) = []" "mo_accbuffer_fifo ms2 = mo_accbuffer_fifo ms"
      "st2 = (if f_fifo (mo_right_fifo ms) = [] then st1
              else st1(r := Connection_send (f_fifo (mo_right_fifo ms)) (st1 r)))"
    using send_right_ok [of ms1 r st1, OF r] 1 by auto
  have a: "mo_accbuffer_connection ms2 = Some a"
    using MultiplierOS_static_eqD(5) [OF 2(2)] assms(1) by simp
  obtain ms3 st3 where 3: "MultiplierOS_send_psums ms2 st2 = Inr (ms3, st3)"
      "MultiplierOS_static ms3 = MultiplierOS_static ms" "MultiplierOS_idle ms3"
      "mo_left_fifo ms3 = mo_left_fifo ms" "mo_top_fifo ms3 = mo_top_fifo ms"
      "st3 = st2(a := Connection_send (f_fifo (mo_accbuffer_fifo ms)) (st2 a))"
    using send_psums_ok [of ms2 a st2, OF a] 2 assms(4) by (auto simp: MultiplierOS_idle_def)
  show ?thesis
    using 1 2 3 assms(4,5) by (auto simp: MultiplierOS_send_def link_def)
qed

text \<open>One cycle when both operands are there: multiply, forward, send.\<close>

lemma MultiplierOS_cycle_fire:
  assumes conns: "mo_left_connection ms = Some l" "mo_top_connection ms = Some t"
      "mo_accbuffer_connection ms = Some a"
      "mo_forward_bottom ms \<Longrightarrow> mo_bottom_connection ms = Some b"
      "mo_forward_right ms \<Longrightarrow> mo_right_connection ms = Some r"
      "distinct [l, t, a, b, r]"
    and L: "link st l L" "length L \<le> 1" "\<And>p. p \<in> set L \<Longrightarrow> p_data_type p = IACTIVATION"
    and T: "link st t T" "length T \<le> 1" "\<And>p. p \<in> set T \<Longrightarrow> p_data_type p = WEIGHT"
    and idle: "MultiplierOS_idle ms"
    and ops: "f_fifo (mo_left_fifo ms) @ L = x # xs" "f_fifo (mo_top_fifo ms) @ T = w # ws"
  shows "\<exists>ms' st'. MultiplierOS_cycle ms st = Inr (ms', st')
     \<and> MultiplierOS_static ms' = MultiplierOS_static ms \<and> MultiplierOS_idle ms'
     \<and> f_fifo (mo_left_fifo ms') = xs \<and> f_fifo (mo_top_fifo ms') = ws
     \<and> link st' l [] \<and> link st' t []
     \<and> (if mo_forward_bottom ms then link st' b [w] else st' b = st b)
     \<and> (if mo_forward_right ms then link st' r [x] else st' r = st r)
     \<and> link st' a [MultiplierOS_product x w (mo_num ms) (mo_VN ms)]
     \<and> (\<forall>c. c \<notin> {l, t, a, b, r} \<longrightarrow> st' c = st c)"
proof -
  define ms0 where "ms0 = ms\<lparr>mo_local_cycle := mo_local_cycle ms + 1,
                  mo_stats := mos_total_cycles_update (\<lambda>n. n + 1) (mo_stats ms)\<rparr>"
  have ms0: "MultiplierOS_static ms0 = MultiplierOS_static ms" "MultiplierOS_idle ms0"
      "mo_left_fifo ms0 = mo_left_fifo ms" "mo_top_fifo ms0 = mo_top_fifo ms"
      "mo_left_connection ms0 = Some l" "mo_top_connection ms0 = Some t"
    using idle conns by (simp_all add: ms0_def MultiplierOS_static_def MultiplierOS_idle_def)
  have "l \<noteq> t" using conns(6) by simp
  from MultiplierOS_receive_ok [OF ms0(5,6) this L T ms0(2)] ms0 obtain ms1 st1 where
    1: "MultiplierOS_receive ms0 st = Inr (ms1, st1)"
      "MultiplierOS_static ms1 = MultiplierOS_static ms" "MultiplierOS_idle ms1"
      "f_fifo (mo_left_fifo ms1) = x # xs" "f_fifo (mo_top_fifo ms1) = w # ws"
      "link st1 l []" "link st1 t []" "\<And>c. c \<noteq> l \<Longrightarrow> c \<noteq> t \<Longrightarrow> st1 c = st c"
    using ops by auto
  note s1 = MultiplierOS_static_eqD [OF 1(2)]
  obtain ms2 where
    2: "MultiplierOS_multiply ms1 = Inr ms2"
      "MultiplierOS_static ms2 = MultiplierOS_static ms"
      "f_fifo (mo_left_fifo ms2) = xs" "f_fifo (mo_top_fifo ms2) = ws"
      "f_fifo (mo_right_fifo ms2) = (if mo_forward_right ms then [x] else [])"
      "f_fifo (mo_bottom_fifo ms2) = (if mo_forward_bottom ms then [w] else [])"
      "f_fifo (mo_accbuffer_fifo ms2) = [MultiplierOS_product x w (mo_num ms) (mo_VN ms)]"
    using multiply_ok [OF 1(4,5)] 1(2,3) s1 unfolding MultiplierOS_idle_def by auto
  note s2 = MultiplierOS_static_eqD [OF 2(2)]
  obtain ms3 st3 where
    3: "MultiplierOS_send ms2 st1 = Inr (ms3, st3)"
      "MultiplierOS_static ms3 = MultiplierOS_static ms" "MultiplierOS_idle ms3"
      "mo_left_fifo ms3 = mo_left_fifo ms2" "mo_top_fifo ms3 = mo_top_fifo ms2"
      "if mo_forward_bottom ms then link st3 b [w] else st3 b = st1 b"
      "if mo_forward_right ms then link st3 r [x] else st3 r = st1 r"
      "link st3 a [MultiplierOS_product x w (mo_num ms) (mo_VN ms)]"
      "\<And>c. c \<notin> {a, b, r} \<Longrightarrow> st3 c = st1 c"
    using MultiplierOS_send_ok [of ms2 a b r st1] s2 2 conns by (auto split: if_splits)
  have "MultiplierOS_cycle ms st = Inr (ms3, st3)"
    using 1(1,4,5) 2(1) 3(1) by (simp add: MultiplierOS_cycle_def Let_def ms0_def [symmetric])
  moreover have "link st3 l []" "link st3 t []" "st1 b = st b" "st1 r = st r"
    using 1(6-8) 3(9) [of l] 3(9) [of t] conns(6) by (auto simp: link_def)
  ultimately show ?thesis
    using 1(8) 2 3 by (auto split: if_splits)
qed

text \<open>One cycle while an operand is missing: what arrived is kept, nothing is sent.\<close>

lemma MultiplierOS_cycle_wait:
  assumes conns: "mo_left_connection ms = Some l" "mo_top_connection ms = Some t" "l \<noteq> t"
    and L: "link st l L" "length L \<le> 1" "\<And>p. p \<in> set L \<Longrightarrow> p_data_type p = IACTIVATION"
    and T: "link st t T" "length T \<le> 1" "\<And>p. p \<in> set T \<Longrightarrow> p_data_type p = WEIGHT"
    and idle: "MultiplierOS_idle ms"
    and ops: "f_fifo (mo_left_fifo ms) @ L = [] \<or> f_fifo (mo_top_fifo ms) @ T = []"
  shows "\<exists>ms' st'. MultiplierOS_cycle ms st = Inr (ms', st')
     \<and> MultiplierOS_static ms' = MultiplierOS_static ms \<and> MultiplierOS_idle ms'
     \<and> f_fifo (mo_left_fifo ms') = f_fifo (mo_left_fifo ms) @ L
     \<and> f_fifo (mo_top_fifo ms') = f_fifo (mo_top_fifo ms) @ T
     \<and> link st' l [] \<and> link st' t [] \<and> (\<forall>c. c \<notin> {l, t} \<longrightarrow> st' c = st c)"
proof -
  define ms0 where "ms0 = ms\<lparr>mo_local_cycle := mo_local_cycle ms + 1,
                  mo_stats := mos_total_cycles_update (\<lambda>n. n + 1) (mo_stats ms)\<rparr>"
  have ms0: "MultiplierOS_static ms0 = MultiplierOS_static ms" "MultiplierOS_idle ms0"
      "mo_left_fifo ms0 = mo_left_fifo ms" "mo_top_fifo ms0 = mo_top_fifo ms"
      "mo_left_connection ms0 = Some l" "mo_top_connection ms0 = Some t"
    using idle conns by (simp_all add: ms0_def MultiplierOS_static_def MultiplierOS_idle_def)
  from MultiplierOS_receive_ok [OF ms0(5,6) conns(3) L T ms0(2)] ms0 obtain ms1 st1 where
    1: "MultiplierOS_receive ms0 st = Inr (ms1, st1)"
      "MultiplierOS_static ms1 = MultiplierOS_static ms" "MultiplierOS_idle ms1"
      "f_fifo (mo_left_fifo ms1) = f_fifo (mo_left_fifo ms) @ L"
      "f_fifo (mo_top_fifo ms1) = f_fifo (mo_top_fifo ms) @ T"
      "link st1 l []" "link st1 t []" "\<And>c. c \<noteq> l \<Longrightarrow> c \<noteq> t \<Longrightarrow> st1 c = st c"
    by auto
  have "MultiplierOS_cycle ms st = Inr (ms1, st1)"
    using 1(1,4,5) ops by (auto simp: MultiplierOS_cycle_def Let_def ms0_def [symmetric])
  with 1 show ?thesis by auto
qed

section \<open>The mesh\<close>

record 'd OSMeshMN =
  om_mswitchtable :: "nat \<times> nat \<Rightarrow> 'd MultiplierOS option"
  om_ms_rows :: nat
  om_ms_cols :: nat
  om_forwarding_ports :: nat
  om_buffers_capacity :: nat
  om_port_width :: nat

text \<open>
  \<open>mswitchtable[(i,j)]->op()\<close>: the entry is dereferenced, replaced by its new state, and the
  operation may use the links.
\<close>

definition at_ms ::
  "nat \<times> nat \<Rightarrow> ('d MultiplierOS \<Rightarrow> 'd store \<Rightarrow> ('d MultiplierOS \<times> 'd store) res)
   \<Rightarrow> 'd OSMeshMN \<times> 'd store \<Rightarrow> ('d OSMeshMN \<times> 'd store) res" where
  "at_ms ij f = (\<lambda>(mn, st).
     rderef (om_mswitchtable mn ij) (\<lambda>ms.
     rbind (f ms st) (\<lambda>(ms', st').
     Inr (mn\<lparr>om_mswitchtable := (om_mswitchtable mn)(ij \<mapsto> ms')\<rparr>, st'))))"

definition upd_ms ::
  "nat \<times> nat \<Rightarrow> ('d MultiplierOS \<Rightarrow> 'd MultiplierOS) \<Rightarrow> 'd OSMeshMN \<Rightarrow> 'd OSMeshMN res" where
  "upd_ms ij f mn =
     rderef (om_mswitchtable mn ij) (\<lambda>ms.
     Inr (mn\<lparr>om_mswitchtable := (om_mswitchtable mn)(ij \<mapsto> f ms)\<rparr>))"

definition OSMeshMN_setPhysicalConnection_at ::
  "nat \<times> nat \<Rightarrow> 'd OSMeshMN \<times> 'd store \<Rightarrow> ('d OSMeshMN \<times> 'd store) res" where
  "OSMeshMN_setPhysicalConnection_at = (\<lambda>(i, j) (mn, st).
     rbind (if 0 < i then
         rbind (upd_ms (i, j) (mo_top_connection_update (\<lambda>_. Some (MeshVert i j))) mn) (\<lambda>mn.
         rbind (upd_ms (i - 1, j) (mo_bottom_connection_update (\<lambda>_. Some (MeshVert i j))) mn) (\<lambda>mn.
         Inr (mn, st(MeshVert i j := Connection_new (om_port_width mn)))))
       else Inr (mn, st)) (\<lambda>(mn, st).
     if 0 < j then
       rbind (upd_ms (i, j) (mo_left_connection_update (\<lambda>_. Some (MeshHoriz i j))) mn) (\<lambda>mn.
       rbind (upd_ms (i, j - 1) (mo_right_connection_update (\<lambda>_. Some (MeshHoriz i j))) mn) (\<lambda>mn.
       Inr (mn, st(MeshHoriz i j := Connection_new (om_port_width mn)))))
     else Inr (mn, st)))"

definition OSMeshMN_setPhysicalConnection ::
  "'d OSMeshMN \<times> 'd store \<Rightarrow> ('d OSMeshMN \<times> 'd store) res" where
  "OSMeshMN_setPhysicalConnection = (\<lambda>(mn, st).
     rfold OSMeshMN_setPhysicalConnection_at (mesh_positions (om_ms_rows mn) (om_ms_cols mn)) (mn, st))"

definition OSMeshMN_new :: "Config \<Rightarrow> 'd store \<Rightarrow> ('d OSMeshMN \<times> 'd store) res" where
  "OSMeshMN_new cfg st =
     (let rows = msn_ms_rows (m_MSNetworkCfg cfg); cols = msn_ms_cols (m_MSNetworkCfg cfg);
          mn = \<lparr>om_mswitchtable =
                  (\<lambda>(i, j). if i < rows \<and> j < cols then Some (MultiplierOS_new i j cfg) else None),
                om_ms_rows = rows, om_ms_cols = cols,
                om_forwarding_ports = msc_forwarding_ports (m_MSwitchCfg cfg),
                om_buffers_capacity = msc_buffers_capacity (m_MSwitchCfg cfg),
                om_port_width = msc_port_width (m_MSwitchCfg cfg)\<rparr>
      in OSMeshMN_setPhysicalConnection (mn, st))"

text \<open>
  The connections of the distribution network come as a map from \<open>int\<close>; the model passes the
  map and its number of entries.
\<close>

definition OSMeshMN_setInputConnections ::
  "(nat \<Rightarrow> cid option) \<Rightarrow> nat \<Rightarrow> 'd OSMeshMN \<Rightarrow> 'd OSMeshMN res" where
  "OSMeshMN_setInputConnections conns n mn =
     rassert (uadd (om_ms_cols mn) (om_ms_rows mn) = n)
     (rbind (rfold (\<lambda>i. upd_ms (0, i) (mo_top_connection_update (\<lambda>_. conns i)))
        [0..<om_ms_cols mn] mn) (\<lambda>mn.
      rfold (\<lambda>i. upd_ms (i, 0) (mo_left_connection_update (\<lambda>_. conns (uadd i (om_ms_cols mn)))))
        [0..<om_ms_rows mn] mn))"

definition OSMeshMN_setOutputConnections ::
  "(nat \<Rightarrow> cid option) \<Rightarrow> nat \<Rightarrow> 'd OSMeshMN \<Rightarrow> 'd OSMeshMN res" where
  "OSMeshMN_setOutputConnections conns n mn =
     rassert (umul (om_ms_rows mn) (om_ms_cols mn) = n)
     (rfold (\<lambda>(i, j).
        upd_ms (i, j)
          (mo_accbuffer_connection_update (\<lambda>_. conns (uadd (umul i (om_ms_cols mn)) j))))
        (mesh_positions (om_ms_rows mn) (om_ms_cols mn)) mn)"

definition OSMeshMN_configureSignals ::
  "Tile \<Rightarrow> DNNLayer \<Rightarrow> nat \<Rightarrow> nat \<Rightarrow> 'd OSMeshMN \<Rightarrow> 'd OSMeshMN res" where
  "OSMeshMN_configureSignals tile layer ms_rows ms_cols mn =
     rbind (CompilerMultiplierMesh_configureSignals tile layer ms_rows ms_cols
       CompilerMultiplierMesh_new) (\<lambda>c.
     rfold (\<lambda>ij.
        upd_ms ij
          (\<lambda>ms. MultiplierOS_setVirtualNeuron (map_get 0 (cm_ms_vn_configuration c) ij)
            (ms\<lparr>mo_forward_bottom := map_get False (cm_forwarding_bottom_enabled c) ij,
                mo_forward_right := map_get False (cm_forwarding_right_enabled c) ij\<rparr>)))
       (mesh_positions ms_rows ms_cols) mn)"

definition OSMeshMN_configureSparseSignals ::
  "SparseVN list \<Rightarrow> DNNLayer \<Rightarrow> nat \<Rightarrow> 'd OSMeshMN \<Rightarrow> 'd OSMeshMN res" where
  "OSMeshMN_configureSparseSignals vns layer ms_size mn = rassert False (Inr mn)"

definition OSMeshMN_resetSignals :: "'d OSMeshMN \<Rightarrow> 'd OSMeshMN res" where
  "OSMeshMN_resetSignals mn =
     rfold (\<lambda>ij mn.
        rderef (om_mswitchtable mn ij) (\<lambda>ms.
        rbind (MultiplierOS_resetSignals ms) (\<lambda>ms.
        Inr (mn\<lparr>om_mswitchtable := (om_mswitchtable mn)(ij \<mapsto> ms)\<rparr>))))
       (mesh_positions (om_ms_rows mn) (om_ms_cols mn)) mn"

text \<open>The cycle visits the multipliers from the bottom right to the top left.\<close>

definition OSMeshMN_cycle ::
  "'d::times OSMeshMN \<times> 'd store \<Rightarrow> ('d OSMeshMN \<times> 'd store) res" where
  "OSMeshMN_cycle = (\<lambda>(mn, st).
     rfold (\<lambda>ij. at_ms ij MultiplierOS_cycle)
       (rev (mesh_positions (om_ms_rows mn) (om_ms_cols mn))) (mn, st))"

section \<open>The mesh as a systolic array\<close>

text \<open>
  A pass of the mesh: the physical size \<open>R\<close> by \<open>C\<close>, the part of it in use, the number \<open>K\<close>
  of operand pairs and the packages: \<open>W k j\<close> is the weight \<open>k\<close> of column \<open>j\<close> and \<open>A k i\<close> the
  activation \<open>k\<close> of row \<open>i\<close>.
\<close>

record 'd pass =
  ps_R :: nat
  ps_C :: nat
  ps_ru :: nat
  ps_cu :: nat
  ps_K :: nat
  ps_W :: "nat \<Rightarrow> nat \<Rightarrow> 'd DataPackage"
  ps_A :: "nat \<Rightarrow> nat \<Rightarrow> 'd DataPackage"

definition pass_ok :: "'d pass \<Rightarrow> bool" where
  "pass_ok p \<longleftrightarrow> 0 < ps_ru p \<and> ps_ru p \<le> ps_R p \<and> 0 < ps_cu p \<and> ps_cu p \<le> ps_C p
     \<and> (\<forall>k j. p_data_type (ps_W p k j) = WEIGHT) \<and> (\<forall>k i. p_data_type (ps_A p k i) = IACTIVATION)"

definition top_id :: "nat \<Rightarrow> nat \<Rightarrow> cid" where
  "top_id i j = (if i = 0 then DSTop j else MeshVert i j)"

definition left_id :: "'d pass \<Rightarrow> nat \<Rightarrow> nat \<Rightarrow> cid" where
  "left_id p i j = (if j = 0 then DSTop (ps_C p + i) else MeshHoriz i j)"

definition acc_id :: "'d pass \<Rightarrow> nat \<Rightarrow> nat \<Rightarrow> cid" where
  "acc_id p i j = AccLink (i * ps_C p + j)"

definition used :: "'d pass \<Rightarrow> nat \<Rightarrow> nat \<Rightarrow> bool" where
  "used p i j \<longleftrightarrow> i < ps_ru p \<and> j < ps_cu p"

text \<open>The operand indices held or in flight: entered the queue at delay \<open>d\<close>, consumed at delay \<open>e\<close>.\<close>

definition held :: "nat \<Rightarrow> nat \<Rightarrow> nat \<Rightarrow> nat \<Rightarrow> nat list" where
  "held K t d e = [min K (t - e) ..< min K (t - d)]"

definition arriving :: "nat \<Rightarrow> nat \<Rightarrow> nat \<Rightarrow> nat list" where
  "arriving K t d = (if d \<le> t \<and> t < K + d then [t - d] else [])"

lemma held_arriving: "d \<le> e \<Longrightarrow> held K t d e @ arriving K t d = [min K (t - e) ..< min K (Suc t - d)]"
proof -
  assume "d \<le> e"
  consider "d \<le> t" "t < K + d" | "t < d" | "K + d \<le> t" by linarith
  then show ?thesis
  proof cases
    case 1
    then have "min K (t - d) = t - d" "min K (Suc t - d) = Suc (t - d)" "min K (t - e) \<le> t - d"
      using \<open>d \<le> e\<close> by auto
    with 1 show ?thesis by (simp add: held_def arriving_def)
  next
    case 2
    then show ?thesis by (simp add: held_def arriving_def)
  next
    case 3
    then have "min K (t - d) = K" "min K (Suc t - d) = K" by auto
    with 3 show ?thesis by (simp add: held_def arriving_def)
  qed
qed

lemma held_fire: "\<lbrakk>e \<le> t; t < K + e; d \<le> e\<rbrakk> \<Longrightarrow>
    held K t d e @ arriving K t d = (t - e) # held K (Suc t) d e"
proof -
  assume a: "e \<le> t" "t < K + e" "d \<le> e"
  then have "min K (t - e) = t - e" "min K (Suc t - e) = Suc (t - e)" "t - e < min K (Suc t - d)" by auto
  with a show ?thesis by (simp add: held_arriving) (simp add: held_def upt_conv_Cons)
qed

lemma held_wait: "\<lbrakk>\<not> (e \<le> t \<and> t < K + e); d \<le> e\<rbrakk> \<Longrightarrow>
    held K t d e @ arriving K t d = held K (Suc t) d e"
proof -
  assume a: "\<not> (e \<le> t \<and> t < K + e)" "d \<le> e"
  then have "min K (t - e) = min K (Suc t - e)" by auto
  with a show ?thesis by (simp add: held_arriving) (simp add: held_def)
qed

lemma held_wait_empty: "\<not> (e \<le> t \<and> t < K + e) \<Longrightarrow> held K t e e @ arriving K t e = []"
  by (auto simp: held_def arriving_def)

lemma arriving_Suc: "arriving K (Suc t) (Suc e) = arriving K t e"
  by (simp add: arriving_def)

text \<open>Delay of the operands of multiplier \<open>(i, j)\<close> on its links, and of its products.\<close>

definition top_delay :: "nat \<Rightarrow> nat \<Rightarrow> nat" where
  "top_delay i j = (if i = 0 then 0 else i + j)"

definition left_delay :: "nat \<Rightarrow> nat \<Rightarrow> nat" where
  "left_delay i j = (if j = 0 then 0 else i + j)"

definition top_msg :: "'d pass \<Rightarrow> nat \<Rightarrow> nat \<Rightarrow> nat \<Rightarrow> 'd DataPackage list" where
  "top_msg p t i j =
     (if used p i j then map (\<lambda>k. ps_W p k j) (arriving (ps_K p) t (top_delay i j)) else [])"

definition left_msg :: "'d pass \<Rightarrow> nat \<Rightarrow> nat \<Rightarrow> nat \<Rightarrow> 'd DataPackage list" where
  "left_msg p t i j =
     (if used p i j then map (\<lambda>k. ps_A p k i) (arriving (ps_K p) t (left_delay i j)) else [])"

definition product_of :: "'d::times pass \<Rightarrow> nat \<Rightarrow> nat \<Rightarrow> nat \<Rightarrow> 'd DataPackage" where
  "product_of p i j k =
     MultiplierOS_product (ps_A p k i) (ps_W p k j) (i * ps_C p + j) (i * ps_cu p + j)"

definition acc_msg :: "'d::times pass \<Rightarrow> nat \<Rightarrow> nat \<Rightarrow> nat \<Rightarrow> 'd DataPackage list" where
  "acc_msg p t i j =
     (if used p i j then map (product_of p i j) (arriving (ps_K p) t (Suc (i + j))) else [])"

text \<open>The configuration of multiplier \<open>(i, j)\<close>, and its buffers before cycle \<open>t\<close> of the pass.\<close>

definition ms_wired :: "'d pass \<Rightarrow> nat \<Rightarrow> nat \<Rightarrow> 'd MultiplierOS \<Rightarrow> bool" where
  "ms_wired p i j ms \<longleftrightarrow>
     mo_left_connection ms = Some (left_id p i j) \<and> mo_top_connection ms = Some (top_id i j)
     \<and> mo_accbuffer_connection ms = Some (acc_id p i j)
     \<and> (Suc j < ps_C p \<longrightarrow> mo_right_connection ms = Some (left_id p i (Suc j)))
     \<and> (Suc i < ps_R p \<longrightarrow> mo_bottom_connection ms = Some (top_id (Suc i) j))
     \<and> mo_num ms = i * ps_C p + j"

definition ms_configured :: "'d pass \<Rightarrow> nat \<Rightarrow> nat \<Rightarrow> 'd MultiplierOS \<Rightarrow> bool" where
  "ms_configured p i j ms \<longleftrightarrow>
     (mo_forward_right ms \<longleftrightarrow> used p i (Suc j)) \<and> (mo_forward_bottom ms \<longleftrightarrow> used p (Suc i) j)
     \<and> mo_VN ms = (if used p i j then i * ps_cu p + j else 0)"

definition ms_buffers :: "'d pass \<Rightarrow> nat \<Rightarrow> nat \<Rightarrow> nat \<Rightarrow> 'd MultiplierOS \<Rightarrow> bool" where
  "ms_buffers p t i j ms \<longleftrightarrow>
     MultiplierOS_idle ms
     \<and> f_fifo (mo_top_fifo ms) =
         (if used p i j then map (\<lambda>k. ps_W p k j) (held (ps_K p) t (top_delay i j) (i + j)) else [])
     \<and> f_fifo (mo_left_fifo ms) =
         (if used p i j then map (\<lambda>k. ps_A p k i) (held (ps_K p) t (left_delay i j) (i + j)) else [])"

lemma ms_static_cong:
  "MultiplierOS_static ms' = MultiplierOS_static ms \<Longrightarrow>
     ms_wired p i j ms' = ms_wired p i j ms \<and> ms_configured p i j ms' = ms_configured p i j ms"
  by (simp add: MultiplierOS_static_def ms_wired_def ms_configured_def)

text \<open>The links a multiplier reads and writes.\<close>

definition ms_ports :: "'d pass \<Rightarrow> nat \<Rightarrow> nat \<Rightarrow> cid set" where
  "ms_ports p i j = {left_id p i j, top_id i j, acc_id p i j}
     \<union> (if used p i (Suc j) then {left_id p i (Suc j)} else {})
     \<union> (if used p (Suc i) j then {top_id (Suc i) j} else {})"

lemma ids_distinct: "distinct [left_id p i j, top_id i j, acc_id p i j, top_id (Suc i) j, left_id p i (Suc j)]"
  if "j < ps_C p"
  using that by (auto simp: left_id_def top_id_def acc_id_def)

lemma msg_types:
  assumes "pass_ok p"
  shows "length (left_msg p t i j) \<le> 1" "length (top_msg p t i j) \<le> 1"
    and "q \<in> set (left_msg p t i j) \<Longrightarrow> p_data_type q = IACTIVATION"
    and "q \<in> set (top_msg p t i j) \<Longrightarrow> p_data_type q = WEIGHT"
  using assms
  by (auto simp: left_msg_def top_msg_def arriving_def pass_ok_def split: if_splits)

lemma used_imp: "pass_ok p \<Longrightarrow> used p i j \<Longrightarrow> i < ps_R p \<and> j < ps_C p"
  by (auto simp: used_def pass_ok_def)

lemma used_Suc: "used p (Suc i) j \<Longrightarrow> used p i j" "used p i (Suc j) \<Longrightarrow> used p i j"
  by (auto simp: used_def)

text \<open>One cycle of one multiplier of the pass.\<close>

lemma ms_cycle_pass:
  fixes p :: "'d::times pass"
  assumes p: "pass_ok p" and ij: "i < ps_R p" "j < ps_C p"
    and ms: "ms_wired p i j ms" "ms_configured p i j ms" "ms_buffers p t i j ms"
    and L: "link st (left_id p i j) (left_msg p t i j)"
    and T: "link st (top_id i j) (top_msg p t i j)"
    and A: "link st (acc_id p i j) []"
    and R: "used p i (Suc j) \<Longrightarrow> link st (left_id p i (Suc j)) []"
    and B: "used p (Suc i) j \<Longrightarrow> link st (top_id (Suc i) j) []"
  shows "\<exists>ms' st'. MultiplierOS_cycle ms st = Inr (ms', st')
     \<and> ms_wired p i j ms' \<and> ms_configured p i j ms' \<and> ms_buffers p (Suc t) i j ms'
     \<and> link st' (left_id p i j) [] \<and> link st' (top_id i j) []
     \<and> link st' (acc_id p i j) (acc_msg p (Suc t) i j)
     \<and> (used p i (Suc j) \<longrightarrow> link st' (left_id p i (Suc j)) (left_msg p (Suc t) i (Suc j)))
     \<and> (used p (Suc i) j \<longrightarrow> link st' (top_id (Suc i) j) (top_msg p (Suc t) (Suc i) j))
     \<and> (\<forall>c. c \<notin> ms_ports p i j \<longrightarrow> st' c = st c)"
proof -
  let ?e = "i + j" and ?K = "ps_K p"
  note types = msg_types [OF p, where t = t and i = i and j = j]
  have conns: "mo_left_connection ms = Some (left_id p i j)" "mo_top_connection ms = Some (top_id i j)"
      "mo_accbuffer_connection ms = Some (acc_id p i j)"
      "mo_forward_bottom ms \<Longrightarrow> mo_bottom_connection ms = Some (top_id (Suc i) j)"
      "mo_forward_right ms \<Longrightarrow> mo_right_connection ms = Some (left_id p i (Suc j))"
    using ms(1,2) p used_imp [OF p, of i "Suc j"] used_imp [OF p, of "Suc i" j]
    by (auto simp: ms_wired_def ms_configured_def)
  have idle: "MultiplierOS_idle ms" using ms(3) by (simp add: ms_buffers_def)
  have dl: "left_delay i j \<le> ?e" "top_delay i j \<le> ?e" by (simp_all add: left_delay_def top_delay_def)
  have sd: "left_delay i (Suc j) = Suc ?e" "top_delay (Suc i) j = Suc ?e"
    by (simp_all add: left_delay_def top_delay_def)
  show ?thesis
  proof (cases "used p i j \<and> ?e \<le> t \<and> t < ?K + ?e")
    case True
    have ops: "f_fifo (mo_left_fifo ms) @ left_msg p t i j =
        ps_A p (t - ?e) i # map (\<lambda>k. ps_A p k i) (held ?K (Suc t) (left_delay i j) ?e)"
      "f_fifo (mo_top_fifo ms) @ top_msg p t i j =
        ps_W p (t - ?e) j # map (\<lambda>k. ps_W p k j) (held ?K (Suc t) (top_delay i j) ?e)"
      using True ms(3) held_fire [of ?e t ?K "left_delay i j"] held_fire [of ?e t ?K "top_delay i j"] dl
      by (simp_all add: ms_buffers_def left_msg_def top_msg_def flip: map_append)
    from MultiplierOS_cycle_fire [OF conns ids_distinct [OF ij(2)] L types(1,3) T types(2,4) idle ops]
    obtain ms' st' where r: "MultiplierOS_cycle ms st = Inr (ms', st')"
      "MultiplierOS_static ms' = MultiplierOS_static ms" "MultiplierOS_idle ms'"
      "f_fifo (mo_left_fifo ms') = map (\<lambda>k. ps_A p k i) (held ?K (Suc t) (left_delay i j) ?e)"
      "f_fifo (mo_top_fifo ms') = map (\<lambda>k. ps_W p k j) (held ?K (Suc t) (top_delay i j) ?e)"
      "link st' (left_id p i j) []" "link st' (top_id i j) []"
      "if mo_forward_bottom ms then link st' (top_id (Suc i) j) [ps_W p (t - ?e) j]
         else st' (top_id (Suc i) j) = st (top_id (Suc i) j)"
      "if mo_forward_right ms then link st' (left_id p i (Suc j)) [ps_A p (t - ?e) i]
         else st' (left_id p i (Suc j)) = st (left_id p i (Suc j))"
      "link st' (acc_id p i j)
         [MultiplierOS_product (ps_A p (t - ?e) i) (ps_W p (t - ?e) j) (mo_num ms) (mo_VN ms)]"
      "\<And>c. c \<notin> {left_id p i j, top_id i j, acc_id p i j, top_id (Suc i) j, left_id p i (Suc j)}
         \<Longrightarrow> st' c = st c" by blast
    have "arriving ?K (Suc t) (Suc ?e) = [t - ?e]" using True by (simp add: arriving_def)
    then have msgs: "used p i (Suc j) \<Longrightarrow> left_msg p (Suc t) i (Suc j) = [ps_A p (t - ?e) i]"
      "used p (Suc i) j \<Longrightarrow> top_msg p (Suc t) (Suc i) j = [ps_W p (t - ?e) j]"
      "acc_msg p (Suc t) i j = [product_of p i j (t - ?e)]"
      using True by (simp_all add: left_msg_def top_msg_def acc_msg_def sd)
    show ?thesis
      using r ms True msgs ms_static_cong [OF r(2), of p i j]
      by (intro exI [of _ ms'] exI [of _ st'])
        (auto simp: ms_buffers_def ms_configured_def ms_wired_def product_of_def ms_ports_def split: if_splits)
  next
    case False
    have ops: "f_fifo (mo_left_fifo ms) @ left_msg p t i j = [] \<or>
        f_fifo (mo_top_fifo ms) @ top_msg p t i j = []"
      using False ms(3) held_wait_empty [of ?e t ?K]
      by (auto simp: ms_buffers_def left_msg_def top_msg_def left_delay_def top_delay_def)
    have eqs: "f_fifo (mo_left_fifo ms) @ left_msg p t i j =
        (if used p i j then map (\<lambda>k. ps_A p k i) (held ?K (Suc t) (left_delay i j) ?e) else [])"
      "f_fifo (mo_top_fifo ms) @ top_msg p t i j =
        (if used p i j then map (\<lambda>k. ps_W p k j) (held ?K (Suc t) (top_delay i j) ?e) else [])"
      using False ms(3) held_wait [of ?e t ?K "left_delay i j"] held_wait [of ?e t ?K "top_delay i j"] dl
      by (auto simp: ms_buffers_def left_msg_def top_msg_def simp flip: map_append)
    have lt: "left_id p i j \<noteq> top_id i j" using ids_distinct [OF ij(2), of i] by simp
    from MultiplierOS_cycle_wait [OF conns(1,2) lt L types(1,3) T types(2,4) idle ops]
    obtain ms' st' where r: "MultiplierOS_cycle ms st = Inr (ms', st')"
      "MultiplierOS_static ms' = MultiplierOS_static ms" "MultiplierOS_idle ms'"
      "f_fifo (mo_left_fifo ms') = f_fifo (mo_left_fifo ms) @ left_msg p t i j"
      "f_fifo (mo_top_fifo ms') = f_fifo (mo_top_fifo ms) @ top_msg p t i j"
      "link st' (left_id p i j) []" "link st' (top_id i j) []"
      "\<And>c. c \<notin> {left_id p i j, top_id i j} \<Longrightarrow> st' c = st c" by blast
    have none: "used p i j \<Longrightarrow> arriving ?K (Suc t) (Suc ?e) = []" using False by (auto simp: arriving_def)
    have msgs: "left_msg p (Suc t) i (Suc j) = []" "top_msg p (Suc t) (Suc i) j = []"
      "acc_msg p (Suc t) i j = []"
      using none used_Suc [of p i j] by (auto simp: left_msg_def top_msg_def acc_msg_def sd)
    have "st' (acc_id p i j) = st (acc_id p i j)" "st' (top_id (Suc i) j) = st (top_id (Suc i) j)"
      "st' (left_id p i (Suc j)) = st (left_id p i (Suc j))"
      using r(8) ids_distinct [OF ij(2), of i] by auto
    with A B R have links: "link st' (acc_id p i j) []" "used p i (Suc j) \<Longrightarrow> link st' (left_id p i (Suc j)) []"
      "used p (Suc i) j \<Longrightarrow> link st' (top_id (Suc i) j) []"
      by (simp_all add: link_def)
    show ?thesis
      using r ms msgs ms_static_cong [OF r(2), of p i j] links eqs
      by (intro exI [of _ ms'] exI [of _ st']) (auto simp: ms_buffers_def ms_ports_def)
  qed
qed

subsection \<open>One cycle of the mesh\<close>


text \<open>
  The mesh during cycle \<open>t\<close> of a pass, when the multipliers of \<open>D\<close> have had their turn.
\<close>

definition mesh_links :: "'d::times pass \<Rightarrow> nat \<Rightarrow> (nat \<times> nat) set \<Rightarrow> 'd store \<Rightarrow> bool" where
  "mesh_links p t D st \<longleftrightarrow> (\<forall>i < ps_R p. \<forall>j < ps_C p.
     link st (top_id i j)
       (if (i, j) \<notin> D then top_msg p t i j
        else if 0 < i \<and> (i - 1, j) \<in> D then top_msg p (Suc t) i j else [])
     \<and> link st (left_id p i j)
       (if (i, j) \<notin> D then left_msg p t i j
        else if 0 < j \<and> (i, j - 1) \<in> D then left_msg p (Suc t) i j else [])
     \<and> link st (acc_id p i j) (if (i, j) \<in> D then acc_msg p (Suc t) i j else []))"

definition mesh_table :: "'d::times pass \<Rightarrow> nat \<Rightarrow> (nat \<times> nat) set \<Rightarrow> 'd OSMeshMN \<Rightarrow> bool" where
  "mesh_table p t D mn \<longleftrightarrow> om_ms_rows mn = ps_R p \<and> om_ms_cols mn = ps_C p \<and>
     (\<forall>i < ps_R p. \<forall>j < ps_C p. \<exists>ms. om_mswitchtable mn (i, j) = Some ms
        \<and> ms_wired p i j ms \<and> ms_configured p i j ms
        \<and> ms_buffers p (if (i, j) \<in> D then Suc t else t) i j ms)"

text \<open>The links of the mesh.\<close>

definition mesh_cids :: "'d pass \<Rightarrow> cid set" where
  "mesh_cids p = {c. \<exists>i < ps_R p. \<exists>j < ps_C p. c = top_id i j \<or> c = left_id p i j \<or> c = acc_id p i j}"

lemma ids_inj:
  assumes "j < ps_C p" "j' < ps_C p"
  shows "top_id i j = top_id i' j' \<longleftrightarrow> i = i' \<and> j = j'"
    and "left_id p i j = left_id p i' j' \<longleftrightarrow> i = i' \<and> j = j'"
    and "acc_id p i j = acc_id p i' j' \<longleftrightarrow> i = i' \<and> j = j'"
    and "top_id i j \<noteq> left_id p i' j'" "top_id i j \<noteq> acc_id p i' j'" "left_id p i j \<noteq> acc_id p i' j'"
proof -
  show "acc_id p i j = acc_id p i' j' \<longleftrightarrow> i = i' \<and> j = j'"
  proof
    assume "acc_id p i j = acc_id p i' j'"
    then have e: "i * ps_C p + j = i' * ps_C p + j'" by (simp add: acc_id_def)
    have "i = (i * ps_C p + j) div ps_C p" using assms by simp
    also have "\<dots> = i'" using assms by (simp add: e)
    finally show "i = i' \<and> j = j'" using e by simp
  qed simp
qed (use assms in \<open>auto simp: top_id_def left_id_def acc_id_def split: if_splits\<close>)

text \<open>
  A set that is closed towards the bottom right: the multipliers that read what \<open>(i, j)\<close> sends
  have had their turn before \<open>(i, j)\<close>.
\<close>

definition turn_ok :: "'d pass \<Rightarrow> (nat \<times> nat) set \<Rightarrow> nat \<Rightarrow> nat \<Rightarrow> bool" where
  "turn_ok p D i j \<longleftrightarrow> i < ps_R p \<and> j < ps_C p \<and> (i, j) \<notin> D
     \<and> (Suc i < ps_R p \<longrightarrow> (Suc i, j) \<in> D) \<and> (Suc j < ps_C p \<longrightarrow> (i, Suc j) \<in> D)
     \<and> (0 < i \<longrightarrow> (i - 1, j) \<notin> D) \<and> (0 < j \<longrightarrow> (i, j - 1) \<notin> D)"

lemma mesh_step:
  fixes p :: "'d::times pass"
  assumes p: "pass_ok p" and turn: "turn_ok p D i j"
    and table: "mesh_table p t D mn" and links: "mesh_links p t D st"
  shows "\<exists>mn' st'. at_ms (i, j) MultiplierOS_cycle (mn, st) = Inr (mn', st')
     \<and> mesh_table p t (insert (i, j) D) mn' \<and> mesh_links p t (insert (i, j) D) st'
     \<and> (\<forall>c. c \<notin> mesh_cids p \<longrightarrow> st' c = st c)"
proof -
  from turn have ij: "i < ps_R p" "j < ps_C p" "(i, j) \<notin> D"
    by (simp_all add: turn_ok_def)
  have SucR: "Suc j < ps_C p \<Longrightarrow> (i, Suc j) \<in> D" and SucD: "Suc i < ps_R p \<Longrightarrow> (Suc i, j) \<in> D"
    using turn by (simp_all add: turn_ok_def)
  from table ij obtain ms where ms: "om_mswitchtable mn (i, j) = Some ms" "ms_wired p i j ms"
      "ms_configured p i j ms" "ms_buffers p t i j ms"
    unfolding mesh_table_def by fastforce
  have LTA: "link st (left_id p i j) (left_msg p t i j)"
      "link st (top_id i j) (top_msg p t i j)" "link st (acc_id p i j) []"
    using links [unfolded mesh_links_def, rule_format, OF ij(1,2)] ij(3) by simp_all
  have R: "link st (left_id p i (Suc j)) []" if "used p i (Suc j)"
    using links [unfolded mesh_links_def, rule_format, of i "Suc j"] used_imp [OF p that] SucR ij(3)
    by simp
  have B: "link st (top_id (Suc i) j) []" if "used p (Suc i) j"
    using links [unfolded mesh_links_def, rule_format, of "Suc i" j] used_imp [OF p that] SucD ij(3)
    by simp
  from ms_cycle_pass [OF p ij(1,2) ms(2-4) LTA R B] obtain ms' st' where
    r: "MultiplierOS_cycle ms st = Inr (ms', st')" "ms_wired p i j ms'" "ms_configured p i j ms'"
      "ms_buffers p (Suc t) i j ms'" "link st' (left_id p i j) []" "link st' (top_id i j) []"
      "link st' (acc_id p i j) (acc_msg p (Suc t) i j)"
      "used p i (Suc j) \<Longrightarrow> link st' (left_id p i (Suc j)) (left_msg p (Suc t) i (Suc j))"
      "used p (Suc i) j \<Longrightarrow> link st' (top_id (Suc i) j) (top_msg p (Suc t) (Suc i) j)"
      "\<And>c. c \<notin> ms_ports p i j \<Longrightarrow> st' c = st c"
    by blast
  let ?mn = "mn\<lparr>om_mswitchtable := (om_mswitchtable mn)((i, j) \<mapsto> ms')\<rparr>"
  have "at_ms (i, j) MultiplierOS_cycle (mn, st) = Inr (?mn, st')"
    by (simp add: at_ms_def ms r)
  moreover have "mesh_table p t (insert (i, j) D) ?mn"
    unfolding mesh_table_def
  proof (intro conjI allI impI)
    fix x y assume xy: "x < ps_R p" "y < ps_C p"
    show "\<exists>ms. om_mswitchtable ?mn (x, y) = Some ms \<and> ms_wired p x y ms \<and> ms_configured p x y ms
        \<and> ms_buffers p (if (x, y) \<in> insert (i, j) D then Suc t else t) x y ms"
    proof (cases "(x, y) = (i, j)")
      case True
      with r show ?thesis by simp
    next
      case False
      moreover from table xy obtain m where "om_mswitchtable mn (x, y) = Some m" "ms_wired p x y m"
          "ms_configured p x y m" "ms_buffers p (if (x, y) \<in> D then Suc t else t) x y m"
        unfolding mesh_table_def by blast
      ultimately show ?thesis by (intro exI [of _ m]) auto
    qed
  qed (use table in \<open>simp_all add: mesh_table_def\<close>)
  moreover have "mesh_links p t (insert (i, j) D) st'"
    unfolding mesh_links_def
  proof (intro allI impI conjI)
    fix x y assume xy: "x < ps_R p" "y < ps_C p"
    note old = links [unfolded mesh_links_def, rule_format, OF xy]
    show "link st' (top_id x y)
       (if (x, y) \<notin> insert (i, j) D then top_msg p t x y
        else if 0 < x \<and> (x - 1, y) \<in> insert (i, j) D then top_msg p (Suc t) x y else [])"
    proof -
      consider "x = i" "y = j" | "x = Suc i" "y = j" | "(x, y) \<noteq> (i, j)" "(x, y) \<noteq> (Suc i, j)" by auto
      then show ?thesis
      proof cases
        case 1
        with r(6) turn show ?thesis by (auto simp: turn_ok_def)
      next
        case 2
        show ?thesis
        proof (cases "used p (Suc i) j")
          case True
          with 2 r(9) SucD xy show ?thesis by simp
        next
          case False
          then have "top_id (Suc i) j \<notin> ms_ports p i j"
            using ids_inj [OF ij(2) ij(2)] ids_inj [OF xy(2) xy(2)] ids_distinct [OF ij(2), of i]
            by (auto simp: ms_ports_def top_id_def left_id_def acc_id_def)
          then have "st' (top_id (Suc i) j) = st (top_id (Suc i) j)" by (rule r(10))
          with False old 2 SucD xy ij(3) show ?thesis
            by (simp add: top_msg_def link_def)
        qed
      next
        case 3
        then have "top_id x y \<notin> ms_ports p i j"
          using ids_inj [OF xy(2) ij(2)] by (auto simp: ms_ports_def top_id_def left_id_def acc_id_def split: if_splits)
        then have "st' (top_id x y) = st (top_id x y)" by (rule r(10))
        moreover have "(x, y) \<in> insert (i, j) D \<longleftrightarrow> (x, y) \<in> D" using 3 by auto
        moreover have "0 < x \<and> (x - 1, y) \<in> insert (i, j) D \<longleftrightarrow> 0 < x \<and> (x - 1, y) \<in> D" using 3 by auto
        ultimately show ?thesis using old by (simp add: link_def)
      qed
    qed
    show "link st' (left_id p x y)
       (if (x, y) \<notin> insert (i, j) D then left_msg p t x y
        else if 0 < y \<and> (x, y - 1) \<in> insert (i, j) D then left_msg p (Suc t) x y else [])"
    proof -
      consider "x = i" "y = j" | "x = i" "y = Suc j" | "(x, y) \<noteq> (i, j)" "(x, y) \<noteq> (i, Suc j)" by auto
      then show ?thesis
      proof cases
        case 1
        with r(5) turn show ?thesis by (auto simp: turn_ok_def)
      next
        case 2
        show ?thesis
        proof (cases "used p i (Suc j)")
          case True
          with 2 r(8) SucR xy show ?thesis by simp
        next
          case False
          then have "left_id p i (Suc j) \<notin> ms_ports p i j"
            by (auto simp: ms_ports_def top_id_def left_id_def acc_id_def)
          then have "st' (left_id p i (Suc j)) = st (left_id p i (Suc j))" by (rule r(10))
          with False old 2 SucR xy ij(3) show ?thesis
            by (simp add: left_msg_def link_def)
        qed
      next
        case 3
        then have "left_id p x y \<notin> ms_ports p i j"
          using ids_inj [OF xy(2) ij(2)] xy ij by (auto simp: ms_ports_def top_id_def left_id_def acc_id_def split: if_splits)
        then have "st' (left_id p x y) = st (left_id p x y)" by (rule r(10))
        moreover have "(x, y) \<in> insert (i, j) D \<longleftrightarrow> (x, y) \<in> D" using 3 by auto
        moreover have "0 < y \<and> (x, y - 1) \<in> insert (i, j) D \<longleftrightarrow> 0 < y \<and> (x, y - 1) \<in> D" using 3 by auto
        ultimately show ?thesis using old by (simp add: link_def)
      qed
    qed
    show "link st' (acc_id p x y) (if (x, y) \<in> insert (i, j) D then acc_msg p (Suc t) x y else [])"
    proof (cases "x = i \<and> y = j")
      case True
      with r(7) show ?thesis by simp
    next
      case False
      then have "acc_id p x y \<notin> ms_ports p i j"
        using ids_inj(3) [OF xy(2) ij(2), of x i] by (auto simp: ms_ports_def top_id_def left_id_def acc_id_def)
      then have "st' (acc_id p x y) = st (acc_id p x y)" by (rule r(10))
      with False old show ?thesis by (auto simp: link_def)
    qed
  qed
  moreover have "\<forall>c. c \<notin> mesh_cids p \<longrightarrow> st' c = st c"
  proof (intro allI impI)
    fix c assume c: "c \<notin> mesh_cids p"
    have "ms_ports p i j \<subseteq> mesh_cids p"
      using ij used_imp [OF p, of i "Suc j"] used_imp [OF p, of "Suc i" j]
      by (auto simp: ms_ports_def mesh_cids_def split: if_splits)
    with c r(10) show "st' c = st c" by blast
  qed
  ultimately show ?thesis by blast
qed

text \<open>The positions the cycle has visited after \<open>n\<close> turns.\<close>

lemma nth_mesh_positions:
  assumes "k < R * C"
  shows "mesh_positions R C ! k = (k div C, k mod C)"
proof -
  from assms have "0 < C" by (cases C) auto
  with assms have "k div C < R" "k mod C < C"
    by (simp_all add: less_mult_imp_div_less)
  then show ?thesis
    using assms by (simp add: mesh_positions_def product_nth)
qed

lemma length_mesh_positions [simp]: "length (mesh_positions R C) = R * C"
  by (simp add: mesh_positions_def)

lemma set_mesh_positions [simp]: "set (mesh_positions R C) = {..<R} \<times> {..<C}"
  by (auto simp: mesh_positions_def)

definition visited :: "nat \<Rightarrow> nat \<Rightarrow> nat \<Rightarrow> (nat \<times> nat) set" where
  "visited R C n = {(i, j). i < R \<and> j < C \<and> R * C \<le> i * C + j + n}"

lemma pos_less: "i < R \<Longrightarrow> j < C \<Longrightarrow> i * C + j < R * (C::nat)"
proof -
  assume a: "i < R" "j < C"
  then have "i * C + j < Suc i * C" by simp
  also have "\<dots> \<le> R * C" using a by (intro mult_le_mono1) simp
  finally show ?thesis .
qed

lemma pos_eq: "j < C \<Longrightarrow> j' < C \<Longrightarrow> i * C + j = i' * C + (j'::nat) \<Longrightarrow> i = i' \<and> j = j'"
proof -
  assume a: "j < C" "j' < C" "i * C + j = i' * C + j'"
  have "(i * C + j) div C = i" "(i' * C + j') div C = i'" using a(1,2) by simp_all
  then have "i = i'" by (metis a(3))
  then show ?thesis using a(3) by simp
qed

lemma OSMeshMN_cycle_pass:
  fixes p :: "'d::times pass"
  assumes p: "pass_ok p"
    and table: "mesh_table p t {} mn" and links: "mesh_links p t {} st"
  shows "\<exists>mn' st'. OSMeshMN_cycle (mn, st) = Inr (mn', st')
     \<and> mesh_table p (Suc t) {} mn'
     \<and> mesh_links p t ({..<ps_R p} \<times> {..<ps_C p}) st'
     \<and> (\<forall>c. c \<notin> mesh_cids p \<longrightarrow> st' c = st c)"
proof -
  let ?R = "ps_R p" and ?C = "ps_C p"
  let ?xs = "mesh_positions ?R ?C"
  define I where "I n s \<longleftrightarrow> (case s of (mn', st') \<Rightarrow> mesh_table p t (visited ?R ?C n) mn'
     \<and> mesh_links p t (visited ?R ?C n) st' \<and> (\<forall>c. c \<notin> mesh_cids p \<longrightarrow> st' c = st c))" for n s
  have "\<exists>s'. rfold (\<lambda>ij. at_ms ij MultiplierOS_cycle) (rev ?xs) (mn, st) = Inr s' \<and> I (length ?xs) s'"
  proof (rule rfold_total_rev)
    have "visited ?R ?C 0 = {}" using pos_less [of _ ?R _ ?C] by (force simp: visited_def)
    with table links show "I 0 (mn, st)" by (simp add: I_def)
  next
    fix n s assume n: "n < length ?xs" and "I n s"
    then obtain mn1 st1 where s: "s = (mn1, st1)" and 1: "mesh_table p t (visited ?R ?C n) mn1"
        "mesh_links p t (visited ?R ?C n) st1" "\<And>c. c \<notin> mesh_cids p \<Longrightarrow> st1 c = st c"
      by (cases s) (simp add: I_def)
    define k where "k = ?R * ?C - Suc n"
    define i where "i = k div ?C"
    define j where "j = k mod ?C"
    have k: "k < ?R * ?C" "Suc (k + n) = ?R * ?C" using n by (simp_all add: k_def)
    then have C: "0 < ?C" by (cases ?C) auto
    then have ij: "i < ?R" "j < ?C" "i * ?C + j = k"
      using k(1) by (simp_all add: i_def j_def less_mult_imp_div_less)
    have nth: "?xs ! (length ?xs - Suc n) = (i, j)"
      using nth_mesh_positions [OF k(1)] by (simp add: k_def i_def j_def)
    have turn: "turn_ok p (visited ?R ?C n) i j"
      unfolding turn_ok_def visited_def
    proof (intro conjI impI)
      assume "0 < i"
      then obtain i0 where "i = Suc i0" by (cases i) auto
      with k ij show "(i - 1, j) \<notin> {(i, j). i < ?R \<and> j < ?C \<and> ?R * ?C \<le> i * ?C + j + n}"
        by auto
    qed (use ij k C in auto)
    have ins: "visited ?R ?C (Suc n) = insert (i, j) (visited ?R ?C n)"
    proof (intro set_eqI iffI)
      fix x assume "x \<in> visited ?R ?C (Suc n)"
      then obtain a b where x: "x = (a, b)" "a < ?R" "b < ?C" "?R * ?C \<le> a * ?C + b + Suc n"
        by (auto simp: visited_def)
      show "x \<in> insert (i, j) (visited ?R ?C n)"
      proof (cases "a * ?C + b = k")
        case True
        with pos_eq [of b ?C j a i] x ij show ?thesis by simp
      next
        case False
        with x k show ?thesis by (simp add: visited_def)
      qed
    next
      fix x assume "x \<in> insert (i, j) (visited ?R ?C n)"
      with ij k show "x \<in> visited ?R ?C (Suc n)" by (auto simp: visited_def)
    qed
    from mesh_step [OF p turn 1(1,2)] obtain mn2 st2 where
      "at_ms (i, j) MultiplierOS_cycle (mn1, st1) = Inr (mn2, st2)"
      "mesh_table p t (visited ?R ?C (Suc n)) mn2" "mesh_links p t (visited ?R ?C (Suc n)) st2"
      "\<And>c. c \<notin> mesh_cids p \<Longrightarrow> st2 c = st1 c"
      unfolding ins by blast
    with s 1(3) show "\<exists>s'. at_ms (?xs ! (length ?xs - Suc n)) MultiplierOS_cycle s = Inr s' \<and> I (Suc n) s'"
      unfolding nth by (simp add: I_def)
  qed
  then obtain mn' st' where r: "OSMeshMN_cycle (mn, st) = Inr (mn', st')" "I (?R * ?C) (mn', st')"
    using table by (auto simp: OSMeshMN_cycle_def mesh_table_def)
  have all: "visited ?R ?C (?R * ?C) = {..<?R} \<times> {..<?C}" by (auto simp: visited_def)
  have "mesh_table p (Suc t) {} mn'"
    using r(2) unfolding I_def all mesh_table_def by auto
  with r show ?thesis unfolding I_def all by blast
qed

text \<open>Between two cycles the readers of the products and the feeders of the operands have run.\<close>

lemma mesh_links_next:
  assumes links: "mesh_links p t ({..<ps_R p} \<times> {..<ps_C p}) st"
    and inner: "\<And>i j. st' (MeshVert i j) = st (MeshVert i j)"
      "\<And>i j. st' (MeshHoriz i j) = st (MeshHoriz i j)"
    and acc: "\<And>i j. i < ps_R p \<Longrightarrow> j < ps_C p \<Longrightarrow> link st' (acc_id p i j) []"
    and top: "\<And>j. j < ps_C p \<Longrightarrow> link st' (top_id 0 j) (top_msg p (Suc t) 0 j)"
    and left: "\<And>i. i < ps_R p \<Longrightarrow> link st' (left_id p i 0) (left_msg p (Suc t) i 0)"
  shows "mesh_links p (Suc t) {} st'"
  unfolding mesh_links_def
proof (intro allI impI)
  fix i j assume ij: "i < ps_R p" "j < ps_C p"
  have "link st' (top_id i j) (top_msg p (Suc t) i j)"
  proof (cases i)
    case 0
    with top [OF ij(2)] show ?thesis by simp
  next
    case (Suc i0)
    then have "link st (top_id i j) (top_msg p (Suc t) i j)" "st' (top_id i j) = st (top_id i j)"
      using links [unfolded mesh_links_def, rule_format, OF ij] ij inner by (simp_all add: top_id_def)
    then show ?thesis by (simp add: link_def)
  qed
  moreover have "link st' (left_id p i j) (left_msg p (Suc t) i j)"
  proof (cases j)
    case 0
    with left [OF ij(1)] show ?thesis by simp
  next
    case (Suc j0)
    then have "link st (left_id p i j) (left_msg p (Suc t) i j)" "st' (left_id p i j) = st (left_id p i j)"
      using links [unfolded mesh_links_def, rule_format, OF ij] ij inner by (simp_all add: left_id_def)
    then show ?thesis by (simp add: link_def)
  qed
  ultimately show "link st' (top_id i j) (if (i, j) \<notin> {} then top_msg p (Suc t) i j
        else if 0 < i \<and> (i - 1, j) \<in> {} then top_msg p (Suc (Suc t)) i j else [])
     \<and> link st' (left_id p i j) (if (i, j) \<notin> {} then left_msg p (Suc t) i j
        else if 0 < j \<and> (i, j - 1) \<in> {} then left_msg p (Suc (Suc t)) i j else [])
     \<and> link st' (acc_id p i j) (if (i, j) \<in> {} then acc_msg p (Suc (Suc t)) i j else [])"
    using acc [OF ij] by simp
qed

text \<open>When the last products have left, the mesh is empty again.\<close>

definition pass_length :: "'d pass \<Rightarrow> nat" where
  "pass_length p = ps_K p + ps_ru p + ps_cu p"

lemma arriving_late: "K + d \<le> t \<Longrightarrow> arriving K t d = []"
  by (simp add: arriving_def)

lemma held_late: "K + e \<le> t \<Longrightarrow> held K t d e = []"
  by (simp add: held_def)

lemma pass_over:
  assumes "pass_length p \<le> Suc t"
  shows "top_msg p t i j = []" "left_msg p t i j = []"
    "ms_buffers p t i j ms \<longleftrightarrow> MultiplierOS_idle ms \<and> f_fifo (mo_top_fifo ms) = [] \<and> f_fifo (mo_left_fifo ms) = []"
  using assms
  by (auto simp: top_msg_def left_msg_def ms_buffers_def top_delay_def left_delay_def used_def
      pass_length_def arriving_late held_late)

lemma pass_over_acc:
  assumes "pass_length p \<le> t"
  shows "acc_msg p t i j = []"
  using assms by (auto simp: acc_msg_def used_def pass_length_def arriving_late)

end
