(* ===== verification/MeshSetup.thy ===== *)
theory MeshSetup
  imports Mesh
begin

text \<open>
  How the mesh gets into the state a pass starts from: the signals of the mesh compiler reach the
  multipliers (\<open>configureSignals_ok\<close>), \<open>resetSignals\<close> empties the operand fifos, the constructor
  creates the links between neighbours, and the connections of the distribution and the reduction
  network are attached (\<open>OSMeshMN_new_ok\<close>, \<open>OSMeshMN_connect_ok\<close>).
\<close>

section \<open>Configuring the mesh\<close>

lemma rfold_upd_ms:
  assumes "distinct xs" and "\<forall>ij \<in> set xs. om_mswitchtable mn ij \<noteq> None"
  shows "rfold (\<lambda>ij. upd_ms ij (g ij)) xs mn =
     Inr (mn\<lparr>om_mswitchtable := (\<lambda>ij. if ij \<in> set xs then map_option (g ij) (om_mswitchtable mn ij)
                                    else om_mswitchtable mn ij)\<rparr>)"
  using assms
proof (induction xs arbitrary: mn)
  case Nil
  then show ?case by simp
next
  case (Cons x xs)
  then obtain ms where ms: "om_mswitchtable mn x = Some ms" by auto
  let ?mn = "mn\<lparr>om_mswitchtable := (om_mswitchtable mn)(x \<mapsto> g x ms)\<rparr>"
  have "rfold (\<lambda>ij. upd_ms ij (g ij)) (x # xs) mn = rfold (\<lambda>ij. upd_ms ij (g ij)) xs ?mn"
    by (simp add: upd_ms_def ms)
  also have "\<dots> = Inr (?mn\<lparr>om_mswitchtable :=
      (\<lambda>ij. if ij \<in> set xs then map_option (g ij) (om_mswitchtable ?mn ij) else om_mswitchtable ?mn ij)\<rparr>)"
    using Cons.prems by (intro Cons.IH) auto
  also have "\<dots> = Inr (mn\<lparr>om_mswitchtable := (\<lambda>ij. if ij \<in> set (x # xs)
      then map_option (g ij) (om_mswitchtable mn ij) else om_mswitchtable mn ij)\<rparr>)"
    using Cons.prems(1) ms by (auto simp: fun_eq_iff)
  finally show ?case .
qed

lemma distinct_mesh_positions [simp]: "distinct (mesh_positions R C)"
  by (simp add: mesh_positions_def distinct_product)

lemma fold_generate_ms_signals:
  "cm_forwarding_bottom_enabled (fold (generate_ms_signals_at ru cu) xs c) =
     (\<lambda>(i, j). if (i, j) \<in> set xs then Some (i < usub ru 1 \<and> j < cu)
                else cm_forwarding_bottom_enabled c (i, j))"
  "cm_forwarding_right_enabled (fold (generate_ms_signals_at ru cu) xs c) =
     (\<lambda>(i, j). if (i, j) \<in> set xs then Some (j < usub cu 1 \<and> i < ru)
                else cm_forwarding_right_enabled c (i, j))"
  "cm_ms_vn_configuration (fold (generate_ms_signals_at ru cu) xs c) =
     (\<lambda>(i, j). if (i, j) \<in> set xs \<and> i < ru \<and> j < cu then Some (uadd (umul i cu) j)
                else cm_ms_vn_configuration c (i, j))"
proof -
  have "cm_forwarding_bottom_enabled (fold (generate_ms_signals_at ru cu) xs c) (i, j) =
      (if (i, j) \<in> set xs then Some (i < usub ru 1 \<and> j < cu) else cm_forwarding_bottom_enabled c (i, j))
    \<and> cm_forwarding_right_enabled (fold (generate_ms_signals_at ru cu) xs c) (i, j) =
      (if (i, j) \<in> set xs then Some (j < usub cu 1 \<and> i < ru) else cm_forwarding_right_enabled c (i, j))
    \<and> cm_ms_vn_configuration (fold (generate_ms_signals_at ru cu) xs c) (i, j) =
      (if (i, j) \<in> set xs \<and> i < ru \<and> j < cu then Some (uadd (umul i cu) j)
       else cm_ms_vn_configuration c (i, j))" for i j
  proof (induction xs arbitrary: c)
    case Nil
    then show ?case by simp
  next
    case (Cons x xs)
    then show ?case by (cases x) (auto simp: generate_ms_signals_at_def Let_def)
  qed
  then show "cm_forwarding_bottom_enabled (fold (generate_ms_signals_at ru cu) xs c) =
     (\<lambda>(i, j). if (i, j) \<in> set xs then Some (i < usub ru 1 \<and> j < cu)
                else cm_forwarding_bottom_enabled c (i, j))"
  "cm_forwarding_right_enabled (fold (generate_ms_signals_at ru cu) xs c) =
     (\<lambda>(i, j). if (i, j) \<in> set xs then Some (j < usub cu 1 \<and> i < ru)
                else cm_forwarding_right_enabled c (i, j))"
  "cm_ms_vn_configuration (fold (generate_ms_signals_at ru cu) xs c) =
     (\<lambda>(i, j). if (i, j) \<in> set xs \<and> i < ru \<and> j < cu then Some (uadd (umul i cu) j)
                else cm_ms_vn_configuration c (i, j))"
    by (auto simp: fun_eq_iff)
qed

text \<open>A mesh whose multipliers exist, are wired and hold nothing.\<close>

definition mesh_ready :: "'d pass \<Rightarrow> 'd OSMeshMN \<Rightarrow> bool" where
  "mesh_ready p mn \<longleftrightarrow> om_ms_rows mn = ps_R p \<and> om_ms_cols mn = ps_C p \<and>
     (\<forall>i < ps_R p. \<forall>j < ps_C p. \<exists>ms. om_mswitchtable mn (i, j) = Some ms
        \<and> ms_wired p i j ms \<and> MultiplierOS_idle ms)"

text \<open>The signals the compiler computes for a tile of \<open>ru\<close> rows and \<open>cu\<close> columns.\<close>

lemma CompilerMultiplierMesh_signals:
  assumes "T_K tile = cu" "T_Xo tile = ru" "T_Yo tile = 1"
    and "0 < ru" "ru \<le> R" "R < u32_max" "0 < cu" "cu \<le> C" "C < u32_max"
  shows "\<exists>c. CompilerMultiplierMesh_configureSignals tile layer R C CompilerMultiplierMesh_new = Inr c
    \<and> (\<forall>i < R. \<forall>j < C.
         map_get False (cm_forwarding_bottom_enabled c) (i, j) = (Suc i < ru \<and> j < cu)
       \<and> map_get False (cm_forwarding_right_enabled c) (i, j) = (Suc j < cu \<and> i < ru)
       \<and> map_get 0 (cm_ms_vn_configuration c) (i, j) =
           (if i < ru \<and> j < cu then uadd (umul i cu) j else 0))"
proof -
  have u: "umul ru 1 = ru" "usub ru 1 = ru - 1" "usub cu 1 = cu - 1"
    using assms by (simp_all add: u32_simps)
  have s: "i < ru - 1 \<longleftrightarrow> Suc i < ru" "j < cu - 1 \<longleftrightarrow> Suc j < cu" for i j
    by auto
  define c where "c = generate_ms_signals R C tile (CompilerMultiplierMesh_new
      \<lparr>cm_current_tile := Some tile, cm_dnn_layer := Some layer, cm_ms_rows := R,
       cm_ms_cols := C, cm_signals_configured := True\<rparr>)"
  have "CompilerMultiplierMesh_configureSignals tile layer R C CompilerMultiplierMesh_new = Inr c"
    using assms u by (simp add: CompilerMultiplierMesh_configureSignals_def c_def)
  moreover have
    "cm_forwarding_bottom_enabled c = (\<lambda>(i, j). if i < R \<and> j < C then Some (Suc i < ru \<and> j < cu) else None)"
    "cm_forwarding_right_enabled c = (\<lambda>(i, j). if i < R \<and> j < C then Some (Suc j < cu \<and> i < ru) else None)"
    "cm_ms_vn_configuration c = (\<lambda>(i, j). if (i < R \<and> j < C) \<and> i < ru \<and> j < cu
        then Some (uadd (umul i cu) j) else None)"
    unfolding c_def generate_ms_signals_def assms(1-3) u Let_def fold_generate_ms_signals
    by (auto simp: CompilerMultiplierMesh_new_def fun_eq_iff)
  ultimately show ?thesis by (auto simp: map_get_def)
qed

lemma ms_configure:
  assumes "ms_wired p i j ms" and "MultiplierOS_idle ms"
    and "f_fifo (mo_top_fifo ms) = []" and "f_fifo (mo_left_fifo ms) = []"
    and "b \<longleftrightarrow> used p (Suc i) j" and "r \<longleftrightarrow> used p i (Suc j)"
    and "vn = (if used p i j then i * ps_cu p + j else 0)"
  shows "ms_wired p i j (MultiplierOS_setVirtualNeuron vn (ms\<lparr>mo_forward_bottom := b, mo_forward_right := r\<rparr>))"
    and "ms_configured p i j (MultiplierOS_setVirtualNeuron vn (ms\<lparr>mo_forward_bottom := b, mo_forward_right := r\<rparr>))"
    and "ms_buffers p 0 i j (MultiplierOS_setVirtualNeuron vn (ms\<lparr>mo_forward_bottom := b, mo_forward_right := r\<rparr>))"
  using assms
  by (simp_all add: ms_wired_def ms_configured_def ms_buffers_def MultiplierOS_setVirtualNeuron_def
      MultiplierOS_idle_def held_def)

lemma configureSignals_ok:
  assumes ready: "mesh_ready p mn" and p: "0 < ps_ru p" "ps_ru p \<le> ps_R p" "0 < ps_cu p" "ps_cu p \<le> ps_C p"
    and tile: "T_K tile = ps_cu p" "T_Xo tile = ps_ru p" "T_Yo tile = 1"
    and small: "ps_R p * ps_C p < u32_max"
    and empty: "\<forall>i < ps_R p. \<forall>j < ps_C p. \<exists>ms. om_mswitchtable mn (i, j) = Some ms
        \<and> f_fifo (mo_top_fifo ms) = [] \<and> f_fifo (mo_left_fifo ms) = []"
  shows "\<exists>mn'. OSMeshMN_configureSignals tile layer (ps_R p) (ps_C p) mn = Inr mn' \<and> mesh_table p 0 {} mn'"
proof -
  let ?R = "ps_R p" and ?C = "ps_C p" and ?ru = "ps_ru p" and ?cu = "ps_cu p"
  have RC: "?R < u32_max" "?C < u32_max"
  proof -
    have "?R * 1 \<le> ?R * ?C" "1 * ?C \<le> ?R * ?C" using p by (intro mult_le_mono; simp)+
    from this [THEN le_less_trans, OF small] show "?R < u32_max" "?C < u32_max" by simp_all
  qed
  obtain c where c: "CompilerMultiplierMesh_configureSignals tile layer ?R ?C CompilerMultiplierMesh_new = Inr c"
    and sig: "\<And>i j. i < ?R \<Longrightarrow> j < ?C \<Longrightarrow>
         map_get False (cm_forwarding_bottom_enabled c) (i, j) = (Suc i < ?ru \<and> j < ?cu)
       \<and> map_get False (cm_forwarding_right_enabled c) (i, j) = (Suc j < ?cu \<and> i < ?ru)
       \<and> map_get 0 (cm_ms_vn_configuration c) (i, j) =
           (if i < ?ru \<and> j < ?cu then uadd (umul i ?cu) j else 0)"
    using CompilerMultiplierMesh_signals [OF tile p(1,2) RC(1) p(3,4) RC(2), of layer] by blast
  let ?g = "\<lambda>ij ms. MultiplierOS_setVirtualNeuron (map_get 0 (cm_ms_vn_configuration c) ij)
            (ms\<lparr>mo_forward_bottom := map_get False (cm_forwarding_bottom_enabled c) ij,
                mo_forward_right := map_get False (cm_forwarding_right_enabled c) ij\<rparr>)"
  let ?mn = "mn\<lparr>om_mswitchtable := (\<lambda>ij. if ij \<in> set (mesh_positions ?R ?C)
     then map_option (?g ij) (om_mswitchtable mn ij) else om_mswitchtable mn ij)\<rparr>"
  have dom: "\<forall>ij \<in> set (mesh_positions ?R ?C). om_mswitchtable mn ij \<noteq> None"
  proof
    fix ij assume "ij \<in> set (mesh_positions ?R ?C)"
    then obtain i j where "ij = (i, j)" "i < ?R" "j < ?C" by auto
    with ready show "om_mswitchtable mn ij \<noteq> None" unfolding mesh_ready_def by fastforce
  qed
  have "OSMeshMN_configureSignals tile layer ?R ?C mn = Inr ?mn"
    unfolding OSMeshMN_configureSignals_def c rbind_Inr by (rule rfold_upd_ms [OF distinct_mesh_positions dom])
  moreover have "mesh_table p 0 {} ?mn"
    unfolding mesh_table_def
  proof (intro conjI allI impI)
    fix i j assume ij: "i < ?R" "j < ?C"
    then obtain ms where ms: "om_mswitchtable mn (i, j) = Some ms" "ms_wired p i j ms" "MultiplierOS_idle ms"
        "f_fifo (mo_top_fifo ms) = []" "f_fifo (mo_left_fifo ms) = []"
      using ready [unfolded mesh_ready_def] empty by (metis option.inject)
    have vn: "uadd (umul i ?cu) j = i * ?cu + j" if "i < ?ru" "j < ?cu"
    proof -
      have "i * ?cu + j < ?ru * ?cu" using that by (rule pos_less)
      also have "\<dots> \<le> ?R * ?C" using p by (intro mult_le_mono)
      finally have "i * ?cu + j < u32_max" using small by simp
      then show ?thesis by (simp add: u32_simps)
    qed
    have b: "map_get False (cm_forwarding_bottom_enabled c) (i, j) \<longleftrightarrow> used p (Suc i) j"
      and r: "map_get False (cm_forwarding_right_enabled c) (i, j) \<longleftrightarrow> used p i (Suc j)"
      using sig [OF ij] by (auto simp: used_def)
    have v: "map_get 0 (cm_ms_vn_configuration c) (i, j) = (if used p i j then i * ?cu + j else 0)"
      using vn sig [OF ij] by (simp add: used_def)
    note ms_configure [OF ms(2-5) b r v]
    moreover have "om_mswitchtable ?mn (i, j) = Some (?g (i, j) ms)" using ij ms(1) by simp
    ultimately show "\<exists>ms. om_mswitchtable ?mn (i, j) = Some ms \<and> ms_wired p i j ms \<and> ms_configured p i j ms
        \<and> ms_buffers p (if (i, j) \<in> {} then Suc 0 else 0) i j ms"
      by (intro exI [of _ "?g (i, j) ms"]) simp
  qed (use ready in \<open>simp_all add: mesh_ready_def\<close>)
  ultimately show ?thesis by blast
qed

section \<open>Resetting the mesh\<close>

lemma MultiplierOS_resetSignals_ok:
  "\<exists>ms'. MultiplierOS_resetSignals ms = Inr ms'
     \<and> f_fifo (mo_left_fifo ms') = [] \<and> f_fifo (mo_right_fifo ms') = []
     \<and> f_fifo (mo_top_fifo ms') = [] \<and> f_fifo (mo_bottom_fifo ms') = []
     \<and> mo_accbuffer_fifo ms' = mo_accbuffer_fifo ms
     \<and> \<not> mo_forward_right ms' \<and> \<not> mo_forward_bottom ms' \<and> mo_VN ms' = 0
     \<and> (ms_wired p i j ms' \<longleftrightarrow> ms_wired p i j ms)"
  using Fifo_drain_all [of "mo_left_fifo ms"] Fifo_drain_all [of "mo_right_fifo ms"]
    Fifo_drain_all [of "mo_top_fifo ms"] Fifo_drain_all [of "mo_bottom_fifo ms"]
  by (elim exE conjE) (simp add: MultiplierOS_resetSignals_def ms_wired_def)

definition mesh_empty :: "'d pass \<Rightarrow> 'd OSMeshMN \<Rightarrow> bool" where
  "mesh_empty p mn \<longleftrightarrow> (\<forall>i < ps_R p. \<forall>j < ps_C p. \<exists>ms. om_mswitchtable mn (i, j) = Some ms
        \<and> f_fifo (mo_top_fifo ms) = [] \<and> f_fifo (mo_left_fifo ms) = [])"

lemma rfold_entries:
  assumes "distinct xs" and "\<And>ij. ij \<in> set xs \<Longrightarrow> \<exists>ms. om_mswitchtable mn ij = Some ms \<and> P ij ms"
    and step: "\<And>ij ms. ij \<in> set xs \<Longrightarrow> P ij ms \<Longrightarrow> \<exists>ms'. f ms = Inr ms' \<and> Q ij ms'"
  shows "\<exists>mn'. rfold (\<lambda>ij mn. rderef (om_mswitchtable mn ij) (\<lambda>ms. rbind (f ms) (\<lambda>ms.
            Inr (mn\<lparr>om_mswitchtable := (om_mswitchtable mn)(ij \<mapsto> ms)\<rparr>)))) xs mn = Inr mn'
     \<and> (\<forall>ij \<in> set xs. \<exists>ms. om_mswitchtable mn' ij = Some ms \<and> Q ij ms)
     \<and> (\<forall>ij. ij \<notin> set xs \<longrightarrow> om_mswitchtable mn' ij = om_mswitchtable mn ij)
     \<and> om_ms_rows mn' = om_ms_rows mn \<and> om_ms_cols mn' = om_ms_cols mn"
  using assms
proof (induction xs arbitrary: mn)
  case Nil
  then show ?case by simp
next
  case (Cons x xs)
  from Cons.prems(2) [of x] obtain ms where ms: "om_mswitchtable mn x = Some ms" "P x ms" by auto
  from Cons.prems(3) [OF _ ms(2)] obtain ms' where ms': "f ms = Inr ms'" "Q x ms'" by auto
  let ?mn = "mn\<lparr>om_mswitchtable := (om_mswitchtable mn)(x \<mapsto> ms')\<rparr>"
  have old: "\<exists>ms. om_mswitchtable ?mn ij = Some ms \<and> P ij ms" if "ij \<in> set xs" for ij
    using Cons.prems(1) Cons.prems(2) [of ij] that by auto
  have d: "distinct xs" using Cons.prems(1) by simp
  have st: "\<exists>ms'. f ms = Inr ms' \<and> Q ij ms'" if "ij \<in> set xs" "P ij ms" for ij ms
    using Cons.prems(3) [of ij ms] that by simp
  from Cons.IH [OF d old st] obtain mn' where r:
    "rfold (\<lambda>ij mn. rderef (om_mswitchtable mn ij) (\<lambda>ms. rbind (f ms) (\<lambda>ms.
        Inr (mn\<lparr>om_mswitchtable := (om_mswitchtable mn)(ij \<mapsto> ms)\<rparr>)))) xs ?mn = Inr mn'"
    "\<forall>ij \<in> set xs. \<exists>ms. om_mswitchtable mn' ij = Some ms \<and> Q ij ms"
    "\<forall>ij. ij \<notin> set xs \<longrightarrow> om_mswitchtable mn' ij = om_mswitchtable ?mn ij"
    "om_ms_rows mn' = om_ms_rows ?mn" "om_ms_cols mn' = om_ms_cols ?mn" by blast
  have "om_mswitchtable mn' x = Some ms'" using spec [OF r(3), of x] Cons.prems(1) by simp
  with r ms ms' show ?case
    by (intro exI [of _ mn']) (simp del: fun_upd_apply, simp)
qed

lemma OSMeshMN_resetSignals_ok:
  assumes "mesh_ready p mn"
  shows "\<exists>mn'. OSMeshMN_resetSignals mn = Inr mn' \<and> mesh_ready p mn' \<and> mesh_empty p mn'"
proof -
  let ?P = "\<lambda>(i, j) ms. ms_wired p i j ms \<and> MultiplierOS_idle ms"
  let ?Q = "\<lambda>(i, j) ms. ms_wired p i j ms \<and> MultiplierOS_idle ms
     \<and> f_fifo (mo_top_fifo ms) = [] \<and> f_fifo (mo_left_fifo ms) = []"
  have R: "om_ms_rows mn = ps_R p" "om_ms_cols mn = ps_C p"
    using assms by (simp_all add: mesh_ready_def)
  have "\<exists>ms'. MultiplierOS_resetSignals ms = Inr ms' \<and> ?Q ij ms'" if "?P ij ms" for ij ms
    using that MultiplierOS_resetSignals_ok [of ms p "fst ij" "snd ij"]
    by (cases ij) (auto simp: MultiplierOS_idle_def)
  moreover have "\<exists>ms. om_mswitchtable mn ij = Some ms \<and> ?P ij ms"
    if "ij \<in> set (mesh_positions (ps_R p) (ps_C p))" for ij
    using assms that by (auto simp: mesh_ready_def)
  ultimately obtain mn' where r: "OSMeshMN_resetSignals mn = Inr mn'"
    "\<forall>ij \<in> set (mesh_positions (ps_R p) (ps_C p)). \<exists>ms. om_mswitchtable mn' ij = Some ms \<and> ?Q ij ms"
    "om_ms_rows mn' = om_ms_rows mn" "om_ms_cols mn' = om_ms_cols mn"
    using rfold_entries [of "mesh_positions (ps_R p) (ps_C p)" mn ?P MultiplierOS_resetSignals ?Q]
    unfolding OSMeshMN_resetSignals_def R by auto
  show ?thesis
    using r R by (intro exI [of _ mn']) (fastforce simp: mesh_ready_def mesh_empty_def)
qed

lemma mesh_table_ready:
  assumes "mesh_table p t {} mn" and "ps_R q = ps_R p" and "ps_C q = ps_C p"
  shows "mesh_ready q mn"
  unfolding mesh_ready_def
proof (intro conjI allI impI)
  fix i j assume ij: "i < ps_R q" "j < ps_C q"
  with assms obtain ms where "om_mswitchtable mn (i, j) = Some ms" "ms_wired p i j ms" "ms_buffers p t i j ms"
    unfolding mesh_table_def by fastforce
  then show "\<exists>ms. om_mswitchtable mn (i, j) = Some ms \<and> ms_wired q i j ms \<and> MultiplierOS_idle ms"
    using assms(2,3) by (simp add: ms_wired_def ms_buffers_def left_id_def acc_id_def)
qed (use assms in \<open>simp_all add: mesh_table_def\<close>)

section \<open>The constructor and the wiring\<close>

definition ms_wiring :: "nat \<Rightarrow> nat \<Rightarrow> nat \<Rightarrow> nat \<Rightarrow> nat \<Rightarrow> 'd MultiplierOS \<Rightarrow> bool" where
  "ms_wiring R C n i j ms \<longleftrightarrow>
     (0 < i \<and> i * C + j < n \<longrightarrow> mo_top_connection ms = Some (MeshVert i j))
   \<and> (0 < j \<and> i * C + j < n \<longrightarrow> mo_left_connection ms = Some (MeshHoriz i j))
   \<and> (Suc i < R \<and> Suc i * C + j < n \<longrightarrow> mo_bottom_connection ms = Some (MeshVert (Suc i) j))
   \<and> (Suc j < C \<and> i * C + Suc j < n \<longrightarrow> mo_right_connection ms = Some (MeshHoriz i (Suc j)))
   \<and> mo_num ms = i * C + j \<and> MultiplierOS_idle ms
   \<and> f_fifo (mo_top_fifo ms) = [] \<and> f_fifo (mo_left_fifo ms) = []"

definition wire :: "nat \<Rightarrow> nat \<Rightarrow> nat \<times> nat \<Rightarrow> 'd MultiplierOS \<Rightarrow> 'd MultiplierOS" where
  "wire i j = (\<lambda>(x, y) ms.
     if x = i \<and> y = j then
       (if 0 < j then mo_left_connection_update (\<lambda>_. Some (MeshHoriz i j)) else id)
         ((if 0 < i then mo_top_connection_update (\<lambda>_. Some (MeshVert i j)) else id) ms)
     else if Suc x = i \<and> y = j then mo_bottom_connection_update (\<lambda>_. Some (MeshVert i j)) ms
     else if x = i \<and> Suc y = j then mo_right_connection_update (\<lambda>_. Some (MeshHoriz i j)) ms
     else ms)"

lemma wire_simps:
  "wire i j (i, j) m = (if 0 < j then mo_left_connection_update (\<lambda>_. Some (MeshHoriz i j)) else id)
         ((if 0 < i then mo_top_connection_update (\<lambda>_. Some (MeshVert i j)) else id) m)"
  "wire (Suc i) j (i, j) m = mo_bottom_connection_update (\<lambda>_. Some (MeshVert (Suc i) j)) m"
  "wire i (Suc j) (i, j) m = mo_right_connection_update (\<lambda>_. Some (MeshHoriz i (Suc j))) m"
  by (simp_all add: wire_def)

lemma wire_other:
  "xy \<noteq> (i, j) \<Longrightarrow> (Suc (fst xy), snd xy) \<noteq> (i, j) \<Longrightarrow> (fst xy, Suc (snd xy)) \<noteq> (i, j) \<Longrightarrow> wire i j xy m = m"
proof -
  assume a: "xy \<noteq> (i, j)" "(Suc (fst xy), snd xy) \<noteq> (i, j)" "(fst xy, Suc (snd xy)) \<noteq> (i, j)"
  obtain x y where xy: "xy = (x, y)" by (cases xy)
  with a have "\<not> (x = i \<and> y = j)" "\<not> (Suc x = i \<and> y = j)" "\<not> (x = i \<and> Suc y = j)" by simp_all
  then show ?thesis unfolding wire_def xy prod.case by (simp only: if_False)
qed

lemma wire_table_other:
  assumes "xy \<noteq> (i, j)" "(Suc (fst xy), snd xy) \<noteq> (i, j)" "(fst xy, Suc (snd xy)) \<noteq> (i, j)"
  shows "map_option (wire i j xy) a = a"
  using wire_other [OF assms] by (cases a) simp_all

lemma wire_table_both:
  assumes "T (Suc i, Suc j) = Some m" "T (i, Suc j) = Some u" "T (Suc i, j) = Some l"
  shows "T((Suc i, Suc j) \<mapsto> mo_left_connection_update (\<lambda>_. Some (MeshHoriz (Suc i) (Suc j)))
       (mo_top_connection_update (\<lambda>_. Some (MeshVert (Suc i) (Suc j))) m),
     (i, Suc j) \<mapsto> mo_bottom_connection_update (\<lambda>_. Some (MeshVert (Suc i) (Suc j))) u,
     (Suc i, j) \<mapsto> mo_right_connection_update (\<lambda>_. Some (MeshHoriz (Suc i) (Suc j))) l) =
   (\<lambda>xy. map_option (wire (Suc i) (Suc j) xy) (T xy))" (is "?f = ?g")
proof (rule ext)
  fix xy :: "nat \<times> nat"
  consider "xy = (Suc i, Suc j)" | "xy = (i, Suc j)" | "xy = (Suc i, j)"
    | "xy \<noteq> (Suc i, Suc j)" "xy \<noteq> (i, Suc j)" "xy \<noteq> (Suc i, j)" by blast
  then show "?f xy = ?g xy"
  proof cases
    case 4
    then have "map_option (wire (Suc i) (Suc j) xy) (T xy) = T xy"
      by (intro wire_table_other) (auto simp: prod_eq_iff)
    with 4 show ?thesis by simp
  qed (simp_all add: assms wire_simps)
qed

lemma wire_table_top:
  assumes "T (Suc i, 0) = Some m" "T (i, 0) = Some u"
  shows "T((Suc i, 0) \<mapsto> mo_top_connection_update (\<lambda>_. Some (MeshVert (Suc i) 0)) m,
     (i, 0) \<mapsto> mo_bottom_connection_update (\<lambda>_. Some (MeshVert (Suc i) 0)) u) =
   (\<lambda>xy. map_option (wire (Suc i) 0 xy) (T xy))" (is "?f = ?g")
proof (rule ext)
  fix xy :: "nat \<times> nat"
  consider "xy = (Suc i, 0)" | "xy = (i, 0)" | "xy \<noteq> (Suc i, 0)" "xy \<noteq> (i, 0)" by blast
  then show "?f xy = ?g xy"
  proof cases
    case 3
    then have "map_option (wire (Suc i) 0 xy) (T xy) = T xy"
      by (intro wire_table_other) (auto simp: prod_eq_iff)
    with 3 show ?thesis by simp
  qed (simp_all add: assms wire_simps)
qed

lemma wire_table_left:
  assumes "T (0, Suc j) = Some m" "T (0, j) = Some l"
  shows "T((0, Suc j) \<mapsto> mo_left_connection_update (\<lambda>_. Some (MeshHoriz 0 (Suc j))) m,
     (0, j) \<mapsto> mo_right_connection_update (\<lambda>_. Some (MeshHoriz 0 (Suc j))) l) =
   (\<lambda>xy. map_option (wire 0 (Suc j) xy) (T xy))" (is "?f = ?g")
proof (rule ext)
  fix xy :: "nat \<times> nat"
  consider "xy = (0, Suc j)" | "xy = (0, j)" | "xy \<noteq> (0, Suc j)" "xy \<noteq> (0, j)" by blast
  then show "?f xy = ?g xy"
  proof cases
    case 3
    then have "map_option (wire 0 (Suc j) xy) (T xy) = T xy"
      by (intro wire_table_other) (auto simp: prod_eq_iff)
    with 3 show ?thesis by simp
  qed (simp_all add: assms wire_simps)
qed

lemma wire_table_none: "(\<lambda>xy. map_option (wire 0 0 xy) (T xy)) = T"
proof (rule ext)
  fix xy :: "nat \<times> nat"
  show "map_option (wire 0 0 xy) (T xy) = T xy"
    by (cases "xy = (0, 0)"; cases "T xy") (simp_all add: wire_simps wire_other)
qed

lemma setPhysicalConnection_at_ok:
  assumes "om_mswitchtable mn (i, j) \<noteq> None"
    and "0 < i \<Longrightarrow> om_mswitchtable mn (i - 1, j) \<noteq> None"
    and "0 < j \<Longrightarrow> om_mswitchtable mn (i, j - 1) \<noteq> None"
  shows "OSMeshMN_setPhysicalConnection_at (i, j) (mn, st) =
       Inr (mn\<lparr>om_mswitchtable := (\<lambda>xy. map_option (wire i j xy) (om_mswitchtable mn xy))\<rparr>,
         (\<lambda>c. if c = MeshVert i j \<and> 0 < i \<or> c = MeshHoriz i j \<and> 0 < j
              then Connection_new (om_port_width mn) else st c))"
proof -
  obtain m where m: "om_mswitchtable mn (i, j) = Some m" using assms(1) by auto
  show ?thesis
  proof (cases i; cases j)
    assume "i = 0" "j = 0"
    then show ?thesis by (simp add: OSMeshMN_setPhysicalConnection_at_def wire_table_none)
  next
    fix j0 assume ij: "i = 0" "j = Suc j0"
    with assms(3) obtain l where l: "om_mswitchtable mn (0, j0) = Some l" by auto
    show ?thesis
      using m l unfolding ij
      by (simp add: OSMeshMN_setPhysicalConnection_at_def upd_ms_def wire_table_left fun_upd_def [where 'a = cid] cong: if_cong)
  next
    fix i0 assume ij: "i = Suc i0" "j = 0"
    with assms(2) obtain u where u: "om_mswitchtable mn (i0, 0) = Some u" by auto
    show ?thesis
      using m u unfolding ij
      by (simp add: OSMeshMN_setPhysicalConnection_at_def upd_ms_def wire_table_top fun_upd_def [where 'a = cid] cong: if_cong)
  next
    fix i0 j0 assume ij: "i = Suc i0" "j = Suc j0"
    with assms(2,3) obtain u l where u: "om_mswitchtable mn (i0, Suc j0) = Some u"
        "om_mswitchtable mn (Suc i0, j0) = Some l" by auto
    show ?thesis
      using m u unfolding ij wire_table_both [OF m [unfolded ij] u, symmetric]
      by (simp add: OSMeshMN_setPhysicalConnection_at_def upd_ms_def fun_upd_twist fun_eq_iff)
  qed
qed

lemma rfold_upd_table:
  assumes "distinct xs" and "\<forall>ij \<in> set xs. T ij \<noteq> None"
  shows "rfold (\<lambda>ij. upd_ms ij (g ij)) xs (mn\<lparr>om_mswitchtable := T\<rparr>) =
     Inr (mn\<lparr>om_mswitchtable := (\<lambda>ij. if ij \<in> set xs then map_option (g ij) (T ij) else T ij)\<rparr>)"
  using rfold_upd_ms [of xs "mn\<lparr>om_mswitchtable := T\<rparr>" g] assms by (simp cong: if_cong)

lemma wire_wiring:
  assumes "ms_wiring R C (i * C + j) x y ms" and "j < C" and "y < C"
  shows "ms_wiring R C (Suc (i * C + j)) x y (wire i j (x, y) ms)"
proof -
  consider "x = i" "y = j" | "Suc x = i" "y = j" | "x = i" "Suc y = j"
    | "(x, y) \<noteq> (i, j)" "(Suc x, y) \<noteq> (i, j)" "(x, Suc y) \<noteq> (i, j)" by auto
  then show ?thesis
  proof cases
    case 1
    with assms show ?thesis by (simp add: ms_wiring_def wire_simps(1) MultiplierOS_idle_def)
  next
    case 2
    then obtain i0 where "i = Suc i0" "x = i0" "y = j" by auto
    with assms show ?thesis by (simp add: ms_wiring_def wire_simps(2) MultiplierOS_idle_def)
  next
    case 3
    then obtain j0 where "j = Suc j0" "x = i" "y = j0" by auto
    with assms show ?thesis by (simp add: ms_wiring_def wire_simps(3) MultiplierOS_idle_def)
  next
    case 4
    have "x * C + y \<noteq> i * C + j" "Suc x * C + y \<noteq> i * C + j"
      "Suc y < C \<Longrightarrow> x * C + Suc y \<noteq> i * C + j"
      using 4 pos_eq [of y C j x i] pos_eq [of y C j "Suc x" i] pos_eq [of "Suc y" C j x i] assms(2,3) by auto
    moreover have "wire i j (x, y) ms = ms" using 4 by (intro wire_other) simp_all
    ultimately show ?thesis using assms(1) by (auto simp: ms_wiring_def less_Suc_eq)
  qed
qed

definition mesh_wiring :: "nat \<Rightarrow> nat \<Rightarrow> nat \<Rightarrow> 'd OSMeshMN \<Rightarrow> bool" where
  "mesh_wiring R C n mn \<longleftrightarrow> om_ms_rows mn = R \<and> om_ms_cols mn = C \<and>
     (\<forall>x < R. \<forall>y < C. \<exists>ms. om_mswitchtable mn (x, y) = Some ms \<and> ms_wiring R C n x y ms)"

lemma mesh_wiring_get:
  "mesh_wiring R C n mn \<Longrightarrow> x < R \<Longrightarrow> y < C \<Longrightarrow> om_mswitchtable mn (x, y) \<noteq> None"
  unfolding mesh_wiring_def by blast

lemma setPhysicalConnection_step:
  assumes ij: "i < R" "j < C" and mn: "mesh_wiring R C (i * C + j) mn"
  shows "\<exists>mn' st'. OSMeshMN_setPhysicalConnection_at (i, j) (mn, st) = Inr (mn', st')
     \<and> mesh_wiring R C (Suc (i * C + j)) mn'
     \<and> (\<forall>c. c \<notin> {MeshVert i j, MeshHoriz i j} \<longrightarrow> st' c = st c)
     \<and> (0 < i \<longrightarrow> link st' (MeshVert i j) []) \<and> (0 < j \<longrightarrow> link st' (MeshHoriz i j) [])"
proof -
  have dom: "om_mswitchtable mn (i, j) \<noteq> None" "0 < i \<Longrightarrow> om_mswitchtable mn (i - 1, j) \<noteq> None"
      "0 < j \<Longrightarrow> om_mswitchtable mn (i, j - 1) \<noteq> None"
    by (rule mesh_wiring_get [OF mn]; use ij in simp)+
  let ?st = "\<lambda>c. if c = MeshVert i j \<and> 0 < i \<or> c = MeshHoriz i j \<and> 0 < j
              then Connection_new (om_port_width mn) else st c"
  let ?mn = "mn\<lparr>om_mswitchtable := (\<lambda>xy. map_option (wire i j xy) (om_mswitchtable mn xy))\<rparr>"
  have "mesh_wiring R C (Suc (i * C + j)) ?mn"
    unfolding mesh_wiring_def
  proof (intro conjI allI impI)
    fix x y assume xy: "x < R" "y < C"
    with mn obtain ms where "om_mswitchtable mn (x, y) = Some ms" "ms_wiring R C (i * C + j) x y ms"
      unfolding mesh_wiring_def by blast
    with wire_wiring [OF this(2) ij(2) xy(2)]
    show "\<exists>ms. om_mswitchtable ?mn (x, y) = Some ms \<and> ms_wiring R C (Suc (i * C + j)) x y ms" by simp
  qed (use mn in \<open>simp_all add: mesh_wiring_def\<close>)
  moreover have "0 < i \<Longrightarrow> link ?st (MeshVert i j) []" "0 < j \<Longrightarrow> link ?st (MeshHoriz i j) []"
    by (simp_all add: link_def Connection_existPendingData_def Connection_new_def in_flight_def2)
  ultimately show ?thesis
    using setPhysicalConnection_at_ok [OF dom, of st] by (intro exI [of _ ?mn] exI [of _ ?st]) simp
qed

lemma OSMeshMN_new_ok:
  assumes cfg: "msn_ms_rows (m_MSNetworkCfg cfg) = R" "msn_ms_cols (m_MSNetworkCfg cfg) = C"
    and small: "R * C < u32_max"
  shows "\<exists>mn st'. OSMeshMN_new cfg st = Inr (mn, st') \<and> mesh_wiring R C (R * C) mn
     \<and> (\<forall>i < R. \<forall>j < C. (0 < i \<longrightarrow> link st' (MeshVert i j) []) \<and> (0 < j \<longrightarrow> link st' (MeshHoriz i j) []))
     \<and> (\<forall>c. (\<forall>i j. c \<noteq> MeshVert i j \<and> c \<noteq> MeshHoriz i j) \<longrightarrow> st' c = st c)"
proof -
  let ?mn = "\<lparr>om_mswitchtable =
                  (\<lambda>(i, j). if i < R \<and> j < C then Some (MultiplierOS_new i j cfg) else None),
                om_ms_rows = R, om_ms_cols = C,
                om_forwarding_ports = msc_forwarding_ports (m_MSwitchCfg cfg),
                om_buffers_capacity = msc_buffers_capacity (m_MSwitchCfg cfg),
                om_port_width = msc_port_width (m_MSwitchCfg cfg)\<rparr>"
  define I where "I n s \<longleftrightarrow> (case s of (mn', st') \<Rightarrow> mesh_wiring R C n mn'
     \<and> (\<forall>i < R. \<forall>j < C. i * C + j < n \<longrightarrow>
          (0 < i \<longrightarrow> link st' (MeshVert i j) []) \<and> (0 < j \<longrightarrow> link st' (MeshHoriz i j) []))
     \<and> (\<forall>c. (\<forall>i j. c \<noteq> MeshVert i j \<and> c \<noteq> MeshHoriz i j) \<longrightarrow> st' c = st c))"
    for n and s :: "'a OSMeshMN \<times> 'a store"
  have "\<exists>s'. rfold OSMeshMN_setPhysicalConnection_at (mesh_positions R C) (?mn, st) = Inr s'
     \<and> I (length (mesh_positions R C)) s'"
  proof (rule rfold_total)
    have "uadd (umul i C) j = i * C + j" if "i < R" "j < C" for i j
      using pos_less [OF that] small by (simp add: u32_simps)
    then show "I 0 (?mn, st)"
      by (simp add: I_def mesh_wiring_def ms_wiring_def MultiplierOS_new_def Let_def cfg MultiplierOS_idle_def)
  next
    fix n s assume n: "n < length (mesh_positions R C)" and "I n s"
    then obtain mn1 st1 where s: "s = (mn1, st1)" and 1: "mesh_wiring R C n mn1"
        "\<forall>i < R. \<forall>j < C. i * C + j < n \<longrightarrow>
          (0 < i \<longrightarrow> link st1 (MeshVert i j) []) \<and> (0 < j \<longrightarrow> link st1 (MeshHoriz i j) [])"
        "\<forall>c. (\<forall>i j. c \<noteq> MeshVert i j \<and> c \<noteq> MeshHoriz i j) \<longrightarrow> st1 c = st c"
      by (cases s) (simp add: I_def)
    define i where "i = n div C"
    define j where "j = n mod C"
    from n have nRC: "n < R * C" by simp
    then have "0 < C" by (cases C) auto
    with nRC have ij: "i < R" "j < C" "n = i * C + j"
      by (simp_all add: i_def j_def less_mult_imp_div_less)
    have nth: "mesh_positions R C ! n = (i, j)"
      using nth_mesh_positions [OF nRC] by (simp add: i_def j_def)
    from setPhysicalConnection_step [OF ij(1,2) 1(1) [unfolded ij(3)], of st1] obtain mn2 st2 where
      2: "OSMeshMN_setPhysicalConnection_at (i, j) (mn1, st1) = Inr (mn2, st2)"
        "mesh_wiring R C (Suc (i * C + j)) mn2"
        "\<And>c. c \<notin> {MeshVert i j, MeshHoriz i j} \<Longrightarrow> st2 c = st1 c"
        "0 < i \<Longrightarrow> link st2 (MeshVert i j) []" "0 < j \<Longrightarrow> link st2 (MeshHoriz i j) []"
      by blast
    have "(0 < x \<longrightarrow> link st2 (MeshVert x y) []) \<and> (0 < y \<longrightarrow> link st2 (MeshHoriz x y) [])"
      if xy: "x < R" "y < C" "x * C + y < Suc n" for x y
    proof (cases "x * C + y = n")
      case True
      with pos_eq [of y C j x i] xy ij have "x = i" "y = j" by auto
      with 2(4,5) show ?thesis by simp
    next
      case False
      with xy ij have "x * C + y < n" "(x, y) \<noteq> (i, j)" by auto
      with 1(2) xy 2(3) [of "MeshVert x y"] 2(3) [of "MeshHoriz x y"] show ?thesis
        by (auto simp: link_def)
    qed
    moreover have "st2 c = st c" if "\<forall>i j. c \<noteq> MeshVert i j \<and> c \<noteq> MeshHoriz i j" for c
      using 1(3) 2(3) [of c] that by simp
    ultimately have "I (Suc n) (mn2, st2)" using 2(2) ij(3) by (simp add: I_def)
    with 2(1) show "\<exists>s'. OSMeshMN_setPhysicalConnection_at (mesh_positions R C ! n) s = Inr s' \<and> I (Suc n) s'"
      unfolding nth s by blast
  qed
  then obtain mn st' where "OSMeshMN_new cfg st = Inr (mn, st')" "I (R * C) (mn, st')"
    by (auto simp: OSMeshMN_new_def OSMeshMN_setPhysicalConnection_def cfg Let_def)
  moreover from this(2) have "\<forall>i < R. \<forall>j < C.
      (0 < i \<longrightarrow> link st' (MeshVert i j) []) \<and> (0 < j \<longrightarrow> link st' (MeshHoriz i j) [])"
    using pos_less by (auto simp: I_def)
  ultimately show ?thesis unfolding I_def by blast
qed

text \<open>After the distribution and the reduction network are connected the mesh is ready for a pass.\<close>

lemma OSMeshMN_connect_ok:
  assumes mn: "mesh_wiring R C (R * C) mn" and p: "ps_R p = R" "ps_C p = C"
    and pos: "0 < R" "0 < C" and small: "R * C < u32_max" "R + C < u32_max"
    and ins: "\<And>i. i < C + R \<Longrightarrow> ins i = Some (DSTop i)"
    and outs: "\<And>i. i < R * C \<Longrightarrow> outs i = Some (AccLink i)"
  shows "\<exists>mn1 mn2. OSMeshMN_setInputConnections ins (C + R) mn = Inr mn1
     \<and> OSMeshMN_setOutputConnections outs (R * C) mn1 = Inr mn2
     \<and> mesh_ready p mn2 \<and> mesh_empty p mn2"
proof -
  have RC: "om_ms_rows mn = R" "om_ms_cols mn = C" using mn by (simp_all add: mesh_wiring_def)
  let ?P1 = "map (Pair 0) [0..<C]" and ?P2 = "map (\<lambda>i. (i, 0)) [0..<R]" and ?P3 = "mesh_positions R C"
  let ?g1 = "\<lambda>ij. mo_top_connection_update (\<lambda>_. ins (snd ij))"
  let ?g2 = "\<lambda>ij. mo_left_connection_update (\<lambda>_. ins (uadd (fst ij) C))"
  let ?g3 = "\<lambda>ij. mo_accbuffer_connection_update (\<lambda>_. outs (uadd (umul (fst ij) C) (snd ij)))"
  let ?T = "om_mswitchtable mn"
  let ?up = "\<lambda>g P T ij. if ij \<in> set P then map_option (g ij) (T ij) else T ij"
  let ?T1 = "?up ?g1 ?P1 ?T"
  let ?T2 = "?up ?g2 ?P2 ?T1"
  let ?T3 = "?up ?g3 ?P3 ?T2"
  have dom: "i < R \<Longrightarrow> j < C \<Longrightarrow> ?T (i, j) \<noteq> None" for i j
    by (rule mesh_wiring_get [OF mn])
  have d: "distinct ?P1" "distinct ?P2" by (simp_all add: distinct_map inj_on_def)
  have 1: "rfold (\<lambda>i. upd_ms (0, i) (mo_top_connection_update (\<lambda>_. ins i))) [0..<C] mn =
      Inr (mn\<lparr>om_mswitchtable := ?T1\<rparr>)"
  proof -
    have "\<forall>ij \<in> set ?P1. ?T ij \<noteq> None" using dom pos by auto
    from rfold_upd_ms [OF d(1) this, of ?g1] show ?thesis unfolding rfold_map snd_conv .
  qed
  have 2: "rfold (\<lambda>i. upd_ms (i, 0) (mo_left_connection_update (\<lambda>_. ins (uadd i C)))) [0..<R]
      (mn\<lparr>om_mswitchtable := ?T1\<rparr>) = Inr (mn\<lparr>om_mswitchtable := ?T2\<rparr>)"
  proof -
    have "\<forall>ij \<in> set ?P2. ?T1 ij \<noteq> None" using dom pos by auto
    from rfold_upd_table [OF d(2) this, of ?g2] show ?thesis unfolding rfold_map fst_conv .
  qed
  have 3: "rfold (\<lambda>(i, j). upd_ms (i, j) (mo_accbuffer_connection_update (\<lambda>_. outs (uadd (umul i C) j)))) ?P3
      (mn\<lparr>om_mswitchtable := ?T2\<rparr>) = Inr (mn\<lparr>om_mswitchtable := ?T3\<rparr>)"
  proof -
    have d3: "\<forall>ij \<in> set ?P3. ?T2 ij \<noteq> None" using dom by auto
    have e: "(\<lambda>(i, j). upd_ms (i, j) (mo_accbuffer_connection_update (\<lambda>_. outs (uadd (umul i C) j))))
       = (\<lambda>ij. upd_ms ij (?g3 ij))" by (simp add: fun_eq_iff)
    show ?thesis unfolding e by (rule rfold_upd_table [OF distinct_mesh_positions d3])
  qed
  have fin: "\<exists>ms. ?T3 (i, j) = Some ms \<and> ms_wired p i j ms \<and> MultiplierOS_idle ms
      \<and> f_fifo (mo_top_fifo ms) = [] \<and> f_fifo (mo_left_fifo ms) = []" if ij: "i < R" "j < C" for i j
  proof -
    from mn ij obtain ms where ms: "?T (i, j) = Some ms" "ms_wiring R C (R * C) i j ms"
      unfolding mesh_wiring_def by blast
    have lt: "i * C + j < R * C" using ij by (rule pos_less)
    have u: "uadd (umul i C) j = i * C + j" "uadd i C = C + i"
      using lt ij small by (simp_all add: u32_simps)
    have o: "outs (i * C + j) = Some (AccLink (i * C + j))" "ins j = Some (DSTop j)"
      "ins (C + i) = Some (DSTop (C + i))"
      using outs [OF lt] ins ij by simp_all
    have b: "Suc i < R \<Longrightarrow> Suc i * C + j < R * C" "Suc j < C \<Longrightarrow> i * C + Suc j < R * C"
      using pos_less [of "Suc i" R j C] pos_less [of i R "Suc j" C] ij by simp_all
    have T1: "?T1 (i, j) = Some (if i = 0 then ?g1 (i, j) ms else ms)" using ij ms(1) by auto
    have T2: "?T2 (i, j) = Some (if j = 0 then ?g2 (i, j) (if i = 0 then ?g1 (i, j) ms else ms)
        else if i = 0 then ?g1 (i, j) ms else ms)" using ij T1 by auto
    have T3: "?T3 (i, j) = Some (?g3 (i, j) (if j = 0 then ?g2 (i, j) (if i = 0 then ?g1 (i, j) ms else ms)
        else if i = 0 then ?g1 (i, j) ms else ms))" using ij T2 by simp
    show ?thesis
      unfolding T3 using ms(2) o b lt p
      by (auto simp add: u ms_wiring_def ms_wired_def top_id_def left_id_def acc_id_def MultiplierOS_idle_def)
  qed
  have "OSMeshMN_setInputConnections ins (C + R) mn = Inr (mn\<lparr>om_mswitchtable := ?T2\<rparr>)"
    using small 1 2 unfolding OSMeshMN_setInputConnections_def RC by (simp add: RC u32_simps)
  moreover have "OSMeshMN_setOutputConnections outs (R * C) (mn\<lparr>om_mswitchtable := ?T2\<rparr>)
      = Inr (mn\<lparr>om_mswitchtable := ?T3\<rparr>)"
    using small 3 unfolding OSMeshMN_setOutputConnections_def by (simp add: RC u32_simps)
  moreover have "mesh_ready p (mn\<lparr>om_mswitchtable := ?T3\<rparr>)"
    using fin RC p unfolding mesh_ready_def by (fastforce simp del: set_mesh_positions)
  moreover have "mesh_empty p (mn\<lparr>om_mswitchtable := ?T3\<rparr>)"
    using fin p unfolding mesh_empty_def by (fastforce simp del: set_mesh_positions)
  ultimately show ?thesis by blast
qed

end
