(* ===== verification/Accum.thy ===== *)
theory Accum
  imports Links
begin

text \<open>
  The reduction network of the output-stationary machine: \<^verbatim>\<open>Accumulator.cpp\<close>,
  \<^verbatim>\<open>AccumulationBuffer.cpp\<close> and \<^verbatim>\<open>TemporalRN.cpp\<close>. Accumulator \<open>i\<close> adds up the packages that
  arrive on its link, \<open>n_psums\<close> of them, in the order of arrival, and sends the sum to the bus.

  The lemmas relate an accumulator to the list of packages it has received since its last result
  (\<open>acc_holds\<close>): a cycle appends what is on the link, and when the list is complete its left fold
  goes to the output link and the accumulator starts again.
\<close>

section \<open>One accumulator\<close>

record 'd Accumulator =
  ac_input_ports :: nat
  ac_output_ports :: nat
  ac_buffers_capacity :: nat
  ac_port_width :: nat
  ac_input_fifo :: "'d Fifo"
  ac_output_fifo :: "'d Fifo"
  ac_operation_mode :: adderoperation_t
  ac_current_capacity :: nat
  ac_inputConnection :: "cid option"
  ac_outputConnection :: "cid option"
  ac_latency :: nat
  ac_local_cycle :: counter
  ac_temporal_register :: "'d DataPackage option"
  ac_n_psums :: nat
  ac_current_psum :: nat
  ac_n_accumulator :: nat
  ac_stats :: AccumulatorStats

definition Accumulator_new :: "Config \<Rightarrow> nat \<Rightarrow> 'd Accumulator" where
  "Accumulator_new cfg n_accumulator =
     (let a = m_ASwitchCfg cfg in
      \<lparr>ac_input_ports = asc_input_ports a, ac_output_ports = asc_output_ports a,
       ac_buffers_capacity = asc_buffers_capacity a, ac_port_width = asc_port_width a,
       ac_input_fifo = Fifo_new (asc_buffers_capacity a),
       ac_output_fifo = Fifo_new (asc_buffers_capacity a), ac_operation_mode = ADDER,
       ac_current_capacity = 0, ac_inputConnection = None, ac_outputConnection = None,
       ac_latency = asc_latency a, ac_local_cycle = 0, ac_temporal_register = None,
       ac_n_psums = 0, ac_current_psum = 0, ac_n_accumulator = n_accumulator,
       ac_stats = AccumulatorStats_reset\<rparr>)"

definition Accumulator_setNPSums :: "nat \<Rightarrow> 'd Accumulator \<Rightarrow> 'd Accumulator" where
  "Accumulator_setNPSums n ac =
     ac\<lparr>ac_n_psums := n, ac_stats := as_n_configurations_update (\<lambda>k. k + 1) (ac_stats ac)\<rparr>"

text \<open>The fifos keep what they hold.\<close>

definition Accumulator_resetSignals :: "'d Accumulator \<Rightarrow> 'd Accumulator" where
  "Accumulator_resetSignals ac = ac\<lparr>ac_current_psum := 0, ac_operation_mode := ADDER, ac_n_psums := 0\<rparr>"

definition Accumulator_send ::
  "'d Accumulator \<Rightarrow> 'd store \<Rightarrow> ('d Accumulator \<times> 'd store) res" where
  "Accumulator_send ac st =
     (if \<not> Fifo_isEmpty (ac_output_fifo ac) then
        rbind (Fifo_drain (ac_output_fifo ac)) (\<lambda>(xs, q).
        let ac = ac\<lparr>ac_output_fifo := q,
                    ac_stats := as_n_memory_send_update (\<lambda>k. k + 1) (ac_stats ac)\<rparr> in
        rbind (ptr_send (ac_outputConnection ac) xs st) (\<lambda>st. Inr (ac, st)))
      else Inr (ac, st))"

definition Accumulator_receive ::
  "'d Accumulator \<Rightarrow> 'd store \<Rightarrow> ('d Accumulator \<times> 'd store) res" where
  "Accumulator_receive ac st =
     rbind (ptr_pending (ac_inputConnection ac) st) (\<lambda>b.
     if b then
       rbind (ptr_receive (ac_inputConnection ac) st) (\<lambda>(data_received, st).
       Inr (ac\<lparr>ac_stats := as_n_receives_update (\<lambda>k. k + 1) (ac_stats ac),
               ac_input_fifo := Fifo_push_all data_received (ac_input_fifo ac)\<rparr>, st))
     else Inr (ac, st))"

definition Accumulator_perform_operation_2_operands ::
  "'d::plus DataPackage \<Rightarrow> 'd DataPackage \<Rightarrow> 'd Accumulator \<Rightarrow> ('d DataPackage \<times> 'd Accumulator) res"
where
  "Accumulator_perform_operation_2_operands pck_left pck_right ac =
     rassert (p_VN pck_left = p_VN pck_right)
     (case ac_operation_mode ac of
        ADDER \<Rightarrow>
          Inr (DataPackage_psum sizeof_data_t (p_data pck_left + p_data pck_right) PSUM 0
                 (p_VN pck_left) (ac_operation_mode ac),
               ac\<lparr>ac_stats := as_n_adds_update (\<lambda>k. k + 1) (ac_stats ac)\<rparr>)
      | _ \<Rightarrow> Inl AssertFail)"

definition Accumulator_route :: "'d::plus Accumulator \<Rightarrow> 'd Accumulator res" where
  "Accumulator_route ac =
     (if \<not> Fifo_isEmpty (ac_input_fifo ac) then
        rbind (Fifo_pop (ac_input_fifo ac)) (\<lambda>(pck_received, q).
        let ac = ac\<lparr>ac_input_fifo := q\<rparr> in
        rbind (if ac_current_psum ac = 0 then
             Inr (ac\<lparr>ac_temporal_register := Some pck_received,
                     ac_stats := as_n_register_writes_update (\<lambda>k. k + 1) (ac_stats ac)\<rparr>)
           else
             rderef (ac_temporal_register ac) (\<lambda>reg.
             rbind (Accumulator_perform_operation_2_operands reg pck_received ac) (\<lambda>(result, ac).
             Inr (ac\<lparr>ac_temporal_register := Some result,
                     ac_stats := as_n_register_writes_update (\<lambda>k. k + 1)
                       (as_n_register_reads_update (\<lambda>k. k + 1) (ac_stats ac))\<rparr>)))) (\<lambda>ac.
        if ac_current_psum ac = usub (ac_n_psums ac) 1 then
          rderef (ac_temporal_register ac) (\<lambda>reg.
          Inr (ac\<lparr>ac_output_fifo := Fifo_push reg (ac_output_fifo ac), ac_current_psum := 0\<rparr>))
        else Inr (ac\<lparr>ac_current_psum := uadd (ac_current_psum ac) 1\<rparr>)))
      else Inr ac)"

definition Accumulator_cycle ::
  "'d::plus Accumulator \<Rightarrow> 'd store \<Rightarrow> ('d Accumulator \<times> 'd store) res" where
  "Accumulator_cycle ac st =
     (let ac = ac\<lparr>ac_local_cycle := ac_local_cycle ac + 1,
                  ac_stats := as_total_cycles_update (\<lambda>k. k + 1) (ac_stats ac)\<rparr> in
      rbind (Accumulator_receive ac st) (\<lambda>(ac, st).
      rbind (Accumulator_route ac) (\<lambda>ac.
      Accumulator_send ac st)))"

section \<open>The accumulation buffer\<close>

record 'd AccumulationBuffer =
  ab_port_width :: nat
  ab_n_accumulators :: nat
  ab_accumulatortable :: "'d Accumulator list"

definition AccumulationBuffer_new :: "Config \<Rightarrow> nat \<Rightarrow> 'd AccumulationBuffer" where
  "AccumulationBuffer_new cfg n =
     \<lparr>ab_port_width = asc_port_width (m_ASwitchCfg cfg), ab_n_accumulators = n,
      ab_accumulatortable = map (Accumulator_new cfg) [0..<n]\<rparr>"

definition AccumulationBuffer_setMemoryConnections ::
  "cid list \<Rightarrow> 'd AccumulationBuffer \<Rightarrow> 'd AccumulationBuffer res" where
  "AccumulationBuffer_setMemoryConnections conns ab =
     rfold (\<lambda>i ab.
        rbind (rnth conns i) (\<lambda>c.
        rbind (rnth (ab_accumulatortable ab) i) (\<lambda>ac.
        Inr (ab\<lparr>ab_accumulatortable := (ab_accumulatortable ab)[i := ac\<lparr>ac_outputConnection := Some c\<rparr>]\<rparr>))))
       [0..<ab_n_accumulators ab] ab"

definition AccumulationBuffer_setInputConnections ::
  "cid list \<Rightarrow> 'd AccumulationBuffer \<Rightarrow> 'd AccumulationBuffer res" where
  "AccumulationBuffer_setInputConnections conns ab =
     rfold (\<lambda>i ab.
        rbind (rnth conns i) (\<lambda>c.
        rbind (rnth (ab_accumulatortable ab) i) (\<lambda>ac.
        Inr (ab\<lparr>ab_accumulatortable := (ab_accumulatortable ab)[i := ac\<lparr>ac_inputConnection := Some c\<rparr>]\<rparr>))))
       [0..<ab_n_accumulators ab] ab"

definition AccumulationBuffer_NPSumsConfiguration ::
  "nat \<Rightarrow> 'd AccumulationBuffer \<Rightarrow> 'd AccumulationBuffer" where
  "AccumulationBuffer_NPSumsConfiguration n ab =
     ab\<lparr>ab_accumulatortable := map (Accumulator_setNPSums n) (ab_accumulatortable ab)\<rparr>"

definition AccumulationBuffer_configureSignals ::
  "Tile \<Rightarrow> DNNLayer \<Rightarrow> nat \<Rightarrow> nat \<Rightarrow> 'd AccumulationBuffer \<Rightarrow> 'd AccumulationBuffer" where
  "AccumulationBuffer_configureSignals tile layer ms_size n_folding ab =
     AccumulationBuffer_NPSumsConfiguration n_folding ab"

definition AccumulationBuffer_resetSignals :: "'d AccumulationBuffer \<Rightarrow> 'd AccumulationBuffer" where
  "AccumulationBuffer_resetSignals ab =
     ab\<lparr>ab_accumulatortable := map Accumulator_resetSignals (ab_accumulatortable ab)\<rparr>"

definition AccumulationBuffer_cycle ::
  "'d::plus AccumulationBuffer \<times> 'd store \<Rightarrow> ('d AccumulationBuffer \<times> 'd store) res" where
  "AccumulationBuffer_cycle = (\<lambda>(ab, st).
     rfold (\<lambda>i (ab, st).
        rbind (rnth (ab_accumulatortable ab) i) (\<lambda>ac.
        rbind (Accumulator_cycle ac st) (\<lambda>(ac, st).
        Inr (ab\<lparr>ab_accumulatortable := (ab_accumulatortable ab)[i := ac]\<rparr>, st))))
       [0..<ab_n_accumulators ab] (ab, st))"

section \<open>The temporal reduction network\<close>

record 'd TemporalRN =
  tr_port_width :: nat
  tr_inputconnectiontable :: "cid list"
  tr_outputconnectiontable :: "cid list"
  tr_accumulationBuffer :: "'d AccumulationBuffer"
  tr_accumulation_buffer_size :: nat

definition TemporalRN_new :: "Config \<Rightarrow> 'd store \<Rightarrow> ('d TemporalRN \<times> 'd store) res" where
  "TemporalRN_new cfg st =
     (let msn = m_MSNetworkCfg cfg;
          n = (if msn_multiplier_network_type msn = LINEAR then msn_ms_size msn
               else umul (msn_ms_rows msn) (msn_ms_cols msn));
          pw = asc_port_width (m_ASwitchCfg cfg);
          conns = map AccLink [0..<n]
      in rbind (AccumulationBuffer_setInputConnections conns (AccumulationBuffer_new cfg n)) (\<lambda>ab.
         Inr (\<lparr>tr_port_width = pw, tr_inputconnectiontable = conns, tr_outputconnectiontable = [],
               tr_accumulationBuffer = ab, tr_accumulation_buffer_size = n\<rparr>,
              \<lambda>c. if c \<in> set conns then Connection_new pw else st c)))"

definition TemporalRN_setMemoryConnections ::
  "cid list list \<Rightarrow> 'd TemporalRN \<Rightarrow> 'd TemporalRN res" where
  "TemporalRN_setMemoryConnections memoryConnections rn =
     (let n_bus_lines = length memoryConnections in
      rbind (rfold (\<lambda>i rn.
           rbind (rdiv i n_bus_lines) (\<lambda>inputID.
           rbind (rnth memoryConnections (i mod n_bus_lines)) (\<lambda>line.
           rbind (rnth line inputID) (\<lambda>mem_conn.
           Inr (rn\<lparr>tr_outputconnectiontable := tr_outputconnectiontable rn @ [mem_conn]\<rparr>)))))
         [0..<tr_accumulation_buffer_size rn] rn) (\<lambda>rn.
      rbind (AccumulationBuffer_setMemoryConnections (tr_outputconnectiontable rn)
        (tr_accumulationBuffer rn)) (\<lambda>ab.
      Inr (rn\<lparr>tr_accumulationBuffer := ab\<rparr>))))"

text \<open>The connections to the multipliers, as the map from \<open>int\<close> and its size.\<close>

definition TemporalRN_getLastLevelConnections :: "'d TemporalRN \<Rightarrow> (nat \<Rightarrow> cid option) \<times> nat" where
  "TemporalRN_getLastLevelConnections rn =
     (let t = tr_inputconnectiontable rn
      in (\<lambda>i. if i < length t then Some (t ! i) else None, length t))"

definition TemporalRN_resetSignals :: "'d TemporalRN \<Rightarrow> 'd TemporalRN" where
  "TemporalRN_resetSignals rn =
     rn\<lparr>tr_accumulationBuffer := AccumulationBuffer_resetSignals (tr_accumulationBuffer rn)\<rparr>"

definition TemporalRN_configureSignals ::
  "Tile \<Rightarrow> DNNLayer \<Rightarrow> nat \<Rightarrow> nat \<Rightarrow> 'd TemporalRN \<Rightarrow> 'd TemporalRN" where
  "TemporalRN_configureSignals tile layer ms_size n_folding rn =
     rn\<lparr>tr_accumulationBuffer :=
          AccumulationBuffer_configureSignals tile layer ms_size n_folding (tr_accumulationBuffer rn)\<rparr>"

definition TemporalRN_configureSparseSignals ::
  "SparseVN list \<Rightarrow> DNNLayer \<Rightarrow> nat \<Rightarrow> 'd TemporalRN \<Rightarrow> 'd TemporalRN res" where
  "TemporalRN_configureSparseSignals vns layer ms_size rn = rassert False (Inr rn)"

definition TemporalRN_cycle ::
  "'d::plus TemporalRN \<times> 'd store \<Rightarrow> ('d TemporalRN \<times> 'd store) res" where
  "TemporalRN_cycle = (\<lambda>(rn, st).
     rbind (AccumulationBuffer_cycle (tr_accumulationBuffer rn, st)) (\<lambda>(ab, st).
     Inr (rn\<lparr>tr_accumulationBuffer := ab\<rparr>, st)))"

section \<open>What an accumulator holds\<close>

text \<open>
  The package that stands for the packages received: the first one itself, later the running sum
  from left to right.
\<close>

definition acc_result :: "'d::plus DataPackage list \<Rightarrow> 'd DataPackage" where
  "acc_result ps = foldl (\<lambda>r q.
     DataPackage_psum sizeof_data_t (p_data r + p_data q) PSUM 0 (p_VN r) ADDER) (hd ps) (tl ps)"

lemma acc_result_single [simp]: "acc_result [q] = q"
  by (simp add: acc_result_def)

lemma acc_result_snoc:
  "ps \<noteq> [] \<Longrightarrow> acc_result (ps @ [q]) =
     DataPackage_psum sizeof_data_t (p_data (acc_result ps) + p_data q) PSUM 0 (p_VN (acc_result ps)) ADDER"
  by (cases ps) (simp_all add: acc_result_def)

lemma p_VN_psum [simp]: "p_VN (DataPackage_psum sz d ty src vn m) = vn"
  by (simp add: DataPackage_psum_def)

lemma p_data_psum [simp]: "p_data (DataPackage_psum sz d ty src vn m) = d"
  by (simp add: DataPackage_psum_def DataPackage_general_def)

lemma acc_result_VN:
  "ps \<noteq> [] \<Longrightarrow> \<forall>q \<in> set ps. p_VN q = vn \<Longrightarrow> p_VN (acc_result ps) = vn"
proof (induction ps rule: rev_induct)
  case Nil
  then show ?case by simp
next
  case (snoc q ps)
  then show ?case by (cases "ps = []") (simp_all add: acc_result_snoc)
qed

text \<open>Its data: the left fold of the data, with no assumption on the addition.\<close>

lemma acc_result_data:
  "ps \<noteq> [] \<Longrightarrow> p_data (acc_result ps) = foldl (+) (p_data (hd ps)) (map p_data (tl ps))"
proof (induction ps rule: rev_induct)
  case Nil
  then show ?case by simp
next
  case (snoc q ps)
  then show ?case by (cases "ps = []") (simp_all add: acc_result_snoc)
qed

text \<open>
  \<open>acc_holds n vn ps ac\<close>: the accumulator waits for \<open>n\<close> packages of virtual neuron \<open>vn\<close> and has
  received \<open>ps\<close>, fewer than \<open>n\<close>.
\<close>

definition acc_holds ::
  "nat \<Rightarrow> nat \<Rightarrow> 'd::plus DataPackage list \<Rightarrow> 'd Accumulator \<Rightarrow> bool" where
  "acc_holds n vn ps ac \<longleftrightarrow>
     ac_n_psums ac = n \<and> ac_current_psum ac = length ps \<and> length ps < n \<and> n < u32_max
     \<and> ac_operation_mode ac = ADDER
     \<and> f_fifo (ac_input_fifo ac) = [] \<and> f_fifo (ac_output_fifo ac) = []
     \<and> (ps \<noteq> [] \<longrightarrow> ac_temporal_register ac = Some (acc_result ps))
     \<and> (\<forall>q \<in> set ps. p_VN q = vn)"

definition acc_wired :: "cid \<Rightarrow> cid \<Rightarrow> 'd Accumulator \<Rightarrow> bool" where
  "acc_wired i o' ac \<longleftrightarrow> ac_inputConnection ac = Some i \<and> ac_outputConnection ac = Some o'"

lemma Accumulator_cycle_idle:
  assumes "acc_wired i o' ac" and "acc_holds n vn ps ac" and "link st i []"
  shows "\<exists>ac'. Accumulator_cycle ac st = Inr (ac', st) \<and> acc_wired i o' ac' \<and> acc_holds n vn ps ac'"
  using assms
  by (simp add: Accumulator_cycle_def Accumulator_receive_def Accumulator_route_def
      Accumulator_send_def acc_wired_def acc_holds_def link_pend Let_def)

lemma Accumulator_route_ok:
  assumes "ac_n_psums ac = n" and "ac_current_psum ac = length ps" and "length ps < n" and "n < u32_max"
    and "ac_operation_mode ac = ADDER" and "f_fifo (ac_input_fifo ac) = [q]"
    and "f_fifo (ac_output_fifo ac) = []"
    and "ps \<noteq> [] \<longrightarrow> ac_temporal_register ac = Some (acc_result ps)"
    and "\<forall>x \<in> set ps. p_VN x = vn" and "p_VN q = vn"
  shows "\<exists>ac'. Accumulator_route ac = Inr ac'
     \<and> ac_inputConnection ac' = ac_inputConnection ac \<and> ac_outputConnection ac' = ac_outputConnection ac
     \<and> ac_n_psums ac' = n \<and> ac_operation_mode ac' = ADDER \<and> f_fifo (ac_input_fifo ac') = []
     \<and> (if Suc (length ps) = n
        then ac_current_psum ac' = 0 \<and> f_fifo (ac_output_fifo ac') = [acc_result (ps @ [q])]
        else ac_current_psum ac' = Suc (length ps) \<and> f_fifo (ac_output_fifo ac') = []
          \<and> ac_temporal_register ac' = Some (acc_result (ps @ [q])))"
proof -
  have n: "usub n 1 = n - 1" using assms(3,4) by (intro usub_small) simp_all
  have eq: "length ps = n - 1 \<longleftrightarrow> Suc (length ps) = n" using assms(3) by auto
  have u: "uadd (length ps) 1 = Suc (length ps)" using assms(3,4) by (simp add: u32_simps)
  show ?thesis
  proof (cases "ps = []")
    case True
    with assms n u show ?thesis
      by (auto simp: Accumulator_route_def Fifo_pop_ok Let_def)
  next
    case False
    have "p_VN (acc_result ps) = vn" using False assms(9) by (rule acc_result_VN)
    with False assms n u eq show ?thesis
      by (simp add: Accumulator_route_def Fifo_pop_ok Accumulator_perform_operation_2_operands_def
          acc_result_snoc Let_def)
  qed
qed

lemma Accumulator_cycle_package:
  assumes w: "acc_wired i o' ac" and h: "acc_holds n vn ps ac" and l: "link st i [q]"
    and q: "p_VN q = vn" and io: "i \<noteq> o'"
  shows "\<exists>ac' st'. Accumulator_cycle ac st = Inr (ac', st') \<and> acc_wired i o' ac'
     \<and> link st' i [] \<and> (\<forall>c. c \<noteq> i \<longrightarrow> c \<noteq> o' \<longrightarrow> st' c = st c)
     \<and> (if Suc (length ps) = n
        then acc_holds n vn [] ac' \<and> link st' o' [acc_result (ps @ [q])]
        else acc_holds n vn (ps @ [q]) ac' \<and> st' o' = st o')"
proof -
  let ?ac = "ac\<lparr>ac_local_cycle := ac_local_cycle ac + 1,
    ac_stats := as_n_receives_update (\<lambda>k. k + 1) (as_total_cycles_update (\<lambda>k. k + 1) (ac_stats ac)),
    ac_input_fifo := Fifo_push_all [q] (ac_input_fifo ac)\<rparr>"
  let ?st = "st(i := snd (Connection_receive (st i)))"
  have h': "ac_n_psums ac = n" "ac_current_psum ac = length ps" "length ps < n" "n < u32_max"
      "ac_operation_mode ac = ADDER" "f_fifo (ac_input_fifo ac) = []" "f_fifo (ac_output_fifo ac) = []"
      "ps \<noteq> [] \<longrightarrow> ac_temporal_register ac = Some (acc_result ps)" "\<forall>x \<in> set ps. p_VN x = vn"
    using h by (simp_all add: acc_holds_def)
  have c: "Accumulator_cycle ac st = rbind (Accumulator_route ?ac) (\<lambda>ac. Accumulator_send ac ?st)"
    using w l by (simp add: Accumulator_cycle_def Accumulator_receive_def acc_wired_def link_pend
        link_flight Let_def)
  obtain ac1 where r: "Accumulator_route ?ac = Inr ac1"
      "ac_inputConnection ac1 = Some i" "ac_outputConnection ac1 = Some o'"
      "ac_n_psums ac1 = n" "ac_operation_mode ac1 = ADDER" "f_fifo (ac_input_fifo ac1) = []"
      "if Suc (length ps) = n
        then ac_current_psum ac1 = 0 \<and> f_fifo (ac_output_fifo ac1) = [acc_result (ps @ [q])]
        else ac_current_psum ac1 = Suc (length ps) \<and> f_fifo (ac_output_fifo ac1) = []
          \<and> ac_temporal_register ac1 = Some (acc_result (ps @ [q]))"
    using Accumulator_route_ok [of ?ac n ps q vn] h' q w by (auto simp: acc_wired_def)
  show ?thesis
  proof (cases "Suc (length ps) = n")
    case True
    with r have o1: "f_fifo (ac_output_fifo ac1) = [acc_result (ps @ [q])]" by simp
    obtain q' where "Fifo_drain (ac_output_fifo ac1) = Inr ([acc_result (ps @ [q])], q')" "f_fifo q' = []"
      using Fifo_drain_all [of "ac_output_fifo ac1"] o1 by auto
    then show ?thesis
      using True r io h'(3,4) unfolding c
      by (simp add: Accumulator_send_def o1 acc_wired_def acc_holds_def Let_def)
  next
    case False
    then have "Accumulator_send ac1 ?st = Inr (ac1, ?st)"
      using r by (simp add: Accumulator_send_def)
    with False show ?thesis
      using r io h' q unfolding c by (auto simp: acc_wired_def acc_holds_def)
  qed
qed

text \<open>
  One cycle, with at most one package on the link: \<open>ps @ L\<close> is what has been received; a complete
  list leaves as its sum.
\<close>

lemma Accumulator_cycle_ok:
  assumes w: "acc_wired i o' ac" and h: "acc_holds n vn ps ac" and l: "link st i L"
    and L: "length L \<le> 1" "\<forall>q \<in> set L. p_VN q = vn" and io: "i \<noteq> o'" and o': "link st o' []"
  shows "\<exists>ac' st'. Accumulator_cycle ac st = Inr (ac', st') \<and> acc_wired i o' ac'
     \<and> acc_holds n vn (if length (ps @ L) = n then [] else ps @ L) ac'
     \<and> link st' i [] \<and> link st' o' (if length (ps @ L) = n then [acc_result (ps @ L)] else [])
     \<and> (\<forall>c. c \<noteq> i \<longrightarrow> c \<noteq> o' \<longrightarrow> st' c = st c)"
proof (cases L)
  case Nil
  from Accumulator_cycle_idle [OF w h l [unfolded Nil]] obtain ac' where
    "Accumulator_cycle ac st = Inr (ac', st)" "acc_wired i o' ac'" "acc_holds n vn ps ac'" by blast
  moreover have "length ps \<noteq> n" using h by (simp add: acc_holds_def)
  ultimately show ?thesis using l o' Nil by auto
next
  case (Cons q L')
  with L have q: "L = [q]" "p_VN q = vn" by simp_all
  from Accumulator_cycle_package [OF w h l [unfolded q(1)] q(2) io] o' q(1) show ?thesis
    by (auto simp: link_def split: if_splits)
qed


section \<open>The whole buffer\<close>

text \<open>
  The accumulators work on disjoint links, so a cycle of the buffer is a cycle of each of them.
  \<open>o'\<close> gives the output link of accumulator \<open>a\<close>, \<open>ps a\<close> what it holds, \<open>L a\<close> what waits on its
  input link.
\<close>

definition acc_next :: "nat \<Rightarrow> 'd DataPackage list \<Rightarrow> 'd DataPackage list" where
  "acc_next n qs = (if length qs = n then [] else qs)"

definition acc_out :: "nat \<Rightarrow> 'd::plus DataPackage list \<Rightarrow> 'd DataPackage list" where
  "acc_out n qs = (if length qs = n then [acc_result qs] else [])"

definition buffer_ok :: "nat \<Rightarrow> (nat \<Rightarrow> cid) \<Rightarrow> 'd AccumulationBuffer \<Rightarrow> bool" where
  "buffer_ok n o' ab \<longleftrightarrow> ab_n_accumulators ab = n \<and> length (ab_accumulatortable ab) = n
     \<and> (\<forall>a < n. acc_wired (AccLink a) (o' a) (ab_accumulatortable ab ! a))"

definition buffer_holds ::
  "nat \<Rightarrow> nat \<Rightarrow> (nat \<Rightarrow> nat) \<Rightarrow> (nat \<Rightarrow> 'd::plus DataPackage list) \<Rightarrow> 'd AccumulationBuffer \<Rightarrow> bool" where
  "buffer_holds n np vn ps ab \<longleftrightarrow> (\<forall>a < n. acc_holds np (vn a) (ps a) (ab_accumulatortable ab ! a))"

lemma AccumulationBuffer_cycle_ok:
  fixes ab :: "'d::plus AccumulationBuffer"
  assumes ab: "buffer_ok n o' ab" and h: "buffer_holds n np vn ps ab"
    and L: "\<And>a. a < n \<Longrightarrow> link st (AccLink a) (L a)" "\<And>a. a < n \<Longrightarrow> length (L a) \<le> 1"
      "\<And>a q. a < n \<Longrightarrow> q \<in> set (L a) \<Longrightarrow> p_VN q = vn a"
    and out: "\<And>a. a < n \<Longrightarrow> link st (o' a) []" "\<And>a x. o' a \<noteq> AccLink x"
      "\<And>a a'. a < n \<Longrightarrow> a' < n \<Longrightarrow> o' a = o' a' \<Longrightarrow> a = a'"
  shows "\<exists>ab' st'. AccumulationBuffer_cycle (ab, st) = Inr (ab', st') \<and> buffer_ok n o' ab'
     \<and> buffer_holds n np vn (\<lambda>a. acc_next np (ps a @ L a)) ab'
     \<and> (\<forall>a < n. link st' (AccLink a) [] \<and> link st' (o' a) (acc_out np (ps a @ L a)))
     \<and> (\<forall>c. (\<forall>a < n. c \<noteq> AccLink a \<and> c \<noteq> o' a) \<longrightarrow> st' c = st c)"
proof -
  define I where "I k s \<longleftrightarrow> (case s of (ab', st') \<Rightarrow> buffer_ok n o' ab'
     \<and> (\<forall>a < n. acc_holds np (vn a) (if a < k then acc_next np (ps a @ L a) else ps a) (ab_accumulatortable ab' ! a)
        \<and> link st' (AccLink a) (if a < k then [] else L a)
        \<and> link st' (o' a) (if a < k then acc_out np (ps a @ L a) else []))
     \<and> (\<forall>c. (\<forall>a < n. c \<noteq> AccLink a \<and> c \<noteq> o' a) \<longrightarrow> st' c = st c))"
    for k and s :: "'d AccumulationBuffer \<times> 'd store"
  let ?f = "\<lambda>i (ab, st). rbind (rnth (ab_accumulatortable ab) i) (\<lambda>ac.
        rbind (Accumulator_cycle ac st) (\<lambda>(ac, st).
        Inr (ab\<lparr>ab_accumulatortable := (ab_accumulatortable ab)[i := ac]\<rparr>, st)))"
  have "\<exists>s'. rfold ?f [0..<n] (ab, st) = Inr s' \<and> I n s'"
  proof (rule rfold_upt_total)
    show "I 0 (ab, st)" using ab h L(1) out(1) by (simp add: I_def buffer_holds_def)
  next
    fix k s assume k: "k < n" and "I k s"
    then obtain ab1 st1 where s: "s = (ab1, st1)" and 1: "buffer_ok n o' ab1"
        "\<And>a. a < n \<Longrightarrow> acc_holds np (vn a) (if a < k then acc_next np (ps a @ L a) else ps a) (ab_accumulatortable ab1 ! a)"
        "\<And>a. a < n \<Longrightarrow> link st1 (AccLink a) (if a < k then [] else L a)"
        "\<And>a. a < n \<Longrightarrow> link st1 (o' a) (if a < k then acc_out np (ps a @ L a) else [])"
        "\<And>c. \<forall>a < n. c \<noteq> AccLink a \<and> c \<noteq> o' a \<Longrightarrow> st1 c = st c"
      by (cases s) (simp add: I_def)
    let ?ac = "ab_accumulatortable ab1 ! k"
    have len: "length (ab_accumulatortable ab1) = n" and w: "acc_wired (AccLink k) (o' k) ?ac"
      using 1(1) k by (simp_all add: buffer_ok_def)
    have hk: "acc_holds np (vn k) (ps k) ?ac" "link st1 (AccLink k) (L k)" "link st1 (o' k) []"
      using 1(2-4) [OF k] by simp_all
    have vnk: "\<forall>q \<in> set (L k). p_VN q = vn k" using L(3) k by blast
    have ne: "AccLink k \<noteq> o' k" using out(2) [of k k] by metis
    obtain ac' st2 where 2: "Accumulator_cycle ?ac st1 = Inr (ac', st2)" "acc_wired (AccLink k) (o' k) ac'"
        "acc_holds np (vn k) (acc_next np (ps k @ L k)) ac'" "link st2 (AccLink k) []"
        "link st2 (o' k) (acc_out np (ps k @ L k))"
        "\<And>c. c \<noteq> AccLink k \<Longrightarrow> c \<noteq> o' k \<Longrightarrow> st2 c = st1 c"
      using Accumulator_cycle_ok [OF w hk(1,2) L(2) [OF k] vnk ne hk(3)]
      unfolding acc_next_def acc_out_def by blast
    let ?ab = "ab1\<lparr>ab_accumulatortable := (ab_accumulatortable ab1)[k := ac']\<rparr>"
    have "?f k s = Inr (?ab, st2)" using s k len 2(1) by simp
    moreover have "I (Suc k) (?ab, st2)"
    proof -
      have "buffer_ok n o' ?ab"
        using 1(1) 2(2) k by (auto simp: buffer_ok_def nth_list_update)
      moreover have "acc_holds np (vn a) (if a < Suc k then acc_next np (ps a @ L a) else ps a) (ab_accumulatortable ?ab ! a)
        \<and> link st2 (AccLink a) (if a < Suc k then [] else L a)
        \<and> link st2 (o' a) (if a < Suc k then acc_out np (ps a @ L a) else [])" if a: "a < n" for a
      proof (cases "a = k")
        case True
        with 2(3-5) k len show ?thesis by simp
      next
        case False
        then have "st2 (AccLink a) = st1 (AccLink a)" "st2 (o' a) = st1 (o' a)"
          using 2(6) [of "AccLink a"] 2(6) [of "o' a"] out(2) [of k a] out(2) [of a k] out(3) [of a k] a k by auto
        then have "link st2 (AccLink a) = link st1 (AccLink a)" "link st2 (o' a) = link st1 (o' a)"
          by (simp_all add: link_def fun_eq_iff)
        with 1(2-4) [OF a] False len show ?thesis by (simp add: less_Suc_eq)
      qed
      moreover have "st2 c = st c" if "\<forall>a < n. c \<noteq> AccLink a \<and> c \<noteq> o' a" for c
        using 1(5) [OF that] 2(6) [of c] that k by simp
      ultimately show ?thesis by (simp add: I_def)
    qed
    ultimately show "\<exists>s'. ?f k s = Inr s' \<and> I (Suc k) s'" by blast
  qed
  then obtain ab' st' where "rfold ?f [0..<n] (ab, st) = Inr (ab', st')" "I n (ab', st')" by auto
  with ab show ?thesis
    by (intro exI [of _ ab'] exI [of _ st']) (simp add: AccumulationBuffer_cycle_def I_def buffer_ok_def buffer_holds_def)
qed

text \<open>Resetting and configuring leave every accumulator empty, waiting for \<open>np\<close> packages.\<close>

lemma AccumulationBuffer_configure_ok:
  assumes "buffer_ok n o' ab"
    and "\<And>a. a < n \<Longrightarrow> f_fifo (ac_input_fifo (ab_accumulatortable ab ! a)) = []
        \<and> f_fifo (ac_output_fifo (ab_accumulatortable ab ! a)) = []"
    and "0 < np" "np < u32_max"
  shows "buffer_ok n o' (AccumulationBuffer_configureSignals tile layer ms np (AccumulationBuffer_resetSignals ab))"
    and "buffer_holds n np vn (\<lambda>_. []) (AccumulationBuffer_configureSignals tile layer ms np (AccumulationBuffer_resetSignals ab))"
  using assms
  by (auto simp: buffer_ok_def buffer_holds_def acc_wired_def acc_holds_def AccumulationBuffer_configureSignals_def
      AccumulationBuffer_NPSumsConfiguration_def AccumulationBuffer_resetSignals_def Accumulator_setNPSums_def
      Accumulator_resetSignals_def)

lemma buffer_holds_empty:
  "buffer_holds n np vn ps ab \<Longrightarrow> a < n \<Longrightarrow> f_fifo (ac_input_fifo (ab_accumulatortable ab ! a)) = []
        \<and> f_fifo (ac_output_fifo (ab_accumulatortable ab ! a)) = []"
  by (simp add: buffer_holds_def acc_holds_def)

section \<open>Construction and wiring\<close>

lemma set_conn_loop:
  fixes ab :: "'d AccumulationBuffer"
  assumes "m \<le> length conns" and "m \<le> length (ab_accumulatortable ab)"
  shows "\<exists>ab'. rfold (\<lambda>i ab.
        rbind (rnth conns i) (\<lambda>c.
        rbind (rnth (ab_accumulatortable ab) i) (\<lambda>ac.
        Inr (ab\<lparr>ab_accumulatortable := (ab_accumulatortable ab)[i := g c ac]\<rparr>))))
       [0..<m] ab = Inr ab'
     \<and> ab_n_accumulators ab' = ab_n_accumulators ab
     \<and> length (ab_accumulatortable ab') = length (ab_accumulatortable ab)
     \<and> (\<forall>i < length (ab_accumulatortable ab). ab_accumulatortable ab' ! i =
          (if i < m then g (conns ! i) (ab_accumulatortable ab ! i) else ab_accumulatortable ab ! i))"
proof -
  define I where "I k ab' \<longleftrightarrow> ab_n_accumulators ab' = ab_n_accumulators ab
     \<and> length (ab_accumulatortable ab') = length (ab_accumulatortable ab)
     \<and> (\<forall>i < length (ab_accumulatortable ab). ab_accumulatortable ab' ! i =
          (if i < k then g (conns ! i) (ab_accumulatortable ab ! i) else ab_accumulatortable ab ! i))"
    for k and ab' :: "'d AccumulationBuffer"
  have "\<exists>ab'. rfold (\<lambda>i ab.
        rbind (rnth conns i) (\<lambda>c.
        rbind (rnth (ab_accumulatortable ab) i) (\<lambda>ac.
        Inr (ab\<lparr>ab_accumulatortable := (ab_accumulatortable ab)[i := g c ac]\<rparr>))))
       [0..<m] ab = Inr ab' \<and> I m ab'"
    by (rule rfold_upt_total)
      (use assms in \<open>auto simp: I_def nth_list_update less_Suc_eq\<close>)
  then show ?thesis unfolding I_def .
qed

lemma TemporalRN_new_ok:
  fixes st :: "'d::plus store"
  assumes n: "n = (if msn_multiplier_network_type (m_MSNetworkCfg cfg) = LINEAR
      then msn_ms_size (m_MSNetworkCfg cfg)
      else umul (msn_ms_rows (m_MSNetworkCfg cfg)) (msn_ms_cols (m_MSNetworkCfg cfg)))"
  shows "\<exists>rn st'. TemporalRN_new cfg st = Inr (rn, st') \<and> tr_accumulation_buffer_size rn = n
     \<and> tr_inputconnectiontable rn = map AccLink [0..<n] \<and> tr_outputconnectiontable rn = []
     \<and> ab_n_accumulators (tr_accumulationBuffer rn) = n
     \<and> length (ab_accumulatortable (tr_accumulationBuffer rn)) = n
     \<and> (\<forall>a < n. let ac = ab_accumulatortable (tr_accumulationBuffer rn) ! a in
          ac_inputConnection ac = Some (AccLink a) \<and> f_fifo (ac_input_fifo ac) = []
          \<and> f_fifo (ac_output_fifo ac) = [])
     \<and> (\<forall>a < n. link st' (AccLink a) []) \<and> (\<forall>c. (\<forall>a < n. c \<noteq> AccLink a) \<longrightarrow> st' c = st c)"
proof -
  let ?ab = "AccumulationBuffer_new cfg n :: 'd AccumulationBuffer"
  let ?pw = "asc_port_width (m_ASwitchCfg cfg)"
  have len: "length (ab_accumulatortable ?ab) = n" "ab_n_accumulators ?ab = n"
    by (simp_all add: AccumulationBuffer_new_def)
  obtain ab where ab: "AccumulationBuffer_setInputConnections (map AccLink [0..<n]) ?ab = Inr ab"
      "ab_n_accumulators ab = n" "length (ab_accumulatortable ab) = n"
      "\<forall>i < n. ab_accumulatortable ab ! i = (Accumulator_new cfg i)\<lparr>ac_inputConnection := Some (AccLink i)\<rparr>"
    using set_conn_loop [of n "map AccLink [0..<n]" ?ab "\<lambda>c ac. ac\<lparr>ac_inputConnection := Some c\<rparr>"] len
    by (auto simp: AccumulationBuffer_setInputConnections_def AccumulationBuffer_new_def)
  let ?st = "\<lambda>c. if c \<in> set (map AccLink [0..<n]) then Connection_new ?pw else st c"
  have new: "TemporalRN_new cfg st = Inr (\<lparr>tr_port_width = ?pw, tr_inputconnectiontable = map AccLink [0..<n],
      tr_outputconnectiontable = [], tr_accumulationBuffer = ab, tr_accumulation_buffer_size = n\<rparr>, ?st)"
    unfolding TemporalRN_new_def Let_def n [symmetric] ab(1) by simp
  have "\<forall>a < n. link ?st (AccLink a) []"
    by (auto simp: link_def in_flight_def2 Connection_existPendingData_def Connection_new_def)
  then show ?thesis
    unfolding new using ab by (auto simp: Accumulator_new_def Let_def)
qed

text \<open>
  Accumulator \<open>a\<close> is attached to input \<open>a div n_bus\<close> of bus line \<open>a mod n_bus\<close>. The input exists
  only if the lines have enough of them.
\<close>

lemma TemporalRN_setMemoryConnections_ok:
  assumes rn: "tr_accumulation_buffer_size rn = n" "tr_outputconnectiontable rn = []"
      "ab_n_accumulators (tr_accumulationBuffer rn) = n"
      "length (ab_accumulatortable (tr_accumulationBuffer rn)) = n"
      "\<forall>a < n. ac_inputConnection (ab_accumulatortable (tr_accumulationBuffer rn) ! a) = Some (AccLink a)"
    and conns: "length conns = nb" "0 < nb" "\<And>b. b < nb \<Longrightarrow> conns ! b = map (BusIn b) [0..<ports]"
    and fits: "n \<le> nb * ports"
  shows "\<exists>rn'. TemporalRN_setMemoryConnections conns rn = Inr rn'
     \<and> buffer_ok n (\<lambda>a. BusIn (a mod nb) (a div nb)) (tr_accumulationBuffer rn')
     \<and> tr_inputconnectiontable rn' = tr_inputconnectiontable rn
     \<and> (\<forall>a < n. let ac = ab_accumulatortable (tr_accumulationBuffer rn) ! a;
                    ac' = ab_accumulatortable (tr_accumulationBuffer rn') ! a in
          f_fifo (ac_input_fifo ac') = f_fifo (ac_input_fifo ac)
          \<and> f_fifo (ac_output_fifo ac') = f_fifo (ac_output_fifo ac))"
proof -
  let ?c = "\<lambda>a. BusIn (a mod nb) (a div nb)"
  let ?rn = "rn\<lparr>tr_outputconnectiontable := map ?c [0..<n]\<rparr>"
  have div: "a div nb < ports" if "a < n" for a
    using that fits conns(2) by (simp add: less_mult_imp_div_less mult.commute)
  have 1: "rfold (\<lambda>i rn.
           rbind (rdiv i (length conns)) (\<lambda>inputID.
           rbind (rnth conns (i mod length conns)) (\<lambda>line.
           rbind (rnth line inputID) (\<lambda>mem_conn.
           Inr (rn\<lparr>tr_outputconnectiontable := tr_outputconnectiontable rn @ [mem_conn]\<rparr>)))))
         [0..<n] rn = Inr ?rn"
  proof -
    have "\<exists>r. rfold (\<lambda>i rn.
           rbind (rdiv i (length conns)) (\<lambda>inputID.
           rbind (rnth conns (i mod length conns)) (\<lambda>line.
           rbind (rnth line inputID) (\<lambda>mem_conn.
           Inr (rn\<lparr>tr_outputconnectiontable := tr_outputconnectiontable rn @ [mem_conn]\<rparr>)))))
         [0..<n] rn = Inr r \<and> r = rn\<lparr>tr_outputconnectiontable := map ?c [0..<n]\<rparr>"
      by (rule rfold_upt_total) (use rn(2) conns div in \<open>simp_all\<close>)
    then show ?thesis by simp
  qed
  let ?ab = "tr_accumulationBuffer rn"
  obtain ab where ab: "AccumulationBuffer_setMemoryConnections (map ?c [0..<n]) ?ab = Inr ab"
      "ab_n_accumulators ab = n" "length (ab_accumulatortable ab) = n"
      "\<forall>i < n. ab_accumulatortable ab ! i = (ab_accumulatortable ?ab ! i)\<lparr>ac_outputConnection := Some (?c i)\<rparr>"
    using set_conn_loop [of n "map ?c [0..<n]" ?ab "\<lambda>c ac. ac\<lparr>ac_outputConnection := Some c\<rparr>"] rn(3,4)
    by (auto simp: AccumulationBuffer_setMemoryConnections_def)
  have "TemporalRN_setMemoryConnections conns rn = Inr (?rn\<lparr>tr_accumulationBuffer := ab\<rparr>)"
    unfolding TemporalRN_setMemoryConnections_def Let_def rn(1) 1 using ab(1) by simp
  moreover have "buffer_ok n ?c ab" using ab rn(5) by (simp add: buffer_ok_def acc_wired_def)
  ultimately show ?thesis using ab(4) by (simp add: Let_def)
qed

lemma TemporalRN_setMemoryConnections_overflow:
  assumes "tr_accumulation_buffer_size rn = n"
    and conns: "length conns = nb" "0 < nb" "\<And>b. b < nb \<Longrightarrow> length (conns ! b) = ports"
    and "nb * ports < n"
  shows "TemporalRN_setMemoryConnections conns rn = Inl OutOfBounds"
proof -
  let ?f = "\<lambda>i rn. rbind (rdiv i (length conns)) (\<lambda>inputID.
           rbind (rnth conns (i mod length conns)) (\<lambda>line.
           rbind (rnth line inputID) (\<lambda>mem_conn.
           Inr (rn\<lparr>tr_outputconnectiontable := tr_outputconnectiontable rn @ [mem_conn]\<rparr>))))"
  have "\<exists>r. rfold ?f [0..<nb * ports] rn = Inr r \<and> True"
  proof (rule rfold_upt_total)
    fix k :: nat and r :: "'a TemporalRN"
    assume "k < nb * ports"
    then have "k div nb < ports" by (simp add: less_mult_imp_div_less mult.commute)
    then show "\<exists>r'. ?f k r = Inr r' \<and> True" using conns by simp
  qed simp
  then obtain r where r: "rfold ?f [0..<nb * ports] rn = Inr r" by blast
  obtain m where "n = nb * ports + Suc m" using less_imp_Suc_add [OF assms(5)] by auto
  then have "[0..<n] = [0..<nb * ports] @ (nb * ports) # [Suc (nb * ports)..<n]"
    using upt_add_eq_append [of 0 "nb * ports" "Suc m"] by (simp add: upt_conv_Cons)
  moreover have "?f (nb * ports) r = Inl OutOfBounds" using conns by simp
  ultimately have "rfold ?f [0..<n] rn = Inl OutOfBounds" by (simp add: rfold_append r)
  then show ?thesis unfolding TemporalRN_setMemoryConnections_def Let_def assms(1) by simp
qed

section \<open>Properties\<close>

text \<open>
  An accumulator in use: \<open>xs\<close> gives for every cycle what arrives on its link (a package or nothing),
  and after every cycle the unit behind it takes what is on its output link. The log has one entry
  per cycle, the packages taken.
\<close>

definition acc_arrive :: "cid \<Rightarrow> 'd DataPackage list \<Rightarrow> 'd store \<Rightarrow> 'd store" where
  "acc_arrive i L st = (if L = [] then st else st(i := Connection_send L (st i)))"

definition acc_take :: "cid \<Rightarrow> 'd store \<Rightarrow> 'd DataPackage list \<times> 'd store" where
  "acc_take c st = (if Connection_existPendingData (st c)
     then (let (qs, l) = Connection_receive (st c) in (qs, st(c := l))) else ([], st))"

definition acc_run ::
  "cid \<Rightarrow> cid \<Rightarrow> 'd::plus DataPackage list list \<Rightarrow> 'd Accumulator \<times> 'd store
     \<Rightarrow> ('d Accumulator \<times> 'd store \<times> 'd DataPackage list list) res" where
  "acc_run i o' xs = (\<lambda>(ac, st). rfold (\<lambda>L (ac, st, log).
     rbind (Accumulator_cycle ac (acc_arrive i L st)) (\<lambda>(ac, st).
     let (qs, st) = acc_take o' st in Inr (ac, st, log @ [qs]))) xs (ac, st, []))"

lemma acc_arrive_link:
  "i \<noteq> o' \<Longrightarrow> link st i [] \<Longrightarrow> link (acc_arrive i L st) i L"
  "i \<noteq> o' \<Longrightarrow> link st o' Q \<Longrightarrow> link (acc_arrive i L st) o' Q"
  by (simp_all add: acc_arrive_def)

lemma acc_take_link:
  assumes "link st c Q" and "i \<noteq> c"
  shows "fst (acc_take c st) = Q" "link (snd (acc_take c st)) c []"
    "snd (acc_take c st) i = st i"
proof -
  have Q: "flight st c = Q" "pend st c \<longleftrightarrow> Q \<noteq> []" using assms(1) by (simp_all add: link_def)
  show "fst (acc_take c st) = Q" "link (snd (acc_take c st)) c []" "snd (acc_take c st) i = st i"
    using assms Q conn.receive_in_flight [of "st c"] by (auto simp: acc_take_def split_beta Let_def)
qed

text \<open>
  \<open>acc_waiting n qs\<close>: the packages that belong to a sum that is not complete; \<open>acc_sent n qs L\<close>: what
  is sent when \<open>L\<close> is the last to arrive of \<open>qs\<close>.
\<close>

definition acc_waiting :: "nat \<Rightarrow> 'd list \<Rightarrow> 'd list" where
  "acc_waiting n qs = drop (length qs - length qs mod n) qs"

definition acc_sent :: "nat \<Rightarrow> 'd::plus DataPackage list \<Rightarrow> 'd DataPackage list \<Rightarrow> 'd DataPackage list" where
  "acc_sent n qs L = (if L \<noteq> [] \<and> n dvd length qs then [acc_result (drop (length qs - n) qs)] else [])"

lemma acc_waiting_step:
  fixes n :: nat and L qs :: "'d::plus DataPackage list"
  defines "ps \<equiv> acc_waiting n qs @ L"
  assumes n: "0 < n" and L: "length L \<le> 1"
  shows "(if length ps = n then [] else ps) = acc_waiting n (qs @ L)"
    and "(if length ps = n then [acc_result ps] else []) = acc_sent n (qs @ L) L"
proof -
  have lw: "length (acc_waiting n qs) = length qs mod n" by (simp add: acc_waiting_def)
  have "(if length ps = n then [] else ps) = acc_waiting n (qs @ L)
      \<and> (if length ps = n then [acc_result ps] else []) = acc_sent n (qs @ L) L"
  proof (cases L)
    case Nil
    have "length qs mod n \<noteq> n" using n by (metis mod_less_divisor less_irrefl)
    with Nil show ?thesis using lw by (simp add: ps_def acc_waiting_def acc_sent_def)
  next
    case (Cons q L')
    with L have L1: "L = [q]" by simp
    have len: "length ps = Suc (length qs mod n)" using lw by (simp add: ps_def L1)
    have le: "length qs mod n \<le> length qs" by simp
    show ?thesis
    proof (cases "Suc (length qs mod n) = n")
      case True
      then have m: "Suc (length qs) mod n = 0" by (simp add: mod_Suc)
      moreover have "length qs - length qs mod n = Suc (length qs) - n" using True le by linarith
      moreover have "n \<le> Suc (length qs)" using True le by linarith
      ultimately show ?thesis using True len
        by (simp add: L1 ps_def acc_waiting_def acc_sent_def dvd_eq_mod_eq_0)
    next
      case False
      then have m: "Suc (length qs) mod n = Suc (length qs mod n)" by (simp add: mod_Suc)
      then show ?thesis using False len le
        by (simp add: L1 ps_def acc_waiting_def acc_sent_def dvd_eq_mod_eq_0)
    qed
  qed
  then show "(if length ps = n then [] else ps) = acc_waiting n (qs @ L)"
    and "(if length ps = n then [acc_result ps] else []) = acc_sent n (qs @ L) L" by blast+
qed

lemma acc_run_ok:
  assumes w: "acc_wired i o' ac" and io: "i \<noteq> o'" and h: "acc_holds n vn [] ac"
    and l: "link st i []" "link st o' []"
  shows "\<forall>L \<in> set xs. length L \<le> 1 \<and> (\<forall>q \<in> set L. p_VN q = vn)
    \<Longrightarrow> \<exists>ac' st' log. acc_run i o' xs (ac, st) = Inr (ac', st', log) \<and> acc_wired i o' ac'
      \<and> acc_holds n vn (acc_waiting n (concat xs)) ac' \<and> link st' i [] \<and> link st' o' []
      \<and> length log = length xs
      \<and> (\<forall>t < length xs. log ! t = acc_sent n (concat (take (Suc t) xs)) (xs ! t))"
proof (induction xs rule: rev_induct)
  case Nil
  then show ?case using w h l by (simp add: acc_run_def acc_waiting_def)
next
  case (snoc L xs)
  have n: "0 < n" using h by (simp add: acc_holds_def)
  obtain ac1 st1 log where 1: "acc_run i o' xs (ac, st) = Inr (ac1, st1, log)" "acc_wired i o' ac1"
      "acc_holds n vn (acc_waiting n (concat xs)) ac1" "link st1 i []" "link st1 o' []"
      "length log = length xs"
      "\<And>t. t < length xs \<Longrightarrow> log ! t = acc_sent n (concat (take (Suc t) xs)) (xs ! t)"
    using snoc.IH snoc.prems by auto
  have L: "length L \<le> 1" "\<forall>q \<in> set L. p_VN q = vn" using snoc.prems by simp_all
  note step = acc_waiting_step [OF n L(1), where qs = "concat xs"]
  obtain ac2 st2 where 2: "Accumulator_cycle ac1 (acc_arrive i L st1) = Inr (ac2, st2)" "acc_wired i o' ac2"
      "acc_holds n vn (acc_waiting n (concat xs @ L)) ac2" "link st2 i []"
      "link st2 o' (acc_sent n (concat xs @ L) L)"
    using Accumulator_cycle_ok [OF 1(2,3) acc_arrive_link(1) [OF io 1(4)] L io
        acc_arrive_link(2) [OF io 1(5)], unfolded step] by blast
  let ?st = "snd (acc_take o' st2)"
  note t = acc_take_link [OF 2(5) io]
  have "acc_run i o' (xs @ [L]) (ac, st) = Inr (ac2, ?st, log @ [acc_sent n (concat xs @ L) L])"
    using 1(1) 2(1) t(1) by (simp add: acc_run_def rfold_append split_beta Let_def)
  moreover have "link ?st i []" using t(3) 2(4) by (simp add: link_def)
  moreover have "(log @ [acc_sent n (concat xs @ L) L]) ! k
      = acc_sent n (concat (take (Suc k) (xs @ [L]))) ((xs @ [L]) ! k)" if "k < length (xs @ [L])" for k
    using that 1(6) 1(7) [of k] by (cases "k < length xs") (simp_all add: nth_append)
  ultimately show ?case using 2(2,3) t(2) 1(6) by auto
qed

text \<open>
  C15: an accumulator configured for \<open>n\<close> partial sums of a virtual neuron, over any number of
  cycles in which packages arrive or not, with its output link read after every cycle. In a cycle
  in which the last of \<open>n\<close> partial sums arrives it emits exactly one package, with that neuron and
  the left-to-right sum of these \<open>n\<close>; in every other cycle it emits nothing. Afterwards it holds
  the packages that belong to an incomplete sum.
\<close>

theorem accumulator_sums:
  assumes "acc_wired i o' ac" and "i \<noteq> o'" and "acc_holds n vn [] ac" and "link st i []" and "link st o' []"
    and "\<forall>L \<in> set xs. length L \<le> 1 \<and> (\<forall>q \<in> set L. p_VN q = vn)"
  shows "\<exists>ac' st' log. acc_run i o' xs (ac, st) = Inr (ac', st', log) \<and> length log = length xs
     \<and> acc_holds n vn (acc_waiting n (concat xs)) ac'
     \<and> (\<forall>t < length xs. let qs = concat (take (Suc t) xs); ps = drop (length qs - n) qs in
          if xs ! t \<noteq> [] \<and> n dvd length qs
          then \<exists>p. log ! t = [p] \<and> p_VN p = vn
             \<and> p_data p = foldl (+) (p_data (hd ps)) (map p_data (tl ps))
          else log ! t = [])"
proof -
  obtain ac' st' log where r: "acc_run i o' xs (ac, st) = Inr (ac', st', log)" "length log = length xs"
      "acc_holds n vn (acc_waiting n (concat xs)) ac'"
      "\<And>t. t < length xs \<Longrightarrow> log ! t = acc_sent n (concat (take (Suc t) xs)) (xs ! t)"
    using acc_run_ok [OF assms(1-5) assms(6)] by blast
  have "let qs = concat (take (Suc t) xs); ps = drop (length qs - n) qs in
          if xs ! t \<noteq> [] \<and> n dvd length qs
          then \<exists>p. log ! t = [p] \<and> p_VN p = vn
             \<and> p_data p = foldl (+) (p_data (hd ps)) (map p_data (tl ps))
          else log ! t = []" if t: "t < length xs" for t
  proof -
    let ?qs = "concat (take (Suc t) xs)"
    let ?ps = "drop (length ?qs - n) ?qs"
    have "set ?qs \<subseteq> set (concat xs)" using set_take_subset [of "Suc t" xs] by auto
    then have vn: "\<forall>q \<in> set ?ps. p_VN q = vn" using assms(6) set_drop_subset [of "length ?qs - n" ?qs] by fastforce
    have "?ps \<noteq> []" if "xs ! t \<noteq> []"
    proof -
      have "?qs \<noteq> []" using that t by (simp add: take_Suc_conv_app_nth)
      then have "0 < length ?qs" by blast
      moreover have "0 < n" using assms(3) by (simp add: acc_holds_def)
      ultimately have "\<not> length ?qs \<le> length ?qs - n" by linarith
      then show ?thesis by simp
    qed
    then show ?thesis
      using r(4) [OF t] acc_result_VN [OF _ vn] acc_result_data [of ?ps] by (simp add: acc_sent_def Let_def)
  qed
  with r show ?thesis by blast
qed

theorem accumulator_sums_witness:
  "\<exists>ac' st' log. acc_run (AccLink 0) (BusIn 0 0)
      [[DataPackage_psum 4 (5::int) PSUM 0 3 MULTIPLIER], [], [DataPackage_psum 4 8 PSUM 0 3 MULTIPLIER]]
      ((Accumulator_setNPSums 2 (Accumulator_new Config_reset 0))
         \<lparr>ac_inputConnection := Some (AccLink 0), ac_outputConnection := Some (BusIn 0 0)\<rparr>, \<lambda>_. Connection_new 16)
       = Inr (ac', st', log) \<and> log ! 0 = [] \<and> log ! 1 = [] \<and> (\<exists>p. log ! 2 = [p] \<and> p_VN p = 3 \<and> p_data p = 13)"
proof -
  let ?ac = "(Accumulator_setNPSums 2 (Accumulator_new Config_reset 0))
         \<lparr>ac_inputConnection := Some (AccLink 0), ac_outputConnection := Some (BusIn 0 0)\<rparr> :: int Accumulator"
  let ?xs = "[[DataPackage_psum 4 (5::int) PSUM 0 3 MULTIPLIER], [], [DataPackage_psum 4 8 PSUM 0 3 MULTIPLIER]]"
  have a: "acc_wired (AccLink 0) (BusIn 0 0) ?ac" "acc_holds 2 3 [] ?ac"
    by (simp_all add: acc_wired_def acc_holds_def Accumulator_setNPSums_def Accumulator_new_def Let_def u32_max_def)
  have l: "link (\<lambda>_. Connection_new 16 :: int Connection) c []" for c
    by (simp add: link_def Connection_new_def Connection_existPendingData_def in_flight_def2)
  have "\<forall>L \<in> set ?xs. length L \<le> 1 \<and> (\<forall>q \<in> set L. p_VN q = 3)" by simp
  from accumulator_sums [OF a(1) _ a(2) l l this] obtain ac' st' log where
    r: "acc_run (AccLink 0) (BusIn 0 0) ?xs (?ac, \<lambda>_. Connection_new 16) = Inr (ac', st', log)"
    and p: "\<forall>t < length ?xs. let qs = concat (take (Suc t) ?xs); ps = drop (length qs - 2) qs in
          if ?xs ! t \<noteq> [] \<and> 2 dvd length qs
          then \<exists>p. log ! t = [p] \<and> p_VN p = 3
             \<and> p_data p = foldl (+) (p_data (hd ps)) (map p_data (tl ps))
          else log ! t = []" by blast
  from p [rule_format, of 0] p [rule_format, of 1] p [rule_format, of 2]
  have "log ! 0 = []" "log ! 1 = []" "\<exists>p. log ! 2 = [p] \<and> p_VN p = 3 \<and> p_data p = 13"
    by (simp_all add: Let_def)
  with r show ?thesis by blast
qed

end
