(* ===== verification/OSMem.thy ===== *)
theory OSMem
  imports MeshSetup Accum
begin

text \<open>
  The memory controller of the output-stationary machine, \<^verbatim>\<open>OSMeshSDMemory.cpp\<close>. It walks over
  the tiles of the output, configures the two networks for each of them, feeds the operands into
  the read ports, one row and one column per cycle, and stores the results that come back over the
  bus at the address of their virtual neuron.

  The arrays behind the addresses \<open>MK_address\<close>, \<open>KN_address\<close> and \<open>output_address\<close> are lists; an
  access outside them is the error \<open>OutOfBounds\<close>.
\<close>

section \<open>State\<close>

record 'd OSMeshSDMemory =
  sm_dnn_layer :: "DNNLayer option"
  sm_M :: nat
  sm_N :: nat
  sm_K :: nat
  sm_write_connection :: "cid option"
  sm_current_state :: OSMeshControllerState
  sm_vnat_table :: "nat list"
  sm_read_connections :: "cid list"
  sm_ms_rows :: nat
  sm_ms_cols :: nat
  sm_n_read_ports :: nat
  sm_n_write_ports :: nat
  sm_write_buffer_capacity :: nat
  sm_port_width :: nat
  sm_rows_used :: nat
  sm_cols_used :: nat
  sm_ms_size_per_input_port :: nat
  sm_write_fifo :: "'d Fifo"
  sm_input_fifos :: "'d Fifo list"
  sm_psum_fifos :: "'d Fifo list"
  sm_MK_address :: "'d list"
  sm_KN_address :: "'d list"
  sm_output_address :: "'d list"
  sm_T_N :: nat
  sm_T_K :: nat
  sm_T_M :: nat
  sm_iter_N :: nat
  sm_iter_K :: nat
  sm_iter_M :: nat
  sm_current_M :: nat
  sm_current_N :: nat
  sm_current_K :: nat
  sm_execution_finished :: bool
  sm_iteration_completed :: bool
  sm_layer_loaded :: bool
  sm_current_output :: nat
  sm_output_size :: nat
  sm_current_output_iteration :: nat
  sm_n_iterations_completed :: nat
  sm_write_port_connections :: "cid option list"
  sm_local_cycle :: counter
  sm_stats :: SDMemoryStats

definition OSMeshSDMemory_new :: "Config \<Rightarrow> cid option \<Rightarrow> 'd OSMeshSDMemory res" where
  "OSMeshSDMemory_new cfg write_connection =
     (let msn = m_MSNetworkCfg cfg; sdc = m_SDMemoryCfg cfg;
          nr = sdc_n_read_ports sdc; nw = sdc_n_write_ports sdc; cap = sdc_write_buffer_capacity sdc in
      rbind (rdiv (uadd (msn_ms_rows msn) (msn_ms_cols msn)) nr) (\<lambda>per_port.
      Inr \<lparr>sm_dnn_layer = None, sm_M = uninit, sm_N = uninit, sm_K = uninit,
           sm_write_connection = write_connection, sm_current_state = OS_CONFIGURING,
           sm_vnat_table = [], sm_read_connections = [],
           sm_ms_rows = msn_ms_rows msn, sm_ms_cols = msn_ms_cols msn,
           sm_n_read_ports = nr, sm_n_write_ports = nw, sm_write_buffer_capacity = cap,
           sm_port_width = sdc_port_width sdc, sm_rows_used = uninit, sm_cols_used = uninit,
           sm_ms_size_per_input_port = per_port, sm_write_fifo = Fifo_new cap,
           sm_input_fifos = replicate nr (Fifo_new cap), sm_psum_fifos = replicate nr (Fifo_new cap),
           sm_MK_address = uninit, sm_KN_address = uninit, sm_output_address = uninit,
           sm_T_N = uninit, sm_T_K = uninit, sm_T_M = uninit, sm_iter_N = uninit,
           sm_iter_K = uninit, sm_iter_M = uninit, sm_current_M = 0, sm_current_N = 0,
           sm_current_K = 0, sm_execution_finished = False, sm_iteration_completed = False,
           sm_layer_loaded = False, sm_current_output = 0, sm_output_size = 0,
           sm_current_output_iteration = 0, sm_n_iterations_completed = 0,
           sm_write_port_connections = [], sm_local_cycle = 0,
           sm_stats = \<lparr>ss_total_cycles = 0, ss_n_SRAM_weight_reads = 0, ss_n_SRAM_input_reads = 0,
             ss_n_SRAM_psum_reads = 0, ss_n_SRAM_psum_writes = 0, ss_sta_sparsity = 0, ss_str_sparsity = 0,
             ss_n_sta_vectors_at_once_avg = 0, ss_n_sta_vectors_at_once_max = 0, ss_n_reconfigurations = 0,
             ss_dataflow = CNN_DATAFLOW, ss_n_SRAM_read_ports_weights_use = replicate nr 0,
             ss_n_SRAM_read_ports_inputs_use = replicate nr 0,
             ss_n_SRAM_read_ports_psums_use = replicate nr 0,
             ss_n_SRAM_write_ports_use = replicate nw 0\<rparr>\<rparr>))"

definition OSMeshSDMemory_setWriteConnections ::
  "cid option list \<Rightarrow> 'd OSMeshSDMemory \<Rightarrow> 'd OSMeshSDMemory" where
  "OSMeshSDMemory_setWriteConnections conns sm = sm\<lparr>sm_write_port_connections := conns\<rparr>"

definition OSMeshSDMemory_setReadConnections ::
  "cid list \<Rightarrow> 'd OSMeshSDMemory \<Rightarrow> 'd OSMeshSDMemory res" where
  "OSMeshSDMemory_setReadConnections conns sm =
     rassert (length conns = sm_n_read_ports sm) (Inr (sm\<lparr>sm_read_connections := conns\<rparr>))"

definition OSMeshSDMemory_setLayer ::
  "DNNLayer \<Rightarrow> 'd list \<Rightarrow> 'd list \<Rightarrow> 'd list \<Rightarrow> Dataflow \<Rightarrow> 'd OSMeshSDMemory \<Rightarrow> 'd OSMeshSDMemory"
where
  "OSMeshSDMemory_setLayer layer MK_address KN_address output_address dataflow sm =
     sm\<lparr>sm_dnn_layer := Some layer, sm_output_address := output_address, sm_layer_loaded := True,
        sm_M := l_X layer, sm_K := l_S layer, sm_N := l_K layer,
        sm_stats := ss_dataflow_update (\<lambda>_. dataflow) (sm_stats sm),
        sm_MK_address := MK_address, sm_KN_address := KN_address,
        sm_output_size := umul (l_X layer) (l_K layer)\<rparr>"

text \<open>\<open>a / b + ((a % b) != 0)\<close>.\<close>

definition rceil_div :: "nat \<Rightarrow> nat \<Rightarrow> nat res" where
  "rceil_div a b = rbind (rdiv a b) (\<lambda>q. Inr (uadd q (if a mod b \<noteq> 0 then 1 else 0)))"

definition OSMeshSDMemory_setTile :: "Tile \<Rightarrow> 'd OSMeshSDMemory \<Rightarrow> 'd OSMeshSDMemory res" where
  "OSMeshSDMemory_setTile tile sm =
     (let sm = sm\<lparr>sm_T_M := T_Xo tile, sm_T_N := T_K tile, sm_T_K := 1\<rparr> in
      rbind (rceil_div (sm_M sm) (sm_T_M sm)) (\<lambda>iter_M.
      rbind (rceil_div (sm_N sm) (sm_T_N sm)) (\<lambda>iter_N.
      Inr (sm\<lparr>sm_iter_M := iter_M, sm_iter_K := sm_K sm, sm_iter_N := iter_N,
              sm_vnat_table := sm_vnat_table sm @ replicate (umul (sm_T_N sm) (sm_T_M sm)) 0\<rparr>))))"

definition OSMeshSDMemory_isExecutionFinished :: "'d OSMeshSDMemory \<Rightarrow> bool" where
  "OSMeshSDMemory_isExecutionFinished sm = sm_execution_finished sm"

definition OSMeshSDMemory_getCurrentState :: "'d OSMeshSDMemory \<Rightarrow> OSMeshControllerState" where
  "OSMeshSDMemory_getCurrentState sm = sm_current_state sm"

section \<open>Ports\<close>

definition OSMeshSDMemory_push_port ::
  "operand_t \<Rightarrow> nat \<Rightarrow> 'd DataPackage \<Rightarrow> 'd OSMeshSDMemory \<Rightarrow> 'd OSMeshSDMemory res" where
  "OSMeshSDMemory_push_port ty i pck sm =
     (if ty = PSUM then
        rbind (rnth (sm_psum_fifos sm) i) (\<lambda>q.
        Inr (sm\<lparr>sm_psum_fifos := (sm_psum_fifos sm)[i := Fifo_push pck q]\<rparr>))
      else
        rbind (rnth (sm_input_fifos sm) i) (\<lambda>q.
        Inr (sm\<lparr>sm_input_fifos := (sm_input_fifos sm)[i := Fifo_push pck q]\<rparr>)))"

text \<open>
  A package for multipliers anywhere in the array is divided over the ports: a broadcast goes to
  every port, a unicast to the port of its destination, a multicast to the ports that have a
  receiver, with the part of the destinations that belongs to the port.
\<close>

definition OSMeshSDMemory_sendPackageToInputFifos ::
  "'d DataPackage \<Rightarrow> 'd OSMeshSDMemory \<Rightarrow> 'd OSMeshSDMemory res" where
  "OSMeshSDMemory_sendPackageToInputFifos pck sm =
     (let ty = p_data_type pck; per = sm_ms_size_per_input_port sm;
          iter = (\<lambda>p. if ty = PSUM then p else DataPackage_setIterationK (p_iteration_k pck) p) in
      case p_traffic_type pck of
        BROADCAST \<Rightarrow>
          rfold (\<lambda>i. OSMeshSDMemory_push_port ty i
              (iter (DataPackage_traffic (p_size_package pck) (p_data pck) ty i BROADCAST)))
            [0..<sm_n_read_ports sm] sm
      | UNICAST \<Rightarrow>
          (let dest = p_unicast_dest pck in
           rbind (rdiv dest per) (\<lambda>input_port.
           rbind (DataPackage_unicast (p_size_package pck) (p_data pck) ty input_port UNICAST (dest mod per))
             (\<lambda>pck_new. OSMeshSDMemory_push_port ty input_port (iter pck_new) sm)))
      | MULTICAST \<Rightarrow>
          rfold (\<lambda>i sm.
            rderef (p_dests pck) (\<lambda>dest.
            rbind (rfold (\<lambda>j local_dest. rbind (rnth dest (umul i per + j)) (\<lambda>b. Inr (local_dest @ [b])))
                [0..<per] []) (\<lambda>local_dest.
            if True \<in> set local_dest then
              OSMeshSDMemory_push_port ty i
                (iter (DataPackage_multicast (p_size_package pck) (p_data pck) ty i MULTICAST local_dest per)) sm
            else Inr sm)))
            [0..<sm_n_read_ports sm] sm)"

text \<open>\<open>v[i]++\<close> on a vector of counters.\<close>

definition rinc :: "nat \<Rightarrow> counter list \<Rightarrow> counter list res" where
  "rinc i v = rbind (rnth v i) (\<lambda>k. rupd v i (k + 1))"

definition OSMeshSDMemory_send_port ::
  "nat \<Rightarrow> 'd OSMeshSDMemory \<times> 'd store \<Rightarrow> ('d OSMeshSDMemory \<times> 'd store) res" where
  "OSMeshSDMemory_send_port i = (\<lambda>(sm, st).
     rbind (rnth (sm_psum_fifos sm) i) (\<lambda>pq.
     rbind (rnth (sm_input_fifos sm) i) (\<lambda>iq.
     if \<not> Fifo_isEmpty pq then
       rbind (Fifo_pop pq) (\<lambda>(pck, pq).
       rbind (rinc i (ss_n_SRAM_read_ports_psums_use (sm_stats sm))) (\<lambda>v.
       rbind (rnth (sm_read_connections sm) i) (\<lambda>c.
       rbind (ptr_send (Some c) [pck] st) (\<lambda>st.
       Inr (sm\<lparr>sm_psum_fifos := (sm_psum_fifos sm)[i := pq],
               sm_stats := ss_n_SRAM_read_ports_psums_use_update (\<lambda>_. v) (sm_stats sm)\<rparr>, st)))))
     else if \<not> Fifo_isEmpty iq then
       rbind (Fifo_front iq) (\<lambda>(pck, iq).
       rbind (if p_data_type pck = WEIGHT then
           rbind (rinc i (ss_n_SRAM_read_ports_weights_use (sm_stats sm))) (\<lambda>v.
           Inr (ss_n_SRAM_read_ports_weights_use_update (\<lambda>_. v) (sm_stats sm)))
         else
           rbind (rinc i (ss_n_SRAM_read_ports_inputs_use (sm_stats sm))) (\<lambda>v.
           Inr (ss_n_SRAM_read_ports_inputs_use_update (\<lambda>_. v) (sm_stats sm)))) (\<lambda>stats.
       rbind (rnth (sm_read_connections sm) i) (\<lambda>c.
       rbind (ptr_send (Some c) [pck] st) (\<lambda>st.
       rbind (Fifo_pop iq) (\<lambda>(_, iq).
       Inr (sm\<lparr>sm_input_fifos := (sm_input_fifos sm)[i := iq], sm_stats := stats\<rparr>, st))))))
     else Inr (sm, st))))"

definition OSMeshSDMemory_send ::
  "'d OSMeshSDMemory \<times> 'd store \<Rightarrow> ('d OSMeshSDMemory \<times> 'd store) res" where
  "OSMeshSDMemory_send = (\<lambda>(sm, st). rfold OSMeshSDMemory_send_port [0..<sm_n_read_ports sm] (sm, st))"

definition OSMeshSDMemory_receive_from ::
  "cid option \<Rightarrow> 'd OSMeshSDMemory \<times> 'd store \<Rightarrow> ('d OSMeshSDMemory \<times> 'd store) res" where
  "OSMeshSDMemory_receive_from c = (\<lambda>(sm, st).
     rbind (ptr_pending c st) (\<lambda>b.
     if b then
       rbind (ptr_receive c st) (\<lambda>(data_received, st).
       Inr (sm\<lparr>sm_write_fifo := Fifo_push_all data_received (sm_write_fifo sm)\<rparr>, st))
     else Inr (sm, st)))"

definition OSMeshSDMemory_receive ::
  "'d OSMeshSDMemory \<times> 'd store \<Rightarrow> ('d OSMeshSDMemory \<times> 'd store) res" where
  "OSMeshSDMemory_receive = (\<lambda>(sm, st).
     rbind (OSMeshSDMemory_receive_from (sm_write_connection sm) (sm, st)) (\<lambda>(sm, st).
     rfold OSMeshSDMemory_receive_from (sm_write_port_connections sm) (sm, st)))"

section \<open>The cycle\<close>

text \<open>State \<open>OS_CONFIGURING\<close>: the part of the array for this tile, and the signals of both networks.\<close>

definition OSMeshSDMemory_configure ::
  "'d OSMeshSDMemory \<times> 'd OSMeshMN \<times> 'd TemporalRN \<Rightarrow> ('d OSMeshSDMemory \<times> 'd OSMeshMN \<times> 'd TemporalRN) res"
where
  "OSMeshSDMemory_configure = (\<lambda>(sm, mn, rn).
     let sm = sm\<lparr>sm_stats := ss_n_reconfigurations_update (\<lambda>n. n + 1) (sm_stats sm)\<rparr>;
         remaining_M = usub (sm_M sm) (umul (sm_current_M sm) (sm_T_M sm));
         remaining_N = usub (sm_N sm) (umul (sm_current_N sm) (sm_T_N sm));
         sm = sm\<lparr>sm_cols_used := (if remaining_N < sm_T_N sm then remaining_N else sm_T_N sm),
                 sm_rows_used := (if remaining_M < sm_T_M sm then remaining_M else sm_T_M sm)\<rparr>;
         tile1 = Tile_conv 1 1 1 (sm_cols_used sm) 1 1 (sm_rows_used sm) 1 False
     in
     rbind (OSMeshMN_resetSignals mn) (\<lambda>mn.
     let rn = TemporalRN_resetSignals rn in
     rderef (sm_dnn_layer sm) (\<lambda>layer.
     rbind (OSMeshMN_configureSignals tile1 layer (sm_ms_rows sm) (sm_ms_cols sm) mn) (\<lambda>mn.
     Inr (sm\<lparr>sm_iteration_completed := False\<rparr>, mn,
       TemporalRN_configureSignals tile1 layer (umul (sm_ms_rows sm) (sm_ms_cols sm)) (sm_iter_K sm) rn)))))"

text \<open>State \<open>OS_DIST_INPUTS\<close>: row \<open>current_K\<close> of the weights and column \<open>current_K\<close> of the inputs.\<close>

definition OSMeshSDMemory_send_weight :: "nat \<Rightarrow> 'd OSMeshSDMemory \<Rightarrow> 'd OSMeshSDMemory res" where
  "OSMeshSDMemory_send_weight i sm =
     (let index_N = umul (sm_current_N sm) (sm_T_N sm) in
      rbind (rnth (sm_KN_address sm) (uadd (umul (uadd index_N i) (sm_K sm)) (sm_current_K sm))) (\<lambda>d.
      rbind (DataPackage_unicast sizeof_data_t d WEIGHT 0 UNICAST i) (\<lambda>pck_to_send.
      OSMeshSDMemory_sendPackageToInputFifos pck_to_send
        (sm\<lparr>sm_stats := ss_n_SRAM_weight_reads_update (\<lambda>n. n + 1) (sm_stats sm)\<rparr>))))"

definition OSMeshSDMemory_send_input :: "nat \<Rightarrow> 'd OSMeshSDMemory \<Rightarrow> 'd OSMeshSDMemory res" where
  "OSMeshSDMemory_send_input i sm =
     (let index_M = umul (sm_current_M sm) (sm_T_M sm) in
      rbind (rnth (sm_MK_address sm) (uadd (umul (uadd index_M i) (sm_K sm)) (sm_current_K sm))) (\<lambda>d.
      rbind (DataPackage_unicast sizeof_data_t d IACTIVATION 0 UNICAST (uadd i (sm_ms_cols sm))) (\<lambda>pck_to_send.
      OSMeshSDMemory_sendPackageToInputFifos pck_to_send
        (sm\<lparr>sm_stats := ss_n_SRAM_input_reads_update (\<lambda>n. n + 1) (sm_stats sm)\<rparr>))))"

text \<open>The order of the tiles: \<open>K\<close> first, then \<open>N\<close>, then \<open>M\<close>.\<close>

definition OSMeshSDMemory_advance :: "'d OSMeshSDMemory \<Rightarrow> 'd OSMeshSDMemory" where
  "OSMeshSDMemory_advance sm =
     (let sm = sm\<lparr>sm_current_K := uadd (sm_current_K sm) 1\<rparr> in
      if sm_current_K sm = sm_iter_K sm then
        let sm = sm\<lparr>sm_current_K := 0, sm_current_N := uadd (sm_current_N sm) 1,
                    sm_iteration_completed := True\<rparr> in
        if sm_current_N sm = sm_iter_N sm then
          sm\<lparr>sm_current_N := 0, sm_current_M := uadd (sm_current_M sm) 1, sm_iteration_completed := True\<rparr>
        else sm
      else sm)"

definition OSMeshSDMemory_distribute :: "'d OSMeshSDMemory \<Rightarrow> 'd OSMeshSDMemory res" where
  "OSMeshSDMemory_distribute sm =
     rbind (rfold OSMeshSDMemory_send_weight [0..<sm_cols_used sm] sm) (\<lambda>sm.
     rbind (rfold OSMeshSDMemory_send_input [0..<sm_rows_used sm] sm) (\<lambda>sm.
     Inr (OSMeshSDMemory_advance sm)))"

text \<open>The counters of the whole output and of the tile after one more result.\<close>

definition OSMeshSDMemory_count_output :: "'d OSMeshSDMemory \<Rightarrow> 'd OSMeshSDMemory" where
  "OSMeshSDMemory_count_output sm =
     (let sm = sm\<lparr>sm_current_output := uadd (sm_current_output sm) 1\<rparr>
      in if sm_current_output sm = umul (sm_M sm) (sm_N sm)
         then sm\<lparr>sm_execution_finished := True\<rparr> else sm)"

definition OSMeshSDMemory_count_tile :: "'d OSMeshSDMemory \<Rightarrow> 'd OSMeshSDMemory" where
  "OSMeshSDMemory_count_tile sm =
     (let sm = sm\<lparr>sm_current_output_iteration := uadd (sm_current_output_iteration sm) 1\<rparr>
      in if sm_current_output_iteration sm = umul (sm_rows_used sm) (sm_cols_used sm) then
           let sm = sm\<lparr>sm_current_output_iteration := 0,
                       sm_n_iterations_completed := uadd (sm_n_iterations_completed sm) 1\<rparr>
           in if sm_current_state sm = OS_WAITING_FOR_NEXT_ITER
              then sm\<lparr>sm_iteration_completed := True\<rparr> else sm
         else sm)"

text \<open>One result: its address and the write to the output.\<close>

definition OSMeshSDMemory_write :: "'d OSMeshSDMemory \<Rightarrow> 'd OSMeshSDMemory res" where
  "OSMeshSDMemory_write sm =
     rbind (Fifo_pop (sm_write_fifo sm)) (\<lambda>(pck_received, q).
     let vn = p_VN pck_received in
     rbind (rdiv (sm_n_iterations_completed sm) (sm_iter_N sm)) (\<lambda>tile_M.
     rbind (rdiv vn (sm_cols_used sm)) (\<lambda>vn_M_pointer.
     let current_tile_M_pointer = umul tile_M (sm_T_M sm);
         current_tile_N_pointer = umul (sm_n_iterations_completed sm mod sm_iter_N sm) (sm_T_N sm);
         vn_N_pointer = vn mod sm_cols_used sm;
         addr_offset = uadd (uadd (umul (uadd current_tile_M_pointer vn_M_pointer) (sm_N sm))
           current_tile_N_pointer) vn_N_pointer in
     rbind (rnth (sm_vnat_table sm) vn) (\<lambda>k.
     rbind (rupd (sm_output_address sm) addr_offset (p_data pck_received)) (\<lambda>out.
     Inr (OSMeshSDMemory_count_tile (OSMeshSDMemory_count_output (sm\<lparr>sm_write_fifo := q,
       sm_stats := ss_n_SRAM_psum_writes_update (\<lambda>n. n + 1) (sm_stats sm),
       sm_vnat_table := (sm_vnat_table sm)[vn := uadd k 1], sm_output_address := out\<rparr>))))))))"

definition OSMeshSDMemory_transition :: "'d OSMeshSDMemory \<Rightarrow> 'd OSMeshSDMemory" where
  "OSMeshSDMemory_transition sm =
     (case sm_current_state sm of
        OS_CONFIGURING \<Rightarrow> sm\<lparr>sm_current_state := OS_DIST_INPUTS\<rparr>
      | OS_DIST_INPUTS \<Rightarrow>
          (if sm_iteration_completed sm then
             if sm_iter_M sm \<le> sm_current_M sm then sm\<lparr>sm_current_state := OS_ALL_DATA_SENT\<rparr>
             else sm\<lparr>sm_current_state := OS_WAITING_FOR_NEXT_ITER, sm_iteration_completed := False\<rparr>
           else sm)
      | OS_WAITING_FOR_NEXT_ITER \<Rightarrow>
          (if sm_iteration_completed sm then sm\<lparr>sm_current_state := OS_CONFIGURING\<rparr> else sm)
      | OS_ALL_DATA_SENT \<Rightarrow> sm)"

definition OSMeshSDMemory_cycle ::
  "'d OSMeshSDMemory \<times> 'd OSMeshMN \<times> 'd TemporalRN \<times> 'd store
   \<Rightarrow> ('d OSMeshSDMemory \<times> 'd OSMeshMN \<times> 'd TemporalRN \<times> 'd store) res" where
  "OSMeshSDMemory_cycle = (\<lambda>(sm, mn, rn, st).
     rassert (sm_layer_loaded sm)
     (let sm = sm\<lparr>sm_local_cycle := sm_local_cycle sm + 1,
                  sm_stats := ss_total_cycles_update (\<lambda>n. n + 1) (sm_stats sm)\<rparr> in
      rbind (if sm_current_state sm = OS_CONFIGURING then OSMeshSDMemory_configure (sm, mn, rn)
             else Inr (sm, mn, rn)) (\<lambda>(sm, mn, rn).
      rbind (if sm_current_state sm = OS_DIST_INPUTS then OSMeshSDMemory_distribute sm
             else Inr sm) (\<lambda>sm.
      rbind (OSMeshSDMemory_receive (sm, st)) (\<lambda>(sm, st).
      rbind (rfold (\<lambda>_. OSMeshSDMemory_write) [0..<length (f_fifo (sm_write_fifo sm))] sm) (\<lambda>sm.
      rbind (OSMeshSDMemory_send (OSMeshSDMemory_transition sm, st)) (\<lambda>(sm, st).
      Inr (sm, mn, rn, st))))))))"

end
