(* ===== verification/DistNet.thy ===== *)
theory DistNet
  imports Links
begin

text \<open>
  The distribution network: \<^verbatim>\<open>DSwitch.cpp\<close>, \<^verbatim>\<open>DSNetwork.cpp\<close>, \<^verbatim>\<open>DSNetworkTop.cpp\<close>. A tree of
  switches per read port routes packages from the memory to the multipliers below it. What one
  cycle of a tree does is stated in \<open>DistTree\<close>.
\<close>

section \<open>Powers of two\<close>

text \<open>\<open>x && !(x & (x - 1))\<close> on \<open>unsigned int\<close>.\<close>

definition ispowerof2 :: "nat \<Rightarrow> bool" where
  "ispowerof2 x \<longleftrightarrow> x \<noteq> 0 \<and> and x (usub x 1) = 0"

lemma and_pred_power: "x \<noteq> 0 \<Longrightarrow> and x (x - 1) = 0 \<Longrightarrow> \<exists>k. x = 2 ^ k" for x :: nat
proof (induction x rule: less_induct)
  case (less x)
  show ?case
  proof (cases "even x")
    case True
    then obtain y where y: "x = 2 * y" by blast
    with less.prems(1) have "0 < y" "y < x" by simp_all
    have "x - 1 = 2 * (y - 1) + 1" using y \<open>0 < y\<close> by simp
    then have "and x (x - 1) = 2 * and y (y - 1)" using y by (simp add: and_nat_rec [of "2 * y"])
    with less.prems(2) have "and y (y - 1) = 0" by simp
    with less.IH [OF \<open>y < x\<close>] \<open>0 < y\<close> obtain k where "y = 2 ^ k" by auto
    with y have "x = 2 ^ Suc k" by simp
    then show ?thesis ..
  next
    case False
    then obtain y where y: "x = 2 * y + 1" by (blast elim: oddE)
    then have "and x (x - 1) = 2 * y" by (simp add: and_nat_rec [of "Suc (2 * y)"])
    with less.prems(2) y have "x = 2 ^ 0" by simp
    then show ?thesis ..
  qed
qed

lemma ispowerof2_iff: "x < u32_max \<Longrightarrow> ispowerof2 x \<longleftrightarrow> (\<exists>k. x = 2 ^ k)"
proof
  assume "x < u32_max" "ispowerof2 x"
  then show "\<exists>k. x = 2 ^ k" using and_pred_power [of x] usub_small [of 1 x] by (simp add: ispowerof2_def)
next
  assume "x < u32_max" "\<exists>k. x = 2 ^ k"
  then obtain k where k: "x = 2 ^ k" by blast
  then have "usub x 1 = mask k" using \<open>x < u32_max\<close> by (simp add: usub_small mask_eq_exp_minus_1)
  then show "ispowerof2 x" by (simp add: k ispowerof2_def and_exp_eq_0_iff_not_bit bit_mask_iff and.commute [of "2 ^ k"])
qed
text \<open>
  \<open>int nlevels = log10(ms_size) / log10(2)\<close>, for the powers of two that pass the assertion before
  it: the truncated quotient is the exact logarithm for all of them.
\<close>

fun nlevels_of :: "nat \<Rightarrow> nat" where
  "nlevels_of n = (if n \<le> 1 then 0 else Suc (nlevels_of (n div 2)))"

declare nlevels_of.simps [simp del]

section \<open>A switch\<close>

record 'd DSwitch =
  dw_level :: nat
  dw_num_in_level :: nat
  dw_num_ms :: nat
  dw_pending_data :: bool
  dw_input_ports :: nat
  dw_output_ports :: nat
  dw_port_width :: nat
  dw_data :: "'d DataPackage list"
  dw_current_capacity :: nat
  dw_leftConnection :: "cid option"
  dw_rightConnection :: "cid option"
  dw_inputConnection :: "cid option"
  dw_latency :: nat
  dw_stats :: DSwitchStats

definition DSwitch_new :: "nat \<Rightarrow> nat \<Rightarrow> Config \<Rightarrow> nat \<Rightarrow> 'd DSwitch" where
  "DSwitch_new level num_in_level cfg ms_size =
     \<lparr>dw_level = level, dw_num_in_level = num_in_level, dw_num_ms = ms_size,
      dw_pending_data = False, dw_input_ports = dsc_input_ports (m_DSwitchCfg cfg),
      dw_output_ports = dsc_output_ports (m_DSwitchCfg cfg),
      dw_port_width = dsc_port_width (m_DSwitchCfg cfg), dw_data = [], dw_current_capacity = 0,
      dw_leftConnection = uninit, dw_rightConnection = uninit, dw_inputConnection = uninit,
      dw_latency = dsc_latency (m_DSwitchCfg cfg), dw_stats = DSwitchStats_reset\<rparr>"

definition DSwitch_setLeftConnection :: "cid option \<Rightarrow> 'd DSwitch \<Rightarrow> 'd DSwitch" where
  "DSwitch_setLeftConnection c dw = dw\<lparr>dw_leftConnection := c\<rparr>"

definition DSwitch_setRightConnection :: "cid option \<Rightarrow> 'd DSwitch \<Rightarrow> 'd DSwitch" where
  "DSwitch_setRightConnection c dw = dw\<lparr>dw_rightConnection := c\<rparr>"

definition DSwitch_setInputConnection :: "cid option \<Rightarrow> 'd DSwitch \<Rightarrow> 'd DSwitch" where
  "DSwitch_setInputConnection c dw = dw\<lparr>dw_inputConnection := c\<rparr>"

definition DSwitch_send ::
  "'d DataPackage list \<Rightarrow> cid option \<Rightarrow> 'd DSwitch \<Rightarrow> 'd store \<Rightarrow> 'd store res" where
  "DSwitch_send data_p c dw st = rassert (dw_pending_data dw) (ptr_send c data_p st)"

definition DSwitch_receive :: "'d DSwitch \<times> 'd store \<Rightarrow> ('d DSwitch \<times> 'd store) res" where
  "DSwitch_receive = (\<lambda>(dw, st).
     rbind (ptr_pending (dw_inputConnection dw) st) (\<lambda>b.
     if b then
       rbind (ptr_receive (dw_inputConnection dw) st) (\<lambda>(xs, st).
       Inr (dw\<lparr>dw_data := xs, dw_pending_data := True\<rparr>, st))
     else Inr (dw, st)))"

text \<open>A scan of \<open>dests\<close> at the given indices, up to the first one that is set.\<close>

fun dests_any :: "bool list \<Rightarrow> nat list \<Rightarrow> bool res" where
  "dests_any ds [] = Inr False"
| "dests_any ds (i # is) = rbind (rnth ds i) (\<lambda>b. if b then Inr True else dests_any ds is)"

text \<open>
  The side or sides a package leaves on. The middle of the range is \<open>first + (n - 1) / 2.0\<close>, which is exact,
  rounded to a \<open>float\<close>; here it is doubled, which rounds at the same place. The destination of a unicast is
  converted to \<open>float\<close> for the comparison.
\<close>

definition DSwitch_route_one :: "'d DSwitch \<Rightarrow> 'd DataPackage \<Rightarrow> (bool \<times> bool) res" where
  "DSwitch_route_one dw pck =
     (let n_ms_to_route = drop_bit (dw_level dw) (dw_num_ms dw);
          first_ms_to_route = umul (dw_num_in_level dw) n_ms_to_route;
          twice_half = f32_of_nat (2 * first_ms_to_route + usub n_ms_to_route 1) in
      case p_traffic_type pck of
        BROADCAST \<Rightarrow> Inr (True, True)
      | UNICAST \<Rightarrow> (if 2 * f32_of_nat (p_unicast_dest pck) < twice_half then Inr (True, False) else Inr (False, True))
      | MULTICAST \<Rightarrow>
          (let half_lim = twice_half div 2; last_ms_to_route = uadd first_ms_to_route n_ms_to_route in
           rderef (p_dests pck) (\<lambda>dests.
           rbind (dests_any dests [first_ms_to_route..<Suc half_lim]) (\<lambda>route_left.
           rbind (dests_any dests [Suc half_lim..<last_ms_to_route]) (\<lambda>route_right.
           Inr (route_left, route_right))))))"

definition DSwitch_route_package ::
  "'d DSwitch \<Rightarrow> 'd DataPackage \<Rightarrow> 'd DataPackage list \<times> 'd DataPackage list
   \<Rightarrow> ('d DataPackage list \<times> 'd DataPackage list) res" where
  "DSwitch_route_package dw pck = (\<lambda>(output_left, output_right).
     rbind (DSwitch_route_one dw pck) (\<lambda>(route_left, route_right).
     rbind (if route_left then rbind (DataPackage_copy pck) (\<lambda>p. Inr (output_left @ [p]))
            else Inr output_left) (\<lambda>output_left.
     rbind (if route_right then rbind (DataPackage_copy pck) (\<lambda>p. Inr (output_right @ [p]))
            else Inr output_right) (\<lambda>output_right.
     Inr (output_left, output_right)))))"

definition DSwitch_route_packages :: "'d DSwitch \<times> 'd store \<Rightarrow> ('d DSwitch \<times> 'd store) res" where
  "DSwitch_route_packages = (\<lambda>(dw, st).
     rbind (rfold (DSwitch_route_package dw) (dw_data dw) ([], [])) (\<lambda>(output_left, output_right).
     let dw = (if output_left \<noteq> [] \<and> output_right \<noteq> []
               then dw\<lparr>dw_stats := ds_n_broadcasts_update (\<lambda>n. n + 1) (dw_stats dw)\<rparr>
               else if output_left \<noteq> [] \<or> output_right \<noteq> []
               then dw\<lparr>dw_stats := ds_n_unicasts_update (\<lambda>n. n + 1) (dw_stats dw)\<rparr> else dw) in
     rbind (if output_left \<noteq> [] then
              rbind (DSwitch_send output_left (dw_leftConnection dw) dw st) (\<lambda>st.
              Inr (dw\<lparr>dw_stats := ds_n_left_sends_update (\<lambda>n. n + 1) (dw_stats dw)\<rparr>, st))
            else Inr (dw, st)) (\<lambda>(dw, st).
     rbind (if output_right \<noteq> [] then
              rbind (DSwitch_send output_right (dw_rightConnection dw) dw st) (\<lambda>st.
              Inr (dw\<lparr>dw_stats := ds_n_right_sends_update (\<lambda>n. n + 1) (dw_stats dw)\<rparr>, st))
            else Inr (dw, st)) (\<lambda>(dw, st).
     Inr (dw\<lparr>dw_pending_data := False\<rparr>, st)))))"

definition DSwitch_cycle :: "'d DSwitch \<times> 'd store \<Rightarrow> ('d DSwitch \<times> 'd store) res" where
  "DSwitch_cycle = (\<lambda>(dw, st).
     rbind (DSwitch_receive
       (dw\<lparr>dw_stats := ds_total_cycles_update (\<lambda>n. n + 1) (dw_stats dw)\<rparr>, st)) (\<lambda>(dw, st).
     if dw_pending_data dw then DSwitch_route_packages (dw, st) else Inr (dw, st)))"

section \<open>A tree\<close>

record 'd DSNetwork =
  dt_tree :: nat
  dt_ms_size :: nat
  dt_port_width :: nat
  dt_nlevels :: nat
  dt_dswitchtable :: "nat \<times> nat \<Rightarrow> 'd DSwitch option"
  dt_connectiontable :: "nat \<times> nat \<Rightarrow> cid option"
  dt_inputConnection :: "cid option"

text \<open>
  One switch of the constructor: created, connected to the output of the level above, and given
  two fresh output connections.
\<close>

definition DSNetwork_add_switch ::
  "Config \<Rightarrow> nat \<times> nat \<Rightarrow> 'd DSNetwork \<times> 'd store \<Rightarrow> 'd DSNetwork \<times> 'd store" where
  "DSNetwork_add_switch cfg = (\<lambda>(i, j) (dt, st).
     let dw = DSwitch_new i j cfg (dt_ms_size dt);
         dw = DSwitch_setInputConnection
                (if i = 0 then dt_inputConnection dt else dt_connectiontable dt (i - 1, j)) dw;
         l = DSLink (dt_tree dt) i (2 * j); r = DSLink (dt_tree dt) i (2 * j + 1);
         dw = DSwitch_setRightConnection (Some r) (DSwitch_setLeftConnection (Some l) dw)
     in (dt\<lparr>dt_dswitchtable := (dt_dswitchtable dt)((i, j) \<mapsto> dw),
            dt_connectiontable := (dt_connectiontable dt)((i, 2 * j) \<mapsto> l, (i, 2 * j + 1) \<mapsto> r)\<rparr>,
         st(l := Connection_new (dt_port_width dt), r := Connection_new (dt_port_width dt))))"

text \<open>The positions of the tree, from the root to the leaves and from left to right.\<close>

definition tree_positions :: "nat \<Rightarrow> (nat \<times> nat) list" where
  "tree_positions n = concat (map (\<lambda>i. map (Pair i) [0..<2 ^ i]) [0..<n])"

definition DSNetwork_new ::
  "nat \<Rightarrow> Config \<Rightarrow> nat \<Rightarrow> cid option \<Rightarrow> 'd store \<Rightarrow> ('d DSNetwork \<times> 'd store) res" where
  "DSNetwork_new tree cfg ms_size inputConnection st =
     rassert (ispowerof2 ms_size)
     (Inr (fold (DSNetwork_add_switch cfg) (tree_positions (nlevels_of ms_size))
        (\<lparr>dt_tree = tree, dt_ms_size = ms_size, dt_port_width = dsc_port_width (m_DSwitchCfg cfg),
          dt_nlevels = nlevels_of ms_size, dt_dswitchtable = Map.empty,
          dt_connectiontable = Map.empty, dt_inputConnection = inputConnection\<rparr>, st)))"

definition DSNetwork_getLastLevelConnections :: "'d DSNetwork \<Rightarrow> cid option list" where
  "DSNetwork_getLastLevelConnections dt =
     map (\<lambda>i. if 1 \<le> dt_nlevels dt then dt_connectiontable dt (dt_nlevels dt - 1, i)
              else dt_inputConnection dt) [0..<dt_ms_size dt]"

definition DSNetwork_cycle_switch ::
  "nat \<times> nat \<Rightarrow> 'd DSNetwork \<times> 'd store \<Rightarrow> ('d DSNetwork \<times> 'd store) res" where
  "DSNetwork_cycle_switch ij = (\<lambda>(dt, st).
     rderef (dt_dswitchtable dt ij) (\<lambda>dw.
     rbind (DSwitch_cycle (dw, st)) (\<lambda>(dw, st).
     Inr (dt\<lparr>dt_dswitchtable := (dt_dswitchtable dt)(ij \<mapsto> dw)\<rparr>, st))))"

definition DSNetwork_cycle :: "'d DSNetwork \<times> 'd store \<Rightarrow> ('d DSNetwork \<times> 'd store) res" where
  "DSNetwork_cycle = (\<lambda>(dt, st).
     rfold DSNetwork_cycle_switch (tree_positions (dt_nlevels dt)) (dt, st))"

section \<open>All trees\<close>

record 'd DSNetworkTop =
  dp_n_input_ports :: nat
  dp_ms_size_per_port :: nat
  dp_port_width :: nat
  dp_dsnetworks :: "'d DSNetwork list"
  dp_connections :: "cid list"

definition DSNetworkTop_add_tree ::
  "Config \<Rightarrow> nat \<Rightarrow> 'd DSNetworkTop \<times> 'd store \<Rightarrow> ('d DSNetworkTop \<times> 'd store) res" where
  "DSNetworkTop_add_tree cfg i = (\<lambda>(dp, st).
     rbind (DSNetwork_new i cfg (dp_ms_size_per_port dp) (Some (DSTop i))
              (st(DSTop i := Connection_new (dp_port_width dp)))) (\<lambda>(dt, st).
     Inr (dp\<lparr>dp_connections := dp_connections dp @ [DSTop i],
             dp_dsnetworks := dp_dsnetworks dp @ [dt]\<rparr>, st)))"

definition DSNetworkTop_new :: "Config \<Rightarrow> 'd store \<Rightarrow> ('d DSNetworkTop \<times> 'd store) res" where
  "DSNetworkTop_new cfg st =
     (let n = sdc_n_read_ports (m_SDMemoryCfg cfg); msn = m_MSNetworkCfg cfg in
      rbind (case msn_multiplier_network_type msn of
               LINEAR \<Rightarrow> rdiv (msn_ms_size msn) n
             | OS_MESH \<Rightarrow> rdiv (uadd (msn_ms_rows msn) (msn_ms_cols msn)) n) (\<lambda>per.
      rfold (DSNetworkTop_add_tree cfg) [0..<n]
        (\<lparr>dp_n_input_ports = n, dp_ms_size_per_port = per,
          dp_port_width = dsc_port_width (m_DSwitchCfg cfg), dp_dsnetworks = [],
          dp_connections = []\<rparr>, st)))"

text \<open>The global map from multipliers to the connections that feed them.\<close>

definition DSNetworkTop_getLastLevelConnections :: "'d DSNetworkTop \<Rightarrow> nat \<Rightarrow> cid option" where
  "DSNetworkTop_getLastLevelConnections dp =
     fold (\<lambda>(i, dt) m. fold (\<lambda>(j, c) m. m(i * dp_ms_size_per_port dp + j := c))
         (zip [0..<dp_ms_size_per_port dp] (DSNetwork_getLastLevelConnections dt)) m)
       (zip [0..<dp_n_input_ports dp] (dp_dsnetworks dp)) Map.empty"

definition DSNetworkTop_getTopConnections :: "'d DSNetworkTop \<Rightarrow> cid list" where
  "DSNetworkTop_getTopConnections dp = dp_connections dp"

definition DSNetworkTop_cycle :: "'d DSNetworkTop \<times> 'd store \<Rightarrow> ('d DSNetworkTop \<times> 'd store) res" where
  "DSNetworkTop_cycle = (\<lambda>(dp, st).
     rfold (\<lambda>i (dp, st).
        rbind (rnth (dp_dsnetworks dp) i) (\<lambda>dt.
        rbind (DSNetwork_cycle (dt, st)) (\<lambda>(dt, st).
        Inr (dp\<lparr>dp_dsnetworks := (dp_dsnetworks dp)[i := dt]\<rparr>, st))))
       [0..<dp_n_input_ports dp] (dp, st))"

end
