(* ===== verification/Bus.thy ===== *)
theory Bus
  imports Links "HOL-Library.Multiset"
begin

text \<open>
  The bus that collects results: \<^verbatim>\<open>CollectionBusLine.cpp\<close> and \<^verbatim>\<open>CollectionBus.cpp\<close>. A line
  buffers what arrives on its inputs and sends one package per cycle, taken from its inputs in
  round-robin order.

  The lemmas state that a line loses and invents nothing, that it sends whenever it holds
  something, that packages of one input leave in order, and that the input it serves is the first
  non-empty one in round-robin order.
\<close>

section \<open>A bus line\<close>

record 'd CollectionBusLine =
  bl_input_ports :: nat
  bl_input_connections :: "cid list"
  bl_input_fifos :: "'d Fifo list"
  bl_output_port :: "cid option"
  bl_next_input_selected :: nat
  bl_busID :: nat
  bl_stats :: CollectionBusLineStats

text \<open>
  The constructor allocates the output connection once per input and keeps the last one, so a line
  with no inputs has none.
\<close>

definition CollectionBusLine_new ::
  "nat \<Rightarrow> nat \<Rightarrow> nat \<Rightarrow> nat \<Rightarrow> 'd store \<Rightarrow> 'd CollectionBusLine \<times> 'd store" where
  "CollectionBusLine_new busID input_ports_bus_line connection_width fifo_size st =
     (let n = input_ports_bus_line; ins = map (BusIn busID) [0..<n] in
      (\<lparr>bl_input_ports = n, bl_input_connections = ins,
        bl_input_fifos = replicate n (Fifo_new fifo_size),
        bl_output_port = (if 0 < n then Some (BusOut busID) else None),
        bl_next_input_selected = 0, bl_busID = busID,
        bl_stats = \<lparr>bs_total_cycles = 0, bs_n_times_conflicts = 0, bs_n_conflicts_average = 0,
                    bs_n_sends = 0, bs_n_inputs_receive = replicate n 0\<rparr>\<rparr>,
       \<lambda>c. if c \<in> set ins \<or> (0 < n \<and> c = BusOut busID) then Connection_new connection_width else st c))"

definition CollectionBusLine_getInputPort :: "nat \<Rightarrow> 'd CollectionBusLine \<Rightarrow> cid res" where
  "CollectionBusLine_getInputPort inputID l = rnth (bl_input_connections l) inputID"

definition CollectionBusLine_receive_at ::
  "nat \<Rightarrow> 'd CollectionBusLine \<times> 'd store \<Rightarrow> ('d CollectionBusLine \<times> 'd store) res" where
  "CollectionBusLine_receive_at i = (\<lambda>(l, st).
     rbind (rnth (bl_input_connections l) i) (\<lambda>c.
     rbind (ptr_pending (Some c) st) (\<lambda>b.
     if b then
       rbind (ptr_receive (Some c) st) (\<lambda>(pck, st).
       rbind (rfold (\<lambda>p l.
           rbind (rnth (bs_n_inputs_receive (bl_stats l)) i) (\<lambda>k.
           rbind (rnth (bl_input_fifos l) i) (\<lambda>q.
           Inr (l\<lparr>bl_stats := bs_n_inputs_receive_update (\<lambda>v. v[i := k + 1]) (bl_stats l),
                  bl_input_fifos := (bl_input_fifos l)[i := Fifo_push p q]\<rparr>)))) pck l) (\<lambda>l.
       Inr (l, st)))
     else Inr (l, st))))"

definition CollectionBusLine_receive ::
  "'d CollectionBusLine \<times> 'd store \<Rightarrow> ('d CollectionBusLine \<times> 'd store) res" where
  "CollectionBusLine_receive = (\<lambda>(l, st).
     rfold CollectionBusLine_receive_at [0..<length (bl_input_connections l)] (l, st))"

text \<open>
  The selection loop; the first argument is the number of iterations left,
  \<open>input_fifos.size() - n_iters\<close>.
\<close>

fun CollectionBusLine_select ::
  "nat \<Rightarrow> 'd CollectionBusLine \<Rightarrow> ('d DataPackage list \<times> 'd CollectionBusLine) res" where
  "CollectionBusLine_select 0 l = Inr ([], l)"
| "CollectionBusLine_select (Suc k) l =
     rbind (rnth (bl_input_fifos l) (bl_next_input_selected l)) (\<lambda>q.
     let next = uadd (bl_next_input_selected l) 1 mod length (bl_input_fifos l) in
     if \<not> Fifo_isEmpty q then
       rbind (Fifo_pop q) (\<lambda>(pck, q).
       Inr ([DataPackage_setOutputPort (bl_busID l) pck],
         l\<lparr>bl_input_fifos := (bl_input_fifos l)[bl_next_input_selected l := q],
           bl_stats := bs_n_sends_update (\<lambda>n. n + 1) (bl_stats l),
           bl_next_input_selected := next\<rparr>))
     else CollectionBusLine_select k (l\<lparr>bl_next_input_selected := next\<rparr>))"

definition CollectionBusLine_cycle ::
  "'d CollectionBusLine \<times> 'd store \<Rightarrow> ('d CollectionBusLine \<times> 'd store) res" where
  "CollectionBusLine_cycle = (\<lambda>(l, st).
     let l = l\<lparr>bl_stats := bs_total_cycles_update (\<lambda>n. n + 1) (bl_stats l)\<rparr> in
     rbind (CollectionBusLine_receive (l, st)) (\<lambda>(l, st).
     let n_inputs_trying = length (filter (\<lambda>q. \<not> Fifo_isEmpty q) (bl_input_fifos l));
         l = l\<lparr>bl_stats := bs_n_conflicts_average_update (\<lambda>n. n + word_of_nat n_inputs_trying) (bl_stats l)\<rparr>;
         l = (if 1 < n_inputs_trying
              then l\<lparr>bl_stats := bs_n_times_conflicts_update (\<lambda>n. n + 1) (bl_stats l)\<rparr> else l)
     in
     rbind (CollectionBusLine_select (length (bl_input_fifos l)) l) (\<lambda>(data_to_send, l).
     if data_to_send \<noteq> [] then
       rbind (ptr_send (bl_output_port l) data_to_send st) (\<lambda>st. Inr (l, st))
     else Inr (l, st))))"

section \<open>The bus\<close>

record 'd Bus =
  bu_n_bus_lines :: nat
  bu_input_ports_bus_line :: nat
  bu_connection_width :: nat
  bu_fifo_size :: nat
  bu_collection_bus_lines :: "'d CollectionBusLine list"

definition Bus_new :: "Config \<Rightarrow> 'd store \<Rightarrow> ('d Bus \<times> 'd store) res" where
  "Bus_new cfg st =
     (let n = sdc_n_write_ports (m_SDMemoryCfg cfg); ms = msn_ms_size (m_MSNetworkCfg cfg);
          w = sdc_port_width (m_SDMemoryCfg cfg); fs = 100 in
      rbind (rdiv ms n) (\<lambda>d.
      let ports = uadd d (if ms mod n \<noteq> 0 then 1 else 0) in
      Inr (fold (\<lambda>i (b, st).
             let (l, st) = CollectionBusLine_new i ports w fs st
             in (b\<lparr>bu_collection_bus_lines := bu_collection_bus_lines b @ [l]\<rparr>, st)) [0..<n]
          (\<lparr>bu_n_bus_lines = n, bu_input_ports_bus_line = ports, bu_connection_width = w,
            bu_fifo_size = fs, bu_collection_bus_lines = []\<rparr>, st))))"

definition Bus_getInputConnections :: "'d Bus \<Rightarrow> cid list list res" where
  "Bus_getInputConnections b =
     rfold (\<lambda>i conns. rbind (rnth (bu_collection_bus_lines b) i) (\<lambda>l.
       Inr (conns @ [bl_input_connections l]))) [0..<bu_n_bus_lines b] []"

definition Bus_getInputConnectionFromBusLine :: "nat \<Rightarrow> nat \<Rightarrow> 'd Bus \<Rightarrow> cid res" where
  "Bus_getInputConnectionFromBusLine busID inputID b =
     rbind (rnth (bu_collection_bus_lines b) busID) (CollectionBusLine_getInputPort inputID)"

definition Bus_getOutputConnections :: "'d Bus \<Rightarrow> cid option list" where
  "Bus_getOutputConnections b = map bl_output_port (bu_collection_bus_lines b)"

definition Bus_cycle :: "'d Bus \<times> 'd store \<Rightarrow> ('d Bus \<times> 'd store) res" where
  "Bus_cycle = (\<lambda>(b, st).
     rfold (\<lambda>i (b, st).
        rbind (rnth (bu_collection_bus_lines b) i) (\<lambda>l.
        rbind (CollectionBusLine_cycle (l, st)) (\<lambda>(l, st).
        Inr (b\<lparr>bu_collection_bus_lines := (bu_collection_bus_lines b)[i := l]\<rparr>, st))))
       [0..<length (bu_collection_bus_lines b)] (b, st))"

section \<open>What a line holds\<close>

definition line_items :: "'d CollectionBusLine \<Rightarrow> 'd DataPackage multiset" where
  "line_items l = mset (concat (map f_fifo (bl_input_fifos l)))"

definition line_ok :: "nat \<Rightarrow> nat \<Rightarrow> 'd CollectionBusLine \<Rightarrow> bool" where
  "line_ok b n l \<longleftrightarrow> 0 < n \<and> n < u32_max \<and> bl_busID l = b
     \<and> bl_input_connections l = map (BusIn b) [0..<n] \<and> length (bl_input_fifos l) = n
     \<and> length (bs_n_inputs_receive (bl_stats l)) = n \<and> bl_output_port l = Some (BusOut b)
     \<and> bl_next_input_selected l < n"

lemma CollectionBusLine_new_ok:
  assumes "0 < n" and "n < u32_max"
  shows "line_ok b n (fst (CollectionBusLine_new b n w fs st))"
    and "line_items (fst (CollectionBusLine_new b n w fs st)) = {#}"
    and "x < n \<Longrightarrow> link (snd (CollectionBusLine_new b n w fs st)) (BusIn b x) []"
    and "link (snd (CollectionBusLine_new b n w fs st)) (BusOut b) []"
    and "(\<forall>x < n. c \<noteq> BusIn b x) \<Longrightarrow> c \<noteq> BusOut b \<Longrightarrow> snd (CollectionBusLine_new b n w fs st) c = st c"
proof -
  show "line_ok b n (fst (CollectionBusLine_new b n w fs st))"
    using assms by (simp add: CollectionBusLine_new_def line_ok_def Let_def)
  have "concat (map f_fifo (replicate n (Fifo_new fs))) = []" for n
    by (induction n) simp_all
  then show "line_items (fst (CollectionBusLine_new b n w fs st)) = {#}"
    by (simp add: CollectionBusLine_new_def line_items_def Let_def)
qed (use assms in \<open>auto simp: CollectionBusLine_new_def Let_def link_def in_flight_def2
    Connection_existPendingData_def Connection_new_def\<close>)

lemma push_loop:
  assumes "i < length (bl_input_fifos l)" and "i < length (bs_n_inputs_receive (bl_stats l))"
  shows "\<exists>l'. rfold (\<lambda>p l.
           rbind (rnth (bs_n_inputs_receive (bl_stats l)) i) (\<lambda>k.
           rbind (rnth (bl_input_fifos l) i) (\<lambda>q.
           Inr (l\<lparr>bl_stats := bs_n_inputs_receive_update (\<lambda>v. v[i := k + 1]) (bl_stats l),
                  bl_input_fifos := (bl_input_fifos l)[i := Fifo_push p q]\<rparr>)))) pck l = Inr l'
     \<and> (line_ok b n l \<longrightarrow> line_ok b n l') \<and> length (bl_input_fifos l') = length (bl_input_fifos l)
     \<and> length (bs_n_inputs_receive (bl_stats l')) = length (bs_n_inputs_receive (bl_stats l))
     \<and> bl_input_connections l' = bl_input_connections l
     \<and> bl_next_input_selected l' = bl_next_input_selected l
     \<and> map f_fifo (bl_input_fifos l') =
         (map f_fifo (bl_input_fifos l))[i := f_fifo (bl_input_fifos l ! i) @ pck]"
  using assms
proof (induction pck arbitrary: l)
  case Nil
  have "(map f_fifo (bl_input_fifos l))[i := f_fifo (bl_input_fifos l ! i)] = map f_fifo (bl_input_fifos l)"
    using Nil by (simp add: list_update_same_conv)
  then show ?case by simp
next
  case (Cons p ps)
  let ?l = "l\<lparr>bl_stats := bs_n_inputs_receive_update
        (\<lambda>v. v[i := bs_n_inputs_receive (bl_stats l) ! i + 1]) (bl_stats l),
      bl_input_fifos := (bl_input_fifos l)[i := Fifo_push p (bl_input_fifos l ! i)]\<rparr>"
  have "i < length (bl_input_fifos ?l)" "i < length (bs_n_inputs_receive (bl_stats ?l))"
    using Cons.prems by simp_all
  from Cons.IH [OF this] obtain l' where l': "rfold (\<lambda>p l.
           rbind (rnth (bs_n_inputs_receive (bl_stats l)) i) (\<lambda>k.
           rbind (rnth (bl_input_fifos l) i) (\<lambda>q.
           Inr (l\<lparr>bl_stats := bs_n_inputs_receive_update (\<lambda>v. v[i := k + 1]) (bl_stats l),
                  bl_input_fifos := (bl_input_fifos l)[i := Fifo_push p q]\<rparr>)))) ps ?l = Inr l'"
     "line_ok b n ?l \<longrightarrow> line_ok b n l'" "length (bl_input_fifos l') = length (bl_input_fifos ?l)"
     "length (bs_n_inputs_receive (bl_stats l')) = length (bs_n_inputs_receive (bl_stats ?l))"
     "bl_input_connections l' = bl_input_connections ?l"
     "bl_next_input_selected l' = bl_next_input_selected ?l"
     "map f_fifo (bl_input_fifos l') =
         (map f_fifo (bl_input_fifos ?l))[i := f_fifo (bl_input_fifos ?l ! i) @ ps]" by blast
  have "line_ok b n l \<Longrightarrow> line_ok b n ?l" by (simp add: line_ok_def)
  with l' Cons.prems show ?case
    by (intro exI [of _ l']) (simp add: map_update)
qed

text \<open>Receiving appends to every fifo what is on its link.\<close>

lemma CollectionBusLine_receive_ok:
  assumes l: "line_ok b n l" and links: "\<And>x. x < n \<Longrightarrow> link st (BusIn b x) (L x)"
  shows "\<exists>l' st'. CollectionBusLine_receive (l, st) = Inr (l', st') \<and> line_ok b n l'
     \<and> bl_next_input_selected l' = bl_next_input_selected l
     \<and> (\<forall>x < n. f_fifo (bl_input_fifos l' ! x) = f_fifo (bl_input_fifos l ! x) @ L x)
     \<and> (\<forall>x < n. link st' (BusIn b x) []) \<and> (\<forall>c. (\<forall>x < n. c \<noteq> BusIn b x) \<longrightarrow> st' c = st c)"
proof -
  define I where "I k s \<longleftrightarrow> (case s of (l', st') \<Rightarrow> line_ok b n l'
     \<and> bl_next_input_selected l' = bl_next_input_selected l
     \<and> (\<forall>x < n. f_fifo (bl_input_fifos l' ! x) =
           f_fifo (bl_input_fifos l ! x) @ (if x < k then L x else []))
     \<and> (\<forall>x < n. link st' (BusIn b x) (if x < k then [] else L x))
     \<and> (\<forall>c. (\<forall>x < n. c \<noteq> BusIn b x) \<longrightarrow> st' c = st c))"
    for k and s :: "'a CollectionBusLine \<times> 'a store"
  have "\<exists>s'. rfold CollectionBusLine_receive_at [0..<n] (l, st) = Inr s' \<and> I n s'"
  proof (rule rfold_upt_total)
    show "I 0 (l, st)" using l links by (simp add: I_def)
  next
    fix k s assume k: "k < n" and "I k s"
    then obtain l1 st1 where s: "s = (l1, st1)" and 1: "line_ok b n l1"
        "bl_next_input_selected l1 = bl_next_input_selected l"
        "\<And>x. x < n \<Longrightarrow> f_fifo (bl_input_fifos l1 ! x) =
           f_fifo (bl_input_fifos l ! x) @ (if x < k then L x else [])"
        "\<And>x. x < n \<Longrightarrow> link st1 (BusIn b x) (if x < k then [] else L x)"
        "\<And>c. \<forall>x < n. c \<noteq> BusIn b x \<Longrightarrow> st1 c = st c"
      by (cases s) (simp add: I_def)
    have conn: "bl_input_connections l1 ! k = BusIn b k" "length (bl_input_connections l1) = n"
        "length (bl_input_fifos l1) = n" "length (bs_n_inputs_receive (bl_stats l1)) = n"
      using 1(1) k by (simp_all add: line_ok_def)
    have Lk: "link st1 (BusIn b k) (L k)" using 1(4) [OF k] by simp
    show "\<exists>s'. CollectionBusLine_receive_at k s = Inr s' \<and> I (Suc k) s'"
    proof (cases "L k = []")
      case True
      then have "CollectionBusLine_receive_at k s = Inr (l1, st1)"
        using Lk k conn by (simp add: CollectionBusLine_receive_at_def s link_pend)
      moreover have "link st1 (BusIn b x) (if x < Suc k then [] else L x)" if "x < n" for x
        using 1(4) [OF that] True by (cases "x = k") (auto simp: less_Suc_eq)
      moreover have "f_fifo (bl_input_fifos l1 ! x) = f_fifo (bl_input_fifos l ! x) @ (if x < Suc k then L x else [])"
        if "x < n" for x
        using 1(3) [OF that] True by (auto simp: less_Suc_eq)
      ultimately have "CollectionBusLine_receive_at k s = Inr (l1, st1)" "I (Suc k) (l1, st1)"
        using 1(1,2,5) by (simp_all add: I_def)
      then show ?thesis by blast
    next
      case False
      let ?st = "st1(BusIn b k := snd (Connection_receive (st1 (BusIn b k))))"
      obtain l2 where l2: "rfold (\<lambda>p l.
           rbind (rnth (bs_n_inputs_receive (bl_stats l)) k) (\<lambda>z.
           rbind (rnth (bl_input_fifos l) k) (\<lambda>q.
           Inr (l\<lparr>bl_stats := bs_n_inputs_receive_update (\<lambda>v. v[k := z + 1]) (bl_stats l),
                  bl_input_fifos := (bl_input_fifos l)[k := Fifo_push p q]\<rparr>)))) (L k) l1 = Inr l2"
          "line_ok b n l2" "length (bl_input_fifos l2) = n"
          "bl_next_input_selected l2 = bl_next_input_selected l"
          "map f_fifo (bl_input_fifos l2) =
             (map f_fifo (bl_input_fifos l1))[k := f_fifo (bl_input_fifos l1 ! k) @ L k]"
        using push_loop [of k l1 "L k" b n] k conn 1(1,2) by auto
      have "CollectionBusLine_receive_at k s = Inr (l2, ?st)"
        using Lk k conn False l2(1)
        by (simp add: CollectionBusLine_receive_at_def s link_pend link_flight)
      moreover have "f_fifo (bl_input_fifos l2 ! x) = f_fifo (bl_input_fifos l ! x) @ (if x < Suc k then L x else [])"
        if "x < n" for x
      proof -
        have "f_fifo (bl_input_fifos l2 ! x) = map f_fifo (bl_input_fifos l2) ! x"
          using that l2(3) by simp
        also have "\<dots> = (if x = k then f_fifo (bl_input_fifos l1 ! k) @ L k else f_fifo (bl_input_fifos l1 ! x))"
          using that k conn(3) unfolding l2(5) by (simp add: nth_list_update)
        finally show ?thesis using 1(3) [OF that] by auto
      qed
      moreover have "link ?st (BusIn b x) (if x < Suc k then [] else L x)" if "x < n" for x
        using 1(4) [OF that] by (cases "x = k") auto
      moreover have "?st c = st c" if "\<forall>x < n. c \<noteq> BusIn b x" for c
        using 1(5) [OF that] that k by simp
      ultimately show ?thesis using l2(2,4) by (simp add: I_def)
    qed
  qed
  moreover have "length (bl_input_connections l) = n" using l by (simp add: line_ok_def)
  ultimately show ?thesis by (auto simp: CollectionBusLine_receive_def I_def)
qed

text \<open>
  The selection: the first non-empty fifo at or after \<open>next_input_selected\<close>, cyclically, is
  served; its distance is the number of empty fifos before it.
\<close>

lemma line_ok_next:
  "line_ok b n l \<Longrightarrow> line_ok b n (l\<lparr>bl_next_input_selected := Suc (bl_next_input_selected l) mod n\<rparr>)"
  by (simp add: line_ok_def)

lemma line_next:
  "line_ok b n l \<Longrightarrow>
    uadd (bl_next_input_selected l) 1 mod length (bl_input_fifos l) = Suc (bl_next_input_selected l) mod n"
  by (simp add: line_ok_def u32_simps)

text \<open>An empty fifo is skipped.\<close>

lemma select_skip:
  assumes "line_ok b n l" and "f_fifo (bl_input_fifos l ! bl_next_input_selected l) = []"
  shows "CollectionBusLine_select (Suc k) l =
    CollectionBusLine_select k (l\<lparr>bl_next_input_selected := Suc (bl_next_input_selected l) mod n\<rparr>)"
  using assms line_next [OF assms(1)] by (simp add: line_ok_def)

lemma CollectionBusLine_select_none:
  assumes "line_ok b n l" and "k \<le> n"
    and "\<forall>d < k. f_fifo (bl_input_fifos l ! ((bl_next_input_selected l + d) mod n)) = []"
  shows "\<exists>l'. CollectionBusLine_select k l = Inr ([], l') \<and> line_ok b n l' \<and> bl_input_fifos l' = bl_input_fifos l"
  using assms
proof (induction k arbitrary: l)
  case 0
  then show ?case by simp
next
  case (Suc k)
  let ?x = "bl_next_input_selected l"
  let ?l = "l\<lparr>bl_next_input_selected := Suc ?x mod n\<rparr>"
  have nx: "?x < n" using Suc.prems(1) by (simp add: line_ok_def)
  have "f_fifo (bl_input_fifos l ! ?x) = []" using Suc.prems(3) [rule_format, of 0] nx by simp
  note select_skip [OF Suc.prems(1) this, of k]
  moreover have "\<forall>d < k. f_fifo (bl_input_fifos ?l ! ((bl_next_input_selected ?l + d) mod n)) = []"
    using Suc.prems(3) [rule_format, of "Suc d" for d] by (simp add: mod_simps)
  moreover have "k \<le> n" using Suc.prems(2) by simp
  ultimately show ?case
    using Suc.IH [of ?l] line_ok_next [OF Suc.prems(1)] by simp
qed

lemma CollectionBusLine_select_ok:
  assumes "line_ok b n l" and "d < k" and "k \<le> n"
    and "f_fifo (bl_input_fifos l ! ((bl_next_input_selected l + d) mod n)) = p # ps"
    and "\<forall>e < d. f_fifo (bl_input_fifos l ! ((bl_next_input_selected l + e) mod n)) = []"
  shows "\<exists>l' q'. CollectionBusLine_select k l = Inr ([DataPackage_setOutputPort b p], l') \<and> line_ok b n l'
        \<and> bl_input_fifos l' = (bl_input_fifos l)[(bl_next_input_selected l + d) mod n := q']
        \<and> f_fifo q' = ps \<and> bl_next_input_selected l' = Suc (bl_next_input_selected l + d) mod n"
  using assms
proof (induction k arbitrary: l d)
  case 0
  then show ?case by simp
next
  case (Suc k)
  let ?x = "bl_next_input_selected l"
  let ?l = "l\<lparr>bl_next_input_selected := Suc ?x mod n\<rparr>"
  have nx: "?x < n" "length (bl_input_fifos l) = n" "bl_busID l = b"
    using Suc.prems(1) by (simp_all add: line_ok_def)
  show ?case
  proof (cases d)
    case 0
    with Suc.prems nx line_next [OF Suc.prems(1)] show ?thesis
      by (simp add: Fifo_pop_ok Let_def line_ok_def) (rule exI, rule conjI [OF refl], simp)
  next
    case (Suc e)
    have "f_fifo (bl_input_fifos l ! ?x) = []" using Suc.prems(5) [rule_format, of 0] Suc nx by simp
    note select_skip [OF Suc.prems(1) this, of k]
    moreover have "\<exists>l' q'. CollectionBusLine_select k ?l = Inr ([DataPackage_setOutputPort b p], l')
        \<and> line_ok b n l' \<and> bl_input_fifos l' = (bl_input_fifos ?l)[(bl_next_input_selected ?l + e) mod n := q']
        \<and> f_fifo q' = ps \<and> bl_next_input_selected l' = Suc (bl_next_input_selected ?l + e) mod n"
    proof (rule Suc.IH)
      show "line_ok b n ?l" by (rule line_ok_next [OF Suc.prems(1)])
      show "e < k" "k \<le> n" using Suc.prems(2,3) Suc by simp_all
      show "f_fifo (bl_input_fifos ?l ! ((bl_next_input_selected ?l + e) mod n)) = p # ps"
        using Suc.prems(4) Suc by (simp add: mod_simps)
      show "\<forall>d < e. f_fifo (bl_input_fifos ?l ! ((bl_next_input_selected ?l + d) mod n)) = []"
        using Suc.prems(5) [rule_format, of "Suc d" for d] Suc by (simp add: mod_simps)
    qed
    moreover have "Suc (Suc ?x mod n + e) mod n = Suc (Suc (?x + e)) mod n"
      using mod_add_left_eq [of "Suc ?x" n "Suc e"] by simp
    ultimately show ?thesis using Suc by (simp add: mod_simps)
  qed
qed

text \<open>The distance of the first non-empty fifo.\<close>

lemma first_nonempty:
  fixes n s :: nat
  assumes "0 < n" and "\<exists>x < n. \<not> E x" and "s < n"
  shows "\<exists>d < n. \<not> E ((s + d) mod n) \<and> (\<forall>e < d. E ((s + e) mod n))"
proof -
  from assms(2) obtain x where x: "x < n" "\<not> E x" by blast
  define d0 where "d0 = (x + n - s) mod n"
  have "(s + d0) mod n = (s + (x + n - s)) mod n" by (simp add: d0_def mod_simps)
  also have "s + (x + n - s) = x + n" using assms(3) by simp
  also have "(x + n) mod n = x" using x(1) by simp
  finally have "\<not> E ((s + d0) mod n)" using x(2) by simp
  then obtain d where d: "\<not> E ((s + d) mod n)" "\<forall>e < d. E ((s + e) mod n)" "d \<le> d0"
    using LeastI [of "\<lambda>d. \<not> E ((s + d) mod n)" d0] Least_le [of "\<lambda>d. \<not> E ((s + d) mod n)" d0]
      not_less_Least [of _ "\<lambda>d. \<not> E ((s + d) mod n)"] by blast
  moreover have "d0 < n" using assms(1) by (simp add: d0_def)
  ultimately show ?thesis by (meson le_less_trans)
qed

text \<open>The contents of the fifos as a list of lists.\<close>

definition line_queues :: "'d CollectionBusLine \<Rightarrow> 'd DataPackage list list" where
  "line_queues l = map f_fifo (bl_input_fifos l)"

text \<open>
  One cycle of a line: \<open>qs\<close> are the queues with the arrivals appended. If all are empty nothing is
  sent; otherwise the first non-empty queue from \<open>next_input_selected\<close> on loses its head, which is
  sent with the number of the line, and the round starts behind it.
\<close>

lemma CollectionBusLine_cycle_ok:
  assumes l: "line_ok b n l" and links: "\<And>x. x < n \<Longrightarrow> link st (BusIn b x) (L x)"
    and qs: "length qs = n" "\<And>x. x < n \<Longrightarrow> qs ! x = f_fifo (bl_input_fifos l ! x) @ L x"
    and out: "link st (BusOut b) []"
  shows "\<exists>l' st'. CollectionBusLine_cycle (l, st) = Inr (l', st') \<and> line_ok b n l'
     \<and> (\<forall>x < n. link st' (BusIn b x) [])
     \<and> (\<forall>c. (\<forall>x < n. c \<noteq> BusIn b x) \<longrightarrow> c \<noteq> BusOut b \<longrightarrow> st' c = st c)
     \<and> (if \<forall>x < n. qs ! x = [] then line_queues l' = qs \<and> link st' (BusOut b) []
        else \<exists>d < n. let x = (bl_next_input_selected l + d) mod n in
             qs ! x \<noteq> [] \<and> (\<forall>e < d. qs ! ((bl_next_input_selected l + e) mod n) = [])
             \<and> line_queues l' = qs[x := tl (qs ! x)]
             \<and> link st' (BusOut b) [DataPackage_setOutputPort b (hd (qs ! x))]
             \<and> bl_next_input_selected l' = Suc x mod n)"
proof -
  let ?l = "l\<lparr>bl_stats := bs_total_cycles_update (\<lambda>n. n + 1) (bl_stats l)\<rparr>"
  have l0: "line_ok b n ?l" using l by (simp add: line_ok_def)
  from CollectionBusLine_receive_ok [OF l0 links] obtain l1 st1 where 1:
    "CollectionBusLine_receive (?l, st) = Inr (l1, st1)" "line_ok b n l1"
    "bl_next_input_selected l1 = bl_next_input_selected l"
    "\<forall>x < n. f_fifo (bl_input_fifos l1 ! x) = qs ! x"
    "\<forall>x < n. link st1 (BusIn b x) []" "\<forall>c. (\<forall>x < n. c \<noteq> BusIn b x) \<longrightarrow> st1 c = st c"
    using qs(2) by auto
  define l2 where "l2 = (let n_inputs_trying = length (filter (\<lambda>q. \<not> Fifo_isEmpty q) (bl_input_fifos l1));
         l = l1\<lparr>bl_stats := bs_n_conflicts_average_update (\<lambda>n. n + word_of_nat n_inputs_trying) (bl_stats l1)\<rparr>
     in if 1 < n_inputs_trying
              then l\<lparr>bl_stats := bs_n_times_conflicts_update (\<lambda>n. n + 1) (bl_stats l)\<rparr> else l)"
  have 2: "line_ok b n l2" "bl_next_input_selected l2 = bl_next_input_selected l"
      "bl_input_fifos l2 = bl_input_fifos l1"
    using 1(2,3) by (simp_all add: l2_def line_ok_def Let_def)
  have len: "length (bl_input_fifos l2) = n" "bl_next_input_selected l < n" "0 < n"
    using 2 l by (simp_all add: line_ok_def)
  have cyc: "CollectionBusLine_cycle (l, st) = rbind (CollectionBusLine_select n l2) (\<lambda>(data_to_send, l).
     if data_to_send \<noteq> [] then rbind (ptr_send (bl_output_port l) data_to_send st1) (\<lambda>st. Inr (l, st))
     else Inr (l, st1))"
    using 1(1) len(1) 2(3) by (simp add: CollectionBusLine_cycle_def l2_def Let_def)
  have out1: "link st1 (BusOut b) []" using 1(6) out by (simp add: link_def)
  have m: "map f_fifo (bl_input_fifos l2) = qs"
    using 1(4) len(1) qs(1) 2(3) by (intro nth_equalityI) simp_all
  show ?thesis
  proof (cases "\<forall>x < n. qs ! x = []")
    case True
    then have "\<forall>d < n. f_fifo (bl_input_fifos l2 ! ((bl_next_input_selected l2 + d) mod n)) = []"
      using 1(4) 2(3) len(3) by simp
    from CollectionBusLine_select_none [OF 2(1) order_refl this] obtain l3 where
      "CollectionBusLine_select n l2 = Inr ([], l3)" "line_ok b n l3" "bl_input_fifos l3 = bl_input_fifos l2"
      by blast
    with True cyc m out1 1(5,6) show ?thesis
      by (intro exI [of _ l3] exI [of _ st1]) (simp add: line_queues_def)
  next
    case False
    then obtain d where d: "d < n" "qs ! ((bl_next_input_selected l + d) mod n) \<noteq> []"
        "\<forall>e < d. qs ! ((bl_next_input_selected l + e) mod n) = []"
      using first_nonempty [OF len(3) _ len(2), of "\<lambda>x. qs ! x = []"] by auto
    define x where "x = (bl_next_input_selected l + d) mod n"
    have x: "x < n" using len(3) by (simp add: x_def)
    have hd: "f_fifo (bl_input_fifos l2 ! ((bl_next_input_selected l2 + d) mod n)) = hd (qs ! x) # tl (qs ! x)"
      using d(2) 1(4) x 2(2,3) by (simp add: x_def)
    have em: "\<forall>e < d. f_fifo (bl_input_fifos l2 ! ((bl_next_input_selected l2 + e) mod n)) = []"
      using d(3) 1(4) len(3) 2(2,3) by simp
    from CollectionBusLine_select_ok [OF 2(1) d(1) order_refl hd em] obtain l3 q' where 3:
      "CollectionBusLine_select n l2 = Inr ([DataPackage_setOutputPort b (hd (qs ! x))], l3)" "line_ok b n l3"
      "bl_input_fifos l3 = (bl_input_fifos l2)[x := q']" "f_fifo q' = tl (qs ! x)"
      "bl_next_input_selected l3 = Suc (bl_next_input_selected l + d) mod n"
      using 2(2) by (auto simp: x_def)
    let ?st = "st1(BusOut b := Connection_send [DataPackage_setOutputPort b (hd (qs ! x))] (st1 (BusOut b)))"
    have "bl_output_port l3 = Some (BusOut b)" using 3(2) by (simp add: line_ok_def)
    then have c: "CollectionBusLine_cycle (l, st) = Inr (l3, ?st)" using cyc 3(1) by simp
    have "line_queues l3 = qs[x := tl (qs ! x)]"
      using 3(3,4) m by (simp add: line_queues_def map_update)
    moreover have "bl_next_input_selected l3 = Suc x mod n" using 3(5) by (simp add: x_def mod_simps)
    ultimately have "let x = (bl_next_input_selected l + d) mod n in
             qs ! x \<noteq> [] \<and> (\<forall>e < d. qs ! ((bl_next_input_selected l + e) mod n) = [])
             \<and> line_queues l3 = qs[x := tl (qs ! x)]
             \<and> link ?st (BusOut b) [DataPackage_setOutputPort b (hd (qs ! x))]
             \<and> bl_next_input_selected l3 = Suc x mod n"
      using d by (simp add: Let_def x_def)
    with d(1) have "\<exists>d < n. let x = (bl_next_input_selected l + d) mod n in
             qs ! x \<noteq> [] \<and> (\<forall>e < d. qs ! ((bl_next_input_selected l + e) mod n) = [])
             \<and> line_queues l3 = qs[x := tl (qs ! x)]
             \<and> link ?st (BusOut b) [DataPackage_setOutputPort b (hd (qs ! x))]
             \<and> bl_next_input_selected l3 = Suc x mod n" by blast
    moreover have "\<forall>x < n. link ?st (BusIn b x) []" using 1(5) by simp
    moreover have "\<forall>c. (\<forall>x < n. c \<noteq> BusIn b x) \<longrightarrow> c \<noteq> BusOut b \<longrightarrow> ?st c = st c" using 1(6) by simp
    ultimately show ?thesis
      using False c 3(2) by (intro exI [of _ l3] exI [of _ ?st]) (simp only: if_False simp_thms)
  qed
qed

text \<open>The same as a relation between the queues before, the queues after and what is sent.\<close>

definition line_step ::
  "nat \<Rightarrow> nat \<Rightarrow> nat \<Rightarrow> 'd DataPackage list list \<Rightarrow> 'd DataPackage list list \<Rightarrow> nat \<Rightarrow> 'd DataPackage list \<Rightarrow> bool"
where
  "line_step b n next qs qs' next' sent \<longleftrightarrow>
     (if \<forall>x < n. qs ! x = [] then qs' = qs \<and> sent = []
      else \<exists>d < n. let x = (next + d) mod n in
             qs ! x \<noteq> [] \<and> (\<forall>e < d. qs ! ((next + e) mod n) = []) \<and> qs' = qs[x := tl (qs ! x)]
             \<and> sent = [DataPackage_setOutputPort b (hd (qs ! x))] \<and> next' = Suc x mod n)"

lemma CollectionBusLine_cycle_step:
  assumes "line_ok b n l" and "\<And>x. x < n \<Longrightarrow> link st (BusIn b x) (L x)"
    and "qs = map (\<lambda>x. line_queues l ! x @ L x) [0..<n]" and "link st (BusOut b) []"
  shows "\<exists>l' st' sent. CollectionBusLine_cycle (l, st) = Inr (l', st') \<and> line_ok b n l'
     \<and> line_step b n (bl_next_input_selected l) qs (line_queues l') (bl_next_input_selected l') sent
     \<and> (\<forall>x < n. link st' (BusIn b x) []) \<and> link st' (BusOut b) sent
     \<and> (\<forall>c. (\<forall>x < n. c \<noteq> BusIn b x) \<longrightarrow> c \<noteq> BusOut b \<longrightarrow> st' c = st c)"
proof -
  have n: "length (bl_input_fifos l) = n" using assms(1) by (simp add: line_ok_def)
  have qs: "length qs = n" "\<And>x. x < n \<Longrightarrow> qs ! x = f_fifo (bl_input_fifos l ! x) @ L x"
    using n by (simp_all add: assms(3) line_queues_def)
  from CollectionBusLine_cycle_ok [OF assms(1,2) qs assms(4)] obtain l' st' where
    1: "CollectionBusLine_cycle (l, st) = Inr (l', st')" "line_ok b n l'" "\<forall>x < n. link st' (BusIn b x) []"
      "\<forall>c. (\<forall>x < n. c \<noteq> BusIn b x) \<longrightarrow> c \<noteq> BusOut b \<longrightarrow> st' c = st c"
    and 2: "if \<forall>x < n. qs ! x = [] then line_queues l' = qs \<and> link st' (BusOut b) []
        else \<exists>d < n. let x = (bl_next_input_selected l + d) mod n in
             qs ! x \<noteq> [] \<and> (\<forall>e < d. qs ! ((bl_next_input_selected l + e) mod n) = [])
             \<and> line_queues l' = qs[x := tl (qs ! x)]
             \<and> link st' (BusOut b) [DataPackage_setOutputPort b (hd (qs ! x))]
             \<and> bl_next_input_selected l' = Suc x mod n"
    by blast
  from 2 have "\<exists>sent. line_step b n (bl_next_input_selected l) qs (line_queues l') (bl_next_input_selected l') sent
      \<and> link st' (BusOut b) sent"
    unfolding line_step_def Let_def by (cases "\<forall>x < n. qs ! x = []") (simp, metis)
  with 1 show ?thesis by blast
qed

text \<open>Nothing is lost or invented: what was there is what is left and what was sent.\<close>

lemma mset_concat_upt: "mset (concat (map f [0..<n])) = (\<Sum>x < n. mset (f x))"
  by (induction n) simp_all

lemma mset_concat_nth: "length xs = n \<Longrightarrow> mset (concat xs) = (\<Sum>x < n. mset (xs ! x))"
  using mset_concat_upt [of "\<lambda>x. xs ! x" n] map_nth [of xs] by metis

lemma mset_concat_update:
  "x < length qs \<Longrightarrow> qs ! x = p # ps \<Longrightarrow> mset (concat qs) = add_mset p (mset (concat (qs[x := ps])))"
proof (induction qs arbitrary: x)
  case Nil
  then show ?case by simp
next
  case (Cons q qs)
  then show ?case by (cases x) simp_all
qed

lemma line_step_conserves:
  assumes "line_step b n next qs qs' next' sent" and "length qs = n" and "0 < n"
  shows "\<exists>ps. sent = map (DataPackage_setOutputPort b) ps \<and> length ps \<le> 1
     \<and> mset (concat qs) = mset (concat qs') + mset ps \<and> (ps = [] \<longrightarrow> concat qs = []) \<and> length qs' = n"
proof (cases "\<forall>x < n. qs ! x = []")
  case True
  with assms have "qs' = qs" "sent = []" by (simp_all add: line_step_def)
  moreover have "concat qs = []" using True assms(2) by (auto simp: in_set_conv_nth)
  ultimately show ?thesis using assms(2) by simp
next
  case False
  with assms(1) obtain d where d: "let x = (next + d) mod n in
             qs ! x \<noteq> [] \<and> (\<forall>e < d. qs ! ((next + e) mod n) = []) \<and> qs' = qs[x := tl (qs ! x)]
             \<and> sent = [DataPackage_setOutputPort b (hd (qs ! x))] \<and> next' = Suc x mod n"
    unfolding line_step_def by auto
  define x where "x = (next + d) mod n"
  have x: "x < length qs" using assms(2,3) by (simp add: x_def)
  have "qs ! x = hd (qs ! x) # tl (qs ! x)" "qs' = qs[x := tl (qs ! x)]"
    "sent = [DataPackage_setOutputPort b (hd (qs ! x))]"
    using d by (simp_all add: Let_def x_def)
  with mset_concat_update [OF x] assms(2) show ?thesis
    by (intro exI [of _ "[hd (qs ! x)]"]) auto
qed

text \<open>
  Fairness: the cyclic distance from the round-robin pointer to a waiting input shrinks with every
  package another input sends, so an input waits for at most \<open>n - 1\<close> others.
\<close>

definition rr_rank :: "nat \<Rightarrow> nat \<Rightarrow> nat \<Rightarrow> nat" where
  "rr_rank n next x = (x + n - next) mod n"

lemma rr_rank_unique:
  assumes "y < n" and "r < n"
  shows "rr_rank n y ((y + r) mod n) = r"
proof (cases "y + r < n")
  case True
  then have "(y + r) mod n + n - y = r + n" using assms by simp
  with assms show ?thesis by (simp add: rr_rank_def)
next
  case False
  then have "(y + r) mod n = y + r - n" using assms by (simp add: mod_if)
  with False assms have "(y + r) mod n + n - y = r" by simp
  with assms show ?thesis by (simp add: rr_rank_def)
qed

lemma rr_rank_step:
  assumes n: "next < n" "x < n" "d < n" and le: "d \<le> rr_rank n next x" and ne: "x \<noteq> (next + d) mod n"
  shows "rr_rank n (Suc ((next + d) mod n) mod n) x < rr_rank n next x"
proof -
  let ?r = "rr_rank n next x"
  have x: "x = (next + ?r) mod n"
  proof -
    have "(next + ?r) mod n = (next + (x + n - next)) mod n" by (simp add: rr_rank_def mod_simps)
    also have "next + (x + n - next) = x + n" using n by simp
    finally show ?thesis using n by simp
  qed
  have r: "?r < n" using n by (simp add: rr_rank_def)
  have "d \<noteq> ?r" using ne x by metis
  then have d: "d < ?r" using le by simp
  have nx: "Suc ((next + d) mod n) mod n = (next + Suc d) mod n" by (simp add: mod_simps)
  define y where "y = (next + Suc d) mod n"
  have y: "y < n" using n by (simp add: y_def)
  have "(y + (?r - Suc d)) mod n = (next + Suc d + (?r - Suc d)) mod n"
    unfolding y_def by (simp only: mod_add_left_eq)
  also have "next + Suc d + (?r - Suc d) = next + ?r" using d by simp
  finally have xy: "(y + (?r - Suc d)) mod n = x" using x by simp
  have "rr_rank n y x = ?r - Suc d"
    using rr_rank_unique [OF y, of "?r - Suc d"] r xy by simp
  then show ?thesis unfolding nx y_def [symmetric] using d by simp
qed

lemma line_step_fair:
  assumes "line_step b n next qs qs' next' sent" and "next < n" and x: "x < n" "qs ! x \<noteq> []"
    and "length qs = n"
  shows "sent = [DataPackage_setOutputPort b (hd (qs ! x))] \<and> qs' = qs[x := tl (qs ! x)]
    \<or> qs' ! x = qs ! x \<and> rr_rank n next' x < rr_rank n next x"
proof -
  from assms(1) x obtain d where d: "d < n" "let y = (next + d) mod n in
             qs ! y \<noteq> [] \<and> (\<forall>e < d. qs ! ((next + e) mod n) = []) \<and> qs' = qs[y := tl (qs ! y)]
             \<and> sent = [DataPackage_setOutputPort b (hd (qs ! y))] \<and> next' = Suc y mod n"
    unfolding line_step_def by meson
  define y where "y = (next + d) mod n"
  have y: "\<forall>e < d. qs ! ((next + e) mod n) = []" "qs' = qs[y := tl (qs ! y)]"
      "sent = [DataPackage_setOutputPort b (hd (qs ! y))]" "next' = Suc y mod n"
    using d(2) by (simp_all add: Let_def y_def)
  show ?thesis
  proof (cases "x = y")
    case True
    with y show ?thesis by simp
  next
    case False
    have "x = (next + rr_rank n next x) mod n"
    proof -
      have "(next + rr_rank n next x) mod n = (next + (x + n - next)) mod n"
        by (simp add: rr_rank_def mod_simps)
      also have "next + (x + n - next) = x + n" using assms(2) by simp
      finally show ?thesis using x(1) by simp
    qed
    with y(1) x(2) have "d \<le> rr_rank n next x" by (metis not_le)
    from rr_rank_step [OF assms(2) x(1) d(1) this] False y show ?thesis by (simp add: y_def)
  qed
qed

section \<open>All lines\<close>

definition bus_ok :: "nat \<Rightarrow> nat \<Rightarrow> 'd Bus \<Rightarrow> bool" where
  "bus_ok nb n bus \<longleftrightarrow> length (bu_collection_bus_lines bus) = nb \<and> bu_n_bus_lines bus = nb
     \<and> (\<forall>b < nb. line_ok b n (bu_collection_bus_lines bus ! b))"

definition bus_queues :: "'d Bus \<Rightarrow> nat \<Rightarrow> 'd DataPackage list list" where
  "bus_queues bus b = line_queues (bu_collection_bus_lines bus ! b)"

lemma Bus_cycle_ok:
  fixes bus :: "'d Bus"
  assumes bus: "bus_ok nb n bus"
    and L: "\<And>b x. b < nb \<Longrightarrow> x < n \<Longrightarrow> link st (BusIn b x) (L b x)"
    and out: "\<And>b. b < nb \<Longrightarrow> link st (BusOut b) []"
  shows "\<exists>bus' st' sent. Bus_cycle (bus, st) = Inr (bus', st') \<and> bus_ok nb n bus'
     \<and> (\<forall>b < nb. line_step b n (bl_next_input_selected (bu_collection_bus_lines bus ! b))
            (map (\<lambda>x. bus_queues bus b ! x @ L b x) [0..<n]) (bus_queues bus' b)
            (bl_next_input_selected (bu_collection_bus_lines bus' ! b)) (sent b)
          \<and> link st' (BusOut b) (sent b) \<and> (\<forall>x < n. link st' (BusIn b x) []))
     \<and> (\<forall>c. (\<forall>b < nb. c \<noteq> BusOut b \<and> (\<forall>x < n. c \<noteq> BusIn b x)) \<longrightarrow> st' c = st c)"
proof -
  define P where "P b bus' st' out \<longleftrightarrow>
      line_step b n (bl_next_input_selected (bu_collection_bus_lines bus ! b))
            (map (\<lambda>x. bus_queues bus b ! x @ L b x) [0..<n]) (bus_queues bus' b)
            (bl_next_input_selected (bu_collection_bus_lines bus' ! b)) out
          \<and> link st' (BusOut b) out \<and> (\<forall>x < n. link st' (BusIn b x) [])"
    for b and bus' :: "'d Bus" and st' :: "'d store" and out
  define I where "I k s \<longleftrightarrow> (case s of (bus', st') \<Rightarrow> bus_ok nb n bus'
     \<and> (\<forall>b < k. \<exists>out. P b bus' st' out)
     \<and> (\<forall>b < nb. k \<le> b \<longrightarrow> bu_collection_bus_lines bus' ! b = bu_collection_bus_lines bus ! b
          \<and> st' (BusOut b) = st (BusOut b) \<and> (\<forall>x < n. st' (BusIn b x) = st (BusIn b x)))
     \<and> (\<forall>c. (\<forall>b < nb. c \<noteq> BusOut b \<and> (\<forall>x < n. c \<noteq> BusIn b x)) \<longrightarrow> st' c = st c))"
    for k and s :: "'d Bus \<times> 'd store"
  let ?f = "\<lambda>i (b, st). rbind (rnth (bu_collection_bus_lines b) i) (\<lambda>l.
        rbind (CollectionBusLine_cycle (l, st)) (\<lambda>(l, st).
        Inr (b\<lparr>bu_collection_bus_lines := (bu_collection_bus_lines b)[i := l]\<rparr>, st)))"
  have "\<exists>s'. rfold ?f [0..<nb] (bus, st) = Inr s' \<and> I nb s'"
  proof (rule rfold_upt_total)
    show "I 0 (bus, st)" using bus by (simp add: I_def)
  next
    fix k s assume k: "k < nb" and "I k s"
    then obtain bus1 st1 where s: "s = (bus1, st1)" and 1: "bus_ok nb n bus1"
        "\<And>b. b < k \<Longrightarrow> \<exists>out. P b bus1 st1 out"
        "\<And>b. b < nb \<Longrightarrow> k \<le> b \<Longrightarrow> bu_collection_bus_lines bus1 ! b = bu_collection_bus_lines bus ! b
          \<and> st1 (BusOut b) = st (BusOut b) \<and> (\<forall>x < n. st1 (BusIn b x) = st (BusIn b x))"
        "\<And>c. \<forall>b < nb. c \<noteq> BusOut b \<and> (\<forall>x < n. c \<noteq> BusIn b x) \<Longrightarrow> st1 c = st c"
      by (cases s) (simp add: I_def)
    let ?l = "bu_collection_bus_lines bus1 ! k"
    have len: "length (bu_collection_bus_lines bus1) = nb" and l: "line_ok k n ?l"
      using 1(1) k unfolding bus_ok_def by blast+
    have l0: "?l = bu_collection_bus_lines bus ! k" using 1(3) [OF k] by simp
    have links: "\<And>x. x < n \<Longrightarrow> link st1 (BusIn k x) (L k x)" "link st1 (BusOut k) []"
      using L [OF k] out [OF k] 1(3) [OF k] by (simp_all add: link_def)
    from CollectionBusLine_cycle_step [OF l links(1) refl links(2)] obtain l' st2 sent where 2:
      "CollectionBusLine_cycle (?l, st1) = Inr (l', st2)" "line_ok k n l'"
      "line_step k n (bl_next_input_selected ?l) (map (\<lambda>x. line_queues ?l ! x @ L k x) [0..<n])
         (line_queues l') (bl_next_input_selected l') sent"
      "\<forall>x < n. link st2 (BusIn k x) []" "link st2 (BusOut k) sent"
      "\<And>c. \<forall>x < n. c \<noteq> BusIn k x \<Longrightarrow> c \<noteq> BusOut k \<Longrightarrow> st2 c = st1 c" by blast
    let ?bus = "bus1\<lparr>bu_collection_bus_lines := (bu_collection_bus_lines bus1)[k := l']\<rparr>"
    have "?f k s = Inr (?bus, st2)" using s k len 2(1) by simp
    moreover have "I (Suc k) (?bus, st2)"
    proof -
      have other: "st2 (BusOut b) = st1 (BusOut b) \<and> st2 (BusIn b x) = st1 (BusIn b x)
          \<and> bu_collection_bus_lines ?bus ! b = bu_collection_bus_lines bus1 ! b"
        if "b \<noteq> k" for b x
        using 2(6) [of "BusOut b"] 2(6) [of "BusIn b x"] that by simp
      have "line_ok b n (bu_collection_bus_lines ?bus ! b)" if "b < nb" for b
        using 1(1) 2(2) that len by (cases "b = k") (simp_all add: bus_ok_def)
      then have "bus_ok nb n ?bus" using 1(1) by (simp add: bus_ok_def)
      moreover have "\<exists>out. P b ?bus st2 out" if "b < Suc k" for b
      proof (cases "b = k")
        case True
        have "P k ?bus st2 sent"
          using 2(3-5) k len l0 by (simp add: P_def bus_queues_def)
        with True show ?thesis by blast
      next
        case False
        with that obtain out where "P b bus1 st1 out" using 1(2) [of b] by auto
        then have "P b ?bus st2 out"
          using other [OF False] by (simp add: P_def bus_queues_def link_def)
        then show ?thesis by blast
      qed
      moreover have "bu_collection_bus_lines ?bus ! b = bu_collection_bus_lines bus ! b
          \<and> st2 (BusOut b) = st (BusOut b) \<and> (\<forall>x < n. st2 (BusIn b x) = st (BusIn b x))"
        if "b < nb" "Suc k \<le> b" for b
        using 1(3) [of b] other [of b] that by simp
      moreover have "st2 c = st c" if "\<forall>b < nb. c \<noteq> BusOut b \<and> (\<forall>x < n. c \<noteq> BusIn b x)" for c
        using 1(4) [OF that] 2(6) [of c] that k by simp
      ultimately show ?thesis by (simp add: I_def)
    qed
    ultimately show "\<exists>s'. ?f k s = Inr s' \<and> I (Suc k) s'" by blast
  qed
  moreover have "length (bu_collection_bus_lines bus) = nb" using bus by (simp add: bus_ok_def)
  ultimately obtain bus' st' where r: "Bus_cycle (bus, st) = Inr (bus', st')" "I nb (bus', st')"
    by (auto simp: Bus_cycle_def)
  then have "\<forall>b. \<exists>out. b < nb \<longrightarrow> P b bus' st' out" by (auto simp: I_def)
  then obtain sent where "\<forall>b. b < nb \<longrightarrow> P b bus' st' (sent b)" by metis
  with r show ?thesis
    by (intro exI [of _ bus'] exI [of _ st'] exI [of _ sent]) (simp add: I_def P_def)
qed

section \<open>Properties\<close>

text \<open>
  C13: a bus line loses and invents nothing. What it held and what arrived is what it holds
  afterwards and what it sends; it sends at most one package per cycle, marked with its number,
  and it sends one whenever there is one.
\<close>

theorem bus_line_conserves:
  assumes l: "line_ok b n l" and links: "\<forall>x < n. link st (BusIn b x) (L x)" and out: "link st (BusOut b) []"
  shows "\<exists>l' st' sent. CollectionBusLine_cycle (l, st) = Inr (l', st') \<and> line_ok b n l'
     \<and> link st' (BusOut b) (map (DataPackage_setOutputPort b) sent) \<and> length sent \<le> 1
     \<and> line_items l + (\<Sum>x < n. mset (L x)) = line_items l' + mset sent
     \<and> (sent = [] \<longrightarrow> line_items l' = {#}) \<and> (\<forall>x < n. link st' (BusIn b x) [])"
proof -
  let ?qs = "map (\<lambda>x. line_queues l ! x @ L x) [0..<n]"
  have n: "0 < n" "length (line_queues l) = n" using l by (simp_all add: line_ok_def line_queues_def)
  obtain l' st' out where 1: "CollectionBusLine_cycle (l, st) = Inr (l', st')" "line_ok b n l'"
     "line_step b n (bl_next_input_selected l) ?qs (line_queues l') (bl_next_input_selected l') out"
     "\<forall>x < n. link st' (BusIn b x) []" "link st' (BusOut b) out"
    using CollectionBusLine_cycle_step [OF l _ refl out, of L] links by blast
  obtain sent where 2: "out = map (DataPackage_setOutputPort b) sent" "length sent \<le> 1"
     "mset (concat ?qs) = mset (concat (line_queues l')) + mset sent" "sent = [] \<longrightarrow> concat ?qs = []"
    using line_step_conserves [OF 1(3) _ n(1)] by auto
  have "mset (concat ?qs) = mset (concat (line_queues l)) + (\<Sum>x < n. mset (L x))"
    by (simp add: mset_concat_upt mset_concat_nth [OF n(2)] sum.distrib)
  then have "mset (concat ?qs) = line_items l + (\<Sum>x < n. mset (L x))"
    by (simp only: line_items_def line_queues_def)
  with 2(3) have e: "line_items l + (\<Sum>x < n. mset (L x)) = line_items l' + mset sent"
    by (simp only: line_items_def line_queues_def)
  moreover have "line_items l' = {#}" if "sent = []"
  proof -
    have "mset (concat ?qs) = {#}" using 2(4) that by (metis mset.simps(1))
    moreover have "mset (concat ?qs) = line_items l' + mset sent"
      using 2(3) by (simp only: line_items_def line_queues_def)
    ultimately have "line_items l' + mset sent = {#}" by (simp only:)
    then show ?thesis by simp
  qed
  ultimately show ?thesis using 1(1,2,4,5) 2(1,2) by blast
qed


theorem bus_line_conserves_witness:
  "\<exists>l' st' sent. CollectionBusLine_cycle (fst (CollectionBusLine_new 0 2 16 100 (\<lambda>_. Connection_new 16)),
       (snd (CollectionBusLine_new 0 2 16 100 (\<lambda>_. Connection_new 16)))
         (BusIn 0 1 := Connection_send [DataPackage_psum 4 (7::int) PSUM 0 3 ADDER] (Connection_new 16))) = Inr (l', st')
     \<and> {#DataPackage_psum 4 (7::int) PSUM 0 3 ADDER#} = line_items l' + mset sent
     \<and> link st' (BusOut 0) (map (DataPackage_setOutputPort 0) sent)"
proof -
  let ?p = "DataPackage_psum 4 (7::int) PSUM 0 3 ADDER"
  let ?n = "CollectionBusLine_new 0 2 16 100 (\<lambda>_. Connection_new 16 :: int Connection)"
  let ?st = "(snd ?n)(BusIn 0 1 := Connection_send [?p] (Connection_new 16))"
  let ?L = "\<lambda>x. if x = 1 then [?p] else []"
  have u: "2 < u32_max" by (simp add: u32_max_def)
  have new: "line_ok 0 2 (fst ?n)" "line_items (fst ?n) = {#}" "link ?st (BusOut 0) []"
    using CollectionBusLine_new_ok(1,2,4) [OF _ u, where b = 0 and w = 16 and fs = 100] by simp_all
  have "\<forall>x < 2. link ?st (BusIn 0 x) (?L x)"
    using CollectionBusLine_new_ok(3) [OF _ u, where b = 0 and w = 16 and fs = 100 and st = "\<lambda>_. Connection_new 16 :: int Connection" and x = 0]
    by (simp add: less_2_cases_iff)
  from bus_line_conserves [OF new(1) this new(3)] new(2) show ?thesis by (auto simp: numeral_2_eq_2)
qed

text \<open>
  C14: the round robin starves no input. A package at the head of an input leaves within as many
  cycles of the line as it has inputs, whatever arrives on the other inputs.
\<close>

theorem bus_line_serves:
  assumes ok: "line_ok b n (l 0)"
    and run: "\<forall>k < n. CollectionBusLine_cycle (l k, st k) = Inr (l (Suc k), st' k)"
    and links: "\<forall>k < n. link (st k) (BusOut b) [] \<and> (\<forall>x < n. link (st k) (BusIn b x) (L k x))"
    and x: "x < n" "line_queues (l 0) ! x @ L 0 x = p # ps"
  shows "\<exists>k < n. link (st' k) (BusOut b) [DataPackage_setOutputPort b p]"
proof -
  have step: "line_ok b n (l (Suc k)) \<and> (\<exists>sent. line_step b n (bl_next_input_selected (l k))
       (map (\<lambda>x. line_queues (l k) ! x @ L k x) [0..<n]) (line_queues (l (Suc k))) (bl_next_input_selected (l (Suc k))) sent
       \<and> link (st' k) (BusOut b) sent)" if "k < n" "line_ok b n (l k)" for k
  proof -
    have "link (st k) (BusIn b x) (L k x)" if "x < n" for x using links \<open>k < n\<close> that by blast
    moreover have "link (st k) (BusOut b) []" using links \<open>k < n\<close> by blast
    ultimately show ?thesis
      using CollectionBusLine_cycle_step [OF that(2) _ refl, of "st k" "L k"] run \<open>k < n\<close> by auto
  qed
  have okk: "k \<le> n \<Longrightarrow> line_ok b n (l k)" for k
    by (induction k) (use ok step in auto)
  show ?thesis
  proof (rule ccontr)
    assume no: "\<not> ?thesis"
    have "k \<le> n \<Longrightarrow> (k < n \<longrightarrow> (\<exists>qs. line_queues (l k) ! x @ L k x = p # qs))
       \<and> k + rr_rank n (bl_next_input_selected (l k)) x \<le> rr_rank n (bl_next_input_selected (l 0)) x" for k
    proof (induction k)
      case 0
      then show ?case using x(2) by simp
    next
      case (Suc k)
      then obtain qs where qs: "line_queues (l k) ! x @ L k x = p # qs"
        and r: "k + rr_rank n (bl_next_input_selected (l k)) x \<le> rr_rank n (bl_next_input_selected (l 0)) x" by auto
      have k: "k < n" using Suc.prems by simp
      obtain sent where s: "line_step b n (bl_next_input_selected (l k))
         (map (\<lambda>x. line_queues (l k) ! x @ L k x) [0..<n]) (line_queues (l (Suc k))) (bl_next_input_selected (l (Suc k))) sent"
         "link (st' k) (BusOut b) sent" using step [OF k okk] k by auto
      have ne: "bl_next_input_selected (l k) < n" using okk [of k] k by (simp add: line_ok_def)
      have "\<not> link (st' k) (BusOut b) [DataPackage_setOutputPort b p]" using no k by blast
      then have "sent \<noteq> [DataPackage_setOutputPort b p]" using s(2) by metis
      with line_step_fair [OF s(1) ne x(1)] qs x(1)
      have "line_queues (l (Suc k)) ! x = p # qs"
        "rr_rank n (bl_next_input_selected (l (Suc k))) x < rr_rank n (bl_next_input_selected (l k)) x" by auto
      with r show ?case by auto
    qed
    from this [of n] have "n \<le> rr_rank n (bl_next_input_selected (l 0)) x" by simp
    moreover have "rr_rank n (bl_next_input_selected (l 0)) x < n" using x(1) by (simp add: rr_rank_def)
    ultimately show False by simp
  qed
qed

theorem bus_line_serves_witness:
  "\<exists>l l' (st' :: int store). CollectionBusLine_cycle (l, (\<lambda>_. Connection_new 16)
         (BusIn 0 0 := Connection_send [DataPackage_psum 4 (7::int) PSUM 0 3 ADDER] (Connection_new 16))) = Inr (l', st')
     \<and> link st' (BusOut 0) [DataPackage_setOutputPort 0 (DataPackage_psum 4 7 PSUM 0 3 ADDER)]"
proof -
  let ?p = "DataPackage_psum 4 (7::int) PSUM 0 3 ADDER"
  let ?l = "fst (CollectionBusLine_new 0 1 16 100 (\<lambda>_. Connection_new 16 :: int Connection))"
  let ?st = "(\<lambda>_. Connection_new 16)(BusIn 0 0 := Connection_send [?p] (Connection_new 16))"
  have ok: "line_ok 0 1 ?l" by (rule CollectionBusLine_new_ok(1)) (simp_all add: u32_max_def)
  have q: "line_queues ?l ! 0 = []" by (simp add: CollectionBusLine_new_def Let_def line_queues_def)
  have out: "link ?st (BusOut 0) []"
    by (simp add: link_def Connection_new_def Connection_existPendingData_def in_flight_def2)
  have ins: "\<And>x. x < 1 \<Longrightarrow> link ?st (BusIn 0 x) [?p]" by simp
  obtain l' st' where 1: "CollectionBusLine_cycle (?l, ?st) = Inr (l', st')"
    using CollectionBusLine_cycle_step [OF ok ins refl out] by blast
  have "\<exists>k < (1::nat). link ((\<lambda>_. st') k) (BusOut 0) [DataPackage_setOutputPort 0 ?p]"
    using bus_line_serves [where b = 0 and n = 1 and l = "\<lambda>k. if k = 0 then ?l else l'" and st = "\<lambda>_. ?st"
        and st' = "\<lambda>_. st'" and L = "\<lambda>_ _. [?p]" and x = 0 and p = ?p and ps = "[]"] ok q out 1 ins
    by auto
  with 1 show ?thesis by (intro exI [of _ ?l] exI [of _ l'] exI [of _ st']) simp
qed

end
