(* ===== verification/Stonne.thy ===== *)
theory Stonne
  imports OSMem DistNet Bus
begin

text \<open>
  The whole machine, \<^verbatim>\<open>STONNEModel.cpp\<close>: construction and wiring, loading a layer and a tile, and
  the simulation loop.

  The components behind the three abstract interfaces (multiplier network, reduction network,
  memory controller) are those of the output-stationary machine. A configuration that selects
  another component for one of them is the error \<open>NotModelled\<close> in the constructor.
\<close>

section \<open>State and construction\<close>

record 'd Stonne =
  st_cfg :: Config
  st_ms_size :: nat
  st_n_adders :: nat
  st_dsnet :: "'d DSNetworkTop"
  st_msnet :: "'d OSMeshMN"
  st_asnet :: "'d TemporalRN"
  st_lt :: LookupTable
  st_mem :: "'d OSMeshSDMemory"
  st_collectionBus :: "'d Bus"
  st_links :: "'d store"
  st_dnn_layer :: "DNNLayer option"
  st_current_tile :: "Tile option"
  st_layer_loaded :: bool
  st_tile_loaded :: bool
  st_n_cycles :: nat

definition connectMemoryandDSN :: "'d Stonne \<Rightarrow> 'd Stonne res" where
  "connectMemoryandDSN s =
     rbind (OSMeshSDMemory_setReadConnections (DSNetworkTop_getTopConnections (st_dsnet s)) (st_mem s))
       (\<lambda>sm. Inr (s\<lparr>st_mem := sm\<rparr>))"

definition connectMSNandDSN :: "'d Stonne \<Rightarrow> 'd Stonne res" where
  "connectMSNandDSN s =
     rbind (OSMeshMN_setInputConnections (DSNetworkTop_getLastLevelConnections (st_dsnet s))
         (umul (dp_n_input_ports (st_dsnet s)) (dp_ms_size_per_port (st_dsnet s))) (st_msnet s))
       (\<lambda>mn. Inr (s\<lparr>st_msnet := mn\<rparr>))"

definition connectMSNandASN :: "'d Stonne \<Rightarrow> 'd Stonne res" where
  "connectMSNandASN s =
     (let (conns, n) = TemporalRN_getLastLevelConnections (st_asnet s) in
      rbind (OSMeshMN_setOutputConnections conns n (st_msnet s)) (\<lambda>mn. Inr (s\<lparr>st_msnet := mn\<rparr>)))"

definition connectASNandBus :: "'d Stonne \<Rightarrow> 'd Stonne res" where
  "connectASNandBus s =
     rbind (Bus_getInputConnections (st_collectionBus s)) (\<lambda>connectionsBus.
     rbind (TemporalRN_setMemoryConnections connectionsBus (st_asnet s)) (\<lambda>rn.
     Inr (s\<lparr>st_asnet := rn\<rparr>)))"

definition connectBusandMemory :: "'d Stonne \<Rightarrow> 'd Stonne" where
  "connectBusandMemory s =
     s\<lparr>st_mem := OSMeshSDMemory_setWriteConnections (Bus_getOutputConnections (st_collectionBus s))
                   (st_mem s)\<rparr>"

definition Stonne_new :: "Config \<Rightarrow> 'd Stonne res" where
  "Stonne_new cfg =
     (let st = (\<lambda>_. uninit)(OutAS := Connection_new (ltc_port_width (m_LookUpTableCfg cfg)),
                            OutLT := Connection_new (sdc_port_width (m_SDMemoryCfg cfg))) in
      rbind (case msn_multiplier_network_type (m_MSNetworkCfg cfg) of
               LINEAR \<Rightarrow> Inl NotModelled
             | OS_MESH \<Rightarrow> OSMeshMN_new cfg st) (\<lambda>(mn, st).
      rbind (DSNetworkTop_new cfg st) (\<lambda>(dn, st).
      rbind (case asn_reduce_network_type (m_ASNetworkCfg cfg) of
               ASNETWORK \<Rightarrow> Inl NotModelled
             | FENETWORK \<Rightarrow> Inl NotModelled
             | TEMPORALRN \<Rightarrow> TemporalRN_new cfg st) (\<lambda>(rn, st).
      rbind (Bus_new cfg st) (\<lambda>(bus, st).
      rbind (case sdc_mem_controller_type (m_SDMemoryCfg cfg) of
               SIGMA_SPARSE_GEMM \<Rightarrow> Inl NotModelled
             | MAERI_DENSE_WORKLOAD \<Rightarrow> Inl NotModelled
             | MAGMA_SPARSE_DENSE \<Rightarrow> Inl NotModelled
             | TPU_OS_DENSE \<Rightarrow> OSMeshSDMemory_new cfg (Some OutLT)) (\<lambda>sm.
      let ms = msn_ms_size (m_MSNetworkCfg cfg);
          s = \<lparr>st_cfg = cfg, st_ms_size = ms, st_n_adders = usub ms 1, st_dsnet = dn, st_msnet = mn,
               st_asnet = rn, st_lt = LookupTable_new cfg (Some OutAS) (Some OutLT), st_mem = sm,
               st_collectionBus = bus, st_links = st, st_dnn_layer = None, st_current_tile = None,
               st_layer_loaded = False, st_tile_loaded = False, st_n_cycles = 0\<rparr> in
      rbind (connectMemoryandDSN s) (\<lambda>s.
      rbind (connectMSNandDSN s) (\<lambda>s.
      rbind (connectMSNandASN s) (\<lambda>s.
      rbind (connectASNandBus s) (\<lambda>s.
      Inr (connectBusandMemory s)))))))))))"

section \<open>Loading\<close>

definition loadDNNLayer ::
  "Layer_t \<Rightarrow> nat \<Rightarrow> nat \<Rightarrow> nat \<Rightarrow> nat \<Rightarrow> nat \<Rightarrow> nat \<Rightarrow> nat \<Rightarrow> nat \<Rightarrow> nat
   \<Rightarrow> 'd list \<Rightarrow> 'd list \<Rightarrow> 'd list \<Rightarrow> Dataflow \<Rightarrow> 'd Stonne \<Rightarrow> 'd Stonne res" where
  "loadDNNLayer ty R S C K G N X Y strides input_address filter_address output_address dataflow s =
     rbind (rmod C G) (\<lambda>c. rassert (c = 0)
     (rbind (rmod K G) (\<lambda>k. rassert (k = 0)
     (rassert (R \<le> X)
     (rassert (S \<le> Y)
     (rbind (DNNLayer_new ty R S C K G N X Y strides) (\<lambda>layer.
      Inr (s\<lparr>st_dnn_layer := Some layer, st_layer_loaded := True,
             st_mem := OSMeshSDMemory_setLayer layer input_address filter_address output_address
                         dataflow (st_mem s)\<rparr>))))))))"

definition loadCONVLayer ::
  "nat \<Rightarrow> nat \<Rightarrow> nat \<Rightarrow> nat \<Rightarrow> nat \<Rightarrow> nat \<Rightarrow> nat \<Rightarrow> nat \<Rightarrow> nat
   \<Rightarrow> 'd list \<Rightarrow> 'd list \<Rightarrow> 'd list \<Rightarrow> 'd Stonne \<Rightarrow> 'd Stonne res" where
  "loadCONVLayer R S C K G N X Y strides input_address filter_address output_address =
     loadDNNLayer CONV R S C K G N X Y strides input_address filter_address output_address CNN_DATAFLOW"

definition loadFCLayer ::
  "nat \<Rightarrow> nat \<Rightarrow> nat \<Rightarrow> 'd list \<Rightarrow> 'd list \<Rightarrow> 'd list \<Rightarrow> 'd Stonne \<Rightarrow> 'd Stonne res" where
  "loadFCLayer N S K input_address filter_address output_address =
     loadDNNLayer FC 1 S 1 K 1 1 N S 1 input_address filter_address output_address CNN_DATAFLOW"

definition loadDenseGEMM ::
  "nat \<Rightarrow> nat \<Rightarrow> nat \<Rightarrow> 'd list \<Rightarrow> 'd list \<Rightarrow> 'd list \<Rightarrow> Dataflow \<Rightarrow> 'd Stonne \<Rightarrow> 'd Stonne res" where
  "loadDenseGEMM N K M MK_matrix KN_matrix output_matrix dataflow =
     loadDNNLayer GEMM 1 K 1 N 1 1 M K 1 MK_matrix KN_matrix output_matrix dataflow"

definition tile_product :: "nat list \<Rightarrow> nat" where
  "tile_product xs = foldl umul 1 xs"

text \<open>
  The number of passes over the filter. Quotients, their ceilings and the product are \<open>float\<close> values;
  a size of zero gives an infinity or not a number, and no abort.
\<close>

definition tile_n_folding :: "DNNLayer \<Rightarrow> nat \<Rightarrow> nat \<Rightarrow> nat \<Rightarrow> nat" where
  "tile_n_folding layer tR tS tC =
     u32_of_f32 (f32_mul (f32_mul (f32_ceil_div (l_R layer) tR) (f32_ceil_div (l_S layer) tS)) (f32_ceil_div (l_C layer) tC))"

definition loadTile ::
  "nat \<Rightarrow> nat \<Rightarrow> nat \<Rightarrow> nat \<Rightarrow> nat \<Rightarrow> nat \<Rightarrow> nat \<Rightarrow> nat \<Rightarrow> 'd Stonne \<Rightarrow> 'd Stonne res" where
  "loadTile tR tS tC tK tG tN tXo tYo s =
     (let msn = m_MSNetworkCfg (st_cfg s); asn = m_ASNetworkCfg (st_cfg s);
          size = tile_product [tR, tS, tC, tK, tG, tN, tXo, tYo] in
      rassert (st_layer_loaded s)
      (rassert (if msn_multiplier_network_type msn = LINEAR then size \<le> st_ms_size s
                else size \<le> umul (msn_ms_rows msn) (msn_ms_cols msn))
      (rderef (st_dnn_layer s) (\<lambda>layer.
       let n_folding = tile_n_folding layer tR tS tC;
           folding_enabled = (1 < n_folding \<and> asn_accumulation_buffer_enabled asn = 0
             \<and> asn_reduce_network_type asn \<noteq> FENETWORK);
           tile = Tile_conv tR tS tC tK tG tN tXo tYo folding_enabled in
       rassert (folding_enabled \<longrightarrow>
          uadd size (tile_product [tK, tG, tN, tXo, tYo]) \<le> st_ms_size s)
       (rbind (if msn_multiplier_network_type msn \<noteq> OS_MESH then Inl NotModelled else Inr s) (\<lambda>s.
        rbind (OSMeshSDMemory_setTile tile (st_mem s)) (\<lambda>sm.
        Inr (s\<lparr>st_current_tile := Some tile, st_tile_loaded := True, st_mem := sm\<rparr>))))))))"

definition loadGEMMTile :: "nat \<Rightarrow> nat \<Rightarrow> nat \<Rightarrow> 'd Stonne \<Rightarrow> 'd Stonne res" where
  "loadGEMMTile tN tK tM s =
     rbind (loadTile 1 tK 1 tN 1 1 tM 1 s) (\<lambda>s.
     rassert (st_layer_loaded s)
     (rderef (st_dnn_layer s) (\<lambda>layer. rassert (l_type layer = GEMM) (Inr s))))"

definition loadFCTile :: "nat \<Rightarrow> nat \<Rightarrow> nat \<Rightarrow> 'd Stonne \<Rightarrow> 'd Stonne res" where
  "loadFCTile tS tN tK s =
     rbind (loadTile 1 tS 1 tK 1 1 tN 1 s) (\<lambda>s.
     rassert (st_layer_loaded s)
     (rderef (st_dnn_layer s) (\<lambda>layer. rassert (l_type layer = FC) (Inr s))))"

section \<open>The simulation loop\<close>

text \<open>
  One iteration of the loop of \<open>Stonne::cycle\<close>. The call of \<open>dsnet->cycle()\<close> is commented out in
  the source.
\<close>

definition Stonne_step :: "'d::{plus,times} Stonne \<Rightarrow> 'd Stonne res" where
  "Stonne_step s =
     rbind (OSMeshSDMemory_cycle (st_mem s, st_msnet s, st_asnet s, st_links s)) (\<lambda>(sm, mn, rn, st).
     rbind (Bus_cycle (st_collectionBus s, st)) (\<lambda>(bus, st).
     rbind (TemporalRN_cycle (rn, st)) (\<lambda>(rn, st).
     rbind (LookupTable_cycle (st_lt s) st) (\<lambda>st.
     rbind (OSMeshMN_cycle (mn, st)) (\<lambda>(mn, st).
     Inr (s\<lparr>st_mem := sm, st_msnet := mn, st_asnet := rn, st_collectionBus := bus,
            st_links := st, st_n_cycles := uadd (st_n_cycles s) 1\<rparr>))))))"

text \<open>
  The loop \<open>while(!execution_finished)\<close>. \<open>None\<close> is the loop that never ends; the other results are
  an abort and the final state.
\<close>

partial_function (option) Stonne_cycle :: "'d::{plus,times} Stonne \<Rightarrow> 'd Stonne res option" where
  "Stonne_cycle s =
     (case Stonne_step s of
        Inl e \<Rightarrow> Some (Inl e)
      | Inr s' \<Rightarrow> (if OSMeshSDMemory_isExecutionFinished (st_mem s') then Some (Inr s')
                  else Stonne_cycle s'))"

definition Stonne_run :: "'d::{plus,times} Stonne \<Rightarrow> 'd Stonne res option" where
  "Stonne_run s = Stonne_cycle s"

end
