(* ===== verification/MemRun.thy ===== *)
theory MemRun
  imports OSMem
begin

text \<open>
  The memory controller of the output-stationary machine at work on a matrix product: what each
  phase of its cycle does to the ports, the counters and the output, for a job that fits the array.
\<close>

section \<open>A job\<close>

text \<open>
  A product of an \<open>M\<close> by \<open>K\<close> and a \<open>K\<close> by \<open>N\<close> matrix (the second one stored by columns) on an
  \<open>R\<close> by \<open>C\<close> array in tiles of \<open>T_M\<close> by \<open>T_N\<close>, with \<open>nb\<close> bus lines of \<open>ports\<close> inputs.
\<close>

record 'd job =
  jR :: nat
  jC :: nat
  jB :: nat
  jP :: nat
  jM :: nat
  jN :: nat
  jK :: nat
  jTM :: nat
  jTN :: nat
  jMK :: "'d list"
  jKN :: "'d list"

definition job_ok :: "'d job \<Rightarrow> bool" where
  "job_ok J \<longleftrightarrow> 0 < jM J \<and> 0 < jN J \<and> 0 < jK J \<and> 0 < jTM J \<and> jTM J \<le> jR J \<and> 0 < jTN J \<and> jTN J \<le> jC J
     \<and> 0 < jB J \<and> 0 < jP J \<and> jP J < u32_max \<and> jR J * jC J \<le> jB J * jP J
     \<and> length (jMK J) = jM J * jK J \<and> length (jKN J) = jN J * jK J
     \<and> jM J * jN J < u32_max \<and> jM J * jK J < u32_max \<and> jN J * jK J < u32_max
     \<and> jR J * jC J < u32_max \<and> jR J + jC J < u32_max"

definition iterM :: "'d job \<Rightarrow> nat" where "iterM J = ceil_div (jM J) (jTM J)"
definition iterN :: "'d job \<Rightarrow> nat" where "iterN J = ceil_div (jN J) (jTN J)"

text \<open>Tile \<open>z\<close>: its first row and column, and the part of the array it uses.\<close>

definition row0 :: "'d job \<Rightarrow> nat \<Rightarrow> nat" where "row0 J z = z div iterN J * jTM J"
definition col0 :: "'d job \<Rightarrow> nat \<Rightarrow> nat" where "col0 J z = z mod iterN J * jTN J"
definition rows :: "'d job \<Rightarrow> nat \<Rightarrow> nat" where "rows J z = min (jTM J) (jM J - row0 J z)"
definition cols :: "'d job \<Rightarrow> nat \<Rightarrow> nat" where "cols J z = min (jTN J) (jN J - col0 J z)"

definition operand_pkg :: "operand_t \<Rightarrow> 'd \<Rightarrow> nat \<Rightarrow> 'd DataPackage" where
  "operand_pkg ty d port = (DataPackage_traffic sizeof_data_t d ty port UNICAST)\<lparr>p_unicast_dest := 0\<rparr>"

definition tile_pass :: "'d job \<Rightarrow> nat \<Rightarrow> 'd pass" where
  "tile_pass J z = \<lparr>ps_R = jR J, ps_C = jC J, ps_ru = rows J z, ps_cu = cols J z, ps_K = jK J,
     ps_W = (\<lambda>k j. operand_pkg WEIGHT (jKN J ! ((col0 J z + j) * jK J + k)) j),
     ps_A = (\<lambda>k i. operand_pkg IACTIVATION (jMK J ! ((row0 J z + i) * jK J + k)) (jC J + i))\<rparr>"

lemma tile_pass_simps [simp]:
  "ps_R (tile_pass J z) = jR J" "ps_C (tile_pass J z) = jC J" "ps_ru (tile_pass J z) = rows J z"
  "ps_cu (tile_pass J z) = cols J z" "ps_K (tile_pass J z) = jK J"
  by (simp_all add: tile_pass_def)

lemma operand_pkg_type [simp]: "p_data_type (operand_pkg ty d port) = ty"
  by (simp add: operand_pkg_def DataPackage_traffic_def DataPackage_general_def)

lemma operand_pkg_data [simp]: "p_data (operand_pkg ty d port) = d"
  by (simp add: operand_pkg_def DataPackage_traffic_def DataPackage_general_def)

lemma iterN_pos: "job_ok J \<Longrightarrow> 0 < iterN J"
  unfolding iterN_def using ceil_div_less_iff [of "jTN J" 0 "jN J"] by (simp add: job_ok_def)

lemma row0_less: "job_ok J \<Longrightarrow> z < iterM J * iterN J \<Longrightarrow> row0 J z < jM J"
proof -
  assume J: "job_ok J" and z: "z < iterM J * iterN J"
  then have "z div iterN J < iterM J" by (simp add: less_mult_imp_div_less)
  then show ?thesis using J ceil_div_less_iff [of "jTM J" "z div iterN J" "jM J"]
    by (simp add: row0_def iterM_def job_ok_def)
qed

lemma col0_less: "job_ok J \<Longrightarrow> col0 J z < jN J"
proof -
  assume J: "job_ok J"
  then have "z mod iterN J < iterN J" using iterN_pos [OF J] by simp
  then show ?thesis using J ceil_div_less_iff [of "jTN J" "z mod iterN J" "jN J"]
    by (simp add: col0_def iterN_def job_ok_def)
qed

lemma rows_bounds:
  assumes "job_ok J" and "z < iterM J * iterN J"
  shows "0 < rows J z" "rows J z \<le> jR J" "rows J z \<le> jTM J" "row0 J z + rows J z \<le> jM J"
  using row0_less [OF assms] assms(1) by (auto simp: rows_def job_ok_def)

lemma cols_bounds:
  assumes "job_ok J"
  shows "0 < cols J z" "cols J z \<le> jC J" "cols J z \<le> jTN J" "col0 J z + cols J z \<le> jN J"
  using col0_less [OF assms, of z] assms by (auto simp: cols_def job_ok_def)

lemma tile_pass_ok: "job_ok J \<Longrightarrow> z < iterM J * iterN J \<Longrightarrow> pass_ok (tile_pass J z)"
  using rows_bounds [of J z] cols_bounds [of J z] by (simp add: pass_ok_def) (simp add: tile_pass_def)

section \<open>The controller loaded with a job\<close>

definition mem_wf :: "'d job \<Rightarrow> 'd OSMeshSDMemory \<Rightarrow> bool" where
  "mem_wf J sm \<longleftrightarrow> sm_layer_loaded sm \<and> sm_dnn_layer sm \<noteq> None
     \<and> sm_M sm = jM J \<and> sm_N sm = jN J \<and> sm_K sm = jK J \<and> sm_T_M sm = jTM J \<and> sm_T_N sm = jTN J
     \<and> sm_iter_M sm = iterM J \<and> sm_iter_N sm = iterN J \<and> sm_iter_K sm = jK J
     \<and> sm_ms_rows sm = jR J \<and> sm_ms_cols sm = jC J \<and> sm_n_read_ports sm = jR J + jC J
     \<and> sm_ms_size_per_input_port sm = 1 \<and> sm_read_connections sm = map DSTop [0..<jR J + jC J]
     \<and> sm_write_connection sm = Some OutLT
     \<and> sm_write_port_connections sm = map (\<lambda>b. Some (BusOut b)) [0..<jB J]
     \<and> sm_MK_address sm = jMK J \<and> sm_KN_address sm = jKN J \<and> jTM J * jTN J \<le> length (sm_vnat_table sm)
     \<and> length (sm_input_fifos sm) = jR J + jC J \<and> length (sm_psum_fifos sm) = jR J + jC J
     \<and> (\<forall>i < jR J + jC J. f_fifo (sm_psum_fifos sm ! i) = [])
     \<and> length (ss_n_SRAM_read_ports_weights_use (sm_stats sm)) = jR J + jC J
     \<and> length (ss_n_SRAM_read_ports_inputs_use (sm_stats sm)) = jR J + jC J
     \<and> length (sm_output_address sm) = jM J * jN J"

text \<open>What the controller holds for port \<open>i\<close>, and its control state.\<close>

abbreviation port :: "'d OSMeshSDMemory \<Rightarrow> nat \<Rightarrow> 'd DataPackage list" where
  "port sm i \<equiv> f_fifo (sm_input_fifos sm ! i)"

definition mem_tile where
  "mem_tile sm = (sm_rows_used sm, sm_cols_used sm, sm_current_M sm, sm_current_N sm, sm_current_K sm)"

definition mem_phase where
  "mem_phase sm = (sm_current_state sm, sm_iteration_completed sm)"

definition mem_out where
  "mem_out sm = (sm_execution_finished sm, sm_current_output sm, sm_current_output_iteration sm,
     sm_n_iterations_completed sm, sm_output_address sm)"

lemmas mem_defs = mem_tile_def mem_phase_def mem_out_def

lemma push_unicast:
  assumes wf: "mem_wf J sm" and p: "p_traffic_type pck = UNICAST" "p_data_type pck = ty" "ty \<noteq> PSUM"
    and i: "p_unicast_dest pck = i" "i < jR J + jC J"
    and it: "p_size_package pck = sizeof_data_t" "p_data pck = d" "p_iteration_k pck = uninit"
  shows "\<exists>sm'. OSMeshSDMemory_sendPackageToInputFifos pck sm = Inr sm' \<and> mem_wf J sm'
    \<and> mem_tile sm' = mem_tile sm \<and> mem_phase sm' = mem_phase sm \<and> mem_out sm' = mem_out sm
    \<and> sm_write_fifo sm' = sm_write_fifo sm
    \<and> (\<forall>x < jR J + jC J. port sm' x = port sm x @ (if x = i then [operand_pkg ty d i] else []))"
proof -
  have n: "DataPackage_setIterationK uninit ((DataPackage_traffic sizeof_data_t d ty i UNICAST)\<lparr>p_unicast_dest := 0\<rparr>)
      = operand_pkg ty d i"
    by (simp add: DataPackage_setIterationK_def operand_pkg_def DataPackage_traffic_def DataPackage_general_def)
  have len: "i < length (sm_input_fifos sm)" and per: "sm_ms_size_per_input_port sm = 1"
    using wf i by (simp_all add: mem_wf_def)
  let ?sm = "sm\<lparr>sm_input_fifos := (sm_input_fifos sm)[i := Fifo_push (operand_pkg ty d i) (sm_input_fifos sm ! i)]\<rparr>"
  have "OSMeshSDMemory_sendPackageToInputFifos pck sm = Inr ?sm"
    using p i it per len n
    by (simp add: OSMeshSDMemory_sendPackageToInputFifos_def OSMeshSDMemory_push_port_def Let_def
        DataPackage_unicast_def)
  moreover have "mem_wf J ?sm" using wf by (simp add: mem_wf_def)
  ultimately show ?thesis using len by (simp add: mem_defs nth_list_update)
qed

text \<open>Row \<open>t\<close> of the operands of tile \<open>z\<close>.\<close>

definition at_tile :: "'d job \<Rightarrow> nat \<Rightarrow> nat \<Rightarrow> 'd OSMeshSDMemory \<Rightarrow> bool" where
  "at_tile J z t sm \<longleftrightarrow> mem_tile sm = (rows J z, cols J z, z div iterN J, z mod iterN J, t)"

lemma send_weight_ok:
  assumes J: "job_ok J" and wf: "mem_wf J sm" and at: "at_tile J z t sm" and t: "t < jK J"
    and j: "j < cols J z"
  shows "\<exists>sm'. OSMeshSDMemory_send_weight j sm = Inr sm' \<and> mem_wf J sm'
    \<and> mem_tile sm' = mem_tile sm \<and> mem_phase sm' = mem_phase sm \<and> mem_out sm' = mem_out sm
    \<and> sm_write_fifo sm' = sm_write_fifo sm
    \<and> (\<forall>x < jR J + jC J. port sm' x = port sm x @ (if x = j then [ps_W (tile_pass J z) t j] else []))"
proof -
  have b: "col0 J z + j < jN J" using cols_bounds [OF J, of z] j by simp
  have idx: "(col0 J z + j) * jK J + t < jN J * jK J" using index_less [OF b t] .
  have s: "jN J * jK J < u32_max" "0 < jK J" using J by (simp_all add: job_ok_def)
  have "col0 J z + j \<le> (col0 J z + j) * jK J" using s(2) by simp
  then have "col0 J z + j < u32_max" using idx s(1) by linarith
  then have u: "umul (z mod iterN J) (jTN J) = col0 J z" "uadd (col0 J z) j = col0 J z + j"
     "umul (col0 J z + j) (jK J) = (col0 J z + j) * jK J"
     "uadd ((col0 J z + j) * jK J) t = (col0 J z + j) * jK J + t"
    using idx s unfolding col0_def by (simp_all add: u32_simps)
  have sm: "sm_current_N sm = z mod iterN J" "sm_T_N sm = jTN J" "sm_K sm = jK J" "sm_current_K sm = t"
     "sm_KN_address sm = jKN J" "length (jKN J) = jN J * jK J"
    using wf at J by (simp_all add: mem_wf_def at_tile_def mem_tile_def job_ok_def)
  let ?d = "jKN J ! ((col0 J z + j) * jK J + t)"
  let ?pck = "(DataPackage_traffic sizeof_data_t ?d WEIGHT 0 UNICAST)\<lparr>p_unicast_dest := j\<rparr>"
  let ?sm = "sm\<lparr>sm_stats := ss_n_SRAM_weight_reads_update (\<lambda>n. n + 1) (sm_stats sm)\<rparr>"
  have "mem_wf J ?sm" using wf by (simp add: mem_wf_def)
  from push_unicast [OF this, of ?pck WEIGHT j ?d] obtain sm' where sm':
    "OSMeshSDMemory_sendPackageToInputFifos ?pck ?sm = Inr sm'" "mem_wf J sm'"
    "mem_tile sm' = mem_tile ?sm" "mem_phase sm' = mem_phase ?sm" "mem_out sm' = mem_out ?sm"
    "sm_write_fifo sm' = sm_write_fifo ?sm"
    "\<forall>x < jR J + jC J. port sm' x = port ?sm x @ (if x = j then [operand_pkg WEIGHT ?d j] else [])"
    using j cols_bounds [OF J, of z] by (auto simp: DataPackage_traffic_def DataPackage_general_def)
  moreover have "OSMeshSDMemory_send_weight j sm = OSMeshSDMemory_sendPackageToInputFifos ?pck ?sm"
    using idx u by (simp add: OSMeshSDMemory_send_weight_def sm Let_def DataPackage_unicast_def)
  ultimately show ?thesis by (simp add: mem_defs tile_pass_def)
qed

lemma send_input_ok:
  assumes J: "job_ok J" and z: "z < iterM J * iterN J" and wf: "mem_wf J sm" and at: "at_tile J z t sm"
    and t: "t < jK J" and i: "i < rows J z"
  shows "\<exists>sm'. OSMeshSDMemory_send_input i sm = Inr sm' \<and> mem_wf J sm'
    \<and> mem_tile sm' = mem_tile sm \<and> mem_phase sm' = mem_phase sm \<and> mem_out sm' = mem_out sm
    \<and> sm_write_fifo sm' = sm_write_fifo sm
    \<and> (\<forall>x < jR J + jC J. port sm' x = port sm x @ (if x = jC J + i then [ps_A (tile_pass J z) t i] else []))"
proof -
  have b: "row0 J z + i < jM J" using rows_bounds [OF J z] i by simp
  have idx: "(row0 J z + i) * jK J + t < jM J * jK J" using index_less [OF b t] .
  have s: "jM J * jK J < u32_max" "0 < jK J" "jR J + jC J < u32_max" using J by (simp_all add: job_ok_def)
  have iC: "i + jC J < jR J + jC J" using rows_bounds [OF J z] i by simp
  have "row0 J z + i \<le> (row0 J z + i) * jK J" using s(2) by simp
  then have "row0 J z + i < u32_max" using idx s(1) by linarith
  then have u: "umul (z div iterN J) (jTM J) = row0 J z" "uadd (row0 J z) i = row0 J z + i"
     "umul (row0 J z + i) (jK J) = (row0 J z + i) * jK J"
     "uadd ((row0 J z + i) * jK J) t = (row0 J z + i) * jK J + t" "uadd i (jC J) = jC J + i"
    using idx s iC unfolding row0_def by (simp_all add: u32_simps)
  have sm: "sm_current_M sm = z div iterN J" "sm_T_M sm = jTM J" "sm_K sm = jK J" "sm_current_K sm = t"
     "sm_MK_address sm = jMK J" "length (jMK J) = jM J * jK J" "sm_ms_cols sm = jC J"
    using wf at J by (simp_all add: mem_wf_def at_tile_def mem_tile_def job_ok_def)
  let ?d = "jMK J ! ((row0 J z + i) * jK J + t)"
  let ?pck = "(DataPackage_traffic sizeof_data_t ?d IACTIVATION 0 UNICAST)\<lparr>p_unicast_dest := jC J + i\<rparr>"
  let ?sm = "sm\<lparr>sm_stats := ss_n_SRAM_input_reads_update (\<lambda>n. n + 1) (sm_stats sm)\<rparr>"
  have "mem_wf J ?sm" using wf by (simp add: mem_wf_def)
  from push_unicast [OF this, of ?pck IACTIVATION "jC J + i" ?d] obtain sm' where sm':
    "OSMeshSDMemory_sendPackageToInputFifos ?pck ?sm = Inr sm'" "mem_wf J sm'"
    "mem_tile sm' = mem_tile ?sm" "mem_phase sm' = mem_phase ?sm" "mem_out sm' = mem_out ?sm"
    "sm_write_fifo sm' = sm_write_fifo ?sm"
    "\<forall>x < jR J + jC J. port sm' x = port ?sm x @ (if x = jC J + i then [operand_pkg IACTIVATION ?d (jC J + i)] else [])"
    using iC by (auto simp: DataPackage_traffic_def DataPackage_general_def)
  moreover have "OSMeshSDMemory_send_input i sm = OSMeshSDMemory_sendPackageToInputFifos ?pck ?sm"
    using idx u by (simp add: OSMeshSDMemory_send_input_def sm Let_def DataPackage_unicast_def)
  ultimately show ?thesis by (simp add: mem_defs tile_pass_def)
qed

text \<open>What enters the array at port \<open>x\<close> in cycle \<open>t\<close> of tile \<open>z\<close>.\<close>

definition feed :: "'d job \<Rightarrow> nat \<Rightarrow> nat \<Rightarrow> nat \<Rightarrow> 'd DataPackage list" where
  "feed J z t x = (if x < jC J then top_msg (tile_pass J z) t 0 x
                   else left_msg (tile_pass J z) t (x - jC J) 0)"

lemma feed_eq:
  assumes "job_ok J" and "z < iterM J * iterN J" and "x < jR J + jC J"
  shows "feed J z t x =
    (if t < jK J \<and> x < cols J z then [ps_W (tile_pass J z) t x]
     else if t < jK J \<and> jC J \<le> x \<and> x < jC J + rows J z then [ps_A (tile_pass J z) t (x - jC J)] else [])"
  using rows_bounds [OF assms(1,2)] cols_bounds [OF assms(1), of z] assms(3)
  by (auto simp: feed_def top_msg_def left_msg_def top_delay_def left_delay_def arriving_def used_def)

lemma feed_late: "jK J \<le> t \<Longrightarrow> feed J z t x = []"
  by (simp add: feed_def top_msg_def left_msg_def top_delay_def left_delay_def arriving_def)

lemma weights_loop:
  assumes J: "job_ok J" and wf: "mem_wf J sm" and at: "at_tile J z t sm" and t: "t < jK J"
  shows "\<exists>sm'. rfold OSMeshSDMemory_send_weight [0..<cols J z] sm = Inr sm' \<and> mem_wf J sm'
    \<and> mem_tile sm' = mem_tile sm \<and> mem_phase sm' = mem_phase sm \<and> mem_out sm' = mem_out sm
    \<and> sm_write_fifo sm' = sm_write_fifo sm
    \<and> (\<forall>x < jR J + jC J. port sm' x = port sm x @ (if x < cols J z then [ps_W (tile_pass J z) t x] else []))"
proof -
  define I where "I k sm' \<longleftrightarrow> mem_wf J sm'
    \<and> mem_tile sm' = mem_tile sm \<and> mem_phase sm' = mem_phase sm \<and> mem_out sm' = mem_out sm
    \<and> sm_write_fifo sm' = sm_write_fifo sm
    \<and> (\<forall>x < jR J + jC J. port sm' x = port sm x @ (if x < k then [ps_W (tile_pass J z) t x] else []))"
    for k sm'
  have "\<exists>sm'. rfold OSMeshSDMemory_send_weight [0..<cols J z] sm = Inr sm' \<and> I (cols J z) sm'"
  proof (rule rfold_upt_total)
    show "I 0 sm" using wf by (simp add: I_def)
  next
    fix k s assume k: "k < cols J z" and "I k s"
    then have s: "mem_wf J s" "mem_tile s = mem_tile sm" "mem_phase s = mem_phase sm" "mem_out s = mem_out sm"
      "sm_write_fifo s = sm_write_fifo sm"
      "\<And>x. x < jR J + jC J \<Longrightarrow> port s x = port sm x @ (if x < k then [ps_W (tile_pass J z) t x] else [])"
      by (simp_all add: I_def)
    have "at_tile J z t s" using at s(2) by (simp add: at_tile_def)
    from send_weight_ok [OF J s(1) this t k] obtain s' where s':
      "OSMeshSDMemory_send_weight k s = Inr s'" "mem_wf J s'" "mem_tile s' = mem_tile s"
      "mem_phase s' = mem_phase s" "mem_out s' = mem_out s" "sm_write_fifo s' = sm_write_fifo s"
      "\<And>x. x < jR J + jC J \<Longrightarrow> port s' x = port s x @ (if x = k then [ps_W (tile_pass J z) t k] else [])"
      by blast
    have "port s' x = port sm x @ (if x < Suc k then [ps_W (tile_pass J z) t x] else [])"
      if "x < jR J + jC J" for x
      using s(6) [OF that] s'(7) [OF that] by (cases "x = k") (auto simp: less_Suc_eq)
    then have "I (Suc k) s'" using s s' by (simp add: I_def)
    with s'(1) show "\<exists>s'. OSMeshSDMemory_send_weight k s = Inr s' \<and> I (Suc k) s'" by blast
  qed
  then show ?thesis by (simp only: I_def)
qed

lemma inputs_loop:
  assumes J: "job_ok J" and z: "z < iterM J * iterN J" and wf: "mem_wf J sm" and at: "at_tile J z t sm"
    and t: "t < jK J"
  shows "\<exists>sm'. rfold OSMeshSDMemory_send_input [0..<rows J z] sm = Inr sm' \<and> mem_wf J sm'
    \<and> mem_tile sm' = mem_tile sm \<and> mem_phase sm' = mem_phase sm \<and> mem_out sm' = mem_out sm
    \<and> sm_write_fifo sm' = sm_write_fifo sm
    \<and> (\<forall>x < jR J + jC J. port sm' x = port sm x
         @ (if jC J \<le> x \<and> x < jC J + rows J z then [ps_A (tile_pass J z) t (x - jC J)] else []))"
proof -
  define I where "I k sm' \<longleftrightarrow> mem_wf J sm'
    \<and> mem_tile sm' = mem_tile sm \<and> mem_phase sm' = mem_phase sm \<and> mem_out sm' = mem_out sm
    \<and> sm_write_fifo sm' = sm_write_fifo sm
    \<and> (\<forall>x < jR J + jC J. port sm' x = port sm x
         @ (if jC J \<le> x \<and> x < jC J + k then [ps_A (tile_pass J z) t (x - jC J)] else []))"
    for k sm'
  have "\<exists>sm'. rfold OSMeshSDMemory_send_input [0..<rows J z] sm = Inr sm' \<and> I (rows J z) sm'"
  proof (rule rfold_upt_total)
    show "I 0 sm" using wf by (simp add: I_def)
  next
    fix k s assume k: "k < rows J z" and "I k s"
    then have s: "mem_wf J s" "mem_tile s = mem_tile sm" "mem_phase s = mem_phase sm" "mem_out s = mem_out sm"
      "sm_write_fifo s = sm_write_fifo sm"
      "\<And>x. x < jR J + jC J \<Longrightarrow> port s x = port sm x
         @ (if jC J \<le> x \<and> x < jC J + k then [ps_A (tile_pass J z) t (x - jC J)] else [])"
      by (simp_all add: I_def)
    have "at_tile J z t s" using at s(2) by (simp add: at_tile_def)
    from send_input_ok [OF J z s(1) this t k] obtain s' where s':
      "OSMeshSDMemory_send_input k s = Inr s'" "mem_wf J s'" "mem_tile s' = mem_tile s"
      "mem_phase s' = mem_phase s" "mem_out s' = mem_out s" "sm_write_fifo s' = sm_write_fifo s"
      "\<And>x. x < jR J + jC J \<Longrightarrow> port s' x = port s x @ (if x = jC J + k then [ps_A (tile_pass J z) t k] else [])"
      by blast
    have "port s' x = port sm x
         @ (if jC J \<le> x \<and> x < jC J + Suc k then [ps_A (tile_pass J z) t (x - jC J)] else [])"
      if "x < jR J + jC J" for x
      using s(6) [OF that] s'(7) [OF that] by (cases "x = jC J + k") (auto simp: less_Suc_eq)
    then have "I (Suc k) s'" using s s' by (simp add: I_def)
    with s'(1) show "\<exists>s'. OSMeshSDMemory_send_input k s = Inr s' \<and> I (Suc k) s'" by blast
  qed
  then show ?thesis by (simp only: I_def)
qed

lemma Suc_mod_div:
  assumes "0 < (n::nat)"
  shows "Suc (z mod n) = n \<Longrightarrow> Suc z mod n = 0 \<and> Suc z div n = Suc (z div n)"
    and "Suc (z mod n) \<noteq> n \<Longrightarrow> Suc z mod n = Suc (z mod n) \<and> Suc z div n = z div n"
  using assms by (auto simp: mod_Suc div_Suc)

lemma distribute_ok:
  assumes J: "job_ok J" and z: "z < iterM J * iterN J" and wf: "mem_wf J sm" and at: "at_tile J z t sm"
    and t: "t < jK J" and empty: "\<And>x. x < jR J + jC J \<Longrightarrow> port sm x = []"
  shows "\<exists>sm'. OSMeshSDMemory_distribute sm = Inr sm' \<and> mem_wf J sm' \<and> mem_out sm' = mem_out sm
    \<and> sm_write_fifo sm' = sm_write_fifo sm
    \<and> (\<forall>x < jR J + jC J. port sm' x = feed J z t x)
    \<and> sm_current_state sm' = sm_current_state sm
    \<and> (if Suc t = jK J
       then mem_tile sm' = (rows J z, cols J z, Suc z div iterN J, Suc z mod iterN J, 0)
         \<and> sm_iteration_completed sm'
       else at_tile J z (Suc t) sm' \<and> sm_iteration_completed sm' = sm_iteration_completed sm)"
proof -
  have uc: "sm_cols_used sm = cols J z" using at by (simp add: at_tile_def mem_tile_def)
  from weights_loop [OF J wf at t] obtain s1 where s1:
    "rfold OSMeshSDMemory_send_weight [0..<cols J z] sm = Inr s1" "mem_wf J s1"
    "mem_tile s1 = mem_tile sm" "mem_phase s1 = mem_phase sm" "mem_out s1 = mem_out sm"
    "sm_write_fifo s1 = sm_write_fifo sm"
    "\<And>x. x < jR J + jC J \<Longrightarrow> port s1 x = port sm x @ (if x < cols J z then [ps_W (tile_pass J z) t x] else [])"
    by blast
  have at1: "at_tile J z t s1" using at s1(3) by (simp add: at_tile_def)
  then have ur: "sm_rows_used s1 = rows J z" by (simp add: at_tile_def mem_tile_def)
  from inputs_loop [OF J z s1(2) at1 t] obtain s2 where s2:
    "rfold OSMeshSDMemory_send_input [0..<rows J z] s1 = Inr s2" "mem_wf J s2"
    "mem_tile s2 = mem_tile s1" "mem_phase s2 = mem_phase s1" "mem_out s2 = mem_out s1"
    "sm_write_fifo s2 = sm_write_fifo s1"
    "\<And>x. x < jR J + jC J \<Longrightarrow> port s2 x = port s1 x
         @ (if jC J \<le> x \<and> x < jC J + rows J z then [ps_A (tile_pass J z) t (x - jC J)] else [])"
    by blast
  have ports: "port s2 x = feed J z t x" if "x < jR J + jC J" for x
    using s1(7) [OF that] s2(7) [OF that] empty [OF that] cols_bounds(2) [OF J, of z] t that
    by (auto simp: feed_eq [OF J z])
  have "OSMeshSDMemory_distribute sm = Inr (OSMeshSDMemory_advance s2)"
    using s1(1) s2(1) uc ur by (simp add: OSMeshSDMemory_distribute_def)
  moreover have "mem_wf J (OSMeshSDMemory_advance s2)"
    using s2(2) by (simp add: mem_wf_def OSMeshSDMemory_advance_def Let_def)
  moreover have "mem_out (OSMeshSDMemory_advance s2) = mem_out sm"
    "sm_write_fifo (OSMeshSDMemory_advance s2) = sm_write_fifo sm"
    "sm_current_state (OSMeshSDMemory_advance s2) = sm_current_state sm"
    "sm_input_fifos (OSMeshSDMemory_advance s2) = sm_input_fifos s2"
    using s1 s2 by (simp_all add: OSMeshSDMemory_advance_def Let_def mem_defs)
  moreover
  have K: "Suc t < u32_max" "iterN J < u32_max" "Suc (z div iterN J) < u32_max"
  proof -
    have "jK J \<le> jM J * jK J" "0 < jM J" using J by (simp_all add: job_ok_def)
    then show "Suc t < u32_max" using J t unfolding job_ok_def by linarith
    have "iterN J \<le> jN J"
    proof (rule ccontr)
      assume "\<not> iterN J \<le> jN J"
      then have "jN J < iterN J" by simp
      then have "jN J * jTN J < jN J" using J ceil_div_less_iff [of "jTN J" "jN J" "jN J"]
        by (simp add: iterN_def job_ok_def)
      then show False using J by (simp add: job_ok_def)
    qed
    moreover have "jN J \<le> jM J * jN J" using J by (simp add: job_ok_def)
    ultimately show "iterN J < u32_max" using J unfolding job_ok_def by linarith
    have "z div iterN J \<le> row0 J z" using J by (simp add: row0_def job_ok_def)
    then have "z div iterN J < jM J" using row0_less [OF J z] by simp
    moreover have "jM J < u32_max"
    proof -
      have "jM J \<le> jR J * jC J \<or> jM J \<le> jM J * jK J" using J by (simp add: job_ok_def)
      moreover have "jM J \<le> jM J * jK J" using J by (simp add: job_ok_def)
      ultimately show ?thesis using J unfolding job_ok_def by linarith
    qed
    ultimately show "Suc (z div iterN J) < u32_max" by simp
  qed
  have n: "0 < iterN J" using iterN_pos [OF J] .
  then have zn: "Suc (z mod iterN J) < u32_max"
    using K(2) mod_less_divisor [OF n, of z] by linarith
  have tile: "sm_current_K s2 = t" "sm_current_N s2 = z mod iterN J" "sm_current_M s2 = z div iterN J"
     "sm_rows_used s2 = rows J z" "sm_cols_used s2 = cols J z" "sm_iter_K s2 = jK J" "sm_iter_N s2 = iterN J"
     "sm_iteration_completed s2 = sm_iteration_completed sm"
    using at1 s1(4) s2(2,3,4) by (simp_all add: at_tile_def mem_defs mem_wf_def)
  have "if Suc t = jK J
       then mem_tile (OSMeshSDMemory_advance s2) = (rows J z, cols J z, Suc z div iterN J, Suc z mod iterN J, 0)
         \<and> sm_iteration_completed (OSMeshSDMemory_advance s2)
       else at_tile J z (Suc t) (OSMeshSDMemory_advance s2)
         \<and> sm_iteration_completed (OSMeshSDMemory_advance s2) = sm_iteration_completed sm"
    using K zn Suc_mod_div [OF n, of z]
    by (cases "Suc (z mod iterN J) = iterN J")
       (simp_all add: OSMeshSDMemory_advance_def Let_def mem_tile_def at_tile_def tile uadd_small)
  ultimately show ?thesis using ports by auto
qed

section \<open>Sending and receiving\<close>

lemma Fifo_front_ok: "f_fifo q = x # xs \<Longrightarrow> \<exists>q'. Fifo_front q = Inr (x, q') \<and> f_fifo q' = x # xs"
  by (simp add: Fifo_front_def)

lemma rinc_ok: "i < length v \<Longrightarrow> \<exists>v'. rinc i v = Inr v' \<and> length v' = length v"
  by (simp add: rinc_def)

lemma send_port_ok:
  assumes wf: "mem_wf J sm" and i: "i < jR J + jC J" and one: "length (port sm i) \<le> 1"
    and link: "link st (DSTop i) []"
  shows "\<exists>sm' st'. OSMeshSDMemory_send_port i (sm, st) = Inr (sm', st') \<and> mem_wf J sm'
    \<and> mem_tile sm' = mem_tile sm \<and> mem_phase sm' = mem_phase sm \<and> mem_out sm' = mem_out sm
    \<and> sm_write_fifo sm' = sm_write_fifo sm
    \<and> (\<forall>x. port sm' x = (if x = i then [] else port sm x))
    \<and> link st' (DSTop i) (port sm i) \<and> (\<forall>c. c \<noteq> DSTop i \<longrightarrow> st' c = st c)"
proof -
  have len: "i < length (sm_psum_fifos sm)" "i < length (sm_input_fifos sm)"
    "f_fifo (sm_psum_fifos sm ! i) = []" "sm_read_connections sm = map DSTop [0..<jR J + jC J]"
    using wf i by (simp_all add: mem_wf_def)
  show ?thesis
  proof (cases "port sm i")
    case Nil
    then have "OSMeshSDMemory_send_port i (sm, st) = Inr (sm, st)"
      using len by (simp add: OSMeshSDMemory_send_port_def)
    with wf link Nil show ?thesis by auto
  next
    case (Cons pck xs)
    with one have p: "port sm i = [pck]" by simp
    obtain q where q: "Fifo_front (sm_input_fifos sm ! i) = Inr (pck, q)" "f_fifo q = [pck]"
      using Fifo_front_ok [OF p] by blast
    obtain q' where q': "Fifo_pop q = Inr (pck, q')" "f_fifo q' = []"
      using fq.pop_items [OF q(2)] by blast
    obtain w where w: "rinc i (ss_n_SRAM_read_ports_weights_use (sm_stats sm)) = Inr w"
        "length w = jR J + jC J"
      using rinc_ok [of i "ss_n_SRAM_read_ports_weights_use (sm_stats sm)"] wf i by (auto simp: mem_wf_def)
    obtain v where v: "rinc i (ss_n_SRAM_read_ports_inputs_use (sm_stats sm)) = Inr v"
        "length v = jR J + jC J"
      using rinc_ok [of i "ss_n_SRAM_read_ports_inputs_use (sm_stats sm)"] wf i by (auto simp: mem_wf_def)
    define stats where "stats = (if p_data_type pck = WEIGHT
       then ss_n_SRAM_read_ports_weights_use_update (\<lambda>_. w) (sm_stats sm)
       else ss_n_SRAM_read_ports_inputs_use_update (\<lambda>_. v) (sm_stats sm))"
    let ?sm = "sm\<lparr>sm_input_fifos := (sm_input_fifos sm)[i := q'], sm_stats := stats\<rparr>"
    let ?st = "st(DSTop i := Connection_send [pck] (st (DSTop i)))"
    have "OSMeshSDMemory_send_port i (sm, st) = Inr (?sm, ?st)"
      using len p i q q' w v by (simp add: OSMeshSDMemory_send_port_def stats_def)
    moreover have "mem_wf J ?sm" using wf w v by (simp add: mem_wf_def stats_def)
    moreover have "link ?st (DSTop i) (port sm i)" using p by simp
    ultimately show ?thesis using len q' by (simp add: mem_defs nth_list_update)
  qed
qed

lemma send_ok:
  assumes wf: "mem_wf J sm" and one: "\<And>i. i < jR J + jC J \<Longrightarrow> length (port sm i) \<le> 1"
    and links: "\<And>i. i < jR J + jC J \<Longrightarrow> link st (DSTop i) []"
  shows "\<exists>sm' st'. OSMeshSDMemory_send (sm, st) = Inr (sm', st') \<and> mem_wf J sm'
    \<and> mem_tile sm' = mem_tile sm \<and> mem_phase sm' = mem_phase sm \<and> mem_out sm' = mem_out sm
    \<and> sm_write_fifo sm' = sm_write_fifo sm
    \<and> (\<forall>i < jR J + jC J. port sm' i = [] \<and> link st' (DSTop i) (port sm i))
    \<and> (\<forall>c. (\<forall>i < jR J + jC J. c \<noteq> DSTop i) \<longrightarrow> st' c = st c)"
proof -
  define I where "I k s \<longleftrightarrow> (case s of (sm', st') \<Rightarrow> mem_wf J sm'
    \<and> mem_tile sm' = mem_tile sm \<and> mem_phase sm' = mem_phase sm \<and> mem_out sm' = mem_out sm
    \<and> sm_write_fifo sm' = sm_write_fifo sm
    \<and> (\<forall>i < jR J + jC J. port sm' i = (if i < k then [] else port sm i)
         \<and> link st' (DSTop i) (if i < k then port sm i else []))
    \<and> (\<forall>c. (\<forall>i < jR J + jC J. c \<noteq> DSTop i) \<longrightarrow> st' c = st c))" for k s
  have "\<exists>s'. rfold OSMeshSDMemory_send_port [0..<jR J + jC J] (sm, st) = Inr s' \<and> I (jR J + jC J) s'"
  proof (rule rfold_upt_total)
    show "I 0 (sm, st)" using wf links by (simp add: I_def)
  next
    fix k s assume k: "k < jR J + jC J" and "I k s"
    then obtain sm1 st1 where s: "s = (sm1, st1)" and 1: "mem_wf J sm1"
      "mem_tile sm1 = mem_tile sm" "mem_phase sm1 = mem_phase sm" "mem_out sm1 = mem_out sm"
      "sm_write_fifo sm1 = sm_write_fifo sm"
      "\<And>i. i < jR J + jC J \<Longrightarrow> port sm1 i = (if i < k then [] else port sm i)"
      "\<And>i. i < jR J + jC J \<Longrightarrow> link st1 (DSTop i) (if i < k then port sm i else [])"
      "\<And>c. \<forall>i < jR J + jC J. c \<noteq> DSTop i \<Longrightarrow> st1 c = st c"
      by (cases s) (simp add: I_def)
    have "length (port sm1 k) \<le> 1" "link st1 (DSTop k) []"
      using 1(6,7) [OF k] one [OF k] by simp_all
    from send_port_ok [OF 1(1) k this] obtain sm2 st2 where 2:
      "OSMeshSDMemory_send_port k (sm1, st1) = Inr (sm2, st2)" "mem_wf J sm2"
      "mem_tile sm2 = mem_tile sm1" "mem_phase sm2 = mem_phase sm1" "mem_out sm2 = mem_out sm1"
      "sm_write_fifo sm2 = sm_write_fifo sm1"
      "\<And>x. port sm2 x = (if x = k then [] else port sm1 x)"
      "link st2 (DSTop k) (port sm1 k)" "\<And>c. c \<noteq> DSTop k \<Longrightarrow> st2 c = st1 c" by blast
    have "port sm2 i = (if i < Suc k then [] else port sm i)
        \<and> link st2 (DSTop i) (if i < Suc k then port sm i else [])" if i: "i < jR J + jC J" for i
    proof (cases "i = k")
      case True
      then show ?thesis using 2(7,8) 1(6) [OF k] by simp
    next
      case False
      then have "st2 (DSTop i) = st1 (DSTop i)" using 2(9) by simp
      with False show ?thesis using 1(6,7) [OF i] 2(7) by (simp add: link_def less_Suc_eq)
    qed
    moreover have "st2 c = st c" if "\<forall>i < jR J + jC J. c \<noteq> DSTop i" for c
      using that 1(8) [OF that] 2(9) k by simp
    ultimately have "I (Suc k) (sm2, st2)" using 1 2 by (simp add: I_def)
    with 2(1) s show "\<exists>s'. OSMeshSDMemory_send_port k s = Inr s' \<and> I (Suc k) s'" by blast
  qed
  moreover have "sm_n_read_ports sm = jR J + jC J" using wf by (simp add: mem_wf_def)
  ultimately show ?thesis by (auto simp: OSMeshSDMemory_send_def I_def)
qed

lemma receive_ok:
  assumes wf: "mem_wf J sm" and lt: "link st OutLT []"
    and links: "\<And>b. b < jB J \<Longrightarrow> link st (BusOut b) (X b)"
  shows "\<exists>sm' st'. OSMeshSDMemory_receive (sm, st) = Inr (sm', st') \<and> mem_wf J sm'
    \<and> mem_tile sm' = mem_tile sm \<and> mem_phase sm' = mem_phase sm \<and> mem_out sm' = mem_out sm
    \<and> sm_input_fifos sm' = sm_input_fifos sm
    \<and> f_fifo (sm_write_fifo sm') = f_fifo (sm_write_fifo sm) @ concat (map X [0..<jB J])
    \<and> (\<forall>b < jB J. link st' (BusOut b) []) \<and> (\<forall>c. (\<forall>b < jB J. c \<noteq> BusOut b) \<longrightarrow> st' c = st c)"
proof -
  define I where "I k s \<longleftrightarrow> (case s of (sm', st') \<Rightarrow> mem_wf J sm'
    \<and> mem_tile sm' = mem_tile sm \<and> mem_phase sm' = mem_phase sm \<and> mem_out sm' = mem_out sm
    \<and> sm_input_fifos sm' = sm_input_fifos sm
    \<and> f_fifo (sm_write_fifo sm') = f_fifo (sm_write_fifo sm) @ concat (map X [0..<k])
    \<and> (\<forall>b < jB J. link st' (BusOut b) (if b < k then [] else X b))
    \<and> (\<forall>c. (\<forall>b < jB J. c \<noteq> BusOut b) \<longrightarrow> st' c = st c))" for k s
  have "\<exists>s'. rfold (\<lambda>b. OSMeshSDMemory_receive_from (Some (BusOut b))) [0..<jB J] (sm, st) = Inr s' \<and> I (jB J) s'"
  proof (rule rfold_upt_total)
    show "I 0 (sm, st)" using wf links by (simp add: I_def)
  next
    fix k s assume k: "k < jB J" and "I k s"
    then obtain sm1 st1 where s: "s = (sm1, st1)" and 1: "mem_wf J sm1"
      "mem_tile sm1 = mem_tile sm" "mem_phase sm1 = mem_phase sm" "mem_out sm1 = mem_out sm"
      "sm_input_fifos sm1 = sm_input_fifos sm"
      "f_fifo (sm_write_fifo sm1) = f_fifo (sm_write_fifo sm) @ concat (map X [0..<k])"
      "\<And>b. b < jB J \<Longrightarrow> link st1 (BusOut b) (if b < k then [] else X b)"
      "\<And>c. \<forall>b < jB J. c \<noteq> BusOut b \<Longrightarrow> st1 c = st c"
      by (cases s) (simp add: I_def)
    have lk: "link st1 (BusOut k) (X k)" using 1(7) [OF k] by simp
    show "\<exists>s'. OSMeshSDMemory_receive_from (Some (BusOut k)) s = Inr s' \<and> I (Suc k) s'"
    proof (cases "X k")
      case Nil
      then have "OSMeshSDMemory_receive_from (Some (BusOut k)) s = Inr s"
        using lk s by (simp add: OSMeshSDMemory_receive_from_def link_pend)
      moreover have "link st1 (BusOut b) (if b < Suc k then [] else X b)" if "b < jB J" for b
        using 1(7) [OF that] Nil by (cases "b = k") (simp_all add: less_Suc_eq)
      then have "I (Suc k) s"
        using 1 s Nil by (simp add: I_def)
      ultimately show ?thesis by blast
    next
      case (Cons p ps)
      let ?sm = "sm1\<lparr>sm_write_fifo := Fifo_push_all (X k) (sm_write_fifo sm1)\<rparr>"
      let ?st = "st1(BusOut k := snd (Connection_receive (st1 (BusOut k))))"
      have "OSMeshSDMemory_receive_from (Some (BusOut k)) s = Inr (?sm, ?st)"
        using lk s Cons by (simp add: OSMeshSDMemory_receive_from_def link_pend link_flight)
      moreover have "mem_wf J ?sm" using 1(1) by (simp add: mem_wf_def)
      moreover have "link ?st (BusOut b) (if b < Suc k then [] else X b)" if "b < jB J" for b
        using 1(7) [OF that] by (cases "b = k") (simp_all add: less_Suc_eq)
      moreover have "?st c = st c" if "\<forall>b < jB J. c \<noteq> BusOut b" for c
        using 1(8) [OF that] that k by simp
      ultimately have "I (Suc k) (?sm, ?st)" using 1(2-6) by (simp add: I_def mem_defs)
      with \<open>OSMeshSDMemory_receive_from (Some (BusOut k)) s = Inr (?sm, ?st)\<close> show ?thesis by blast
    qed
  qed
  moreover have "OSMeshSDMemory_receive (sm, st)
      = rfold (\<lambda>b. OSMeshSDMemory_receive_from (Some (BusOut b))) [0..<jB J] (sm, st)"
    using wf lt by (simp add: OSMeshSDMemory_receive_def mem_wf_def OSMeshSDMemory_receive_from_def [of "Some OutLT"]
        link_pend rfold_map)
  ultimately show ?thesis by (auto simp: I_def)
qed

section \<open>The output\<close>

text \<open>The element \<open>(m, n)\<close> of the product, summed in the order of \<open>k\<close>.\<close>

definition term_at :: "'d::times job \<Rightarrow> nat \<Rightarrow> nat \<Rightarrow> nat \<Rightarrow> 'd" where
  "term_at J m n k = jMK J ! (m * jK J + k) * jKN J ! (n * jK J + k)"

definition dot :: "'d::{plus,times} job \<Rightarrow> nat \<Rightarrow> nat \<Rightarrow> 'd" where
  "dot J m n = foldl (+) (term_at J m n 0) (map (term_at J m n) [1..<jK J])"

text \<open>The element virtual neuron \<open>v\<close> of tile \<open>z\<close> computes, and the tile of an element.\<close>

definition coord :: "'d job \<Rightarrow> nat \<Rightarrow> nat \<Rightarrow> nat \<times> nat" where
  "coord J z v = (row0 J z + v div cols J z, col0 J z + v mod cols J z)"

definition tile_of :: "'d job \<Rightarrow> nat \<times> nat \<Rightarrow> nat" where
  "tile_of J = (\<lambda>(m, n). m div jTM J * iterN J + n div jTN J)"

abbreviation elements :: "'d job \<Rightarrow> (nat \<times> nat) set" where
  "elements J \<equiv> {..<jM J} \<times> {..<jN J}"

definition before :: "'d job \<Rightarrow> nat \<Rightarrow> (nat \<times> nat) set" where
  "before J z = {mn \<in> elements J. tile_of J mn < z}"

abbreviation tile_vns :: "'d job \<Rightarrow> nat \<Rightarrow> nat set" where
  "tile_vns J z \<equiv> {..<rows J z * cols J z}"

definition written :: "'d job \<Rightarrow> nat \<Rightarrow> nat set \<Rightarrow> (nat \<times> nat) set" where
  "written J z D = before J z \<union> coord J z ` D"

lemma tile_of_coord:
  assumes J: "job_ok J" and z: "z < iterM J * iterN J" and v: "v < rows J z * cols J z"
  shows "coord J z v \<in> elements J" "tile_of J (coord J z v) = z"
proof -
  have r: "v div cols J z < rows J z" using v by (simp add: less_mult_imp_div_less)
  have c: "v mod cols J z < cols J z" using cols_bounds(1) [OF J, of z] by simp
  show "coord J z v \<in> elements J"
    using r c rows_bounds(4) [OF J z] cols_bounds(4) [OF J, of z] by (simp add: coord_def)
  have "(row0 J z + v div cols J z) div jTM J = z div iterN J"
    using r rows_bounds(3) [OF J z] by (simp add: row0_def)
  moreover have "(col0 J z + v mod cols J z) div jTN J = z mod iterN J"
    using c cols_bounds(3) [OF J, of z] by (simp add: col0_def)
  ultimately show "tile_of J (coord J z v) = z" by (simp add: tile_of_def coord_def)
qed

lemma coord_inj: "job_ok J \<Longrightarrow> inj_on (coord J z) A"
  by (rule inj_onI) (metis Pair_inject add_left_cancel coord_def div_mult_mod_eq)

lemma tile_elements:
  assumes J: "job_ok J" and z: "z < iterM J * iterN J"
  shows "coord J z ` tile_vns J z = {mn \<in> elements J. tile_of J mn = z}"
proof (intro equalityI subsetI)
  fix mn assume "mn \<in> coord J z ` tile_vns J z"
  then show "mn \<in> {mn \<in> elements J. tile_of J mn = z}" using tile_of_coord [OF J z] by auto
next
  fix mn assume a: "mn \<in> {mn \<in> elements J. tile_of J mn = z}"
  obtain m n where mn: "mn = (m, n)" by (cases mn)
  have mN: "m < jM J" "n < jN J" and t: "m div jTM J * iterN J + n div jTN J = z"
    using a mn by (auto simp: tile_of_def)
  have TN: "0 < jTN J" "0 < jTM J" using J by (simp_all add: job_ok_def)
  have nN: "n div jTN J < iterN J"
    using TN ceil_div_less_iff [of "jTN J" "n div jTN J" "jN J"] mN(2)
    by (simp add: iterN_def) (metis div_times_less_eq_dividend le_less_trans)
  then have zd: "z div iterN J = m div jTM J" "z mod iterN J = n div jTN J"
    using t by auto
  have m: "m = row0 J z + m mod jTM J" "n = col0 J z + n mod jTN J"
    by (simp_all add: row0_def col0_def zd)
  have lt: "m mod jTM J < rows J z" "n mod jTN J < cols J z"
    using m mN TN by (auto simp: rows_def cols_def less_diff_conv add.commute)
  define v where "v = m mod jTM J * cols J z + n mod jTN J"
  have "v < rows J z * cols J z" using index_less [OF lt(1,2)] by (simp add: v_def)
  moreover have "coord J z v = mn" using lt m by (simp add: coord_def v_def mn)
  ultimately show "mn \<in> coord J z ` tile_vns J z" by force
qed

lemma before_Suc:
  assumes "job_ok J" and "z < iterM J * iterN J"
  shows "before J (Suc z) = written J z (tile_vns J z)"
  by (auto simp: before_def written_def tile_elements [OF assms] less_Suc_eq)

lemma before_0: "before J 0 = {}"
  by (simp add: before_def)

lemma before_all: "job_ok J \<Longrightarrow> before J (iterM J * iterN J) = elements J"
proof -
  assume J: "job_ok J"
  then have T: "0 < jTM J" "0 < jTN J" by (simp_all add: job_ok_def)
  have "tile_of J (m, n) < iterM J * iterN J" if "m < jM J" "n < jN J" for m n
  proof -
    have "m div jTM J < iterM J" "n div jTN J < iterN J"
      using T that ceil_div_less_iff [of "jTM J" "m div jTM J" "jM J"] ceil_div_less_iff [of "jTN J" "n div jTN J" "jN J"]
      by (simp_all add: iterM_def iterN_def) (metis div_times_less_eq_dividend le_less_trans)+
    from index_less [OF this] show ?thesis by (simp add: tile_of_def)
  qed
  then show ?thesis by (auto simp: before_def)
qed

lemma finite_written: "finite D \<Longrightarrow> finite (written J z D)"
proof -
  assume "finite D"
  moreover have "finite (before J z)"
    by (rule finite_subset [of _ "elements J"]) (auto simp: before_def)
  ultimately show ?thesis by (simp add: written_def)
qed

lemma written_insert:
  assumes J: "job_ok J" and z: "z < iterM J * iterN J" and D: "D \<subseteq> tile_vns J z"
    and v: "v \<in> tile_vns J z" "v \<notin> D"
  shows "written J z (insert v D) = insert (coord J z v) (written J z D)"
    and "coord J z v \<notin> written J z D" and "card (written J z (insert v D)) = Suc (card (written J z D))"
proof -
  show e: "written J z (insert v D) = insert (coord J z v) (written J z D)"
    by (auto simp: written_def)
  have "coord J z v \<notin> before J z" using tile_of_coord [OF J z] v by (simp add: before_def)
  moreover have "coord J z v \<notin> coord J z ` D"
    using coord_inj [OF J, of z UNIV] v(2) by (auto dest: injD)
  ultimately show n: "coord J z v \<notin> written J z D" by (simp add: written_def)
  have "finite D" using D by (rule finite_subset) simp
  from finite_written [OF this, of J z] n show "card (written J z (insert v D)) = Suc (card (written J z D))"
    unfolding e by simp
qed

lemma written_subset:
  assumes "job_ok J" and "z < iterM J * iterN J" and "D \<subseteq> tile_vns J z"
  shows "written J z D \<subseteq> elements J"
proof -
  have "coord J z ` D \<subseteq> elements J"
    using tile_of_coord(1) [OF assms(1,2)] assms(3) by (intro image_subsetI) (blast dest: lessThan_iff [THEN iffD1])
  moreover have "before J z \<subseteq> elements J" by (simp add: before_def)
  ultimately show ?thesis by (simp add: written_def)
qed

lemma written_full:
  assumes J: "job_ok J" and z: "z < iterM J * iterN J" and D: "D \<subseteq> tile_vns J z"
  shows "card (written J z D) = jM J * jN J \<longleftrightarrow> D = tile_vns J z \<and> Suc z = iterM J * iterN J"
proof
  assume "card (written J z D) = jM J * jN J"
  then have "card (written J z D) = card (elements J)" by (simp add: card_cartesian_product)
  then have all: "written J z D = elements J"
    using card_subset_eq [OF _ written_subset [OF J z D]] by simp
  have "tile_vns J z \<subseteq> D"
  proof
    fix v assume v: "v \<in> tile_vns J z"
    show "v \<in> D" using written_insert(2) [OF J z D v] tile_of_coord(1) [OF J z, of v] v all by auto
  qed
  with D have DD: "D = tile_vns J z" by blast
  have "before J (Suc z) = elements J" using all before_Suc [OF J z] DD by simp
  moreover have "(jM J - 1, jN J - 1) \<in> elements J" using J by (simp add: job_ok_def)
  ultimately have "(jM J - 1, jN J - 1) \<in> before J (Suc z)" by simp
  then have "tile_of J (jM J - 1, jN J - 1) < Suc z" unfolding before_def by blast
  moreover have "tile_of J (jM J - 1, jN J - 1) = iterM J * iterN J - 1"
  proof -
    have T: "0 < jTM J" "0 < jTN J" "0 < jM J" "0 < jN J" using J by (simp_all add: job_ok_def)
    have q: "(a - 1) div b = ceil_div a b - 1" if "0 < a" "0 < b" for a b :: nat
    proof -
      have "(a - 1) div b < ceil_div a b"
        using ceil_div_less_iff [OF that(2), of "(a - 1) div b" a] that
        by (metis diff_less div_times_less_eq_dividend le_less_trans less_one)
      moreover have "ceil_div a b - 1 \<le> (a - 1) div b"
      proof -
        have "ceil_div a b - 1 < ceil_div a b" using calculation by simp
        then have "(ceil_div a b - 1) * b \<le> a - 1" using ceil_div_less_iff [OF that(2)] by fastforce
        then show ?thesis using that by (simp add: less_eq_div_iff_mult_less_eq)
      qed
      ultimately show ?thesis by simp
    qed
    have "0 < iterM J" using ceil_div_less_iff [of "jTM J" 0 "jM J"] T by (simp add: iterM_def)
    then obtain a where a: "iterM J = Suc a" by (cases "iterM J") auto
    have "tile_of J (jM J - 1, jN J - 1) = (iterM J - 1) * iterN J + (iterN J - 1)"
      using q T by (simp add: tile_of_def iterM_def iterN_def)
    also have "\<dots> = iterM J * iterN J - 1" using a iterN_pos [OF J] by simp
    finally show ?thesis .
  qed
  ultimately have "iterM J * iterN J - 1 < Suc z" by simp
  with z DD show "D = tile_vns J z \<and> Suc z = iterM J * iterN J" by simp
next
  assume "D = tile_vns J z \<and> Suc z = iterM J * iterN J"
  then have "written J z D = elements J" using before_Suc [OF J z] before_all [OF J] by simp
  then show "card (written J z D) = jM J * jN J" by (simp add: card_cartesian_product)
qed

definition out_ok :: "'d::{plus,times} job \<Rightarrow> (nat \<times> nat) set \<Rightarrow> 'd list \<Rightarrow> bool" where
  "out_ok J S out \<longleftrightarrow> length out = jM J * jN J
     \<and> (\<forall>m n. (m, n) \<in> S \<longrightarrow> out ! (m * jN J + n) = dot J m n)"

lemma out_ok_insert:
  assumes o': "out_ok J S out" and S: "insert (m, n) S \<subseteq> elements J" and d: "d = dot J m n"
  shows "out_ok J (insert (m, n) S) (out[m * jN J + n := d])"
  unfolding out_ok_def
proof (intro conjI allI impI)
  show "length (out[m * jN J + n := d]) = jM J * jN J" using o' by (simp add: out_ok_def)
  fix m' n' assume a: "(m', n') \<in> insert (m, n) S"
  have mn: "m < jM J" "n < jN J" "m' < jM J" "n' < jN J" using S a by auto
  have len: "m * jN J + n < length out" using index_less [OF mn(1,2)] o' by (simp add: out_ok_def)
  show "out[m * jN J + n := d] ! (m' * jN J + n') = dot J m' n'"
  proof (cases "m' * jN J + n' = m * jN J + n")
    case True
    have "m' = (m' * jN J + n') div jN J" "n' = (m' * jN J + n') mod jN J" using mn by simp_all
    then have "m' = m" "n' = n" unfolding True using mn by simp_all
    with len d show ?thesis by simp
  next
    case False
    with a have "(m', n') \<in> S" by auto
    with False o' show ?thesis by (simp add: out_ok_def)
  qed
qed

definition progress :: "'d::{plus,times} job \<Rightarrow> nat \<Rightarrow> nat set \<Rightarrow> 'd OSMeshSDMemory \<Rightarrow> bool" where
  "progress J z D sm \<longleftrightarrow> sm_n_iterations_completed sm = z \<and> sm_current_output_iteration sm = card D
     \<and> sm_current_output sm = card (written J z D) \<and> out_ok J (written J z D) (sm_output_address sm)
     \<and> \<not> sm_execution_finished sm"

definition completed :: "'d::{plus,times} job \<Rightarrow> 'd OSMeshSDMemory \<Rightarrow> bool" where
  "completed J sm \<longleftrightarrow> sm_execution_finished sm \<and> out_ok J (elements J) (sm_output_address sm)"

text \<open>The state of the controller once all results of tile \<open>z\<close> are written.\<close>

definition tile_end :: "'d::{plus,times} job \<Rightarrow> nat \<Rightarrow> 'd OSMeshSDMemory \<Rightarrow> bool" where
  "tile_end J z sm \<longleftrightarrow>
     (if Suc z = iterM J * iterN J then completed J sm else progress J (Suc z) {} sm)"

lemma small_sizes:
  assumes "job_ok J" and "z < iterM J * iterN J"
  shows "rows J z * cols J z < u32_max" "jM J * jN J < u32_max" "Suc z < u32_max"
proof -
  show MN: "jM J * jN J < u32_max" using assms(1) by (simp add: job_ok_def)
  have "rows J z * cols J z \<le> jR J * jC J"
    using rows_bounds(2) [OF assms] cols_bounds(2) [OF assms(1), of z] by (intro mult_le_mono)
  then show "rows J z * cols J z < u32_max" using assms(1) unfolding job_ok_def by linarith
  have "card (before J (Suc z)) \<le> card (elements J)"
    by (rule card_mono) (auto simp: before_def)
  have q: "z div iterN J < jM J"
  proof -
    have "z div iterN J \<le> row0 J z" using assms(1) by (simp add: row0_def job_ok_def)
    then show ?thesis using row0_less [OF assms] by simp
  qed
  have r: "z mod iterN J < jN J"
  proof -
    have "z mod iterN J \<le> col0 J z" using assms(1) by (simp add: col0_def job_ok_def)
    then show ?thesis using col0_less [OF assms(1), of z] by simp
  qed
  have "z \<le> z div iterN J * jN J + z mod iterN J"
  proof -
    have "iterN J \<le> jN J"
    proof (rule ccontr)
      assume "\<not> iterN J \<le> jN J"
      then have "jN J * jTN J < jN J"
        using assms(1) ceil_div_less_iff [of "jTN J" "jN J" "jN J"] by (simp add: iterN_def job_ok_def)
      then show False using assms(1) by (simp add: job_ok_def)
    qed
    then have "z div iterN J * iterN J \<le> z div iterN J * jN J" by simp
    then show ?thesis using div_mult_mod_eq [of z "iterN J"] by linarith
  qed
  also have "\<dots> < jM J * jN J" using index_less [OF q r] .
  finally show "Suc z < u32_max" using MN by simp
qed

lemma count_eq:
  fixes sm :: "'d OSMeshSDMemory"
  assumes "uadd (sm_current_output sm) 1 = cW" "uadd (sm_current_output_iteration sm) 1 = cI"
    "uadd (sm_n_iterations_completed sm) 1 = z'" "umul (sm_M sm) (sm_N sm) = MN"
    "umul (sm_rows_used sm) (sm_cols_used sm) = RC" "\<not> sm_execution_finished sm"
  shows "OSMeshSDMemory_count_tile (OSMeshSDMemory_count_output sm) =
    (let s = sm\<lparr>sm_current_output := cW, sm_execution_finished := (cW = MN), sm_current_output_iteration := cI\<rparr>
     in if cI = RC then s\<lparr>sm_current_output_iteration := 0, sm_n_iterations_completed := z',
           sm_iteration_completed := (sm_current_state sm = OS_WAITING_FOR_NEXT_ITER \<or> sm_iteration_completed sm)\<rparr>
        else s)"
proof -
  define s1 where "s1 = OSMeshSDMemory_count_output sm"
  have s1: "s1 = sm\<lparr>sm_current_output := cW, sm_execution_finished := (cW = MN)\<rparr>"
    using assms(1,4,6) by (simp add: s1_def OSMeshSDMemory_count_output_def Let_def)
  have "uadd (sm_current_output_iteration s1) 1 = cI" "uadd (sm_n_iterations_completed s1) 1 = z'"
    "umul (sm_rows_used s1) (sm_cols_used s1) = RC" using assms by (simp_all add: s1)
  then have "OSMeshSDMemory_count_tile s1 = (let s = s1\<lparr>sm_current_output_iteration := cI\<rparr>
     in if cI = RC then s\<lparr>sm_current_output_iteration := 0, sm_n_iterations_completed := z',
           sm_iteration_completed := (sm_current_state s1 = OS_WAITING_FOR_NEXT_ITER \<or> sm_iteration_completed s1)\<rparr>
        else s)"
    by (cases "cI = RC"; cases "sm_current_state s1 = OS_WAITING_FOR_NEXT_ITER")
      (simp_all add: OSMeshSDMemory_count_tile_def Let_def)
  then show ?thesis unfolding s1_def [symmetric] by (simp add: s1 Let_def)
qed

lemma write_ok:
  assumes J: "job_ok J" and z: "z < iterM J * iterN J" and wf: "mem_wf J sm"
    and D: "D \<subseteq> tile_vns J z" and v: "v \<in> tile_vns J z" "v \<notin> D"
    and used: "sm_rows_used sm = rows J z" "sm_cols_used sm = cols J z"
    and q: "f_fifo (sm_write_fifo sm) = pck # rest" and pck: "p_VN pck = v"
      "p_data pck = dot J (fst (coord J z v)) (snd (coord J z v))"
    and prog: "progress J z D sm"
  shows "\<exists>sm'. OSMeshSDMemory_write sm = Inr sm' \<and> mem_wf J sm' \<and> mem_tile sm' = mem_tile sm
    \<and> sm_input_fifos sm' = sm_input_fifos sm \<and> f_fifo (sm_write_fifo sm') = rest
    \<and> sm_current_state sm' = sm_current_state sm
    \<and> (if insert v D = tile_vns J z
       then tile_end J z sm'
         \<and> sm_iteration_completed sm' = (sm_current_state sm = OS_WAITING_FOR_NEXT_ITER \<or> sm_iteration_completed sm)
       else progress J z (insert v D) sm' \<and> sm_iteration_completed sm' = sm_iteration_completed sm)"
proof -
  obtain m n where mn: "coord J z v = (m, n)" by (cases "coord J z v")
  have el: "m < jM J" "n < jN J" using tile_of_coord(1) [OF J z, of v] v mn by simp_all
  have idx: "m * jN J + n < jM J * jN J" using index_less [OF el] .
  have bound: "jM J * jN J < u32_max" "rows J z * cols J z < u32_max" "Suc z < u32_max"
    using small_sizes [OF J z] by simp_all
  have coord: "m = row0 J z + v div cols J z" "n = col0 J z + v mod cols J z" using mn by (simp_all add: coord_def)
  have mle: "m \<le> m * jN J" using el by simp
  have "m * jN J + n < u32_max" using idx bound(1) by linarith
  moreover have "m < u32_max" using mle calculation by linarith
  ultimately have addr: "uadd (uadd (umul (uadd (row0 J z) (v div cols J z)) (jN J)) (col0 J z)) (v mod cols J z) = m * jN J + n"
    "umul (z div iterN J) (jTM J) = row0 J z" "umul (z mod iterN J) (jTN J) = col0 J z"
    using coord by (simp_all add: uadd_small umul_small row0_def [symmetric] col0_def [symmetric])
  have fD: "finite D" using D by (rule finite_subset) simp
  have card: "card (insert v D) = Suc (card D)" using fD v by simp
  have iD: "insert v D \<subseteq> tile_vns J z" using D v by simp
  have cardle: "card (insert v D) \<le> rows J z * cols J z" using card_mono [OF _ iD] by simp
  have full: "card (insert v D) = rows J z * cols J z \<longleftrightarrow> insert v D = tile_vns J z"
    by (metis card_lessThan card_subset_eq finite_lessThan iD)
  let ?W = "written J z (insert v D)"
  have W: "?W = insert (m, n) (written J z D)" "card ?W = Suc (card (written J z D))"
    using written_insert [OF J z D v] mn by simp_all
  have sub: "?W \<subseteq> elements J" using written_subset [OF J z iD] .
  have Wle: "card ?W \<le> jM J * jN J" using card_mono [OF _ sub] by (simp add: card_cartesian_product)
  have sm: "sm_iter_N sm = iterN J" "iterN J \<noteq> 0" "sm_T_M sm = jTM J" "sm_T_N sm = jTN J" "sm_M sm = jM J"
    "sm_N sm = jN J" "cols J z \<noteq> 0" "v < length (sm_vnat_table sm)" "sm_n_iterations_completed sm = z"
    "sm_current_output sm = card (written J z D)" "sm_current_output_iteration sm = card D"
    "length (sm_output_address sm) = jM J * jN J"
    "\<not> sm_execution_finished sm"
  proof -
    have "rows J z * cols J z \<le> jTM J * jTN J"
      using rows_bounds(3) [OF J z] cols_bounds(3) [OF J, of z] by (intro mult_le_mono)
    then show "v < length (sm_vnat_table sm)" using wf v by (auto simp: mem_wf_def)
  qed (use wf prog iterN_pos [OF J] cols_bounds(1) [OF J, of z] in \<open>simp_all add: mem_wf_def progress_def\<close>)
  obtain q' where q': "Fifo_pop (sm_write_fifo sm) = Inr (pck, q')" "f_fifo q' = rest"
    using fq.pop_items [OF q] by blast
  define cW where "cW = card ?W"
  define cI where "cI = card (insert v D)"
  define all where "all \<longleftrightarrow> insert v D = tile_vns J z"
  let ?out = "(sm_output_address sm)[m * jN J + n := p_data pck]"
  define sm1 where "sm1 = sm\<lparr>sm_write_fifo := q',
     sm_stats := ss_n_SRAM_psum_writes_update (\<lambda>n. n + 1) (sm_stats sm),
     sm_vnat_table := (sm_vnat_table sm)[v := uadd (sm_vnat_table sm ! v) 1], sm_output_address := ?out\<rparr>"
  define sm2 where "sm2 = OSMeshSDMemory_count_tile (OSMeshSDMemory_count_output sm1)"
  have u: "uadd (sm_current_output sm1) 1 = cW" "uadd (sm_current_output_iteration sm1) 1 = cI"
    "uadd (sm_n_iterations_completed sm1) 1 = Suc z" "umul (sm_M sm1) (sm_N sm1) = jM J * jN J"
    "umul (sm_rows_used sm1) (sm_cols_used sm1) = rows J z * cols J z" "\<not> sm_execution_finished sm1"
    using W(2) Wle card cardle bound sm used by (simp_all add: uadd_small umul_small cW_def cI_def sm1_def)
  have "cI = rows J z * cols J z \<longleftrightarrow> all" using full by (simp add: cI_def all_def)
  note count = count_eq [OF u, unfolded this, folded sm2_def]
  have addr': "uadd (uadd (umul (uadd (umul (z div sm_iter_N sm) (sm_T_M sm)) (v div sm_cols_used sm)) (sm_N sm))
     (umul (z mod sm_iter_N sm) (sm_T_N sm))) (v mod sm_cols_used sm) = m * jN J + n"
    unfolding sm used addr ..
  have "0 < sm_iter_N sm" "0 < sm_cols_used sm" using sm(1,2,7) used(2) by simp_all
  then have "OSMeshSDMemory_write sm = Inr sm2"
    using sm(8,12) addr' idx unfolding sm2_def sm1_def
    by (simp add: OSMeshSDMemory_write_def q'(1) pck(1) sm(9) Let_def)
  moreover have "mem_wf J sm2" using wf unfolding count by (simp add: sm1_def mem_wf_def Let_def)
  moreover have "out_ok J ?W ?out"
    unfolding W(1) using prog pck(2) mn sub W(1) by (intro out_ok_insert) (simp_all add: progress_def)
  moreover have "cW = jM J * jN J \<longleftrightarrow> all \<and> Suc z = iterM J * iterN J"
    unfolding cW_def all_def by (rule written_full [OF J z iD])
  moreover have "all \<Longrightarrow> written J (Suc z) {} = ?W"
    using before_Suc [OF J z] by (simp add: written_def all_def)
  moreover have "Suc z = iterM J * iterN J \<Longrightarrow> all \<Longrightarrow> elements J = ?W"
    using before_Suc [OF J z] before_all [OF J] by (simp add: all_def)
  ultimately show ?thesis
    using q'(2) unfolding count all_def [symmetric]
    by (cases all; cases "Suc z = iterM J * iterN J")
      (simp_all add: sm1_def sm(9) mem_tile_def tile_end_def progress_def completed_def cW_def [symmetric] cI_def [symmetric])
qed

text \<open>A package with the result of a virtual neuron of tile \<open>z\<close>.\<close>

definition result_ok :: "'d::{plus,times} job \<Rightarrow> nat \<Rightarrow> 'd DataPackage \<Rightarrow> bool" where
  "result_ok J z pck \<longleftrightarrow> p_VN pck \<in> tile_vns J z
     \<and> p_data pck = dot J (fst (coord J z (p_VN pck))) (snd (coord J z (p_VN pck)))"

lemma rfold_const: "rfold (\<lambda>_. f) xs s = riter (length xs) f s"
proof (induction xs arbitrary: s)
  case Nil
  then show ?case by simp
next
  case (Cons x xs)
  then show ?case by (cases "f s") simp_all
qed

lemma writes_ok:
  assumes J: "job_ok J" and z: "z < iterM J * iterN J"
    and "mem_wf J sm" and "D \<subseteq> tile_vns J z" and "D \<noteq> tile_vns J z"
    and "sm_rows_used sm = rows J z" "sm_cols_used sm = cols J z"
    and "f_fifo (sm_write_fifo sm) = xs" and "\<forall>p \<in> set xs. result_ok J z p"
    and "distinct (map p_VN xs)" and "p_VN ` set xs \<inter> D = {}" and "progress J z D sm"
  shows "\<exists>sm'. riter (length xs) OSMeshSDMemory_write sm = Inr sm' \<and> mem_wf J sm' \<and> mem_tile sm' = mem_tile sm
    \<and> sm_input_fifos sm' = sm_input_fifos sm \<and> f_fifo (sm_write_fifo sm') = []
    \<and> sm_current_state sm' = sm_current_state sm
    \<and> (if D \<union> p_VN ` set xs = tile_vns J z
       then tile_end J z sm'
         \<and> sm_iteration_completed sm' = (sm_current_state sm = OS_WAITING_FOR_NEXT_ITER \<or> sm_iteration_completed sm)
       else progress J z (D \<union> p_VN ` set xs) sm' \<and> sm_iteration_completed sm' = sm_iteration_completed sm)"
  using assms(3-)
proof (induction xs arbitrary: sm D)
  case Nil
  then show ?case by simp
next
  case (Cons p xs)
  let ?v = "p_VN p"
  have p: "?v \<in> tile_vns J z" "?v \<notin> D" "p_data p = dot J (fst (coord J z ?v)) (snd (coord J z ?v))"
    using Cons.prems(7,9) by (auto simp: result_ok_def)
  from write_ok [OF J z Cons.prems(1,2) p(1,2) Cons.prems(4,5,6) refl p(3) Cons.prems(10)] obtain s1 where
    s1: "OSMeshSDMemory_write sm = Inr s1" "mem_wf J s1" "mem_tile s1 = mem_tile sm"
      "sm_input_fifos s1 = sm_input_fifos sm" "f_fifo (sm_write_fifo s1) = xs"
      "sm_current_state s1 = sm_current_state sm"
    and c: "if insert ?v D = tile_vns J z
       then tile_end J z s1
         \<and> sm_iteration_completed s1 = (sm_current_state sm = OS_WAITING_FOR_NEXT_ITER \<or> sm_iteration_completed sm)
       else progress J z (insert ?v D) s1 \<and> sm_iteration_completed s1 = sm_iteration_completed sm"
    by blast
  have used: "sm_rows_used s1 = rows J z" "sm_cols_used s1 = cols J z"
    using s1(3) Cons.prems(4,5) by (simp_all add: mem_tile_def)
  have U: "D \<union> p_VN ` set (p # xs) = insert ?v D \<union> p_VN ` set xs" by auto
  show ?case
  proof (cases "insert ?v D = tile_vns J z")
    case True
    have "xs = []"
    proof (cases xs)
      case (Cons q qs)
      then have "p_VN q \<in> tile_vns J z" "p_VN q \<noteq> ?v" "p_VN q \<notin> D"
        using Cons.prems(7,8,9) by (auto simp: result_ok_def)
      with True show ?thesis by blast
    qed simp
    with s1 c True show ?thesis by simp
  next
    case False
    with c have c': "progress J z (insert ?v D) s1" "sm_iteration_completed s1 = sm_iteration_completed sm" by simp_all
    have D': "insert ?v D \<subseteq> tile_vns J z" using Cons.prems(2) p(1) by simp
    have d: "distinct (map p_VN xs)" "p_VN ` set xs \<inter> insert ?v D = {}" "\<forall>p \<in> set xs. result_ok J z p"
      using Cons.prems(7,8,9) by auto
    have r: "riter (length (p # xs)) OSMeshSDMemory_write sm = riter (length xs) OSMeshSDMemory_write s1"
      using s1(1) by simp
    show ?thesis
      unfolding U r s1(3,4,6) [symmetric] c'(2) [symmetric]
      by (rule Cons.IH [OF s1(2) D' False used s1(5) d(3,1,2) c'(1)])
  qed
qed

section \<open>The phases of the controller\<close>

definition conf_phase :: "'d job \<Rightarrow> nat \<Rightarrow> 'd OSMeshSDMemory \<Rightarrow> bool" where
  "conf_phase J z sm \<longleftrightarrow> sm_current_state sm = OS_CONFIGURING
     \<and> sm_current_M sm = z div iterN J \<and> sm_current_N sm = z mod iterN J \<and> sm_current_K sm = 0"

definition stream_phase :: "'d job \<Rightarrow> nat \<Rightarrow> nat \<Rightarrow> 'd OSMeshSDMemory \<Rightarrow> bool" where
  "stream_phase J z t sm \<longleftrightarrow>
     (if t < jK J
      then sm_current_state sm = OS_DIST_INPUTS \<and> \<not> sm_iteration_completed sm \<and> at_tile J z t sm
      else mem_tile sm = (rows J z, cols J z, Suc z div iterN J, Suc z mod iterN J, 0)
        \<and> (if Suc z = iterM J * iterN J then sm_current_state sm = OS_ALL_DATA_SENT
           else sm_current_state sm = OS_WAITING_FOR_NEXT_ITER \<and> \<not> sm_iteration_completed sm))"

text \<open>The controller between two cycles: what it holds has been sent or written.\<close>

definition mem_rest :: "'d job \<Rightarrow> 'd OSMeshSDMemory \<Rightarrow> bool" where
  "mem_rest J sm \<longleftrightarrow> mem_wf J sm \<and> (\<forall>i < jR J + jC J. port sm i = []) \<and> f_fifo (sm_write_fifo sm) = []"

definition rn_wired :: "'d job \<Rightarrow> 'd TemporalRN \<Rightarrow> bool" where
  "rn_wired J rn \<longleftrightarrow>
     buffer_ok (jR J * jC J) (\<lambda>a. BusIn (a mod jB J) (a div jB J)) (tr_accumulationBuffer rn)"

definition rn_idle :: "'d job \<Rightarrow> 'd TemporalRN \<Rightarrow> bool" where
  "rn_idle J rn \<longleftrightarrow> rn_wired J rn
     \<and> (\<forall>a < jR J * jC J. f_fifo (ac_input_fifo (ab_accumulatortable (tr_accumulationBuffer rn) ! a)) = []
          \<and> f_fifo (ac_output_fifo (ab_accumulatortable (tr_accumulationBuffer rn) ! a)) = [])"

lemma configure_ok:
  fixes J :: "'d::{plus,times} job"
  assumes J: "job_ok J" and z: "z < iterM J * iterN J" and wf: "mem_wf J sm" and conf: "conf_phase J z sm"
    and mn: "mesh_ready (tile_pass J z) mn" and rn: "rn_idle J rn"
  shows "\<exists>sm' mn' rn'. OSMeshSDMemory_configure (sm, mn, rn) = Inr (sm', mn', rn')
    \<and> mem_wf J sm' \<and> at_tile J z 0 sm' \<and> sm_current_state sm' = sm_current_state sm
    \<and> \<not> sm_iteration_completed sm' \<and> mem_out sm' = mem_out sm
    \<and> sm_input_fifos sm' = sm_input_fifos sm \<and> sm_write_fifo sm' = sm_write_fifo sm
    \<and> mesh_table (tile_pass J z) 0 {} mn' \<and> rn_wired J rn'
    \<and> buffer_holds (jR J * jC J) (jK J) vn (\<lambda>_. []) (tr_accumulationBuffer rn')"
proof -
  obtain layer where layer: "sm_dnn_layer sm = Some layer" using wf by (auto simp: mem_wf_def)
  have sm: "sm_M sm = jM J" "sm_N sm = jN J" "sm_T_M sm = jTM J" "sm_T_N sm = jTN J" "sm_iter_K sm = jK J"
     "sm_ms_rows sm = jR J" "sm_ms_cols sm = jC J" using wf by (simp_all add: mem_wf_def)
  have c: "sm_current_M sm = z div iterN J" "sm_current_N sm = z mod iterN J" "sm_current_K sm = 0"
    using conf by (simp_all add: conf_phase_def)
  have bounds: "row0 J z < jM J" "col0 J z < jN J" using row0_less [OF J z] col0_less [OF J] by simp_all
  have "jM J \<le> jM J * jN J" "jN J \<le> jM J * jN J" using J by (simp_all add: job_ok_def)
  then have small: "jM J < u32_max" "jN J < u32_max" using J unfolding job_ok_def by linarith+
  have u: "usub (jM J) (umul (z div iterN J) (jTM J)) = jM J - row0 J z"
    "usub (jN J) (umul (z mod iterN J) (jTN J)) = jN J - col0 J z"
    using bounds small by (simp_all add: umul_small usub_small row0_def [symmetric] col0_def [symmetric])
  have min: "(if a < b then a else b) = min b a" for a b :: nat by simp
  have RC: "umul (jR J) (jC J) = jR J * jC J" using J by (simp add: job_ok_def umul_small)
  let ?p = "tile_pass J z"
  from OSMeshMN_resetSignals_ok [OF mn] obtain mn1 where mn1: "OSMeshMN_resetSignals mn = Inr mn1"
    "mesh_ready ?p mn1" "mesh_empty ?p mn1" by blast
  let ?tile = "Tile_conv 1 1 1 (cols J z) 1 1 (rows J z) 1 False"
  have "\<exists>mn'. OSMeshMN_configureSignals ?tile layer (ps_R ?p) (ps_C ?p) mn1 = Inr mn' \<and> mesh_table ?p 0 {} mn'"
    by (rule configureSignals_ok [OF mn1(2)])
      (use rows_bounds [OF J z] cols_bounds [OF J, of z] J mn1(3) in
        \<open>simp_all add: Tile_conv_def mesh_empty_def job_ok_def\<close>)
  then obtain mn2 where mn2: "OSMeshMN_configureSignals ?tile layer (jR J) (jC J) mn1 = Inr mn2"
    "mesh_table ?p 0 {} mn2" by auto
  let ?rn = "TemporalRN_configureSignals ?tile layer (jR J * jC J) (jK J) (TemporalRN_resetSignals rn)"
  have "jK J \<le> jM J * jK J" using J by (simp add: job_ok_def)
  then have K: "0 < jK J" "jK J < u32_max" using J unfolding job_ok_def by linarith+
  have ab: "buffer_ok (jR J * jC J) (\<lambda>a. BusIn (a mod jB J) (a div jB J)) (tr_accumulationBuffer rn)"
    "\<And>a. a < jR J * jC J \<Longrightarrow> f_fifo (ac_input_fifo (ab_accumulatortable (tr_accumulationBuffer rn) ! a)) = []
       \<and> f_fifo (ac_output_fifo (ab_accumulatortable (tr_accumulationBuffer rn) ! a)) = []"
    using rn by (simp_all add: rn_idle_def rn_wired_def)
  note abc = AccumulationBuffer_configure_ok [OF ab K]
  have "rn_wired J ?rn" "buffer_holds (jR J * jC J) (jK J) vn (\<lambda>_. []) (tr_accumulationBuffer ?rn)"
    using abc by (simp_all add: rn_wired_def TemporalRN_configureSignals_def TemporalRN_resetSignals_def)
  moreover define sm' where "sm' = sm\<lparr>sm_stats := ss_n_reconfigurations_update (\<lambda>n. n + 1) (sm_stats sm),
     sm_cols_used := cols J z, sm_rows_used := rows J z, sm_iteration_completed := False\<rparr>"
  moreover have "OSMeshSDMemory_configure (sm, mn, rn) = Inr (sm', mn2, ?rn)"
    using layer mn1(1) mn2(1)
    by (simp add: OSMeshSDMemory_configure_def Let_def sm c u min RC rows_def [symmetric] cols_def [symmetric] sm'_def
        if_distrib)
  moreover have "mem_wf J sm'" using wf by (simp add: sm'_def mem_wf_def)
  ultimately show ?thesis using mn2(2) c by (auto simp: sm'_def at_tile_def mem_defs)
qed

lemma mem_out_cong:
  assumes "mem_out sm' = mem_out sm"
  shows "progress J z D sm' = progress J z D sm" "completed J sm' = completed J sm"
    "tile_end J z sm' = tile_end J z sm"
  using assms by (simp_all add: mem_out_def progress_def completed_def tile_end_def)

lemma transition_simps [simp]:
  "mem_wf J (OSMeshSDMemory_transition sm) = mem_wf J sm"
  "mem_tile (OSMeshSDMemory_transition sm) = mem_tile sm"
  "mem_out (OSMeshSDMemory_transition sm) = mem_out sm"
  "sm_input_fifos (OSMeshSDMemory_transition sm) = sm_input_fifos sm"
  "sm_write_fifo (OSMeshSDMemory_transition sm) = sm_write_fifo sm"
  by (cases "sm_current_state sm"; simp add: OSMeshSDMemory_transition_def mem_wf_def mem_defs)+

text \<open>The second half of a cycle: receive, write, change the state, send.\<close>

definition mem_tail where
  "mem_tail = (\<lambda>(sm, mn, rn, st).
      rbind (OSMeshSDMemory_receive (sm, st)) (\<lambda>(sm, st).
      rbind (rfold (\<lambda>_. OSMeshSDMemory_write) [0..<length (f_fifo (sm_write_fifo sm))] sm) (\<lambda>sm.
      rbind (OSMeshSDMemory_send (OSMeshSDMemory_transition sm, st)) (\<lambda>(sm, st).
      Inr (sm, mn, rn, st)))))"

lemma mem_tail_ok:
  fixes J :: "'d::{plus,times} job"
  assumes J: "job_ok J" and z: "z < iterM J * iterN J" and wf: "mem_wf J sm"
    and D: "D \<subseteq> tile_vns J z" "D \<noteq> tile_vns J z" and used: "sm_rows_used sm = rows J z" "sm_cols_used sm = cols J z"
    and q: "f_fifo (sm_write_fifo sm) = []" and prog: "progress J z D sm"
    and one: "\<forall>i < jR J + jC J. length (port sm i) \<le> 1"
    and links: "link st OutLT []" "\<forall>b < jB J. link st (BusOut b) (X b)"
      "\<forall>i < jR J + jC J. link st (DSTop i) []"
    and xs: "xs = concat (map X [0..<jB J])" "\<forall>p \<in> set xs. result_ok J z p" "distinct (map p_VN xs)"
      "p_VN ` set xs \<inter> D = {}"
  shows "\<exists>sm1 sm' st'. mem_tail (sm, mn, rn, st) = Inr (sm', mn, rn, st') \<and> mem_rest J sm'
    \<and> mem_tile sm1 = mem_tile sm \<and> sm_current_state sm1 = sm_current_state sm
    \<and> (if D \<union> p_VN ` set xs = tile_vns J z
       then tile_end J z sm'
         \<and> sm_iteration_completed sm1 = (sm_current_state sm = OS_WAITING_FOR_NEXT_ITER \<or> sm_iteration_completed sm)
       else progress J z (D \<union> p_VN ` set xs) sm' \<and> sm_iteration_completed sm1 = sm_iteration_completed sm)
    \<and> mem_wf J sm1 \<and> mem_tile sm' = mem_tile sm \<and> mem_phase sm' = mem_phase (OSMeshSDMemory_transition sm1)
    \<and> (\<forall>i < jR J + jC J. link st' (DSTop i) (port sm i)) \<and> (\<forall>b < jB J. link st' (BusOut b) [])
    \<and> (\<forall>c. (\<forall>i < jR J + jC J. c \<noteq> DSTop i) \<longrightarrow> (\<forall>b < jB J. c \<noteq> BusOut b) \<longrightarrow> st' c = st c)"
proof -
  note one = one [rule_format] and links = links(1) links(2) [rule_format] links(3) [rule_format]
  from receive_ok [OF wf links(1,2)] obtain s0 st0 where
    0: "OSMeshSDMemory_receive (sm, st) = Inr (s0, st0)" "mem_wf J s0" "mem_tile s0 = mem_tile sm"
      "mem_phase s0 = mem_phase sm" "mem_out s0 = mem_out sm" "sm_input_fifos s0 = sm_input_fifos sm"
      "f_fifo (sm_write_fifo s0) = xs" "\<And>b. b < jB J \<Longrightarrow> link st0 (BusOut b) []"
      "\<And>c. \<forall>b < jB J. c \<noteq> BusOut b \<Longrightarrow> st0 c = st c"
    using q xs(1) by auto
  have used0: "sm_rows_used s0 = rows J z" "sm_cols_used s0 = cols J z"
    using 0(3) used by (simp_all add: mem_tile_def)
  have prog0: "progress J z D s0" using prog mem_out_cong(1) [OF 0(5)] by blast
  from writes_ok [OF J z 0(2) D used0 0(7) xs(2,3,4) prog0] obtain s1 where
    1: "riter (length xs) OSMeshSDMemory_write s0 = Inr s1" "mem_wf J s1" "mem_tile s1 = mem_tile s0"
      "sm_input_fifos s1 = sm_input_fifos s0" "f_fifo (sm_write_fifo s1) = []"
      "sm_current_state s1 = sm_current_state s0"
    and c: "if D \<union> p_VN ` set xs = tile_vns J z
       then tile_end J z s1
         \<and> sm_iteration_completed s1 = (sm_current_state s0 = OS_WAITING_FOR_NEXT_ITER \<or> sm_iteration_completed s0)
       else progress J z (D \<union> p_VN ` set xs) s1 \<and> sm_iteration_completed s1 = sm_iteration_completed s0"
    by blast
  let ?s = "OSMeshSDMemory_transition s1"
  have ports: "port ?s i = port sm i" for i using 1(4) 0(6) by simp
  have wfs: "mem_wf J ?s" using 1(2) by simp
  have top: "link st0 (DSTop i) []" if "i < jR J + jC J" for i
    using links(3) [OF that] 0(9) [of "DSTop i"] by (simp add: link_def)
  have "length (port ?s i) \<le> 1" if "i < jR J + jC J" for i using one [OF that] ports by simp
  from send_ok [OF wfs this top] obtain s2 st2 where
    2: "OSMeshSDMemory_send (?s, st0) = Inr (s2, st2)" "mem_wf J s2" "mem_tile s2 = mem_tile ?s"
      "mem_phase s2 = mem_phase ?s" "mem_out s2 = mem_out ?s" "sm_write_fifo s2 = sm_write_fifo ?s"
      "\<And>i. i < jR J + jC J \<Longrightarrow> port s2 i = [] \<and> link st2 (DSTop i) (port ?s i)"
      "\<And>c. \<forall>i < jR J + jC J. c \<noteq> DSTop i \<Longrightarrow> st2 c = st0 c"
    by blast
  have ph0: "sm_current_state s0 = sm_current_state sm" "sm_iteration_completed s0 = sm_iteration_completed sm"
    using 0(4) by (simp_all add: mem_phase_def)
  have out: "mem_out s2 = mem_out s1" using 2(5) by simp
  have "mem_tail (sm, mn, rn, st) = Inr (s2, mn, rn, st2)"
    using 0(1,7) 1(1) 2(1) by (simp add: mem_tail_def rfold_const)
  moreover have "mem_rest J s2" using 2(2,6,7) 1(5) by (simp add: mem_rest_def)
  moreover have "\<forall>i < jR J + jC J. link st2 (DSTop i) (port sm i)" using 2(7) ports by simp
  moreover have "\<forall>b < jB J. link st2 (BusOut b) []"
    using 0(8) 2(8) by (simp add: link_def)
  moreover have "st2 c = st c" if "\<forall>i < jR J + jC J. c \<noteq> DSTop i" "\<forall>b < jB J. c \<noteq> BusOut b" for c
    using 2(8) [OF that(1)] 0(9) [OF that(2)] by simp
  moreover have "if D \<union> p_VN ` set xs = tile_vns J z
       then tile_end J z s2
         \<and> sm_iteration_completed s1 = (sm_current_state sm = OS_WAITING_FOR_NEXT_ITER \<or> sm_iteration_completed sm)
       else progress J z (D \<union> p_VN ` set xs) s2 \<and> sm_iteration_completed s1 = sm_iteration_completed sm"
    using c unfolding ph0 mem_out_cong [OF out] .
  moreover have "mem_tile s2 = mem_tile sm" "mem_tile s1 = mem_tile sm" "sm_current_state s1 = sm_current_state sm"
    using 0(3) 1(3,6) 2(3) ph0 by simp_all
  ultimately show ?thesis using 1(2) 2(4) by blast
qed

lemma cycle_tail:
  assumes "sm_layer_loaded sm"
  shows "OSMeshSDMemory_cycle (sm, mn, rn, st) =
     (let sm0 = sm\<lparr>sm_local_cycle := sm_local_cycle sm + 1,
                  sm_stats := ss_total_cycles_update (\<lambda>n. n + 1) (sm_stats sm)\<rparr> in
      rbind (if sm_current_state sm = OS_CONFIGURING then OSMeshSDMemory_configure (sm0, mn, rn)
             else Inr (sm0, mn, rn)) (\<lambda>(sm, mn, rn).
      rbind (if sm_current_state sm = OS_DIST_INPUTS then OSMeshSDMemory_distribute sm
             else Inr sm) (\<lambda>sm. mem_tail (sm, mn, rn, st))))"
  using assms by (simp add: OSMeshSDMemory_cycle_def mem_tail_def Let_def)

text \<open>A cycle in the configuration state.\<close>

lemma mem_cycle_conf:
  fixes J :: "'d::{plus,times} job"
  assumes J: "job_ok J" and z: "z < iterM J * iterN J" and sm: "mem_rest J sm" "conf_phase J z sm" "progress J z {} sm"
    and mn: "mesh_ready (tile_pass J z) mn" and rn: "rn_idle J rn"
    and links: "link st OutLT []" "\<And>b. b < jB J \<Longrightarrow> link st (BusOut b) []"
      "\<And>i. i < jR J + jC J \<Longrightarrow> link st (DSTop i) []"
  shows "\<exists>sm' mn' rn' st'. OSMeshSDMemory_cycle (sm, mn, rn, st) = Inr (sm', mn', rn', st')
    \<and> mem_rest J sm' \<and> stream_phase J z 0 sm' \<and> progress J z {} sm'
    \<and> mesh_table (tile_pass J z) 0 {} mn' \<and> rn_wired J rn'
    \<and> buffer_holds (jR J * jC J) (jK J) vn (\<lambda>_. []) (tr_accumulationBuffer rn')
    \<and> (\<forall>i < jR J + jC J. link st' (DSTop i) []) \<and> (\<forall>b < jB J. link st' (BusOut b) [])
    \<and> (\<forall>c. (\<forall>i < jR J + jC J. c \<noteq> DSTop i) \<longrightarrow> (\<forall>b < jB J. c \<noteq> BusOut b) \<longrightarrow> st' c = st c)"
proof -
  define sm0 where "sm0 = sm\<lparr>sm_local_cycle := sm_local_cycle sm + 1,
                  sm_stats := ss_total_cycles_update (\<lambda>n. n + 1) (sm_stats sm)\<rparr>"
  have wf0: "mem_wf J sm0" "conf_phase J z sm0" using sm(1,2)
    by (simp_all add: sm0_def mem_rest_def mem_wf_def conf_phase_def)
  have m0: "mem_out sm0 = mem_out sm" by (simp add: sm0_def mem_out_def)
  from configure_ok [OF J z wf0 mn rn, of vn] obtain s1 mn' rn' where
    1: "OSMeshSDMemory_configure (sm0, mn, rn) = Inr (s1, mn', rn')" "mem_wf J s1" "at_tile J z 0 s1"
      "sm_current_state s1 = sm_current_state sm0" "\<not> sm_iteration_completed s1" "mem_out s1 = mem_out sm0"
      "sm_input_fifos s1 = sm_input_fifos sm0" "sm_write_fifo s1 = sm_write_fifo sm0"
      "mesh_table (tile_pass J z) 0 {} mn'" "rn_wired J rn'"
      "buffer_holds (jR J * jC J) (jK J) vn (\<lambda>_. []) (tr_accumulationBuffer rn')"
    by blast
  have state: "sm_current_state sm = OS_CONFIGURING" "sm_current_state s1 = OS_CONFIGURING"
    using sm(2) 1(4) by (simp_all add: conf_phase_def sm0_def)
  have used: "sm_rows_used s1 = rows J z" "sm_cols_used s1 = cols J z"
    using 1(3) by (simp_all add: at_tile_def mem_tile_def)
  have "0 \<in> tile_vns J z" using rows_bounds(1) [OF J z] cols_bounds(1) [OF J, of z] by simp
  then have D: "{} \<subseteq> tile_vns J z" "{} \<noteq> tile_vns J z" by blast+
  have prog: "progress J z {} s1" using sm(3) mem_out_cong(1) [of s1 sm] 1(6) m0 by metis
  have q: "f_fifo (sm_write_fifo s1) = []" and ports: "\<And>i. i < jR J + jC J \<Longrightarrow> port s1 i = []"
    using sm(1) 1(7,8) by (simp_all add: mem_rest_def sm0_def)
  have one: "\<forall>i < jR J + jC J. length (port s1 i) \<le> 1" using ports by simp
  define ps :: "'d DataPackage list" where "ps = []"
  have xs: "ps = concat (map (\<lambda>_. []) [0..<jB J])" "\<forall>p \<in> set ps. result_ok J z p" "distinct (map p_VN ps)"
      "p_VN ` set ps \<inter> {} = {}" by (simp_all add: ps_def)
  have nD: "{} \<union> p_VN ` set ps \<noteq> tile_vns J z" using D by (simp add: ps_def)
  have lk: "\<forall>b < jB J. link st (BusOut b) []" "\<forall>i < jR J + jC J. link st (DSTop i) []"
    using links by simp_all
  from mem_tail_ok [OF J z 1(2) D used q prog one links(1) lk xs, of mn' rn'] obtain s2 sm' st' where
    2: "mem_tail (s1, mn', rn', st) = Inr (sm', mn', rn', st')" "mem_phase sm' = mem_phase (OSMeshSDMemory_transition s2)"
      "mem_rest J sm'" "mem_tile s2 = mem_tile s1" "sm_current_state s2 = sm_current_state s1"
      "if {} \<union> p_VN ` set ps = tile_vns J z
       then tile_end J z sm'
         \<and> sm_iteration_completed s2 = (sm_current_state s1 = OS_WAITING_FOR_NEXT_ITER \<or> sm_iteration_completed s1)
       else progress J z ({} \<union> p_VN ` set ps) sm' \<and> sm_iteration_completed s2 = sm_iteration_completed s1"
      "mem_tile sm' = mem_tile s1" "mem_wf J s2"
      "\<forall>i < jR J + jC J. link st' (DSTop i) (port s1 i)" "\<forall>b < jB J. link st' (BusOut b) []"
      "\<forall>c. (\<forall>i < jR J + jC J. c \<noteq> DSTop i) \<longrightarrow> (\<forall>b < jB J. c \<noteq> BusOut b) \<longrightarrow> st' c = st c"
    by blast
  from 2(6) nD have c: "progress J z {} sm'" "sm_iteration_completed s2 = sm_iteration_completed s1" by (simp_all add: ps_def)
  have "sm_layer_loaded sm" using sm(1) by (simp add: mem_rest_def mem_wf_def)
  then have "OSMeshSDMemory_cycle (sm, mn, rn, st) = Inr (sm', mn', rn', st')"
    using 1(1) 2(1) state by (simp add: cycle_tail sm0_def [symmetric])
  moreover have "stream_phase J z 0 sm'"
    using 2(2,5,7) c(2) 1(3,5) state J
    by (simp add: stream_phase_def at_tile_def job_ok_def mem_phase_def OSMeshSDMemory_transition_def)
  moreover have "\<forall>i < jR J + jC J. link st' (DSTop i) []" using 2(9) ports by simp
  ultimately show ?thesis using 1(9-) 2(3,10,11) c(1) by blast
qed

lemma iter_end:
  assumes "job_ok J" and "z < iterM J * iterN J"
  shows "iterM J \<le> Suc z div iterN J \<longleftrightarrow> Suc z = iterM J * iterN J"
proof -
  have "iterM J \<le> Suc z div iterN J \<longleftrightarrow> iterM J * iterN J \<le> Suc z"
    using iterN_pos [OF assms(1)] by (simp add: less_eq_div_iff_mult_less_eq)
  with assms(2) show ?thesis by auto
qed

text \<open>A cycle while the operands of tile \<open>z\<close> are sent or its results are awaited.\<close>

lemma mem_cycle_stream:
  fixes J :: "'d::{plus,times} job"
  assumes J: "job_ok J" and z: "z < iterM J * iterN J"
    and sm: "mem_rest J sm" "stream_phase J z t sm" "progress J z D sm"
    and D: "D \<subseteq> tile_vns J z" "D \<noteq> tile_vns J z"
    and links: "link st OutLT []" "\<And>b. b < jB J \<Longrightarrow> link st (BusOut b) (X b)"
      "\<And>i. i < jR J + jC J \<Longrightarrow> link st (DSTop i) []"
    and xs: "xs = concat (map X [0..<jB J])" "\<forall>p \<in> set xs. result_ok J z p" "distinct (map p_VN xs)"
      "p_VN ` set xs \<inter> D = {}"
    and late: "D \<union> p_VN ` set xs = tile_vns J z \<Longrightarrow> jK J \<le> t"
  shows "\<exists>sm' st'. OSMeshSDMemory_cycle (sm, mn, rn, st) = Inr (sm', mn, rn, st') \<and> mem_rest J sm'
    \<and> (if D \<union> p_VN ` set xs = tile_vns J z
       then tile_end J z sm' \<and> (Suc z \<noteq> iterM J * iterN J \<longrightarrow> conf_phase J (Suc z) sm')
       else progress J z (D \<union> p_VN ` set xs) sm' \<and> stream_phase J z (Suc t) sm')
    \<and> (\<forall>i < jR J + jC J. link st' (DSTop i) (feed J z t i)) \<and> (\<forall>b < jB J. link st' (BusOut b) [])
    \<and> (\<forall>c. (\<forall>i < jR J + jC J. c \<noteq> DSTop i) \<longrightarrow> (\<forall>b < jB J. c \<noteq> BusOut b) \<longrightarrow> st' c = st c)"
proof -
  let ?D = "D \<union> p_VN ` set xs"
  define sm0 where "sm0 = sm\<lparr>sm_local_cycle := sm_local_cycle sm + 1,
                  sm_stats := ss_total_cycles_update (\<lambda>n. n + 1) (sm_stats sm)\<rparr>"
  have wf0: "mem_wf J sm0" and ph0: "mem_phase sm0 = mem_phase sm" "mem_tile sm0 = mem_tile sm" "mem_out sm0 = mem_out sm"
      "sm_input_fifos sm0 = sm_input_fifos sm" "sm_write_fifo sm0 = sm_write_fifo sm"
    using sm(1) by (simp_all add: sm0_def mem_rest_def mem_wf_def mem_defs)
  have loaded: "sm_layer_loaded sm" using sm(1) by (simp add: mem_rest_def mem_wf_def)
  have conf: "sm_current_state sm \<noteq> OS_CONFIGURING"
    using sm(2) by (auto simp: stream_phase_def split: if_splits)
  have dist: "sm_current_state sm = OS_DIST_INPUTS \<longleftrightarrow> t < jK J"
    using sm(2) by (auto simp: stream_phase_def split: if_splits)
  have ports0: "\<And>i. i < jR J + jC J \<Longrightarrow> port sm0 i = []" and q0: "f_fifo (sm_write_fifo sm0) = []"
    using sm(1) ph0 by (simp_all add: mem_rest_def)
  have "\<exists>s1. (if sm_current_state sm = OS_DIST_INPUTS then OSMeshSDMemory_distribute sm0 else Inr sm0) = Inr s1
     \<and> mem_wf J s1 \<and> mem_out s1 = mem_out sm \<and> sm_write_fifo s1 = sm_write_fifo sm
     \<and> (\<forall>x < jR J + jC J. port s1 x = feed J z t x) \<and> sm_current_state s1 = sm_current_state sm
     \<and> (if t < jK J then
          (if Suc t = jK J
           then mem_tile s1 = (rows J z, cols J z, Suc z div iterN J, Suc z mod iterN J, 0) \<and> sm_iteration_completed s1
           else at_tile J z (Suc t) s1 \<and> sm_iteration_completed s1 = sm_iteration_completed sm)
        else mem_tile s1 = mem_tile sm \<and> sm_iteration_completed s1 = sm_iteration_completed sm)"
  proof (cases "t < jK J")
    case True
    then have "at_tile J z t sm0" using sm(2) ph0 by (simp add: stream_phase_def at_tile_def)
    from distribute_ok [OF J z wf0 this True ports0] True dist ph0 show ?thesis by (auto simp: mem_phase_def)
  next
    case False
    with dist wf0 ph0 ports0 show ?thesis by (simp add: feed_late mem_phase_def)
  qed
  then obtain s1 where 1: "(if sm_current_state sm = OS_DIST_INPUTS then OSMeshSDMemory_distribute sm0 else Inr sm0) = Inr s1"
     "mem_wf J s1" "mem_out s1 = mem_out sm" "sm_write_fifo s1 = sm_write_fifo sm"
     "\<And>x. x < jR J + jC J \<Longrightarrow> port s1 x = feed J z t x" "sm_current_state s1 = sm_current_state sm"
    and ph1: "if t < jK J then
          (if Suc t = jK J
           then mem_tile s1 = (rows J z, cols J z, Suc z div iterN J, Suc z mod iterN J, 0) \<and> sm_iteration_completed s1
           else at_tile J z (Suc t) s1 \<and> sm_iteration_completed s1 = sm_iteration_completed sm)
        else mem_tile s1 = mem_tile sm \<and> sm_iteration_completed s1 = sm_iteration_completed sm"
    by (elim exE conjE) (rule that; blast)
  have used: "sm_rows_used s1 = rows J z" "sm_cols_used s1 = cols J z"
    using ph1 sm(2) by (auto simp: stream_phase_def at_tile_def mem_tile_def split: if_splits)
  have prog: "progress J z D s1" using sm(3) mem_out_cong(1) [OF 1(3)] by blast
  have one: "\<forall>i < jR J + jC J. length (port s1 i) \<le> 1"
    using 1(5) by (simp add: feed_eq [OF J z])
  have q: "f_fifo (sm_write_fifo s1) = []" using 1(4) q0 ph0 by simp
  have lk: "\<forall>b < jB J. link st (BusOut b) (X b)" "\<forall>i < jR J + jC J. link st (DSTop i) []"
    using links by simp_all
  from mem_tail_ok [OF J z 1(2) D used q prog one links(1) lk xs, of mn rn] obtain s2 sm' st' where
    2: "mem_tail (s1, mn, rn, st) = Inr (sm', mn, rn, st')" "mem_rest J sm'" "mem_tile s2 = mem_tile s1"
      "sm_current_state s2 = sm_current_state s1"
    and c: "if ?D = tile_vns J z
       then tile_end J z sm'
         \<and> sm_iteration_completed s2 = (sm_current_state s1 = OS_WAITING_FOR_NEXT_ITER \<or> sm_iteration_completed s1)
       else progress J z ?D sm' \<and> sm_iteration_completed s2 = sm_iteration_completed s1"
    and 3: "mem_wf J s2" "mem_tile sm' = mem_tile s1" "mem_phase sm' = mem_phase (OSMeshSDMemory_transition s2)"
      "\<And>i. i < jR J + jC J \<Longrightarrow> link st' (DSTop i) (port s1 i)" "\<And>b. b < jB J \<Longrightarrow> link st' (BusOut b) []"
      "\<And>c. \<forall>i < jR J + jC J. c \<noteq> DSTop i \<Longrightarrow> \<forall>b < jB J. c \<noteq> BusOut b \<Longrightarrow> st' c = st c"
    by blast
  have "OSMeshSDMemory_cycle (sm, mn, rn, st) = Inr (sm', mn, rn, st')"
    using 1(1) 2(1) conf loaded ph0(1)
    by (cases "sm_current_state sm = OS_DIST_INPUTS") (simp_all add: cycle_tail sm0_def [symmetric] mem_phase_def)
  moreover have "conf_phase J (Suc z) sm'" if all: "?D = tile_vns J z" and nl: "Suc z \<noteq> iterM J * iterN J"
  proof -
    have t: "\<not> t < jK J" using late [OF all] by simp
    with sm(2) nl ph1 1(6) have "sm_current_state s1 = OS_WAITING_FOR_NEXT_ITER"
      "mem_tile s1 = (rows J z, cols J z, Suc z div iterN J, Suc z mod iterN J, 0)"
      by (simp_all add: stream_phase_def)
    moreover from this(1) c all have "sm_iteration_completed s2" by simp
    ultimately show ?thesis using 2(4) 3(2,3)
      by (simp add: conf_phase_def mem_phase_def OSMeshSDMemory_transition_def mem_tile_def)
  qed
  moreover have "stream_phase J z (Suc t) sm'" if nall: "?D \<noteq> tile_vns J z"
  proof -
    have comp: "sm_iteration_completed s2 = sm_iteration_completed s1" using c nall by simp
    have curM: "sm_current_M s2 = Suc z div iterN J" "sm_iter_M s2 = iterM J"
      if "mem_tile s1 = (rows J z, cols J z, Suc z div iterN J, Suc z mod iterN J, 0)"
      using that 2(3) 3(1) by (simp_all add: mem_tile_def mem_wf_def)
    consider "Suc t < jK J" | "Suc t = jK J" | "jK J \<le> t" by linarith
    then show ?thesis
    proof cases
      case 1
      with ph1 \<open>sm_current_state s1 = sm_current_state sm\<close> sm(2) comp 2(4) 3(2,3) show ?thesis
        by (simp add: stream_phase_def mem_phase_def OSMeshSDMemory_transition_def at_tile_def)
    next
      case 2
      with ph1 have e: "mem_tile s1 = (rows J z, cols J z, Suc z div iterN J, Suc z mod iterN J, 0)" "sm_iteration_completed s1"
        by simp_all
      have "sm_current_state s2 = OS_DIST_INPUTS" using 2 dist \<open>sm_current_state s1 = sm_current_state sm\<close>
          \<open>sm_current_state s2 = sm_current_state s1\<close> by simp
      with 2 e curM [OF e(1)] comp 3(2,3) iter_end [OF J z] show ?thesis
        by (cases "Suc z = iterM J * iterN J")
          (simp_all add: stream_phase_def mem_phase_def OSMeshSDMemory_transition_def)
    next
      case 3
      then have e: "mem_tile s1 = (rows J z, cols J z, Suc z div iterN J, Suc z mod iterN J, 0)"
        "sm_iteration_completed s1 = sm_iteration_completed sm" using ph1 sm(2) by (simp_all add: stream_phase_def)
      have st2: "sm_current_state s2 = sm_current_state sm" using 1(6) 2(4) by simp
      from 3 e comp \<open>mem_tile sm' = mem_tile s1\<close> \<open>mem_phase sm' = _\<close> sm(2) st2 show ?thesis
        by (cases "Suc z = iterM J * iterN J")
          (simp_all add: stream_phase_def mem_phase_def OSMeshSDMemory_transition_def)
    qed
  qed
  ultimately show ?thesis using 2(2) 3(4-) 1(5) c by (intro exI conjI) (auto split: if_splits)
qed

end
