(* ===== verification/Flow.thy ===== *)
theory Flow
  imports MemRun Bus
begin

text \<open>
  What is under way in a running tile: the results on the bus, the sums in the accumulators, the
  operands and products on the links of the array. The lemmas describe one cycle of the bus, of the
  accumulation buffer and of the array in these terms; the memory side is in \<open>MemRun\<close>.
\<close>

section \<open>Results on their way\<close>

text \<open>A package is identified by its virtual neuron and its value; the bus adds the port number.\<close>

definition key :: "'d DataPackage \<Rightarrow> nat \<times> 'd" where
  "key p = (p_VN p, p_data p)"

definition vn_result :: "'d::{plus,times} job \<Rightarrow> nat \<Rightarrow> nat \<Rightarrow> nat \<times> 'd" where
  "vn_result J z v = (v, dot J (fst (coord J z v)) (snd (coord J z v)))"

lemma key_setOutputPort [simp]: "key (DataPackage_setOutputPort b p) = key p"
  by (simp add: key_def DataPackage_setOutputPort_def)

lemma inj_vn_result: "inj_on (vn_result J z) A"
  by (rule inj_onI) (simp add: vn_result_def)

text \<open>The virtual neurons whose result has left the accumulator before cycle \<open>t\<close>.\<close>

definition emitted :: "'d job \<Rightarrow> nat \<Rightarrow> nat \<Rightarrow> nat set" where
  "emitted J z t = {v \<in> tile_vns J z. jK J + v div cols J z + v mod cols J z + 1 \<le> t}"

definition outstanding :: "'d::{plus,times} job \<Rightarrow> nat \<Rightarrow> nat \<Rightarrow> nat set \<Rightarrow> (nat \<times> 'd) multiset" where
  "outstanding J z t D = mset_set (vn_result J z ` (emitted J z t - D))"

text \<open>What is on the bus: on its input links, in its queues, on its output links.\<close>

definition in_load :: "'d job \<Rightarrow> 'd store \<Rightarrow> 'd DataPackage multiset" where
  "in_load J st = (\<Sum>b < jB J. \<Sum>x < jP J. mset (flight st (BusIn b x)))"

definition queue_load :: "'d job \<Rightarrow> 'd Bus \<Rightarrow> 'd DataPackage multiset" where
  "queue_load J bus = (\<Sum>b < jB J. mset (concat (bus_queues bus b)))"

definition out_load :: "'d job \<Rightarrow> 'd store \<Rightarrow> 'd DataPackage multiset" where
  "out_load J st = (\<Sum>b < jB J. mset (flight st (BusOut b)))"

lemma emitted_subset: "emitted J z t \<subseteq> tile_vns J z"
  by (auto simp: emitted_def)

lemma emitted_finite: "finite (emitted J z t)"
  by (rule finite_subset [OF emitted_subset]) simp

lemma emitted_mono: "t \<le> t' \<Longrightarrow> emitted J z t \<subseteq> emitted J z t'"
  by (auto simp: emitted_def)

text \<open>The results leave before cycle \<open>last_emit\<close>.\<close>

definition last_emit :: "'d job \<Rightarrow> nat \<Rightarrow> nat" where
  "last_emit J z = jK J + rows J z + cols J z"

lemma emitted_all:
  assumes "job_ok J" and "last_emit J z \<le> t"
  shows "emitted J z t = tile_vns J z"
proof (intro equalityI emitted_subset subsetI)
  fix v assume v: "v \<in> tile_vns J z"
  then have "v div cols J z < rows J z" by (simp add: less_mult_imp_div_less)
  moreover have "v mod cols J z < cols J z" using cols_bounds(1) [OF assms(1), of z] by simp
  ultimately show "v \<in> emitted J z t" using v assms(2) by (simp add: emitted_def last_emit_def)
qed

lemma emitted_allD:
  assumes "job_ok J" and "emitted J z t = tile_vns J z" and "i < rows J z" and "j < cols J z"
  shows "jK J + i + j + 1 \<le> t"
proof -
  have "i * cols J z + j \<in> tile_vns J z" using index_less [OF assms(3,4)] by simp
  then have "i * cols J z + j \<in> emitted J z t" using assms(2) by simp
  then show ?thesis using assms(4) by (simp add: emitted_def)
qed

text \<open>The packages the memory takes from the bus are outstanding results, each of them once.\<close>

lemma take_outstanding:
  fixes J :: "'d::{plus,times} job"
  assumes load: "image_mset key (mset xs + M) = outstanding J z t D"
  shows "\<forall>p \<in> set xs. result_ok J z p" "distinct (map p_VN xs)" "p_VN ` set xs \<inter> D = {}"
    "p_VN ` set xs \<subseteq> emitted J z t" "image_mset key M = outstanding J z t (D \<union> p_VN ` set xs)"
proof -
  let ?S = "vn_result J z ` (emitted J z t - D)"
  have fin: "finite ?S" using emitted_finite [of J z t] by simp
  have sub: "mset (map key xs) \<subseteq># mset_set ?S"
    using load unfolding outstanding_def by (metis image_mset_union mset_map mset_subset_eq_add_left)
  have "set_mset (mset (map key xs)) \<subseteq> set_mset (mset_set ?S)" using sub by (rule set_mset_mono)
  then have set: "key ` set xs \<subseteq> ?S" using fin by (simp add: finite_set_mset_mset_set)
  have mem: "key p = vn_result J z (p_VN p) \<and> p_VN p \<in> emitted J z t \<and> p_VN p \<notin> D" if "p \<in> set xs" for p
  proof -
    from set that obtain v where v: "key p = vn_result J z v" "v \<in> emitted J z t" "v \<notin> D" by blast
    then have "v = p_VN p" by (simp add: key_def vn_result_def)
    with v show ?thesis by simp
  qed
  show "\<forall>p \<in> set xs. result_ok J z p"
    using mem emitted_subset [of J z t] by (auto simp: result_ok_def key_def vn_result_def)
  show "p_VN ` set xs \<inter> D = {}" "p_VN ` set xs \<subseteq> emitted J z t" using mem by blast+
  have dk: "distinct (map key xs)"
  proof -
    have "count (mset (map key xs)) k \<le> 1" for k
      using mset_subset_eq_count [OF sub, of k] by (simp add: count_mset_set' split: if_splits)
    then show ?thesis
      by (metis One_nat_def count_mset_0_iff count_mset_set(1) distinct_count_atmost_1 le_Suc_eq le_zero_eq List.finite_set)
  qed
  show "distinct (map p_VN xs)"
  proof -
    have "inj_on p_VN (set xs)"
    proof (rule inj_onI)
      fix p q assume pq: "p \<in> set xs" "q \<in> set xs" "p_VN p = p_VN q"
      then have "key p = key q" using mem by metis
      then show "p = q" using dk pq by (auto simp: distinct_map dest: inj_onD)
    qed
    then show ?thesis using dk by (simp add: distinct_map)
  qed
  have img: "key ` set xs = vn_result J z ` (p_VN ` set xs)"
    using mem by (auto simp: image_iff) 
  have "image_mset key M = mset_set ?S - mset (map key xs)"
    using load by (metis add_diff_cancel_left' image_mset_union mset_map outstanding_def)
  also have "mset (map key xs) = mset_set (key ` set xs)"
    using dk by (metis list.set_map mset_set_set)
  also have "mset_set ?S - mset_set (key ` set xs) = mset_set (?S - key ` set xs)"
    using fin set by (simp add: mset_set_Diff)
  also have "?S - key ` set xs = vn_result J z ` (emitted J z t - (D \<union> p_VN ` set xs))"
  proof -
    have "emitted J z t - (D \<union> p_VN ` set xs) = emitted J z t - D - p_VN ` set xs" by blast
    then show ?thesis unfolding img by (simp only: image_set_diff [OF inj_vn_result [of J z UNIV]])
  qed
  finally show "image_mset key M = outstanding J z t (D \<union> p_VN ` set xs)" by (simp add: outstanding_def)
qed


section \<open>The accumulators\<close>

lemma p_data_product [simp]: "p_data (product_of p i j k) = p_data (ps_A p k i) * p_data (ps_W p k j)"
  by (simp add: product_of_def MultiplierOS_product_def)

lemma p_VN_product [simp]: "p_VN (product_of p i j k) = i * ps_cu p + j"
  by (simp add: product_of_def MultiplierOS_product_def)

abbreviation acc_row :: "'d job \<Rightarrow> nat \<Rightarrow> nat" where "acc_row J a \<equiv> a div jC J"
abbreviation acc_col :: "'d job \<Rightarrow> nat \<Rightarrow> nat" where "acc_col J a \<equiv> a mod jC J"

definition acc_used :: "'d job \<Rightarrow> nat \<Rightarrow> nat \<Rightarrow> bool" where
  "acc_used J z a \<longleftrightarrow> acc_row J a < rows J z \<and> acc_col J a < cols J z"

definition acc_vn :: "'d job \<Rightarrow> nat \<Rightarrow> nat \<Rightarrow> nat" where
  "acc_vn J z a = acc_row J a * cols J z + acc_col J a"

text \<open>What accumulator \<open>a\<close> has received before cycle \<open>t\<close>, and what is on its input link.\<close>

definition received :: "'d::{plus,times} job \<Rightarrow> nat \<Rightarrow> nat \<Rightarrow> nat \<Rightarrow> 'd DataPackage list" where
  "received J z t a =
     (if acc_used J z a
      then map (product_of (tile_pass J z) (acc_row J a) (acc_col J a))
             [0..<min (jK J) (t - (acc_row J a + acc_col J a + 1))]
      else [])"

definition acc_list :: "'d::{plus,times} job \<Rightarrow> nat \<Rightarrow> nat \<Rightarrow> nat \<Rightarrow> 'd DataPackage list" where
  "acc_list J z t a = acc_next (jK J) (received J z t a)"

definition acc_in :: "'d::{plus,times} job \<Rightarrow> nat \<Rightarrow> nat \<Rightarrow> nat \<Rightarrow> 'd DataPackage list" where
  "acc_in J z t a = acc_msg (tile_pass J z) t (acc_row J a) (acc_col J a)"

text \<open>Accumulator \<open>a\<close> completes its sum in cycle \<open>t\<close>.\<close>

definition fires :: "'d job \<Rightarrow> nat \<Rightarrow> nat \<Rightarrow> nat \<Rightarrow> bool" where
  "fires J z t a \<longleftrightarrow> acc_used J z a \<and> t = jK J + acc_row J a + acc_col J a"

lemma acc_in_eq:
  "acc_in J z t a = (if acc_used J z a \<and> acc_row J a + acc_col J a + 1 \<le> t \<and> t < jK J + (acc_row J a + acc_col J a + 1)
     then [product_of (tile_pass J z) (acc_row J a) (acc_col J a) (t - (acc_row J a + acc_col J a + 1))] else [])"
  by (simp add: acc_in_def acc_msg_def used_def arriving_def acc_used_def)

lemma received_step:
  assumes K: "0 < jK J"
  shows "acc_next (jK J) (acc_list J z t a @ acc_in J z t a) = acc_list J z (Suc t) a"
    and "acc_out (jK J) (acc_list J z t a @ acc_in J z t a) =
      (if fires J z t a then [acc_result (received J z (Suc t) a)] else [])"
proof -
  let ?L = "acc_row J a + acc_col J a + 1"
  let ?P = "product_of (tile_pass J z) (acc_row J a) (acc_col J a)"
  have 1: "acc_next (jK J) (acc_list J z t a @ acc_in J z t a) = acc_list J z (Suc t) a
    \<and> acc_out (jK J) (acc_list J z t a @ acc_in J z t a) =
      (if fires J z t a then [acc_result (received J z (Suc t) a)] else [])"
  proof (cases "acc_used J z a \<and> ?L \<le> t \<and> t < jK J + ?L")
    case True
    then have m: "min (jK J) (t - ?L) = t - ?L" "min (jK J) (Suc t - ?L) = Suc (t - ?L)" "t - ?L \<noteq> jK J" by auto
    have "acc_list J z t a @ acc_in J z t a = received J z (Suc t) a"
      using True m by (simp add: acc_list_def received_def acc_in_eq acc_next_def)
    moreover have "length (received J z (Suc t) a) = jK J \<longleftrightarrow> fires J z t a"
      using True m by (auto simp: received_def fires_def)
    ultimately show ?thesis by (simp add: acc_list_def acc_out_def)
  next
    case False
    then have "acc_in J z t a = []" by (simp only: acc_in_eq if_False)
    moreover have "received J z (Suc t) a = received J z t a"
    proof (cases "acc_used J z a")
      case True
      with False have "min (jK J) (Suc t - ?L) = min (jK J) (t - ?L)" by auto
      then show ?thesis by (simp add: received_def)
    qed (simp add: received_def)
    moreover have "\<not> fires J z t a" using False K by (auto simp: fires_def)
    moreover have "length (acc_list J z t a) \<noteq> jK J" using K by (simp add: acc_list_def acc_next_def)
    ultimately show ?thesis by (simp add: acc_list_def acc_next_def acc_out_def)
  qed
  show "acc_next (jK J) (acc_list J z t a @ acc_in J z t a) = acc_list J z (Suc t) a" using 1 by blast
  show "acc_out (jK J) (acc_list J z t a @ acc_in J z t a) =
      (if fires J z t a then [acc_result (received J z (Suc t) a)] else [])" using 1 by blast
qed

text \<open>The sum that leaves the accumulator is the element of the product.\<close>

lemma key_acc_result:
  assumes J: "job_ok J" and z: "z < iterM J * iterN J" and f: "fires J z t a"
  shows "key (acc_result (received J z (Suc t) a)) = vn_result J z (acc_vn J z a)"
proof -
  let ?i = "acc_row J a" and ?j = "acc_col J a"
  let ?P = "product_of (tile_pass J z) ?i ?j"
  have u: "acc_used J z a" and m: "min (jK J) (Suc t - (?i + ?j + 1)) = jK J" and ij: "?i < rows J z" "?j < cols J z"
    using f by (auto simp: fires_def acc_used_def)
  have K: "0 < jK J" using J by (simp add: job_ok_def)
  have r: "received J z (Suc t) a = ?P 0 # map ?P [1..<jK J]"
    using u m K by (simp add: received_def upt_conv_Cons)
  have data: "p_data (?P k) = term_at J (row0 J z + ?i) (col0 J z + ?j) k" for k
    by (simp add: tile_pass_def term_at_def)
  have "p_data (acc_result (received J z (Suc t) a)) = dot J (row0 J z + ?i) (col0 J z + ?j)"
    unfolding r by (subst acc_result_data) (simp_all add: dot_def data comp_def del: p_data_product)
  moreover have "p_VN (acc_result (received J z (Suc t) a)) = acc_vn J z a"
    unfolding r by (rule acc_result_VN) (auto simp: acc_vn_def)
  moreover have "coord J z (acc_vn J z a) = (row0 J z + ?i, col0 J z + ?j)"
    using ij by (simp add: coord_def acc_vn_def)
  ultimately show ?thesis by (simp add: key_def vn_result_def)
qed

lemma acc_in_ok: "length (acc_in J z t a) \<le> 1" "q \<in> set (acc_in J z t a) \<Longrightarrow> p_VN q = acc_vn J z a"
  by (auto simp: acc_in_eq acc_vn_def split: if_splits)

text \<open>The results that leave in cycle \<open>t\<close>.\<close>

lemma fires_emitted:
  assumes J: "job_ok J" and z: "z < iterM J * iterN J"
  shows "acc_vn J z ` {a \<in> {..<jR J * jC J}. fires J z t a} = emitted J z (Suc t) - emitted J z t"
    and "inj_on (acc_vn J z) {a \<in> {..<jR J * jC J}. fires J z t a}"
proof -
  have C: "0 < jC J" using cols_bounds(1,2) [OF J, of z] by linarith
  have dm: "acc_vn J z a div cols J z = acc_row J a" "acc_vn J z a mod cols J z = acc_col J a"
    if "acc_used J z a" for a using that by (simp_all add: acc_vn_def acc_used_def)
  show "inj_on (acc_vn J z) {a \<in> {..<jR J * jC J}. fires J z t a}"
  proof (rule inj_onI)
    fix a b assume ab: "a \<in> {a \<in> {..<jR J * jC J}. fires J z t a}" "b \<in> {a \<in> {..<jR J * jC J}. fires J z t a}"
      "acc_vn J z a = acc_vn J z b"
    then have "acc_row J a = acc_row J b" "acc_col J a = acc_col J b" using dm [of a] dm [of b] by (auto simp: fires_def)
    then show "a = b" by (metis div_mult_mod_eq)
  qed
  show "acc_vn J z ` {a \<in> {..<jR J * jC J}. fires J z t a} = emitted J z (Suc t) - emitted J z t"
  proof (intro equalityI subsetI)
    fix v assume "v \<in> acc_vn J z ` {a \<in> {..<jR J * jC J}. fires J z t a}"
    then obtain a where a: "v = acc_vn J z a" "fires J z t a" by blast
    then have u: "acc_used J z a" by (simp add: fires_def)
    then have "v < rows J z * cols J z" unfolding a(1) acc_vn_def acc_used_def by (intro index_less) simp_all
    then show "v \<in> emitted J z (Suc t) - emitted J z t"
      using a dm [OF u] by (auto simp: emitted_def fires_def)
  next
    fix v assume v: "v \<in> emitted J z (Suc t) - emitted J z t"
    define a where "a = v div cols J z * jC J + v mod cols J z"
    have vv: "v < rows J z * cols J z" "t = jK J + v div cols J z + v mod cols J z"
      using v by (auto simp: emitted_def)
    have rc: "v div cols J z < rows J z" "v mod cols J z < cols J z"
      using vv cols_bounds(1) [OF J, of z] by (simp_all add: less_mult_imp_div_less)
    have rc': "v div cols J z < jR J" "v mod cols J z < jC J"
      using rc rows_bounds(2) [OF J z] cols_bounds(2) [OF J, of z] by linarith+
    have rw: "acc_row J a = v div cols J z" "acc_col J a = v mod cols J z" using rc' by (simp_all add: a_def)
    have "a < jR J * jC J" unfolding a_def by (rule index_less [OF rc'])
    moreover have "fires J z t a" using rc vv by (simp add: fires_def acc_used_def rw)
    moreover have "acc_vn J z a = v" by (simp only: acc_vn_def rw div_mult_mod_eq)
    ultimately show "v \<in> acc_vn J z ` {a \<in> {..<jR J * jC J}. fires J z t a}" by blast
  qed
qed


section \<open>Links of the array between two cycles\<close>

definition mesh_between :: "'d::times pass \<Rightarrow> nat \<Rightarrow> 'd store \<Rightarrow> bool" where
  "mesh_between p t st \<longleftrightarrow> (\<forall>i < ps_R p. \<forall>j < ps_C p.
     link st (top_id i j) (if 0 < i then top_msg p t i j else [])
     \<and> link st (left_id p i j) (if 0 < j then left_msg p t i j else [])
     \<and> link st (acc_id p i j) (acc_msg p t i j))"

lemma mesh_links_between:
  assumes "mesh_links p t ({..<ps_R p} \<times> {..<ps_C p}) st"
  shows "mesh_between p (Suc t) st"
  unfolding mesh_between_def
proof (intro allI impI)
  fix i j assume ij: "i < ps_R p" "j < ps_C p"
  let ?D = "{..<ps_R p} \<times> {..<ps_C p}"
  have "link st (top_id i j) (if (i, j) \<notin> ?D then top_msg p t i j
        else if 0 < i \<and> (i - 1, j) \<in> ?D then top_msg p (Suc t) i j else [])
     \<and> link st (left_id p i j) (if (i, j) \<notin> ?D then left_msg p t i j
        else if 0 < j \<and> (i, j - 1) \<in> ?D then left_msg p (Suc t) i j else [])
     \<and> link st (acc_id p i j) (if (i, j) \<in> ?D then acc_msg p (Suc t) i j else [])"
    using assms ij unfolding mesh_links_def by blast
  then show "link st (top_id i j) (if 0 < i then top_msg p (Suc t) i j else [])
     \<and> link st (left_id p i j) (if 0 < j then left_msg p (Suc t) i j else [])
     \<and> link st (acc_id p i j) (acc_msg p (Suc t) i j)"
    using ij by (cases i; cases j) simp_all
qed

lemma mesh_between_links:
  assumes b: "mesh_between p t st"
    and inner: "\<And>i j. st' (MeshVert i j) = st (MeshVert i j)" "\<And>i j. st' (MeshHoriz i j) = st (MeshHoriz i j)"
    and acc: "\<And>i j. i < ps_R p \<Longrightarrow> j < ps_C p \<Longrightarrow> link st' (acc_id p i j) []"
    and top: "\<And>j. j < ps_C p \<Longrightarrow> link st' (DSTop j) (top_msg p t 0 j)"
    and left: "\<And>i. i < ps_R p \<Longrightarrow> link st' (DSTop (ps_C p + i)) (left_msg p t i 0)"
  shows "mesh_links p t {} st'"
  unfolding mesh_links_def
proof (intro allI impI conjI)
  fix i j assume ij: "i < ps_R p" "j < ps_C p"
  with b have b': "link st (top_id i j) (if 0 < i then top_msg p t i j else [])"
     "link st (left_id p i j) (if 0 < j then left_msg p t i j else [])" by (simp_all add: mesh_between_def)
  show "link st' (top_id i j) (if (i, j) \<notin> {} then top_msg p t i j
        else if 0 < i \<and> (i - 1, j) \<in> {} then top_msg p (Suc t) i j else [])"
    using b'(1) top [OF ij(2)] inner(1) by (cases i) (simp_all add: top_id_def link_def)
  show "link st' (left_id p i j) (if (i, j) \<notin> {} then left_msg p t i j
        else if 0 < j \<and> (i, j - 1) \<in> {} then left_msg p (Suc t) i j else [])"
    using b'(2) left [OF ij(1)] inner(2) by (cases j) (simp_all add: left_id_def link_def)
  show "link st' (acc_id p i j) (if (i, j) \<in> {} then acc_msg p (Suc t) i j else [])"
    using acc [OF ij] by simp
qed

text \<open>Nothing in the array.\<close>

definition mesh_quiet :: "'d job \<Rightarrow> 'd store \<Rightarrow> bool" where
  "mesh_quiet J st \<longleftrightarrow> (\<forall>i < jR J. \<forall>j < jC J. link st (top_id i j) []
     \<and> link st (left_id (tile_pass J 0) i j) [] \<and> link st (acc_id (tile_pass J 0) i j) [])"

lemma ids_tile: "left_id (tile_pass J z) = left_id (tile_pass J 0)" "acc_id (tile_pass J z) = acc_id (tile_pass J 0)"
  by (simp_all add: left_id_def acc_id_def fun_eq_iff)

lemma mesh_between_quiet:
  assumes "job_ok J" and "emitted J z t = tile_vns J z" and "mesh_between (tile_pass J z) t st"
  shows "mesh_quiet J st"
  unfolding mesh_quiet_def
proof (intro allI impI)
  fix i j assume ij: "i < jR J" "j < jC J"
  let ?p = "tile_pass J z"
  have late: "used ?p i j \<Longrightarrow> jK J + i + j + 1 \<le> t"
    using emitted_allD [OF assms(1,2), of i j] by (simp add: used_def)
  have "0 < i \<Longrightarrow> top_msg ?p t i j = []" "0 < j \<Longrightarrow> left_msg ?p t i j = []" "acc_msg ?p t i j = []"
    using late by (auto simp: top_msg_def left_msg_def acc_msg_def top_delay_def left_delay_def arriving_def)
  moreover have "link st (top_id i j) (if 0 < i then top_msg ?p t i j else [])
     \<and> link st (left_id ?p i j) (if 0 < j then left_msg ?p t i j else [])
     \<and> link st (acc_id ?p i j) (acc_msg ?p t i j)"
    using assms(3) ij unfolding mesh_between_def by simp
  ultimately show "link st (top_id i j) [] \<and> link st (left_id (tile_pass J 0) i j) []
     \<and> link st (acc_id (tile_pass J 0) i j) []"
    unfolding ids_tile [of J z] by (cases "0 < i"; cases "0 < j") simp_all
qed

lemma mesh_quiet_between: "mesh_quiet J st \<Longrightarrow> mesh_between (tile_pass J z) 0 st"
  unfolding mesh_quiet_def mesh_between_def ids_tile [of J z]
  by (auto simp: top_msg_def left_msg_def acc_msg_def top_delay_def left_delay_def arriving_def)

lemma mesh_quietD:
  assumes "mesh_quiet J st" and "0 < jR J" and "0 < jC J"
  shows "a < jR J + jC J \<Longrightarrow> link st (DSTop a) []" "b < jR J * jC J \<Longrightarrow> link st (AccLink b) []"
proof -
  show "link st (DSTop a) []" if "a < jR J + jC J"
  proof (cases "a < jC J")
    case True
    then have "link st (top_id 0 a) []" using assms by (simp add: mesh_quiet_def)
    then show ?thesis by (simp add: top_id_def)
  next
    case False
    then have "link st (left_id (tile_pass J 0) (a - jC J) 0) []" using assms that by (simp add: mesh_quiet_def)
    then show ?thesis using False by (simp add: left_id_def)
  qed
  show "link st (AccLink b) []" if "b < jR J * jC J"
  proof -
    have "b div jC J < jR J" "b mod jC J < jC J" using that assms(3) by (simp_all add: less_mult_imp_div_less)
    then have "link st (acc_id (tile_pass J 0) (b div jC J) (b mod jC J)) []" using assms(1) by (simp add: mesh_quiet_def)
    then show ?thesis by (simp add: acc_id_def)
  qed
qed

text \<open>A cycle of the configured array without operands changes nothing.\<close>

lemma mesh_cycle_idle:
  fixes J :: "'d::times job"
  assumes p: "pass_ok (tile_pass J z)" and table: "mesh_table (tile_pass J z) 0 {} mn" and quiet: "mesh_quiet J st"
  shows "\<exists>mn' st'. OSMeshMN_cycle (mn, st) = Inr (mn', st') \<and> mesh_table (tile_pass J z) 0 {} mn'
     \<and> mesh_quiet J st' \<and> (\<forall>c. c \<notin> mesh_cids (tile_pass J z) \<longrightarrow> st' c = st c)"
proof -
  let ?p = "tile_pass J z"
  define q where "q = ?p\<lparr>ps_K := 0\<rparr>"
  have q: "pass_ok q" "ps_R q = jR J" "ps_C q = jC J" using p by (simp_all add: q_def pass_ok_def)
  have msgs: "top_msg q t i j = []" "left_msg q t i j = []" "acc_msg q t i j = []" for t i j
    by (simp_all add: q_def top_msg_def left_msg_def acc_msg_def arriving_def used_def)
  have buf: "ms_buffers q t i j ms = ms_buffers ?p 0 i j ms" for t i j ms
    by (simp add: ms_buffers_def q_def held_def used_def)
  have other: "ms_wired q i j ms = ms_wired ?p i j ms" "ms_configured q i j ms = ms_configured ?p i j ms" for i j ms
    by (simp_all add: ms_wired_def ms_configured_def q_def left_id_def acc_id_def used_def)
  have tab: "mesh_table q t {} m = mesh_table ?p 0 {} m" for t m
    by (simp add: mesh_table_def buf other q(2,3))
  have cids: "mesh_cids q = mesh_cids ?p" by (simp add: mesh_cids_def q_def left_id_def acc_id_def)
  have ids: "left_id q = left_id (tile_pass J 0)" "acc_id q = acc_id (tile_pass J 0)"
    by (simp_all add: left_id_def acc_id_def fun_eq_iff q_def)
  have "mesh_links q 0 {} st" using quiet by (simp add: mesh_links_def msgs mesh_quiet_def ids q(2,3))
  from OSMeshMN_cycle_pass [OF q(1) _ this, of mn] table tab obtain mn' st' where
    "OSMeshMN_cycle (mn, st) = Inr (mn', st')" "mesh_table ?p 0 {} mn'"
    "mesh_links q 0 ({..<jR J} \<times> {..<jC J}) st'" "\<forall>c. c \<notin> mesh_cids ?p \<longrightarrow> st' c = st c"
    unfolding cids q(2,3) by blast
  moreover from mesh_links_between [of q 0 st'] this(3) have "mesh_quiet J st'"
    by (simp add: mesh_between_def msgs mesh_quiet_def ids q(2,3) cong: if_cong)
  ultimately show ?thesis by blast
qed


section \<open>A cycle of the bus and of the accumulators\<close>

lemma image_mset_sum: "image_mset f (\<Sum>x \<in> A. g x) = (\<Sum>x \<in> A. image_mset f (g x))"
  by (induction A rule: infinite_finite_induct) simp_all

definition bus_links :: "'d job \<Rightarrow> 'd store \<Rightarrow> bool" where
  "bus_links J st \<longleftrightarrow> (\<forall>b < jB J. (\<forall>x < jP J. link st (BusIn b x) (flight st (BusIn b x)))
     \<and> link st (BusOut b) (flight st (BusOut b)))"

lemma bus_step:
  assumes J: "job_ok J" and bus: "bus_ok (jB J) (jP J) bus" and links: "bus_links J st"
    and out: "\<And>b. b < jB J \<Longrightarrow> link st (BusOut b) []"
  shows "\<exists>bus' st'. Bus_cycle (bus, st) = Inr (bus', st') \<and> bus_ok (jB J) (jP J) bus'
    \<and> bus_links J st' \<and> (\<forall>b < jB J. \<forall>x < jP J. link st' (BusIn b x) [])
    \<and> image_mset key (queue_load J bus' + out_load J st') = image_mset key (in_load J st + queue_load J bus)
    \<and> (out_load J st' = {#} \<longrightarrow> in_load J st + queue_load J bus = {#})
    \<and> (\<forall>c. (\<forall>b < jB J. c \<noteq> BusOut b \<and> (\<forall>x < jP J. c \<noteq> BusIn b x)) \<longrightarrow> st' c = st c)"
proof -
  have P: "0 < jP J" using J by (simp add: job_ok_def)
  let ?L = "\<lambda>b x. flight st (BusIn b x)"
  have L: "\<And>b x. b < jB J \<Longrightarrow> x < jP J \<Longrightarrow> link st (BusIn b x) (?L b x)"
    using links by (simp add: bus_links_def)
  from Bus_cycle_ok [OF bus L out] obtain bus' st' sent where
    1: "Bus_cycle (bus, st) = Inr (bus', st')" "bus_ok (jB J) (jP J) bus'"
    and 2: "\<And>b. b < jB J \<Longrightarrow> line_step b (jP J) (bl_next_input_selected (bu_collection_bus_lines bus ! b))
            (map (\<lambda>x. bus_queues bus b ! x @ ?L b x) [0..<jP J]) (bus_queues bus' b)
            (bl_next_input_selected (bu_collection_bus_lines bus' ! b)) (sent b)
          \<and> link st' (BusOut b) (sent b) \<and> (\<forall>x < jP J. link st' (BusIn b x) [])"
    and 3: "\<forall>c. (\<forall>b < jB J. c \<noteq> BusOut b \<and> (\<forall>x < jP J. c \<noteq> BusIn b x)) \<longrightarrow> st' c = st c"
    by blast
  have sent: "flight st' (BusOut b) = sent b" if "b < jB J" for b using 2 [OF that] by (simp add: link_flight)
  have each: "\<exists>ps. sent b = map (DataPackage_setOutputPort b) ps
     \<and> (\<Sum>x < jP J. mset (?L b x)) + mset (concat (bus_queues bus b)) = mset (concat (bus_queues bus' b)) + mset ps
     \<and> (ps = [] \<longrightarrow> (\<Sum>x < jP J. mset (?L b x)) + mset (concat (bus_queues bus b)) = {#})" if b: "b < jB J" for b
  proof -
    have len: "length (bus_queues bus b) = jP J"
      using bus b by (simp add: bus_ok_def line_ok_def bus_queues_def line_queues_def)
    let ?qs = "map (\<lambda>x. bus_queues bus b ! x @ ?L b x) [0..<jP J]"
    have "mset (concat ?qs) = (\<Sum>x < jP J. mset (?L b x)) + mset (concat (bus_queues bus b))"
      by (simp add: mset_concat_upt mset_concat_nth [OF len] sum.distrib add.commute)
    moreover have "\<exists>ps. sent b = map (DataPackage_setOutputPort b) ps \<and> length ps \<le> 1
      \<and> mset (concat ?qs) = mset (concat (bus_queues bus' b)) + mset ps \<and> (ps = [] \<longrightarrow> concat ?qs = [])
      \<and> length (bus_queues bus' b) = jP J"
      by (rule line_step_conserves [OF conjunct1 [OF 2 [OF b]] _ P]) simp
    then obtain ps where "sent b = map (DataPackage_setOutputPort b) ps"
      "mset (concat ?qs) = mset (concat (bus_queues bus' b)) + mset ps" "ps = [] \<longrightarrow> concat ?qs = []"
      by (elim exE conjE) (rule that)
    moreover from this(3) have "ps = [] \<longrightarrow> mset (concat ?qs) = {#}" by (metis mset.simps(1))
    ultimately show ?thesis by metis
  qed
  then have "\<forall>b. \<exists>ps. b < jB J \<longrightarrow> sent b = map (DataPackage_setOutputPort b) ps
     \<and> (\<Sum>x < jP J. mset (?L b x)) + mset (concat (bus_queues bus b)) = mset (concat (bus_queues bus' b)) + mset ps
     \<and> (ps = [] \<longrightarrow> (\<Sum>x < jP J. mset (?L b x)) + mset (concat (bus_queues bus b)) = {#})" by blast
  from choice [OF this] obtain ps where ps: "\<And>b. b < jB J \<Longrightarrow> sent b = map (DataPackage_setOutputPort b) (ps b)"
     "\<And>b. b < jB J \<Longrightarrow> (\<Sum>x < jP J. mset (?L b x)) + mset (concat (bus_queues bus b))
        = mset (concat (bus_queues bus' b)) + mset (ps b)"
     "\<And>b. b < jB J \<Longrightarrow> ps b = [] \<Longrightarrow> (\<Sum>x < jP J. mset (?L b x)) + mset (concat (bus_queues bus b)) = {#}"
    by blast
  have total: "in_load J st + queue_load J bus = (\<Sum>b < jB J. (\<Sum>x < jP J. mset (?L b x)) + mset (concat (bus_queues bus b)))"
    by (simp add: in_load_def queue_load_def sum.distrib)
  also have "\<dots> = queue_load J bus' + (\<Sum>b < jB J. mset (ps b))"
    using ps(2) by (simp add: queue_load_def sum.distrib)
  finally have "image_mset key (in_load J st + queue_load J bus)
     = image_mset key (queue_load J bus') + (\<Sum>b < jB J. image_mset key (mset (ps b)))"
    by (simp add: image_mset_sum)
  also have "(\<Sum>b < jB J. image_mset key (mset (ps b))) = (\<Sum>b < jB J. image_mset key (mset (sent b)))"
    by (rule sum.cong) (simp_all add: ps(1) multiset.map_comp comp_def flip: mset_map)
  also have "\<dots> = image_mset key (out_load J st')"
    using sent by (simp add: out_load_def image_mset_sum)
  finally have k: "image_mset key (queue_load J bus' + out_load J st') = image_mset key (in_load J st + queue_load J bus)"
    by simp
  have "in_load J st + queue_load J bus = {#}" if e: "out_load J st' = {#}"
  proof -
    have "ps b = []" if b: "b < jB J" for b
    proof -
      have "mset (flight st' (BusOut b)) = {#}" using e b by (simp add: out_load_def sum_eq_empty_iff)
      then show ?thesis using sent [OF b] ps(1) [OF b] by simp
    qed
    then show ?thesis unfolding total using ps(3) by (intro sum.neutral ballI) simp
  qed
  moreover have "link st' (BusOut b) (flight st' (BusOut b)) \<and> (\<forall>x < jP J. link st' (BusIn b x) (flight st' (BusIn b x)))"
    if "b < jB J" for b using 2 [OF that] sent [OF that] by (simp add: link_def)
  then have "bus_links J st'" by (simp add: bus_links_def)
  moreover have "\<forall>b < jB J. \<forall>x < jP J. link st' (BusIn b x) []" using 2 by blast
  ultimately show ?thesis using 1 3 k by blast
qed

lemma bus_sum: "(\<Sum>b < n. \<Sum>x < (m::nat). f b x) = (\<Sum>a < n * m. (f (a mod n) (a div n) :: 'a::comm_monoid_add))"
proof (cases "n = 0")
  case False
  have "(\<Sum>b < n. \<Sum>x < m. f b x) = (\<Sum>(b, x) \<in> {..<n} \<times> {..<m}. f b x)"
    by (simp add: sum.cartesian_product)
  also have "\<dots> = (\<Sum>a < n * m. f (a mod n) (a div n))"
  proof (rule sum.reindex_bij_witness [where i = "\<lambda>a. (a mod n, a div n)" and j = "\<lambda>(b, x). x * n + b"])
    fix bx assume "bx \<in> {..<n} \<times> {..<m}"
    then obtain b x where bx: "bx = (b, x)" "b < n" "x < m" by auto
    then have "x * n + b < m * n" by (intro index_less)
    with bx show "(case bx of (b, x) \<Rightarrow> x * n + b) \<in> {..<n * m}" by (simp add: mult.commute)
    show "((case bx of (b, x) \<Rightarrow> x * n + b) mod n, (case bx of (b, x) \<Rightarrow> x * n + b) div n) = bx" using bx by simp
    show "f ((case bx of (b, x) \<Rightarrow> x * n + b) mod n) ((case bx of (b, x) \<Rightarrow> x * n + b) div n) = (case bx of (b, x) \<Rightarrow> f b x)"
      using bx by simp
  next
    fix a assume a: "a \<in> {..<n * m}"
    then show "(a mod n, a div n) \<in> {..<n} \<times> {..<m}" using False by (simp add: less_mult_imp_div_less mult.commute)
  qed simp
  finally show ?thesis .
qed simp

lemma rn_step:
  fixes J :: "'d::{plus,times} job"
  assumes J: "job_ok J" and z: "z < iterM J * iterN J" and wired: "rn_wired J rn"
    and holds: "buffer_holds (jR J * jC J) (jK J) (acc_vn J z) (acc_list J z t) (tr_accumulationBuffer rn)"
    and ins: "\<And>a. a < jR J * jC J \<Longrightarrow> link st (AccLink a) (acc_in J z t a)"
    and outs: "\<And>b x. b < jB J \<Longrightarrow> x < jP J \<Longrightarrow> link st (BusIn b x) []"
    and bl: "bus_links J st"
  shows "\<exists>rn' st'. TemporalRN_cycle (rn, st) = Inr (rn', st') \<and> rn_wired J rn'
    \<and> buffer_holds (jR J * jC J) (jK J) (acc_vn J z) (acc_list J z (Suc t)) (tr_accumulationBuffer rn')
    \<and> (\<forall>a < jR J * jC J. link st' (AccLink a) []) \<and> bus_links J st'
    \<and> image_mset key (in_load J st') = mset_set (vn_result J z ` (emitted J z (Suc t) - emitted J z t))
    \<and> (\<forall>c. (\<forall>a < jR J * jC J. c \<noteq> AccLink a) \<longrightarrow> (\<forall>b < jB J. \<forall>x < jP J. c \<noteq> BusIn b x) \<longrightarrow> st' c = st c)"
proof -
  let ?n = "jR J * jC J"
  let ?o = "\<lambda>a. BusIn (a mod jB J) (a div jB J)"
  have B: "0 < jB J" "?n \<le> jB J * jP J" "0 < jK J" using J by (simp_all add: job_ok_def)
  have slot: "a mod jB J < jB J" "a div jB J < jP J" if "a < jB J * jP J" for a
    using that B(1) by (simp_all add: less_mult_imp_div_less mult.commute)
  have o1: "link st (?o a) []" if "a < ?n" for a using outs slot [of a] that B(2) by simp
  have o3: "a = a'" if "?o a = ?o a'" for a a'
  proof -
    have "a mod jB J = a' mod jB J" "a div jB J = a' div jB J" using that by simp_all
    then show ?thesis by (metis div_mult_mod_eq)
  qed
  have ab: "buffer_ok ?n ?o (tr_accumulationBuffer rn)" using wired by (simp add: rn_wired_def)
  have "\<exists>ab' st'. AccumulationBuffer_cycle (tr_accumulationBuffer rn, st) = Inr (ab', st') \<and> buffer_ok ?n ?o ab'
     \<and> buffer_holds ?n (jK J) (acc_vn J z) (\<lambda>a. acc_next (jK J) (acc_list J z t a @ acc_in J z t a)) ab'
     \<and> (\<forall>a < ?n. link st' (AccLink a) [] \<and> link st' (?o a) (acc_out (jK J) (acc_list J z t a @ acc_in J z t a)))
     \<and> (\<forall>c. (\<forall>a < ?n. c \<noteq> AccLink a \<and> c \<noteq> ?o a) \<longrightarrow> st' c = st c)"
  proof (rule AccumulationBuffer_cycle_ok [OF ab holds])
    show "link st (AccLink a) (acc_in J z t a)" if "a < ?n" for a using ins that .
    show "length (acc_in J z t a) \<le> 1" for a by (rule acc_in_ok(1))
    show "p_VN q = acc_vn J z a" if "q \<in> set (acc_in J z t a)" for a q using acc_in_ok(2) that .
    show "link st (?o a) []" if "a < ?n" for a using o1 that .
    show "a = a'" if "?o a = ?o a'" for a a' using o3 that .
  qed simp
  then
  obtain ab' st' where 1: "AccumulationBuffer_cycle (tr_accumulationBuffer rn, st) = Inr (ab', st')"
    "buffer_ok ?n ?o ab'"
    "buffer_holds ?n (jK J) (acc_vn J z) (\<lambda>a. acc_next (jK J) (acc_list J z t a @ acc_in J z t a)) ab'"
    "\<forall>a < ?n. link st' (AccLink a) [] \<and> link st' (?o a) (acc_out (jK J) (acc_list J z t a @ acc_in J z t a))"
    "\<forall>c. (\<forall>a < ?n. c \<noteq> AccLink a \<and> c \<noteq> ?o a) \<longrightarrow> st' c = st c"
    by (elim exE conjE) (rule that)
  let ?F = "{a \<in> {..<?n}. fires J z t a}"
  have lo: "link st' (?o a) (if a < ?n \<and> fires J z t a then [acc_result (received J z (Suc t) a)] else [])"
    if a: "a < jB J * jP J" for a
  proof (cases "a < ?n")
    case True
    with 1(4) have "link st' (?o a) (acc_out (jK J) (acc_list J z t a @ acc_in J z t a))" by blast
    then show ?thesis unfolding received_step(2) [OF B(3)] using True by simp
  next
    case False
    have "\<forall>x < ?n. ?o a \<noteq> AccLink x \<and> ?o a \<noteq> ?o x"
    proof (intro allI impI conjI)
      fix x assume "x < ?n"
      then show "?o a \<noteq> ?o x" using o3 [of a x] False by metis
    qed simp
    with 1(5) have "st' (?o a) = st (?o a)" by blast
    then show ?thesis using False outs slot [OF a] by (simp add: link_def)
  qed
  have "in_load J st' = (\<Sum>a < jB J * jP J. mset (flight st' (?o a)))"
    unfolding in_load_def by (rule bus_sum)
  also have "\<dots> = (\<Sum>a < jB J * jP J. if a \<in> ?F then {#acc_result (received J z (Suc t) a)#} else {#})"
    by (rule sum.cong) (use link_flight [OF lo] in \<open>auto split: if_splits\<close>)
  also have "\<dots> = (\<Sum>a \<in> ?F. {#acc_result (received J z (Suc t) a)#})"
    using B(2) by (subst sum.inter_restrict [symmetric]) (auto intro: sum.cong)
  finally have "image_mset key (in_load J st') = (\<Sum>a \<in> ?F. {#key (acc_result (received J z (Suc t) a))#})"
    by (simp add: image_mset_sum)
  also have "\<dots> = (\<Sum>a \<in> ?F. {#vn_result J z (acc_vn J z a)#})"
    by (rule sum.cong) (use key_acc_result [OF J z] in auto)
  also have "\<dots> = image_mset (vn_result J z) (image_mset (acc_vn J z) (mset_set ?F))"
    by (simp add: sum_unfold_sum_mset multiset.map_comp comp_def)
  also have "\<dots> = mset_set (vn_result J z ` (emitted J z (Suc t) - emitted J z t))"
    using fires_emitted [OF J z, of t] by (simp add: image_mset_mset_set inj_vn_result)
  finally have load: "image_mset key (in_load J st') = mset_set (vn_result J z ` (emitted J z (Suc t) - emitted J z t))" .
  have "TemporalRN_cycle (rn, st) = Inr (rn\<lparr>tr_accumulationBuffer := ab'\<rparr>, st')"
    using 1(1) by (simp add: TemporalRN_cycle_def)
  moreover have "rn_wired J (rn\<lparr>tr_accumulationBuffer := ab'\<rparr>)" using 1(2) by (simp add: rn_wired_def)
  moreover have "buffer_holds ?n (jK J) (acc_vn J z) (acc_list J z (Suc t))
      (tr_accumulationBuffer (rn\<lparr>tr_accumulationBuffer := ab'\<rparr>))"
    using 1(3) received_step(1) [OF B(3), of z t] by (simp add: buffer_holds_def)
  moreover have "bus_links J st'"
    unfolding bus_links_def
  proof (intro allI impI conjI)
    fix b x assume bx: "b < jB J" "x < jP J"
    then have "x * jB J + b < jB J * jP J" using index_less [OF bx(2,1)] by (simp add: mult.commute)
    from lo [OF this] bx show "link st' (BusIn b x) (flight st' (BusIn b x))" by (simp add: link_flight)
  next
    fix b assume b: "b < jB J"
    have "st' (BusOut b) = st (BusOut b)" using 1(5) by simp
    then show "link st' (BusOut b) (flight st' (BusOut b))" using bl b by (simp add: bus_links_def link_def)
  qed
  moreover have "\<forall>c. (\<forall>a < ?n. c \<noteq> AccLink a) \<longrightarrow> (\<forall>b < jB J. \<forall>x < jP J. c \<noteq> BusIn b x) \<longrightarrow> st' c = st c"
  proof (intro allI impI)
    fix c assume c: "\<forall>a < ?n. c \<noteq> AccLink a" "\<forall>b < jB J. \<forall>x < jP J. c \<noteq> BusIn b x"
    have "c \<noteq> ?o a" if "a < ?n" for a using c(2) slot [of a] that B(2) by simp
    with c(1) 1(5) show "st' c = st c" by blast
  qed
  moreover have "\<forall>a < ?n. link st' (AccLink a) []" using 1(4) by blast
  ultimately show ?thesis using load by (intro exI conjI) assumption+
qed

end
