(* ===== verification/Simulation.thy ===== *)
theory Simulation
  imports Stonne Flow
begin

text \<open>
  The machine at work on a job: the state between two iterations of the simulation loop
  (\<open>conf\<close> before the configuration cycle of a tile, \<open>strm\<close> in cycle \<open>t\<close> of a tile), and what one
  iteration makes of it. A tile begins with a configuration cycle and goes on with cycles
  \<open>t = 0, 1, \<dots>\<close> in which operands enter, products move to the accumulators, and results travel
  over the bus until all of them are in the output. The loop ends because the tiles are finite, the
  results of a tile leave the accumulators before cycle \<open>last_emit\<close>, and from then on \<open>bus_work\<close>
  decreases in every cycle.
\<close>

section \<open>The machine between two cycles\<close>

lemma mesh_cids_cases:
  "c \<in> mesh_cids p \<Longrightarrow> (\<exists>i j. c = MeshVert i j \<or> c = MeshHoriz i j) \<or> (\<exists>a. c = DSTop a \<or> c = AccLink a)"
  by (auto simp: mesh_cids_def top_id_def left_id_def acc_id_def split: if_splits)

lemma mesh_quiet_cong:
  assumes quiet: "mesh_quiet J st" and J: "job_ok J"
    and inner: "\<forall>i j. st' (MeshVert i j) = st (MeshVert i j) \<and> st' (MeshHoriz i j) = st (MeshHoriz i j)"
    and top: "\<forall>a < jR J + jC J. link st' (DSTop a) []" and acc: "\<forall>a < jR J * jC J. link st' (AccLink a) []"
  shows "mesh_quiet J st'"
  unfolding mesh_quiet_def
proof (intro allI impI)
  fix i j assume ij: "i < jR J" "j < jC J"
  let ?p = "tile_pass J 0"
  have q: "link st (top_id i j) []" "link st (left_id ?p i j) []" using quiet ij by (simp_all add: mesh_quiet_def)
  have "link st' (top_id i j) []"
    using q(1) top inner ij by (cases "i = 0") (simp_all add: top_id_def link_def)
  moreover have "link st' (left_id ?p i j) []"
    using q(2) top inner ij by (cases "j = 0") (simp_all add: left_id_def link_def)
  moreover have "link st' (acc_id ?p i j) []" using acc index_less [OF ij] by (simp add: acc_id_def)
  ultimately show "link st' (top_id i j) [] \<and> link st' (left_id ?p i j) [] \<and> link st' (acc_id ?p i j) []" by blast
qed

definition fabric :: "'d job \<Rightarrow> 'd Stonne \<Rightarrow> bool" where
  "fabric J s \<longleftrightarrow> mem_rest J (st_mem s) \<and> lt_inputConnection (st_lt s) = Some OutAS
     \<and> bus_ok (jB J) (jP J) (st_collectionBus s) \<and> bus_links J (st_links s)
     \<and> link (st_links s) OutAS [] \<and> link (st_links s) OutLT []"

definition bus_load :: "'d job \<Rightarrow> 'd Stonne \<Rightarrow> 'd DataPackage multiset" where
  "bus_load J s = in_load J (st_links s) + queue_load J (st_collectionBus s) + out_load J (st_links s)"

text \<open>Tile \<open>z\<close> is about to be configured; nothing is in the array or on the bus.\<close>

definition conf :: "'d::{plus,times} job \<Rightarrow> nat \<Rightarrow> 'd Stonne \<Rightarrow> bool" where
  "conf J z s \<longleftrightarrow> z < iterM J * iterN J \<and> fabric J s \<and> bus_load J s = {#}
     \<and> conf_phase J z (st_mem s) \<and> progress J z {} (st_mem s)
     \<and> mesh_ready (tile_pass J z) (st_msnet s) \<and> rn_idle J (st_asnet s) \<and> mesh_quiet J (st_links s)"

text \<open>Cycle \<open>t\<close> of tile \<open>z\<close>; the results of the virtual neurons \<open>D\<close> are in the output.\<close>

definition strm :: "'d::{plus,times} job \<Rightarrow> nat \<Rightarrow> nat \<Rightarrow> nat set \<Rightarrow> 'd Stonne \<Rightarrow> bool" where
  "strm J z t D s \<longleftrightarrow> z < iterM J * iterN J \<and> fabric J s \<and> D \<subseteq> emitted J z t \<and> D \<noteq> tile_vns J z
     \<and> image_mset key (bus_load J s) = outstanding J z t D
     \<and> stream_phase J z t (st_mem s) \<and> progress J z D (st_mem s)
     \<and> mesh_table (tile_pass J z) t {} (st_msnet s) \<and> mesh_between (tile_pass J z) t (st_links s)
     \<and> rn_wired J (st_asnet s)
     \<and> buffer_holds (jR J * jC J) (jK J) (acc_vn J z) (acc_list J z t) (tr_accumulationBuffer (st_asnet s))"

lemma load_cong:
  "\<forall>b < jB J. \<forall>x < jP J. st' (BusIn b x) = st (BusIn b x) \<Longrightarrow> in_load J st' = in_load J st"
  "\<forall>b < jB J. st' (BusOut b) = st (BusOut b) \<Longrightarrow> out_load J st' = out_load J st"
  by (simp_all add: in_load_def out_load_def)

lemma bus_links_cong:
  assumes "bus_links J st" and "\<forall>b < jB J. st' (BusOut b) = st (BusOut b) \<and> (\<forall>x < jP J. st' (BusIn b x) = st (BusIn b x))"
  shows "bus_links J st'"
  using assms by (simp add: bus_links_def link_def)

lemma bus_links_out:
  assumes "bus_links J st" and "\<forall>b < jB J. link st' (BusOut b) [] \<and> (\<forall>x < jP J. st' (BusIn b x) = st (BusIn b x))"
  shows "bus_links J st'"
  using assms by (simp add: bus_links_def link_def)

lemma acc_start: "acc_list J z 0 a = []" "acc_in J z 0 a = []" "0 < jK J \<Longrightarrow> acc_list J z (Suc 0) a = []"
  by (simp_all add: acc_list_def received_def acc_next_def acc_in_eq)

lemma emitted_start: "0 < jK J \<Longrightarrow> emitted J z (Suc 0) = {}" "0 < jK J \<Longrightarrow> emitted J z 0 = {}"
  by (auto simp: emitted_def)

text \<open>The bus and the accumulators in one cycle, whatever the memory has done before.\<close>

lemma collect_step:
  fixes J :: "'d::{plus,times} job"
  assumes J: "job_ok J" and z: "z < iterM J * iterN J" and bus: "bus_ok (jB J) (jP J) bus" and bl: "bus_links J st"
    and out: "\<forall>b < jB J. link st (BusOut b) []" and rn: "rn_wired J rn"
    and holds: "buffer_holds (jR J * jC J) (jK J) (acc_vn J z) (acc_list J z t) (tr_accumulationBuffer rn)"
    and ins: "\<forall>a < jR J * jC J. link st (AccLink a) (acc_in J z t a)"
  shows "\<exists>bus' st1 rn' st'. Bus_cycle (bus, st) = Inr (bus', st1) \<and> TemporalRN_cycle (rn, st1) = Inr (rn', st')
    \<and> bus_ok (jB J) (jP J) bus' \<and> bus_links J st' \<and> rn_wired J rn'
    \<and> buffer_holds (jR J * jC J) (jK J) (acc_vn J z) (acc_list J z (Suc t)) (tr_accumulationBuffer rn')
    \<and> (\<forall>a < jR J * jC J. link st' (AccLink a) [])
    \<and> image_mset key (queue_load J bus' + out_load J st') = image_mset key (in_load J st + queue_load J bus)
    \<and> (out_load J st' = {#} \<longrightarrow> in_load J st + queue_load J bus = {#})
    \<and> image_mset key (in_load J st') = mset_set (vn_result J z ` (emitted J z (Suc t) - emitted J z t))
    \<and> (\<forall>c. (\<forall>a. c \<noteq> AccLink a) \<longrightarrow> (\<forall>b x. c \<noteq> BusIn b x) \<longrightarrow> (\<forall>b. c \<noteq> BusOut b) \<longrightarrow> st' c = st c)"
proof -
  obtain bus' st1 where 1: "Bus_cycle (bus, st) = Inr (bus', st1)" "bus_ok (jB J) (jP J) bus'"
    "bus_links J st1" "\<forall>b < jB J. \<forall>x < jP J. link st1 (BusIn b x) []"
    "image_mset key (queue_load J bus' + out_load J st1) = image_mset key (in_load J st + queue_load J bus)"
    "out_load J st1 = {#} \<longrightarrow> in_load J st + queue_load J bus = {#}"
    "\<forall>c. (\<forall>b < jB J. c \<noteq> BusOut b \<and> (\<forall>x < jP J. c \<noteq> BusIn b x)) \<longrightarrow> st1 c = st c"
    using bus_step [OF J bus bl] out by blast
  have i1: "\<forall>a < jR J * jC J. link st1 (AccLink a) (acc_in J z t a)"
    using ins 1(7) by (simp add: link_def)
  obtain rn' st' where 2: "TemporalRN_cycle (rn, st1) = Inr (rn', st')" "rn_wired J rn'"
    "buffer_holds (jR J * jC J) (jK J) (acc_vn J z) (acc_list J z (Suc t)) (tr_accumulationBuffer rn')"
    "\<forall>a < jR J * jC J. link st' (AccLink a) []" "bus_links J st'"
    "image_mset key (in_load J st') = mset_set (vn_result J z ` (emitted J z (Suc t) - emitted J z t))"
    "\<forall>c. (\<forall>a < jR J * jC J. c \<noteq> AccLink a) \<longrightarrow> (\<forall>b < jB J. \<forall>x < jP J. c \<noteq> BusIn b x) \<longrightarrow> st' c = st1 c"
    using rn_step [OF J z rn holds] i1 1(3,4) by blast
  have "out_load J st' = out_load J st1" using 2(7) by (intro load_cong(2)) simp
  moreover have "\<forall>c. (\<forall>a. c \<noteq> AccLink a) \<longrightarrow> (\<forall>b x. c \<noteq> BusIn b x) \<longrightarrow> (\<forall>b. c \<noteq> BusOut b) \<longrightarrow> st' c = st c"
    using 1(7) 2(7) by simp
  ultimately show ?thesis using 1(1,2,5,6) 2 by (intro exI conjI) (assumption | simp)+
qed


text \<open>The configuration cycle of a tile.\<close>

lemma conf_step:
  fixes J :: "'d::{plus,times} job"
  assumes J: "job_ok J" and c: "conf J z s"
  shows "\<exists>s'. Stonne_step s = Inr s' \<and> strm J z 0 {} s' \<and> \<not> sm_execution_finished (st_mem s')"
proof -
  let ?st = "st_links s" and ?p = "tile_pass J z"
  have z: "z < iterM J * iterN J" and fab: "fabric J s" and empty: "bus_load J s = {#}"
    and phase: "conf_phase J z (st_mem s)" "progress J z {} (st_mem s)"
    and nets: "mesh_ready ?p (st_msnet s)" "rn_idle J (st_asnet s)" "mesh_quiet J ?st"
    using c by (simp_all add: conf_def)
  have K: "0 < jK J" and RC: "0 < jR J" "0 < jC J"
    using J rows_bounds(1,2) [OF J z] cols_bounds(1,2) [OF J, of z] by (auto simp: job_ok_def)
  have fabs: "mem_rest J (st_mem s)" "lt_inputConnection (st_lt s) = Some OutAS"
     "bus_ok (jB J) (jP J) (st_collectionBus s)" "bus_links J ?st" "link ?st OutAS []" "link ?st OutLT []"
    using fab by (simp_all add: fabric_def)
  have loads: "in_load J ?st = {#}" "queue_load J (st_collectionBus s) = {#}" "out_load J ?st = {#}"
    using empty by (simp_all add: bus_load_def)
  have outs: "link ?st (BusOut b) []" if "b < jB J" for b
  proof -
    have "mset (flight ?st (BusOut b)) = {#}" using loads(3) that by (simp add: out_load_def sum_eq_empty_iff)
    moreover have "link ?st (BusOut b) (flight ?st (BusOut b))" using fabs(4) that by (simp add: bus_links_def)
    ultimately show ?thesis by simp
  qed
  have tops: "\<And>i. i < jR J + jC J \<Longrightarrow> link ?st (DSTop i) []" "\<forall>a < jR J * jC J. link ?st (AccLink a) []"
    using mesh_quietD [OF nets(3) RC] by blast+
  obtain sm mn rn st1 where
    1: "OSMeshSDMemory_cycle (st_mem s, st_msnet s, st_asnet s, ?st) = Inr (sm, mn, rn, st1)"
      "mem_rest J sm" "stream_phase J z 0 sm" "progress J z {} sm" "mesh_table ?p 0 {} mn" "rn_wired J rn"
      "buffer_holds (jR J * jC J) (jK J) (acc_vn J z) (\<lambda>_. []) (tr_accumulationBuffer rn)"
      "\<forall>i < jR J + jC J. link st1 (DSTop i) []" "\<forall>b < jB J. link st1 (BusOut b) []"
      "\<forall>c. (\<forall>i < jR J + jC J. c \<noteq> DSTop i) \<longrightarrow> (\<forall>b < jB J. c \<noteq> BusOut b) \<longrightarrow> st1 c = ?st c"
    using mem_cycle_conf [OF J z fabs(1) phase nets(1,2) fabs(6) outs tops(1), of "acc_vn J z"] by blast
  have bl1: "bus_links J st1" using fabs(4) by (rule bus_links_out) (use 1(9,10) in simp)
  have h1: "buffer_holds (jR J * jC J) (jK J) (acc_vn J z) (acc_list J z 0) (tr_accumulationBuffer rn)"
    using 1(7) by (simp add: buffer_holds_def acc_start)
  have ins1: "\<forall>a < jR J * jC J. link st1 (AccLink a) (acc_in J z 0 a)"
    using tops(2) 1(10) by (simp add: acc_start link_def)
  have in1: "in_load J st1 = {#}" using loads(1) 1(10) load_cong(1) [of J st1 ?st] by simp
  obtain bus' st2 rn' st3 where
    2: "Bus_cycle (st_collectionBus s, st1) = Inr (bus', st2)" "TemporalRN_cycle (rn, st2) = Inr (rn', st3)"
      "bus_ok (jB J) (jP J) bus'" "bus_links J st3" "rn_wired J rn'"
      "buffer_holds (jR J * jC J) (jK J) (acc_vn J z) (acc_list J z (Suc 0)) (tr_accumulationBuffer rn')"
      "\<forall>a < jR J * jC J. link st3 (AccLink a) []"
      "image_mset key (queue_load J bus' + out_load J st3) = image_mset key (in_load J st1 + queue_load J (st_collectionBus s))"
      "image_mset key (in_load J st3) = mset_set (vn_result J z ` (emitted J z (Suc 0) - emitted J z 0))"
      "\<forall>c. (\<forall>a. c \<noteq> AccLink a) \<longrightarrow> (\<forall>b x. c \<noteq> BusIn b x) \<longrightarrow> (\<forall>b. c \<noteq> BusOut b) \<longrightarrow> st3 c = st1 c"
    using collect_step [OF J z fabs(3) bl1 1(9,6) h1 ins1] by blast
  have as: "link st3 OutAS []" "link st3 OutLT []" using fabs(5,6) 1(10) 2(10) by (simp_all add: link_def)
  have 3: "LookupTable_cycle (st_lt s) st3 = Inr st3"
    using as(1) fabs(2) by (simp add: LookupTable_cycle_def link_pend)
  have quiet: "mesh_quiet J st3"
    using nets(3) J by (rule mesh_quiet_cong) (use 1(8,10) 2(7,10) in \<open>simp_all add: link_def\<close>)
  obtain mn' st4 where 4: "OSMeshMN_cycle (mn, st3) = Inr (mn', st4)" "mesh_table ?p 0 {} mn'"
      "mesh_quiet J st4" "\<forall>c. c \<notin> mesh_cids ?p \<longrightarrow> st4 c = st3 c"
    using mesh_cycle_idle [OF tile_pass_ok [OF J z] 1(5) quiet] by blast
  have keep: "st4 (BusIn b x) = st3 (BusIn b x)" "st4 (BusOut b) = st3 (BusOut b)" "st4 OutAS = st3 OutAS"
      "st4 OutLT = st3 OutLT" for b x
    using 4(4) mesh_cids_cases by blast+
  let ?s = "s\<lparr>st_mem := sm, st_msnet := mn', st_asnet := rn', st_collectionBus := bus',
            st_links := st4, st_n_cycles := uadd (st_n_cycles s) 1\<rparr>"
  have "Stonne_step s = Inr ?s" using 1(1) 2(1,2) 3 4(1) by (simp add: Stonne_step_def)
  moreover have "fabric J ?s"
    using 1(2) fabs(2) 2(3,4) as keep bus_links_cong [OF 2(4), of st4] by (simp add: fabric_def link_def)
  moreover have "image_mset key (bus_load J ?s) = outstanding J z 0 {}"
  proof -
    have "in_load J st4 = in_load J st3" "out_load J st4 = out_load J st3"
      using keep by (intro load_cong; simp)+
    then show ?thesis
      using 2(8,9) in1 loads(2) K by (simp add: bus_load_def outstanding_def emitted_start)
  qed
  moreover have "buffer_holds (jR J * jC J) (jK J) (acc_vn J z) (acc_list J z 0) (tr_accumulationBuffer rn')"
    using 2(6) K by (simp add: buffer_holds_def acc_start)
  moreover have "0 \<in> tile_vns J z" using rows_bounds(1) [OF J z] cols_bounds(1) [OF J, of z] by simp
  then have "{} \<noteq> tile_vns J z" by blast
  moreover have "\<not> sm_execution_finished sm" using 1(4) by (simp add: progress_def)
  ultimately show ?thesis
    using z 1(3,4) 4(2) mesh_quiet_between [OF 4(3)] 2(5) by (intro exI [of _ ?s]) (simp add: strm_def)
qed


lemma outstanding_Suc:
  assumes "D \<subseteq> emitted J z t"
  shows "outstanding J z t D + mset_set (vn_result J z ` (emitted J z (Suc t) - emitted J z t)) = outstanding J z (Suc t) D"
proof -
  have "emitted J z (Suc t) - D = (emitted J z t - D) \<union> (emitted J z (Suc t) - emitted J z t)"
    using assms emitted_mono [of t "Suc t" J z] by auto
  then have "vn_result J z ` (emitted J z (Suc t) - D)
     = vn_result J z ` (emitted J z t - D) \<union> vn_result J z ` (emitted J z (Suc t) - emitted J z t)"
    by (simp only: image_Un)
  moreover have "vn_result J z ` (emitted J z t - D) \<inter> vn_result J z ` (emitted J z (Suc t) - emitted J z t) = {}"
    by (auto simp: vn_result_def)
  ultimately show ?thesis
    using emitted_finite [of J z] by (simp add: outstanding_def mset_set_Union)
qed

lemma acc_late:
  assumes J: "job_ok J" and all: "emitted J z t = tile_vns J z"
  shows "acc_list J z (Suc t) a = []"
proof (cases "acc_used J z a")
  case True
  then have "jK J + acc_row J a + acc_col J a + 1 \<le> t"
    using emitted_allD [OF J all] by (simp add: acc_used_def)
  then have "min (jK J) (Suc t - (acc_row J a + acc_col J a + 1)) = jK J" by simp
  then show ?thesis by (simp add: acc_list_def acc_next_def received_def)
qed (simp add: acc_list_def acc_next_def received_def)

text \<open>The products on the links to the accumulators.\<close>

lemma mesh_between_acc:
  assumes "mesh_between (tile_pass J z) t st" and "0 < jC J"
  shows "\<forall>a < jR J * jC J. link st (AccLink a) (acc_in J z t a)"
proof (intro allI impI)
  fix a assume a: "a < jR J * jC J"
  then have "acc_row J a < jR J" "acc_col J a < jC J" using assms(2) by (simp_all add: less_mult_imp_div_less)
  with assms(1) have "link st (acc_id (tile_pass J z) (acc_row J a) (acc_col J a)) (acc_in J z t a)"
    by (simp add: mesh_between_def acc_in_def)
  then show "link st (AccLink a) (acc_in J z t a)" by (simp add: acc_id_def)
qed

lemma mesh_between_top:
  assumes b: "mesh_between (tile_pass J z) t st" and pos: "0 < jR J" "0 < jC J" and i: "i < jR J + jC J"
  shows "link st (DSTop i) []"
proof (cases "i < jC J")
  case True
  then have "link st (top_id 0 i) []"
    using b [unfolded mesh_between_def, rule_format, of 0 i] pos by simp
  then show ?thesis by (simp add: top_id_def)
next
  case False
  then have "link st (left_id (tile_pass J z) (i - jC J) 0) []"
    using b [unfolded mesh_between_def, rule_format, of "i - jC J" 0] pos i by simp
  then show ?thesis using False by (simp add: left_id_def)
qed

text \<open>The array in a cycle in which the ports feed it.\<close>

lemma array_step:
  fixes J :: "'d::times job"
  assumes p: "pass_ok (tile_pass J z)" and table: "mesh_table (tile_pass J z) t {} mn"
    and b: "mesh_between (tile_pass J z) t st0"
    and feeds: "\<forall>i < jR J + jC J. link st (DSTop i) (feed J z t i)"
    and accs: "\<forall>a < jR J * jC J. link st (AccLink a) []"
    and inner: "\<forall>i j. st (MeshVert i j) = st0 (MeshVert i j) \<and> st (MeshHoriz i j) = st0 (MeshHoriz i j)"
  shows "\<exists>mn' st'. OSMeshMN_cycle (mn, st) = Inr (mn', st') \<and> mesh_table (tile_pass J z) (Suc t) {} mn'
     \<and> mesh_between (tile_pass J z) (Suc t) st' \<and> (\<forall>c. c \<notin> mesh_cids (tile_pass J z) \<longrightarrow> st' c = st c)"
proof -
  let ?p = "tile_pass J z"
  have "mesh_links ?p t {} st"
  proof (rule mesh_between_links [OF b])
    show "link st (acc_id ?p i j) []" if "i < ps_R ?p" "j < ps_C ?p" for i j
      using accs index_less [of i "jR J" j "jC J"] that by (simp add: acc_id_def)
    show "link st (DSTop j) (top_msg ?p t 0 j)" if "j < ps_C ?p" for j
      using feeds [rule_format, of j] that by (simp add: feed_def)
    show "link st (DSTop (ps_C ?p + i)) (left_msg ?p t i 0)" if "i < ps_R ?p" for i
      using feeds [rule_format, of "jC J + i"] that by (simp add: feed_def)
  qed (use inner in simp_all)
  from OSMeshMN_cycle_pass [OF p table this] show ?thesis using mesh_links_between by blast
qed

definition bus_work :: "'d job \<Rightarrow> 'd Stonne \<Rightarrow> nat" where
  "bus_work J s = 3 * size (in_load J (st_links s)) + 2 * size (queue_load J (st_collectionBus s))
     + size (out_load J (st_links s))"

lemma image_mset_size: "image_mset f M = image_mset f N \<Longrightarrow> size M = size N"
  by (metis size_image_mset)


text \<open>A cycle of a running tile.\<close>

lemma strm_step:
  fixes J :: "'d::{plus,times} job"
  assumes J: "job_ok J" and c: "strm J z t D s"
  shows "\<exists>s'. Stonne_step s = Inr s' \<and>
    (if sm_execution_finished (st_mem s') then completed J (st_mem s')
     else conf J (Suc z) s'
       \<or> (\<exists>D'. strm J z (Suc t) D' s' \<and> (last_emit J z \<le> t \<longrightarrow> bus_work J s' < bus_work J s)))"
proof -
  let ?st = "st_links s" and ?p = "tile_pass J z"
  have z: "z < iterM J * iterN J" and fab: "fabric J s" and D: "D \<subseteq> emitted J z t" "D \<noteq> tile_vns J z"
    and load: "image_mset key (bus_load J s) = outstanding J z t D"
    and phase: "stream_phase J z t (st_mem s)" "progress J z D (st_mem s)"
    and mesh: "mesh_table ?p t {} (st_msnet s)" "mesh_between ?p t ?st"
    and rn: "rn_wired J (st_asnet s)"
      "buffer_holds (jR J * jC J) (jK J) (acc_vn J z) (acc_list J z t) (tr_accumulationBuffer (st_asnet s))"
    using c by (simp_all add: strm_def)
  have K: "0 < jK J" and RC: "0 < jR J" "0 < jC J"
    using J rows_bounds(1,2) [OF J z] cols_bounds(1,2) [OF J, of z] by (auto simp: job_ok_def)
  have fabs: "mem_rest J (st_mem s)" "lt_inputConnection (st_lt s) = Some OutAS"
     "bus_ok (jB J) (jP J) (st_collectionBus s)" "bus_links J ?st" "link ?st OutAS []" "link ?st OutLT []"
    using fab by (simp_all add: fabric_def)
  define xs where "xs = concat (map (\<lambda>b. flight ?st (BusOut b)) [0..<jB J])"
  have out: "out_load J ?st = mset xs" by (simp add: xs_def out_load_def mset_concat_upt)
  let ?M = "in_load J ?st + queue_load J (st_collectionBus s)"
  let ?D = "D \<union> p_VN ` set xs"
  have "image_mset key (mset xs + ?M) = outstanding J z t D"
    using load by (simp add: bus_load_def out add_ac)
  note taken = take_outstanding [OF this]
  have D': "?D \<subseteq> emitted J z t" using D(1) taken(4) by blast
  have Dt: "D \<subseteq> tile_vns J z" using D(1) emitted_subset [of J z t] by blast
  have all: "emitted J z t = tile_vns J z" if "?D = tile_vns J z"
    using D' that emitted_subset [of J z t] by blast
  have late: "jK J \<le> t" if "?D = tile_vns J z"
    using emitted_allD [OF J all [OF that], of 0 0] rows_bounds(1) [OF J z] cols_bounds(1) [OF J, of z] by simp
  have outs: "\<And>b. b < jB J \<Longrightarrow> link ?st (BusOut b) (flight ?st (BusOut b))"
    using fabs(4) by (simp add: bus_links_def)
  have tops: "\<And>i. i < jR J + jC J \<Longrightarrow> link ?st (DSTop i) []" using mesh_between_top [OF mesh(2) RC] .
  obtain sm st1 where
    1: "OSMeshSDMemory_cycle (st_mem s, st_msnet s, st_asnet s, ?st) = Inr (sm, st_msnet s, st_asnet s, st1)"
      "mem_rest J sm"
      "if ?D = tile_vns J z then tile_end J z sm \<and> (Suc z \<noteq> iterM J * iterN J \<longrightarrow> conf_phase J (Suc z) sm)
       else progress J z ?D sm \<and> stream_phase J z (Suc t) sm"
      "\<forall>i < jR J + jC J. link st1 (DSTop i) (feed J z t i)" "\<forall>b < jB J. link st1 (BusOut b) []"
      "\<forall>c. (\<forall>i < jR J + jC J. c \<noteq> DSTop i) \<longrightarrow> (\<forall>b < jB J. c \<noteq> BusOut b) \<longrightarrow> st1 c = ?st c"
    using mem_cycle_stream [OF J z fabs(1) phase Dt D(2) fabs(6) outs tops xs_def taken(1-3) late,
        of "st_msnet s" "st_asnet s"] by blast
  have bl1: "bus_links J st1" using fabs(4) by (rule bus_links_out) (use 1(5,6) in simp)
  have ins1: "\<forall>a < jR J * jC J. link st1 (AccLink a) (acc_in J z t a)"
    using mesh_between_acc [OF mesh(2) RC(2)] 1(6) by (simp add: link_def)
  have in1: "in_load J st1 = in_load J ?st" using 1(6) by (intro load_cong(1)) simp
  obtain bus' st2 rn' st3 where
    2: "Bus_cycle (st_collectionBus s, st1) = Inr (bus', st2)" "TemporalRN_cycle (st_asnet s, st2) = Inr (rn', st3)"
      "bus_ok (jB J) (jP J) bus'" "bus_links J st3" "rn_wired J rn'"
      "buffer_holds (jR J * jC J) (jK J) (acc_vn J z) (acc_list J z (Suc t)) (tr_accumulationBuffer rn')"
      "\<forall>a < jR J * jC J. link st3 (AccLink a) []"
      "image_mset key (queue_load J bus' + out_load J st3) = image_mset key ?M"
      "out_load J st3 = {#} \<longrightarrow> ?M = {#}"
      "image_mset key (in_load J st3) = mset_set (vn_result J z ` (emitted J z (Suc t) - emitted J z t))"
      "\<forall>c. (\<forall>a. c \<noteq> AccLink a) \<longrightarrow> (\<forall>b x. c \<noteq> BusIn b x) \<longrightarrow> (\<forall>b. c \<noteq> BusOut b) \<longrightarrow> st3 c = st1 c"
    using collect_step [OF J z fabs(3) bl1 1(5) rn ins1] unfolding in1 by blast
  have as: "link st3 OutAS []" "link st3 OutLT []" using fabs(5,6) 1(6) 2(11) by (simp_all add: link_def)
  have 3: "LookupTable_cycle (st_lt s) st3 = Inr st3"
    using as(1) fabs(2) by (simp add: LookupTable_cycle_def link_pend)
  have feeds: "\<forall>i < jR J + jC J. link st3 (DSTop i) (feed J z t i)" using 1(4) 2(11) by (simp add: link_def)
  have inner: "\<forall>i j. st3 (MeshVert i j) = ?st (MeshVert i j) \<and> st3 (MeshHoriz i j) = ?st (MeshHoriz i j)"
    using 1(6) 2(11) by simp
  obtain mn' st4 where 4: "OSMeshMN_cycle (st_msnet s, st3) = Inr (mn', st4)" "mesh_table ?p (Suc t) {} mn'"
      "mesh_between ?p (Suc t) st4" "\<forall>c. c \<notin> mesh_cids ?p \<longrightarrow> st4 c = st3 c"
    using array_step [OF tile_pass_ok [OF J z] mesh feeds 2(7) inner] by blast
  have keep: "st4 (BusIn b x) = st3 (BusIn b x)" "st4 (BusOut b) = st3 (BusOut b)" "st4 OutAS = st3 OutAS"
      "st4 OutLT = st3 OutLT" for b x
    using 4(4) mesh_cids_cases by blast+
  have loads: "in_load J st4 = in_load J st3" "out_load J st4 = out_load J st3"
    using keep by (intro load_cong; simp)+
  define s' where "s' = s\<lparr>st_mem := sm, st_msnet := mn', st_asnet := rn', st_collectionBus := bus',
            st_links := st4, st_n_cycles := uadd (st_n_cycles s) 1\<rparr>"
  have step: "Stonne_step s = Inr s'" using 1(1) 2(1,2) 3 4(1) by (simp add: Stonne_step_def s'_def)
  have fab': "fabric J s'"
    using 1(2) fabs(2) 2(3,4) as keep bus_links_cong [OF 2(4), of st4] by (simp add: fabric_def link_def s'_def)
  have load': "image_mset key (bus_load J s') = outstanding J z (Suc t) ?D"
  proof -
    have "image_mset key (bus_load J s') = image_mset key ?M + image_mset key (in_load J st3)"
      using 2(8) by (simp add: bus_load_def s'_def loads add_ac)
    also have "\<dots> = outstanding J z t ?D + mset_set (vn_result J z ` (emitted J z (Suc t) - emitted J z t))"
      unfolding taken(5) 2(10) ..
    also have "\<dots> = outstanding J z (Suc t) ?D" by (rule outstanding_Suc [OF D'])
    finally show ?thesis .
  qed
  show ?thesis
  proof (cases "?D = tile_vns J z")
    case True
    have e: "emitted J z t = tile_vns J z" "emitted J z (Suc t) = tile_vns J z"
      using all [OF True] emitted_mono [of t "Suc t" J z] emitted_subset [of J z "Suc t"] by auto
    have "conf J (Suc z) s'" if last: "Suc z \<noteq> iterM J * iterN J"
    proof -
      have "bus_load J s' = {#}" using load' True e by (simp add: outstanding_def)
      moreover have "conf_phase J (Suc z) sm" "progress J (Suc z) {} sm"
        using 1(3) True last by (simp_all add: tile_end_def)
      moreover have "mesh_ready (tile_pass J (Suc z)) mn'" using 4(2) by (rule mesh_table_ready) simp_all
      moreover have "mesh_quiet J st4" using J e(2) 4(3) by (rule mesh_between_quiet)
      moreover have "rn_idle J rn'"
        using 2(5) buffer_holds_empty [OF 2(6)] by (simp add: rn_idle_def)
      ultimately show ?thesis using z last fab' by (simp add: conf_def s'_def)
    qed
    moreover have "completed J sm" if "Suc z = iterM J * iterN J" using 1(3) True that by (simp add: tile_end_def)
    moreover have "\<not> sm_execution_finished sm" if "Suc z \<noteq> iterM J * iterN J"
      using 1(3) True that by (simp add: tile_end_def progress_def)
    moreover have "st_mem s' = sm" by (simp add: s'_def)
    ultimately show ?thesis using step
      by (intro exI [of _ s']) (cases "Suc z = iterM J * iterN J"; simp add: completed_def)
  next
    case False
    then have m: "progress J z ?D sm" "stream_phase J z (Suc t) sm" using 1(3) by simp_all
    have "?D \<subseteq> emitted J z (Suc t)" using D' emitted_mono [of t "Suc t" J z] by auto
    then have str: "strm J z (Suc t) ?D s'"
      using z fab' False load' m 4(2,3) 2(5,6) by (simp add: strm_def s'_def)
    have "bus_work J s' < bus_work J s" if l: "last_emit J z \<le> t"
    proof -
      have e: "emitted J z t = tile_vns J z" "emitted J z (Suc t) = tile_vns J z"
        using emitted_all [OF J l] emitted_all [OF J, of z "Suc t"] l by auto
      have i0: "in_load J st3 = {#}" using 2(10) e by simp
      have sz: "size (queue_load J bus') + size (out_load J st3) = size ?M"
        using image_mset_size [OF 2(8)] by simp
      have w': "bus_work J s' = 2 * size (queue_load J bus') + size (out_load J st3)"
        by (simp add: bus_work_def s'_def loads i0)
      have w: "bus_work J s = 3 * size (in_load J ?st) + 2 * size (queue_load J (st_collectionBus s)) + length xs"
        by (simp add: bus_work_def out)
      show ?thesis
      proof (cases "out_load J st3 = {#}")
        case True
        then have "?M = {#}" using 2(9) by simp
        moreover have "bus_load J s \<noteq> {#}"
        proof
          assume "bus_load J s = {#}"
          then have "vn_result J z ` (emitted J z t - D) = {}"
            using load emitted_finite [of J z t] by (simp add: outstanding_def mset_set_empty_iff)
          then show False using e(1) D Dt by auto
        qed
        ultimately have "xs \<noteq> []" by (simp add: bus_load_def out)
        then show ?thesis using w w' sz True \<open>?M = {#}\<close> by simp
      next
        case False
        then have "0 < size (out_load J st3)" by (simp add: nonempty_has_size)
        then show ?thesis using w w' sz by simp
      qed
    qed
    then show ?thesis using step str m(1) by (intro exI [of _ s']) (auto simp: progress_def s'_def)
  qed
qed



section \<open>The simulation loop\<close>

text \<open>Until the product is in the output every iteration of the loop succeeds.\<close>

definition running :: "'d::{plus,times} job \<Rightarrow> 'd Stonne \<Rightarrow> bool" where
  "running J s \<longleftrightarrow> (\<exists>z. conf J z s) \<or> (\<exists>z t D. strm J z t D s)"

lemma running_step:
  fixes J :: "'d::{plus,times} job"
  assumes "job_ok J" and "running J s"
  shows "\<exists>s'. Stonne_step s = Inr s' \<and>
    (if sm_execution_finished (st_mem s') then completed J (st_mem s') else running J s')"
proof -
  from assms(2) consider z where "conf J z s" | z t D where "strm J z t D s" unfolding running_def by blast
  then show ?thesis
  proof cases
    case (1 z)
    from conf_step [OF assms(1) this] show ?thesis unfolding running_def by (metis (full_types))
  next
    case (2 z t D)
    from strm_step [OF assms(1) this] show ?thesis unfolding running_def by (metis (full_types))
  qed
qed

text \<open>The loop of \<open>Stonne::cycle\<close> as a clocked loop.\<close>

interpretation machine: clocked Stonne_step "\<lambda>s. OSMeshSDMemory_isExecutionFinished (st_mem s)" Stonne_cycle
  by unfold_locales (rule Stonne_cycle.simps)

definition ends_well :: "'d::{plus,times} job \<Rightarrow> 'd Stonne \<Rightarrow> bool" where
  "ends_well J s \<longleftrightarrow> (\<exists>s'. Stonne_cycle s = Some (Inr s') \<and> completed J (st_mem s'))"

lemma ends_well_step:
  assumes "Stonne_step s = Inr s'" and "if sm_execution_finished (st_mem s') then completed J (st_mem s') else ends_well J s'"
  shows "ends_well J s"
  unfolding ends_well_def
  by (rule machine.ends_step [OF assms(1)])
     (use assms(2) in \<open>simp only: ends_well_def OSMeshSDMemory_isExecutionFinished_def\<close>)

text \<open>
  The loop ends: the tiles are finite, in a tile the cycle number grows until all results have left
  the accumulators, and from then on the packages on the bus move towards the memory.
\<close>

lemma strm_ends:
  fixes J :: "'d::{plus,times} job"
  assumes J: "job_ok J" and after: "\<And>s. conf J (Suc z) s \<Longrightarrow> ends_well J s"
  shows "strm J z t D s \<Longrightarrow> ends_well J s"
proof (induction "(last_emit J z - t, bus_work J s)" arbitrary: t D s rule: wf_induct_rule [OF wf_lex_prod [OF wf_less_than wf_less_than]])
  case 1
  from strm_step [OF J 1(2)] obtain s' where s': "Stonne_step s = Inr s'"
    "if sm_execution_finished (st_mem s') then completed J (st_mem s')
     else conf J (Suc z) s' \<or> (\<exists>D'. strm J z (Suc t) D' s' \<and> (last_emit J z \<le> t \<longrightarrow> bus_work J s' < bus_work J s))"
    by blast
  have "ends_well J s'" if "\<not> sm_execution_finished (st_mem s')" "\<not> conf J (Suc z) s'"
  proof -
    from s'(2) that obtain D' where D': "strm J z (Suc t) D' s'" "last_emit J z \<le> t \<longrightarrow> bus_work J s' < bus_work J s"
      by auto
    show ?thesis
    proof (rule 1(1) [OF _ D'(1)])
      show "((last_emit J z - Suc t, bus_work J s'), (last_emit J z - t, bus_work J s)) \<in> less_than <*lex*> less_than"
        using D'(2) by (cases "last_emit J z \<le> t") auto
    qed
  qed
  with s' after show ?case by (intro ends_well_step [OF s'(1)]) auto
qed

lemma conf_ends:
  fixes J :: "'d::{plus,times} job"
  assumes J: "job_ok J"
  shows "conf J z s \<Longrightarrow> ends_well J s"
proof (induction "iterM J * iterN J - z" arbitrary: z s rule: less_induct)
  case less
  from conf_step [OF J less.prems] obtain s' where s': "Stonne_step s = Inr s'" "strm J z 0 {} s'"
    "\<not> sm_execution_finished (st_mem s')" by blast
  have "ends_well J s'"
  proof (rule strm_ends [OF J _ s'(2)])
    fix s2 assume c: "conf J (Suc z) s2"
    then have "Suc z < iterM J * iterN J" by (simp add: conf_def)
    then show "ends_well J s2" by (intro less.hyps [OF _ c]) simp
  qed
  with s'(3) show ?case by (intro ends_well_step [OF s'(1)]) simp
qed


lemma running_ends:
  fixes J :: "'d::{plus,times} job"
  assumes "job_ok J" and "running J s"
  shows "ends_well J s"
  using assms(2) unfolding running_def by (auto intro: conf_ends [OF assms(1)] strm_ends [OF assms(1)])

end
