(* ===== verification/Boot.thy ===== *)
theory Boot
  imports Simulation
begin

text \<open>
  From the constructor to the first configuration cycle: the bus, the distribution network and the
  whole machine after construction (\<open>built\<close>), the loading of a matrix product and of its tile, and
  the run of a program that builds, loads and simulates. What is asked of the configuration is
  \<open>os_config\<close>, of the product and its tile \<open>gemm_ok\<close>.
\<close>

section \<open>The bus after construction\<close>

lemma Bus_new_ok:
  fixes st :: "'d store"
  assumes nb: "sdc_n_write_ports (m_SDMemoryCfg cfg) = nb" "0 < nb"
    and P: "uadd (msn_ms_size (m_MSNetworkCfg cfg) div nb) (if msn_ms_size (m_MSNetworkCfg cfg) mod nb \<noteq> 0 then 1 else 0) = P"
      "0 < P" "P < u32_max"
  shows "\<exists>bus st'. Bus_new cfg st = Inr (bus, st') \<and> bus_ok nb P bus
     \<and> (\<forall>b < nb. line_items (bu_collection_bus_lines bus ! b) = {#})
     \<and> (\<forall>b < nb. link st' (BusOut b) [] \<and> (\<forall>x < P. link st' (BusIn b x) []))
     \<and> (\<forall>c. (\<forall>b x. c \<noteq> BusOut b \<and> c \<noteq> BusIn b x) \<longrightarrow> st' c = st c)"
proof -
  let ?w = "sdc_port_width (m_SDMemoryCfg cfg)"
  let ?f = "\<lambda>i (b, st). let (l, st) = CollectionBusLine_new i P ?w 100 st
             in (b\<lparr>bu_collection_bus_lines := bu_collection_bus_lines b @ [l]\<rparr>, st)"
  let ?b0 = "\<lparr>bu_n_bus_lines = nb, bu_input_ports_bus_line = P, bu_connection_width = ?w,
            bu_fifo_size = 100, bu_collection_bus_lines = []\<rparr> :: 'd Bus"
  have loop: "case fold ?f [0..<k] (?b0, st) of (bus, st') \<Rightarrow>
      length (bu_collection_bus_lines bus) = k \<and> bu_n_bus_lines bus = nb
      \<and> (\<forall>b < k. line_ok b P (bu_collection_bus_lines bus ! b) \<and> line_items (bu_collection_bus_lines bus ! b) = {#}
           \<and> link st' (BusOut b) [] \<and> (\<forall>x < P. link st' (BusIn b x) []))
      \<and> (\<forall>c. (\<forall>b x. c \<noteq> BusOut b \<and> c \<noteq> BusIn b x) \<longrightarrow> st' c = st c)" for k
  proof (induction k)
    case 0
    then show ?case by simp
  next
    case (Suc k)
    obtain bus st1 where 1: "fold ?f [0..<k] (?b0, st) = (bus, st1)" by (cases "fold ?f [0..<k] (?b0, st)")
    obtain l st2 where 2: "CollectionBusLine_new k P ?w 100 st1 = (l, st2)"
      by (cases "CollectionBusLine_new k P ?w 100 st1")
    have new: "line_ok k P l" "line_items l = {#}" "\<And>x. x < P \<Longrightarrow> link st2 (BusIn k x) []"
        "link st2 (BusOut k) []" "\<And>c. \<forall>x < P. c \<noteq> BusIn k x \<Longrightarrow> c \<noteq> BusOut k \<Longrightarrow> st2 c = st1 c"
      using CollectionBusLine_new_ok [OF P(2,3), where b = k and w = ?w and fs = 100 and st = st1] unfolding 2 by auto
    have ih: "length (bu_collection_bus_lines bus) = k" "bu_n_bus_lines bus = nb"
      "\<And>b. b < k \<Longrightarrow> line_ok b P (bu_collection_bus_lines bus ! b) \<and> line_items (bu_collection_bus_lines bus ! b) = {#}
           \<and> link st1 (BusOut b) [] \<and> (\<forall>x < P. link st1 (BusIn b x) [])"
      "\<And>c. (\<forall>b x. c \<noteq> BusOut b \<and> c \<noteq> BusIn b x) \<Longrightarrow> st1 c = st c" using Suc 1 by auto
    have "fold ?f [0..<Suc k] (?b0, st) = (bus\<lparr>bu_collection_bus_lines := bu_collection_bus_lines bus @ [l]\<rparr>, st2)"
      using 1 2 by simp
    moreover have "link st2 (BusOut b) [] \<and> (\<forall>x < P. link st2 (BusIn b x) [])" if "b < Suc k" for b
    proof (cases "b = k")
      case False
      with that ih(3) [of b] new(5) show ?thesis by (simp add: link_def)
    qed (use new in simp)
    moreover have "st2 c = st c" if "\<forall>b x. c \<noteq> BusOut b \<and> c \<noteq> BusIn b x" for c
      using new(5) [of c] ih(4) [OF that] that by simp
    ultimately show ?case using ih(1-3) new(1,2) by (simp add: nth_append less_Suc_eq)
  qed
  obtain bus st' where r: "fold ?f [0..<nb] (?b0, st) = (bus, st')" by (cases "fold ?f [0..<nb] (?b0, st)")
  have "Bus_new cfg st = Inr (bus, st')"
    using r nb by (simp add: Bus_new_def P(1) [simplified] Let_def)
  moreover from loop [of nb] r have "length (bu_collection_bus_lines bus) = nb" "bu_n_bus_lines bus = nb"
      "\<forall>b < nb. line_ok b P (bu_collection_bus_lines bus ! b) \<and> line_items (bu_collection_bus_lines bus ! b) = {#}
           \<and> link st' (BusOut b) [] \<and> (\<forall>x < P. link st' (BusIn b x) [])"
      "\<forall>c. (\<forall>b x. c \<noteq> BusOut b \<and> c \<noteq> BusIn b x) \<longrightarrow> st' c = st c" by auto
  ultimately show ?thesis by (simp add: bus_ok_def)
qed

lemma Bus_connections:
  assumes "bus_ok nb P bus"
  shows "Bus_getInputConnections bus = Inr (map (\<lambda>b. map (BusIn b) [0..<P]) [0..<nb])"
    and "Bus_getOutputConnections bus = map (\<lambda>b. Some (BusOut b)) [0..<nb]"
proof -
  have n: "length (bu_collection_bus_lines bus) = nb" "bu_n_bus_lines bus = nb"
    and l: "\<And>b. b < nb \<Longrightarrow> line_ok b P (bu_collection_bus_lines bus ! b)"
    using assms by (simp_all add: bus_ok_def)
  have "\<exists>r. rfold (\<lambda>i conns. rbind (rnth (bu_collection_bus_lines bus) i) (\<lambda>l.
       Inr (conns @ [bl_input_connections l]))) [0..<nb] [] = Inr r \<and> r = map (\<lambda>b. map (BusIn b) [0..<P]) [0..<nb]"
    by (rule rfold_upt_total) (use n l in \<open>simp_all add: line_ok_def\<close>)
  then show "Bus_getInputConnections bus = Inr (map (\<lambda>b. map (BusIn b) [0..<P]) [0..<nb])"
    by (simp add: Bus_getInputConnections_def n)
  show "Bus_getOutputConnections bus = map (\<lambda>b. Some (BusOut b)) [0..<nb]"
    using n l by (intro nth_equalityI) (simp_all add: Bus_getOutputConnections_def line_ok_def)
qed

section \<open>A distribution network with one multiplier per port\<close>

lemma DSNetwork_new_1: "DSNetwork_new i cfg 1 c st = Inr (\<lparr>dt_tree = i, dt_ms_size = 1,
     dt_port_width = dsc_port_width (m_DSwitchCfg cfg), dt_nlevels = 0, dt_dswitchtable = Map.empty,
     dt_connectiontable = Map.empty, dt_inputConnection = c\<rparr>, st)"
  by (simp add: DSNetwork_new_def ispowerof2_def usub_def nlevels_of.simps [of "Suc 0"] tree_positions_def)

lemma map_chain: "fold (\<lambda>(i, dt) m. fold (\<lambda>(j, c) m. m(i * 1 + j := c))
         (zip [0..<1] (DSNetwork_getLastLevelConnections dt)) m)
       (zip [0..<n] (map (\<lambda>i. \<lparr>dt_tree = i, dt_ms_size = 1, dt_port_width = w, dt_nlevels = 0,
           dt_dswitchtable = Map.empty, dt_connectiontable = Map.empty, dt_inputConnection = Some (DSTop i)\<rparr>) [0..<n])) Map.empty
   = (\<lambda>i. if i < n then Some (DSTop i) else None)"
  by (induction n) (simp_all add: DSNetwork_getLastLevelConnections_def fun_eq_iff)

lemma DSNetworkTop_new_1:
  fixes st :: "'d store"
  assumes "msn_multiplier_network_type (m_MSNetworkCfg cfg) = OS_MESH"
    and "sdc_n_read_ports (m_SDMemoryCfg cfg) = n" and "0 < n" and "n < u32_max"
    and "msn_ms_rows (m_MSNetworkCfg cfg) + msn_ms_cols (m_MSNetworkCfg cfg) = n"
  shows "\<exists>dn st'. DSNetworkTop_new cfg st = Inr (dn, st') \<and> DSNetworkTop_getTopConnections dn = map DSTop [0..<n]
     \<and> DSNetworkTop_getLastLevelConnections dn = (\<lambda>i. if i < n then Some (DSTop i) else None)
     \<and> dp_n_input_ports dn = n \<and> dp_ms_size_per_port dn = 1
     \<and> (\<forall>i < n. link st' (DSTop i) []) \<and> (\<forall>c. (\<forall>i < n. c \<noteq> DSTop i) \<longrightarrow> st' c = st c)"
proof -
  let ?w = "dsc_port_width (m_DSwitchCfg cfg)"
  let ?t = "\<lambda>i. \<lparr>dt_tree = i, dt_ms_size = 1, dt_port_width = ?w, dt_nlevels = 0,
           dt_dswitchtable = Map.empty, dt_connectiontable = Map.empty, dt_inputConnection = Some (DSTop i)\<rparr> :: 'd DSNetwork"
  let ?dn = "\<lambda>k. \<lparr>dp_n_input_ports = n, dp_ms_size_per_port = 1, dp_port_width = ?w, dp_dsnetworks = map ?t [0..<k],
          dp_connections = map DSTop [0..<k]\<rparr>"
  define I where "I k s \<longleftrightarrow> (case s of (dn, st') \<Rightarrow> dn = ?dn k \<and> (\<forall>i < k. link st' (DSTop i) [])
     \<and> (\<forall>c. (\<forall>i < k. c \<noteq> DSTop i) \<longrightarrow> st' c = st c))" for k and s :: "'d DSNetworkTop \<times> 'd store"
  have "\<exists>s'. rfold (DSNetworkTop_add_tree cfg) [0..<n] (?dn 0, st) = Inr s' \<and> I n s'"
  proof (rule rfold_upt_total)
    show "I 0 (?dn 0, st)" by (simp add: I_def)
    fix k and s :: "'d DSNetworkTop \<times> 'd store" assume "I k s"
    then obtain st1 where s: "s = (?dn k, st1)" and 1: "\<forall>i < k. link st1 (DSTop i) []"
        "\<forall>c. (\<forall>i < k. c \<noteq> DSTop i) \<longrightarrow> st1 c = st c" by (cases s) (simp add: I_def)
    let ?st = "st1(DSTop k := Connection_new ?w)"
    have "DSNetworkTop_add_tree cfg k s = Inr (?dn (Suc k), ?st)"
      using DSNetwork_new_1 [of k cfg "Some (DSTop k)" ?st] by (simp add: DSNetworkTop_add_tree_def s)
    moreover have "I (Suc k) (?dn (Suc k), ?st)" using 1 by (simp add: I_def less_Suc_eq)
    ultimately show "\<exists>s'. DSNetworkTop_add_tree cfg k s = Inr s' \<and> I (Suc k) s'" by blast
  qed
  then obtain st' where r: "rfold (DSNetworkTop_add_tree cfg) [0..<n] (?dn 0, st) = Inr (?dn n, st')"
    "\<forall>i < n. link st' (DSTop i) []" "\<forall>c. (\<forall>i < n. c \<noteq> DSTop i) \<longrightarrow> st' c = st c"
    by (auto simp: I_def)
  have "uadd (msn_ms_rows (m_MSNetworkCfg cfg)) (msn_ms_cols (m_MSNetworkCfg cfg)) div n = 1"
    using assms by (simp add: uadd_small)
  then have "DSNetworkTop_new cfg st = Inr (?dn n, st')"
    using r(1) assms(1-3) by (simp add: DSNetworkTop_new_def)
  moreover have "DSNetworkTop_getLastLevelConnections (?dn n) = (\<lambda>i. if i < n then Some (DSTop i) else None)"
    using map_chain [of n ?w] by (simp add: DSNetworkTop_getLastLevelConnections_def)
  ultimately show ?thesis using r(2,3) by (intro exI [of _ "?dn n"] exI [of _ st']) (simp add: DSNetworkTop_getTopConnections_def)
qed


section \<open>The machine after construction\<close>

text \<open>The ports of a bus line.\<close>

definition bus_ports :: "Config \<Rightarrow> nat" where
  "bus_ports cfg = (let n = sdc_n_write_ports (m_SDMemoryCfg cfg); ms = msn_ms_size (m_MSNetworkCfg cfg) in
     uadd (ms div n) (if ms mod n \<noteq> 0 then 1 else 0))"

text \<open>
  A configuration of an output-stationary machine whose parts can be built: one read port per row
  and column, and at least one bus line with at least one input. The machine is connected when the
  bus lines have an input for every accumulator.
\<close>

definition os_parts :: "Config \<Rightarrow> bool" where
  "os_parts cfg \<longleftrightarrow>
     (let msn = m_MSNetworkCfg cfg; sdc = m_SDMemoryCfg cfg; asn = m_ASNetworkCfg cfg;
          R = msn_ms_rows msn; C = msn_ms_cols msn; P = bus_ports cfg in
      msn_multiplier_network_type msn = OS_MESH \<and> asn_reduce_network_type asn = TEMPORALRN
      \<and> sdc_mem_controller_type sdc = TPU_OS_DENSE
      \<and> 0 < R \<and> 0 < C \<and> R * C < u32_max \<and> R + C < u32_max \<and> sdc_n_read_ports sdc = R + C
      \<and> 0 < sdc_n_write_ports sdc \<and> 0 < P \<and> P < u32_max)"

definition os_config :: "Config \<Rightarrow> bool" where
  "os_config cfg \<longleftrightarrow> os_parts cfg
     \<and> msn_ms_rows (m_MSNetworkCfg cfg) * msn_ms_cols (m_MSNetworkCfg cfg)
         \<le> sdc_n_write_ports (m_SDMemoryCfg cfg) * bus_ports cfg"

text \<open>The job of a loaded product.\<close>

definition job_of :: "Config \<Rightarrow> nat \<Rightarrow> nat \<Rightarrow> nat \<Rightarrow> nat \<Rightarrow> nat \<Rightarrow> 'd list \<Rightarrow> 'd list \<Rightarrow> 'd job" where
  "job_of cfg M N K tM tN MK KN =
     \<lparr>jR = msn_ms_rows (m_MSNetworkCfg cfg), jC = msn_ms_cols (m_MSNetworkCfg cfg),
      jB = sdc_n_write_ports (m_SDMemoryCfg cfg), jP = bus_ports cfg, jM = M, jN = N, jK = K,
      jTM = tM, jTN = tN, jMK = MK, jKN = KN\<rparr>"

definition mem_fresh :: "'d job \<Rightarrow> 'd OSMeshSDMemory \<Rightarrow> bool" where
  "mem_fresh J sm \<longleftrightarrow> sm_ms_rows sm = jR J \<and> sm_ms_cols sm = jC J \<and> sm_n_read_ports sm = jR J + jC J
     \<and> sm_ms_size_per_input_port sm = 1 \<and> sm_read_connections sm = map DSTop [0..<jR J + jC J]
     \<and> sm_write_connection sm = Some OutLT \<and> sm_write_port_connections sm = map (\<lambda>b. Some (BusOut b)) [0..<jB J]
     \<and> length (sm_input_fifos sm) = jR J + jC J \<and> length (sm_psum_fifos sm) = jR J + jC J
     \<and> (\<forall>i < jR J + jC J. f_fifo (sm_psum_fifos sm ! i) = [] \<and> f_fifo (sm_input_fifos sm ! i) = [])
     \<and> length (ss_n_SRAM_read_ports_weights_use (sm_stats sm)) = jR J + jC J
     \<and> length (ss_n_SRAM_read_ports_inputs_use (sm_stats sm)) = jR J + jC J
     \<and> f_fifo (sm_write_fifo sm) = [] \<and> sm_current_state sm = OS_CONFIGURING
     \<and> sm_current_M sm = 0 \<and> sm_current_N sm = 0 \<and> sm_current_K sm = 0 \<and> sm_current_output sm = 0
     \<and> sm_current_output_iteration sm = 0 \<and> sm_n_iterations_completed sm = 0 \<and> \<not> sm_execution_finished sm"

definition built :: "'d::{plus,times} job \<Rightarrow> Config \<Rightarrow> 'd Stonne \<Rightarrow> bool" where
  "built J cfg s \<longleftrightarrow> st_cfg s = cfg \<and> st_ms_size s = msn_ms_size (m_MSNetworkCfg cfg) \<and> mem_fresh J (st_mem s)
     \<and> lt_inputConnection (st_lt s) = Some OutAS \<and> bus_ok (jB J) (jP J) (st_collectionBus s)
     \<and> bus_links J (st_links s) \<and> link (st_links s) OutAS [] \<and> link (st_links s) OutLT []
     \<and> bus_load J s = {#} \<and> mesh_ready (tile_pass J 0) (st_msnet s) \<and> rn_idle J (st_asnet s)
     \<and> mesh_quiet J (st_links s)"

lemma OSMeshSDMemory_new_ok:
  assumes "msn_ms_rows (m_MSNetworkCfg cfg) = jR J" "msn_ms_cols (m_MSNetworkCfg cfg) = jC J"
    and "sdc_n_read_ports (m_SDMemoryCfg cfg) = jR J + jC J" "0 < jR J" "jR J + jC J < u32_max"
  shows "\<exists>sm sm1. OSMeshSDMemory_new cfg (Some OutLT) = Inr sm
     \<and> OSMeshSDMemory_setReadConnections (map DSTop [0..<jR J + jC J]) sm = Inr sm1
     \<and> mem_fresh J (OSMeshSDMemory_setWriteConnections (map (\<lambda>b. Some (BusOut b)) [0..<jB J]) sm1)"
  using assms
  by (simp add: OSMeshSDMemory_new_def OSMeshSDMemory_setReadConnections_def OSMeshSDMemory_setWriteConnections_def
      mem_fresh_def uadd_small Let_def)

text \<open>The machine from its parts, and the parts before the reduction network is given its bus lines.\<close>

definition machine_of ::
  "Config \<Rightarrow> 'd DSNetworkTop \<Rightarrow> 'd OSMeshMN \<Rightarrow> 'd TemporalRN \<Rightarrow> 'd OSMeshSDMemory \<Rightarrow> 'd Bus \<Rightarrow> 'd store \<Rightarrow> 'd Stonne" where
  "machine_of cfg dn mn rn sm bus st =
     \<lparr>st_cfg = cfg, st_ms_size = msn_ms_size (m_MSNetworkCfg cfg), st_n_adders = usub (msn_ms_size (m_MSNetworkCfg cfg)) 1,
     st_dsnet = dn, st_msnet = mn, st_asnet = rn, st_lt = LookupTable_new cfg (Some OutAS) (Some OutLT),
     st_mem = sm, st_collectionBus = bus, st_links = st, st_dnn_layer = None, st_current_tile = None,
     st_layer_loaded = False, st_tile_loaded = False, st_n_cycles = 0\<rparr>"

definition parts_ok :: "'d::{plus,times} job \<Rightarrow> 'd OSMeshMN \<Rightarrow> 'd TemporalRN \<Rightarrow> 'd OSMeshSDMemory \<Rightarrow> 'd Bus \<Rightarrow> 'd store \<Rightarrow> bool" where
  "parts_ok J mn rn sm bus st \<longleftrightarrow> mesh_ready (tile_pass J 0) mn \<and> mem_fresh J sm \<and> bus_ok (jB J) (jP J) bus
     \<and> (\<forall>b < jB J. line_items (bu_collection_bus_lines bus ! b) = {#})
     \<and> (\<forall>b < jB J. link st (BusOut b) [] \<and> (\<forall>x < jP J. link st (BusIn b x) []))
     \<and> mesh_quiet J st \<and> link st OutAS [] \<and> link st OutLT []
     \<and> tr_accumulation_buffer_size rn = jR J * jC J \<and> tr_inputconnectiontable rn = map AccLink [0..<jR J * jC J]
     \<and> tr_outputconnectiontable rn = [] \<and> ab_n_accumulators (tr_accumulationBuffer rn) = jR J * jC J
     \<and> length (ab_accumulatortable (tr_accumulationBuffer rn)) = jR J * jC J
     \<and> (\<forall>a < jR J * jC J. ac_inputConnection (ab_accumulatortable (tr_accumulationBuffer rn) ! a) = Some (AccLink a)
        \<and> f_fifo (ac_input_fifo (ab_accumulatortable (tr_accumulationBuffer rn) ! a)) = []
        \<and> f_fifo (ac_output_fifo (ab_accumulatortable (tr_accumulationBuffer rn) ! a)) = [])"

lemma Stonne_new_parts:
  fixes J :: "'d::{plus,times} job"
  assumes cfg: "os_parts cfg" and J: "J = job_of cfg M N K tM tN MK KN"
  shows "\<exists>dn mn rn sm bus st. parts_ok J mn rn sm bus st
     \<and> Stonne_new cfg = rbind (TemporalRN_setMemoryConnections (map (\<lambda>b. map (BusIn b) [0..<jP J]) [0..<jB J]) rn)
         (\<lambda>rn. Inr (machine_of cfg dn mn rn sm bus st))"
proof -
  let ?msn = "m_MSNetworkCfg cfg" and ?sdc = "m_SDMemoryCfg cfg"
  let ?R = "jR J" and ?C = "jC J" and ?n = "jR J * jC J"
  have c: "msn_multiplier_network_type ?msn = OS_MESH" "asn_reduce_network_type (m_ASNetworkCfg cfg) = TEMPORALRN"
     "sdc_mem_controller_type ?sdc = TPU_OS_DENSE" "0 < ?R" "0 < ?C" "?n < u32_max" "?R + ?C < u32_max"
     "sdc_n_read_ports ?sdc = ?R + ?C" "0 < jB J" "0 < jP J" "jP J < u32_max"
     "msn_ms_rows ?msn = ?R" "msn_ms_cols ?msn = ?C" "sdc_n_write_ports ?sdc = jB J" "bus_ports cfg = jP J"
    using cfg by (simp_all add: os_parts_def J job_of_def Let_def)
  define st0 :: "'d store" where "st0 = (\<lambda>_. uninit)(OutAS := Connection_new (ltc_port_width (m_LookUpTableCfg cfg)),
                            OutLT := Connection_new (sdc_port_width ?sdc))"
  have l0: "link st0 OutAS []" "link st0 OutLT []" by (simp_all add: st0_def)
  obtain mn st1 where 1: "OSMeshMN_new cfg st0 = Inr (mn, st1)" "mesh_wiring ?R ?C ?n mn"
      "\<forall>i < ?R. \<forall>j < ?C. (0 < i \<longrightarrow> link st1 (MeshVert i j) []) \<and> (0 < j \<longrightarrow> link st1 (MeshHoriz i j) [])"
      "\<forall>c. (\<forall>i j. c \<noteq> MeshVert i j \<and> c \<noteq> MeshHoriz i j) \<longrightarrow> st1 c = st0 c"
    using OSMeshMN_new_ok [OF c(12,13,6), of st0] by blast
  obtain dn st2 where 2: "DSNetworkTop_new cfg st1 = Inr (dn, st2)"
      "DSNetworkTop_getTopConnections dn = map DSTop [0..<?R + ?C]"
      "DSNetworkTop_getLastLevelConnections dn = (\<lambda>i. if i < ?R + ?C then Some (DSTop i) else None)"
      "dp_n_input_ports dn = ?R + ?C" "dp_ms_size_per_port dn = 1" "\<forall>i < ?R + ?C. link st2 (DSTop i) []"
      "\<forall>c. (\<forall>i < ?R + ?C. c \<noteq> DSTop i) \<longrightarrow> st2 c = st1 c"
    using DSNetworkTop_new_1 [OF c(1,8) _ c(7), of st1] c(4,12,13) by auto
  obtain rn st3 where 3: "TemporalRN_new cfg st2 = Inr (rn, st3)" "tr_accumulation_buffer_size rn = ?n"
     "tr_inputconnectiontable rn = map AccLink [0..<?n]" "tr_outputconnectiontable rn = []"
     "ab_n_accumulators (tr_accumulationBuffer rn) = ?n" "length (ab_accumulatortable (tr_accumulationBuffer rn)) = ?n"
     "\<forall>a < ?n. ac_inputConnection (ab_accumulatortable (tr_accumulationBuffer rn) ! a) = Some (AccLink a)
        \<and> f_fifo (ac_input_fifo (ab_accumulatortable (tr_accumulationBuffer rn) ! a)) = []
        \<and> f_fifo (ac_output_fifo (ab_accumulatortable (tr_accumulationBuffer rn) ! a)) = []"
     "\<forall>a < ?n. link st3 (AccLink a) []" "\<forall>c. (\<forall>a < ?n. c \<noteq> AccLink a) \<longrightarrow> st3 c = st2 c"
    using TemporalRN_new_ok [of ?n cfg st2] c(1,6,12,13) by (auto simp: umul_small Let_def)
  obtain bus st4 where 4: "Bus_new cfg st3 = Inr (bus, st4)" "bus_ok (jB J) (jP J) bus"
     "\<forall>b < jB J. line_items (bu_collection_bus_lines bus ! b) = {#}"
     "\<forall>b < jB J. link st4 (BusOut b) [] \<and> (\<forall>x < jP J. link st4 (BusIn b x) [])"
     "\<forall>c. (\<forall>b x. c \<noteq> BusOut b \<and> c \<noteq> BusIn b x) \<longrightarrow> st4 c = st3 c"
    using Bus_new_ok [OF c(14,9) _ c(10,11), of st3] c(14,15) by (auto simp: bus_ports_def Let_def)
  obtain sm sm1 where 5: "OSMeshSDMemory_new cfg (Some OutLT) = Inr sm"
     "OSMeshSDMemory_setReadConnections (map DSTop [0..<?R + ?C]) sm = Inr sm1"
     "mem_fresh J (OSMeshSDMemory_setWriteConnections (map (\<lambda>b. Some (BusOut b)) [0..<jB J]) sm1)"
    using OSMeshSDMemory_new_ok [OF c(12,13,8,4,7)] by blast
  obtain mn1 mn2 where 6: "OSMeshMN_setInputConnections (DSNetworkTop_getLastLevelConnections dn) (?C + ?R) mn = Inr mn1"
     "OSMeshMN_setOutputConnections (\<lambda>i. if i < ?n then Some (map AccLink [0..<?n] ! i) else None) ?n mn1 = Inr mn2"
     "mesh_ready (tile_pass J 0) mn2"
    using OSMeshMN_connect_ok [OF 1(2), of "tile_pass J 0" "DSNetworkTop_getLastLevelConnections dn"
        "\<lambda>i. if i < ?n then Some (map AccLink [0..<?n] ! i) else None"] c(4-7) 2(3) by auto
  let ?sm = "OSMeshSDMemory_setWriteConnections (map (\<lambda>b. Some (BusOut b)) [0..<jB J]) sm1"
  have "Stonne_new cfg = rbind (TemporalRN_setMemoryConnections (map (\<lambda>b. map (BusIn b) [0..<jP J]) [0..<jB J]) rn)
         (\<lambda>rn. Inr (machine_of cfg dn mn2 rn ?sm bus st4))"
    unfolding Stonne_new_def Let_def st0_def [symmetric]
    using 1(1) 2(1,2,4,5) 3(1,3) 4(1) 5(1,2) 6(1,2) c(1-3) c(7) Bus_connections [OF 4(2)]
    by (simp add: connectMemoryandDSN_def connectMSNandDSN_def connectMSNandASN_def connectASNandBus_def
        connectBusandMemory_def TemporalRN_getLastLevelConnections_def umul_small add.commute machine_of_def Let_def
        rbind_assoc cong: if_cong)
  moreover have "parts_ok J mn2 rn ?sm bus st4"
  proof -
    have keep: "st4 (MeshVert i j) = st1 (MeshVert i j)" "st4 (MeshHoriz i j) = st1 (MeshHoriz i j)"
      "st4 (DSTop i) = st2 (DSTop i)" "st4 (AccLink i) = st3 (AccLink i)" "st4 OutAS = st0 OutAS" "st4 OutLT = st0 OutLT"
      for i j using 1(4) 2(7) 3(9) 4(5) by simp_all
    have "mesh_quiet J st4"
      unfolding mesh_quiet_def
    proof (intro allI impI conjI)
      fix i j assume ij: "i < ?R" "j < ?C"
      show "link st4 (top_id i j) []"
        using 1(3) 2(6) ij keep by (cases i) (auto simp: top_id_def link_def)
      show "link st4 (left_id (tile_pass J 0) i j) []"
        using 1(3) 2(6) ij keep by (cases j) (auto simp: left_id_def link_def)
      show "link st4 (acc_id (tile_pass J 0) i j) []"
        using 3(8) keep(4) index_less [OF ij] by (simp add: acc_id_def link_def)
    qed
    then show ?thesis
      using 3(2-7) 4(2-4) 5(3) 6(3) l0 keep(5,6) unfolding parts_ok_def link_def by simp
  qed
  ultimately show ?thesis by blast
qed

lemma Stonne_new_ok:
  fixes J :: "'d::{plus,times} job"
  assumes cfg: "os_config cfg" and J: "J = job_of cfg M N K tM tN MK KN"
  shows "\<exists>s. Stonne_new cfg = Inr s \<and> built J cfg s"
proof -
  let ?n = "jR J * jC J"
  have c: "0 < jB J" "?n \<le> jB J * jP J" using cfg by (simp_all add: os_config_def os_parts_def J job_of_def Let_def)
  have "os_parts cfg" using cfg by (simp add: os_config_def)
  from Stonne_new_parts [OF this J] obtain dn mn rn sm bus st where p: "parts_ok J mn rn sm bus st"
    "Stonne_new cfg = rbind (TemporalRN_setMemoryConnections (map (\<lambda>b. map (BusIn b) [0..<jP J]) [0..<jB J]) rn)
         (\<lambda>rn. Inr (machine_of cfg dn mn rn sm bus st))" by blast
  note q = p(1) [unfolded parts_ok_def]
  obtain rn' where 7: "TemporalRN_setMemoryConnections (map (\<lambda>b. map (BusIn b) [0..<jP J]) [0..<jB J]) rn = Inr rn'"
     "buffer_ok ?n (\<lambda>a. BusIn (a mod jB J) (a div jB J)) (tr_accumulationBuffer rn')"
     "tr_inputconnectiontable rn' = tr_inputconnectiontable rn"
     "\<forall>a < ?n. f_fifo (ac_input_fifo (ab_accumulatortable (tr_accumulationBuffer rn') ! a)) = []
        \<and> f_fifo (ac_output_fifo (ab_accumulatortable (tr_accumulationBuffer rn') ! a)) = []"
    using TemporalRN_setMemoryConnections_ok [of rn ?n "map (\<lambda>b. map (BusIn b) [0..<jP J]) [0..<jB J]" "jB J" "jP J"] q c
    by (auto simp: Let_def)
  let ?s = "machine_of cfg dn mn rn' sm bus st"
  have "Stonne_new cfg = Inr ?s" using p(2) 7(1) by simp
  moreover have "built J cfg ?s"
  proof -
    have "bus_load J ?s = {#}"
    proof -
      have "flight st (BusOut b) = []" "x < jP J \<Longrightarrow> flight st (BusIn b x) = []" if "b < jB J" for b x
        using q that by (simp_all add: link_def)
      moreover have "mset (concat (bus_queues bus b)) = {#}" if "b < jB J" for b
        using q that by (simp add: bus_queues_def line_items_def line_queues_def)
      then have "queue_load J bus = {#}"
        unfolding queue_load_def by (intro sum.neutral) simp
      ultimately show ?thesis
        by (simp add: bus_load_def in_load_def out_load_def machine_of_def)
    qed
    moreover have "bus_links J st" using q by (simp add: bus_links_def link_def)
    ultimately show ?thesis
      using q 7(2,4)
      by (simp add: built_def machine_of_def LookupTable_new_def rn_idle_def rn_wired_def)
  qed
  ultimately show ?thesis by blast
qed


section \<open>Loading a product\<close>

lemma rceil_div_ok: "0 < b \<Longrightarrow> a < u32_max \<Longrightarrow> rceil_div a b = Inr (ceil_div a b)"
proof -
  assume b: "0 < b" and a: "a < u32_max"
  have "ceil_div a b \<le> a"
  proof (rule ccontr)
    assume "\<not> ceil_div a b \<le> a"
    then have "a * b < a" using ceil_div_less_iff [OF b, of a a] by simp
    then show False using b by simp
  qed
  then have "uadd (a div b) (if a mod b \<noteq> 0 then 1 else 0) = ceil_div a b"
    using a by (simp add: ceil_div_def uadd_small)
  then show ?thesis using b by (simp add: rceil_div_def)
qed

lemma loadDenseGEMM_ok:
  assumes "0 < M" and "M < u32_max" and "0 < N"
  shows "\<exists>layer. l_type layer = GEMM \<and> l_R layer = 1 \<and> l_S layer = K \<and> l_C layer = 1 \<and> l_X layer = M \<and> l_K layer = N
    \<and> loadDenseGEMM N K M MK KN out df s = Inr (s\<lparr>st_dnn_layer := Some layer, st_layer_loaded := True,
             st_mem := OSMeshSDMemory_setLayer layer MK KN out df (st_mem s)\<rparr>)"
proof -
  obtain layer where l: "DNNLayer_new GEMM 1 K 1 N 1 1 M K 1 = Inr layer" "l_type layer = GEMM" "l_R layer = 1"
      "l_S layer = K" "l_C layer = 1" "l_X layer = M" "l_K layer = N"
    by (simp add: DNNLayer_new_def)
  with assms show ?thesis
    by (intro exI [of _ layer]) (simp add: loadDenseGEMM_def loadDNNLayer_def rmod_def)
qed

text \<open>
  The tile check: the tile must fit the array, and without accumulation buffer a folded tile must
  leave multipliers for the partial sums.
\<close>

definition tile_fits :: "Config \<Rightarrow> nat \<Rightarrow> nat \<Rightarrow> nat \<Rightarrow> nat \<Rightarrow> bool" where
  "tile_fits cfg K tM tN tK \<longleftrightarrow> 0 < tM \<and> 0 < tN \<and> 0 < tK
     \<and> tK * tN * tM \<le> msn_ms_rows (m_MSNetworkCfg cfg) * msn_ms_cols (m_MSNetworkCfg cfg)
     \<and> (asn_accumulation_buffer_enabled (m_ASNetworkCfg cfg) \<noteq> 0 \<or> K \<le> tK)"

lemma tile_product_gemm:
  assumes "tK * tN * tM < u32_max" and "0 < tN" "0 < tM" "0 < tK"
  shows "tile_product [1, tK, 1, tN, 1, 1, tM, 1] = tK * tN * tM"
proof -
  have "tK * tN \<le> tK * tN * tM" using assms by simp
  moreover have "tK \<le> tK * tN" using assms by simp
  ultimately have "tK < u32_max" "tK * tN < u32_max" using assms(1) by linarith+
  then have u: "umul 1 1 = 1" "umul 1 tK = tK" "umul tK 1 = tK" "umul tK tN = tK * tN" "umul (tK * tN) 1 = tK * tN"
    "umul (tK * tN) tM = tK * tN * tM" "umul (tK * tN * tM) 1 = tK * tN * tM"
    using assms(1) by (simp_all add: umul_small)
  show ?thesis unfolding tile_product_def foldl.simps u ..
qed

lemma n_folding_fits:
  assumes "l_R layer \<le> tR" "l_S layer \<le> tS" "l_C layer \<le> tC" "0 < tR" "0 < tS" "0 < tC"
  shows "tile_n_folding layer tR tS tC \<le> 1"
proof -
  obtain a b c where e: "f32_ceil_div (l_R layer) tR = Some a" "f32_ceil_div (l_S layer) tS = Some b"
      "f32_ceil_div (l_C layer) tC = Some c" and le: "a \<le> 1" "b \<le> 1" "c \<le> 1"
    using f32_ceil_div_le [OF assms(4,1)] f32_ceil_div_le [OF assms(5,2)] f32_ceil_div_le [OF assms(6,3)] by blast
  have ab: "a * b \<le> 1 * 1" using le(1,2) by (rule mult_le_mono)
  then have abc: "a * b * c \<le> 1 * 1" using le(3) mult_le_mono [of "a * b" 1 c 1] by simp
  have "f32_mul (Some a) (Some b) = Some (a * b)" using ab by (intro f32_mul_small) simp
  moreover have "f32_mul (Some (a * b)) (Some c) = Some (a * b * c)" using abc by (intro f32_mul_small) simp
  ultimately show ?thesis using abc by (simp add: tile_n_folding_def e u32_of_f32_def u32_max_def)
qed

text \<open>For sizes that are exact as \<open>float\<close>: more than one pass exactly when the tile is smaller than the filter.\<close>

lemma n_folding_small:
  assumes pos: "0 < l_R layer" "0 < l_S layer" "0 < l_C layer" "0 < tR" "0 < tS" "0 < tC"
    and small: "l_R layer * l_S layer * l_C layer < 2 ^ 24" "tR < 2 ^ 24" "tS < 2 ^ 24" "tC < 2 ^ 24"
  shows "1 < tile_n_folding layer tR tS tC \<longleftrightarrow> tR < l_R layer \<or> tS < l_S layer \<or> tC < l_C layer"
proof -
  have "l_R layer \<le> l_R layer * l_S layer" "l_S layer \<le> l_R layer * l_S layer" using pos by simp_all
  moreover have "l_R layer * l_S layer \<le> l_R layer * l_S layer * l_C layer" using pos by simp
  moreover have "l_C layer \<le> l_R layer * l_S layer * l_C layer" using pos by simp
  ultimately have lt: "l_R layer < 2 ^ 24" "l_S layer < 2 ^ 24" "l_C layer < 2 ^ 24" using small(1) by linarith+
  obtain a b c where e: "f32_ceil_div (l_R layer) tR = Some a" "f32_ceil_div (l_S layer) tS = Some b"
      "f32_ceil_div (l_C layer) tC = Some c"
    and 1: "1 \<le> a" "1 \<le> b" "1 \<le> c" and le: "a \<le> l_R layer" "b \<le> l_S layer" "c \<le> l_C layer"
    and iff: "1 < a \<longleftrightarrow> tR < l_R layer" "1 < b \<longleftrightarrow> tS < l_S layer" "1 < c \<longleftrightarrow> tC < l_C layer"
    using f32_ceil_div_small [OF pos(1) lt(1) pos(4) small(2)] f32_ceil_div_small [OF pos(2) lt(2) pos(5) small(3)]
      f32_ceil_div_small [OF pos(3) lt(3) pos(6) small(4)] by blast
  have ab: "a * b \<le> l_R layer * l_S layer" using le(1,2) by (rule mult_le_mono)
  then have abc: "a * b * c \<le> l_R layer * l_S layer * l_C layer" using le(3) by (rule mult_le_mono)
  have "a * b \<le> a * b * c" using 1 by simp
  then have "f32_mul (Some a) (Some b) = Some (a * b)" using abc small(1) by (intro f32_mul_small) linarith
  moreover have "f32_mul (Some (a * b)) (Some c) = Some (a * b * c)" using abc small(1) by (intro f32_mul_small) linarith
  moreover have "a * b * c < u32_max" using abc small(1) by (simp add: u32_max_def)
  ultimately have n: "tile_n_folding layer tR tS tC = a * b * c" by (simp add: tile_n_folding_def e u32_of_f32_def)
  have "1 < a * b * c \<longleftrightarrow> 1 < a \<or> 1 < b \<or> 1 < c"
  proof
    assume "1 < a * b * c"
    then show "1 < a \<or> 1 < b \<or> 1 < c" using 1 by (metis le_neq_implies_less mult_1 less_irrefl)
  next
    have "a \<le> a * b * c" "b \<le> a * b * c" "c \<le> a * b * c" using 1 by (simp_all add: mult.assoc)
    moreover assume "1 < a \<or> 1 < b \<or> 1 < c"
    ultimately show "1 < a * b * c" by linarith
  qed
  then show ?thesis unfolding n iff .
qed

lemma loadGEMMTile_ok:
  assumes cfg: "os_config (st_cfg s)" and fits: "tile_fits (st_cfg s) K tM tN tK"
    and layer: "st_layer_loaded s" "st_dnn_layer s = Some layer" "l_type layer = GEMM" "l_R layer = 1" "l_S layer = K" "l_C layer = 1"
    and mem: "0 < K" "sm_M (st_mem s) < u32_max" "sm_N (st_mem s) < u32_max" "sm_vnat_table (st_mem s) = v"
  shows "\<exists>tile sm. loadGEMMTile tN tK tM s = Inr (s\<lparr>st_current_tile := Some tile, st_tile_loaded := True, st_mem := sm\<rparr>)
    \<and> sm = (st_mem s)\<lparr>sm_T_M := tM, sm_T_N := tN, sm_T_K := 1, sm_iter_M := ceil_div (sm_M (st_mem s)) tM,
         sm_iter_K := sm_K (st_mem s), sm_iter_N := ceil_div (sm_N (st_mem s)) tN,
         sm_vnat_table := v @ replicate (umul tN tM) 0\<rparr>"
proof -
  let ?msn = "m_MSNetworkCfg (st_cfg s)"
  let ?RC = "msn_ms_rows ?msn * msn_ms_cols ?msn"
  have c: "msn_multiplier_network_type ?msn = OS_MESH" "?RC < u32_max" "asn_reduce_network_type (m_ASNetworkCfg (st_cfg s)) = TEMPORALRN"
    using cfg by (simp_all add: os_config_def os_parts_def Let_def)
  have t: "0 < tM" "0 < tN" "0 < tK" "tK * tN * tM \<le> ?RC"
    "asn_accumulation_buffer_enabled (m_ASNetworkCfg (st_cfg s)) \<noteq> 0 \<or> K \<le> tK" using fits by (simp_all add: tile_fits_def)
  have prod: "tile_product [1, tK, 1, tN, 1, 1, tM, 1] = tK * tN * tM"
    using t c(2) by (intro tile_product_gemm) simp_all
  have nofold: "(1 < tile_n_folding layer 1 tK 1 \<and> asn_accumulation_buffer_enabled (m_ASNetworkCfg (st_cfg s)) = 0
       \<and> asn_reduce_network_type (m_ASNetworkCfg (st_cfg s)) \<noteq> FENETWORK) = False"
  proof (cases "K \<le> tK")
    case True
    then have "tile_n_folding layer 1 tK 1 \<le> 1" using layer(4-6) mem(1) t(3) by (intro n_folding_fits) simp_all
    then show ?thesis by simp
  qed (use t(5) in simp)
  have u: "umul (msn_ms_rows ?msn) (msn_ms_cols ?msn) = ?RC" using c(2) by (simp add: umul_small)
  let ?tile = "Tile_conv 1 tK 1 tN 1 1 tM 1 False"
  let ?sm = "(st_mem s)\<lparr>sm_T_M := tM, sm_T_N := tN, sm_T_K := 1, sm_iter_M := ceil_div (sm_M (st_mem s)) tM,
         sm_iter_K := sm_K (st_mem s), sm_iter_N := ceil_div (sm_N (st_mem s)) tN,
         sm_vnat_table := v @ replicate (umul tN tM) 0\<rparr>"
  have set: "OSMeshSDMemory_setTile ?tile (st_mem s) = Inr ?sm"
    using rceil_div_ok [OF t(1) mem(2)] rceil_div_ok [OF t(2) mem(3)] mem(4)
    by (simp add: OSMeshSDMemory_setTile_def Tile_conv_def Let_def)
  have "loadTile 1 tK 1 tN 1 1 tM 1 s = Inr (s\<lparr>st_current_tile := Some ?tile, st_tile_loaded := True, st_mem := ?sm\<rparr>)"
    unfolding loadTile_def Let_def prod u layer(2) rderef_Some c(1) nofold
    using layer(1) t(4) set by simp
  then show ?thesis using layer(1-3) by (intro exI [of _ ?tile] exI [of _ ?sm]) (simp add: loadGEMMTile_def)
qed


text \<open>A product the machine can run.\<close>

definition gemm_ok :: "Config \<Rightarrow> nat \<Rightarrow> nat \<Rightarrow> nat \<Rightarrow> nat \<Rightarrow> nat \<Rightarrow> nat \<Rightarrow> 'd list \<Rightarrow> 'd list \<Rightarrow> 'd list \<Rightarrow> bool" where
  "gemm_ok cfg M N K tM tN tK MK KN out \<longleftrightarrow> os_config cfg \<and> tile_fits cfg K tM tN tK
     \<and> tM \<le> msn_ms_rows (m_MSNetworkCfg cfg) \<and> tN \<le> msn_ms_cols (m_MSNetworkCfg cfg)
     \<and> 0 < M \<and> 0 < N \<and> 0 < K \<and> M * N < u32_max \<and> M * K < u32_max \<and> N * K < u32_max
     \<and> length MK = M * K \<and> length KN = N * K \<and> length out = M * N"

lemma gemm_job_ok:
  assumes "gemm_ok cfg M N K tM tN tK MK KN out"
  shows "job_ok (job_of cfg M N K tM tN MK KN)"
  using assms by (simp add: gemm_ok_def os_config_def os_parts_def tile_fits_def job_ok_def job_of_def Let_def)

text \<open>A machine that is built and loaded stands before the configuration of the first tile.\<close>

lemma loaded_conf:
  fixes J :: "'d::{plus,times} job"
  assumes g: "gemm_ok cfg M N K tM tN tK MK KN out" and J: "J = job_of cfg M N K tM tN MK KN"
    and b: "built J cfg s"
  shows "\<exists>s1 s2. loadDenseGEMM N K M MK KN out df s = Inr s1 \<and> loadGEMMTile tN tK tM s1 = Inr s2 \<and> conf J 0 s2"
proof -
  have job: "job_ok J" unfolding J by (rule gemm_job_ok [OF g])
  have q: "0 < M" "0 < N" "0 < K" "M * N < u32_max" "length out = M * N" "os_config cfg" "tile_fits cfg K tM tN tK"
    using g by (simp_all add: gemm_ok_def)
  have "M \<le> M * N" "N \<le> M * N" using q(1,2) by simp_all
  then have MN: "M < u32_max" "N < u32_max" using q(4) by linarith+
  obtain layer where l: "l_type layer = GEMM" "l_R layer = 1" "l_S layer = K" "l_C layer = 1" "l_X layer = M" "l_K layer = N"
    and 1: "loadDenseGEMM N K M MK KN out df s = Inr (s\<lparr>st_dnn_layer := Some layer, st_layer_loaded := True,
             st_mem := OSMeshSDMemory_setLayer layer MK KN out df (st_mem s)\<rparr>)"
    using loadDenseGEMM_ok [OF q(1) MN(1) q(2), of K MK KN out df s] by blast
  define s1 where "s1 = s\<lparr>st_dnn_layer := Some layer, st_layer_loaded := True,
             st_mem := OSMeshSDMemory_setLayer layer MK KN out df (st_mem s)\<rparr>"
  have s1: "st_cfg s1 = cfg" "st_layer_loaded s1" "st_dnn_layer s1 = Some layer"
    "st_mem s1 = OSMeshSDMemory_setLayer layer MK KN out df (st_mem s)"
    using b by (simp_all add: s1_def built_def)
  have "sm_M (st_mem s1) = M" "sm_N (st_mem s1) = N" "sm_K (st_mem s1) = K"
    by (simp_all add: s1(4) OSMeshSDMemory_setLayer_def l)
  with loadGEMMTile_ok [of s1 K tM tN tK layer "sm_vnat_table (st_mem s1)"] s1(1-3) q(3,6,7) l MN
  obtain tile where 2: "loadGEMMTile tN tK tM s1 = Inr (s1\<lparr>st_current_tile := Some tile, st_tile_loaded := True,
     st_mem := (st_mem s1)\<lparr>sm_T_M := tM, sm_T_N := tN, sm_T_K := 1, sm_iter_M := ceil_div M tM,
         sm_iter_K := K, sm_iter_N := ceil_div N tN,
         sm_vnat_table := sm_vnat_table (st_mem s1) @ replicate (umul tN tM) 0\<rparr>\<rparr>)" by auto
  define sm where "sm = (st_mem s1)\<lparr>sm_T_M := tM, sm_T_N := tN, sm_T_K := 1, sm_iter_M := ceil_div M tM,
         sm_iter_K := K, sm_iter_N := ceil_div N tN,
         sm_vnat_table := sm_vnat_table (st_mem s1) @ replicate (umul tN tM) 0\<rparr>"
  define s2 where "s2 = s1\<lparr>st_current_tile := Some tile, st_tile_loaded := True, st_mem := sm\<rparr>"
  have fresh: "mem_fresh J (st_mem s)" using b by (simp add: built_def)
  have "jTM J * jTN J < u32_max"
  proof -
    have "jTM J * jTN J \<le> jR J * jC J" using job by (intro mult_le_mono) (simp_all add: job_ok_def)
    then show ?thesis using job unfolding job_ok_def by linarith
  qed
  then have small: "umul tN tM = tM * tN" by (simp add: J job_of_def umul_small mult.commute)
  have Jsel: "jM J = M" "jN J = N" "jK J = K" "jTM J = tM" "jTN J = tN" "jMK J = MK" "jKN J = KN"
    by (simp_all add: J job_of_def)
  have wf: "mem_wf J sm"
    using fresh q(5) small
    by (simp add: mem_wf_def mem_fresh_def sm_def s1(4) OSMeshSDMemory_setLayer_def l Jsel iterM_def iterN_def)
  have rest: "mem_rest J sm" "conf_phase J 0 sm" "progress J 0 {} sm"
    using wf fresh q(5)
    by (simp_all add: mem_rest_def mem_fresh_def sm_def s1(4) OSMeshSDMemory_setLayer_def conf_phase_def
        progress_def written_def before_0 out_ok_def Jsel)
  have sel: "st_mem s2 = sm" "st_links s2 = st_links s" "st_collectionBus s2 = st_collectionBus s"
    "st_msnet s2 = st_msnet s" "st_asnet s2 = st_asnet s" "st_lt s2 = st_lt s"
    by (simp_all add: s2_def s1_def)
  have "0 < iterM J * iterN J" using iterN_pos [OF job] ceil_div_less_iff [of tM 0 M] q(1) job
    by (simp add: iterM_def Jsel job_ok_def)
  moreover have "bus_load J s2 = {#}" using b by (simp add: built_def bus_load_def sel)
  ultimately have "conf J 0 s2"
    using b rest by (simp add: conf_def fabric_def built_def sel)
  with 1 2 show ?thesis by (simp add: s1_def s2_def sm_def)
qed

text \<open>Building, loading and running the machine.\<close>

definition run_gemm ::
  "Config \<Rightarrow> nat \<Rightarrow> nat \<Rightarrow> nat \<Rightarrow> nat \<Rightarrow> nat \<Rightarrow> nat \<Rightarrow> 'd::{plus,times} list \<Rightarrow> 'd list \<Rightarrow> 'd list \<Rightarrow> Dataflow
   \<Rightarrow> 'd Stonne res option" where
  "run_gemm cfg M N K tM tN tK MK KN out df =
     (case rbind (Stonne_new cfg) (\<lambda>s. rbind (loadDenseGEMM N K M MK KN out df s) (loadGEMMTile tN tK tM)) of
        Inl e \<Rightarrow> Some (Inl e)
      | Inr s \<Rightarrow> Stonne_run s)"

lemma loaded_running:
  fixes MK :: "'d::{plus,times} list"
  assumes g: "gemm_ok cfg M N K tM tN tK MK KN out"
  shows "\<exists>s. rbind (Stonne_new cfg) (\<lambda>s. rbind (loadDenseGEMM N K M MK KN out df s) (loadGEMMTile tN tK tM)) = Inr s
     \<and> running (job_of cfg M N K tM tN MK KN) s"
proof -
  let ?J = "job_of cfg M N K tM tN MK KN"
  have "os_config cfg" using g by (simp add: gemm_ok_def)
  from Stonne_new_ok [OF this refl] obtain s where s: "Stonne_new cfg = Inr s" "built ?J cfg s" by blast
  from loaded_conf [OF g refl s(2)] obtain s1 s2 where
    "loadDenseGEMM N K M MK KN out df s = Inr s1" "loadGEMMTile tN tK tM s1 = Inr s2" "conf ?J 0 s2" by blast
  with s(1) show ?thesis by (intro exI [of _ s2]) (auto simp: running_def)
qed

lemma run_gemm_completed:
  fixes MK :: "'d::{plus,times} list"
  assumes g: "gemm_ok cfg M N K tM tN tK MK KN out"
  shows "\<exists>s. run_gemm cfg M N K tM tN tK MK KN out df = Some (Inr s)
     \<and> completed (job_of cfg M N K tM tN MK KN) (st_mem s)"
proof -
  obtain s where s: "rbind (Stonne_new cfg) (\<lambda>s. rbind (loadDenseGEMM N K M MK KN out df s) (loadGEMMTile tN tK tM)) = Inr s"
     "running (job_of cfg M N K tM tN MK KN) s" using loaded_running [OF g] by blast
  from running_ends [OF gemm_job_ok [OF g] s(2)] show ?thesis
    unfolding ends_well_def by (simp add: run_gemm_def s(1) Stonne_run_def)
qed

end
