(* ===== verification/Loading.thy ===== *)
theory Loading
  imports Boot
begin

text \<open>
  What \<open>loadDNNLayer\<close> and \<open>loadTile\<close> of \<^verbatim>\<open>STONNEModel.cpp\<close> accept, what they refuse and how, and what
  happens to a tile that they accept and the array cannot hold.
\<close>

text \<open>
  C23: loading a layer. Every combination of sizes either aborts (a division by zero for no groups
  or a stride of zero, an assertion for groups that do not divide the channels or the filters and for a
  filter larger than the input) or stores the layer, with the channels and filters per group and
  the size of the output, and hands it to the memory controller.
\<close>

theorem layer_loading:
  assumes "X < u32_max" "Y < u32_max" "X - R + st < u32_max" "Y - S + st < u32_max"
  shows "loadDNNLayer ty R S C K G N X Y st inp fil out df s =
    (if G = 0 then Inl DivByZero
     else if \<not> (G dvd C \<and> G dvd K \<and> R \<le> X \<and> S \<le> Y) then Inl AssertFail
     else if st = 0 then Inl DivByZero
     else let layer = \<lparr>l_type = ty, l_R = R, l_S = S, l_C = C div G, l_K = K div G, l_G = G, l_N = N, l_X = X, l_Y = Y,
            l_Xo = (X - R) div st + 1, l_Yo = (Y - S) div st + 1, l_strides = st\<rparr> in
          Inr (s\<lparr>st_dnn_layer := Some layer, st_layer_loaded := True,
                 st_mem := OSMeshSDMemory_setLayer layer inp fil out df (st_mem s)\<rparr>))"
proof -
  have o: "uadd (usub a b) st div st = (a - b) div st + 1" if "b \<le> a" "a < u32_max" "a - b + st < u32_max" "0 < st" for a b
  proof -
    have "uadd (usub a b) st = (a - b) + st" using that by (simp only: usub_small uadd_small)
    then show ?thesis using that(4) div_add_self2 [of st "a - b"] by simp
  qed
  consider "G = 0" | "0 < G" "\<not> (G dvd C \<and> G dvd K \<and> R \<le> X \<and> S \<le> Y)" | "0 < G" "G dvd C" "G dvd K" "R \<le> X" "S \<le> Y" "st = 0"
    | "0 < G" "G dvd C" "G dvd K" "R \<le> X" "S \<le> Y" "0 < st" by blast
  then show ?thesis
  proof cases
    case 1
    then show ?thesis by (simp add: loadDNNLayer_def rmod_def)
  next
    case 2
    then consider "\<not> G dvd C" | "G dvd C" "\<not> G dvd K" | "G dvd C" "G dvd K" "\<not> R \<le> X" | "G dvd C" "G dvd K" "R \<le> X" "\<not> S \<le> Y" by blast
    then show ?thesis
      by cases (use 2(1) in \<open>simp_all add: loadDNNLayer_def rmod_def mod_greater_zero_iff_not_dvd\<close>)
  next
    case 3
    then show ?thesis by (simp add: loadDNNLayer_def rmod_def DNNLayer_new_def)
  next
    case 4
    then show ?thesis using assms o [of R X] o [of S Y]
      by (simp add: loadDNNLayer_def rmod_def DNNLayer_new_def Let_def)
  qed
qed

theorem layer_loading_witness:
  "\<forall>s. (loadDNNLayer CONV 3 3 4 6 4 1 8 8 1 [] [] [] CNN_DATAFLOW s :: int Stonne res) = Inl AssertFail
   \<and> (\<exists>s'. (loadDNNLayer CONV 3 3 4 8 4 1 8 8 2 [] [] [] CNN_DATAFLOW s :: int Stonne res) = Inr s'
        \<and> map_option l_Xo (st_dnn_layer s') = Some 3)"
  using layer_loading [of 8 8 3 1 3 CONV 4 6 4 1 "[] :: int list" "[]" "[]" CNN_DATAFLOW]
    layer_loading [of 8 8 3 2 3 CONV 4 8 4 1 "[] :: int list" "[]" "[]" CNN_DATAFLOW]
  by (simp add: u32_max_def Let_def)

lemma foldl_umul_mod: "foldl umul a xs mod u32_max = (a * prod_list xs) mod u32_max"
proof (induction xs arbitrary: a)
  case (Cons x xs)
  have "foldl umul (umul a x) xs mod u32_max = (umul a x * prod_list xs) mod u32_max" by (rule Cons.IH)
  also have "\<dots> = (a * x * prod_list xs) mod u32_max" by (simp add: umul_def mod_mult_left_eq)
  finally show ?case by (simp add: mult.assoc)
qed simp

lemma tile_product_mod: "xs \<noteq> [] \<Longrightarrow> tile_product xs = prod_list xs mod u32_max"
proof -
  assume "xs \<noteq> []"
  then have "foldl umul 1 xs < u32_max" by (induction xs rule: rev_induct) (simp_all add: umul_bound)
  then show ?thesis using foldl_umul_mod [of 1 xs] by (simp add: tile_product_def)
qed

lemma loadTile_cases:
  fixes tR tS tC tK tG tN tXo tYo :: nat
  assumes mesh: "msn_multiplier_network_type (m_MSNetworkCfg (st_cfg s)) = OS_MESH"
    and layer: "st_dnn_layer s = Some layer" and M: "sm_M (st_mem s) < u32_max" and N: "sm_N (st_mem s) < u32_max"
  defines "msn \<equiv> m_MSNetworkCfg (st_cfg s)" and "asn \<equiv> m_ASNetworkCfg (st_cfg s)"
  defines "vns \<equiv> tK * tG * tN * tXo * tYo"
  defines "sz \<equiv> tR * tS * tC * vns"
  defines "folds \<equiv> 1 < tile_n_folding layer tR tS tC \<and> asn_accumulation_buffer_enabled asn = 0
     \<and> asn_reduce_network_type asn \<noteq> FENETWORK"
  shows "loadTile tR tS tC tK tG tN tXo tYo s =
    (if \<not> st_layer_loaded s then Inl AssertFail
     else if umul (msn_ms_rows msn) (msn_ms_cols msn) < sz mod u32_max then Inl AssertFail
     else if folds \<and> st_ms_size s < (sz + vns) mod u32_max then Inl AssertFail
     else if tXo = 0 \<or> tK = 0 then Inl DivByZero
     else Inr (s\<lparr>st_current_tile := Some (Tile_conv tR tS tC tK tG tN tXo tYo folds), st_tile_loaded := True,
       st_mem := (st_mem s)\<lparr>sm_T_M := tXo, sm_T_N := tK, sm_T_K := 1,
         sm_iter_M := ceil_div (sm_M (st_mem s)) tXo, sm_iter_K := sm_K (st_mem s),
         sm_iter_N := ceil_div (sm_N (st_mem s)) tK,
         sm_vnat_table := sm_vnat_table (st_mem s) @ replicate (umul tK tXo) 0\<rparr>\<rparr>))"
proof -
  have p: "tile_product [tR, tS, tC, tK, tG, tN, tXo, tYo] = sz mod u32_max"
    by (subst tile_product_mod) (simp_all add: sz_def vns_def mult.assoc)
  have v: "tile_product [tK, tG, tN, tXo, tYo] = vns mod u32_max"
    by (subst tile_product_mod) (simp_all add: vns_def mult.assoc)
  have pv: "uadd (sz mod u32_max) (vns mod u32_max) = (sz + vns) mod u32_max"
    by (simp add: uadd_def mod_add_eq)
  have set: "OSMeshSDMemory_setTile (Tile_conv tR tS tC tK tG tN tXo tYo f) (st_mem s) =
     (if tXo = 0 \<or> tK = 0 then Inl DivByZero
      else Inr ((st_mem s)\<lparr>sm_T_M := tXo, sm_T_N := tK, sm_T_K := 1,
         sm_iter_M := ceil_div (sm_M (st_mem s)) tXo, sm_iter_K := sm_K (st_mem s),
         sm_iter_N := ceil_div (sm_N (st_mem s)) tK,
         sm_vnat_table := sm_vnat_table (st_mem s) @ replicate (umul tK tXo) 0\<rparr>))" for f
  proof (cases "tXo = 0 \<or> tK = 0")
    case True
    then show ?thesis using rceil_div_ok [of tXo, OF _ M]
      by (cases "tXo = 0") (simp_all add: OSMeshSDMemory_setTile_def Tile_conv_def Let_def rceil_div_def rdiv_def)
  next
    case False
    then show ?thesis using rceil_div_ok [of tXo, OF _ M] rceil_div_ok [of tK, OF _ N]
      by (simp add: OSMeshSDMemory_setTile_def Tile_conv_def Let_def)
  qed
  show ?thesis
    unfolding loadTile_def Let_def p v pv layer rderef_Some mesh msn_def [symmetric] asn_def [symmetric] folds_def [symmetric]
    using mesh by (simp add: rassert_def msn_def linorder_not_le not_less set)
qed


text \<open>A machine to try the theorems on: two by two multipliers, one bus line, an accumulation buffer, four read ports.\<close>

definition small_config :: Config where
  "small_config = Config_reset
     \<lparr>m_MSNetworkCfg := \<lparr>msn_multiplier_network_type = OS_MESH, msn_ms_size = 4, msn_ms_rows = 2, msn_ms_cols = 2\<rparr>,
      m_ASNetworkCfg := \<lparr>asn_reduce_network_type = TEMPORALRN, asn_accumulation_buffer_enabled = 1\<rparr>,
      m_SDMemoryCfg := \<lparr>sdc_mem_controller_type = TPU_OS_DENSE, sdc_write_buffer_capacity = 256,
         sdc_n_read_ports = 4, sdc_n_write_ports = 1, sdc_port_width = 16\<rparr>\<rparr>"

lemma small_os_config: "os_config small_config"
  by (simp add: os_config_def os_parts_def small_config_def Config_reset_def bus_ports_def u32_max_def uadd_def)

lemma loaded_gemm:
  assumes cfg: "os_config cfg" and pos: "0 < M" "M < u32_max" "0 < N" "N < u32_max"
    and fits: "tile_fits cfg K tM tN tK" "0 < K"
  shows "\<exists>s s1 s2 layer tile. Stonne_new cfg = Inr s \<and> loadDenseGEMM N K M MK KN out df s = Inr s1 \<and> loadGEMMTile tN tK tM s1 = Inr s2
     \<and> built (job_of cfg M N K tM tN MK KN) cfg s
     \<and> s2 = s\<lparr>st_dnn_layer := Some layer, st_layer_loaded := True, st_current_tile := Some tile, st_tile_loaded := True,
          st_mem := (OSMeshSDMemory_setLayer layer MK KN out df (st_mem s))
            \<lparr>sm_T_M := tM, sm_T_N := tN, sm_T_K := 1, sm_iter_M := ceil_div M tM, sm_iter_K := K, sm_iter_N := ceil_div N tN,
              sm_vnat_table := sm_vnat_table (st_mem s) @ replicate (umul tN tM) 0\<rparr>\<rparr>
     \<and> l_X layer = M \<and> l_K layer = N \<and> l_S layer = K"
proof -
  obtain s where s: "Stonne_new cfg = Inr s" "built (job_of cfg M N K tM tN MK KN) cfg s"
    using Stonne_new_ok [OF cfg refl] by blast
  obtain layer where l: "l_type layer = GEMM" "l_R layer = 1" "l_S layer = K" "l_C layer = 1" "l_X layer = M" "l_K layer = N"
    and 1: "loadDenseGEMM N K M MK KN out df s = Inr (s\<lparr>st_dnn_layer := Some layer, st_layer_loaded := True,
             st_mem := OSMeshSDMemory_setLayer layer MK KN out df (st_mem s)\<rparr>)"
    using loadDenseGEMM_ok [OF pos(1-3), of K MK KN out df s] by blast
  let ?s1 = "s\<lparr>st_dnn_layer := Some layer, st_layer_loaded := True, st_mem := OSMeshSDMemory_setLayer layer MK KN out df (st_mem s)\<rparr>"
  have "st_cfg ?s1 = cfg" using s(2) by (simp add: built_def)
  then obtain tile where "loadGEMMTile tN tK tM ?s1 = Inr (?s1\<lparr>st_current_tile := Some tile, st_tile_loaded := True,
      st_mem := (st_mem ?s1)\<lparr>sm_T_M := tM, sm_T_N := tN, sm_T_K := 1, sm_iter_M := ceil_div M tM, sm_iter_K := K,
         sm_iter_N := ceil_div N tN, sm_vnat_table := sm_vnat_table (st_mem s) @ replicate (umul tN tM) 0\<rparr>\<rparr>)"
    using loadGEMMTile_ok [of ?s1 K tM tN tK layer "sm_vnat_table (st_mem s)"] cfg fits pos l
    by (auto simp: OSMeshSDMemory_setLayer_def)
  with s 1 l show ?thesis by (intro exI conjI) (assumption | simp)+
qed

text \<open>
  C19: a tile that the loader accepts because the product of its sizes fits the array, but with more
  rows than the array has rows or more columns than it has columns, is refused by the first cycle
  of the simulation: the assertions of the mesh compiler abort the program.
\<close>

theorem wide_tile_aborts:
  fixes MK KN out :: "'d::{plus,times} list"
  assumes cfg: "os_config cfg" and pos: "0 < M" "M < u32_max" "0 < N" "N < u32_max" "0 < K"
    and fits: "tile_fits cfg K tM tN tK"
    and wide: "msn_ms_rows (m_MSNetworkCfg cfg) < min tM M \<or> msn_ms_cols (m_MSNetworkCfg cfg) < min tN N"
  shows "\<exists>s s1 s2. Stonne_new cfg = Inr s \<and> loadDenseGEMM N K M MK KN out df s = Inr s1
     \<and> loadGEMMTile tN tK tM s1 = Inr s2 \<and> Stonne_step s2 = Inl AssertFail
     \<and> run_gemm cfg M N K tM tN tK MK KN out df = Some (Inl AssertFail)"
proof -
  let ?J = "job_of cfg M N K tM tN MK KN"
  obtain s s1 s2 layer tile where 1: "Stonne_new cfg = Inr s" "loadDenseGEMM N K M MK KN out df s = Inr s1" "loadGEMMTile tN tK tM s1 = Inr s2"
     "built ?J cfg s" and s2: "s2 = s\<lparr>st_dnn_layer := Some layer, st_layer_loaded := True, st_current_tile := Some tile, st_tile_loaded := True,
          st_mem := (OSMeshSDMemory_setLayer layer MK KN out df (st_mem s))
            \<lparr>sm_T_M := tM, sm_T_N := tN, sm_T_K := 1, sm_iter_M := ceil_div M tM, sm_iter_K := K, sm_iter_N := ceil_div N tN,
              sm_vnat_table := sm_vnat_table (st_mem s) @ replicate (umul tN tM) 0\<rparr>\<rparr>"
     and l: "l_X layer = M" "l_K layer = N"
    using loaded_gemm [OF cfg pos(1-4) fits pos(5), where MK = MK and KN = KN and out = out and df = df]
    by (elim exE conjE) (rule that)
  have f: "mem_fresh ?J (st_mem s)" "mesh_ready (tile_pass ?J 0) (st_msnet s)" using 1(4) by (simp_all add: built_def)
  obtain mn where mn: "OSMeshMN_resetSignals (st_msnet s) = Inr mn" using OSMeshMN_resetSignals_ok [OF f(2)] by blast
  have small: "msn_ms_rows (m_MSNetworkCfg cfg) * msn_ms_cols (m_MSNetworkCfg cfg) < u32_max"
    using cfg by (simp add: os_config_def os_parts_def Let_def)
  have sz: "sm_ms_rows (st_mem s) = msn_ms_rows (m_MSNetworkCfg cfg)" "sm_ms_cols (st_mem s) = msn_ms_cols (m_MSNetworkCfg cfg)"
    "sm_current_state (st_mem s) = OS_CONFIGURING" "sm_current_M (st_mem s) = 0" "sm_current_N (st_mem s) = 0"
    using f(1) by (simp_all add: mem_fresh_def job_of_def)
  have u: "usub M (umul 0 tM) = M" "usub N (umul 0 tN) = N" using pos by (simp_all add: umul_def usub_small)
  have m: "(if M < tM then M else tM) = min tM M" "(if N < tN then N else tN) = min tN N" by (simp_all add: min_def)
  have r: "umul (min tM M) 1 = min tM M" using pos(2) by (simp add: umul_def min_def)
  have mesh: "OSMeshMN_configureSignals (Tile_conv 1 1 1 (min tN N) 1 1 (min tM M) 1 False) layer
      (msn_ms_rows (m_MSNetworkCfg cfg)) (msn_ms_cols (m_MSNetworkCfg cfg)) mn = Inl AssertFail"
    using wide r by (auto simp: OSMeshMN_configureSignals_def CompilerMultiplierMesh_configureSignals_def Tile_conv_def rassert_def)
  have abort: "Stonne_step s2 = Inl AssertFail"
    unfolding Stonne_step_def OSMeshSDMemory_cycle_def s2
    by (simp add: OSMeshSDMemory_setLayer_def OSMeshSDMemory_configure_def Let_def sz l u m mn mesh [unfolded One_nat_def]
        cong: if_cong split del: if_split)
  then have "Stonne_run s2 = Some (Inl AssertFail)" unfolding Stonne_run_def by (rule machine.run_abort)
  then have "run_gemm cfg M N K tM tN tK MK KN out df = Some (Inl AssertFail)" by (simp add: run_gemm_def 1(1-3))
  with 1(1-3) abort show ?thesis by blast
qed

theorem wide_tile_aborts_witness:
  "\<exists>s s1 s2. Stonne_new small_config = Inr s \<and> loadDenseGEMM 1 1 4 [1, 2, 3, 4] [1] [0, 0, 0, 0 :: int] CNN_DATAFLOW s = Inr s1
     \<and> loadGEMMTile 1 1 4 s1 = Inr s2 \<and> Stonne_step s2 = Inl AssertFail
     \<and> run_gemm small_config 4 1 1 4 1 1 [1, 2, 3, 4] [1] [0, 0, 0, 0 :: int] CNN_DATAFLOW = Some (Inl AssertFail)"
  by (rule wide_tile_aborts [OF small_os_config]) (simp_all add: small_config_def tile_fits_def u32_max_def)


lemma demo_loaded:
  "\<exists>s s1 :: int Stonne. Stonne_new small_config = Inr s
     \<and> loadDenseGEMM 3 2 3 [1, 2, 3, 4, 5, 6] [1, 0, 0, 1, 1, 1] (replicate 9 0) CNN_DATAFLOW s = Inr s1
     \<and> st_cfg s1 = small_config \<and> st_layer_loaded s1 \<and> sm_M (st_mem s1) = 3 \<and> sm_N (st_mem s1) = 3
     \<and> (\<exists>layer. st_dnn_layer s1 = Some layer \<and> l_R layer = 1 \<and> l_S layer = 2 \<and> l_C layer = 1)"
proof -
  obtain s where s: "Stonne_new small_config = Inr (s :: int Stonne)"
    "built (job_of small_config 3 3 2 1 1 [1, 2, 3, 4, 5, 6] [1, 0, 0, 1, 1, 1]) small_config s"
    using Stonne_new_ok [OF small_os_config refl] by blast
  obtain layer where l: "l_type layer = GEMM" "l_R layer = 1" "l_S layer = 2" "l_C layer = 1" "l_X layer = 3" "l_K layer = 3"
    and 1: "loadDenseGEMM 3 2 3 [1, 2, 3, 4, 5, 6] [1, 0, 0, 1, 1, 1] (replicate 9 0) CNN_DATAFLOW s
       = Inr (s\<lparr>st_dnn_layer := Some layer, st_layer_loaded := True,
             st_mem := OSMeshSDMemory_setLayer layer [1, 2, 3, 4, 5, 6] [1, 0, 0, 1, 1, 1] (replicate 9 0) CNN_DATAFLOW (st_mem s)\<rparr>)"
    using loadDenseGEMM_ok [where M = 3 and N = 3 and K = 2 and MK = "[1, 2, 3, 4, 5, 6]" and KN = "[1, 0, 0, 1, 1, 1]"
        and out = "replicate 9 (0::int)" and df = CNN_DATAFLOW and s = s]
    by (auto simp: u32_max_def)
  have "st_cfg s = small_config" using s(2) by (simp add: built_def)
  then show ?thesis using s(1) 1 l by (simp add: OSMeshSDMemory_setLayer_def)
qed


text \<open>
  C25: the product of the check is an \<open>unsigned int\<close> that wraps around. On every mesh with an
  accumulation buffer, a tile of more multipliers than the array has is accepted when the
  remainder of its size modulo \<open>2 ^ 32\<close> is small enough.
\<close>

theorem tile_check_wraps:
  assumes mesh: "msn_multiplier_network_type (m_MSNetworkCfg (st_cfg s)) = OS_MESH"
    and layer: "st_dnn_layer s = Some layer" "sm_M (st_mem s) < u32_max" "sm_N (st_mem s) < u32_max" "st_layer_loaded s"
    and buf: "asn_accumulation_buffer_enabled (m_ASNetworkCfg (st_cfg s)) \<noteq> 0" and pos: "0 < tK" "0 < tXo"
    and array: "msn_ms_rows (m_MSNetworkCfg (st_cfg s)) * msn_ms_cols (m_MSNetworkCfg (st_cfg s)) = n" "n < u32_max"
    and wraps: "n < tR * tS * tC * (tK * tG * tN * tXo * tYo)" "(tR * tS * tC * (tK * tG * tN * tXo * tYo)) mod u32_max \<le> n"
  shows "\<exists>s'. loadTile tR tS tC tK tG tN tXo tYo s = Inr s' \<and> st_tile_loaded s'
    \<and> st_current_tile s' = Some (Tile_conv tR tS tC tK tG tN tXo tYo False)"
  unfolding loadTile_cases [OF mesh layer(1-3)]
  using layer(4) buf pos array wraps by (simp add: umul_small)

theorem tile_check_wraps_witness:
  "\<exists>s s1 s' :: int Stonne. Stonne_new small_config = Inr s
     \<and> loadDenseGEMM 3 2 3 [1, 2, 3, 4, 5, 6] [1, 0, 0, 1, 1, 1] (replicate 9 0) CNN_DATAFLOW s = Inr s1
     \<and> loadTile 1 65536 1 65536 1 1 1 1 s1 = Inr s'"
proof -
  obtain s s1 layer where 1: "Stonne_new small_config = Inr (s :: int Stonne)"
     "loadDenseGEMM 3 2 3 [1, 2, 3, 4, 5, 6] [1, 0, 0, 1, 1, 1] (replicate 9 0) CNN_DATAFLOW s = Inr s1"
     "st_cfg s1 = small_config" "st_layer_loaded s1" "sm_M (st_mem s1) = 3" "sm_N (st_mem s1) = 3"
     "st_dnn_layer s1 = Some layer"
    using demo_loaded by blast
  have "\<exists>s'. loadTile 1 65536 1 65536 1 1 1 1 s1 = Inr s' \<and> st_tile_loaded s'
    \<and> st_current_tile s' = Some (Tile_conv 1 65536 1 65536 1 1 1 1 False)"
    by (rule tile_check_wraps [where n = 4 and layer = layer]) (simp_all add: 1 small_config_def u32_max_def)
  with 1(1,2) show ?thesis by blast
qed

text \<open>
  C20: the collection bus is sized by \<open>ms_size\<close>, the array by its rows and columns. When the lines of
  the bus have fewer inputs than the array has accumulators, the constructor of the machine reads
  past the end of the connections of a line.
\<close>

theorem small_bus_aborts:
  assumes "os_parts cfg"
    and "sdc_n_write_ports (m_SDMemoryCfg cfg) * bus_ports cfg < msn_ms_rows (m_MSNetworkCfg cfg) * msn_ms_cols (m_MSNetworkCfg cfg)"
  shows "(Stonne_new cfg :: 'd::{plus,times} Stonne res) = Inl OutOfBounds"
proof -
  let ?J = "job_of cfg 0 0 0 0 0 ([] :: 'd list) []"
  have c: "jB ?J * jP ?J < jR ?J * jC ?J" "0 < jB ?J" using assms by (simp_all add: job_of_def os_parts_def Let_def)
  obtain dn mn rn sm bus st where p: "parts_ok ?J mn rn sm bus st"
    "Stonne_new cfg = rbind (TemporalRN_setMemoryConnections (map (\<lambda>b. map (BusIn b) [0..<jP ?J]) [0..<jB ?J]) rn)
         (\<lambda>rn. Inr (machine_of cfg dn mn rn sm bus st))"
    using Stonne_new_parts [OF assms(1) refl] by blast
  have "tr_accumulation_buffer_size rn = jR ?J * jC ?J" using p(1) by (simp add: parts_ok_def)
  from TemporalRN_setMemoryConnections_overflow [OF this _ c(2) _ c(1), of "map (\<lambda>b. map (BusIn b) [0..<jP ?J]) [0..<jB ?J]"]
  have "TemporalRN_setMemoryConnections (map (\<lambda>b. map (BusIn b) [0..<jP ?J]) [0..<jB ?J]) rn = Inl OutOfBounds" by simp
  with p(2) show ?thesis by simp
qed

theorem small_bus_aborts_witness:
  "(Stonne_new (small_config\<lparr>m_MSNetworkCfg := \<lparr>msn_multiplier_network_type = OS_MESH, msn_ms_size = 4, msn_ms_rows = 3, msn_ms_cols = 3\<rparr>,
      m_SDMemoryCfg := \<lparr>sdc_mem_controller_type = TPU_OS_DENSE, sdc_write_buffer_capacity = 256,
         sdc_n_read_ports = 6, sdc_n_write_ports = 1, sdc_port_width = 16\<rparr>\<rparr>) :: int Stonne res) = Inl OutOfBounds"
  by (rule small_bus_aborts)
     (simp_all add: os_parts_def small_config_def bus_ports_def u32_max_def uadd_def Config_reset_def)

end
