(* ===== verification/MeshRun.thy ===== *)
theory MeshRun
  imports MeshSetup
begin

text \<open>
  What the multiplier mesh promises to the components around it (\<^verbatim>\<open>MultiplierOS.cpp\<close>,
  \<^verbatim>\<open>OSMeshMN.cpp\<close>): the cycle of one multiplier, and the systolic schedule of a mesh that is built,
  connected, configured for a tile and then clocked.
\<close>

section \<open>Properties\<close>

text \<open>
  C16: a cycle of a multiplier. With both operands there it multiplies the oldest of each, sends the
  product to its accumulator and forwards each operand where it is told to; while one is missing it
  keeps what has arrived, in order, and sends nothing.
\<close>

theorem multiplier_cycle:
  assumes conns: "mo_left_connection ms = Some l" "mo_top_connection ms = Some t"
      "mo_accbuffer_connection ms = Some a" "mo_bottom_connection ms = Some b" "mo_right_connection ms = Some r"
      "distinct [l, t, a, b, r]"
    and L: "link st l L" "length L \<le> 1" "\<forall>p \<in> set L. p_data_type p = IACTIVATION"
    and T: "link st t T" "length T \<le> 1" "\<forall>p \<in> set T. p_data_type p = WEIGHT"
    and idle: "MultiplierOS_idle ms"
  shows "\<exists>ms' st'. MultiplierOS_cycle ms st = Inr (ms', st') \<and> MultiplierOS_idle ms' \<and> link st' l [] \<and> link st' t []
     \<and> (case (f_fifo (mo_left_fifo ms) @ L, f_fifo (mo_top_fifo ms) @ T) of
          (x # xs, w # ws) \<Rightarrow> f_fifo (mo_left_fifo ms') = xs \<and> f_fifo (mo_top_fifo ms') = ws
            \<and> link st' a [MultiplierOS_product x w (mo_num ms) (mo_VN ms)]
            \<and> (if mo_forward_bottom ms then link st' b [w] else st' b = st b)
            \<and> (if mo_forward_right ms then link st' r [x] else st' r = st r)
        | (xs, ws) \<Rightarrow> f_fifo (mo_left_fifo ms') = xs \<and> f_fifo (mo_top_fifo ms') = ws
            \<and> (\<forall>c. c \<notin> {l, t} \<longrightarrow> st' c = st c))"
proof (cases "f_fifo (mo_left_fifo ms) @ L = [] \<or> f_fifo (mo_top_fifo ms) @ T = []")
  case True
  have "l \<noteq> t" using conns(6) by simp
  from MultiplierOS_cycle_wait [OF conns(1,2) this L(1,2) _ T(1,2) _ idle True] L(3) T(3)
  obtain ms' st' where 1: "MultiplierOS_cycle ms st = Inr (ms', st')" "MultiplierOS_idle ms'"
     "f_fifo (mo_left_fifo ms') = f_fifo (mo_left_fifo ms) @ L" "f_fifo (mo_top_fifo ms') = f_fifo (mo_top_fifo ms) @ T"
     "link st' l []" "link st' t []" "\<forall>c. c \<notin> {l, t} \<longrightarrow> st' c = st c" by blast
  define X where "X = f_fifo (mo_left_fifo ms) @ L"
  define W where "W = f_fifo (mo_top_fifo ms) @ T"
  have "X = [] \<or> W = []" using True by (simp add: X_def W_def)
  with 1 show ?thesis
    unfolding X_def [symmetric] W_def [symmetric]
    by (intro exI [of _ ms'] exI [of _ st']) (cases X; cases W; simp)
next
  case False
  then obtain x xs w ws where ops: "f_fifo (mo_left_fifo ms) @ L = x # xs" "f_fifo (mo_top_fifo ms) @ T = w # ws"
    by (meson list.exhaust)
  from MultiplierOS_cycle_fire [OF conns(1-3) _ _ conns(6) L(1,2) _ T(1,2) _ idle ops] conns(4,5) L(3) T(3)
  show ?thesis unfolding ops by fastforce
qed

theorem multiplier_cycle_witness:
  "\<exists>ms' st'. MultiplierOS_cycle ((MultiplierOS_new 0 0 Config_reset)\<lparr>mo_left_connection := Some (MeshHoriz 0 0),
        mo_top_connection := Some (MeshVert 0 0), mo_accbuffer_connection := Some (AccLink 0), mo_VN := 0,
        mo_bottom_connection := Some (MeshVert 1 0), mo_right_connection := Some (MeshHoriz 0 1), mo_forward_bottom := True\<rparr>)
      ((\<lambda>_. Connection_new 16)(MeshHoriz 0 0 := Connection_send [DataPackage_traffic 4 (3::int) IACTIVATION 0 UNICAST] (Connection_new 16),
         MeshVert 0 0 := Connection_send [DataPackage_traffic 4 5 WEIGHT 0 UNICAST] (Connection_new 16))) = Inr (ms', st')
     \<and> map p_data (flight st' (AccLink 0)) = [15] \<and> link st' (MeshVert 1 0) [DataPackage_traffic 4 5 WEIGHT 0 UNICAST]"
proof -
  let ?ms = "(MultiplierOS_new 0 0 Config_reset)\<lparr>mo_left_connection := Some (MeshHoriz 0 0),
        mo_top_connection := Some (MeshVert 0 0), mo_accbuffer_connection := Some (AccLink 0), mo_VN := 0,
        mo_bottom_connection := Some (MeshVert 1 0), mo_right_connection := Some (MeshHoriz 0 1), mo_forward_bottom := True\<rparr> :: int MultiplierOS"
  let ?x = "DataPackage_traffic 4 (3::int) IACTIVATION 0 UNICAST" and ?w = "DataPackage_traffic 4 (5::int) WEIGHT 0 UNICAST"
  let ?st = "(\<lambda>_. Connection_new 16)(MeshHoriz 0 0 := Connection_send [?x] (Connection_new 16),
         MeshVert 0 0 := Connection_send [?w] (Connection_new 16))"
  have i: "MultiplierOS_idle ?ms" "f_fifo (mo_left_fifo ?ms) = []" "f_fifo (mo_top_fifo ?ms) = []" "mo_forward_bottom ?ms"
    by (simp_all add: MultiplierOS_idle_def MultiplierOS_new_def Fifo_new_def Let_def)
  have l: "link ?st (MeshHoriz 0 0) [?x]" "link ?st (MeshVert 0 0) [?w]" by simp_all
  have ty: "\<forall>p \<in> set [?x]. p_data_type p = IACTIVATION" "\<forall>p \<in> set [?w]. p_data_type p = WEIGHT"
    by (simp_all add: DataPackage_traffic_def DataPackage_general_def)
  obtain ms' st' where 1: "MultiplierOS_cycle ?ms ?st = Inr (ms', st')"
    "link st' (AccLink 0) [MultiplierOS_product ?x ?w (mo_num ?ms) (mo_VN ?ms)]" "link st' (MeshVert 1 0) [?w]"
    using multiplier_cycle [where ms = ?ms and st = ?st and a = "AccLink 0" and b = "MeshVert 1 0" and r = "MeshHoriz 0 1",
        OF _ _ _ _ _ _ l(1) _ ty(1) l(2) _ ty(2) i(1)] i
    by auto
  have "map p_data (flight st' (AccLink 0)) = [15]"
    unfolding link_flight [OF 1(2)]
    by (simp add: MultiplierOS_product_def DataPackage_traffic_def DataPackage_general_def DataPackage_psum_def)
  then show ?thesis by (intro exI [of _ ms'] exI [of _ st'] conjI 1(1,3))
qed

text \<open>
  The mesh with its surroundings: before every cycle the operands of that cycle are put on the
  links of the distribution network, skewed by nothing, and the products of the cycle before are
  taken from the links of the accumulators.
\<close>

definition mesh_drive :: "'d pass \<Rightarrow> nat \<Rightarrow> 'd store \<Rightarrow> 'd store" where
  "mesh_drive p t st = (\<lambda>c. case c of
       DSTop x \<Rightarrow> (let m = if x < ps_C p then top_msg p t 0 x else left_msg p t (x - ps_C p) 0 in
                  if m = [] then st c else Connection_send m (st c))
     | AccLink _ \<Rightarrow> snd (Connection_receive (st c))
     | _ \<Rightarrow> st c)"

definition mesh_run :: "'d::times pass \<Rightarrow> nat \<Rightarrow> 'd OSMeshMN \<times> 'd store \<Rightarrow> ('d OSMeshMN \<times> 'd store) res" where
  "mesh_run p n = rfold (\<lambda>t (mn, st). OSMeshMN_cycle (mn, mesh_drive p t st)) [0..<n]"

lemma mesh_run_Suc:
  "mesh_run p (Suc n) s = rbind (mesh_run p n s) (\<lambda>(mn, st). OSMeshMN_cycle (mn, mesh_drive p n st))"
proof -
  have one: "rfold f [x] = f x" for f :: "'x \<Rightarrow> 'y \<Rightarrow> 'y res" and x
  proof
    show "rfold f [x] s = f x s" for s by (cases "f x s") simp_all
  qed
  show ?thesis unfolding mesh_run_def by (simp add: rfold_append one del: rfold.simps)
qed

lemma link_drive_acc: "link (mesh_drive p t st) (AccLink n) []"
  by (simp add: mesh_drive_def link_def)

lemma link_drive_top: "link st (DSTop x) [] \<Longrightarrow> link (mesh_drive p t st) (DSTop x)
    (if x < ps_C p then top_msg p t 0 x else left_msg p t (x - ps_C p) 0)"
  by (simp add: mesh_drive_def link_def Let_def)

text \<open>The links between a cycle and the next.\<close>

lemma mesh_links_done:
  assumes l: "mesh_links p t ({..<ps_R p} \<times> {..<ps_C p}) st" and i: "i < ps_R p" and j: "j < ps_C p"
  shows "link st (top_id 0 j) []" "link st (left_id p i 0) []" "link st (acc_id p i j) (acc_msg p (Suc t) i j)"
proof -
  have 0: "0 < ps_R p" "0 < ps_C p" using i j by simp_all
  show "link st (top_id 0 j) []" using l [unfolded mesh_links_def, rule_format, OF 0(1) j] 0(1) j by simp
  show "link st (left_id p i 0) []" using l [unfolded mesh_links_def, rule_format, OF i 0(2)] 0(2) i by simp
  show "link st (acc_id p i j) (acc_msg p (Suc t) i j)" using l [unfolded mesh_links_def, rule_format, OF i j] i j by simp
qed

lemma mesh_run_ok:
  fixes p :: "'d::times pass"
  assumes p: "pass_ok p" and t: "mesh_table p 0 {} mn"
    and e: "\<forall>i < ps_R p. \<forall>j < ps_C p. link st (top_id i j) [] \<and> link st (left_id p i j) []"
  shows "\<exists>mn' st'. mesh_run p (Suc n) (mn, st) = Inr (mn', st') \<and> mesh_table p (Suc n) {} mn'
    \<and> mesh_links p n ({..<ps_R p} \<times> {..<ps_C p}) st'"
proof (induction n)
  case 0
  have "mesh_links p 0 {} (mesh_drive p 0 st)"
    unfolding mesh_links_def
  proof (intro allI impI conjI)
    fix i j assume ij: "i < ps_R p" "j < ps_C p"
    have l: "link st (top_id i j) []" "link st (left_id p i j) []" using e ij by simp_all
    then have inner: "0 < i \<Longrightarrow> link (mesh_drive p 0 st) (top_id i j) []" "0 < j \<Longrightarrow> link (mesh_drive p 0 st) (left_id p i j) []"
      by (simp_all add: mesh_drive_def link_def top_id_def left_id_def)
    have "top_msg p 0 (Suc i0) j = []" "left_msg p 0 i (Suc j0) = []" for i0 j0
      by (simp_all add: top_msg_def left_msg_def arriving_def top_delay_def left_delay_def)
    moreover have "i = 0 \<Longrightarrow> link (mesh_drive p 0 st) (top_id 0 j) (top_msg p 0 0 j)"
      "j = 0 \<Longrightarrow> link (mesh_drive p 0 st) (left_id p i 0) (left_msg p 0 i 0)"
      using link_drive_top [of st j p 0] link_drive_top [of st "ps_C p + i" p 0] ij l
      by (simp_all add: top_id_def left_id_def)
    ultimately have "link (mesh_drive p 0 st) (top_id i j) (top_msg p 0 i j) \<and> link (mesh_drive p 0 st) (left_id p i j) (left_msg p 0 i j)"
      using inner by (cases i; cases j) simp_all
    then show "link (mesh_drive p 0 st) (top_id i j) (if (i, j) \<notin> {} then top_msg p 0 i j
        else if 0 < i \<and> (i - 1, j) \<in> {} then top_msg p (Suc 0) i j else [])"
      "link (mesh_drive p 0 st) (left_id p i j) (if (i, j) \<notin> {} then left_msg p 0 i j
        else if 0 < j \<and> (i, j - 1) \<in> {} then left_msg p (Suc 0) i j else [])"
      "link (mesh_drive p 0 st) (acc_id p i j) (if (i, j) \<in> {} then acc_msg p (Suc 0) i j else [])"
      using link_drive_acc [of p 0 st] by (simp_all add: acc_id_def)
  qed
  from OSMeshMN_cycle_pass [OF p t this] show ?case by (auto simp: mesh_run_def)
next
  case (Suc n)
  then obtain mn1 st1 where 1: "mesh_run p (Suc n) (mn, st) = Inr (mn1, st1)" "mesh_table p (Suc n) {} mn1"
    "mesh_links p n ({..<ps_R p} \<times> {..<ps_C p}) st1" by blast
  have "mesh_links p (Suc n) {} (mesh_drive p (Suc n) st1)"
  proof (rule mesh_links_next [OF 1(3)])
    have 0: "0 < ps_R p" "0 < ps_C p" using p by (simp_all add: pass_ok_def)
    fix i j
    show "j < ps_C p \<Longrightarrow> link (mesh_drive p (Suc n) st1) (top_id 0 j) (top_msg p (Suc n) 0 j)"
      using mesh_links_done(1) [OF 1(3) 0(1)] link_drive_top [of st1 j p "Suc n"] by (simp add: top_id_def)
    show "i < ps_R p \<Longrightarrow> link (mesh_drive p (Suc n) st1) (left_id p i 0) (left_msg p (Suc n) i 0)"
      using mesh_links_done(2) [OF 1(3) _ 0(2)] link_drive_top [of st1 "ps_C p + i" p "Suc n"] by (simp add: left_id_def)
  qed (simp_all add: mesh_drive_def acc_id_def link_def)
  from OSMeshMN_cycle_pass [OF p 1(2) this] 1(1) show ?case by (auto simp: mesh_run_Suc [of p "Suc n"])
qed


lemma rbind_InrI: "m = Inr x \<Longrightarrow> f x = Inr y \<Longrightarrow> rbind m f = Inr y"
  by simp

text \<open>
  C10: the systolic schedule, from the constructor of the mesh. With row \<open>i\<close> of the activations and
  column \<open>j\<close> of the weights entering one element per cycle, multiplier \<open>(i, j)\<close> of the tile sends its
  product number \<open>k\<close> to its accumulator in cycle \<open>i + j + k\<close> and nothing in any other cycle, for as
  long as the mesh is clocked; the multipliers outside the tile send nothing.
\<close>

theorem systolic_schedule:
  fixes p :: "'d::times pass"
  assumes p: "pass_ok p" and cfg: "msn_ms_rows (m_MSNetworkCfg cfg) = ps_R p" "msn_ms_cols (m_MSNetworkCfg cfg) = ps_C p"
    and small: "ps_R p * ps_C p < u32_max" "ps_R p + ps_C p < u32_max"
    and tile: "T_K tile = ps_cu p" "T_Xo tile = ps_ru p" "T_Yo tile = 1" and st: "\<forall>c. link st c []"
  shows "\<exists>mn st'. rbind (OSMeshMN_new cfg st) (\<lambda>(mn, st).
        rbind (OSMeshMN_setInputConnections (\<lambda>x. Some (DSTop x)) (ps_C p + ps_R p) mn) (\<lambda>mn.
        rbind (OSMeshMN_setOutputConnections (\<lambda>x. Some (AccLink x)) (ps_R p * ps_C p) mn) (\<lambda>mn.
        rbind (OSMeshMN_configureSignals tile layer (ps_R p) (ps_C p) mn) (\<lambda>mn. mesh_run p (Suc t) (mn, st))))) = Inr (mn, st')
     \<and> (\<forall>i < ps_R p. \<forall>j < ps_C p. flight st' (AccLink (i * ps_C p + j)) =
          (if i < ps_ru p \<and> j < ps_cu p \<and> i + j \<le> t \<and> t < ps_K p + (i + j) then [product_of p i j (t - (i + j))] else []))"
proof -
  have pos: "0 < ps_R p" "0 < ps_C p" and tp: "0 < ps_ru p" "ps_ru p \<le> ps_R p" "0 < ps_cu p" "ps_cu p \<le> ps_C p"
    using p by (simp_all add: pass_ok_def)
  obtain mn st1 where 1: "OSMeshMN_new cfg st = Inr (mn, st1)" "mesh_wiring (ps_R p) (ps_C p) (ps_R p * ps_C p) mn"
     "\<forall>i < ps_R p. \<forall>j < ps_C p. (0 < i \<longrightarrow> link st1 (MeshVert i j) []) \<and> (0 < j \<longrightarrow> link st1 (MeshHoriz i j) [])"
     "\<forall>c. (\<forall>i j. c \<noteq> MeshVert i j \<and> c \<noteq> MeshHoriz i j) \<longrightarrow> st1 c = st c"
    using OSMeshMN_new_ok [OF cfg small(1), of st] by blast
  obtain mn1 mn2 where 2: "OSMeshMN_setInputConnections (\<lambda>x. Some (DSTop x)) (ps_C p + ps_R p) mn = Inr mn1"
    "OSMeshMN_setOutputConnections (\<lambda>x. Some (AccLink x)) (ps_R p * ps_C p) mn1 = Inr mn2" "mesh_ready p mn2" "mesh_empty p mn2"
    using OSMeshMN_connect_ok [OF 1(2) refl refl pos small, of "\<lambda>x. Some (DSTop x)" "\<lambda>x. Some (AccLink x)"] by blast
  obtain mn3 where 3: "OSMeshMN_configureSignals tile layer (ps_R p) (ps_C p) mn2 = Inr mn3" "mesh_table p 0 {} mn3"
    using configureSignals_ok [OF 2(3) tp tile small(1)] 2(4) unfolding mesh_empty_def by blast
  have e: "\<forall>i < ps_R p. \<forall>j < ps_C p. link st1 (top_id i j) [] \<and> link st1 (left_id p i j) []"
  proof (intro allI impI conjI)
    fix i j assume ij: "i < ps_R p" "j < ps_C p"
    have o: "link st1 (DSTop x) []" for x using 1(4) st unfolding link_def by simp
    show "link st1 (top_id i j) []" "link st1 (left_id p i j) []" using 1(3) ij o by (simp_all add: top_id_def left_id_def)
  qed
  obtain mn4 st4 where 4: "mesh_run p (Suc t) (mn3, st1) = Inr (mn4, st4)"
    "mesh_links p t ({..<ps_R p} \<times> {..<ps_C p}) st4"
    using mesh_run_ok [OF p 3(2) e] by blast
  show ?thesis
  proof (intro exI conjI allI impI)
    show "rbind (OSMeshMN_new cfg st) (\<lambda>(mn, st).
        rbind (OSMeshMN_setInputConnections (\<lambda>x. Some (DSTop x)) (ps_C p + ps_R p) mn) (\<lambda>mn.
        rbind (OSMeshMN_setOutputConnections (\<lambda>x. Some (AccLink x)) (ps_R p * ps_C p) mn) (\<lambda>mn.
        rbind (OSMeshMN_configureSignals tile layer (ps_R p) (ps_C p) mn) (\<lambda>mn. mesh_run p (Suc t) (mn, st))))) = Inr (mn4, st4)"
      by (simp add: 1(1) 2(1,2) 3(1) 4(1))
    fix i j assume ij: "i < ps_R p" "j < ps_C p"
    show "flight st4 (AccLink (i * ps_C p + j)) =
          (if i < ps_ru p \<and> j < ps_cu p \<and> i + j \<le> t \<and> t < ps_K p + (i + j) then [product_of p i j (t - (i + j))] else [])"
      using mesh_links_done(3) [OF 4(2) ij] by (auto simp: link_def acc_id_def acc_msg_def used_def arriving_def)
  qed
qed

theorem systolic_schedule_witness:
  "\<forall>layer. \<exists>mn st'. rbind (OSMeshMN_new (Config_reset\<lparr>m_MSNetworkCfg := \<lparr>msn_multiplier_network_type = OS_MESH,
           msn_ms_size = 2, msn_ms_rows = 1, msn_ms_cols = 2\<rparr>\<rparr>) (\<lambda>_. Connection_new 16)) (\<lambda>(mn, st).
        rbind (OSMeshMN_setInputConnections (\<lambda>x. Some (DSTop x)) 3 mn) (\<lambda>mn.
        rbind (OSMeshMN_setOutputConnections (\<lambda>x. Some (AccLink x)) 2 mn) (\<lambda>mn.
        rbind (OSMeshMN_configureSignals (Tile_fc 1 2 1 False) layer 1 2 mn) (\<lambda>mn.
        mesh_run \<lparr>ps_R = 1, ps_C = 2, ps_ru = 1, ps_cu = 2, ps_K = 3,
            ps_W = (\<lambda>k j. DataPackage_traffic 4 (int (10 * k + j)) WEIGHT 0 UNICAST),
            ps_A = (\<lambda>k i. DataPackage_traffic 4 (int (k + 2)) IACTIVATION 0 UNICAST)\<rparr> 3 (mn, st))))) = Inr (mn, st')
     \<and> map p_data (flight st' (AccLink 1)) = [33] \<and> map p_data (flight st' (AccLink 0)) = [80]"
proof
  fix layer
  let ?cfg = "Config_reset\<lparr>m_MSNetworkCfg := \<lparr>msn_multiplier_network_type = OS_MESH,
           msn_ms_size = 2, msn_ms_rows = 1, msn_ms_cols = 2\<rparr>\<rparr>"
  let ?p = "\<lparr>ps_R = 1, ps_C = 2, ps_ru = 1, ps_cu = 2, ps_K = 3,
            ps_W = (\<lambda>k j. DataPackage_traffic 4 (int (10 * k + j)) WEIGHT 0 UNICAST),
            ps_A = (\<lambda>k i. DataPackage_traffic 4 (int (k + 2)) IACTIVATION 0 UNICAST)\<rparr>"
  have p: "pass_ok ?p" by (simp add: pass_ok_def DataPackage_traffic_def DataPackage_general_def)
  have st: "\<forall>c. link (\<lambda>_. Connection_new 16 :: int Connection) c []"
    by (simp add: link_def Connection_new_def Connection_existPendingData_def in_flight_def2)
  have q: "ps_R ?p = 1" "ps_C ?p = 2" "ps_ru ?p = 1" "ps_cu ?p = 2" "ps_K ?p = 3" "Suc 2 = 3" "2 + 1 = (3::nat)" "1 * 2 = (2::nat)"
    by simp_all
  have h: "msn_ms_rows (m_MSNetworkCfg ?cfg) = 1" "msn_ms_cols (m_MSNetworkCfg ?cfg) = 2" "2 < u32_max" "1 + 2 < u32_max"
    "T_K (Tile_fc 1 2 1 False) = 2" "T_Xo (Tile_fc 1 2 1 False) = 1" "T_Yo (Tile_fc 1 2 1 False) = 1"
    by (simp_all add: Tile_fc_def u32_max_def)
  obtain mn st' where 1: "rbind (OSMeshMN_new ?cfg (\<lambda>_. Connection_new 16)) (\<lambda>(mn, st).
        rbind (OSMeshMN_setInputConnections (\<lambda>x. Some (DSTop x)) 3 mn) (\<lambda>mn.
        rbind (OSMeshMN_setOutputConnections (\<lambda>x. Some (AccLink x)) 2 mn) (\<lambda>mn.
        rbind (OSMeshMN_configureSignals (Tile_fc 1 2 1 False) layer 1 2 mn) (\<lambda>mn. mesh_run ?p 3 (mn, st))))) = Inr (mn, st')"
    "\<forall>i < 1. \<forall>j < 2. flight st' (AccLink (i * 2 + j)) =
          (if i < 1 \<and> j < 2 \<and> i + j \<le> 2 \<and> 2 < 3 + (i + j) then [product_of ?p i j (2 - (i + j))] else [])"
    using systolic_schedule [where p = ?p and cfg = ?cfg and tile = "Tile_fc 1 2 1 False" and t = 2 and layer = layer,
        unfolded q, OF p h st] by blast
  have "flight st' (AccLink 0) = [product_of ?p 0 0 2]" "flight st' (AccLink 1) = [product_of ?p 0 1 1]"
    using 1(2) [rule_format, of 0 0] 1(2) [rule_format, of 0 1] by simp_all
  then have "map p_data (flight st' (AccLink 1)) = [33]" "map p_data (flight st' (AccLink 0)) = [80]"
    by (simp_all add: product_of_def MultiplierOS_product_def DataPackage_traffic_def DataPackage_general_def DataPackage_psum_def)
  then show "\<exists>mn st'. rbind (OSMeshMN_new ?cfg (\<lambda>_. Connection_new 16)) (\<lambda>(mn, st).
        rbind (OSMeshMN_setInputConnections (\<lambda>x. Some (DSTop x)) 3 mn) (\<lambda>mn.
        rbind (OSMeshMN_setOutputConnections (\<lambda>x. Some (AccLink x)) 2 mn) (\<lambda>mn.
        rbind (OSMeshMN_configureSignals (Tile_fc 1 2 1 False) layer 1 2 mn) (\<lambda>mn. mesh_run ?p 3 (mn, st))))) = Inr (mn, st')
     \<and> map p_data (flight st' (AccLink 1)) = [33] \<and> map p_data (flight st' (AccLink 0)) = [80]"
    by (intro exI [of _ mn] exI [of _ st'] conjI 1(1))
qed

end
