(* ===== verification/DistTree.thy ===== *)
theory DistTree
  imports DistNet
begin

text \<open>
  What the distribution tree does (\<^verbatim>\<open>DSNetwork.cpp\<close>, \<^verbatim>\<open>DSwitch.cpp\<close>). A package of \<^verbatim>\<open>DSwitch::route_packages\<close>
  goes to the sides whose subtrees hold a multiplier it is addressed to; by induction over the
  switches of a level and over the levels, one cycle of the tree delivers every package to exactly
  the multipliers it is addressed to. The trees of the constructor have the invariant \<open>tree_ok\<close>, and
  a cycle keeps it.
\<close>

section \<open>Routing one package\<close>

text \<open>A package the tree of \<open>n\<close> multipliers can route.\<close>

definition routable :: "nat \<Rightarrow> 'd DataPackage \<Rightarrow> bool" where
  "routable n p \<longleftrightarrow> (case p_traffic_type p of BROADCAST \<Rightarrow> True | UNICAST \<Rightarrow> p_unicast_dest p < n
     | MULTICAST \<Rightarrow> (\<exists>ds. p_dests p = Some ds \<and> length ds = n \<and> p_n_dests p = n))"

text \<open>The multipliers a package is addressed to.\<close>

definition addressed :: "'d DataPackage \<Rightarrow> nat \<Rightarrow> bool" where
  "addressed p x \<longleftrightarrow> (case p_traffic_type p of BROADCAST \<Rightarrow> True | UNICAST \<Rightarrow> p_unicast_dest p = x
     | MULTICAST \<Rightarrow> the (p_dests p) ! x)"

text \<open>A package goes into a subtree when the subtree holds one of its multipliers.\<close>

definition reaches :: "'d DataPackage \<Rightarrow> nat \<Rightarrow> nat \<Rightarrow> bool" where
  "reaches p a b \<longleftrightarrow> (\<exists>x \<in> {a..<b}. addressed p x)"

definition copy_of :: "'d DataPackage \<Rightarrow> 'd DataPackage" where
  "copy_of p = (case DataPackage_copy p of Inr c \<Rightarrow> c | Inl _ \<Rightarrow> p)"

lemma copy_ok:
  assumes "routable n p"
  shows "DataPackage_copy p = Inr (copy_of p)" "routable n (copy_of p)" "addressed (copy_of p) = addressed p"
    "p_data (copy_of p) = p_data p" "p_data_type (copy_of p) = p_data_type p" "copy_of (copy_of p) = copy_of p"
  using assms
  by (auto simp: copy_of_def DataPackage_copy_def DataPackage_general_def routable_def addressed_def fun_eq_iff Let_def
      split: traffic_t.splits)

lemma dests_any_ok: "\<forall>i \<in> set is. i < length ds \<Longrightarrow> dests_any ds is = Inr (\<exists>i \<in> set is. ds ! i)"
  by (induction "is") auto

lemma DSwitch_route_one_ok:
  assumes w: "drop_bit (dw_level dw) (dw_num_ms dw) = 2 * h" "0 < h"
    and a: "a = dw_num_in_level dw * (2 * h)" "a + 2 * h \<le> n" "n \<le> 2 ^ 23"
    and p: "routable n p" "p_traffic_type p = UNICAST \<longrightarrow> reaches p a (a + 2 * h)"
  shows "DSwitch_route_one dw p = Inr (reaches p a (a + h), reaches p (a + h) (a + 2 * h))"
proof -
  have u: "umul (dw_num_in_level dw) (2 * h) = a" "usub (2 * h) 1 = 2 * h - 1" "uadd a (2 * h) = a + 2 * h"
  proof -
    have n: "n < u32_max" using a(3) by (simp add: u32_max_def)
    then show "umul (dw_num_in_level dw) (2 * h) = a" "usub (2 * h) 1 = 2 * h - 1" "uadd a (2 * h) = a + 2 * h"
      using a(1,2) w(2) by (simp_all add: u32_simps)
  qed
  have f: "f32_of_nat (2 * a + (2 * h - 1)) = 2 * a + (2 * h - 1)" using a(2,3) w(2) by (intro f32_small) simp
  have half: "Suc ((2 * a + (2 * h - 1)) div 2) = a + h" using w(2) by (cases h) auto
  show ?thesis
  proof (cases "p_traffic_type p")
    case MULTICAST
    then obtain ds where ds: "p_dests p = Some ds" "length ds = n" using p(1) by (auto simp: routable_def)
    have "dests_any ds [a..<a + h] = Inr (\<exists>i \<in> {a..<a + h}. ds ! i)"
      "dests_any ds [a + h..<a + 2 * h] = Inr (\<exists>i \<in> {a + h..<a + 2 * h}. ds ! i)"
      using dests_any_ok [of "[a..<a + h]" ds] dests_any_ok [of "[a + h..<a + 2 * h]" ds] a(2) ds(2) by auto
    then show ?thesis
      using MULTICAST ds unfolding DSwitch_route_one_def w(1) Let_def u f half
      by (simp add: half reaches_def addressed_def)
  next
    case BROADCAST
    then show ?thesis using w(2) unfolding DSwitch_route_one_def w(1) Let_def u f
      by (auto simp: reaches_def addressed_def intro!: bexI [of _ a] bexI [of _ "a + h"])
  next
    case UNICAST
    then have d: "a \<le> p_unicast_dest p" "p_unicast_dest p < a + 2 * h"
      using p(2) by (auto simp: reaches_def addressed_def)
    then have "f32_of_nat (p_unicast_dest p) = p_unicast_dest p" using a(2,3) by (intro f32_small) simp
    moreover have "2 * p_unicast_dest p < 2 * a + (2 * h - 1) \<longleftrightarrow> p_unicast_dest p < a + h" using w(2) by linarith
    ultimately show ?thesis using UNICAST d unfolding DSwitch_route_one_def w(1) Let_def u f
      by (auto simp: reaches_def addressed_def)
  qed
qed

lemma DSwitch_route_ok:
  assumes w: "drop_bit (dw_level dw) (dw_num_ms dw) = 2 * h" "0 < h"
    and a: "a = dw_num_in_level dw * (2 * h)" "a + 2 * h \<le> n" "n \<le> 2 ^ 23"
    and p: "\<forall>p \<in> set ps. routable n p \<and> (p_traffic_type p = UNICAST \<longrightarrow> reaches p a (a + 2 * h))"
  shows "rfold (DSwitch_route_package dw) ps (l, r) =
     Inr (l @ map copy_of (filter (\<lambda>p. reaches p a (a + h)) ps),
          r @ map copy_of (filter (\<lambda>p. reaches p (a + h) (a + 2 * h)) ps))"
  using p
proof (induction ps arbitrary: l r)
  case (Cons p ps)
  then have 1: "DSwitch_route_one dw p = Inr (reaches p a (a + h), reaches p (a + h) (a + 2 * h))"
    "DataPackage_copy p = Inr (copy_of p)"
    using DSwitch_route_one_ok [OF w a, of p] copy_ok(1) [of n p] by simp_all
  with Cons show ?case by (simp add: DSwitch_route_package_def)
qed simp

section \<open>A switch\<close>

text \<open>One cycle: what waits on the input leaves, copied, on the sides it is addressed to.\<close>

lemma DSwitch_cycle_ok:
  assumes conns: "dw_inputConnection dw = Some c" "dw_leftConnection dw = Some l" "dw_rightConnection dw = Some r"
      "distinct [c, l, r]" and idle: "\<not> dw_pending_data dw"
    and w: "drop_bit (dw_level dw) (dw_num_ms dw) = 2 * h" "0 < h"
    and a: "a = dw_num_in_level dw * (2 * h)" "a + 2 * h \<le> n" "n \<le> 2 ^ 23"
    and p: "\<forall>p \<in> set ps. routable n p \<and> (p_traffic_type p = UNICAST \<longrightarrow> reaches p a (a + 2 * h))"
    and links: "link st c ps" "link st l []" "link st r []"
  shows "\<exists>dw' st'. DSwitch_cycle (dw, st) = Inr (dw', st') \<and> \<not> dw_pending_data dw'
     \<and> dw_inputConnection dw' = Some c \<and> dw_leftConnection dw' = Some l \<and> dw_rightConnection dw' = Some r
     \<and> dw_level dw' = dw_level dw \<and> dw_num_in_level dw' = dw_num_in_level dw \<and> dw_num_ms dw' = dw_num_ms dw
     \<and> link st' c [] \<and> link st' l (map copy_of (filter (\<lambda>p. reaches p a (a + h)) ps))
     \<and> link st' r (map copy_of (filter (\<lambda>p. reaches p (a + h) (a + 2 * h)) ps))
     \<and> (\<forall>d. d \<notin> {c, l, r} \<longrightarrow> st' d = st d)"
proof -
  define dw0 where "dw0 = dw\<lparr>dw_stats := ds_total_cycles_update (\<lambda>n. n + 1) (dw_stats dw)\<rparr>"
  have dw0: "dw_inputConnection dw0 = Some c" "dw_leftConnection dw0 = Some l" "dw_rightConnection dw0 = Some r"
    "\<not> dw_pending_data dw0" "dw_level dw0 = dw_level dw" "dw_num_in_level dw0 = dw_num_in_level dw" "dw_num_ms dw0 = dw_num_ms dw"
    using conns idle by (simp_all add: dw0_def)
  have cyc: "DSwitch_cycle (dw, st) = rbind (DSwitch_receive (dw0, st)) (\<lambda>(dw, st).
     if dw_pending_data dw then DSwitch_route_packages (dw, st) else Inr (dw, st))"
    by (simp add: DSwitch_cycle_def dw0_def)
  show ?thesis
  proof (cases "ps = []")
    case True
    then have "\<not> pend st c" using links(1) by (simp add: link_def)
    then have "DSwitch_cycle (dw, st) = Inr (dw0, st)" unfolding cyc DSwitch_receive_def by (simp add: dw0)
    then show ?thesis using dw0 links True by simp
  next
    case False
    define dw1 where "dw1 = dw0\<lparr>dw_data := ps, dw_pending_data := True\<rparr>"
    define st1 where "st1 = st(c := snd (Connection_receive (st c)))"
    let ?L = "map copy_of (filter (\<lambda>p. reaches p a (a + h)) ps)"
    let ?R = "map copy_of (filter (\<lambda>p. reaches p (a + h) (a + 2 * h)) ps)"
    have "pend st c" "flight st c = ps" using links(1) False by (simp_all add: link_def)
    then have rec: "DSwitch_receive (dw0, st) = Inr (dw1, st1)"
      by (simp add: DSwitch_receive_def dw0 dw1_def st1_def)
    have dw1: "dw_inputConnection dw1 = Some c" "dw_leftConnection dw1 = Some l" "dw_rightConnection dw1 = Some r"
      "dw_pending_data dw1" "dw_level dw1 = dw_level dw" "dw_num_in_level dw1 = dw_num_in_level dw" "dw_num_ms dw1 = dw_num_ms dw"
      "dw_data dw1 = ps" using dw0 by (simp_all add: dw1_def)
    have st1: "link st1 c []" "link st1 l []" "link st1 r []" "\<forall>d. d \<noteq> c \<longrightarrow> st1 d = st d"
      using links conns(4) by (simp_all add: st1_def)
    have route: "rfold (DSwitch_route_package dw1) (dw_data dw1) ([], []) = Inr (?L, ?R)"
      using DSwitch_route_ok [of dw1 h a n ps "[]" "[]"] w a p by (simp add: dw1)
    let ?stl = "if ?L = [] then st1 else st1(l := Connection_send ?L (st1 l))"
    let ?str = "if ?R = [] then ?stl else ?stl(r := Connection_send ?R (?stl r))"
    have "\<exists>dw'. DSwitch_route_packages (dw1, st1) = Inr (dw', ?str) \<and> \<not> dw_pending_data dw'
     \<and> dw_inputConnection dw' = Some c \<and> dw_leftConnection dw' = Some l \<and> dw_rightConnection dw' = Some r
     \<and> dw_level dw' = dw_level dw \<and> dw_num_in_level dw' = dw_num_in_level dw \<and> dw_num_ms dw' = dw_num_ms dw"
      unfolding DSwitch_route_packages_def prod.case route
      by (cases "?L = []"; cases "?R = []")
         (simp_all del: map_is_Nil_conv add: Let_def DSwitch_send_def dw1)
    moreover have "link ?str c []" "link ?str l ?L" "link ?str r ?R" "\<forall>d. d \<notin> {c, l, r} \<longrightarrow> ?str d = st d"
      using st1 conns(4) by (auto simp del: map_is_Nil_conv simp: not_sym [of l r])
    ultimately show ?thesis unfolding cyc rec by (simp add: dw1) blast
  qed
qed


section \<open>A tree\<close>

text \<open>The link into position \<open>(i, k)\<close>; the links into level \<open>n\<close> are those of the multipliers.\<close>

definition in_link :: "nat \<Rightarrow> cid \<Rightarrow> nat \<Rightarrow> nat \<Rightarrow> cid" where
  "in_link tr c i k = (case i of 0 \<Rightarrow> c | Suc i' \<Rightarrow> DSLink tr i' k)"

definition switch_ok :: "nat \<Rightarrow> nat \<Rightarrow> cid \<Rightarrow> nat \<Rightarrow> nat \<Rightarrow> 'd DSwitch \<Rightarrow> bool" where
  "switch_ok n tr c i k dw \<longleftrightarrow> dw_level dw = i \<and> dw_num_in_level dw = k \<and> dw_num_ms dw = 2 ^ n \<and> \<not> dw_pending_data dw
     \<and> dw_inputConnection dw = Some (in_link tr c i k)
     \<and> dw_leftConnection dw = Some (in_link tr c (Suc i) (2 * k)) \<and> dw_rightConnection dw = Some (in_link tr c (Suc i) (2 * k + 1))"

definition tree_ok :: "nat \<Rightarrow> cid \<Rightarrow> 'd DSNetwork \<Rightarrow> bool" where
  "tree_ok n c dt \<longleftrightarrow> dt_nlevels dt = n \<and> dt_ms_size dt = 2 ^ n \<and> 2 ^ n < u32_max \<and> (\<forall>i k. c \<noteq> DSLink (dt_tree dt) i k)
     \<and> dt_inputConnection dt = Some c
     \<and> (\<forall>i < n. \<forall>k < 2 ^ i. \<exists>dw. dt_dswitchtable dt (i, k) = Some dw \<and> switch_ok n (dt_tree dt) c i k dw)
     \<and> (\<forall>i < n. \<forall>k < 2 ^ Suc i. dt_connectiontable dt (i, k) = Some (DSLink (dt_tree dt) i k))"

text \<open>What waits on the links into level \<open>i\<close> when the packages \<open>ps\<close> have come down to it.\<close>

definition level_msg :: "nat \<Rightarrow> 'd DataPackage list \<Rightarrow> nat \<Rightarrow> nat \<Rightarrow> 'd DataPackage list" where
  "level_msg n ps i k = (if i = 0 then ps else map copy_of (filter (\<lambda>p. reaches p (k * 2 ^ (n - i)) (Suc k * 2 ^ (n - i))) ps))"

lemma reaches_mono: "reaches p a b \<Longrightarrow> a' \<le> a \<Longrightarrow> b \<le> b' \<Longrightarrow> reaches p a' b'"
  by (force simp: reaches_def)

lemma reaches_copy: "routable n p \<Longrightarrow> reaches (copy_of p) = reaches p"
  using copy_ok(3) [of n p] by (simp add: reaches_def fun_eq_iff)

text \<open>What leaves a switch is what arrives at the level below.\<close>

lemma level_msg_step:
  assumes ps: "\<forall>p \<in> set ps. routable (2 ^ n) p" and i: "i < n"
  shows "map copy_of (filter (\<lambda>p. reaches p (k * 2 ^ (n - i)) (k * 2 ^ (n - i) + 2 ^ (n - Suc i))) (level_msg n ps i k))
       = level_msg n ps (Suc i) (2 * k)"
    and "map copy_of (filter (\<lambda>p. reaches p (k * 2 ^ (n - i) + 2 ^ (n - Suc i)) (k * 2 ^ (n - i) + 2 ^ (n - i))) (level_msg n ps i k))
       = level_msg n ps (Suc i) (2 * k + 1)"
proof -
  have w: "2 ^ (n - i) = 2 * (2::nat) ^ (n - Suc i)" using i by (simp add: power_Suc [symmetric] Suc_diff_Suc del: power_Suc)
  have gen: "map copy_of (filter (\<lambda>p. reaches p a b) (level_msg n ps i k)) = map copy_of (filter (\<lambda>p. reaches p a b) ps)"
    if "i = 0 \<or> k * 2 ^ (n - i) \<le> a \<and> b \<le> Suc k * 2 ^ (n - i)" for a b
  proof (cases "i = 0")
    case False
    then have sub: "reaches p a b \<Longrightarrow> reaches p (k * 2 ^ (n - i)) (Suc k * 2 ^ (n - i))" for p
      using that reaches_mono by blast
    have "map copy_of (filter (\<lambda>p. reaches p a b) (map copy_of (filter (\<lambda>p. reaches p (k * 2 ^ (n - i)) (Suc k * 2 ^ (n - i))) qs)))
        = map copy_of (filter (\<lambda>p. reaches p a b) qs)" if "\<forall>p \<in> set qs. routable (2 ^ n) p" for qs
      using that sub by (induction qs) (auto simp: reaches_copy copy_ok(6))
    then show ?thesis using ps False by (simp add: level_msg_def)
  qed (simp add: level_msg_def)
  show "map copy_of (filter (\<lambda>p. reaches p (k * 2 ^ (n - i)) (k * 2 ^ (n - i) + 2 ^ (n - Suc i))) (level_msg n ps i k))
       = level_msg n ps (Suc i) (2 * k)"
    by (subst gen) (simp_all add: w level_msg_def algebra_simps)
  show "map copy_of (filter (\<lambda>p. reaches p (k * 2 ^ (n - i) + 2 ^ (n - Suc i)) (k * 2 ^ (n - i) + 2 ^ (n - i))) (level_msg n ps i k))
       = level_msg n ps (Suc i) (2 * k + 1)"
    by (subst gen) (simp_all add: w level_msg_def algebra_simps)
qed

text \<open>The packages that come down to a switch can be routed by it.\<close>

lemma level_msg_routable:
  assumes ps: "\<forall>p \<in> set ps. routable (2 ^ n) p" and p: "p \<in> set (level_msg n ps i k)" and k: "k < 2 ^ i"
  shows "routable (2 ^ n) p \<and> (p_traffic_type p = UNICAST \<longrightarrow> reaches p (k * 2 ^ (n - i)) (Suc k * 2 ^ (n - i)))"
proof (cases "i = 0")
  case True
  then show ?thesis using assms by (auto simp: level_msg_def reaches_def addressed_def routable_def)
next
  case False
  then obtain q where q: "p = copy_of q" "q \<in> set ps" "reaches q (k * 2 ^ (n - i)) (Suc k * 2 ^ (n - i))"
    using p by (auto simp: level_msg_def)
  then show ?thesis using ps copy_ok(2) [of "2 ^ n" q] reaches_copy [of "2 ^ n" q] by simp
qed


text \<open>The links of the tree when the switches before \<open>(i, j)\<close> have had their cycle.\<close>

definition tree_links :: "nat \<Rightarrow> nat \<Rightarrow> cid \<Rightarrow> 'd DataPackage list \<Rightarrow> nat \<Rightarrow> nat \<Rightarrow> 'd store \<Rightarrow> bool" where
  "tree_links n tr c ps i j st \<longleftrightarrow> (\<forall>a \<le> n. \<forall>k < 2 ^ a. link st (in_link tr c a k)
     (if a = i \<and> j \<le> k \<or> a = Suc i \<and> k div 2 < j then level_msg n ps a k else []))"

lemma in_link_inj:
  assumes "\<forall>i k. c \<noteq> DSLink tr i k" and "k < 2 ^ i" "k' < 2 ^ i'"
  shows "in_link tr c i k = in_link tr c i' k' \<longleftrightarrow> i = i' \<and> k = k'"
  using assms not_sym [of c] by (auto simp: in_link_def split: nat.splits)

lemma tree_links_level: "tree_links n tr c ps i (2 ^ i) st \<longleftrightarrow> tree_links n tr c ps (Suc i) 0 st"
proof -
  have "(a = i \<and> 2 ^ i \<le> k \<or> a = Suc i \<and> k div 2 < 2 ^ i) = (a = Suc i \<and> 0 \<le> k \<or> a = Suc (Suc i) \<and> k div 2 < 0)"
    if "k < 2 ^ a" for a k :: nat
    using that by auto
  then show ?thesis unfolding tree_links_def by (intro iff_allI imp_cong refl) (simp only:)
qed

lemma div2_eq: "k div 2 = j \<longleftrightarrow> k = 2 * j \<or> k = 2 * j + (1::nat)"
  by linarith

lemma DSNetwork_cycle_switch_ok:
  assumes t: "tree_ok n c dt" and l: "tree_links n (dt_tree dt) c ps i j st" and ij: "i < n" "j < 2 ^ i"
    and ps: "\<forall>p \<in> set ps. routable (2 ^ n) p" and small: "n \<le> 23"
  shows "\<exists>dt' st'. DSNetwork_cycle_switch (i, j) (dt, st) = Inr (dt', st') \<and> tree_ok n c dt' \<and> dt_tree dt' = dt_tree dt
     \<and> tree_links n (dt_tree dt) c ps i (Suc j) st'
     \<and> (\<forall>d. d \<noteq> c \<and> (\<forall>a k. d \<noteq> DSLink (dt_tree dt) a k) \<longrightarrow> st' d = st d)"
proof -
  let ?L = "in_link (dt_tree dt) c" and ?h = "2 ^ (n - Suc i) :: nat"
  have c: "\<forall>i k. c \<noteq> DSLink (dt_tree dt) i k" using t by (simp add: tree_ok_def)
  have n: "(2 :: nat) ^ n \<le> 2 ^ 23" using small by (intro power_increasing) simp_all
  have k: "2 * j < 2 ^ Suc i" "2 * j + 1 < 2 ^ Suc i" using ij(2) by simp_all
  have w: "2 ^ (n - i) = 2 * ?h" using ij(1) by (simp add: power_Suc [symmetric] Suc_diff_Suc del: power_Suc)
  obtain dw where dw: "dt_dswitchtable dt (i, j) = Some dw" "switch_ok n (dt_tree dt) c i j dw"
    using t ij unfolding tree_ok_def by blast
  then have ok: "dw_inputConnection dw = Some (?L i j)" "dw_leftConnection dw = Some (?L (Suc i) (2 * j))"
    "dw_rightConnection dw = Some (?L (Suc i) (2 * j + 1))" "\<not> dw_pending_data dw"
    "dw_level dw = i" "dw_num_in_level dw = j" "dw_num_ms dw = 2 ^ n" by (simp_all add: switch_ok_def)
  note inj = in_link_inj [OF c]
  have d: "distinct [?L i j, ?L (Suc i) (2 * j), ?L (Suc i) (2 * j + 1)]"
    using inj ij(2) k by simp
  have r: "drop_bit (dw_level dw) (dw_num_ms dw) = 2 * ?h"
    using ij(1) w by (simp add: ok drop_bit_eq_div power_diff)
  have "Suc j * 2 ^ (n - i) \<le> 2 ^ i * 2 ^ (n - i)" using ij(2) by (intro mult_le_mono1) simp
  then have b: "j * (2 * ?h) + 2 * ?h \<le> 2 ^ n" using ij(1) by (simp add: w [symmetric] power_add [symmetric])
  have msgs: "\<forall>p \<in> set (level_msg n ps i j). routable (2 ^ n) p \<and> (p_traffic_type p = UNICAST \<longrightarrow>
      reaches p (j * (2 * ?h)) (j * (2 * ?h) + 2 * ?h))"
    using level_msg_routable [OF ps _ ij(2)] by (auto simp: w add.commute)
  have links: "link st (?L i j) (level_msg n ps i j)" "link st (?L (Suc i) (2 * j)) []" "link st (?L (Suc i) (2 * j + 1)) []"
    using l [unfolded tree_links_def, rule_format, of i j] l [unfolded tree_links_def, rule_format, of "Suc i" "2 * j"]
      l [unfolded tree_links_def, rule_format, of "Suc i" "2 * j + 1"] ij k by simp_all
  obtain dw' st' where cyc: "DSwitch_cycle (dw, st) = Inr (dw', st')"
    and dw': "\<not> dw_pending_data dw'" "dw_inputConnection dw' = Some (?L i j)" "dw_leftConnection dw' = Some (?L (Suc i) (2 * j))"
      "dw_rightConnection dw' = Some (?L (Suc i) (2 * j + 1))" "dw_level dw' = dw_level dw"
      "dw_num_in_level dw' = dw_num_in_level dw" "dw_num_ms dw' = dw_num_ms dw"
    and st': "link st' (?L i j) []"
      "link st' (?L (Suc i) (2 * j)) (map copy_of (filter (\<lambda>p. reaches p (j * (2 * ?h)) (j * (2 * ?h) + ?h)) (level_msg n ps i j)))"
      "link st' (?L (Suc i) (2 * j + 1)) (map copy_of (filter (\<lambda>p. reaches p (j * (2 * ?h) + ?h) (j * (2 * ?h) + 2 * ?h)) (level_msg n ps i j)))"
      "\<forall>d. d \<notin> {?L i j, ?L (Suc i) (2 * j), ?L (Suc i) (2 * j + 1)} \<longrightarrow> st' d = st d"
    using DSwitch_cycle_ok [OF ok(1-3) d ok(4) r _ _ b n msgs links] ok(6) by auto
  note out = st'(2,3) [folded w, unfolded level_msg_step [OF ps ij(1)]]
  define dt' where "dt' = dt\<lparr>dt_dswitchtable := (dt_dswitchtable dt)((i, j) \<mapsto> dw')\<rparr>"
  have sw: "switch_ok n (dt_tree dt) c i j dw'" using dw' ok by (simp add: switch_ok_def)
  have "\<exists>dw. dt_dswitchtable dt' (a, k) = Some dw \<and> switch_ok n (dt_tree dt) c a k dw" if "a < n" "k < 2 ^ a" for a k
  proof (cases "(a, k) = (i, j)")
    case True
    with sw show ?thesis by (simp add: dt'_def)
  next
    case False
    with t that show ?thesis unfolding tree_ok_def dt'_def by auto
  qed
  then have "tree_ok n c dt'" using t by (simp add: tree_ok_def dt'_def)
  moreover have "tree_links n (dt_tree dt) c ps i (Suc j) st'"
    unfolding tree_links_def
  proof (intro allI impI)
    fix a k' :: nat assume a: "a \<le> n" "k' < 2 ^ a"
    consider "(a, k') = (i, j)" | "(a, k') = (Suc i, 2 * j)" | "(a, k') = (Suc i, 2 * j + 1)"
      | "(a, k') \<notin> {(i, j), (Suc i, 2 * j), (Suc i, 2 * j + 1)}" by blast
    then show "link st' (?L a k') (if a = i \<and> Suc j \<le> k' \<or> a = Suc i \<and> k' div 2 < Suc j then level_msg n ps a k' else [])"
    proof cases
      case 4
      then have "?L a k' \<notin> {?L i j, ?L (Suc i) (2 * j), ?L (Suc i) (2 * j + 1)}"
        using inj [OF a(2) ij(2)] inj [OF a(2) k(1)] inj [OF a(2) k(2)] by auto
      then have e: "st' (?L a k') = st (?L a k')" using st'(4) by blast
      have "link st' (?L a k') xs = link st (?L a k') xs" for xs by (rule link_cong [where st' = st' and st = st, OF e])
      moreover have "(a = i \<and> Suc j \<le> k' \<or> a = Suc i \<and> k' div 2 < Suc j) = (a = i \<and> j \<le> k' \<or> a = Suc i \<and> k' div 2 < j)"
      proof -
        have "a = i \<longrightarrow> k' \<noteq> j" using 4 by simp
        moreover have "a = Suc i \<longrightarrow> k' div 2 \<noteq> j" using 4 by (simp add: div2_eq)
        ultimately show ?thesis by linarith
      qed
      moreover have "link st (?L a k') (if a = i \<and> j \<le> k' \<or> a = Suc i \<and> k' div 2 < j then level_msg n ps a k' else [])"
        using l a unfolding tree_links_def by blast
      ultimately show ?thesis by (simp only:)
    qed (use st'(1) out in simp_all)
  qed
  moreover have "st' d = st d" if "d \<noteq> c" "\<forall>a k. d \<noteq> DSLink (dt_tree dt) a k" for d
    using that st'(4) by (auto simp: in_link_def split: nat.splits)
  moreover have "DSNetwork_cycle_switch (i, j) (dt, st) = Inr (dt', st')"
    by (simp add: DSNetwork_cycle_switch_def dw(1) cyc dt'_def)
  moreover have "dt_tree dt' = dt_tree dt" by (simp add: dt'_def)
  ultimately show ?thesis by blast
qed


lemma DSNetwork_cycle_level_ok:
  fixes dt :: "'d DSNetwork" and st :: "'d store"
  assumes t: "tree_ok n c dt" and l: "tree_links n (dt_tree dt) c ps i 0 st" and i: "i < n"
    and ps: "\<forall>p \<in> set ps. routable (2 ^ n) p" and small: "n \<le> 23"
  shows "\<exists>dt' st'. rfold DSNetwork_cycle_switch (map (Pair i) [0..<2 ^ i]) (dt, st) = Inr (dt', st')
     \<and> tree_ok n c dt' \<and> dt_tree dt' = dt_tree dt \<and> tree_links n (dt_tree dt) c ps (Suc i) 0 st'
     \<and> (\<forall>d. d \<noteq> c \<and> (\<forall>a k. d \<noteq> DSLink (dt_tree dt) a k) \<longrightarrow> st' d = st d)"
proof -
  define I :: "nat \<Rightarrow> 'd DSNetwork \<times> 'd store \<Rightarrow> bool" where "I j s \<longleftrightarrow> (case s of (dt', st') \<Rightarrow> tree_ok n c dt' \<and> dt_tree dt' = dt_tree dt
     \<and> tree_links n (dt_tree dt) c ps i j st' \<and> (\<forall>d. d \<noteq> c \<and> (\<forall>a k. d \<noteq> DSLink (dt_tree dt) a k) \<longrightarrow> st' d = st d))" for j s
  have "\<exists>s'. rfold (\<lambda>j. DSNetwork_cycle_switch (i, j)) [0..<2 ^ i] (dt, st) = Inr s' \<and> I (2 ^ i) s'"
  proof (rule rfold_upt_total)
    show "I 0 (dt, st)" using t l by (simp add: I_def)
    fix j s assume j: "j < 2 ^ i" and "I j s"
    then obtain dt1 st1 where 1: "s = (dt1, st1)" "tree_ok n c dt1" "dt_tree dt1 = dt_tree dt" "tree_links n (dt_tree dt1) c ps i j st1"
      "\<forall>d. d \<noteq> c \<and> (\<forall>a k. d \<noteq> DSLink (dt_tree dt) a k) \<longrightarrow> st1 d = st d" by (cases s) (auto simp: I_def)
    from DSNetwork_cycle_switch_ok [OF 1(2,4) i j ps small] 1 show "\<exists>s'. DSNetwork_cycle_switch (i, j) s = Inr s' \<and> I (Suc j) s'"
      by (auto simp: I_def)
  qed
  then show ?thesis by (auto simp: rfold_map I_def tree_links_level)
qed

text \<open>One cycle of the whole tree.\<close>

lemma DSNetwork_cycle_ok:
  fixes dt :: "'d DSNetwork" and st :: "'d store"
  assumes t: "tree_ok n c dt" and l: "tree_links n (dt_tree dt) c ps 0 0 st"
    and ps: "\<forall>p \<in> set ps. routable (2 ^ n) p" and small: "n \<le> 23"
  shows "\<exists>dt' st'. DSNetwork_cycle (dt, st) = Inr (dt', st') \<and> tree_ok n c dt' \<and> dt_tree dt' = dt_tree dt
     \<and> tree_links n (dt_tree dt) c ps n 0 st'
     \<and> (\<forall>d. d \<noteq> c \<and> (\<forall>a k. d \<noteq> DSLink (dt_tree dt) a k) \<longrightarrow> st' d = st d)"
proof -
  have "m \<le> n \<Longrightarrow> \<exists>dt' st'. rfold DSNetwork_cycle_switch (tree_positions m) (dt, st) = Inr (dt', st')
     \<and> tree_ok n c dt' \<and> dt_tree dt' = dt_tree dt \<and> tree_links n (dt_tree dt) c ps m 0 st'
     \<and> (\<forall>d. d \<noteq> c \<and> (\<forall>a k. d \<noteq> DSLink (dt_tree dt) a k) \<longrightarrow> st' d = st d)" for m
  proof (induction m)
    case 0
    then show ?case using t l by (simp add: tree_positions_def)
  next
    case (Suc m)
    then obtain dt1 st1 where 1: "rfold DSNetwork_cycle_switch (tree_positions m) (dt, st) = Inr (dt1, st1)"
      "tree_ok n c dt1" "dt_tree dt1 = dt_tree dt" "tree_links n (dt_tree dt1) c ps m 0 st1"
      "\<forall>d. d \<noteq> c \<and> (\<forall>a k. d \<noteq> DSLink (dt_tree dt) a k) \<longrightarrow> st1 d = st d" by auto
    have "tree_positions (Suc m) = tree_positions m @ map (Pair m) [0..<2 ^ m]" by (simp add: tree_positions_def)
    then show ?case
      using DSNetwork_cycle_level_ok [OF 1(2,4) _ ps small] 1 Suc.prems by (auto simp: rfold_append)
  qed
  from this [of n] show ?thesis using t by (auto simp: DSNetwork_cycle_def tree_ok_def)
qed


section \<open>Building a tree\<close>

lemma nlevels_of_power: "nlevels_of (2 ^ n) = n"
proof (induction n)
  case (Suc n)
  have "1 \<le> (2::nat) ^ n" by simp
  then have "\<not> 2 ^ Suc n \<le> (1::nat)" unfolding power_Suc by linarith
  then show ?case using Suc by (subst nlevels_of.simps) simp
qed (simp add: nlevels_of.simps)

text \<open>The tree when the switches before \<open>(i, j)\<close> have been added.\<close>

definition tree_part :: "nat \<Rightarrow> nat \<Rightarrow> cid \<Rightarrow> 'd store \<Rightarrow> nat \<Rightarrow> nat \<Rightarrow> 'd DSNetwork \<times> 'd store \<Rightarrow> bool" where
  "tree_part n tr c st0 i j = (\<lambda>(dt, st). dt_tree dt = tr \<and> dt_nlevels dt = n \<and> dt_ms_size dt = 2 ^ n \<and> dt_inputConnection dt = Some c
     \<and> (\<forall>a k. k < 2 ^ a \<and> (a < i \<or> a = i \<and> k < j) \<longrightarrow> (\<exists>dw. dt_dswitchtable dt (a, k) = Some dw \<and> switch_ok n tr c a k dw))
     \<and> (\<forall>a k. k < 2 ^ Suc a \<and> (a < i \<or> a = i \<and> k < 2 * j) \<longrightarrow>
          dt_connectiontable dt (a, k) = Some (DSLink tr a k) \<and> link st (DSLink tr a k) [])
     \<and> (\<forall>d. (\<forall>a k. d \<noteq> DSLink tr a k) \<longrightarrow> st d = st0 d))"

lemma DSNetwork_add_switch_ok:
  assumes p: "tree_part n tr c st0 i j (dt, st)" and j: "j < 2 ^ i"
  shows "tree_part n tr c st0 i (Suc j) (DSNetwork_add_switch cfg (i, j) (dt, st))"
proof -
  let ?s = "DSNetwork_add_switch cfg (i, j) (dt, st)"
  have dt: "dt_tree dt = tr" "dt_nlevels dt = n" "dt_ms_size dt = 2 ^ n" "dt_inputConnection dt = Some c"
    and sw: "\<And>a k. k < 2 ^ a \<Longrightarrow> a < i \<or> a = i \<and> k < j \<Longrightarrow> \<exists>dw. dt_dswitchtable dt (a, k) = Some dw \<and> switch_ok n tr c a k dw"
    and co: "\<And>a k. k < 2 ^ Suc a \<Longrightarrow> a < i \<or> a = i \<and> k < 2 * j \<Longrightarrow> dt_connectiontable dt (a, k) = Some (DSLink tr a k)"
    and li: "\<And>a k. k < 2 ^ Suc a \<Longrightarrow> a < i \<or> a = i \<and> k < 2 * j \<Longrightarrow> link st (DSLink tr a k) []"
    and fr: "\<And>d. (\<forall>a k. d \<noteq> DSLink tr a k) \<Longrightarrow> st d = st0 d"
    using p by (auto simp: tree_part_def)
  have inp: "(if i = 0 then dt_inputConnection dt else dt_connectiontable dt (i - 1, j)) = Some (in_link tr c i j)"
    using j co [of j "i - 1"] by (cases i) (simp_all add: dt in_link_def)
  let ?dw = "DSwitch_setRightConnection (Some (DSLink tr i (2 * j + 1))) (DSwitch_setLeftConnection (Some (DSLink tr i (2 * j)))
     (DSwitch_setInputConnection (Some (in_link tr c i j)) (DSwitch_new i j cfg (2 ^ n))))"
  have new: "switch_ok n tr c i j ?dw"
    by (simp add: switch_ok_def DSwitch_new_def DSwitch_setInputConnection_def DSwitch_setLeftConnection_def
        DSwitch_setRightConnection_def in_link_def)
  have s: "?s = (dt\<lparr>dt_dswitchtable := (dt_dswitchtable dt)((i, j) \<mapsto> ?dw),
        dt_connectiontable := (dt_connectiontable dt)((i, 2 * j) \<mapsto> DSLink tr i (2 * j), (i, 2 * j + 1) \<mapsto> DSLink tr i (2 * j + 1))\<rparr>,
      st(DSLink tr i (2 * j) := Connection_new (dt_port_width dt), DSLink tr i (2 * j + 1) := Connection_new (dt_port_width dt)))"
    unfolding DSNetwork_add_switch_def prod.case Let_def inp by (simp add: dt)
  have le: "k < 2 * Suc j \<longleftrightarrow> k < 2 * j \<or> k = 2 * j \<or> k = 2 * j + 1" for k by auto
  show ?thesis
    unfolding s tree_part_def prod.case
  proof (intro conjI allI impI)
    fix a k assume a: "k < 2 ^ a \<and> (a < i \<or> a = i \<and> k < Suc j)"
    show "\<exists>dw. dt_dswitchtable (dt\<lparr>dt_dswitchtable := (dt_dswitchtable dt)((i, j) \<mapsto> ?dw),
        dt_connectiontable := (dt_connectiontable dt)((i, 2 * j) \<mapsto> DSLink tr i (2 * j), (i, 2 * j + 1) \<mapsto> DSLink tr i (2 * j + 1))\<rparr>)
        (a, k) = Some dw \<and> switch_ok n tr c a k dw"
      using new sw [of k a] a by (cases "(a, k) = (i, j)") auto
  qed (use co li fr le in \<open>auto simp: dt\<close>)
qed

lemma DSNetwork_new_ok:
  fixes st :: "'d store"
  assumes n: "2 ^ n < u32_max" and c: "\<forall>i k. c \<noteq> DSLink tr i k" and st: "link st c []"
  shows "\<exists>dt st'. DSNetwork_new tr cfg (2 ^ n) (Some c) st = Inr (dt, st') \<and> tree_ok n c dt \<and> dt_tree dt = tr
     \<and> tree_links n tr c [] 0 0 st' \<and> (\<forall>d. (\<forall>a k. d \<noteq> DSLink tr a k) \<longrightarrow> st' d = st d)"
proof -
  let ?dt0 = "\<lparr>dt_tree = tr, dt_ms_size = 2 ^ n, dt_port_width = dsc_port_width (m_DSwitchCfg cfg),
          dt_nlevels = n, dt_dswitchtable = Map.empty, dt_connectiontable = Map.empty, dt_inputConnection = Some c\<rparr>"
  have level: "j \<le> 2 ^ i \<Longrightarrow> tree_part n tr c st i 0 s \<Longrightarrow>
      tree_part n tr c st i j (fold (DSNetwork_add_switch cfg) (map (Pair i) [0..<j]) s)" for i j s
  proof (induction j)
    case (Suc j)
    obtain dt st1 where s: "fold (DSNetwork_add_switch cfg) (map (Pair i) [0..<j]) s = (dt, st1)" by (rule prod.exhaust)
    have "tree_part n tr c st i j (dt, st1)" using Suc s by simp
    from DSNetwork_add_switch_ok [OF this, of cfg] Suc.prems(1) show ?case by (simp add: s)
  qed simp
  have all: "tree_part n tr c st m 0 (fold (DSNetwork_add_switch cfg) (tree_positions m) (?dt0, st))" for m
  proof (induction m)
    case 0
    then show ?case by (simp add: tree_positions_def tree_part_def)
  next
    case (Suc m)
    let ?s = "fold (DSNetwork_add_switch cfg) (tree_positions m) (?dt0, st)"
    have "tree_positions (Suc m) = tree_positions m @ map (Pair m) [0..<2 ^ m]" by (simp add: tree_positions_def)
    then have "fold (DSNetwork_add_switch cfg) (tree_positions (Suc m)) (?dt0, st)
       = fold (DSNetwork_add_switch cfg) (map (Pair m) [0..<2 ^ m]) ?s" by simp
    moreover have "tree_part n tr c st m (2 ^ m) (fold (DSNetwork_add_switch cfg) (map (Pair m) [0..<2 ^ m]) ?s)"
      by (rule level) (use Suc in simp_all)
    ultimately show ?case by (auto simp: tree_part_def less_Suc_eq)
  qed
  obtain dt st' where s: "fold (DSNetwork_add_switch cfg) (tree_positions n) (?dt0, st) = (dt, st')" by (rule prod.exhaust)
  have t: "tree_part n tr c st n 0 (dt, st')" using all [of n] s by simp
  have new: "DSNetwork_new tr cfg (2 ^ n) (Some c) st = Inr (dt, st')"
    using s ispowerof2_iff [OF n] by (auto simp: DSNetwork_new_def nlevels_of_power)
  have "tree_ok n c dt" using t n c by (auto simp: tree_ok_def tree_part_def)
  moreover have "tree_links n tr c [] 0 0 st'"
  proof -
    have "st' c = st c" using t c by (auto simp: tree_part_def)
    then have "link st' c []" using st unfolding link_def by simp
    moreover have "link st' (DSLink tr a k) []" if "a < n" "k < 2 ^ Suc a" for a k
      using t that by (simp add: tree_part_def)
    moreover have "level_msg n ([] :: 'd DataPackage list) a k = []" for a k by (simp add: level_msg_def)
    ultimately show ?thesis by (auto simp: tree_links_def in_link_def split: nat.splits)
  qed
  ultimately show ?thesis using new t unfolding tree_part_def by blast
qed


section \<open>Properties\<close>

text \<open>The link that feeds multiplier \<open>x\<close> of a tree.\<close>

lemma last_level_connections:
  assumes "tree_ok n c dt"
  shows "DSNetwork_getLastLevelConnections dt = map (\<lambda>x. Some (in_link (dt_tree dt) c n x)) [0..<2 ^ n]"
proof (cases n)
  case 0
  then show ?thesis using assms by (simp add: tree_ok_def DSNetwork_getLastLevelConnections_def in_link_def)
next
  case (Suc m)
  then show ?thesis using assms by (simp add: tree_ok_def DSNetwork_getLastLevelConnections_def in_link_def)
qed

lemma level_msg_leaf:
  "level_msg n ps n x = (if n = 0 then ps else map copy_of (filter (\<lambda>p. addressed p x) ps))"
  by (simp add: level_msg_def reaches_def)

text \<open>
  C11: one cycle of the distribution tree delivers, from the root to the leaves, every package to
  exactly the multipliers it is addressed to, in order: a broadcast to all of them, a unicast to
  its destination, a multicast to the marked ones. Nothing stays behind on a link inside the tree.
  The trees have up to \<open>2 ^ 23\<close> multipliers: in larger ones the middle of a range is no \<open>float\<close> any more.
\<close>

theorem tree_routes:
  assumes n: "n \<le> 23" "0 < n" and c: "\<forall>i k. c \<noteq> DSLink tr i k" and st: "link st c []"
    and ps: "ps \<noteq> []" "\<forall>p \<in> set ps. routable (2 ^ n) p"
  shows "\<exists>dt st1 dt' st'. DSNetwork_new tr cfg (2 ^ n) (Some c) st = Inr (dt, st1)
     \<and> DSNetwork_cycle (dt, st1(c := Connection_send ps (st1 c))) = Inr (dt', st')
     \<and> length (DSNetwork_getLastLevelConnections dt') = 2 ^ n
     \<and> (\<forall>x < 2 ^ n. \<exists>l. DSNetwork_getLastLevelConnections dt' ! x = Some l
          \<and> link st' l (map copy_of (filter (\<lambda>p. addressed p x) ps)))
     \<and> link st' c [] \<and> (\<forall>i k. Suc i < n \<and> k < 2 ^ Suc i \<longrightarrow> link st' (DSLink tr i k) [])"
proof -
  have "(2 :: nat) ^ n \<le> 2 ^ 23" using n(1) by (intro power_increasing) simp_all
  then have "2 ^ n < u32_max" by (simp add: u32_max_def)
  then obtain dt st1 where 1: "DSNetwork_new tr cfg (2 ^ n) (Some c) st = Inr (dt, st1)" "tree_ok n c dt" "dt_tree dt = tr"
    "tree_links n tr c [] 0 0 st1" using DSNetwork_new_ok [OF _ c st] by blast
  let ?st = "st1(c := Connection_send ps (st1 c))"
  have "tree_links n tr c ps 0 0 ?st"
    unfolding tree_links_def
  proof (intro allI impI)
    fix a k :: nat assume a: "a \<le> n" "k < 2 ^ a"
    have l: "link st1 (in_link tr c a k) []"
      using 1(4) a unfolding tree_links_def by (auto simp: level_msg_def split: if_splits)
    show "link ?st (in_link tr c a k) (if a = 0 \<and> 0 \<le> k \<or> a = Suc 0 \<and> k div 2 < 0 then level_msg n ps a k else [])"
    proof (cases a)
      case 0
      then show ?thesis using ps(1) by (simp add: in_link_def level_msg_def)
    next
      case (Suc i)
      then have "c \<noteq> in_link tr c a k" using c by (simp add: in_link_def)
      then show ?thesis using l Suc by simp
    qed
  qed
  then have l: "tree_links n (dt_tree dt) c ps 0 0 ?st" by (simp only: 1(3))
  obtain dt' st' where 2: "DSNetwork_cycle (dt, ?st) = Inr (dt', st')" "tree_ok n c dt'" "dt_tree dt' = tr"
    "tree_links n tr c ps n 0 st'"
    using DSNetwork_cycle_ok [OF 1(2) l ps(2) n(1)] unfolding 1(3) by blast
  note leaf = last_level_connections [OF 2(2), unfolded 2(3)]
  have at: "link st' (in_link tr c a k) (if a = n then level_msg n ps n k else [])" if "a \<le> n" "k < 2 ^ a" for a k
    using 2(4) that unfolding tree_links_def by (auto split: if_splits)
  have "link st' (DSLink tr i k) []" if "Suc i < n" "k < 2 ^ Suc i" for i k
    using at [of "Suc i" k] that by (simp add: in_link_def)
  moreover have "link st' c []" using at [of 0 0] n(2) by (simp add: in_link_def)
  moreover have "\<exists>l. DSNetwork_getLastLevelConnections dt' ! x = Some l \<and> link st' l (map copy_of (filter (\<lambda>p. addressed p x) ps))"
    if "x < 2 ^ n" for x
    using at [of n x] that n(2) by (simp add: leaf level_msg_leaf)
  moreover have "length (DSNetwork_getLastLevelConnections dt') = 2 ^ n" by (simp add: leaf)
  ultimately show ?thesis using 1(1) 2(1) by blast
qed

theorem tree_routes_witness:
  "\<exists>dt st1 dt' st' l. DSNetwork_new 0 Config_reset (2 ^ 2) (Some (DSTop 0)) (\<lambda>_. Connection_new 16) = Inr (dt, st1)
     \<and> DSNetwork_cycle (dt, st1(DSTop 0 := Connection_send
          [DataPackage_traffic 4 (7::int) WEIGHT 0 BROADCAST, (DataPackage_traffic 4 8 IACTIVATION 0 UNICAST)\<lparr>p_unicast_dest := 2\<rparr>,
           DataPackage_multicast 4 9 WEIGHT 0 MULTICAST [True, False, True, False] 4] (st1 (DSTop 0)))) = Inr (dt', st')
     \<and> DSNetwork_getLastLevelConnections dt' ! 2 = Some l \<and> map p_data (flight st' l) = [7, 8, 9]"
proof -
  let ?ps = "[DataPackage_traffic 4 (7::int) WEIGHT 0 BROADCAST, (DataPackage_traffic 4 8 IACTIVATION 0 UNICAST)\<lparr>p_unicast_dest := 2\<rparr>,
           DataPackage_multicast 4 9 WEIGHT 0 MULTICAST [True, False, True, False] 4]"
  let ?st = "\<lambda>_. Connection_new 16 :: int Connection"
  have st: "link ?st (DSTop 0) []"
    by (simp add: link_def Connection_new_def Connection_existPendingData_def in_flight_def2)
  have r: "\<forall>p \<in> set ?ps. routable (2 ^ 2) p"
    by (simp add: routable_def DataPackage_traffic_def DataPackage_multicast_def DataPackage_general_def)
  have d: "map p_data (map copy_of (filter (\<lambda>p. addressed p 2) ?ps)) = [7, 8, 9]"
  proof -
    have "filter (\<lambda>p. addressed p 2) ?ps = ?ps"
      by (simp add: addressed_def DataPackage_traffic_def DataPackage_multicast_def DataPackage_general_def)
    moreover have "\<forall>p \<in> set ?ps. p_data (copy_of p) = p_data p" using r copy_ok(4) [of "2 ^ 2"] by blast
    then have "map p_data (map copy_of ?ps) = map p_data ?ps"
      unfolding map_map comp_def by (intro map_cong [OF refl]) blast
    ultimately show ?thesis
      by (simp add: DataPackage_traffic_def DataPackage_multicast_def DataPackage_general_def)
  qed
  obtain dt st1 dt' st' where 1: "DSNetwork_new 0 Config_reset (2 ^ 2) (Some (DSTop 0)) ?st = Inr (dt, st1)"
    "DSNetwork_cycle (dt, st1(DSTop 0 := Connection_send ?ps (st1 (DSTop 0)))) = Inr (dt', st')"
    "\<forall>x < 2 ^ 2. \<exists>l. DSNetwork_getLastLevelConnections dt' ! x = Some l \<and> link st' l (map copy_of (filter (\<lambda>p. addressed p x) ?ps))"
    using tree_routes [where n = 2 and c = "DSTop 0" and tr = 0 and st = ?st and ps = ?ps and cfg = Config_reset, OF _ _ _ st _ r]
    by (auto simp: u32_max_def)
  have "(2::nat) < 2 ^ 2" by simp
  with 1(3) obtain l where l: "DSNetwork_getLastLevelConnections dt' ! 2 = Some l"
    "link st' l (map copy_of (filter (\<lambda>p. addressed p 2) ?ps))" by blast
  then have "map p_data (flight st' l) = [7, 8, 9]" using d by (simp only: link_flight)
  then show ?thesis
    by (intro exI [of _ dt] exI [of _ st1] exI [of _ dt'] exI [of _ st'] exI [of _ l] conjI 1(1,2) l(1))
qed


text \<open>
  C27: the constructor of a tree refuses, by its assertion, exactly the sizes that are no power of
  two; every other size gives a tree.
\<close>

theorem tree_size_checked:
  assumes "x < u32_max"
  shows "DSNetwork_new tr cfg x c st = Inl AssertFail \<longleftrightarrow> \<not> (\<exists>k. x = 2 ^ k)"
  using ispowerof2_iff [OF assms] by (cases "ispowerof2 x") (auto simp: DSNetwork_new_def)

theorem tree_size_checked_witness:
  "DSNetwork_new 0 Config_reset 6 (Some (DSTop 0)) (\<lambda>_. Connection_new 16) = Inl AssertFail"
proof -
  have "\<not> ispowerof2 6" by (simp add: ispowerof2_def usub_small u32_max_def)
  then have "\<not> (\<exists>k. (6::nat) = 2 ^ k)" using ispowerof2_iff [of 6] by (simp add: u32_max_def)
  then show ?thesis using tree_size_checked [of 6] by (simp add: u32_max_def)
qed

end
