(* ===== verification/Reference.thy ===== *)
theory Reference
  imports Prelude
begin

text \<open>
  The reference implementations the program checks its simulation against: \<open>sequential_layer\<close> and
  \<open>cpu_gemm\<close> of \<^verbatim>\<open>testbench.cpp\<close>. The lemmas state that \<open>sequential_layer\<close> computes the direct
  convolution at every position of the output, for every layer whose arrays have the right sizes
  and whose indices fit 32 bits, and that a matrix product is the special case \<open>1 K 1 N 1 1 M K 1\<close>.
\<close>

section \<open>The reference implementations\<close>

text \<open>One multiply-accumulate of \<open>sequential_layer\<close>.\<close>

definition sequential_mac ::
  "'d::{plus,times} list \<Rightarrow> 'd list \<Rightarrow> nat \<Rightarrow> nat \<Rightarrow> nat \<Rightarrow> 'd list \<Rightarrow> 'd list res" where
  "sequential_mac input filters idx_in idx_f idx_out outputs =
     rbind (rnth input idx_in) (\<lambda>a.
     rbind (rnth filters idx_f) (\<lambda>b.
     rbind (rnth outputs idx_out) (\<lambda>old. rupd outputs idx_out (old + a * b))))"

definition sequential_layer ::
  "nat \<Rightarrow> nat \<Rightarrow> nat \<Rightarrow> nat \<Rightarrow> nat \<Rightarrow> nat \<Rightarrow> nat \<Rightarrow> nat \<Rightarrow> nat
   \<Rightarrow> 'd::{zero,plus,times} list \<Rightarrow> 'd list \<Rightarrow> 'd list \<Rightarrow> 'd list res" where
  "sequential_layer R S C K G N X Y strides input filters outputs =
     rbind (rdiv (uadd (usub X R) strides) strides) (\<lambda>OX.
     rbind (rdiv (uadd (usub Y S) strides) strides) (\<lambda>OY.
     rbind (rdiv K G) (\<lambda>K.
     rbind (rdiv C G) (\<lambda>C.
     let output_size_n = umul (umul (umul G K) OX) OY;
         input_size_n = umul (umul (umul G C) X) Y;
         filter_size = umul (umul R S) C;
         size_oy = umul (umul OY K) G;
         size_y = umul (umul Y G) C in
     rfold (\<lambda>n. rfold (\<lambda>g. rfold (\<lambda>k. rfold (\<lambda>ox. rfold (\<lambda>oy outputs.
       let idx_out = uadd (uadd (uadd (uadd (umul n output_size_n) (umul ox size_oy))
             (umul (umul oy K) G)) (umul g K)) k in
       rbind (rupd outputs idx_out 0)
         (rfold (\<lambda>c. rfold (\<lambda>r. rfold (\<lambda>s. sequential_mac input filters
           (uadd (uadd (uadd (uadd (uadd (uadd (umul n input_size_n) (umul (umul ox strides) size_y))
              (umul (umul (umul oy strides) C) G)) (umul r size_y)) (umul (umul s C) G)) (umul g C)) c)
           (uadd (uadd (uadd (uadd (umul (umul g K) filter_size) (umul k filter_size))
              (umul (umul r S) C)) (umul s C)) c)
           idx_out)
           [0..<S]) [0..<R]) [0..<C]))
       [0..<OY]) [0..<OX]) [0..<K]) [0..<G]) [0..<N] outputs))))"

text \<open>\<open>cpu_gemm\<close>; the second matrix is stored by rows here.\<close>

definition cpu_gemm ::
  "'d::{zero,plus,times} list \<Rightarrow> 'd list \<Rightarrow> 'd list \<Rightarrow> nat \<Rightarrow> nat \<Rightarrow> nat \<Rightarrow> 'd list res" where
  "cpu_gemm MK_dense_matrix KN_dense_matrix out M N K =
     rfold (\<lambda>i. rfold (\<lambda>j out.
       rbind (rfold (\<lambda>k suma.
           rbind (rnth MK_dense_matrix (uadd (umul i K) k)) (\<lambda>a.
           rbind (rnth KN_dense_matrix (uadd (umul k N) j)) (\<lambda>b. Inr (suma + a * b))))
         [0..<K] 0) (\<lambda>suma.
       rupd out (uadd (umul i N) j) suma)) [0..<N]) [0..<M] out"

section \<open>The accumulation loop\<close>

lemma rfold_mac:
  assumes "\<And>p. p \<in> set ps \<Longrightarrow> i p < length input \<and> j p < length filters" and "q < length out"
  shows "rfold (\<lambda>p. sequential_mac input filters (i p) (j p) q) ps out =
    Inr (out[q := foldl (\<lambda>acc p. acc + input ! i p * filters ! j p) (out ! q) ps])"
  using assms by (induction ps arbitrary: out) (simp_all add: sequential_mac_def)


section \<open>The layer\<close>

text \<open>A layer that \<open>sequential_layer\<close> can compute on its arrays: \<open>k\<close> and \<open>c\<close> are per group.\<close>

definition layer_ok ::
  "nat \<Rightarrow> nat \<Rightarrow> nat \<Rightarrow> nat \<Rightarrow> nat \<Rightarrow> nat \<Rightarrow> nat \<Rightarrow> nat \<Rightarrow> nat \<Rightarrow> nat \<Rightarrow> nat \<Rightarrow> 'd list \<Rightarrow> 'd list \<Rightarrow> 'd list \<Rightarrow> bool"
where
  "layer_ok R S c k G N X Y st OX OY input filters outputs \<longleftrightarrow>
     0 < G \<and> 0 < st \<and> R \<le> X \<and> S \<le> Y \<and> X < u32_max \<and> Y < u32_max \<and> X - R + st < u32_max \<and> Y - S + st < u32_max
     \<and> OX = (X - R) div st + 1 \<and> OY = (Y - S) div st + 1
     \<and> length input = N * X * Y * G * c \<and> length filters = G * k * R * S * c \<and> length outputs = N * OX * OY * G * k
     \<and> N * X * Y * G * c < u32_max \<and> G * k * R * S * c < u32_max \<and> N * OX * OY * G * k < u32_max"

definition out_ix :: "nat \<Rightarrow> nat \<Rightarrow> nat \<Rightarrow> nat \<Rightarrow> nat \<times> nat \<times> nat \<times> nat \<times> nat \<Rightarrow> nat" where
  "out_ix k G OX OY = (\<lambda>(n, g, kk, ox, oy). (((n * OX + ox) * OY + oy) * G + g) * k + kk)"

text \<open>The direct convolution at one output: the sum over channels, rows and columns of the filter.\<close>

definition conv_at ::
  "nat \<Rightarrow> nat \<Rightarrow> nat \<Rightarrow> nat \<Rightarrow> nat \<Rightarrow> nat \<Rightarrow> nat \<Rightarrow> nat \<Rightarrow> 'd::{zero,plus,times} list \<Rightarrow> 'd list
   \<Rightarrow> nat \<times> nat \<times> nat \<times> nat \<times> nat \<Rightarrow> 'd" where
  "conv_at R S c k G X Y st input filters = (\<lambda>(n, g, kk, ox, oy).
     foldl (\<lambda>acc (cc, r, s).
         acc + input ! ((((n * X + (ox * st + r)) * Y + (oy * st + s)) * G + g) * c + cc)
             * filters ! ((((g * k + kk) * R + r) * S + s) * c + cc))
       0 (List.product [0..<c] (List.product [0..<R] [0..<S])))"

lemma index_less3: "a < (n::nat) \<Longrightarrow> b < m \<Longrightarrow> c < l \<Longrightarrow> (a * m + b) * l + c < n * m * l"
  by (intro index_less)

lemma radix_inj: "b < (m::nat) \<Longrightarrow> b' < m \<Longrightarrow> a * m + b = a' * m + b' \<longleftrightarrow> a = a' \<and> b = b'"
  by (metis div_mult_self3 mod_mult_self3 div_less mod_less add.commute add_cancel_right_left not_less0 less_nat_zero_code)

lemma out_ix_less:
  "n < N \<Longrightarrow> g < G \<Longrightarrow> kk < k \<Longrightarrow> ox < OX \<Longrightarrow> oy < OY \<Longrightarrow> out_ix k G OX OY (n, g, kk, ox, oy) < N * OX * OY * G * k"
  unfolding out_ix_def prod.case by (intro index_less)

lemma out_ix_inj:
  "inj_on (out_ix k G OX OY) (UNIV \<times> {..<G} \<times> {..<k} \<times> {..<OX} \<times> {..<OY})"
  by (rule inj_onI) (auto simp: out_ix_def radix_inj)


text \<open>The index expressions of the source, which are exact when the index is small.\<close>

lemma index_exprs:
  "uadd (uadd (uadd (uadd (umul n (umul (umul (umul G k) OX) OY)) (umul ox (umul (umul OY k) G)))
      (umul (umul oy k) G)) (umul g k)) kk = out_ix k G OX OY (n, g, kk, ox, oy) mod u32_max"
  "uadd (uadd (uadd (uadd (uadd (uadd (umul n (umul (umul (umul G c) X) Y)) (umul (umul ox st) (umul (umul Y G) c)))
      (umul (umul (umul oy st) c) G)) (umul r (umul (umul Y G) c))) (umul (umul s c) G)) (umul g c)) cc
     = ((((n * X + (ox * st + r)) * Y + (oy * st + s)) * G + g) * c + cc) mod u32_max"
  "uadd (uadd (uadd (uadd (umul (umul g k) (umul (umul R S) c)) (umul k' (umul (umul R S) c)))
      (umul (umul r S) c)) (umul s c)) cc = ((((g * k + k') * R + r) * S + s) * c + cc) mod u32_max"
  by (simp_all only: uadd_def umul_def mod_simps out_ix_def prod.case) (simp_all add: algebra_simps)

lemma window_less: "o' < (X - R) div st + 1 \<Longrightarrow> R \<le> X \<Longrightarrow> r < R \<Longrightarrow> 0 < st \<Longrightarrow> o' * st + r < (X::nat)"
proof -
  assume a: "o' < (X - R) div st + 1" "R \<le> X" "r < R" "0 < st"
  then have "o' * st \<le> (X - R) div st * st" by simp
  also have "\<dots> \<le> X - R" by (simp add: div_times_less_eq_dividend)
  finally show ?thesis using a by linarith
qed

lemma sequential_layer_ok:
  fixes input :: "'d::{zero,plus,times} list"
  assumes ok: "layer_ok R S c k G N X Y st OX OY input filters outputs"
  shows "\<exists>out'. sequential_layer R S (G * c) (G * k) G N X Y st input filters outputs = Inr out'
    \<and> length out' = length outputs
    \<and> (\<forall>n < N. \<forall>g < G. \<forall>kk < k. \<forall>ox < OX. \<forall>oy < OY.
         out' ! out_ix k G OX OY (n, g, kk, ox, oy) = conv_at R S c k G X Y st input filters (n, g, kk, ox, oy))"
proof -
  have q: "0 < G" "0 < st" "R \<le> X" "S \<le> Y" "X < u32_max" "Y < u32_max" "X - R + st < u32_max" "Y - S + st < u32_max"
    "OX = (X - R) div st + 1" "OY = (Y - S) div st + 1" "length input = N * X * Y * G * c"
    "length filters = G * k * R * S * c" "length outputs = N * OX * OY * G * k"
    "N * X * Y * G * c < u32_max" "G * k * R * S * c < u32_max" "N * OX * OY * G * k < u32_max"
    using ok unfolding layer_ok_def by blast+
  note q = q(1-4,9-16) and small = q(5-8)
  have dims: "rdiv (uadd (usub X R) st) st = Inr OX" "rdiv (uadd (usub Y S) st) st = Inr OY"
    "rdiv (G * k) G = Inr k" "rdiv (G * c) G = Inr c"
  proof -
    have "(X - R + st) div st = OX" "(Y - S + st) div st = OY"
      using q(2,5,6) by (simp_all only: div_add_self2)
    moreover have "uadd (usub X R) st = X - R + st" "uadd (usub Y S) st = Y - S + st"
      using q(3,4) small by (simp_all only: usub_small uadd_small)
    ultimately show "rdiv (uadd (usub X R) st) st = Inr OX" "rdiv (uadd (usub Y S) st) st = Inr OY"
      using q(2) by (simp_all only: rdiv_Inr)
  qed (use q(1) in simp_all)
  let ?in = "\<lambda>n ox oy g (cc, r, s). (((n * X + (ox * st + r)) * Y + (oy * st + s)) * G + g) * c + cc"
  let ?fi = "\<lambda>g kk (cc, r, s). (((g * k + kk) * R + r) * S + s) * c + cc"
  let ?P = "List.product [0..<N] (List.product [0..<G] (List.product [0..<k] (List.product [0..<OX] [0..<OY])))"
  let ?Q = "List.product [0..<c] (List.product [0..<R] [0..<S])"
  define body where "body = (\<lambda>n g kk ox oy outputs. rbind (rupd outputs (out_ix k G OX OY (n, g, kk, ox, oy) mod u32_max) 0)
         (rfold (\<lambda>c'. rfold (\<lambda>r. rfold (\<lambda>s. sequential_mac input filters (?in n ox oy g (c', r, s) mod u32_max)
            (?fi g kk (c', r, s) mod u32_max) (out_ix k G OX OY (n, g, kk, ox, oy) mod u32_max)) [0..<S]) [0..<R]) [0..<c]))"
  have unfold: "sequential_layer R S (G * c) (G * k) G N X Y st input filters outputs =
     rfold (\<lambda>(n, g, kk, ox, oy). body n g kk ox oy) ?P outputs"
    unfolding sequential_layer_def dims rbind_Inr Let_def index_exprs prod.case
    unfolding body_def rfold_product prod.case ..
  have step: "(case p of (n, g, kk, ox, oy) \<Rightarrow> body n g kk ox oy) out =
      Inr (out[out_ix k G OX OY p := conv_at R S c k G X Y st input filters p])"
    if p: "p \<in> set ?P" and len: "length out = N * OX * OY * G * k" for p out
  proof -
    obtain n g kk ox oy where pp: "p = (n, g, kk, ox, oy)" by (cases p) auto
    then have lt: "n < N" "g < G" "kk < k" "ox < OX" "oy < OY" using p by auto
    have o': "out_ix k G OX OY p < N * OX * OY * G * k" unfolding pp by (rule out_ix_less [OF lt])
    have mac: "?in n ox oy g q' < length input \<and> ?fi g kk q' < length filters" if q': "q' \<in> set ?Q" for q'
    proof -
      obtain cc r s where qq: "q' = (cc, r, s)" by (cases q') auto
      then have l: "cc < c" "r < R" "s < S" using q' by auto
      have "ox * st + r < X" "oy * st + s < Y" using window_less lt l q(2-4,5,6) by simp_all
      then have "?in n ox oy g q' < N * X * Y * G * c" unfolding qq prod.case using lt l by (intro index_less)
      moreover have "?fi g kk q' < G * k * R * S * c" unfolding qq prod.case using lt l by (intro index_less)
      ultimately show ?thesis using q(7,8) by simp
    qed
    have small: "out_ix k G OX OY p mod u32_max = out_ix k G OX OY p" using o' q(12) by simp
    let ?o = "out_ix k G OX OY p"
    have "(case p of (n, g, kk, ox, oy) \<Rightarrow> body n g kk ox oy) out =
       rfold (\<lambda>q'. sequential_mac input filters (?in n ox oy g q' mod u32_max) (?fi g kk q' mod u32_max) ?o) ?Q (out[?o := 0])"
      using o' len small unfolding pp prod.case body_def rfold_product by (simp add: case_prod_beta')
    also have "\<dots> = Inr ((out[?o := 0])[?o := foldl (\<lambda>acc p. acc + input ! (?in n ox oy g p mod u32_max) * filters ! (?fi g kk p mod u32_max))
        ((out[?o := 0]) ! ?o) ?Q])"
    proof (rule rfold_mac)
      fix q' assume "q' \<in> set ?Q"
      from mac [OF this] show "?in n ox oy g q' mod u32_max < length input \<and> ?fi g kk q' mod u32_max < length filters"
        using q(7,8,10,11) by simp
    qed (use o' len in simp)
    also have "foldl (\<lambda>acc p. acc + input ! (?in n ox oy g p mod u32_max) * filters ! (?fi g kk p mod u32_max))
        ((out[?o := 0]) ! ?o) ?Q = conv_at R S c k G X Y st input filters p"
    proof -
      have "?in n ox oy g q' mod u32_max = ?in n ox oy g q'" "?fi g kk q' mod u32_max = ?fi g kk q'"
        if "q' \<in> set ?Q" for q' using mac [OF that] q(7,8,10,11) by simp_all
      then have "foldl (\<lambda>acc p. acc + input ! (?in n ox oy g p mod u32_max) * filters ! (?fi g kk p mod u32_max)) a ?Q
         = foldl (\<lambda>acc p. acc + input ! (?in n ox oy g p) * filters ! (?fi g kk p)) a ?Q" for a
        by (intro foldl_cong) simp_all
      then show ?thesis using o' len by (simp add: conv_at_def pp case_prod_beta')
    qed
    finally show ?thesis by simp
  qed
  have "\<exists>out'. rfold (\<lambda>(n, g, kk, ox, oy). body n g kk ox oy) ?P outputs = Inr out' \<and> length out' = N * OX * OY * G * k
     \<and> (\<forall>p \<in> set ?P. out' ! out_ix k G OX OY p = conv_at R S c k G X Y st input filters p)
     \<and> (\<forall>i. i \<notin> out_ix k G OX OY ` set ?P \<longrightarrow> out' ! i = outputs ! i)"
  proof (rule rfold_writes)
    show "(case p of (n, g, kk, ox, oy) \<Rightarrow> body n g kk ox oy) out =
      Inr (out[out_ix k G OX OY p := conv_at R S c k G X Y st input filters p])"
      if "p \<in> set ?P" "length out = N * OX * OY * G * k" for p out using step that .
    show "out_ix k G OX OY p < N * OX * OY * G * k" if "p \<in> set ?P" for p
    proof -
      obtain n g kk ox oy where "p = (n, g, kk, ox, oy)" by (cases p)
      with that show ?thesis by (auto intro: out_ix_less)
    qed
    show "inj_on (out_ix k G OX OY) (set ?P)" by (rule inj_on_subset [OF out_ix_inj]) auto
    show "distinct ?P" by (simp add: distinct_product)
  qed (use q(9) in simp)
  then show ?thesis unfolding unfold q(9) by fastforce
qed


text \<open>The matrix product as a layer, and \<open>cpu_gemm\<close> on the transposed second matrix.\<close>

definition gemm_at :: "nat \<Rightarrow> 'd::{zero,plus,times} list \<Rightarrow> 'd list \<Rightarrow> nat \<Rightarrow> nat \<Rightarrow> 'd" where
  "gemm_at K MK KN m n = foldl (\<lambda>acc k. acc + MK ! (m * K + k) * KN ! (n * K + k)) 0 [0..<K]"

lemma sequential_gemm:
  fixes MK :: "'d::{zero,plus,times} list"
  assumes pos: "0 < M" and len: "length MK = M * K" "length KN = N * K" "length out = M * N"
    and small: "M * K < u32_max" "N * K < u32_max" "M * N < u32_max" "M < u32_max" "K < u32_max"
  shows "\<exists>out'. sequential_layer 1 K 1 N 1 1 M K 1 MK KN out = Inr out' \<and> length out' = M * N
    \<and> (\<forall>m < M. \<forall>n < N. out' ! (m * N + n) = gemm_at K MK KN m n)"
proof -
  have "layer_ok 1 K 1 N 1 1 M K 1 M 1 MK KN out"
    using assms by (simp add: layer_ok_def)
  from sequential_layer_ok [OF this] obtain out' where 1: "sequential_layer 1 K 1 N 1 1 M K 1 MK KN out = Inr out'"
    "length out' = M * N"
    "\<forall>n < 1. \<forall>g < 1. \<forall>kk < N. \<forall>ox < M. \<forall>oy < 1.
         out' ! out_ix N 1 M 1 (n, g, kk, ox, oy) = conv_at 1 K 1 N 1 M K 1 MK KN (n, g, kk, ox, oy)"
    using len by auto
  have "out' ! (m * N + n) = gemm_at K MK KN m n" if "m < M" "n < N" for m n
  proof -
    have "out' ! out_ix N 1 M 1 (0, 0, n, m, 0) = conv_at 1 K 1 N 1 M K 1 MK KN (0, 0, n, m, 0)"
      using 1(3) that by simp
    moreover have "conv_at 1 K 1 N 1 M K 1 MK KN (0, 0, n, m, 0) = gemm_at K MK KN m n"
      by (simp add: conv_at_def gemm_at_def foldl_map)
    ultimately show ?thesis by (simp add: out_ix_def)
  qed
  with 1(1,2) show ?thesis by blast
qed

lemma cpu_gemm_ok:
  fixes MK :: "'d::{zero,plus,times} list"
  assumes len: "length MK = M * K" "length KN = K * N" "length out = M * N"
    and small: "M * K < u32_max" "K * N < u32_max" "M * N < u32_max"
  shows "\<exists>out'. cpu_gemm MK KN out M N K = Inr out' \<and> length out' = M * N
    \<and> (\<forall>m < M. \<forall>n < N. out' ! (m * N + n) = foldl (\<lambda>acc k. acc + MK ! (m * K + k) * KN ! (k * N + n)) 0 [0..<K])"
proof -
  have inner: "rfold (\<lambda>k suma. rbind (rnth MK (uadd (umul i K) k)) (\<lambda>a.
           rbind (rnth KN (uadd (umul k N) j)) (\<lambda>b. Inr (suma + a * b)))) ks s0
     = Inr (foldl (\<lambda>acc k. acc + MK ! (i * K + k) * KN ! (k * N + j)) s0 ks)"
    if "i < M" "j < N" "set ks \<subseteq> {..<K}" for i j s0 ks
    using that(3)
  proof (induction ks arbitrary: s0)
    case (Cons k ks)
    then have "i * K + k < M * K" "k * N + j < K * N" using that index_less by simp_all
    moreover have "uadd (umul i K) k = (i * K + k) mod u32_max" "uadd (umul k N) j = (k * N + j) mod u32_max"
      by (simp_all add: uadd_def umul_def mod_simps)
    ultimately show ?case using Cons small len by simp
  qed simp
  let ?P = "List.product [0..<M] [0..<N]" and ?pos = "\<lambda>(i, j). i * N + j"
  let ?val = "\<lambda>(i, j). foldl (\<lambda>acc k. acc + MK ! (i * K + k) * KN ! (k * N + j)) 0 [0..<K]"
  define body where "body = (\<lambda>i j out. rbind (rfold (\<lambda>k suma. rbind (rnth MK (uadd (umul i K) k)) (\<lambda>a.
           rbind (rnth KN (uadd (umul k N) j)) (\<lambda>b. Inr (suma + a * b)))) [0..<K] 0) (\<lambda>suma.
       rupd out (uadd (umul i N) j) suma))"
  have "\<exists>out'. rfold (\<lambda>(i, j). body i j) ?P out = Inr out' \<and> length out' = M * N
     \<and> (\<forall>p \<in> set ?P. out' ! ?pos p = ?val p) \<and> (\<forall>i. i \<notin> ?pos ` set ?P \<longrightarrow> out' ! i = out ! i)"
  proof (rule rfold_writes)
    fix p and out :: "'d list" assume p: "p \<in> set ?P" and l: "length out = M * N"
    obtain i j where ij: "p = (i, j)" "i < M" "j < N" using p by auto
    have lt: "i * N + j < M * N" using index_less ij by simp
    moreover have "uadd (umul i N) j = (i * N + j) mod u32_max" by (simp add: uadd_def umul_def mod_simps)
    ultimately have "uadd (umul i N) j = i * N + j" using small by simp
    moreover have "rfold (\<lambda>k suma. rbind (rnth MK (uadd (umul i K) k)) (\<lambda>a.
           rbind (rnth KN (uadd (umul k N) j)) (\<lambda>b. Inr (suma + a * b)))) [0..<K] 0 = Inr (?val (i, j))"
      using inner [OF ij(2,3), of "[0..<K]" 0] by (simp add: atLeast0LessThan)
    ultimately show "(case p of (i, j) \<Rightarrow> body i j) out = Inr (out[?pos p := ?val p])"
      using lt l by (simp add: ij(1) body_def)
  next
    show "?pos p < M * N" if "p \<in> set ?P" for p using that index_less by auto
    show "inj_on ?pos (set ?P)" by (rule inj_onI) (auto simp: radix_inj)
    show "distinct ?P" by (simp add: distinct_product)
  qed (use len in simp)
  moreover have "cpu_gemm MK KN out M N K = rfold (\<lambda>(i, j). body i j) ?P out"
    unfolding cpu_gemm_def body_def rfold_product ..
  ultimately show ?thesis by fastforce
qed

section \<open>Properties\<close>

text \<open>
  C17: the reference implementation computes the layer. For every grouped, strided convolution whose
  arrays have the right sizes, \<open>sequential_layer\<close> returns an output whose element for batch \<open>n\<close>,
  position \<open>(ox, oy)\<close> and filter \<open>kk\<close> of group \<open>g\<close> is the sum, from zero and in the order of the
  channels of the group and of the positions of the filter, of the products of the input under the filter and the
  weights, whatever the output array held before. The order is part of the statement, so that it holds for
  any addition and multiplication.
\<close>

theorem sequential_layer_convolves:
  fixes input :: "'d::{zero,plus,times} list"
  assumes "layer_ok R S c k G N X Y st OX OY input filters outputs"
  shows "\<exists>out'. sequential_layer R S (G * c) (G * k) G N X Y st input filters outputs = Inr out' \<and> length out' = N * OX * OY * G * k
    \<and> (\<forall>n < N. \<forall>ox < OX. \<forall>oy < OY. \<forall>g < G. \<forall>kk < k. out' ! ((((n * OX + ox) * OY + oy) * G + g) * k + kk) =
       foldl (\<lambda>acc (cc, r, s).
           acc + input ! ((((n * X + (ox * st + r)) * Y + (oy * st + s)) * G + g) * c + cc)
               * filters ! ((((g * k + kk) * R + r) * S + s) * c + cc))
         0 (List.product [0..<c] (List.product [0..<R] [0..<S])))"
proof -
  obtain out' where o: "sequential_layer R S (G * c) (G * k) G N X Y st input filters outputs = Inr out'"
    "length out' = length outputs" "\<forall>n < N. \<forall>g < G. \<forall>kk < k. \<forall>ox < OX. \<forall>oy < OY.
         out' ! out_ix k G OX OY (n, g, kk, ox, oy) = conv_at R S c k G X Y st input filters (n, g, kk, ox, oy)"
    using sequential_layer_ok [OF assms] by blast
  have "length outputs = N * OX * OY * G * k" using assms by (simp add: layer_ok_def)
  with o show ?thesis unfolding conv_at_def out_ix_def prod.case by (intro exI [of _ out']) simp
qed

theorem sequential_layer_convolves_witness:
  "\<exists>out'. sequential_layer 2 1 1 1 1 1 3 2 1 [1, 2, 3, 4, 5, 6] [10, 1] [0, 0, 0, 0 :: int] = Inr out' \<and> out' ! 3 = 46"
proof -
  have "layer_ok 2 1 1 1 1 1 3 2 1 2 2 [1, 2, 3, 4, 5, 6] [10, 1] [0, 0, 0, 0 :: int]"
    by (simp add: layer_ok_def u32_max_def)
  from sequential_layer_convolves [OF this] obtain out' where
    o: "sequential_layer 2 1 (1 * 1) (1 * 1) 1 1 3 2 1 [1, 2, 3, 4, 5, 6] [10, 1] [0, 0, 0, 0 :: int] = Inr out'"
    and e: "\<forall>n < 1. \<forall>ox < 2. \<forall>oy < 2. \<forall>g < 1. \<forall>kk < 1. out' ! ((((n * 2 + ox) * 2 + oy) * 1 + g) * 1 + kk) =
       foldl (\<lambda>acc (cc, r, s). acc + [1, 2, 3, 4, 5, 6::int] ! ((((n * 3 + (ox * 1 + r)) * 2 + (oy * 1 + s)) * 1 + g) * 1 + cc)
         * [10, 1] ! ((((g * 1 + kk) * 2 + r) * 1 + s) * 1 + cc)) 0 (List.product [0..<1] (List.product [0..<2] [0..<1]))"
    by (elim exE conjE) (rule that)
  have "out' ! 3 = 46" using e [rule_format, of 0 1 1 0 0] by (simp add: eval_nat_numeral)
  with o show ?thesis by simp
qed

text \<open>
  C18: the two reference implementations agree: \<open>cpu_gemm\<close> on a second matrix stored by rows and
  \<open>sequential_layer\<close> on the same matrix stored by columns return the same output, for any addition
  and multiplication.
\<close>

theorem references_agree:
  fixes MK :: "'d::{zero,plus,times} list"
  assumes len: "length MK = M * K" "length rows = K * N" "length cols = N * K" "length out = M * N" "length out' = M * N"
    and pos: "0 < M" and small: "M * K < u32_max" "N * K < u32_max" "M * N < u32_max" "M < u32_max" "K < u32_max"
    and transposed: "\<forall>k < K. \<forall>n < N. rows ! (k * N + n) = cols ! (n * K + k)"
  shows "cpu_gemm MK rows out M N K = sequential_layer 1 K 1 N 1 1 M K 1 MK cols out'"
proof -
  have kn: "K * N < u32_max" using small(2) by (simp add: mult.commute)
  obtain a where a: "cpu_gemm MK rows out M N K = Inr a" "length a = M * N"
    "\<forall>m < M. \<forall>n < N. a ! (m * N + n) = foldl (\<lambda>acc k. acc + MK ! (m * K + k) * rows ! (k * N + n)) 0 [0..<K]"
    using cpu_gemm_ok [OF len(1,2,4) small(1) kn small(3)] by blast
  obtain b where b: "sequential_layer 1 K 1 N 1 1 M K 1 MK cols out' = Inr b" "length b = M * N"
    "\<forall>m < M. \<forall>n < N. b ! (m * N + n) = gemm_at K MK cols m n"
    using sequential_gemm [OF pos len(1,3,5) small] by blast
  have "a = b"
  proof (rule nth_equalityI)
    fix i assume "i < length a"
    then have i: "i < M * N" using a(2) by simp
    then have N: "0 < N" by (cases N) auto
    have mn: "i div N < M" "i mod N < N" using i N by (simp_all add: less_mult_imp_div_less)
    have "foldl (\<lambda>acc k. acc + MK ! (i div N * K + k) * rows ! (k * N + i mod N)) 0 [0..<K] = gemm_at K MK cols (i div N) (i mod N)"
      unfolding gemm_at_def by (rule foldl_cong) (use transposed mn in simp_all)
    then have "a ! (i div N * N + i mod N) = b ! (i div N * N + i mod N)"
      using a(3) [rule_format, OF mn] b(3) [rule_format, OF mn] by (simp only:)
    then show "a ! i = b ! i" by simp
  qed (use a b in simp)
  with a b show ?thesis by simp
qed

theorem references_agree_witness:
  "cpu_gemm [1, 2, 3, 4] [5, 6, 7, 8] [0, 0, 0, 0 :: int] 2 2 2
     = sequential_layer 1 2 1 2 1 1 2 2 1 [1, 2, 3, 4] [5, 7, 6, 8] [9, 9, 9, 9]"
proof -
  have t: "\<forall>k < 2. \<forall>n < 2. [5, 6, 7, 8 :: int] ! (k * 2 + n) = [5, 7, 6, 8] ! (n * 2 + k)"
  proof (intro allI impI)
    fix k n :: nat
    assume "k < 2" "n < 2"
    then have "k = 0 \<or> k = 1" "n = 0 \<or> n = 1" by auto
    then show "[5, 6, 7, 8 :: int] ! (k * 2 + n) = [5, 7, 6, 8] ! (n * 2 + k)" by auto
  qed
  show ?thesis by (rule references_agree [OF _ _ _ _ _ _ _ _ _ _ _ t]) (simp_all add: u32_max_def)
qed

end
