(* ===== verification/Sparse.thy ===== *)
theory Sparse
  imports Types
begin

text \<open>
  The matrix routines of \<^verbatim>\<open>utility.cpp\<close> that the sparse front end uses: bitmaps and compressed
  rows or columns from a dense matrix, and the ordering of the rows or columns by their number of
  non-zero elements with its application and its inverse. Matrices are row-major arrays.

  The lemmas state that the compressed formats represent the dense matrix, that reordering and
  ordering back is the identity, that the ordering is a permutation and its greedy loop ends.
\<close>

section \<open>Compressed formats\<close>

text \<open>\<open>i * cols + j\<close> on \<open>unsigned int\<close>, and the indices of row or column number \<open>l\<close>, in order.\<close>

definition mat_ix :: "nat \<Rightarrow> nat \<Rightarrow> nat \<Rightarrow> nat" where
  "mat_ix cols i j = uadd (umul i cols) j"

definition line_ix :: "GENERATION_TYPE \<Rightarrow> nat \<Rightarrow> nat \<Rightarrow> nat \<Rightarrow> nat" where
  "line_ix gen_type cols l x = (case gen_type of GEN_BY_ROWS \<Rightarrow> mat_ix cols l x | GEN_BY_COLS \<Rightarrow> mat_ix cols x l)"

text \<open>The two nested loops over a matrix, by rows or by columns: outer bound, inner bound.\<close>

definition n_lines :: "GENERATION_TYPE \<Rightarrow> nat \<Rightarrow> nat \<Rightarrow> nat" where
  "n_lines gen_type rows cols = (case gen_type of GEN_BY_ROWS \<Rightarrow> rows | GEN_BY_COLS \<Rightarrow> cols)"

definition line_length :: "GENERATION_TYPE \<Rightarrow> nat \<Rightarrow> nat \<Rightarrow> nat" where
  "line_length gen_type rows cols = (case gen_type of GEN_BY_ROWS \<Rightarrow> cols | GEN_BY_COLS \<Rightarrow> rows)"

text \<open>
  \<open>generateBitMapFromDense\<close>, one line: a bit per element, then at most three more bits so that
  the line has three.
\<close>

definition bitmap_mark :: "'d::zero list \<Rightarrow> nat \<Rightarrow> nat list \<times> nat \<Rightarrow> (nat list \<times> nat) res" where
  "bitmap_mark dense i = (\<lambda>(bitMap, non_zeros).
     rbind (rnth dense i) (\<lambda>v.
     if v \<noteq> 0 then rbind (rupd bitMap i 1) (\<lambda>bitMap. Inr (bitMap, non_zeros + 1))
     else rbind (rupd bitMap i 0) (\<lambda>bitMap. Inr (bitMap, non_zeros))))"

definition bitmap_pad :: "nat \<Rightarrow> nat list \<times> nat \<Rightarrow> (nat list \<times> nat) res" where
  "bitmap_pad i = (\<lambda>(bitMap, non_zeros).
     if non_zeros < 3 then
       rbind (rnth bitMap i) (\<lambda>b.
       if b = 0 then rbind (rupd bitMap i 1) (\<lambda>bitMap. Inr (bitMap, non_zeros + 1))
       else Inr (bitMap, non_zeros))
     else Inr (bitMap, non_zeros))"

definition bitmap_line :: "'d::zero list \<Rightarrow> (nat \<Rightarrow> nat) \<Rightarrow> nat \<Rightarrow> nat list \<Rightarrow> nat list res" where
  "bitmap_line dense ix n bitMap =
     rbind (rfold (\<lambda>x. bitmap_mark dense (ix x)) [0..<n] (bitMap, 0)) (\<lambda>s.
     rbind (rfold (\<lambda>x. bitmap_pad (ix x)) [0..<3] s) (\<lambda>(bitMap, non_zeros). Inr bitMap))"

definition generateBitMapFromDense :: "'d::zero list \<Rightarrow> nat \<Rightarrow> nat \<Rightarrow> GENERATION_TYPE \<Rightarrow> nat list res" where
  "generateBitMapFromDense dense rows cols gen_type =
     rfold (\<lambda>l. bitmap_line dense (line_ix gen_type cols l) (line_length gen_type rows cols))
       [0..<n_lines gen_type rows cols] (replicate (umul rows cols) uninit)"

text \<open>
  A loop \<open>for(int x = 0; x < n; x++)\<close>: \<open>n\<close> is unsigned, the counter is not. The results are copied by
  such a loop, too.
\<close>

definition int_loop :: "nat \<Rightarrow> (nat \<Rightarrow> 's \<Rightarrow> 's res) \<Rightarrow> 's \<Rightarrow> 's res" where
  "int_loop n f = rfold (\<lambda>x s. rbind (f x s) (\<lambda>s. rbind (iinc x) (\<lambda>_. Inr s))) [0..<n]"

definition copy_elements :: "'a list \<Rightarrow> 'a list res" where
  "copy_elements elements = (if length elements < 2 ^ 31 then Inr elements else Inl IntOverflow)"

text \<open>\<open>generateMatrixSparseFromDenseNoBitmap\<close>: an empty line gives a zero.\<close>

definition values_line :: "'d::zero list \<Rightarrow> (nat \<Rightarrow> nat) \<Rightarrow> nat \<Rightarrow> 'd list \<Rightarrow> 'd list res" where
  "values_line dense ix n elements =
     rbind (int_loop n (\<lambda>x (elements, non_zeros). rbind (rnth dense (ix x)) (\<lambda>v.
         if v \<noteq> 0 then rbind (iinc non_zeros) (\<lambda>k. Inr (elements @ [v], k)) else Inr (elements, non_zeros)))
       (elements, 0)) (\<lambda>(elements, non_zeros).
     Inr (if non_zeros = 0 then elements @ [0] else elements))"

definition generateMatrixSparseFromDenseNoBitmap :: "'d::zero list \<Rightarrow> nat \<Rightarrow> nat \<Rightarrow> GENERATION_TYPE \<Rightarrow> 'd list res" where
  "generateMatrixSparseFromDenseNoBitmap dense rows cols gen_type =
     rbind (int_loop (n_lines gen_type rows cols)
       (\<lambda>l. values_line dense (line_ix gen_type cols l) (line_length gen_type rows cols)) [])
       copy_elements"

definition generateMatrixSparseFromDense ::
  "'d list \<Rightarrow> nat list \<Rightarrow> nat \<Rightarrow> nat \<Rightarrow> GENERATION_TYPE \<Rightarrow> 'd list res" where
  "generateMatrixSparseFromDense dense bitmap rows cols gen_type =
     rfold (\<lambda>l. rfold (\<lambda>x elements.
         rbind (rnth bitmap (line_ix gen_type cols l x)) (\<lambda>b.
         if b \<noteq> 0 then rbind (rnth dense (line_ix gen_type cols l x)) (\<lambda>v. Inr (elements @ [v]))
         else Inr elements)) [0..<line_length gen_type rows cols])
       [0..<n_lines gen_type rows cols] []"

text \<open>\<open>generateMinorIDFromDense\<close>: the position in the line of every element, and their number.\<close>

definition minor_line :: "'d::zero list \<Rightarrow> (nat \<Rightarrow> nat) \<Rightarrow> nat \<Rightarrow> nat list \<Rightarrow> nat list res" where
  "minor_line dense ix n elements =
     rbind (int_loop n (\<lambda>x (elements, non_zeros). rbind (rnth dense (ix x)) (\<lambda>v.
         if v \<noteq> 0 then rbind (iinc non_zeros) (\<lambda>k. Inr (elements @ [x], k)) else Inr (elements, non_zeros)))
       (elements, 0)) (\<lambda>(elements, non_zeros).
     Inr (if non_zeros = 0 then elements @ [0] else elements))"

definition generateMinorIDFromDense ::
  "'d::zero list \<Rightarrow> nat \<Rightarrow> nat \<Rightarrow> GENERATION_TYPE \<Rightarrow> (nat list \<times> nat) res" where
  "generateMinorIDFromDense dense rows cols gen_type =
     rbind (int_loop (n_lines gen_type rows cols)
       (\<lambda>l. minor_line dense (line_ix gen_type cols l) (line_length gen_type rows cols)) [])
       (\<lambda>elements. rbind (copy_elements elements) (\<lambda>minor_id. Inr (minor_id, length elements)))"

text \<open>\<open>generateMajorPointerFromDense\<close>: where each line starts, and the end of the last.\<close>

definition pointer_line :: "'d::zero list \<Rightarrow> (nat \<Rightarrow> nat) \<Rightarrow> nat \<Rightarrow> nat list \<times> nat \<Rightarrow> (nat list \<times> nat) res" where
  "pointer_line dense ix n = (\<lambda>(elements, nnzp).
     rbind (int_loop n (\<lambda>x (elements, nnzp, flag). rbind (rnth dense (ix x)) (\<lambda>v.
         if v \<noteq> 0 then rbind (iinc nnzp) (\<lambda>k. Inr (if flag then elements else elements @ [nnzp], k, True))
         else Inr (elements, nnzp, flag)))
       (elements, nnzp, False)) (\<lambda>(elements, nnzp, flag).
     if flag then Inr (elements, nnzp) else rbind (iinc nnzp) (\<lambda>k. Inr (elements @ [nnzp], k))))"

definition generateMajorPointerFromDense :: "'d::zero list \<Rightarrow> nat \<Rightarrow> nat \<Rightarrow> GENERATION_TYPE \<Rightarrow> nat list res" where
  "generateMajorPointerFromDense dense rows cols gen_type =
     rbind (int_loop (n_lines gen_type rows cols)
       (\<lambda>l. pointer_line dense (line_ix gen_type cols l) (line_length gen_type rows cols)) ([], 0))
       (\<lambda>(elements, nnzp). copy_elements (elements @ [nnzp]))"

section \<open>Reordering\<close>

text \<open>The copy of the first \<open>rows * cols\<close> elements that both routines start with.\<close>

definition copy_matrix :: "'d list \<Rightarrow> nat \<Rightarrow> 'd list res" where
  "copy_matrix matrix n = (if n \<le> length matrix then Inr (take n matrix) else Inl OutOfBounds)"

definition organizeMatrix ::
  "'d list \<Rightarrow> nat \<Rightarrow> nat \<Rightarrow> nat list \<Rightarrow> GENERATION_TYPE \<Rightarrow> 'd list res" where
  "organizeMatrix matrix rows cols pointer_table gen_type =
     rbind (copy_matrix matrix (umul rows cols)) (\<lambda>matrix_copy.
     rfold (\<lambda>l matrix_new. rbind (rnth pointer_table l) (\<lambda>cluster_src.
         rfold (\<lambda>x matrix_new. rbind (rnth matrix_copy (line_ix gen_type cols cluster_src x))
             (rupd matrix_new (line_ix gen_type cols l x)))
           [0..<line_length gen_type rows cols] matrix_new))
       [0..<n_lines gen_type rows cols] matrix)"

definition organizeMatrixBack ::
  "'d list \<Rightarrow> nat \<Rightarrow> nat \<Rightarrow> nat list \<Rightarrow> GENERATION_TYPE \<Rightarrow> 'd list res" where
  "organizeMatrixBack matrix rows cols pointer_table gen_type =
     rbind (copy_matrix matrix (umul rows cols)) (\<lambda>matrix_copy.
     rfold (\<lambda>l matrix_new. rbind (rnth pointer_table l) (\<lambda>cluster_dst.
         rfold (\<lambda>x matrix_new. rbind (rnth matrix_copy (line_ix gen_type cols l x))
             (rupd matrix_new (line_ix gen_type cols cluster_dst x)))
           [0..<line_length gen_type rows cols] matrix_new))
       [0..<n_lines gen_type rows cols] matrix)"

section \<open>The ordering\<close>

text \<open>The number of non-zero elements of a line, at least three.\<close>

definition cluster_size :: "'d::zero list \<Rightarrow> (nat \<Rightarrow> nat) \<Rightarrow> nat \<Rightarrow> nat res" where
  "cluster_size matrix ix n =
     rbind (rfold (\<lambda>x k. rbind (rnth matrix (ix x)) (\<lambda>v. Inr (if v \<noteq> 0 then k + 1 else k))) [0..<n] 0)
       (\<lambda>k. Inr (if k < 3 then 3 else k))"

text \<open>The sizes and the table are exchanged together at two positions.\<close>

definition swap_at :: "nat \<Rightarrow> nat \<Rightarrow> 'a list \<Rightarrow> 'a list" where
  "swap_at i j xs = xs[i := xs ! j, j := xs ! i]"

definition swap_both :: "nat \<Rightarrow> nat \<Rightarrow> nat list \<times> nat list \<Rightarrow> (nat list \<times> nat list) res" where
  "swap_both i j = (\<lambda>(size_rows, pointer_table).
     if i < length size_rows \<and> j < length size_rows \<and> i < length pointer_table \<and> j < length pointer_table
     then Inr (swap_at i j size_rows, swap_at i j pointer_table) else Inl OutOfBounds)"

text \<open>First the lines that do not fit.\<close>

definition select_large :: "nat \<Rightarrow> nat \<Rightarrow> nat \<times> nat list \<times> nat list \<Rightarrow> (nat \<times> nat list \<times> nat list) res" where
  "select_large num_ms i = (\<lambda>(n_rows_selected, size_rows, pointer_table).
     rbind (rnth size_rows i) (\<lambda>s.
     if num_ms < s then rbind (swap_both i n_rows_selected (size_rows, pointer_table)) (\<lambda>p.
       Inr (n_rows_selected + 1, p))
     else Inr (n_rows_selected, size_rows, pointer_table)))"

text \<open>The first of the largest remaining lines that fit in the multipliers left.\<close>

definition find_greater :: "nat \<Rightarrow> nat list \<Rightarrow> nat \<Rightarrow> nat \<Rightarrow> nat option" where
  "find_greater num_ms size_rows n_ms_used n_rows_selected =
     fold (\<lambda>i r. if uadd (size_rows ! i) n_ms_used \<le> num_ms then
          (case r of None \<Rightarrow> Some i
           | Some g \<Rightarrow> if size_rows ! g < size_rows ! i then Some i else Some g) else r)
       [n_rows_selected..<length size_rows] None"

text \<open>The loop that fills the array again and again; \<open>None\<close> is a loop that never ends.\<close>

partial_function (option) select_groups ::
  "nat \<Rightarrow> nat \<Rightarrow> nat \<Rightarrow> nat list \<times> nat list \<Rightarrow> (nat list \<times> nat list) res option" where
  "select_groups num_ms n_rows_selected n_ms_used p =
     (if n_rows_selected < length (fst p) then
        case find_greater num_ms (fst p) n_ms_used n_rows_selected of
          None \<Rightarrow> select_groups num_ms n_rows_selected 0 p
        | Some g \<Rightarrow>
            (case swap_both g n_rows_selected p of
               Inl e \<Rightarrow> Some (Inl e)
             | Inr p' \<Rightarrow> select_groups num_ms (n_rows_selected + 1) (uadd n_ms_used (fst p ! g)) p')
      else Some (Inr p))"

definition calculateOrdering ::
  "'d::zero list \<Rightarrow> nat \<Rightarrow> nat \<Rightarrow> GENERATION_TYPE \<Rightarrow> nat \<Rightarrow> nat list res option" where
  "calculateOrdering matrix rows cols gen_type num_ms =
     (let n = n_lines gen_type rows cols in
      case rbind (rfold (\<lambda>l sizes. rbind (cluster_size matrix (line_ix gen_type cols l) (line_length gen_type rows cols))
               (\<lambda>k. Inr (sizes @ [k]))) [0..<n] []) (\<lambda>size_rows.
             rfold (select_large num_ms) [0..<n] (0, size_rows, [0..<n])) of
        Inl e \<Rightarrow> Some (Inl e)
      | Inr (n_rows_selected, p) \<Rightarrow> map_option (\<lambda>r. rbind r (\<lambda>(size_rows, pointer_table). Inr pointer_table))
          (select_groups num_ms n_rows_selected 0 p))"


section \<open>The compressed formats represent the matrix\<close>

lemma line_ix_ok:
  assumes "rows * cols < u32_max" "l < n_lines gen rows cols" "x < line_length gen rows cols"
  shows "line_ix gen cols l x = (case gen of GEN_BY_ROWS \<Rightarrow> l * cols + x | GEN_BY_COLS \<Rightarrow> x * cols + l)"
    and "line_ix gen cols l x < rows * cols"
proof -
  have u: "mat_ix cols i j = i * cols + j" "i * cols + j < rows * cols" if "i < rows" "j < cols" for i j
  proof -
    show "i * cols + j < rows * cols" using that by (rule index_less)
    moreover have "i * cols \<le> i * cols + j" by simp
    ultimately show "mat_ix cols i j = i * cols + j" using assms(1) by (simp add: mat_ix_def u32_simps)
  qed
  then show "line_ix gen cols l x = (case gen of GEN_BY_ROWS \<Rightarrow> l * cols + x | GEN_BY_COLS \<Rightarrow> x * cols + l)"
    "line_ix gen cols l x < rows * cols"
    using assms(2,3) by (simp_all add: line_ix_def n_lines_def line_length_def split: GENERATION_TYPE.splits)
qed

text \<open>The non-zero elements of a line with their positions, and what the formats store of it.\<close>

definition nz :: "'d::zero list \<Rightarrow> (nat \<Rightarrow> nat) \<Rightarrow> nat \<Rightarrow> (nat \<times> 'd) list" where
  "nz m ix n = filter (\<lambda>e. snd e \<noteq> 0) (map (\<lambda>x. (x, m ! ix x)) [0..<n])"

definition entries :: "'d::zero list \<Rightarrow> (nat \<Rightarrow> nat) \<Rightarrow> nat \<Rightarrow> (nat \<times> 'd) list" where
  "entries m ix n = (if nz m ix n = [] then [(0, 0)] else nz m ix n)"

lemma nz_Suc: "nz m ix (Suc n) = nz m ix n @ (if m ! ix n \<noteq> 0 then [(n, m ! ix n)] else [])"
  by (simp add: nz_def)

lemma nz_0: "nz m ix 0 = []"
  by (simp add: nz_def)

lemma nz_length: "length (nz m ix n) \<le> n"
  using length_filter_le [of "\<lambda>e. snd e \<noteq> 0" "map (\<lambda>x. (x, m ! ix x)) [0..<n]"] by (simp add: nz_def)

lemma entries_length: "length (entries m ix n) \<le> n + 1"
  using nz_length [of m ix n] by (simp add: entries_def)

lemma int_loop_small: "n < 2 ^ 31 \<Longrightarrow> int_loop n f s = rfold f [0..<n] s"
proof -
  assume n: "n < 2 ^ 31"
  have "k \<le> n \<Longrightarrow> rfold (\<lambda>x s. rbind (f x s) (\<lambda>s. rbind (iinc x) (\<lambda>_. Inr s))) [0..<k] s = rfold f [0..<k] s" for k
  proof (induction k)
    case (Suc k)
    then have k: "iinc k = Inr (Suc k)" using n by (intro iinc_small) linarith
    have r: "rbind r Inr = r" for r :: "'a res" by (cases r) simp_all
    show ?case using Suc k by (cases "rfold f [0..<k] s"; simp add: rfold_append; cases "f k (projr (rfold f [0..<k] s))"; simp)
  qed simp
  from this [of n] show ?thesis by (simp add: int_loop_def)
qed

lemma values_line_ok:
  assumes "\<forall>x < n. ix x < length m" and n: "n < 2 ^ 31"
  shows "values_line m ix n es = Inr (es @ map snd (entries m ix n))"
proof -
  have "k \<le> n \<Longrightarrow> rfold (\<lambda>x (elements, non_zeros). rbind (rnth m (ix x)) (\<lambda>v.
         if v \<noteq> 0 then rbind (iinc non_zeros) (\<lambda>k. Inr (elements @ [v], k)) else Inr (elements, non_zeros)))
       [0..<k] (es, 0::nat) = Inr (es @ map snd (nz m ix k), length (nz m ix k))" for k
  proof (induction k)
    case (Suc k)
    have "iinc (length (nz m ix k)) = Inr (Suc (length (nz m ix k)))"
      using nz_length [of m ix k] Suc.prems n by (intro iinc_small) linarith
    then show ?case using Suc assms(1) by (simp add: rfold_append nz_Suc)
  qed (simp add: nz_0)
  from this [of n] show ?thesis by (simp add: values_line_def entries_def int_loop_small [OF n])
qed

lemma minor_line_ok:
  assumes "\<forall>x < n. ix x < length m" and n: "n < 2 ^ 31"
  shows "minor_line m ix n es = Inr (es @ map fst (entries m ix n))"
proof -
  have "k \<le> n \<Longrightarrow> rfold (\<lambda>x (elements, non_zeros). rbind (rnth m (ix x)) (\<lambda>v.
         if v \<noteq> 0 then rbind (iinc non_zeros) (\<lambda>k. Inr (elements @ [x], k)) else Inr (elements, non_zeros)))
       [0..<k] (es, 0::nat) = Inr (es @ map fst (nz m ix k), length (nz m ix k))" for k
  proof (induction k)
    case (Suc k)
    have "iinc (length (nz m ix k)) = Inr (Suc (length (nz m ix k)))"
      using nz_length [of m ix k] Suc.prems n by (intro iinc_small) linarith
    then show ?case using Suc assms(1) by (simp add: rfold_append nz_Suc)
  qed (simp add: nz_0)
  from this [of n] show ?thesis by (simp add: minor_line_def entries_def int_loop_small [OF n])
qed

lemma pointer_line_ok:
  assumes "\<forall>x < n. ix x < length m" and n: "p + n + 1 < 2 ^ 31"
  shows "pointer_line m ix n (es, p) = Inr (es @ [p], p + length (entries m ix n))"
proof -
  have "k \<le> n \<Longrightarrow> rfold (\<lambda>x (elements, nnzp, flag). rbind (rnth m (ix x)) (\<lambda>v.
         if v \<noteq> 0 then rbind (iinc nnzp) (\<lambda>k. Inr (if flag then elements else elements @ [nnzp], k, True))
         else Inr (elements, nnzp, flag)))
       [0..<k] (es, p, False) = Inr (if nz m ix k = [] then es else es @ [p], p + length (nz m ix k), nz m ix k \<noteq> [])" for k
  proof (induction k)
    case (Suc k)
    have "iinc (p + length (nz m ix k)) = Inr (Suc (p + length (nz m ix k)))"
      using nz_length [of m ix k] Suc.prems n by (intro iinc_small) linarith
    then show ?case using Suc assms(1) by (simp add: rfold_append nz_Suc)
  qed (simp add: nz_0)
  moreover have "iinc p = Inr (Suc p)" using n by (intro iinc_small) linarith
  moreover have "n < 2 ^ 31" using n by linarith
  ultimately show ?thesis by (simp add: pointer_line_def entries_def int_loop_small)
qed

text \<open>A loop that appends something for every line.\<close>

lemma rfold_concat:
  assumes "\<forall>l < n. \<forall>es. f l es = Inr (es @ g l)"
  shows "rfold f [0..<n] es = Inr (es @ concat (map g [0..<n]))"
  using assms by (induction n) (simp_all add: rfold_append)

text \<open>The element of a compressed matrix in line \<open>l\<close> at position \<open>x\<close>; what is not stored is zero.\<close>

definition csr_at :: "'d::zero list \<Rightarrow> nat list \<Rightarrow> nat list \<Rightarrow> nat \<Rightarrow> nat \<Rightarrow> 'd" where
  "csr_at vals minor_id major_pointer l x =
     (case map_of (take (major_pointer ! Suc l - major_pointer ! l) (drop (major_pointer ! l) (zip minor_id vals))) x of
        None \<Rightarrow> 0 | Some v \<Rightarrow> v)"

lemma concat_upt_split: "l < n \<Longrightarrow> concat (map g [0..<n]) = concat (map g [0..<l]) @ g l @ concat (map g [Suc l..<n])"
proof -
  assume "l < n"
  then have "[0..<n] = [0..<l] @ l # [Suc l..<n]"
    using upt_add_eq_append [of 0 l "n - l"] by (simp add: upt_conv_Cons)
  then show ?thesis by simp
qed

lemma map_of_nz: "map_of (nz m ix n) x = (if x < n \<and> m ! ix x \<noteq> 0 then Some (m ! ix x) else None)"
  by (induction n) (auto simp: nz_Suc nz_0 map_add_def split: option.splits)

lemma map_of_entries: "x < n \<Longrightarrow> (case map_of (entries m ix n) x of None \<Rightarrow> 0 | Some v \<Rightarrow> v) = m ! ix x"
proof (cases "nz m ix n = []")
  case True
  assume "x < n"
  have "map_of (nz m ix n) x = None" using True by simp
  then have "m ! ix x = 0" using \<open>x < n\<close> by (simp add: map_of_nz split: if_splits)
  then show ?thesis using True by (simp add: entries_def)
qed (simp add: entries_def map_of_nz)

text \<open>The number of elements of the first lines.\<close>

lemma elements_bound: "length (concat (map (\<lambda>l. entries m (ix l) n) [0..<k])) \<le> k * n + k"
proof (induction k)
  case (Suc k)
  then show ?case using entries_length [of m "ix k" n] by simp
qed simp

lemma generators_ok:
  fixes gen :: GENERATION_TYPE and m :: "'d::zero list" and rows cols :: nat
  assumes "length m = rows * cols" and small: "rows * cols + n_lines gen rows cols + 1 < 2 ^ 31"
  defines "E \<equiv> \<lambda>l. entries m (line_ix gen cols l) (line_length gen rows cols)" and "L \<equiv> n_lines gen rows cols"
  shows "generateMatrixSparseFromDenseNoBitmap m rows cols gen = Inr (map snd (concat (map E [0..<L])))"
    and "generateMinorIDFromDense m rows cols gen = Inr (map fst (concat (map E [0..<L])), length (concat (map E [0..<L])))"
    and "generateMajorPointerFromDense m rows cols gen = Inr (map (\<lambda>l. length (concat (map E [0..<l]))) [0..<Suc L])"
proof -
  let ?n = "line_length gen rows cols"
  have u: "rows * cols < u32_max" using small by (simp add: u32_max_def)
  have Ln: "L * ?n = rows * cols" by (cases gen) (simp_all add: L_def n_lines_def line_length_def)
  have L: "L < 2 ^ 31" using small by (simp add: L_def)
  have ix: "\<forall>x < ?n. line_ix gen cols l x < length m" if "l < L" for l
    using line_ix_ok(2) [OF u] assms(1) that by (simp add: L_def)
  have n: "?n < 2 ^ 31" if "l < L" for l
  proof -
    have "1 * ?n \<le> L * ?n" using that by (intro mult_le_mono1) simp
    then show ?thesis using small Ln by linarith
  qed
  have total: "length (concat (map E [0..<k])) \<le> k * ?n + k" for k unfolding E_def by (rule elements_bound)
  have all: "length (concat (map E [0..<L])) < 2 ^ 31" using total [of L] small Ln by (simp add: L_def)
  have copy: "copy_elements xs = Inr xs" if "length xs < 2 ^ 31" for xs :: "'a list" using that by (simp add: copy_elements_def)
  have loop: "rfold f [0..<L] es = Inr (es @ concat (map g [0..<L]))" if "\<forall>l < L. \<forall>es. f l es = Inr (es @ g l)"
    for f and g :: "nat \<Rightarrow> 'b list" and es using rfold_concat [of L f g es] that by blast
  have "rfold (\<lambda>l. values_line m (line_ix gen cols l) ?n) [0..<L] [] = Inr (map snd (concat (map E [0..<L])))"
    using loop [of _ "\<lambda>l. map snd (E l)" "[]"] values_line_ok [OF ix n] by (simp add: E_def map_concat comp_def)
  then show "generateMatrixSparseFromDenseNoBitmap m rows cols gen = Inr (map snd (concat (map E [0..<L])))"
    using all by (simp add: generateMatrixSparseFromDenseNoBitmap_def int_loop_small [OF L] copy flip: L_def)
  have "rfold (\<lambda>l. minor_line m (line_ix gen cols l) ?n) [0..<L] [] = Inr (map fst (concat (map E [0..<L])))"
    using loop [of _ "\<lambda>l. map fst (E l)" "[]"] minor_line_ok [OF ix n] by (simp add: E_def map_concat comp_def)
  then show "generateMinorIDFromDense m rows cols gen = Inr (map fst (concat (map E [0..<L])), length (concat (map E [0..<L])))"
    using all by (simp add: generateMinorIDFromDense_def int_loop_small [OF L] copy flip: L_def)
  have "k \<le> L \<Longrightarrow> rfold (\<lambda>l. pointer_line m (line_ix gen cols l) ?n) [0..<k] ([], 0)
     = Inr (map (\<lambda>l. length (concat (map E [0..<l]))) [0..<k], length (concat (map E [0..<k])))" for k
  proof (induction k)
    case (Suc k)
    have "Suc k * ?n + Suc k \<le> L * ?n + L" using Suc.prems by (intro add_mono mult_le_mono1) simp_all
    then have "length (concat (map E [0..<k])) + ?n + 1 < 2 ^ 31" using total [of k] small Ln by (simp add: L_def)
    from pointer_line_ok [OF ix this] Suc show ?case by (simp add: rfold_append E_def)
  qed simp
  from this [of L] show "generateMajorPointerFromDense m rows cols gen = Inr (map (\<lambda>l. length (concat (map E [0..<l]))) [0..<Suc L])"
    using L small by (simp add: generateMajorPointerFromDense_def int_loop_small [OF L] copy flip: L_def)
qed


section \<open>Reading the formats back\<close>

lemma csr_slice:
  assumes "l < L"
  shows "csr_at (map snd (concat (map E [0..<L]))) (map fst (concat (map E [0..<L])))
      (map (\<lambda>l. length (concat (map E [0..<l]))) [0..<Suc L]) l x = (case map_of (E l) x of None \<Rightarrow> 0 | Some v \<Rightarrow> v)"
proof -
  have p: "map (\<lambda>l. length (concat (map E [0..<l]))) [0..<Suc L] ! k = length (concat (map E [0..<k]))" if "k \<le> L" for k
    using that by (simp del: upt_Suc)
  have z: "zip (map fst (concat (map E [0..<L]))) (map snd (concat (map E [0..<L]))) = concat (map E [0..<L])"
    by (rule zip_map_fst_snd)
  have "take (length (E l)) (drop (length (concat (map E [0..<l]))) (concat (map E [0..<L]))) = E l"
    unfolding concat_upt_split [OF assms] by simp
  moreover have "length (concat (map E [0..<Suc l])) - length (concat (map E [0..<l])) = length (E l)" by simp
  ultimately show ?thesis using assms unfolding csr_at_def z by (simp add: p del: upt_Suc)
qed

section \<open>Bitmaps\<close>

lemma length_nz_card: "length (nz m ix n) = card {x. x < n \<and> m ! ix x \<noteq> 0}"
proof -
  have "{i. i < length (map (\<lambda>x. (x, m ! ix x)) [0..<n]) \<and> snd (map (\<lambda>x. (x, m ! ix x)) [0..<n] ! i) \<noteq> 0}
      = {x. x < n \<and> m ! ix x \<noteq> 0}" by auto
  then show ?thesis unfolding nz_def by (simp only: length_filter_conv_card)
qed

lemma bitmap_mark_ok:
  assumes ix: "\<forall>x < n. ix x < length m \<and> ix x < length b" and inj: "inj_on ix {..<n}"
  shows "\<exists>b'. rfold (\<lambda>x. bitmap_mark m (ix x)) [0..<n] (b, 0) = Inr (b', length (nz m ix n)) \<and> length b' = length b
    \<and> (\<forall>x < n. b' ! ix x = (if m ! ix x \<noteq> 0 then 1 else 0)) \<and> (\<forall>i. i \<notin> ix ` {..<n} \<longrightarrow> b' ! i = b ! i)"
proof -
  define I where "I k s \<longleftrightarrow> (case s of (b', c) \<Rightarrow> c = length (nz m ix k) \<and> length b' = length b
    \<and> (\<forall>x < k. b' ! ix x = (if m ! ix x \<noteq> 0 then 1 else 0)) \<and> (\<forall>i. i \<notin> ix ` {..<n} \<longrightarrow> b' ! i = b ! i))" for k s
  have "\<exists>s. rfold (\<lambda>x. bitmap_mark m (ix x)) [0..<n] (b, 0) = Inr s \<and> I n s"
  proof (rule rfold_upt_total)
    show "I 0 (b, 0)" by (simp add: I_def nz_0)
    fix k s assume k: "k < n" and "I k s"
    then obtain b1 where b1: "s = (b1, length (nz m ix k))" "length b1 = length b"
      "\<forall>x < k. b1 ! ix x = (if m ! ix x \<noteq> 0 then 1 else 0)" "\<forall>i. i \<notin> ix ` {..<n} \<longrightarrow> b1 ! i = b ! i"
      by (cases s) (auto simp: I_def)
    have ne: "ix k \<noteq> ix x" if "x < k" for x using inj_onD [OF inj, of k x] that k by auto
    have lt: "ix k < length m" "ix k < length b1" using ix k b1(2) by simp_all
    let ?s = "(b1[ix k := if m ! ix k \<noteq> 0 then 1 else 0], length (nz m ix (Suc k)))"
    have "bitmap_mark m (ix k) s = Inr ?s" using lt by (simp add: b1(1) bitmap_mark_def nz_Suc)
    moreover have "I (Suc k) ?s" using b1(2-4) ne lt k by (auto simp: I_def less_Suc_eq nth_list_update)
    ultimately show "\<exists>s'. bitmap_mark m (ix k) s = Inr s' \<and> I (Suc k) s'" by blast
  qed
  then show ?thesis by (auto simp: I_def)
qed

text \<open>The padding: bits are only added, at the front, until there are three.\<close>

lemma bitmap_pad_ok:
  assumes ix: "\<forall>x < n. ix x < length b" and inj: "inj_on ix {..<n}"
    and bits: "\<forall>x < n. b ! ix x = 0 \<or> b ! ix x = 1" and c: "c = card {x. x < n \<and> b ! ix x = 1}"
  shows "k \<le> n \<Longrightarrow> k \<le> 3 \<Longrightarrow> \<exists>b' c'. rfold (\<lambda>x. bitmap_pad (ix x)) [0..<k] (b, c) = Inr (b', c') \<and> length b' = length b
    \<and> (\<forall>x < n. b' ! ix x = 0 \<or> b' ! ix x = 1) \<and> (\<forall>i. i \<notin> ix ` {..<n} \<longrightarrow> b' ! i = b ! i)
    \<and> c' = card {x. x < n \<and> b' ! ix x = 1} \<and> (\<forall>x < n. b ! ix x = 1 \<longrightarrow> b' ! ix x = 1)
    \<and> (\<forall>x < n. b ! ix x = 0 \<longrightarrow> b' ! ix x = 1 \<longrightarrow> x < 3 \<and> c < 3)
    \<and> (if 3 \<le> c then c' = c else c' = 3 \<or> c' < 3 \<and> (\<forall>x < k. b' ! ix x = 1))"
proof (induction k)
  case 0
  then show ?case using bits c by auto
next
  case (Suc k)
  then obtain b1 c1 where 1: "rfold (\<lambda>x. bitmap_pad (ix x)) [0..<k] (b, c) = Inr (b1, c1)" "length b1 = length b"
    "\<forall>x < n. b1 ! ix x = 0 \<or> b1 ! ix x = 1" "\<forall>i. i \<notin> ix ` {..<n} \<longrightarrow> b1 ! i = b ! i"
    "c1 = card {x. x < n \<and> b1 ! ix x = 1}" "\<forall>x < n. b ! ix x = 1 \<longrightarrow> b1 ! ix x = 1"
    "\<forall>x < n. b ! ix x = 0 \<longrightarrow> b1 ! ix x = 1 \<longrightarrow> x < 3 \<and> c < 3"
    "if 3 \<le> c then c1 = c else c1 = 3 \<or> c1 < 3 \<and> (\<forall>x < k. b1 ! ix x = 1)" by auto
  have k: "k < n" "k < 3" "ix k < length b1" using Suc.prems ix 1(2) by simp_all
  have step: "rfold (\<lambda>x. bitmap_pad (ix x)) [0..<Suc k] (b, c) = bitmap_pad (ix k) (b1, c1)"
    using 1(1) by (cases "bitmap_pad (ix k) (b1, c1)") (simp_all add: rfold_append)
  show ?case
  proof (cases "c1 < 3 \<and> b1 ! ix k = 0")
    case True
    let ?b = "b1[ix k := 1]"
    have ne: "ix x \<noteq> ix k" if "x < n" "x \<noteq> k" for x using inj_onD [OF inj, of x k] that k by auto
    then have at: "?b ! ix x = (if x = k then 1 else b1 ! ix x)" if "x < n" for x
    proof (cases "x = k")
      case False
      from ne [OF that False] have "ix k \<noteq> ix x" by simp
      then show ?thesis using False by simp
    qed (use k in simp)
    have "{x. x < n \<and> ?b ! ix x = 1} = insert k {x. x < n \<and> b1 ! ix x = 1}" using at k by auto
    moreover have "k \<notin> {x. x < n \<and> b1 ! ix x = 1}" using True by simp
    ultimately have card: "card {x. x < n \<and> ?b ! ix x = 1} = c1 + 1" using 1(5) by simp
    have "c < 3" using 1(8) True by (auto split: if_splits)
    have fr: "\<forall>i. i \<notin> ix ` {..<n} \<longrightarrow> ?b ! i = b ! i"
    proof (intro allI impI)
      fix i assume i: "i \<notin> ix ` {..<n}"
      then have "ix k \<noteq> i" using k(1) by auto
      then show "?b ! i = b ! i" using 1(4) i by simp
    qed
    have "bitmap_pad (ix k) (b1, c1) = Inr (?b, c1 + 1)" using True k by (simp add: bitmap_pad_def)
    moreover have "c1 + 1 = 3 \<or> c1 + 1 < 3 \<and> (\<forall>x < Suc k. ?b ! ix x = 1)"
    proof (cases "c1 + 1 = 3")
      case False
      then have "\<forall>x < k. b1 ! ix x = 1" using 1(8) True \<open>c < 3\<close> by (auto split: if_splits)
      then show ?thesis using at k(1) False True by (auto simp: less_Suc_eq)
    qed simp
    ultimately show ?thesis
      unfolding step using 1(2,3,6,7) at card fr \<open>c < 3\<close> k(2)
      by (intro exI [of _ ?b] exI [of _ "c1 + 1"]) auto
  next
    case False
    then have "bitmap_pad (ix k) (b1, c1) = Inr (b1, c1)" using k by (auto simp: bitmap_pad_def)
    moreover have "if 3 \<le> c then c1 = c else c1 = 3 \<or> c1 < 3 \<and> (\<forall>x < Suc k. b1 ! ix x = 1)"
    proof (cases "c1 < 3")
      case True
      then have "b1 ! ix k = 1" using False 1(3) k(1) by auto
      then show ?thesis using 1(8) by (auto simp: less_Suc_eq split: if_splits)
    qed (use 1(8) in \<open>auto split: if_splits\<close>)
    ultimately show ?thesis unfolding step using 1 by (intro exI [of _ b1] exI [of _ c1]) simp
  qed
qed

text \<open>What the bitmap says of a line.\<close>

definition bits_ok :: "'d::zero list \<Rightarrow> (nat \<Rightarrow> nat) \<Rightarrow> nat \<Rightarrow> nat list \<Rightarrow> bool" where
  "bits_ok m ix n b \<longleftrightarrow> (\<forall>x < n. (b ! ix x = 0 \<or> b ! ix x = 1) \<and> (m ! ix x \<noteq> 0 \<longrightarrow> b ! ix x = 1)
        \<and> (m ! ix x = 0 \<longrightarrow> b ! ix x = 1 \<longrightarrow> x < 3 \<and> length (nz m ix n) < 3))
     \<and> card {x. x < n \<and> b ! ix x = 1} = max 3 (length (nz m ix n))"

lemma bitmap_line_ok:
  assumes ix: "\<forall>x < n. ix x < length m \<and> ix x < length b" and inj: "inj_on ix {..<n}" and n: "3 \<le> n"
  shows "\<exists>b'. bitmap_line m ix n b = Inr b' \<and> length b' = length b \<and> bits_ok m ix n b'
    \<and> (\<forall>i. i \<notin> ix ` {..<n} \<longrightarrow> b' ! i = b ! i)"
proof -
  let ?c = "length (nz m ix n)"
  obtain b1 where 1: "rfold (\<lambda>x. bitmap_mark m (ix x)) [0..<n] (b, 0) = Inr (b1, ?c)" "length b1 = length b"
    "\<forall>x < n. b1 ! ix x = (if m ! ix x \<noteq> 0 then 1 else 0)" "\<forall>i. i \<notin> ix ` {..<n} \<longrightarrow> b1 ! i = b ! i"
    using bitmap_mark_ok [OF ix inj] by blast
  have "{x. x < n \<and> b1 ! ix x = 1} = {x. x < n \<and> m ! ix x \<noteq> 0}" using 1(3) by auto
  then have c: "?c = card {x. x < n \<and> b1 ! ix x = 1}" by (simp add: length_nz_card)
  obtain b2 c2 where 2: "rfold (\<lambda>x. bitmap_pad (ix x)) [0..<3] (b1, ?c) = Inr (b2, c2)" "length b2 = length b1"
    "\<forall>x < n. b2 ! ix x = 0 \<or> b2 ! ix x = 1" "\<forall>i. i \<notin> ix ` {..<n} \<longrightarrow> b2 ! i = b1 ! i"
    "c2 = card {x. x < n \<and> b2 ! ix x = 1}" "\<forall>x < n. b1 ! ix x = 1 \<longrightarrow> b2 ! ix x = 1"
    "\<forall>x < n. b1 ! ix x = 0 \<longrightarrow> b2 ! ix x = 1 \<longrightarrow> x < 3 \<and> ?c < 3"
    "if 3 \<le> ?c then c2 = ?c else c2 = 3 \<or> c2 < 3 \<and> (\<forall>x < 3. b2 ! ix x = 1)"
  proof -
    have "\<forall>x < n. ix x < length b1" using ix 1(2) by simp
    moreover have "\<forall>x < n. b1 ! ix x = 0 \<or> b1 ! ix x = 1" using 1(3) by simp
    ultimately show ?thesis using bitmap_pad_ok [OF _ inj _ c n order_refl] that by blast
  qed
  have "c2 = max 3 ?c"
  proof (cases "3 \<le> ?c")
    case False
    have "c2 = 3"
    proof (rule ccontr)
      assume "c2 \<noteq> 3"
      then have a: "c2 < 3" "\<forall>x < 3. b2 ! ix x = 1" using 2(8) False by simp_all
      then have "{..<3} \<subseteq> {x. x < n \<and> b2 ! ix x = 1}" using n by auto
      then have "card {..<3::nat} \<le> c2" unfolding 2(5) by (intro card_mono) auto
      with a(1) show False by simp
    qed
    then show ?thesis using False by simp
  qed (use 2(8) in simp)
  then have "bits_ok m ix n b2" using 2(3,5,6,7) 1(3) unfolding bits_ok_def by auto
  moreover have "bitmap_line m ix n b = Inr b2" using 1(1) 2(1) by (simp add: bitmap_line_def)
  ultimately show ?thesis using 1(2,4) 2(2,4) by auto
qed

lemma line_ix_inj:
  assumes "rows * cols < u32_max" "l < n_lines gen rows cols" "x < line_length gen rows cols"
    "l' < n_lines gen rows cols" "x' < line_length gen rows cols"
  shows "line_ix gen cols l x = line_ix gen cols l' x' \<longleftrightarrow> l = l' \<and> x = x'"
proof -
  have r: "a * cols + b = a' * cols + b' \<longleftrightarrow> a = a' \<and> b = b'" if "b < cols" "b' < cols" for a b a' b'
  proof
    assume e: "a * cols + b = a' * cols + b'"
    have "a = (a * cols + b) div cols" "a' = (a' * cols + b') div cols" using that by simp_all
    then have "a = a'" using e by simp
    then show "a = a' \<and> b = b'" using e by simp
  qed simp
  show ?thesis
    using assms(2-5) line_ix_ok(1) [OF assms(1-3)] line_ix_ok(1) [OF assms(1,4,5)]
    by (auto simp: n_lines_def line_length_def r split: GENERATION_TYPE.splits)
qed

text \<open>
  C28: the compressed formats represent the matrix. For every matrix of the right size, by rows or by
  columns, small enough for the \<open>int\<close> counters of the code, the three generators return arrays from
  which every element can be read back: the values and their positions between two pointers of a
  line, zero for what is not stored.
\<close>

theorem csr_roundtrip:
  assumes "length m = rows * cols" and small: "rows * cols + n_lines gen_type rows cols + 1 < 2 ^ 31"
  shows "\<exists>vals minor_id nnz major_pointer.
      generateMatrixSparseFromDenseNoBitmap m rows cols gen_type = Inr vals
    \<and> generateMinorIDFromDense m rows cols gen_type = Inr (minor_id, nnz)
    \<and> generateMajorPointerFromDense m rows cols gen_type = Inr major_pointer
    \<and> length vals = nnz \<and> length minor_id = nnz \<and> length major_pointer = n_lines gen_type rows cols + 1
    \<and> major_pointer ! n_lines gen_type rows cols = nnz
    \<and> (\<forall>i < rows. \<forall>j < cols. m ! (i * cols + j) = (case gen_type of
          GEN_BY_ROWS \<Rightarrow> csr_at vals minor_id major_pointer i j | GEN_BY_COLS \<Rightarrow> csr_at vals minor_id major_pointer j i))"
proof -
  have u: "rows * cols < u32_max" using small by (simp add: u32_max_def)
  let ?L = "n_lines gen_type rows cols" and ?n = "line_length gen_type rows cols"
  let ?E = "\<lambda>l. entries m (line_ix gen_type cols l) ?n"
  let ?vals = "map snd (concat (map ?E [0..<?L]))" and ?minor = "map fst (concat (map ?E [0..<?L]))"
  let ?ptr = "map (\<lambda>l. length (concat (map ?E [0..<l]))) [0..<Suc ?L]"
  have at: "csr_at ?vals ?minor ?ptr l x = m ! line_ix gen_type cols l x" if "l < ?L" "x < ?n" for l x
    using csr_slice [OF that(1), of ?E x] map_of_entries [OF that(2), of m "line_ix gen_type cols l"] by simp
  have "m ! (i * cols + j) = (case gen_type of
          GEN_BY_ROWS \<Rightarrow> csr_at ?vals ?minor ?ptr i j | GEN_BY_COLS \<Rightarrow> csr_at ?vals ?minor ?ptr j i)" if "i < rows" "j < cols" for i j
  proof (cases gen_type)
    case GEN_BY_ROWS
    then show ?thesis using at [of i j] line_ix_ok(1) [OF u, of i gen_type j] that
      by (simp add: n_lines_def line_length_def)
  next
    case GEN_BY_COLS
    then show ?thesis using at [of j i] line_ix_ok(1) [OF u, of j gen_type i] that
      by (simp add: n_lines_def line_length_def)
  qed
  moreover have "?ptr ! ?L = length (concat (map ?E [0..<?L]))" by (simp del: upt_Suc)
  ultimately show ?thesis
    using generators_ok [OF assms]
    by (intro exI [of _ ?vals] exI [of _ ?minor] exI [of _ "length (concat (map ?E [0..<?L]))"] exI [of _ ?ptr]) simp
qed

theorem csr_roundtrip_witness:
  "\<exists>vals minor_id major_pointer. generateMatrixSparseFromDenseNoBitmap [0, 5, 0, 0, 7, 8 :: int] 2 3 GEN_BY_ROWS = Inr vals
    \<and> generateMinorIDFromDense [0, 5, 0, 0, 7, 8 :: int] 2 3 GEN_BY_ROWS = Inr (minor_id, 3)
    \<and> generateMajorPointerFromDense [0, 5, 0, 0, 7, 8 :: int] 2 3 GEN_BY_ROWS = Inr major_pointer
    \<and> csr_at vals minor_id major_pointer 1 2 = 8"
proof -
  have n: "generateMinorIDFromDense [0, 5, 0, 0, 7, 8 :: int] 2 3 GEN_BY_ROWS = Inr ([1, 1, 2], 3)"
    by (simp add: generateMinorIDFromDense_def minor_line_def int_loop_def iinc_def copy_elements_def n_lines_def
        line_length_def line_ix_def mat_ix_def uadd_def umul_def u32_max_def upt_rec)
  obtain vals minor_id nnz major_pointer where 1: "generateMatrixSparseFromDenseNoBitmap [0, 5, 0, 0, 7, 8 :: int] 2 3 GEN_BY_ROWS = Inr vals"
    "generateMinorIDFromDense [0, 5, 0, 0, 7, 8 :: int] 2 3 GEN_BY_ROWS = Inr (minor_id, nnz)"
    "generateMajorPointerFromDense [0, 5, 0, 0, 7, 8 :: int] 2 3 GEN_BY_ROWS = Inr major_pointer"
    "\<forall>i < 2. \<forall>j < 3. [0, 5, 0, 0, 7, 8 :: int] ! (i * 3 + j) = csr_at vals minor_id major_pointer i j"
    using csr_roundtrip [of "[0, 5, 0, 0, 7, 8 :: int]" 2 3 GEN_BY_ROWS] by (auto simp: n_lines_def)
  have "nnz = 3" using 1(2) n by simp
  moreover have "csr_at vals minor_id major_pointer 1 2 = 8" using 1(4) [rule_format, of 1 2] by simp
  ultimately show ?thesis using 1(1-3) by blast
qed

text \<open>
  C31: a bitmap of lines of at least three elements marks every non-zero element, and marks a zero
  only at the front of a line with less than three non-zero elements; every line has exactly
  \<open>max 3 n\<close> marks, \<open>n\<close> its number of non-zero elements.
\<close>

theorem bitmap_marks:
  assumes len: "length m = rows * cols" and small: "rows * cols < u32_max" and n: "3 \<le> line_length gen_type rows cols"
  shows "\<exists>bitMap. generateBitMapFromDense m rows cols gen_type = Inr bitMap \<and> length bitMap = rows * cols
    \<and> (\<forall>l < n_lines gen_type rows cols. bits_ok m (line_ix gen_type cols l) (line_length gen_type rows cols) bitMap)"
proof -
  let ?L = "n_lines gen_type rows cols" and ?n = "line_length gen_type rows cols" and ?ix = "line_ix gen_type cols"
  define I where "I k b \<longleftrightarrow> length b = rows * cols \<and> (\<forall>l < k. bits_ok m (?ix l) ?n b)" for k b
  have "\<exists>b. rfold (\<lambda>l. bitmap_line m (?ix l) ?n) [0..<?L] (replicate (umul rows cols) uninit) = Inr b \<and> I ?L b"
  proof (rule rfold_upt_total)
    show "I 0 (replicate (umul rows cols) uninit)" using small by (simp add: I_def u32_simps)
    fix k b assume k: "k < ?L" and b: "I k b"
    have inj: "inj_on (?ix k) {..<?n}" using line_ix_inj [OF small k _ k] by (auto intro: inj_onI)
    have "\<forall>x < ?n. ?ix k x < length m \<and> ?ix k x < length b" using line_ix_ok(2) [OF small k] len b by (simp add: I_def)
    from bitmap_line_ok [OF this inj n] obtain b' where b': "bitmap_line m (?ix k) ?n b = Inr b'" "length b' = length b"
      "bits_ok m (?ix k) ?n b'" "\<forall>i. i \<notin> ?ix k ` {..<?n} \<longrightarrow> b' ! i = b ! i" by blast
    have "bits_ok m (?ix l) ?n b'" if "l < k" for l
    proof -
      have "b' ! ?ix l x = b ! ?ix l x" if "x < ?n" for x
      proof -
        have "?ix l x \<notin> ?ix k ` {..<?n}" using line_ix_inj [OF small _ that k, of l] \<open>l < k\<close> k by auto
        then show ?thesis using b'(4) by blast
      qed
      moreover from this have "{x. x < ?n \<and> b' ! ?ix l x = 1} = {x. x < ?n \<and> b ! ?ix l x = 1}" by auto
      moreover have "bits_ok m (?ix l) ?n b" using b that by (simp add: I_def)
      ultimately show ?thesis by (simp add: bits_ok_def)
    qed
    then have "I (Suc k) b'" using b b'(2,3) by (auto simp: I_def less_Suc_eq)
    with b'(1) show "\<exists>b'. bitmap_line m (?ix k) ?n b = Inr b' \<and> I (Suc k) b'" by blast
  qed
  then show ?thesis by (auto simp: I_def generateBitMapFromDense_def)
qed


theorem bitmap_marks_witness:
  "\<exists>bitMap. generateBitMapFromDense [0, 5, 0, 0, 1, 2, 3, 4 :: int] 2 4 GEN_BY_ROWS = Inr bitMap
    \<and> bitMap ! 1 = 1 \<and> card {x. x < 4 \<and> bitMap ! line_ix GEN_BY_ROWS 4 0 x = 1} = 3"
proof -
  have l: "n_lines GEN_BY_ROWS 2 4 = 2" "line_length GEN_BY_ROWS 2 4 = 4" by (simp_all add: n_lines_def line_length_def)
  have ix: "line_ix GEN_BY_ROWS 4 0 x = x" if "x < 4" for x
    using that by (simp add: line_ix_def mat_ix_def uadd_def umul_def u32_max_def)
  obtain bitMap where b: "generateBitMapFromDense [0, 5, 0, 0, 1, 2, 3, 4 :: int] 2 4 GEN_BY_ROWS = Inr bitMap"
    "\<forall>l < 2. bits_ok [0, 5, 0, 0, 1, 2, 3, 4 :: int] (line_ix GEN_BY_ROWS 4 l) 4 bitMap"
    using bitmap_marks [of "[0, 5, 0, 0, 1, 2, 3, 4 :: int]" 2 4 GEN_BY_ROWS, unfolded l] by (auto simp: u32_max_def)
  have ok: "bits_ok [0, 5, 0, 0, 1, 2, 3, 4 :: int] (line_ix GEN_BY_ROWS 4 0) 4 bitMap" using b(2) by simp
  have "bitMap ! 1 = 1" using ok ix [of 1] unfolding bits_ok_def by (auto dest: spec [of _ 1])
  moreover have "length (nz [0, 5, 0, 0, 1, 2, 3, 4 :: int] (line_ix GEN_BY_ROWS 4 0) 4) = 1"
    by (simp add: nz_def ix upt_rec)
  then have "card {x. x < 4 \<and> bitMap ! line_ix GEN_BY_ROWS 4 0 x = 1} = 3" using ok by (simp add: bits_ok_def)
  ultimately show ?thesis using b(1) by blast
qed

lemma rfold_Inl:
  assumes "\<And>x s e. x \<in> set xs \<Longrightarrow> f x s = Inl e \<Longrightarrow> e = E" and "rfold f xs s = Inl e"
  shows "e = E"
  using assms
proof (induction xs arbitrary: s)
  case (Cons x xs)
  show ?case
  proof (cases "f x s")
    case (Inl e')
    then have "e' = e" using Cons.prems(2) by simp
    then show ?thesis using Cons.prems(1) [of x s e] Inl by simp
  next
    case (Inr s')
    then have "rfold f xs s' = Inl e" using Cons.prems(2) by simp
    then show ?thesis by (rule Cons.IH [rotated]) (rule Cons.prems(1), simp_all)
  qed
qed simp


lemma bitmap_line_short:
  assumes ix: "\<forall>x < n. ix x < length m \<and> ix x < length b" and inj: "inj_on ix {..<n}" and n: "n < 3" "length b \<le> ix n"
  shows "bitmap_line m ix n b = Inl OutOfBounds"
proof -
  let ?c = "length (nz m ix n)"
  obtain b1 where 1: "rfold (\<lambda>x. bitmap_mark m (ix x)) [0..<n] (b, 0) = Inr (b1, ?c)" "length b1 = length b"
    "\<forall>x < n. b1 ! ix x = (if m ! ix x \<noteq> 0 then 1 else 0)" using bitmap_mark_ok [OF ix inj] by blast
  have "{x. x < n \<and> b1 ! ix x = 1} = {x. x < n \<and> m ! ix x \<noteq> 0}" using 1(3) by auto
  then have c: "?c = card {x. x < n \<and> b1 ! ix x = 1}" by (simp add: length_nz_card)
  have "\<forall>x < n. ix x < length b1" "\<forall>x < n. b1 ! ix x = 0 \<or> b1 ! ix x = 1" "n \<le> 3" using ix 1(2,3) n(1) by simp_all
  then obtain b2 c2 where 2: "rfold (\<lambda>x. bitmap_pad (ix x)) [0..<n] (b1, ?c) = Inr (b2, c2)" "length b2 = length b1"
    "c2 = card {x. x < n \<and> b2 ! ix x = 1}"
    using bitmap_pad_ok [OF _ inj _ c order_refl] by blast
  have "c2 \<le> card {..<n}" unfolding 2(3) by (intro card_mono) auto
  then have "bitmap_pad (ix n) (b2, c2) = Inl OutOfBounds" using n 1(2) 2(2) by (simp add: bitmap_pad_def)
  moreover have "[0..<3] = [0..<n] @ n # [Suc n..<3]" using n(1) upt_add_eq_append [of 0 n "3 - n"] by (simp add: upt_conv_Cons)
  ultimately show ?thesis using 1(1) 2(1) by (simp add: bitmap_line_def rfold_append)
qed

lemma bitmap_line_length:
  assumes "bitmap_line m ix n b = Inr b'"
  shows "length b' = length b"
proof -
  obtain s k where s: "rfold (\<lambda>x. bitmap_mark m (ix x)) [0..<n] (b, 0) = Inr s" "rfold (\<lambda>x. bitmap_pad (ix x)) [0..<3] s = Inr (b', k)"
    using assms by (auto simp: bitmap_line_def rbind_eq_Inr)
  have "length (fst s) = length b"
    by (rule rfold_invariant [OF s(1), of "\<lambda>s. length (fst s) = length b"])
       (auto simp: bitmap_mark_def rupd_def rbind_eq_Inr split: if_splits)
  then have "length (fst (b', k)) = length b"
    by (intro rfold_invariant [OF s(2), of "\<lambda>s. length (fst s) = length b"])
       (auto simp: bitmap_pad_def rupd_def rbind_eq_Inr split: if_splits)
  then show ?thesis by simp
qed

lemma bitmap_line_errors:
  assumes "bitmap_line m ix n b = Inl e"
  shows "e = OutOfBounds"
proof -
  have mark: "e = OutOfBounds" if "rfold (\<lambda>x. bitmap_mark m (ix x)) xs s = Inl e" for xs s
    by (rule rfold_Inl [OF _ that]) (auto simp: bitmap_mark_def rnth_def rupd_def split: if_splits)
  have pad: "e = OutOfBounds" if "rfold (\<lambda>x. bitmap_pad (ix x)) xs s = Inl e" for xs s
    by (rule rfold_Inl [OF _ that]) (auto simp: bitmap_pad_def rnth_def rupd_def split: if_splits)
  show ?thesis
  proof (cases "rfold (\<lambda>x. bitmap_mark m (ix x)) [0..<n] (b, 0)")
    case (Inl e')
    then show ?thesis using assms mark by (simp add: bitmap_line_def)
  next
    case (Inr s)
    then show ?thesis using assms pad [of "[0..<3]" s]
      by (cases "rfold (\<lambda>x. bitmap_pad (ix x)) [0..<3] s") (auto simp: bitmap_line_def)
  qed
qed

text \<open>
  C32: a matrix whose lines have less than three elements gets no bitmap: the padding of the last
  line runs past the end of the bitmap.
\<close>

theorem short_lines_overflow:
  assumes len: "length m = rows * cols" and small: "rows * cols + cols < u32_max"
    and n: "line_length gen_type rows cols < 3" "0 < n_lines gen_type rows cols"
  shows "generateBitMapFromDense m rows cols gen_type = Inl OutOfBounds"
proof (cases "generateBitMapFromDense m rows cols gen_type")
  case (Inl e)
  have "e = OutOfBounds"
    using Inl unfolding generateBitMapFromDense_def
    by (rule rfold_Inl [rotated]) (rule bitmap_line_errors)
  then show ?thesis using Inl by simp
next
  case (Inr b)
  let ?L = "n_lines gen_type rows cols" and ?n = "line_length gen_type rows cols" and ?ix = "line_ix gen_type cols"
  define l where "l = ?L - 1"
  have l: "l < ?L" "[0..<?L] = [0..<l] @ [l]" using n(2) by (simp_all add: l_def upt_Suc_append [symmetric] del: upt_Suc)
  have s: "rows * cols < u32_max" "umul rows cols = rows * cols" using small by (simp_all add: u32_simps)
  obtain b1 where b1: "rfold (\<lambda>l. bitmap_line m (?ix l) ?n) [0..<l] (replicate (umul rows cols) uninit) = Inr b1"
    "bitmap_line m (?ix l) ?n b1 = Inr b"
    using Inr unfolding generateBitMapFromDense_def l(2) by (auto simp: rfold_append rbind_eq_Inr)
  have len1: "length b1 = rows * cols"
    by (rule rfold_invariant [OF b1(1), of "\<lambda>b. length b = rows * cols"]) (simp_all add: s(2) bitmap_line_length)
  have inj: "inj_on (?ix l) {..<?n}" using line_ix_inj [OF s(1) l(1) _ l(1)] by (auto intro: inj_onI)
  have ix: "\<forall>x < ?n. ?ix l x < length m \<and> ?ix l x < length b1" using line_ix_ok(2) [OF s(1) l(1)] len len1 by simp
  have "length b1 \<le> ?ix l ?n"
  proof (cases gen_type)
    case GEN_BY_ROWS
    then obtain r where r: "rows = Suc r" "l = r" using n(2) by (cases rows) (simp_all add: l_def n_lines_def)
    then have "r * cols + cols < u32_max" "r * cols < u32_max" using s(1) by simp_all
    then show ?thesis using GEN_BY_ROWS r len1 by (simp add: line_ix_def line_length_def mat_ix_def u32_simps)
  next
    case GEN_BY_COLS
    have "l < cols" using l(1) GEN_BY_COLS by (simp add: n_lines_def)
    then have "rows * cols + l < u32_max" using small by simp
    then show ?thesis using GEN_BY_COLS s(1) len1 by (simp add: line_ix_def line_length_def mat_ix_def u32_simps)
  qed
  from bitmap_line_short [OF ix inj n(1) this] b1(2) show ?thesis by simp
qed

theorem short_lines_overflow_witness:
  "generateBitMapFromDense [1, 2, 3, 4 :: int] 2 2 GEN_BY_ROWS = Inl OutOfBounds"
  by (rule short_lines_overflow) (simp_all add: n_lines_def line_length_def u32_max_def)

end
