(* ===== verification/Ordering.thy ===== *)
theory Ordering
  imports Sparse "HOL-Library.Multiset"
begin

text \<open>
  Reordering the rows or columns of a matrix (\<^verbatim>\<open>utility.cpp\<close>): ordering back undoes it, and the
  table of \<open>calculateOrdering\<close> is a permutation with the lines that do not fit the array first; its
  loop over the groups ends for every matrix.
\<close>

section \<open>Reordering and ordering back\<close>

lemma line_ix_surj:
  assumes "rows * cols < u32_max" "i < rows * cols"
  shows "\<exists>l < n_lines gen rows cols. \<exists>x < line_length gen rows cols. line_ix gen cols l x = i"
proof -
  have "0 < cols" using assms(2) by (cases cols) auto
  then have d: "i div cols < rows" "i mod cols < cols" "i div cols * cols + i mod cols = i"
    using assms(2) by (simp_all add: less_mult_imp_div_less)
  show ?thesis
  proof (cases gen)
    case GEN_BY_ROWS
    then show ?thesis using d line_ix_ok(1) [OF assms(1), of "i div cols" gen "i mod cols"]
      by (intro exI [of _ "i div cols"] conjI exI [of _ "i mod cols"]) (simp_all add: n_lines_def line_length_def)
  next
    case GEN_BY_COLS
    then show ?thesis using d line_ix_ok(1) [OF assms(1), of "i mod cols" gen "i div cols"]
      by (intro exI [of _ "i mod cols"] conjI exI [of _ "i div cols"]) (simp_all add: n_lines_def line_length_def)
  qed
qed

text \<open>A table that is a permutation of the lines.\<close>

definition permutation_of :: "nat \<Rightarrow> nat list \<Rightarrow> bool" where
  "permutation_of n p \<longleftrightarrow> mset p = mset [0..<n]"

lemma permutation_ofD:
  assumes "permutation_of n p"
  shows "length p = n" "set p = {..<n}" "distinct p" "l < n \<Longrightarrow> p ! l < n"
proof -
  have m: "mset p = mset [0..<n]" using assms by (simp add: permutation_of_def)
  from m have "length p = length [0..<n]" by (rule mset_eq_length)
  moreover from m have "set p = set [0..<n]" by (rule mset_eq_setD)
  moreover from m have "distinct p" by (metis distinct_upt mset_eq_imp_distinct_iff)
  ultimately show 1: "length p = n" "set p = {..<n}" "distinct p" by (simp_all add: atLeast0LessThan)
  show "p ! l < n" if "l < n" using nth_mem [of l p] that 1(1,2) by simp
qed

text \<open>Both routines write every element of their result once.\<close>

lemma copy_lines:
  assumes small: "rows * cols < u32_max" and len: "length m = rows * cols"
    and src: "\<forall>l < n_lines gen rows cols. src l < n_lines gen rows cols"
    and dst: "\<forall>l < n_lines gen rows cols. dst l < n_lines gen rows cols" "inj_on dst {..<n_lines gen rows cols}"
  shows "\<exists>m'. rfold (\<lambda>l. rfold (\<lambda>x new. rbind (rnth m (line_ix gen cols (src l) x)) (rupd new (line_ix gen cols (dst l) x)))
        [0..<line_length gen rows cols]) [0..<n_lines gen rows cols] m = Inr m' \<and> length m' = rows * cols
     \<and> (\<forall>l < n_lines gen rows cols. \<forall>x < line_length gen rows cols.
          m' ! line_ix gen cols (dst l) x = m ! line_ix gen cols (src l) x)"
proof -
  let ?L = "n_lines gen rows cols" and ?n = "line_length gen rows cols"
  let ?ps = "List.product [0..<?L] [0..<?n]"
  let ?pos = "\<lambda>p. line_ix gen cols (dst (fst p)) (snd p)" and ?val = "\<lambda>p. m ! line_ix gen cols (src (fst p)) (snd p)"
  let ?f = "\<lambda>(l, x) new. rbind (rnth m (line_ix gen cols (src l) x)) (rupd new (line_ix gen cols (dst l) x))"
  have "\<exists>m'. rfold ?f ?ps m = Inr m' \<and> length m' = rows * cols \<and> (\<forall>p \<in> set ?ps. m' ! ?pos p = ?val p)
     \<and> (\<forall>i. i \<notin> ?pos ` set ?ps \<longrightarrow> m' ! i = m ! i)"
  proof (rule rfold_writes)
    show "?f p out = Inr (out[?pos p := ?val p])" if a: "p \<in> set ?ps" "length out = rows * cols" for p and out :: "'a list"
    proof -
      obtain l x where p: "p = (l, x)" "l < ?L" "x < ?n" using a(1) by auto
      then show ?thesis using a(2) src dst(1) line_ix_ok(2) [OF small] len by simp
    qed
    show "?pos p < rows * cols" if a: "p \<in> set ?ps" for p
    proof -
      obtain l x where p: "p = (l, x)" "l < ?L" "x < ?n" using a by auto
      then show ?thesis using dst(1) line_ix_ok(2) [OF small] by simp
    qed
    show "inj_on ?pos (set ?ps)"
    proof (rule inj_onI)
      fix p q assume p: "p \<in> set ?ps" "q \<in> set ?ps" and e: "?pos p = ?pos q"
      then have "dst (fst p) = dst (fst q)" "snd p = snd q"
        using line_ix_inj [OF small, of "dst (fst p)" gen "snd p" "dst (fst q)" "snd q"] dst(1) by auto
      moreover from this(1) have "fst p = fst q" using dst(2) p by (auto dest: inj_onD)
      ultimately show "p = q" by (simp add: prod_eq_iff)
    qed
    show "distinct ?ps" by (simp add: distinct_product)
  qed (rule len)
  then show ?thesis unfolding rfold_product by auto
qed

text \<open>
  C29: \<open>organizeMatrixBack\<close> undoes \<open>organizeMatrix\<close>, for every matrix and every table that is a
  permutation of its lines, and line \<open>l\<close> of the reordered matrix is line \<open>table[l]\<close> of the matrix.
\<close>

theorem organize_roundtrip:
  assumes len: "length m = rows * cols" and small: "rows * cols < u32_max"
    and table: "permutation_of (n_lines gen_type rows cols) table"
  shows "\<exists>m'. organizeMatrix m rows cols table gen_type = Inr m' \<and> organizeMatrixBack m' rows cols table gen_type = Inr m
     \<and> (\<forall>l < n_lines gen_type rows cols. \<forall>x < line_length gen_type rows cols.
          m' ! line_ix gen_type cols l x = m ! line_ix gen_type cols (table ! l) x)"
proof -
  let ?L = "n_lines gen_type rows cols" and ?n = "line_length gen_type rows cols"
  note p = permutation_ofD [OF table]
  have u: "umul rows cols = rows * cols" using small by (simp add: u32_simps)
  have lt: "\<forall>l < ?L. table ! l < ?L" using p(4) by blast
  have inj: "inj_on ((!) table) {..<?L}" using p(1,3) by (auto intro!: inj_onI simp: nth_eq_iff_index_eq)
  obtain m' where 1: "rfold (\<lambda>l. rfold (\<lambda>x new. rbind (rnth m (line_ix gen_type cols (table ! l) x)) (rupd new (line_ix gen_type cols l x)))
        [0..<?n]) [0..<?L] m = Inr m'" "length m' = rows * cols"
     "\<forall>l < ?L. \<forall>x < ?n. m' ! line_ix gen_type cols l x = m ! line_ix gen_type cols (table ! l) x"
    using copy_lines [OF small len lt, of "\<lambda>l. l"] by auto
  have o1: "organizeMatrix m rows cols table gen_type = Inr m'"
    unfolding organizeMatrix_def copy_matrix_def u 1(1) [symmetric] using len p(1) by (auto intro!: rfold_cong)
  obtain m'' where 2: "rfold (\<lambda>l. rfold (\<lambda>x new. rbind (rnth m' (line_ix gen_type cols l x)) (rupd new (line_ix gen_type cols (table ! l) x)))
        [0..<?n]) [0..<?L] m' = Inr m''" "length m'' = rows * cols"
     "\<forall>l < ?L. \<forall>x < ?n. m'' ! line_ix gen_type cols (table ! l) x = m' ! line_ix gen_type cols l x"
    using copy_lines [OF small 1(2) _ lt inj, of "\<lambda>l. l"] by auto
  have o2: "organizeMatrixBack m' rows cols table gen_type = Inr m''"
    unfolding organizeMatrixBack_def copy_matrix_def u 2(1) [symmetric] using 1(2) p(1) by (auto intro!: rfold_cong)
  have "m'' = m"
  proof (rule nth_equalityI)
    fix i assume "i < length m''"
    then obtain l x where i: "l < ?L" "x < ?n" "line_ix gen_type cols l x = i"
      using line_ix_surj [OF small, of i gen_type] 2(2) by auto
    then obtain k where "k < ?L" "table ! k = l" using p(1,2) by (metis in_set_conv_nth lessThan_iff)
    with 1(3) 2(3) i show "m'' ! i = m ! i" by auto
  qed (simp add: 2(2) len)
  with o1 o2 1(3) show ?thesis by blast
qed

theorem organize_roundtrip_witness:
  "\<exists>m'. organizeMatrix [1, 2, 3, 4, 5, 6 :: int] 3 2 [2, 0, 1] GEN_BY_ROWS = Inr m' \<and> m' ! 0 = 5
     \<and> organizeMatrixBack m' 3 2 [2, 0, 1] GEN_BY_ROWS = Inr [1, 2, 3, 4, 5, 6]"
proof -
  have t: "permutation_of (n_lines GEN_BY_ROWS 3 2) [2, 0, 1]"
    by (simp add: permutation_of_def n_lines_def upt_rec add_mset_commute)
  obtain m' where 1: "organizeMatrix [1, 2, 3, 4, 5, 6 :: int] 3 2 [2, 0, 1] GEN_BY_ROWS = Inr m'"
     "organizeMatrixBack m' 3 2 [2, 0, 1] GEN_BY_ROWS = Inr [1, 2, 3, 4, 5, 6]"
     "\<forall>l < n_lines GEN_BY_ROWS 3 2. \<forall>x < line_length GEN_BY_ROWS 3 2.
        m' ! line_ix GEN_BY_ROWS 2 l x = [1, 2, 3, 4, 5, 6 :: int] ! line_ix GEN_BY_ROWS 2 ([2, 0, 1] ! l) x"
    using organize_roundtrip [OF _ _ t, of "[1, 2, 3, 4, 5, 6 :: int]"] by (auto simp: u32_max_def)
  from 1(3) [rule_format, of 0 0] have "m' ! 0 = 5"
    by (simp add: n_lines_def line_length_def line_ix_def mat_ix_def uadd_def umul_def u32_max_def)
  with 1(1,2) show ?thesis by blast
qed


section \<open>The table of the ordering\<close>

lemma cluster_size_ok:
  assumes "\<forall>x < n. ix x < length m"
  shows "cluster_size m ix n = Inr (max 3 (length (nz m ix n)))"
proof -
  have "k \<le> n \<Longrightarrow> rfold (\<lambda>x k. rbind (rnth m (ix x)) (\<lambda>v. Inr (if v \<noteq> 0 then k + 1 else k))) [0..<k] 0
      = Inr (length (nz m ix k))" for k
    by (induction k) (use assms in \<open>simp_all add: rfold_append nz_Suc nz_0\<close>)
  from this [of n] show ?thesis by (simp add: cluster_size_def max_def)
qed

lemma length_nz: "length (nz m ix n) \<le> n"
  using length_filter_le [of "\<lambda>e. snd e \<noteq> 0" "map (\<lambda>x. (x, m ! ix x)) [0..<n]"] by (simp add: nz_def)

text \<open>The sizes follow the table through every exchange.\<close>

definition table_ok :: "nat \<Rightarrow> (nat \<Rightarrow> nat) \<Rightarrow> nat list \<times> nat list \<Rightarrow> bool" where
  "table_ok n sz = (\<lambda>(sizes, table). permutation_of n table \<and> sizes = map sz table)"

lemma swap_both_ok:
  assumes "table_ok n sz (sizes, table)" and "i < n" "j < n"
  shows "swap_both i j (sizes, table) = Inr (swap_at i j sizes, swap_at i j table)"
    and "table_ok n sz (swap_at i j sizes, swap_at i j table)"
proof -
  have t: "permutation_of n table" "sizes = map sz table" using assms(1) by (simp_all add: table_ok_def)
  have l: "length table = n" by (rule permutation_ofD(1) [OF t(1)])
  show "swap_both i j (sizes, table) = Inr (swap_at i j sizes, swap_at i j table)"
    using assms(2,3) l t(2) by (simp add: swap_both_def)
  have "mset (swap_at i j table) = mset table" using assms(2,3) l by (simp add: swap_at_def mset_swap)
  then show "table_ok n sz (swap_at i j sizes, swap_at i j table)"
    using t l assms(2,3) by (simp add: table_ok_def permutation_of_def swap_at_def map_update)
qed

lemma nth_swap_at: "i < length xs \<Longrightarrow> j < length xs \<Longrightarrow> x < length xs \<Longrightarrow>
    swap_at i j xs ! x = (if x = j then xs ! i else if x = i then xs ! j else xs ! x)"
  by (simp add: swap_at_def nth_list_update)

text \<open>The first pass: \<open>k\<close> lines are selected, they are the ones among the first \<open>i\<close> that do not fit.\<close>

definition first_pass :: "nat \<Rightarrow> (nat \<Rightarrow> nat) \<Rightarrow> nat \<Rightarrow> nat \<Rightarrow> nat \<times> nat list \<times> nat list \<Rightarrow> bool" where
  "first_pass n sz num_ms i = (\<lambda>(k, sizes, table). table_ok n sz (sizes, table) \<and> k \<le> i
     \<and> (\<forall>x < k. num_ms < sizes ! x) \<and> (\<forall>x. k \<le> x \<longrightarrow> x < i \<longrightarrow> sizes ! x \<le> num_ms))"

lemma select_large_ok:
  assumes p: "first_pass n sz num_ms i s" and i: "i < n"
  shows "\<exists>s'. select_large num_ms i s = Inr s' \<and> first_pass n sz num_ms (Suc i) s'"
proof -
  obtain k sizes table where s: "s = (k, sizes, table)" by (cases s)
  have t: "table_ok n sz (sizes, table)" "k \<le> i" "\<forall>x < k. num_ms < sizes ! x"
    "\<forall>x. k \<le> x \<longrightarrow> x < i \<longrightarrow> sizes ! x \<le> num_ms"
    using p by (simp_all add: s first_pass_def)
  have len: "length sizes = n" using t(1) permutation_ofD(1) by (auto simp: table_ok_def)
  show ?thesis
  proof (cases "num_ms < sizes ! i")
    case True
    have sw: "swap_both i k (sizes, table) = Inr (swap_at i k sizes, swap_at i k table)"
      "table_ok n sz (swap_at i k sizes, swap_at i k table)"
      using swap_both_ok [OF t(1) i, of k] t(2) i by simp_all
    have "first_pass n sz num_ms (Suc i) (k + 1, swap_at i k sizes, swap_at i k table)"
      using sw(2) t(2-4) True i len by (auto simp: first_pass_def nth_swap_at less_Suc_eq)
    then show ?thesis using True i len sw(1) by (simp add: s select_large_def)
  next
    case False
    then have "first_pass n sz num_ms (Suc i) s" using t by (auto simp: s first_pass_def less_Suc_eq)
    then show ?thesis using False i len by (simp add: s select_large_def)
  qed
qed

text \<open>The choice of the next line.\<close>

lemma find_greater_ok:
  "case find_greater num_ms sizes used k of
     None \<Rightarrow> \<forall>i. k \<le> i \<longrightarrow> i < length sizes \<longrightarrow> num_ms < uadd (sizes ! i) used
   | Some g \<Rightarrow> k \<le> g \<and> g < length sizes \<and> uadd (sizes ! g) used \<le> num_ms
       \<and> (\<forall>i. k \<le> i \<longrightarrow> i < length sizes \<longrightarrow> uadd (sizes ! i) used \<le> num_ms \<longrightarrow> sizes ! i \<le> sizes ! g)"
proof -
  let ?f = "\<lambda>i r. if uadd (sizes ! i) used \<le> num_ms then
          (case r of None \<Rightarrow> Some i | Some g \<Rightarrow> if sizes ! g < sizes ! i then Some i else Some g) else r"
  have "k \<le> n \<Longrightarrow> case fold ?f [k..<n] None of
       None \<Rightarrow> \<forall>i. k \<le> i \<longrightarrow> i < n \<longrightarrow> num_ms < uadd (sizes ! i) used
     | Some g \<Rightarrow> k \<le> g \<and> g < n \<and> uadd (sizes ! g) used \<le> num_ms
         \<and> (\<forall>i. k \<le> i \<longrightarrow> i < n \<longrightarrow> uadd (sizes ! i) used \<le> num_ms \<longrightarrow> sizes ! i \<le> sizes ! g)" for n
  proof (induction n)
    case (Suc n)
    show ?case
    proof (cases "k \<le> n")
      case True
      with Suc.IH show ?thesis
        by (cases "fold ?f [k..<n] None") (auto simp: less_Suc_eq)
    next
      case False
      then show ?thesis using Suc.prems by (simp add: upt_rec)
    qed
  qed simp
  from this [of "length sizes"] show ?thesis
    by (cases "k \<le> length sizes") (simp_all add: find_greater_def)
qed

text \<open>
  The loop over the groups. A pass that finds no line empties the array, and then the next pass
  finds one, since every remaining line fits the empty array.
\<close>

lemma select_groups_ok:
  assumes fits: "\<forall>l < n. sz l + num_ms < u32_max"
  shows "\<lbrakk>table_ok n sz (sizes, table); k \<le> n; used \<le> num_ms; \<forall>x. k \<le> x \<longrightarrow> x < n \<longrightarrow> sizes ! x \<le> num_ms\<rbrakk>
    \<Longrightarrow> \<exists>sizes' table'. select_groups num_ms k used (sizes, table) = Some (Inr (sizes', table')) \<and> table_ok n sz (sizes', table')
      \<and> (\<forall>x < k. table' ! x = table ! x) \<and> (\<forall>x. k \<le> x \<longrightarrow> x < n \<longrightarrow> sizes' ! x \<le> num_ms)"
proof (induction "n - k" arbitrary: k used sizes table)
  case 0
  then have "k = n" by simp
  moreover have "length sizes = n" using "0.prems"(1) permutation_ofD(1) by (auto simp: table_ok_def)
  ultimately show ?case using "0.prems" by (subst select_groups.simps) simp
next
  case (Suc d)
  note t = Suc.prems(1)
  have k: "k < n" and d: "d = n - Suc k" using Suc.hyps(2) by simp_all
  have p: "permutation_of n table" "sizes = map sz table" using t by (simp_all add: table_ok_def)
  have len: "length sizes = n" "length table = n" using permutation_ofD(1) [OF p(1)] p(2) by simp_all
  have sz: "sizes ! x = sz (table ! x)" "table ! x < n" if "x < n" for x
    using that len p permutation_ofD(4) [OF p(1)] by simp_all
  have u: "uadd (sizes ! x) v = sizes ! x + v" if "x < n" "v \<le> num_ms" for x v
  proof -
    have "sizes ! x + v < u32_max" using fits [rule_format, OF sz(2) [OF that(1)]] sz(1) [OF that(1)] that(2) by simp
    then show ?thesis by (rule uadd_small)
  qed
  have step: "\<exists>sizes' table'. select_groups num_ms k v (sizes, table) = Some (Inr (sizes', table')) \<and> table_ok n sz (sizes', table')
      \<and> (\<forall>x < k. table' ! x = table ! x) \<and> (\<forall>x. k \<le> x \<longrightarrow> x < n \<longrightarrow> sizes' ! x \<le> num_ms)"
    if f: "find_greater num_ms sizes v k = Some g" and v: "v \<le> num_ms" for v g
  proof -
    have g: "k \<le> g" "g < n" "uadd (sizes ! g) v \<le> num_ms"
      using find_greater_ok [where num_ms = num_ms and sizes = sizes and used = v and k = k] f len by simp_all
    have v': "uadd v (sizes ! g) \<le> num_ms" using g(3) by (simp add: uadd_def add.commute)
    note sw = swap_both_ok [OF t g(2) k]
    have fit: "\<forall>x. Suc k \<le> x \<longrightarrow> x < n \<longrightarrow> swap_at g k sizes ! x \<le> num_ms"
      using Suc.prems(4) g k len by (simp add: nth_swap_at)
    obtain sizes' table' where r: "select_groups num_ms (Suc k) (uadd v (sizes ! g)) (swap_at g k sizes, swap_at g k table) = Some (Inr (sizes', table'))"
      "table_ok n sz (sizes', table')" "\<forall>x < Suc k. table' ! x = swap_at g k table ! x"
      "\<forall>x. Suc k \<le> x \<longrightarrow> x < n \<longrightarrow> sizes' ! x \<le> num_ms"
      using Suc.hyps(1) [OF d sw(2) _ v' fit] k by auto
    have "select_groups num_ms k v (sizes, table) = Some (Inr (sizes', table'))"
      by (subst select_groups.simps) (use k len f sw(1) r(1) in simp)
    moreover have "\<forall>x < k. table' ! x = table ! x" using r(3) g k len by (simp add: nth_swap_at)
    moreover have "sizes' ! k \<le> num_ms"
    proof -
      have l': "length table' = n" "sizes' = map sz table'" using r(2) permutation_ofD(1) by (auto simp: table_ok_def)
      have "table' ! k = table ! g" using r(3) g k len by (simp add: nth_swap_at)
      then have "sizes' ! k = sizes ! g" using l' k g sz(1) by simp
      then show ?thesis using Suc.prems(4) g by simp
    qed
    then have "\<forall>x. k \<le> x \<longrightarrow> x < n \<longrightarrow> sizes' ! x \<le> num_ms" using r(4) by (metis le_eq_less_or_eq Suc_leI)
    ultimately show ?thesis using r(2) by blast
  qed
  show ?case
  proof (cases "find_greater num_ms sizes used k")
    case (Some g)
    then show ?thesis by (rule step) (rule Suc.prems(3))
  next
    case None
    have "uadd (sizes ! k) 0 \<le> num_ms" using u [OF k, of 0] Suc.prems(4) k by simp
    then have "find_greater num_ms sizes 0 k \<noteq> None"
      using find_greater_ok [where num_ms = num_ms and sizes = sizes and used = 0 and k = k] k len
      by (cases "find_greater num_ms sizes 0 k") (auto simp: not_less [symmetric])
    then obtain g where "find_greater num_ms sizes 0 k = Some g" by auto
    from step [OF this] have "\<exists>sizes' table'. select_groups num_ms k 0 (sizes, table) = Some (Inr (sizes', table')) \<and> table_ok n sz (sizes', table')
      \<and> (\<forall>x < k. table' ! x = table ! x) \<and> (\<forall>x. k \<le> x \<longrightarrow> x < n \<longrightarrow> sizes' ! x \<le> num_ms)" by simp
    moreover have "select_groups num_ms k used (sizes, table) = select_groups num_ms k 0 (sizes, table)"
      by (subst select_groups.simps) (use k len None in simp)
    ultimately show ?thesis by simp
  qed
qed

text \<open>
  C30: the ordering ends for every matrix and every number of multipliers, and its table is a
  permutation of the lines with those that do not fit the array first.
\<close>

theorem ordering_permutation:
  assumes len: "length m = rows * cols" and small: "rows * cols < u32_max" "max 3 (line_length gen_type rows cols) + num_ms < u32_max"
  shows "\<exists>table k. calculateOrdering m rows cols gen_type num_ms = Some (Inr table) \<and> permutation_of (n_lines gen_type rows cols) table
     \<and> k \<le> n_lines gen_type rows cols
     \<and> (\<forall>x < n_lines gen_type rows cols. x < k \<longleftrightarrow>
          num_ms < max 3 (length (nz m (line_ix gen_type cols (table ! x)) (line_length gen_type rows cols))))"
proof -
  let ?L = "n_lines gen_type rows cols" and ?n = "line_length gen_type rows cols"
  define sz where "sz l = max 3 (length (nz m (line_ix gen_type cols l) ?n))" for l
  have cs: "cluster_size m (line_ix gen_type cols l) ?n = Inr (sz l)" if "l < ?L" for l
    unfolding sz_def using line_ix_ok(2) [OF small(1) that] len by (intro cluster_size_ok) simp
  have "k \<le> ?L \<Longrightarrow> rfold (\<lambda>l sizes. rbind (cluster_size m (line_ix gen_type cols l) ?n) (\<lambda>k. Inr (sizes @ [k]))) [0..<k] []
      = Inr (map sz [0..<k])" for k
    by (induction k) (use cs in \<open>simp_all add: rfold_append\<close>)
  then have 1: "rfold (\<lambda>l sizes. rbind (cluster_size m (line_ix gen_type cols l) ?n) (\<lambda>k. Inr (sizes @ [k]))) [0..<?L] []
      = Inr (map sz [0..<?L])" by simp
  have "first_pass ?L sz num_ms 0 (0, map sz [0..<?L], [0..<?L])"
    by (simp add: first_pass_def table_ok_def permutation_of_def)
  from rfold_upt_total [where I = "first_pass ?L sz num_ms" and f = "select_large num_ms", OF this select_large_ok]
  obtain s where s: "rfold (select_large num_ms) [0..<?L] (0, map sz [0..<?L], [0..<?L]) = Inr s" "first_pass ?L sz num_ms ?L s"
    by blast
  obtain k sizes table where s': "s = (k, sizes, table)" by (cases s)
  have t: "table_ok ?L sz (sizes, table)" "k \<le> ?L" "\<forall>x < k. num_ms < sizes ! x"
    "\<forall>x. k \<le> x \<longrightarrow> x < ?L \<longrightarrow> sizes ! x \<le> num_ms" using s(2) by (simp_all add: s' first_pass_def)
  have fits: "\<forall>l < ?L. sz l + num_ms < u32_max"
  proof (intro allI impI)
    fix l
    have "sz l \<le> max 3 ?n" using length_nz [of m "line_ix gen_type cols l" ?n] unfolding sz_def by linarith
    then show "sz l + num_ms < u32_max" using small(2) by linarith
  qed
  obtain sizes' table' where r: "select_groups num_ms k 0 (sizes, table) = Some (Inr (sizes', table'))" "table_ok ?L sz (sizes', table')"
      "\<forall>x < k. table' ! x = table ! x" "\<forall>x. k \<le> x \<longrightarrow> x < ?L \<longrightarrow> sizes' ! x \<le> num_ms"
    using select_groups_ok [OF fits t(1,2) le0 t(4)] by blast
  have q: "sizes = map sz table" "sizes' = map sz table'" "length table = ?L" "length table' = ?L" "permutation_of ?L table'"
    using t(1) r(2) permutation_ofD(1) by (auto simp: table_ok_def)
  have "x < k \<longleftrightarrow> num_ms < sz (table' ! x)" if "x < ?L" for x
  proof (cases "x < k")
    case True
    then show ?thesis using t(3) r(3) q that by auto
  next
    case False
    then have "sizes' ! x \<le> num_ms" using r(4) that by simp
    then show ?thesis using False q that by simp
  qed
  moreover have "calculateOrdering m rows cols gen_type num_ms = Some (Inr table')"
    by (simp add: calculateOrdering_def Let_def 1 s(1) s' r(1))
  ultimately show ?thesis using q(5) t(2) unfolding sz_def by blast
qed

theorem ordering_permutation_witness:
  "\<exists>table. calculateOrdering [1, 0, 0, 0, 2, 3, 4, 5, 0, 6, 7, 8 :: int] 3 4 GEN_BY_ROWS 3 = Some (Inr table)
     \<and> permutation_of 3 table \<and> table ! 0 = 1"
proof -
  let ?m = "[1, 0, 0, 0, 2, 3, 4, 5, 0, 6, 7, 8 :: int]"
  have z: "nz ?m (line_ix GEN_BY_ROWS 4 l) 4 = (if l = 0 then [(0, 1)] else if l = 1 then [(0, 2), (1, 3), (2, 4), (3, 5)]
      else [(1, 6), (2, 7), (3, 8)])" if "l < 3" for l
  proof -
    have "l = 0 \<or> l = 1 \<or> l = 2" using that by linarith
    then show ?thesis
      by (auto simp: nz_def line_ix_def mat_ix_def uadd_def umul_def u32_max_def upt_rec)
  qed
  have L: "n_lines GEN_BY_ROWS 3 4 = 3" "line_length GEN_BY_ROWS 3 4 = 4" by (simp_all add: n_lines_def line_length_def)
  have small: "length ?m = 3 * 4" "3 * 4 < u32_max" "max 3 4 + 3 < u32_max" by (simp_all add: u32_max_def)
  obtain table k where t: "calculateOrdering ?m 3 4 GEN_BY_ROWS 3 = Some (Inr table)" "permutation_of 3 table" "k \<le> 3"
     "\<forall>x < 3. x < k \<longleftrightarrow> 3 < max 3 (length (nz ?m (line_ix GEN_BY_ROWS 4 (table ! x)) 4))"
    using ordering_permutation [of ?m 3 4 GEN_BY_ROWS 3, unfolded L, OF small] by (elim exE conjE) (rule that)
  note p = permutation_ofD [OF t(2)]
  have l: "3 < max 3 (length (nz ?m (line_ix GEN_BY_ROWS 4 (table ! x)) 4)) \<longleftrightarrow> table ! x = 1" if "x < 3" for x
    using z [OF p(4) [OF that]] by simp
  obtain x where x: "x < 3" "table ! x = 1" using p(1,2) by (metis in_set_conv_nth lessThan_iff one_less_numeral_iff semiring_norm(77))
  then have "x < k" using t(4) l by blast
  then have "0 < k" by simp
  then have "table ! 0 = 1" using t(4) l [of 0] by auto
  with t(1,2) show ?thesis by blast
qed

end
