(* ===== verification/MSwitch.thy ===== *)
theory MSwitch
  imports Links
begin

text \<open>
  A multiplier switch of the linear multiplier network, \<^verbatim>\<open>MSwitch.cpp\<close>. It keeps its weights in a
  fifo that it reads in a circle, takes its activations from the distribution network or, after the
  first window of a row, from its right neighbour, sends the products to the reduction network and
  the activations to its left neighbour. One switch of a virtual neuron may forward partial sums
  instead.
\<close>

section \<open>State\<close>

record MSwitchStats =
  mss_total_cycles :: counter
  mss_n_multiplications :: counter
  mss_n_input_forwardings_send :: counter
  mss_n_input_forwardings_receive :: counter
  mss_n_inputs_receive :: counter
  mss_n_weights_receive :: counter
  mss_n_weight_fifo_flush :: counter
  mss_n_psums_receive :: counter
  mss_n_psum_forwarding_send :: counter
  mss_n_configurations :: counter

definition MSwitchStats_reset :: MSwitchStats where
  "MSwitchStats_reset =
     \<lparr>mss_total_cycles = 0, mss_n_multiplications = 0, mss_n_input_forwardings_send = 0,
      mss_n_input_forwardings_receive = 0, mss_n_inputs_receive = 0, mss_n_weights_receive = 0,
      mss_n_weight_fifo_flush = 0, mss_n_psums_receive = 0, mss_n_psum_forwarding_send = 0,
      mss_n_configurations = 0\<rparr>"

text \<open>
  The two pointers to the forwarding links are \<open>None\<close> until they are set. \<open>VN\<close> is an \<open>int\<close>
  that packages receive as an \<open>unsigned int\<close>.
\<close>

record 'd MSwitch =
  ms_activation_fifo :: "'d Fifo"
  ms_forwarding_input_fifo :: "'d Fifo"
  ms_forwarding_output_fifo :: "'d Fifo"
  ms_weight_fifo :: "'d Fifo"
  ms_psum_fifo :: "'d Fifo"
  ms_outputConnection :: "cid option"
  ms_inputConnection :: "cid option"
  ms_outputForwardingConnection :: "cid option"
  ms_inputForwardingConnection :: "cid option"
  ms_latency :: nat
  ms_num :: nat
  ms_input_ports :: nat
  ms_output_ports :: nat
  ms_forwarding_ports :: nat
  ms_buffers_capacity :: nat
  ms_port_width :: nat
  ms_VN :: int
  ms_inputForwardingEnabled :: bool
  ms_outputForwardingEnabled :: bool
  ms_n_windows :: nat
  ms_n_folding :: nat
  ms_current_n_windows :: nat
  ms_current_n_folding :: nat
  ms_forward_psum :: bool
  ms_direct_forward_psum :: bool
  ms_local_cycle :: counter
  ms_stats :: MSwitchStats

definition MSwitch_new :: "nat \<Rightarrow> Config \<Rightarrow> 'd MSwitch" where
  "MSwitch_new num cfg =
     (let c = m_MSwitchCfg cfg; cap = msc_buffers_capacity c
      in \<lparr>ms_activation_fifo = Fifo_new cap, ms_forwarding_input_fifo = Fifo_new cap,
          ms_forwarding_output_fifo = Fifo_new cap, ms_weight_fifo = Fifo_new cap, ms_psum_fifo = Fifo_new cap,
          ms_outputConnection = None, ms_inputConnection = None, ms_outputForwardingConnection = None,
          ms_inputForwardingConnection = None, ms_latency = msc_latency c, ms_num = num,
          ms_input_ports = msc_input_ports c, ms_output_ports = msc_output_ports c,
          ms_forwarding_ports = msc_forwarding_ports c, ms_buffers_capacity = cap, ms_port_width = msc_port_width c,
          ms_VN = -1, ms_inputForwardingEnabled = False, ms_outputForwardingEnabled = False,
          ms_n_windows = 0, ms_n_folding = 0, ms_current_n_windows = 0, ms_current_n_folding = 0,
          ms_forward_psum = False, ms_direct_forward_psum = False, ms_local_cycle = 0,
          ms_stats = MSwitchStats_reset\<rparr>)"

definition MSwitch_resetSignals :: "'d MSwitch \<Rightarrow> 'd MSwitch res" where
  "MSwitch_resetSignals ms =
     (let ms = ms\<lparr>ms_inputForwardingEnabled := False, ms_outputForwardingEnabled := False,
                  ms_current_n_windows := 0, ms_current_n_folding := 0, ms_forward_psum := False,
                  ms_direct_forward_psum := False, ms_n_windows := 0, ms_n_folding := 0, ms_VN := -1\<rparr> in
      rbind (Fifo_drain (ms_weight_fifo ms)) (\<lambda>(_, w).
      rbind (Fifo_drain (ms_activation_fifo ms)) (\<lambda>(_, a).
      rbind (Fifo_drain (ms_psum_fifo ms)) (\<lambda>(_, p).
      rbind (Fifo_drain (ms_forwarding_output_fifo ms)) (\<lambda>(_, fo).
      rbind (Fifo_drain (ms_forwarding_input_fifo ms)) (\<lambda>(_, fi).
      Inr (ms\<lparr>ms_weight_fifo := w, ms_activation_fifo := a, ms_psum_fifo := p,
              ms_forwarding_output_fifo := fo, ms_forwarding_input_fifo := fi\<rparr>)))))))"

text \<open>\<open>unsigned int\<close> to \<open>int\<close> and back.\<close>

definition int_of_u32 :: "nat \<Rightarrow> int" where
  "int_of_u32 n = (if n < 2 ^ 31 then int n else int n - 2 ^ 32)"

definition u32_of_int :: "int \<Rightarrow> nat" where
  "u32_of_int i = nat (i mod 2 ^ 32)"

lemma u32_of_int_of_u32 [simp]: "n < u32_max \<Longrightarrow> u32_of_int (int_of_u32 n) = n"
  by (simp add: u32_of_int_def int_of_u32_def u32_max_def nat_mod_distrib)

definition MSwitch_setVirtualNeuron :: "nat \<Rightarrow> 'd MSwitch \<Rightarrow> 'd MSwitch" where
  "MSwitch_setVirtualNeuron vn ms =
     ms\<lparr>ms_VN := int_of_u32 vn, ms_stats := mss_n_configurations_update (\<lambda>n. n + 1) (ms_stats ms)\<rparr>"

definition MSwitch_setOutputConnection :: "cid option \<Rightarrow> 'd MSwitch \<Rightarrow> 'd MSwitch" where
  "MSwitch_setOutputConnection c ms = ms\<lparr>ms_outputConnection := c\<rparr>"

definition MSwitch_setInputConnection :: "cid option \<Rightarrow> 'd MSwitch \<Rightarrow> 'd MSwitch" where
  "MSwitch_setInputConnection c ms = ms\<lparr>ms_inputConnection := c\<rparr>"

definition MSwitch_setInputForwardingConnection :: "cid option \<Rightarrow> 'd MSwitch \<Rightarrow> 'd MSwitch" where
  "MSwitch_setInputForwardingConnection c ms = ms\<lparr>ms_inputForwardingConnection := c\<rparr>"

definition MSwitch_setOutputForwardingConnection :: "cid option \<Rightarrow> 'd MSwitch \<Rightarrow> 'd MSwitch" where
  "MSwitch_setOutputForwardingConnection c ms = ms\<lparr>ms_outputForwardingConnection := c\<rparr>"

definition MSwitch_setInputForwardingEnabled :: "bool \<Rightarrow> 'd MSwitch \<Rightarrow> 'd MSwitch" where
  "MSwitch_setInputForwardingEnabled b ms = ms\<lparr>ms_inputForwardingEnabled := b\<rparr>"

definition MSwitch_setOutputForwardingEnabled :: "bool \<Rightarrow> 'd MSwitch \<Rightarrow> 'd MSwitch" where
  "MSwitch_setOutputForwardingEnabled b ms = ms\<lparr>ms_outputForwardingEnabled := b\<rparr>"

definition MSwitch_setNWindows :: "nat \<Rightarrow> 'd MSwitch \<Rightarrow> 'd MSwitch" where
  "MSwitch_setNWindows n ms = ms\<lparr>ms_n_windows := n\<rparr>"

definition MSwitch_setNFolding :: "nat \<Rightarrow> 'd MSwitch \<Rightarrow> 'd MSwitch" where
  "MSwitch_setNFolding n ms = ms\<lparr>ms_n_folding := n\<rparr>"

definition MSwitch_setForwardPsum :: "bool \<Rightarrow> 'd MSwitch \<Rightarrow> 'd MSwitch" where
  "MSwitch_setForwardPsum b ms = ms\<lparr>ms_forward_psum := b\<rparr>"

definition MSwitch_setDirectForwardPsum :: "bool \<Rightarrow> 'd MSwitch \<Rightarrow> 'd MSwitch" where
  "MSwitch_setDirectForwardPsum b ms = ms\<lparr>ms_direct_forward_psum := b\<rparr>"

section \<open>The cycle\<close>

definition MSwitch_send :: "'d MSwitch \<Rightarrow> 'd store \<Rightarrow> ('d MSwitch \<times> 'd store) res" where
  "MSwitch_send ms st =
     rbind (Fifo_drain (ms_psum_fifo ms)) (\<lambda>(vector_to_send, q).
     rbind (ptr_send (ms_outputConnection ms) vector_to_send st) (\<lambda>st.
     Inr (ms\<lparr>ms_psum_fifo := q\<rparr>, st)))"

definition MSwitch_forward :: "'d DataPackage \<Rightarrow> 'd MSwitch \<Rightarrow> 'd store \<Rightarrow> ('d MSwitch \<times> 'd store) res" where
  "MSwitch_forward activation ms st =
     rbind (ptr_send (ms_outputForwardingConnection ms) [activation] st) (\<lambda>st.
     Inr (ms\<lparr>ms_stats := mss_n_input_forwardings_send_update (\<lambda>n. n + 1) (ms_stats ms)\<rparr>, st))"

text \<open>The part of \<open>receive\<close> for the forwarding link.\<close>

definition MSwitch_receive_forward ::
  "cid option \<Rightarrow> 'd MSwitch \<Rightarrow> 'd store \<Rightarrow> ('d MSwitch \<times> 'd store) res" where
  "MSwitch_receive_forward connection ms st =
     (if connection = ms_inputForwardingConnection ms then
        rbind (ptr_pending connection st) (\<lambda>b.
        if b then
          rbind (ptr_receive connection st) (\<lambda>(data_received, st).
          let ms = ms\<lparr>ms_stats := mss_n_input_forwardings_receive_update (\<lambda>n. n + 1) (ms_stats ms)\<rparr> in
          rassert (length data_received = 1)
          (rbind (rfold (\<lambda>pck ms. rassert (p_data_type pck = IACTIVATION)
               (Inr (ms\<lparr>ms_forwarding_input_fifo := Fifo_push pck (ms_forwarding_input_fifo ms)\<rparr>))) data_received ms) (\<lambda>ms.
          Inr (ms, st))))
        else Inr (ms, st))
      else Inr (ms, st))"

text \<open>A new weight after \<open>n_folding\<close> of them replaces them all.\<close>

definition MSwitch_receive_weight :: "'d DataPackage \<Rightarrow> 'd MSwitch \<Rightarrow> 'd MSwitch res" where
  "MSwitch_receive_weight pck ms =
     rbind (if Fifo_size (ms_weight_fifo ms) = ms_n_folding ms then
              rbind (Fifo_drain (ms_weight_fifo ms)) (\<lambda>(_, q).
              Inr (ms\<lparr>ms_weight_fifo := q, ms_stats := mss_n_weight_fifo_flush_update (\<lambda>n. n + 1) (ms_stats ms)\<rparr>))
            else Inr ms) (\<lambda>ms.
     Inr (ms\<lparr>ms_stats := mss_n_weights_receive_update (\<lambda>n. n + 1) (ms_stats ms),
             ms_weight_fifo := Fifo_push pck (ms_weight_fifo ms)\<rparr>))"

definition MSwitch_receive_package :: "'d DataPackage \<Rightarrow> 'd MSwitch \<Rightarrow> 'd MSwitch res" where
  "MSwitch_receive_package pck ms = (case p_data_type pck of
       IACTIVATION \<Rightarrow> Inr (ms\<lparr>ms_activation_fifo := Fifo_push pck (ms_activation_fifo ms),
           ms_stats := mss_n_inputs_receive_update (\<lambda>n. n + 1) (ms_stats ms)\<rparr>)
     | WEIGHT \<Rightarrow> MSwitch_receive_weight pck ms
     | PSUM \<Rightarrow> Inr (ms\<lparr>ms_activation_fifo := Fifo_push pck (ms_activation_fifo ms),
           ms_stats := mss_n_psums_receive_update (\<lambda>n. n + 1) (ms_stats ms)\<rparr>)
     | OACTIVATION \<Rightarrow> Inr ms)"

definition MSwitch_receive ::
  "cid option \<Rightarrow> 'd MSwitch \<Rightarrow> 'd store \<Rightarrow> ('d MSwitch \<times> 'd store) res" where
  "MSwitch_receive connection ms st =
     rbind (MSwitch_receive_forward connection ms st) (\<lambda>(ms, st).
     rbind (ptr_pending connection st) (\<lambda>b.
     if b then
       rbind (ptr_receive connection st) (\<lambda>(data_received, st).
       rassert (length data_received = 1)
       (rbind (rfold MSwitch_receive_package data_received ms) (\<lambda>ms. Inr (ms, st))))
     else Inr (ms, st)))"

definition MSwitch_perform_operation_2_operands ::
  "'d::times DataPackage \<Rightarrow> 'd DataPackage \<Rightarrow> 'd MSwitch \<Rightarrow> 'd DataPackage \<times> 'd MSwitch" where
  "MSwitch_perform_operation_2_operands pck_left pck_right ms =
     (DataPackage_psum sizeof_data_t (p_data pck_left * p_data pck_right) PSUM (ms_num ms) (u32_of_int (ms_VN ms)) MULTIPLIER,
      ms\<lparr>ms_stats := mss_n_multiplications_update (\<lambda>n. n + 1) (ms_stats ms)\<rparr>)"

text \<open>A partial sum is received, copied without its destinations and sent on.\<close>

definition MSwitch_forward_psum :: "'d MSwitch \<Rightarrow> 'd store \<Rightarrow> ('d MSwitch \<times> 'd store) res" where
  "MSwitch_forward_psum ms st =
     rbind (Fifo_pop (ms_activation_fifo ms)) (\<lambda>(psum, q).
     let psum_fwd = DataPackage_psum (p_size_package psum) (p_data psum) PSUM (p_source psum) (u32_of_int (ms_VN ms))
                      (p_operation_mode psum);
         ms = ms\<lparr>ms_activation_fifo := q, ms_psum_fifo := Fifo_push psum_fwd (ms_psum_fifo ms),
                 ms_stats := mss_n_psum_forwarding_send_update (\<lambda>n. n + 1) (ms_stats ms)\<rparr>
     in MSwitch_send ms st)"

definition MSwitch_zero_psum :: "'d::zero MSwitch \<Rightarrow> 'd store \<Rightarrow> ('d MSwitch \<times> 'd store) res" where
  "MSwitch_zero_psum ms st =
     (let zero_psum = DataPackage_psum sizeof_data_t 0 PSUM 0 (u32_of_int (ms_VN ms)) ADDER
      in MSwitch_send (ms\<lparr>ms_psum_fifo := Fifo_push zero_psum (ms_psum_fifo ms)\<rparr>) st)"

text \<open>The counter of foldings of a switch that forwards partial sums.\<close>

definition MSwitch_count_folding :: "'d MSwitch \<Rightarrow> 'd MSwitch" where
  "MSwitch_count_folding ms =
     (let n = uadd (ms_current_n_folding ms) 1
      in ms\<lparr>ms_current_n_folding := if n = ms_n_folding ms then 0 else n\<rparr>)"

text \<open>The counters of a multiplier: foldings of a window, windows of a row.\<close>

definition MSwitch_count_window :: "'d MSwitch \<Rightarrow> 'd MSwitch" where
  "MSwitch_count_window ms =
     (let n = uadd (ms_current_n_folding ms) 1; w = uadd (ms_current_n_windows ms) 1
      in if n = ms_n_folding ms
         then ms\<lparr>ms_current_n_windows := (if w = ms_n_windows ms then 0 else w), ms_current_n_folding := 0\<rparr>
         else ms\<lparr>ms_current_n_folding := n\<rparr>)"

text \<open>The copy of the activation goes to the left neighbour, except in the last window of a row.\<close>

definition MSwitch_forward_activation ::
  "'d DataPackage \<Rightarrow> 'd MSwitch \<Rightarrow> 'd store \<Rightarrow> ('d MSwitch \<times> 'd store) res" where
  "MSwitch_forward_activation activation ms st =
     (if ms_current_n_windows ms < usub (ms_n_windows ms) 1 \<and> ms_outputForwardingEnabled ms then
        rbind (DataPackage_copy activation) (\<lambda>copied.
        rbind (Fifo_pop (Fifo_push copied (ms_forwarding_output_fifo ms))) (\<lambda>(activation_forwarded, q).
        MSwitch_forward activation_forwarded (ms\<lparr>ms_forwarding_output_fifo := q\<rparr>) st))
      else Inr (ms, st))"

text \<open>\<open>activation\<close> has been popped; the weight moves to the end of its fifo.\<close>

definition MSwitch_multiply ::
  "'d::times DataPackage \<Rightarrow> 'd MSwitch \<Rightarrow> 'd store \<Rightarrow> ('d MSwitch \<times> 'd store) res" where
  "MSwitch_multiply activation ms st =
     rbind (Fifo_pop (ms_weight_fifo ms)) (\<lambda>(weight, q).
     let ms = ms\<lparr>ms_weight_fifo := Fifo_push weight q\<rparr>;
         (pck_result, ms) = MSwitch_perform_operation_2_operands activation weight ms;
         ms = ms\<lparr>ms_psum_fifo := Fifo_push pck_result (ms_psum_fifo ms)\<rparr>
     in rbind (MSwitch_send ms st) (\<lambda>(ms, st).
        rbind (MSwitch_forward_activation activation ms st) (\<lambda>(ms, st).
        Inr (MSwitch_count_window ms, st))))"

definition MSwitch_normal_cycle ::
  "'d::times MSwitch \<Rightarrow> 'd store \<Rightarrow> ('d MSwitch \<times> 'd store) res" where
  "MSwitch_normal_cycle ms st =
     rbind (MSwitch_receive (ms_inputConnection ms) ms st) (\<lambda>(ms, st).
     rbind (if ms_inputForwardingEnabled ms then MSwitch_receive (ms_inputForwardingConnection ms) ms st
            else Inr (ms, st)) (\<lambda>(ms, st).
     let neighbour = (ms_inputForwardingEnabled ms \<and> 0 < ms_current_n_windows ms);
         fifo_to_read = (if neighbour then ms_forwarding_input_fifo ms else ms_activation_fifo ms)
     in if \<not> Fifo_isEmpty fifo_to_read \<and> ms_n_folding ms \<le> Fifo_size (ms_weight_fifo ms) then
          rbind (Fifo_pop fifo_to_read) (\<lambda>(activation, q).
          MSwitch_multiply activation
            (if neighbour then ms\<lparr>ms_forwarding_input_fifo := q\<rparr> else ms\<lparr>ms_activation_fifo := q\<rparr>) st)
        else Inr (ms, st)))"

definition MSwitch_cycle ::
  "'d::{zero,times} MSwitch \<Rightarrow> 'd store \<Rightarrow> ('d MSwitch \<times> 'd store) res" where
  "MSwitch_cycle ms st =
     (let ms = ms\<lparr>ms_local_cycle := ms_local_cycle ms + 1,
                  ms_stats := mss_total_cycles_update (\<lambda>n. n + 1) (ms_stats ms)\<rparr> in
      if ms_direct_forward_psum ms then
        rbind (MSwitch_receive (ms_inputConnection ms) ms st) (\<lambda>(ms, st).
        if \<not> Fifo_isEmpty (ms_activation_fifo ms) then MSwitch_forward_psum ms st else Inr (ms, st))
      else if ms_forward_psum ms \<and> 0 < ms_current_n_folding ms then
        rbind (MSwitch_receive (ms_inputConnection ms) ms st) (\<lambda>(ms, st).
        if \<not> Fifo_isEmpty (ms_activation_fifo ms) then
          rbind (MSwitch_forward_psum ms st) (\<lambda>(ms, st). Inr (MSwitch_count_folding ms, st))
        else Inr (ms, st))
      else if ms_forward_psum ms \<and> ms_current_n_folding ms = 0 then
        rbind (MSwitch_zero_psum ms st) (\<lambda>(ms, st). Inr (MSwitch_count_folding ms, st))
      else MSwitch_normal_cycle ms st)"

end
