(* ===== verification/LinearMN.thy ===== *)
theory LinearMN
  imports MSwitch DistNet
begin

text \<open>
  The linear multiplier network, \<^verbatim>\<open>MSNetwork.cpp\<close>, and the compiler of its signals,
  \<^verbatim>\<open>CompilerMSN.cpp\<close>: which virtual neuron a switch belongs to, how many weights it
  folds, whether it forwards partial sums, and which neighbours share their activations.
\<close>

section \<open>The compiler\<close>

record CompilerMSN =
  ck_ms_vn_configuration :: "(nat \<times> nat) list"
  ck_ms_fwsend_enabled :: "(nat \<times> bool) list"
  ck_ms_fwreceive_enabled :: "(nat \<times> bool) list"
  ck_forwarding_psum_enabled :: "(nat \<times> bool) list"
  ck_direct_forwarding_psum_enabled :: "(nat \<times> bool) list"
  ck_n_folding_configuration :: "(nat \<times> nat) list"

definition CompilerMSN_new :: CompilerMSN where
  "CompilerMSN_new =
     \<lparr>ck_ms_vn_configuration = [], ck_ms_fwsend_enabled = [], ck_ms_fwreceive_enabled = [],
      ck_forwarding_psum_enabled = [], ck_direct_forwarding_psum_enabled = [], ck_n_folding_configuration = []\<rparr>"

text \<open>Step 1 of \<open>generate_ms_signals\<close> at the switch \<open>j\<close> of the virtual neuron \<open>i\<close>.\<close>

definition CompilerMSN_assign :: "Tile \<Rightarrow> nat \<Rightarrow> nat \<Rightarrow> nat \<Rightarrow> CompilerMSN \<Rightarrow> CompilerMSN" where
  "CompilerMSN_assign tile n_folding i j c =
     (let ms_index = uadd (umul i (VN_Size tile)) j in
      c\<lparr>ck_ms_vn_configuration := smap_put ms_index i (ck_ms_vn_configuration c),
        ck_n_folding_configuration := smap_put ms_index n_folding (ck_n_folding_configuration c),
        ck_direct_forwarding_psum_enabled := smap_put ms_index False (ck_direct_forwarding_psum_enabled c),
        ck_forwarding_psum_enabled := smap_put ms_index (t_folding tile \<and> j = 0) (ck_forwarding_psum_enabled c)\<rparr>)"

definition CompilerMSN_fwlink :: "nat \<Rightarrow> bool \<Rightarrow> bool \<Rightarrow> CompilerMSN \<Rightarrow> CompilerMSN" where
  "CompilerMSN_fwlink ms_index send receive c =
     c\<lparr>ck_ms_fwsend_enabled := smap_put ms_index send (ck_ms_fwsend_enabled c),
       ck_ms_fwreceive_enabled := smap_put ms_index receive (ck_ms_fwreceive_enabled c)\<rparr>"

text \<open>Step 2: the links between the multipliers of a row of a filter.\<close>

definition CompilerMSN_share :: "Tile \<Rightarrow> nat \<Rightarrow> nat \<Rightarrow> nat \<Rightarrow> nat \<Rightarrow> CompilerMSN \<Rightarrow> CompilerMSN" where
  "CompilerMSN_share tile i ch r s c =
     (let shift_ms = (if t_folding tile then 1 else 0);
          ms_index = uadd (uadd (uadd (uadd (umul i (VN_Size tile)) (umul (umul ch (T_R tile)) (T_S tile))) (umul r (T_S tile))) s) shift_ms
      in CompilerMSN_fwlink ms_index (0 < s) (s < usub (T_S tile) 1) c)"

definition CompilerMSN_generate_ms_signals ::
  "Tile \<Rightarrow> DNNLayer \<Rightarrow> nat \<Rightarrow> nat \<Rightarrow> CompilerMSN \<Rightarrow> CompilerMSN res" where
  "CompilerMSN_generate_ms_signals tile layer num_ms n_folding c =
     (let c = fold (\<lambda>i. fold (CompilerMSN_assign tile n_folding i) [0..<VN_Size tile]) [0..<Num_VNs tile] c;
          c = (if 1 < T_Yo tile
               then fold (\<lambda>i. fold (\<lambda>j. CompilerMSN_fwlink (uadd (umul i (VN_Size tile)) j) False False) [0..<VN_Size tile])
                      [0..<Num_VNs tile] c
               else fold (\<lambda>i. fold (\<lambda>ch. fold (\<lambda>r. fold (CompilerMSN_share tile i ch r) [0..<T_S tile]) [0..<T_R tile]) [0..<T_C tile])
                      [0..<Num_VNs tile] c) in
      rbind (if 1 < l_strides layer then Inr True else rbind (rmod (l_S layer) (T_S tile)) (\<lambda>m. Inr (m \<noteq> 0))) (\<lambda>off.
      Inr (if off then fold (\<lambda>i. CompilerMSN_fwlink i False False) [0..<num_ms] c else c)))"

definition CompilerMSN_configureSignals ::
  "Tile \<Rightarrow> DNNLayer \<Rightarrow> nat \<Rightarrow> nat \<Rightarrow> CompilerMSN \<Rightarrow> CompilerMSN res" where
  "CompilerMSN_configureSignals tile layer num_ms n_folding c =
     rassert (ispowerof2 num_ms)
     (rassert (umul (VN_Size tile) (Num_VNs tile) \<le> num_ms)
     (CompilerMSN_generate_ms_signals tile layer num_ms n_folding c))"

text \<open>The sparse configuration: virtual neurons of their own sizes, one after the other.\<close>

definition CompilerMSN_sparse_assign ::
  "SparseVN \<Rightarrow> nat \<Rightarrow> nat \<Rightarrow> nat \<times> CompilerMSN \<Rightarrow> nat \<times> CompilerMSN" where
  "CompilerMSN_sparse_assign vn i j = (\<lambda>(ms_index, c).
     let c = c\<lparr>ck_ms_vn_configuration := smap_put ms_index i (ck_ms_vn_configuration c),
               ck_n_folding_configuration := smap_put ms_index 1 (ck_n_folding_configuration c),
               ck_forwarding_psum_enabled := smap_put ms_index False (ck_forwarding_psum_enabled c),
               ck_direct_forwarding_psum_enabled := smap_put ms_index (sv_folding vn \<and> j = 0) (ck_direct_forwarding_psum_enabled c)\<rparr>
     in (uadd ms_index 1, CompilerMSN_fwlink ms_index False False c))"

definition CompilerMSN_generate_ms_sparse_signals :: "SparseVN list \<Rightarrow> CompilerMSN \<Rightarrow> CompilerMSN" where
  "CompilerMSN_generate_ms_sparse_signals vns c =
     snd (fold (\<lambda>i. fold (CompilerMSN_sparse_assign (vns ! i) i) [0..<SparseVN_get_VN_Size (vns ! i)]) [0..<length vns] (0, c))"

definition CompilerMSN_configureSparseSignals ::
  "SparseVN list \<Rightarrow> nat \<Rightarrow> CompilerMSN \<Rightarrow> CompilerMSN res" where
  "CompilerMSN_configureSparseSignals vns num_ms c =
     rassert (ispowerof2 num_ms)
     (rassert (fold (\<lambda>vn n. uadd n (SparseVN_get_VN_Size vn)) vns 0 \<le> num_ms)
     (Inr (CompilerMSN_generate_ms_sparse_signals vns c)))"

section \<open>The network\<close>

text \<open>The tables have the keys \<open>0, 1, \<dots>, ms_size - 1\<close>; another key gives a null pointer.\<close>

record 'd MSNetwork =
  mn_mswitchtable :: "'d MSwitch list"
  mn_ms_size :: nat
  mn_forwarding_ports :: nat
  mn_buffers_capacity :: nat

definition upd_switch :: "nat \<Rightarrow> ('d MSwitch \<Rightarrow> 'd MSwitch) \<Rightarrow> 'd MSNetwork \<Rightarrow> 'd MSNetwork res" where
  "upd_switch i f mn =
     (if i < length (mn_mswitchtable mn) then Inr (mn\<lparr>mn_mswitchtable := (mn_mswitchtable mn)[i := f (mn_mswitchtable mn ! i)]\<rparr>)
      else Inl NullDeref)"

definition at_switch ::
  "nat \<Rightarrow> ('d MSwitch \<Rightarrow> 'd store \<Rightarrow> ('d MSwitch \<times> 'd store) res) \<Rightarrow> 'd MSNetwork \<times> 'd store \<Rightarrow> ('d MSNetwork \<times> 'd store) res" where
  "at_switch i f = (\<lambda>(mn, st).
     if i < length (mn_mswitchtable mn) then
       rbind (f (mn_mswitchtable mn ! i) st) (\<lambda>(ms, st). Inr (mn\<lparr>mn_mswitchtable := (mn_mswitchtable mn)[i := ms]\<rparr>, st))
     else Inl NullDeref)"

definition MSNetwork_setPhysicalConnection_at :: "nat \<Rightarrow> 'd MSNetwork \<times> 'd store \<Rightarrow> ('d MSNetwork \<times> 'd store) res" where
  "MSNetwork_setPhysicalConnection_at i = (\<lambda>(mn, st).
     rbind (upd_switch i (MSwitch_setInputForwardingConnection (Some (FwLink i))) mn) (\<lambda>mn.
     rbind (upd_switch (i + 1) (MSwitch_setOutputForwardingConnection (Some (FwLink i))) mn) (\<lambda>mn.
     Inr (mn, st(FwLink i := Connection_new (mn_forwarding_ports mn))))))"

definition MSNetwork_setPhysicalConnection :: "'d MSNetwork \<times> 'd store \<Rightarrow> ('d MSNetwork \<times> 'd store) res" where
  "MSNetwork_setPhysicalConnection = (\<lambda>(mn, st).
     rfold MSNetwork_setPhysicalConnection_at [0..<usub (mn_ms_size mn) 1] (mn, st))"

definition MSNetwork_new :: "Config \<Rightarrow> 'd store \<Rightarrow> ('d MSNetwork \<times> 'd store) res" where
  "MSNetwork_new cfg st =
     (let n = msn_ms_size (m_MSNetworkCfg cfg); c = m_MSwitchCfg cfg in
      MSNetwork_setPhysicalConnection
        (\<lparr>mn_mswitchtable = map (\<lambda>i. MSwitch_new i cfg) [0..<n], mn_ms_size = n,
          mn_forwarding_ports = msc_forwarding_ports c, mn_buffers_capacity = msc_buffers_capacity c\<rparr>, st))"

definition MSNetwork_setInputConnections :: "(nat \<times> cid option) list \<Rightarrow> 'd MSNetwork \<Rightarrow> 'd MSNetwork res" where
  "MSNetwork_setInputConnections input_connections mn =
     rassert (length (mn_mswitchtable mn) = length input_connections)
     (rfold (\<lambda>(index_ms, conn). upd_switch index_ms (MSwitch_setInputConnection conn)) input_connections mn)"

definition MSNetwork_setOutputConnections :: "(nat \<times> cid option) list \<Rightarrow> 'd MSNetwork \<Rightarrow> 'd MSNetwork res" where
  "MSNetwork_setOutputConnections output_connections mn =
     rassert (length (mn_mswitchtable mn) = length output_connections)
     (rfold (\<lambda>(index_ms, conn). upd_switch index_ms (MSwitch_setOutputConnection conn)) output_connections mn)"

definition MSNetwork_virtualNetworkConfig :: "(nat \<times> nat) list \<Rightarrow> 'd MSNetwork \<Rightarrow> 'd MSNetwork res" where
  "MSNetwork_virtualNetworkConfig = rfold (\<lambda>(i, vn). upd_switch i (MSwitch_setVirtualNeuron vn))"

definition MSNetwork_fwLinksConfig ::
  "(nat \<times> bool) list \<Rightarrow> (nat \<times> bool) list \<Rightarrow> 'd MSNetwork \<Rightarrow> 'd MSNetwork res" where
  "MSNetwork_fwLinksConfig send receive mn =
     rbind (rfold (\<lambda>(i, b). upd_switch i (MSwitch_setOutputForwardingEnabled b)) send mn)
       (rfold (\<lambda>(i, b). upd_switch i (MSwitch_setInputForwardingEnabled b)) receive)"

definition MSNetwork_forwardingPsumConfig :: "(nat \<times> bool) list \<Rightarrow> 'd MSNetwork \<Rightarrow> 'd MSNetwork res" where
  "MSNetwork_forwardingPsumConfig = rfold (\<lambda>(i, b). upd_switch i (MSwitch_setForwardPsum b))"

definition MSNetwork_directForwardingPsumConfig :: "(nat \<times> bool) list \<Rightarrow> 'd MSNetwork \<Rightarrow> 'd MSNetwork res" where
  "MSNetwork_directForwardingPsumConfig = rfold (\<lambda>(i, b). upd_switch i (MSwitch_setDirectForwardPsum b))"

definition MSNetwork_nFoldingConfig :: "(nat \<times> nat) list \<Rightarrow> 'd MSNetwork \<Rightarrow> 'd MSNetwork res" where
  "MSNetwork_nFoldingConfig = rfold (\<lambda>(i, n). upd_switch i (MSwitch_setNFolding n))"

definition MSNetwork_nWindowsConfig :: "nat \<Rightarrow> 'd MSNetwork \<Rightarrow> 'd MSNetwork res" where
  "MSNetwork_nWindowsConfig n_windows mn = rfold (\<lambda>i. upd_switch i (MSwitch_setNWindows n_windows)) [0..<mn_ms_size mn] mn"

definition MSNetwork_configureSignals ::
  "Tile \<Rightarrow> DNNLayer \<Rightarrow> nat \<Rightarrow> nat \<Rightarrow> 'd MSNetwork \<Rightarrow> 'd MSNetwork res" where
  "MSNetwork_configureSignals tile layer ms_size n_folding mn =
     rbind (CompilerMSN_configureSignals tile layer ms_size n_folding CompilerMSN_new) (\<lambda>c.
     rbind (MSNetwork_virtualNetworkConfig (ck_ms_vn_configuration c) mn) (\<lambda>mn.
     rbind (MSNetwork_fwLinksConfig (ck_ms_fwsend_enabled c) (ck_ms_fwreceive_enabled c) mn) (\<lambda>mn.
     rbind (MSNetwork_forwardingPsumConfig (ck_forwarding_psum_enabled c) mn) (\<lambda>mn.
     rbind (MSNetwork_nFoldingConfig (ck_n_folding_configuration c) mn) (\<lambda>mn.
     rbind (MSNetwork_directForwardingPsumConfig (ck_direct_forwarding_psum_enabled c) mn) (\<lambda>mn.
     MSNetwork_nWindowsConfig (l_Yo layer) mn))))))"

definition MSNetwork_configureSparseSignals :: "SparseVN list \<Rightarrow> nat \<Rightarrow> 'd MSNetwork \<Rightarrow> 'd MSNetwork res" where
  "MSNetwork_configureSparseSignals vns ms_size mn =
     rbind (CompilerMSN_configureSparseSignals vns ms_size CompilerMSN_new) (\<lambda>c.
     rbind (MSNetwork_virtualNetworkConfig (ck_ms_vn_configuration c) mn) (\<lambda>mn.
     rbind (MSNetwork_fwLinksConfig (ck_ms_fwsend_enabled c) (ck_ms_fwreceive_enabled c) mn) (\<lambda>mn.
     rbind (MSNetwork_forwardingPsumConfig (ck_forwarding_psum_enabled c) mn) (\<lambda>mn.
     rbind (MSNetwork_directForwardingPsumConfig (ck_direct_forwarding_psum_enabled c) mn) (\<lambda>mn.
     rbind (MSNetwork_nFoldingConfig (ck_n_folding_configuration c) mn) (\<lambda>mn.
     MSNetwork_nWindowsConfig 1 mn))))))"

definition MSNetwork_resetSignals :: "'d MSNetwork \<Rightarrow> 'd MSNetwork res" where
  "MSNetwork_resetSignals mn =
     rfold (\<lambda>i mn. if i < length (mn_mswitchtable mn) then
         rbind (MSwitch_resetSignals (mn_mswitchtable mn ! i)) (\<lambda>ms. Inr (mn\<lparr>mn_mswitchtable := (mn_mswitchtable mn)[i := ms]\<rparr>))
       else Inl NullDeref) [0..<mn_ms_size mn] mn"

definition MSNetwork_cycle :: "'d::{zero,times} MSNetwork \<times> 'd store \<Rightarrow> ('d MSNetwork \<times> 'd store) res" where
  "MSNetwork_cycle = (\<lambda>(mn, st). rfold (\<lambda>i. at_switch i MSwitch_cycle) [0..<mn_ms_size mn] (mn, st))"

end
