(* ===== verification/LinearSignals.thy ===== *)
theory LinearSignals
  imports LinearMN
begin

text \<open>
  What the compiler of the linear network computes, for every tile that fits, and what a switch is
  told by it.
\<close>

section \<open>Configuring the switches\<close>

text \<open>What an entry of a signal table does to its switch.\<close>

definition signal :: "('v \<Rightarrow> 'd MSwitch \<Rightarrow> 'd MSwitch) \<Rightarrow> 'v option \<Rightarrow> 'd MSwitch \<Rightarrow> 'd MSwitch" where
  "signal f v ms = (case v of None \<Rightarrow> ms | Some x \<Rightarrow> f x ms)"

lemma signal_simps [simp]: "signal f None ms = ms" "signal f (Some x) ms = f x ms"
  by (simp_all add: signal_def)

lemma config_ok:
  assumes "distinct (map fst m)" "\<forall>k \<in> fst ` set m. k < length (mn_mswitchtable mn)"
  shows "rfold (\<lambda>(i, x). upd_switch i (f x)) m mn =
    Inr (mn\<lparr>mn_mswitchtable := map (\<lambda>i. signal f (map_of m i) (mn_mswitchtable mn ! i)) [0..<length (mn_mswitchtable mn)]\<rparr>)"
  using assms
proof (induction m arbitrary: mn)
  case Nil
  then show ?case by (simp add: map_nth)
next
  case (Cons e m)
  obtain k x where e: "e = (k, x)" by (cases e)
  have k: "k < length (mn_mswitchtable mn)" using Cons.prems(2) e by simp
  have n: "map_of m k = None" using Cons.prems(1) e by (simp add: map_of_eq_None_iff)
  have "map (\<lambda>i. signal f (map_of m i) (((mn_mswitchtable mn)[k := f x (mn_mswitchtable mn ! k)]) ! i)) [0..<length (mn_mswitchtable mn)]
      = map (\<lambda>i. signal f (map_of (e # m) i) (mn_mswitchtable mn ! i)) [0..<length (mn_mswitchtable mn)]"
    by (rule map_cong) (auto simp: e n nth_list_update k)
  then show ?case
    using Cons.IH [of "mn\<lparr>mn_mswitchtable := (mn_mswitchtable mn)[k := f x (mn_mswitchtable mn ! k)]\<rparr>"] Cons.prems k
    by (simp add: e upd_switch_def)
qed

lemma windows_ok:
  assumes "mn_ms_size mn = length (mn_mswitchtable mn)"
  shows "MSNetwork_nWindowsConfig n mn = Inr (mn\<lparr>mn_mswitchtable := map (MSwitch_setNWindows n) (mn_mswitchtable mn)\<rparr>)"
proof -
  have s: "map_of (map (\<lambda>i. (i, n)) [0..<k]) i = (if i < k then Some n else None)" for i k
    by (induction k) (auto simp: map_add_def less_Suc_eq split: option.splits)
  have "MSNetwork_nWindowsConfig n mn = rfold (\<lambda>(i, x). upd_switch i (MSwitch_setNWindows x)) (map (\<lambda>i. (i, n)) [0..<mn_ms_size mn]) mn"
    by (simp add: MSNetwork_nWindowsConfig_def rfold_map)
  also have "\<dots> = Inr (mn\<lparr>mn_mswitchtable := map (\<lambda>i. signal MSwitch_setNWindows
      (map_of (map (\<lambda>i. (i, n)) [0..<mn_ms_size mn]) i) (mn_mswitchtable mn ! i)) [0..<length (mn_mswitchtable mn)]\<rparr>)"
    by (rule config_ok) (use assms in \<open>auto simp: o_def\<close>)
  also have "map (\<lambda>i. signal MSwitch_setNWindows
      (map_of (map (\<lambda>i. (i, n)) [0..<mn_ms_size mn]) i) (mn_mswitchtable mn ! i)) [0..<length (mn_mswitchtable mn)]
      = map (MSwitch_setNWindows n) (mn_mswitchtable mn)"
    by (rule nth_equalityI) (use assms in \<open>simp_all add: s\<close>)
  finally show ?thesis .
qed

text \<open>The six tables, one after the other.\<close>

definition signals_ok :: "nat \<Rightarrow> CompilerMSN \<Rightarrow> bool" where
  "signals_ok n c \<longleftrightarrow> smap_ok (ck_ms_vn_configuration c) \<and> smap_ok (ck_ms_fwsend_enabled c) \<and> smap_ok (ck_ms_fwreceive_enabled c)
     \<and> smap_ok (ck_forwarding_psum_enabled c) \<and> smap_ok (ck_direct_forwarding_psum_enabled c) \<and> smap_ok (ck_n_folding_configuration c)
     \<and> (\<forall>k. k \<in> fst ` set (ck_ms_vn_configuration c) \<union> fst ` set (ck_ms_fwsend_enabled c) \<union> fst ` set (ck_ms_fwreceive_enabled c)
          \<union> fst ` set (ck_forwarding_psum_enabled c) \<union> fst ` set (ck_direct_forwarding_psum_enabled c)
          \<union> fst ` set (ck_n_folding_configuration c) \<longrightarrow> k < n)"

definition switch_signals :: "CompilerMSN \<Rightarrow> nat \<Rightarrow> nat \<Rightarrow> 'd MSwitch \<Rightarrow> 'd MSwitch" where
  "switch_signals c n_windows i ms =
     MSwitch_setNWindows n_windows
       (signal MSwitch_setDirectForwardPsum (map_of (ck_direct_forwarding_psum_enabled c) i)
       (signal MSwitch_setNFolding (map_of (ck_n_folding_configuration c) i)
       (signal MSwitch_setForwardPsum (map_of (ck_forwarding_psum_enabled c) i)
       (signal MSwitch_setInputForwardingEnabled (map_of (ck_ms_fwreceive_enabled c) i)
       (signal MSwitch_setOutputForwardingEnabled (map_of (ck_ms_fwsend_enabled c) i)
       (signal MSwitch_setVirtualNeuron (map_of (ck_ms_vn_configuration c) i) ms))))))"

lemma configureSignals_eq:
  assumes c: "CompilerMSN_configureSignals tile layer ms_size n_folding CompilerMSN_new = Inr c" "signals_ok (length (mn_mswitchtable mn)) c"
    and n: "mn_ms_size mn = length (mn_mswitchtable mn)"
  shows "MSNetwork_configureSignals tile layer ms_size n_folding mn =
     Inr (mn\<lparr>mn_mswitchtable := map (\<lambda>i. switch_signals c (l_Yo layer) i (mn_mswitchtable mn ! i)) [0..<length (mn_mswitchtable mn)]\<rparr>)"
  using c(2)
  by (simp add: MSNetwork_configureSignals_def c(1) signals_ok_def MSNetwork_virtualNetworkConfig_def MSNetwork_fwLinksConfig_def
      MSNetwork_forwardingPsumConfig_def MSNetwork_nFoldingConfig_def MSNetwork_directForwardingPsumConfig_def
      config_ok smap_ok_distinct windows_ok n o_def switch_signals_def)

section \<open>What the compiler computes\<close>

lemma assign_fold:
  assumes "c' = fold (\<lambda>(i, j). CompilerMSN_assign tile nf i j) ps c"
  shows "ck_ms_vn_configuration c' = fold (\<lambda>p. smap_put (uadd (umul (fst p) (VN_Size tile)) (snd p)) (fst p)) ps (ck_ms_vn_configuration c)"
    and "ck_n_folding_configuration c' = fold (\<lambda>p. smap_put (uadd (umul (fst p) (VN_Size tile)) (snd p)) nf) ps (ck_n_folding_configuration c)"
    and "ck_direct_forwarding_psum_enabled c' =
      fold (\<lambda>p. smap_put (uadd (umul (fst p) (VN_Size tile)) (snd p)) False) ps (ck_direct_forwarding_psum_enabled c)"
    and "ck_forwarding_psum_enabled c' =
      fold (\<lambda>p. smap_put (uadd (umul (fst p) (VN_Size tile)) (snd p)) (t_folding tile \<and> snd p = 0)) ps (ck_forwarding_psum_enabled c)"
    and "ck_ms_fwsend_enabled c' = ck_ms_fwsend_enabled c" "ck_ms_fwreceive_enabled c' = ck_ms_fwreceive_enabled c"
  unfolding assms
  by (induction ps arbitrary: c) (simp_all add: CompilerMSN_assign_def Let_def case_prod_beta)

lemma fwlink_fold:
  assumes "c' = fold (\<lambda>x. CompilerMSN_fwlink (key x) (sd x) (rcv x)) xs c"
  shows "ck_ms_fwsend_enabled c' = fold (\<lambda>x. smap_put (key x) (sd x)) xs (ck_ms_fwsend_enabled c)"
    and "ck_ms_fwreceive_enabled c' = fold (\<lambda>x. smap_put (key x) (rcv x)) xs (ck_ms_fwreceive_enabled c)"
    and "ck_ms_vn_configuration c' = ck_ms_vn_configuration c" "ck_n_folding_configuration c' = ck_n_folding_configuration c"
    "ck_direct_forwarding_psum_enabled c' = ck_direct_forwarding_psum_enabled c"
    "ck_forwarding_psum_enabled c' = ck_forwarding_psum_enabled c"
  unfolding assms
  by (induction xs arbitrary: c) (simp_all add: CompilerMSN_fwlink_def)

text \<open>The indices of the loops, without wrap-around.\<close>

lemma vn_index:
  assumes "N * V < u32_max" "p \<in> set (List.product [0..<N] [0..<V])"
  shows "uadd (umul (fst p) V) (snd p) = fst p * V + snd p" "fst p * V + snd p < N * V" "snd p < V"
proof -
  obtain i j where p: "p = (i, j)" "i < N" "j < V" using assms(2) by auto
  then show l: "fst p * V + snd p < N * V" using index_less [of i N j V] by simp
  then have "fst p * V < u32_max" "fst p * V + snd p < u32_max" using assms(1) by linarith+
  then show "uadd (umul (fst p) V) (snd p) = fst p * V + snd p" by (simp add: u32_simps)
  show "snd p < V" using p by simp
qed

lemma vn_index_image:
  assumes "N * V < u32_max"
  shows "(\<lambda>p. uadd (umul (fst p) V) (snd p)) ` set (List.product [0..<N] [0..<V]) = {..<N * V}" (is "?f ` ?P = _")
proof
  show "?f ` ?P \<subseteq> {..<N * V}" using vn_index [OF assms] by fastforce
  show "{..<N * V} \<subseteq> ?f ` ?P"
  proof
    fix k assume k: "k \<in> {..<N * V}"
    then have "0 < V" by (cases V) auto
    then have "(k div V, k mod V) \<in> ?P" using k by (simp add: less_mult_imp_div_less)
    from vn_index(1) [OF assms this] this show "k \<in> ?f ` ?P"
      by (intro image_eqI [where x = "(k div V, k mod V)"]) (simp_all only: fst_conv snd_conv div_mult_mod_eq)
  qed
qed

definition share_shift :: "Tile \<Rightarrow> nat" where
  "share_shift tile = (if t_folding tile then 1 else 0)"

definition share_key :: "Tile \<Rightarrow> nat \<times> nat \<times> nat \<times> nat \<Rightarrow> nat" where
  "share_key tile = (\<lambda>(i, ch, r, s).
     uadd (uadd (uadd (uadd (umul i (VN_Size tile)) (umul (umul ch (T_R tile)) (T_S tile))) (umul r (T_S tile))) s) (share_shift tile))"

text \<open>A tile whose virtual neurons are built from its filter sizes and fit the network.\<close>

definition linear_tile :: "Tile \<Rightarrow> nat \<Rightarrow> bool" where
  "linear_tile tile num_ms \<longleftrightarrow> 0 < T_S tile \<and> VN_Size tile = T_C tile * T_R tile * T_S tile + share_shift tile
     \<and> VN_Size tile * Num_VNs tile \<le> num_ms \<and> num_ms < u32_max"

text \<open>The column of the filter that a switch holds.\<close>

definition tile_column :: "Tile \<Rightarrow> nat \<Rightarrow> nat" where
  "tile_column tile k = (k mod VN_Size tile - share_shift tile) mod T_S tile"

abbreviation share_loop :: "Tile \<Rightarrow> (nat \<times> nat \<times> nat \<times> nat) list" where
  "share_loop tile \<equiv> List.product [0..<Num_VNs tile] (List.product [0..<T_C tile] (List.product [0..<T_R tile] [0..<T_S tile]))"

lemma share_index:
  assumes t: "linear_tile tile num_ms" and x: "(i, ch, r, s) \<in> set (share_loop tile)"
  defines "q \<equiv> (ch * T_R tile + r) * T_S tile + s"
  shows "share_key tile (i, ch, r, s) = i * VN_Size tile + (q + share_shift tile)"
    "q + share_shift tile < VN_Size tile" "i * VN_Size tile + (q + share_shift tile) < Num_VNs tile * VN_Size tile"
    "tile_column tile (share_key tile (i, ch, r, s)) = s"
proof -
  have b: "i < Num_VNs tile" "ch < T_C tile" "r < T_R tile" "s < T_S tile" using x by auto
  have "ch * T_R tile + r < T_C tile * T_R tile" using index_less b by simp
  then have q: "q < T_C tile * T_R tile * T_S tile" unfolding q_def using b(4) by (rule index_less)
  then show l: "q + share_shift tile < VN_Size tile" using t by (simp add: linear_tile_def)
  with b(1) show m: "i * VN_Size tile + (q + share_shift tile) < Num_VNs tile * VN_Size tile" by (rule index_less)
  also have "\<dots> < u32_max"
  proof -
    have "VN_Size tile * Num_VNs tile < u32_max" using t unfolding linear_tile_def by linarith
    then show ?thesis by (simp add: mult.commute)
  qed
  finally have u: "i * VN_Size tile + (q + share_shift tile) < u32_max" .
  have e: "q = ch * T_R tile * T_S tile + r * T_S tile + s" by (simp add: q_def algebra_simps)
  have "ch * T_R tile \<le> ch * T_R tile * T_S tile" using b(4) by simp
  then have "ch * T_R tile < u32_max" "ch * T_R tile * T_S tile < u32_max" "r * T_S tile < u32_max" "i * VN_Size tile < u32_max"
    using u e by linarith+
  then have "umul (umul ch (T_R tile)) (T_S tile) = ch * T_R tile * T_S tile" "umul r (T_S tile) = r * T_S tile"
    "umul i (VN_Size tile) = i * VN_Size tile"
    by (simp_all add: u32_simps)
  then show k: "share_key tile (i, ch, r, s) = i * VN_Size tile + (q + share_shift tile)"
    using u e by (simp add: share_key_def u32_simps)
  show "tile_column tile (share_key tile (i, ch, r, s)) = s"
    unfolding k tile_column_def using l b(4) by (simp add: q_def)
qed

lemma share_key_image:
  assumes t: "linear_tile tile num_ms"
  shows "share_key tile ` set (share_loop tile) = {k. k < Num_VNs tile * VN_Size tile \<and> share_shift tile \<le> k mod VN_Size tile}"
    (is "_ = ?K")
proof
  show "share_key tile ` set (share_loop tile) \<subseteq> ?K"
  proof
    fix k assume "k \<in> share_key tile ` set (share_loop tile)"
    then obtain i ch r s where x: "(i, ch, r, s) \<in> set (share_loop tile)" "k = share_key tile (i, ch, r, s)" by fastforce
    from share_index [OF t x(1)] show "k \<in> ?K" by (simp add: x(2))
  qed
  show "?K \<subseteq> share_key tile ` set (share_loop tile)"
  proof
    fix k assume "k \<in> ?K"
    then have k: "k < Num_VNs tile * VN_Size tile" "share_shift tile \<le> k mod VN_Size tile" by simp_all
    let ?q = "k mod VN_Size tile - share_shift tile"
    let ?x = "(k div VN_Size tile, ?q div T_S tile div T_R tile, ?q div T_S tile mod T_R tile, ?q mod T_S tile)"
    have V: "0 < VN_Size tile" using k(1) by (cases "VN_Size tile") auto
    then have "k mod VN_Size tile < VN_Size tile" by simp
    then have q: "?q < T_C tile * T_R tile * T_S tile" using t k(2) by (simp add: linear_tile_def)
    then have "?q div T_S tile < T_C tile * T_R tile" by (rule less_mult_imp_div_less)
    moreover from this have "0 < T_R tile" by (cases "T_R tile") auto
    ultimately have x: "?x \<in> set (share_loop tile)"
      using t k(1) by (simp add: linear_tile_def less_mult_imp_div_less)
    have "share_key tile ?x = k" using share_index(1) [OF t x] k(2) by simp
    with x show "k \<in> share_key tile ` set (share_loop tile)" by (metis image_eqI)
  qed
qed

text \<open>An entry that is absent and one that is \<open>false\<close> have the same effect on a link that is off.\<close>

definition flag :: "(nat \<times> bool) list \<Rightarrow> nat \<Rightarrow> bool" where
  "flag m k \<longleftrightarrow> map_of m k = Some True"

text \<open>Neighbours share activations: windows one at a time, stride one, whole rows of the filter.\<close>

definition reuses :: "Tile \<Rightarrow> DNNLayer \<Rightarrow> bool" where
  "reuses tile layer \<longleftrightarrow> T_Yo tile \<le> 1 \<and> l_strides layer \<le> 1 \<and> T_S tile dvd l_S layer"

lemma share_loop_eq:
  "fold (\<lambda>i. fold (\<lambda>ch. fold (\<lambda>r. fold (CompilerMSN_share tile i ch r) [0..<T_S tile]) [0..<T_R tile]) [0..<T_C tile]) [0..<Num_VNs tile] c
   = fold (\<lambda>x. CompilerMSN_fwlink (share_key tile x) (0 < snd (snd (snd x))) (snd (snd (snd x)) < usub (T_S tile) 1)) (share_loop tile) c"
proof -
  have "CompilerMSN_share tile = (\<lambda>i ch r s. CompilerMSN_fwlink (share_key tile (i, ch, r, s)) (0 < s) (s < usub (T_S tile) 1))"
    by (simp add: fun_eq_iff CompilerMSN_share_def share_key_def share_shift_def Let_def)
  then show ?thesis by (auto simp: fold_product intro!: fold_cong)
qed

lemma flag_put_False:
  assumes "smap_ok m"
  shows "smap_ok (fold (\<lambda>x. smap_put (key x) False) xs m)"
    "map_of (fold (\<lambda>x. smap_put (key x) False) xs m) = (\<lambda>k. if k \<in> key ` set xs then Some False else map_of m k)"
  using fold_smap_put [OF assms, where val = "\<lambda>_. False" and h = "\<lambda>_. False" and key = key and xs = xs] by simp_all

lemma map_of_keys: "fst ` set m = dom (map_of m)"
  by (simp add: dom_map_of_conv_image_fst)

text \<open>The three steps of the compiler.\<close>

lemma assign_step:
  assumes t: "linear_tile tile num_ms" and k: "nu = Num_VNs tile * VN_Size tile"
    and c'_def: "c' = fold (\<lambda>i. fold (CompilerMSN_assign tile nf i) [0..<VN_Size tile]) [0..<Num_VNs tile] CompilerMSN_new"
  shows "smap_ok (ck_ms_vn_configuration c')" "smap_ok (ck_n_folding_configuration c')"
    "smap_ok (ck_direct_forwarding_psum_enabled c')" "smap_ok (ck_forwarding_psum_enabled c')"
    "map_of (ck_ms_vn_configuration c') = (\<lambda>k. if k < nu then Some (k div VN_Size tile) else None)"
    "map_of (ck_n_folding_configuration c') = (\<lambda>k. if k < nu then Some nf else None)"
    "map_of (ck_direct_forwarding_psum_enabled c') = (\<lambda>k. if k < nu then Some False else None)"
    "map_of (ck_forwarding_psum_enabled c') = (\<lambda>k. if k < nu then Some (t_folding tile \<and> k mod VN_Size tile = 0) else None)"
    "ck_ms_fwsend_enabled c' = []" "ck_ms_fwreceive_enabled c' = []"
proof -
  let ?V = "VN_Size tile" and ?ps = "List.product [0..<Num_VNs tile] [0..<VN_Size tile]"
  let ?key = "\<lambda>p. uadd (umul (fst p) ?V) (snd p)"
  have u: "Num_VNs tile * ?V < u32_max"
  proof -
    have "?V * Num_VNs tile < u32_max" using t unfolding linear_tile_def by linarith
    then show ?thesis by (simp add: mult.commute)
  qed
  have im: "?key ` set ?ps = {..<nu}" using vn_index_image [OF u] by (simp add: k)
  have d: "?key p div ?V = fst p" "?key p mod ?V = snd p" if "p \<in> set ?ps" for p
    using vn_index [OF u that] by simp_all
  have c': "c' = fold (\<lambda>(i, j). CompilerMSN_assign tile nf i j) ?ps CompilerMSN_new"
    unfolding c'_def by (simp add: fold_product)
  note f = assign_fold [OF c', unfolded CompilerMSN_new_def CompilerMSN.simps]
  note put = fold_smap_put [OF smap_ok_Nil, where key = ?key and xs = ?ps, unfolded im map_of.simps(1)]
  show "smap_ok (ck_ms_vn_configuration c')"
    "map_of (ck_ms_vn_configuration c') = (\<lambda>k. if k < nu then Some (k div ?V) else None)"
    unfolding f(1) using put [where val = fst and h = "\<lambda>k. k div ?V"] d by simp_all
  show "smap_ok (ck_n_folding_configuration c')"
    "map_of (ck_n_folding_configuration c') = (\<lambda>k. if k < nu then Some nf else None)"
    unfolding f(2) using put [where val = "\<lambda>_. nf" and h = "\<lambda>_. nf"] by simp_all
  show "smap_ok (ck_direct_forwarding_psum_enabled c')"
    "map_of (ck_direct_forwarding_psum_enabled c') = (\<lambda>k. if k < nu then Some False else None)"
    unfolding f(3) using put [where val = "\<lambda>_. False" and h = "\<lambda>_. False"] by simp_all
  show "smap_ok (ck_forwarding_psum_enabled c')"
    "map_of (ck_forwarding_psum_enabled c') = (\<lambda>k. if k < nu then Some (t_folding tile \<and> k mod ?V = 0) else None)"
    unfolding f(4) using put [where val = "\<lambda>p. t_folding tile \<and> snd p = 0" and h = "\<lambda>k. t_folding tile \<and> k mod ?V = 0"] d by simp_all
  show "ck_ms_fwsend_enabled c' = []" "ck_ms_fwreceive_enabled c' = []" using f(5,6) by simp_all
qed

lemma share_step:
  assumes t: "linear_tile tile num_ms" and k: "nu = Num_VNs tile * VN_Size tile"
    and c: "ck_ms_fwsend_enabled c = []" "ck_ms_fwreceive_enabled c = []"
    and c'_def: "c' = (if 1 < T_Yo tile
               then fold (\<lambda>i. fold (\<lambda>j. CompilerMSN_fwlink (uadd (umul i (VN_Size tile)) j) False False) [0..<VN_Size tile])
                      [0..<Num_VNs tile] c
               else fold (\<lambda>i. fold (\<lambda>ch. fold (\<lambda>r. fold (CompilerMSN_share tile i ch r) [0..<T_S tile]) [0..<T_R tile]) [0..<T_C tile])
                      [0..<Num_VNs tile] c)"
  shows "smap_ok (ck_ms_fwsend_enabled c')" "smap_ok (ck_ms_fwreceive_enabled c')"
    "\<forall>k. map_of (ck_ms_fwsend_enabled c') k \<noteq> None \<longrightarrow> k < nu" "\<forall>k. map_of (ck_ms_fwreceive_enabled c') k \<noteq> None \<longrightarrow> k < nu"
    "flag (ck_ms_fwsend_enabled c') k' \<longleftrightarrow> T_Yo tile \<le> 1 \<and> k' < nu \<and> share_shift tile \<le> k' mod VN_Size tile \<and> 0 < tile_column tile k'"
    "flag (ck_ms_fwreceive_enabled c') k' \<longleftrightarrow>
       T_Yo tile \<le> 1 \<and> k' < nu \<and> share_shift tile \<le> k' mod VN_Size tile \<and> tile_column tile k' + 1 < T_S tile"
proof -
  let ?V = "VN_Size tile"
  have u: "Num_VNs tile * ?V < u32_max"
  proof -
    have "?V * Num_VNs tile < u32_max" using t unfolding linear_tile_def by linarith
    then show ?thesis by (simp add: mult.commute)
  qed
  let ?P = "\<lambda>m h. smap_ok m \<and> (\<forall>k. map_of m k \<noteq> None \<longrightarrow> k < nu)
     \<and> (\<forall>k. flag m k \<longleftrightarrow> T_Yo tile \<le> 1 \<and> k < nu \<and> share_shift tile \<le> k mod ?V \<and> h (tile_column tile k))"
  have "?P (ck_ms_fwsend_enabled c') (\<lambda>s. 0 < s) \<and> ?P (ck_ms_fwreceive_enabled c') (\<lambda>s. s + 1 < T_S tile)"
  proof (cases "1 < T_Yo tile")
    case True
    let ?key = "\<lambda>p. uadd (umul (fst p) ?V) (snd p)" and ?ps = "List.product [0..<Num_VNs tile] [0..<?V]"
    have "c' = fold (\<lambda>p. CompilerMSN_fwlink (?key p) False False) ?ps c"
      unfolding c'_def using True by (auto simp: fold_product intro!: fold_cong)
    note f = fwlink_fold(1,2) [OF this, unfolded c]
    note put = flag_put_False [OF smap_ok_Nil, where key = ?key and xs = ?ps, unfolded vn_index_image [OF u] map_of.simps(1)]
    show ?thesis unfolding f using put True k by (simp add: flag_def)
  next
    case False
    have "c' = fold (\<lambda>x. CompilerMSN_fwlink (share_key tile x) (0 < snd (snd (snd x)))
        (snd (snd (snd x)) < usub (T_S tile) 1)) (share_loop tile) c"
      unfolding c'_def using False by (simp only: share_loop_eq if_False)
    note f = fwlink_fold(1,2) [OF this, unfolded c]
    have S: "T_S tile < u32_max \<or> share_loop tile = []"
    proof (cases "share_loop tile")
      case (Cons x xs)
      obtain i ch r s where x: "x = (i, ch, r, s)" by (cases x)
      then have m: "(i, ch, r, s) \<in> set (share_loop tile)" using Cons by simp
      then have "0 < T_C tile * T_R tile" "0 < Num_VNs tile" by auto
      then have "T_S tile \<le> T_C tile * T_R tile * T_S tile" by simp
      also have "\<dots> \<le> ?V" using t by (simp add: linear_tile_def)
      also have "\<dots> \<le> Num_VNs tile * ?V" using \<open>0 < Num_VNs tile\<close> by simp
      finally show ?thesis using u by linarith
    qed simp
    have col: "tile_column tile (share_key tile x) = snd (snd (snd x))" if "x \<in> set (share_loop tile)" for x
      using share_index(4) [OF t, of "fst x" "fst (snd x)" "fst (snd (snd x))" "snd (snd (snd x))"] that by simp
    have rc: "snd (snd (snd x)) < usub (T_S tile) 1 \<longleftrightarrow> tile_column tile (share_key tile x) + 1 < T_S tile"
      if "x \<in> set (share_loop tile)" for x
    proof -
      have "share_loop tile \<noteq> []" using that by (metis list.set(1) empty_iff)
      then have "T_S tile < u32_max" "0 < T_S tile" using S t by (simp_all add: linear_tile_def)
      then have "usub (T_S tile) 1 = T_S tile - 1" by (simp add: u32_simps)
      then show ?thesis using col [OF that] by auto
    qed
    note put = fold_smap_put [OF smap_ok_Nil, where key = "share_key tile" and xs = "share_loop tile",
        unfolded share_key_image [OF t] map_of.simps(1)]
    have "?P (fold (\<lambda>x. smap_put (share_key tile x) (0 < snd (snd (snd x)))) (share_loop tile) []) (\<lambda>s. 0 < s)"
      using put [where val = "\<lambda>x. 0 < snd (snd (snd x))" and h = "\<lambda>k. 0 < tile_column tile k"] col False k
      by (auto simp: flag_def)
    moreover have "?P (fold (\<lambda>x. smap_put (share_key tile x) (snd (snd (snd x)) < usub (T_S tile) 1)) (share_loop tile) [])
        (\<lambda>s. s + 1 < T_S tile)"
      using put [where val = "\<lambda>x. snd (snd (snd x)) < usub (T_S tile) 1" and h = "\<lambda>k. tile_column tile k + 1 < T_S tile"] rc False k
      by (auto simp: flag_def)
    ultimately show ?thesis unfolding f by simp
  qed
  then show "smap_ok (ck_ms_fwsend_enabled c')" "smap_ok (ck_ms_fwreceive_enabled c')"
    "\<forall>k. map_of (ck_ms_fwsend_enabled c') k \<noteq> None \<longrightarrow> k < nu" "\<forall>k. map_of (ck_ms_fwreceive_enabled c') k \<noteq> None \<longrightarrow> k < nu"
    "flag (ck_ms_fwsend_enabled c') k' \<longleftrightarrow> T_Yo tile \<le> 1 \<and> k' < nu \<and> share_shift tile \<le> k' mod VN_Size tile \<and> 0 < tile_column tile k'"
    "flag (ck_ms_fwreceive_enabled c') k' \<longleftrightarrow>
       T_Yo tile \<le> 1 \<and> k' < nu \<and> share_shift tile \<le> k' mod VN_Size tile \<and> tile_column tile k' + 1 < T_S tile"
    by blast+
qed

lemma off_step:
  assumes c: "smap_ok (ck_ms_fwsend_enabled c)" "smap_ok (ck_ms_fwreceive_enabled c)"
    and c'_def: "c' = fold (\<lambda>i. CompilerMSN_fwlink i False False) [0..<num_ms] c"
  shows "smap_ok (ck_ms_fwsend_enabled c')" "smap_ok (ck_ms_fwreceive_enabled c')"
    "map_of (ck_ms_fwsend_enabled c') k = (if k < num_ms then Some False else map_of (ck_ms_fwsend_enabled c) k)"
    "map_of (ck_ms_fwreceive_enabled c') k = (if k < num_ms then Some False else map_of (ck_ms_fwreceive_enabled c) k)"
  unfolding fwlink_fold(1,2) [OF c'_def]
  using flag_put_False [OF c(1), of "\<lambda>i. i" "[0..<num_ms]"] flag_put_False [OF c(2), of "\<lambda>i. i" "[0..<num_ms]"] by simp_all

lemma compile_ok:
  assumes t: "linear_tile tile num_ms" and p: "ispowerof2 num_ms" and k: "nu = Num_VNs tile * VN_Size tile"
  shows "\<exists>c. CompilerMSN_configureSignals tile layer num_ms nf CompilerMSN_new = Inr c \<and> signals_ok num_ms c
     \<and> map_of (ck_ms_vn_configuration c) = (\<lambda>k. if k < nu then Some (k div VN_Size tile) else None)
     \<and> map_of (ck_n_folding_configuration c) = (\<lambda>k. if k < nu then Some nf else None)
     \<and> map_of (ck_direct_forwarding_psum_enabled c) = (\<lambda>k. if k < nu then Some False else None)
     \<and> map_of (ck_forwarding_psum_enabled c) = (\<lambda>k. if k < nu then Some (t_folding tile \<and> k mod VN_Size tile = 0) else None)
     \<and> (\<forall>k. flag (ck_ms_fwsend_enabled c) k \<longleftrightarrow>
          reuses tile layer \<and> k < nu \<and> share_shift tile \<le> k mod VN_Size tile \<and> 0 < tile_column tile k)
     \<and> (\<forall>k. flag (ck_ms_fwreceive_enabled c) k \<longleftrightarrow>
          reuses tile layer \<and> k < nu \<and> share_shift tile \<le> k mod VN_Size tile \<and> tile_column tile k + 1 < T_S tile)"
proof -
  have le: "nu \<le> num_ms" using t unfolding linear_tile_def k by (metis mult.commute)
  have chk: "umul (VN_Size tile) (Num_VNs tile) \<le> num_ms"
    using t unfolding linear_tile_def by (metis umul_small le_less_trans)
  define c1 where "c1 = fold (\<lambda>i. fold (CompilerMSN_assign tile nf i) [0..<VN_Size tile]) [0..<Num_VNs tile] CompilerMSN_new"
  define c2 where "c2 = (if 1 < T_Yo tile
               then fold (\<lambda>i. fold (\<lambda>j. CompilerMSN_fwlink (uadd (umul i (VN_Size tile)) j) False False) [0..<VN_Size tile])
                      [0..<Num_VNs tile] c1
               else fold (\<lambda>i. fold (\<lambda>ch. fold (\<lambda>r. fold (CompilerMSN_share tile i ch r) [0..<T_S tile]) [0..<T_R tile]) [0..<T_C tile])
                      [0..<Num_VNs tile] c1)"
  define c3 where "c3 = fold (\<lambda>i. CompilerMSN_fwlink i False False) [0..<num_ms] c2"
  define on where "on \<longleftrightarrow> l_strides layer \<le> 1 \<and> T_S tile dvd l_S layer"
  note a = assign_step [OF t k c1_def] and b = share_step [OF t k assign_step(9,10) [OF t k c1_def] c2_def]
  note d = off_step [OF b(1,2) c3_def]
  have other: "ck_ms_vn_configuration c2 = ck_ms_vn_configuration c1 \<and> ck_n_folding_configuration c2 = ck_n_folding_configuration c1
    \<and> ck_direct_forwarding_psum_enabled c2 = ck_direct_forwarding_psum_enabled c1
    \<and> ck_forwarding_psum_enabled c2 = ck_forwarding_psum_enabled c1"
  proof (cases "1 < T_Yo tile")
    case True
    then have "c2 = fold (\<lambda>p. CompilerMSN_fwlink (uadd (umul (fst p) (VN_Size tile)) (snd p)) False False)
        (List.product [0..<Num_VNs tile] [0..<VN_Size tile]) c1"
      unfolding c2_def by (auto simp: fold_product intro!: fold_cong)
    from fwlink_fold(3-6) [OF this] show ?thesis by simp
  next
    case False
    then have "c2 = fold (\<lambda>x. CompilerMSN_fwlink (share_key tile x) (0 < snd (snd (snd x)))
        (snd (snd (snd x)) < usub (T_S tile) 1)) (share_loop tile) c1"
      unfolding c2_def by (simp only: share_loop_eq if_False)
    from fwlink_fold(3-6) [OF this] show ?thesis by simp
  qed
  note other3 = fwlink_fold(3-6) [OF c3_def]
  have r: "rmod (l_S layer) (T_S tile) = Inr (l_S layer mod T_S tile)" using t by (simp add: linear_tile_def rmod_def)
  have run: "CompilerMSN_configureSignals tile layer num_ms nf CompilerMSN_new = Inr (if on then c2 else c3)"
    unfolding CompilerMSN_configureSignals_def CompilerMSN_generate_ms_signals_def Let_def c1_def [symmetric] c2_def [symmetric] c3_def [symmetric]
    using chk p r by (auto simp: on_def dvd_eq_mod_eq_0)
  define c where "c = (if on then c2 else c3)"
  have e: "ck_ms_vn_configuration c = ck_ms_vn_configuration c1" "ck_n_folding_configuration c = ck_n_folding_configuration c1"
    "ck_direct_forwarding_psum_enabled c = ck_direct_forwarding_psum_enabled c1"
    "ck_forwarding_psum_enabled c = ck_forwarding_psum_enabled c1"
    using other other3 by (simp_all add: c_def)
  have f: "flag (ck_ms_fwsend_enabled c) k \<longleftrightarrow> on \<and> flag (ck_ms_fwsend_enabled c2) k"
    "flag (ck_ms_fwreceive_enabled c) k \<longleftrightarrow> on \<and> flag (ck_ms_fwreceive_enabled c2) k" for k
    using d(3,4) [of k] b(3,4) le by (auto simp: c_def flag_def split: if_splits)
  have s: "smap_ok (ck_ms_fwsend_enabled c)" "smap_ok (ck_ms_fwreceive_enabled c)"
    "\<forall>k. map_of (ck_ms_fwsend_enabled c) k \<noteq> None \<longrightarrow> k < num_ms" "\<forall>k. map_of (ck_ms_fwreceive_enabled c) k \<noteq> None \<longrightarrow> k < num_ms"
    using b(1-4) d le by (auto simp: c_def split: if_splits)
  have "signals_ok num_ms c"
    using a s le by (auto simp: signals_ok_def map_of_keys e dom_def split: if_splits)
  moreover have "CompilerMSN_configureSignals tile layer num_ms nf CompilerMSN_new = Inr c" by (simp add: run c_def)
  moreover have "flag (ck_ms_fwsend_enabled c) k \<longleftrightarrow>
      reuses tile layer \<and> k < nu \<and> share_shift tile \<le> k mod VN_Size tile \<and> 0 < tile_column tile k"
    "flag (ck_ms_fwreceive_enabled c) k \<longleftrightarrow>
      reuses tile layer \<and> k < nu \<and> share_shift tile \<le> k mod VN_Size tile \<and> tile_column tile k + 1 < T_S tile" for k
    unfolding f b(5,6) by (auto simp: reuses_def on_def)
  ultimately show ?thesis by (intro exI [of _ c]) (simp add: e a(5-8))
qed

text \<open>Switches whose forwarding links are off, as \<open>resetSignals\<close> leaves them.\<close>

definition links_off :: "'d MSNetwork \<Rightarrow> bool" where
  "links_off mn \<longleftrightarrow> (\<forall>ms \<in> set (mn_mswitchtable mn). \<not> ms_inputForwardingEnabled ms \<and> \<not> ms_outputForwardingEnabled ms)"

lemma switch_signals_flags:
  assumes "\<not> ms_inputForwardingEnabled ms" "\<not> ms_outputForwardingEnabled ms"
  shows "ms_inputForwardingEnabled (switch_signals c n i ms) \<longleftrightarrow> flag (ck_ms_fwreceive_enabled c) i"
    "ms_outputForwardingEnabled (switch_signals c n i ms) \<longleftrightarrow> flag (ck_ms_fwsend_enabled c) i"
  using assms
  by (cases "map_of (ck_ms_fwreceive_enabled c) i"; cases "map_of (ck_ms_fwsend_enabled c) i";
      cases "map_of (ck_ms_vn_configuration c) i"; cases "map_of (ck_n_folding_configuration c) i";
      cases "map_of (ck_direct_forwarding_psum_enabled c) i"; cases "map_of (ck_forwarding_psum_enabled c) i";
      simp add: switch_signals_def flag_def MSwitch_setNWindows_def MSwitch_setDirectForwardPsum_def MSwitch_setNFolding_def
        MSwitch_setForwardPsum_def MSwitch_setInputForwardingEnabled_def MSwitch_setOutputForwardingEnabled_def
        MSwitch_setVirtualNeuron_def)+

lemma switch_signals_rest:
  shows "ms_n_windows (switch_signals c n i ms) = n"
    "map_of (ck_ms_vn_configuration c) i = Some v \<Longrightarrow> ms_VN (switch_signals c n i ms) = int_of_u32 v"
    "map_of (ck_n_folding_configuration c) i = Some nf \<Longrightarrow> ms_n_folding (switch_signals c n i ms) = nf"
    "map_of (ck_direct_forwarding_psum_enabled c) i = Some d \<Longrightarrow> ms_direct_forward_psum (switch_signals c n i ms) = d"
    "map_of (ck_forwarding_psum_enabled c) i = Some fp \<Longrightarrow> ms_forward_psum (switch_signals c n i ms) = fp"
    "ms_weight_fifo (switch_signals c n i ms) = ms_weight_fifo ms"
    "ms_activation_fifo (switch_signals c n i ms) = ms_activation_fifo ms"
    "ms_psum_fifo (switch_signals c n i ms) = ms_psum_fifo ms"
    "ms_forwarding_input_fifo (switch_signals c n i ms) = ms_forwarding_input_fifo ms"
    "ms_forwarding_output_fifo (switch_signals c n i ms) = ms_forwarding_output_fifo ms"
    "ms_inputConnection (switch_signals c n i ms) = ms_inputConnection ms"
    "ms_outputConnection (switch_signals c n i ms) = ms_outputConnection ms"
    "ms_inputForwardingConnection (switch_signals c n i ms) = ms_inputForwardingConnection ms"
    "ms_outputForwardingConnection (switch_signals c n i ms) = ms_outputForwardingConnection ms"
    "ms_current_n_windows (switch_signals c n i ms) = ms_current_n_windows ms"
    "ms_current_n_folding (switch_signals c n i ms) = ms_current_n_folding ms"
    "ms_num (switch_signals c n i ms) = ms_num ms"
    "map_of (ck_direct_forwarding_psum_enabled c) i = None \<Longrightarrow> ms_direct_forward_psum (switch_signals c n i ms) = ms_direct_forward_psum ms"
    "map_of (ck_forwarding_psum_enabled c) i = None \<Longrightarrow> ms_forward_psum (switch_signals c n i ms) = ms_forward_psum ms"
  by (simp_all add: switch_signals_def signal_def MSwitch_setNWindows_def MSwitch_setDirectForwardPsum_def MSwitch_setNFolding_def
        MSwitch_setForwardPsum_def MSwitch_setInputForwardingEnabled_def MSwitch_setOutputForwardingEnabled_def
        MSwitch_setVirtualNeuron_def split: option.splits)

text \<open>The next switch is in the next column, or the row ends.\<close>

lemma neighbour_columns:
  assumes S: "0 < T_S tile" "VN_Size tile = T_C tile * T_R tile * T_S tile + share_shift tile"
  shows "i + 1 < N * VN_Size tile \<and> share_shift tile \<le> (i + 1) mod VN_Size tile \<and> 0 < tile_column tile (i + 1)
    \<longleftrightarrow> i < N * VN_Size tile \<and> share_shift tile \<le> i mod VN_Size tile \<and> tile_column tile i + 1 < T_S tile"
proof -
  let ?V = "VN_Size tile" and ?h = "share_shift tile" and ?S = "T_S tile" and ?Q = "T_C tile * T_R tile"
  show ?thesis
  proof (cases "(i + 1) mod ?V = 0")
    case True
    have no: "\<not> 0 < tile_column tile (i + 1)" unfolding tile_column_def True by simp
    have "\<not> tile_column tile i + 1 < ?S" if "i < N * ?V" "?h \<le> i mod ?V"
    proof -
      have V: "0 < ?V" using that(1) by (cases ?V) auto
      have "Suc (i mod ?V) = ?V" using True by (metis Suc_eq_plus1 mod_Suc nat.distinct(1))
      then have e: "i mod ?V - ?h + 1 = ?Q * ?S" using S(2) that(2) by linarith
      then have "(i mod ?V - ?h + 1) mod ?S = 0" by simp
      then have "Suc ((i mod ?V - ?h) mod ?S) = ?S" using mod_Suc [of "i mod ?V - ?h" ?S] by (metis Suc_eq_plus1 nat.distinct(1))
      then show ?thesis by (simp add: tile_column_def)
    qed
    with no show ?thesis by blast
  next
    case False
    have m: "(i + 1) mod ?V = i mod ?V + 1" using False by (metis Suc_eq_plus1 mod_Suc)
    have lt: "i + 1 < N * ?V \<longleftrightarrow> i < N * ?V"
    proof
      assume "i < N * ?V"
      moreover have "i + 1 \<noteq> N * ?V" using False by auto
      ultimately show "i + 1 < N * ?V" by linarith
    qed simp
    show ?thesis
    proof (cases "?h \<le> i mod ?V")
      case True
      then have "(i + 1) mod ?V - ?h = Suc (i mod ?V - ?h)" using m by simp
      then have "tile_column tile (i + 1) = (if Suc (tile_column tile i) = ?S then 0 else Suc (tile_column tile i))"
        unfolding tile_column_def by (simp add: mod_Suc)
      moreover have "tile_column tile i < ?S" unfolding tile_column_def using S(1) by simp
      ultimately show ?thesis using lt m True by auto
    next
      case nh: False
      then have "(i + 1) mod ?V - ?h = 0" using m by simp
      then have "tile_column tile (i + 1) = 0" by (simp add: tile_column_def)
      with nh show ?thesis by simp
    qed
  qed
qed

text \<open>
  C33: the signals of the linear network. A tile that fits is accepted, and every switch in use gets
  its virtual neuron, the number of foldings and its role; the first switch of a virtual neuron
  forwards partial sums exactly when the tile folds. The links between neighbours are all off, or on exactly
  inside the rows of the filter: a switch in use sends to its left neighbour when it is not in the first column
  of its row. With a stride above one, or a filter row that the tile does not divide, they are off. In
  every case a switch sends exactly when its left neighbour receives.
\<close>

theorem linear_signals:
  assumes t: "linear_tile tile (mn_ms_size mn)" and p: "ispowerof2 (mn_ms_size mn)"
    and mn: "mn_ms_size mn = length (mn_mswitchtable mn)" "links_off mn"
  shows "\<exists>mn'. MSNetwork_configureSignals tile layer (mn_ms_size mn) n_folding mn = Inr mn'
     \<and> length (mn_mswitchtable mn') = length (mn_mswitchtable mn)
     \<and> (\<forall>i < Num_VNs tile * VN_Size tile. let ms = mn_mswitchtable mn' ! i in
          u32_of_int (ms_VN ms) = i div VN_Size tile \<and> ms_n_folding ms = n_folding \<and> ms_n_windows ms = l_Yo layer
          \<and> \<not> ms_direct_forward_psum ms \<and> ms_forward_psum ms = (t_folding tile \<and> i mod VN_Size tile = 0))
     \<and> (\<exists>on. (1 < l_strides layer \<or> \<not> T_S tile dvd l_S layer \<longrightarrow> \<not> on)
          \<and> (\<forall>i < mn_ms_size mn. ms_outputForwardingEnabled (mn_mswitchtable mn' ! i) \<longleftrightarrow>
               on \<and> i < Num_VNs tile * VN_Size tile \<and> share_shift tile \<le> i mod VN_Size tile \<and> 0 < tile_column tile i))
     \<and> (\<forall>i. i + 1 < mn_ms_size mn \<longrightarrow>
          ms_outputForwardingEnabled (mn_mswitchtable mn' ! (i + 1)) = ms_inputForwardingEnabled (mn_mswitchtable mn' ! i))"
proof -
  let ?n = "mn_ms_size mn" and ?V = "VN_Size tile" and ?nu = "Num_VNs tile * VN_Size tile"
  from compile_ok [OF t p refl, of layer n_folding] obtain c
    where c: "CompilerMSN_configureSignals tile layer ?n n_folding CompilerMSN_new = Inr c" "signals_ok ?n c"
     "map_of (ck_ms_vn_configuration c) = (\<lambda>k. if k < ?nu then Some (k div ?V) else None)"
     "map_of (ck_n_folding_configuration c) = (\<lambda>k. if k < ?nu then Some n_folding else None)"
     "map_of (ck_direct_forwarding_psum_enabled c) = (\<lambda>k. if k < ?nu then Some False else None)"
     "map_of (ck_forwarding_psum_enabled c) = (\<lambda>k. if k < ?nu then Some (t_folding tile \<and> k mod ?V = 0) else None)"
     "\<forall>k. flag (ck_ms_fwsend_enabled c) k \<longleftrightarrow> reuses tile layer \<and> k < ?nu \<and> share_shift tile \<le> k mod ?V \<and> 0 < tile_column tile k"
     "\<forall>k. flag (ck_ms_fwreceive_enabled c) k \<longleftrightarrow>
        reuses tile layer \<and> k < ?nu \<and> share_shift tile \<le> k mod ?V \<and> tile_column tile k + 1 < T_S tile"
    by (elim exE conjE) (rule that)
  let ?sw = "\<lambda>i. switch_signals c (l_Yo layer) i (mn_mswitchtable mn ! i)"
  have run: "MSNetwork_configureSignals tile layer ?n n_folding mn = Inr (mn\<lparr>mn_mswitchtable := map ?sw [0..<?n]\<rparr>)"
    using configureSignals_eq [OF c(1) _ mn(1)] c(2) mn(1) by simp
  have le: "?nu \<le> ?n" "?n < u32_max" using t unfolding linear_tile_def by (metis mult.commute, blast)
  have off: "\<not> ms_inputForwardingEnabled (mn_mswitchtable mn ! i)" "\<not> ms_outputForwardingEnabled (mn_mswitchtable mn ! i)"
    if "i < ?n" for i using mn that by (auto simp: links_off_def)
  have 1: "u32_of_int (ms_VN (?sw i)) = i div ?V \<and> ms_n_folding (?sw i) = n_folding \<and> ms_n_windows (?sw i) = l_Yo layer
      \<and> \<not> ms_direct_forward_psum (?sw i) \<and> ms_forward_psum (?sw i) = (t_folding tile \<and> i mod ?V = 0)" if "i < ?nu" for i
  proof -
    have "i div ?V \<le> i" by simp
    then have "i div ?V < u32_max" using that le by linarith
    moreover have "map_of (ck_direct_forwarding_psum_enabled c) i = Some False" using that c(5) by simp
    ultimately show ?thesis using that switch_signals_rest(4) [of c i False] by (simp add: switch_signals_rest c(3-6))
  qed
  have 2: "ms_outputForwardingEnabled (?sw i) \<longleftrightarrow> flag (ck_ms_fwsend_enabled c) i"
    "ms_inputForwardingEnabled (?sw i) \<longleftrightarrow> flag (ck_ms_fwreceive_enabled c) i" if "i < ?n" for i
    using switch_signals_flags [OF off [OF that]] by simp_all
  have 3: "flag (ck_ms_fwsend_enabled c) (i + 1) \<longleftrightarrow> flag (ck_ms_fwreceive_enabled c) i" for i
  proof -
    have S: "0 < T_S tile" "?V = T_C tile * T_R tile * T_S tile + share_shift tile" using t by (simp_all add: linear_tile_def)
    show ?thesis using neighbour_columns [OF S, of i "Num_VNs tile"] unfolding c(7) [rule_format] c(8) [rule_format] by blast
  qed
  let ?mn = "mn\<lparr>mn_mswitchtable := map ?sw [0..<?n]\<rparr>"
  have 4: "\<exists>on. (1 < l_strides layer \<or> \<not> T_S tile dvd l_S layer \<longrightarrow> \<not> on)
      \<and> (\<forall>i < ?n. ms_outputForwardingEnabled (mn_mswitchtable ?mn ! i) \<longleftrightarrow>
           on \<and> i < ?nu \<and> share_shift tile \<le> i mod ?V \<and> 0 < tile_column tile i)"
    using 2(1) c(7) by (intro exI [of _ "reuses tile layer"]) (simp add: reuses_def)
  show ?thesis
    using run 1 2 3 4 le mn(1) by (intro exI [of _ ?mn]) (simp add: Let_def)
qed

theorem linear_signals_witness:
  "\<exists>mn'. MSNetwork_configureSignals (Tile_conv 1 3 1 2 1 1 1 1 False)
       \<lparr>l_type = CONV, l_R = 1, l_S = 3, l_C = 1, l_K = 2, l_G = 1, l_N = 1, l_X = 1, l_Y = 6, l_Xo = 1, l_Yo = 4, l_strides = 1\<rparr> 8 1
       \<lparr>mn_mswitchtable = map (\<lambda>i. MSwitch_new i Config_reset) [0..<8], mn_ms_size = 8, mn_forwarding_ports = 1, mn_buffers_capacity = 64\<rparr>
     = Inr mn' \<and> u32_of_int (ms_VN (mn_mswitchtable mn' ! 4)) = 1 \<and> \<not> ms_outputForwardingEnabled (mn_mswitchtable mn' ! 3)
     \<and> \<not> ms_inputForwardingEnabled (mn_mswitchtable mn' ! 2)
     \<and> ms_outputForwardingEnabled (mn_mswitchtable mn' ! 4) = ms_inputForwardingEnabled (mn_mswitchtable mn' ! 3)"
proof -
  let ?tile = "Tile_conv 1 3 1 2 1 1 1 1 False"
  let ?layer = "\<lparr>l_type = CONV, l_R = 1, l_S = 3, l_C = 1, l_K = 2, l_G = 1, l_N = 1, l_X = 1, l_Y = 6, l_Xo = 1, l_Yo = 4, l_strides = 1\<rparr>"
  let ?mn = "\<lparr>mn_mswitchtable = map (\<lambda>i. MSwitch_new i Config_reset) [0..<8], mn_ms_size = 8, mn_forwarding_ports = 1,
      mn_buffers_capacity = 64\<rparr> :: 'a MSNetwork"
  have v: "Num_VNs ?tile = 2" "VN_Size ?tile = 3" "share_shift ?tile = 0" "T_S ?tile = 3" "T_C ?tile = 1" "T_R ?tile = 1"
    "T_Yo ?tile = 1" by (simp_all add: Tile_conv_def share_shift_def umul_def u32_max_def)
  have col: "tile_column ?tile i = i mod 3 mod 3" for i unfolding tile_column_def v by simp
  have t: "linear_tile ?tile (mn_ms_size ?mn)" unfolding linear_tile_def v by (simp add: u32_max_def)
  have p: "ispowerof2 (mn_ms_size ?mn)" by (simp add: ispowerof2_def usub_def u32_max_def)
  have off: "links_off ?mn" by (auto simp: links_off_def MSwitch_new_def Let_def)
  have len: "mn_ms_size ?mn = length (mn_mswitchtable ?mn)" by simp
  from linear_signals [where layer = ?layer and n_folding = 1, OF t p len off] obtain mn' on where
    1: "MSNetwork_configureSignals ?tile ?layer (mn_ms_size ?mn) 1 ?mn = Inr mn'"
    "\<forall>i < Num_VNs ?tile * VN_Size ?tile. let ms = mn_mswitchtable mn' ! i in
          u32_of_int (ms_VN ms) = i div VN_Size ?tile \<and> ms_n_folding ms = 1 \<and> ms_n_windows ms = l_Yo ?layer
          \<and> \<not> ms_direct_forward_psum ms \<and> ms_forward_psum ms = (t_folding ?tile \<and> i mod VN_Size ?tile = 0)"
    "\<forall>i < mn_ms_size ?mn. ms_outputForwardingEnabled (mn_mswitchtable mn' ! i) \<longleftrightarrow>
          on \<and> i < Num_VNs ?tile * VN_Size ?tile \<and> share_shift ?tile \<le> i mod VN_Size ?tile \<and> 0 < tile_column ?tile i"
    "\<forall>i. i + 1 < mn_ms_size ?mn \<longrightarrow>
          ms_outputForwardingEnabled (mn_mswitchtable mn' ! (i + 1)) = ms_inputForwardingEnabled (mn_mswitchtable mn' ! i)"
    by (elim exE conjE) (rule that)
  have "u32_of_int (ms_VN (mn_mswitchtable mn' ! 4)) = 1" using 1(2) unfolding v Let_def by simp
  moreover have "\<not> ms_outputForwardingEnabled (mn_mswitchtable mn' ! 3)" using 1(3) unfolding v col by simp
  moreover from this 1(4) [rule_format, of 2] have "\<not> ms_inputForwardingEnabled (mn_mswitchtable mn' ! 2)" by simp
  moreover from 1(4) [rule_format, of 3] have
    "ms_outputForwardingEnabled (mn_mswitchtable mn' ! 4) = ms_inputForwardingEnabled (mn_mswitchtable mn' ! 3)" by simp
  ultimately show ?thesis using 1(1) by simp
qed

end
