(* ===== verification/LinearRun.thy ===== *)
theory LinearRun
  imports LinearSignals
begin

text \<open>
  The linear network at work: the cycle of one switch, and the reuse of activations between
  neighbours. When the windows of a row of inputs slide over a row of a filter, only the last switch
  of the filter row is fed from memory after the first window; all others get their activation from
  their neighbour, in the cycle they need it.
\<close>

section \<open>One switch\<close>

definition MSwitch_static where
  "MSwitch_static ms =
     (ms_inputConnection ms, ms_outputConnection ms, ms_inputForwardingConnection ms, ms_outputForwardingConnection ms,
      ms_num ms, ms_VN ms, ms_inputForwardingEnabled ms, ms_outputForwardingEnabled ms, ms_n_windows ms, ms_n_folding ms,
      ms_forward_psum ms, ms_direct_forward_psum ms)"

lemma MSwitch_static_eqD:
  assumes "MSwitch_static ms' = MSwitch_static ms"
  shows "ms_inputConnection ms' = ms_inputConnection ms" "ms_outputConnection ms' = ms_outputConnection ms"
    "ms_inputForwardingConnection ms' = ms_inputForwardingConnection ms"
    "ms_outputForwardingConnection ms' = ms_outputForwardingConnection ms"
    "ms_num ms' = ms_num ms" "ms_VN ms' = ms_VN ms" "ms_inputForwardingEnabled ms' = ms_inputForwardingEnabled ms"
    "ms_outputForwardingEnabled ms' = ms_outputForwardingEnabled ms" "ms_n_windows ms' = ms_n_windows ms"
    "ms_n_folding ms' = ms_n_folding ms" "ms_forward_psum ms' = ms_forward_psum ms"
    "ms_direct_forward_psum ms' = ms_direct_forward_psum ms"
  using assms by (simp_all add: MSwitch_static_def)

text \<open>A multiplier between two cycles: only the weights wait.\<close>

definition MSwitch_rest :: "'d MSwitch \<Rightarrow> bool" where
  "MSwitch_rest ms \<longleftrightarrow> f_fifo (ms_activation_fifo ms) = [] \<and> f_fifo (ms_psum_fifo ms) = []
     \<and> f_fifo (ms_forwarding_input_fifo ms) = [] \<and> f_fifo (ms_forwarding_output_fifo ms) = []
     \<and> \<not> ms_direct_forward_psum ms \<and> \<not> ms_forward_psum ms \<and> ms_current_n_folding ms = 0"

definition MSwitch_product :: "'d::times DataPackage \<Rightarrow> 'd DataPackage \<Rightarrow> nat \<Rightarrow> nat \<Rightarrow> 'd DataPackage" where
  "MSwitch_product a w num vn = DataPackage_psum sizeof_data_t (p_data a * p_data w) PSUM num vn MULTIPLIER"

lemma DataPackage_copy_ok:
  assumes "DataPackage_copy p = Inr c"
  shows "p_data c = p_data p" "p_data_type c = p_data_type p" "DataPackage_copy c = Inr c"
  using assms
  by (auto simp: DataPackage_copy_def Let_def DataPackage_general_def rderef_eq_Inr split: if_splits)

lemma receive_nothing:
  assumes "link st c []"
  shows "MSwitch_receive (Some c) ms st = Inr (ms, st)"
  using link_pend [OF assms]
  by (cases "ms_inputForwardingConnection ms = Some c") (auto simp: MSwitch_receive_def MSwitch_receive_forward_def)

lemma receive_activation:
  assumes "link st c [p]" "p_data_type p = IACTIVATION" "ms_inputForwardingConnection ms \<noteq> Some c"
  shows "MSwitch_receive (Some c) ms st = Inr (ms\<lparr>ms_activation_fifo := Fifo_push p (ms_activation_fifo ms),
      ms_stats := mss_n_inputs_receive_update (\<lambda>n. n + 1) (ms_stats ms)\<rparr>, st(c := snd (Connection_receive (st c))))"
  using link_pend [OF assms(1)] link_flight [OF assms(1)] assms(2,3)
  by (auto simp: MSwitch_receive_def MSwitch_receive_forward_def MSwitch_receive_package_def)

lemma receive_weight:
  assumes "link st c [p]" "p_data_type p = WEIGHT" "ms_inputForwardingConnection ms \<noteq> Some c"
    and "length (f_fifo (ms_weight_fifo ms)) \<le> 1" "ms_n_folding ms = 1"
  shows "\<exists>ms'. MSwitch_receive (Some c) ms st = Inr (ms', st(c := snd (Connection_receive (st c))))
     \<and> MSwitch_static ms' = MSwitch_static ms \<and> f_fifo (ms_weight_fifo ms') = [p] \<and> (MSwitch_rest ms \<longrightarrow> MSwitch_rest ms')
     \<and> ms_current_n_windows ms' = ms_current_n_windows ms"
proof -
  obtain q' where q': "Fifo_drain (ms_weight_fifo ms) = Inr (f_fifo (ms_weight_fifo ms), q')" "f_fifo q' = []"
    using Fifo_drain_all by blast
  have "Suc 0 mod u32_max = Suc 0" by (rule mod_less) simp
  then show ?thesis
    using link_pend [OF assms(1)] link_flight [OF assms(1)] assms(2-) q'
    by (cases "f_fifo (ms_weight_fifo ms)")
       (auto simp: MSwitch_receive_def MSwitch_receive_forward_def MSwitch_receive_package_def MSwitch_receive_weight_def
          Fifo_size_def MSwitch_static_def MSwitch_rest_def)
qed

lemma receive_neighbour:
  assumes "link st c [p]" "p_data_type p = IACTIVATION" "ms_inputForwardingConnection ms = Some c"
  shows "MSwitch_receive (Some c) ms st = Inr (ms\<lparr>ms_forwarding_input_fifo := Fifo_push p (ms_forwarding_input_fifo ms),
      ms_stats := mss_n_input_forwardings_receive_update (\<lambda>n. n + 1) (ms_stats ms)\<rparr>, st(c := snd (Connection_receive (st c))))"
  using link_pend [OF assms(1)] link_flight [OF assms(1)] assms(2,3)
  by (simp add: MSwitch_receive_def MSwitch_receive_forward_def)

text \<open>The multiplication, with one weight: the product is sent, the activation forwarded, the window counted.\<close>

lemma switch_multiply:
  assumes w: "f_fifo (ms_weight_fifo ms) = [w]" and r: "MSwitch_rest ms" and nf: "ms_n_folding ms = 1"
    and o1: "ms_outputConnection ms = Some o1" and cp: "DataPackage_copy a = Inr c"
    and o2: "ms_outputForwardingEnabled ms \<longrightarrow> ms_outputForwardingConnection ms = Some o2"
    and win: "ms_current_n_windows ms < ms_n_windows ms" "ms_n_windows ms < u32_max" and ne: "o1 \<noteq> o2"
  shows "\<exists>ms' st'. MSwitch_multiply a ms st = Inr (ms', st') \<and> MSwitch_static ms' = MSwitch_static ms \<and> MSwitch_rest ms'
     \<and> f_fifo (ms_weight_fifo ms') = [w]
     \<and> ms_current_n_windows ms' = (ms_current_n_windows ms + 1) mod ms_n_windows ms
     \<and> link st' o1 [MSwitch_product a w (ms_num ms) (u32_of_int (ms_VN ms))]
     \<and> (if ms_outputForwardingEnabled ms \<and> ms_current_n_windows ms + 1 < ms_n_windows ms
        then link st' o2 [c] \<and> (\<forall>x. x \<noteq> o1 \<longrightarrow> x \<noteq> o2 \<longrightarrow> st' x = st x)
        else (\<forall>x. x \<noteq> o1 \<longrightarrow> st' x = st x))"
proof -
  let ?W = "ms_n_windows ms" and ?k = "ms_current_n_windows ms"
  have k: "usub ?W 1 = ?W - 1" "uadd ?k 1 = ?k + 1" "uadd 0 1 = 1" using win by (simp_all add: u32_simps)
  have lt: "?k < usub ?W 1 \<longleftrightarrow> ?k + 1 < ?W" using k(1) win by auto
  have md: "(if ?k + 1 = ?W then 0 else ?k + 1) = (?k + 1) mod ?W" using win by auto
  have d: "Fifo_drain (Fifo_push p q) = Inr ([p], q\<lparr>f_fifo := [], f_stats := fs_n_pops_update (\<lambda>k. k + 1) (f_stats (Fifo_push p q))\<rparr>)"
    if "f_fifo q = []" for p :: "'a DataPackage" and q
    using that by (simp add: Fifo_drain.simps [of "Fifo_push p q"] Fifo_pop_def Fifo_push_def Let_def Fifo_drain.simps)
  show ?thesis
    using w r nf o1 cp o2 ne md
    by (auto simp: MSwitch_multiply_def MSwitch_perform_operation_2_operands_def MSwitch_send_def d Fifo_pop_ok
        MSwitch_forward_activation_def MSwitch_forward_def MSwitch_count_window_def MSwitch_rest_def MSwitch_static_def
        MSwitch_product_def Let_def lt [unfolded One_nat_def] k [unfolded One_nat_def])
qed

text \<open>A cycle in which nothing arrives, one in which a weight arrives, and one that multiplies.\<close>

lemma cycle_nothing:
  assumes r: "MSwitch_rest ms" and i: "ms_inputConnection ms = Some i" "link st i []"
    and f: "ms_inputForwardingEnabled ms \<Longrightarrow> ms_inputForwardingConnection ms = Some f \<and> link st f []"
  shows "\<exists>ms'. MSwitch_cycle ms st = Inr (ms', st) \<and> MSwitch_static ms' = MSwitch_static ms \<and> MSwitch_rest ms'
     \<and> f_fifo (ms_weight_fifo ms') = f_fifo (ms_weight_fifo ms) \<and> ms_current_n_windows ms' = ms_current_n_windows ms"
  using r i f
  by (cases "ms_inputForwardingEnabled ms")
     (simp_all add: MSwitch_cycle_def MSwitch_normal_cycle_def receive_nothing MSwitch_rest_def MSwitch_static_def Let_def)

lemma cycle_weight:
  assumes r: "MSwitch_rest ms" and i: "ms_inputConnection ms = Some i" "link st i [w]" "p_data_type w = WEIGHT"
    and f: "ms_inputForwardingEnabled ms \<Longrightarrow> ms_inputForwardingConnection ms = Some f \<and> link st f [] \<and> f \<noteq> i"
      "ms_inputForwardingConnection ms \<noteq> Some i"
    and w: "length (f_fifo (ms_weight_fifo ms)) \<le> 1" "ms_n_folding ms = 1"
  shows "\<exists>ms'. MSwitch_cycle ms st = Inr (ms', st(i := snd (Connection_receive (st i)))) \<and> MSwitch_static ms' = MSwitch_static ms
     \<and> MSwitch_rest ms' \<and> f_fifo (ms_weight_fifo ms') = [w] \<and> ms_current_n_windows ms' = ms_current_n_windows ms"
proof -
  let ?ms = "ms\<lparr>ms_local_cycle := ms_local_cycle ms + 1, ms_stats := mss_total_cycles_update (\<lambda>n. n + 1) (ms_stats ms)\<rparr>"
  let ?st = "st(i := snd (Connection_receive (st i)))"
  have s: "MSwitch_static ?ms = MSwitch_static ms" "MSwitch_rest ?ms" using r by (simp_all add: MSwitch_static_def MSwitch_rest_def)
  from receive_weight [of st i w ?ms] i f(2) w s obtain ms' where
    1: "MSwitch_receive (Some i) ?ms st = Inr (ms', ?st)" "MSwitch_static ms' = MSwitch_static ms" "f_fifo (ms_weight_fifo ms') = [w]"
      "MSwitch_rest ms'" "ms_current_n_windows ms' = ms_current_n_windows ms" by auto
  have 2: "(if ms_inputForwardingEnabled ms' then MSwitch_receive (ms_inputForwardingConnection ms') ms' ?st else Inr (ms', ?st))
      = Inr (ms', ?st)"
    using MSwitch_static_eqD [OF 1(2)] f(1) receive_nothing [of ?st f ms'] by auto
  have "MSwitch_normal_cycle ?ms st = Inr (ms', ?st)"
    using 1(1,4) i(1) 2 by (simp add: MSwitch_normal_cycle_def MSwitch_rest_def Let_def)
  then have "MSwitch_cycle ms st = Inr (ms', ?st)" using r by (simp add: MSwitch_cycle_def MSwitch_rest_def Let_def)
  with 1 show ?thesis by blast
qed

lemma cycle_multiply:
  assumes r: "MSwitch_rest ms" and w: "f_fifo (ms_weight_fifo ms) = [w]" "ms_n_folding ms = 1"
    and i: "ms_inputConnection ms = Some i" "ms_inputForwardingConnection ms \<noteq> Some i" and o1: "ms_outputConnection ms = Some o1"
    and o2: "ms_outputForwardingEnabled ms \<longrightarrow> ms_outputForwardingConnection ms = Some o2"
    and f: "ms_inputForwardingEnabled ms \<longrightarrow> ms_inputForwardingConnection ms = Some f"
    and d: "distinct [i, o1, o2, f]" and a: "p_data_type a = IACTIVATION" "DataPackage_copy a = Inr c"
    and win: "ms_current_n_windows ms < ms_n_windows ms" "ms_n_windows ms < u32_max"
    and L: "link st i L" "ms_inputForwardingEnabled ms \<longrightarrow> link st f F"
      "if ms_inputForwardingEnabled ms \<and> 0 < ms_current_n_windows ms then L = [] \<and> F = [a] else L = [a] \<and> F = []"
  shows "\<exists>ms' st'. MSwitch_cycle ms st = Inr (ms', st') \<and> MSwitch_static ms' = MSwitch_static ms \<and> MSwitch_rest ms'
     \<and> f_fifo (ms_weight_fifo ms') = [w]
     \<and> ms_current_n_windows ms' = (ms_current_n_windows ms + 1) mod ms_n_windows ms
     \<and> link st' o1 [MSwitch_product a w (ms_num ms) (u32_of_int (ms_VN ms))] \<and> link st' i []
     \<and> (if ms_inputForwardingEnabled ms then link st' f [] else st' f = st f)
     \<and> (if ms_outputForwardingEnabled ms \<and> ms_current_n_windows ms + 1 < ms_n_windows ms then link st' o2 [c] else st' o2 = st o2)
     \<and> (\<forall>x. x \<notin> {i, o1, o2, f} \<longrightarrow> st' x = st x)"
proof -
  let ?ms = "ms\<lparr>ms_local_cycle := ms_local_cycle ms + 1, ms_stats := mss_total_cycles_update (\<lambda>n. n + 1) (ms_stats ms)\<rparr>"
  let ?nb = "ms_inputForwardingEnabled ms \<and> 0 < ms_current_n_windows ms"
  have s: "MSwitch_static ?ms = MSwitch_static ms" "MSwitch_rest ?ms" using r by (simp_all add: MSwitch_static_def MSwitch_rest_def)
  have one: "ms_n_folding ms \<le> Fifo_size (ms_weight_fifo ms)"
  proof -
    have "Suc 0 mod u32_max = Suc 0" by (rule mod_less) simp
    then show ?thesis using w by (simp add: Fifo_size_def)
  qed
  \<comment> \<open>the state at the multiplication\<close>
  have "\<exists>ms1 st1. MSwitch_normal_cycle ?ms st = MSwitch_multiply a ms1 st1 \<and> MSwitch_static ms1 = MSwitch_static ms \<and> MSwitch_rest ms1
      \<and> f_fifo (ms_weight_fifo ms1) = [w] \<and> ms_current_n_windows ms1 = ms_current_n_windows ms
      \<and> link st1 i [] \<and> (if ms_inputForwardingEnabled ms then link st1 f [] else st1 f = st f)
      \<and> (\<forall>x. x \<noteq> i \<longrightarrow> x \<noteq> f \<longrightarrow> st1 x = st x)"
  proof (cases ?nb)
    case True
    let ?st1 = "st(f := snd (Connection_receive (st f)))"
    have l: "link st i []" "link st f [a]" using L True by simp_all
    let ?ms1 = "(?ms\<lparr>
          ms_stats := mss_n_input_forwardings_receive_update (\<lambda>n. n + 1) (ms_stats ?ms), ms_forwarding_input_fifo :=
          (Fifo_push a (ms_forwarding_input_fifo ms))\<lparr>f_fifo := [], f_stats := fs_n_pops_update (\<lambda>k. k + 1)
             (f_stats (Fifo_push a (ms_forwarding_input_fifo ms)))\<rparr>\<rparr>)"
    have "MSwitch_normal_cycle ?ms st = MSwitch_multiply a ?ms1 ?st1"
      using True i(1) f r one
      by (simp add: MSwitch_normal_cycle_def receive_nothing [OF l(1)] receive_neighbour [OF l(2) a(1)] MSwitch_rest_def Let_def
          Fifo_pop_ok)
    moreover have "link ?st1 i []" using l(1) d by (auto simp: link_def)
    ultimately show ?thesis using True r w by (intro exI [of _ ?ms1] exI [of _ ?st1] conjI) (auto simp: MSwitch_static_def MSwitch_rest_def)
  next
    case False
    let ?st1 = "st(i := snd (Connection_receive (st i)))"
    have l: "link st i [a]" "ms_inputForwardingEnabled ms \<Longrightarrow> link ?st1 f []" using L False d by (auto simp: link_def)
    let ?ms1 = "(?ms\<lparr>
          ms_stats := mss_n_inputs_receive_update (\<lambda>n. n + 1) (ms_stats ?ms), ms_activation_fifo :=
          (Fifo_push a (ms_activation_fifo ms))\<lparr>f_fifo := [], f_stats := fs_n_pops_update (\<lambda>k. k + 1)
             (f_stats (Fifo_push a (ms_activation_fifo ms)))\<rparr>\<rparr>)"
    have "MSwitch_normal_cycle ?ms st = MSwitch_multiply a ?ms1 ?st1"
      using False i f r one
      by (cases "ms_inputForwardingEnabled ms")
         (auto simp: MSwitch_normal_cycle_def receive_activation [OF l(1) a(1)] receive_nothing [OF l(2)] MSwitch_rest_def Let_def
          Fifo_pop_ok)
    then show ?thesis using False r w l(2) d by (intro exI [of _ ?ms1] exI [of _ ?st1] conjI) (auto simp: MSwitch_static_def MSwitch_rest_def)
  qed
  then obtain ms1 st1 where 1: "MSwitch_normal_cycle ?ms st = MSwitch_multiply a ms1 st1" "MSwitch_static ms1 = MSwitch_static ms"
      "MSwitch_rest ms1" "f_fifo (ms_weight_fifo ms1) = [w]" "ms_current_n_windows ms1 = ms_current_n_windows ms"
      "link st1 i []" "if ms_inputForwardingEnabled ms then link st1 f [] else st1 f = st f"
      "\<forall>x. x \<noteq> i \<longrightarrow> x \<noteq> f \<longrightarrow> st1 x = st x" by (elim exE conjE) (rule that)
  note e = MSwitch_static_eqD [OF 1(2)]
  have "o1 \<noteq> o2" using d by simp
  from switch_multiply [of ms1 w o1 a c o2 st1, OF 1(4,3) _ _ a(2) _ _ _ this, unfolded e 1(5), OF w(2) o1 o2 win]
  obtain ms' st' where 2: "MSwitch_multiply a ms1 st1 = Inr (ms', st')" "MSwitch_static ms' = MSwitch_static ms1" "MSwitch_rest ms'"
     "f_fifo (ms_weight_fifo ms') = [w]" "ms_current_n_windows ms' = (ms_current_n_windows ms + 1) mod ms_n_windows ms"
     "link st' o1 [MSwitch_product a w (ms_num ms) (u32_of_int (ms_VN ms))]"
     "if ms_outputForwardingEnabled ms \<and> ms_current_n_windows ms + 1 < ms_n_windows ms
        then link st' o2 [c] \<and> (\<forall>x. x \<noteq> o1 \<longrightarrow> x \<noteq> o2 \<longrightarrow> st' x = st1 x)
        else (\<forall>x. x \<noteq> o1 \<longrightarrow> st' x = st1 x)"
    by (elim exE conjE) (rule that)
  have "MSwitch_cycle ms st = Inr (ms', st')"
    using r 1(1) 2(1) by (simp add: MSwitch_cycle_def MSwitch_rest_def Let_def)
  moreover have x: "st' x = st1 x" if "x \<noteq> o1" "x \<noteq> o2" for x using 2(7) that by (auto split: if_splits)
  have "link st' i []" using 1(6) x [of i] d by (simp add: link_def)
  moreover have "if ms_inputForwardingEnabled ms then link st' f [] else st' f = st f"
    using 1(7) x [of f] d by (auto simp: link_def)
  moreover have "if ms_outputForwardingEnabled ms \<and> ms_current_n_windows ms + 1 < ms_n_windows ms then link st' o2 [c] else st' o2 = st o2"
    using 2(7) 1(8) d by (auto split: if_splits)
  moreover have "\<forall>x. x \<notin> {i, o1, o2, f} \<longrightarrow> st' x = st x" using x 1(8) by auto
  ultimately show ?thesis using 2(2-6) 1(2) by (intro exI [of _ ms'] exI [of _ st'] conjI) simp_all
qed

section \<open>Rows of windows\<close>

text \<open>
  A run of the network: \<open>n\<close> switches of which \<open>nu\<close> are in use, filter rows of \<open>S\<close> switches, \<open>N\<close>
  windows in an output row, virtual neurons of \<open>V\<close> switches; the links, the weight of every switch
  and the activation at position \<open>x\<close> of row \<open>r\<close> for the filter row \<open>g\<close>.
\<close>

record 'd rows =
  rw_n :: nat
  rw_nu :: nat
  rw_S :: nat
  rw_N :: nat
  rw_V :: nat
  rw_in :: "nat \<Rightarrow> cid"
  rw_out :: "nat \<Rightarrow> cid"
  rw_W :: "nat \<Rightarrow> 'd DataPackage"
  rw_A :: "nat \<Rightarrow> nat \<Rightarrow> nat \<Rightarrow> 'd DataPackage"

definition rows_ok :: "'d rows \<Rightarrow> bool" where
  "rows_ok e \<longleftrightarrow> 0 < rw_S e \<and> rw_S e dvd rw_nu e \<and> rw_nu e \<le> rw_n e \<and> rw_n e < u32_max \<and> 0 < rw_N e \<and> rw_N e < u32_max
     \<and> (\<forall>m. p_data_type (rw_W e m) = WEIGHT)
     \<and> (\<forall>g r x. p_data_type (rw_A e g r x) = IACTIVATION \<and> (\<exists>c. DataPackage_copy (rw_A e g r x) = Inr c))
     \<and> inj (rw_in e) \<and> inj (rw_out e)
     \<and> (\<forall>m k. rw_in e m \<noteq> rw_out e k \<and> rw_in e m \<noteq> FwLink k \<and> rw_out e m \<noteq> FwLink k)"

text \<open>Cycle 0 brings the weights; cycle \<open>1 + r * N + w\<close> is window \<open>w\<close> of row \<open>r\<close>.\<close>

definition forwarded :: "'d rows \<Rightarrow> nat \<Rightarrow> nat \<Rightarrow> nat \<Rightarrow> 'd DataPackage" where
  "forwarded e g r x = (case DataPackage_copy (rw_A e g r x) of Inl _ \<Rightarrow> rw_A e g r x | Inr c \<Rightarrow> c)"

definition from_memory :: "'d rows \<Rightarrow> nat \<Rightarrow> nat \<Rightarrow> bool" where
  "from_memory e t m \<longleftrightarrow> (t - 1) mod rw_N e = 0 \<or> m mod rw_S e + 1 = rw_S e"

definition in_msg :: "'d rows \<Rightarrow> nat \<Rightarrow> nat \<Rightarrow> 'd DataPackage list" where
  "in_msg e t m = (if m < rw_nu e then
       if t = 0 then [rw_W e m]
       else if from_memory e t m then [rw_A e (m div rw_S e) ((t - 1) div rw_N e) ((t - 1) mod rw_N e + m mod rw_S e)] else []
     else [])"

definition fw_msg :: "'d rows \<Rightarrow> nat \<Rightarrow> nat \<Rightarrow> 'd DataPackage list" where
  "fw_msg e t m = (if m < rw_nu e \<and> m mod rw_S e + 1 < rw_S e \<and> 0 < (t - 1) mod rw_N e
     then [forwarded e (m div rw_S e) ((t - 1) div rw_N e) ((t - 1) mod rw_N e + m mod rw_S e)] else [])"

definition out_msg :: "'d::times rows \<Rightarrow> nat \<Rightarrow> nat \<Rightarrow> 'd DataPackage list" where
  "out_msg e t m = (if m < rw_nu e \<and> 0 < t
     then [DataPackage_psum sizeof_data_t
        (p_data (rw_A e (m div rw_S e) ((t - 1) div rw_N e) ((t - 1) mod rw_N e + m mod rw_S e)) * p_data (rw_W e m))
        PSUM m (m div rw_V e) MULTIPLIER] else [])"

text \<open>A switch before cycle \<open>t\<close>.\<close>

definition sw :: "'d rows \<Rightarrow> nat \<Rightarrow> nat \<Rightarrow> 'd MSwitch \<Rightarrow> bool" where
  "sw e t m ms \<longleftrightarrow> MSwitch_rest ms \<and> ms_inputConnection ms = Some (rw_in e m) \<and> ms_outputConnection ms = Some (rw_out e m)
     \<and> ms_inputForwardingConnection ms = (if m + 1 < rw_n e then Some (FwLink m) else None)
     \<and> ms_outputForwardingConnection ms = (if 0 < m then Some (FwLink (m - 1)) else None)
     \<and> ms_inputForwardingEnabled ms = (m < rw_nu e \<and> m mod rw_S e + 1 < rw_S e)
     \<and> ms_outputForwardingEnabled ms = (m < rw_nu e \<and> 0 < m mod rw_S e)
     \<and> ms_n_windows ms = rw_N e \<and> ms_num ms = m
     \<and> (m < rw_nu e \<longrightarrow> ms_n_folding ms = 1 \<and> u32_of_int (ms_VN ms) = m div rw_V e
          \<and> ms_current_n_windows ms = (t - 1) mod rw_N e
          \<and> (if t = 0 then length (f_fifo (ms_weight_fifo ms)) \<le> 1 else f_fifo (ms_weight_fifo ms) = [rw_W e m]))"

lemma sw_static:
  assumes "sw e t m ms" "MSwitch_static ms' = MSwitch_static ms" "MSwitch_rest ms'"
    and "m < rw_nu e \<Longrightarrow> ms_current_n_windows ms' = t mod rw_N e \<and> f_fifo (ms_weight_fifo ms') = [rw_W e m]"
  shows "sw e (Suc t) m ms'"
  using assms(1,3,4) MSwitch_static_eqD [OF assms(2)] by (auto simp: sw_def)

text \<open>The link to the left neighbour, or one nobody uses.\<close>

definition left_link :: "'d rows \<Rightarrow> nat \<Rightarrow> cid" where
  "left_link e m = (if 0 < m then FwLink (m - 1) else FwLink (rw_n e))"

lemma links_distinct:
  assumes "rows_ok e" "m < rw_n e"
  shows "distinct [rw_in e m, rw_out e m, left_link e m, FwLink m]"
proof -
  have "rw_in e m \<noteq> rw_out e m" "rw_in e m \<noteq> FwLink k" "rw_out e m \<noteq> FwLink k" for k
    using assms(1) by (simp_all add: rows_ok_def)
  then show ?thesis using assms(2) by (cases m) (simp_all add: left_link_def)
qed

lemma in_use_room:
  assumes "rows_ok e" "m < rw_nu e" "m mod rw_S e + 1 < rw_S e"
  shows "m + 1 < rw_nu e"
proof -
  obtain k where k: "rw_nu e = rw_S e * k" using assms(1) by (auto simp: rows_ok_def)
  have "m + 1 \<noteq> rw_S e * k"
  proof
    assume "m + 1 = rw_S e * k"
    then have "(m + 1) mod rw_S e = 0" by simp
    then have "Suc (m mod rw_S e) = rw_S e" by (metis Suc_eq_plus1 mod_Suc nat.distinct(1))
    then show False using assms(3) by simp
  qed
  then show ?thesis using assms(2) k by simp
qed

text \<open>What a switch sends in cycle \<open>t\<close> is what its left neighbour finds in cycle \<open>t + 1\<close>.\<close>

lemma fw_msg_next:
  assumes "rows_ok e" "0 < m" "0 < t"
  shows "fw_msg e (Suc t) (m - 1) =
    (if m < rw_nu e \<and> 0 < m mod rw_S e \<and> (t - 1) mod rw_N e + 1 < rw_N e
     then [forwarded e (m div rw_S e) ((t - 1) div rw_N e) ((t - 1) mod rw_N e + m mod rw_S e)] else [])"
proof -
  have S: "0 < rw_S e" and N: "0 < rw_N e" using assms(1) by (simp_all add: rows_ok_def)
  obtain u where t: "t = Suc u" using assms(3) by (cases t) auto
  obtain l where m: "m = Suc l" using assms(2) by (cases m) auto
  have a: "0 < t mod rw_N e \<longleftrightarrow> (t - 1) mod rw_N e + 1 < rw_N e"
    "0 < t mod rw_N e \<Longrightarrow> t mod rw_N e = (t - 1) mod rw_N e + 1 \<and> t div rw_N e = (t - 1) div rw_N e"
    using mod_less_divisor [OF N, of u] unfolding t by (auto simp: mod_Suc div_Suc)
  have b: "(m - 1) mod rw_S e + 1 < rw_S e \<longleftrightarrow> 0 < m mod rw_S e"
    "0 < m mod rw_S e \<Longrightarrow> m mod rw_S e = (m - 1) mod rw_S e + 1 \<and> m div rw_S e = (m - 1) div rw_S e"
    using mod_less_divisor [OF S, of l] unfolding m by (auto simp: mod_Suc div_Suc)
  have c: "m - 1 < rw_nu e \<longleftrightarrow> m < rw_nu e" if "0 < m mod rw_S e"
  proof
    assume "m - 1 < rw_nu e"
    from in_use_room [OF assms(1) this] that b(1) show "m < rw_nu e" using assms(2) by simp
  qed simp
  show ?thesis
  proof (cases "0 < m mod rw_S e \<and> 0 < t mod rw_N e")
    case True
    then show ?thesis using a b c by (simp add: fw_msg_def)
  next
    case False
    then show ?thesis using a(1) b(1) by (auto simp: fw_msg_def)
  qed
qed

lemma sw_step:
  assumes e: "rows_ok e" and m: "m < rw_n e" and s: "sw e t m ms"
    and L: "link st (rw_in e m) (in_msg e t m)" "link st (rw_out e m) []" "m + 1 < rw_n e \<longrightarrow> link st (FwLink m) (fw_msg e t m)"
      "0 < m \<longrightarrow> link st (FwLink (m - 1)) []"
  shows "\<exists>ms' st'. MSwitch_cycle ms st = Inr (ms', st') \<and> sw e (Suc t) m ms' \<and> link st' (rw_in e m) []
     \<and> link st' (rw_out e m) (out_msg e t m) \<and> (m + 1 < rw_n e \<longrightarrow> link st' (FwLink m) [])
     \<and> (0 < m \<longrightarrow> link st' (FwLink (m - 1)) (fw_msg e (Suc t) (m - 1)))
     \<and> (\<forall>x. x \<notin> {rw_in e m, rw_out e m, left_link e m, FwLink m} \<longrightarrow> st' x = st x)"
proof -
  note d = links_distinct [OF e m]
  have N: "0 < rw_N e" "rw_N e < u32_max" and S: "0 < rw_S e" using e by (simp_all add: rows_ok_def)
  have r: "MSwitch_rest ms" "ms_inputConnection ms = Some (rw_in e m)" "ms_outputConnection ms = Some (rw_out e m)"
    "ms_n_windows ms = rw_N e" "ms_num ms = m" "ms_inputForwardingConnection ms \<noteq> Some (rw_in e m)"
    using s d by (auto simp: sw_def)
  have fe: "ms_inputForwardingEnabled ms \<longleftrightarrow> m < rw_nu e \<and> m mod rw_S e + 1 < rw_S e"
    "ms_outputForwardingEnabled ms \<longleftrightarrow> m < rw_nu e \<and> 0 < m mod rw_S e" using s by (simp_all add: sw_def)
  have room: "ms_inputForwardingEnabled ms \<Longrightarrow> m + 1 < rw_n e"
    using in_use_room [OF e] e unfolding fe rows_ok_def by fastforce
  have fc: "ms_inputForwardingEnabled ms \<longrightarrow> ms_inputForwardingConnection ms = Some (FwLink m)"
    "ms_inputForwardingEnabled ms \<longrightarrow> link st (FwLink m) (fw_msg e t m)"
    using s room L(3) by (simp_all add: sw_def)
  have oc: "ms_outputForwardingEnabled ms \<longrightarrow> ms_outputForwardingConnection ms = Some (left_link e m)"
    using s fe(2) by (cases m) (auto simp: sw_def left_link_def)
  consider "rw_nu e \<le> m" | "m < rw_nu e" "t = 0" | "m < rw_nu e" "0 < t" by linarith
  then show ?thesis
  proof cases
    case 1
    have msg: "in_msg e t m = []" "fw_msg e t m = []" "out_msg e t m = []" "0 < m \<Longrightarrow> fw_msg e (Suc t) (m - 1) = []"
    proof -
      show "fw_msg e (Suc t) (m - 1) = []" if "0 < m"
        using in_use_room [OF e, of "m - 1"] 1 that by (auto simp: fw_msg_def)
    qed (use 1 in \<open>simp_all add: in_msg_def fw_msg_def out_msg_def\<close>)
    have i: "link st (rw_in e m) []" using L(1) by (simp add: msg)
    have f: "ms_inputForwardingEnabled ms \<Longrightarrow> ms_inputForwardingConnection ms = Some (FwLink m) \<and> link st (FwLink m) []"
      using fe(1) 1 by simp
    from cycle_nothing [OF r(1,2) i f] obtain ms' where "MSwitch_cycle ms st = Inr (ms', st)" "MSwitch_static ms' = MSwitch_static ms"
      "MSwitch_rest ms'" by blast
    then show ?thesis
      using sw_static [OF s, of ms'] 1 i L(2-4) by (intro exI [of _ ms'] exI [of _ st]) (simp add: msg [unfolded One_nat_def])
  next
    case 2
    have msg: "in_msg e t m = [rw_W e m]" "fw_msg e t m = []" "out_msg e t m = []" "fw_msg e (Suc t) (m - 1) = []"
      using 2 by (simp_all add: in_msg_def fw_msg_def out_msg_def)
    have i: "link st (rw_in e m) [rw_W e m]" "p_data_type (rw_W e m) = WEIGHT" using L(1) e by (simp_all add: msg rows_ok_def)
    have f: "ms_inputForwardingEnabled ms \<Longrightarrow>
        ms_inputForwardingConnection ms = Some (FwLink m) \<and> link st (FwLink m) [] \<and> FwLink m \<noteq> rw_in e m"
      using fc d by (auto simp: msg)
    have w: "length (f_fifo (ms_weight_fifo ms)) \<le> 1" "ms_n_folding ms = 1" "ms_current_n_windows ms = 0"
      using s 2 by (simp_all add: sw_def)
    let ?st = "st(rw_in e m := snd (Connection_receive (st (rw_in e m))))"
    from cycle_weight [OF r(1,2) i f r(6) w(1,2)] obtain ms' where 1: "MSwitch_cycle ms st = Inr (ms', ?st)"
      "MSwitch_static ms' = MSwitch_static ms" "MSwitch_rest ms'" "f_fifo (ms_weight_fifo ms') = [rw_W e m]"
      "ms_current_n_windows ms' = ms_current_n_windows ms" by blast
    have "sw e (Suc t) m ms'" using sw_static [OF s 1(2,3)] 1(4,5) w(3) 2 by simp
    moreover have "link ?st (rw_out e m) []" "m + 1 < rw_n e \<Longrightarrow> link ?st (FwLink m) []"
      "0 < m \<Longrightarrow> link ?st (FwLink (m - 1)) []"
      using L(2-4) d msg(2) by (auto simp: link_def left_link_def)
    ultimately show ?thesis using 1(1) by (intro exI [of _ ms'] exI [of _ ?st]) (simp add: msg [unfolded One_nat_def])
  next
    case 3
    let ?g = "m div rw_S e" and ?r = "(t - 1) div rw_N e" and ?w = "(t - 1) mod rw_N e" and ?s = "m mod rw_S e"
    let ?A = "rw_A e ?g ?r (?w + ?s)"
    have A: "p_data_type ?A = IACTIVATION" "DataPackage_copy ?A = Inr (forwarded e ?g ?r (?w + ?s))"
    proof -
      have "\<forall>g r x. \<exists>c. DataPackage_copy (rw_A e g r x) = Inr c" using e by (simp add: rows_ok_def)
      then obtain c where "DataPackage_copy ?A = Inr c" by blast
      then show "DataPackage_copy ?A = Inr (forwarded e ?g ?r (?w + ?s))" by (simp add: forwarded_def)
      show "p_data_type ?A = IACTIVATION" using e by (simp add: rows_ok_def)
    qed
    note F = DataPackage_copy_ok [OF A(2)]
    have w: "f_fifo (ms_weight_fifo ms) = [rw_W e m]" "ms_n_folding ms = 1" "ms_current_n_windows ms = ?w"
      "u32_of_int (ms_VN ms) = m div rw_V e" using s 3 by (simp_all add: sw_def)
    define a where "a = (if from_memory e t m then ?A else forwarded e ?g ?r (?w + ?s))"
    have a: "p_data_type a = IACTIVATION" "DataPackage_copy a = Inr (forwarded e ?g ?r (?w + ?s))" "p_data a = p_data ?A"
      using A F by (simp_all add: a_def)
    have c: "ms_current_n_windows ms < ms_n_windows ms" "ms_n_windows ms < u32_max" using w(3) r(4) N by simp_all
    have s1: "?s < rw_S e" using S by simp
    have L3: "if ms_inputForwardingEnabled ms \<and> 0 < ms_current_n_windows ms then in_msg e t m = [] \<and> fw_msg e t m = [a]
        else in_msg e t m = [a] \<and> fw_msg e t m = []"
      using 3 s1 by (auto simp: fe w(3) in_msg_def fw_msg_def from_memory_def a_def)
    from cycle_multiply [OF r(1) w(1,2) r(2,6,3) oc fc(1) d a(1,2) c L(1) fc(2) L3]
    obtain ms' st' where 1: "MSwitch_cycle ms st = Inr (ms', st')" "MSwitch_static ms' = MSwitch_static ms" "MSwitch_rest ms'"
     "f_fifo (ms_weight_fifo ms') = [rw_W e m]" "ms_current_n_windows ms' = (ms_current_n_windows ms + 1) mod ms_n_windows ms"
     "link st' (rw_out e m) [MSwitch_product a (rw_W e m) (ms_num ms) (u32_of_int (ms_VN ms))]" "link st' (rw_in e m) []"
     "if ms_inputForwardingEnabled ms then link st' (FwLink m) [] else st' (FwLink m) = st (FwLink m)"
     "if ms_outputForwardingEnabled ms \<and> ms_current_n_windows ms + 1 < ms_n_windows ms
        then link st' (left_link e m) [forwarded e ?g ?r (?w + ?s)] else st' (left_link e m) = st (left_link e m)"
     "\<forall>x. x \<notin> {rw_in e m, rw_out e m, left_link e m, FwLink m} \<longrightarrow> st' x = st x" by (elim exE conjE) (rule that)
    obtain u where t: "t = Suc u" using 3 by (cases t) auto
    have "ms_current_n_windows ms' = t mod rw_N e" unfolding 1(5) w(3) r(4) t by (simp add: mod_Suc_eq)
    then have "sw e (Suc t) m ms'" using sw_static [OF s 1(2,3)] 1(4) by simp
    moreover have "link st' (rw_out e m) (out_msg e t m)"
      using 1(6) 3 by (simp add: out_msg_def MSwitch_product_def a(3) r(5) w(4))
    moreover have "m + 1 < rw_n e \<longrightarrow> link st' (FwLink m) []"
      using 1(8) L(3) fe(1) by (auto simp: link_def fw_msg_def split: if_splits)
    moreover have "0 < m \<longrightarrow> link st' (FwLink (m - 1)) (fw_msg e (Suc t) (m - 1))"
    proof
      assume p: "0 < m"
      show "link st' (FwLink (m - 1)) (fw_msg e (Suc t) (m - 1))"
        unfolding fw_msg_next [OF e p 3(2)]
        using 1(9) L(4) p unfolding fe(2) w(3) r(4) by (auto simp: left_link_def link_def split: if_splits)
    qed
    ultimately show ?thesis using 1(1,7,10) by blast
  qed
qed

section \<open>The whole network\<close>

text \<open>
  The surroundings: before every cycle the reduction network has taken the products, and the
  distribution network puts what is due on the links.
\<close>

definition rows_drive_at :: "'d rows \<Rightarrow> nat \<Rightarrow> nat \<Rightarrow> 'd store \<Rightarrow> 'd store" where
  "rows_drive_at e t m st =
     (let st = st(rw_out e m := snd (Connection_receive (st (rw_out e m))))
      in if in_msg e t m = [] then st else st(rw_in e m := Connection_send (in_msg e t m) (st (rw_in e m))))"

definition rows_drive :: "'d rows \<Rightarrow> nat \<Rightarrow> 'd store \<Rightarrow> 'd store" where
  "rows_drive e t st = fold (rows_drive_at e t) [0..<rw_n e] st"

definition rows_run :: "'d::{zero,times} rows \<Rightarrow> nat \<Rightarrow> 'd MSNetwork \<times> 'd store \<Rightarrow> ('d MSNetwork \<times> 'd store) res" where
  "rows_run e k = rfold (\<lambda>t (mn, st). MSNetwork_cycle (mn, rows_drive e t st)) [0..<k]"

lemma rows_drive_ok:
  assumes e: "rows_ok e" and L: "\<forall>m < rw_n e. link st (rw_in e m) []"
  shows "m < rw_n e \<Longrightarrow> link (rows_drive e t st) (rw_in e m) (in_msg e t m)"
    "m < rw_n e \<Longrightarrow> link (rows_drive e t st) (rw_out e m) []" "rows_drive e t st (FwLink k) = st (FwLink k)"
proof -
  let ?f = "rows_drive_at e t"
  have d: "rw_in e a \<noteq> rw_out e b" "rw_out e b \<noteq> rw_in e a" "rw_in e a \<noteq> FwLink b" "rw_out e a \<noteq> FwLink b"
    "FwLink b \<noteq> rw_in e a" "FwLink b \<noteq> rw_out e a"
    "rw_in e a = rw_in e b \<longleftrightarrow> a = b" "rw_out e a = rw_out e b \<longleftrightarrow> a = b" for a b
    using e unfolding rows_ok_def by (simp_all add: inj_eq) metis+
  have "n \<le> rw_n e \<Longrightarrow> (\<forall>m < rw_n e. link (fold ?f [0..<n] st) (rw_in e m) (if m < n then in_msg e t m else []))
      \<and> (\<forall>m < n. link (fold ?f [0..<n] st) (rw_out e m) []) \<and> (\<forall>k. fold ?f [0..<n] st (FwLink k) = st (FwLink k))" for n
  proof (induction n)
    case 0
    then show ?case using L by simp
  next
    case (Suc n)
    let ?s = "fold ?f [0..<n] st"
    have s: "fold ?f [0..<Suc n] st = ?f n ?s" by simp
    have I: "\<forall>m < rw_n e. link ?s (rw_in e m) (if m < n then in_msg e t m else [])" "\<forall>m < n. link ?s (rw_out e m) []"
      "\<forall>k. ?s (FwLink k) = st (FwLink k)" using Suc by simp_all
    have "?f n ?s c = (if c = rw_in e n \<and> in_msg e t n \<noteq> [] then Connection_send (in_msg e t n) (?s c)
        else if c = rw_out e n then snd (Connection_receive (?s c)) else ?s c)" for c
      using d by (auto simp: rows_drive_at_def Let_def)
    note c = this
    have "link (?f n ?s) (rw_in e m) (if m < Suc n then in_msg e t m else [])" if "m < rw_n e" for m
      using I(1) that unfolding link_def c by (auto simp: d less_Suc_eq)
    moreover have "link (?f n ?s) (rw_out e m) []" if "m < Suc n" for m
      using I(2) that unfolding link_def c by (auto simp: d less_Suc_eq)
    moreover have "?f n ?s (FwLink k) = st (FwLink k)" for k using I(3) unfolding c by (simp add: d)
    ultimately show ?case unfolding s by blast
  qed
  from this [of "rw_n e"] show "m < rw_n e \<Longrightarrow> link (rows_drive e t st) (rw_in e m) (in_msg e t m)"
    "m < rw_n e \<Longrightarrow> link (rows_drive e t st) (rw_out e m) []" "rows_drive e t st (FwLink k) = st (FwLink k)"
    by (simp_all add: rows_drive_def)
qed

text \<open>The network before cycle \<open>t\<close>.\<close>

definition net_ok :: "'d::times rows \<Rightarrow> nat \<Rightarrow> 'd MSNetwork \<times> 'd store \<Rightarrow> bool" where
  "net_ok e t = (\<lambda>(mn, st). mn_ms_size mn = rw_n e \<and> length (mn_mswitchtable mn) = rw_n e
     \<and> (\<forall>m < rw_n e. sw e t m (mn_mswitchtable mn ! m) \<and> link st (rw_in e m) []
          \<and> link st (rw_out e m) (if t = 0 then [] else out_msg e (t - 1) m))
     \<and> (\<forall>m. m + 1 < rw_n e \<longrightarrow> link st (FwLink m) (fw_msg e t m)))"

text \<open>Inside cycle \<open>t\<close>, when the first \<open>k\<close> switches are done.\<close>

definition net_mid :: "'d::times rows \<Rightarrow> nat \<Rightarrow> nat \<Rightarrow> 'd MSNetwork \<times> 'd store \<Rightarrow> bool" where
  "net_mid e t k = (\<lambda>(mn, st). mn_ms_size mn = rw_n e \<and> length (mn_mswitchtable mn) = rw_n e
     \<and> (\<forall>m < rw_n e. sw e (if m < k then Suc t else t) m (mn_mswitchtable mn ! m)
          \<and> link st (rw_in e m) (if m < k then [] else in_msg e t m) \<and> link st (rw_out e m) (if m < k then out_msg e t m else []))
     \<and> (\<forall>m. m + 1 < rw_n e \<longrightarrow> link st (FwLink m) (if m + 1 < k then fw_msg e (Suc t) m else if m < k then [] else fw_msg e t m)))"

lemma net_mid_step:
  assumes e: "rows_ok e" and k: "k < rw_n e" and I: "net_mid e t k s"
  shows "\<exists>s'. at_switch k MSwitch_cycle s = Inr s' \<and> net_mid e t (Suc k) s'"
proof -
  obtain mn st where s: "s = (mn, st)" by (cases s)
  have len: "mn_ms_size mn = rw_n e" "length (mn_mswitchtable mn) = rw_n e" using I by (simp_all add: s net_mid_def)
  have J: "\<forall>m < rw_n e. sw e (if m < k then Suc t else t) m (mn_mswitchtable mn ! m)
          \<and> link st (rw_in e m) (if m < k then [] else in_msg e t m) \<and> link st (rw_out e m) (if m < k then out_msg e t m else [])"
    "\<forall>m. m + 1 < rw_n e \<longrightarrow> link st (FwLink m) (if m + 1 < k then fw_msg e (Suc t) m else if m < k then [] else fw_msg e t m)"
    using I by (simp_all add: s net_mid_def)
  have d: "rw_in e a \<noteq> rw_out e b" "rw_out e b \<noteq> rw_in e a" "rw_in e a \<noteq> FwLink b" "rw_out e a \<noteq> FwLink b"
    "FwLink b \<noteq> rw_in e a" "FwLink b \<noteq> rw_out e a"
    "rw_in e a = rw_in e b \<longleftrightarrow> a = b" "rw_out e a = rw_out e b \<longleftrightarrow> a = b" for a b
    using e unfolding rows_ok_def by (simp_all add: inj_eq) metis+
  have sk: "sw e t k (mn_mswitchtable mn ! k)" and L: "link st (rw_in e k) (in_msg e t k)" "link st (rw_out e k) []"
    using J(1) [rule_format, OF k] by simp_all
  have f: "k + 1 < rw_n e \<longrightarrow> link st (FwLink k) (fw_msg e t k)" "0 < k \<longrightarrow> link st (FwLink (k - 1)) []"
    using J(2) [rule_format, of k] J(2) [rule_format, of "k - 1"] k by auto
  from sw_step [OF e k sk L f] obtain ms' st' where
    1: "MSwitch_cycle (mn_mswitchtable mn ! k) st = Inr (ms', st')" "sw e (Suc t) k ms'" "link st' (rw_in e k) []"
     "link st' (rw_out e k) (out_msg e t k)" "k + 1 < rw_n e \<longrightarrow> link st' (FwLink k) []"
     "0 < k \<longrightarrow> link st' (FwLink (k - 1)) (fw_msg e (Suc t) (k - 1))"
     "\<forall>x. x \<notin> {rw_in e k, rw_out e k, left_link e k, FwLink k} \<longrightarrow> st' x = st x" by (elim exE conjE) (rule that)
  note nb = 1(5,6)
  let ?mn = "mn\<lparr>mn_mswitchtable := (mn_mswitchtable mn)[k := ms']\<rparr>"
  have same: "st' (rw_in e m) = st (rw_in e m)" "st' (rw_out e m) = st (rw_out e m)" if "m \<noteq> k" for m
    using 1(7) that d by (auto simp: left_link_def)
  have fws: "st' (FwLink m) = st (FwLink m)" if "m + 1 \<noteq> k" "m \<noteq> k" "m + 1 < rw_n e" for m
    using 1(7) that d by (cases k) (auto simp: left_link_def)
  have "sw e (if m < Suc k then Suc t else t) m (mn_mswitchtable ?mn ! m)
          \<and> link st' (rw_in e m) (if m < Suc k then [] else in_msg e t m)
          \<and> link st' (rw_out e m) (if m < Suc k then out_msg e t m else [])" if "m < rw_n e" for m
  proof (cases "m = k")
    case True
    then show ?thesis using 1(2-4) k len by simp
  next
    case False
    then show ?thesis using J(1) [rule_format, OF that] same [OF False] len by (auto simp: link_def less_Suc_eq)
  qed
  moreover have "link st' (FwLink m) (if m + 1 < Suc k then fw_msg e (Suc t) m else if m < Suc k then [] else fw_msg e t m)"
    if "m + 1 < rw_n e" for m
  proof -
    consider "m + 1 = k" | "m = k" | "m + 1 \<noteq> k" "m \<noteq> k" by blast
    then show ?thesis
    proof cases
      case 1
      then show ?thesis using nb(2) by auto
    next
      case 2
      then show ?thesis using nb(1) that by simp
    next
      case 3
      then show ?thesis using J(2) [rule_format, OF that] fws [OF 3 that] by (auto simp: link_def less_Suc_eq)
    qed
  qed
  ultimately have "net_mid e t (Suc k) (?mn, st')" using len unfolding net_mid_def by simp
  then show ?thesis using 1(1) k len by (intro exI [of _ "(?mn, st')"]) (simp add: s at_switch_def)
qed

lemma net_step:
  assumes e: "rows_ok e" and I: "net_ok e t (mn, st)"
  shows "\<exists>s'. MSNetwork_cycle (mn, rows_drive e t st) = Inr s' \<and> net_ok e (Suc t) s'"
proof -
  have L: "\<forall>m < rw_n e. link st (rw_in e m) []" and n: "mn_ms_size mn = rw_n e" using I by (simp_all add: net_ok_def)
  note D = rows_drive_ok [OF e L]
  have "net_mid e t 0 (mn, rows_drive e t st)"
    using I D(1,2) D(3) by (auto simp: net_ok_def net_mid_def link_def)
  from rfold_upt_total [where I = "net_mid e t" and f = "\<lambda>i. at_switch i MSwitch_cycle" and n = "rw_n e", OF this net_mid_step [OF e]]
  obtain s' where "rfold (\<lambda>i. at_switch i MSwitch_cycle) [0..<rw_n e] (mn, rows_drive e t st) = Inr s'" "net_mid e t (rw_n e) s'"
    by blast
  then have s': "MSNetwork_cycle (mn, rows_drive e t st) = Inr s'" "net_mid e t (rw_n e) s'"
    by (simp_all add: MSNetwork_cycle_def n)
  obtain mn' st' where m: "s' = (mn', st')" by (cases s')
  have "fw_msg e (Suc t) m = []" if "m + 1 = rw_n e" for m
    using in_use_room [OF e, of m] that e by (auto simp: fw_msg_def rows_ok_def)
  then have "net_ok e (Suc t) s'" using s'(2) by (simp add: m net_mid_def net_ok_def)
  with s'(1) show ?thesis by blast
qed

lemma rows_run_ok:
  assumes e: "rows_ok e" and I: "net_ok e 0 s"
  shows "\<exists>s'. rows_run e k s = Inr s' \<and> net_ok e k s'"
  unfolding rows_run_def
  by (rule rfold_upt_total [where I = "net_ok e"]) (use I net_step [OF e] in auto)

end
