(* ===== verification/LinearTop.thy ===== *)
theory LinearTop
  imports LinearRun
begin

text \<open>
  The linear network from its constructor to the products: building, connecting and configuring it
  reaches the state the run of \<open>LinearRun\<close> starts from.
\<close>

section \<open>Building the network\<close>

definition built_switch :: "Config \<Rightarrow> nat \<Rightarrow> nat \<Rightarrow> 'd MSwitch" where
  "built_switch cfg k m = (MSwitch_new m cfg)\<lparr>ms_outputForwardingConnection := (if 0 < m \<and> m \<le> k then Some (FwLink (m - 1)) else None),
     ms_inputForwardingConnection := (if m < k then Some (FwLink m) else None)\<rparr>"

definition built_links :: "Config \<Rightarrow> nat \<Rightarrow> 'd store \<Rightarrow> 'd store" where
  "built_links cfg k st = (\<lambda>c. case c of FwLink m \<Rightarrow> if m < k then Connection_new (msc_forwarding_ports (m_MSwitchCfg cfg)) else st c
     | _ \<Rightarrow> st c)"

definition built_net :: "Config \<Rightarrow> 'd MSwitch list \<Rightarrow> 'd MSNetwork" where
  "built_net cfg ms = \<lparr>mn_mswitchtable = ms, mn_ms_size = msn_ms_size (m_MSNetworkCfg cfg),
     mn_forwarding_ports = msc_forwarding_ports (m_MSwitchCfg cfg), mn_buffers_capacity = msc_buffers_capacity (m_MSwitchCfg cfg)\<rparr>"

lemma built_links_Suc: "(built_links cfg k st)(FwLink k := Connection_new (msc_forwarding_ports (m_MSwitchCfg cfg)))
    = built_links cfg (Suc k) st"
  by (auto simp: built_links_def fun_eq_iff split: cid.splits)

lemma MSNetwork_new_ok:
  fixes st :: "'d store"
  assumes n: "msn_ms_size (m_MSNetworkCfg cfg) = Suc n" "Suc n < u32_max"
  shows "MSNetwork_new cfg st = Inr (built_net cfg (map (built_switch cfg n) [0..<Suc n]), built_links cfg n st)"
proof -
  let ?f = MSNetwork_setPhysicalConnection_at
  have "k \<le> n \<Longrightarrow> rfold ?f [0..<k] (built_net cfg (map (\<lambda>i. MSwitch_new i cfg :: 'd MSwitch) [0..<Suc n]), st)
      = Inr (built_net cfg (map (built_switch cfg k) [0..<Suc n]), built_links cfg k st)" for k
  proof (induction k)
    case 0
    have "built_switch cfg 0 = (\<lambda>i. MSwitch_new i cfg :: 'd MSwitch)"
      by (auto simp: fun_eq_iff built_switch_def MSwitch_new_def Let_def)
    moreover have "built_links cfg 0 st = st" by (auto simp: built_links_def fun_eq_iff split: cid.splits)
    ultimately show ?case by simp
  next
    case (Suc k)
    let ?t = "map (built_switch cfg k) [0..<Suc n]"
    have "?f k (built_net cfg ?t, built_links cfg k st)
        = Inr (built_net cfg (?t[k := MSwitch_setInputForwardingConnection (Some (FwLink k)) (built_switch cfg k k),
             Suc k := MSwitch_setOutputForwardingConnection (Some (FwLink k)) (built_switch cfg k (Suc k))]),
            built_links cfg (Suc k) st)"
      using Suc.prems by (simp add: MSNetwork_setPhysicalConnection_at_def upd_switch_def built_net_def built_links_Suc nth_append del: upt_Suc)
    also have "?t[k := MSwitch_setInputForwardingConnection (Some (FwLink k)) (built_switch cfg k k),
             Suc k := MSwitch_setOutputForwardingConnection (Some (FwLink k)) (built_switch cfg k (Suc k))]
        = map (built_switch cfg (Suc k)) [0..<Suc n]"
    proof (rule nth_equalityI)
      fix i assume "i < length (?t[k := MSwitch_setInputForwardingConnection (Some (FwLink k)) (built_switch cfg k k),
             Suc k := MSwitch_setOutputForwardingConnection (Some (FwLink k)) (built_switch cfg k (Suc k))])"
      then have i: "i < Suc n" by simp
      then show "?t[k := MSwitch_setInputForwardingConnection (Some (FwLink k)) (built_switch cfg k k),
             Suc k := MSwitch_setOutputForwardingConnection (Some (FwLink k)) (built_switch cfg k (Suc k))] ! i
          = map (built_switch cfg (Suc k)) [0..<Suc n] ! i"
        using Suc.prems by (auto simp: nth_list_update built_switch_def MSwitch_setInputForwardingConnection_def
            MSwitch_setOutputForwardingConnection_def simp del: upt_Suc)
    qed simp
    finally have one: "?f k (built_net cfg ?t, built_links cfg k st)
        = Inr (built_net cfg (map (built_switch cfg (Suc k)) [0..<Suc n]), built_links cfg (Suc k) st)" .
    have u: "[0..<Suc k] = [0..<k] @ [k]" by simp
    show ?case unfolding u rfold_append using Suc.IH Suc.prems one by (simp del: upt_Suc)
  qed
  from this [of n] show ?thesis
    using n by (simp add: MSNetwork_new_def MSNetwork_setPhysicalConnection_def built_net_def Let_def u32_simps del: upt_Suc)
qed

text \<open>Connecting it to the distribution network and the reduction network.\<close>

definition linear_build ::
  "Config \<Rightarrow> (nat \<Rightarrow> cid) \<Rightarrow> (nat \<Rightarrow> cid) \<Rightarrow> Tile \<Rightarrow> DNNLayer \<Rightarrow> 'd store \<Rightarrow> ('d MSNetwork \<times> 'd store) res" where
  "linear_build cfg ins outs tile layer st =
     (let n = msn_ms_size (m_MSNetworkCfg cfg) in
      rbind (MSNetwork_new cfg st) (\<lambda>(mn, st).
      rbind (MSNetwork_setInputConnections (map (\<lambda>i. (i, Some (ins i))) [0..<n]) mn) (\<lambda>mn.
      rbind (MSNetwork_setOutputConnections (map (\<lambda>i. (i, Some (outs i))) [0..<n]) mn) (\<lambda>mn.
      rbind (MSNetwork_configureSignals tile layer n 1 mn) (\<lambda>mn. Inr (mn, st))))))"

lemma map_of_upt: "map_of (map (\<lambda>i. (i, f i)) [0..<n]) i = (if i < n then Some (f i) else None)"
  by (induction n) (auto simp: map_add_def less_Suc_eq split: option.splits)

lemma connect_ok:
  fixes c :: "nat \<Rightarrow> cid"
  assumes "length (mn_mswitchtable mn) = n"
  shows "MSNetwork_setInputConnections (map (\<lambda>i. (i, Some (c i))) [0..<n]) mn
      = Inr (mn\<lparr>mn_mswitchtable := map (\<lambda>i. MSwitch_setInputConnection (Some (c i)) (mn_mswitchtable mn ! i)) [0..<n]\<rparr>)"
    and "MSNetwork_setOutputConnections (map (\<lambda>i. (i, Some (c i))) [0..<n]) mn
      = Inr (mn\<lparr>mn_mswitchtable := map (\<lambda>i. MSwitch_setOutputConnection (Some (c i)) (mn_mswitchtable mn ! i)) [0..<n]\<rparr>)"
proof -
  let ?m = "map (\<lambda>i. (i, Some (c i))) [0..<n]"
  have m: "distinct (map fst ?m)" "\<forall>k \<in> fst ` set ?m. k < length (mn_mswitchtable mn)" using assms by (auto simp: o_def)
  have e: "map (\<lambda>i. signal f (map_of ?m i) (mn_mswitchtable mn ! i)) [0..<n] = map (\<lambda>i. f (Some (c i)) (mn_mswitchtable mn ! i)) [0..<n]"
    for f by (simp add: map_of_upt)
  show "MSNetwork_setInputConnections ?m mn
      = Inr (mn\<lparr>mn_mswitchtable := map (\<lambda>i. MSwitch_setInputConnection (Some (c i)) (mn_mswitchtable mn ! i)) [0..<n]\<rparr>)"
    using config_ok [OF m, of MSwitch_setInputConnection] assms by (simp add: MSNetwork_setInputConnections_def e)
  show "MSNetwork_setOutputConnections ?m mn
      = Inr (mn\<lparr>mn_mswitchtable := map (\<lambda>i. MSwitch_setOutputConnection (Some (c i)) (mn_mswitchtable mn ! i)) [0..<n]\<rparr>)"
    using config_ok [OF m, of MSwitch_setOutputConnection] assms by (simp add: MSNetwork_setOutputConnections_def e)
qed

lemma connect_built:
  fixes c :: "nat \<Rightarrow> cid"
  shows "MSNetwork_setInputConnections (map (\<lambda>i. (i, Some (c i))) [0..<n]) (built_net cfg (map f [0..<n]))
      = Inr (built_net cfg (map (\<lambda>i. MSwitch_setInputConnection (Some (c i)) (f i)) [0..<n]))"
    and "MSNetwork_setOutputConnections (map (\<lambda>i. (i, Some (c i))) [0..<n]) (built_net cfg (map f [0..<n]))
      = Inr (built_net cfg (map (\<lambda>i. MSwitch_setOutputConnection (Some (c i)) (f i)) [0..<n]))"
  by (simp_all add: connect_ok built_net_def)

text \<open>The run that a tile and a layer describe.\<close>

definition tile_rows ::
  "nat \<Rightarrow> Tile \<Rightarrow> DNNLayer \<Rightarrow> (nat \<Rightarrow> cid) \<Rightarrow> (nat \<Rightarrow> cid) \<Rightarrow> (nat \<Rightarrow> 'd DataPackage) \<Rightarrow> (nat \<Rightarrow> nat \<Rightarrow> nat \<Rightarrow> 'd DataPackage) \<Rightarrow> 'd rows" where
  "tile_rows n tile layer ins outs W A =
     \<lparr>rw_n = n, rw_nu = Num_VNs tile * VN_Size tile, rw_S = T_S tile, rw_N = l_Yo layer, rw_V = VN_Size tile,
      rw_in = ins, rw_out = outs, rw_W = W, rw_A = A\<rparr>"

definition wired_switch :: "Config \<Rightarrow> nat \<Rightarrow> (nat \<Rightarrow> cid) \<Rightarrow> (nat \<Rightarrow> cid) \<Rightarrow> nat \<Rightarrow> 'd MSwitch" where
  "wired_switch cfg k ins outs i =
     MSwitch_setOutputConnection (Some (outs i)) (MSwitch_setInputConnection (Some (ins i)) (built_switch cfg k i))"

lemma wired_switch_simps [simp]:
  "ms_inputConnection (wired_switch cfg k ins outs i) = Some (ins i)"
  "ms_outputConnection (wired_switch cfg k ins outs i) = Some (outs i)"
  "ms_inputForwardingConnection (wired_switch cfg k ins outs i) = (if i < k then Some (FwLink i) else None)"
  "ms_outputForwardingConnection (wired_switch cfg k ins outs i) = (if 0 < i \<and> i \<le> k then Some (FwLink (i - 1)) else None)"
  "ms_num (wired_switch cfg k ins outs i) = i" "ms_current_n_windows (wired_switch cfg k ins outs i) = 0"
  "ms_current_n_folding (wired_switch cfg k ins outs i) = 0" "\<not> ms_forward_psum (wired_switch cfg k ins outs i)"
  "\<not> ms_direct_forward_psum (wired_switch cfg k ins outs i)" "\<not> ms_inputForwardingEnabled (wired_switch cfg k ins outs i)"
  "\<not> ms_outputForwardingEnabled (wired_switch cfg k ins outs i)"
  "f_fifo (ms_activation_fifo (wired_switch cfg k ins outs i)) = []" "f_fifo (ms_weight_fifo (wired_switch cfg k ins outs i)) = []"
  "f_fifo (ms_psum_fifo (wired_switch cfg k ins outs i)) = []" "f_fifo (ms_forwarding_input_fifo (wired_switch cfg k ins outs i)) = []"
  "f_fifo (ms_forwarding_output_fifo (wired_switch cfg k ins outs i)) = []"
  by (simp_all add: wired_switch_def built_switch_def MSwitch_new_def Let_def MSwitch_setOutputConnection_def
      MSwitch_setInputConnection_def)

lemma linear_build_ok:
  fixes st :: "'a::times store"
  assumes n: "msn_ms_size (m_MSNetworkCfg cfg) = n" "ispowerof2 n"
    and t: "linear_tile tile n" "\<not> t_folding tile" "reuses tile layer"
    and e: "rows_ok (tile_rows n tile layer ins outs W A)"
    and L: "\<forall>m < n. link st (ins m) [] \<and> link st (outs m) []"
  shows "\<exists>s. linear_build cfg ins outs tile layer st = Inr s \<and> net_ok (tile_rows n tile layer ins outs W A) 0 s"
proof -
  let ?V = "VN_Size tile" and ?nu = "Num_VNs tile * VN_Size tile" and ?e = "tile_rows n tile layer ins outs W A"
  have lt: "n < u32_max" using t(1) by (simp add: linear_tile_def)
  obtain k where k: "n = Suc k" using n(2) by (cases n) (auto simp: ispowerof2_def)
  from compile_ok [OF t(1) n(2) refl, of layer 1] obtain c
    where c: "CompilerMSN_configureSignals tile layer n 1 CompilerMSN_new = Inr c" "signals_ok n c"
     "map_of (ck_ms_vn_configuration c) = (\<lambda>k. if k < ?nu then Some (k div ?V) else None)"
     "map_of (ck_n_folding_configuration c) = (\<lambda>k. if k < ?nu then Some 1 else None)"
     "map_of (ck_direct_forwarding_psum_enabled c) = (\<lambda>k. if k < ?nu then Some False else None)"
     "map_of (ck_forwarding_psum_enabled c) = (\<lambda>k. if k < ?nu then Some (t_folding tile \<and> k mod ?V = 0) else None)"
     "\<forall>k. flag (ck_ms_fwsend_enabled c) k \<longleftrightarrow> reuses tile layer \<and> k < ?nu \<and> share_shift tile \<le> k mod ?V \<and> 0 < tile_column tile k"
     "\<forall>k. flag (ck_ms_fwreceive_enabled c) k \<longleftrightarrow>
        reuses tile layer \<and> k < ?nu \<and> share_shift tile \<le> k mod ?V \<and> tile_column tile k + 1 < T_S tile"
    by (elim exE conjE) (rule that)
  have sh: "share_shift tile = 0" using t(2) by (simp add: share_shift_def)
  have col: "tile_column tile i = i mod T_S tile" for i
  proof -
    have "T_S tile dvd ?V" using t(1) sh by (simp add: linear_tile_def)
    then show ?thesis by (simp add: tile_column_def sh mod_mod_cancel)
  qed
  let ?wire = "wired_switch cfg k ins outs :: nat \<Rightarrow> 'a MSwitch"
  let ?sw = "\<lambda>i. switch_signals c (l_Yo layer) i (?wire i)"
  let ?mn = "built_net cfg (map ?wire [0..<n]) :: 'a MSNetwork"
  have mn: "mn_ms_size ?mn = length (mn_mswitchtable ?mn)" "length (mn_mswitchtable ?mn) = n" using n(1) by (simp_all add: built_net_def)
  have cf: "MSNetwork_configureSignals tile layer n 1 ?mn = Inr (built_net cfg (map ?sw [0..<n]))"
  proof -
    have "map (\<lambda>i. switch_signals c (l_Yo layer) i (mn_mswitchtable ?mn ! i)) [0..<n] = map ?sw [0..<n]"
      by (simp add: built_net_def)
    then show ?thesis using configureSignals_eq [OF c(1) _ mn(1)] c(2) mn(2) by (simp add: built_net_def)
  qed
  have new: "MSNetwork_new cfg st = Inr (built_net cfg (map (built_switch cfg k) [0..<n]), built_links cfg k st)"
    using MSNetwork_new_ok [of cfg k] n(1) k lt by simp
  have build: "linear_build cfg ins outs tile layer st = Inr (built_net cfg (map ?sw [0..<n]), built_links cfg k st)"
    unfolding linear_build_def n(1) Let_def new
    using cf by (simp add: connect_built wired_switch_def [symmetric] del: upt_Suc)
  have "sw ?e 0 i (?sw i)" if i: "i < n" for i
  proof -
    have f: "ms_inputForwardingEnabled (?sw i) \<longleftrightarrow> flag (ck_ms_fwreceive_enabled c) i"
      "ms_outputForwardingEnabled (?sw i) \<longleftrightarrow> flag (ck_ms_fwsend_enabled c) i"
      by (rule switch_signals_flags; simp)+
    have dp: "\<not> ms_direct_forward_psum (?sw i)" "\<not> ms_forward_psum (?sw i)"
    proof -
      have w: "\<not> ms_direct_forward_psum (?wire i)" "\<not> ms_forward_psum (?wire i)" by simp_all
      consider "map_of (ck_direct_forwarding_psum_enabled c) i = Some False" "map_of (ck_forwarding_psum_enabled c) i = Some False"
        | "map_of (ck_direct_forwarding_psum_enabled c) i = None" "map_of (ck_forwarding_psum_enabled c) i = None"
        using c(5,6) t(2) by (cases "i < ?nu") simp_all
      then have "\<not> ms_direct_forward_psum (?sw i) \<and> \<not> ms_forward_psum (?sw i)"
        by cases (simp_all add: switch_signals_rest(4) [of c i False] switch_signals_rest(5) [of c i False] switch_signals_rest(18,19))
      then show "\<not> ms_direct_forward_psum (?sw i)" "\<not> ms_forward_psum (?sw i)" by simp_all
    qed
    have vn: "ms_n_folding (?sw i) = 1 \<and> u32_of_int (ms_VN (?sw i)) = i div ?V" if "i < ?nu"
    proof -
      have "i div ?V \<le> i" by simp
      then have "i div ?V < u32_max" using i lt by linarith
      then show ?thesis using that by (simp add: switch_signals_rest c(3,4))
    qed
    have "?nu \<le> n" using t(1) unfolding linear_tile_def by (metis mult.commute)
    then show ?thesis
      using f dp vn c(7,8) t(3) i k
      by (simp add: sw_def tile_rows_def switch_signals_rest MSwitch_rest_def sh col)
  qed
  moreover have "link (built_links cfg k st) (ins m) [] \<and> link (built_links cfg k st) (outs m) []" if "m < n" for m
  proof -
    have "ins m \<noteq> FwLink x" "outs m \<noteq> FwLink x" for x using e by (simp_all add: rows_ok_def tile_rows_def)
    then have "built_links cfg k st (ins m) = st (ins m)" "built_links cfg k st (outs m) = st (outs m)"
      by (auto simp: built_links_def split: cid.splits)
    then show ?thesis using L that by (simp add: link_def)
  qed
  moreover have "link (built_links cfg k st) (FwLink m) (fw_msg ?e 0 m)" if "m + 1 < n" for m
    using that k by (simp add: link_def built_links_def fw_msg_def Connection_new_def Connection_existPendingData_def in_flight_def2)
  ultimately have "net_ok ?e 0 (built_net cfg (map ?sw [0..<n]), built_links cfg k st)"
    using n(1) by (simp add: net_ok_def tile_rows_def built_net_def del: upt_Suc)
  with build show ?thesis by blast
qed

text \<open>
  C34: sliding windows. A linear network that is built, connected and configured for a tile without
  folding never aborts, and in the cycle of window \<open>w\<close> of row \<open>r\<close> the switch in column \<open>s\<close> of
  filter row \<open>g\<close> emits the product of its weight and the activation at position \<open>w + s\<close>, although
  after the first window of a row only the last column is fed from memory (\<open>in_msg\<close>): all
  others take the activation from their right neighbour, exactly when they need it.
\<close>

theorem sliding_window:
  assumes "msn_ms_size (m_MSNetworkCfg cfg) = n" "ispowerof2 n"
    and "linear_tile tile n" "\<not> t_folding tile" "reuses tile layer"
    and e: "rows_ok (tile_rows n tile layer ins outs W A)"
    and "\<forall>m < n. link st (ins m) [] \<and> link st (outs m) []"
  shows "\<exists>s. linear_build cfg ins outs tile layer st = Inr s
     \<and> (\<forall>r. \<forall>w < l_Yo layer. \<exists>mn st'. rows_run (tile_rows n tile layer ins outs W A) (2 + r * l_Yo layer + w) s = Inr (mn, st')
          \<and> (\<forall>m < Num_VNs tile * VN_Size tile. flight st' (outs m) = [DataPackage_psum sizeof_data_t
               (p_data (A (m div T_S tile) r (w + m mod T_S tile)) * p_data (W m)) PSUM m (m div VN_Size tile) MULTIPLIER]))"
proof -
  let ?e = "tile_rows n tile layer ins outs W A" and ?N = "l_Yo layer"
  obtain s where s: "linear_build cfg ins outs tile layer st = Inr s" "net_ok ?e 0 s"
    using linear_build_ok [OF assms] by blast
  have "\<exists>mn st'. rows_run ?e (2 + r * ?N + w) s = Inr (mn, st')
          \<and> (\<forall>m < Num_VNs tile * VN_Size tile. flight st' (outs m) = [DataPackage_psum sizeof_data_t
               (p_data (A (m div T_S tile) r (w + m mod T_S tile)) * p_data (W m)) PSUM m (m div VN_Size tile) MULTIPLIER])"
    if w: "w < ?N" for r w
  proof -
    obtain mn st' where 1: "rows_run ?e (2 + r * ?N + w) s = Inr (mn, st')" "net_ok ?e (2 + r * ?N + w) (mn, st')"
      using rows_run_ok [OF e s(2), of "2 + r * ?N + w"] by auto
    have le: "rw_nu ?e \<le> rw_n ?e" using e by (simp add: rows_ok_def)
    have "flight st' (outs m) = [DataPackage_psum sizeof_data_t
               (p_data (A (m div T_S tile) r (w + m mod T_S tile)) * p_data (W m)) PSUM m (m div VN_Size tile) MULTIPLIER]"
      if m: "m < Num_VNs tile * VN_Size tile" for m
    proof -
      have "link st' (rw_out ?e m) (out_msg ?e (1 + r * ?N + w) m)" using 1(2) m le by (simp add: net_ok_def tile_rows_def)
      then show ?thesis using m w by (simp add: link_def out_msg_def tile_rows_def)
    qed
    with 1(1) show ?thesis by blast
  qed
  with s(1) show ?thesis by blast
qed

theorem sliding_window_witness:
  "\<exists>s mn st'. linear_build (Config_reset\<lparr>m_MSNetworkCfg := \<lparr>msn_multiplier_network_type = LINEAR, msn_ms_size = 4, msn_ms_rows = 0, msn_ms_cols = 0\<rparr>\<rparr>)
       DSTop AccLink (Tile_conv 1 3 1 1 1 1 1 1 False)
       \<lparr>l_type = CONV, l_R = 1, l_S = 3, l_C = 1, l_K = 1, l_G = 1, l_N = 1, l_X = 1, l_Y = 6, l_Xo = 1, l_Yo = 4, l_strides = 1\<rparr>
       (\<lambda>_. Connection_new 1) = Inr s
     \<and> rows_run (tile_rows 4 (Tile_conv 1 3 1 1 1 1 1 1 False)
         \<lparr>l_type = CONV, l_R = 1, l_S = 3, l_C = 1, l_K = 1, l_G = 1, l_N = 1, l_X = 1, l_Y = 6, l_Xo = 1, l_Yo = 4, l_strides = 1\<rparr>
         DSTop AccLink (\<lambda>m. DataPackage_traffic 4 (10 + int m) WEIGHT 0 UNICAST)
         (\<lambda>g r x. DataPackage_traffic 4 (int x) IACTIVATION 0 UNICAST)) (2 + 0 * 4 + 2) s = Inr (mn, st')
     \<and> map p_data (flight st' (AccLink 1)) = [3 * 11]"
proof -
  let ?cfg = "Config_reset\<lparr>m_MSNetworkCfg := \<lparr>msn_multiplier_network_type = LINEAR, msn_ms_size = 4, msn_ms_rows = 0, msn_ms_cols = 0\<rparr>\<rparr>"
  let ?layer = "\<lparr>l_type = CONV, l_R = 1, l_S = 3, l_C = 1, l_K = 1, l_G = 1, l_N = 1, l_X = 1, l_Y = 6, l_Xo = 1, l_Yo = 4, l_strides = 1\<rparr>"
  let ?W = "\<lambda>m. DataPackage_traffic 4 (10 + int m) WEIGHT 0 UNICAST"
  let ?A = "\<lambda>g r x :: nat. DataPackage_traffic 4 (int x) IACTIVATION 0 UNICAST" and ?st = "\<lambda>_ :: cid. Connection_new 1 :: int Connection"
  define tile where "tile = Tile_conv 1 3 1 1 1 1 1 1 False"
  have v: "Num_VNs tile = 1" "VN_Size tile = 3" "T_S tile = 3" "T_C tile = 1" "T_R tile = 1" "T_Yo tile = 1" "\<not> t_folding tile"
    "share_shift tile = 0" by (simp_all add: tile_def Tile_conv_def share_shift_def umul_def u32_max_def)
  have n: "msn_ms_size (m_MSNetworkCfg ?cfg) = 4" "ispowerof2 4" by (simp_all add: ispowerof2_def usub_def u32_max_def)
  have t: "linear_tile tile 4" "reuses tile ?layer" by (simp_all add: linear_tile_def reuses_def v u32_max_def)
  have e: "rows_ok (tile_rows 4 tile ?layer DSTop AccLink ?W ?A)"
    by (simp add: rows_ok_def tile_rows_def v u32_max_def inj_def DataPackage_copy_def DataPackage_traffic_def DataPackage_general_def)
  have L: "\<forall>m < 4. link ?st (DSTop m) [] \<and> link ?st (AccLink m) []"
    by (simp add: link_def Connection_new_def Connection_existPendingData_def in_flight_def2)
  from sliding_window [OF n t(1) v(7) t(2) e L] obtain s where s: "linear_build ?cfg DSTop AccLink tile ?layer ?st = Inr s"
    "\<forall>r. \<forall>w < l_Yo ?layer. \<exists>mn st'. rows_run (tile_rows 4 tile ?layer DSTop AccLink ?W ?A) (2 + r * l_Yo ?layer + w) s = Inr (mn, st')
          \<and> (\<forall>m < Num_VNs tile * VN_Size tile. flight st' (AccLink m) = [DataPackage_psum sizeof_data_t
               (p_data (?A (m div T_S tile) r (w + m mod T_S tile)) * p_data (?W m)) PSUM m (m div VN_Size tile) MULTIPLIER])"
    by (elim exE conjE) (rule that)
  have w: "2 < l_Yo ?layer" and m: "1 < Num_VNs tile * VN_Size tile" by (simp_all add: v)
  from s(2) [rule_format, OF w, of 0] obtain mn st' where 1:
    "rows_run (tile_rows 4 tile ?layer DSTop AccLink ?W ?A) (2 + 0 * l_Yo ?layer + 2) s = Inr (mn, st')"
    "\<forall>m < Num_VNs tile * VN_Size tile. flight st' (AccLink m) = [DataPackage_psum sizeof_data_t
               (p_data (?A (m div T_S tile) 0 (2 + m mod T_S tile)) * p_data (?W m)) PSUM m (m div VN_Size tile) MULTIPLIER]"
    by (elim exE conjE) (rule that)
  have "map p_data (flight st' (AccLink 1)) = [3 * 11]"
    using 1(2) [rule_format, OF m] by (simp add: v DataPackage_psum_def DataPackage_traffic_def DataPackage_general_def)
  then show ?thesis using s(1) 1(1) unfolding tile_def by (intro exI [of _ s] exI [of _ mn] exI [of _ st']) simp
qed

end
