(* ===== verification/ASwitch.thy ===== *)
theory ASwitch
  imports Links
begin

text \<open>
  An adder switch of the augmented reduction tree, \<^verbatim>\<open>ASwitch.cpp\<close>. It takes partial sums from its two
  children and, over the forwarding link, from a neighbour of the same level, adds or passes them on
  as it is configured, and sends the result to its parent, to the neighbour or to memory.
\<close>

section \<open>State\<close>

record ASwitchStats =
  ass_total_cycles :: counter
  ass_n_2_1_sums :: counter
  ass_n_2_1_comps :: counter
  ass_n_3_1_sums :: counter
  ass_n_3_1_comps :: counter
  ass_n_parent_send :: counter
  ass_n_augmented_link_send :: counter
  ass_n_memory_send :: counter
  ass_n_configurations :: counter

definition ASwitchStats_reset :: ASwitchStats where
  "ASwitchStats_reset =
     \<lparr>ass_total_cycles = 0, ass_n_2_1_sums = 0, ass_n_2_1_comps = 0, ass_n_3_1_sums = 0, ass_n_3_1_comps = 0,
      ass_n_parent_send = 0, ass_n_augmented_link_send = 0, ass_n_memory_send = 0, ass_n_configurations = 0\<rparr>"

text \<open>
  The memory connection is not initialised by the constructor: \<open>None\<close> stands for a pointer that was
  never set.
\<close>

record 'd ASwitch =
  as_level :: nat
  as_num_in_level :: nat
  as_num_ms :: nat
  as_input_ports :: nat
  as_output_ports :: nat
  as_forwarding_ports :: nat
  as_buffers_capacity :: nat
  as_port_width :: nat
  as_busID :: nat
  as_inputID :: nat
  as_input_psum_left_fifo :: "'d Fifo"
  as_input_psum_right_fifo :: "'d Fifo"
  as_input_fw_fifo :: "'d Fifo"
  as_output_psum_fifo :: "'d Fifo"
  as_output_fw_fifo :: "'d Fifo"
  as_current_capacity :: nat
  as_inputLeftConnection :: "cid option"
  as_inputRightConnection :: "cid option"
  as_outputConnection :: "cid option"
  as_memoryConnection :: "cid option"
  as_forwardingConnection :: "cid option"
  as_latency :: nat
  as_fl_direction :: fl_t
  as_fw_enabled :: bool
  as_config_mode :: adderconfig_t
  as_operation_mode :: adderoperation_t
  as_left_child_enabled :: bool
  as_right_child_enabled :: bool
  as_forward_to_memory :: bool
  as_local_cycle :: counter
  as_stats :: ASwitchStats

definition ASwitch_new :: "nat \<Rightarrow> nat \<Rightarrow> Config \<Rightarrow> 'd ASwitch" where
  "ASwitch_new level num_in_level cfg =
     (let c = m_ASwitchCfg cfg; cap = asc_buffers_capacity c
      in \<lparr>as_level = level, as_num_in_level = num_in_level, as_num_ms = msn_ms_size (m_MSNetworkCfg cfg),
          as_input_ports = asc_input_ports c, as_output_ports = asc_output_ports c,
          as_forwarding_ports = asc_forwarding_ports c, as_buffers_capacity = cap, as_port_width = asc_port_width c,
          as_busID = 0, as_inputID = 0,
          as_input_psum_left_fifo = Fifo_new cap, as_input_psum_right_fifo = Fifo_new cap,
          as_input_fw_fifo = Fifo_new cap, as_output_psum_fifo = Fifo_new cap, as_output_fw_fifo = Fifo_new cap,
          as_current_capacity = 0, as_inputLeftConnection = None, as_inputRightConnection = None,
          as_outputConnection = None, as_memoryConnection = None, as_forwardingConnection = None,
          as_latency = asc_latency c, as_fl_direction = NOT_CONFIGURED, as_fw_enabled = False,
          as_config_mode = ADD_2_1, as_operation_mode = ADDER, as_left_child_enabled = False,
          as_right_child_enabled = False, as_forward_to_memory = False, as_local_cycle = 0,
          as_stats = ASwitchStats_reset\<rparr>)"

definition ASwitch_resetSignals :: "'d ASwitch \<Rightarrow> 'd ASwitch res" where
  "ASwitch_resetSignals w =
     (let w = w\<lparr>as_current_capacity := 0, as_fl_direction := NOT_CONFIGURED, as_config_mode := ADD_2_1,
               as_operation_mode := ADDER, as_left_child_enabled := False, as_right_child_enabled := False,
               as_fw_enabled := False, as_forward_to_memory := False\<rparr> in
      rbind (Fifo_drain (as_input_psum_left_fifo w)) (\<lambda>(_, l).
      rbind (Fifo_drain (as_input_psum_right_fifo w)) (\<lambda>(_, r).
      rbind (Fifo_drain (as_output_psum_fifo w)) (\<lambda>(_, p).
      rbind (Fifo_drain (as_input_fw_fifo w)) (\<lambda>(_, fi).
      rbind (Fifo_drain (as_output_fw_fifo w)) (\<lambda>(_, fo).
      Inr (w\<lparr>as_input_psum_left_fifo := l, as_input_psum_right_fifo := r, as_output_psum_fifo := p,
             as_input_fw_fifo := fi, as_output_fw_fifo := fo\<rparr>)))))))"

definition ASwitch_setInputLeftConnection :: "cid option \<Rightarrow> 'd ASwitch \<Rightarrow> 'd ASwitch" where
  "ASwitch_setInputLeftConnection c w = w\<lparr>as_inputLeftConnection := c\<rparr>"

definition ASwitch_setInputRightConnection :: "cid option \<Rightarrow> 'd ASwitch \<Rightarrow> 'd ASwitch" where
  "ASwitch_setInputRightConnection c w = w\<lparr>as_inputRightConnection := c\<rparr>"

definition ASwitch_setForwardingConnection :: "cid option \<Rightarrow> 'd ASwitch \<Rightarrow> 'd ASwitch" where
  "ASwitch_setForwardingConnection c w = w\<lparr>as_forwardingConnection := c\<rparr>"

definition ASwitch_setOutputConnection :: "cid option \<Rightarrow> 'd ASwitch \<Rightarrow> 'd ASwitch" where
  "ASwitch_setOutputConnection c w = w\<lparr>as_outputConnection := c\<rparr>"

definition ASwitch_setMemoryConnection :: "cid option \<Rightarrow> nat \<Rightarrow> nat \<Rightarrow> 'd ASwitch \<Rightarrow> 'd ASwitch" where
  "ASwitch_setMemoryConnection c busID inputID w =
     w\<lparr>as_busID := busID, as_inputID := inputID, as_memoryConnection := c\<rparr>"

definition ASwitch_setForwardingLinkDirection :: "fl_t \<Rightarrow> 'd ASwitch \<Rightarrow> 'd ASwitch res" where
  "ASwitch_setForwardingLinkDirection fl w =
     rassert (as_forwardingConnection w \<noteq> None) (Inr (w\<lparr>as_fw_enabled := True, as_fl_direction := fl\<rparr>))"

definition ASwitch_setConfigurationMode :: "adderconfig_t \<Rightarrow> 'd ASwitch \<Rightarrow> 'd ASwitch" where
  "ASwitch_setConfigurationMode m w =
     w\<lparr>as_config_mode := m, as_stats := ass_n_configurations_update (\<lambda>n. n + 1) (as_stats w)\<rparr>"

definition ASwitch_setChildsEnabled :: "bool \<Rightarrow> bool \<Rightarrow> 'd ASwitch \<Rightarrow> 'd ASwitch" where
  "ASwitch_setChildsEnabled l r w = w\<lparr>as_left_child_enabled := l, as_right_child_enabled := r\<rparr>"

definition ASwitch_setOperationMode :: "adderoperation_t \<Rightarrow> 'd ASwitch \<Rightarrow> 'd ASwitch" where
  "ASwitch_setOperationMode m w = w\<lparr>as_operation_mode := m\<rparr>"

definition ASwitch_setForwardingToMemoryEnabled :: "bool \<Rightarrow> 'd ASwitch \<Rightarrow> 'd ASwitch" where
  "ASwitch_setForwardingToMemoryEnabled b w = w\<lparr>as_forward_to_memory := b\<rparr>"

section \<open>The cycle\<close>

definition ASwitch_send_fw :: "'d ASwitch \<Rightarrow> 'd store \<Rightarrow> ('d ASwitch \<times> 'd store) res" where
  "ASwitch_send_fw w st =
     (if Fifo_isEmpty (as_output_fw_fifo w) then Inr (w, st)
      else rassert (as_fw_enabled w \<and> as_fl_direction w = SEND)
       (rbind (Fifo_drain (as_output_fw_fifo w)) (\<lambda>(vector_to_send_fw_link, q).
        rbind (ptr_send (as_forwardingConnection w) vector_to_send_fw_link st) (\<lambda>st.
        Inr (w\<lparr>as_output_fw_fifo := q, as_stats := ass_n_augmented_link_send_update (\<lambda>n. n + 1) (as_stats w)\<rparr>, st)))))"

definition ASwitch_send_psum :: "'d ASwitch \<Rightarrow> 'd store \<Rightarrow> ('d ASwitch \<times> 'd store) res" where
  "ASwitch_send_psum w st =
     (if Fifo_isEmpty (as_output_psum_fifo w) then Inr (w, st)
      else rbind (Fifo_drain (as_output_psum_fifo w)) (\<lambda>(vector_to_send_parent, q).
        if as_forward_to_memory w then
          rbind (ptr_send (as_memoryConnection w) vector_to_send_parent st) (\<lambda>st.
          Inr (w\<lparr>as_output_psum_fifo := q, as_stats := ass_n_memory_send_update (\<lambda>n. n + 1) (as_stats w)\<rparr>, st))
        else
          rbind (ptr_send (as_outputConnection w) vector_to_send_parent st) (\<lambda>st.
          Inr (w\<lparr>as_output_psum_fifo := q, as_stats := ass_n_parent_send_update (\<lambda>n. n + 1) (as_stats w)\<rparr>, st))))"

definition ASwitch_send :: "'d ASwitch \<Rightarrow> 'd store \<Rightarrow> ('d ASwitch \<times> 'd store) res" where
  "ASwitch_send w st = rbind (ASwitch_send_fw w st) (\<lambda>(w, st). ASwitch_send_psum w st)"

definition ASwitch_receive_childs :: "'d ASwitch \<Rightarrow> 'd store \<Rightarrow> ('d ASwitch \<times> 'd store) res" where
  "ASwitch_receive_childs w st =
     rbind (ptr_pending (as_inputLeftConnection w) st) (\<lambda>b.
     rbind (if b then
              rbind (ptr_receive (as_inputLeftConnection w) st) (\<lambda>(data_received_left, st).
              Inr (w\<lparr>as_input_psum_left_fifo := Fifo_push_all data_received_left (as_input_psum_left_fifo w)\<rparr>, st))
            else Inr (w, st)) (\<lambda>(w, st).
     rbind (ptr_pending (as_inputRightConnection w) st) (\<lambda>b.
     if b then
       rbind (ptr_receive (as_inputRightConnection w) st) (\<lambda>(data_received_right, st).
       Inr (w\<lparr>as_input_psum_right_fifo := Fifo_push_all data_received_right (as_input_psum_right_fifo w)\<rparr>, st))
     else Inr (w, st))))"

definition ASwitch_receive_fwlink :: "'d ASwitch \<Rightarrow> 'd store \<Rightarrow> ('d ASwitch \<times> 'd store) res" where
  "ASwitch_receive_fwlink w st =
     (if as_fw_enabled w \<and> as_fl_direction w = RECEIVE then
        rbind (ptr_pending (as_forwardingConnection w) st) (\<lambda>b.
        if b then
          rbind (ptr_receive (as_forwardingConnection w) st) (\<lambda>(data_received_fw, st).
          rassert (length data_received_fw = 1)
          (Inr (w\<lparr>as_input_fw_fifo := Fifo_push_all data_received_fw (as_input_fw_fifo w)\<rparr>, st)))
        else Inr (w, st))
      else Inr (w, st))"

text \<open>The operations; a mode that is neither aborts.\<close>

definition ASwitch_result :: "'d \<Rightarrow> 'd DataPackage \<Rightarrow> 'd ASwitch \<Rightarrow> 'd DataPackage" where
  "ASwitch_result d pck_left w =
     DataPackage_psum sizeof_data_t d PSUM (as_level w) (p_VN pck_left) (as_operation_mode w)"

definition ASwitch_perform_operation_2_operands ::
  "'d::{plus,ord} DataPackage \<Rightarrow> 'd DataPackage \<Rightarrow> 'd ASwitch \<Rightarrow> ('d DataPackage \<times> 'd ASwitch) res" where
  "ASwitch_perform_operation_2_operands pck_left pck_right w =
     rassert (p_VN pck_left = p_VN pck_right)
     (case as_operation_mode w of
        ADDER \<Rightarrow> Inr (ASwitch_result (p_data pck_left + p_data pck_right) pck_left w,
                       w\<lparr>as_stats := ass_n_2_1_sums_update (\<lambda>n. n + 1) (as_stats w)\<rparr>)
      | COMPARATOR \<Rightarrow> Inr (ASwitch_result (if p_data pck_right < p_data pck_left then p_data pck_left else p_data pck_right) pck_left w,
                       w\<lparr>as_stats := ass_n_2_1_comps_update (\<lambda>n. n + 1) (as_stats w)\<rparr>)
      | _ \<Rightarrow> Inl AssertFail)"

definition ASwitch_perform_operation_3_operands ::
  "'d::plus DataPackage \<Rightarrow> 'd DataPackage \<Rightarrow> 'd DataPackage \<Rightarrow> 'd ASwitch \<Rightarrow> ('d DataPackage \<times> 'd ASwitch) res" where
  "ASwitch_perform_operation_3_operands pck_left pck_right pck_forward w =
     rassert (p_VN pck_left = p_VN pck_right)
     (rassert (p_VN pck_right = p_VN pck_forward)
     (case as_operation_mode w of
        ADDER \<Rightarrow> Inr (ASwitch_result (p_data pck_left + p_data pck_right + p_data pck_forward) pck_left w,
                       w\<lparr>as_stats := ass_n_3_1_sums_update (\<lambda>n. n + 1) (as_stats w)\<rparr>)
      | _ \<Rightarrow> Inl AssertFail))"

text \<open>The copy of a received package goes to one of the two outputs.\<close>

definition ASwitch_put_psum :: "'d DataPackage \<Rightarrow> 'd ASwitch \<Rightarrow> 'd ASwitch" where
  "ASwitch_put_psum p w = w\<lparr>as_output_psum_fifo := Fifo_push p (as_output_psum_fifo w)\<rparr>"

definition ASwitch_put_fw :: "'d DataPackage \<Rightarrow> 'd ASwitch \<Rightarrow> 'd ASwitch" where
  "ASwitch_put_fw p w = w\<lparr>as_output_fw_fifo := Fifo_push p (as_output_fw_fifo w)\<rparr>"

definition ASwitch_put :: "'d DataPackage \<Rightarrow> 'd ASwitch \<Rightarrow> 'd ASwitch" where
  "ASwitch_put p w = (if as_fw_enabled w then ASwitch_put_fw p w else ASwitch_put_psum p w)"

definition ASwitch_pop_left :: "'d ASwitch \<Rightarrow> ('d DataPackage \<times> 'd ASwitch) res" where
  "ASwitch_pop_left w =
     rbind (Fifo_pop (as_input_psum_left_fifo w)) (\<lambda>(p, q). Inr (p, w\<lparr>as_input_psum_left_fifo := q\<rparr>))"

definition ASwitch_pop_right :: "'d ASwitch \<Rightarrow> ('d DataPackage \<times> 'd ASwitch) res" where
  "ASwitch_pop_right w =
     rbind (Fifo_pop (as_input_psum_right_fifo w)) (\<lambda>(p, q). Inr (p, w\<lparr>as_input_psum_right_fifo := q\<rparr>))"

text \<open>The three conditions are tested one after the other, on the fifos as they are by then.\<close>

definition ASwitch_pass_left :: "'d ASwitch \<Rightarrow> 'd ASwitch res" where
  "ASwitch_pass_left w =
     (if \<not> Fifo_isEmpty (as_input_psum_left_fifo w) \<and> Fifo_isEmpty (as_input_psum_right_fifo w) \<and> \<not> as_right_child_enabled w
      then rbind (ASwitch_pop_left w) (\<lambda>(p, w). rbind (DataPackage_copy p) (\<lambda>pck_to_send. Inr (ASwitch_put pck_to_send w)))
      else Inr w)"

definition ASwitch_pass_right :: "'d ASwitch \<Rightarrow> 'd ASwitch res" where
  "ASwitch_pass_right w =
     (if \<not> Fifo_isEmpty (as_input_psum_right_fifo w) \<and> Fifo_isEmpty (as_input_psum_left_fifo w) \<and> \<not> as_left_child_enabled w
      then rbind (ASwitch_pop_right w) (\<lambda>(p, w). rbind (DataPackage_copy p) (\<lambda>pck_to_send. Inr (ASwitch_put pck_to_send w)))
      else Inr w)"

definition ASwitch_add :: "'d::{plus,ord} ASwitch \<Rightarrow> 'd ASwitch res" where
  "ASwitch_add w =
     (if \<not> Fifo_isEmpty (as_input_psum_left_fifo w) \<and> \<not> Fifo_isEmpty (as_input_psum_right_fifo w)
      then rassert (as_left_child_enabled w)
        (rassert (as_right_child_enabled w)
        (rbind (ASwitch_pop_left w) (\<lambda>(pck_left, w).
         rbind (ASwitch_pop_right w) (\<lambda>(pck_right, w).
         rbind (ASwitch_perform_operation_2_operands pck_left pck_right w) (\<lambda>(pck_result, w).
         Inr (ASwitch_put pck_result w))))))
      else Inr w)"

definition ASwitch_route_2_1_config :: "'d::{plus,ord} ASwitch \<Rightarrow> 'd ASwitch res" where
  "ASwitch_route_2_1_config w = rbind (ASwitch_pass_left w) (\<lambda>w. rbind (ASwitch_pass_right w) ASwitch_add)"

definition ASwitch_route_3_1_config :: "'d::plus ASwitch \<Rightarrow> 'd ASwitch res" where
  "ASwitch_route_3_1_config w =
     rassert (as_left_child_enabled w)
     (rassert (as_right_child_enabled w)
     (rassert (as_fw_enabled w \<and> as_fl_direction w = RECEIVE)
     (if \<not> Fifo_isEmpty (as_input_psum_left_fifo w) \<and> \<not> Fifo_isEmpty (as_input_psum_right_fifo w)
         \<and> \<not> Fifo_isEmpty (as_input_fw_fifo w)
      then rbind (ASwitch_pop_left w) (\<lambda>(pck_left, w).
           rbind (ASwitch_pop_right w) (\<lambda>(pck_right, w).
           rbind (Fifo_pop (as_input_fw_fifo w)) (\<lambda>(pck_forward, q).
           rbind (ASwitch_perform_operation_3_operands pck_left pck_right pck_forward (w\<lparr>as_input_fw_fifo := q\<rparr>)) (\<lambda>(pck_result, w).
           Inr (ASwitch_put_psum pck_result w)))))
      else Inr w)))"

text \<open>One branch goes to the forwarding link, the other to the parent: in an even switch the left one.\<close>

definition ASwitch_route_1_1_plus_fw_1_1_config :: "'d ASwitch \<Rightarrow> 'd ASwitch res" where
  "ASwitch_route_1_1_plus_fw_1_1_config w =
     rassert (as_left_child_enabled w)
     (rassert (as_right_child_enabled w)
     (if as_num_in_level w mod 2 = 0 then
        rbind (if \<not> Fifo_isEmpty (as_input_psum_left_fifo w) then
                 rbind (ASwitch_pop_left w) (\<lambda>(p, w). rbind (DataPackage_copy p) (\<lambda>pck_to_send. Inr (ASwitch_put_fw pck_to_send w)))
               else Inr w) (\<lambda>w.
        if \<not> Fifo_isEmpty (as_input_psum_right_fifo w) then
          rbind (ASwitch_pop_right w) (\<lambda>(p, w). rbind (DataPackage_copy p) (\<lambda>pck_to_send.
          rassert (p_VN p \<noteq> 0) (Inr (ASwitch_put_psum pck_to_send w))))
        else Inr w)
      else
        rbind (if \<not> Fifo_isEmpty (as_input_psum_left_fifo w) then
                 rbind (ASwitch_pop_left w) (\<lambda>(p, w). rbind (DataPackage_copy p) (\<lambda>pck_to_send. Inr (ASwitch_put_psum pck_to_send w)))
               else Inr w) (\<lambda>w.
        if \<not> Fifo_isEmpty (as_input_psum_right_fifo w) then
          rbind (ASwitch_pop_right w) (\<lambda>(p, w). rbind (DataPackage_copy p) (\<lambda>pck_to_send. Inr (ASwitch_put_fw pck_to_send w)))
        else Inr w)))"

text \<open>\<open>while(!fifo->isEmpty())\<close>: every package of a branch is copied to the output.\<close>

definition ASwitch_copy_all :: "'d DataPackage list \<Rightarrow> 'd ASwitch \<Rightarrow> 'd ASwitch res" where
  "ASwitch_copy_all = rfold (\<lambda>p w. rbind (DataPackage_copy p) (\<lambda>pck_to_send. Inr (ASwitch_put_psum pck_to_send w)))"

definition ASwitch_route_fw_2_2_config :: "'d ASwitch \<Rightarrow> 'd ASwitch res" where
  "ASwitch_route_fw_2_2_config w =
     rbind (Fifo_drain (as_input_psum_left_fifo w)) (\<lambda>(xs, q).
     rbind (ASwitch_copy_all xs (w\<lparr>as_input_psum_left_fifo := q\<rparr>)) (\<lambda>w.
     rbind (Fifo_drain (as_input_psum_right_fifo w)) (\<lambda>(xs, q).
     ASwitch_copy_all xs (w\<lparr>as_input_psum_right_fifo := q\<rparr>))))"

definition ASwitch_route :: "'d::{plus,ord} ASwitch \<Rightarrow> 'd ASwitch res" where
  "ASwitch_route w = (case as_config_mode w of
       ADD_2_1 \<Rightarrow> ASwitch_route_2_1_config w
     | ADD_3_1 \<Rightarrow> ASwitch_route_3_1_config w
     | ADD_1_1_PLUS_FW_1_1 \<Rightarrow> ASwitch_route_1_1_plus_fw_1_1_config w
     | FW_2_2 \<Rightarrow> ASwitch_route_fw_2_2_config w
     | _ \<Rightarrow> Inl AssertFail)"

definition ASwitch_cycle :: "'d::{plus,ord} ASwitch \<Rightarrow> 'd store \<Rightarrow> ('d ASwitch \<times> 'd store) res" where
  "ASwitch_cycle w st =
     rbind (ASwitch_receive_childs (w\<lparr>as_local_cycle := as_local_cycle w + 1,
         as_stats := ass_total_cycles_update (\<lambda>n. n + 1) (as_stats w)\<rparr>) st) (\<lambda>(w, st).
     rbind (ASwitch_receive_fwlink w st) (\<lambda>(w, st).
     rbind (ASwitch_route w) (\<lambda>w.
     ASwitch_send w st)))"

end
