(* ===== verification/CompilerART.thy ===== *)
theory CompilerART
  imports ASwitch DistNet "HOL-Library.Product_Lexorder"
begin

text \<open>
  The compiler of the signals of the augmented reduction tree, \<^verbatim>\<open>CompilerART.cpp\<close>: which switch adds
  what, which forwarding links are enabled and in which direction, which children send to their
  parent, and where a virtual neuron is complete and leaves for memory.
\<close>

section \<open>State\<close>

record CompilerART =
  art_switches_configuration :: "((nat \<times> nat) \<times> adderconfig_t) list"
  art_fwlinks_configuration :: "((nat \<times> nat) \<times> fl_t) list"
  art_childs_enabled :: "((nat \<times> nat) \<times> bool \<times> bool) list"
  art_forwarding_to_memory_enabled :: "((nat \<times> nat) \<times> bool) list"

definition CompilerART_new :: CompilerART where
  "CompilerART_new =
     \<lparr>art_switches_configuration = [], art_fwlinks_configuration = [], art_childs_enabled = [],
      art_forwarding_to_memory_enabled = []\<rparr>"

definition art_put_switch :: "nat \<times> nat \<Rightarrow> adderconfig_t \<Rightarrow> CompilerART \<Rightarrow> CompilerART" where
  "art_put_switch ij m c = c\<lparr>art_switches_configuration := smap_put ij m (art_switches_configuration c)\<rparr>"

definition art_put_fwlink :: "nat \<times> nat \<Rightarrow> fl_t \<Rightarrow> CompilerART \<Rightarrow> CompilerART" where
  "art_put_fwlink ij fl c = c\<lparr>art_fwlinks_configuration := smap_put ij fl (art_fwlinks_configuration c)\<rparr>"

definition art_put_childs :: "nat \<times> nat \<Rightarrow> bool \<times> bool \<Rightarrow> CompilerART \<Rightarrow> CompilerART" where
  "art_put_childs ij b c = c\<lparr>art_childs_enabled := smap_put ij b (art_childs_enabled c)\<rparr>"

definition art_put_memory :: "nat \<times> nat \<Rightarrow> bool \<Rightarrow> CompilerART \<Rightarrow> CompilerART" where
  "art_put_memory ij b c = c\<lparr>art_forwarding_to_memory_enabled := smap_put ij b (art_forwarding_to_memory_enabled c)\<rparr>"

definition art_switch :: "CompilerART \<Rightarrow> nat \<times> nat \<Rightarrow> adderconfig_t option" where
  "art_switch c = map_of (art_switches_configuration c)"

definition art_fwlink :: "CompilerART \<Rightarrow> nat \<times> nat \<Rightarrow> fl_t option" where
  "art_fwlink c = map_of (art_fwlinks_configuration c)"

section \<open>Switches and forwarding links\<close>

text \<open>
  A level is scanned with the bits of its inputs (\<open>vector_bits\<close>) and of its outputs
  (\<open>parent_bits\<close>). The loops read no bit out of range: switch \<open>as\<close> of a level with \<open>n\<close> switches
  reads bits below \<open>2 * n\<close>.
\<close>

type_synonym art_scan = "CompilerART \<times> bool list \<times> bool list"

text \<open>A switch without forwarding link, the first or the last of its level.\<close>

definition art_edge :: "nat \<Rightarrow> nat \<Rightarrow> art_scan \<Rightarrow> art_scan" where
  "art_edge l as = (\<lambda>(c, v, p).
     if v ! (2 * as) \<or> v ! (2 * as + 1)
     then (art_put_switch (l, as) (if art_switch c (l, as) \<noteq> None then FW_2_2 else ADD_2_1) c, v, p[as := True])
     else (c, v, p[as := False]))"

text \<open>The numbers of consecutive bits to the left and to the right of the link between \<open>as\<close> and \<open>as + 1\<close>.\<close>

definition art_left_span :: "bool list \<Rightarrow> nat \<Rightarrow> nat" where
  "art_left_span v as =
     (let last_child_enabled = (if v ! (2 * as + 1) then 2 * as + 1 else 2 * as)
      in length (takeWhile id (rev (take (last_child_enabled + 1) v))))"

definition art_right_span :: "bool list \<Rightarrow> nat \<Rightarrow> nat" where
  "art_right_span v as =
     (let first_child_enabled = (if v ! (2 * as + 2) then 2 * as + 2 else 2 * as + 3)
      in length (takeWhile id (drop first_child_enabled v)))"

text \<open>
  The link between \<open>as\<close> and \<open>as + 1\<close>: \<open>None\<close> if it stays disabled, otherwise the direction in which
  the smaller span sends. The bits of the side that sends, and of all beyond it, are cleared.
\<close>

definition art_link :: "nat \<Rightarrow> bool list \<times> bool list \<Rightarrow> direction_t option \<times> bool list \<times> bool list" where
  "art_link as = (\<lambda>(v, p).
     let left_span = art_left_span v as; right_span = art_right_span v as in
     if left_span = 0 \<or> right_span = 0 then
       (None, v, p[as := 0 < left_span, as + 1 := 0 < right_span])
     else if right_span \<le> left_span then
       if v ! (2 * as + 4) \<or> v ! (2 * as + 5) then (None, v, p[as := True, as + 1 := True])
       else (Some LEFT, take (2 * as + 2) v @ replicate (length v - (2 * as + 2)) False, p[as := True, as + 1 := False])
     else
       if v ! (2 * as - 1) \<or> v ! (2 * as - 2) then (None, v, p[as := True, as + 1 := True])
       else (Some RIGHT, replicate (2 * as + 2) False @ drop (2 * as + 2) v, p[as + 1 := True, as := False]))"

definition art_linked :: "nat \<times> nat \<Rightarrow> nat \<times> nat \<Rightarrow> CompilerART \<Rightarrow> CompilerART" where
  "art_linked receive send c =
     (let c = art_put_switch receive ADD_3_1 (art_put_fwlink send SEND (art_put_fwlink receive RECEIVE c))
      in art_put_switch send (if art_switch c send \<noteq> None then ADD_1_1_PLUS_FW_1_1 else ADD_2_1) c)"

text \<open>
  A switch with a bit whose link is not enabled in this scan. If an earlier virtual neuron enabled the
  link, the right switch of the pair must be the sender.
\<close>

definition art_unlinked :: "nat \<times> nat \<Rightarrow> nat \<times> nat \<Rightarrow> nat \<Rightarrow> CompilerART \<Rightarrow> CompilerART res" where
  "art_unlinked ij right_of_pair span c =
     (if 0 < span then
        if art_switch c ij \<noteq> None then
          if art_fwlink c ij \<noteq> None
          then rassert (art_fwlink c right_of_pair = Some SEND) (Inr (art_put_switch ij ADD_1_1_PLUS_FW_1_1 c))
          else Inr (art_put_switch ij FW_2_2 c)
        else Inr (art_put_switch ij ADD_2_1 c)
      else Inr c)"

definition art_pair :: "nat \<Rightarrow> nat \<Rightarrow> art_scan \<Rightarrow> art_scan res" where
  "art_pair l as = (\<lambda>(c, v, p).
     let left_span = art_left_span v as; right_span = art_right_span v as; (link, v', p') = art_link as (v, p)
     in case link of
          Some LEFT \<Rightarrow> Inr (art_linked (l, as) (l, as + 1) c, v', p')
        | Some _ \<Rightarrow> Inr (art_linked (l, as + 1) (l, as) c, v', p')
        | None \<Rightarrow> rbind (art_unlinked (l, as) (l, as + 1) left_span c) (\<lambda>c.
                   rbind (art_unlinked (l, as + 1) (l, as + 1) right_span c) (\<lambda>c. Inr (c, v', p'))))"

definition art_node :: "nat \<Rightarrow> nat \<Rightarrow> art_scan \<Rightarrow> art_scan res" where
  "art_node l as s =
     (if as = 0 \<or> as = 2 ^ l - 1 then Inr (art_edge l as s)
      else if as mod 2 = 1 then art_pair l as s
      else Inr s)"

text \<open>
  A level and its end: the outputs become the inputs of the level above; if there is one, its switch
  sends to memory.
\<close>

definition art_level :: "nat \<Rightarrow> nat \<Rightarrow> art_scan \<Rightarrow> art_scan res" where
  "art_level num_ms l s =
     rbind (rfold (art_node l) [0..<2 ^ l] s) (\<lambda>(c, v, p).
     let enabled = filter (\<lambda>s. p ! s) [0..<num_ms];
         c = (if length enabled = 1 then art_put_memory (l, last enabled) True c else c)
     in Inr (c, p, replicate num_ms False))"

definition art_set_bits :: "nat \<Rightarrow> nat \<Rightarrow> nat \<Rightarrow> bool list res" where
  "art_set_bits num_ms shift sz = rfold (\<lambda>j bits. rupd bits j True) [shift..<shift + sz] (replicate num_ms False)"

text \<open>A virtual neuron of \<open>sz\<close> multipliers from \<open>shift\<close> on.\<close>

definition art_vn :: "nat \<Rightarrow> nat \<times> nat \<Rightarrow> CompilerART \<Rightarrow> CompilerART res" where
  "art_vn num_ms = (\<lambda>(shift, sz) c.
     rbind (art_set_bits num_ms shift sz) (\<lambda>v.
     rbind (rfold (art_level num_ms) (rev [0..<nlevels_of num_ms]) (c, v, replicate num_ms False)) (\<lambda>(c, _, _).
     Inr c)))"

definition CompilerART_generate_art_signals :: "nat \<Rightarrow> Tile \<Rightarrow> CompilerART \<Rightarrow> CompilerART res" where
  "CompilerART_generate_art_signals num_ms tile =
     rfold (art_vn num_ms) (map (\<lambda>i. (umul i (VN_Size tile), VN_Size tile)) [0..<Num_VNs tile])"

definition CompilerART_generate_art_signals_sparse :: "nat \<Rightarrow> SparseVN list \<Rightarrow> CompilerART \<Rightarrow> CompilerART res" where
  "CompilerART_generate_art_signals_sparse num_ms vns c =
     rbind (rfold (\<lambda>vn (shift, c).
          rbind (art_vn num_ms (shift, SparseVN_get_VN_Size vn) c) (\<lambda>c.
          Inr (uadd shift (SparseVN_get_VN_Size vn), c))) vns (0, c)) (\<lambda>(_, c). Inr c)"

section \<open>Children\<close>

text \<open>A child sends to its parent unless it has no configuration or adds two and sends to its neighbour.\<close>

definition art_sends_up :: "CompilerART \<Rightarrow> nat \<times> nat \<Rightarrow> bool" where
  "art_sends_up c ij = (case art_switch c ij of
       None \<Rightarrow> False
     | Some cfg \<Rightarrow> cfg = ADD_3_1 \<or> cfg = ADD_1_1_PLUS_FW_1_1 \<or> cfg = FW_2_2 \<or> (cfg = ADD_2_1 \<and> art_fwlink c ij = None))"

definition art_enabling_links :: "nat \<Rightarrow> nat \<Rightarrow> CompilerART \<Rightarrow> CompilerART" where
  "art_enabling_links num_ms ms_used c =
     (let n = nlevels_of num_ms;
          c = fold (\<lambda>i. art_put_childs (n - 1, i) (2 * i < ms_used, 2 * i + 1 < ms_used)) [0..<num_ms div 2] c
      in fold (\<lambda>l. fold (\<lambda>i c. art_put_childs (l, i) (art_sends_up c (l + 1, 2 * i), art_sends_up c (l + 1, 2 * i + 1)) c) [0..<2 ^ l])
           (rev [0..<n - 1]) c)"

definition CompilerART_generate_art_enabling_links :: "nat \<Rightarrow> Tile \<Rightarrow> CompilerART \<Rightarrow> CompilerART" where
  "CompilerART_generate_art_enabling_links num_ms tile = art_enabling_links num_ms (umul (Num_VNs tile) (VN_Size tile))"

definition CompilerART_generate_art_enabling_links_sparse :: "nat \<Rightarrow> SparseVN list \<Rightarrow> CompilerART \<Rightarrow> CompilerART" where
  "CompilerART_generate_art_enabling_links_sparse num_ms vns =
     art_enabling_links num_ms (fold (\<lambda>vn n. uadd n (SparseVN_get_VN_Size vn)) vns 0)"

definition CompilerART_configureSignals :: "Tile \<Rightarrow> nat \<Rightarrow> CompilerART \<Rightarrow> CompilerART res" where
  "CompilerART_configureSignals tile num_ms c =
     rassert (ispowerof2 num_ms)
     (rassert (umul (VN_Size tile) (Num_VNs tile) \<le> num_ms)
     (rbind (CompilerART_generate_art_signals num_ms tile c) (\<lambda>c.
      Inr (CompilerART_generate_art_enabling_links num_ms tile c))))"

definition CompilerART_configureSparseSignals :: "SparseVN list \<Rightarrow> nat \<Rightarrow> CompilerART \<Rightarrow> CompilerART res" where
  "CompilerART_configureSparseSignals vns num_ms c =
     rassert (ispowerof2 num_ms)
     (rbind (CompilerART_generate_art_signals_sparse num_ms vns c) (\<lambda>c.
      Inr (CompilerART_generate_art_enabling_links_sparse num_ms vns c)))"

end
