(* ===== verification/ArtSignals.thy ===== *)
theory ArtSignals
  imports CompilerART
begin

text \<open>
  What the compiler of the augmented reduction tree computes. A virtual neuron is an interval of
  inputs of a level; the scan of the level turns it into an interval of the level above and gives
  each of its switches a role.
\<close>

section \<open>Reading what the compiler wrote\<close>

definition art_ok :: "CompilerART \<Rightarrow> bool" where
  "art_ok c \<longleftrightarrow> smap_ok (art_switches_configuration c) \<and> smap_ok (art_fwlinks_configuration c)
     \<and> smap_ok (art_childs_enabled c) \<and> smap_ok (art_forwarding_to_memory_enabled c)"

definition art_childs :: "CompilerART \<Rightarrow> nat \<times> nat \<Rightarrow> (bool \<times> bool) option" where
  "art_childs c = map_of (art_childs_enabled c)"

definition art_memory :: "CompilerART \<Rightarrow> nat \<times> nat \<Rightarrow> bool option" where
  "art_memory c = map_of (art_forwarding_to_memory_enabled c)"

lemmas art_put_defs = art_put_switch_def art_put_fwlink_def art_put_childs_def art_put_memory_def
lemmas art_get_defs = art_switch_def art_fwlink_def art_childs_def art_memory_def

lemma art_ok_new [simp]: "art_ok CompilerART_new"
  by (simp add: art_ok_def CompilerART_new_def)

lemma art_ok_put [simp]:
  "art_ok c \<Longrightarrow> art_ok (art_put_switch ij m c)"
  "art_ok c \<Longrightarrow> art_ok (art_put_fwlink ij fl c)"
  "art_ok c \<Longrightarrow> art_ok (art_put_childs ij b c)"
  "art_ok c \<Longrightarrow> art_ok (art_put_memory ij f c)"
  by (simp_all add: art_ok_def art_put_defs smap_put_ok)

lemma art_switch_put [simp]:
  "art_ok c \<Longrightarrow> art_switch (art_put_switch ij m c) = (art_switch c)(ij \<mapsto> m)"
  "art_switch (art_put_fwlink ij fl c) = art_switch c"
  "art_switch (art_put_childs ij b c) = art_switch c"
  "art_switch (art_put_memory ij f c) = art_switch c"
  by (simp_all add: art_ok_def art_put_defs art_get_defs map_of_smap_put)

lemma art_fwlink_put [simp]:
  "art_fwlink (art_put_switch ij m c) = art_fwlink c"
  "art_ok c \<Longrightarrow> art_fwlink (art_put_fwlink ij fl c) = (art_fwlink c)(ij \<mapsto> fl)"
  "art_fwlink (art_put_childs ij b c) = art_fwlink c"
  "art_fwlink (art_put_memory ij f c) = art_fwlink c"
  by (simp_all add: art_ok_def art_put_defs art_get_defs map_of_smap_put)

lemma art_childs_put [simp]:
  "art_childs (art_put_switch ij m c) = art_childs c"
  "art_childs (art_put_fwlink ij fl c) = art_childs c"
  "art_ok c \<Longrightarrow> art_childs (art_put_childs ij b c) = (art_childs c)(ij \<mapsto> b)"
  "art_childs (art_put_memory ij f c) = art_childs c"
  by (simp_all add: art_ok_def art_put_defs art_get_defs map_of_smap_put)

lemma art_memory_put [simp]:
  "art_memory (art_put_switch ij m c) = art_memory c"
  "art_memory (art_put_fwlink ij fl c) = art_memory c"
  "art_memory (art_put_childs ij b c) = art_memory c"
  "art_ok c \<Longrightarrow> art_memory (art_put_memory ij f c) = (art_memory c)(ij \<mapsto> f)"
  by (simp_all add: art_ok_def art_put_defs art_get_defs map_of_smap_put)

section \<open>Intervals of bits\<close>

definition bits :: "nat \<Rightarrow> nat \<Rightarrow> nat \<Rightarrow> bool list" where
  "bits n a b = map (\<lambda>s. a \<le> s \<and> s \<le> b) [0..<n]"

lemma length_bits [simp]: "length (bits n a b) = n"
  by (simp add: bits_def)

lemma nth_bits [simp]: "s < n \<Longrightarrow> bits n a b ! s \<longleftrightarrow> a \<le> s \<and> s \<le> b"
  by (simp add: bits_def)

lemma bits_eq: "length v = n \<Longrightarrow> (\<And>s. s < n \<Longrightarrow> v ! s \<longleftrightarrow> a \<le> s \<and> s \<le> b) \<Longrightarrow> v = bits n a b"
  by (simp add: list_eq_iff_nth_eq)

lemma length_takeWhile_id:
  assumes "m \<le> length v" "\<forall>s < m. v ! s" "m < length v \<Longrightarrow> \<not> v ! m"
  shows "length (takeWhile id v) = m"
proof (cases "m < length v")
  case True
  then have "takeWhile id v = take m v"
    using assms by (intro takeWhile_eq_take_P_nth) auto
  then show ?thesis using True by simp
next
  case False
  then have m: "m = length v" using assms(1) by simp
  have "takeWhile id v = v" using assms(2) by (simp add: m takeWhile_eq_all_conv all_set_conv_all_nth)
  then show ?thesis unfolding m by (rule arg_cong)
qed

lemma span_right:
  assumes "b < n" "s < n"
  shows "length (takeWhile id (drop s (bits n a b))) = (if a \<le> s \<and> s \<le> b then b + 1 - s else 0)"
  using assms by (intro length_takeWhile_id) auto

lemma span_left:
  assumes "b < n" "e < n"
  shows "length (takeWhile id (rev (take (e + 1) (bits n a b)))) = (if a \<le> e \<and> e \<le> b then e + 1 - a else 0)"
proof -
  have l: "length (take (e + 1) (bits n a b)) = e + 1" using assms by simp
  have n: "rev (take (e + 1) (bits n a b)) ! s \<longleftrightarrow> a \<le> e - s \<and> e - s \<le> b" if "s < e + 1" for s
    using that assms l by (simp add: rev_nth del: take_Suc_conv_app_nth)
  show ?thesis using assms l by (intro length_takeWhile_id) (auto simp: n simp del: One_nat_def add_Suc_right)
qed

lemma art_left_span_bits:
  assumes "b < n" "2 * as + 1 < n"
  shows "art_left_span (bits n a b) as =
    (if a \<le> 2 * as + 1 \<and> 2 * as + 1 \<le> b then 2 * as + 2 - a else if a \<le> 2 * as \<and> 2 * as \<le> b then 2 * as + 1 - a else 0)"
  using assms span_left [of b n "2 * as + 1" a] span_left [of b n "2 * as" a]
  unfolding art_left_span_def Let_def by (simp del: length_0_conv)

lemma art_right_span_bits:
  assumes "b < n" "2 * as + 3 < n"
  shows "art_right_span (bits n a b) as =
    (if a \<le> 2 * as + 2 \<and> 2 * as + 2 \<le> b then b - (2 * as + 1) else if a \<le> 2 * as + 3 \<and> 2 * as + 3 \<le> b then b - (2 * as + 2) else 0)"
  using assms span_right [of b n "2 * as + 2" a] span_right [of b n "2 * as + 3" a]
  unfolding art_right_span_def Let_def by (simp del: length_0_conv)

section \<open>The roles of the switches of a level\<close>

text \<open>
  An interval \<open>[a, b]\<close> of inputs touches the switches \<open>a div 2, \<dots>, b div 2\<close>. At its left end an odd
  switch hands over to its right neighbour, at its right end an even switch to its left neighbour.
\<close>

definition cut_left :: "nat \<Rightarrow> nat \<Rightarrow> bool" where
  "cut_left a b \<longleftrightarrow> odd (a div 2) \<and> a div 2 < b div 2 \<and> 4 * (a div 2) + 3 < a + b"

definition cut_right :: "nat \<Rightarrow> nat \<Rightarrow> bool" where
  "cut_right a b \<longleftrightarrow> even (b div 2) \<and> a div 2 < b div 2 \<and> a + b < 4 * (b div 2)"

definition up_left :: "nat \<Rightarrow> nat \<Rightarrow> nat" where
  "up_left a b = (if cut_left a b then a div 2 + 1 else a div 2)"

definition up_right :: "nat \<Rightarrow> nat \<Rightarrow> nat" where
  "up_right a b = (if cut_right a b then b div 2 - 1 else b div 2)"

datatype role = Idle | Plain | Receiver | Sender

definition art_role :: "nat \<Rightarrow> nat \<Rightarrow> nat \<Rightarrow> role" where
  "art_role a b x =
     (if x < a div 2 \<or> b div 2 < x then Idle
      else if cut_left a b \<and> x = a div 2 \<or> cut_right a b \<and> x = b div 2 then Sender
      else if cut_left a b \<and> x = a div 2 + 1 \<or> cut_right a b \<and> x = b div 2 - 1 then Receiver
      else Plain)"

definition role_switch :: "role \<Rightarrow> adderconfig_t option \<Rightarrow> fl_t option \<Rightarrow> adderconfig_t option" where
  "role_switch ro sw fw = (case ro of
       Idle \<Rightarrow> sw
     | Plain \<Rightarrow> Some (if sw = None then ADD_2_1 else if fw = None then FW_2_2 else ADD_1_1_PLUS_FW_1_1)
     | Receiver \<Rightarrow> Some ADD_3_1
     | Sender \<Rightarrow> Some (if sw = None then ADD_2_1 else ADD_1_1_PLUS_FW_1_1))"

definition role_fwlink :: "role \<Rightarrow> fl_t option \<Rightarrow> fl_t option" where
  "role_fwlink ro fw = (case ro of Receiver \<Rightarrow> Some RECEIVE | Sender \<Rightarrow> Some SEND | _ \<Rightarrow> fw)"

text \<open>Intervals that a level can add up: three or more inputs, the two inputs of one switch, or one input.\<close>

definition admissible :: "nat \<Rightarrow> nat \<Rightarrow> bool" where
  "admissible a b \<longleftrightarrow> a = b \<or> a + 2 \<le> b \<or> b = a + 1 \<and> even a"

section \<open>One level\<close>

text \<open>Which switches have been looked at before switch \<open>k\<close>: an odd switch takes its right neighbour along.\<close>

definition seen :: "nat \<Rightarrow> nat \<Rightarrow> bool" where
  "seen k x \<longleftrightarrow> x < k \<or> x = k \<and> even k \<and> 0 < k"

text \<open>The scan of level \<open>l\<close> for the interval \<open>[a, b]\<close>, started in \<open>c0\<close>, before switch \<open>k\<close>.\<close>

definition scan_at :: "nat \<Rightarrow> nat \<Rightarrow> nat \<Rightarrow> nat \<Rightarrow> CompilerART \<Rightarrow> nat \<Rightarrow> art_scan \<Rightarrow> bool" where
  "scan_at n l a b c0 k = (\<lambda>(c, v, p).
     art_ok c \<and> art_childs c = art_childs c0 \<and> art_memory c = art_memory c0
     \<and> art_switch c = (\<lambda>(i, x). if i = l \<and> seen k x
          then role_switch (art_role a b x) (art_switch c0 (i, x)) (art_fwlink c0 (i, x)) else art_switch c0 (i, x))
     \<and> art_fwlink c = (\<lambda>(i, x). if i = l \<and> seen k x
          then role_fwlink (art_role a b x) (art_fwlink c0 (i, x)) else art_fwlink c0 (i, x))
     \<and> v = bits n (if cut_left a b \<and> a div 2 < k then 2 * (a div 2) + 2 else a)
                 (if cut_right a b \<and> b div 2 \<le> k then 2 * (b div 2) - 1 else b)
     \<and> length p = n \<and> (\<forall>x < n. p ! x \<longleftrightarrow> seen k x \<and> up_left a b \<le> x \<and> x \<le> up_right a b))"

text \<open>What the earlier virtual neurons may have left on the level.\<close>

definition level_free :: "nat \<Rightarrow> nat \<Rightarrow> nat \<Rightarrow> CompilerART \<Rightarrow> bool" where
  "level_free l a b c \<longleftrightarrow>
     (\<forall>x. art_fwlink c (l, x) \<noteq> None \<longrightarrow> 0 < x \<and> x \<noteq> 2 ^ l - 1)
   \<and> (\<forall>x. art_role a b x = Plain \<and> art_switch c (l, x) \<noteq> None \<and> art_fwlink c (l, x) \<noteq> None
          \<longrightarrow> even x \<and> art_fwlink c (l, x) = Some SEND)"

text \<open>The ends of the bits when the scan reaches switch \<open>k\<close>.\<close>

definition scan_left :: "nat \<Rightarrow> nat \<Rightarrow> nat \<Rightarrow> nat" where
  "scan_left a b k = (if cut_left a b \<and> a div 2 < k then 2 * (a div 2) + 2 else a)"

definition scan_right :: "nat \<Rightarrow> nat \<Rightarrow> nat \<Rightarrow> nat" where
  "scan_right a b k = (if cut_right a b \<and> b div 2 \<le> k then 2 * (b div 2) - 1 else b)"

lemma half_bounds: "2 * (x div 2) \<le> x" "x \<le> 2 * (x div 2) + 1" for x :: nat
  by presburger+

lemma edge_hit:
  assumes "k = 0 \<or> odd k \<and> b div 2 \<le> k" "a \<le> b"
  shows "(scan_left a b k \<le> 2 * k \<and> 2 * k \<le> scan_right a b k \<or> scan_left a b k \<le> 2 * k + 1 \<and> 2 * k + 1 \<le> scan_right a b k)
     \<longleftrightarrow> a div 2 \<le> k \<and> k \<le> b div 2"
proof -
  define P Q where "P = a div 2" and "Q = b div 2"
  note d = half_bounds [of a, folded P_def] half_bounds [of b, folded Q_def]
  have PQ: "P \<le> Q" using assms(2) by (simp add: P_def Q_def div_le_mono)
  from assms(1) show ?thesis
  proof
    assume "k = 0"
    then show ?thesis using d PQ assms(2) by (auto simp: scan_left_def scan_right_def cut_right_def P_def [symmetric] Q_def [symmetric])
  next
    assume k: "odd k \<and> b div 2 \<le> k"
    show ?thesis
    proof (cases "Q = k")
      case True
      then have "scan_right a b k = b" using k by (simp add: scan_right_def cut_right_def Q_def)
      moreover have "scan_left a b k \<le> b" "scan_left a b k \<le> 2 * k + 1"
        using True d PQ assms(2) by (auto simp: scan_left_def P_def [symmetric])
      ultimately show ?thesis using True d PQ assms(2) by (auto simp: P_def [symmetric] Q_def [symmetric])
    next
      case False
      then have "Q < k" using k by (simp add: Q_def)
      then have "scan_right a b k < 2 * k" using d by (auto simp: scan_right_def Q_def [symmetric])
      then show ?thesis using \<open>Q < k\<close> by (auto simp: Q_def)
    qed
  qed
qed

lemma scan_at_alt:
  "scan_at n l a b c0 k (c, v, p) \<longleftrightarrow>
     art_ok c \<and> art_childs c = art_childs c0 \<and> art_memory c = art_memory c0
     \<and> (\<forall>i x. art_switch c (i, x) = (if i = l \<and> seen k x
          then role_switch (art_role a b x) (art_switch c0 (i, x)) (art_fwlink c0 (i, x)) else art_switch c0 (i, x)))
     \<and> (\<forall>i x. art_fwlink c (i, x) = (if i = l \<and> seen k x
          then role_fwlink (art_role a b x) (art_fwlink c0 (i, x)) else art_fwlink c0 (i, x)))
     \<and> v = bits n (scan_left a b k) (scan_right a b k)
     \<and> length p = n \<and> (\<forall>x < n. p ! x \<longleftrightarrow> seen k x \<and> up_left a b \<le> x \<and> x \<le> up_right a b)"
  unfolding scan_at_def scan_left_def scan_right_def prod.case by (simp add: fun_eq_iff)

text \<open>
  A step that treats the switches of \<open>X\<close> as their roles say leads to the state after them; switches
  beyond the last one are idle.
\<close>

lemma scan_step:
  assumes s: "scan_at n l a b c0 k (c, v, p)"
    and X: "\<And>x. seen k' x \<longleftrightarrow> seen k x \<or> x \<in> X \<or> x \<in> Y" "\<And>x. x \<in> X \<Longrightarrow> \<not> seen k x"
    and Y: "\<And>x. x \<in> Y \<Longrightarrow> art_role a b x = Idle" "\<And>x. x \<in> Y \<Longrightarrow> \<not> (up_left a b \<le> x \<and> x \<le> up_right a b)"
    and c: "art_ok c'" "art_childs c' = art_childs c" "art_memory c' = art_memory c"
      "\<And>i x. art_switch c' (i, x) = (if i = l \<and> x \<in> X then role_switch (art_role a b x) (art_switch c (i, x)) (art_fwlink c (i, x)) else art_switch c (i, x))"
      "\<And>i x. art_fwlink c' (i, x) = (if i = l \<and> x \<in> X then role_fwlink (art_role a b x) (art_fwlink c (i, x)) else art_fwlink c (i, x))"
    and v: "v' = bits n (scan_left a b k') (scan_right a b k')"
    and p: "length p' = n" "\<And>x. x < n \<Longrightarrow> p' ! x = (if x \<in> X then up_left a b \<le> x \<and> x \<le> up_right a b else p ! x)"
  shows "scan_at n l a b c0 k' (c', v', p')"
proof -
  have sw: "art_switch c' (i, x) = (if i = l \<and> seen k' x then role_switch (art_role a b x) (art_switch c0 (i, x)) (art_fwlink c0 (i, x)) else art_switch c0 (i, x))" for i x
    using s X Y(1) unfolding scan_at_alt c(4) by (auto simp: role_switch_def)
  have fw: "art_fwlink c' (i, x) = (if i = l \<and> seen k' x then role_fwlink (art_role a b x) (art_fwlink c0 (i, x)) else art_fwlink c0 (i, x))" for i x
    using s X Y(1) unfolding scan_at_alt c(5) by (auto simp: role_fwlink_def)
  have pp: "p' ! x \<longleftrightarrow> seen k' x \<and> up_left a b \<le> x \<and> x \<le> up_right a b" if "x < n" for x
    using s X Y(2) that unfolding scan_at_alt p(2) [OF that] by auto
  show ?thesis unfolding scan_at_alt using s sw fw pp c v p(1) by (simp add: scan_at_alt)
qed

lemma scan_ends_even:
  assumes "even k" shows "scan_left a b (k + 1) = scan_left a b k" "scan_right a b (k + 1) = scan_right a b k"
  using assms by (auto simp: scan_left_def scan_right_def cut_left_def cut_right_def less_Suc_eq le_Suc_eq)

lemma scan_ends_last:
  assumes "b div 2 \<le> k" shows "scan_left a b (k + 1) = scan_left a b k" "scan_right a b (k + 1) = scan_right a b k"
  using assms by (auto simp: scan_left_def scan_right_def cut_left_def)

lemma half_less: "b < 2 ^ (l + 1) \<Longrightarrow> b div 2 < 2 ^ l" for b :: nat
  by (simp add: less_mult_imp_div_less mult.commute)

lemma beyond:
  assumes "b < 2 ^ (l + 1)" "\<not> x < 2 ^ l"
  shows "art_role a b x = Idle" "\<not> (up_left a b \<le> x \<and> x \<le> up_right a b)"
  using half_less [OF assms(1)] assms(2) by (auto simp: art_role_def up_right_def split: if_splits)

lemma scan_edge:
  assumes s: "scan_at n l a b c0 k (c, v, p)" and k: "k = 0 \<or> k = 2 ^ l - 1" "k < 2 ^ l"
    and ab: "a \<le> b" "b < 2 ^ (l + 1)" "2 ^ (l + 1) \<le> n" and f: "level_free l a b c0"
  shows "scan_at n l a b c0 (k + 1) (art_edge l k (c, v, p))"
proof -
  have odd_last: "k = 0 \<or> odd k \<and> b div 2 \<le> k" using k half_less [OF ab(2)] by (cases l) auto
  have kn: "k < n" "2 * k + 1 < n" using k(2) ab(3) by simp_all
  have vk: "v = bits n (scan_left a b k) (scan_right a b k)" and lp: "length p = n" and ok: "art_ok c"
    using s by (simp_all add: scan_at_alt)
  have hit: "v ! (2 * k) \<or> v ! (2 * k + 1) \<longleftrightarrow> a div 2 \<le> k \<and> k \<le> b div 2"
    using edge_hit [OF odd_last ab(1)] kn unfolding vk by simp
  have sk: "\<not> seen k k" using odd_last by (auto simp: seen_def)
  have ss: "seen (k + 1) x \<longleftrightarrow> seen k x \<or> x \<in> {k} \<or> x \<in> {x. \<not> x < 2 ^ l \<and> seen (k + 1) x}" for x
    using k odd_last by (auto simp: seen_def)
  have role: "art_role a b k = (if a div 2 \<le> k \<and> k \<le> b div 2 then Plain else Idle)"
    using odd_last ab(1) by (auto simp: art_role_def cut_left_def cut_right_def)
  have here: "up_left a b \<le> k \<and> k \<le> up_right a b \<longleftrightarrow> a div 2 \<le> k \<and> k \<le> b div 2"
    using odd_last ab(1) by (auto simp: up_left_def up_right_def cut_left_def cut_right_def)
  have "art_fwlink c0 (l, k) = None" using f k unfolding level_free_def by fastforce
  then have fk: "art_fwlink c (l, k) = None" using s sk by (simp add: scan_at_alt)
  have ends: "scan_left a b (k + 1) = scan_left a b k" "scan_right a b (k + 1) = scan_right a b k"
    using odd_last scan_ends_even [of 0 a b] scan_ends_last [of b k a] by auto
  let ?c = "if a div 2 \<le> k \<and> k \<le> b div 2 then art_put_switch (l, k) (if art_switch c (l, k) \<noteq> None then FW_2_2 else ADD_2_1) c else c"
  have e: "art_edge l k (c, v, p) = (?c, v, p[k := a div 2 \<le> k \<and> k \<le> b div 2])"
    using hit by (cases "a div 2 \<le> k \<and> k \<le> b div 2") (auto simp: art_edge_def)
  show ?thesis unfolding e
  proof (rule scan_step [OF s ss])
    show "art_switch ?c (i, x) = (if i = l \<and> x \<in> {k} then role_switch (art_role a b x) (art_switch c (i, x)) (art_fwlink c (i, x)) else art_switch c (i, x))" for i x
      using ok fk by (auto simp: role role_switch_def)
    show "art_fwlink ?c (i, x) = (if i = l \<and> x \<in> {k} then role_fwlink (art_role a b x) (art_fwlink c (i, x)) else art_fwlink c (i, x))" for i x
      using fk by (auto simp: role role_fwlink_def)
  qed (use sk beyond [OF ab(2)] ok vk ends lp kn here in \<open>auto simp: nth_list_update\<close>)
qed

lemma bits_take: "m \<le> n \<Longrightarrow> 0 < m \<Longrightarrow> m - 1 \<le> b \<Longrightarrow> take m (bits n a b) @ replicate (n - m) False = bits n a (m - 1)"
  by (rule bits_eq) (auto simp: nth_append)

lemma bits_drop: "m \<le> n \<Longrightarrow> a \<le> m \<Longrightarrow> replicate m False @ drop m (bits n a b) = bits n m b"
  by (rule bits_eq) (auto simp: nth_append)

text \<open>What the link between \<open>k\<close> and \<open>k + 1\<close> becomes, in terms of the roles of the two.\<close>

lemma pair_link:
  assumes k: "odd k" "k + 1 < 2 ^ l" and ab: "a \<le> b" "b < 2 ^ (l + 1)" "2 ^ (l + 1) \<le> n"
  defines "v \<equiv> bits n (scan_left a b k) (scan_right a b k)"
  shows "(0 < art_left_span v k \<longleftrightarrow> art_role a b k \<noteq> Idle) \<and> (0 < art_right_span v k \<longleftrightarrow> art_role a b (k + 1) \<noteq> Idle)
    \<and> art_link k (v, p) =
       (if art_role a b k = Receiver then Some LEFT else if art_role a b k = Sender then Some RIGHT else None,
        bits n (scan_left a b (k + 1)) (scan_right a b (k + 1)),
        p[k := up_left a b \<le> k \<and> k \<le> up_right a b, k + 1 := up_left a b \<le> k + 1 \<and> k + 1 \<le> up_right a b])
    \<and> (art_role a b k = Receiver \<longleftrightarrow> art_role a b (k + 1) = Sender) \<and> (art_role a b k = Sender \<longleftrightarrow> art_role a b (k + 1) = Receiver)"
proof -
  define P Q where "P = a div 2" and "Q = b div 2"
  note d = half_bounds [of a, folded P_def] half_bounds [of b, folded Q_def]
  note f = P_def [symmetric] Q_def [symmetric]
  have PQ: "P \<le> Q" using ab(1) by (simp add: P_def Q_def div_le_mono)
  have n: "2 * k + 3 < n" "b < n" using k(2) ab by simp_all
  have "even (2 ^ l :: nat)" using k by (cases l) auto
  then have "k + 3 \<le> 2 ^ l" using k by presburger
  then have kN: "2 * k + 5 < n" using ab(3) by simp
  note defs = scan_left_def scan_right_def art_role_def up_left_def up_right_def cut_left_def cut_right_def f
  note defs2 = scan_left_def scan_right_def art_role_def up_left_def up_right_def f
  have le: "scan_right a b k \<le> b" using d by (auto simp: defs)
  note sp = art_left_span_bits [of "scan_right a b k" n k "scan_left a b k", folded v_def] art_right_span_bits [of "scan_right a b k" n k "scan_left a b k", folded v_def]
  note sp = sp [OF le_less_trans [OF le n(2)]]
  note gen = art_link_def Let_def sp [OF _] n
  have kn: "2 * k + 1 < n" "k < n" "k + 1 < n" using n by simp_all
  have nv: "v ! s \<longleftrightarrow> scan_left a b k \<le> s \<and> s \<le> scan_right a b k" if "s < n" for s using that by (simp add: v_def)
  have lv: "length v = n" by (simp add: v_def)
  note spans = sp(1) [OF kn(1)] sp(2) [OF n(1)]
  have idle: ?thesis if e: "scan_left a b k = A" "scan_right a b k = B" "scan_left a b (k + 1) = A" "scan_right a b (k + 1) = B"
     and r: "art_role a b k = r1" "art_role a b (k + 1) = r2" "r1 \<in> {Idle, Plain}" "r2 \<in> {Idle, Plain}"
     and u: "(up_left a b \<le> k \<and> k \<le> up_right a b) = (r1 = Plain)" "(up_left a b \<le> k + 1 \<and> k + 1 \<le> up_right a b) = (r2 = Plain)"
     and x: "(0 < art_left_span v k) = (r1 = Plain)" "(0 < art_right_span v k) = (r2 = Plain)"
        "r1 = Plain \<Longrightarrow> r2 = Plain \<Longrightarrow> A + 1 \<le> 2 * k \<and> 2 * k + 4 \<le> B" for A B r1 r2
  proof -
    have v: "bits n (scan_left a b (k + 1)) (scan_right a b (k + 1)) = v" by (simp only: e v_def)
    have l: "art_link k (v, p) = (None, v, p[k := r1 = Plain, k + 1 := r2 = Plain])"
    proof (cases "r1 = Plain \<and> r2 = Plain")
      case True
      then have A: "A + 1 \<le> 2 * k" "2 * k + 4 \<le> B" using x(3) by simp_all
      then have "v ! (2 * k + 4)" "v ! (2 * k - 1)" using kN by (auto simp: nv e)
      then show ?thesis using x True by (simp add: art_link_def)
    next
      case False
      then show ?thesis using x by (auto simp: art_link_def)
    qed
    have "r1 \<noteq> Idle \<longleftrightarrow> r1 = Plain" "r2 \<noteq> Idle \<longleftrightarrow> r2 = Plain" "r1 \<noteq> Sender" "r1 \<noteq> Receiver" "r2 \<noteq> Sender" "r2 \<noteq> Receiver"
      using r(3,4) by auto
    then show ?thesis unfolding v l r u x(1,2) by simp
  qed
  have left: ?thesis if e: "scan_left a b k = A" "scan_right a b k = B" "scan_left a b (k + 1) = A" "scan_right a b (k + 1) = 2 * k + 1"
     and r: "art_role a b k = Receiver" "art_role a b (k + 1) = Sender" and u: "up_left a b \<le> k" "up_right a b = k"
     and x: "art_left_span v k = ls" "art_right_span v k = rs" "0 < rs" "rs \<le> ls" "B \<le> 2 * k + 3" "2 * k + 1 \<le> B" for A B ls rs
  proof -
    have "\<not> v ! (2 * k + 4)" "\<not> v ! (2 * k + 5)" using kN x(5) by (auto simp: nv e)
    moreover have "take (2 * k + 2) v @ replicate (n - (2 * k + 2)) False = bits n A (2 * k + 1)"
      using bits_take [of "2 * k + 2" n B A] kN x(6) unfolding v_def e by simp
    ultimately have "art_link k (v, p) = (Some LEFT, bits n A (2 * k + 1), p[k := True, k + 1 := False])"
      using x by (simp add: art_link_def lv)
    then show ?thesis unfolding r e using u x by simp
  qed
  have right: ?thesis if e: "scan_left a b k = a" "scan_right a b k = b" "scan_left a b (k + 1) = 2 * k + 2" "scan_right a b (k + 1) = b"
     and r: "art_role a b k = Sender" "art_role a b (k + 1) = Receiver" and u: "up_left a b = k + 1" "k + 1 \<le> up_right a b"
     and x: "art_left_span v k = ls" "art_right_span v k = rs" "0 < ls" "ls < rs" "2 * k \<le> a" "a \<le> 2 * k + 1" for ls rs
  proof -
    have "\<not> v ! (2 * k - 1)" "\<not> v ! (2 * k - 2)" using n x(5) k(1) by (auto simp: nv e elim: oddE)
    moreover have "replicate (2 * k + 2) False @ drop (2 * k + 2) v = bits n (2 * k + 2) b"
      using bits_drop [of "2 * k + 2" n a b] kN x(6) unfolding v_def e by simp
    ultimately have "art_link k (v, p) = (Some RIGHT, bits n (2 * k + 2) b, p[k + 1 := True, k := False])"
      using x by (simp add: art_link_def lv)
    then show ?thesis unfolding r e using u x by (simp add: list_update_swap)
  qed
  consider "k + 1 < P" | "k + 1 = P" | "k = P" "P = Q" | "k = P" "P < Q" "a + b \<le> 4 * P + 3" | "k = P" "P < Q" "4 * P + 3 < a + b"
    | "P < k" "k + 1 < Q" | "P < k" "k + 1 = Q" | "P < k" "k = Q" | "Q < k" using PQ by linarith
  then show ?thesis
  proof cases
    case 1
    show ?thesis
      apply (rule idle [of a b Idle Idle])
      using 1 d k PQ unfolding spans by (auto simp: defs)
  next
    case 2
    then have "even P" using k(1) by presburger
    then have c: "\<not> cut_left a b" "cut_right a b \<Longrightarrow> P + 1 < Q" by (auto simp: cut_left_def cut_right_def f elim!: evenE)
    show ?thesis
      apply (rule idle [of a b Idle Plain])
      using 2 d PQ ab(1) unfolding spans by (auto simp: defs2 c(1) dest: c(2))
  next
    case 3
    show ?thesis
      apply (rule idle [of a b Plain Idle])
      using 3 d k(1) PQ ab(1) unfolding spans by (auto simp: defs)
  next
    case 4
    then have Q: "Q = k + 1" using d by linarith
    then have "even Q" using k(1) 4(1) by simp
    then have c: "\<not> cut_left a b" "cut_right a b" using 4 d Q k(1) by (auto simp: cut_left_def cut_right_def f)
    show ?thesis
      by (rule left [of a b "2 * k + 2 - a" "b - (2 * k + 1)"]) (use 4 d Q c in \<open>simp_all add: spans defs2\<close>)
  next
    case 5
    then have c: "cut_left a b" "cut_right a b \<Longrightarrow> k + 1 < Q" using d k(1) by (auto simp: cut_left_def cut_right_def f elim!: oddE)
    have e: "scan_left a b k = a" "scan_right a b k = b" using 5 c by (auto simp: defs2)
    have "2 * k \<le> a" "a \<le> 2 * k + 1" "2 * k + 2 \<le> b" using 5 d by simp_all
    then have x: "art_left_span v k = 2 * k + 2 - a" "art_right_span v k = b - (2 * k + 1)" unfolding spans e by auto
    show ?thesis by (rule right [OF e _ _ _ _ _ _ x]) (use 5 d c in \<open>auto simp: defs2\<close>)
  next
    case 6
    have "odd P \<Longrightarrow> P + 2 \<le> k" "even Q \<Longrightarrow> k + 3 \<le> Q" using 6 k(1) by presburger+
    then have c: "cut_left a b \<Longrightarrow> P + 2 \<le> k" "cut_right a b \<Longrightarrow> k + 3 \<le> Q" by (simp_all add: cut_left_def cut_right_def f)
    have A: "scan_left a b k \<le> 2 * k - 1" "scan_left a b (k + 1) = scan_left a b k" "up_left a b \<le> k" using 6 d c(1) by (auto simp: defs2)
    have B: "scan_right a b k = b" "scan_right a b (k + 1) = b" "k + 1 \<le> up_right a b" "2 * k + 4 \<le> b" using 6 d c(2) by (auto simp: defs2)
    have r: "art_role a b k = Plain" "art_role a b (k + 1) = Plain" using 6 c by (auto simp: art_role_def f)
    show ?thesis by (rule idle [OF refl B(1) A(2) B(2) r]) (use 6 A B in \<open>auto simp: spans\<close>)
  next
    case 7
    then have "even Q" "a + b < 4 * Q" "P < Q" using d k(1) by (presburger, linarith, linarith)
    then have c: "cut_right a b" by (simp add: cut_right_def f)
    have "odd P \<Longrightarrow> P + 2 \<le> k" using 7(1) k(1) by presburger
    then have "cut_left a b \<Longrightarrow> P + 2 \<le> k" by (simp add: cut_left_def f)
    then have A: "scan_left a b k \<le> 2 * k - 1" "scan_left a b (k + 1) = scan_left a b k" "up_left a b \<le> k" using 7 d by (auto simp: defs2)
    have B: "scan_right a b k = b" "scan_right a b (k + 1) = 2 * k + 1" "up_right a b = k" using 7 c by (auto simp: defs2)
    show ?thesis
      by (rule left [OF refl refl A(2) B(2) _ _ A(3) B(3), of "2 * k + 2 - scan_left a b k" "b - (2 * k + 1)"])
        (use 7 d c A B k(1) in \<open>auto simp: spans art_role_def f\<close>)
  next
    case 8
    show ?thesis
      apply (rule idle [of "scan_left a b k" "scan_right a b k" Plain Idle])
      using 8 d k(1) PQ ab(1) unfolding spans by (auto simp: defs)
  next
    case 9
    show ?thesis
      apply (rule idle [of "scan_left a b k" "scan_right a b k" Idle Idle])
      using 9 d k(1) PQ ab(1) unfolding spans by (auto simp: defs)
  qed
qed

end
