(* ===== verification/ArtLevel.thy ===== *)
theory ArtLevel
  imports ArtSignals
begin

text \<open>
  The scan of a level by the compiler of the augmented reduction tree: for every interval of inputs it
  gives each switch of the level its role and leaves the interval of the level above.
\<close>

lemma art_linked_results:
  assumes "art_ok c" "x \<noteq> y"
  shows "art_ok (art_linked (l, x) (l, y) c)"
    "art_childs (art_linked (l, x) (l, y) c) = art_childs c" "art_memory (art_linked (l, x) (l, y) c) = art_memory c"
    "art_switch (art_linked (l, x) (l, y) c) =
       (art_switch c)((l, x) \<mapsto> ADD_3_1, (l, y) \<mapsto> (if art_switch c (l, y) = None then ADD_2_1 else ADD_1_1_PLUS_FW_1_1))"
    "art_fwlink (art_linked (l, x) (l, y) c) = (art_fwlink c)((l, x) \<mapsto> RECEIVE, (l, y) \<mapsto> SEND)"
  using assms by (simp_all add: art_linked_def Let_def)

text \<open>A switch of a pair whose link stays as it is.\<close>

lemma art_unlinked_results:
  assumes "art_ok c" "ro \<in> {Idle, Plain}" "0 < span \<longleftrightarrow> ro = Plain"
    and "ro = Plain \<Longrightarrow> art_switch c (l, x) \<noteq> None \<Longrightarrow> art_fwlink c (l, x) \<noteq> None \<Longrightarrow> art_fwlink c (l, y) = Some SEND"
  shows "\<exists>c'. art_unlinked (l, x) (l, y) span c = Inr c' \<and> art_ok c' \<and> art_childs c' = art_childs c \<and> art_memory c' = art_memory c
    \<and> art_switch c' = (art_switch c)((l, x) := role_switch ro (art_switch c (l, x)) (art_fwlink c (l, x)))
    \<and> art_fwlink c' = art_fwlink c"
proof (cases "ro = Plain")
  case True
  then have "0 < span" using assms(3) by simp
  then show ?thesis using assms(1,4) True by (auto simp: art_unlinked_def role_switch_def split: option.split)
next
  case False
  then have "ro = Idle" "span = 0" using assms(2,3) by auto
  then show ?thesis using assms(1) by (auto simp: art_unlinked_def role_switch_def)
qed

lemma scan_pair:
  assumes s: "scan_at n l a b c0 k (c, v, p)" and k: "odd k" "k + 1 < 2 ^ l"
    and ab: "a \<le> b" "b < 2 ^ (l + 1)" "2 ^ (l + 1) \<le> n" and f: "level_free l a b c0"
  shows "\<exists>s'. art_pair l k (c, v, p) = Inr s' \<and> scan_at n l a b c0 (k + 1) s'"
proof -
  have vk: "v = bits n (scan_left a b k) (scan_right a b k)" and lp: "length p = n" and ok: "art_ok c"
    using s by (simp_all add: scan_at_alt)
  note link = pair_link [OF k ab, where p = p, folded vk]
  have kn: "k < n" "k + 1 < n" using k(2) ab(3) by simp_all
  have ss: "seen (k + 1) x \<longleftrightarrow> seen k x \<or> x \<in> {k, k + 1} \<or> x \<in> {}" for x
    using k by (auto simp: seen_def)
  have sk: "\<not> seen k x" if "x \<in> {k, k + 1}" for x using that k by (auto simp: seen_def)
  have c0: "art_switch c (l, x) = art_switch c0 (l, x)" "art_fwlink c (l, x) = art_fwlink c0 (l, x)" if "x \<in> {k, k + 1}" for x
    using s sk [OF that] by (simp_all add: scan_at_alt)
  let ?p = "p[k := up_left a b \<le> k \<and> k \<le> up_right a b, k + 1 := up_left a b \<le> k + 1 \<and> k + 1 \<le> up_right a b]"
  let ?v = "bits n (scan_left a b (k + 1)) (scan_right a b (k + 1))"
  have step: "scan_at n l a b c0 (k + 1) (c', ?v, ?p)"
    if "art_ok c'" "art_childs c' = art_childs c" "art_memory c' = art_memory c"
      "\<And>i x. art_switch c' (i, x) = (if i = l \<and> x \<in> {k, k + 1} then role_switch (art_role a b x) (art_switch c (i, x)) (art_fwlink c (i, x)) else art_switch c (i, x))"
      "\<And>i x. art_fwlink c' (i, x) = (if i = l \<and> x \<in> {k, k + 1} then role_fwlink (art_role a b x) (art_fwlink c (i, x)) else art_fwlink c (i, x))"
    for c'
    by (rule scan_step [OF s ss sk _ _ that]) (use lp kn in \<open>auto simp: nth_list_update\<close>)
  consider "art_role a b k = Receiver" "art_role a b (k + 1) = Sender" | "art_role a b k = Sender" "art_role a b (k + 1) = Receiver"
    | "art_role a b k \<in> {Idle, Plain}" "art_role a b (k + 1) \<in> {Idle, Plain}"
    using link by (cases "art_role a b k"; cases "art_role a b (k + 1)") auto
  then show ?thesis
  proof cases
    case 1
    then have "art_pair l k (c, v, p) = Inr (art_linked (l, k) (l, k + 1) c, ?v, ?p)"
      using link by (simp add: art_pair_def Let_def)
    moreover have "scan_at n l a b c0 (k + 1) (art_linked (l, k) (l, k + 1) c, ?v, ?p)"
      by (rule step) (use art_linked_results [OF ok, of k "k + 1" l] 1 in \<open>auto simp: role_switch_def role_fwlink_def\<close>)
    ultimately show ?thesis by blast
  next
    case 2
    then have "art_pair l k (c, v, p) = Inr (art_linked (l, k + 1) (l, k) c, ?v, ?p)"
      using link by (simp add: art_pair_def Let_def)
    moreover have "scan_at n l a b c0 (k + 1) (art_linked (l, k + 1) (l, k) c, ?v, ?p)"
      by (rule step) (use art_linked_results [OF ok, of "k + 1" k l] 2 in \<open>auto simp: role_switch_def role_fwlink_def\<close>)
    ultimately show ?thesis by blast
  next
    case 3
    let ?ls = "art_left_span v k" and ?rs = "art_right_span v k"
    have free: "art_role a b x = Plain \<Longrightarrow> art_switch c (l, x) \<noteq> None \<Longrightarrow> art_fwlink c (l, x) \<noteq> None
        \<Longrightarrow> even x \<and> art_fwlink c (l, x) = Some SEND" if "x \<in> {k, k + 1}" for x
      using f c0 [OF that] unfolding level_free_def by auto
    have l1: "(0 < ?ls) = (art_role a b k = Plain)" "(0 < ?rs) = (art_role a b (k + 1) = Plain)" using link 3 by auto
    obtain c1 where c1: "art_unlinked (l, k) (l, k + 1) ?ls c = Inr c1" "art_ok c1" "art_childs c1 = art_childs c" "art_memory c1 = art_memory c"
      "art_switch c1 = (art_switch c)((l, k) := role_switch (art_role a b k) (art_switch c (l, k)) (art_fwlink c (l, k)))" "art_fwlink c1 = art_fwlink c"
      using art_unlinked_results [OF ok 3(1) l1(1), of l k "k + 1"] free [of k] k(1) by auto
    obtain c2 where c2: "art_unlinked (l, k + 1) (l, k + 1) ?rs c1 = Inr c2" "art_ok c2" "art_childs c2 = art_childs c" "art_memory c2 = art_memory c"
      "art_switch c2 = (art_switch c1)((l, k + 1) := role_switch (art_role a b (k + 1)) (art_switch c1 (l, k + 1)) (art_fwlink c1 (l, k + 1)))"
      "art_fwlink c2 = art_fwlink c"
      using art_unlinked_results [OF c1(2) 3(2) l1(2), of l "k + 1" "k + 1"] free [of "k + 1"] c1 by auto
    have "art_pair l k (c, v, p) = Inr (c2, ?v, ?p)"
      using link 3 c1(1) c2(1) by (auto simp: art_pair_def Let_def)
    moreover have "scan_at n l a b c0 (k + 1) (c2, ?v, ?p)"
      by (rule step) (use c1 c2 3 in \<open>auto simp: role_fwlink_def\<close>)
    ultimately show ?thesis by blast
  qed
qed

lemma scan_skip:
  assumes "scan_at n l a b c0 k s" "even k" "0 < k" shows "scan_at n l a b c0 (k + 1) s"
proof -
  obtain c v p where s: "s = (c, v, p)" by (cases s)
  have "seen (k + 1) x = seen k x" for x using assms(2,3) by (auto simp: seen_def)
  then show ?thesis using assms scan_ends_even [OF assms(2)] by (simp add: s scan_at_alt)
qed

lemma scan_node:
  assumes s: "scan_at n l a b c0 k s" and k: "k < 2 ^ l"
    and ab: "a \<le> b" "b < 2 ^ (l + 1)" "2 ^ (l + 1) \<le> n" and f: "level_free l a b c0"
  shows "\<exists>s'. art_node l k s = Inr s' \<and> scan_at n l a b c0 (k + 1) s'"
proof -
  obtain c v p where s': "s = (c, v, p)" by (cases s)
  consider "k = 0 \<or> k = 2 ^ l - 1" | "k \<noteq> 0" "k \<noteq> 2 ^ l - 1" "odd k" | "k \<noteq> 0" "k \<noteq> 2 ^ l - 1" "even k" by blast
  then show ?thesis
  proof cases
    case 1
    then show ?thesis using scan_edge [OF s [unfolded s'] 1 k ab f] by (auto simp: art_node_def s')
  next
    case 2
    then have "k + 1 < 2 ^ l" using k by linarith
    then show ?thesis using scan_pair [OF s [unfolded s'] 2(3) _ ab f] 2 by (auto simp: art_node_def s' odd_iff_mod_2_eq_one)
  next
    case 3
    then show ?thesis using scan_skip [OF s] by (auto simp: art_node_def)
  qed
qed

lemma scan_start: "art_ok c \<Longrightarrow> scan_at n l a b c 0 (c, bits n a b, replicate n False)"
  by (auto simp: scan_at_alt seen_def scan_left_def scan_right_def cut_right_def)

lemma scan_fold:
  assumes "art_ok c" "a \<le> b" "b < 2 ^ (l + 1)" "2 ^ (l + 1) \<le> n" "level_free l a b c"
  shows "\<exists>s'. rfold (art_node l) [0..<2 ^ l] (c, bits n a b, replicate n False) = Inr s' \<and> scan_at n l a b c (2 ^ l) s'"
  using scan_start [OF assms(1)] scan_node [OF _ _ assms(2-5)] by (intro rfold_upt_total) auto

text \<open>What one level does for an interval: the roles of its switches, and the bits of the level above.\<close>

definition level_after :: "nat \<Rightarrow> nat \<Rightarrow> nat \<Rightarrow> CompilerART \<Rightarrow> CompilerART \<Rightarrow> bool" where
  "level_after l a b c c' \<longleftrightarrow> art_ok c' \<and> art_childs c' = art_childs c
     \<and> (\<forall>i x. art_switch c' (i, x) = (if i = l then role_switch (art_role a b x) (art_switch c (i, x)) (art_fwlink c (i, x)) else art_switch c (i, x)))
     \<and> (\<forall>i x. art_fwlink c' (i, x) = (if i = l then role_fwlink (art_role a b x) (art_fwlink c (i, x)) else art_fwlink c (i, x)))
     \<and> art_memory c' = (if up_left a b = up_right a b then (art_memory c)((l, up_left a b) \<mapsto> True) else art_memory c)"

lemma up_le: "a \<le> b \<Longrightarrow> up_left a b \<le> up_right a b"
proof -
  assume "a \<le> b"
  then have "a div 2 \<le> b div 2" by (rule div_le_mono)
  moreover have "b div 2 \<noteq> a div 2 + 1" if "cut_left a b" "cut_right a b"
    using that half_bounds [of a] half_bounds [of b] by (auto simp: cut_left_def cut_right_def)
  ultimately show ?thesis by (auto simp: up_left_def up_right_def cut_left_def cut_right_def)
qed

lemma up_right_bound: "up_right a b \<le> b div 2"
  by (simp add: up_right_def)

lemma art_level_after:
  assumes "art_ok c" "a \<le> b" "b < 2 ^ (l + 1)" "2 ^ (l + 1) \<le> n" "level_free l a b c"
  shows "\<exists>c'. art_level n l (c, bits n a b, replicate n False) = Inr (c', bits n (up_left a b) (up_right a b), replicate n False)
    \<and> level_after l a b c c'"
proof -
  let ?N = "2 ^ l :: nat"
  obtain c1 v p where r: "rfold (art_node l) [0..<?N] (c, bits n a b, replicate n False) = Inr (c1, v, p)"
    and s: "scan_at n l a b c ?N (c1, v, p)" using scan_fold [OF assms] by auto
  have ur: "up_right a b < ?N" using up_right_bound [of a b] half_less [OF assms(3)] by linarith
  have "seen ?N x" if "x < ?N" for x using that by (simp add: seen_def)
  then have pp: "p ! x \<longleftrightarrow> up_left a b \<le> x \<and> x \<le> up_right a b" if "x < n" for x
    using s ur that by (auto simp: scan_at_alt)
  have p: "p = bits n (up_left a b) (up_right a b)" by (rule bits_eq) (use s pp in \<open>simp_all add: scan_at_alt\<close>)
  have un: "up_right a b < n" using ur assms(4) by simp
  have fl: "filter (\<lambda>s. p ! s) [0..<n] = [up_left a b..<Suc (up_right a b)]"
    by (rule sorted_distinct_set_unique) (use un pp in \<open>auto simp: sorted_wrt_filter simp del: upt_Suc\<close>)
  let ?c = "if up_left a b = up_right a b then art_put_memory (l, up_left a b) True c1 else c1"
  have e: "art_level n l (c, bits n a b, replicate n False) = Inr (?c, bits n (up_left a b) (up_right a b), replicate n False)"
    using up_le [OF assms(2)] unfolding art_level_def r by (simp add: fl p [symmetric] Let_def)
  have role: "art_role a b x = Idle" "x \<noteq> 2 ^ l \<or> True" if "\<not> x < ?N" for x using beyond(1) [OF assms(3) that] by simp_all
  have x: "seen ?N x \<or> art_role a b x = Idle" for x using role(1) [of x] by (auto simp: seen_def)
  have "level_after l a b c ?c" unfolding level_after_def
  proof (intro conjI allI)
    fix i x
    show "art_switch ?c (i, x) = (if i = l then role_switch (art_role a b x) (art_switch c (i, x)) (art_fwlink c (i, x)) else art_switch c (i, x))"
      using s x [of x] by (auto simp: scan_at_alt role_switch_def)
    show "art_fwlink ?c (i, x) = (if i = l then role_fwlink (art_role a b x) (art_fwlink c (i, x)) else art_fwlink c (i, x))"
      using s x [of x] by (auto simp: scan_at_alt role_fwlink_def)
  qed (use s in \<open>auto simp: scan_at_alt\<close>)
  then show ?thesis using e by blast
qed

end
