(* ===== verification/ArtPlan.thy ===== *)
theory ArtPlan
  imports ArtLevel DistTree
begin

text \<open>
  All virtual neurons together: how the interval of a virtual neuron climbs the tree, why the
  intervals of two of them do not get into each other's way, and what the compiler has written for
  every switch in the end.
\<close>

section \<open>Climbing the tree\<close>

primrec climb :: "nat \<Rightarrow> nat \<times> nat \<Rightarrow> nat \<times> nat" where
  "climb 0 ab = ab"
| "climb (Suc k) ab = (up_left (fst (climb k ab)) (snd (climb k ab)), up_right (fst (climb k ab)) (snd (climb k ab)))"

abbreviation lo :: "nat \<Rightarrow> nat \<times> nat \<Rightarrow> nat" where "lo k ab \<equiv> fst (climb k ab)"
abbreviation hi :: "nat \<Rightarrow> nat \<times> nat \<Rightarrow> nat" where "hi k ab \<equiv> snd (climb k ab)"

text \<open>
  A plan: intervals from left to right that a leaf level can add up, where two that share a switch of
  the leaf level are both long or both of one multiplier.
\<close>

definition plan_ok :: "nat \<Rightarrow> (nat \<times> nat) list \<Rightarrow> bool" where
  "plan_ok n ivs \<longleftrightarrow>
     (\<forall>i < length ivs. fst (ivs ! i) \<le> snd (ivs ! i) \<and> snd (ivs ! i) < n \<and> admissible (fst (ivs ! i)) (snd (ivs ! i)))
   \<and> (\<forall>j < length ivs. \<forall>i < j. snd (ivs ! i) < fst (ivs ! j)
        \<and> (snd (ivs ! i) div 2 = fst (ivs ! j) div 2 \<longrightarrow>
             fst (ivs ! i) + 2 \<le> snd (ivs ! i) \<and> fst (ivs ! j) + 2 \<le> snd (ivs ! j)
           \<or> fst (ivs ! i) = snd (ivs ! i) \<and> fst (ivs ! j) = snd (ivs ! j)))"

lemma climb_le: "fst ab \<le> snd ab \<Longrightarrow> lo k ab \<le> hi k ab"
  by (induction k) (simp_all add: up_le)

lemma climb_bound: "snd ab < 2 ^ L \<Longrightarrow> k \<le> L \<Longrightarrow> hi k ab < 2 ^ (L - k)"
proof (induction k)
  case (Suc k)
  then have "hi k ab < 2 ^ (L - Suc k + 1)" by (simp add: Suc_diff_Suc)
  then show ?case using half_less [of "hi k ab" "L - Suc k"] up_right_bound [of "lo k ab" "hi k ab"] by simp
qed simp

text \<open>Above the leaves an interval is one input, or starts at an even and ends at an odd one.\<close>

lemma up_aligned:
  assumes "a \<le> b" "admissible a b"
  shows "up_left a b = up_right a b \<or> even (up_left a b) \<and> odd (up_right a b)"
proof -
  define P Q where "P = a div 2" and "Q = b div 2"
  note d = half_bounds [of a, folded P_def] half_bounds [of b, folded Q_def]
  note defs = up_left_def up_right_def cut_left_def cut_right_def P_def [symmetric] Q_def [symmetric]
  have PQ: "P \<le> Q" using assms(1) by (simp add: P_def Q_def div_le_mono)
  consider "P = Q" | "Q = P + 1" "odd P" | "Q = P + 1" "even P" | "P + 1 < Q" using PQ by linarith
  then show ?thesis
  proof cases
    case 4
    have "odd P \<Longrightarrow> 4 * P + 3 < a + b" "even Q \<Longrightarrow> a + b < 4 * Q" using 4 d by linarith+
    then show ?thesis using 4 by (auto simp: defs)
  qed (use d in \<open>auto simp: defs\<close>)
qed

lemma aligned_admissible: "a = b \<or> even a \<and> odd b \<Longrightarrow> a \<le> b \<Longrightarrow> admissible a b" for a b :: nat
proof -
  assume 1: "a = b \<or> even a \<and> odd b" "a \<le> b"
  show "admissible a b"
  proof (cases "a = b")
    case False
    then have "b = a + 1 \<or> a + 2 \<le> b" using 1(2) by linarith
    then show ?thesis using 1 False by (auto simp: admissible_def)
  qed (simp add: admissible_def)
qed

lemma climb_aligned:
  assumes "fst ab \<le> snd ab" "admissible (fst ab) (snd ab)"
  shows "admissible (lo k ab) (hi k ab) \<and> (0 < k \<longrightarrow> lo k ab = hi k ab \<or> even (lo k ab) \<and> odd (hi k ab))"
proof (induction k)
  case (Suc k)
  then show ?case using up_aligned [OF climb_le [OF assms(1)], of k] aligned_admissible up_le [OF climb_le [OF assms(1)], of k] by simp
qed (simp add: assms(2))

section \<open>Two virtual neurons\<close>

text \<open>Two intervals that share a switch of the leaf level: the left one or the right one leaves it.\<close>

lemma shared_leaf:
  assumes "a \<le> b" "c \<le> d" "b < c" "b div 2 = x" "c div 2 = x" "a + 2 \<le> b" "c + 2 \<le> d"
  shows "b = 2 * x" "c = 2 * x + 1" "even x \<Longrightarrow> cut_right a b" "odd x \<Longrightarrow> cut_left c d"
    "even x \<Longrightarrow> \<not> cut_left c d" "odd x \<Longrightarrow> \<not> cut_right a b"
proof -
  note d = half_bounds [of b, unfolded assms(4)] half_bounds [of c, unfolded assms(5)]
  show bc: "b = 2 * x" "c = 2 * x + 1" using d assms(3) by linarith+
  have "a div 2 < x" "x < d div 2" using assms(6,7) unfolding bc by (simp_all add: div_less_iff_less_mult)
  then show "even x \<Longrightarrow> cut_right a b" "odd x \<Longrightarrow> cut_left c d" using assms(4-7) unfolding bc by (auto simp: cut_left_def cut_right_def)
  show "even x \<Longrightarrow> \<not> cut_left c d" "odd x \<Longrightarrow> \<not> cut_right a b" using assms(4,5) by (simp_all add: cut_left_def cut_right_def)
qed

lemma up_between: "a div 2 \<le> up_left a b" "up_right a b \<le> b div 2"
  by (simp_all add: up_left_def up_right_def)

lemma plan_apart:
  assumes "plan_ok n ivs" "i < j" "j < length ivs"
  shows "hi k (ivs ! i) < lo k (ivs ! j)
    \<or> 0 < k \<and> hi k (ivs ! i) = lo k (ivs ! j) \<and> lo k (ivs ! i) = hi k (ivs ! i) \<and> lo k (ivs ! j) = hi k (ivs ! j)"
proof (induction k)
  case 0
  then show ?case using assms by (simp add: plan_ok_def)
next
  case (Suc k)
  let ?ai = "lo k (ivs ! i)" and ?bi = "hi k (ivs ! i)" and ?aj = "lo k (ivs ! j)" and ?bj = "hi k (ivs ! j)"
  have ij: "i < length ivs" using assms by simp
  have le: "?ai \<le> ?bi" "?aj \<le> ?bj" using assms ij by (auto simp: plan_ok_def intro!: climb_le)
  have al: "0 < k \<Longrightarrow> ?ai = ?bi \<or> odd ?bi" "0 < k \<Longrightarrow> ?aj = ?bj \<or> even ?aj"
    using climb_aligned [of "ivs ! i" k] climb_aligned [of "ivs ! j" k] assms ij by (auto simp: plan_ok_def)
  show ?case
  proof (cases "?bi = ?aj")
    case True
    then show ?thesis using Suc.IH le by (auto simp: up_left_def up_right_def cut_left_def cut_right_def)
  next
    case False
    then have lt: "?bi < ?aj" using Suc.IH by blast
    then have "?bi div 2 \<le> ?aj div 2" by (simp add: div_le_mono)
    then consider "up_right ?ai ?bi < up_left ?aj ?bj"
      | "?bi div 2 = ?aj div 2" "up_right ?ai ?bi = ?bi div 2" "up_left ?aj ?bj = ?aj div 2"
      using up_between [of ?aj ?bj] up_between [of ?ai ?bi] by linarith
    then show ?thesis
    proof cases
      case 2
      then have par: "even ?bi" "odd ?aj" using lt by presburger+
      have "?ai = ?bi \<and> ?aj = ?bj"
      proof (cases "k = 0")
        case True
        let ?x = "?bi div 2"
        have "\<not> (?ai + 2 \<le> ?bi \<and> ?aj + 2 \<le> ?bj)"
        proof
          assume long: "?ai + 2 \<le> ?bi \<and> ?aj + 2 \<le> ?bj"
          note sh = shared_leaf [OF le lt refl 2(1) [symmetric], OF conjunct1 [OF long] conjunct2 [OF long]]
          show False
          proof (cases "even ?x")
            case True
            then have "up_right ?ai ?bi \<noteq> ?x" using sh(3) by (auto simp: up_right_def cut_right_def)
            then show False using 2 by simp
          next
            case False
            then have "up_left ?aj ?bj \<noteq> ?x" using sh(4) 2(1) by (auto simp: up_left_def)
            then show False using 2 by simp
          qed
        qed
        moreover have "?ai + 2 \<le> ?bi \<and> ?aj + 2 \<le> ?bj \<or> ?ai = ?bi \<and> ?aj = ?bj"
          using assms ij 2(1) True unfolding plan_ok_def by simp
        ultimately show ?thesis by blast
      next
        case False
        then show ?thesis using al par by auto
      qed
      then show ?thesis using 2 by (auto simp: up_left_def up_right_def cut_left_def cut_right_def)
    qed simp
  qed
qed

lemma role_touches: "art_role a b x \<noteq> Idle \<longleftrightarrow> a div 2 \<le> x \<and> x \<le> b div 2"
  by (auto simp: art_role_def)

lemma role_linked:
  assumes "art_role a b x \<in> {Receiver, Sender}" "a \<le> b" "b < 2 ^ (l + 1)"
  shows "a div 2 < b div 2" "0 < x" "x \<noteq> 2 ^ l - 1"
proof -
  show lt: "a div 2 < b div 2" using assms(1) by (auto simp: art_role_def cut_left_def cut_right_def split: if_splits)
  then have "even (b div 2) \<Longrightarrow> 1 < b div 2" by presburger
  then show "0 < x" using assms(1) by (auto simp: art_role_def cut_left_def cut_right_def odd_pos split: if_splits)
  have "0 < l" using lt half_less [OF assms(3)] by (cases l) auto
  then have "odd (2 ^ l - 1 :: nat)" by simp
  moreover have "even x \<or> x < b div 2"
    using assms(1) lt by (auto simp: art_role_def cut_left_def cut_right_def split: if_splits)
  ultimately show "x \<noteq> 2 ^ l - 1" using half_less [OF assms(3)] by fastforce
qed

text \<open>A switch that two virtual neurons touch, one of them over a forwarding link.\<close>

lemma plan_shared:
  assumes p: "plan_ok n ivs" "i < j" "j < length ivs"
    and x: "art_role (lo k (ivs ! i)) (hi k (ivs ! i)) x \<noteq> Idle" "art_role (lo k (ivs ! j)) (hi k (ivs ! j)) x \<noteq> Idle"
    and ns: "lo k (ivs ! i) \<noteq> hi k (ivs ! i) \<or> lo k (ivs ! j) \<noteq> hi k (ivs ! j)"
  shows "k = 0" "snd (ivs ! i) = 2 * x" "fst (ivs ! j) = 2 * x + 1"
    "fst (ivs ! i) + 2 \<le> snd (ivs ! i)" "fst (ivs ! j) + 2 \<le> snd (ivs ! j)"
    "art_role (fst (ivs ! i)) (snd (ivs ! i)) x = (if even x then Sender else Plain)"
    "art_role (fst (ivs ! j)) (snd (ivs ! j)) x = (if even x then Plain else Sender)"
proof -
  let ?ai = "lo k (ivs ! i)" and ?bi = "hi k (ivs ! i)" and ?aj = "lo k (ivs ! j)" and ?bj = "hi k (ivs ! j)"
  have ij: "i < length ivs" using p by simp
  have le: "?ai \<le> ?bi" "?aj \<le> ?bj" using p ij by (auto simp: plan_ok_def intro!: climb_le)
  have lt: "?bi < ?aj" using plan_apart [OF p, of k] ns by auto
  have "?bi div 2 \<le> ?aj div 2" using lt by (simp add: div_le_mono)
  then have xx: "?bi div 2 = x" "?aj div 2 = x" using x by (simp_all add: role_touches)
  then have b2: "?bi = 2 * x" "?aj = 2 * x + 1" using lt by presburger+
  have "0 < k \<Longrightarrow> ?ai = ?bi \<or> odd ?bi" "0 < k \<Longrightarrow> ?aj = ?bj \<or> even ?aj"
    using climb_aligned [of "ivs ! i" k] climb_aligned [of "ivs ! j" k] p ij by (auto simp: plan_ok_def)
  then show k: "k = 0" using ns b2 by auto
  show "snd (ivs ! i) = 2 * x" "fst (ivs ! j) = 2 * x + 1" using b2 k by simp_all
  then have "snd (ivs ! i) div 2 = fst (ivs ! j) div 2" by simp
  then have "fst (ivs ! i) + 2 \<le> snd (ivs ! i) \<and> fst (ivs ! j) + 2 \<le> snd (ivs ! j) \<or> fst (ivs ! i) = snd (ivs ! i) \<and> fst (ivs ! j) = snd (ivs ! j)"
    using p unfolding plan_ok_def by blast
  then show long: "fst (ivs ! i) + 2 \<le> snd (ivs ! i)" "fst (ivs ! j) + 2 \<le> snd (ivs ! j)" using ns k by auto
  note sh = shared_leaf [OF le lt xx] 
  have "even x \<Longrightarrow> cut_right ?ai ?bi" "odd x \<Longrightarrow> cut_left ?aj ?bj" "even x \<Longrightarrow> \<not> cut_left ?aj ?bj" "odd x \<Longrightarrow> \<not> cut_right ?ai ?bi"
    using sh(3-6) long k by simp_all
  moreover have "?ai div 2 < x" "x < ?bj div 2"
    using b2 long k by (simp_all add: div_less_iff_less_mult less_eq_div_iff_mult_less_eq Suc_le_eq [symmetric])
  ultimately show "art_role (fst (ivs ! i)) (snd (ivs ! i)) x = (if even x then Sender else Plain)"
    "art_role (fst (ivs ! j)) (snd (ivs ! j)) x = (if even x then Plain else Sender)"
    using xx k by (auto simp: art_role_def cut_left_def cut_right_def)
qed

section \<open>What the compiler has written\<close>

definition role_step :: "role \<Rightarrow> adderconfig_t option \<times> fl_t option \<Rightarrow> adderconfig_t option \<times> fl_t option" where
  "role_step ro = (\<lambda>(s, f). (role_switch ro s f, role_fwlink ro f))"

definition roles :: "(nat \<times> nat) list \<Rightarrow> nat \<Rightarrow> nat \<Rightarrow> nat \<Rightarrow> role list" where
  "roles ivs m k x = map (\<lambda>i. art_role (lo k (ivs ! i)) (hi k (ivs ! i)) x) [0..<m]"

definition entry :: "(nat \<times> nat) list \<Rightarrow> nat \<Rightarrow> nat \<Rightarrow> nat \<Rightarrow> adderconfig_t option \<times> fl_t option" where
  "entry ivs m k x = fold role_step (roles ivs m k x) (None, None)"

text \<open>The signals after \<open>m\<close> virtual neurons on a tree of \<open>L\<close> levels.\<close>

definition signals_at :: "nat \<Rightarrow> (nat \<times> nat) list \<Rightarrow> nat \<Rightarrow> CompilerART \<Rightarrow> bool" where
  "signals_at L ivs m c \<longleftrightarrow> art_ok c \<and> art_childs c = Map.empty
     \<and> (\<forall>l x. art_switch c (l, x) = (if l < L then fst (entry ivs m (L - Suc l) x) else None))
     \<and> (\<forall>l x. art_fwlink c (l, x) = (if l < L then snd (entry ivs m (L - Suc l) x) else None))
     \<and> (\<forall>l x. art_memory c (l, x) = (if l < L \<and> (\<exists>i < m. climb (L - l) (ivs ! i) = (x, x)) then Some True else None))"

lemma entry_Suc: "entry ivs (Suc m) k x = role_step (art_role (lo k (ivs ! m)) (hi k (ivs ! m)) x) (entry ivs m k x)"
  by (simp add: entry_def roles_def)

lemma entry_fw: "snd (entry ivs m k x) = Some f \<Longrightarrow> \<exists>i < m. role_fwlink (art_role (lo k (ivs ! i)) (hi k (ivs ! i)) x) None = Some f"
proof (induction m)
  case (Suc m)
  show ?case
  proof (cases "role_fwlink (art_role (lo k (ivs ! m)) (hi k (ivs ! m)) x) None = Some f")
    case False
    then have "snd (entry ivs m k x) = Some f"
      using Suc.prems by (auto simp: entry_Suc role_step_def role_fwlink_def split: prod.splits role.splits)
    then show ?thesis using Suc.IH less_SucI by blast
  qed blast
qed (simp add: entry_def roles_def)

lemma role_fwlink_Some: "role_fwlink ro None = Some f \<longleftrightarrow> ro = Receiver \<and> f = RECEIVE \<or> ro = Sender \<and> f = SEND"
  by (cases ro) (auto simp: role_fwlink_def)

lemma plan_free:
  assumes p: "plan_ok (2 ^ L) ivs" "m < length ivs" and k: "k < L"
    and c: "\<And>x. art_switch c (L - Suc k, x) = fst (entry ivs m k x)" "\<And>x. art_fwlink c (L - Suc k, x) = snd (entry ivs m k x)"
  shows "level_free (L - Suc k) (lo k (ivs ! m)) (hi k (ivs ! m)) c"
proof -
  let ?l = "L - Suc k"
  have bound: "hi k (ivs ! i) < 2 ^ (?l + 1)" "lo k (ivs ! i) \<le> hi k (ivs ! i)" if "i \<le> m" for i
    using p k that climb_bound [of "ivs ! i" L k] by (auto simp: plan_ok_def Suc_diff_Suc intro!: climb_le)
  have link: "\<exists>i < m. role_fwlink (art_role (lo k (ivs ! i)) (hi k (ivs ! i)) x) None = Some f" if "art_fwlink c (?l, x) = Some f" for x f
    using entry_fw that by (simp add: c(2))
  show ?thesis unfolding level_free_def
  proof (intro conjI allI impI)
    fix x assume "art_fwlink c (?l, x) \<noteq> None"
    then obtain i where i: "i < m" "art_role (lo k (ivs ! i)) (hi k (ivs ! i)) x \<in> {Receiver, Sender}"
      using link by (auto simp: role_fwlink_Some)
    then show "0 < x" "x \<noteq> 2 ^ ?l - 1" using role_linked [OF i(2) bound(2,1)] by simp_all
  next
    fix x assume x: "art_role (lo k (ivs ! m)) (hi k (ivs ! m)) x = Plain \<and> art_switch c (?l, x) \<noteq> None \<and> art_fwlink c (?l, x) \<noteq> None"
    then obtain f where f: "art_fwlink c (?l, x) = Some f" by auto
    then obtain i where i: "i < m" "role_fwlink (art_role (lo k (ivs ! i)) (hi k (ivs ! i)) x) None = Some f" using link by blast
    then have ri: "art_role (lo k (ivs ! i)) (hi k (ivs ! i)) x \<in> {Receiver, Sender}" by (auto simp: role_fwlink_Some)
    then have "lo k (ivs ! i) div 2 < hi k (ivs ! i) div 2" using role_linked(1) [OF ri bound(2,1)] i(1) by simp
    then have "lo k (ivs ! i) \<noteq> hi k (ivs ! i)" by auto
    then have sh: "k = 0" "art_role (fst (ivs ! i)) (snd (ivs ! i)) x = (if even x then Sender else Plain)"
      using plan_shared [OF p(1) i(1) p(2), of k x] ri x by auto
    then show "even x" "art_fwlink c (?l, x) = Some SEND" using ri i(2) f by (auto simp: role_fwlink_Some split: if_splits)
  qed
qed

lemma art_set_bits_eq:
  assumes "a \<le> b" "b < n" shows "art_set_bits n a (Suc b - a) = Inr (bits n a b)"
proof -
  have "\<exists>v. rfold (\<lambda>j bits. rupd bits j True) [a..<a + (Suc b - a)] (replicate n False) = Inr v
     \<and> length v = n \<and> (\<forall>s < n. v ! s \<longleftrightarrow> a \<le> s \<and> s < a + length [a..<a + (Suc b - a)])"
    by (rule rfold_total [where I = "\<lambda>k v. length v = n \<and> (\<forall>s < n. v ! s \<longleftrightarrow> a \<le> s \<and> s < a + k)"])
      (use assms in \<open>auto simp: rupd_def nth_list_update simp del: upt_Suc\<close>)
  then obtain v where v: "art_set_bits n a (Suc b - a) = Inr v" "length v = n" "\<forall>s < n. v ! s \<longleftrightarrow> a \<le> s \<and> s < Suc b"
    using assms by (auto simp: art_set_bits_def)
  then have "v = bits n a b" by (intro bits_eq) auto
  then show ?thesis using v(1) by simp
qed

text \<open>The signals when virtual neuron \<open>m\<close> has been followed through \<open>k\<close> levels, from the leaves up.\<close>

definition signals_within :: "nat \<Rightarrow> (nat \<times> nat) list \<Rightarrow> nat \<Rightarrow> nat \<Rightarrow> CompilerART \<Rightarrow> bool" where
  "signals_within L ivs m k c \<longleftrightarrow> art_ok c \<and> art_childs c = Map.empty
     \<and> (\<forall>l x. art_switch c (l, x) = (if l < L then fst (entry ivs (if L - k \<le> l then Suc m else m) (L - Suc l) x) else None))
     \<and> (\<forall>l x. art_fwlink c (l, x) = (if l < L then snd (entry ivs (if L - k \<le> l then Suc m else m) (L - Suc l) x) else None))
     \<and> (\<forall>l x. art_memory c (l, x) = (if l < L \<and> (\<exists>i < (if L - k \<le> l then Suc m else m). climb (L - l) (ivs ! i) = (x, x)) then Some True else None))"

lemma signals_within_0: "signals_within L ivs m 0 c = signals_at L ivs m c"
  unfolding signals_within_def signals_at_def by (simp cong: if_cong conj_cong)

lemma signals_within_L: "signals_within L ivs m L c = signals_at L ivs (Suc m) c"
  unfolding signals_within_def signals_at_def by simp

lemma signals_level:
  assumes p: "plan_ok (2 ^ L) ivs" "m < length ivs" and k: "k < L" and c: "signals_within L ivs m k c"
    and a: "level_after (L - Suc k) (lo k (ivs ! m)) (hi k (ivs ! m)) c c'"
  shows "signals_within L ivs m (Suc k) c'"
  unfolding signals_within_def
proof (intro conjI allI)
  let ?l = "L - Suc k"
  have lL: "?l < L" "L - Suc ?l = k" "\<not> L - k \<le> ?l" "L - ?l = Suc k" using k by auto
  have le: "L - Suc k \<le> l \<longleftrightarrow> l = ?l \<or> L - k \<le> l" for l using k by auto
  fix l x
  show "art_switch c' (l, x) = (if l < L then fst (entry ivs (if L - Suc k \<le> l then Suc m else m) (L - Suc l) x) else None)"
  proof (cases "l = ?l")
    case True
    then show ?thesis using a c lL by (simp add: level_after_def signals_within_def entry_Suc role_step_def split: prod.splits)
  next
    case False
    then show ?thesis using a c le [of l] by (simp add: level_after_def signals_within_def)
  qed
  show "art_fwlink c' (l, x) = (if l < L then snd (entry ivs (if L - Suc k \<le> l then Suc m else m) (L - Suc l) x) else None)"
  proof (cases "l = ?l")
    case True
    then show ?thesis using a c lL by (simp add: level_after_def signals_within_def entry_Suc role_step_def split: prod.splits)
  next
    case False
    then show ?thesis using a c le [of l] by (simp add: level_after_def signals_within_def)
  qed
  show "art_memory c' (l, x) = (if l < L \<and> (\<exists>i < (if L - Suc k \<le> l then Suc m else m). climb (L - l) (ivs ! i) = (x, x)) then Some True else None)"
  proof (cases "l = ?l")
    case True
    have "art_memory c' (?l, x) = (if climb (Suc k) (ivs ! m) = (x, x) then Some True else art_memory c (?l, x))"
      using a by (auto simp: level_after_def)
    also have "\<dots> = (if \<exists>i < Suc m. climb (Suc k) (ivs ! i) = (x, x) then Some True else None)"
      using c lL by (auto simp: signals_within_def less_Suc_eq)
    finally show ?thesis using True lL le by (simp del: climb.simps)
  next
    case False
    then show ?thesis using a c le [of l] by (simp add: level_after_def signals_within_def)
  qed
qed (use a c in \<open>simp_all add: level_after_def signals_within_def\<close>)

lemma signals_vn:
  assumes p: "plan_ok (2 ^ L) ivs" "m < length ivs" and c: "signals_at L ivs m c"
  shows "\<exists>c'. art_vn (2 ^ L) (fst (ivs ! m), Suc (snd (ivs ! m)) - fst (ivs ! m)) c = Inr c' \<and> signals_at L ivs (Suc m) c'"
proof -
  let ?n = "2 ^ L :: nat" and ?iv = "ivs ! m"
  have iv: "fst ?iv \<le> snd ?iv" "snd ?iv < ?n" using p by (simp_all add: plan_ok_def)
  have "\<exists>s. rfold (art_level ?n) (rev [0..<L]) (c, bits ?n (fst ?iv) (snd ?iv), replicate ?n False) = Inr s
     \<and> (case s of (c', v, p) \<Rightarrow> signals_within L ivs m (length [0..<L]) c' \<and> v = bits ?n (lo (length [0..<L]) ?iv) (hi (length [0..<L]) ?iv) \<and> p = replicate ?n False)"
  proof (rule rfold_total_rev [where I = "\<lambda>k s. case s of (c', v, p) \<Rightarrow> signals_within L ivs m k c' \<and> v = bits ?n (lo k ?iv) (hi k ?iv) \<and> p = replicate ?n False"])
    show "case (c, bits ?n (fst ?iv) (snd ?iv), replicate ?n False) of (c', v, p) \<Rightarrow> signals_within L ivs m 0 c' \<and> v = bits ?n (lo 0 ?iv) (hi 0 ?iv) \<and> p = replicate ?n False"
      using c by (simp add: signals_within_0)
  next
    fix k s assume k: "k < length [0..<L]" and s: "case s of (c', v, p) \<Rightarrow> signals_within L ivs m k c' \<and> v = bits ?n (lo k ?iv) (hi k ?iv) \<and> p = replicate ?n False"
    then obtain c1 where s': "s = (c1, bits ?n (lo k ?iv) (hi k ?iv), replicate ?n False)" and c1: "signals_within L ivs m k c1" by (cases s) auto
    let ?l = "L - Suc k"
    have kL: "k < L" "Suc ?l = L - k" "\<not> L - k \<le> ?l" "?l < L" "L - Suc ?l = k" using k by auto
    have b: "lo k ?iv \<le> hi k ?iv" "hi k ?iv < 2 ^ (?l + 1)" "2 ^ (?l + 1) \<le> ?n"
      using climb_le [OF iv(1)] climb_bound [OF iv(2), of k] kL by (simp_all del: power_Suc)
    have free: "level_free ?l (lo k ?iv) (hi k ?iv) c1"
      by (rule plan_free [OF p kL(1)]) (use c1 kL in \<open>simp_all add: signals_within_def\<close>)
    obtain c2 where c2: "art_level ?n ?l s = Inr (c2, bits ?n (lo (Suc k) ?iv) (hi (Suc k) ?iv), replicate ?n False)"
      "level_after ?l (lo k ?iv) (hi k ?iv) c1 c2"
      using art_level_after [OF _ b free] c1 unfolding s' by (auto simp: signals_within_def)
    have "signals_within L ivs m (Suc k) c2" by (rule signals_level [OF p kL(1) c1 c2(2)])
    then show "\<exists>s'. art_level ?n ([0..<L] ! (length [0..<L] - Suc k)) s = Inr s'
       \<and> (case s' of (c', v, p) \<Rightarrow> signals_within L ivs m (Suc k) c' \<and> v = bits ?n (lo (Suc k) ?iv) (hi (Suc k) ?iv) \<and> p = replicate ?n False)"
      using c2(1) kL by simp
  qed
  then obtain c' v p where "rfold (art_level ?n) (rev [0..<L]) (c, bits ?n (fst ?iv) (snd ?iv), replicate ?n False) = Inr (c', v, p)"
    "signals_within L ivs m L c'" by auto
  then show ?thesis using art_set_bits_eq [OF iv] by (simp add: art_vn_def signals_within_L nlevels_of_power)
qed

lemma signals_all:
  assumes p: "plan_ok (2 ^ L) ivs"
  shows "\<exists>c. rfold (art_vn (2 ^ L)) (map (\<lambda>(a, b). (a, Suc b - a)) ivs) CompilerART_new = Inr c \<and> signals_at L ivs (length ivs) c"
proof -
  have new: "signals_at L ivs 0 CompilerART_new"
    by (simp add: signals_at_def entry_def roles_def CompilerART_new_def art_switch_def art_fwlink_def art_childs_def art_memory_def art_ok_def)
  show ?thesis
    using rfold_total [of "signals_at L ivs" CompilerART_new "map (\<lambda>(a, b). (a, Suc b - a)) ivs" "art_vn (2 ^ L)", OF new]
      signals_vn [OF p] by (auto simp: case_prod_beta)
qed

end
