(* ===== verification/ASNetwork.thy ===== *)
theory ASNetwork
  imports CompilerART Accum DistNet
begin

text \<open>
  The augmented reduction tree, \<^verbatim>\<open>ASNetwork.cpp\<close>: a binary tree of adder switches with forwarding
  links between neighbours of a level that do not share a parent, every switch with a connection to
  the bus (or to an accumulator before it).
\<close>

section \<open>State\<close>

text \<open>Pointers to switches are their positions \<open>(level, number)\<close> in the table.\<close>

record 'd ASNetwork =
  an_cfg :: Config
  an_ms_size :: nat
  an_port_width :: nat
  an_nlevels :: nat
  an_accumulation_buffer_enabled :: nat
  an_outputConnection :: "cid option"
  an_aswitchtable :: "nat \<times> nat \<Rightarrow> 'd ASwitch option"
  an_inputconnectiontable :: "nat \<times> nat \<Rightarrow> cid option"
  an_forwardingconnectiontable :: "nat \<times> nat \<Rightarrow> cid option"
  an_single_switches :: "(nat \<times> nat) list"
  an_double_switches :: "(nat \<times> nat) list"
  an_accumulationBuffer :: "'d AccumulationBuffer option"
  an_accumulationbufferconnectiontable :: "cid list"

definition upd_as :: "nat \<times> nat \<Rightarrow> ('d ASwitch \<Rightarrow> 'd ASwitch res) \<Rightarrow> 'd ASNetwork \<Rightarrow> 'd ASNetwork res" where
  "upd_as ij f an =
     rderef (an_aswitchtable an ij) (\<lambda>w. rbind (f w) (\<lambda>w.
     Inr (an\<lparr>an_aswitchtable := (an_aswitchtable an)(ij \<mapsto> w)\<rparr>)))"

section \<open>Construction\<close>

text \<open>
  The connection of a new switch to the level above, and, for an even switch, the forwarding link to
  its left neighbour.
\<close>

definition ASNetwork_connect ::
  "nat \<times> nat \<Rightarrow> 'd ASNetwork \<times> 'd store \<Rightarrow> ('d ASNetwork \<times> 'd store) res" where
  "ASNetwork_connect = (\<lambda>(i, j) (an, st).
     if i = 0 then
       rbind (upd_as (i, j) (Inr \<circ> ASwitch_setOutputConnection (an_outputConnection an)) an) (\<lambda>an.
       Inr (an\<lparr>an_single_switches := an_single_switches an @ [(i, j)]\<rparr>, st))
     else
       rbind (upd_as (i, j) (Inr \<circ> ASwitch_setOutputConnection (an_inputconnectiontable an (i - 1, j))) an) (\<lambda>an.
       if 0 < j \<and> j mod 2 = 0 then
         rbind (upd_as (i, j) (Inr \<circ> ASwitch_setForwardingConnection (Some (RnFw i j))) an) (\<lambda>an.
         rbind (upd_as (i, j - 1) (Inr \<circ> ASwitch_setForwardingConnection (Some (RnFw i j))) an) (\<lambda>an.
         Inr (an\<lparr>an_forwardingconnectiontable := (an_forwardingconnectiontable an)((i, j) \<mapsto> RnFw i j),
                 an_double_switches := an_double_switches an @ [(i, j - 1), (i, j)]\<rparr>,
              st(RnFw i j := Connection_new (an_port_width an)))))
       else if j = 0 \<or> j = 2 ^ i - 1 then
         Inr (an\<lparr>an_single_switches := an_single_switches an @ [(i, j)]\<rparr>, st)
       else Inr (an, st)))"

definition ASNetwork_add_switch ::
  "nat \<times> nat \<Rightarrow> 'd ASNetwork \<times> 'd store \<Rightarrow> ('d ASNetwork \<times> 'd store) res" where
  "ASNetwork_add_switch = (\<lambda>(i, j) (an, st).
     rbind (ASNetwork_connect (i, j)
       (an\<lparr>an_aswitchtable := (an_aswitchtable an)((i, j) \<mapsto> ASwitch_new i j (an_cfg an))\<rparr>, st)) (\<lambda>(an, st).
     let l = RnLink i (2 * j); r = RnLink i (2 * j + 1) in
     rbind (upd_as (i, j) (Inr \<circ> ASwitch_setInputRightConnection (Some r) \<circ> ASwitch_setInputLeftConnection (Some l)) an) (\<lambda>an.
     Inr (an\<lparr>an_inputconnectiontable := (an_inputconnectiontable an)((i, 2 * j) \<mapsto> l, (i, 2 * j + 1) \<mapsto> r)\<rparr>,
          st(l := Connection_new (an_port_width an), r := Connection_new (an_port_width an))))))"

definition ASNetwork_new ::
  "Config \<Rightarrow> cid option \<Rightarrow> 'd store \<Rightarrow> ('d ASNetwork \<times> 'd store) res" where
  "ASNetwork_new cfg outputConnection st =
     (let n = msn_ms_size (m_MSNetworkCfg cfg) in
      rassert (ispowerof2 n)
      (rfold ASNetwork_add_switch (tree_positions (nlevels_of n))
        (\<lparr>an_cfg = cfg, an_ms_size = n, an_port_width = asc_port_width (m_ASwitchCfg cfg), an_nlevels = nlevels_of n,
          an_accumulation_buffer_enabled = asn_accumulation_buffer_enabled (m_ASNetworkCfg cfg),
          an_outputConnection = outputConnection, an_aswitchtable = Map.empty,
          an_inputconnectiontable = Map.empty, an_forwardingconnectiontable = Map.empty,
          an_single_switches = [], an_double_switches = [], an_accumulationBuffer = None,
          an_accumulationbufferconnectiontable = []\<rparr>, st)))"

section \<open>The connections to the bus\<close>

text \<open>
  One switch gets its connection to memory: the input of the bus line itself, or a fresh link to an
  accumulator that is connected to the bus later (\<open>accs\<close>).
\<close>

definition ASNetwork_attach ::
  "nat \<times> nat \<Rightarrow> cid \<Rightarrow> nat \<Rightarrow> nat \<Rightarrow> 'd ASNetwork \<times> cid list \<times> 'd store \<Rightarrow> ('d ASNetwork \<times> cid list \<times> 'd store) res" where
  "ASNetwork_attach ij mem_conn busID inputID = (\<lambda>(an, accs, st).
     if an_accumulation_buffer_enabled an = 0 then
       rbind (upd_as ij (Inr \<circ> ASwitch_setMemoryConnection (Some mem_conn) busID inputID) an) (\<lambda>an.
       Inr (an, accs, st))
     else
       let c = AccLink (length (an_accumulationbufferconnectiontable an)) in
       rbind (upd_as ij (Inr \<circ> ASwitch_setMemoryConnection (Some c) busID inputID) an) (\<lambda>an.
       Inr (an\<lparr>an_accumulationbufferconnectiontable := an_accumulationbufferconnectiontable an @ [c]\<rparr>,
            accs @ [mem_conn], st(c := Connection_new (an_port_width an)))))"

definition ASNetwork_attach_double ::
  "cid list list \<Rightarrow> nat \<Rightarrow> 'd ASNetwork \<times> cid list \<times> 'd store \<Rightarrow> ('d ASNetwork \<times> cid list \<times> 'd store) res" where
  "ASNetwork_attach_double memoryConnections k = (\<lambda>(an, accs, st).
     rbind (rdiv k (length memoryConnections)) (\<lambda>q.
     let inputID = 2 * q; busID = k mod length memoryConnections in
     rassert (busID < length memoryConnections)
     (rbind (rnth memoryConnections busID) (\<lambda>line.
      rassert (inputID + 1 < length line)
      (rbind (rnth (an_double_switches an) (2 * k)) (\<lambda>as_first.
       rbind (rnth (an_double_switches an) (2 * k + 1)) (\<lambda>as_second.
       rbind (ASNetwork_attach as_first (line ! inputID) busID inputID (an, accs, st))
             (ASNetwork_attach as_second (line ! (inputID + 1)) busID (inputID + 1)))))))))"

definition ASNetwork_attach_single ::
  "cid list list \<Rightarrow> nat \<Rightarrow> 'd ASNetwork \<times> cid list \<times> 'd store \<Rightarrow> ('d ASNetwork \<times> cid list \<times> 'd store) res" where
  "ASNetwork_attach_single memoryConnections i = (\<lambda>(an, accs, st).
     rbind (rdiv (length (an_double_switches an)) (length memoryConnections)) (\<lambda>d.
     let inputID = d + 1 + i div length memoryConnections;
         busID = (i + length (an_double_switches an)) mod length memoryConnections in
     rbind (rnth (an_single_switches an) i) (\<lambda>as.
     rbind (rnth memoryConnections busID) (\<lambda>line.
     rbind (rnth line inputID) (\<lambda>mem_conn.
     ASNetwork_attach as mem_conn busID inputID (an, accs, st))))))"

definition ASNetwork_setMemoryConnections ::
  "cid list list \<Rightarrow> 'd ASNetwork \<Rightarrow> 'd store \<Rightarrow> ('d ASNetwork \<times> 'd store) res" where
  "ASNetwork_setMemoryConnections memoryConnections an st =
     (let n_switches = length (tree_positions (an_nlevels an));
          an = (if 0 < an_accumulation_buffer_enabled an
                then an\<lparr>an_accumulationBuffer := Some (AccumulationBuffer_new (an_cfg an) n_switches)\<rparr> else an) in
      rbind (rfold (ASNetwork_attach_double memoryConnections) [0..<length (an_double_switches an) div 2] (an, [], st)) (\<lambda>s.
      rbind (rfold (ASNetwork_attach_single memoryConnections) [0..<length (an_single_switches an)] s) (\<lambda>(an, accs, st).
      if 0 < an_accumulation_buffer_enabled an then
        rderef (an_accumulationBuffer an) (\<lambda>ab.
        rbind (AccumulationBuffer_setInputConnections (an_accumulationbufferconnectiontable an) ab) (\<lambda>ab.
        rbind (AccumulationBuffer_setMemoryConnections accs ab) (\<lambda>ab.
        Inr (an\<lparr>an_accumulationBuffer := Some ab\<rparr>, st))))
      else Inr (an, st))))"

definition ASNetwork_getLastLevelConnections :: "'d ASNetwork \<Rightarrow> (nat \<times> cid option) list" where
  "ASNetwork_getLastLevelConnections an =
     map (\<lambda>i. (i, if an_nlevels an = 0 then None else an_inputconnectiontable an (an_nlevels an - 1, i))) [0..<an_ms_size an]"

section \<open>Configuration\<close>

definition ASNetwork_addersConfiguration :: "((nat \<times> nat) \<times> adderconfig_t) list \<Rightarrow> 'd ASNetwork \<Rightarrow> 'd ASNetwork res" where
  "ASNetwork_addersConfiguration = rfold (\<lambda>(ij, conf). upd_as ij (Inr \<circ> ASwitch_setConfigurationMode conf))"

definition ASNetwork_forwardingConfiguration :: "((nat \<times> nat) \<times> fl_t) list \<Rightarrow> 'd ASNetwork \<Rightarrow> 'd ASNetwork res" where
  "ASNetwork_forwardingConfiguration = rfold (\<lambda>(ij, fl). upd_as ij (ASwitch_setForwardingLinkDirection fl))"

definition ASNetwork_childsLinksConfiguration ::
  "((nat \<times> nat) \<times> bool \<times> bool) list \<Rightarrow> 'd ASNetwork \<Rightarrow> 'd ASNetwork res" where
  "ASNetwork_childsLinksConfiguration = rfold (\<lambda>(ij, l, r). upd_as ij (Inr \<circ> ASwitch_setChildsEnabled l r))"

definition ASNetwork_forwardingToMemoryConfiguration ::
  "((nat \<times> nat) \<times> bool) list \<Rightarrow> 'd ASNetwork \<Rightarrow> 'd ASNetwork res" where
  "ASNetwork_forwardingToMemoryConfiguration = rfold (\<lambda>(ij, b). upd_as ij (Inr \<circ> ASwitch_setForwardingToMemoryEnabled b))"

definition ASNetwork_configure :: "CompilerART \<Rightarrow> 'd ASNetwork \<Rightarrow> 'd ASNetwork res" where
  "ASNetwork_configure c an =
     rbind (ASNetwork_addersConfiguration (art_switches_configuration c) an) (\<lambda>an.
     rbind (ASNetwork_forwardingConfiguration (art_fwlinks_configuration c) an) (\<lambda>an.
     rbind (ASNetwork_childsLinksConfiguration (art_childs_enabled c) an) (\<lambda>an.
     ASNetwork_forwardingToMemoryConfiguration (art_forwarding_to_memory_enabled c) an)))"

definition ASNetwork_configureSignals :: "Tile \<Rightarrow> DNNLayer \<Rightarrow> nat \<Rightarrow> nat \<Rightarrow> 'd ASNetwork \<Rightarrow> 'd ASNetwork res" where
  "ASNetwork_configureSignals tile layer ms_size n_folding an =
     rbind (CompilerART_configureSignals tile ms_size CompilerART_new) (\<lambda>c.
     rbind (ASNetwork_configure c an) (\<lambda>an.
     if 0 < an_accumulation_buffer_enabled an then
       rderef (an_accumulationBuffer an) (\<lambda>ab.
       Inr (an\<lparr>an_accumulationBuffer := Some (AccumulationBuffer_configureSignals tile layer ms_size n_folding ab)\<rparr>))
     else Inr an))"

definition ASNetwork_configureSparseSignals :: "SparseVN list \<Rightarrow> nat \<Rightarrow> 'd ASNetwork \<Rightarrow> 'd ASNetwork res" where
  "ASNetwork_configureSparseSignals vns ms_size an =
     rbind (CompilerART_configureSparseSignals vns ms_size CompilerART_new) (\<lambda>c. ASNetwork_configure c an)"

definition ASNetwork_resetSignals :: "'d ASNetwork \<Rightarrow> 'd ASNetwork res" where
  "ASNetwork_resetSignals an =
     rbind (rfold (\<lambda>ij. upd_as ij ASwitch_resetSignals) (tree_positions (an_nlevels an)) an) (\<lambda>an.
     if 0 < an_accumulation_buffer_enabled an then
       rderef (an_accumulationBuffer an) (\<lambda>ab.
       Inr (an\<lparr>an_accumulationBuffer := Some (AccumulationBuffer_resetSignals ab)\<rparr>))
     else Inr an)"

section \<open>The cycle\<close>

definition ASNetwork_cycle_switch ::
  "nat \<times> nat \<Rightarrow> 'd::{plus,ord} ASNetwork \<times> 'd store \<Rightarrow> ('d ASNetwork \<times> 'd store) res" where
  "ASNetwork_cycle_switch ij = (\<lambda>(an, st).
     rderef (an_aswitchtable an ij) (\<lambda>w.
     rbind (ASwitch_cycle w st) (\<lambda>(w, st).
     Inr (an\<lparr>an_aswitchtable := (an_aswitchtable an)(ij \<mapsto> w)\<rparr>, st))))"

text \<open>
  The switches of a level from left to right; of two that are connected by an enabled forwarding
  link, the receiver goes first.
\<close>

function ASNetwork_cycle_level ::
  "nat \<Rightarrow> nat \<Rightarrow> nat \<Rightarrow> 'd::{plus,ord} ASNetwork \<times> 'd store \<Rightarrow> ('d ASNetwork \<times> 'd store) res" where
  "ASNetwork_cycle_level i n j = (\<lambda>s.
     if j < n then
       rderef (an_aswitchtable (fst s) (i, j)) (\<lambda>as.
       if as_fw_enabled as then
         rbind (if as_fl_direction as = SEND
                then rbind (ASNetwork_cycle_switch (i, j + 1) s) (ASNetwork_cycle_switch (i, j))
                else rbind (ASNetwork_cycle_switch (i, j) s) (ASNetwork_cycle_switch (i, j + 1)))
               (ASNetwork_cycle_level i n (j + 2))
       else rbind (ASNetwork_cycle_switch (i, j) s) (ASNetwork_cycle_level i n (j + 1)))
     else Inr s)"
  by pat_completeness auto
termination
  by (relation "measure (\<lambda>(i, n, j). n - j)") auto

declare ASNetwork_cycle_level.simps [simp del]

definition ASNetwork_cycle :: "'d::{plus,ord} ASNetwork \<times> 'd store \<Rightarrow> ('d ASNetwork \<times> 'd store) res" where
  "ASNetwork_cycle = (\<lambda>(an, st).
     rbind (if 0 < an_accumulation_buffer_enabled an then
              rderef (an_accumulationBuffer an) (\<lambda>ab.
              rbind (AccumulationBuffer_cycle (ab, st)) (\<lambda>(ab, st).
              Inr (an\<lparr>an_accumulationBuffer := Some ab\<rparr>, st)))
            else Inr (an, st)) (\<lambda>s.
     rbind (ASNetwork_cycle_switch (0, 0) s)
       (rfold (\<lambda>i. ASNetwork_cycle_level i (2 ^ i) 0) [1..<an_nlevels an])))"

end
