(* ===== verification/ArtConfig.thy ===== *)
theory ArtConfig
  imports ArtPlan ASNetwork
begin

text \<open>
  What the switches of the tree are told: the children that send to them, the entry the compiler wrote
  for them, and the state in which \<open>configureSignals\<close> leaves the network.
\<close>

section \<open>Children\<close>

lemma put_childs_loop:
  assumes "art_ok c"
  shows "art_ok (fold (\<lambda>i. art_put_childs (l, i) (f i)) [0..<n] c)"
    "art_switch (fold (\<lambda>i. art_put_childs (l, i) (f i)) [0..<n] c) = art_switch c"
    "art_fwlink (fold (\<lambda>i. art_put_childs (l, i) (f i)) [0..<n] c) = art_fwlink c"
    "art_memory (fold (\<lambda>i. art_put_childs (l, i) (f i)) [0..<n] c) = art_memory c"
    "art_childs (fold (\<lambda>i. art_put_childs (l, i) (f i)) [0..<n] c) (l', i) = (if l' = l \<and> i < n then Some (f i) else art_childs c (l', i))"
proof -
  show ok: "art_ok (fold (\<lambda>i. art_put_childs (l, i) (f i)) [0..<n] c)" for n using assms by (induction n) auto
  show "art_switch (fold (\<lambda>i. art_put_childs (l, i) (f i)) [0..<n] c) = art_switch c"
    "art_fwlink (fold (\<lambda>i. art_put_childs (l, i) (f i)) [0..<n] c) = art_fwlink c"
    "art_memory (fold (\<lambda>i. art_put_childs (l, i) (f i)) [0..<n] c) = art_memory c" by (induction n) auto
  show "art_childs (fold (\<lambda>i. art_put_childs (l, i) (f i)) [0..<n] c) (l', i) = (if l' = l \<and> i < n then Some (f i) else art_childs c (l', i))"
    using ok by (induction n) auto
qed

lemma art_sends_up_cong: "art_switch c = art_switch c' \<Longrightarrow> art_fwlink c = art_fwlink c' \<Longrightarrow> art_sends_up c = art_sends_up c'"
  by (rule ext) (auto simp: art_sends_up_def split: option.split)

text \<open>A level above the leaves: the bodies of the loop read what the loop does not write.\<close>

lemma childs_level:
  assumes "art_ok c" and body_def: "body = (\<lambda>i c. art_put_childs (l, i) (art_sends_up c (l + 1, 2 * i), art_sends_up c (l + 1, 2 * i + 1)) c)"
  shows "fold body [0..<n] c = fold (\<lambda>i. art_put_childs (l, i) (art_sends_up c (l + 1, 2 * i), art_sends_up c (l + 1, 2 * i + 1))) [0..<n] c"
proof (induction n)
  case (Suc n)
  let ?c = "fold (\<lambda>i. art_put_childs (l, i) (art_sends_up c (l + 1, 2 * i), art_sends_up c (l + 1, 2 * i + 1))) [0..<n] c"
  have "art_sends_up ?c = art_sends_up c"
    by (intro art_sends_up_cong put_childs_loop [OF assms(1)])
  then show ?case using Suc by (simp add: body_def)
qed simp

definition childs_of :: "nat \<Rightarrow> nat \<Rightarrow> CompilerART \<Rightarrow> nat \<Rightarrow> nat \<Rightarrow> bool \<times> bool" where
  "childs_of L used c l i =
     (if l = L - 1 then (2 * i < used, 2 * i + 1 < used)
      else (art_sends_up c (l + 1, 2 * i), art_sends_up c (l + 1, 2 * i + 1)))"

lemma childs_levels:
  assumes "art_ok c" "m \<le> L - 1" and body_def: "body = (\<lambda>l. fold (\<lambda>i c. art_put_childs (l, i) (art_sends_up c (l + 1, 2 * i), art_sends_up c (l + 1, 2 * i + 1)) c) [0..<2 ^ l])"
  shows "let c' = fold body (rev [0..<m]) c in
    art_ok c' \<and> art_switch c' = art_switch c \<and> art_fwlink c' = art_fwlink c \<and> art_memory c' = art_memory c
    \<and> (\<forall>l i. art_childs c' (l, i) = (if l < m \<and> i < 2 ^ l then Some (childs_of L used c l i) else art_childs c (l, i)))"
  using assms(1,2)
proof (induction m arbitrary: c)
  case 0
  then show ?case by simp
next
  case (Suc m)
  let ?c = "body m c"
  have b: "?c = fold (\<lambda>i. art_put_childs (m, i) (art_sends_up c (m + 1, 2 * i), art_sends_up c (m + 1, 2 * i + 1))) [0..<2 ^ m] c"
    unfolding body_def by (rule childs_level [OF Suc.prems(1) refl])
  note l = put_childs_loop [OF Suc.prems(1), of m "\<lambda>i. (art_sends_up c (m + 1, 2 * i), art_sends_up c (m + 1, 2 * i + 1))" "2 ^ m", folded b]
  have ok: "art_ok ?c" "art_switch ?c = art_switch c" "art_fwlink ?c = art_fwlink c" by (simp_all only: l)
  have "childs_of L used ?c = childs_of L used c"
    using art_sends_up_cong [OF ok(2,3)] by (simp add: childs_of_def fun_eq_iff)
  then show ?case using Suc.IH [OF ok(1)] Suc.prems(2) l by (auto simp: Let_def childs_of_def less_Suc_eq)
qed

lemma art_enabling_links_results:
  assumes "art_ok c" "0 < L"
  shows "let c' = art_enabling_links (2 ^ L) used c in
    art_ok c' \<and> art_switch c' = art_switch c \<and> art_fwlink c' = art_fwlink c \<and> art_memory c' = art_memory c
    \<and> (\<forall>l i. art_childs c' (l, i) = (if l < L \<and> i < 2 ^ l then Some (childs_of L used c l i) else art_childs c (l, i)))"
proof -
  let ?c = "fold (\<lambda>i. art_put_childs (L - 1, i) (2 * i < used, 2 * i + 1 < used)) [0..<2 ^ L div 2] c"
  have half: "2 ^ L div 2 = (2 ^ (L - 1) :: nat)" using assms(2) by (cases L) simp_all
  note l = put_childs_loop [OF assms(1), of "L - 1" "\<lambda>i. (2 * i < used, 2 * i + 1 < used)" "2 ^ L div 2"]
  have ok: "art_ok ?c" "art_switch ?c = art_switch c" "art_fwlink ?c = art_fwlink c" by (simp_all only: l)
  have co: "childs_of L used ?c = childs_of L used c"
    using art_sends_up_cong [OF ok(2,3)] by (simp add: childs_of_def fun_eq_iff)
  have e: "art_enabling_links (2 ^ L) used c =
      fold (\<lambda>l. fold (\<lambda>i c. art_put_childs (l, i) (art_sends_up c (l + 1, 2 * i), art_sends_up c (l + 1, 2 * i + 1)) c) [0..<2 ^ l]) (rev [0..<L - 1]) ?c"
    by (simp add: art_enabling_links_def nlevels_of_power)
  note r = childs_levels [where m = "L - 1" and L = L and used = used, OF ok(1) order_refl refl, folded e, unfolded Let_def]
  show ?thesis unfolding Let_def
  proof (intro conjI allI)
    fix l i
    have "art_childs (art_enabling_links (2 ^ L) used c) (l, i) = (if l < L - 1 \<and> i < 2 ^ l then Some (childs_of L used c l i) else art_childs ?c (l, i))"
      using r co by simp
    also have "\<dots> = (if l < L \<and> i < 2 ^ l then Some (childs_of L used c l i) else art_childs c (l, i))"
      using l(5) [of l i] assms(2) half by (auto simp: childs_of_def simp del: One_nat_def)
    finally show "art_childs (art_enabling_links (2 ^ L) used c) (l, i) = (if l < L \<and> i < 2 ^ l then Some (childs_of L used c l i) else art_childs c (l, i))" .
  qed (use r l in simp_all)
qed

section \<open>The entry of a switch\<close>

lemma role_step_Idle [simp]: "role_step Idle s = s"
  by (cases s) (simp add: role_step_def role_switch_def role_fwlink_def)

lemma fold_idle: "\<forall>i \<in> set xs. f i = Idle \<Longrightarrow> fold role_step (map f xs) s = s"
  by (induction xs arbitrary: s) simp_all

lemma upt_split: "i < m \<Longrightarrow> [0..<m] = [0..<i] @ i # [Suc i..<m]"
  by (metis le_add1 less_imp_le upt_add_eq_append upt_conv_Cons add_0 le_add_diff_inverse)

abbreviation role_at :: "(nat \<times> nat) list \<Rightarrow> nat \<Rightarrow> nat \<Rightarrow> nat \<Rightarrow> role" where
  "role_at ivs k x i \<equiv> art_role (lo k (ivs ! i)) (hi k (ivs ! i)) x"

lemma entry_alone:
  assumes "i < m" "\<And>j. j < m \<Longrightarrow> j \<noteq> i \<Longrightarrow> role_at ivs k x j = Idle"
  shows "entry ivs m k x = role_step (role_at ivs k x i) (None, None)"
proof -
  have "fold role_step (map (role_at ivs k x) [0..<i]) s = s" "fold role_step (map (role_at ivs k x) [Suc i..<m]) s = s" for s
    by (rule fold_idle; use assms in auto)+
  then show ?thesis unfolding entry_def roles_def upt_split [OF assms(1)] by simp
qed

lemma entry_two:
  assumes "i < j" "j < m" "\<And>h. h < m \<Longrightarrow> h \<noteq> i \<Longrightarrow> h \<noteq> j \<Longrightarrow> role_at ivs k x h = Idle"
  shows "entry ivs m k x = role_step (role_at ivs k x j) (role_step (role_at ivs k x i) (None, None))"
proof -
  have "[0..<m] = [0..<i] @ i # [Suc i..<j] @ j # [Suc j..<m]"
    using upt_split [OF assms(2)] upt_split [OF assms(1)] by simp
  moreover have "fold role_step (map (role_at ivs k x) [0..<i]) s = s" "fold role_step (map (role_at ivs k x) [Suc i..<j]) s = s"
    "fold role_step (map (role_at ivs k x) [Suc j..<m]) s = s" for s
    by (rule fold_idle; use assms in auto)+
  ultimately show ?thesis unfolding entry_def roles_def by simp
qed

lemma entry_plain:
  assumes "\<And>i. i < m \<Longrightarrow> role_at ivs k x i \<in> {Idle, Plain}"
  shows "entry ivs m k x \<in> {(None, None), (Some ADD_2_1, None), (Some FW_2_2, None)}"
  using assms
proof (induction m)
  case 0
  then show ?case by (simp add: entry_def roles_def)
next
  case (Suc m)
  then have "entry ivs m k x \<in> {(None, None), (Some ADD_2_1, None), (Some FW_2_2, None)}" "role_at ivs k x m \<in> {Idle, Plain}" by simp_all
  then show ?case by (auto simp: entry_Suc role_step_def role_switch_def role_fwlink_def)
qed

section \<open>Plans with data\<close>

text \<open>
  A plan in which every virtual neuron has two or more multipliers and the multipliers below \<open>used\<close>
  are those of the virtual neurons. A virtual neuron is active at a level while it has more than one
  input there.
\<close>

definition flow_ok :: "nat \<Rightarrow> (nat \<times> nat) list \<Rightarrow> nat \<Rightarrow> bool" where
  "flow_ok n ivs used \<longleftrightarrow> plan_ok n ivs \<and> (\<forall>i < length ivs. fst (ivs ! i) < snd (ivs ! i))
     \<and> (\<forall>s. s < used \<longleftrightarrow> (\<exists>i < length ivs. fst (ivs ! i) \<le> s \<and> s \<le> snd (ivs ! i)))"

definition active :: "(nat \<times> nat) list \<Rightarrow> nat \<Rightarrow> nat \<Rightarrow> bool" where
  "active ivs k i \<longleftrightarrow> i < length ivs \<and> lo k (ivs ! i) < hi k (ivs ! i)"

lemma active_down: "active ivs (Suc k) i \<Longrightarrow> active ivs k i"
proof -
  assume a: "active ivs (Suc k) i"
  show ?thesis
  proof (rule ccontr)
    assume "\<not> ?thesis"
    then have "hi k (ivs ! i) \<le> lo k (ivs ! i)" using a by (auto simp: active_def)
    then have "hi k (ivs ! i) div 2 \<le> lo k (ivs ! i) div 2" by (rule div_le_mono)
    then show False using a up_between [of "lo k (ivs ! i)" "hi k (ivs ! i)"] by (simp add: active_def)
  qed
qed

lemma active_0: "flow_ok n ivs used \<Longrightarrow> i < length ivs \<Longrightarrow> active ivs 0 i"
  by (simp add: flow_ok_def active_def)

text \<open>Who else touches a switch of an active virtual neuron.\<close>

lemma active_alone:
  assumes p: "plan_ok n ivs" and i: "active ivs k i" "role_at ivs k x i \<noteq> Idle" and j: "j < length ivs" "role_at ivs k x j \<noteq> Idle" "j \<noteq> i"
  shows "k = 0" "i < j \<Longrightarrow> snd (ivs ! i) = 2 * x \<and> fst (ivs ! j) = 2 * x + 1 \<and> role_at ivs 0 x i = (if even x then Sender else Plain)
      \<and> role_at ivs 0 x j = (if even x then Plain else Sender)"
    "j < i \<Longrightarrow> snd (ivs ! j) = 2 * x \<and> fst (ivs ! i) = 2 * x + 1 \<and> role_at ivs 0 x j = (if even x then Sender else Plain)
      \<and> role_at ivs 0 x i = (if even x then Plain else Sender)"
proof -
  have ns: "lo k (ivs ! i) \<noteq> hi k (ivs ! i)" and il: "i < length ivs" using i(1) by (simp_all add: active_def)
  show "k = 0" using plan_shared(1) [OF p, of i j k x] plan_shared(1) [OF p, of j i k x] i j ns il by (cases "i < j") auto
  show "snd (ivs ! i) = 2 * x \<and> fst (ivs ! j) = 2 * x + 1 \<and> role_at ivs 0 x i = (if even x then Sender else Plain)
      \<and> role_at ivs 0 x j = (if even x then Plain else Sender)" if "i < j"
    using plan_shared [OF p that j(1) i(2) j(2)] ns by simp
  show "snd (ivs ! j) = 2 * x \<and> fst (ivs ! i) = 2 * x + 1 \<and> role_at ivs 0 x j = (if even x then Sender else Plain)
      \<and> role_at ivs 0 x i = (if even x then Plain else Sender)" if "j < i"
    using plan_shared [OF p that il j(2) i(2)] ns by simp
qed

text \<open>The mode and the link of a switch, by what its virtual neurons do there.\<close>

lemma entry_receiver:
  assumes p: "plan_ok n ivs" and i: "active ivs k i" "role_at ivs k x i = Receiver"
  shows "entry ivs (length ivs) k x = (Some ADD_3_1, Some RECEIVE)"
proof -
  have "role_at ivs k x j = Idle" if "j < length ivs" "j \<noteq> i" for j
  proof (rule ccontr)
    assume j: "role_at ivs k x j \<noteq> Idle"
    have "role_at ivs k x i \<noteq> Idle" using i(2) by simp
    note s = active_alone [OF p i(1) this that(1) j that(2)]
    show False using s i(2) that(2) by (cases "i < j") (auto split: if_splits)
  qed
  then show ?thesis using entry_alone [where i = i and m = "length ivs" and ivs = ivs and k = k and x = x] i by (simp add: active_def role_step_def role_switch_def role_fwlink_def)
qed

lemma entry_shared:
  assumes p: "plan_ok n ivs" and i: "active ivs 0 i" "role_at ivs 0 x i \<noteq> Idle" and j: "j < length ivs" "role_at ivs 0 x j \<noteq> Idle" "i < j"
  shows "entry ivs (length ivs) 0 x = (Some ADD_1_1_PLUS_FW_1_1, Some SEND)"
proof -
  have s: "snd (ivs ! i) = 2 * x" "fst (ivs ! j) = 2 * x + 1" "role_at ivs 0 x i = (if even x then Sender else Plain)"
    "role_at ivs 0 x j = (if even x then Plain else Sender)" using active_alone(2) [OF p i j(1,2)] j(3) by auto
  have "role_at ivs 0 x h = Idle" if hl: "h < length ivs" "h \<noteq> i" "h \<noteq> j" for h
  proof (rule ccontr)
    assume h: "role_at ivs 0 x h \<noteq> Idle"
    consider "h < i" | "i < h" using hl(2) by linarith
    then show False
    proof cases
      case 1
      have "fst (ivs ! i) = 2 * x + 1" using active_alone(3) [OF p i hl(1) h hl(2)] 1 by auto
      then show False using s(1) i(1) by (simp add: active_def)
    next
      case 2
      then have "fst (ivs ! h) = 2 * x + 1" using active_alone(2) [OF p i hl(1) h hl(2)] by auto
      moreover have "snd (ivs ! h) < fst (ivs ! j) \<or> snd (ivs ! j) < fst (ivs ! h)" "fst (ivs ! h) \<le> snd (ivs ! h)" "fst (ivs ! j) \<le> snd (ivs ! j)"
        using p hl j by (auto simp: plan_ok_def linorder_neq_iff)
      ultimately show False using s(2) by auto
    qed
  qed
  then show ?thesis using entry_two [OF j(3,1), where ivs = ivs and k = 0 and x = x] s by (auto simp: role_step_def role_switch_def role_fwlink_def)
qed

lemma entry_exclusive:
  assumes "i < length ivs" "\<And>j. j < length ivs \<Longrightarrow> j \<noteq> i \<Longrightarrow> role_at ivs k x j = Idle"
  shows "role_at ivs k x i = Plain \<Longrightarrow> entry ivs (length ivs) k x = (Some ADD_2_1, None)"
    "role_at ivs k x i = Sender \<Longrightarrow> entry ivs (length ivs) k x = (Some ADD_2_1, Some SEND)"
  using entry_alone [OF assms] by (simp_all add: role_step_def role_switch_def role_fwlink_def)

text \<open>A switch that no active virtual neuron touches adds or passes on, without a link.\<close>

lemma entry_inactive:
  assumes "\<And>i. active ivs k i \<Longrightarrow> role_at ivs k x i = Idle"
  shows "entry ivs (length ivs) k x \<in> {(None, None), (Some ADD_2_1, None), (Some FW_2_2, None)}"
proof (rule entry_plain)
  fix i assume i: "i < length ivs"
  show "role_at ivs k x i \<in> {Idle, Plain}"
  proof (cases "active ivs k i")
    case False
    then have "hi k (ivs ! i) div 2 \<le> lo k (ivs ! i) div 2" using i by (auto simp: active_def intro: div_le_mono)
    then show ?thesis by (auto simp: art_role_def cut_left_def cut_right_def)
  qed (use assms in simp)
qed

text \<open>The child at the far end of an input of an active virtual neuron sends up.\<close>

lemma entry_sends_up:
  assumes p: "plan_ok n ivs" and i: "active ivs (Suc k) i" and x: "lo (Suc k) (ivs ! i) \<le> x" "x \<le> hi (Suc k) (ivs ! i)"
  shows "entry ivs (length ivs) k x \<in> {(Some ADD_3_1, Some RECEIVE), (Some ADD_1_1_PLUS_FW_1_1, Some SEND), (Some ADD_2_1, None)}"
proof -
  have a: "active ivs k i" by (rule active_down [OF i])
  have r: "role_at ivs k x i \<in> {Plain, Receiver}"
    using x by (auto simp: up_left_def up_right_def art_role_def cut_right_def split: if_splits)
  show ?thesis
  proof (cases "role_at ivs k x i = Receiver")
    case True
    then show ?thesis using entry_receiver [OF p a] by simp
  next
    case False
    then have pl: "role_at ivs k x i = Plain" using r by blast
    show ?thesis
    proof (cases "\<exists>j < length ivs. j \<noteq> i \<and> role_at ivs k x j \<noteq> Idle")
      case True
      then obtain j where j: "j < length ivs" "j \<noteq> i" "role_at ivs k x j \<noteq> Idle" by blast
      have k: "k = 0" using active_alone(1) [OF p a _ j(1,3,2)] pl by simp
      have ij: "active ivs 0 i" using a k by simp
      consider "i < j" | "j < i" using j(2) by linarith
      then show ?thesis
      proof cases
        case 1
        then show ?thesis using entry_shared [OF p ij _ j(1)] pl j(3) k by simp
      next
        case 2
        have il: "i < length ivs" "role_at ivs k x i \<noteq> Idle" "lo k (ivs ! i) \<noteq> hi k (ivs ! i)" using pl a by (simp_all add: active_def)
        have "fst (ivs ! j) + 2 \<le> snd (ivs ! j)" using plan_shared(4) [OF p 2 il(1) j(3) il(2)] il(3) by blast
        then have "active ivs 0 j" using j(1) by (simp add: active_def)
        then show ?thesis using entry_shared [OF p _ _ _ _ 2, of x] pl j a k by (simp add: active_def)
      qed
    next
      case False
      then show ?thesis using entry_exclusive(1) [where i = i and ivs = ivs and k = k and x = x] pl i by (auto simp: active_def)
    qed
  qed
qed

section \<open>Virtual neurons side by side\<close>

primrec plan_from :: "nat \<Rightarrow> nat list \<Rightarrow> (nat \<times> nat) list" where
  "plan_from s [] = []"
| "plan_from s (z # zs) = (s, s + z - 1) # plan_from (s + z) zs"

text \<open>Sizes the tree adds up: all three or more, or all two.\<close>

definition sizes_ok :: "nat list \<Rightarrow> bool" where
  "sizes_ok zs \<longleftrightarrow> (\<forall>z \<in> set zs. 3 \<le> z) \<or> (\<forall>z \<in> set zs. z = 2)"

definition offset :: "nat list \<Rightarrow> nat \<Rightarrow> nat" where
  "offset zs i = sum_list (take i zs)"

lemma length_plan [simp]: "length (plan_from s zs) = length zs"
  by (induction zs arbitrary: s) simp_all

lemma offset_Suc: "i < length zs \<Longrightarrow> offset zs (Suc i) = offset zs i + zs ! i"
  by (simp add: offset_def take_Suc_conv_app_nth)

lemma offset_mono: "i \<le> j \<Longrightarrow> offset zs i \<le> offset zs j"
  unfolding offset_def by (metis le_add_diff_inverse take_add sum_list_append le_add1)

lemma offset_length [simp]: "offset zs (length zs) = sum_list zs"
  by (simp add: offset_def)

lemma nth_plan: "i < length zs \<Longrightarrow> plan_from s zs ! i = (s + offset zs i, s + offset zs i + zs ! i - 1)"
proof (induction zs arbitrary: s i)
  case (Cons z zs)
  then show ?case by (cases i) (simp_all add: offset_def add.assoc)
qed simp

lemma offset_two: "\<forall>z \<in> set zs. z = 2 \<Longrightarrow> i \<le> length zs \<Longrightarrow> offset zs i = 2 * i"
proof (induction i)
  case (Suc i)
  then have "zs ! i = 2" by simp
  then show ?case using Suc by (simp add: offset_Suc)
qed (simp add: offset_def)

lemma offset_cover: "s < sum_list zs \<Longrightarrow> \<exists>i < length zs. offset zs i \<le> s \<and> s < offset zs (Suc i)"
proof (induction zs rule: rev_induct)
  case (snoc z zs)
  show ?case
  proof (cases "s < sum_list zs")
    case True
    then obtain i where "i < length zs" "offset zs i \<le> s \<and> s < offset zs (Suc i)" using snoc by blast
    then show ?thesis by (intro exI [of _ i]) (simp add: offset_def)
  next
    case False
    then show ?thesis using snoc.prems by (intro exI [of _ "length zs"]) (simp add: offset_def)
  qed
qed simp

lemma plan_from_flow:
  assumes z: "sizes_ok zs" "sum_list zs \<le> n"
  shows "flow_ok n (plan_from 0 zs) (sum_list zs)"
proof -
  have two: "2 \<le> zs ! i" if "i < length zs" for i using z(1) nth_mem [OF that] unfolding sizes_ok_def by fastforce
  have iv: "plan_from 0 zs ! i = (offset zs i, offset zs i + zs ! i - 1)" if "i < length zs" for i
    using nth_plan [OF that, of 0] by simp
  have le: "offset zs i + zs ! i \<le> offset zs j" if "i < j" "j \<le> length zs" for i j
    using offset_mono [of "Suc i" j zs] offset_Suc [of i zs] that by simp
  have bound: "offset zs i + zs ! i \<le> n" if "i < length zs" for i using le [of i "length zs"] that z(2) by simp
  have adm: "admissible (offset zs i) (offset zs i + zs ! i - 1)" if "i < length zs" for i
  proof (cases "zs ! i = 2")
    case True
    then have "\<forall>z \<in> set zs. z = 2" using z(1) nth_mem [OF that] unfolding sizes_ok_def by fastforce
    then have "offset zs i = 2 * i" using offset_two [of zs i] that by simp
    then show ?thesis unfolding True by (simp add: admissible_def)
  next
    case False
    then show ?thesis using two [OF that] by (auto simp: admissible_def)
  qed
  have share: "offset zs i + 2 \<le> offset zs i + zs ! i - 1 \<and> offset zs j + 2 \<le> offset zs j + zs ! j - 1"
    if "i < j" "j < length zs" "(offset zs i + zs ! i - 1) div 2 = offset zs j div 2" for i j
  proof (cases "\<forall>z \<in> set zs. z = 2")
    case True
    then have "zs ! i = 2" "offset zs i = 2 * i" "offset zs j = 2 * j" using that offset_two by simp_all
    then show ?thesis using that(1,3) by simp
  next
    case False
    then have "\<forall>z \<in> set zs. 3 \<le> z" using z(1) by (auto simp: sizes_ok_def)
    then have "3 \<le> zs ! i" "3 \<le> zs ! j" using that by simp_all
    then show ?thesis by linarith
  qed
  have plan: "plan_ok n (plan_from 0 zs)"
    unfolding plan_ok_def
  proof (intro conjI allI impI)
    fix i assume "i < length (plan_from 0 zs)"
    then show "fst (plan_from 0 zs ! i) \<le> snd (plan_from 0 zs ! i)" "snd (plan_from 0 zs ! i) < n"
      "admissible (fst (plan_from 0 zs ! i)) (snd (plan_from 0 zs ! i))" using two [of i] bound [of i] adm [of i] by (auto simp: iv)
  next
    fix j i assume j: "j < length (plan_from 0 zs)" and i: "i < j"
    then show "snd (plan_from 0 zs ! i) < fst (plan_from 0 zs ! j)" using two [of i] le [of i j] by (simp add: iv)
    assume "snd (plan_from 0 zs ! i) div 2 = fst (plan_from 0 zs ! j) div 2"
    then show "fst (plan_from 0 zs ! i) + 2 \<le> snd (plan_from 0 zs ! i) \<and> fst (plan_from 0 zs ! j) + 2 \<le> snd (plan_from 0 zs ! j)
      \<or> fst (plan_from 0 zs ! i) = snd (plan_from 0 zs ! i) \<and> fst (plan_from 0 zs ! j) = snd (plan_from 0 zs ! j)"
      using share [OF i] j i by (simp add: iv)
  qed
  have cover: "s < sum_list zs \<longleftrightarrow> (\<exists>i < length zs. offset zs i \<le> s \<and> s \<le> offset zs i + zs ! i - 1)" for s
  proof
    assume "s < sum_list zs"
    then obtain i where "i < length zs" "offset zs i \<le> s" "s < offset zs (Suc i)" using offset_cover by blast
    then show "\<exists>i < length zs. offset zs i \<le> s \<and> s \<le> offset zs i + zs ! i - 1" using offset_Suc [of i zs] by (intro exI [of _ i]) auto
  next
    assume "\<exists>i < length zs. offset zs i \<le> s \<and> s \<le> offset zs i + zs ! i - 1"
    then obtain i where i: "i < length zs" "s \<le> offset zs i + zs ! i - 1" by blast
    then show "s < sum_list zs" using le [of i "length zs"] two [of i] by simp
  qed
  show ?thesis unfolding flow_ok_def
  proof (intro conjI allI)
    show "plan_ok n (plan_from 0 zs)" by (rule plan)
    show "\<And>i. i < length (plan_from 0 zs) \<longrightarrow> fst (plan_from 0 zs ! i) < snd (plan_from 0 zs ! i)"
    proof
      fix i assume "i < length (plan_from 0 zs)"
      then show "fst (plan_from 0 zs ! i) < snd (plan_from 0 zs ! i)" using two [of i] by (simp add: iv)
    qed
    show "\<And>s. (s < sum_list zs) = (\<exists>i < length (plan_from 0 zs). fst (plan_from 0 zs ! i) \<le> s \<and> s \<le> snd (plan_from 0 zs ! i))"
      using cover by (simp add: iv cong: conj_cong)
  qed
qed

section \<open>What the compiler returns\<close>

definition art_signals :: "nat \<Rightarrow> (nat \<times> nat) list \<Rightarrow> nat \<Rightarrow> CompilerART \<Rightarrow> bool" where
  "art_signals L ivs used c \<longleftrightarrow> art_ok c
     \<and> (\<forall>l x. art_switch c (l, x) = (if l < L then fst (entry ivs (length ivs) (L - Suc l) x) else None))
     \<and> (\<forall>l x. art_fwlink c (l, x) = (if l < L then snd (entry ivs (length ivs) (L - Suc l) x) else None))
     \<and> (\<forall>l x. art_memory c (l, x) = (if l < L \<and> (\<exists>i < length ivs. climb (L - l) (ivs ! i) = (x, x)) then Some True else None))
     \<and> (\<forall>l x. art_childs c (l, x) = (if l < L \<and> x < 2 ^ l then Some (childs_of L used c l x) else None))"

lemma art_signals_links:
  assumes s: "signals_at L ivs (length ivs) c" and L: "0 < L"
  shows "art_signals L ivs used (art_enabling_links (2 ^ L) used c)"
proof -
  have ok: "art_ok c" using s by (simp add: signals_at_def)
  note e = art_enabling_links_results [OF ok L, of used, unfolded Let_def]
  have "childs_of L used (art_enabling_links (2 ^ L) used c) = childs_of L used c"
    using e art_sends_up_cong [of "art_enabling_links (2 ^ L) used c" c] by (simp add: childs_of_def fun_eq_iff)
  then show ?thesis using e s by (simp add: art_signals_def signals_at_def)
qed

lemma art_vns_sparse:
  assumes "s + sum_list (map SparseVN_get_VN_Size vns) < u32_max" "\<forall>vn \<in> set vns. 0 < SparseVN_get_VN_Size vn"
  shows "rfold (\<lambda>vn (shift, c). rbind (art_vn n (shift, SparseVN_get_VN_Size vn) c) (\<lambda>c. Inr (uadd shift (SparseVN_get_VN_Size vn), c))) vns (s, c)
    = rbind (rfold (art_vn n) (map (\<lambda>(a, b). (a, Suc b - a)) (plan_from s (map SparseVN_get_VN_Size vns))) c)
        (\<lambda>c. Inr (s + sum_list (map SparseVN_get_VN_Size vns), c))"
  using assms
proof (induction vns arbitrary: s c)
  case (Cons vn vns)
  let ?z = "SparseVN_get_VN_Size vn"
  have u: "uadd s ?z = s + ?z" using Cons.prems(1) by (intro uadd_small) simp
  have z: "Suc (s + ?z - Suc 0) - s = ?z" using Cons.prems(2) by simp
  show ?case using Cons by (cases "art_vn n (s, ?z) c") (simp_all add: u z add.assoc)
qed simp

lemma sum_sizes:
  assumes "s + sum_list (map SparseVN_get_VN_Size vns) < u32_max"
  shows "fold (\<lambda>vn n. uadd n (SparseVN_get_VN_Size vn)) vns s = s + sum_list (map SparseVN_get_VN_Size vns)"
  using assms by (induction vns arbitrary: s) (simp_all add: uadd_small add.assoc)

lemma sparse_config:
  assumes L: "0 < L" "2 ^ L < u32_max" and z: "zs = map SparseVN_get_VN_Size vns" "sizes_ok zs" "sum_list zs \<le> 2 ^ L"
  shows "\<exists>c. CompilerART_configureSparseSignals vns (2 ^ L) CompilerART_new = Inr c \<and> art_signals L (plan_from 0 zs) (sum_list zs) c"
proof -
  have pos: "\<forall>vn \<in> set vns. 0 < SparseVN_get_VN_Size vn" using z(1,2) by (fastforce simp: sizes_ok_def)
  have sum: "0 + sum_list (map SparseVN_get_VN_Size vns) < u32_max" using z L(2) by simp
  obtain c where c: "rfold (art_vn (2 ^ L)) (map (\<lambda>(a, b). (a, Suc b - a)) (plan_from 0 zs)) CompilerART_new = Inr c"
    "signals_at L (plan_from 0 zs) (length (plan_from 0 zs)) c"
    using signals_all [of L "plan_from 0 zs"] plan_from_flow [OF z(2,3)] by (auto simp: flow_ok_def)
  show ?thesis
    using ispowerof2_iff [OF L(2)] art_vns_sparse [OF sum pos, of "2 ^ L" CompilerART_new] c art_signals_links [OF c(2) L(1), of "sum_list zs"] sum_sizes [OF sum]
    by (simp add: CompilerART_configureSparseSignals_def CompilerART_generate_art_signals_sparse_def CompilerART_generate_art_enabling_links_sparse_def z(1) [symmetric])
qed

lemma plan_replicate: "plan_from s (replicate n z) = map (\<lambda>i. (s + i * z, s + i * z + z - 1)) [0..<n]"
proof (induction n arbitrary: s)
  case (Suc n)
  show ?case unfolding upt_conv_Cons [OF zero_less_Suc] map_Suc_upt [symmetric] using Suc by (simp add: add.assoc)
qed simp

lemma dense_config:
  assumes L: "0 < L" "2 ^ L < u32_max" and z: "zs = replicate (Num_VNs tile) (VN_Size tile)" "2 \<le> VN_Size tile" "VN_Size tile * Num_VNs tile \<le> 2 ^ L"
  shows "\<exists>c. CompilerART_configureSignals tile (2 ^ L) CompilerART_new = Inr c \<and> art_signals L (plan_from 0 zs) (sum_list zs) c"
proof -
  have ok: "sizes_ok zs" "sum_list zs \<le> 2 ^ L" using z by (auto simp: sizes_ok_def sum_list_replicate mult.commute)
  obtain c where c: "rfold (art_vn (2 ^ L)) (map (\<lambda>(a, b). (a, Suc b - a)) (plan_from 0 zs)) CompilerART_new = Inr c"
    "signals_at L (plan_from 0 zs) (length (plan_from 0 zs)) c"
    using signals_all [of L "plan_from 0 zs"] plan_from_flow [OF ok] by (auto simp: flow_ok_def)
  have u: "umul (VN_Size tile) (Num_VNs tile) = VN_Size tile * Num_VNs tile" "umul (Num_VNs tile) (VN_Size tile) = sum_list zs"
    using z(3) L(2) by (simp_all add: umul_small z(1) sum_list_replicate mult.commute)
  have "umul i (VN_Size tile) = i * VN_Size tile" if "i < Num_VNs tile" for i
  proof (rule umul_small)
    have "i * VN_Size tile \<le> Num_VNs tile * VN_Size tile" using that by (intro mult_le_mono1) simp
    also have "\<dots> < u32_max" using z(3) L(2) by (simp add: mult.commute)
    finally show "i * VN_Size tile < u32_max" .
  qed
  then have "map (\<lambda>i. (umul i (VN_Size tile), VN_Size tile)) [0..<Num_VNs tile] = map (\<lambda>(a, b). (a, Suc b - a)) (plan_from 0 zs)"
    using z(2) by (simp add: z(1) plan_replicate)
  then show ?thesis
    using ispowerof2_iff [OF L(2)] c art_signals_links [OF c(2) L(1), of "sum_list zs"] u z(3)
    by (simp add: CompilerART_configureSignals_def CompilerART_generate_art_signals_def CompilerART_generate_art_enabling_links_def)
qed

end
