(* ===== verification/AdderCycle.thy ===== *)
theory AdderCycle
  imports ASwitch DistTree
begin

text \<open>
  One cycle of an adder switch, seen from its links: what it takes from its two children and from the
  forwarding link, what it keeps, and what it sends to its parent, to memory or to its neighbour.
\<close>

section \<open>The state between two cycles\<close>

text \<open>What a cycle leaves alone.\<close>

definition as_core :: "'d ASwitch \<Rightarrow> (nat \<times> nat \<times> adderconfig_t \<times> adderoperation_t \<times> bool \<times> bool \<times> bool \<times> bool \<times> fl_t)
    \<times> cid option \<times> cid option \<times> cid option \<times> cid option \<times> cid option" where
  "as_core w = ((as_level w, as_num_in_level w, as_config_mode w, as_operation_mode w, as_left_child_enabled w,
       as_right_child_enabled w, as_forward_to_memory w, as_fw_enabled w, as_fl_direction w),
     as_inputLeftConnection w, as_inputRightConnection w, as_outputConnection w, as_memoryConnection w, as_forwardingConnection w)"

text \<open>The packages in the input fifos, and in the output fifos between \<open>route\<close> and \<open>send\<close>.\<close>

definition as_has :: "'d ASwitch \<Rightarrow> 'd DataPackage list \<times> 'd DataPackage list \<times> 'd DataPackage list \<Rightarrow>
    'd DataPackage list \<times> 'd DataPackage list \<Rightarrow> 'd ASwitch \<Rightarrow> bool" where
  "as_has w0 ins outs w \<longleftrightarrow> as_core w = as_core w0
     \<and> ins = (f_fifo (as_input_psum_left_fifo w), f_fifo (as_input_psum_right_fifo w), f_fifo (as_input_fw_fifo w))
     \<and> outs = (f_fifo (as_output_psum_fifo w), f_fifo (as_output_fw_fifo w))"

text \<open>A switch with a forwarding link puts what it adds up there.\<close>

definition via :: "'d ASwitch \<Rightarrow> 'd DataPackage list \<Rightarrow> 'd DataPackage list \<times> 'd DataPackage list" where
  "via w ps = (if as_fw_enabled w then ([], ps) else (ps, []))"

text \<open>Where a partial sum goes.\<close>

definition as_target :: "'d ASwitch \<Rightarrow> cid option" where
  "as_target w = (if as_forward_to_memory w then as_memoryConnection w else as_outputConnection w)"

lemma as_core_eq: "as_core w = as_core v \<longleftrightarrow>
    as_level w = as_level v \<and> as_num_in_level w = as_num_in_level v \<and> as_config_mode w = as_config_mode v
    \<and> as_operation_mode w = as_operation_mode v \<and> as_left_child_enabled w = as_left_child_enabled v
    \<and> as_right_child_enabled w = as_right_child_enabled v \<and> as_forward_to_memory w = as_forward_to_memory v
    \<and> as_fw_enabled w = as_fw_enabled v \<and> as_fl_direction w = as_fl_direction v
    \<and> as_inputLeftConnection w = as_inputLeftConnection v \<and> as_inputRightConnection w = as_inputRightConnection v
    \<and> as_outputConnection w = as_outputConnection v \<and> as_memoryConnection w = as_memoryConnection v
    \<and> as_forwardingConnection w = as_forwardingConnection v"
  by (auto simp: as_core_def)

lemmas as_has_simps = as_has_def as_core_eq

section \<open>Receiving\<close>

lemma receive_childs_has:
  assumes w: "as_has w0 (ls, rs, fs) outs w" and c: "as_inputLeftConnection w0 = Some a" "as_inputRightConnection w0 = Some b" "a \<noteq> b"
    and l: "link st a xs" "link st b ys"
  shows "\<exists>w' st'. ASwitch_receive_childs w st = Inr (w', st') \<and> as_has w0 (ls @ xs, rs @ ys, fs) outs w'
     \<and> link st' a [] \<and> link st' b [] \<and> (\<forall>d. d \<noteq> a \<longrightarrow> d \<noteq> b \<longrightarrow> st' d = st d)"
  using assms link_flight [OF l(1)] link_flight [OF l(2)] link_pend [OF l(1)] link_pend [OF l(2)]
  by (cases "pend st a"; cases "pend st b") (auto simp: ASwitch_receive_childs_def as_has_simps)

lemma receive_fwlink_has:
  assumes w: "as_has w0 (ls, rs, fs) outs w" and c: "as_fw_enabled w0" "as_fl_direction w0 = RECEIVE" "as_forwardingConnection w0 = Some f"
    and l: "link st f zs" "length zs \<le> 1"
  shows "\<exists>w' st'. ASwitch_receive_fwlink w st = Inr (w', st') \<and> as_has w0 (ls, rs, fs @ zs) outs w'
     \<and> link st' f [] \<and> (\<forall>d. d \<noteq> f \<longrightarrow> st' d = st d)"
  using assms link_flight [OF l(1)] link_pend [OF l(1)]
  by (cases zs) (auto simp: ASwitch_receive_fwlink_def as_has_simps)

lemma receive_fwlink_idle:
  "as_has w0 ins outs w \<Longrightarrow> \<not> (as_fw_enabled w0 \<and> as_fl_direction w0 = RECEIVE) \<Longrightarrow> ASwitch_receive_fwlink w st = Inr (w, st)"
  by (auto simp: ASwitch_receive_fwlink_def as_has_simps)

section \<open>Sending\<close>

lemma send_has:
  assumes w: "as_has w0 ins (ps, qs) w"
    and p: "ps \<noteq> [] \<Longrightarrow> as_target w0 = Some g"
    and q: "qs \<noteq> [] \<Longrightarrow> as_fw_enabled w0 \<and> as_fl_direction w0 = SEND \<and> as_forwardingConnection w0 = Some f"
  shows "\<exists>w'. ASwitch_send w st = Inr (w', let st = (if qs = [] then st else st(f := Connection_send qs (st f)))
        in if ps = [] then st else st(g := Connection_send ps (st g))) \<and> as_has w0 ins ([], []) w'"
proof -
  have fw: "\<exists>w'. ASwitch_send_fw w st = Inr (w', if qs = [] then st else st(f := Connection_send qs (st f))) \<and> as_has w0 ins (ps, []) w'"
  proof (cases "qs = []")
    case True
    then show ?thesis using w by (simp add: ASwitch_send_fw_def as_has_def)
  next
    case False
    have "f_fifo (as_output_fw_fifo w) = qs" using w by (simp add: as_has_def)
    then obtain r where "Fifo_drain (as_output_fw_fifo w) = Inr (qs, r)" "f_fifo r = []" using Fifo_drain_all [of "as_output_fw_fifo w"] by auto
    then show ?thesis using False w q by (simp add: ASwitch_send_fw_def as_has_simps)
  qed
  have ps: "\<exists>w'. ASwitch_send_psum v st = Inr (w', if ps = [] then st else st(g := Connection_send ps (st g))) \<and> as_has w0 ins ([], []) w'"
    if v: "as_has w0 ins (ps, []) v" for v st
  proof (cases "ps = []")
    case True
    then show ?thesis using v by (simp add: ASwitch_send_psum_def as_has_def)
  next
    case False
    have "f_fifo (as_output_psum_fifo v) = ps" using v by (simp add: as_has_def)
    then obtain r where "Fifo_drain (as_output_psum_fifo v) = Inr (ps, r)" "f_fifo r = []" using Fifo_drain_all [of "as_output_psum_fifo v"] by auto
    then show ?thesis using False v p by (auto simp: ASwitch_send_psum_def as_has_simps as_target_def split: if_splits)
  qed
  show ?thesis using fw ps unfolding ASwitch_send_def Let_def by fastforce
qed

section \<open>Passing on and adding\<close>

text \<open>The package a switch makes of two and of three; one alone is copied.\<close>

definition sum2 :: "nat \<Rightarrow> 'd::plus DataPackage \<Rightarrow> 'd DataPackage \<Rightarrow> 'd DataPackage" where
  "sum2 l p q = DataPackage_psum sizeof_data_t (p_data p + p_data q) PSUM l (p_VN p) ADDER"

definition sum3 :: "nat \<Rightarrow> 'd::plus DataPackage \<Rightarrow> 'd DataPackage \<Rightarrow> 'd DataPackage \<Rightarrow> 'd DataPackage" where
  "sum3 l p q r = DataPackage_psum sizeof_data_t (p_data p + p_data q + p_data r) PSUM l (p_VN p) ADDER"

lemma copy_of_unicast: "p_traffic_type p \<noteq> MULTICAST \<Longrightarrow> DataPackage_copy p = Inr (copy_of p)"
  by (simp add: copy_of_def DataPackage_copy_def Let_def)

lemma pop_left_has: "as_has w0 (x # ls, rs, fs) outs w \<Longrightarrow> \<exists>w'. ASwitch_pop_left w = Inr (x, w') \<and> as_has w0 (ls, rs, fs) outs w'"
  using Fifo_pop_ok [of "as_input_psum_left_fifo w" x ls] by (simp add: ASwitch_pop_left_def as_has_simps)

lemma pop_right_has: "as_has w0 (ls, x # rs, fs) outs w \<Longrightarrow> \<exists>w'. ASwitch_pop_right w = Inr (x, w') \<and> as_has w0 (ls, rs, fs) outs w'"
  using Fifo_pop_ok [of "as_input_psum_right_fifo w" x rs] by (simp add: ASwitch_pop_right_def as_has_simps)

lemma put_psum_has: "as_has w0 ins (ps, qs) w \<Longrightarrow> as_has w0 ins (ps @ [p], qs) (ASwitch_put_psum p w)"
  by (simp add: ASwitch_put_psum_def as_has_simps)

lemma put_fw_has: "as_has w0 ins (ps, qs) w \<Longrightarrow> as_has w0 ins (ps, qs @ [p]) (ASwitch_put_fw p w)"
  by (simp add: ASwitch_put_fw_def as_has_simps)

lemma put_has: "as_has w0 ins ([], []) w \<Longrightarrow>
    as_has w0 ins (via w0 [p]) (ASwitch_put p w)"
  using put_psum_has [of w0 ins "[]" "[]" w p] put_fw_has [of w0 ins "[]" "[]" w p] by (simp add: ASwitch_put_def as_has_simps via_def)

lemma has_config: "as_has w0 ins outs w \<Longrightarrow> as_config_mode w = as_config_mode w0"
  "as_has w0 ins outs w \<Longrightarrow> as_left_child_enabled w = as_left_child_enabled w0"
  "as_has w0 ins outs w \<Longrightarrow> as_right_child_enabled w = as_right_child_enabled w0"
  "as_has w0 ins outs w \<Longrightarrow> as_fw_enabled w = as_fw_enabled w0"
  "as_has w0 ins outs w \<Longrightarrow> as_fl_direction w = as_fl_direction w0"
  "as_has w0 ins outs w \<Longrightarrow> as_num_in_level w = as_num_in_level w0"
  by (simp_all add: as_has_simps)

lemma has_fifos: "as_has w0 (ls, rs, fs) outs w \<Longrightarrow> f_fifo (as_input_psum_left_fifo w) = ls"
  "as_has w0 (ls, rs, fs) outs w \<Longrightarrow> f_fifo (as_input_psum_right_fifo w) = rs"
  "as_has w0 (ls, rs, fs) outs w \<Longrightarrow> f_fifo (as_input_fw_fifo w) = fs"
  by (simp_all add: as_has_def)

lemma perform_2_has:
  assumes "as_has w0 ins outs w" "as_operation_mode w0 = ADDER" "p_VN p = p_VN q"
  shows "\<exists>w'. ASwitch_perform_operation_2_operands p q w = Inr (sum2 (as_level w0) p q, w') \<and> as_has w0 ins outs w'"
  using assms by (simp add: ASwitch_perform_operation_2_operands_def as_has_simps ASwitch_result_def sum2_def)

lemma perform_3_has:
  assumes "as_has w0 ins outs w" "as_operation_mode w0 = ADDER" "p_VN p = p_VN q" "p_VN q = p_VN r"
  shows "\<exists>w'. ASwitch_perform_operation_3_operands p q r w = Inr (sum3 (as_level w0) p q r, w') \<and> as_has w0 ins outs w'"
  using assms by (simp add: ASwitch_perform_operation_3_operands_def as_has_simps ASwitch_result_def sum3_def)

section \<open>Routing\<close>

text \<open>\<open>ADD_2_1\<close> with both children: a sum as soon as both have sent.\<close>

lemma route_both:
  assumes w: "as_has w0 (ls, rs, fs) ([], []) w" and c: "as_config_mode w0 = ADD_2_1" "as_operation_mode w0 = ADDER"
      "as_left_child_enabled w0" "as_right_child_enabled w0"
    and v: "ls \<noteq> [] \<Longrightarrow> rs \<noteq> [] \<Longrightarrow> p_VN (hd ls) = p_VN (hd rs)"
    and out: "out = (if ls = [] \<or> rs = [] then [] else [sum2 (as_level w0) (hd ls) (hd rs)])"
  shows "\<exists>w'. ASwitch_route w = Inr w' \<and> as_has w0 (if ls = [] \<or> rs = [] then (ls, rs, fs) else (tl ls, tl rs, fs))
     (via w0 out) w'"
proof -
  have p: "ASwitch_pass_left w = Inr w" "ASwitch_pass_right w = Inr w"
    using c has_config [OF w] by (simp_all add: ASwitch_pass_left_def ASwitch_pass_right_def)
  have "\<exists>w'. ASwitch_add w = Inr w' \<and> as_has w0 (if ls = [] \<or> rs = [] then (ls, rs, fs) else (tl ls, tl rs, fs))
     (via w0 out) w'"
  proof (cases "ls = [] \<or> rs = []")
    case True
    then show ?thesis using w has_fifos [OF w] out by (auto simp: ASwitch_add_def via_def)
  next
    case False
    then obtain x xs y ys where l: "ls = x # xs" "rs = y # ys" by (cases ls; cases rs) auto
    obtain w1 where 1: "ASwitch_pop_left w = Inr (x, w1)" "as_has w0 (xs, rs, fs) ([], []) w1" using pop_left_has w l(1) by blast
    obtain w2 where 2: "ASwitch_pop_right w1 = Inr (y, w2)" "as_has w0 (xs, ys, fs) ([], []) w2" using pop_right_has 1(2) l(2) by blast
    obtain w3 where 3: "ASwitch_perform_operation_2_operands x y w2 = Inr (sum2 (as_level w0) x y, w3)" "as_has w0 (xs, ys, fs) ([], []) w3"
      using perform_2_has [OF 2(2) c(2)] v l by auto
    show ?thesis using put_has [OF 3(2), of "sum2 (as_level w0) x y"] 1(1) 2(1) 3(1) has_fifos [OF w] has_config [OF w] c l out
      by (simp add: ASwitch_add_def)
  qed
  then show ?thesis using p c has_config [OF w] by (simp add: ASwitch_route_def ASwitch_route_2_1_config_def)
qed

text \<open>\<open>ADD_2_1\<close> with one child: what it sends is passed on.\<close>

lemma route_left:
  assumes w: "as_has w0 (ls, [], fs) ([], []) w" and c: "as_config_mode w0 = ADD_2_1" "\<not> as_right_child_enabled w0"
    and v: "ls \<noteq> [] \<Longrightarrow> p_traffic_type (hd ls) \<noteq> MULTICAST"
    and out: "out = (if ls = [] then [] else [copy_of (hd ls)])"
  shows "\<exists>w'. ASwitch_route w = Inr w' \<and> as_has w0 (tl ls, [], fs) (via w0 out) w'"
proof (cases ls)
  case Nil
  then show ?thesis using w has_fifos [OF w] has_config [OF w] c out
    by (simp add: ASwitch_route_def ASwitch_route_2_1_config_def ASwitch_pass_left_def ASwitch_pass_right_def ASwitch_add_def via_def)
next
  case (Cons x xs)
  obtain w1 where 1: "ASwitch_pop_left w = Inr (x, w1)" "as_has w0 (xs, [], fs) ([], []) w1" using pop_left_has w Cons by blast
  have p: "as_has w0 (xs, [], fs) (via w0 out) (ASwitch_put (copy_of x) w1)"
    using put_has [OF 1(2), of "copy_of x"] out Cons by simp
  have "ASwitch_pass_left w = Inr (ASwitch_put (copy_of x) w1)"
    using 1(1) copy_of_unicast [of x] v has_fifos [OF w] has_config [OF w] c Cons by (simp add: ASwitch_pass_left_def)
  then show ?thesis using p has_fifos [OF p] has_config [OF w] c Cons
    by (simp add: ASwitch_route_def ASwitch_route_2_1_config_def ASwitch_pass_right_def ASwitch_add_def)
qed

lemma route_right:
  assumes w: "as_has w0 ([], rs, fs) ([], []) w" and c: "as_config_mode w0 = ADD_2_1" "\<not> as_left_child_enabled w0"
    and v: "rs \<noteq> [] \<Longrightarrow> p_traffic_type (hd rs) \<noteq> MULTICAST"
    and out: "out = (if rs = [] then [] else [copy_of (hd rs)])"
  shows "\<exists>w'. ASwitch_route w = Inr w' \<and> as_has w0 ([], tl rs, fs) (via w0 out) w'"
proof (cases rs)
  case Nil
  then show ?thesis using w has_fifos [OF w] has_config [OF w] c out
    by (simp add: ASwitch_route_def ASwitch_route_2_1_config_def ASwitch_pass_left_def ASwitch_pass_right_def ASwitch_add_def via_def)
next
  case (Cons x xs)
  obtain w1 where 1: "ASwitch_pop_right w = Inr (x, w1)" "as_has w0 ([], xs, fs) ([], []) w1" using pop_right_has w Cons by blast
  have p: "as_has w0 ([], xs, fs) (via w0 out) (ASwitch_put (copy_of x) w1)"
    using put_has [OF 1(2), of "copy_of x"] out Cons by simp
  have "ASwitch_pass_left w = Inr w" using has_fifos [OF w] by (simp add: ASwitch_pass_left_def)
  moreover have "ASwitch_pass_right w = Inr (ASwitch_put (copy_of x) w1)"
    using 1(1) copy_of_unicast [of x] v has_fifos [OF w] has_config [OF w] c Cons by (simp add: ASwitch_pass_right_def)
  ultimately show ?thesis using p has_fifos [OF p] has_config [OF w] c Cons
    by (simp add: ASwitch_route_def ASwitch_route_2_1_config_def ASwitch_add_def)
qed

text \<open>\<open>ADD_3_1\<close>: a sum of three as soon as both children and the neighbour have sent.\<close>

lemma route_three:
  assumes w: "as_has w0 (ls, rs, fs) ([], []) w" and c: "as_config_mode w0 = ADD_3_1" "as_operation_mode w0 = ADDER"
      "as_left_child_enabled w0" "as_right_child_enabled w0" "as_fw_enabled w0" "as_fl_direction w0 = RECEIVE"
    and v: "ls \<noteq> [] \<Longrightarrow> rs \<noteq> [] \<Longrightarrow> fs \<noteq> [] \<Longrightarrow> p_VN (hd ls) = p_VN (hd rs) \<and> p_VN (hd rs) = p_VN (hd fs)"
  shows "\<exists>w'. ASwitch_route w = Inr w' \<and> (if ls = [] \<or> rs = [] \<or> fs = [] then as_has w0 (ls, rs, fs) ([], []) w'
     else as_has w0 (tl ls, tl rs, tl fs) ([sum3 (as_level w0) (hd ls) (hd rs) (hd fs)], []) w')"
proof (cases "ls = [] \<or> rs = [] \<or> fs = []")
  case True
  then show ?thesis using w has_fifos [OF w] has_config [OF w] c by (auto simp: ASwitch_route_def ASwitch_route_3_1_config_def)
next
  case False
  then obtain x xs y ys z zs where l: "ls = x # xs" "rs = y # ys" "fs = z # zs" by (cases ls; cases rs; cases fs) auto
  obtain w1 where 1: "ASwitch_pop_left w = Inr (x, w1)" "as_has w0 (xs, rs, fs) ([], []) w1" using pop_left_has w l(1) by blast
  obtain w2 where 2: "ASwitch_pop_right w1 = Inr (y, w2)" "as_has w0 (xs, ys, fs) ([], []) w2" using pop_right_has 1(2) l(2) by blast
  obtain q where q: "Fifo_pop (as_input_fw_fifo w2) = Inr (z, q)" "f_fifo q = zs"
    using fq.pop_items [of "as_input_fw_fifo w2" z zs] has_fifos(3) [OF 2(2)] l(3) by auto
  have "as_has w0 (xs, ys, zs) ([], []) (w2\<lparr>as_input_fw_fifo := q\<rparr>)" using 2(2) q(2) by (simp add: as_has_simps)
  then obtain w3 where 3: "ASwitch_perform_operation_3_operands x y z (w2\<lparr>as_input_fw_fifo := q\<rparr>) = Inr (sum3 (as_level w0) x y z, w3)"
      "as_has w0 (xs, ys, zs) ([], []) w3"
    using perform_3_has [OF _ c(2), of "(xs, ys, zs)" "([], [])" "w2\<lparr>as_input_fw_fifo := q\<rparr>" x y z] v l by auto
  show ?thesis using put_psum_has [OF 3(2), of "sum3 (as_level w0) x y z"] 1(1) 2(1) q(1) 3(1) has_fifos [OF w] has_config [OF w] c l
    by (simp add: ASwitch_route_def ASwitch_route_3_1_config_def)
qed

text \<open>\<open>ADD_1_1_PLUS_FW_1_1\<close>: one child's package to the neighbour, the other's to the parent.\<close>

lemma route_split:
  assumes w: "as_has w0 (ls, rs, fs) ([], []) w" and c: "as_config_mode w0 = ADD_1_1_PLUS_FW_1_1"
      "as_left_child_enabled w0" "as_right_child_enabled w0"
    and v: "ls \<noteq> [] \<Longrightarrow> p_traffic_type (hd ls) \<noteq> MULTICAST" "rs \<noteq> [] \<Longrightarrow> p_traffic_type (hd rs) \<noteq> MULTICAST \<and> p_VN (hd rs) \<noteq> 0"
    and out: "xs = (if ls = [] then [] else [copy_of (hd ls)])" "ys = (if rs = [] then [] else [copy_of (hd rs)])"
  shows "\<exists>w'. ASwitch_route w = Inr w' \<and> as_has w0 (tl ls, tl rs, fs) (if even (as_num_in_level w0) then (ys, xs) else (xs, ys)) w'"
proof -
  define put1 where "put1 = (if even (as_num_in_level w0) then ASwitch_put_fw else ASwitch_put_psum :: 'a DataPackage \<Rightarrow> _)"
  define put2 where "put2 = (if even (as_num_in_level w0) then ASwitch_put_psum else ASwitch_put_fw :: 'a DataPackage \<Rightarrow> _)"
  define f1 where "f1 = (\<lambda>w. if \<not> Fifo_isEmpty (as_input_psum_left_fifo w) then
       rbind (ASwitch_pop_left w) (\<lambda>(p, w). rbind (DataPackage_copy p) (\<lambda>pck_to_send. Inr (put1 pck_to_send w))) else Inr w)"
  define f2 where "f2 = (\<lambda>w. if \<not> Fifo_isEmpty (as_input_psum_right_fifo w) then
       rbind (ASwitch_pop_right w) (\<lambda>(p, w). rbind (DataPackage_copy p) (\<lambda>pck_to_send.
         if even (as_num_in_level w0) then rassert (p_VN p \<noteq> 0) (Inr (put2 pck_to_send w)) else Inr (put2 pck_to_send w))) else Inr w)"
  have r: "ASwitch_route w = rbind (f1 w) f2"
    using has_config [OF w] c
    by (cases "even (as_num_in_level w0)")
      (simp_all add: ASwitch_route_def ASwitch_route_1_1_plus_fw_1_1_config_def f1_def f2_def put1_def put2_def even_iff_mod_2_eq_zero [symmetric] odd_iff_mod_2_eq_one [symmetric] cong: if_cong)
  have 1: "\<exists>w1. f1 w = Inr w1 \<and> as_has w0 (tl ls, rs, fs) (if even (as_num_in_level w0) then ([], xs) else (xs, [])) w1"
  proof (cases ls)
    case Nil
    then show ?thesis using w has_fifos [OF w] out by (simp add: f1_def)
  next
    case (Cons x ks)
    obtain w1 where 1: "ASwitch_pop_left w = Inr (x, w1)" "as_has w0 (ks, rs, fs) ([], []) w1" using pop_left_has w Cons by blast
    show ?thesis using 1(1) copy_of_unicast [of x] v Cons has_fifos [OF w] out put_psum_has [OF 1(2), of "copy_of x"] put_fw_has [OF 1(2), of "copy_of x"]
      by (simp add: f1_def put1_def)
  qed
  have 2: "\<exists>w2. f2 w1 = Inr w2 \<and> as_has w0 (tl ls, tl rs, fs) (if even (as_num_in_level w0) then (ys, xs) else (xs, ys)) w2"
    if w1: "as_has w0 (tl ls, rs, fs) (if even (as_num_in_level w0) then ([], xs) else (xs, [])) w1" for w1
  proof (cases rs)
    case Nil
    then show ?thesis using w1 has_fifos [OF w1] out(2) by (simp add: f2_def split: if_splits)
  next
    case (Cons x ks)
    obtain w2 where 2: "ASwitch_pop_right w1 = Inr (x, w2)" "as_has w0 (tl ls, ks, fs) (if even (as_num_in_level w0) then ([], xs) else (xs, [])) w2"
      using pop_right_has w1 Cons by blast
    have "even (as_num_in_level w0) \<Longrightarrow> as_has w0 (tl ls, ks, fs) ([copy_of x], xs) (ASwitch_put_psum (copy_of x) w2)"
      "odd (as_num_in_level w0) \<Longrightarrow> as_has w0 (tl ls, ks, fs) (xs, [copy_of x]) (ASwitch_put_fw (copy_of x) w2)"
      using put_psum_has [of w0 _ "[]" xs w2 "copy_of x"] put_fw_has [of w0 _ xs "[]" w2 "copy_of x"] 2(2) by simp_all
    then show ?thesis using 2(1) copy_of_unicast [of x] v(2) Cons has_fifos [OF w1] out(2) by (auto simp: f2_def put2_def)
  qed
  show ?thesis using r 1 2 by auto
qed

lemma route_idle:
  assumes w: "as_has w0 ([], [], []) ([], []) w" and c: "as_config_mode w0 \<in> {ADD_2_1, FW_2_2}"
  shows "ASwitch_route w = Inr w"
proof -
  have "w\<lparr>as_input_psum_left_fifo := as_input_psum_left_fifo w\<rparr> = w" "w\<lparr>as_input_psum_right_fifo := as_input_psum_right_fifo w\<rparr> = w" by simp_all
  then show ?thesis using has_fifos [OF w] has_config [OF w] c
    by (auto simp: ASwitch_route_def ASwitch_route_2_1_config_def ASwitch_pass_left_def ASwitch_pass_right_def ASwitch_add_def
        ASwitch_route_fw_2_2_config_def ASwitch_copy_all_def)
qed

section \<open>A cycle\<close>

text \<open>
  The links of a switch: the children \<open>a\<close> and \<open>b\<close>, the place \<open>g\<close> for the partial sum (if it makes one
  for its parent or memory), and the forwarding link \<open>f\<close> (if it is enabled), which is read by a
  receiver and written by a sender.
\<close>

lemma cycle_has:
  assumes w: "as_has w0 (ls, rs, fs) ([], []) w" and c: "as_inputLeftConnection w0 = Some a" "as_inputRightConnection w0 = Some b" "a \<noteq> b"
    and g: "up \<Longrightarrow> as_target w0 = Some g \<and> g \<noteq> a \<and> g \<noteq> b \<and> link st g []" "\<not> up \<Longrightarrow> ps = []"
    and f: "as_fw_enabled w0 \<Longrightarrow> as_forwardingConnection w0 = Some f \<and> f \<noteq> a \<and> f \<noteq> b \<and> (up \<longrightarrow> f \<noteq> g)"
    and l: "link st a xs" "link st b ys"
    and lf: "as_fw_enabled w0 \<Longrightarrow> link st f zs" "as_fw_enabled w0 \<Longrightarrow> as_fl_direction w0 = RECEIVE \<Longrightarrow> length zs \<le> 1"
      "\<not> (as_fw_enabled w0 \<and> as_fl_direction w0 = RECEIVE) \<Longrightarrow> zs = []"
    and r: "\<And>v. as_has w0 (ls @ xs, rs @ ys, fs @ zs) ([], []) v \<Longrightarrow> \<exists>v'. ASwitch_route v = Inr v' \<and> as_has w0 ins (ps, qs) v'"
    and q: "qs \<noteq> [] \<Longrightarrow> as_fw_enabled w0 \<and> as_fl_direction w0 = SEND"
  shows "\<exists>w' st'. ASwitch_cycle w st = Inr (w', st') \<and> as_has w0 ins ([], []) w' \<and> link st' a [] \<and> link st' b []
     \<and> (up \<longrightarrow> link st' g ps) \<and> (as_fw_enabled w0 \<longrightarrow> link st' f qs)
     \<and> (\<forall>d. d \<noteq> a \<longrightarrow> d \<noteq> b \<longrightarrow> (up \<longrightarrow> d \<noteq> g) \<longrightarrow> (as_fw_enabled w0 \<longrightarrow> d \<noteq> f) \<longrightarrow> st' d = st d)"
proof -
  let ?w = "w\<lparr>as_local_cycle := as_local_cycle w + 1, as_stats := ass_total_cycles_update (\<lambda>n. n + 1) (as_stats w)\<rparr>"
  have "as_has w0 (ls, rs, fs) ([], []) ?w" using w by (simp add: as_has_simps)
  then obtain w1 st1 where 1: "ASwitch_receive_childs ?w st = Inr (w1, st1)" "as_has w0 (ls @ xs, rs @ ys, fs) ([], []) w1"
    "link st1 a []" "link st1 b []" "\<forall>d. d \<noteq> a \<longrightarrow> d \<noteq> b \<longrightarrow> st1 d = st d"
    using receive_childs_has [OF _ c l] by blast
  have "\<exists>w2 st2. ASwitch_receive_fwlink w1 st1 = Inr (w2, st2) \<and> as_has w0 (ls @ xs, rs @ ys, fs @ zs) ([], []) w2
     \<and> (as_fw_enabled w0 \<longrightarrow> link st2 f []) \<and> (\<forall>d. (as_fw_enabled w0 \<longrightarrow> d \<noteq> f) \<longrightarrow> st2 d = st1 d)"
  proof (cases "as_fw_enabled w0 \<and> as_fl_direction w0 = RECEIVE")
    case True
    have "link st1 f zs" using True f lf(1) 1(5) by (metis link_cong)
    then show ?thesis using receive_fwlink_has [OF 1(2), of f st1 zs] True f lf(2) by auto
  next
    case False
    have "as_fw_enabled w0 \<Longrightarrow> link st1 f []" using False f lf(1,3) 1(5) by (metis link_cong)
    then show ?thesis using receive_fwlink_idle [OF 1(2) False] 1(2) lf(3) [OF False] by auto
  qed
  then obtain w2 st2 where 2: "ASwitch_receive_fwlink w1 st1 = Inr (w2, st2)" "as_has w0 (ls @ xs, rs @ ys, fs @ zs) ([], []) w2"
    "as_fw_enabled w0 \<longrightarrow> link st2 f []" "\<forall>d. (as_fw_enabled w0 \<longrightarrow> d \<noteq> f) \<longrightarrow> st2 d = st1 d" by blast
  obtain w3 where 3: "ASwitch_route w2 = Inr w3" "as_has w0 ins (ps, qs) w3" using r [OF 2(2)] by blast
  define st3 where "st3 = (let st = (if qs = [] then st2 else st2(f := Connection_send qs (st2 f))) in if ps = [] then st else st(g := Connection_send ps (st g)))"
  have p: "ps \<noteq> [] \<Longrightarrow> up" using g(2) by blast
  obtain w4 where 4: "ASwitch_send w3 st2 = Inr (w4, st3)" "as_has w0 ins ([], []) w4"
    using send_has [OF 3(2), of g f st2] g(1) p q f unfolding st3_def by blast
  have lg: "up \<Longrightarrow> link st2 g []" using g(1) 1(5) 2(4) f by (metis link_cong)
  have lab: "link st2 a []" "link st2 b []" using 1(3,4) 2(4) f by (metis link_cong)+
  have "link st3 a []" "link st3 b []" using lab g(1) p q f by (auto simp: st3_def Let_def)
  moreover have "up \<longrightarrow> link st3 g ps" using lg q f by (auto simp: st3_def Let_def)
  moreover have "as_fw_enabled w0 \<longrightarrow> link st3 f qs" using 2(3) f p by (auto simp: st3_def Let_def)
  moreover have "\<forall>d. d \<noteq> a \<longrightarrow> d \<noteq> b \<longrightarrow> (up \<longrightarrow> d \<noteq> g) \<longrightarrow> (as_fw_enabled w0 \<longrightarrow> d \<noteq> f) \<longrightarrow> st3 d = st d"
    using 1(5) 2(4) p q by (auto simp: st3_def Let_def)
  moreover have "ASwitch_cycle w st = Inr (w4, st3)"
    unfolding ASwitch_cycle_def by (simp add: 1(1) 2(1) 3(1) 4(1))
  ultimately show ?thesis using 4(2) by blast
qed

end
