(* ===== verification/ArtNet.thy ===== *)
theory ArtNet
  imports ArtConfig AdderCycle ASNetwork
begin

text \<open>
  The network the constructor builds and the configuration loads: which switch is wired to which
  links, and what each switch has been told.
\<close>

section \<open>The wiring\<close>

definition fw_link :: "nat \<Rightarrow> nat \<Rightarrow> cid option" where
  "fw_link l x = (if 0 < x \<and> x < 2 ^ l - 1 then Some (RnFw l (if even x then x else x + 1)) else None)"

definition placed :: "cid option \<Rightarrow> nat \<Rightarrow> nat \<Rightarrow> 'd ASwitch \<Rightarrow> bool" where
  "placed out l x w \<longleftrightarrow> as_level w = l \<and> as_num_in_level w = x \<and> as_operation_mode w = ADDER
     \<and> as_inputLeftConnection w = Some (RnLink l (2 * x)) \<and> as_inputRightConnection w = Some (RnLink l (2 * x + 1))
     \<and> as_outputConnection w = (if l = 0 then out else Some (RnLink (l - 1) x))
     \<and> f_fifo (as_input_psum_left_fifo w) = [] \<and> f_fifo (as_input_psum_right_fifo w) = [] \<and> f_fifo (as_input_fw_fifo w) = []
     \<and> f_fifo (as_output_psum_fifo w) = [] \<and> f_fifo (as_output_fw_fifo w) = []
     \<and> as_config_mode w = ADD_2_1 \<and> \<not> as_fw_enabled w \<and> \<not> as_left_child_enabled w \<and> \<not> as_right_child_enabled w
     \<and> \<not> as_forward_to_memory w"

text \<open>A network of \<open>L\<close> levels with its links, as the constructor leaves it, up to the connections to memory.\<close>

definition wired :: "nat \<Rightarrow> cid option \<Rightarrow> 'd ASNetwork \<Rightarrow> bool" where
  "wired L out an \<longleftrightarrow> an_nlevels an = L \<and> an_ms_size an = 2 ^ L
     \<and> (\<forall>l x. l < L \<longrightarrow> x < 2 ^ l \<longrightarrow> (\<exists>w. an_aswitchtable an (l, x) = Some w \<and> placed out l x w \<and> as_forwardingConnection w = fw_link l x))"

definition quiet :: "nat \<Rightarrow> 'd store \<Rightarrow> bool" where
  "quiet L st \<longleftrightarrow> (\<forall>l s. l < L \<longrightarrow> s < 2 ^ Suc l \<longrightarrow> link st (RnLink l s) [])
     \<and> (\<forall>l x. l < L \<longrightarrow> even x \<longrightarrow> 0 < x \<longrightarrow> x < 2 ^ l \<longrightarrow> link st (RnFw l x) [])"

section \<open>Construction\<close>

text \<open>The network when the switches before \<open>(i, j)\<close> have been added.\<close>

definition fw_part :: "nat \<Rightarrow> nat \<Rightarrow> nat \<Rightarrow> nat \<Rightarrow> cid option" where
  "fw_part i j l x = (if l = i \<and> odd x \<and> x + 1 = j then None else fw_link l x)"

definition wired_part :: "cid option \<Rightarrow> nat \<Rightarrow> nat \<Rightarrow> nat \<Rightarrow> 'd ASNetwork \<times> 'd store \<Rightarrow> bool" where
  "wired_part out n i j = (\<lambda>(an, st). an_nlevels an = n \<and> an_ms_size an = 2 ^ n \<and> an_outputConnection an = out
     \<and> (\<forall>l x. x < 2 ^ l \<and> (l < i \<or> l = i \<and> x < j) \<longrightarrow>
          (\<exists>w. an_aswitchtable an (l, x) = Some w \<and> placed out l x w \<and> as_forwardingConnection w = fw_part i j l x))
     \<and> (\<forall>l s. s < 2 ^ Suc l \<and> (l < i \<or> l = i \<and> s < 2 * j) \<longrightarrow>
          an_inputconnectiontable an (l, s) = Some (RnLink l s) \<and> link st (RnLink l s) [])
     \<and> (\<forall>l x. even x \<and> 0 < x \<and> x < 2 ^ l \<and> (l < i \<or> l = i \<and> x < j) \<longrightarrow> link st (RnFw l x) []))"

lemma upd_as_ok: "an_aswitchtable an ij = Some w \<Longrightarrow> f w = Inr w' \<Longrightarrow>
    upd_as ij f an = Inr (an\<lparr>an_aswitchtable := (an_aswitchtable an)(ij \<mapsto> w')\<rparr>)"
  by (simp add: upd_as_def)

lemma fw_edge: "j = 0 \<or> j = 2 ^ i - 1 \<Longrightarrow> fw_link i j = None"
  by (auto simp: fw_link_def)

lemma add_switch_wired:
  assumes p: "wired_part out n i j (an, st)" and j: "j < 2 ^ i"
  shows "\<exists>s. ASNetwork_add_switch (i, j) (an, st) = Inr s \<and> wired_part out n i (Suc j) s"
proof -
  have an: "an_nlevels an = n" "an_ms_size an = 2 ^ n" "an_outputConnection an = out"
    and sw: "\<And>l x. x < 2 ^ l \<Longrightarrow> l < i \<or> l = i \<and> x < j \<Longrightarrow> \<exists>w. an_aswitchtable an (l, x) = Some w \<and> placed out l x w \<and> as_forwardingConnection w = fw_part i j l x"
    and co: "\<And>l s. s < 2 ^ Suc l \<Longrightarrow> l < i \<or> l = i \<and> s < 2 * j \<Longrightarrow> an_inputconnectiontable an (l, s) = Some (RnLink l s) \<and> link st (RnLink l s) []"
    and fl: "\<And>l x. even x \<Longrightarrow> 0 < x \<Longrightarrow> x < 2 ^ l \<Longrightarrow> l < i \<or> l = i \<and> x < j \<Longrightarrow> link st (RnFw l x) []"
    using p by (auto simp: wired_part_def)
  define o' where "o' = (if i = 0 then out else Some (RnLink (i - 1) j))"
  have inp: "0 < i \<Longrightarrow> an_inputconnectiontable an (i - 1, j) = Some (RnLink (i - 1) j)"
    using j co [of j "i - 1"] by (cases i) simp_all
  let ?l = "RnLink i (2 * j)" and ?r = "RnLink i (2 * j + 1)" and ?bw = "Connection_new (an_port_width an)"
  let ?w1 = "ASwitch_setOutputConnection o' (ASwitch_new i j (an_cfg an))"
  let ?in = "ASwitch_setInputRightConnection (Some ?r) \<circ> ASwitch_setInputLeftConnection (Some ?l)"
  have pl: "placed out i j (?in ?w1)" "placed out i j (?in (ASwitch_setForwardingConnection c ?w1))" for c
    by (simp_all add: placed_def o'_def ASwitch_new_def ASwitch_setOutputConnection_def ASwitch_setInputLeftConnection_def
        ASwitch_setInputRightConnection_def ASwitch_setForwardingConnection_def Let_def)
  have le: "s < 2 * Suc j \<longleftrightarrow> s < 2 * j \<or> s = 2 * j \<or> s = 2 * j + 1" for s by auto
  show ?thesis
  proof (cases "0 < j \<and> even j")
    case True
    then have jj: "j - 1 < 2 ^ i" "j - 1 < j" "odd (j - 1)" "i \<noteq> 0" using j by (auto intro: ccontr)
    obtain v where v: "an_aswitchtable an (i, j - 1) = Some v" "placed out i (j - 1) v" using sw [of "j - 1" i] jj by auto
    let ?w = "?in (ASwitch_setForwardingConnection (Some (RnFw i j)) ?w1)" and ?v = "ASwitch_setForwardingConnection (Some (RnFw i j)) v"
    have pv: "placed out i (j - 1) ?v" "as_forwardingConnection ?v = Some (RnFw i j)"
      using v(2) by (simp_all add: placed_def ASwitch_setForwardingConnection_def)
    have w: "as_forwardingConnection ?w = Some (RnFw i j)"
      by (simp add: ASwitch_setInputLeftConnection_def ASwitch_setInputRightConnection_def ASwitch_setForwardingConnection_def)
    have "j < 2 ^ i - 1"
    proof -
      have "even (2 ^ i :: nat)" using jj(4) by simp
      then have "j \<noteq> 2 ^ i - 1" using True j by auto
      then show ?thesis using j by linarith
    qed
    moreover have "2 \<le> j" using True by (auto elim!: evenE)
    ultimately have fw: "fw_link i j = Some (RnFw i j)" "fw_link i (j - 1) = Some (RnFw i j)" using True jj by (auto simp: fw_link_def)
    let ?an = "an\<lparr>an_aswitchtable := (an_aswitchtable an)((i, j) \<mapsto> ?w, (i, j - 1) \<mapsto> ?v),
        an_forwardingconnectiontable := (an_forwardingconnectiontable an)((i, j) \<mapsto> RnFw i j),
        an_double_switches := an_double_switches an @ [(i, j - 1), (i, j)],
        an_inputconnectiontable := (an_inputconnectiontable an)((i, 2 * j) \<mapsto> ?l, (i, 2 * j + 1) \<mapsto> ?r)\<rparr>"
    let ?st = "st(RnFw i j := ?bw, ?l := ?bw, ?r := ?bw)"
    have "ASNetwork_add_switch (i, j) (an, st) = Inr (?an, ?st)"
      using True jj v(1) inp
      by (simp add: ASNetwork_add_switch_def ASNetwork_connect_def upd_as_ok upd_as_def even_iff_mod_2_eq_zero [symmetric] o'_def Let_def fun_upd_twist)
    moreover have "wired_part out n i (Suc j) (?an, ?st)"
      unfolding wired_part_def prod.case
    proof (intro conjI allI impI)
      fix l x assume x: "x < 2 ^ l \<and> (l < i \<or> l = i \<and> x < Suc j)"
      consider "(l, x) = (i, j)" | "(l, x) = (i, j - 1)" | "(l, x) \<noteq> (i, j)" "(l, x) \<noteq> (i, j - 1)" by blast
      then show "\<exists>w. an_aswitchtable ?an (l, x) = Some w \<and> placed out l x w \<and> as_forwardingConnection w = fw_part i (Suc j) l x"
      proof cases
        case 1
        then show ?thesis using pl(2) w fw True jj(2) by (auto simp: fw_part_def)
      next
        case 2
        then show ?thesis using pv fw True jj by (auto simp: fw_part_def)
      next
        case 3
        then have "fw_part i (Suc j) l x = fw_part i j l x" using True by (auto simp: fw_part_def)
        then show ?thesis using sw [of x l] 3 x by auto
      qed
    qed (use an co fl le in \<open>auto simp: less_Suc_eq\<close>)
    ultimately show ?thesis by blast
  next
    case False
    let ?w = "?in ?w1"
    let ?an = "an\<lparr>an_aswitchtable := (an_aswitchtable an)((i, j) \<mapsto> ?w),
        an_single_switches := an_single_switches an @ (if i = 0 \<or> j = 0 \<or> j = 2 ^ i - 1 then [(i, j)] else []),
        an_inputconnectiontable := (an_inputconnectiontable an)((i, 2 * j) \<mapsto> ?l, (i, 2 * j + 1) \<mapsto> ?r)\<rparr>"
    let ?st = "st(?l := ?bw, ?r := ?bw)"
    have w: "as_forwardingConnection ?w = None"
      by (simp add: ASwitch_new_def ASwitch_setOutputConnection_def ASwitch_setInputLeftConnection_def ASwitch_setInputRightConnection_def Let_def)
    have "ASNetwork_add_switch (i, j) (an, st) = Inr (?an, ?st)"
      using False inp an(3)
      by (auto simp add: ASNetwork_add_switch_def ASNetwork_connect_def upd_as_ok upd_as_def even_iff_mod_2_eq_zero [symmetric] o'_def Let_def)
    moreover have "wired_part out n i (Suc j) (?an, ?st)"
      unfolding wired_part_def prod.case
    proof (intro conjI allI impI)
      fix l x assume x: "x < 2 ^ l \<and> (l < i \<or> l = i \<and> x < Suc j)"
      consider "(l, x) = (i, j)" | "(l, x) \<noteq> (i, j)" by blast
      then show "\<exists>w. an_aswitchtable ?an (l, x) = Some w \<and> placed out l x w \<and> as_forwardingConnection w = fw_part i (Suc j) l x"
      proof cases
        case 1
        then have "fw_part i (Suc j) l x = None" using False by (auto simp: fw_part_def fw_link_def)
        then show ?thesis using pl(1) w 1 by auto
      next
        case 2
        then have "fw_part i (Suc j) l x = fw_part i j l x" using False x by (auto simp: fw_part_def less_Suc_eq)
        then show ?thesis using sw [of x l] 2 x by auto
      qed
    qed (use an co fl le False in \<open>auto simp: less_Suc_eq\<close>)
    ultimately show ?thesis by blast
  qed
qed

lemma ASNetwork_new_wired:
  fixes st :: "'d store"
  assumes n: "msn_ms_size (m_MSNetworkCfg cfg) = 2 ^ L" "2 ^ L < u32_max"
  shows "\<exists>an st'. ASNetwork_new cfg out st = Inr (an, st') \<and> wired L out an \<and> quiet L st'"
proof -
  define an0 :: "'d ASNetwork" where "an0 = \<lparr>an_cfg = cfg, an_ms_size = 2 ^ L, an_port_width = asc_port_width (m_ASwitchCfg cfg), an_nlevels = L,
          an_accumulation_buffer_enabled = asn_accumulation_buffer_enabled (m_ASNetworkCfg cfg),
          an_outputConnection = out, an_aswitchtable = Map.empty,
          an_inputconnectiontable = Map.empty, an_forwardingconnectiontable = Map.empty,
          an_single_switches = [], an_double_switches = [], an_accumulationBuffer = None,
          an_accumulationbufferconnectiontable = []\<rparr>"
  have level: "\<exists>s'. rfold ASNetwork_add_switch (map (Pair i) [0..<2 ^ i]) s = Inr s' \<and> wired_part out L (Suc i) 0 s'"
    if s: "wired_part out L i 0 s" for i and s :: "'d ASNetwork \<times> 'd store"
  proof -
    have "\<exists>s'. rfold (\<lambda>j. ASNetwork_add_switch (i, j)) [0..<2 ^ i] s = Inr s' \<and> wired_part out L i (2 ^ i) s'"
      by (rule rfold_upt_total [of "wired_part out L i"]) (use s add_switch_wired in auto)
    moreover have "wired_part out L (Suc i) 0 s'" if "wired_part out L i (2 ^ i) s'" for s' :: "'d ASNetwork \<times> 'd store"
    proof -
      have "fw_part i (2 ^ i) l x = fw_part (Suc i) 0 l x" if "x < 2 ^ l" for l x using that by (auto simp: fw_part_def fw_link_def)
      then show ?thesis using that by (cases s') (auto simp: wired_part_def less_Suc_eq)
    qed
    ultimately show ?thesis by (auto simp: rfold_map)
  qed
  have "\<exists>s'. rfold ASNetwork_add_switch (tree_positions m) (an0, st) = Inr s' \<and> wired_part out L m 0 s'" for m
  proof (induction m)
    case 0
    then show ?case by (simp add: tree_positions_def wired_part_def an0_def)
  next
    case (Suc m)
    have "tree_positions (Suc m) = tree_positions m @ map (Pair m) [0..<2 ^ m]" by (simp add: tree_positions_def)
    then show ?case using Suc level by (auto simp: rfold_append)
  qed
  then obtain an st' where s: "rfold ASNetwork_add_switch (tree_positions L) (an0, st) = Inr (an, st')" "wired_part out L L 0 (an, st')" by (metis prod.exhaust)
  have "fw_part L 0 l x = fw_link l x" for l x by (auto simp: fw_part_def)
  then have "wired L out an" "quiet L st'" using s(2) by (auto simp: wired_part_def wired_def quiet_def)
  then show ?thesis using s(1) n by (simp add: ASNetwork_new_def ispowerof2_iff nlevels_of_power an0_def Let_def)
qed


section \<open>The connections to memory\<close>

text \<open>Without accumulators, the switches only learn where their bus input is.\<close>

definition bare :: "nat \<Rightarrow> cid option \<Rightarrow> 'd store \<Rightarrow> 'd ASNetwork \<Rightarrow> 'd store \<Rightarrow> bool" where
  "bare L out st0 an st \<longleftrightarrow> wired L out an \<and> an_accumulation_buffer_enabled an = 0 \<and> st = st0"

lemma attach_bare:
  assumes "ASNetwork_attach ij c bid iid (an, accs, st) = Inr (an', accs', st')" "bare L out st0 an st"
  shows "bare L out st0 an' st'"
proof -
  have en: "an_accumulation_buffer_enabled an = 0" using assms(2) by (simp add: bare_def)
  obtain w where w: "an_aswitchtable an ij = Some w"
    "an' = an\<lparr>an_aswitchtable := (an_aswitchtable an)(ij \<mapsto> ASwitch_setMemoryConnection (Some c) bid iid w)\<rparr>" "st' = st"
    using assms(1) en by (auto simp: ASNetwork_attach_def upd_as_def rbind_eq_Inr rderef_eq_Inr)
  have "placed out l x (ASwitch_setMemoryConnection (Some c) bid iid v) = placed out l x v"
    "as_forwardingConnection (ASwitch_setMemoryConnection (Some c) bid iid v) = as_forwardingConnection v" for l x and v :: "'a ASwitch"
    by (simp_all add: placed_def ASwitch_setMemoryConnection_def)
  then show ?thesis using assms(2) w unfolding bare_def wired_def by (cases ij) fastforce
qed

lemma attach_double_bare:
  assumes "ASNetwork_attach_double m k s = Inr s'" "bare L out st0 (fst s) (snd (snd s))"
  shows "bare L out st0 (fst s') (snd (snd s'))"
  using assms by (cases s; cases s') (auto simp: ASNetwork_attach_double_def rbind_eq_Inr rassert_eq_Inr Let_def dest!: attach_bare)

lemma attach_single_bare:
  assumes "ASNetwork_attach_single m k s = Inr s'" "bare L out st0 (fst s) (snd (snd s))"
  shows "bare L out st0 (fst s') (snd (snd s'))"
  using assms by (cases s; cases s') (auto simp: ASNetwork_attach_single_def rbind_eq_Inr Let_def dest!: attach_bare)

lemma setMemoryConnections_bare:
  assumes "ASNetwork_setMemoryConnections m an st = Inr (an', st')" "wired L out an" "an_accumulation_buffer_enabled an = 0"
  shows "wired L out an'" "an_accumulation_buffer_enabled an' = 0" "st' = st"
proof -
  have b: "bare L out st an st" using assms by (simp add: bare_def)
  obtain s1 s2 where 1: "rfold (ASNetwork_attach_double m) [0..<length (an_double_switches an) div 2] (an, [], st) = Inr s1"
    and 2: "rfold (ASNetwork_attach_single m) [0..<length (an_single_switches an)] s1 = Inr s2"
    and 3: "(case s2 of (an, accs, st) \<Rightarrow>
      if 0 < an_accumulation_buffer_enabled an then
        rderef (an_accumulationBuffer an) (\<lambda>ab.
        rbind (AccumulationBuffer_setInputConnections (an_accumulationbufferconnectiontable an) ab) (\<lambda>ab.
        rbind (AccumulationBuffer_setMemoryConnections accs ab) (\<lambda>ab.
        Inr (an\<lparr>an_accumulationBuffer := Some ab\<rparr>, st))))
      else Inr (an, st)) = Inr (an', st')"
    using assms(1,3) by (auto simp: ASNetwork_setMemoryConnections_def rbind_eq_Inr Let_def)
  have "bare L out st (fst s1) (snd (snd s1))"
    by (rule rfold_invariant [OF 1]) (use b attach_double_bare in auto)
  then have "bare L out st (fst s2) (snd (snd s2))"
    by - (rule rfold_invariant [OF 2], use attach_single_bare in auto)
  then show "wired L out an'" "an_accumulation_buffer_enabled an' = 0" "st' = st"
    using 3 by (auto simp: bare_def split: prod.splits if_splits)
qed

section \<open>Configuration\<close>

definition configured :: "CompilerART \<Rightarrow> nat \<times> nat \<Rightarrow> 'd ASwitch \<Rightarrow> 'd ASwitch" where
  "configured c ij w =
     (let w = (case art_switch c ij of None \<Rightarrow> w | Some m \<Rightarrow> ASwitch_setConfigurationMode m w);
          w = (case art_fwlink c ij of None \<Rightarrow> w | Some fl \<Rightarrow> w\<lparr>as_fw_enabled := True, as_fl_direction := fl\<rparr>);
          w = (case art_childs c ij of None \<Rightarrow> w | Some (l, r) \<Rightarrow> ASwitch_setChildsEnabled l r w)
      in case art_memory c ij of None \<Rightarrow> w | Some b \<Rightarrow> ASwitch_setForwardingToMemoryEnabled b w)"

text \<open>A loop over the entries of a map changes each switch that has one.\<close>

lemma upd_all:
  assumes "distinct (map fst m)" "\<And>ij v. map_of m ij = Some v \<Longrightarrow> \<exists>w. an_aswitchtable an ij = Some w \<and> f v w = Inr (g v w)"
  shows "rfold (\<lambda>(ij, v). upd_as ij (f v)) m an
    = Inr (an\<lparr>an_aswitchtable := \<lambda>ij. map_option (\<lambda>w. case map_of m ij of None \<Rightarrow> w | Some v \<Rightarrow> g v w) (an_aswitchtable an ij)\<rparr>)"
  using assms
proof (induction m arbitrary: an)
  case Nil
  have "(\<lambda>ij. map_option (\<lambda>w. w) (an_aswitchtable an ij)) = an_aswitchtable an" by (simp add: fun_eq_iff option.map_ident)
  then show ?case by simp
next
  case (Cons kv m)
  obtain k v where kv: "kv = (k, v)" by (cases kv)
  obtain w where w: "an_aswitchtable an k = Some w" "f v w = Inr (g v w)" using Cons.prems(2) [of k v] kv by auto
  let ?an = "an\<lparr>an_aswitchtable := (an_aswitchtable an)(k \<mapsto> g v w)\<rparr>"
  have new: "map_of m k = None" using Cons.prems(1) kv by (simp add: map_of_eq_None_iff)
  have "rfold (\<lambda>(ij, v). upd_as ij (f v)) m ?an
    = Inr (?an\<lparr>an_aswitchtable := \<lambda>ij. map_option (\<lambda>w. case map_of m ij of None \<Rightarrow> w | Some v \<Rightarrow> g v w) (an_aswitchtable ?an ij)\<rparr>)"
  proof (rule Cons.IH)
    fix ij u assume u: "map_of m ij = Some u"
    then have "ij \<noteq> k" using new by auto
    then show "\<exists>w. an_aswitchtable ?an ij = Some w \<and> f u w = Inr (g u w)" using Cons.prems(2) [of ij u] kv u by simp
  qed (use Cons.prems(1) in simp)
  moreover have "(\<lambda>ij. map_option (\<lambda>w. case map_of m ij of None \<Rightarrow> w | Some v \<Rightarrow> g v w) (((an_aswitchtable an)(k \<mapsto> g v w)) ij))
    = (\<lambda>ij. map_option (\<lambda>w. case map_of (kv # m) ij of None \<Rightarrow> w | Some v \<Rightarrow> g v w) (an_aswitchtable an ij))"
    using w(1) new kv by (auto simp: fun_eq_iff)
  ultimately show ?case using w kv by (simp add: upd_as_ok)
qed

lemma ASNetwork_configure_ok:
  assumes c: "art_ok c"
    and t: "\<And>ij. art_switch c ij \<noteq> None \<or> art_childs c ij \<noteq> None \<or> art_memory c ij \<noteq> None \<Longrightarrow> an_aswitchtable an ij \<noteq> None"
    and f: "\<And>ij. art_fwlink c ij \<noteq> None \<Longrightarrow> \<exists>w. an_aswitchtable an ij = Some w \<and> as_forwardingConnection w \<noteq> None"
  shows "ASNetwork_configure c an = Inr (an\<lparr>an_aswitchtable := \<lambda>ij. map_option (configured c ij) (an_aswitchtable an ij)\<rparr>)"
proof -
  have d: "distinct (map fst (art_switches_configuration c))" "distinct (map fst (art_fwlinks_configuration c))"
    "distinct (map fst (art_childs_enabled c))" "distinct (map fst (art_forwarding_to_memory_enabled c))"
    using c by (auto simp: art_ok_def intro: smap_ok_distinct)
  define t1 where "t1 = (\<lambda>ij. map_option (\<lambda>w. case art_switch c ij of None \<Rightarrow> w | Some m \<Rightarrow> ASwitch_setConfigurationMode m w) (an_aswitchtable an ij))"
  define t2 where "t2 = (\<lambda>ij. map_option (\<lambda>w. case art_fwlink c ij of None \<Rightarrow> w | Some fl \<Rightarrow> w\<lparr>as_fw_enabled := True, as_fl_direction := fl\<rparr>) (t1 ij))"
  define t3 where "t3 = (\<lambda>ij. map_option (\<lambda>w. case art_childs c ij of None \<Rightarrow> w | Some b \<Rightarrow> ASwitch_setChildsEnabled (fst b) (snd b) w) (t2 ij))"
  have 1: "ASNetwork_addersConfiguration (art_switches_configuration c) an = Inr (an\<lparr>an_aswitchtable := t1\<rparr>)"
    unfolding ASNetwork_addersConfiguration_def t1_def art_switch_def
    by (rule upd_all [OF d(1), where f = "\<lambda>m. Inr \<circ> ASwitch_setConfigurationMode m"]) (use t in \<open>auto simp: art_switch_def\<close>)
  have 2: "ASNetwork_forwardingConfiguration (art_fwlinks_configuration c) (an\<lparr>an_aswitchtable := t1\<rparr>) = Inr (an\<lparr>an_aswitchtable := t2\<rparr>)"
  proof -
    have "\<exists>w. t1 ij = Some w \<and> ASwitch_setForwardingLinkDirection v w = Inr (w\<lparr>as_fw_enabled := True, as_fl_direction := v\<rparr>)"
      if v: "map_of (art_fwlinks_configuration c) ij = Some v" for ij v
    proof -
      obtain w where w: "an_aswitchtable an ij = Some w" "as_forwardingConnection w \<noteq> None" using f [of ij] v by (auto simp: art_fwlink_def)
      then show ?thesis by (auto simp: t1_def ASwitch_setForwardingLinkDirection_def ASwitch_setConfigurationMode_def split: option.split)
    qed
    then show ?thesis using upd_all [OF d(2), of "an\<lparr>an_aswitchtable := t1\<rparr>" ASwitch_setForwardingLinkDirection "\<lambda>v w. w\<lparr>as_fw_enabled := True, as_fl_direction := v\<rparr>"]
      by (simp add: ASNetwork_forwardingConfiguration_def t2_def art_fwlink_def)
  qed
  have t12: "t2 ij = None \<longleftrightarrow> an_aswitchtable an ij = None" "t3 ij = None \<longleftrightarrow> an_aswitchtable an ij = None" for ij
    by (simp_all add: t1_def t2_def t3_def)
  have 3: "ASNetwork_childsLinksConfiguration (art_childs_enabled c) (an\<lparr>an_aswitchtable := t2\<rparr>) = Inr (an\<lparr>an_aswitchtable := t3\<rparr>)"
  proof -
    have e: "(\<lambda>(ij, l, r). upd_as ij (Inr \<circ> ASwitch_setChildsEnabled l r)) = (\<lambda>(ij, v). upd_as ij (Inr \<circ> ASwitch_setChildsEnabled (fst v) (snd v)))"
      by (auto simp: fun_eq_iff)
    have "\<exists>w. t2 ij = Some w" if "map_of (art_childs_enabled c) ij = Some v" for ij v
      using t [of ij] t12(1) [of ij] that by (auto simp: art_childs_def)
    then show ?thesis
      using upd_all [OF d(3), of "an\<lparr>an_aswitchtable := t2\<rparr>" "\<lambda>v. Inr \<circ> ASwitch_setChildsEnabled (fst v) (snd v)" "\<lambda>v. ASwitch_setChildsEnabled (fst v) (snd v)"]
      by (simp add: ASNetwork_childsLinksConfiguration_def e t3_def art_childs_def)
  qed
  have 4: "ASNetwork_forwardingToMemoryConfiguration (art_forwarding_to_memory_enabled c) (an\<lparr>an_aswitchtable := t3\<rparr>)
     = Inr (an\<lparr>an_aswitchtable := \<lambda>ij. map_option (\<lambda>w. case art_memory c ij of None \<Rightarrow> w | Some b \<Rightarrow> ASwitch_setForwardingToMemoryEnabled b w) (t3 ij)\<rparr>)"
  proof -
    have "\<exists>w. t3 ij = Some w" if "map_of (art_forwarding_to_memory_enabled c) ij = Some v" for ij v
      using t [of ij] t12(2) [of ij] that by (auto simp: art_memory_def)
    then show ?thesis
      using upd_all [OF d(4), of "an\<lparr>an_aswitchtable := t3\<rparr>" "\<lambda>v. Inr \<circ> ASwitch_setForwardingToMemoryEnabled v" ASwitch_setForwardingToMemoryEnabled]
      by (simp add: ASNetwork_forwardingToMemoryConfiguration_def art_memory_def)
  qed
  have "(\<lambda>ij. map_option (\<lambda>w. case art_memory c ij of None \<Rightarrow> w | Some b \<Rightarrow> ASwitch_setForwardingToMemoryEnabled b w) (t3 ij))
    = (\<lambda>ij. map_option (configured c ij) (an_aswitchtable an ij))"
  proof
    fix ij
    show "map_option (\<lambda>w. case art_memory c ij of None \<Rightarrow> w | Some b \<Rightarrow> ASwitch_setForwardingToMemoryEnabled b w) (t3 ij)
      = map_option (configured c ij) (an_aswitchtable an ij)"
      by (cases "an_aswitchtable an ij") (auto simp: t1_def t2_def t3_def configured_def Let_def split: option.split)
  qed
  then show ?thesis by (simp add: ASNetwork_configure_def 1 2 3 4)
qed

end
