(* ===== verification/ArtJob.thy ===== *)
theory ArtJob
  imports ArtNet
begin

text \<open>
  A job of the tree: a plan and the packages that arrive on the leaf links, one wave per cycle. Which
  virtual neuron uses which input and which switch, when a wave passes there, and as what package.
\<close>

section \<open>Roles of an interval\<close>

text \<open>The two switches of a forwarding link.\<close>

definition partner :: "nat \<Rightarrow> nat" where
  "partner x = (if odd x then x + 1 else x - 1)"

lemma partner_partner: "0 < x \<Longrightarrow> partner (partner x) = x"
  by (auto simp: partner_def)

lemma role_partner:
  assumes "a \<le> b"
  shows "art_role a b x = Sender \<Longrightarrow> art_role a b (partner x) = Receiver"
    "art_role a b x = Receiver \<Longrightarrow> art_role a b (partner x) = Sender"
proof -
  define P Q where "P = a div 2" and "Q = b div 2"
  note defs = cut_left_def cut_right_def P_def [symmetric] Q_def [symmetric]
  have role: "art_role a b y = (if y < P \<or> Q < y then Idle else if cut_left a b \<and> y = P \<or> cut_right a b \<and> y = Q then Sender
      else if cut_left a b \<and> y = P + 1 \<or> cut_right a b \<and> y = Q - 1 then Receiver else Plain)" for y
    unfolding art_role_def P_def Q_def by (rule refl)
  have lft: "odd P" "P < Q" "\<not> (cut_right a b \<and> Q = P + 1)" if "cut_left a b" using that by (auto simp: defs)
  have rgt: "even Q" "P < Q" "\<not> (cut_left a b \<and> Q = P + 1)" if "cut_right a b" using that by (auto simp: defs)
  show "art_role a b (partner x) = Receiver" if se: "art_role a b x = Sender"
  proof -
    consider "cut_left a b" "x = P" | "cut_right a b" "x = Q" using se by (auto simp: role split: if_splits)
    then show ?thesis
    proof cases
      case 1
      then have "partner x = P + 1" using lft by (simp add: partner_def)
      then show ?thesis using lft [OF 1(1)] 1(1) by (auto simp: role)
    next
      case 2
      then have "partner x = Q - 1" using rgt by (simp add: partner_def)
      then show ?thesis using rgt [OF 2(1)] 2(1) by (auto simp: role)
    qed
  qed
  show "art_role a b (partner x) = Sender" if re: "art_role a b x = Receiver"
  proof -
    consider "cut_left a b" "x = P + 1" | "cut_right a b" "x = Q - 1" using re by (auto simp: role split: if_splits)
    then show ?thesis
    proof cases
      case 1
      then have "partner x = P" using lft by (simp add: partner_def)
      then show ?thesis using lft [OF 1(1)] 1(1) by (auto simp: role)
    next
      case 2
      then have "partner x = Q" using rgt by (auto simp: partner_def elim!: evenE)
      then show ?thesis using rgt [OF 2(1)] 2(1) by (auto simp: role)
    qed
  qed
qed

lemma role_receiver_full:
  assumes "a \<le> b" "admissible a b" "art_role a b x = Receiver" shows "a \<le> 2 * x" "2 * x + 1 \<le> b"
proof -
  define P Q where "P = a div 2" and "Q = b div 2"
  note d = half_bounds [of a, folded P_def] half_bounds [of b, folded Q_def]
  note defs = cut_left_def cut_right_def art_role_def P_def [symmetric] Q_def [symmetric]
  consider "x = P + 1" "4 * P + 3 < a + b" "P < Q" | "x + 1 = Q" "a + b < 4 * Q" "P < Q" "even Q"
    using assms(3) by (auto simp: defs split: if_splits)
  then have "a \<le> 2 * x \<and> 2 * x + 1 \<le> b"
  proof cases
    case 1
    then show ?thesis using d by linarith
  next
    case 2
    have "a \<noteq> 2 * Q - 1"
    proof
      assume a: "a = 2 * Q - 1"
      then have "b = a + 1" "odd a" using 2 d by auto
      then show False using assms(2) by (auto simp: admissible_def)
    qed
    then show ?thesis using 2 d by linarith
  qed
  then show "a \<le> 2 * x" "2 * x + 1 \<le> b" by simp_all
qed

lemma role_up: "a \<le> b \<Longrightarrow> art_role a b x \<in> {Plain, Receiver} \<longleftrightarrow> up_left a b \<le> x \<and> x \<le> up_right a b"
proof -
  assume "a \<le> b"
  define P Q where "P = a div 2" and "Q = b div 2"
  have "P \<le> Q" using \<open>a \<le> b\<close> by (simp add: P_def Q_def div_le_mono)
  have "cut_left a b \<Longrightarrow> P < Q" "cut_right a b \<Longrightarrow> P < Q" by (simp_all add: cut_left_def cut_right_def P_def Q_def)
  moreover have "art_role a b x \<in> {Plain, Receiver} \<longleftrightarrow>
      P \<le> x \<and> x \<le> Q \<and> \<not> (cut_left a b \<and> x = P) \<and> \<not> (cut_right a b \<and> x = Q)"
    unfolding art_role_def P_def Q_def by (simp split: if_split)
  moreover have "up_left a b = (if cut_left a b then P + 1 else P)" "up_right a b = (if cut_right a b then Q - 1 else Q)"
    by (simp_all add: up_left_def up_right_def P_def Q_def)
  ultimately show ?thesis using \<open>P \<le> Q\<close> by (simp split: if_split) linarith
qed

lemma role_aligned: "even a \<Longrightarrow> odd b \<Longrightarrow> art_role a b x \<noteq> Idle \<Longrightarrow> a \<le> 2 * x \<and> 2 * x + 1 \<le> b"
  unfolding role_touches by (auto elim!: evenE oddE)

lemma role_input: "a \<le> 2 * x \<and> 2 * x \<le> b \<or> a \<le> 2 * x + 1 \<and> 2 * x + 1 \<le> b \<longleftrightarrow> art_role a b x \<noteq> Idle" if "a \<le> b"
  unfolding role_touches using that half_bounds [of a] half_bounds [of b] by linarith

section \<open>Jobs\<close>

record 'd tree_job =
  job_levels :: nat
  job_plan :: "(nat \<times> nat) list"
  job_used :: nat
  job_input :: "nat \<Rightarrow> nat \<Rightarrow> 'd DataPackage"

text \<open>
  Package \<open>job_input t s\<close> arrives on leaf link \<open>s\<close> at the beginning of cycle \<open>t\<close>; it is not multicast
  and carries the number of the virtual neuron it belongs to.
\<close>

definition tree_job_ok :: "'d tree_job \<Rightarrow> bool" where
  "tree_job_ok J \<longleftrightarrow> 0 < job_levels J \<and> flow_ok (2 ^ job_levels J) (job_plan J) (job_used J)
     \<and> (\<forall>t i s. i < length (job_plan J) \<longrightarrow> fst (job_plan J ! i) \<le> s \<longrightarrow> s \<le> snd (job_plan J ! i) \<longrightarrow>
          p_VN (job_input J t s) = i \<and> p_traffic_type (job_input J t s) \<noteq> MULTICAST)"

abbreviation low :: "'d tree_job \<Rightarrow> nat \<Rightarrow> nat \<Rightarrow> nat" where "low J k i \<equiv> lo k (job_plan J ! i)"
abbreviation high :: "'d tree_job \<Rightarrow> nat \<Rightarrow> nat \<Rightarrow> nat" where "high J k i \<equiv> hi k (job_plan J ! i)"
abbreviation acts :: "'d tree_job \<Rightarrow> nat \<Rightarrow> nat \<Rightarrow> bool" where "acts J k i \<equiv> active (job_plan J) k i"
abbreviation rol :: "'d tree_job \<Rightarrow> nat \<Rightarrow> nat \<Rightarrow> nat \<Rightarrow> role" where "rol J k x i \<equiv> role_at (job_plan J) k x i"

text \<open>
  The virtual neuron that uses input \<open>s\<close> of level \<open>k\<close> (the leaf level is level 0), the one whose sum
  leaves switch \<open>x\<close> upwards, and the ones that receive and send over the forwarding link there.
\<close>

definition owns :: "'d tree_job \<Rightarrow> nat \<Rightarrow> nat \<Rightarrow> nat \<Rightarrow> bool" where
  "owns J k s i \<longleftrightarrow> acts J k i \<and> low J k i \<le> s \<and> s \<le> high J k i"

definition ups :: "'d tree_job \<Rightarrow> nat \<Rightarrow> nat \<Rightarrow> nat \<Rightarrow> bool" where
  "ups J k x i \<longleftrightarrow> acts J k i \<and> rol J k x i \<in> {Plain, Receiver}"

definition recvs :: "'d tree_job \<Rightarrow> nat \<Rightarrow> nat \<Rightarrow> nat \<Rightarrow> bool" where
  "recvs J k x i \<longleftrightarrow> acts J k i \<and> rol J k x i = Receiver"

definition sends :: "'d tree_job \<Rightarrow> nat \<Rightarrow> nat \<Rightarrow> nat \<Rightarrow> bool" where
  "sends J k x i \<longleftrightarrow> acts J k i \<and> rol J k x i = Sender"

definition the_vn :: "'d tree_job \<Rightarrow> (nat \<Rightarrow> bool) \<Rightarrow> nat option" where
  "the_vn J P = find P [0..<length (job_plan J)]"

lemma the_vn_Some:
  assumes "\<And>i j. P i \<Longrightarrow> P j \<Longrightarrow> i = j" "P i" "i < length (job_plan J)"
  shows "the_vn J P = Some i"
proof -
  have "\<exists>j. the_vn J P = Some j" using assms(2,3) by (cases "the_vn J P") (auto simp: the_vn_def find_None_iff)
  then show ?thesis using assms(1) [OF _ assms(2)] unfolding the_vn_def by (auto simp: find_Some_iff)
qed

lemma the_vn_None: "(\<And>i. i < length (job_plan J) \<Longrightarrow> \<not> P i) \<Longrightarrow> the_vn J P = None"
  by (auto simp: the_vn_def find_None_iff)

lemma acts_less: "acts J k i \<Longrightarrow> i < length (job_plan J)"
  by (simp add: active_def)

lemma job_plan_ok: "tree_job_ok J \<Longrightarrow> plan_ok (2 ^ job_levels J) (job_plan J)"
  by (simp add: tree_job_ok_def flow_ok_def)

lemma job_interval:
  assumes "tree_job_ok J" "i < length (job_plan J)"
  shows "low J k i \<le> high J k i" "admissible (low J k i) (high J k i)" "0 < k \<Longrightarrow> low J k i = high J k i \<or> even (low J k i) \<and> odd (high J k i)"
    "k \<le> job_levels J \<Longrightarrow> high J k i < 2 ^ (job_levels J - k)"
  using job_plan_ok [OF assms(1)] assms(2) climb_le [of "job_plan J ! i" k] climb_aligned [of "job_plan J ! i" k] climb_bound [of "job_plan J ! i" "job_levels J" k]
  by (auto simp: plan_ok_def)

lemma acts_level: "tree_job_ok J \<Longrightarrow> acts J k i \<Longrightarrow> k \<le> job_levels J \<Longrightarrow> k < job_levels J"
  using job_interval(4) [of J i k] by (cases "k = job_levels J") (auto simp: active_def)

text \<open>Above the leaves a switch of an active virtual neuron has both inputs.\<close>

lemma inputs_full:
  assumes J: "tree_job_ok J" and i: "acts J k i" "rol J k x i \<noteq> Idle" and k: "0 < k \<or> rol J k x i = Receiver"
  shows "owns J k (2 * x) i" "owns J k (2 * x + 1) i"
proof -
  have il: "i < length (job_plan J)" using i(1) by (rule acts_less)
  have "low J k i \<le> 2 * x \<and> 2 * x + 1 \<le> high J k i"
  proof (cases "rol J k x i = Receiver")
    case True
    then show ?thesis using role_receiver_full [OF job_interval(1,2) [OF J il]] by blast
  next
    case False
    then have "even (low J k i) \<and> odd (high J k i)" using k job_interval(3) [OF J il, of k] i(1) by (auto simp: active_def)
    then show ?thesis using role_aligned i(2) by blast
  qed
  then show "owns J k (2 * x) i" "owns J k (2 * x + 1) i" using i(1) by (simp_all add: owns_def)
qed

lemma owns_role: "owns J k s i \<Longrightarrow> rol J k (s div 2) i \<noteq> Idle"
  unfolding owns_def role_touches by (simp add: div_le_mono)

lemma role_owns:
  assumes "acts J k i" "rol J k x i \<noteq> Idle" shows "owns J k (2 * x) i \<or> owns J k (2 * x + 1) i"
  using assms role_input [of "low J k i" "high J k i" x] by (auto simp: active_def owns_def)

lemma owns_unique:
  assumes J: "tree_job_ok J" and o': "owns J k s i" "owns J k s j" shows "i = j"
proof (rule ccontr)
  assume ne: "i \<noteq> j"
  have "False" if "owns J k s i" "owns J k s j" "i < j" for i j
    using plan_apart [OF job_plan_ok [OF J] that(3), of k] that by (auto simp: owns_def active_def)
  then show False using o' ne by (metis linorder_neq_iff)
qed

text \<open>Two active virtual neurons at a switch share a leaf switch; the left one comes first.\<close>

lemma two_at_switch:
  assumes J: "tree_job_ok J" and i: "acts J k i" "rol J k x i \<noteq> Idle" and j: "acts J k j" "rol J k x j \<noteq> Idle" and lt: "i < j"
  shows "k = 0" "owns J 0 (2 * x) i" "owns J 0 (2 * x + 1) j" "rol J 0 x i = (if even x then Sender else Plain)" "rol J 0 x j = (if even x then Plain else Sender)"
proof -
  have jl: "j < length (job_plan J)" "j \<noteq> i" using j(1) lt acts_less by auto
  show k: "k = 0" by (rule active_alone(1) [OF job_plan_ok [OF J] i jl(1) j(2) jl(2)])
  have "snd (job_plan J ! i) = 2 * x \<and> fst (job_plan J ! j) = 2 * x + 1 \<and> rol J 0 x i = (if even x then Sender else Plain)
      \<and> rol J 0 x j = (if even x then Plain else Sender)" by (rule active_alone(2) [OF job_plan_ok [OF J] i jl(1) j(2) jl(2) lt])
  then show "owns J 0 (2 * x) i" "owns J 0 (2 * x + 1) j" "rol J 0 x i = (if even x then Sender else Plain)" "rol J 0 x j = (if even x then Plain else Sender)"
    using i(1) j(1) k by (auto simp: owns_def active_def)
qed

lemma roles_unique:
  assumes J: "tree_job_ok J" and r: "acts J k i" "acts J k j" "i \<noteq> j" "rol J k x i \<noteq> Idle" "rol J k x j \<noteq> Idle"
  shows "rol J k x i = Sender \<and> rol J k x j = Plain \<or> rol J k x i = Plain \<and> rol J k x j = Sender"
  using two_at_switch [OF J r(1,4,2,5)] two_at_switch [OF J r(2,5,1,4)] r(3) by (cases "i < j") auto

lemma ups_unique: "tree_job_ok J \<Longrightarrow> ups J k x i \<Longrightarrow> ups J k x j \<Longrightarrow> i = j"
  using roles_unique [of J k i j x] by (cases "i = j") (auto simp: ups_def)

lemma recvs_unique: "tree_job_ok J \<Longrightarrow> recvs J k x i \<Longrightarrow> recvs J k x j \<Longrightarrow> i = j"
  using roles_unique [of J k i j x] by (cases "i = j") (auto simp: recvs_def)

lemma sends_unique: "tree_job_ok J \<Longrightarrow> sends J k x i \<Longrightarrow> sends J k x j \<Longrightarrow> i = j"
  using roles_unique [of J k i j x] by (cases "i = j") (auto simp: sends_def)

text \<open>The sum leaves switch \<open>x\<close> for input \<open>x\<close> of the next level, or it is complete.\<close>

lemma ups_owns:
  assumes J: "tree_job_ok J"
  shows "ups J k x i \<longleftrightarrow> owns J (Suc k) x i \<or> acts J k i \<and> climb (Suc k) (job_plan J ! i) = (x, x)"
proof -
  have "acts J k i \<Longrightarrow> rol J k x i \<in> {Plain, Receiver} \<longleftrightarrow> low J (Suc k) i \<le> x \<and> x \<le> high J (Suc k) i"
    using role_up [of "low J k i" "high J k i" x] by (simp add: active_def)
  moreover have "acts J k i \<Longrightarrow> low J (Suc k) i \<le> high J (Suc k) i" using job_interval(1) [OF J acts_less, where k = "Suc k"] by blast
  ultimately show ?thesis using active_down [of "job_plan J" k i]
    by (auto simp: ups_def owns_def active_def prod_eq_iff simp del: climb.simps)
qed

lemma sends_partner: "sends J k x i \<Longrightarrow> recvs J k (partner x) i"
  using role_partner(1) [of "low J k i" "high J k i" x] by (simp add: sends_def recvs_def active_def)

lemma recvs_partner: "recvs J k x i \<Longrightarrow> sends J k (partner x) i"
  using role_partner(2) [of "low J k i" "high J k i" x] by (simp add: sends_def recvs_def active_def)

lemma linked_inside:
  assumes J: "tree_job_ok J" and k: "k < job_levels J" and i: "sends J k x i \<or> recvs J k x i"
  shows "0 < x" "x \<noteq> 2 ^ (job_levels J - Suc k) - 1" "x < 2 ^ (job_levels J - Suc k)"
proof -
  have il: "i < length (job_plan J)" using i by (auto simp: sends_def recvs_def active_def)
  have r: "rol J k x i \<in> {Receiver, Sender}" using i by (auto simp: sends_def recvs_def)
  have b: "high J k i < 2 ^ ((job_levels J - Suc k) + 1)" using job_interval(4) [OF J il, of k] k by (simp add: Suc_diff_Suc)
  show "0 < x" "x \<noteq> 2 ^ (job_levels J - Suc k) - 1" using role_linked [OF r job_interval(1) [OF J il] b] by simp_all
  show "x < 2 ^ (job_levels J - Suc k)" using beyond(1) [OF b, of x] r by (cases "x < 2 ^ (job_levels J - Suc k)") auto
qed

end
