(* ===== verification/ArtWave.thy ===== *)
theory ArtWave
  imports ArtJob
begin

text \<open>
  When a wave passes a switch and as what package, the packages that fifos and links hold between two
  cycles, and the cycle of a configured switch in these terms.
\<close>

section \<open>Time\<close>

text \<open>
  The cycles after its arrival at the leaves in which a wave can be read at input \<open>s\<close> of level \<open>k\<close>
  (\<open>tm\<close>), has both inputs of switch \<open>x\<close> there (\<open>ready\<close>), and is added up by the switch (\<open>fire\<close>).
\<close>

primrec tm :: "nat \<Rightarrow> nat \<times> nat \<Rightarrow> nat \<Rightarrow> nat" where
  "tm 0 ab s = 0"
| "tm (Suc k) ab x = Suc (if art_role (lo k ab) (hi k ab) x = Receiver
     then max (max (tm k ab (2 * x)) (tm k ab (2 * x + 1))) (Suc (max (tm k ab (2 * partner x)) (tm k ab (2 * partner x + 1))))
     else max (tm k ab (2 * x)) (tm k ab (2 * x + 1)))"

definition ready :: "nat \<Rightarrow> nat \<times> nat \<Rightarrow> nat \<Rightarrow> nat" where
  "ready k ab x = max (tm k ab (2 * x)) (tm k ab (2 * x + 1))"

definition fire :: "nat \<Rightarrow> nat \<times> nat \<Rightarrow> nat \<Rightarrow> nat" where
  "fire k ab x = (if art_role (lo k ab) (hi k ab) x = Receiver then max (ready k ab x) (Suc (ready k ab (partner x))) else ready k ab x)"

lemma tm_Suc: "tm (Suc k) ab x = Suc (fire k ab x)"
  by (simp add: fire_def ready_def)

declare tm.simps(2) [simp del]

lemma tm_ready: "tm k ab (2 * x) \<le> ready k ab x" "tm k ab (2 * x + 1) \<le> ready k ab x" "ready k ab x \<le> fire k ab x"
  by (auto simp: ready_def fire_def)

lemma tm_fire: "tm k ab s \<le> fire k ab (s div 2)"
proof -
  have "s = 2 * (s div 2) \<or> s = 2 * (s div 2) + 1" by presburger
  then have "tm k ab s \<le> ready k ab (s div 2)" using tm_ready(1,2) [of k ab "s div 2"] by metis
  then show ?thesis using tm_ready(3) [of k ab "s div 2"] by linarith
qed

section \<open>Packages\<close>

text \<open>
  The package of wave \<open>t\<close> at an input of level \<open>k\<close>, and the one that switch \<open>x\<close> makes of its own inputs.
\<close>

definition merge :: "nat \<Rightarrow> nat \<times> nat \<Rightarrow> (nat \<Rightarrow> 'd::plus DataPackage) \<Rightarrow> nat \<Rightarrow> 'd DataPackage" where
  "merge l ab p x =
     (if fst ab \<le> 2 * x \<and> 2 * x + 1 \<le> snd ab then sum2 l (p (2 * x)) (p (2 * x + 1))
      else if fst ab \<le> 2 * x \<and> 2 * x \<le> snd ab then copy_of (p (2 * x))
      else copy_of (p (2 * x + 1)))"

primrec pk :: "'d::plus tree_job \<Rightarrow> nat \<Rightarrow> nat \<times> nat \<Rightarrow> nat \<Rightarrow> nat \<Rightarrow> 'd DataPackage" where
  "pk J 0 ab s t = job_input J t s"
| "pk J (Suc k) ab x t =
     (let l = job_levels J - Suc k; p = (\<lambda>s. pk J k ab s t) in
      if art_role (lo k ab) (hi k ab) x = Receiver
      then sum3 l (p (2 * x)) (p (2 * x + 1)) (merge l (climb k ab) p (partner x))
      else merge l (climb k ab) p x)"

definition side :: "'d::plus tree_job \<Rightarrow> nat \<Rightarrow> nat \<times> nat \<Rightarrow> nat \<Rightarrow> nat \<Rightarrow> 'd DataPackage" where
  "side J k ab x t = merge (job_levels J - Suc k) (climb k ab) (\<lambda>s. pk J k ab s t) x"

lemma pk_Suc: "pk J (Suc k) ab x t = (if art_role (lo k ab) (hi k ab) x = Receiver
    then sum3 (job_levels J - Suc k) (pk J k ab (2 * x) t) (pk J k ab (2 * x + 1) t) (side J k ab (partner x) t)
    else side J k ab x t)"
  by (simp add: side_def Let_def)

declare pk.simps(2) [simp del]

text \<open>They all belong to the virtual neuron and are not multicast.\<close>

definition of_vn :: "nat \<Rightarrow> 'd DataPackage \<Rightarrow> bool" where
  "of_vn i p \<longleftrightarrow> p_VN p = i \<and> p_traffic_type p \<noteq> MULTICAST"

lemma of_vn_made: "of_vn i p \<Longrightarrow> of_vn i (copy_of p)" "of_vn i p \<Longrightarrow> of_vn i (sum2 l p q)" "of_vn i p \<Longrightarrow> of_vn i (sum3 l p q r)"
  by (simp_all add: of_vn_def copy_of_def DataPackage_copy_def Let_def DataPackage_general_def sum2_def sum3_def DataPackage_psum_def)

lemma merge_of_vn:
  assumes "a \<le> b" "art_role a b x \<noteq> Idle" "\<And>s. a \<le> s \<Longrightarrow> s \<le> b \<Longrightarrow> of_vn i (p s)"
  shows "of_vn i (merge l (a, b) p x)"
  using role_input [OF assms(1), of x] assms(2,3) by (auto simp: merge_def intro: of_vn_made)

lemma pk_of_vn:
  assumes J: "tree_job_ok J" and i: "i < length (job_plan J)" and s: "low J k i \<le> s" "s \<le> high J k i"
  shows "of_vn i (pk J k (job_plan J ! i) s t)"
  using s
proof (induction k arbitrary: s)
  case 0
  then show ?case using J i by (simp add: tree_job_ok_def of_vn_def)
next
  case (Suc k)
  note le = job_interval(1,2) [OF J i, of k]
  have "rol J k s i \<in> {Plain, Receiver}" using role_up [OF le(1), of s] Suc.prems by simp
  then show ?case
    using merge_of_vn [OF le(1), of s i "\<lambda>s. pk J k (job_plan J ! i) s t"] Suc.IH role_receiver_full [OF le, of s]
    by (auto simp: pk_Suc side_def intro!: of_vn_made)
qed

lemma side_of_vn:
  assumes J: "tree_job_ok J" and i: "acts J k i" "rol J k x i \<noteq> Idle"
  shows "of_vn i (side J k (job_plan J ! i) x t)"
  unfolding side_def
  using merge_of_vn [OF job_interval(1) [OF J acts_less [OF i(1)]] i(2), of i "\<lambda>s. pk J k (job_plan J ! i) s t"]
    pk_of_vn [OF J acts_less [OF i(1)]] by simp

section \<open>Waves in flight\<close>

text \<open>The waves that have arrived \<open>a\<close> cycles after the leaves and leave after \<open>f\<close>, after \<open>T\<close> cycles.\<close>

definition waits :: "(nat \<Rightarrow> 'p) \<Rightarrow> nat \<Rightarrow> nat \<Rightarrow> nat \<Rightarrow> 'p list" where
  "waits p a f T = map p [T - f..<T - a]"

definition comes :: "(nat \<Rightarrow> 'p) \<Rightarrow> nat \<Rightarrow> nat \<Rightarrow> 'p list" where
  "comes p a T = map p [T - a..<Suc T - a]"

lemma comes_eq: "comes p a T = (if a \<le> T then [p (T - a)] else [])"
  by (simp add: comes_def Suc_diff_le)

lemma comes_0 [simp]: "comes p 0 T = [p T]"
  by (simp add: comes_eq)

lemma waits_same [simp]: "waits p a a T = []"
  by (simp add: waits_def)

lemma waits_comes: "a \<le> f \<Longrightarrow> waits p a f T @ comes p a T = map p [T - f..<Suc T - a]"
proof -
  assume "a \<le> f"
  then have "[T - f..<Suc T - a] = [T - f..<T - a] @ [T - a..<Suc T - a]"
    by (metis upt_add_eq_append le_add_diff_inverse diff_le_mono2 diff_le_mono le_SucI order_refl)
  then show ?thesis by (simp add: waits_def comes_def)
qed

text \<open>What a switch finds in an input when it routes, and what is left of it.\<close>

lemma waits_step:
  assumes "a \<le> f"
  shows "waits p a f T @ comes p a T = [] \<longleftrightarrow> T < a"
    "f \<le> T \<Longrightarrow> hd (waits p a f T @ comes p a T) = p (T - f)"
    "f \<le> T \<Longrightarrow> tl (waits p a f T @ comes p a T) = waits p a f (Suc T)"
    "T < f \<Longrightarrow> waits p a f T @ comes p a T = waits p a f (Suc T)"
proof -
  note w = waits_comes [OF assms, of p T]
  show "waits p a f T @ comes p a T = [] \<longleftrightarrow> T < a" unfolding w using assms by auto
  show "T < f \<Longrightarrow> waits p a f T @ comes p a T = waits p a f (Suc T)" unfolding w by (simp add: waits_def)
  show "hd (waits p a f T @ comes p a T) = p (T - f)" "tl (waits p a f T @ comes p a T) = waits p a f (Suc T)" if "f \<le> T"
  proof -
    have "[T - f..<Suc T - a] = (T - f) # [Suc T - f..<Suc T - a]" using that assms by (subst upt_conv_Cons) (auto simp: Suc_diff_le)
    then show "hd (waits p a f T @ comes p a T) = p (T - f)" "tl (waits p a f T @ comes p a T) = waits p a f (Suc T)"
      unfolding w by (simp_all add: waits_def)
  qed
qed

definition held_at :: "'d::plus tree_job \<Rightarrow> nat \<Rightarrow> nat \<Rightarrow> nat \<Rightarrow> 'd DataPackage list" where
  "held_at J k s T = (case the_vn J (owns J k s) of None \<Rightarrow> []
     | Some i \<Rightarrow> waits (pk J k (job_plan J ! i) s) (tm k (job_plan J ! i) s) (fire k (job_plan J ! i) (s div 2)) T)"

definition coming :: "'d::plus tree_job \<Rightarrow> nat \<Rightarrow> nat \<Rightarrow> nat \<Rightarrow> 'd DataPackage list" where
  "coming J k s T = (case the_vn J (owns J k s) of None \<Rightarrow> []
     | Some i \<Rightarrow> comes (pk J k (job_plan J ! i) s) (tm k (job_plan J ! i) s) T)"

text \<open>The same for the forwarding link that switch \<open>x\<close> receives from.\<close>

definition side_held :: "'d::plus tree_job \<Rightarrow> nat \<Rightarrow> nat \<Rightarrow> nat \<Rightarrow> 'd DataPackage list" where
  "side_held J k x T = (case the_vn J (recvs J k x) of None \<Rightarrow> []
     | Some i \<Rightarrow> waits (side J k (job_plan J ! i) (partner x)) (Suc (ready k (job_plan J ! i) (partner x))) (fire k (job_plan J ! i) x) T)"

definition side_coming :: "'d::plus tree_job \<Rightarrow> nat \<Rightarrow> nat \<Rightarrow> nat \<Rightarrow> 'd DataPackage list" where
  "side_coming J k x T = (case the_vn J (recvs J k x) of None \<Rightarrow> []
     | Some i \<Rightarrow> comes (side J k (job_plan J ! i) (partner x)) (Suc (ready k (job_plan J ! i) (partner x))) T)"

text \<open>What a switch sends upwards, to its parent or to memory, in cycle \<open>T\<close>.\<close>

definition going :: "'d::plus tree_job \<Rightarrow> nat \<Rightarrow> nat \<Rightarrow> nat \<Rightarrow> 'd DataPackage list" where
  "going J k x T = (case the_vn J (ups J k x) of None \<Rightarrow> []
     | Some i \<Rightarrow> comes (pk J (Suc k) (job_plan J ! i) x) (fire k (job_plan J ! i) x) T)"

lemma vn_owns: "tree_job_ok J \<Longrightarrow> owns J k s i \<Longrightarrow> the_vn J (owns J k s) = Some i"
  by (rule the_vn_Some) (auto intro: owns_unique acts_less simp: owns_def)

lemma vn_ups: "tree_job_ok J \<Longrightarrow> ups J k x i \<Longrightarrow> the_vn J (ups J k x) = Some i"
  by (rule the_vn_Some) (auto intro: ups_unique acts_less simp: ups_def)

lemma vn_recvs: "tree_job_ok J \<Longrightarrow> recvs J k x i \<Longrightarrow> the_vn J (recvs J k x) = Some i"
  by (rule the_vn_Some) (auto intro: recvs_unique acts_less simp: recvs_def)

lemma coming_owner: "tree_job_ok J \<Longrightarrow> owns J k s i \<Longrightarrow>
    coming J k s T = comes (pk J k (job_plan J ! i) s) (tm k (job_plan J ! i) s) T"
  by (simp add: coming_def vn_owns)

lemma held_owner: "tree_job_ok J \<Longrightarrow> owns J k s i \<Longrightarrow>
    held_at J k s T = waits (pk J k (job_plan J ! i) s) (tm k (job_plan J ! i) s) (fire k (job_plan J ! i) (s div 2)) T"
  by (simp add: held_at_def vn_owns)

lemma unowned: "(\<And>i. \<not> owns J k s i) \<Longrightarrow> held_at J k s T = []" "(\<And>i. \<not> owns J k s i) \<Longrightarrow> coming J k s T = []"
  using the_vn_None [of J "owns J k s"] by (simp_all add: held_at_def coming_def)

text \<open>The sum that is not complete is what comes to the next level.\<close>

lemma going_up:
  assumes J: "tree_job_ok J" and i: "owns J (Suc k) x i" shows "going J k x T = coming J (Suc k) x (Suc T)"
proof -
  have "ups J k x i" using i ups_owns [OF J] by simp
  then show ?thesis using vn_ups [OF J] vn_owns [OF J i] by (simp add: going_def coming_def tm_Suc comes_def)
qed

end
