(* ===== verification/ArtRoute.thy ===== *)
theory ArtRoute
  imports ArtWave
begin

text \<open>
  What the switches of a configured tree are told, and what each does with the waves it finds in its
  inputs.
\<close>

section \<open>What a switch is told\<close>

definition sends_up :: "adderconfig_t option \<times> fl_t option \<Rightarrow> bool" where
  "sends_up e = (case fst e of None \<Rightarrow> False
     | Some cfg \<Rightarrow> cfg = ADD_3_1 \<or> cfg = ADD_1_1_PLUS_FW_1_1 \<or> cfg = FW_2_2 \<or> (cfg = ADD_2_1 \<and> snd e = None))"

abbreviation ent :: "'d tree_job \<Rightarrow> nat \<Rightarrow> nat \<Rightarrow> adderconfig_t option \<times> fl_t option" where
  "ent J k x \<equiv> entry (job_plan J) (length (job_plan J)) k x"

definition told :: "'d tree_job \<Rightarrow> cid option \<Rightarrow> nat \<Rightarrow> nat \<Rightarrow> 'd ASwitch \<Rightarrow> bool" where
  "told J out k x w \<longleftrightarrow> (let l = job_levels J - Suc k in
     as_level w = l \<and> as_num_in_level w = x \<and> as_operation_mode w = ADDER
   \<and> as_inputLeftConnection w = Some (RnLink l (2 * x)) \<and> as_inputRightConnection w = Some (RnLink l (2 * x + 1))
   \<and> as_forwardingConnection w = fw_link l x
   \<and> as_target w = (if \<exists>i < length (job_plan J). climb (Suc k) (job_plan J ! i) = (x, x) then as_memoryConnection w
                    else if l = 0 then out else Some (RnLink (l - 1) x))
   \<and> as_config_mode w = (case fst (ent J k x) of None \<Rightarrow> ADD_2_1 | Some m \<Rightarrow> m)
   \<and> as_fw_enabled w = (snd (ent J k x) \<noteq> None) \<and> (\<forall>fl. snd (ent J k x) = Some fl \<longrightarrow> as_fl_direction w = fl)
   \<and> (if k = 0 then as_left_child_enabled w = (2 * x < job_used J) \<and> as_right_child_enabled w = (2 * x + 1 < job_used J)
      else as_left_child_enabled w = sends_up (ent J (k - 1) (2 * x)) \<and> as_right_child_enabled w = sends_up (ent J (k - 1) (2 * x + 1))))"

lemma configured_fields:
  "as_level (configured c ij w) = as_level w" "as_num_in_level (configured c ij w) = as_num_in_level w"
  "as_operation_mode (configured c ij w) = as_operation_mode w"
  "as_inputLeftConnection (configured c ij w) = as_inputLeftConnection w" "as_inputRightConnection (configured c ij w) = as_inputRightConnection w"
  "as_outputConnection (configured c ij w) = as_outputConnection w" "as_memoryConnection (configured c ij w) = as_memoryConnection w"
  "as_forwardingConnection (configured c ij w) = as_forwardingConnection w"
  "as_input_psum_left_fifo (configured c ij w) = as_input_psum_left_fifo w" "as_input_psum_right_fifo (configured c ij w) = as_input_psum_right_fifo w"
  "as_input_fw_fifo (configured c ij w) = as_input_fw_fifo w"
  "as_output_psum_fifo (configured c ij w) = as_output_psum_fifo w" "as_output_fw_fifo (configured c ij w) = as_output_fw_fifo w"
  "as_config_mode (configured c ij w) = (case art_switch c ij of None \<Rightarrow> as_config_mode w | Some m \<Rightarrow> m)"
  "as_fw_enabled (configured c ij w) = (art_fwlink c ij \<noteq> None \<or> as_fw_enabled w)"
  "as_fl_direction (configured c ij w) = (case art_fwlink c ij of None \<Rightarrow> as_fl_direction w | Some fl \<Rightarrow> fl)"
  "as_left_child_enabled (configured c ij w) = (case art_childs c ij of None \<Rightarrow> as_left_child_enabled w | Some b \<Rightarrow> fst b)"
  "as_right_child_enabled (configured c ij w) = (case art_childs c ij of None \<Rightarrow> as_right_child_enabled w | Some b \<Rightarrow> snd b)"
  "as_forward_to_memory (configured c ij w) = (case art_memory c ij of None \<Rightarrow> as_forward_to_memory w | Some b \<Rightarrow> b)"
  by (cases "art_switch c ij"; cases "art_fwlink c ij"; cases "art_childs c ij"; cases "art_memory c ij";
      simp add: configured_def ASwitch_setConfigurationMode_def ASwitch_setChildsEnabled_def ASwitch_setForwardingToMemoryEnabled_def
        case_prod_beta)+

lemma configured_told:
  assumes J: "0 < job_levels J" and s: "art_signals (job_levels J) (job_plan J) (job_used J) c" and k: "k < job_levels J" and l: "l = job_levels J - Suc k"
    and x: "x < 2 ^ l" and w: "placed out l x w" "as_forwardingConnection w = fw_link l x"
  shows "told J out k x (configured c (l, x) w)" "as_memoryConnection (configured c (l, x) w) = as_memoryConnection w"
    "as_has (configured c (l, x) w) ([], [], []) ([], []) (configured c (l, x) w)"
proof -
  have lL: "l < job_levels J" "job_levels J - Suc l = k" "job_levels J - l = Suc k" using k l by auto
  have e: "art_switch c (l, x) = fst (ent J k x)" "art_fwlink c (l, x) = snd (ent J k x)"
    "art_memory c (l, x) = (if \<exists>i < length (job_plan J). climb (Suc k) (job_plan J ! i) = (x, x) then Some True else None)"
    "art_childs c (l, x) = Some (childs_of (job_levels J) (job_used J) c l x)"
    using s lL x by (simp_all add: art_signals_def del: climb.simps)
  have up: "art_sends_up c (l + 1, y) = sends_up (ent J (k - 1) y)" if "0 < k" for y
  proof -
    have "l + 1 < job_levels J" "job_levels J - Suc (l + 1) = k - 1" using that l k by auto
    then show ?thesis using s by (simp add: art_sends_up_def sends_up_def art_signals_def cong: option.case_cong)
  qed
  have "l = job_levels J - 1 \<longleftrightarrow> k = 0" using l k by auto
  then have ch: "childs_of (job_levels J) (job_used J) c l x = (if k = 0 then (2 * x < job_used J, 2 * x + 1 < job_used J)
     else (sends_up (ent J (k - 1) (2 * x)), sends_up (ent J (k - 1) (2 * x + 1))))"
    using up by (simp add: childs_of_def)
  obtain M where M: "M \<longleftrightarrow> (\<exists>i < length (job_plan J). climb (Suc k) (job_plan J ! i) = (x, x))" by blast
  show "told J out k x (configured c (l, x) w)"
    unfolding told_def Let_def l [symmetric] e M [symmetric] using w unfolding as_target_def configured_fields e ch placed_def M [symmetric]
    by (intro conjI; simp split: option.split if_split)
  show "as_memoryConnection (configured c (l, x) w) = as_memoryConnection w" by (rule configured_fields)
  show "as_has (configured c (l, x) w) ([], [], []) ([], []) (configured c (l, x) w)"
    using w by (simp add: as_has_def configured_fields placed_def)
qed

text \<open>The children of a switch that send to it are enabled.\<close>

lemma owned_used: "tree_job_ok J \<Longrightarrow> s < job_used J \<longleftrightarrow> (\<exists>i. owns J 0 s i)"
  using active_0 [of "2 ^ job_levels J" "job_plan J" "job_used J"] by (auto simp: tree_job_ok_def flow_ok_def owns_def active_def)

lemma children_enabled:
  assumes J: "tree_job_ok J" and t: "told J out k x w"
  shows "owns J k (2 * x) i \<Longrightarrow> as_left_child_enabled w" "owns J k (2 * x + 1) i \<Longrightarrow> as_right_child_enabled w"
proof -
  have up: "sends_up (ent J (k - 1) y)" if "owns J k y i" "0 < k" for y
  proof -
    have "active (job_plan J) (Suc (k - 1)) i" "lo (Suc (k - 1)) (job_plan J ! i) \<le> y" "y \<le> hi (Suc (k - 1)) (job_plan J ! i)"
      using that by (simp_all add: owns_def del: climb.simps)
    from entry_sends_up [OF job_plan_ok [OF J] this] show ?thesis by (auto simp: sends_up_def)
  qed
  have ch: "if k = 0 then as_left_child_enabled w = (2 * x < job_used J) \<and> as_right_child_enabled w = (2 * x + 1 < job_used J)
      else as_left_child_enabled w = sends_up (ent J (k - 1) (2 * x)) \<and> as_right_child_enabled w = sends_up (ent J (k - 1) (2 * x + 1))"
    using t unfolding told_def Let_def by blast
  have "k = 0 \<Longrightarrow> owns J k s i \<Longrightarrow> s < job_used J" for s using owned_used [OF J] by auto
  then show "owns J k (2 * x) i \<Longrightarrow> as_left_child_enabled w" "owns J k (2 * x + 1) i \<Longrightarrow> as_right_child_enabled w"
    using ch up [of "2 * x"] up [of "2 * x + 1"] by (auto split: if_splits)
qed

section \<open>What goes over a forwarding link\<close>

definition side_going :: "'d::plus tree_job \<Rightarrow> nat \<Rightarrow> nat \<Rightarrow> nat \<Rightarrow> 'd DataPackage list" where
  "side_going J k x T = (case the_vn J (sends J k x) of None \<Rightarrow> []
     | Some i \<Rightarrow> comes (side J k (job_plan J ! i) x) (ready k (job_plan J ! i) x) T)"

lemma vn_sends: "tree_job_ok J \<Longrightarrow> sends J k x i \<Longrightarrow> the_vn J (sends J k x) = Some i"
  by (rule the_vn_Some) (auto intro: sends_unique acts_less simp: sends_def)

lemma side_going_coming:
  assumes J: "tree_job_ok J" and i: "sends J k x i" and x: "0 < x"
  shows "side_going J k x T = side_coming J k (partner x) (Suc T)"
  using vn_sends [OF J i] vn_recvs [OF J sends_partner [OF i]] partner_partner [OF x]
  by (simp add: side_going_def side_coming_def comes_def)

lemma no_ups: "(\<And>i. \<not> ups J k x i) \<Longrightarrow> going J k x T = []"
  using the_vn_None [of J "ups J k x"] by (simp add: going_def)

lemma no_recvs: "(\<And>i. \<not> recvs J k x i) \<Longrightarrow> side_held J k x T = []" "(\<And>i. \<not> recvs J k x i) \<Longrightarrow> side_coming J k x T = []"
  using the_vn_None [of J "recvs J k x"] by (simp_all add: side_held_def side_coming_def)

lemma no_sends: "(\<And>i. \<not> sends J k x i) \<Longrightarrow> side_going J k x T = []"
  using the_vn_None [of J "sends J k x"] by (simp add: side_going_def)

section \<open>Routing a wave\<close>

definition routes :: "'d::{plus,ord} tree_job \<Rightarrow> nat \<Rightarrow> nat \<Rightarrow> nat \<Rightarrow> 'd ASwitch \<Rightarrow> bool" where
  "routes J k x T w0 \<longleftrightarrow> (\<forall>v. as_has w0 (held_at J k (2 * x) T @ coming J k (2 * x) T, held_at J k (2 * x + 1) T @ coming J k (2 * x + 1) T,
       side_held J k x T @ side_coming J k x T) ([], []) v \<longrightarrow>
     (\<exists>v'. ASwitch_route v = Inr v'
       \<and> as_has w0 (held_at J k (2 * x) (Suc T), held_at J k (2 * x + 1) (Suc T), side_held J k x (Suc T)) (going J k x T, side_going J k x T) v'))"

lemma role_other:
  assumes "acts J k i" "rol J k x i \<noteq> Idle" "\<And>j. acts J k j \<Longrightarrow> rol J k x j \<noteq> Idle \<Longrightarrow> j = i"
  shows "ups J k x j \<longleftrightarrow> j = i \<and> rol J k x i \<noteq> Sender" "sends J k x j \<longleftrightarrow> j = i \<and> rol J k x i = Sender"
    "recvs J k x j \<longleftrightarrow> j = i \<and> rol J k x i = Receiver"
proof -
  have "rol J k x i = Plain \<or> rol J k x i = Receiver \<or> rol J k x i = Sender" using assms(2) by (cases "rol J k x i") simp_all
  moreover have "j \<noteq> i \<Longrightarrow> \<not> (acts J k j \<and> rol J k x j \<noteq> Idle)" using assms(3) by blast
  ultimately show "ups J k x j \<longleftrightarrow> j = i \<and> rol J k x i \<noteq> Sender" "sends J k x j \<longleftrightarrow> j = i \<and> rol J k x i = Sender"
    "recvs J k x j \<longleftrightarrow> j = i \<and> rol J k x i = Receiver"
    using assms(1) by (cases "j = i"; auto simp: ups_def sends_def recvs_def)+
qed

lemma input_other: "(\<And>j. acts J k j \<Longrightarrow> rol J k x j \<noteq> Idle \<Longrightarrow> j = i) \<Longrightarrow> s div 2 = x \<Longrightarrow> owns J k s j \<Longrightarrow> j = i"
  using owns_role [of J k s j] by (auto simp: owns_def)

text \<open>A switch that no virtual neuron uses.\<close>

lemma routes_idle:
  assumes J: "tree_job_ok J" and t: "told J out k x w0" and n: "\<And>i. acts J k i \<Longrightarrow> rol J k x i = Idle"
  shows "routes J k x T w0"
proof -
  have o': "\<not> owns J k (2 * x) i" "\<not> owns J k (2 * x + 1) i" for i
    using n [of i] owns_role [of J k "2 * x" i] owns_role [of J k "2 * x + 1" i] by (auto simp: owns_def)
  have r: "\<not> ups J k x i" "\<not> recvs J k x i" "\<not> sends J k x i" for i using n [of i] by (auto simp: ups_def recvs_def sends_def)
  have e: "ent J k x \<in> {(None, None), (Some ADD_2_1, None), (Some FW_2_2, None)}" by (rule entry_inactive) (rule n)
  have "as_config_mode w0 \<in> {ADD_2_1, FW_2_2}" using t e by (auto simp: told_def Let_def)
  moreover have "held_at J k (2 * x) T = []" "held_at J k (2 * x + 1) T = []" "coming J k (2 * x) T = []" "coming J k (2 * x + 1) T = []" for T
    by (rule unowned(1), rule o') (rule unowned(1), rule o', rule unowned(2), rule o', rule unowned(2), rule o')
  moreover have "side_held J k x T = []" "side_coming J k x T = []" "going J k x T = []" "side_going J k x T = []" for T
    using no_ups no_recvs no_sends r by blast+
  ultimately show ?thesis using route_idle [of w0] unfolding routes_def by simp
qed

lemma routes_receiver:
  assumes J: "tree_job_ok J" and t: "told J out k x w0" and i: "recvs J k x i"
  shows "routes J k x T w0"
  unfolding routes_def
proof (intro allI impI)
  let ?iv = "job_plan J ! i" and ?F = "fire k (job_plan J ! i) x"
  have a: "acts J k i" "rol J k x i = Receiver" using i by (simp_all add: recvs_def)
  note il = acts_less [OF a(1)]
  have only: "j = i" if "acts J k j" "rol J k x j \<noteq> Idle" for j using roles_unique [OF J that(1) a(1) _ that(2)] a(2) by auto
  have "rol J k x i \<noteq> Idle" using a(2) by simp
  note oth = role_other [OF a(1) this only]
  have up: "ups J k x i" "\<not> sends J k x j" for j using oth a(2) by auto
  have o': "owns J k (2 * x) i" "owns J k (2 * x + 1) i" using inputs_full [OF J a(1)] a(2) by simp_all
  have side: "sends J k (partner x) i" by (rule recvs_partner [OF i])
  have F: "tm k ?iv (2 * x) \<le> ?F" "tm k ?iv (2 * x + 1) \<le> ?F" "Suc (ready k ?iv (partner x)) \<le> ?F"
    "?F = max (max (tm k ?iv (2 * x)) (tm k ?iv (2 * x + 1))) (Suc (ready k ?iv (partner x)))"
    using a(2) by (auto simp: fire_def ready_def)
  have e: "ent J k x = (Some ADD_3_1, Some RECEIVE)" by (rule entry_receiver [OF job_plan_ok [OF J] a])
  have c: "as_config_mode w0 = ADD_3_1" "as_operation_mode w0 = ADDER" "as_left_child_enabled w0" "as_right_child_enabled w0" "as_fw_enabled w0"
    "as_fl_direction w0 = RECEIVE" "as_level w0 = job_levels J - Suc k"
    using t e children_enabled [OF J t] o' by (auto simp: told_def Let_def)
  let ?p = "pk J k ?iv (2 * x)" and ?q = "pk J k ?iv (2 * x + 1)" and ?r = "side J k ?iv (partner x)"
  have h: "held_at J k (2 * x) T = waits ?p (tm k ?iv (2 * x)) ?F T" "held_at J k (2 * x + 1) T = waits ?q (tm k ?iv (2 * x + 1)) ?F T"
    "coming J k (2 * x) T = comes ?p (tm k ?iv (2 * x)) T" "coming J k (2 * x + 1) T = comes ?q (tm k ?iv (2 * x + 1)) T"
    "side_held J k x T = waits ?r (Suc (ready k ?iv (partner x))) ?F T" "side_coming J k x T = comes ?r (Suc (ready k ?iv (partner x))) T"
    "going J k x T = comes (pk J (Suc k) ?iv x) ?F T" "side_going J k x T = []" for T
    using held_owner [OF J o'(1)] held_owner [OF J o'(2)] coming_owner [OF J o'(1)] coming_owner [OF J o'(2)] vn_recvs [OF J i]
      vn_ups [OF J up(1)] up(2) by (simp_all add: side_held_def side_coming_def going_def no_sends)
  have vn: "p_VN (?p t) = i" "p_VN (?q t) = i" "p_VN (?r t) = i" for t
    using pk_of_vn [OF J il, of k "2 * x" t] pk_of_vn [OF J il, of k "2 * x + 1" t] side_of_vn [OF J a(1), of "partner x" t] o' side
    by (auto simp: of_vn_def owns_def sends_def)
  fix v assume v: "as_has w0 (held_at J k (2 * x) T @ coming J k (2 * x) T, held_at J k (2 * x + 1) T @ coming J k (2 * x + 1) T,
       side_held J k x T @ side_coming J k x T) ([], []) v"
  note w = waits_step [OF F(1), where p = ?p and T = T] waits_step [OF F(2), where p = ?q and T = T] waits_step [OF F(3), where p = ?r and T = T]
  note r = route_three [OF v [unfolded h] c(1-6)]
  show "\<exists>v'. ASwitch_route v = Inr v' \<and> as_has w0 (held_at J k (2 * x) (Suc T), held_at J k (2 * x + 1) (Suc T), side_held J k x (Suc T))
     (going J k x T, side_going J k x T) v'"
  proof (cases "?F \<le> T")
    case True
    then have "\<not> (T < tm k ?iv (2 * x) \<or> T < tm k ?iv (2 * x + 1) \<or> T < Suc (ready k ?iv (partner x)))" using F(1-3) by linarith
    moreover have "comes (pk J (Suc k) ?iv x) ?F T = [sum3 (as_level w0) (?p (T - ?F)) (?q (T - ?F)) (?r (T - ?F))]"
      using True by (simp add: comes_eq pk_Suc a(2) c(7))
    ultimately show ?thesis using r w True vn unfolding h by (simp del: append_is_Nil_conv)
  next
    case False
    then have "T < tm k ?iv (2 * x) \<or> T < tm k ?iv (2 * x + 1) \<or> T < Suc (ready k ?iv (partner x))" using F(4) by auto
    moreover have "comes (pk J (Suc k) ?iv x) ?F T = []" using False by (simp add: comes_eq)
    ultimately show ?thesis using r w False unfolding h by (auto simp del: append_is_Nil_conv)
  qed
qed


text \<open>A switch of one virtual neuron that adds its inputs or passes the only one on.\<close>

lemma routes_alone:
  assumes J: "tree_job_ok J" and t: "told J out k x w0" and i: "acts J k i" "rol J k x i = Plain \<or> rol J k x i = Sender"
    and ex: "\<And>j. j < length (job_plan J) \<Longrightarrow> j \<noteq> i \<Longrightarrow> rol J k x j = Idle"
  shows "routes J k x T w0"
  unfolding routes_def
proof (intro allI impI)
  let ?iv = "job_plan J ! i"
  have ni: "rol J k x i \<noteq> Idle" using i(2) by auto
  note il = acts_less [OF i(1)]
  have only: "j = i" if "acts J k j" "rol J k x j \<noteq> Idle" for j using ex that acts_less by blast
  note oth = role_other [OF i(1) ni only]
  have F: "fire k ?iv x = ready k ?iv x" using i(2) by (auto simp: fire_def)
  have e: "ent J k x = (Some ADD_2_1, if rol J k x i = Sender then Some SEND else None)"
    using i(2) entry_exclusive [OF il ex] by auto
  have c: "as_config_mode w0 = ADD_2_1" "as_operation_mode w0 = ADDER" "as_fw_enabled w0 \<longleftrightarrow> rol J k x i = Sender" "as_level w0 = job_levels J - Suc k"
    using t e by (auto simp: told_def Let_def)
  let ?p = "pk J k ?iv (2 * x)" and ?q = "pk J k ?iv (2 * x + 1)" and ?out = "comes (side J k ?iv x) (ready k ?iv x) T"
  have out: "(going J k x T, side_going J k x T) = via w0 ?out"
  proof (cases "rol J k x i = Sender")
    case True
    then have "\<not> ups J k x j" "sends J k x i" for j using oth by auto
    then show ?thesis using vn_sends [OF J] True by (simp add: no_ups side_going_def via_def c(3))
  next
    case False
    then have "ups J k x i" "\<not> sends J k x j" for j using oth by auto
    then show ?thesis using vn_ups [OF J] False i(2) by (simp add: no_sends going_def via_def c(3) F comes_def pk_Suc)
  qed
  have sd: "side_held J k x T = []" "side_coming J k x T = []" for T using oth(3) i(2) by (auto simp: no_recvs)
  fix v assume v: "as_has w0 (held_at J k (2 * x) T @ coming J k (2 * x) T, held_at J k (2 * x + 1) T @ coming J k (2 * x + 1) T,
       side_held J k x T @ side_coming J k x T) ([], []) v"
  have vn: "of_vn i (pk J k ?iv s t)" if "owns J k s i" for s t using pk_of_vn [OF J il] that by (simp add: owns_def)
  note l = held_owner [OF J, where i = i and s = "2 * x" and k = k] coming_owner [OF J, where i = i and s = "2 * x" and k = k]
  note r = held_owner [OF J, where i = i and s = "2 * x + 1" and k = k] coming_owner [OF J, where i = i and s = "2 * x + 1" and k = k]
  have other: "\<not> owns J k s j" if "\<not> owns J k s i" "s div 2 = x" for s j using input_other [OF only that(2)] that(1) by blast
  consider (both) "owns J k (2 * x) i" "owns J k (2 * x + 1) i" | (left) "owns J k (2 * x) i" "\<not> owns J k (2 * x + 1) i"
    | (right) "owns J k (2 * x + 1) i" "\<not> owns J k (2 * x) i" using role_owns [OF i(1) ni] by blast
  then show "\<exists>v'. ASwitch_route v = Inr v' \<and> as_has w0 (held_at J k (2 * x) (Suc T), held_at J k (2 * x + 1) (Suc T), side_held J k x (Suc T))
     (going J k x T, side_going J k x T) v'"
  proof cases
    case both
    let ?R = "ready k ?iv x"
    have m: "side J k ?iv x t = sum2 (as_level w0) (?p t) (?q t)" for t
      using both by (simp add: side_def merge_def owns_def c(4))
    have ch: "as_left_child_enabled w0" "as_right_child_enabled w0" using children_enabled [OF J t] both by simp_all
    have h: "held_at J k (2 * x) T = waits ?p (tm k ?iv (2 * x)) ?R T" "held_at J k (2 * x + 1) T = waits ?q (tm k ?iv (2 * x + 1)) ?R T"
      "coming J k (2 * x) T = comes ?p (tm k ?iv (2 * x)) T" "coming J k (2 * x + 1) T = comes ?q (tm k ?iv (2 * x + 1)) T" for T
      using l [OF both(1)] r [OF both(2)] F by simp_all
    note w = waits_step [OF tm_ready(1), where p = ?p and T = T and k1 = k and ab1 = ?iv and x1 = x] waits_step [OF tm_ready(2), where p = ?q and T = T and k1 = k and ab1 = ?iv and x1 = x]
    have vv: "p_VN (?p t) = i" "p_VN (?q t) = i" for t using vn both by (simp_all add: of_vn_def)
    note rb = route_both [OF v [unfolded h sd] c(1,2) ch _ refl]
    show ?thesis
    proof (cases "?R \<le> T")
      case True
      then have "\<not> (T < tm k ?iv (2 * x) \<or> T < tm k ?iv (2 * x + 1))" using tm_ready(1,2) [of k ?iv x] by linarith
      moreover have "?out = [sum2 (as_level w0) (?p (T - ?R)) (?q (T - ?R))]" using True by (simp add: comes_eq m)
      ultimately show ?thesis using rb w True vv unfolding out h sd by (simp del: append_is_Nil_conv)
    next
      case False
      then have "T < tm k ?iv (2 * x) \<or> T < tm k ?iv (2 * x + 1)" by (auto simp: ready_def)
      moreover have "?out = []" using False by (simp add: comes_eq)
      ultimately show ?thesis using rb w False unfolding out h sd by (auto simp del: append_is_Nil_conv)
    qed
  next
    case left
    have k: "k = 0" using inputs_full [OF J i(1) ni] left by (cases k) auto
    have "\<not> 2 * x + 1 < job_used J" using owned_used [OF J, of "2 * x + 1"] other [OF left(2)] k by auto
    then have ch: "\<not> as_right_child_enabled w0" using t k by (simp add: told_def Let_def)
    have u: "held_at J k (2 * x + 1) T = []" "coming J k (2 * x + 1) T = []" for T
      using other [OF left(2)] by (simp_all add: unowned)
    have h: "held_at J k (2 * x) T = []" "coming J k (2 * x) T = [?p T]" for T
      using l [OF left(1)] F k by (simp_all add: ready_def)
    have m: "?out = [copy_of (?p T)]" using left k by (simp add: ready_def side_def merge_def owns_def)
    have "p_traffic_type (?p T) \<noteq> MULTICAST" using vn [OF left(1)] by (simp add: of_vn_def)
    then show ?thesis using route_left [OF v [unfolded h u sd append_Nil] c(1) ch _ refl] unfolding out h u sd m by simp
  next
    case right
    have k: "k = 0" using inputs_full [OF J i(1) ni] right by (cases k) auto
    have "\<not> 2 * x < job_used J" using owned_used [OF J, of "2 * x"] other [OF right(2)] k by auto
    then have ch: "\<not> as_left_child_enabled w0" using t k by (simp add: told_def Let_def)
    have u: "held_at J k (2 * x) T = []" "coming J k (2 * x) T = []" for T
      using other [OF right(2)] by (simp_all add: unowned)
    have h: "held_at J k (2 * x + 1) T = []" "coming J k (2 * x + 1) T = [?q T]" for T
      using r [OF right(1)] F k by (simp_all add: ready_def)
    have m: "?out = [copy_of (?q T)]" using right k by (auto simp add: ready_def side_def merge_def owns_def)
    have "p_traffic_type (?q T) \<noteq> MULTICAST" using vn [OF right(1)] by (simp add: of_vn_def)
    then show ?thesis using route_right [OF v [unfolded h u sd append_Nil] c(1) ch _ refl] unfolding out h u sd m by simp
  qed
qed

text \<open>A leaf switch that two virtual neurons share.\<close>

lemma routes_shared:
  assumes J: "tree_job_ok J" and t: "told J out k x w0" and i: "acts J k i" "rol J k x i \<noteq> Idle" and j: "acts J k j" "rol J k x j \<noteq> Idle" and lt: "i < j"
  shows "routes J k x T w0"
  unfolding routes_def
proof (intro allI impI)
  note two = two_at_switch [OF J i j lt]
  note il = acts_less [OF i(1)] and jl = acts_less [OF j(1)]
  have i0: "acts J 0 i" "rol J 0 x i \<noteq> Idle" and j0: "acts J 0 j" "rol J 0 x j \<noteq> Idle" using i j two(1) by simp_all
  have e: "ent J k x = (Some ADD_1_1_PLUS_FW_1_1, Some SEND)"
    using entry_shared [OF job_plan_ok [OF J] i0 jl j0(2) lt] two(1) by simp
  let ?p = "job_input J T (2 * x)" and ?q = "job_input J T (2 * x + 1)"
  have c: "as_config_mode w0 = ADD_1_1_PLUS_FW_1_1" "as_num_in_level w0 = x" using t e by (auto simp: told_def Let_def)
  have ch: "as_left_child_enabled w0" "as_right_child_enabled w0" using children_enabled [OF J t] two(1,2,3) by simp_all
  have ne: "\<not> owns J 0 (2 * x + 1) i" "\<not> owns J 0 (2 * x) j" using owns_unique [OF J] two(2,3) lt by blast+
  have F: "fire 0 (job_plan J ! i) x = 0" "fire 0 (job_plan J ! j) x = 0" "ready 0 (job_plan J ! i) x = 0" "ready 0 (job_plan J ! j) x = 0"
    using two(4,5) by (simp_all add: fire_def ready_def split: if_splits)
  have h: "held_at J k (2 * x) T = []" "held_at J k (2 * x + 1) T = []" "coming J k (2 * x) T = [job_input J T (2 * x)]" "coming J k (2 * x + 1) T = [job_input J T (2 * x + 1)]" for T
    using held_owner [OF J two(2)] held_owner [OF J two(3)] coming_owner [OF J two(2)] coming_owner [OF J two(3)] F two(1) by simp_all
  have m: "side J 0 (job_plan J ! i) x T = copy_of ?p" "side J 0 (job_plan J ! j) x T = copy_of ?q"
    using two(2,3) ne by (auto simp: side_def merge_def owns_def)
  have "rol J 0 x n \<noteq> Receiver" if "acts J 0 n" for n
    using roles_unique [OF J i0(1) that _ i0(2)] two(4) by (cases "n = i") (auto split: if_splits)
  then have sd: "side_held J k x T = []" "side_coming J k x T = []" for T using two(1) by (auto simp: no_recvs recvs_def)
  have go: "(going J k x T, side_going J k x T) = (if even (as_num_in_level w0) then ([copy_of ?q], [copy_of ?p]) else ([copy_of ?p], [copy_of ?q]))"
  proof (cases "even x")
    case True
    then have "ups J 0 x j" "sends J 0 x i" using two(4,5) i0 j0 by (simp_all add: ups_def sends_def)
    then show ?thesis using vn_ups [OF J] vn_sends [OF J] True two F m by (simp add: going_def side_going_def c(2) pk_Suc)
  next
    case False
    then have "ups J 0 x i" "sends J 0 x j" using two(4,5) i0 j0 by (simp_all add: ups_def sends_def)
    then show ?thesis using vn_ups [OF J] vn_sends [OF J] False two F m by (simp add: going_def side_going_def c(2) pk_Suc)
  qed
  have vn: "of_vn i ?p" "of_vn j ?q" using pk_of_vn [OF J il, where k = 0 and s = "2 * x"] pk_of_vn [OF J jl, where k = 0 and s = "2 * x + 1"] two(2,3)
    by (simp_all add: owns_def)
  fix v assume v: "as_has w0 (held_at J k (2 * x) T @ coming J k (2 * x) T, held_at J k (2 * x + 1) T @ coming J k (2 * x + 1) T,
       side_held J k x T @ side_coming J k x T) ([], []) v"
  show "\<exists>v'. ASwitch_route v = Inr v' \<and> as_has w0 (held_at J k (2 * x) (Suc T), held_at J k (2 * x + 1) (Suc T), side_held J k x (Suc T))
     (going J k x T, side_going J k x T) v'"
    using route_split [OF v [unfolded h sd append_Nil] c(1) ch _ _ refl refl] vn lt unfolding go h sd by (simp add: of_vn_def cong: if_cong)
qed

text \<open>Whoever uses a switch: it takes the waves that arrive and sends what it should.\<close>

lemma routes_ok:
  assumes J: "tree_job_ok J" and t: "told J out k x w0"
  shows "routes J k x T w0"
proof (cases "\<exists>i. acts J k i \<and> rol J k x i \<noteq> Idle")
  case False
  then show ?thesis using routes_idle [OF J t] by blast
next
  case True
  then obtain i where i: "acts J k i" "rol J k x i \<noteq> Idle" by blast
  show ?thesis
  proof (cases "\<exists>j < length (job_plan J). j \<noteq> i \<and> rol J k x j \<noteq> Idle")
    case True
    then obtain j where j: "j < length (job_plan J)" "j \<noteq> i" "rol J k x j \<noteq> Idle" by blast
    have k: "k = 0" by (rule active_alone(1) [OF job_plan_ok [OF J] i j(1,3,2)])
    have ns: "low J k i \<noteq> high J k i" using i(1) by (simp add: active_def)
    have "fst (job_plan J ! j) + 2 \<le> snd (job_plan J ! j)"
    proof (cases "i < j")
      case True
      show ?thesis by (rule plan_shared(5) [OF job_plan_ok [OF J] True j(1) i(2) j(3)]) (use ns in blast)
    next
      case False
      then have "j < i" using j(2) by simp
      then show ?thesis by (rule plan_shared(4) [OF job_plan_ok [OF J] _ acts_less [OF i(1)] j(3) i(2)]) (use ns in blast)
    qed
    then have aj: "acts J k j" using j(1) k by (simp add: active_def)
    show ?thesis using routes_shared [OF J t i aj j(3)] routes_shared [OF J t aj j(3) i] j(2) by (cases "i < j") auto
  next
    case False
    then have ex: "\<And>j. j < length (job_plan J) \<Longrightarrow> j \<noteq> i \<Longrightarrow> rol J k x j = Idle" by blast
    show ?thesis
    proof (cases "rol J k x i = Receiver")
      case True
      then show ?thesis using routes_receiver [OF J t, of i] i(1) by (simp add: recvs_def)
    next
      case False
      then have "rol J k x i = Plain \<or> rol J k x i = Sender" using i(2) by (cases "rol J k x i") auto
      then show ?thesis using routes_alone [OF J t i(1) _ ex] by blast
    qed
  qed
qed

end
