(* ===== verification/ArtCycle.thy ===== *)
theory ArtCycle
  imports ArtRoute
begin

text \<open>
  A cycle of the whole tree: the switches run one after the other, from the root to the leaves, and
  every link is read before it is written again.
\<close>

section \<open>The tree in the middle of a cycle\<close>

text \<open>The switch where the sum of a virtual neuron is complete.\<close>

definition finals :: "'d tree_job \<Rightarrow> nat \<Rightarrow> nat \<Rightarrow> nat \<Rightarrow> bool" where
  "finals J k x i \<longleftrightarrow> acts J k i \<and> climb (Suc k) (job_plan J ! i) = (x, x)"

definition fwl :: "'d tree_job \<Rightarrow> nat \<Rightarrow> nat \<Rightarrow> cid" where
  "fwl J k x = RnFw (job_levels J - Suc k) (if even x then x else x + 1)"

abbreviation in_level :: "'d tree_job \<Rightarrow> nat \<Rightarrow> nat \<Rightarrow> bool" where
  "in_level J k x \<equiv> k < job_levels J \<and> x < 2 ^ (job_levels J - Suc k)"

text \<open>The switches after configuration, with connections to memory of their own.\<close>

definition tree_told :: "'d tree_job \<Rightarrow> cid option \<Rightarrow> (nat \<Rightarrow> nat \<Rightarrow> 'd ASwitch) \<Rightarrow> (nat \<Rightarrow> nat \<Rightarrow> cid) \<Rightarrow> bool" where
  "tree_told J out w0 mem \<longleftrightarrow>
     (\<forall>k x. in_level J k x \<longrightarrow> told J out k x (w0 k x) \<and> as_memoryConnection (w0 k x) = Some (mem k x)
        \<and> (\<forall>l s. mem k x \<noteq> RnLink l s \<and> mem k x \<noteq> RnFw l s)
        \<and> (\<forall>k' x'. in_level J k' x' \<longrightarrow> mem k' x' = mem k x \<longrightarrow> k' = k \<and> x' = x))"

text \<open>
  In cycle \<open>T\<close>, when the switches in \<open>D\<close> have run: their fifos are those of the next cycle; a link
  holds what its writer has sent in this cycle, or nothing if only its reader has run.
\<close>

definition now :: "(nat \<times> nat) set \<Rightarrow> nat \<Rightarrow> nat \<Rightarrow> nat \<Rightarrow> nat" where
  "now D T k x = (if (k, x) \<in> D then Suc T else T)"

definition switches_mid :: "'d::plus tree_job \<Rightarrow> (nat \<Rightarrow> nat \<Rightarrow> 'd ASwitch) \<Rightarrow> (nat \<times> nat) set \<Rightarrow> nat \<Rightarrow> 'd ASNetwork \<Rightarrow> bool" where
  "switches_mid J w0 D T an \<longleftrightarrow> (\<forall>k x. in_level J k x \<longrightarrow> (\<exists>w. an_aswitchtable an (job_levels J - Suc k, x) = Some w
     \<and> as_has (w0 k x) (held_at J k (2 * x) (now D T k x), held_at J k (2 * x + 1) (now D T k x), side_held J k x (now D T k x)) ([], []) w))"

definition links_mid :: "'d::plus tree_job \<Rightarrow> (nat \<times> nat) set \<Rightarrow> nat \<Rightarrow> 'd store \<Rightarrow> bool" where
  "links_mid J D T st \<longleftrightarrow> (\<forall>k s. k < job_levels J \<longrightarrow> s < 2 ^ (job_levels J - k) \<longrightarrow>
     link st (RnLink (job_levels J - Suc k) s)
       (if k \<noteq> 0 \<and> (k - 1, s) \<in> D then coming J k s (Suc T) else if (k, s div 2) \<in> D then [] else coming J k s T))"

definition sides_mid :: "'d::plus tree_job \<Rightarrow> (nat \<times> nat) set \<Rightarrow> nat \<Rightarrow> 'd store \<Rightarrow> bool" where
  "sides_mid J D T st \<longleftrightarrow> (\<forall>k x i. k < job_levels J \<longrightarrow> recvs J k x i \<longrightarrow>
     link st (fwl J k x)
       (if (k, partner x) \<in> D then side_coming J k x (Suc T) else if (k, x) \<in> D then [] else side_coming J k x T))"

definition memory_mid :: "'d::plus tree_job \<Rightarrow> (nat \<Rightarrow> nat \<Rightarrow> cid) \<Rightarrow> (nat \<times> nat) set \<Rightarrow> nat \<Rightarrow> 'd store \<Rightarrow> bool" where
  "memory_mid J mem D T st \<longleftrightarrow> (\<forall>k x. in_level J k x \<longrightarrow>
     link st (mem k x) (if (k, x) \<in> D \<and> (\<exists>i. finals J k x i) then going J k x T else []))"

definition tree_mid ::
  "'d::plus tree_job \<Rightarrow> (nat \<Rightarrow> nat \<Rightarrow> 'd ASwitch) \<Rightarrow> (nat \<Rightarrow> nat \<Rightarrow> cid) \<Rightarrow> (nat \<times> nat) set \<Rightarrow> nat \<Rightarrow> 'd ASNetwork \<times> 'd store \<Rightarrow> bool" where
  "tree_mid J w0 mem D T = (\<lambda>(an, st). an_nlevels an = job_levels J \<and> an_accumulation_buffer_enabled an = 0
     \<and> switches_mid J w0 D T an \<and> links_mid J D T st \<and> sides_mid J D T st \<and> memory_mid J mem D T st)"

lemma links_midD: "links_mid J D T st \<Longrightarrow> k < job_levels J \<Longrightarrow> s < 2 ^ (job_levels J - k) \<Longrightarrow>
     link st (RnLink (job_levels J - Suc k) s)
       (if k \<noteq> 0 \<and> (k - 1, s) \<in> D then coming J k s (Suc T) else if (k, s div 2) \<in> D then [] else coming J k s T)"
  unfolding links_mid_def by blast

lemma sides_midD: "sides_mid J D T st \<Longrightarrow> k < job_levels J \<Longrightarrow> recvs J k x i \<Longrightarrow>
     link st (fwl J k x)
       (if (k, partner x) \<in> D then side_coming J k x (Suc T) else if (k, x) \<in> D then [] else side_coming J k x T)"
  unfolding sides_mid_def by blast

lemma memory_midD: "memory_mid J mem D T st \<Longrightarrow> in_level J k x \<Longrightarrow>
     link st (mem k x) (if (k, x) \<in> D \<and> (\<exists>i. finals J k x i) then going J k x T else [])"
  unfolding memory_mid_def by blast

section \<open>Links of a switch\<close>

lemma toldD:
  assumes "told J out k x w"
  shows "as_inputLeftConnection w = Some (RnLink (job_levels J - Suc k) (2 * x))"
    "as_inputRightConnection w = Some (RnLink (job_levels J - Suc k) (2 * x + 1))"
    "as_forwardingConnection w = fw_link (job_levels J - Suc k) x"
    "as_target w = (if \<exists>i < length (job_plan J). climb (Suc k) (job_plan J ! i) = (x, x) then as_memoryConnection w
        else if job_levels J - Suc k = 0 then out else Some (RnLink (job_levels J - Suc k - 1) x))"
    "as_fw_enabled w = (snd (ent J k x) \<noteq> None)" "snd (ent J k x) = Some fl \<Longrightarrow> as_fl_direction w = fl"
  using assms unfolding told_def Let_def by blast+

lemma finals_ups: "tree_job_ok J \<Longrightarrow> finals J k x i \<Longrightarrow> ups J k x i"
  by (simp add: ups_owns finals_def del: climb.simps)

lemma owned_not_final:
  assumes J: "tree_job_ok J" and i: "owns J (Suc k) x i" and j: "j < length (job_plan J)" shows "climb (Suc k) (job_plan J ! j) \<noteq> (x, x)"
proof
  assume c: "climb (Suc k) (job_plan J ! j) = (x, x)"
  have a: "low J (Suc k) i < high J (Suc k) i" "low J (Suc k) i \<le> x" "x \<le> high J (Suc k) i" "i < length (job_plan J)"
    using i by (simp_all add: owns_def active_def del: climb.simps)
  have "i \<noteq> j" using a c by auto
  then show False
    using plan_apart [OF job_plan_ok [OF J] _ j, of i "Suc k"] plan_apart [OF job_plan_ok [OF J] _ a(4), of j "Suc k"] a c
    by (cases "i < j") (auto simp del: climb.simps)
qed

text \<open>Which links the compiler enabled.\<close>

lemma ent_receive: "tree_job_ok J \<Longrightarrow> recvs J k x i \<Longrightarrow> snd (ent J k x) = Some RECEIVE"
  using entry_receiver [OF job_plan_ok, of J k i x] by (simp add: recvs_def)

lemma ent_send:
  assumes J: "tree_job_ok J" and i: "sends J k x i" shows "snd (ent J k x) = Some SEND"
proof (cases "\<exists>j < length (job_plan J). j \<noteq> i \<and> rol J k x j \<noteq> Idle")
  case True
  then obtain j where j: "j < length (job_plan J)" "j \<noteq> i" "rol J k x j \<noteq> Idle" by blast
  have ai: "acts J k i" "rol J k x i \<noteq> Idle" using i by (auto simp: sends_def)
  have k: "k = 0" by (rule active_alone(1) [OF job_plan_ok [OF J] ai j(1,3,2)])
  have ns: "low J k i \<noteq> high J k i" using ai(1) by (simp add: active_def)
  show ?thesis
  proof (cases "i < j")
    case True
    then show ?thesis using entry_shared [OF job_plan_ok [OF J], of i x j] ai j k by simp
  next
    case False
    then have ji: "j < i" using j(2) by simp
    have "fst (job_plan J ! j) + 2 \<le> snd (job_plan J ! j)"
      by (rule plan_shared(4) [OF job_plan_ok [OF J] ji acts_less [OF ai(1)] j(3) ai(2)]) (use ns in blast)
    then have "active (job_plan J) 0 j" using j(1) by (simp add: active_def)
    then show ?thesis using entry_shared [OF job_plan_ok [OF J], of j x i] ai j k ji acts_less [OF ai(1)] by simp
  qed
next
  case False
  then have ex: "\<And>j. j < length (job_plan J) \<Longrightarrow> j \<noteq> i \<Longrightarrow> rol J k x j = Idle" by blast
  have a: "acts J k i" "rol J k x i = Sender" using i by (simp_all add: sends_def)
  show ?thesis using entry_exclusive(2) [OF acts_less [OF a(1)] ex a(2)] by simp
qed

lemma ent_linked:
  assumes J: "tree_job_ok J" and e: "snd (ent J k x) \<noteq> None" shows "\<exists>i. recvs J k x i \<or> sends J k x i"
proof -
  obtain f where "snd (ent J k x) = Some f" using e by auto
  then obtain i where i: "i < length (job_plan J)" "role_fwlink (rol J k x i) None = Some f" using entry_fw by blast
  then have r: "rol J k x i = Receiver \<or> rol J k x i = Sender" by (auto simp: role_fwlink_Some)
  then have "low J k i div 2 < high J k i div 2" by (auto simp: art_role_def cut_left_def cut_right_def split: if_splits)
  then have "low J k i < high J k i" by (metis div_le_mono leD linorder_le_less_linear)
  then show ?thesis using r i(1) by (auto simp: recvs_def sends_def active_def)
qed

lemma recvs_sends: "tree_job_ok J \<Longrightarrow> recvs J k x i \<Longrightarrow> sends J k x j \<Longrightarrow> False"
  using ent_receive [of J k x i] ent_send [of J k x j] by simp

lemma linked_fwl:
  assumes J: "tree_job_ok J" and k: "k < job_levels J" and i: "sends J k x i \<or> recvs J k x i"
  shows "fw_link (job_levels J - Suc k) x = Some (fwl J k x)" "fwl J k (partner x) = fwl J k x"
proof -
  have "0 < x" "x < 2 ^ (job_levels J - Suc k) - 1" using linked_inside [OF J k i] by simp_all
  then show "fw_link (job_levels J - Suc k) x = Some (fwl J k x)" "fwl J k (partner x) = fwl J k x"
    by (simp_all add: fw_link_def fwl_def partner_def)
qed

lemma fwl_eq: "k < job_levels J \<Longrightarrow> k' < job_levels J \<Longrightarrow> 0 < x \<Longrightarrow> 0 < x' \<Longrightarrow> fwl J k x = fwl J k' x' \<Longrightarrow>
    k' = k \<and> (x' = x \<or> x' = partner x)"
  by (auto simp: fwl_def partner_def split: if_splits)

lemma partner_neq: "0 < x \<Longrightarrow> partner x \<noteq> x"
  by (auto simp: partner_def)

lemma fwl_links [simp]: "fwl J k x \<noteq> RnLink l s" "RnLink l s \<noteq> fwl J k x"
  by (simp_all add: fwl_def)

text \<open>
  Where a switch sends upwards: to memory where a sum is complete, to the parent where it is not.
\<close>

definition up_link :: "'d tree_job \<Rightarrow> (nat \<Rightarrow> nat \<Rightarrow> cid) \<Rightarrow> nat \<Rightarrow> nat \<Rightarrow> cid" where
  "up_link J mem k x = (if \<exists>i. finals J k x i then mem k x else RnLink (job_levels J - Suc (Suc k)) x)"

lemma target_up:
  assumes J: "tree_job_ok J" and t: "tree_told J out w0 mem" and x: "in_level J k x" and i: "ups J k x i"
  shows "as_target (w0 k x) = Some (up_link J mem k x)" "\<nexists>i. finals J k x i \<Longrightarrow> Suc k < job_levels J \<and> owns J (Suc k) x i"
proof -
  have tt: "told J out k x (w0 k x)" "as_memoryConnection (w0 k x) = Some (mem k x)" using t x by (auto simp: tree_told_def)
  have tg: "as_target (w0 k x) = (if \<exists>i < length (job_plan J). climb (Suc k) (job_plan J ! i) = (x, x) then Some (mem k x)
        else if job_levels J - Suc k = 0 then out else Some (RnLink (job_levels J - Suc k - 1) x))"
    using toldD(4) [OF tt(1)] unfolding tt(2) .
  obtain M where M: "M \<longleftrightarrow> (\<exists>i < length (job_plan J). climb (Suc k) (job_plan J ! i) = (x, x))" by blast
  show ow: "Suc k < job_levels J \<and> owns J (Suc k) x i" if n: "\<nexists>i. finals J k x i"
  proof -
    have "owns J (Suc k) x i" using i n ups_owns [OF J] by (auto simp: finals_def ups_def simp del: climb.simps)
    then show ?thesis using acts_level [OF J, of "Suc k" i] x by (simp add: owns_def)
  qed
  show "as_target (w0 k x) = Some (up_link J mem k x)"
  proof (cases "\<exists>i. finals J k x i")
    case True
    then have M unfolding M using acts_less by (auto simp: finals_def simp del: climb.simps)
    then show ?thesis using tg [folded M] True by (simp add: up_link_def)
  next
    case False
    then have "Suc k < job_levels J" "\<not> M" unfolding M using ow [OF False] owned_not_final [OF J] by blast+
    then show ?thesis using tg [folded M] False by (simp add: up_link_def)
  qed
qed

section \<open>One switch\<close>

text \<open>The order: parent and receiver first, children and sender later.\<close>

definition may_run :: "'d tree_job \<Rightarrow> (nat \<times> nat) set \<Rightarrow> nat \<Rightarrow> nat \<Rightarrow> bool" where
  "may_run J D k x \<longleftrightarrow> (k, x) \<notin> D \<and> (k \<noteq> 0 \<longrightarrow> (k - 1, 2 * x) \<notin> D \<and> (k - 1, 2 * x + 1) \<notin> D)
     \<and> (Suc k < job_levels J \<longrightarrow> (Suc k, x div 2) \<in> D)
     \<and> (\<forall>i. recvs J k x i \<longrightarrow> (k, partner x) \<notin> D) \<and> (\<forall>i. sends J k x i \<longrightarrow> (k, partner x) \<in> D)"

lemma switch_run:
  assumes J: "tree_job_ok J" and t: "tree_told J out w0 mem" and m: "tree_mid J w0 mem D T (an, st)" and x: "in_level J k x" and o': "may_run J D k x"
  shows "\<exists>w w' st'. an_aswitchtable an (job_levels J - Suc k, x) = Some w \<and> ASwitch_cycle w st = Inr (w', st')
     \<and> as_has (w0 k x) (held_at J k (2 * x) (Suc T), held_at J k (2 * x + 1) (Suc T), side_held J k x (Suc T)) ([], []) w'
     \<and> link st' (RnLink (job_levels J - Suc k) (2 * x)) [] \<and> link st' (RnLink (job_levels J - Suc k) (2 * x + 1)) []
     \<and> ((\<exists>i. ups J k x i) \<longrightarrow> link st' (up_link J mem k x) (going J k x T))
     \<and> ((\<exists>i. recvs J k x i \<or> sends J k x i) \<longrightarrow> link st' (fwl J k x) (side_going J k x T))
     \<and> (\<forall>d. d \<noteq> RnLink (job_levels J - Suc k) (2 * x) \<longrightarrow> d \<noteq> RnLink (job_levels J - Suc k) (2 * x + 1)
         \<longrightarrow> ((\<exists>i. ups J k x i) \<longrightarrow> d \<noteq> up_link J mem k x) \<longrightarrow> ((\<exists>i. recvs J k x i \<or> sends J k x i) \<longrightarrow> d \<noteq> fwl J k x) \<longrightarrow> st' d = st d)"
proof -
  let ?L = "job_levels J" and ?a = "RnLink (job_levels J - Suc k) (2 * x)" and ?b = "RnLink (job_levels J - Suc k) (2 * x + 1)"
  have sw: "switches_mid J w0 D T an" and li: "links_mid J D T st" and si: "sides_mid J D T st" and me: "memory_mid J mem D T st"
    using m by (simp_all add: tree_mid_def)
  have kD: "(k, x) \<notin> D" "k \<noteq> 0 \<Longrightarrow> (k - 1, 2 * x) \<notin> D \<and> (k - 1, 2 * x + 1) \<notin> D" "Suc k < ?L \<Longrightarrow> (Suc k, x div 2) \<in> D"
    "\<And>i. recvs J k x i \<Longrightarrow> (k, partner x) \<notin> D" "\<And>i. sends J k x i \<Longrightarrow> (k, partner x) \<in> D" using o' by (auto simp: may_run_def)
  have tt: "told J out k x (w0 k x)" "\<And>l s. mem k x \<noteq> RnLink l s" "\<And>l s. mem k x \<noteq> RnFw l s" using t x by (auto simp: tree_told_def)
  have pw: "2 ^ (?L - k) = 2 * (2 ^ (?L - Suc k) :: nat)" using x by (metis Suc_diff_Suc power_Suc)
  have "now D T k x = T" using kD(1) by (simp add: now_def)
  then obtain w where w: "an_aswitchtable an (?L - Suc k, x) = Some w"
    "as_has (w0 k x) (held_at J k (2 * x) T, held_at J k (2 * x + 1) T, side_held J k x T) ([], []) w"
    using sw x unfolding switches_mid_def by metis
  have la: "link st ?a (coming J k (2 * x) T)" "link st ?b (coming J k (2 * x + 1) T)"
    using links_midD [OF li, of k "2 * x"] links_midD [OF li, of k "2 * x + 1"] x pw kD(1,2) by (auto split: if_splits)
  have up: "as_target (w0 k x) = Some (up_link J mem k x) \<and> up_link J mem k x \<noteq> ?a \<and> up_link J mem k x \<noteq> ?b \<and> link st (up_link J mem k x) []"
    if u: "\<exists>i. ups J k x i"
  proof -
    obtain i where i: "ups J k x i" using u by blast
    note tg = target_up [OF J t x i]
    show ?thesis
    proof (cases "\<exists>i. finals J k x i")
      case True
      then have e: "up_link J mem k x = mem k x" by (simp add: up_link_def)
      show ?thesis using tg(1) tt memory_midD [OF me x] kD(1) unfolding e by auto
    next
      case False
      then have e: "up_link J mem k x = RnLink (?L - Suc (Suc k)) x" "Suc k < ?L" using tg(2) by (auto simp: up_link_def)
      have "link st (RnLink (?L - Suc (Suc k)) x) []" using links_midD [OF li e(2), of x] e(2) kD(1) kD(3) x by auto
      moreover have "?L - Suc (Suc k) \<noteq> ?L - Suc k" using e(2) by simp
      ultimately show ?thesis using tg(1) unfolding e(1) by simp
    qed
  qed
  have en: "as_fw_enabled (w0 k x) \<longleftrightarrow> (\<exists>i. recvs J k x i \<or> sends J k x i)"
    using toldD(5) [OF tt(1)] ent_linked [OF J, of k x] ent_receive [OF J, of k x] ent_send [OF J, of k x] by auto
  have dir: "recvs J k x i \<Longrightarrow> as_fl_direction (w0 k x) = RECEIVE" "sends J k x i \<Longrightarrow> as_fl_direction (w0 k x) = SEND" for i
    using toldD(6) [OF tt(1)] ent_receive [OF J, of k x i] ent_send [OF J, of k x i] by auto
  have mf: "fwl J k x \<noteq> mem k x" using tt(3) by (metis fwl_def)
  have fl: "as_forwardingConnection (w0 k x) = Some (fwl J k x) \<and> fwl J k x \<noteq> ?a \<and> fwl J k x \<noteq> ?b
     \<and> ((\<exists>i. ups J k x i) \<longrightarrow> fwl J k x \<noteq> up_link J mem k x)"
    if e: "as_fw_enabled (w0 k x)"
  proof -
    obtain i where "sends J k x i \<or> recvs J k x i" using en e by blast
    then show ?thesis using toldD(3) [OF tt(1)] linked_fwl(1) [OF J] mf x by (simp add: up_link_def)
  qed
  have zs: "link st (fwl J k x) (side_coming J k x T)" if e: "as_fw_enabled (w0 k x)"
  proof -
    obtain i where i: "recvs J k x i \<or> sends J k x i" using en e by blast
    then show ?thesis
    proof
      assume r: "recvs J k x i"
      then show ?thesis using sides_midD [OF si _ r] x kD(1) kD(4) [OF r] by auto
    next
      assume s: "sends J k x i"
      have x0: "0 < x" using linked_inside(1) [OF J, of k x i] x s by simp
      have "side_coming J k x T = []" using recvs_sends [OF J _ s] no_recvs(2) [of J k x T] by blast
      moreover have "link st (fwl J k (partner x)) []"
        using sides_midD [OF si _ sends_partner [OF s]] x kD(1) kD(5) [OF s] partner_partner [OF x0] by auto
      ultimately show ?thesis using linked_fwl(2) [OF J, of k x i] x s by simp
    qed
  qed
  have z1: "length (side_coming J k x T) \<le> 1" by (simp add: side_coming_def comes_eq split: option.split)
  have z0: "side_coming J k x T = []" if "\<not> (as_fw_enabled (w0 k x) \<and> as_fl_direction (w0 k x) = RECEIVE)"
    using that en dir(1) no_recvs(2) [of J k x T] by blast
  have q: "as_fw_enabled (w0 k x) \<and> as_fl_direction (w0 k x) = SEND" if "side_going J k x T \<noteq> []"
    using that en dir(2) no_sends [of J k x T] by blast
  have rr: "\<exists>v'. ASwitch_route v = Inr v' \<and> as_has (w0 k x) (held_at J k (2 * x) (Suc T), held_at J k (2 * x + 1) (Suc T), side_held J k x (Suc T))
      (going J k x T, side_going J k x T) v'"
    if "as_has (w0 k x) (held_at J k (2 * x) T @ coming J k (2 * x) T, held_at J k (2 * x + 1) T @ coming J k (2 * x + 1) T,
       side_held J k x T @ side_coming J k x T) ([], []) v" for v
    using routes_ok [OF J tt(1), of T] that unfolding routes_def by blast
  have pu: "going J k x T = []" if "\<nexists>i. ups J k x i" using that no_ups [of J k x T] by blast
  have ab: "as_inputLeftConnection (w0 k x) = Some ?a" "as_inputRightConnection (w0 k x) = Some ?b" "?a \<noteq> ?b"
    using toldD(1,2) [OF tt(1)] by simp_all
  obtain w' st' where c: "ASwitch_cycle w st = Inr (w', st')"
     "as_has (w0 k x) (held_at J k (2 * x) (Suc T), held_at J k (2 * x + 1) (Suc T), side_held J k x (Suc T)) ([], []) w'"
     "link st' ?a []" "link st' ?b []" "(\<exists>i. ups J k x i) \<longrightarrow> link st' (up_link J mem k x) (going J k x T)"
     "as_fw_enabled (w0 k x) \<longrightarrow> link st' (fwl J k x) (side_going J k x T)"
     "\<forall>d. d \<noteq> ?a \<longrightarrow> d \<noteq> ?b \<longrightarrow> ((\<exists>i. ups J k x i) \<longrightarrow> d \<noteq> up_link J mem k x) \<longrightarrow> (as_fw_enabled (w0 k x) \<longrightarrow> d \<noteq> fwl J k x) \<longrightarrow> st' d = st d"
    using cycle_has [OF w(2) ab up pu fl la zs z1 z0 rr q] by blast
  show ?thesis
    by (rule exI [of _ w], rule exI [of _ w'], rule exI [of _ st'])
      (use w(1) c in \<open>unfold en, blast\<close>)
qed


lemma in_level_inj: "k < L \<Longrightarrow> k' < L \<Longrightarrow> L - Suc k = L - Suc k' \<longleftrightarrow> k = k'" for L :: nat
  by auto

lemma tree_step:
  assumes J: "tree_job_ok J" and t: "tree_told J out w0 mem" and m: "tree_mid J w0 mem D T s" and x: "in_level J k x" and o': "may_run J D k x"
  shows "\<exists>s'. ASNetwork_cycle_switch (job_levels J - Suc k, x) s = Inr s' \<and> tree_mid J w0 mem (insert (k, x) D) T s'"
proof -
  let ?L = "job_levels J" and ?a = "RnLink (job_levels J - Suc k) (2 * x)" and ?b = "RnLink (job_levels J - Suc k) (2 * x + 1)" and ?D = "insert (k, x) D"
  obtain an st where s: "s = (an, st)" by (rule prod.exhaust)
  obtain w w' st' where w: "an_aswitchtable an (?L - Suc k, x) = Some w" "ASwitch_cycle w st = Inr (w', st')"
     "as_has (w0 k x) (held_at J k (2 * x) (Suc T), held_at J k (2 * x + 1) (Suc T), side_held J k x (Suc T)) ([], []) w'"
    and ab: "link st' ?a []" "link st' ?b []"
    and up0: "(\<exists>i. ups J k x i) \<longrightarrow> link st' (up_link J mem k x) (going J k x T)"
    and fl0: "(\<exists>i. recvs J k x i \<or> sends J k x i) \<longrightarrow> link st' (fwl J k x) (side_going J k x T)"
    and keep0: "\<forall>d. d \<noteq> ?a \<longrightarrow> d \<noteq> ?b \<longrightarrow> ((\<exists>i. ups J k x i) \<longrightarrow> d \<noteq> up_link J mem k x)
        \<longrightarrow> ((\<exists>i. recvs J k x i \<or> sends J k x i) \<longrightarrow> d \<noteq> fwl J k x) \<longrightarrow> st' d = st d"
    using switch_run [OF J t m [unfolded s] x o'] by (elim exE conjE) (rule that, assumption+)
  have up: "link st' (up_link J mem k x) (going J k x T)" if "ups J k x i" for i using up0 that by blast
  have fl: "link st' (fwl J k x) (side_going J k x T)" if "recvs J k x i \<or> sends J k x i" for i using fl0 that by blast
  have keep: "st' d = st d" if "d \<noteq> ?a" "d \<noteq> ?b" "\<And>i. ups J k x i \<Longrightarrow> d \<noteq> up_link J mem k x"
      "\<And>i. recvs J k x i \<or> sends J k x i \<Longrightarrow> d \<noteq> fwl J k x" for d using keep0 that by blast
  have mid: "an_nlevels an = ?L" "an_accumulation_buffer_enabled an = 0"
    and sw: "switches_mid J w0 D T an" and li: "links_mid J D T st" and si: "sides_mid J D T st" and me: "memory_mid J mem D T st"
    using m by (simp_all add: tree_mid_def s)
  have kD: "(k, x) \<notin> D" "k \<noteq> 0 \<Longrightarrow> (k - 1, 2 * x) \<notin> D \<and> (k - 1, 2 * x + 1) \<notin> D" "Suc k < ?L \<Longrightarrow> (Suc k, x div 2) \<in> D"
    "\<And>i. recvs J k x i \<Longrightarrow> (k, partner x) \<notin> D" "\<And>i. sends J k x i \<Longrightarrow> (k, partner x) \<in> D" using o' by (auto simp: may_run_def)
  have mm: "mem k' x' \<noteq> RnLink l u \<and> RnLink l u \<noteq> mem k' x'" "mem k' x' \<noteq> fwl J l u \<and> fwl J l u \<noteq> mem k' x'" "mem k' x' = mem k x \<Longrightarrow> k' = k \<and> x' = x"
    if "in_level J k' x'" for k' x' l u
    using t that x unfolding tree_told_def fwl_def by metis+
  have pw: "2 ^ (?L - k) = 2 * (2 ^ (?L - Suc k) :: nat)" using x by (metis Suc_diff_Suc power_Suc)
  let ?an = "an\<lparr>an_aswitchtable := (an_aswitchtable an)((?L - Suc k, x) \<mapsto> w')\<rparr>"
  have run: "ASNetwork_cycle_switch (?L - Suc k, x) s = Inr (?an, st')"
    using w by (simp add: ASNetwork_cycle_switch_def s)
  have "switches_mid J w0 ?D T ?an"
    unfolding switches_mid_def
  proof (intro allI impI)
    fix k' x' assume k': "in_level J k' x'"
    show "\<exists>w. an_aswitchtable ?an (?L - Suc k', x') = Some w
       \<and> as_has (w0 k' x') (held_at J k' (2 * x') (now ?D T k' x'), held_at J k' (2 * x' + 1) (now ?D T k' x'), side_held J k' x' (now ?D T k' x')) ([], []) w"
    proof (cases "(k', x') = (k, x)")
      case True
      then show ?thesis using w(3) by (auto simp: now_def)
    next
      case False
      then have "(?L - Suc k', x') \<noteq> (?L - Suc k, x)" "now ?D T k' x' = now D T k' x'" using k' x by (auto simp: now_def)
      then show ?thesis using sw k' unfolding switches_mid_def by auto
    qed
  qed
  moreover have "links_mid J ?D T st'"
    unfolding links_mid_def
  proof (intro allI impI)
    fix k' u :: nat assume k': "k' < ?L" "u < 2 ^ (?L - k')"
    let ?d = "RnLink (?L - Suc k') u"
    consider (reads) "k' = k" "u div 2 = x" | (writes) "k' = Suc k" "u = x" | (other) "\<not> (k' = k \<and> u div 2 = x)" "\<not> (k' = Suc k \<and> u = x)" by blast
    then show "link st' ?d (if k' \<noteq> 0 \<and> (k' - 1, u) \<in> ?D then coming J k' u (Suc T) else if (k', u div 2) \<in> ?D then [] else coming J k' u T)"
    proof cases
      case reads
      then have u: "u = 2 * x \<or> u = 2 * x + 1" by presburger
      then have "k' \<noteq> 0 \<Longrightarrow> (k' - 1, u) \<notin> ?D" using kD(2) reads(1) by auto
      then show ?thesis using ab u reads by auto
    next
      case writes
      have kk: "Suc k < ?L" using k' writes by simp
      have goal: "link st' ?d (coming J (Suc k) x (Suc T))"
      proof (cases "\<exists>i. owns J (Suc k) x i")
        case True
        then obtain i where i: "owns J (Suc k) x i" by blast
        have "ups J k x i" using i ups_owns [OF J] by simp
        moreover have "\<not> finals J k x j" for j using owned_not_final [OF J i] acts_less by (auto simp: finals_def simp del: climb.simps)
        ultimately show ?thesis using up going_up [OF J i] writes by (simp add: up_link_def)
      next
        case False
        have "link st ?d []" using links_midD [OF li k'] kD(1) kD(3) [OF kk] writes by simp
        moreover have "st' ?d = st ?d"
        proof (rule keep)
          show "?d \<noteq> ?a" "?d \<noteq> ?b" using writes kk by auto
          show "?d \<noteq> up_link J mem k x" if "ups J k x i" for i
          proof -
            have "finals J k x i" using that False ups_owns [OF J] by (simp add: finals_def ups_def del: climb.simps)
            then show ?thesis using mm(1) [OF x] by (auto simp: up_link_def)
          qed
        qed simp
        moreover have "coming J (Suc k) x (Suc T) = []" using False unowned(2) by blast
        ultimately show ?thesis using link_cong [of st' ?d st] by simp
      qed
      then show ?thesis using writes by simp
    next
      case other
      have "st' ?d = st ?d"
      proof (rule keep)
        have "u = 2 * x \<or> u = 2 * x + 1 \<Longrightarrow> u div 2 = x" by auto
        then show "?d \<noteq> ?a" "?d \<noteq> ?b" using other(1) in_level_inj [OF k'(1), of k] x by auto
        show "?d \<noteq> up_link J mem k x" if "ups J k x i" for i
        proof (cases "\<exists>i. finals J k x i")
          case True
          then show ?thesis using mm(1) [OF x] by (auto simp: up_link_def)
        next
          case False
          then have "Suc k < ?L" using target_up(2) [OF J t x that] by blast
          then show ?thesis using other(2) in_level_inj [OF k'(1), of "Suc k"] False by (auto simp: up_link_def)
        qed
      qed simp
      then have l: "link st' ?d xs = link st ?d xs" for xs by (rule link_cong)
      have e: "(k', u div 2) \<in> ?D \<longleftrightarrow> (k', u div 2) \<in> D" "k' \<noteq> 0 \<and> (k' - 1, u) \<in> ?D \<longleftrightarrow> k' \<noteq> 0 \<and> (k' - 1, u) \<in> D"
        using other by auto
      show ?thesis unfolding e l by (rule links_midD [OF li k'])
    qed
  qed
  moreover have "sides_mid J ?D T st'"
    unfolding sides_mid_def
  proof (intro allI impI)
    fix k' x' i assume k': "k' < ?L" "recvs J k' x' i"
    let ?d = "fwl J k' x'"
    have x0: "0 < x'" using linked_inside(1) [OF J k'(1)] k'(2) by blast
    consider (rcv) "(k', x') = (k, x)" | (sdr) "(k', partner x') = (k, x)" | (other) "(k', x') \<noteq> (k, x)" "(k', partner x') \<noteq> (k, x)" by blast
    then show "link st' ?d (if (k', partner x') \<in> ?D then side_coming J k' x' (Suc T) else if (k', x') \<in> ?D then [] else side_coming J k' x' T)"
    proof cases
      case rcv
      have "side_going J k x T = []" using recvs_sends [OF J] k'(2) rcv no_sends [of J k x T] by blast
      moreover have "(k, partner x) \<notin> ?D" using kD(4) k'(2) rcv partner_neq x0 by auto
      ultimately show ?thesis using fl [of i] k'(2) rcv by simp
    next
      case sdr
      have se: "sends J k x i" using recvs_partner [OF k'(2)] sdr by simp
      have px: "partner x = x'" using partner_partner [OF x0] sdr by auto
      have xx: "0 < x" using linked_inside(1) [OF J, of k x i] se x by blast
      have "side_going J k x T = side_coming J k x' (Suc T)" using side_going_coming [OF J se xx] px by simp
      moreover have "?d = fwl J k x" using linked_fwl(2) [OF J, of k x i] se x px sdr by simp
      ultimately show ?thesis using fl [of i] se sdr by simp
    next
      case other
      have "st' ?d = st ?d"
      proof (rule keep)
        show "?d \<noteq> up_link J mem k x" if "ups J k x j" for j
          using mm(2) [OF x] by (auto simp: up_link_def)
        show "?d \<noteq> fwl J k x" if "recvs J k x j \<or> sends J k x j" for j
        proof
          assume eq: "?d = fwl J k x"
          have xx: "0 < x" using linked_inside(1) [OF J, of k x j] that x by blast
          show False using fwl_eq [OF _ k'(1) xx x0 eq [symmetric]] other x partner_partner [OF xx] partner_partner [OF x0] by auto
        qed
      qed simp_all
      then have l: "link st' ?d xs = link st ?d xs" for xs by (rule link_cong)
      have e: "(k', partner x') \<in> ?D \<longleftrightarrow> (k', partner x') \<in> D" "(k', x') \<in> ?D \<longleftrightarrow> (k', x') \<in> D" using other by auto
      show ?thesis unfolding e l by (rule sides_midD [OF si k'])
    qed
  qed
  moreover have "memory_mid J mem ?D T st'"
    unfolding memory_mid_def
  proof (intro allI impI)
    fix k' x' assume k': "in_level J k' x'"
    show "link st' (mem k' x') (if (k', x') \<in> ?D \<and> (\<exists>i. finals J k' x' i) then going J k' x' T else [])"
    proof (cases "(k', x') = (k, x) \<and> (\<exists>i. finals J k x i)")
      case True
      then obtain i where i: "finals J k x i" by blast
      then show ?thesis using up [OF finals_ups [OF J i]] True by (auto simp: up_link_def)
    next
      case False
      have "st' (mem k' x') = st (mem k' x')"
      proof (rule keep)
        show "mem k' x' \<noteq> ?a" "mem k' x' \<noteq> ?b" "mem k' x' \<noteq> fwl J k x" using mm(1,2) [OF k'] by blast+
        show "mem k' x' \<noteq> up_link J mem k x" if "ups J k x i" for i
          using mm(1,3) [OF k'] False by (auto simp: up_link_def)
      qed
      then have l: "link st' (mem k' x') xs = link st (mem k' x') xs" for xs by (rule link_cong)
      have e: "(k', x') \<in> ?D \<and> (\<exists>i. finals J k' x' i) \<longleftrightarrow> (k', x') \<in> D \<and> (\<exists>i. finals J k' x' i)" using False by auto
      show ?thesis unfolding e l by (rule memory_midD [OF me k'])
    qed
  qed
  ultimately show ?thesis using run mid by (auto simp: tree_mid_def)
qed


section \<open>A level and the whole tree\<close>

text \<open>The switches above level \<open>k\<close> and the first \<open>j\<close> of it.\<close>

definition upto_sw :: "'d tree_job \<Rightarrow> nat \<Rightarrow> nat \<Rightarrow> (nat \<times> nat) set" where
  "upto_sw J k j = {(k', x). in_level J k' x \<and> (k < k' \<or> k' = k \<and> x < j)}"

lemma upto_sw_Suc: "in_level J k j \<Longrightarrow> insert (k, j) (upto_sw J k j) = upto_sw J k (Suc j)"
  by (auto simp: upto_sw_def)

lemma upto_sw_level: "upto_sw J (Suc k) (2 ^ (job_levels J - Suc (Suc k))) = upto_sw J k 0"
  by (auto simp: upto_sw_def) (metis Suc_lessI)

lemma may_run_next:
  assumes x: "in_level J k x" and D: "D = upto_sw J k j \<or> D = insert (k, j') (upto_sw J k j)" and xj: "(k, x) \<notin> D"
    and r: "\<And>i. recvs J k x i \<Longrightarrow> (k, partner x) \<notin> D" and s: "\<And>i. sends J k x i \<Longrightarrow> (k, partner x) \<in> D"
  shows "may_run J D k x"
proof -
  have "(k - 1, y) \<notin> D" if "k \<noteq> 0" for y using D that by (auto simp: upto_sw_def)
  moreover have "(Suc k, x div 2) \<in> D" if "Suc k < job_levels J"
  proof -
    have "x div 2 < 2 ^ (job_levels J - Suc (Suc k))" using half_less [of x "job_levels J - Suc (Suc k)"] x that by (simp add: Suc_diff_Suc)
    then show ?thesis using D that by (auto simp: upto_sw_def)
  qed
  ultimately show ?thesis using xj r s by (auto simp: may_run_def)
qed

lemma mid_switch:
  assumes "tree_mid J w0 mem D T s" "in_level J k x"
  obtains w where "an_aswitchtable (fst s) (job_levels J - Suc k, x) = Some w" "as_fw_enabled w = as_fw_enabled (w0 k x)"
    "as_fl_direction w = as_fl_direction (w0 k x)"
proof -
  have "switches_mid J w0 D T (fst s)" using assms(1) by (auto simp: tree_mid_def split: prod.splits)
  then obtain w where w: "an_aswitchtable (fst s) (job_levels J - Suc k, x) = Some w"
    "as_has (w0 k x) (held_at J k (2 * x) (now D T k x), held_at J k (2 * x + 1) (now D T k x), side_held J k x (now D T k x)) ([], []) w"
    using assms(2) unfolding switches_mid_def by blast
  show ?thesis using that [OF w(1) has_config(4,5) [OF w(2)]] .
qed

lemma told_linked:
  assumes J: "tree_job_ok J" and t: "told J out k x w"
  shows "as_fw_enabled w \<longleftrightarrow> (\<exists>i. recvs J k x i \<or> sends J k x i)" "sends J k x i \<Longrightarrow> as_fl_direction w = SEND"
    "recvs J k x i \<Longrightarrow> as_fl_direction w = RECEIVE"
  using toldD(5,6) [OF t] ent_linked [OF J, of k x] ent_receive [OF J, of k x] ent_send [OF J, of k x] by auto

lemma level_loop:
  assumes J: "tree_job_ok J" and t: "tree_told J out w0 mem" and k: "k < job_levels J" and i: "i = job_levels J - Suc k"
  shows "j \<le> 2 ^ i \<Longrightarrow> (even j \<Longrightarrow> 0 < j \<Longrightarrow> \<nexists>n. recvs J k j n \<or> sends J k j n) \<Longrightarrow> tree_mid J w0 mem (upto_sw J k j) T s \<Longrightarrow>
    \<exists>s'. ASNetwork_cycle_level i (2 ^ i) j s = Inr s' \<and> tree_mid J w0 mem (upto_sw J k (2 ^ i)) T s'"
proof (induction "2 ^ i - j" arbitrary: j s rule: less_induct)
  case less
  show ?case
  proof (cases "j < 2 ^ i")
    case False
    then show ?thesis using less.prems unfolding ASNetwork_cycle_level.simps [of i _ j] by simp
  next
    case True
    then have x: "in_level J k j" using k i by simp
    have tt: "told J out k j (w0 k j)" using t x by (auto simp: tree_told_def)
    obtain w where w: "an_aswitchtable (fst s) (i, j) = Some w" "as_fw_enabled w = as_fw_enabled (w0 k j)" "as_fl_direction w = as_fl_direction (w0 k j)"
      using mid_switch [OF less.prems(3) x] i by blast
    have out_D: "(k, j) \<notin> upto_sw J k j" "(k, j + 1) \<notin> upto_sw J k j" by (auto simp: upto_sw_def)
    show ?thesis
    proof (cases "\<exists>n. recvs J k j n \<or> sends J k j n")
      case en: False
      have run: "may_run J (upto_sw J k j) k j" by (rule may_run_next [OF x _ out_D(1)]) (use en in auto)
      obtain s1 where s1: "ASNetwork_cycle_switch (i, j) s = Inr s1" "tree_mid J w0 mem (upto_sw J k (Suc j)) T s1"
        using tree_step [OF J t less.prems(3) x run] upto_sw_Suc [OF x] i by auto
      have nx: "\<nexists>n. recvs J k (Suc j) n \<or> sends J k (Suc j) n" if e: "even (Suc j)"
      proof
        assume "\<exists>n. recvs J k (Suc j) n \<or> sends J k (Suc j) n"
        then obtain n where "recvs J k (partner (Suc j)) n \<or> sends J k (partner (Suc j)) n" using sends_partner recvs_partner by blast
        moreover have "partner (Suc j) = j" using e by (simp add: partner_def)
        ultimately show False using en by auto
      qed
      obtain s' where s': "ASNetwork_cycle_level i (2 ^ i) (Suc j) s1 = Inr s'" "tree_mid J w0 mem (upto_sw J k (2 ^ i)) T s'"
        using less.hyps [OF diff_less_mono2 [OF lessI True] Suc_leI [OF True] _ s1(2)] nx by blast
      show ?thesis using s' s1(1) w True en told_linked(1) [OF J tt] by (simp add: ASNetwork_cycle_level.simps [of i _ j])
    next
      case True': True
      then obtain n where n: "recvs J k j n \<or> sends J k j n" by blast
      then have n': "recvs J k (partner j) n \<or> sends J k (partner j) n" using sends_partner recvs_partner by blast
      have "0 < j" using linked_inside(1) [OF J k] n by blast
      then have oj: "odd j" using less.prems(2) True' by blast
      then have p: "partner j = j + 1" "partner (j + 1) = j" by (simp_all add: partner_def)
      have x1: "in_level J k (j + 1)" using linked_inside(3) [OF J k, of "partner j"] n' p k by auto
      have ins: "insert (k, j) (insert (k, j + 1) (upto_sw J k j)) = upto_sw J k (j + 2)"
        "insert (k, j + 1) (insert (k, j) (upto_sw J k j)) = upto_sw J k (j + 2)" using x x1 by (auto simp: upto_sw_def)
      have pair: "\<exists>s2. (if as_fl_direction w = SEND then rbind (ASNetwork_cycle_switch (i, j + 1) s) (ASNetwork_cycle_switch (i, j))
          else rbind (ASNetwork_cycle_switch (i, j) s) (ASNetwork_cycle_switch (i, j + 1))) = Inr s2 \<and> tree_mid J w0 mem (upto_sw J k (j + 2)) T s2"
      proof (cases "sends J k j n")
        case se: True
        have r1: "recvs J k (j + 1) n" using sends_partner [OF se] p by simp
        have run1: "may_run J (upto_sw J k j) k (j + 1)"
          by (rule may_run_next [OF x1 _ out_D(2)]) (use out_D p recvs_sends [OF J r1] in auto)
        obtain s1 where s1: "ASNetwork_cycle_switch (i, j + 1) s = Inr s1" "tree_mid J w0 mem (insert (k, j + 1) (upto_sw J k j)) T s1"
          using tree_step [OF J t less.prems(3) x1 run1] i by auto
        have run2: "may_run J (insert (k, j + 1) (upto_sw J k j)) k j"
          by (rule may_run_next [OF x]) (use out_D p recvs_sends [OF J _ se] in auto)
        obtain s2 where s2: "ASNetwork_cycle_switch (i, j) s1 = Inr s2" "tree_mid J w0 mem (upto_sw J k (j + 2)) T s2"
          using tree_step [OF J t s1(2) x run2] i ins by auto
        have "as_fl_direction w = SEND" using w(3) told_linked(2) [OF J tt se] by simp
        then show ?thesis using s1(1) s2 by simp
      next
        case False
        then have re: "recvs J k j n" using n by blast
        have se1: "sends J k (j + 1) n" using recvs_partner [OF re] p by simp
        have run1: "may_run J (upto_sw J k j) k j"
          by (rule may_run_next [OF x _ out_D(1)]) (use out_D p recvs_sends [OF J re] in auto)
        obtain s1 where s1: "ASNetwork_cycle_switch (i, j) s = Inr s1" "tree_mid J w0 mem (insert (k, j) (upto_sw J k j)) T s1"
          using tree_step [OF J t less.prems(3) x run1] i by auto
        have run2: "may_run J (insert (k, j) (upto_sw J k j)) k (j + 1)"
          by (rule may_run_next [OF x1]) (use out_D p recvs_sends [OF J _ se1] in auto)
        obtain s2 where s2: "ASNetwork_cycle_switch (i, j + 1) s1 = Inr s2" "tree_mid J w0 mem (upto_sw J k (j + 2)) T s2"
          using tree_step [OF J t s1(2) x1 run2] i ins by auto
        have "as_fl_direction w \<noteq> SEND" using w(3) told_linked(3) [OF J tt re] by simp
        then show ?thesis using s1(1) s2 by simp
      qed
      then obtain s2 where s2: "(if as_fl_direction w = SEND then rbind (ASNetwork_cycle_switch (i, j + 1) s) (ASNetwork_cycle_switch (i, j))
          else rbind (ASNetwork_cycle_switch (i, j) s) (ASNetwork_cycle_switch (i, j + 1))) = Inr s2" "tree_mid J w0 mem (upto_sw J k (j + 2)) T s2" by blast
      have jj: "j + 2 \<le> 2 ^ i" "2 ^ i - (j + 2) < 2 ^ i - j" using x1 i by auto
      obtain s' where s': "ASNetwork_cycle_level i (2 ^ i) (j + 2) s2 = Inr s'" "tree_mid J w0 mem (upto_sw J k (2 ^ i)) T s'"
        using less.hyps [OF jj(2) jj(1) _ s2(2)] oj by auto
      have "as_fw_enabled w" using w(2) told_linked(1) [OF J tt] n by blast
      then show ?thesis using s' s2(1) w(1) True by (simp add: ASNetwork_cycle_level.simps [of i _ j])
    qed
  qed
qed

definition all_sw :: "'d tree_job \<Rightarrow> (nat \<times> nat) set" where
  "all_sw J = {(k, x). in_level J k x}"

lemma tree_cycle:
  assumes J: "tree_job_ok J" and t: "tree_told J out w0 mem" and m: "tree_mid J w0 mem {} T s"
  shows "\<exists>s'. ASNetwork_cycle s = Inr s' \<and> tree_mid J w0 mem (all_sw J) T s'"
proof -
  let ?L = "job_levels J"
  have L: "0 < ?L" using J by (simp add: tree_job_ok_def)
  have top: "in_level J (?L - 1) 0" "?L - Suc (?L - 1) = 0" using L by auto
  have D0: "upto_sw J (?L - 1) 0 = {}" using L by (auto simp: upto_sw_def)
  have "\<not> (recvs J (?L - 1) 0 i \<or> sends J (?L - 1) 0 i)" for i
    using linked_inside(1) [OF J, of "?L - 1" 0 i] L by auto
  then have run: "may_run J {} (?L - 1) 0" using may_run_next [OF top(1), of "{}" 0] D0 by auto
  have D1: "insert (?L - 1, 0) {} = upto_sw J (?L - 1) (2 ^ (?L - Suc (?L - 1)))" using L by (auto simp: upto_sw_def)
  obtain s1 where s1: "ASNetwork_cycle_switch (0, 0) s = Inr s1" "tree_mid J w0 mem (upto_sw J (?L - 1) (2 ^ (?L - Suc (?L - 1)))) T s1"
    using tree_step [OF J t m top(1) run] D1 top(2) by auto
  have levels: "\<exists>s'. rfold (\<lambda>i. ASNetwork_cycle_level i (2 ^ i) 0) [1..<Suc n] s1 = Inr s'
     \<and> tree_mid J w0 mem (upto_sw J (?L - Suc n) (2 ^ n)) T s'" if "n < ?L" for n
    using that
  proof (induction n)
    case 0
    then show ?case using s1(2) L by simp
  next
    case (Suc n)
    then obtain s2 where s2: "rfold (\<lambda>i. ASNetwork_cycle_level i (2 ^ i) 0) [1..<Suc n] s1 = Inr s2"
      "tree_mid J w0 mem (upto_sw J (?L - Suc n) (2 ^ n)) T s2" using Suc_lessD by blast
    let ?k = "?L - Suc (Suc n)"
    have k: "?k < ?L" "Suc n = ?L - Suc ?k" "Suc ?k = ?L - Suc n" "?L - Suc (Suc ?k) = n" using Suc.prems by auto
    have "tree_mid J w0 mem (upto_sw J ?k 0) T s2" using s2(2) upto_sw_level [of J ?k] k by simp
    then have "\<exists>s3. ASNetwork_cycle_level (Suc n) (2 ^ Suc n) 0 s2 = Inr s3 \<and> tree_mid J w0 mem (upto_sw J ?k (2 ^ Suc n)) T s3"
      by (intro level_loop [OF J t k(1,2)]) simp_all
    then obtain s3 where s3: "ASNetwork_cycle_level (Suc n) (2 ^ Suc n) 0 s2 = Inr s3" "tree_mid J w0 mem (upto_sw J ?k (2 ^ Suc n)) T s3" by blast
    have e: "[1..<Suc (Suc n)] = [1..<Suc n] @ [Suc n]" by simp
    have "rfold (\<lambda>i. ASNetwork_cycle_level i (2 ^ i) 0) [1..<Suc (Suc n)] s1 = Inr s3"
      unfolding e rfold_append s2(1) using s3(1) by simp
    then show ?case using s3(2) by blast
  qed
  have "Suc (?L - 1) = ?L" using L by simp
  then obtain s' where s': "rfold (\<lambda>i. ASNetwork_cycle_level i (2 ^ i) 0) [1..<?L] s1 = Inr s'" "tree_mid J w0 mem (upto_sw J 0 (2 ^ (?L - 1))) T s'"
    using levels [of "?L - 1"] L by auto
  have "upto_sw J 0 (2 ^ (?L - 1)) = all_sw J" using L by (auto simp: upto_sw_def all_sw_def)
  then have "tree_mid J w0 mem (all_sw J) T s'" using s'(2) by simp
  moreover obtain an st where s: "s = (an, st)" by (rule prod.exhaust)
  moreover have "an_nlevels an = ?L" "an_accumulation_buffer_enabled an = 0" using m s by (simp_all add: tree_mid_def)
  moreover have "an_nlevels (fst s1) = ?L" using s1(2) by (auto simp: tree_mid_def split: prod.splits)
  ultimately show ?thesis using s1(1) s'(1) by (simp add: ASNetwork_cycle_def)
qed

end
