(* ===== verification/ArtSum.thy ===== *)
theory ArtSum
  imports ArtWave "HOL-Library.Multiset"
begin

text \<open>
  What the package of a complete virtual neuron is: the sum of exactly its products of one wave, each
  once, bracketed as the tree adds them.
\<close>

section \<open>Sums of products\<close>

text \<open>\<open>v\<close> is some bracketed sum of all of \<open>M\<close>: no law of addition is used.\<close>

inductive adds :: "'d::plus multiset \<Rightarrow> 'd \<Rightarrow> bool" where
  one: "adds {#a#} a"
| plus: "adds M a \<Longrightarrow> adds N b \<Longrightarrow> adds (M + N) (a + b)"

lemma adds_sum: "adds M v \<Longrightarrow> v = sum_mset M" for v :: "'d::comm_monoid_add"
  by (induction rule: adds.induct) simp_all

text \<open>The leaves that a package at input \<open>s\<close> of level \<open>k\<close> has added up.\<close>

definition merge_cv :: "nat \<times> nat \<Rightarrow> (nat \<Rightarrow> nat multiset) \<Rightarrow> nat \<Rightarrow> nat multiset" where
  "merge_cv ab p x =
     (if fst ab \<le> 2 * x \<and> 2 * x + 1 \<le> snd ab then p (2 * x) + p (2 * x + 1)
      else if fst ab \<le> 2 * x \<and> 2 * x \<le> snd ab then p (2 * x) else p (2 * x + 1))"

primrec cv :: "nat \<Rightarrow> nat \<times> nat \<Rightarrow> nat \<Rightarrow> nat multiset" where
  "cv 0 ab s = {#s#}"
| "cv (Suc k) ab x = merge_cv (climb k ab) (cv k ab) x
     + (if art_role (lo k ab) (hi k ab) x = Receiver then merge_cv (climb k ab) (cv k ab) (partner x) else {#})"

section \<open>The data of a package\<close>

lemma data_made: "p_data (copy_of p) = p_data p" "p_data (sum2 l p q) = p_data p + p_data q" "p_data (sum3 l p q r) = p_data p + p_data q + p_data r"
  if "p_traffic_type p \<noteq> MULTICAST" for p q r :: "'d::plus DataPackage"
  using that by (simp_all add: copy_of_def DataPackage_copy_def Let_def DataPackage_general_def sum2_def sum3_def DataPackage_psum_def)

lemma merge_adds:
  assumes "a \<le> b" "art_role a b x \<noteq> Idle"
    and p: "\<And>s. a \<le> s \<Longrightarrow> s \<le> b \<Longrightarrow> of_vn i (p s) \<and> adds (image_mset d (c s)) (p_data (p s))"
  shows "adds (image_mset d (merge_cv (a, b) c x)) (p_data (merge l (a, b) p x))"
proof -
  have o': "\<And>s. a \<le> s \<Longrightarrow> s \<le> b \<Longrightarrow> p_traffic_type (p s) \<noteq> MULTICAST" using p by (simp add: of_vn_def)
  consider (both) "a \<le> 2 * x \<and> 2 * x + 1 \<le> b" | (left) "\<not> (a \<le> 2 * x \<and> 2 * x + 1 \<le> b)" "a \<le> 2 * x \<and> 2 * x \<le> b"
    | (right) "\<not> (a \<le> 2 * x \<and> 2 * x + 1 \<le> b)" "\<not> (a \<le> 2 * x \<and> 2 * x \<le> b)" "a \<le> 2 * x + 1 \<and> 2 * x + 1 \<le> b"
    using role_input [OF assms(1), of x] assms(2) by blast
  then show ?thesis
  proof cases
    case both
    then have "adds (image_mset d (c (2 * x)) + image_mset d (c (2 * x + 1))) (p_data (p (2 * x)) + p_data (p (2 * x + 1)))"
      by (intro adds.plus) (use p in auto)
    then show ?thesis using both o' [of "2 * x"] by (simp add: merge_cv_def merge_def data_made)
  next
    case left
    then show ?thesis using p [of "2 * x"] o' [of "2 * x"] by (auto simp add: merge_cv_def merge_def data_made)
  next
    case right
    then show ?thesis using p [of "2 * x + 1"] o' [of "2 * x + 1"] by (auto simp add: merge_cv_def merge_def data_made)
  qed
qed

lemma pk_adds:
  assumes J: "tree_job_ok J" and i: "i < length (job_plan J)" and s: "low J k i \<le> s" "s \<le> high J k i"
  shows "adds (image_mset (\<lambda>s. p_data (job_input J t s)) (cv k (job_plan J ! i) s)) (p_data (pk J k (job_plan J ! i) s t))"
  using s
proof (induction k arbitrary: s)
  case 0
  then show ?case by (simp add: adds.one)
next
  case (Suc k)
  let ?iv = "job_plan J ! i" and ?d = "\<lambda>s. p_data (job_input J t s)"
  note le = job_interval(1,2) [OF J i, of k]
  have r: "rol J k s i \<in> {Plain, Receiver}" using role_up [OF le(1), of s] Suc.prems by simp
  have side: "adds (image_mset ?d (merge_cv (climb k ?iv) (cv k ?iv) x)) (p_data (side J k ?iv x t))" if "rol J k x i \<noteq> Idle" for x
    unfolding side_def
    using merge_adds [OF le(1) that, where i = i and l = "job_levels J - Suc k" and d = ?d and c = "cv k ?iv" and p = "\<lambda>s. pk J k ?iv s t"] Suc.IH pk_of_vn [OF J i] by simp
  show ?case
  proof (cases "rol J k s i = Receiver")
    case True
    have p: "rol J k (partner s) i \<noteq> Idle" using role_partner(2) [OF le(1) True] by simp
    have io: "low J k i \<le> 2 * s" "2 * s + 1 \<le> high J k i" using role_receiver_full [OF le True] by simp_all
    have "side J k ?iv s t = sum2 (job_levels J - Suc k) (pk J k ?iv (2 * s) t) (pk J k ?iv (2 * s + 1) t)"
      using io by (simp add: side_def merge_def)
    moreover have "p_traffic_type (pk J k ?iv (2 * s) t) \<noteq> MULTICAST"
      using pk_of_vn [OF J i, of k "2 * s" t] io by (simp add: of_vn_def)
    ultimately have "p_data (pk J (Suc k) ?iv s t) = p_data (side J k ?iv s t) + p_data (side J k ?iv (partner s) t)"
      using True by (simp add: pk_Suc data_made)
    then show ?thesis using True adds.plus [OF side side [OF p], of s] by simp
  next
    case False
    then show ?thesis using side [of s] r by (simp add: pk_Suc)
  qed
qed

section \<open>Every product once\<close>

lemma sum_pairs:
  assumes "a \<le> b"
  shows "(\<Sum>x \<in> {a div 2..b div 2}. merge_cv (a, b) f x) = (\<Sum>s \<in> {a..b}. f s)"
proof -
  have "(\<Sum>x \<in> {a div 2..b div 2}. \<Sum>s \<in> {s \<in> {a..b}. s div 2 = x}. f s) = (\<Sum>s \<in> {a..b}. f s)"
    by (rule sum.group) (auto simp: div_le_mono)
  moreover have "(\<Sum>s \<in> {s \<in> {a..b}. s div 2 = x}. f s) = merge_cv (a, b) f x" if x: "x \<in> {a div 2..b div 2}" for x
  proof -
    have sd: "s div 2 = x \<longleftrightarrow> s = 2 * x \<or> s = 2 * x + 1" for s by auto
    have "a \<le> 2 * x \<and> 2 * x \<le> b \<or> a \<le> 2 * x + 1 \<and> 2 * x + 1 \<le> b" using role_input [OF assms, of x] x by (simp add: role_touches)
    then consider (both) "{s \<in> {a..b}. s div 2 = x} = {2 * x, 2 * x + 1}" "a \<le> 2 * x" "2 * x + 1 \<le> b"
      | (left) "{s \<in> {a..b}. s div 2 = x} = {2 * x}" "a \<le> 2 * x" "2 * x \<le> b" "\<not> 2 * x + 1 \<le> b"
      | (right) "{s \<in> {a..b}. s div 2 = x} = {2 * x + 1}" "\<not> a \<le> 2 * x"
      unfolding sd by fastforce
    then show ?thesis by cases (simp_all add: merge_cv_def)
  qed
  ultimately show ?thesis by simp
qed

lemma roles_split:
  fixes R :: "nat \<Rightarrow> role"
  shows "(\<And>x. x \<in> A \<Longrightarrow> R x \<noteq> Idle) \<Longrightarrow> A = {x \<in> A. R x \<in> {Plain, Receiver}} \<union> {x \<in> A. R x = Sender}"
    "{x \<in> A. R x \<in> {Plain, Receiver}} \<inter> {x \<in> A. R x = Sender} = {}"
proof -
  have "r \<in> {Plain, Receiver} \<or> r = Sender" if "r \<noteq> Idle" for r using that by (cases r) simp_all
  then show "(\<And>x. x \<in> A \<Longrightarrow> R x \<noteq> Idle) \<Longrightarrow> A = {x \<in> A. R x \<in> {Plain, Receiver}} \<union> {x \<in> A. R x = Sender}" by blast
qed auto

lemma roles_sum:
  fixes m :: "nat \<Rightarrow> 'b::comm_monoid_add"
  assumes "finite A" "\<And>x. x \<in> A \<Longrightarrow> R x \<noteq> Idle"
  shows "sum m A = sum m {x \<in> A. R x \<in> {Plain, Receiver}} + sum m {x \<in> A. R x = Sender}"
  using sum.union_disjoint [OF _ _ roles_split(2), of A R m] roles_split(1) [of A R] assms by simp

lemma climb_sum:
  assumes "fst ab \<le> snd ab" "admissible (fst ab) (snd ab)"
  shows "(\<Sum>s \<in> {lo k ab..hi k ab}. cv k ab s) = mset_set {fst ab..snd ab}"
proof (induction k)
  case 0
  have "(\<Sum>s \<in> A. {#s#}) = mset_set A" if "finite A" for A :: "nat set" using that by (induction A) simp_all
  then show ?case by simp
next
  case (Suc k)
  let ?a = "lo k ab" and ?b = "hi k ab" and ?m = "merge_cv (climb k ab) (cv k ab)"
  have le: "?a \<le> ?b" by (rule climb_le [OF assms(1)])
  let ?ro = "art_role ?a ?b" and ?all = "{?a div 2..?b div 2}"
  have all: "x \<in> ?all \<longleftrightarrow> ?ro x \<noteq> Idle" for x by (simp add: role_touches)
  let ?up = "{x \<in> ?all. ?ro x \<in> {Plain, Receiver}}" and ?se = "{x \<in> ?all. ?ro x = Sender}" and ?re = "{x \<in> ?all. ?ro x = Receiver}"
  have up: "{lo (Suc k) ab..hi (Suc k) ab} = ?up"
  proof (rule set_eqI)
    fix x
    have "?ro x \<in> {Plain, Receiver} \<Longrightarrow> x \<in> ?all" unfolding all by (cases "?ro x") simp_all
    moreover have "x \<in> {lo (Suc k) ab..hi (Suc k) ab} \<longleftrightarrow> ?ro x \<in> {Plain, Receiver}" using role_up [OF le, of x] by simp
    ultimately show "x \<in> {lo (Suc k) ab..hi (Suc k) ab} \<longleftrightarrow> x \<in> ?up" unfolding mem_Collect_eq by blast
  qed
  have pos: "0 < x" if "?ro x = Receiver \<or> ?ro x = Sender" for x
  proof -
    have "?b < ?b + 1" by simp
    also have "\<dots> < 2 ^ (?b + 1)" by (rule less_exp)
    finally have "?b < 2 ^ (?b + 1)" .
    then show ?thesis using role_linked(2) [of ?a ?b x ?b] that le by blast
  qed
  have "(\<Sum>x \<in> ?re. ?m (partner x)) = (\<Sum>x \<in> ?se. ?m x)"
  proof (rule sum.reindex_bij_witness [where i = partner and j = partner])
    show "partner (partner x) = x" if "x \<in> ?re" for x using that pos partner_partner by auto
    show "partner (partner x) = x" if "x \<in> ?se" for x using that pos partner_partner by auto
    show "partner x \<in> ?se" if "x \<in> ?re" for x using that role_partner(2) [OF le, of x] all by auto
    show "partner x \<in> ?re" if "x \<in> ?se" for x using that role_partner(1) [OF le, of x] all by auto
  qed simp
  moreover have "(\<Sum>x \<in> ?up. if ?ro x = Receiver then ?m (partner x) else {#}) = (\<Sum>x \<in> ?re. ?m (partner x))"
    by (rule sum.mono_neutral_cong_right) auto
  ultimately have "(\<Sum>x \<in> ?up. cv (Suc k) ab x) = (\<Sum>x \<in> ?up. ?m x) + (\<Sum>x \<in> ?se. ?m x)"
    by (simp add: sum.distrib)
  also have "\<dots> = (\<Sum>x \<in> ?all. ?m x)" by (rule roles_sum [symmetric]) (simp, erule all [THEN iffD1])
  also have "\<dots> = (\<Sum>s \<in> {?a..?b}. cv k ab s)" using sum_pairs [OF le, of "cv k ab"] by simp
  finally show ?case using Suc unfolding up by simp
qed

text \<open>The package of a complete virtual neuron.\<close>

lemma complete_sum:
  assumes J: "tree_job_ok J" and i: "i < length (job_plan J)" and c: "climb k (job_plan J ! i) = (x, x)"
  shows "adds (mset (map (\<lambda>s. p_data (job_input J t s)) [fst (job_plan J ! i)..<Suc (snd (job_plan J ! i))])) (p_data (pk J k (job_plan J ! i) x t))"
proof -
  let ?iv = "job_plan J ! i"
  have "(\<Sum>s \<in> {lo k ?iv..hi k ?iv}. cv k ?iv s) = mset_set {fst ?iv..snd ?iv}"
    using climb_sum [of ?iv k] job_interval(1,2) [OF J i, of 0] by simp
  then have "cv k ?iv x = mset_set {fst ?iv..snd ?iv}" using c by simp
  also have "\<dots> = mset [fst ?iv..<Suc (snd ?iv)]" by (simp add: mset_upt atLeastLessThanSuc_atLeastAtMost del: upt_Suc)
  finally show ?thesis using pk_adds [OF J i, of k x t] c by (simp del: upt_Suc)
qed

end
