(* ===== verification/ArtRun.thy ===== *)
theory ArtRun
  imports ArtCycle ArtSum
begin

text \<open>
  The tree at work: a wave of products on the leaf links in every cycle, and the sums on the
  connections to memory.
\<close>

section \<open>A run\<close>

text \<open>
  What the multiplier switches send before a cycle, one package each on the leaf links below
  \<open>used\<close>; what waits for the bus at the switches afterwards, and that the bus takes all of it.
\<close>

definition art_feed :: "nat \<Rightarrow> nat \<Rightarrow> (nat \<Rightarrow> 'd DataPackage) \<Rightarrow> 'd store \<Rightarrow> 'd store" where
  "art_feed L used wave = fold (\<lambda>s st. st(RnLink (L - 1) s := Connection_send [wave s] (st (RnLink (L - 1) s)))) [0..<used]"

definition art_memory_link :: "'d ASNetwork \<Rightarrow> nat \<times> nat \<Rightarrow> cid option" where
  "art_memory_link an ij = (case an_aswitchtable an ij of None \<Rightarrow> None | Some w \<Rightarrow> as_memoryConnection w)"

definition art_out :: "'d ASNetwork \<Rightarrow> 'd store \<Rightarrow> nat \<times> nat \<Rightarrow> 'd DataPackage list" where
  "art_out an st ij = (case art_memory_link an ij of None \<Rightarrow> [] | Some c \<Rightarrow> flight st c)"

definition art_take :: "'d ASNetwork \<Rightarrow> 'd store \<Rightarrow> 'd store" where
  "art_take an = fold (\<lambda>ij st. case art_memory_link an ij of None \<Rightarrow> st
      | Some c \<Rightarrow> st(c := snd (Connection_receive (st c)))) (tree_positions (an_nlevels an))"

primrec art_run :: "nat \<Rightarrow> (nat \<Rightarrow> nat \<Rightarrow> 'd::{plus,ord} DataPackage) \<Rightarrow> nat \<Rightarrow> 'd ASNetwork \<times> 'd store \<Rightarrow>
    ((nat \<times> nat \<Rightarrow> 'd DataPackage list) list \<times> 'd ASNetwork \<times> 'd store) res" where
  "art_run used inp 0 s = Inr ([], s)"
| "art_run used inp (Suc T) s =
     rbind (art_run used inp T s) (\<lambda>(outs, an, st).
     rbind (ASNetwork_cycle (an, art_feed (an_nlevels an) used (inp T) st)) (\<lambda>(an, st).
     Inr (outs @ [art_out an st], an, art_take an st)))"

section \<open>Between two cycles\<close>

lemma art_feed_Suc: "art_feed L (Suc n) wave st =
    (art_feed L n wave st)(RnLink (L - 1) n := Connection_send [wave n] (art_feed L n wave st (RnLink (L - 1) n)))"
  by (simp add: art_feed_def)

lemma art_feed_links:
  "link (art_feed L n wave st) (RnLink (L - 1) s) xs \<longleftrightarrow> (if s < n then xs = [wave s] else link st (RnLink (L - 1) s) xs)"
proof (induction n)
  case (Suc n)
  show ?case
  proof (cases "s = n")
    case True
    then show ?thesis unfolding art_feed_Suc True by (simp only: link_send) simp
  next
    case False
    then have "RnLink (L - 1) n \<noteq> RnLink (L - 1) s" by simp
    then show ?thesis unfolding art_feed_Suc by (subst link_other) (use Suc False in auto)
  qed
qed (simp add: art_feed_def)

lemma art_feed_other: "(\<And>s. c \<noteq> RnLink (L - 1) s) \<Longrightarrow> art_feed L n wave st c = st c"
  by (induction n) (simp_all add: art_feed_Suc art_feed_def [of L 0])

lemma art_take_links:
  fixes st :: "'a store" and an :: "'a ASNetwork"
  assumes st': "st' = art_take an st"
  shows "ij \<in> set (tree_positions (an_nlevels an)) \<Longrightarrow> art_memory_link an ij = Some c \<Longrightarrow> link st' c []"
    "(\<And>ij. ij \<in> set (tree_positions (an_nlevels an)) \<Longrightarrow> art_memory_link an ij \<noteq> Some c) \<Longrightarrow> st' c = st c"
proof -
  define f where "f = (\<lambda>ij (st :: 'a store). case art_memory_link an ij of None \<Rightarrow> st | Some c \<Rightarrow> st(c := snd (Connection_receive (st c))))"
  have keep: "link (f ij st) c []" if "link st c []" for ij and st :: "'a store" using that by (auto simp: f_def link_def split: option.split)
  have "(\<exists>ij \<in> set ps. art_memory_link an ij = Some c) \<or> link st c [] \<Longrightarrow> link (fold f ps st) c []" for ps and st :: "'a store"
  proof (induction ps arbitrary: st)
    case (Cons ij ps)
    have "link (f ij st) c []" if "art_memory_link an ij = Some c" using that by (simp add: f_def)
    then have "(\<exists>ij \<in> set ps. art_memory_link an ij = Some c) \<or> link (f ij st) c []" using Cons.prems keep [of st ij] by auto
    then show ?case using Cons.IH by simp
  qed simp
  then show "ij \<in> set (tree_positions (an_nlevels an)) \<Longrightarrow> art_memory_link an ij = Some c \<Longrightarrow> link st' c []"
    unfolding st' art_take_def f_def by blast
  have "(\<forall>ij \<in> set ps. art_memory_link an ij \<noteq> Some c) \<Longrightarrow> fold f ps st c = st c" for ps and st :: "'a store"
    by (induction ps arbitrary: st) (auto simp: f_def split: option.split)
  then show "(\<And>ij. ij \<in> set (tree_positions (an_nlevels an)) \<Longrightarrow> art_memory_link an ij \<noteq> Some c) \<Longrightarrow> st' c = st c"
    unfolding st' art_take_def f_def by blast
qed

lemma set_tree_positions: "(l, x) \<in> set (tree_positions n) \<longleftrightarrow> l < n \<and> x < 2 ^ l"
  by (auto simp: tree_positions_def image_iff)

lemma mid_memory_link:
  assumes "tree_told J out w0 mem" "tree_mid J w0 mem D T (an, st)" "in_level J k x"
  shows "art_memory_link an (job_levels J - Suc k, x) = Some (mem k x)"
proof -
  obtain w where "an_aswitchtable an (job_levels J - Suc k, x) = Some w"
    "as_has (w0 k x) (held_at J k (2 * x) (now D T k x), held_at J k (2 * x + 1) (now D T k x), side_held J k x (now D T k x)) ([], []) w"
    using assms(2,3) unfolding tree_mid_def switches_mid_def by blast
  then show ?thesis using assms(1,3) by (auto simp: art_memory_link_def as_has_simps tree_told_def)
qed

text \<open>The state before the multipliers send: the next cycle can start as soon as they have.\<close>

definition tree_rest :: "'d::plus tree_job \<Rightarrow> (nat \<Rightarrow> nat \<Rightarrow> 'd ASwitch) \<Rightarrow> (nat \<Rightarrow> nat \<Rightarrow> cid) \<Rightarrow> nat \<Rightarrow> 'd ASNetwork \<times> 'd store \<Rightarrow> bool" where
  "tree_rest J w0 mem T = (\<lambda>(an, st). an_nlevels an = job_levels J \<and> an_accumulation_buffer_enabled an = 0
     \<and> switches_mid J w0 {} T an \<and> sides_mid J {} T st \<and> memory_mid J mem {} T st
     \<and> (\<forall>k s. k < job_levels J \<longrightarrow> s < 2 ^ (job_levels J - k) \<longrightarrow>
          link st (RnLink (job_levels J - Suc k) s) (if k = 0 then [] else coming J k s T)))"

lemma rest_feed:
  assumes J: "tree_job_ok J" and t: "tree_told J out w0 mem" and r: "tree_rest J w0 mem T (an, st)"
  shows "tree_mid J w0 mem {} T (an, art_feed (an_nlevels an) (job_used J) (job_input J T) st)"
proof -
  let ?L = "job_levels J" and ?st = "art_feed (job_levels J) (job_used J) (job_input J T) st"
  have nl: "an_nlevels an = ?L" and sw: "switches_mid J w0 {} T an" and si: "sides_mid J {} T st" and me: "memory_mid J mem {} T st"
    and li: "\<And>k s. k < ?L \<Longrightarrow> s < 2 ^ (?L - k) \<Longrightarrow> link st (RnLink (?L - Suc k) s) (if k = 0 then [] else coming J k s T)"
    and en: "an_accumulation_buffer_enabled an = 0" using r by (auto simp: tree_rest_def)
  note f = art_feed_links [of ?L "job_used J" "job_input J T" st] art_feed_other [of _ ?L "job_used J" "job_input J T" st]
  have "links_mid J {} T ?st"
    unfolding links_mid_def
  proof (intro allI impI)
    fix k s :: nat assume k: "k < ?L" "s < 2 ^ (?L - k)"
    have "link ?st (RnLink (?L - Suc k) s) (coming J k s T)"
    proof (cases "k = 0")
      case True
      have "coming J 0 s T = (if s < job_used J then [job_input J T s] else [])"
      proof (cases "s < job_used J")
        case True
        then obtain i where "owns J 0 s i" using owned_used [OF J] by blast
        then show ?thesis using coming_owner [OF J] True by simp
      next
        case False
        then show ?thesis using owned_used [OF J, of s] unowned(2) [of J 0 s T] by auto
      qed
      then show ?thesis using f(1) [of s] li [OF k] True by simp
    next
      case False
      then have "RnLink (?L - Suc k) s \<noteq> RnLink (?L - 1) u" for u using k(1) by auto
      then have "?st (RnLink (?L - Suc k) s) = st (RnLink (?L - Suc k) s)" by (rule f(2))
      then show ?thesis using li [OF k] False link_cong [of ?st _ st] by auto
    qed
    then show "link ?st (RnLink (?L - Suc k) s) (if k \<noteq> 0 \<and> (k - 1, s) \<in> {} then coming J k s (Suc T) else if (k, s div 2) \<in> {} then [] else coming J k s T)"
      by simp
  qed
  moreover have "sides_mid J {} T ?st"
    unfolding sides_mid_def
  proof (intro allI impI)
    fix k x i assume k: "k < ?L" "recvs J k x i"
    have "?st (fwl J k x) = st (fwl J k x)" by (rule f(2)) simp
    then have l: "link ?st (fwl J k x) xs = link st (fwl J k x) xs" for xs by (rule link_cong)
    show "link ?st (fwl J k x) (if (k, partner x) \<in> {} then side_coming J k x (Suc T) else if (k, x) \<in> {} then [] else side_coming J k x T)"
      unfolding l by (rule sides_midD [OF si k])
  qed
  moreover have "memory_mid J mem {} T ?st"
    unfolding memory_mid_def
  proof (intro allI impI)
    fix k x assume k: "in_level J k x"
    have "?st (mem k x) = st (mem k x)" by (rule f(2)) (use t k in \<open>auto simp: tree_told_def\<close>)
    then have l: "link ?st (mem k x) xs = link st (mem k x) xs" for xs by (rule link_cong)
    show "link ?st (mem k x) (if (k, x) \<in> {} \<and> (\<exists>i. finals J k x i) then going J k x T else [])"
      unfolding l by (rule memory_midD [OF me k])
  qed
  ultimately show ?thesis using nl en sw by (simp add: tree_mid_def)
qed

lemma mid_take:
  assumes J: "tree_job_ok J" and t: "tree_told J out w0 mem" and m: "tree_mid J w0 mem (all_sw J) T (an, st)"
  shows "tree_rest J w0 mem (Suc T) (an, art_take an st)"
proof -
  let ?L = "job_levels J" and ?st = "art_take an st"
  have nl: "an_nlevels an = ?L" and sw: "switches_mid J w0 (all_sw J) T an" and si: "sides_mid J (all_sw J) T st" and me: "memory_mid J mem (all_sw J) T st"
    and li: "links_mid J (all_sw J) T st" and en: "an_accumulation_buffer_enabled an = 0" using m by (auto simp: tree_mid_def)
  note f = art_take_links [OF refl [of ?st]]
  have not_mem: "art_memory_link an ij \<noteq> Some c" if "ij \<in> set (tree_positions (an_nlevels an))" "(\<exists>l s. c = RnLink l s) \<or> (\<exists>l s. c = RnFw l s)" for ij c
  proof -
    obtain l x where ij: "ij = (l, x)" by (rule prod.exhaust)
    let ?k = "?L - Suc l"
    have k: "in_level J ?k x" "l = ?L - Suc ?k" using that(1) nl by (auto simp: ij set_tree_positions)
    have "art_memory_link an (l, x) = Some (mem ?k x)" using mid_memory_link [OF t m k(1)] k(2) by simp
    then show ?thesis using t k(1) that(2) ij by (auto simp: tree_told_def)
  qed
  have link_same: "link ?st c xs = link st c xs" if "(\<exists>l s. c = RnLink l s) \<or> (\<exists>l s. c = RnFw l s)" for c xs
    by (rule link_cong) (rule f(2), rule not_mem [OF _ that])
  have "switches_mid J w0 {} (Suc T) an"
    using sw by (auto simp: switches_mid_def now_def all_sw_def)
  moreover have "sides_mid J {} (Suc T) ?st"
    unfolding sides_mid_def
  proof (intro allI impI)
    fix k x i assume k: "k < ?L" "recvs J k x i"
    have "partner x < 2 ^ (?L - Suc k)" using linked_inside(3) [OF J k(1), of "partner x" i] recvs_partner [OF k(2)] by simp
    then have "link st (fwl J k x) (side_coming J k x (Suc T))" using sides_midD [OF si k] k(1) by (simp add: all_sw_def)
    then show "link ?st (fwl J k x) (if (k, partner x) \<in> {} then side_coming J k x (Suc (Suc T)) else if (k, x) \<in> {} then [] else side_coming J k x (Suc T))"
      using link_same by (simp add: fwl_def)
  qed
  moreover have "memory_mid J mem {} (Suc T) ?st"
    unfolding memory_mid_def
  proof (intro allI impI)
    fix k x assume k: "in_level J k x"
    have "link ?st (mem k x) []"
      by (rule f(1) [OF _ mid_memory_link [OF t m k]]) (use k nl in \<open>simp add: set_tree_positions\<close>)
    then show "link ?st (mem k x) (if (k, x) \<in> {} \<and> (\<exists>i. finals J k x i) then going J k x (Suc T) else [])" by simp
  qed
  moreover have "link ?st (RnLink (?L - Suc k) s) (if k = 0 then [] else coming J k s (Suc T))" if k: "k < ?L" "s < 2 ^ (?L - k)" for k s
  proof -
    have "2 ^ (?L - k) = 2 * (2 ^ (?L - Suc k) :: nat)" using k(1) by (metis Suc_diff_Suc power_Suc)
    then have "s div 2 < 2 ^ (?L - Suc k)" using k(2) by simp
    then have "(k, s div 2) \<in> all_sw J" "k \<noteq> 0 \<Longrightarrow> (k - 1, s) \<in> all_sw J" using k by (simp_all add: all_sw_def)
    then have "link st (RnLink (?L - Suc k) s) (if k = 0 then [] else coming J k s (Suc T))" using links_midD [OF li k] by (cases "k = 0") simp_all
    then show ?thesis using link_same by simp
  qed
  ultimately show ?thesis using nl en by (simp add: tree_rest_def)
qed

section \<open>What arrives at memory\<close>

lemma mid_out:
  assumes t: "tree_told J out w0 mem" and m: "tree_mid J w0 mem (all_sw J) T (an, st)" and k: "in_level J k x"
  shows "art_out an st (job_levels J - Suc k, x) = (if \<exists>i. finals J k x i then going J k x T else [])"
proof -
  have "memory_mid J mem (all_sw J) T st" using m by (simp add: tree_mid_def)
  from link_flight [OF memory_midD [OF this k]] k show ?thesis
    using mid_memory_link [OF t m k] by (simp add: art_out_def all_sw_def)
qed

lemma run_ok:
  assumes J: "tree_job_ok J" and t: "tree_told J out w0 mem" and r: "tree_rest J w0 mem 0 s"
  shows "\<exists>outs s'. art_run (job_used J) (job_input J) T s = Inr (outs, s') \<and> tree_rest J w0 mem T s' \<and> length outs = T
     \<and> (\<forall>n k x. n < T \<longrightarrow> in_level J k x \<longrightarrow> (outs ! n) (job_levels J - Suc k, x) = (if \<exists>i. finals J k x i then going J k x n else []))"
proof (induction T)
  case 0
  then show ?case using r by simp
next
  case (Suc T)
  then obtain outs an st where 1: "art_run (job_used J) (job_input J) T s = Inr (outs, an, st)" "tree_rest J w0 mem T (an, st)" "length outs = T"
    "\<forall>n k x. n < T \<longrightarrow> in_level J k x \<longrightarrow> (outs ! n) (job_levels J - Suc k, x) = (if \<exists>i. finals J k x i then going J k x n else [])" by auto
  obtain an' st' where 2: "ASNetwork_cycle (an, art_feed (an_nlevels an) (job_used J) (job_input J T) st) = Inr (an', st')"
    "tree_mid J w0 mem (all_sw J) T (an', st')"
    using tree_cycle [OF J t rest_feed [OF J t 1(2)]] by auto
  have "art_run (job_used J) (job_input J) (Suc T) s = Inr (outs @ [art_out an' st'], an', art_take an' st')" using 1(1) 2(1) by simp
  moreover have "(outs @ [art_out an' st']) ! n = (if n < T then outs ! n else art_out an' st')" if "n < Suc T" for n
    using that 1(3) by (auto simp: nth_append less_Suc_eq)
  ultimately show ?case using mid_take [OF J t 2(2)] mid_out [OF t 2(2)] 1(3,4) by (auto simp: less_Suc_eq)
qed

end
