(* ===== verification/ArtTop.thy ===== *)
theory ArtTop
  imports ArtRun
begin

text \<open>
  The theorems about the augmented reduction tree: what a configured tree does with a stream of waves,
  and where the compiler and the wiring of the tree fail.
\<close>

section \<open>From the configuration to the first wave\<close>

definition tree_link :: "cid \<Rightarrow> bool" where
  "tree_link c = (case c of RnLink _ _ \<Rightarrow> True | RnFw _ _ \<Rightarrow> True | _ \<Rightarrow> False)"

text \<open>Every switch has a connection to memory of its own, and nothing waits there.\<close>

definition memory_apart :: "nat \<Rightarrow> 'd ASNetwork \<Rightarrow> 'd store \<Rightarrow> bool" where
  "memory_apart L an st \<longleftrightarrow> (\<forall>p \<in> set (tree_positions L).
     case art_memory_link an p of None \<Rightarrow> False
     | Some c \<Rightarrow> \<not> tree_link c \<and> link st c [] \<and> (\<forall>q \<in> set (tree_positions L). art_memory_link an q = Some c \<longrightarrow> q = p))"

lemma tree_link_simps [simp]: "tree_link (RnLink l s)" "tree_link (RnFw l s)"
  by (simp_all add: tree_link_def)

lemma entry_beyond:
  assumes p: "plan_ok (2 ^ L) ivs" and l: "l < L" and x: "\<not> x < 2 ^ l" shows "entry ivs (length ivs) (L - Suc l) x = (None, None)"
proof -
  have "role_at ivs (L - Suc l) x i = Idle" if "i < length ivs" for i
  proof -
    have "hi (L - Suc l) (ivs ! i) < 2 ^ (l + 1)" using climb_bound [of "ivs ! i" L "L - Suc l"] p that l by (simp add: plan_ok_def)
    then show ?thesis using beyond(1) x by blast
  qed
  then have "fold role_step (map (role_at ivs (L - Suc l) x) [0..<length ivs]) (None, None) = (None, None)" by (intro fold_idle) simp
  then show ?thesis by (simp add: entry_def roles_def)
qed

lemma configured_tree:
  fixes an :: "'d::{plus,ord} ASNetwork" and J :: "'d tree_job"
  assumes J: "tree_job_ok J" and c: "art_signals (job_levels J) (job_plan J) (job_used J) c"
    and w: "wired (job_levels J) out an"
  shows "ASNetwork_configure c an = Inr (an\<lparr>an_aswitchtable := \<lambda>ij. map_option (configured c ij) (an_aswitchtable an ij)\<rparr>)"
proof (rule ASNetwork_configure_ok)
  let ?L = "job_levels J"
  have sw: "\<exists>v. an_aswitchtable an (l, x) = Some v \<and> as_forwardingConnection v = fw_link l x" if "l < ?L" "x < 2 ^ l" for l x
    using w that unfolding wired_def by blast
  show "art_ok c" using c by (simp add: art_signals_def)
  have beyond: "x < 2 ^ l" if "l < ?L" "fst (ent J (?L - Suc l) x) \<noteq> None \<or> snd (ent J (?L - Suc l) x) \<noteq> None" for l x
    using entry_beyond [OF job_plan_ok [OF J] that(1)] that(2) by fastforce
  show "an_aswitchtable an ij \<noteq> None" if d: "art_switch c ij \<noteq> None \<or> art_childs c ij \<noteq> None \<or> art_memory c ij \<noteq> None" for ij
  proof -
    obtain l x where ij: "ij = (l, x)" by (rule prod.exhaust)
    have "l < ?L \<and> x < 2 ^ l"
    proof -
      consider "art_switch c (l, x) \<noteq> None" | "art_childs c (l, x) \<noteq> None" | "art_memory c (l, x) \<noteq> None" using d ij by blast
      then show ?thesis
      proof cases
        case 1
        then show ?thesis using c beyond [of l x] by (auto simp: art_signals_def split: if_splits)
      next
        case 2
        then show ?thesis using c by (auto simp: art_signals_def split: if_splits)
      next
        case 3
        then obtain i where i: "l < ?L" "i < length (job_plan J)" "climb (?L - l) (job_plan J ! i) = (x, x)"
          using c by (auto simp: art_signals_def split: if_splits)
        then show ?thesis using job_interval(4) [OF J i(2), of "?L - l"] by simp
      qed
    qed
    then show ?thesis using sw [of l x] ij by auto
  qed
  show "\<exists>v. an_aswitchtable an ij = Some v \<and> as_forwardingConnection v \<noteq> None" if d: "art_fwlink c ij \<noteq> None" for ij
  proof -
    obtain l x where ij: "ij = (l, x)" by (rule prod.exhaust)
    have e: "l < ?L" "snd (ent J (?L - Suc l) x) \<noteq> None" using c d ij by (auto simp: art_signals_def split: if_splits)
    then obtain i where i: "recvs J (?L - Suc l) x i \<or> sends J (?L - Suc l) x i" using ent_linked [OF J] by blast
    have k: "?L - Suc l < ?L" "?L - Suc (?L - Suc l) = l" using e(1) by auto
    have "sends J (?L - Suc l) x i \<or> recvs J (?L - Suc l) x i" using i by blast
    then have "fw_link l x \<noteq> None" using linked_fwl(1) [OF J k(1)] k(2) by fastforce
    then show ?thesis using sw [OF e(1) beyond] e ij by fastforce
  qed
qed

lemma tree_start:
  fixes an :: "'d::{plus,ord} ASNetwork" and J :: "'d tree_job"
  assumes J: "tree_job_ok J" and c: "art_signals (job_levels J) (job_plan J) (job_used J) c"
    and w: "wired (job_levels J) out an" and q: "quiet (job_levels J) st" and en: "an_accumulation_buffer_enabled an = 0" and m: "memory_apart (job_levels J) an st"
  shows "\<exists>w0 mem. tree_told J out w0 mem
     \<and> tree_rest J w0 mem 0 (an\<lparr>an_aswitchtable := \<lambda>ij. map_option (configured c ij) (an_aswitchtable an ij)\<rparr>, st)"
proof -
  let ?L = "job_levels J"
  define pos where "pos = (\<lambda>k x. (?L - Suc k, x :: nat))"
  define w0 where "w0 = (\<lambda>k x. configured c (pos k x) (the (an_aswitchtable an (pos k x))))"
  define mem where "mem = (\<lambda>k x. the (art_memory_link an (pos k x)))"
  have L: "0 < ?L" using J by (simp add: tree_job_ok_def)
  have inj: "pos k x = pos k' x' \<longleftrightarrow> k = k' \<and> x = x'" if "in_level J k x" "in_level J k' x'" for k x k' x'
    using that by (auto simp: pos_def)
  have tp: "pos k x \<in> set (tree_positions ?L)" if "in_level J k x" for k x using that by (simp add: pos_def set_tree_positions)
  have sw: "\<exists>v. an_aswitchtable an (pos k x) = Some v \<and> placed out (?L - Suc k) x v \<and> as_forwardingConnection v = fw_link (?L - Suc k) x"
    if "in_level J k x" for k x
  proof -
    have "?L - Suc k < ?L" "x < 2 ^ (?L - Suc k)" using that by auto
    then show ?thesis using w unfolding wired_def pos_def by blast
  qed
  have ml: "art_memory_link an (pos k x) = Some (mem k x) \<and> \<not> tree_link (mem k x) \<and> link st (mem k x) []
     \<and> (\<forall>q \<in> set (tree_positions ?L). art_memory_link an q = Some (mem k x) \<longrightarrow> q = pos k x)" if "in_level J k x" for k x
  proof -
    have "case art_memory_link an (pos k x) of None \<Rightarrow> False
     | Some c \<Rightarrow> \<not> tree_link c \<and> link st c [] \<and> (\<forall>q \<in> set (tree_positions ?L). art_memory_link an q = Some c \<longrightarrow> q = pos k x)"
      using m tp [OF that] unfolding memory_apart_def by blast
    then show ?thesis by (cases "art_memory_link an (pos k x)") (simp_all add: mem_def)
  qed
  have cf: "told J out k x (w0 k x) \<and> as_memoryConnection (w0 k x) = Some (mem k x) \<and> as_has (w0 k x) ([], [], []) ([], []) (w0 k x)
     \<and> map_option (configured c (pos k x)) (an_aswitchtable an (pos k x)) = Some (w0 k x)" if x: "in_level J k x" for k x
  proof -
    obtain v where v: "an_aswitchtable an (pos k x) = Some v" "placed out (?L - Suc k) x v" "as_forwardingConnection v = fw_link (?L - Suc k) x"
      using sw [OF x] by blast
    have mv: "as_memoryConnection v = Some (mem k x)" using ml [OF x] v(1) by (simp add: art_memory_link_def)
    have w0v: "w0 k x = configured c (?L - Suc k, x) v" "map_option (configured c (pos k x)) (an_aswitchtable an (pos k x)) = Some (w0 k x)"
      using v(1) by (simp_all add: w0_def pos_def)
    have kL: "k < ?L" "x < 2 ^ (?L - Suc k)" using x by simp_all
    note ct = configured_told [OF L c kL(1) refl kL(2) v(2,3)]
    show ?thesis
    proof (intro conjI)
      show "told J out k x (w0 k x)" "as_has (w0 k x) ([], [], []) ([], []) (w0 k x)" unfolding w0v(1) by (rule ct)+
      show "as_memoryConnection (w0 k x) = Some (mem k x)" unfolding w0v(1) ct(2) by (rule mv)
    qed (rule w0v(2))
  qed
  have told: "tree_told J out w0 mem"
    unfolding tree_told_def
  proof (intro allI impI conjI)
    fix k x assume x: "in_level J k x"
    show "told J out k x (w0 k x)" "as_memoryConnection (w0 k x) = Some (mem k x)" using cf [OF x] by blast+
    show "mem k x \<noteq> RnLink l s" "mem k x \<noteq> RnFw l s" for l s using ml [OF x] by auto
    show "k' = k" "x' = x" if x': "in_level J k' x'" "mem k' x' = mem k x" for k' x'
    proof -
      have "art_memory_link an (pos k' x') = Some (mem k x)" using ml [OF x'(1)] x'(2) by metis
      then have "pos k' x' = pos k x" using ml [OF x] tp [OF x'(1)] by blast
      then show "k' = k" "x' = x" using inj [OF x'(1) x] by blast+
    qed
  qed
  have zero: "held_at J k s 0 = []" "side_held J k s 0 = []" "0 < k \<Longrightarrow> coming J k s 0 = []" "side_coming J k s 0 = []" for k s
    by (auto simp: held_at_def side_held_def coming_def side_coming_def waits_def comes_eq split: option.split) (cases k; simp add: tm_Suc)
  have "tree_rest J w0 mem 0 (an\<lparr>an_aswitchtable := \<lambda>ij. map_option (configured c ij) (an_aswitchtable an ij)\<rparr>, st)"
    unfolding tree_rest_def prod.case
  proof (intro conjI)
    show "switches_mid J w0 {} 0 (an\<lparr>an_aswitchtable := \<lambda>ij. map_option (configured c ij) (an_aswitchtable an ij)\<rparr>)"
      unfolding switches_mid_def
    proof (intro allI impI)
      fix k x assume x: "in_level J k x"
      show "\<exists>w. an_aswitchtable (an\<lparr>an_aswitchtable := \<lambda>ij. map_option (configured c ij) (an_aswitchtable an ij)\<rparr>) (?L - Suc k, x) = Some w
         \<and> as_has (w0 k x) (held_at J k (2 * x) (now {} 0 k x), held_at J k (2 * x + 1) (now {} 0 k x), side_held J k x (now {} 0 k x)) ([], []) w"
        using cf [OF x] by (intro exI [of _ "w0 k x"]) (simp add: now_def zero pos_def)
    qed
    show "memory_mid J mem {} 0 st" unfolding memory_mid_def using ml by simp
    show "sides_mid J {} 0 st"
      unfolding sides_mid_def
    proof (intro allI impI)
      fix k x i assume k: "k < ?L" "recvs J k x i"
      have l: "fw_link (?L - Suc k) x = Some (fwl J k x)" using linked_fwl(1) [OF J k(1)] k(2) by blast
      have "link st (fwl J k x) []"
      proof (cases "even x")
        case True
        then show ?thesis using q l k(1) by (auto simp: quiet_def fwl_def fw_link_def split: if_splits)
      next
        case False
        then show ?thesis using q l k(1) by (auto simp: quiet_def fwl_def fw_link_def split: if_splits)
      qed
      then show "link st (fwl J k x) (if (k, partner x) \<in> {} then side_coming J k x (Suc 0) else if (k, x) \<in> {} then [] else side_coming J k x 0)"
        by (simp add: zero)
    qed
    show "\<forall>k s. k < ?L \<longrightarrow> s < 2 ^ (?L - k) \<longrightarrow> link st (RnLink (?L - Suc k) s) (if k = 0 then [] else coming J k s 0)"
    proof (intro allI impI)
      fix k s :: nat assume k: "k < ?L" "s < 2 ^ (?L - k)"
      then have "s < 2 ^ Suc (?L - Suc k)" "?L - Suc k < ?L" by (simp_all only: Suc_diff_Suc)
      then have "link st (RnLink (?L - Suc k) s) []" using q unfolding quiet_def by blast
      then show "link st (RnLink (?L - Suc k) s) (if k = 0 then [] else coming J k s 0)" using zero(3) by (cases "k = 0") simp_all
    qed
  qed (use w en in \<open>simp_all add: wired_def\<close>)
  then show ?thesis using told by blast
qed

section \<open>Where and when a sum is complete\<close>

definition vn_level :: "(nat \<times> nat) list \<Rightarrow> nat \<Rightarrow> nat" where
  "vn_level ivs i = (LEAST k. \<not> active ivs (Suc k) i)"

definition vn_switch :: "nat \<Rightarrow> (nat \<times> nat) list \<Rightarrow> nat \<Rightarrow> nat \<times> nat" where
  "vn_switch L ivs i = (L - Suc (vn_level ivs i), lo (Suc (vn_level ivs i)) (ivs ! i))"

definition vn_delay :: "(nat \<times> nat) list \<Rightarrow> nat \<Rightarrow> nat" where
  "vn_delay ivs i = fire (vn_level ivs i) (ivs ! i) (lo (Suc (vn_level ivs i)) (ivs ! i))"

lemma vn_level_ok:
  assumes J: "tree_job_ok J" and i: "i < length (job_plan J)"
  shows "vn_level (job_plan J) i < job_levels J" "acts J (vn_level (job_plan J) i) i" "\<not> acts J (Suc (vn_level (job_plan J) i)) i"
    "acts J k i \<Longrightarrow> \<not> acts J (Suc k) i \<Longrightarrow> k = vn_level (job_plan J) i"
proof -
  let ?n = "vn_level (job_plan J) i"
  have L: "0 < job_levels J" using J by (simp add: tree_job_ok_def)
  have top: "\<not> acts J (Suc (job_levels J - 1)) i" using acts_level [OF J, of "job_levels J" i] L by auto
  show n: "\<not> acts J (Suc ?n) i" unfolding vn_level_def by (rule LeastI [of "\<lambda>k. \<not> acts J (Suc k) i", OF top])
  have "?n \<le> job_levels J - 1" unfolding vn_level_def by (rule Least_le [of "\<lambda>k. \<not> acts J (Suc k) i", OF top])
  then show "?n < job_levels J" using L by linarith
  have below: "acts J k i" if "k \<le> ?n" for k
  proof (cases k)
    case 0
    then show ?thesis using active_0 [of "2 ^ job_levels J" "job_plan J" "job_used J" i] J i by (simp add: tree_job_ok_def)
  next
    case (Suc k')
    then have "k' < ?n" using that by simp
    then show ?thesis using not_less_Least [of k' "\<lambda>k. \<not> acts J (Suc k) i"] Suc by (simp add: vn_level_def)
  qed
  then show "acts J ?n i" by simp
  have down: "acts J (j + m) i \<Longrightarrow> acts J j i" for j m by (induction m) (auto dest: active_down)
  show "k = ?n" if k: "acts J k i" "\<not> acts J (Suc k) i"
  proof (rule ccontr)
    assume "k \<noteq> ?n"
    then consider "Suc k \<le> ?n" | "Suc ?n \<le> k" by linarith
    then show False
    proof cases
      case 1
      then show False using below k(2) by blast
    next
      case 2
      then show False using down [of "Suc ?n" "k - Suc ?n"] k(1) n by simp
    qed
  qed
qed

lemma finals_vn:
  assumes J: "tree_job_ok J"
  shows "i < length (job_plan J) \<Longrightarrow> finals J (vn_level (job_plan J) i) (lo (Suc (vn_level (job_plan J) i)) (job_plan J ! i)) i"
    "finals J k x i \<Longrightarrow> k = vn_level (job_plan J) i \<and> x = lo (Suc k) (job_plan J ! i)"
proof -
  have single: "climb (Suc k) (job_plan J ! i) = (lo (Suc k) (job_plan J ! i), lo (Suc k) (job_plan J ! i))"
    if "i < length (job_plan J)" "\<not> acts J (Suc k) i" for i k
    using that job_interval(1) [OF J that(1), of "Suc k"] by (simp add: active_def prod_eq_iff del: climb.simps)
  show "finals J (vn_level (job_plan J) i) (lo (Suc (vn_level (job_plan J) i)) (job_plan J ! i)) i" if i: "i < length (job_plan J)"
    unfolding finals_def using vn_level_ok(2,3) [OF J i] single [OF i] by blast
  show "k = vn_level (job_plan J) i \<and> x = lo (Suc k) (job_plan J ! i)" if f: "finals J k x i"
  proof -
    have a: "acts J k i" "climb (Suc k) (job_plan J ! i) = (x, x)" using f by (simp_all add: finals_def del: climb.simps)
    then have "\<not> acts J (Suc k) i" by (simp add: active_def del: climb.simps)
    then show ?thesis using vn_level_ok(4) [OF J acts_less [OF a(1)] a(1)] a(2) by (simp del: climb.simps)
  qed
qed

lemma tm_bound: "tm k ab s \<le> 2 * k"
proof (induction k arbitrary: s)
  case (Suc k)
  have "ready k ab x \<le> 2 * k" for x using Suc [of "2 * x"] Suc [of "2 * x + 1"] by (simp add: ready_def)
  then have "fire k ab s \<le> Suc (2 * k)" by (simp add: fire_def le_SucI)
  then show ?case by (simp add: tm_Suc)
qed simp

lemma vn_delay_bound:
  assumes "tree_job_ok J" "i < length (job_plan J)" shows "vn_delay (job_plan J) i < 2 * job_levels J"
  using tm_bound [of "Suc (vn_level (job_plan J) i)" "job_plan J ! i" "lo (Suc (vn_level (job_plan J) i)) (job_plan J ! i)"] vn_level_ok(1) [OF assms]
  by (simp add: vn_delay_def tm_Suc)

text \<open>The sum of every wave at the switch of its virtual neuron, and nothing else at memory.\<close>

lemma run_sums:
  assumes J: "tree_job_ok J" and t: "tree_told J out w0 mem" and r: "tree_rest J w0 mem 0 s"
  shows "\<exists>outs s'. art_run (job_used J) (job_input J) T s = Inr (outs, s') \<and> length outs = T
     \<and> (\<forall>n i. n < T \<longrightarrow> i < length (job_plan J) \<longrightarrow>
          (if vn_delay (job_plan J) i \<le> n
           then \<exists>p. (outs ! n) (vn_switch (job_levels J) (job_plan J) i) = [p] \<and> p_VN p = i
             \<and> adds (mset (map (\<lambda>s. p_data (job_input J (n - vn_delay (job_plan J) i) s))
                 [fst (job_plan J ! i)..<Suc (snd (job_plan J ! i))])) (p_data p)
           else (outs ! n) (vn_switch (job_levels J) (job_plan J) i) = []))
     \<and> (\<forall>n l x. n < T \<longrightarrow> l < job_levels J \<longrightarrow> x < 2 ^ l \<longrightarrow>
          (\<forall>i < length (job_plan J). (l, x) \<noteq> vn_switch (job_levels J) (job_plan J) i) \<longrightarrow> (outs ! n) (l, x) = [])"
proof -
  let ?L = "job_levels J" and ?ivs = "job_plan J"
  obtain outs s' where o': "art_run (job_used J) (job_input J) T s = Inr (outs, s')" "length outs = T"
    and go: "\<And>n k x. n < T \<Longrightarrow> in_level J k x \<Longrightarrow> (outs ! n) (?L - Suc k, x) = (if \<exists>i. finals J k x i then going J k x n else [])"
    using run_ok [OF J t r, of T] by blast
  have "if vn_delay ?ivs i \<le> n
           then \<exists>p. (outs ! n) (vn_switch ?L ?ivs i) = [p] \<and> p_VN p = i
             \<and> adds (mset (map (\<lambda>s. p_data (job_input J (n - vn_delay ?ivs i) s)) [fst (?ivs ! i)..<Suc (snd (?ivs ! i))])) (p_data p)
           else (outs ! n) (vn_switch ?L ?ivs i) = []" if n: "n < T" and i: "i < length ?ivs" for n i
  proof -
    let ?k = "vn_level ?ivs i" and ?x = "lo (Suc (vn_level ?ivs i)) (?ivs ! i)"
    have f: "finals J ?k ?x i" by (rule finals_vn(1) [OF J i])
    then have c: "climb (Suc ?k) (?ivs ! i) = (?x, ?x)" by (simp add: finals_def del: climb.simps)
    have "high J (Suc ?k) i = ?x" using arg_cong [OF c, of snd] by (simp only: snd_conv)
    note hx = this
    have x: "in_level J ?k ?x" using hx vn_level_ok(1) [OF J i] job_interval(4) [OF J i, of "Suc ?k"] by (simp del: climb.simps)
    have "(outs ! n) (vn_switch ?L ?ivs i) = comes (pk J (Suc ?k) (?ivs ! i) ?x) (vn_delay ?ivs i) n"
      using go [OF n x] f vn_ups [OF J finals_ups [OF J f]] by (auto simp: vn_switch_def vn_delay_def going_def simp del: climb.simps)
    moreover have "p_VN (pk J (Suc ?k) (?ivs ! i) ?x t) = i" for t
      using pk_of_vn [OF J i, of "Suc ?k" ?x t] hx by (simp add: of_vn_def del: climb.simps)
    ultimately show ?thesis using complete_sum [OF J i c, of "n - vn_delay ?ivs i"] by (simp add: comes_eq del: climb.simps upt_Suc)
  qed
  moreover have "(outs ! n) (l, x) = []" if n: "n < T" and l: "l < ?L" "x < 2 ^ l" and ne: "\<forall>i < length ?ivs. (l, x) \<noteq> vn_switch ?L ?ivs i" for n l x
  proof -
    let ?k = "?L - Suc l"
    have k: "in_level J ?k x" "?L - Suc ?k = l" using l by auto
    have "\<not> finals J ?k x i" for i
    proof
      assume f: "finals J ?k x i"
      then have "i < length ?ivs" using acts_less by (auto simp: finals_def)
      moreover have "vn_switch ?L ?ivs i = (l, x)" using finals_vn(2) [OF J f] k(2) by (simp add: vn_switch_def del: climb.simps)
      ultimately show False using ne by metis
    qed
    then show ?thesis using go [OF n k(1)] k(2) by simp
  qed
  ultimately show ?thesis using o' by blast
qed


section \<open>The contract of the tree\<close>

definition waves_ok :: "nat list \<Rightarrow> (nat \<Rightarrow> nat \<Rightarrow> 'd DataPackage) \<Rightarrow> bool" where
  "waves_ok zs inp \<longleftrightarrow> (\<forall>t i s. i < length zs \<longrightarrow> offset zs i \<le> s \<longrightarrow> s < offset zs (Suc i) \<longrightarrow>
     p_VN (inp t s) = i \<and> p_traffic_type (inp t s) \<noteq> MULTICAST)"

text \<open>
  Virtual neurons of the sizes \<open>zs\<close> lie side by side. There are a switch and a delay below twice the
  number of levels for each of them, such that every run succeeds and the package that this switch
  sends to memory in cycle \<open>n\<close> is the sum of the products of wave \<open>n - del i\<close> of the virtual neuron;
  there is no other package, in no other cycle and at no other switch.
\<close>

definition tree_reduces :: "nat \<Rightarrow> nat list \<Rightarrow> 'd::{plus,ord} ASNetwork \<times> 'd store \<Rightarrow> bool" where
  "tree_reduces L zs s \<longleftrightarrow> (\<exists>fin del. inj_on fin {..<length zs} \<and> (\<forall>i < length zs. del i < 2 * L)
     \<and> (\<forall>inp T. waves_ok zs inp \<longrightarrow> (\<exists>outs s'. art_run (sum_list zs) inp T s = Inr (outs, s') \<and> length outs = T
        \<and> (\<forall>n i. n < T \<longrightarrow> i < length zs \<longrightarrow>
             (if del i \<le> n
              then \<exists>p. (outs ! n) (fin i) = [p] \<and> p_VN p = i
                \<and> adds (mset (map (\<lambda>s. p_data (inp (n - del i) s)) [offset zs i..<offset zs (Suc i)])) (p_data p)
              else (outs ! n) (fin i) = []))
        \<and> (\<forall>n l x. n < T \<longrightarrow> l < L \<longrightarrow> x < 2 ^ l \<longrightarrow> (\<forall>i < length zs. (l, x) \<noteq> fin i) \<longrightarrow> (outs ! n) (l, x) = []))))"

lemma configured_reduces:
  fixes an :: "'d::{plus,ord} ASNetwork"
  assumes L: "0 < L" and z: "sizes_ok zs" "sum_list zs \<le> 2 ^ L" and c: "art_signals L (plan_from 0 zs) (sum_list zs) c"
    and an: "wired L out an" "quiet L st" "an_accumulation_buffer_enabled an = 0" "memory_apart L an st"
  shows "\<exists>an'. ASNetwork_configure c an = Inr an' \<and> an_accumulation_buffer_enabled an' = 0 \<and> tree_reduces L zs (an', st)"
proof -
  let ?J = "\<lambda>inp. \<lparr>job_levels = L, job_plan = plan_from 0 zs, job_used = sum_list zs, job_input = inp\<rparr> :: 'd tree_job"
  have two: "2 \<le> zs ! i" if "i < length zs" for i using z(1) nth_mem [OF that] unfolding sizes_ok_def by fastforce
  have iv: "fst (plan_from 0 zs ! i) = offset zs i" "Suc (snd (plan_from 0 zs ! i)) = offset zs (Suc i)" if "i < length zs" for i
    using nth_plan [OF that, of 0] two [OF that] offset_Suc [OF that] by simp_all
  have J: "tree_job_ok (?J inp)" if "waves_ok zs inp" for inp
    unfolding tree_job_ok_def
  proof (intro conjI allI impI)
    fix t i s
    assume a: "i < length (job_plan (?J inp))" "fst (job_plan (?J inp) ! i) \<le> s" "s \<le> snd (job_plan (?J inp) ! i)"
    then have "i < length zs" "offset zs i \<le> s" "s < offset zs (Suc i)" using iv [of i] by (simp_all add: less_eq_Suc_le)
    then show "p_VN (job_input (?J inp) t s) = i" "p_traffic_type (job_input (?J inp) t s) \<noteq> MULTICAST" using that by (auto simp: waves_ok_def)
  qed (use L plan_from_flow [OF z] in simp_all)
  define inp0 where "inp0 = (\<lambda>(t :: nat) s. DataPackage_psum 0 (undefined :: 'd) PSUM 0 (SOME i. i < length zs \<and> offset zs i \<le> s \<and> s < offset zs (Suc i)) ADDER)"
  have "waves_ok zs inp0"
    unfolding waves_ok_def
  proof (intro allI impI)
    fix t i s assume i: "i < length zs" "offset zs i \<le> s" "s < offset zs (Suc i)"
    have "j = i" if j: "j < length zs \<and> offset zs j \<le> s \<and> s < offset zs (Suc j)" for j
      using offset_mono [of "Suc i" j zs] offset_mono [of "Suc j" i zs] i j by (cases "j < i"; cases "i < j") auto
    then have "(SOME i. i < length zs \<and> offset zs i \<le> s \<and> s < offset zs (Suc i)) = i" using i by (intro some_equality) blast+
    then show "p_VN (inp0 t s) = i \<and> p_traffic_type (inp0 t s) \<noteq> MULTICAST"
      by (simp add: inp0_def DataPackage_psum_def DataPackage_general_def)
  qed
  note J0 = J [OF this]
  let ?an = "an\<lparr>an_aswitchtable := \<lambda>ij. map_option (configured c ij) (an_aswitchtable an ij)\<rparr>"
  have conf: "ASNetwork_configure c an = Inr ?an" using configured_tree [OF J0, of c out an] c an(1) by simp
  let ?fin = "vn_switch L (plan_from 0 zs)" and ?del = "vn_delay (plan_from 0 zs)"
  have "inj_on ?fin {..<length zs}"
  proof (rule inj_onI)
    fix i j assume ij: "i \<in> {..<length zs}" "j \<in> {..<length zs}" "?fin i = ?fin j"
    let ?J = "?J inp0"
    let ?k = "vn_level (plan_from 0 zs) i" and ?k' = "vn_level (plan_from 0 zs) j"
    have l: "?k < L" "?k' < L" using vn_level_ok(1) [OF J0, of i] vn_level_ok(1) [OF J0, of j] ij by simp_all
    have d: "L - Suc ?k = L - Suc ?k'" "lo (Suc ?k) (plan_from 0 zs ! i) = lo (Suc ?k') (plan_from 0 zs ! j)"
      using ij(3) by (simp_all add: vn_switch_def del: climb.simps)
    have k: "?k = ?k'" using d(1) l by linarith
    have e: "lo (Suc ?k) (plan_from 0 zs ! i) = lo (Suc ?k) (plan_from 0 zs ! j)" using d(2) unfolding k .
    have "finals ?J ?k (lo (Suc ?k) (plan_from 0 zs ! i)) i" "finals ?J ?k' (lo (Suc ?k') (plan_from 0 zs ! j)) j"
      using finals_vn(1) [OF J0, of i] finals_vn(1) [OF J0, of j] ij by (simp_all del: climb.simps)
    then show "i = j" using ups_unique [OF J0] finals_ups [OF J0] k e by metis
  qed
  moreover have "\<forall>i < length zs. ?del i < 2 * L" using vn_delay_bound [OF J0] by simp
  moreover have "\<exists>outs s'. art_run (sum_list zs) inp T (?an, st) = Inr (outs, s') \<and> length outs = T
        \<and> (\<forall>n i. n < T \<longrightarrow> i < length zs \<longrightarrow>
             (if ?del i \<le> n
              then \<exists>p. (outs ! n) (?fin i) = [p] \<and> p_VN p = i
                \<and> adds (mset (map (\<lambda>s. p_data (inp (n - ?del i) s)) [offset zs i..<offset zs (Suc i)])) (p_data p)
              else (outs ! n) (?fin i) = []))
        \<and> (\<forall>n l x. n < T \<longrightarrow> l < L \<longrightarrow> x < 2 ^ l \<longrightarrow> (\<forall>i < length zs. (l, x) \<noteq> ?fin i) \<longrightarrow> (outs ! n) (l, x) = [])"
    if w: "waves_ok zs inp" for inp T
  proof -
    obtain w0 mem where tr: "tree_told (?J inp) out w0 mem" "tree_rest (?J inp) w0 mem 0 (?an, st)"
      using tree_start [OF J [OF w], of c out an st] c an by auto
    note r = run_sums [OF J [OF w] tr, of T, unfolded tree_job.select_convs length_plan]
    then obtain outs s' where o': "art_run (sum_list zs) inp T (?an, st) = Inr (outs, s')" "length outs = T"
      "\<forall>n i. n < T \<longrightarrow> i < length zs \<longrightarrow> (if ?del i \<le> n
           then \<exists>p. (outs ! n) (?fin i) = [p] \<and> p_VN p = i
             \<and> adds (mset (map (\<lambda>s. p_data (inp (n - ?del i) s)) [fst (plan_from 0 zs ! i)..<Suc (snd (plan_from 0 zs ! i))])) (p_data p)
           else (outs ! n) (?fin i) = [])"
      "\<forall>n l x. n < T \<longrightarrow> l < L \<longrightarrow> x < 2 ^ l \<longrightarrow> (\<forall>i < length zs. (l, x) \<noteq> ?fin i) \<longrightarrow> (outs ! n) (l, x) = []" by blast
    have "if ?del i \<le> n
              then \<exists>p. (outs ! n) (?fin i) = [p] \<and> p_VN p = i
                \<and> adds (mset (map (\<lambda>s. p_data (inp (n - ?del i) s)) [offset zs i..<offset zs (Suc i)])) (p_data p)
              else (outs ! n) (?fin i) = []" if "n < T" "i < length zs" for n i
      using o'(3) that unfolding iv [OF that(2), symmetric] by blast
    then show ?thesis using o'(1,2,4) by blast
  qed
  ultimately have "tree_reduces L zs (?an, st)"
    unfolding tree_reduces_def by (intro exI [of _ ?fin] exI [of _ ?del]) blast
  then show ?thesis using conf an(3) by (intro exI [of _ ?an]) simp
qed

end
