(* ===== verification/ArtPorts.thy ===== *)
theory ArtPorts
  imports ArtTop Boot
begin

text \<open>
  The connections of the augmented reduction tree to the bus, \<^verbatim>\<open>ASNetwork::setMemoryConnections\<close>:
  which inputs of the bus lines its switches get. With that, the tree as the constructor of the machine
  builds it, and the theorems about it.
\<close>

section \<open>How many switches are single and double\<close>

definition pair_at :: "nat \<times> nat \<Rightarrow> bool" where
  "pair_at = (\<lambda>(i, j). 0 < i \<and> 0 < j \<and> even j)"

definition single_at :: "nat \<times> nat \<Rightarrow> bool" where
  "single_at = (\<lambda>(i, j). i = 0 \<or> \<not> pair_at (i, j) \<and> (j = 0 \<or> j = 2 ^ i - 1))"

lemma upd_as_keeps:
  assumes "upd_as ij f an = Inr an'"
  shows "an_single_switches an' = an_single_switches an \<and> an_double_switches an' = an_double_switches an \<and> an_nlevels an' = an_nlevels an"
  using assms by (auto simp: upd_as_def rbind_eq_Inr rderef_eq_Inr)

definition grown :: "nat \<times> nat \<Rightarrow> 'd ASNetwork \<Rightarrow> 'd ASNetwork \<Rightarrow> bool" where
  "grown ij an an' \<longleftrightarrow> an_single_switches an' = an_single_switches an @ (if single_at ij then [ij] else [])
     \<and> an_double_switches an' = an_double_switches an @ (if pair_at ij then [(fst ij, snd ij - 1), ij] else [])
     \<and> an_nlevels an' = an_nlevels an"

lemma connect_grown:
  assumes "ASNetwork_connect (i, j) (an, st) = Inr s'" shows "grown (i, j) an (fst s')"
proof -
  consider "i = 0" | "0 < i" "0 < j" "even j" | "0 < i" "\<not> (0 < j \<and> even j)" by auto
  then show ?thesis
  proof cases
    case 1
    then show ?thesis using assms by (auto simp: ASNetwork_connect_def rbind_eq_Inr grown_def single_at_def pair_at_def dest!: upd_as_keeps)
  next
    case 2
    then have "single_at (i, j) = False" "pair_at (i, j)" by (simp_all add: single_at_def pair_at_def)
    then show ?thesis using assms 2 by (auto simp: ASNetwork_connect_def rbind_eq_Inr grown_def even_iff_mod_2_eq_zero dest!: upd_as_keeps)
  next
    case 3
    then have "single_at (i, j) \<longleftrightarrow> j = 0 \<or> j = 2 ^ i - 1" "\<not> pair_at (i, j)" by (auto simp: single_at_def pair_at_def)
    moreover have "\<not> (0 < j \<and> j mod 2 = 0)" using 3 by (simp add: even_iff_mod_2_eq_zero)
    ultimately show ?thesis using assms 3(1) by (auto simp: ASNetwork_connect_def rbind_eq_Inr grown_def split: if_splits dest!: upd_as_keeps)
  qed
qed

lemma add_switch_counts:
  assumes "ASNetwork_add_switch ij s = Inr s'" shows "grown ij (fst s) (fst s')"
proof -
  obtain i j an st where e: "ij = (i, j)" "s = (an, st)" by (cases ij; cases s)
  let ?an = "an\<lparr>an_aswitchtable := (an_aswitchtable an)((i, j) \<mapsto> ASwitch_new i j (an_cfg an))\<rparr>"
  obtain an1 st1 an2 where 1: "ASNetwork_connect (i, j) (?an, st) = Inr (an1, st1)" and
    2: "upd_as (i, j) (Inr \<circ> ASwitch_setInputRightConnection (Some (RnLink i (2 * j + 1))) \<circ> ASwitch_setInputLeftConnection (Some (RnLink i (2 * j)))) an1 = Inr an2"
    and 3: "fst s' = an2\<lparr>an_inputconnectiontable := (an_inputconnectiontable an2)((i, 2 * j) \<mapsto> RnLink i (2 * j), (i, 2 * j + 1) \<mapsto> RnLink i (2 * j + 1))\<rparr>"
    using assms unfolding e by (auto simp: ASNetwork_add_switch_def rbind_eq_Inr Let_def)
  show ?thesis using connect_grown [OF 1] upd_as_keeps [OF 2] 3 by (simp add: grown_def e)
qed

lemma add_switches_counts:
  "rfold ASNetwork_add_switch ps s = Inr s' \<Longrightarrow>
     an_single_switches (fst s') = an_single_switches (fst s) @ filter single_at ps
     \<and> an_double_switches (fst s') = an_double_switches (fst s) @ concat (map (\<lambda>ij. [(fst ij, snd ij - 1), ij]) (filter pair_at ps))
     \<and> an_nlevels (fst s') = an_nlevels (fst s)"
proof (induction ps arbitrary: s)
  case (Cons ij ps)
  then obtain s1 where 1: "ASNetwork_add_switch ij s = Inr s1" "rfold ASNetwork_add_switch ps s1 = Inr s'" by (auto simp: rbind_eq_Inr)
  show ?case using Cons.IH [OF 1(2)] add_switch_counts [OF 1(1)] by (simp add: grown_def)
qed simp

lemma even_count: "length (filter (\<lambda>j. 0 < j \<and> even j) [0..<2 * n]) = n - 1"
  by (induction n) auto

lemma level_pairs: "0 < i \<Longrightarrow> length (filter pair_at (map (Pair i) [0..<2 ^ i])) = 2 ^ (i - 1) - 1"
  using even_count [of "2 ^ (i - 1)"] by (cases i) (simp_all add: filter_map comp_def pair_at_def)

lemma level_singles: "0 < i \<Longrightarrow> length (filter single_at (map (Pair i) [0..<2 ^ i])) = 2"
proof -
  assume i: "0 < i"
  obtain m where m: "2 ^ i = Suc (Suc m)" "even m" using i by (cases i; cases "2 ^ (i - 1) :: nat") auto
  have "filter (single_at \<circ> Pair i) [0..<Suc (Suc m)] = [0, Suc m]"
  proof -
    have "[0..<Suc (Suc m)] = 0 # [1..<Suc m] @ [Suc m]" by (simp add: upt_conv_Cons)
    moreover have "filter (single_at \<circ> Pair i) [1..<Suc m] = []" using i m by (auto simp: filter_empty_conv single_at_def)
    moreover have "single_at (i, 0)" "single_at (i, Suc m)" using i m by (auto simp: single_at_def pair_at_def)
    ultimately show ?thesis by simp
  qed
  then show ?thesis by (simp add: filter_map m(1) del: upt_Suc)
qed

lemma counts:
  "0 < L \<Longrightarrow> length (filter single_at (tree_positions L)) = 2 * L - 1"
  "0 < L \<Longrightarrow> length (filter pair_at (tree_positions L)) + L = 2 ^ (L - 1)"
proof (induction L)
  case (Suc L)
  have t: "tree_positions (Suc L) = tree_positions L @ map (Pair L) [0..<2 ^ L]" by (simp add: tree_positions_def)
  show "length (filter single_at (tree_positions (Suc L))) = 2 * Suc L - 1"
  proof (cases "L = 0")
    case True
    then show ?thesis by (simp add: tree_positions_def single_at_def)
  next
    case False
    then show ?thesis using Suc level_singles [of L] by (simp add: t)
  qed
  show "length (filter pair_at (tree_positions (Suc L))) + Suc L = 2 ^ (Suc L - 1)"
  proof (cases "L = 0")
    case True
    then show ?thesis by (simp add: tree_positions_def pair_at_def)
  next
    case False
    then have "length (filter pair_at (tree_positions (Suc L))) + Suc L = 2 ^ (L - 1) + (2 ^ (L - 1) - 1) + 1"
      using Suc level_pairs [of L] by (simp add: t)
    also have "\<dots> = 2 ^ L" using False by (cases L) simp_all
    finally show ?thesis by simp
  qed
qed simp_all

lemma new_counts:
  assumes "ASNetwork_new cfg out st = Inr (an, st')" "msn_ms_size (m_MSNetworkCfg cfg) = 2 ^ L" "0 < L"
  shows "length (an_single_switches an) = 2 * L - 1" "length (an_double_switches an) + 2 * L = 2 ^ L"
proof -
  obtain s0 where r: "rfold ASNetwork_add_switch (tree_positions L) s0 = Inr (an, st')"
    and s0: "an_single_switches (fst s0) = []" "an_double_switches (fst s0) = []"
    using assms(1,2) by (auto simp: ASNetwork_new_def rassert_eq_Inr Let_def nlevels_of_power)
  note c = add_switches_counts [OF r]
  show "length (an_single_switches an) = 2 * L - 1" using c s0 counts(1) [OF assms(3)] by simp
  have "length (an_double_switches an) = 2 * length (filter pair_at (tree_positions L))"
    using c s0 by (simp add: length_concat comp_def sum_list_triv)
  then show "length (an_double_switches an) + 2 * L = 2 ^ L" using counts(2) [OF assms(3)] assms(3) by (cases L) auto
qed

section \<open>The last single switch\<close>

lemma attach_keeps:
  assumes "ASNetwork_attach ij c b i s = Inr s'"
  shows "an_double_switches (fst s') = an_double_switches (fst s) \<and> an_single_switches (fst s') = an_single_switches (fst s)"
  using assms by (cases s) (auto simp: ASNetwork_attach_def rbind_eq_Inr Let_def split: if_splits dest!: upd_as_keeps)

lemma attach_double_keeps:
  assumes "ASNetwork_attach_double m k s = Inr s'"
  shows "an_double_switches (fst s') = an_double_switches (fst s) \<and> an_single_switches (fst s') = an_single_switches (fst s)"
  using assms by (cases s) (auto simp: ASNetwork_attach_double_def rbind_eq_Inr rassert_eq_Inr Let_def dest!: attach_keeps)

lemma attach_single_keeps:
  assumes "ASNetwork_attach_single m k s = Inr s'"
  shows "an_double_switches (fst s') = an_double_switches (fst s) \<and> an_single_switches (fst s') = an_single_switches (fst s)"
  using assms by (cases s) (auto simp: ASNetwork_attach_single_def rbind_eq_Inr Let_def dest!: attach_keeps)

text \<open>With an even number of lines no carry is lost: the last switch asks for the input after the last one.\<close>

lemma last_input:
  fixes n m D S :: nat
  assumes "even n" "0 < n" "0 < m" "even D" "even S" "D + S + 2 = n * m"
  shows "D div n + 1 + S div n = m"
proof -
  let ?c = "D mod n + S mod n"
  have ev: "even (D mod n)" "even (S mod n)" using assms by (auto simp: dvd_mod_iff)
  have e: "D + S = n * (D div n + S div n) + ?c"
    by (metis (no_types, lifting) add.assoc add.commute add.left_commute distrib_left mult_div_mod_eq)
  have "D mod n < n" "S mod n < n" using assms(2) by simp_all
  moreover have "a + 2 \<le> n" if "a < n" "even a" for a using that assms(1) by presburger
  ultimately have le: "D mod n + 2 \<le> n" "S mod n + 2 \<le> n" using ev by blast+
  then have c: "?c + 2 < 2 * n" by linarith
  have "n * (D div n + S div n) + (?c + 2) = n * m" using e assms(6) by linarith
  then have "n dvd ?c + 2" by (metis dvd_add_right_iff dvd_triv_left)
  then obtain q where q: "?c + 2 = n * q" by blast
  have "q < 2" using c q by (metis mult.commute mult_less_cancel1 nat_mult_less_cancel_disj)
  moreover have "q \<noteq> 0" using q by (cases q) simp_all
  ultimately have "?c + 2 = n" using q by (cases q; cases "q - 1") auto
  then have "n * (D div n + S div n + 1) = n * m" using \<open>n * (D div n + S div n) + (?c + 2) = n * m\<close> by simp
  then show ?thesis using nat_mult_eq_cancel1 [OF assms(2), of "D div n + S div n + 1" m] by simp
qed

lemma ports_bus:
  assumes k: "0 < k" "k < L" and L: "2 ^ L < u32_max" and n: "msn_ms_size (m_MSNetworkCfg cfg) = 2 ^ L"
    and w: "sdc_n_write_ports (m_SDMemoryCfg cfg) = 2 ^ k"
  shows "\<exists>bus st'. Bus_new cfg st = Inr (bus, st') \<and> bus_ok (2 ^ k) (2 ^ (L - k)) bus"
proof -
  have split: "(2::nat) ^ L = 2 ^ k * 2 ^ (L - k)" using k by (simp flip: power_add)
  have dv: "(2::nat) ^ L div 2 ^ k = 2 ^ (L - k)" "(2::nat) ^ L mod 2 ^ k = 0" by (simp_all add: split)
  have "(2::nat) ^ (L - k) \<le> 2 ^ L" by (simp add: power_increasing)
  then have "(2::nat) ^ (L - k) < u32_max" using L by linarith
  then show ?thesis using Bus_new_ok [OF w, of "2 ^ (L - k)" st] n by (auto simp: dv uadd_def)
qed

section \<open>A single write port\<close>

lemma tree_positions_distinct: "distinct (tree_positions L)" and tree_positions_length: "length (tree_positions L) = 2 ^ L - 1"
proof -
  have "distinct (tree_positions L) \<and> Suc (length (tree_positions L)) = 2 ^ L"
  proof (induction L)
    case (Suc L)
    have t: "tree_positions (Suc L) = tree_positions L @ map (Pair L) [0..<2 ^ L]" by (simp add: tree_positions_def)
    show ?case using Suc by (auto simp: t distinct_map inj_on_def set_tree_positions)
  qed (simp add: tree_positions_def)
  then show "distinct (tree_positions L)" "length (tree_positions L) = 2 ^ L - 1" by auto
qed

lemma attached:
  assumes an: "ASNetwork_new cfg out st = Inr (an, st')" "msn_ms_size (m_MSNetworkCfg cfg) = 2 ^ L" "0 < L"
  shows "set (an_double_switches an @ an_single_switches an) = set (tree_positions L)"
    "distinct (an_double_switches an @ an_single_switches an)"
proof -
  obtain s0 where r: "rfold ASNetwork_add_switch (tree_positions L) s0 = Inr (an, st')"
    and s0: "an_single_switches (fst s0) = []" "an_double_switches (fst s0) = []"
    using an(1,2) by (auto simp: ASNetwork_new_def rassert_eq_Inr Let_def nlevels_of_power)
  note c = add_switches_counts [OF r]
  let ?E = "an_double_switches an @ an_single_switches an"
  have E: "set ?E = (\<Union>ij \<in> {ij \<in> set (tree_positions L). pair_at ij}. {(fst ij, snd ij - 1), ij}) \<union> {ij \<in> set (tree_positions L). single_at ij}"
    using c s0 by auto
  show set: "set ?E = set (tree_positions L)"
  proof (intro set_eqI iffI)
    fix ij assume "ij \<in> set ?E"
    then show "ij \<in> set (tree_positions L)" unfolding E by (cases ij) (auto simp: set_tree_positions)
  next
    fix ij assume ij: "ij \<in> set (tree_positions L)"
    obtain l x where lx: "ij = (l, x)" "l < L" "x < 2 ^ l" using ij by (metis prod.exhaust set_tree_positions)
    have last: "x = 2 ^ l - Suc 0" if "Suc x = 2 ^ l" using that by linarith
    consider "pair_at ij" | "single_at ij" | "0 < l" "odd x" "Suc x < 2 ^ l"
      using lx last by (cases "Suc x = 2 ^ l"; cases "even x"; cases "x = 0") (auto simp: single_at_def pair_at_def)
    then show "ij \<in> set ?E"
    proof cases
      case 3
      then have "(l, Suc x) \<in> {ij \<in> set (tree_positions L). pair_at ij}" using lx by (simp add: set_tree_positions pair_at_def)
      then show ?thesis unfolding E lx(1) by fastforce
    next
      case 1
      then show ?thesis unfolding E using ij by blast
    next
      case 2
      then show ?thesis unfolding E using ij by blast
    qed
  qed
  have "length ?E = length (tree_positions L)" using new_counts [OF an] an(3) by (simp add: tree_positions_length)
  also have "\<dots> = card (set ?E)" unfolding set using distinct_card [OF tree_positions_distinct] by simp
  finally show "distinct ?E" by (intro card_distinct) simp
qed

text \<open>The first \<open>m\<close> switches of the list have their inputs of bus line 0; input \<open>length (an_double_switches an)\<close> stays free.\<close>

definition port_of :: "'d ASNetwork \<Rightarrow> nat \<Rightarrow> cid" where
  "port_of an0 i = BusIn 0 (if i < length (an_double_switches an0) then i else i + 1)"

definition attached_upto :: "nat \<Rightarrow> cid option \<Rightarrow> 'd ASNetwork \<Rightarrow> 'd store \<Rightarrow> nat \<Rightarrow> 'd ASNetwork \<times> cid list \<times> 'd store \<Rightarrow> bool" where
  "attached_upto L out an0 st0 m = (\<lambda>(an, accs, st). bare L out st0 an st
     \<and> an_double_switches an = an_double_switches an0 \<and> an_single_switches an = an_single_switches an0
     \<and> (\<forall>i < m. art_memory_link an ((an_double_switches an0 @ an_single_switches an0) ! i) = Some (port_of an0 i)))"

lemma attach_next:
  assumes P: "attached_upto L out an0 st0 m s" and E: "E = an_double_switches an0 @ an_single_switches an0"
    and m: "m < length E" and set: "set E = set (tree_positions L)" "distinct E" and c: "c = port_of an0 m"
  shows "\<exists>s'. ASNetwork_attach (E ! m) c b i s = Inr s' \<and> attached_upto L out an0 st0 (Suc m) s'"
proof -
  obtain an accs st where s: "s = (an, accs, st)" by (cases s)
  have "E ! m \<in> set (tree_positions L)" using m set(1) nth_mem by blast
  then obtain l x where lx: "E ! m = (l, x)" "l < L" "x < 2 ^ l" by (metis prod.exhaust set_tree_positions)
  moreover have "wired L out an" using P by (simp add: s attached_upto_def bare_def)
  ultimately obtain w where w: "an_aswitchtable an (E ! m) = Some w" unfolding wired_def by metis
  let ?an = "an\<lparr>an_aswitchtable := (an_aswitchtable an)(E ! m \<mapsto> ASwitch_setMemoryConnection (Some c) b i w)\<rparr>"
  have r: "ASNetwork_attach (E ! m) c b i s = Inr (?an, accs, st)"
    using P w by (simp add: s ASNetwork_attach_def attached_upto_def bare_def upd_as_def)
  have "art_memory_link ?an (E ! j) = Some (port_of an0 j)" if j: "j < Suc m" for j
  proof (cases "j = m")
    case True
    then show ?thesis using c by (simp add: art_memory_link_def ASwitch_setMemoryConnection_def)
  next
    case False
    then have "E ! j \<noteq> E ! m" "j < m" using j m set(2) by (auto simp: nth_eq_iff_index_eq)
    then show ?thesis using P by (simp add: s attached_upto_def art_memory_link_def E)
  qed
  moreover have "bare L out st0 ?an st" using attach_bare [of "E ! m" c b i an accs st ?an accs st] r P s by (simp add: attached_upto_def)
  ultimately show ?thesis using r P s by (auto simp: attached_upto_def E)
qed

lemma one_port:
  assumes an: "ASNetwork_new cfg out st = Inr (an, st1)" "msn_ms_size (m_MSNetworkCfg cfg) = 2 ^ L" "0 < L"
    and w: "wired L out an" "an_accumulation_buffer_enabled an = 0"
  shows "\<exists>an'. ASNetwork_setMemoryConnections [map (BusIn 0) [0..<2 ^ L]] an st0 = Inr (an', st0)
     \<and> wired L out an' \<and> an_accumulation_buffer_enabled an' = 0 \<and> ((\<forall>x < 2 ^ L. link st0 (BusIn 0 x) []) \<longrightarrow> memory_apart L an' st0)"
proof -
  let ?D = "an_double_switches an" and ?S = "an_single_switches an" and ?lines = "[map (BusIn 0) [0..<2 ^ L]]"
  define E where "E = ?D @ ?S"
  note ct = new_counts [OF an] and at = attached [OF an]
  have e: "even (length ?D)" using ct(2) an(3) by (metis dvd_add_left_iff dvd_triv_left dvd_power)
  have le: "length ?D < 2 ^ L" "length ?D + 1 + (2 * L - 1) = 2 ^ L" "length E = length ?D + (2 * L - 1)" using ct an(3) by (auto simp: E_def)
  have double: "\<exists>s'. ASNetwork_attach_double ?lines k s = Inr s' \<and> attached_upto L out an st0 (2 * Suc k) s'"
    if k: "k < length ?D div 2" and P: "attached_upto L out an st0 (2 * k) s" for k s
  proof -
    have k2: "2 * k + 1 < length ?D" using k e by presburger
    have E2: "E ! (2 * k) = ?D ! (2 * k)" "E ! Suc (2 * k) = ?D ! Suc (2 * k)" using k2 by (simp_all add: E_def nth_append)
    have lt: "2 * k < length E" "Suc (2 * k) < length E" using k2 by (simp_all add: E_def)
    obtain s1 where 1: "ASNetwork_attach (E ! (2 * k)) (BusIn 0 (2 * k)) 0 (2 * k) s = Inr s1" "attached_upto L out an st0 (Suc (2 * k)) s1"
      using attach_next [OF P E_def lt(1) at [folded E_def], of "BusIn 0 (2 * k)" 0 "2 * k"] k2 by (auto simp: port_of_def)
    obtain s2 where 2: "ASNetwork_attach (E ! Suc (2 * k)) (BusIn 0 (Suc (2 * k))) 0 (Suc (2 * k)) s1 = Inr s2" "attached_upto L out an st0 (Suc (Suc (2 * k))) s2"
      using attach_next [OF 1(2) E_def lt(2) at [folded E_def], of "BusIn 0 (Suc (2 * k))" 0 "Suc (2 * k)"] k2 by (auto simp: port_of_def)
    obtain an' accs st' where s: "s = (an', accs, st')" by (cases s)
    have d: "an_double_switches an' = ?D" using P by (simp add: s attached_upto_def)
    show ?thesis using 1 2 k2 le(1) d by (simp add: ASNetwork_attach_double_def s rdiv_def rnth_def E2 Let_def)
  qed
  have single: "\<exists>s'. ASNetwork_attach_single ?lines k s = Inr s' \<and> attached_upto L out an st0 (length ?D + Suc k) s'"
    if k: "k < length ?S" and P: "attached_upto L out an st0 (length ?D + k) s" for k s
  proof -
    have E1: "E ! (length ?D + k) = ?S ! k" by (simp add: E_def nth_append)
    have lt: "length ?D + k < length E" using k by (simp add: E_def)
    obtain s1 where 1: "ASNetwork_attach (E ! (length ?D + k)) (BusIn 0 (length ?D + 1 + k)) 0 (length ?D + 1 + k) s = Inr s1"
      "attached_upto L out an st0 (Suc (length ?D + k)) s1"
      using attach_next [OF P E_def lt at [folded E_def], of "BusIn 0 (length ?D + 1 + k)" 0 "length ?D + 1 + k"] by (auto simp: port_of_def)
    obtain an' accs st' where s: "s = (an', accs, st')" by (cases s)
    have d: "an_double_switches an' = ?D" "an_single_switches an' = ?S" using P by (simp_all add: s attached_upto_def)
    have "length ?D + 1 + k < 2 ^ L" using le(2) ct(1) k by linarith
    then show ?thesis using 1 k d by (simp add: ASNetwork_attach_single_def s rdiv_def rnth_def E1 Let_def)
  qed
  have "attached_upto L out an st0 0 (an, [], st0)" using w by (simp add: attached_upto_def bare_def)
  then have "\<exists>s1. rfold (ASNetwork_attach_double ?lines) [0..<length ?D div 2] (an, [], st0) = Inr s1
      \<and> attached_upto L out an st0 (2 * (length ?D div 2)) s1"
    by (intro rfold_upt_total [where I = "\<lambda>k. attached_upto L out an st0 (2 * k)"] double) simp_all
  then obtain s1 where 1: "rfold (ASNetwork_attach_double ?lines) [0..<length ?D div 2] (an, [], st0) = Inr s1"
    "attached_upto L out an st0 (2 * (length ?D div 2)) s1" by blast
  then have "attached_upto L out an st0 (length ?D + 0) s1" using e by simp
  then have "\<exists>s2. rfold (ASNetwork_attach_single ?lines) [0..<length ?S] s1 = Inr s2 \<and> attached_upto L out an st0 (length ?D + length ?S) s2"
    by (intro rfold_upt_total [where I = "\<lambda>k. attached_upto L out an st0 (length ?D + k)"] single) simp_all
  then obtain s2 where 2: "rfold (ASNetwork_attach_single ?lines) [0..<length ?S] s1 = Inr s2" "attached_upto L out an st0 (length ?D + length ?S) s2"
    by blast
  obtain an' accs st' where s2: "s2 = (an', accs, st')" by (cases s2)
  have an': "wired L out an'" "an_accumulation_buffer_enabled an' = 0" "st' = st0"
    "\<And>i. i < length E \<Longrightarrow> art_memory_link an' (E ! i) = Some (port_of an i)" using 2(2) by (auto simp: s2 attached_upto_def bare_def E_def)
  have r: "ASNetwork_setMemoryConnections ?lines an st0 = Inr (an', st0)"
    using 1(1) 2(1) s2 an' w by (simp add: ASNetwork_setMemoryConnections_def Let_def)
  have "memory_apart L an' st0" if st0: "\<forall>x < 2 ^ L. link st0 (BusIn 0 x) []"
    unfolding memory_apart_def
  proof
    fix p assume "p \<in> set (tree_positions L)"
    then obtain i where i: "i < length E" "p = E ! i" using at(1) by (metis E_def in_set_conv_nth)
    have "q = p" if q: "q \<in> set (tree_positions L)" "art_memory_link an' q = Some (port_of an i)" for q
    proof -
      obtain j where j: "j < length E" "q = E ! j" using q(1) at(1) by (metis E_def in_set_conv_nth)
      then have "port_of an j = port_of an i" using an'(4) q(2) by simp
      then have "j = i" by (auto simp: port_of_def split: if_splits)
      then show ?thesis using i j by simp
    qed
    then show "case art_memory_link an' p of None \<Rightarrow> False
     | Some c \<Rightarrow> \<not> tree_link c \<and> link st0 c [] \<and> (\<forall>q \<in> set (tree_positions L). art_memory_link an' q = Some c \<longrightarrow> q = p)"
      using an'(4) [OF i(1)] i st0 le by (simp add: port_of_def tree_link_def)
  qed
  then show ?thesis using r an' by blast
qed


section \<open>Several write ports\<close>

text \<open>While the connections are distributed, all switches are there and the two lists of switches stay.\<close>

definition attachable :: "nat \<Rightarrow> 'd ASNetwork \<Rightarrow> 'd ASNetwork \<times> cid list \<times> 'd store \<Rightarrow> bool" where
  "attachable L an0 = (\<lambda>(an, accs, st). (\<forall>p \<in> set (tree_positions L). an_aswitchtable an p \<noteq> None)
     \<and> an_double_switches an = an_double_switches an0 \<and> an_single_switches an = an_single_switches an0)"

lemma attach_ok:
  assumes P: "attachable L an0 s" and ij: "ij \<in> set (tree_positions L)"
  shows "\<exists>s'. ASNetwork_attach ij c b i s = Inr s' \<and> attachable L an0 s'"
proof -
  obtain an accs st where s: "s = (an, accs, st)" by (cases s)
  obtain w where w: "an_aswitchtable an ij = Some w" using P ij by (fastforce simp: s attachable_def)
  show ?thesis using P w by (auto simp: s attachable_def ASNetwork_attach_def upd_as_def Let_def)
qed

lemma rfold_errors:
  assumes "\<And>x s. x \<in> set xs \<Longrightarrow> P s \<Longrightarrow> f x s = Inl e \<or> (\<exists>s'. f x s = Inr s' \<and> P s')" and "P s"
  shows "rfold f xs s = Inl e \<or> (\<exists>s'. rfold f xs s = Inr s' \<and> P s')"
  using assms
proof (induction xs arbitrary: s)
  case (Cons x xs)
  from Cons.prems(1) [of x s] Cons.prems(2) consider "f x s = Inl e" | s' where "f x s = Inr s'" "P s'" by auto
  then show ?case
  proof cases
    case 2
    then show ?thesis using Cons.IH [of s'] Cons.prems(1) by simp
  qed simp
qed simp

lemma ports_missing:
  assumes k: "0 < k" "k < L" and L: "2 ^ L < u32_max" and n: "msn_ms_size (m_MSNetworkCfg cfg) = 2 ^ L"
    and w: "sdc_n_write_ports (m_SDMemoryCfg cfg) = 2 ^ k"
    and b: "Bus_new cfg st = Inr (bus, st1)" "Bus_getInputConnections bus = Inr lines"
    and an: "ASNetwork_new cfg out st2 = Inr (an, st3)" "wired L out an"
  shows "ASNetwork_setMemoryConnections lines an st4 = Inl OutOfBounds"
proof -
  let ?n = "(2::nat) ^ k" and ?m = "(2::nat) ^ (L - k)"
  let ?D = "an_double_switches an" and ?S = "an_single_switches an"
  have split: "(2::nat) ^ L = ?n * ?m" using k by (simp flip: power_add)
  have lines: "lines = map (\<lambda>b. map (BusIn b) [0..<?m]) [0..<?n]"
    using b ports_bus [OF k L n w, of st] Bus_connections(1) [of ?n ?m bus] by auto
  have L0: "0 < L" using k by simp
  note ct = new_counts [OF an(1) n L0] and at = attached [OF an(1) n L0]
  have e: "even (length ?D)" using ct(2) L0 by (metis dvd_add_left_iff dvd_triv_left dvd_power)
  define an' where "an' = (if 0 < an_accumulation_buffer_enabled an
                then an\<lparr>an_accumulationBuffer := Some (AccumulationBuffer_new (an_cfg an) (length (tree_positions (an_nlevels an))))\<rparr> else an)"
  have same: "an_double_switches an' = ?D" "an_single_switches an' = ?S" "an_aswitchtable an' = an_aswitchtable an" by (simp_all add: an'_def)
  have start: "attachable L an (an', [], st4)"
  proof -
    have "an_aswitchtable an p \<noteq> None" if p: "p \<in> set (tree_positions L)" for p
    proof -
      obtain l x where lx: "p = (l, x)" "l < L" "x < 2 ^ l" using p by (metis prod.exhaust set_tree_positions)
      then obtain w where "an_aswitchtable an (l, x) = Some w" using an(2) unfolding wired_def by metis
      then show ?thesis by (simp add: lx(1))
    qed
    then show ?thesis by (simp add: attachable_def same)
  qed
  have pos: "p \<in> set (tree_positions L)" if "p \<in> set ?D \<or> p \<in> set ?S" for p using that at(1) by auto
  have double: "\<exists>s'. ASNetwork_attach_double lines j s = Inr s' \<and> attachable L an s'"
    if j: "j < length ?D div 2" and P: "attachable L an s" for j s
  proof -
    have j2: "2 * j + 1 < length ?D" using j e by presburger
    have "2 * j + 2 \<le> ?n * ?m" using j2 ct(2) split by linarith
    moreover have "even ?m" using k by simp
    then obtain m where m: "?m = 2 * m" by (elim evenE)
    ultimately have "j < m * ?n" by (simp add: mult.commute mult.left_commute)
    then have "j div ?n < m" by (simp add: less_mult_imp_div_less)
    then have in1: "2 * (j div ?n) + 1 < ?m" unfolding m by linarith
    have in2: "j mod ?n < ?n" by simp
    obtain s1 where 1: "ASNetwork_attach (?D ! (2 * j)) (BusIn (j mod ?n) (2 * (j div ?n))) (j mod ?n) (2 * (j div ?n)) s = Inr s1"
        "attachable L an s1"
      using attach_ok [OF P pos, of "?D ! (2 * j)"] j2 by fastforce
    obtain s2 where 2: "ASNetwork_attach (?D ! (2 * j + 1)) (BusIn (j mod ?n) (2 * (j div ?n) + 1)) (j mod ?n) (2 * (j div ?n) + 1) s1 = Inr s2"
        "attachable L an s2"
      using attach_ok [OF 1(2) pos, of "?D ! (2 * j + 1)"] j2 by fastforce
    obtain an1 accs st' where s: "s = (an1, accs, st')" by (cases s)
    have d: "an_double_switches an1 = ?D" using P by (simp add: s attachable_def)
    show ?thesis using 1 2 j2 in1 d by (simp add: ASNetwork_attach_double_def s rdiv_def rnth_def lines Let_def)
  qed
  have single: "ASNetwork_attach_single lines i s = Inl OutOfBounds \<or> (\<exists>s'. ASNetwork_attach_single lines i s = Inr s' \<and> attachable L an s')"
    if i: "i < length ?S" and P: "attachable L an s" for i s
  proof -
    let ?q = "length ?D div ?n + 1 + i div ?n" and ?b = "(i + length ?D) mod ?n"
    obtain an1 accs st' where s: "s = (an1, accs, st')" by (cases s)
    have d: "an_double_switches an1 = ?D" "an_single_switches an1 = ?S" using P by (simp_all add: s attachable_def)
    obtain s1 where 1: "ASNetwork_attach (?S ! i) (BusIn ?b ?q) ?b ?q s = Inr s1" "attachable L an s1"
      using attach_ok [OF P pos, of "?S ! i"] i by fastforce
    have "?b < ?n" by simp
    then show ?thesis using 1 i d
      by (cases "?q < ?m") (simp_all add: ASNetwork_attach_single_def s rdiv_def rnth_def lines Let_def)
  qed
  have last: "ASNetwork_attach_single lines (2 * L - 2) s = Inl OutOfBounds" if P: "attachable L an s" for s
  proof -
    obtain an1 accs st' where s: "s = (an1, accs, st')" by (cases s)
    have d: "an_double_switches an1 = ?D" "an_single_switches an1 = ?S" using P by (simp_all add: s attachable_def)
    have "length ?D div ?n + 1 + (2 * L - 2) div ?n = ?m"
    proof (rule last_input)
      show "even ?n" using k by simp
      show "length ?D + (2 * L - 2) + 2 = ?n * ?m" using ct(2) L0 by (simp flip: split)
    qed (use e in simp_all)
    moreover have "(2 * L - 2 + length ?D) mod ?n < ?n" by simp
    ultimately show ?thesis using ct(1) L0 d
      by (simp add: ASNetwork_attach_single_def s rdiv_def rnth_def lines Let_def)
  qed
  obtain s1 where 1: "rfold (ASNetwork_attach_double lines) [0..<length ?D div 2] (an', [], st4) = Inr s1" "attachable L an s1"
    using rfold_upt_total [where I = "\<lambda>_. attachable L an" and n = "length ?D div 2" and f = "ASNetwork_attach_double lines", OF start double] by blast
  have u: "[0..<length ?S] = [0..<2 * L - 2] @ [2 * L - 2]" using ct(1) L0 by (cases L) (simp_all add: upt_Suc_append)
  have "rfold (ASNetwork_attach_single lines) [0..<2 * L - 2] s1 = Inl OutOfBounds
     \<or> (\<exists>s. rfold (ASNetwork_attach_single lines) [0..<2 * L - 2] s1 = Inr s \<and> attachable L an s)"
    by (rule rfold_errors [OF single 1(2)]) (use ct(1) in simp_all)
  then have "rfold (ASNetwork_attach_single lines) [0..<length ?S] s1 = Inl OutOfBounds"
    unfolding u using last by (auto simp: rfold_append)
  then show ?thesis using 1(1) by (simp add: ASNetwork_setMemoryConnections_def Let_def same flip: an'_def)
qed

section \<open>The tree between the multipliers and the bus\<close>

lemma new_enabled:
  assumes "ASNetwork_new cfg out st = Inr (an, st')"
  shows "an_accumulation_buffer_enabled an = asn_accumulation_buffer_enabled (m_ASNetworkCfg cfg)"
proof -
  let ?e = "\<lambda>s :: 'a ASNetwork \<times> 'a store. an_accumulation_buffer_enabled (fst s)"
  have upd: "an_accumulation_buffer_enabled an'' = an_accumulation_buffer_enabled an'" if "upd_as ij f an' = Inr an''"
    for ij f and an' an'' :: "'a ASNetwork" using that by (auto simp: upd_as_def rbind_eq_Inr rderef_eq_Inr)
  have conn: "?e s' = ?e s" if "ASNetwork_connect ij s = Inr s'" for ij s s'
    using that by (cases s; cases ij) (auto simp: ASNetwork_connect_def rbind_eq_Inr dest!: upd split: if_splits)
  have step: "?e s' = ?e s" if "ASNetwork_add_switch ij s = Inr s'" for ij s s'
    using that by (cases s; cases ij) (auto simp: ASNetwork_add_switch_def rbind_eq_Inr Let_def dest!: upd conn)
  obtain n s0 where r: "rfold ASNetwork_add_switch (tree_positions n) s0 = Inr (an, st')" and s0: "?e s0 = asn_accumulation_buffer_enabled (m_ASNetworkCfg cfg)"
    using assms by (auto simp: ASNetwork_new_def rassert_eq_Inr Let_def)
  have "?e (an, st') = asn_accumulation_buffer_enabled (m_ASNetworkCfg cfg)"
    by (rule rfold_invariant [where P = "\<lambda>s. ?e s = asn_accumulation_buffer_enabled (m_ASNetworkCfg cfg)", OF r s0]) (simp add: step)
  then show ?thesis by simp
qed

text \<open>The constructor of the machine as far as the tree and the bus are concerned.\<close>

definition tree_built :: "Config \<Rightarrow> cid option \<Rightarrow> 'd store \<Rightarrow> ('d ASNetwork \<times> 'd store) res" where
  "tree_built cfg out st =
     rbind (ASNetwork_new cfg out st) (\<lambda>(an, st).
     rbind (Bus_new cfg st) (\<lambda>(bus, st).
     rbind (Bus_getInputConnections bus) (\<lambda>connectionsBus.
     ASNetwork_setMemoryConnections connectionsBus an st)))"

lemma tree_built_ok:
  fixes st :: "'d store"
  assumes L: "0 < L" "2 ^ L < u32_max" and n: "msn_ms_size (m_MSNetworkCfg cfg) = 2 ^ L"
    and a: "asn_accumulation_buffer_enabled (m_ASNetworkCfg cfg) = 0" and w: "sdc_n_write_ports (m_SDMemoryCfg cfg) = 1"
  shows "\<exists>an st'. tree_built cfg out st = Inr (an, st') \<and> wired L out an \<and> quiet L st'
     \<and> an_accumulation_buffer_enabled an = 0 \<and> memory_apart L an st'"
proof -
  obtain an and st1 :: "'d store" where 1: "ASNetwork_new cfg out st = Inr (an, st1)" "wired L out an" "quiet L st1"
    using ASNetwork_new_wired [OF n L(2), of out st] by blast
  have e: "an_accumulation_buffer_enabled an = 0" using new_enabled [OF 1(1)] a by simp
  obtain bus and st2 :: "'d store" where 2: "Bus_new cfg st1 = Inr (bus, st2)" "bus_ok 1 (2 ^ L) bus" "\<forall>x < 2 ^ L. link st2 (BusIn 0 x) []"
    "\<forall>c. (\<forall>b x. c \<noteq> BusOut b \<and> c \<noteq> BusIn b x) \<longrightarrow> st2 c = st1 c"
    using Bus_new_ok [OF w, of "2 ^ L" st1] n L(2) by (auto simp: uadd_def)
  have q: "quiet L st2" using 1(3) 2(4) by (simp add: quiet_def link_def)
  have lines: "Bus_getInputConnections bus = Inr [map (BusIn 0) [0..<2 ^ L]]" using Bus_connections(1) [OF 2(2)] by simp
  obtain an' where "ASNetwork_setMemoryConnections [map (BusIn 0) [0..<2 ^ L]] an st2 = Inr (an', st2)"
    "wired L out an'" "an_accumulation_buffer_enabled an' = 0" "memory_apart L an' st2"
    using one_port [OF 1(1) n L(1) 1(2) e, of st2] 2(3) by blast
  then show ?thesis using 1(1) 2(1) lines q by (simp add: tree_built_def)
qed

section \<open>Properties\<close>

text \<open>
  C3: The adder tree sums. Take a tree of \<open>2 ^ L\<close> multipliers, built by the constructor with a bus of one
  write port and without accumulators, and configured by \<open>configureSparseSignals\<close> for virtual neurons
  that fit and that have all at least three multipliers, or all exactly two. Construction and
  configuration succeed, and the tree keeps the contract \<open>tree_reduces\<close>: whatever products arrive,
  one wave per cycle, no run aborts; every virtual neuron has one switch and one delay below \<open>2 * L\<close>, and in
  every cycle this switch sends to memory exactly one package, the sum of the products of its virtual
  neuron in the wave of that many cycles ago. No other package reaches the memory.
\<close>

theorem tree_sums_sparse:
  fixes st :: "'d::{plus,ord} store"
  assumes "0 < L" "2 ^ L < u32_max" "msn_ms_size (m_MSNetworkCfg cfg) = 2 ^ L"
    and "asn_accumulation_buffer_enabled (m_ASNetworkCfg cfg) = 0" "sdc_n_write_ports (m_SDMemoryCfg cfg) = 1"
    and z: "zs = map SparseVN_get_VN_Size vns" "sizes_ok zs" "sum_list zs \<le> 2 ^ L"
  shows "\<exists>an st' an'. tree_built cfg out st = Inr (an, st') \<and> ASNetwork_configureSparseSignals vns (2 ^ L) an = Inr an'
     \<and> tree_reduces L zs (an', st')"
proof -
  obtain an st' where b: "tree_built cfg out st = Inr (an, st')" "wired L out an" "quiet L st'"
    "an_accumulation_buffer_enabled an = 0" "memory_apart L an st'" using tree_built_ok [OF assms(1-5), of out st] by blast
  obtain c where c: "CompilerART_configureSparseSignals vns (2 ^ L) CompilerART_new = Inr c" "art_signals L (plan_from 0 zs) (sum_list zs) c"
    using sparse_config [OF assms(1,2) z] by blast
  show ?thesis
    using configured_reduces [OF assms(1) z(2,3) c(2) b(2-5)] b(1) by (auto simp: ASNetwork_configureSparseSignals_def c(1))
qed

text \<open>
  C4: The same for a dense layer: \<open>configureSignals\<close> with any tile whose virtual neurons have two or
  more multipliers and fit.
\<close>

theorem tree_sums_dense:
  fixes st :: "'d::{plus,ord} store"
  assumes "0 < L" "2 ^ L < u32_max" "msn_ms_size (m_MSNetworkCfg cfg) = 2 ^ L"
    and "asn_accumulation_buffer_enabled (m_ASNetworkCfg cfg) = 0" "sdc_n_write_ports (m_SDMemoryCfg cfg) = 1"
    and z: "2 \<le> VN_Size tile" "VN_Size tile * Num_VNs tile \<le> 2 ^ L"
  shows "\<exists>an st' an'. tree_built cfg out st = Inr (an, st') \<and> ASNetwork_configureSignals tile layer (2 ^ L) n_folding an = Inr an'
     \<and> tree_reduces L (replicate (Num_VNs tile) (VN_Size tile)) (an', st')"
proof -
  let ?zs = "replicate (Num_VNs tile) (VN_Size tile)"
  obtain an st' where b: "tree_built cfg out st = Inr (an, st')" "wired L out an" "quiet L st'"
    "an_accumulation_buffer_enabled an = 0" "memory_apart L an st'" using tree_built_ok [OF assms(1-5), of out st] by blast
  obtain c where c: "CompilerART_configureSignals tile (2 ^ L) CompilerART_new = Inr c" "art_signals L (plan_from 0 ?zs) (sum_list ?zs) c"
    using dense_config [OF assms(1,2) refl z] by blast
  have ok: "sizes_ok ?zs" "sum_list ?zs \<le> 2 ^ L" using z by (auto simp: sizes_ok_def sum_list_replicate mult.commute)
  show ?thesis
    using configured_reduces [OF assms(1) ok c(2) b(2-5)] b(1) by (auto simp: ASNetwork_configureSignals_def c(1))
qed

text \<open>A machine of four multipliers with one write port.\<close>

definition four_cfg :: Config where
  "four_cfg = Config_reset\<lparr>m_MSNetworkCfg := \<lparr>msn_multiplier_network_type = LINEAR, msn_ms_size = 4, msn_ms_rows = 0, msn_ms_cols = 0\<rparr>,
     m_ASNetworkCfg := (m_ASNetworkCfg Config_reset)\<lparr>asn_accumulation_buffer_enabled := 0\<rparr>,
     m_SDMemoryCfg := (m_SDMemoryCfg Config_reset)\<lparr>sdc_n_write_ports := 1\<rparr>\<rparr>"

theorem tree_sums_sparse_witness:
  "\<exists>(an :: int ASNetwork) st' an'. tree_built four_cfg (Some OutAS) (\<lambda>_. uninit) = Inr (an, st')
     \<and> ASNetwork_configureSparseSignals [\<lparr>sv_size = 3, sv_folding = False\<rparr>] (2 ^ 2) an = Inr an' \<and> tree_reduces 2 [3] (an', st')"
  by (rule tree_sums_sparse) (simp_all add: u32_max_def four_cfg_def sizes_ok_def SparseVN_get_VN_Size_def)

theorem tree_sums_dense_witness:
  "\<forall>layer. \<exists>(an :: int ASNetwork) st' an'. tree_built four_cfg (Some OutAS) (\<lambda>_. uninit) = Inr (an, st')
     \<and> ASNetwork_configureSignals (Tile_conv 1 1 2 1 2 1 1 1 False) layer (2 ^ 2) 0 an = Inr an' \<and> tree_reduces 2 [2, 2] (an', st')"
proof -
  let ?t = "Tile_conv 1 1 2 1 2 1 1 1 False"
  have t: "VN_Size ?t = 2" "Num_VNs ?t = 2" by (simp_all add: Tile_conv_def umul_def u32_max_def)
  have r: "replicate (Num_VNs ?t) (VN_Size ?t) = [2, 2]" unfolding t by (simp add: numeral_2_eq_2)
  show ?thesis
    by (rule allI, rule tree_sums_dense [of 2 four_cfg ?t, unfolded r]) (use t in \<open>simp_all add: u32_max_def four_cfg_def del: One_nat_def\<close>)
qed

text \<open>
  C21: With more than one write port the tree cannot be connected to the bus. For every power of two of
  write ports above one and below the number of multipliers, tree and bus are built, but
  \<open>setMemoryConnections\<close> reads past the end of a bus line: the last switch of the last level needs an
  input more than there are.
\<close>

theorem memory_ports_missing:
  assumes k: "0 < k" "k < L" and L: "2 ^ L < u32_max" and n: "msn_ms_size (m_MSNetworkCfg cfg) = 2 ^ L"
    and w: "sdc_n_write_ports (m_SDMemoryCfg cfg) = 2 ^ k"
  shows "\<exists>an st1 bus st2 lines. ASNetwork_new cfg out st = Inr (an, st1) \<and> Bus_new cfg st1 = Inr (bus, st2)
     \<and> Bus_getInputConnections bus = Inr lines \<and> ASNetwork_setMemoryConnections lines an st2 = Inl OutOfBounds"
proof -
  obtain an st1 where 1: "ASNetwork_new cfg out st = Inr (an, st1)" "wired L out an" using ASNetwork_new_wired [OF n L, of out st] by blast
  obtain bus st2 where 2: "Bus_new cfg st1 = Inr (bus, st2)" "bus_ok (2 ^ k) (2 ^ (L - k)) bus"
    using ports_bus [OF k L n w, of st1] by blast
  show ?thesis using 1(1) 2(1) Bus_connections(1) [OF 2(2)] ports_missing [OF k L n w 2(1) Bus_connections(1) [OF 2(2)] 1] by blast
qed

theorem memory_ports_missing_witness:
  "\<exists>(an :: int ASNetwork) st1 bus st2 lines. ASNetwork_new (four_cfg\<lparr>m_SDMemoryCfg := (m_SDMemoryCfg four_cfg)\<lparr>sdc_n_write_ports := 2\<rparr>\<rparr>) (Some OutAS) (\<lambda>_. uninit) = Inr (an, st1)
     \<and> Bus_new (four_cfg\<lparr>m_SDMemoryCfg := (m_SDMemoryCfg four_cfg)\<lparr>sdc_n_write_ports := 2\<rparr>\<rparr>) st1 = Inr (bus, st2)
     \<and> Bus_getInputConnections bus = Inr lines \<and> ASNetwork_setMemoryConnections lines an st2 = Inl OutOfBounds"
  by (rule memory_ports_missing [of 1 2]) (simp_all add: four_cfg_def u32_max_def)

end
