(* ===== verification/MemPorts.thy ===== *)
theory MemPorts
  imports Links
begin

text \<open>
  What the memory controllers of the linear machine (\<^verbatim>\<open>SparseSDMemory.cpp\<close>,
  \<^verbatim>\<open>SparseDenseSDMemory.cpp\<close>, \<^verbatim>\<open>SDMemory.cpp\<close>) have in common: the ports, their fifos and the
  connections. The classes repeat these fields and methods; here they are one record that the
  controllers extend, and functions on its extensions.
\<close>

section \<open>State\<close>

record 'd MemPorts =
  pm_num_ms :: nat
  pm_n_read_ports :: nat
  pm_n_write_ports :: nat
  pm_write_buffer_capacity :: nat
  pm_port_width :: nat
  pm_ms_size_per_input_port :: nat
  pm_write_connection :: "cid option"
  pm_read_connections :: "cid list"
  pm_write_port_connections :: "cid option list"
  pm_write_fifo :: "'d Fifo"
  pm_input_fifos :: "'d Fifo list"
  pm_psum_fifos :: "'d Fifo list"
  pm_local_cycle :: counter
  pm_stats :: SDMemoryStats

type_synonym ('d, 'z) ported = "('d, 'z) MemPorts_scheme"

definition SDMemoryStats_reset :: SDMemoryStats where
  "SDMemoryStats_reset =
     \<lparr>ss_total_cycles = 0, ss_n_SRAM_weight_reads = 0, ss_n_SRAM_input_reads = 0, ss_n_SRAM_psum_reads = 0,
      ss_n_SRAM_psum_writes = 0, ss_sta_sparsity = 0, ss_str_sparsity = 0, ss_n_sta_vectors_at_once_avg = 0,
      ss_n_sta_vectors_at_once_max = 0, ss_n_reconfigurations = 0, ss_dataflow = CNN_DATAFLOW,
      ss_n_SRAM_read_ports_weights_use = [], ss_n_SRAM_read_ports_inputs_use = [],
      ss_n_SRAM_read_ports_psums_use = [], ss_n_SRAM_write_ports_use = []\<rparr>"

definition MemPorts_new :: "Config \<Rightarrow> cid option \<Rightarrow> 'd MemPorts res" where
  "MemPorts_new cfg write_connection =
     (let sdc = m_SDMemoryCfg cfg; nr = sdc_n_read_ports sdc; nw = sdc_n_write_ports sdc;
          cap = sdc_write_buffer_capacity sdc; num_ms = msn_ms_size (m_MSNetworkCfg cfg) in
      rbind (rdiv num_ms nr) (\<lambda>per_port.
      Inr \<lparr>pm_num_ms = num_ms, pm_n_read_ports = nr, pm_n_write_ports = nw, pm_write_buffer_capacity = cap,
           pm_port_width = sdc_port_width sdc, pm_ms_size_per_input_port = per_port,
           pm_write_connection = write_connection, pm_read_connections = [], pm_write_port_connections = [],
           pm_write_fifo = Fifo_new cap, pm_input_fifos = replicate nr (Fifo_new cap),
           pm_psum_fifos = replicate nr (Fifo_new cap), pm_local_cycle = 0,
           pm_stats = SDMemoryStats_reset\<lparr>ss_n_SRAM_read_ports_weights_use := replicate nr 0,
             ss_n_SRAM_read_ports_inputs_use := replicate nr 0, ss_n_SRAM_read_ports_psums_use := replicate nr 0,
             ss_n_SRAM_write_ports_use := replicate nw 0\<rparr>\<rparr>))"

definition mem_setWriteConnections :: "cid option list \<Rightarrow> ('d, 'z) ported \<Rightarrow> ('d, 'z) ported" where
  "mem_setWriteConnections conns m = m\<lparr>pm_write_port_connections := conns\<rparr>"

definition mem_setReadConnections :: "cid list \<Rightarrow> ('d, 'z) ported \<Rightarrow> ('d, 'z) ported res" where
  "mem_setReadConnections conns m =
     rassert (length conns = pm_n_read_ports m) (Inr (m\<lparr>pm_read_connections := conns\<rparr>))"

section \<open>Packages for multipliers anywhere in the array\<close>

definition mem_push_port :: "operand_t \<Rightarrow> nat \<Rightarrow> 'd DataPackage \<Rightarrow> ('d, 'z) ported \<Rightarrow> ('d, 'z) ported res" where
  "mem_push_port ty i pck m =
     (if ty = PSUM then
        rbind (rnth (pm_psum_fifos m) i) (\<lambda>q. Inr (m\<lparr>pm_psum_fifos := (pm_psum_fifos m)[i := Fifo_push pck q]\<rparr>))
      else
        rbind (rnth (pm_input_fifos m) i) (\<lambda>q. Inr (m\<lparr>pm_input_fifos := (pm_input_fifos m)[i := Fifo_push pck q]\<rparr>)))"

text \<open>
  A broadcast goes to every port, a unicast to the port of its destination, a multicast to the ports
  that have a receiver, with the part of the destinations that belongs to the port.
\<close>

definition mem_sendPackageToInputFifos :: "'d DataPackage \<Rightarrow> ('d, 'z) ported \<Rightarrow> ('d, 'z) ported res" where
  "mem_sendPackageToInputFifos pck m =
     (let ty = p_data_type pck; per = pm_ms_size_per_input_port m;
          iter = (\<lambda>p. if ty = PSUM then p else DataPackage_setIterationK (p_iteration_k pck) p) in
      case p_traffic_type pck of
        BROADCAST \<Rightarrow>
          rfold (\<lambda>i. mem_push_port ty i (iter (DataPackage_traffic (p_size_package pck) (p_data pck) ty i BROADCAST)))
            [0..<pm_n_read_ports m] m
      | UNICAST \<Rightarrow>
          (let dest = p_unicast_dest pck in
           rbind (rdiv dest per) (\<lambda>input_port.
           rbind (DataPackage_unicast (p_size_package pck) (p_data pck) ty input_port UNICAST (dest mod per))
             (\<lambda>pck_new. mem_push_port ty input_port (iter pck_new) m)))
      | MULTICAST \<Rightarrow>
          rfold (\<lambda>i m.
            rderef (p_dests pck) (\<lambda>dest.
            rbind (rfold (\<lambda>j local_dest. rbind (rnth dest (umul i per + j)) (\<lambda>b. Inr (local_dest @ [b]))) [0..<per] []) (\<lambda>local_dest.
            if True \<in> set local_dest then
              mem_push_port ty i (iter (DataPackage_multicast (p_size_package pck) (p_data pck) ty i MULTICAST local_dest per)) m
            else Inr m)))
            [0..<pm_n_read_ports m] m)"

section \<open>Sending and receiving\<close>

text \<open>\<open>v[i]++\<close> on a vector of counters.\<close>

definition mem_inc :: "nat \<Rightarrow> counter list \<Rightarrow> counter list res" where
  "mem_inc i v = rbind (rnth v i) (\<lambda>k. rupd v i (k + 1))"

text \<open>
  A partial sum waits for nobody. A package of the input fifo is sent only if \<open>ready\<close> holds of it: the
  sparse controllers send every package, the dense one holds back packages of a later iteration.
\<close>

definition mem_send_psum :: "nat \<Rightarrow> ('d, 'z) ported \<times> 'd store \<Rightarrow> (('d, 'z) ported \<times> 'd store) res" where
  "mem_send_psum i = (\<lambda>(m, st).
     rbind (rnth (pm_psum_fifos m) i) (\<lambda>pq.
     rbind (Fifo_pop pq) (\<lambda>(pck, pq).
     rbind (mem_inc i (ss_n_SRAM_read_ports_psums_use (pm_stats m))) (\<lambda>v.
     rbind (rnth (pm_read_connections m) i) (\<lambda>c.
     rbind (ptr_send (Some c) [pck] st) (\<lambda>st.
     Inr (m\<lparr>pm_psum_fifos := (pm_psum_fifos m)[i := pq],
            pm_stats := ss_n_SRAM_read_ports_psums_use_update (\<lambda>_. v) (pm_stats m)\<rparr>, st)))))))"

definition mem_send_input ::
  "('d DataPackage \<Rightarrow> bool res) \<Rightarrow> nat \<Rightarrow> ('d, 'z) ported \<times> 'd store \<Rightarrow> (('d, 'z) ported \<times> 'd store) res" where
  "mem_send_input ready i = (\<lambda>(m, st).
     rbind (rnth (pm_input_fifos m) i) (\<lambda>iq.
     rbind (Fifo_front iq) (\<lambda>(pck, iq).
     rbind (ready pck) (\<lambda>ok.
     if ok then
       rbind (if p_data_type pck = WEIGHT then
           rbind (mem_inc i (ss_n_SRAM_read_ports_weights_use (pm_stats m))) (\<lambda>v.
           Inr (ss_n_SRAM_read_ports_weights_use_update (\<lambda>_. v) (pm_stats m)))
         else
           rbind (mem_inc i (ss_n_SRAM_read_ports_inputs_use (pm_stats m))) (\<lambda>v.
           Inr (ss_n_SRAM_read_ports_inputs_use_update (\<lambda>_. v) (pm_stats m)))) (\<lambda>stats.
       rbind (rnth (pm_read_connections m) i) (\<lambda>c.
       rbind (ptr_send (Some c) [pck] st) (\<lambda>st.
       rbind (Fifo_pop iq) (\<lambda>(_, iq).
       Inr (m\<lparr>pm_input_fifos := (pm_input_fifos m)[i := iq], pm_stats := stats\<rparr>, st)))))
     else Inr (m\<lparr>pm_input_fifos := (pm_input_fifos m)[i := iq]\<rparr>, st)))))"

definition mem_send_port ::
  "('d DataPackage \<Rightarrow> bool res) \<Rightarrow> nat \<Rightarrow> ('d, 'z) ported \<times> 'd store \<Rightarrow> (('d, 'z) ported \<times> 'd store) res" where
  "mem_send_port ready i = (\<lambda>(m, st).
     rbind (rnth (pm_psum_fifos m) i) (\<lambda>pq.
     rbind (rnth (pm_input_fifos m) i) (\<lambda>iq.
     if \<not> Fifo_isEmpty pq then mem_send_psum i (m, st)
     else if \<not> Fifo_isEmpty iq then mem_send_input ready i (m, st)
     else Inr (m, st))))"

definition mem_send ::
  "('d DataPackage \<Rightarrow> bool res) \<Rightarrow> ('d, 'z) ported \<times> 'd store \<Rightarrow> (('d, 'z) ported \<times> 'd store) res" where
  "mem_send ready = (\<lambda>(m, st). rfold (mem_send_port ready) [0..<pm_n_read_ports m] (m, st))"

definition mem_receive_from :: "cid option \<Rightarrow> ('d, 'z) ported \<times> 'd store \<Rightarrow> (('d, 'z) ported \<times> 'd store) res" where
  "mem_receive_from c = (\<lambda>(m, st).
     rbind (ptr_pending c st) (\<lambda>b.
     if b then
       rbind (ptr_receive c st) (\<lambda>(data_received, st).
       Inr (m\<lparr>pm_write_fifo := Fifo_push_all data_received (pm_write_fifo m)\<rparr>, st))
     else Inr (m, st)))"

definition mem_receive :: "('d, 'z) ported \<times> 'd store \<Rightarrow> (('d, 'z) ported \<times> 'd store) res" where
  "mem_receive = (\<lambda>(m, st).
     rbind (mem_receive_from (pm_write_connection m) (m, st)) (\<lambda>(m, st).
     rfold mem_receive_from (pm_write_port_connections m) (m, st)))"

text \<open>
  The loop \<open>for(int i=0; i<write_fifo->size(); i++)\<close> that pops a package in every iteration: the bound
  shrinks while \<open>i\<close> grows.
\<close>

definition mem_write_loop :: "(('d, 'z) ported \<Rightarrow> ('d, 'z) ported res) \<Rightarrow> ('d, 'z) ported \<Rightarrow> ('d, 'z) ported res" where
  "mem_write_loop write m =
     rbind (rwhile (length (f_fifo (pm_write_fifo m))) (\<lambda>(i, m). i < length (f_fifo (pm_write_fifo m)))
       (\<lambda>(i, m). rbind (write m) (\<lambda>m. Inr (i + 1, m))) (0, m)) (\<lambda>(_, m). Inr m)"

end
