(* ===== verification/SparseMem.thy ===== *)
theory SparseMem
  imports MemPorts LinearMN ASNetwork
begin

text \<open>
  The memory controller of the sparse machine, \<^verbatim>\<open>SparseSDMemory.cpp\<close>. One matrix stays in the
  multipliers (stationary), the other streams past it; which is which is the dataflow. Both are stored
  as their non-zero elements and a bitmap. An iteration of the controller picks as many rows of the
  stationary matrix as fit (their non-zero elements are the virtual neurons), configures the two networks
  for them, sends the stationary elements, and then one package per element of every row of the streaming
  matrix, to the multipliers that hold the matching elements. A row that does not fit is folded: its
  parts are treated one after the other, and the first multiplier adds the sum of the parts before.

  The arrays behind the addresses are lists; an access outside them is the error \<open>OutOfBounds\<close>.
\<close>

section \<open>State\<close>

record 'd SparseSDMemory = "'d MemPorts" +
  sp_dnn_layer :: "DNNLayer option"
  sp_M :: nat
  sp_N :: nat
  sp_dataflow :: Dataflow
  sp_dim_sta :: nat
  sp_K :: nat
  sp_dim_str :: nat
  sp_STA_DIST_ELEM :: nat
  sp_STA_DIST_VECTOR :: nat
  sp_STR_DIST_ELEM :: nat
  sp_STR_DIST_VECTOR :: nat
  sp_OUT_DIST_VN :: nat
  sp_OUT_DIST_VN_ITERATION :: nat
  sp_current_state :: SparsityControllerState
  sp_configurationVNs :: "SparseVN list"
  sp_vnat_table :: "nat list"
  sp_STA_address :: "'d list"
  sp_STR_address :: "'d list"
  sp_output_address :: "'d list"
  sp_STA_metadata :: "nat list"
  sp_STR_metadata :: "nat list"
  sp_output_metadata :: "nat list"
  sp_sta_counters_table :: "nat list"
  sp_str_counters_table :: "nat list"
  sp_str_current_index :: nat
  sp_sta_current_index_metadata :: nat
  sp_sta_current_index_matrix :: nat
  sp_sta_current_j_metadata :: nat
  sp_sta_last_j_metadata :: nat
  sp_execution_finished :: bool
  sp_sta_iter_completed :: bool
  sp_metadata_loaded :: bool
  sp_layer_loaded :: bool
  sp_current_output :: nat
  sp_output_size :: nat
  sp_current_output_iteration :: nat
  sp_output_size_iteration :: nat
  sp_n_ones_sta_matrix :: nat
  sp_n_ones_str_matrix :: nat

definition SparseSDMemory_new :: "Config \<Rightarrow> cid option \<Rightarrow> 'd SparseSDMemory res" where
  "SparseSDMemory_new cfg write_connection =
     rbind (MemPorts_new cfg write_connection) (\<lambda>m.
     Inr (MemPorts.extend m
       \<lparr>sp_dnn_layer = None, sp_M = uninit, sp_N = uninit, sp_dataflow = uninit, sp_dim_sta = uninit,
        sp_K = uninit, sp_dim_str = uninit, sp_STA_DIST_ELEM = uninit, sp_STA_DIST_VECTOR = uninit,
        sp_STR_DIST_ELEM = uninit, sp_STR_DIST_VECTOR = uninit, sp_OUT_DIST_VN = uninit,
        sp_OUT_DIST_VN_ITERATION = uninit, sp_current_state = CONFIGURING, sp_configurationVNs = [],
        sp_vnat_table = [], sp_STA_address = uninit, sp_STR_address = uninit, sp_output_address = uninit,
        sp_STA_metadata = uninit, sp_STR_metadata = uninit, sp_output_metadata = uninit,
        sp_sta_counters_table = [], sp_str_counters_table = [], sp_str_current_index = 0,
        sp_sta_current_index_metadata = 0, sp_sta_current_index_matrix = 0, sp_sta_current_j_metadata = 0,
        sp_sta_last_j_metadata = 0, sp_execution_finished = False, sp_sta_iter_completed = False,
        sp_metadata_loaded = False, sp_layer_loaded = False, sp_current_output = 0, sp_output_size = 0,
        sp_current_output_iteration = 0, sp_output_size_iteration = 0, sp_n_ones_sta_matrix = 0,
        sp_n_ones_str_matrix = 0\<rparr>))"

definition SparseSDMemory_isExecutionFinished :: "'d SparseSDMemory \<Rightarrow> bool" where
  "SparseSDMemory_isExecutionFinished sp = sp_execution_finished sp"

text \<open>The fields that depend on which of the matrices is stationary.\<close>

definition SparseSDMemory_set_dataflow :: "'d list \<Rightarrow> 'd list \<Rightarrow> 'd SparseSDMemory \<Rightarrow> 'd SparseSDMemory res" where
  "SparseSDMemory_set_dataflow MK_address KN_address sp =
     (case sp_dataflow sp of
        MK_STA_KN_STR \<Rightarrow>
          Inr (sp\<lparr>sp_STA_address := MK_address, sp_dim_sta := sp_M sp, sp_STR_address := KN_address, sp_dim_str := sp_N sp,
                  sp_STA_DIST_ELEM := 1, sp_STA_DIST_VECTOR := sp_K sp, sp_STR_DIST_ELEM := sp_N sp, sp_STR_DIST_VECTOR := 1,
                  sp_OUT_DIST_VN := sp_N sp, sp_OUT_DIST_VN_ITERATION := 1\<rparr>)
      | MK_STR_KN_STA \<Rightarrow>
          Inr (sp\<lparr>sp_STA_address := KN_address, sp_dim_sta := sp_N sp, sp_STR_address := MK_address, sp_dim_str := sp_M sp,
                  sp_STA_DIST_ELEM := sp_N sp, sp_STA_DIST_VECTOR := 1, sp_STR_DIST_ELEM := 1, sp_STR_DIST_VECTOR := sp_K sp,
                  sp_OUT_DIST_VN := 1, sp_OUT_DIST_VN_ITERATION := sp_N sp\<rparr>)
      | _ \<Rightarrow> Inl AssertFail)"

definition SparseSDMemory_setLayer ::
  "DNNLayer \<Rightarrow> 'd list \<Rightarrow> 'd list \<Rightarrow> 'd list \<Rightarrow> Dataflow \<Rightarrow> 'd SparseSDMemory \<Rightarrow> 'd SparseSDMemory res" where
  "SparseSDMemory_setLayer layer MK_address KN_address output_address dataflow sp =
     rassert (l_type layer = GEMM)
     (rbind (SparseSDMemory_set_dataflow MK_address KN_address
         (sp\<lparr>sp_dnn_layer := Some layer, sp_dataflow := dataflow, sp_output_address := output_address,
             sp_layer_loaded := True, sp_M := l_K layer, sp_K := l_S layer, sp_N := l_X layer,
             pm_stats := ss_dataflow_update (\<lambda>_. dataflow) (pm_stats sp)\<rparr>)) (\<lambda>sp.
      Inr (sp\<lparr>sp_output_size := umul (sp_dim_sta sp) (sp_dim_str sp),
              sp_sta_counters_table := replicate (umul (sp_dim_sta sp) (sp_K sp)) uninit,
              sp_str_counters_table := replicate (umul (sp_dim_str sp) (sp_K sp)) uninit\<rparr>)))"

definition SparseSDMemory_setSparseMetadata :: "nat list \<Rightarrow> nat list \<Rightarrow> nat list \<Rightarrow> 'd SparseSDMemory \<Rightarrow> 'd SparseSDMemory res" where
  "SparseSDMemory_setSparseMetadata MK_metadata KN_metadata output_metadata sp =
     rbind (case sp_dataflow sp of
        MK_STA_KN_STR \<Rightarrow> Inr (sp\<lparr>sp_STA_metadata := MK_metadata, sp_STR_metadata := KN_metadata, sp_output_metadata := output_metadata\<rparr>)
      | MK_STR_KN_STA \<Rightarrow> Inr (sp\<lparr>sp_STA_metadata := KN_metadata, sp_STR_metadata := MK_metadata, sp_output_metadata := output_metadata\<rparr>)
      | _ \<Rightarrow> Inl AssertFail) (\<lambda>sp. Inr (sp\<lparr>sp_metadata_loaded := True\<rparr>))"

section \<open>Configuring: which virtual neurons\<close>

definition sta_index :: "'d SparseSDMemory \<Rightarrow> nat \<Rightarrow> nat \<Rightarrow> nat" where
  "sta_index sp i j = uadd (umul i (sp_STA_DIST_VECTOR sp)) (umul j (sp_STA_DIST_ELEM sp))"

definition str_index :: "'d SparseSDMemory \<Rightarrow> nat \<Rightarrow> nat \<Rightarrow> nat" where
  "str_index sp i j = uadd (umul i (sp_STR_DIST_VECTOR sp)) (umul j (sp_STR_DIST_ELEM sp))"

definition sta_bit :: "'d SparseSDMemory \<Rightarrow> nat \<Rightarrow> nat \<Rightarrow> bool res" where
  "sta_bit sp i j = rbind (rnth (sp_STA_metadata sp) (sta_index sp i j)) (\<lambda>b. Inr (b \<noteq> 0))"

definition str_bit :: "'d SparseSDMemory \<Rightarrow> nat \<Rightarrow> nat \<Rightarrow> bool res" where
  "str_bit sp i j = rbind (rnth (sp_STR_metadata sp) (str_index sp i j)) (\<lambda>b. Inr (b \<noteq> 0))"

text \<open>An element of the stationary matrix gets the next multiplier if it is not zero.\<close>

definition SparseSDMemory_assign ::
  "nat \<Rightarrow> nat \<Rightarrow> 'd SparseSDMemory \<times> nat \<times> nat \<Rightarrow> ('d SparseSDMemory \<times> nat \<times> nat) res" where
  "SparseSDMemory_assign i j = (\<lambda>(sp, n_ms, n_current_cluster).
     rbind (sta_bit sp i j) (\<lambda>b.
     if b then
       rbind (rupd (sp_sta_counters_table sp) (sta_index sp i j) n_ms) (\<lambda>t.
       Inr (sp\<lparr>sp_sta_counters_table := t\<rparr>, n_ms + 1, n_current_cluster + 1))
     else Inr (sp, n_ms, n_current_cluster)))"

definition SparseSDMemory_remaining_values :: "nat \<Rightarrow> nat \<Rightarrow> 'd SparseSDMemory \<Rightarrow> nat res" where
  "SparseSDMemory_remaining_values i j sp =
     rfold (\<lambda>r n. rbind (sta_bit sp i r) (\<lambda>b. Inr (if b then n + 1 else n))) [j..<sp_K sp] 0"

definition SparseSDMemory_push_vn :: "nat \<Rightarrow> bool \<Rightarrow> 'd SparseSDMemory \<Rightarrow> 'd SparseSDMemory" where
  "SparseSDMemory_push_vn n fld sp =
     sp\<lparr>sp_configurationVNs := sp_configurationVNs sp @ [\<lparr>sv_size = n, sv_folding = fld\<rparr>],
        sp_vnat_table := sp_vnat_table sp @ [0]\<rparr>"

text \<open>\<open>sta_last_j_metadata\<close> is the end of this part of row \<open>i\<close>, or \<open>K\<close> if nothing is left of the row.\<close>

definition SparseSDMemory_set_last :: "nat \<Rightarrow> nat \<Rightarrow> 'd SparseSDMemory \<Rightarrow> 'd SparseSDMemory res" where
  "SparseSDMemory_set_last i j sp =
     rbind (SparseSDMemory_remaining_values i j sp) (\<lambda>remaining_values.
     Inr (sp\<lparr>sp_sta_last_j_metadata := (if 0 < remaining_values then j else sp_K sp)\<rparr>))"

definition SparseSDMemory_folded_cluster :: "'d SparseSDMemory \<Rightarrow> 'd SparseSDMemory res" where
  "SparseSDMemory_folded_cluster sp =
     (let i = sp_sta_current_index_metadata sp in
      rbind (rwhile (sp_K sp) (\<lambda>(j, sp, n_ms, n). n_ms < pm_num_ms sp \<and> j < sp_K sp)
          (\<lambda>(j, s). rbind (SparseSDMemory_assign i j s) (\<lambda>s. Inr (j + 1, s)))
          (sp_sta_current_j_metadata sp, sp, 1, 0)) (\<lambda>(j, sp, n_ms, n_current_cluster).
      SparseSDMemory_set_last i j (SparseSDMemory_push_vn n_current_cluster True sp)))"

definition SparseSDMemory_whole_rows_step ::
  "nat \<times> nat \<times> 'd SparseSDMemory \<times> nat \<times> nat \<Rightarrow> (nat \<times> nat \<times> 'd SparseSDMemory \<times> nat \<times> nat) res" where
  "SparseSDMemory_whole_rows_step = (\<lambda>(i, j, s).
     rbind (SparseSDMemory_assign i j s) (\<lambda>(sp, n_ms, n_current_cluster).
     let j = j + 1 in
     if j = sp_K sp then
       if 0 < n_current_cluster
       then Inr (i + 1, 0, SparseSDMemory_push_vn n_current_cluster False sp, n_ms, 0)
       else Inr (i + 1, 0, sp, n_ms, n_current_cluster)
     else Inr (i, j, sp, n_ms, n_current_cluster)))"

definition SparseSDMemory_last_row :: "nat \<Rightarrow> nat \<Rightarrow> nat \<Rightarrow> 'd SparseSDMemory \<Rightarrow> 'd SparseSDMemory res" where
  "SparseSDMemory_last_row i j n_current_cluster sp =
     (if 0 < length (sp_configurationVNs sp) \<and> j < sp_K sp then
        rbind (SparseSDMemory_remaining_values i j sp) (\<lambda>remaining_values.
        Inr (if remaining_values = 0 \<and> 0 < n_current_cluster then SparseSDMemory_push_vn n_current_cluster False sp else sp))
      else Inr sp)"

text \<open>The fuel is the number of elements from the first row on: the loop visits each once.\<close>

definition SparseSDMemory_whole_rows :: "'d SparseSDMemory \<Rightarrow> 'd SparseSDMemory res" where
  "SparseSDMemory_whole_rows sp =
     rbind (rwhile (sp_dim_sta sp * sp_K sp)
         (\<lambda>(i, j, sp, n_ms, n). n_ms < pm_num_ms sp \<and> uadd (umul i (sp_K sp)) j < umul (sp_dim_sta sp) (sp_K sp))
         SparseSDMemory_whole_rows_step
         (sp_sta_current_index_metadata sp, 0, sp, 0, 0)) (\<lambda>(i, j, sp, n_ms, n_current_cluster).
     rbind (SparseSDMemory_last_row i j n_current_cluster sp) (\<lambda>sp.
     if length (sp_configurationVNs sp) = 0
     then SparseSDMemory_set_last i j (SparseSDMemory_push_vn n_current_cluster False sp)
     else Inr (sp\<lparr>sp_sta_last_j_metadata := sp_K sp\<rparr>)))"

text \<open>The number of every non-zero element of the streaming matrix.\<close>

definition SparseSDMemory_source_table :: "'d SparseSDMemory \<Rightarrow> 'd SparseSDMemory res" where
  "SparseSDMemory_source_table sp =
     rbind (rfold (\<lambda>(i, j) (t, source_id).
         rbind (str_bit sp i j) (\<lambda>b.
         if b then rbind (rupd t (str_index sp i j) source_id) (\<lambda>t. Inr (t, uadd source_id 1)) else Inr (t, source_id)))
         (List.product [0..<sp_dim_str sp] [0..<sp_K sp]) (sp_str_counters_table sp, 0)) (\<lambda>(t, source_id).
     Inr (sp\<lparr>sp_str_counters_table := t, sp_n_ones_str_matrix := source_id\<rparr>))"

definition SparseSDMemory_count_vns :: "'d SparseSDMemory \<Rightarrow> 'd SparseSDMemory" where
  "SparseSDMemory_count_vns sp =
     (let n = word_of_nat (length (sp_configurationVNs sp));
          ss = ss_n_sta_vectors_at_once_avg_update (\<lambda>k. k + n) (pm_stats sp);
          ss = (if ss_n_sta_vectors_at_once_max ss < n then ss\<lparr>ss_n_sta_vectors_at_once_max := n\<rparr> else ss)
      in sp\<lparr>pm_stats := ss_n_reconfigurations_update (\<lambda>k. k + 1) ss\<rparr>)"

definition SparseSDMemory_configure ::
  "'d SparseSDMemory \<times> 'd MSNetwork \<times> 'd ASNetwork \<Rightarrow> ('d SparseSDMemory \<times> 'd MSNetwork \<times> 'd ASNetwork) res" where
  "SparseSDMemory_configure = (\<lambda>(sp, mn, an).
     let sp = sp\<lparr>sp_configurationVNs := [], sp_vnat_table := []\<rparr> in
     rbind (if 0 < sp_sta_current_j_metadata sp then SparseSDMemory_folded_cluster sp else SparseSDMemory_whole_rows sp) (\<lambda>sp.
     rbind (SparseSDMemory_source_table sp) (\<lambda>sp.
     rassert (length (sp_configurationVNs sp) \<noteq> 0)
     (let sp = SparseSDMemory_count_vns sp in
      rbind (MSNetwork_resetSignals mn) (\<lambda>mn.
      rbind (MSNetwork_configureSparseSignals (sp_configurationVNs sp) (pm_num_ms sp) mn) (\<lambda>mn.
      rbind (ASNetwork_resetSignals an) (\<lambda>an.
      rbind (ASNetwork_configureSparseSignals (sp_configurationVNs sp) (pm_num_ms sp) an) (\<lambda>an.
      Inr (sp\<lparr>sp_output_size_iteration := umul (length (sp_configurationVNs sp)) (sp_dim_str sp)\<rparr>, mn, an)))))))))"

section \<open>Distributing the stationary matrix\<close>

definition SparseSDMemory_send_stationary ::
  "nat \<Rightarrow> 'd SparseSDMemory \<times> nat \<times> nat \<Rightarrow> ('d SparseSDMemory \<times> nat \<times> nat) res" where
  "SparseSDMemory_send_stationary _ = (\<lambda>(sp, dest, sub_address).
     rbind (rnth (sp_STA_address sp) (uadd (sp_sta_current_index_matrix sp) sub_address)) (\<lambda>d.
     rbind (DataPackage_unicast sizeof_data_t d WEIGHT 0 UNICAST dest) (\<lambda>pck_to_send.
     rbind (mem_sendPackageToInputFifos pck_to_send
         (sp\<lparr>pm_stats := ss_n_SRAM_weight_reads_update (\<lambda>n. n + 1) (pm_stats sp),
             sp_n_ones_sta_matrix := uadd (sp_n_ones_sta_matrix sp) 1\<rparr>)) (\<lambda>sp.
     Inr (sp, uadd dest 1, uadd sub_address 1)))))"

definition SparseSDMemory_dist_sta :: "'d SparseSDMemory \<Rightarrow> 'd SparseSDMemory res" where
  "SparseSDMemory_dist_sta sp =
     rbind (rfold (\<lambda>vn (sp, dest, sub_address).
         rfold SparseSDMemory_send_stationary [(if sv_folding vn then 1 else 0)..<SparseVN_get_VN_Size vn]
           (sp, if sv_folding vn then uadd dest 1 else dest, sub_address))
       (sp_configurationVNs sp) (sp, 0, 0)) (\<lambda>(sp, _). Inr sp)"

section \<open>Distributing a row of the streaming matrix\<close>

definition SparseSDMemory_send_partial :: "'d SparseSDMemory \<Rightarrow> 'd SparseSDMemory res" where
  "SparseSDMemory_send_partial sp =
     rassert (length (sp_configurationVNs sp) = 1)
     (let addr_offset = uadd (umul (sp_sta_current_index_metadata sp) (sp_OUT_DIST_VN sp))
            (umul (sp_str_current_index sp) (sp_OUT_DIST_VN_ITERATION sp)) in
      rbind (rupd (replicate (pm_num_ms sp) False) 0 True) (\<lambda>destinations.
      rbind (rnth (sp_output_address sp) addr_offset) (\<lambda>psum.
      mem_sendPackageToInputFifos (DataPackage_multicast sizeof_data_t psum PSUM 0 MULTICAST destinations (pm_num_ms sp))
        (sp\<lparr>pm_stats := ss_n_SRAM_psum_reads_update (\<lambda>n. n + 1) (pm_stats sp)\<rparr>))))"

text \<open>The multipliers that hold an element of column \<open>j\<close>, in the rows of this iteration.\<close>

definition SparseSDMemory_destinations :: "nat \<Rightarrow> 'd SparseSDMemory \<Rightarrow> bool list res" where
  "SparseSDMemory_destinations j sp =
     (let first_sta_vector = sp_sta_current_index_metadata sp;
          last_sta_vector = uadd (sp_sta_current_index_metadata sp) (length (sp_configurationVNs sp)) in
      rfold (\<lambda>i destinations.
          rbind (sta_bit sp i j) (\<lambda>b.
          if b then rbind (rnth (sp_sta_counters_table sp) (sta_index sp i j)) (\<lambda>dest. rupd destinations dest True)
          else Inr destinations))
        [first_sta_vector..<last_sta_vector] (replicate (pm_num_ms sp) False))"

definition SparseSDMemory_send_streaming :: "nat \<Rightarrow> 'd::zero SparseSDMemory \<Rightarrow> 'd SparseSDMemory res" where
  "SparseSDMemory_send_streaming j sp =
     rbind (SparseSDMemory_destinations j sp) (\<lambda>destinations.
     rbind (str_bit sp (sp_str_current_index sp) j) (\<lambda>b.
     rbind (if b then
         rbind (rnth (sp_str_counters_table sp) (str_index sp (sp_str_current_index sp) j)) (\<lambda>src.
         rbind (rnth (sp_STR_address sp) src) (\<lambda>d.
         Inr (d, sp\<lparr>pm_stats := ss_n_SRAM_input_reads_update (\<lambda>n. n + 1) (pm_stats sp)\<rparr>)))
       else Inr (0, sp)) (\<lambda>(d, sp).
     mem_sendPackageToInputFifos (DataPackage_multicast sizeof_data_t d IACTIVATION 0 MULTICAST destinations (pm_num_ms sp)) sp)))"

definition SparseSDMemory_dist_str :: "'d::zero SparseSDMemory \<Rightarrow> 'd SparseSDMemory res" where
  "SparseSDMemory_dist_str sp =
     rbind (if 0 < sp_sta_current_j_metadata sp then SparseSDMemory_send_partial sp else Inr sp) (\<lambda>sp.
     rbind (rfold SparseSDMemory_send_streaming [sp_sta_current_j_metadata sp..<sp_sta_last_j_metadata sp] sp) (\<lambda>sp.
     Inr (sp\<lparr>sp_str_current_index := uadd (sp_str_current_index sp) 1\<rparr>)))"

section \<open>Results and transitions\<close>

definition SparseSDMemory_write :: "'d SparseSDMemory \<Rightarrow> 'd SparseSDMemory res" where
  "SparseSDMemory_write sp =
     rbind (Fifo_pop (pm_write_fifo sp)) (\<lambda>(pck_received, q).
     let vn = p_VN pck_received in
     rbind (rnth (sp_vnat_table sp) vn) (\<lambda>k.
     let addr_offset = uadd (umul (uadd (sp_sta_current_index_metadata sp) vn) (sp_OUT_DIST_VN sp)) (umul k (sp_OUT_DIST_VN_ITERATION sp)) in
     rbind (rupd (sp_output_address sp) addr_offset (p_data pck_received)) (\<lambda>out.
     let n = uadd (sp_current_output_iteration sp) 1;
         full = (n = sp_output_size_iteration sp) in
     Inr (sp\<lparr>pm_write_fifo := q, pm_stats := ss_n_SRAM_psum_writes_update (\<lambda>n. n + 1) (pm_stats sp),
             sp_vnat_table := (sp_vnat_table sp)[vn := uadd k 1], sp_output_address := out,
             sp_current_output := uadd (sp_current_output sp) 1,
             sp_current_output_iteration := (if full then 0 else n),
             sp_sta_iter_completed := (full \<or> sp_sta_iter_completed sp)\<rparr>))))"

text \<open>The next rows, or the next part of a folded row.\<close>

definition SparseSDMemory_next_vectors :: "'d SparseSDMemory \<Rightarrow> 'd SparseSDMemory" where
  "SparseSDMemory_next_vectors sp =
     (let sp = sp\<lparr>sp_str_current_index := 0, sp_sta_iter_completed := False\<rparr>;
          sp = (if length (sp_configurationVNs sp) = 1 then
                  if sp_sta_last_j_metadata sp = sp_K sp
                  then sp\<lparr>sp_sta_current_index_metadata := uadd (sp_sta_current_index_metadata sp) 1, sp_sta_current_j_metadata := 0\<rparr>
                  else sp\<lparr>sp_sta_current_j_metadata := sp_sta_last_j_metadata sp\<rparr>
                else sp\<lparr>sp_sta_current_index_metadata := uadd (sp_sta_current_index_metadata sp) (length (sp_configurationVNs sp)),
                        sp_sta_current_j_metadata := 0\<rparr>);
          total_size = fold (\<lambda>vn n. let n = uadd n (SparseVN_get_VN_Size vn) in if sv_folding vn then usub n 1 else n)
            (sp_configurationVNs sp) 0
      in sp\<lparr>sp_sta_current_index_matrix := uadd (sp_sta_current_index_matrix sp) total_size\<rparr>)"

definition SparseSDMemory_finish :: "'d SparseSDMemory \<Rightarrow> 'd SparseSDMemory res" where
  "SparseSDMemory_finish sp =
     (let sta_metadata_size = umul (sp_dim_sta sp) (sp_K sp); str_metadata_size = umul (sp_dim_str sp) (sp_K sp);
          sta_zeros = usub sta_metadata_size (sp_n_ones_sta_matrix sp); str_zeros = usub str_metadata_size (sp_n_ones_str_matrix sp);
          ss = pm_stats sp in
      rbind (rdiv (umul 100 sta_zeros) sta_metadata_size) (\<lambda>a.
      rbind (rdiv (umul 100 str_zeros) str_metadata_size) (\<lambda>b.
      rbind (rdiv (unat (ss_n_sta_vectors_at_once_avg ss)) (unat (ss_n_reconfigurations ss))) (\<lambda>q.
      Inr (sp\<lparr>pm_stats := ss\<lparr>ss_sta_sparsity := word_of_nat a, ss_str_sparsity := word_of_nat b,
                              ss_n_sta_vectors_at_once_avg := word_of_nat q\<rparr>,
              sp_execution_finished := True, sp_current_state := ALL_DATA_SENT\<rparr>)))))"

definition SparseSDMemory_transition :: "'d SparseSDMemory \<Rightarrow> 'd SparseSDMemory res" where
  "SparseSDMemory_transition sp =
     (case sp_current_state sp of
        CONFIGURING \<Rightarrow> Inr (sp\<lparr>sp_current_state := DIST_STA_MATRIX\<rparr>)
      | DIST_STA_MATRIX \<Rightarrow> Inr (sp\<lparr>sp_current_state := DIST_STR_MATRIX\<rparr>)
      | DIST_STR_MATRIX \<Rightarrow>
          Inr (if sp_str_current_index sp = sp_dim_str sp then sp\<lparr>sp_current_state := WAITING_FOR_NEXT_STA_ITER\<rparr> else sp)
      | WAITING_FOR_NEXT_STA_ITER \<Rightarrow>
          (if sp_sta_iter_completed sp then
             let sp = SparseSDMemory_next_vectors sp in
             if sp_dim_sta sp \<le> sp_sta_current_index_metadata sp then SparseSDMemory_finish sp
             else Inr (sp\<lparr>sp_current_state := CONFIGURING\<rparr>)
           else Inr sp)
      | ALL_DATA_SENT \<Rightarrow> Inr sp)"

definition SparseSDMemory_cycle ::
  "'d::zero SparseSDMemory \<times> 'd MSNetwork \<times> 'd ASNetwork \<times> 'd store
   \<Rightarrow> ('d SparseSDMemory \<times> 'd MSNetwork \<times> 'd ASNetwork \<times> 'd store) res" where
  "SparseSDMemory_cycle = (\<lambda>(sp, mn, an, st).
     rassert (sp_layer_loaded sp)
     (rassert (sp_metadata_loaded sp)
     (let sp = sp\<lparr>pm_local_cycle := pm_local_cycle sp + 1,
                  pm_stats := ss_total_cycles_update (\<lambda>n. n + 1) (pm_stats sp)\<rparr> in
      rbind (case sp_current_state sp of
          CONFIGURING \<Rightarrow> SparseSDMemory_configure (sp, mn, an)
        | DIST_STA_MATRIX \<Rightarrow> rbind (SparseSDMemory_dist_sta sp) (\<lambda>sp. Inr (sp, mn, an))
        | DIST_STR_MATRIX \<Rightarrow> rbind (SparseSDMemory_dist_str sp) (\<lambda>sp. Inr (sp, mn, an))
        | _ \<Rightarrow> Inr (sp, mn, an)) (\<lambda>(sp, mn, an).
      rbind (mem_receive (sp, st)) (\<lambda>(sp, st).
      rbind (mem_write_loop SparseSDMemory_write sp) (\<lambda>sp.
      rbind (SparseSDMemory_transition sp) (\<lambda>sp.
      rbind (mem_send (\<lambda>_. Inr True) (sp, st)) (\<lambda>(sp, st).
      Inr (sp, mn, an, st))))))))) "

end
