(* ===== verification/SparseRows.thy ===== *)
theory SparseRows
  imports SparseMem
begin

text \<open>
  Which rows of the stationary matrix an iteration of the sparse controller takes, and which
  multiplier gets which element.
\<close>

section \<open>The stationary matrix\<close>

definition sta_ix :: "'d SparseSDMemory \<Rightarrow> nat \<Rightarrow> nat \<Rightarrow> nat" where
  "sta_ix sp i j = i * sp_STA_DIST_VECTOR sp + j * sp_STA_DIST_ELEM sp"

definition sta_set :: "'d SparseSDMemory \<Rightarrow> nat \<Rightarrow> nat \<Rightarrow> bool" where
  "sta_set sp i j \<longleftrightarrow> sp_STA_metadata sp ! sta_ix sp i j \<noteq> 0"

text \<open>The elements of row \<open>i\<close> that are not zero, those before column \<open>j\<close>, and those of the rows from \<open>a\<close> to \<open>b\<close>.\<close>

definition ones :: "'d SparseSDMemory \<Rightarrow> nat \<Rightarrow> nat \<Rightarrow> nat" where
  "ones sp i j = length (filter (sta_set sp i) [0..<j])"

definition row_size :: "'d SparseSDMemory \<Rightarrow> nat \<Rightarrow> nat" where
  "row_size sp i = ones sp i (sp_K sp)"

definition rows_size :: "'d SparseSDMemory \<Rightarrow> nat \<Rightarrow> nat \<Rightarrow> nat" where
  "rows_size sp a b = (\<Sum>i \<leftarrow> [a..<b]. row_size sp i)"

text \<open>
  The sizes fit into 32 bits, the arrays have the sizes of the matrix, and the distances are those of
  one of the two dataflows. The bitmap has one row more than the matrix.
\<close>

definition sta_ok :: "'d SparseSDMemory \<Rightarrow> bool" where
  "sta_ok sp \<longleftrightarrow> 0 < sp_K sp \<and> 0 < sp_dim_sta sp \<and> Suc (sp_dim_sta sp) * sp_K sp < u32_max \<and> sp_dim_sta sp + sp_dim_sta sp * sp_K sp < u32_max
     \<and> length (sp_sta_counters_table sp) = sp_dim_sta sp * sp_K sp \<and> sp_dim_sta sp * sp_K sp \<le> length (sp_STA_metadata sp)
     \<and> (sp_STA_DIST_VECTOR sp = sp_K sp \<and> sp_STA_DIST_ELEM sp = 1 \<or> sp_STA_DIST_VECTOR sp = 1 \<and> sp_STA_DIST_ELEM sp = sp_dim_sta sp)"

definition spare_row :: "'d SparseSDMemory \<Rightarrow> bool" where
  "spare_row sp \<longleftrightarrow> sp_dim_sta sp + sp_dim_sta sp * sp_K sp \<le> length (sp_STA_metadata sp) \<and> Suc (sp_dim_sta sp) * sp_K sp \<le> length (sp_STA_metadata sp)"

lemma sta_ix_less:
  assumes "sta_ok sp" "i < sp_dim_sta sp" "j < sp_K sp" shows "sta_ix sp i j < sp_dim_sta sp * sp_K sp"
proof -
  consider "sp_STA_DIST_VECTOR sp = sp_K sp" "sp_STA_DIST_ELEM sp = 1" | "sp_STA_DIST_VECTOR sp = 1" "sp_STA_DIST_ELEM sp = sp_dim_sta sp"
    using assms(1) unfolding sta_ok_def by blast
  then show ?thesis
  proof cases
    case 1
    then show ?thesis using index_less [of i "sp_dim_sta sp" j "sp_K sp"] assms(2,3) by (simp add: sta_ix_def)
  next
    case 2
    then show ?thesis using index_less [of j "sp_K sp" i "sp_dim_sta sp"] assms(2,3) by (simp add: sta_ix_def algebra_simps)
  qed
qed

lemma sta_ix_inj:
  assumes "sta_ok sp" "i < sp_dim_sta sp" "j < sp_K sp" "i' < sp_dim_sta sp" "j' < sp_K sp"
  shows "sta_ix sp i j = sta_ix sp i' j' \<longleftrightarrow> i = i' \<and> j = j'"
proof -
  have e: "a * n + b = a' * n + b' \<longleftrightarrow> a = a' \<and> b = b'" if "b < n" "b' < n" for a b a' b' n :: nat
    using that by (metis add.commute div_mult_self1 div_less add.right_neutral add_left_cancel less_nat_zero_code add_cancel_right_left)
  consider "sp_STA_DIST_VECTOR sp = sp_K sp" "sp_STA_DIST_ELEM sp = 1" | "sp_STA_DIST_VECTOR sp = 1" "sp_STA_DIST_ELEM sp = sp_dim_sta sp"
    using assms(1) unfolding sta_ok_def by blast
  then show ?thesis
  proof cases
    case 1
    then show ?thesis using e [of j "sp_K sp" j' i i'] assms(3,5) by (simp add: sta_ix_def)
  next
    case 2
    then show ?thesis using e [of i "sp_dim_sta sp" i' j j'] assms(2,4) by (auto simp: sta_ix_def add.commute)
  qed
qed

lemma sta_index_ix:
  assumes "sta_ok sp" "i \<le> sp_dim_sta sp" "j < sp_K sp" shows "sta_index sp i j = sta_ix sp i j"
proof -
  have b: "i * sp_STA_DIST_VECTOR sp + j * sp_STA_DIST_ELEM sp < u32_max"
  proof -
    consider "sp_STA_DIST_VECTOR sp = sp_K sp" "sp_STA_DIST_ELEM sp = 1" | "sp_STA_DIST_VECTOR sp = 1" "sp_STA_DIST_ELEM sp = sp_dim_sta sp"
      using assms(1) unfolding sta_ok_def by blast
    then show ?thesis
    proof cases
      case 1
      have "i * sp_K sp + j < Suc (sp_dim_sta sp) * sp_K sp" by (rule index_less) (use assms in simp_all)
      then show ?thesis using 1 assms(1) by (simp add: sta_ok_def)
    next
      case 2
      have "j * sp_dim_sta sp \<le> (sp_K sp - 1) * sp_dim_sta sp" using assms(3) by (intro mult_le_mono1) simp
      then have "i + j * sp_dim_sta sp \<le> sp_dim_sta sp + sp_dim_sta sp * sp_K sp" using assms(2) by (simp add: algebra_simps diff_mult_distrib2)
      then show ?thesis using 2 assms(1) by (simp add: sta_ok_def)
    qed
  qed
  then show ?thesis unfolding sta_index_def sta_ix_def by (subst umul_small, linarith, subst umul_small, linarith, rule uadd_small)
qed

lemma sta_bit_ok:
  assumes "sta_ok sp" "i < sp_dim_sta sp" "j < sp_K sp" shows "sta_bit sp i j = Inr (sta_set sp i j)"
proof -
  have "sta_ix sp i j < length (sp_STA_metadata sp)" using sta_ix_less [OF assms] assms(1) by (simp add: sta_ok_def)
  then show ?thesis using sta_index_ix [OF assms(1) _ assms(3), of i] assms(2) by (simp add: sta_bit_def sta_set_def)
qed

lemma sta_bit_spare:
  assumes "sta_ok sp" "spare_row sp" "j < sp_K sp" shows "\<exists>b. sta_bit sp (sp_dim_sta sp) j = Inr b"
proof -
  have "sta_ix sp (sp_dim_sta sp) j < length (sp_STA_metadata sp)"
  proof -
    consider "sp_STA_DIST_VECTOR sp = sp_K sp" "sp_STA_DIST_ELEM sp = 1" | "sp_STA_DIST_VECTOR sp = 1" "sp_STA_DIST_ELEM sp = sp_dim_sta sp"
      using assms(1) unfolding sta_ok_def by blast
    then show ?thesis
    proof cases
      case 1
      have "sp_dim_sta sp * sp_K sp + j < Suc (sp_dim_sta sp) * sp_K sp" by (rule index_less) (use assms in simp_all)
      then show ?thesis using 1 assms(2) by (simp add: spare_row_def sta_ix_def)
    next
      case 2
      have "sp_dim_sta sp + j * sp_dim_sta sp = Suc j * sp_dim_sta sp" by simp
      also have "\<dots> \<le> sp_K sp * sp_dim_sta sp" using assms(3) by (intro mult_le_mono1) simp
      also have "\<dots> < sp_dim_sta sp + sp_dim_sta sp * sp_K sp" using assms(1) by (simp add: sta_ok_def)
      also have "\<dots> \<le> length (sp_STA_metadata sp)" using assms(2) by (simp add: spare_row_def)
      finally have "sp_dim_sta sp + j * sp_dim_sta sp < length (sp_STA_metadata sp)" .
      then show ?thesis unfolding sta_ix_def 2 mult_1_right .
    qed
  qed
  then show ?thesis using sta_index_ix [OF assms(1) _ assms(3)] by (simp add: sta_bit_def)
qed

lemma ones_0 [simp]: "ones sp i 0 = 0"
  by (simp add: ones_def)

lemma ones_Suc: "ones sp i (Suc j) = (if sta_set sp i j then Suc (ones sp i j) else ones sp i j)"
  by (simp add: ones_def)

lemma ones_mono: "j \<le> j' \<Longrightarrow> ones sp i j \<le> ones sp i j'"
  by (induction j' rule: dec_induct) (auto simp: ones_Suc)

lemma rows_size_Suc: "a \<le> b \<Longrightarrow> rows_size sp a (Suc b) = rows_size sp a b + row_size sp b"
  by (simp add: rows_size_def)

lemma rows_size_same [simp]: "rows_size sp a a = 0"
  by (simp add: rows_size_def)

lemma rows_size_mono:
  assumes "b \<le> b'" "a \<le> b" shows "rows_size sp a b \<le> rows_size sp a b'"
  using assms by (induction b' rule: dec_induct) (auto simp: rows_size_Suc)

lemma remaining_ok:
  assumes "sta_ok sp" "i < sp_dim_sta sp" "j \<le> sp_K sp"
  shows "SparseSDMemory_remaining_values i j sp = Inr (row_size sp i - ones sp i j)"
proof -
  have "rfold (\<lambda>r n. rbind (sta_bit sp i r) (\<lambda>b. Inr (if b then n + 1 else n))) [j..<j + m] 0 = Inr (ones sp i (j + m) - ones sp i j)"
    if "j + m \<le> sp_K sp" for m
    using that
  proof (induction m)
    case (Suc m)
    then show ?case using sta_bit_ok [OF assms(1,2), of "j + m"] ones_mono [of j "j + m" sp i]
      by (simp add: rfold_append ones_Suc Suc_diff_le)
  qed simp
  from this [of "sp_K sp - j"] show ?thesis using assms(3) by (simp add: SparseSDMemory_remaining_values_def row_size_def)
qed

section \<open>The loop over the rows\<close>

definition rows_config :: "'d SparseSDMemory \<Rightarrow> nat list \<Rightarrow> SparseVN list \<Rightarrow> 'd SparseSDMemory" where
  "rows_config sp t vs = sp\<lparr>sp_sta_counters_table := t, sp_configurationVNs := vs, sp_vnat_table := replicate (length vs) 0\<rparr>"

definition row_vns :: "'d SparseSDMemory \<Rightarrow> nat \<Rightarrow> nat \<Rightarrow> SparseVN list" where
  "row_vns sp a b = map (\<lambda>r. \<lparr>sv_size = row_size sp r, sv_folding = False\<rparr>) (filter (\<lambda>r. 0 < row_size sp r) [a..<b])"

text \<open>The multiplier of element \<open>(r, x)\<close> when row \<open>a\<close> is the first of the iteration.\<close>

definition ms_of :: "'d SparseSDMemory \<Rightarrow> nat \<Rightarrow> nat \<Rightarrow> nat \<Rightarrow> nat" where
  "ms_of sp a r x = rows_size sp a r + ones sp r x"

definition before_pos :: "nat \<Rightarrow> nat \<Rightarrow> nat \<Rightarrow> nat \<Rightarrow> bool" where
  "before_pos r x i j \<longleftrightarrow> r < i \<or> r = i \<and> x < j"

definition rows_inv :: "'d SparseSDMemory \<Rightarrow> nat \<Rightarrow> nat \<times> nat \<times> 'd SparseSDMemory \<times> nat \<times> nat \<Rightarrow> bool" where
  "rows_inv sp a = (\<lambda>(i, j, s, n, c).
     a \<le> i \<and> (i < sp_dim_sta sp \<and> j < sp_K sp \<or> i = sp_dim_sta sp \<and> j = 0)
     \<and> n = rows_size sp a i + ones sp i j \<and> n \<le> pm_num_ms sp \<and> c = ones sp i j
     \<and> (\<exists>t. s = rows_config sp t (row_vns sp a i) \<and> length t = length (sp_sta_counters_table sp)
          \<and> (\<forall>r x. a \<le> r \<longrightarrow> r < sp_dim_sta sp \<longrightarrow> x < sp_K sp \<longrightarrow> before_pos r x i j \<longrightarrow> sta_set sp r x
               \<longrightarrow> t ! sta_ix sp r x = ms_of sp a r x)))"

lemma rows_config_simps [simp]:
  "sta_bit (rows_config sp t vs) = sta_bit sp" "sta_index (rows_config sp t vs) = sta_index sp"
  "sp_K (rows_config sp t vs) = sp_K sp" "sp_dim_sta (rows_config sp t vs) = sp_dim_sta sp"
  "pm_num_ms (rows_config sp t vs) = pm_num_ms sp" "sp_sta_counters_table (rows_config sp t vs) = t"
  "sp_configurationVNs (rows_config sp t vs) = vs"
  "SparseSDMemory_push_vn n f (rows_config sp t vs) = rows_config sp t (vs @ [\<lparr>sv_size = n, sv_folding = f\<rparr>])"
  "(rows_config sp t vs)\<lparr>sp_sta_counters_table := t'\<rparr> = rows_config sp t' vs"
  by (simp_all add: rows_config_def fun_eq_iff sta_bit_def sta_index_def SparseSDMemory_push_vn_def replicate_append_same)

lemma row_vns_Suc: "a \<le> i \<Longrightarrow> row_vns sp a (Suc i) = row_vns sp a i @ (if 0 < row_size sp i then [\<lparr>sv_size = row_size sp i, sv_folding = False\<rparr>] else [])"
  by (simp add: row_vns_def)

lemma rows_step:
  assumes ok: "sta_ok sp" and I: "rows_inv sp a (i, j, s, n, c)" and n: "n < pm_num_ms sp" and i: "i < sp_dim_sta sp"
  shows "\<exists>s'. SparseSDMemory_whole_rows_step (i, j, s, n, c) = Inr s' \<and> rows_inv sp a s'
     \<and> fst s' * sp_K sp + fst (snd s') = Suc (i * sp_K sp + j)"
proof -
  obtain t where t: "s = rows_config sp t (row_vns sp a i)" "length t = length (sp_sta_counters_table sp)"
    "\<And>r x. a \<le> r \<Longrightarrow> r < sp_dim_sta sp \<Longrightarrow> x < sp_K sp \<Longrightarrow> before_pos r x i j \<Longrightarrow> sta_set sp r x \<Longrightarrow> t ! sta_ix sp r x = ms_of sp a r x"
    using I unfolding rows_inv_def by auto
  have v: "a \<le> i" "j < sp_K sp" "n = rows_size sp a i + ones sp i j" "c = ones sp i j" using I i unfolding rows_inv_def by auto
  define t' where "t' = (if sta_set sp i j then t[sta_ix sp i j := n] else t)"
  have ix: "sta_ix sp i j < length t" using sta_ix_less [OF ok i v(2)] ok t(2) by (simp add: sta_ok_def)
  have as: "SparseSDMemory_assign i j (s, n, c) = Inr (rows_config sp t' (row_vns sp a i), rows_size sp a i + ones sp i (Suc j), ones sp i (Suc j))"
    using sta_bit_ok [OF ok i v(2)] sta_index_ix [OF ok _ v(2), of i] i ix v
    by (simp add: SparseSDMemory_assign_def t(1) t'_def ones_Suc)
  have len: "length t' = length (sp_sta_counters_table sp)" using t(2) by (simp add: t'_def)
  have tab: "t' ! sta_ix sp r x = ms_of sp a r x"
    if p: "a \<le> r" "r < sp_dim_sta sp" "x < sp_K sp" "before_pos r x i (Suc j)" "sta_set sp r x" for r x
  proof (cases "r = i \<and> x = j")
    case True
    then show ?thesis using p(5) ix v(3) by (simp add: t'_def ms_of_def)
  next
    case False
    then have "before_pos r x i j" "sta_ix sp r x \<noteq> sta_ix sp i j" using p sta_ix_inj [OF ok p(2,3) i v(2)] by (auto simp: before_pos_def)
    then show ?thesis using t(3) p by (simp add: t'_def)
  qed
  have n': "rows_size sp a i + ones sp i (Suc j) \<le> pm_num_ms sp" using n v(3) by (simp add: ones_Suc)
  show ?thesis
  proof (cases "Suc j = sp_K sp")
    case False
    then have "SparseSDMemory_whole_rows_step (i, j, s, n, c) =
        Inr (i, Suc j, rows_config sp t' (row_vns sp a i), rows_size sp a i + ones sp i (Suc j), ones sp i (Suc j))"
      using as by (simp add: SparseSDMemory_whole_rows_step_def)
    moreover have "rows_inv sp a (i, Suc j, rows_config sp t' (row_vns sp a i), rows_size sp a i + ones sp i (Suc j), ones sp i (Suc j))"
      using False v i n' len tab by (auto simp: rows_inv_def)
    ultimately show ?thesis by simp
  next
    case True
    have sz: "ones sp i (Suc j) = row_size sp i" using True by (simp add: row_size_def)
    have "SparseSDMemory_whole_rows_step (i, j, s, n, c) = Inr (Suc i, 0, rows_config sp t' (row_vns sp a (Suc i)), rows_size sp a (Suc i), 0)"
      using as True v(1) sz by (auto simp: SparseSDMemory_whole_rows_step_def row_vns_Suc rows_size_Suc)
    moreover have "before_pos r x i (Suc j)" if "before_pos r x (Suc i) 0" "x < sp_K sp" for r x
      using that True by (auto simp: before_pos_def)
    then have "rows_inv sp a (Suc i, 0, rows_config sp t' (row_vns sp a (Suc i)), rows_size sp a (Suc i), 0)"
      using True v i n' len tab sz ok by (auto simp: rows_inv_def rows_size_Suc sta_ok_def)
    ultimately show ?thesis using True by simp
  qed
qed

lemma rows_loop:
  assumes ok: "sta_ok sp" and a: "a < sp_dim_sta sp" and s0: "sp = rows_config sp (sp_sta_counters_table sp) []"
  shows "\<exists>i j s n c. rwhile (sp_dim_sta sp * sp_K sp)
       (\<lambda>(i, j, sp, n_ms, n). n_ms < pm_num_ms sp \<and> uadd (umul i (sp_K sp)) j < umul (sp_dim_sta sp) (sp_K sp))
       SparseSDMemory_whole_rows_step (a, 0, sp, 0, 0) = Inr (i, j, s, n, c)
     \<and> rows_inv sp a (i, j, s, n, c) \<and> (i = sp_dim_sta sp \<or> n = pm_num_ms sp)"
proof -
  let ?b = "\<lambda>(i, j, sp :: 'a SparseSDMemory, n_ms, n :: nat). n_ms < pm_num_ms sp \<and> uadd (umul i (sp_K sp)) j < umul (sp_dim_sta sp) (sp_K sp)"
  have cond: "?b (i, j, s, n, c) \<longleftrightarrow> n < pm_num_ms sp \<and> i < sp_dim_sta sp" if I: "rows_inv sp a (i, j, s, n, c)" for i j s n c
  proof -
    have s: "sp_K s = sp_K sp" "sp_dim_sta s = sp_dim_sta sp" "pm_num_ms s = pm_num_ms sp" using I by (auto simp: rows_inv_def)
    have p: "i < sp_dim_sta sp \<and> j < sp_K sp \<or> i = sp_dim_sta sp \<and> j = 0" using I by (auto simp: rows_inv_def)
    have u: "umul (sp_dim_sta sp) (sp_K sp) = sp_dim_sta sp * sp_K sp" using ok by (intro umul_small) (simp add: sta_ok_def)
    have "i * sp_K sp + j < u32_max \<and> (i * sp_K sp + j < sp_dim_sta sp * sp_K sp \<longleftrightarrow> i < sp_dim_sta sp)"
    proof (cases "i < sp_dim_sta sp")
      case True
      then have "i * sp_K sp + j < sp_dim_sta sp * sp_K sp" using p by (intro index_less) auto
      then show ?thesis using True ok by (simp add: sta_ok_def)
    qed (use p ok in \<open>auto simp: sta_ok_def\<close>)
    then show ?thesis unfolding prod.case s u by (subst umul_small, linarith, subst uadd_small) auto
  qed
  have "\<exists>s'. rwhile (sp_dim_sta sp * sp_K sp) ?b SparseSDMemory_whole_rows_step (a, 0, sp, 0, 0) = Inr s'
      \<and> rows_inv sp a s' \<and> \<not> ?b s'"
  proof (rule rwhile_total [where \<mu> = "\<lambda>s. sp_dim_sta sp * sp_K sp - (fst s * sp_K sp + fst (snd s))"])
    show "rows_inv sp a (a, 0, sp, 0, 0)"
      unfolding rows_inv_def prod.case
    proof (intro conjI exI [of _ "sp_sta_counters_table sp"])
      show "sp = rows_config sp (sp_sta_counters_table sp) (row_vns sp a a)" using s0 by (simp add: row_vns_def)
    qed (use a ok in \<open>auto simp: before_pos_def sta_ok_def\<close>)
    fix s assume I: "rows_inv sp a s" and b: "?b s"
    obtain i j s' n c where s: "s = (i, j, s', n, c)" by (cases s) auto
    note st = rows_step [OF ok I [unfolded s]]
    have c: "n < pm_num_ms sp" "i < sp_dim_sta sp" using b cond I s by blast+
    then have "i * sp_K sp + j < sp_dim_sta sp * sp_K sp" using I s by (intro index_less) (auto simp: rows_inv_def)
    then show "\<exists>s'. SparseSDMemory_whole_rows_step s = Inr s' \<and> rows_inv sp a s'
        \<and> sp_dim_sta sp * sp_K sp - (fst s' * sp_K sp + fst (snd s')) < sp_dim_sta sp * sp_K sp - (fst s * sp_K sp + fst (snd s))"
      using st [OF c] s by fastforce
  qed simp
  then obtain s' where r': "rwhile (sp_dim_sta sp * sp_K sp) ?b SparseSDMemory_whole_rows_step (a, 0, sp, 0, 0) = Inr s'"
    "rows_inv sp a s'" "\<not> ?b s'" by blast
  obtain i j s n c where "s' = (i, j, s, n, c)" by (cases s') auto
  note r = r' [unfolded this]
  have "n \<le> pm_num_ms sp" "i \<le> sp_dim_sta sp" using r(2) by (auto simp: rows_inv_def)
  then have "i = sp_dim_sta sp \<or> n = pm_num_ms sp" using cond [OF r(2)] r(3) by linarith
  then show ?thesis using r by blast
qed


section \<open>The rows of an iteration\<close>

text \<open>Rows \<open>a\<close> to \<open>b\<close> are taken: their virtual neurons, their multipliers, and nothing of the next row that is not empty would fit.\<close>

definition rows_taken :: "'d SparseSDMemory \<Rightarrow> nat \<Rightarrow> nat \<Rightarrow> 'd SparseSDMemory \<Rightarrow> bool" where
  "rows_taken sp a b s \<longleftrightarrow> a < b \<and> b \<le> sp_dim_sta sp \<and> rows_size sp a b \<le> pm_num_ms sp
     \<and> (b < sp_dim_sta sp \<longrightarrow> row_size sp b = 0 \<or> pm_num_ms sp < rows_size sp a (Suc b))
     \<and> (\<exists>t. s = (rows_config sp t (row_vns sp a b))\<lparr>sp_sta_last_j_metadata := sp_K sp\<rparr> \<and> length t = length (sp_sta_counters_table sp)
          \<and> (\<forall>r x. a \<le> r \<longrightarrow> r < b \<longrightarrow> x < sp_K sp \<longrightarrow> sta_set sp r x \<longrightarrow> t ! sta_ix sp r x = ms_of sp a r x))"

lemma remaining_spare:
  assumes "sta_ok sp" "spare_row sp" shows "\<exists>n. SparseSDMemory_remaining_values (sp_dim_sta sp) j sp = Inr n"
proof -
  have "\<exists>n. rfold (\<lambda>r n. rbind (sta_bit sp (sp_dim_sta sp) r) (\<lambda>b. Inr (if b then n + 1 else n))) [j..<sp_K sp] 0 = Inr n \<and> True"
  proof (rule rfold_total [where I = "\<lambda>_ _. True"])
    fix k n assume "k < length [j..<sp_K sp]"
    then have k: "j + k < sp_K sp" "[j..<sp_K sp] ! k = j + k" by auto
    obtain b where "sta_bit sp (sp_dim_sta sp) ([j..<sp_K sp] ! k) = Inr b" using sta_bit_spare [OF assms k(1)] k(2) by metis
    then show "\<exists>n'. rbind (sta_bit sp (sp_dim_sta sp) ([j..<sp_K sp] ! k)) (\<lambda>b. Inr (if b then n + 1 else n)) = Inr n' \<and> True" by simp
  qed simp
  then show ?thesis by (simp add: SparseSDMemory_remaining_values_def)
qed

lemma remaining_config [simp]: "SparseSDMemory_remaining_values i j (rows_config sp t vs) = SparseSDMemory_remaining_values i j sp"
  by (simp add: SparseSDMemory_remaining_values_def)

lemma row_vns_nonempty: "a < b \<Longrightarrow> 0 < row_size sp a \<Longrightarrow> row_vns sp a b \<noteq> []"
  by (auto simp: row_vns_def filter_empty_conv)

lemma whole_rows_ok:
  assumes ok: "sta_ok sp" and a: "a = sp_sta_current_index_metadata sp" "a < sp_dim_sta sp"
    and s0: "sp = rows_config sp (sp_sta_counters_table sp) []" and spare: "spare_row sp"
    and fits: "0 < row_size sp a" "row_size sp a \<le> pm_num_ms sp"
  shows "\<exists>b s. SparseSDMemory_whole_rows sp = Inr s \<and> rows_taken sp a b s"
proof -
  obtain i j s n c where r: "rwhile (sp_dim_sta sp * sp_K sp)
       (\<lambda>(i, j, sp, n_ms, n). n_ms < pm_num_ms sp \<and> uadd (umul i (sp_K sp)) j < umul (sp_dim_sta sp) (sp_K sp))
       SparseSDMemory_whole_rows_step (a, 0, sp, 0, 0) = Inr (i, j, s, n, c)"
    and I: "rows_inv sp a (i, j, s, n, c)" and e: "i = sp_dim_sta sp \<or> n = pm_num_ms sp" using rows_loop [OF ok a(2) s0] by blast
  obtain t where t: "s = rows_config sp t (row_vns sp a i)" "length t = length (sp_sta_counters_table sp)"
    "\<And>r x. a \<le> r \<Longrightarrow> r < sp_dim_sta sp \<Longrightarrow> x < sp_K sp \<Longrightarrow> before_pos r x i j \<Longrightarrow> sta_set sp r x \<Longrightarrow> t ! sta_ix sp r x = ms_of sp a r x"
    using I unfolding rows_inv_def by auto
  have v: "a \<le> i" "i \<le> sp_dim_sta sp" "j < sp_K sp" "n = rows_size sp a i + ones sp i j" "n \<le> pm_num_ms sp" "c = ones sp i j"
    using I ok unfolding rows_inv_def by (auto simp: sta_ok_def)
  have w: "SparseSDMemory_whole_rows sp = rbind (SparseSDMemory_last_row i j c s) (\<lambda>sp.
     if length (sp_configurationVNs sp) = 0 then SparseSDMemory_set_last i j (SparseSDMemory_push_vn c False sp)
     else Inr (sp\<lparr>sp_sta_last_j_metadata := sp_K sp\<rparr>))"
    by (simp only: SparseSDMemory_whole_rows_def a(1) [symmetric] r rbind_Inr prod.case)
  have tab: "t ! sta_ix sp r x = ms_of sp a r x" if "a \<le> r" "r < i" "x < sp_K sp" "sta_set sp r x" for r x
    using t(3) that v(2) by (simp add: before_pos_def)
  show ?thesis
  proof (cases "i = sp_dim_sta sp")
    case True
    then have j: "j = 0" "c = 0" "n = rows_size sp a i" using I by (auto simp: rows_inv_def)
    have vs: "row_vns sp a i \<noteq> []" using row_vns_nonempty [of a i sp] a(2) True fits(1) by simp
    obtain m where "SparseSDMemory_remaining_values i j sp = Inr m" using remaining_spare [OF ok spare] True by blast
    then have "SparseSDMemory_whole_rows sp = Inr ((rows_config sp t (row_vns sp a i))\<lparr>sp_sta_last_j_metadata := sp_K sp\<rparr>)"
      using vs j v(3) by (simp add: w SparseSDMemory_last_row_def t(1))
    moreover have "rows_taken sp a i ((rows_config sp t (row_vns sp a i))\<lparr>sp_sta_last_j_metadata := sp_K sp\<rparr>)"
      unfolding rows_taken_def using True a(2) v(5) j(3) t(2) tab by auto
    ultimately show ?thesis by blast
  next
    case False
    then have i: "i < sp_dim_sta sp" and full: "n = pm_num_ms sp" using e v(2) by simp_all
    have le: "ones sp i j \<le> row_size sp i" using ones_mono [of j "sp_K sp"] v(3) by (simp add: row_size_def)
    have rem: "SparseSDMemory_remaining_values i j sp = Inr (row_size sp i - ones sp i j)" using remaining_ok [OF ok i] v(3) by simp
    have last: "t ! sta_ix sp r x = ms_of sp a r x"
      if d: "ones sp i j = row_size sp i" and p: "a \<le> r" "r < Suc i" "x < sp_K sp" "sta_set sp r x" for r x
    proof (cases "r < i \<or> x < j")
      case True
      then have "before_pos r x i j" using p(2) by (auto simp: before_pos_def)
      then show ?thesis using t(3) p i by simp
    next
      case False
      then have "ones sp i j < ones sp i (Suc x)" using p ones_mono [of j x sp i] by (auto simp: ones_Suc less_Suc_eq)
      also have "\<dots> \<le> row_size sp i" using ones_mono [of "Suc x" "sp_K sp"] p(3) by (simp add: row_size_def)
      finally show ?thesis using d by simp
    qed
    show ?thesis
    proof (cases "ones sp i j = row_size sp i \<and> 0 < c")
      case True
      then have d: "ones sp i j = row_size sp i" "0 < row_size sp i" using v(6) by simp_all
      have sz: "rows_size sp a (Suc i) = pm_num_ms sp" using rows_size_Suc [OF v(1), of sp] v(4) full d(1) by simp
      have vs: "row_vns sp a (Suc i) = row_vns sp a i @ [\<lparr>sv_size = c, sv_folding = False\<rparr>]" using row_vns_Suc [OF v(1), of sp] d v(6) by simp
      have "SparseSDMemory_whole_rows sp = Inr ((rows_config sp t (row_vns sp a (Suc i)))\<lparr>sp_sta_last_j_metadata := sp_K sp\<rparr>)"
      proof (cases "row_vns sp a i = []")
        case True
        then show ?thesis using rem d v(3) vs by (simp add: w SparseSDMemory_last_row_def t(1) SparseSDMemory_set_last_def)
      next
        case False
        then show ?thesis using rem d v(3,6) vs by (simp add: w SparseSDMemory_last_row_def t(1))
      qed
      moreover have "rows_taken sp a (Suc i) ((rows_config sp t (row_vns sp a (Suc i)))\<lparr>sp_sta_last_j_metadata := sp_K sp\<rparr>)"
      proof -
        have "pm_num_ms sp < rows_size sp a (Suc (Suc i))" if "row_size sp (Suc i) \<noteq> 0" using that sz rows_size_Suc [of a "Suc i" sp] v(1) by simp
        then show ?thesis unfolding rows_taken_def using i v(1) sz t(2) last [OF d(1)] by auto
      qed
      ultimately show ?thesis by blast
    next
      case no: False
      have ai: "a \<noteq> i"
      proof
        assume e: "a = i"
        then have "ones sp i j = row_size sp i" using v(4) full fits(2) le by simp
        then show False using no fits(1) e v(6) by simp
      qed
      then have vs: "row_vns sp a i \<noteq> []" using row_vns_nonempty [of a i sp] v(1) fits(1) by simp
      have "SparseSDMemory_whole_rows sp = Inr ((rows_config sp t (row_vns sp a i))\<lparr>sp_sta_last_j_metadata := sp_K sp\<rparr>)"
        using rem no le v(3,6) vs by (auto simp: w SparseSDMemory_last_row_def t(1))
      moreover have "rows_taken sp a i ((rows_config sp t (row_vns sp a i))\<lparr>sp_sta_last_j_metadata := sp_K sp\<rparr>)"
      proof -
        have "pm_num_ms sp < rows_size sp a (Suc i)" if "row_size sp i \<noteq> 0"
          using that no v(4,6) full le rows_size_Suc [OF v(1), of sp] by (cases "c = 0") auto
        moreover have "rows_size sp a i \<le> pm_num_ms sp" using v(4,5) by simp
        ultimately show ?thesis unfolding rows_taken_def using i ai v(1) t(2) tab by auto
      qed
      ultimately show ?thesis by blast
    qed
  qed
qed

section \<open>The read past the bitmap\<close>

lemma remaining_beyond:
  assumes ok: "sta_ok sp" and len: "length (sp_STA_metadata sp) = sp_dim_sta sp * sp_K sp"
  shows "SparseSDMemory_remaining_values (sp_dim_sta sp) 0 sp = Inl OutOfBounds"
proof -
  let ?f = "\<lambda>r n :: nat. rbind (sta_bit sp (sp_dim_sta sp) r) (\<lambda>b. Inr (if b then n + 1 else n))"
  have inr: "rfold ?f rs n \<noteq> Inl e" if "e \<noteq> OutOfBounds" for rs n e
  proof (induction rs arbitrary: n)
    case (Cons r rs)
    then show ?case using that by (cases "sta_index sp (sp_dim_sta sp) r < length (sp_STA_metadata sp)") (auto simp: sta_bit_def)
  qed simp
  have K: "0 < sp_K sp" using ok by (simp add: sta_ok_def)
  define x where "x = (if sp_STA_DIST_VECTOR sp = sp_K sp \<and> sp_STA_DIST_ELEM sp = 1 then 0 else sp_K sp - 1)"
  have x: "x < sp_K sp" using K by (simp add: x_def)
  have "sp_dim_sta sp * sp_K sp \<le> sta_ix sp (sp_dim_sta sp) x"
  proof (cases "sp_STA_DIST_VECTOR sp = sp_K sp \<and> sp_STA_DIST_ELEM sp = 1")
    case False
    then have d: "sp_STA_DIST_VECTOR sp = 1" "sp_STA_DIST_ELEM sp = sp_dim_sta sp" using ok by (auto simp: sta_ok_def)
    have "sp_dim_sta sp + (sp_K sp - 1) * sp_dim_sta sp = sp_K sp * sp_dim_sta sp" using K by (cases "sp_K sp") simp_all
    then show ?thesis using False d by (simp add: sta_ix_def x_def mult.commute)
  qed (simp add: sta_ix_def)
  then have bad: "sta_bit sp (sp_dim_sta sp) x = Inl OutOfBounds"
    using sta_index_ix [OF ok order_refl x] len by (simp add: sta_bit_def)
  have "rfold ?f [0..<sp_K sp] 0 \<noteq> Inr m" for m
  proof
    assume "rfold ?f [0..<sp_K sp] 0 = Inr m"
    moreover have "[0..<sp_K sp] = [0..<x] @ x # [Suc x..<sp_K sp]"
      using x upt_add_eq_append [of 0 x "sp_K sp - x"] by (simp add: upt_conv_Cons)
    ultimately show False using bad by (auto simp: rfold_append rbind_eq_Inr)
  qed
  then obtain e where e: "rfold ?f [0..<sp_K sp] 0 = Inl e" by (cases "rfold ?f [0..<sp_K sp] 0") auto
  then have "e = OutOfBounds" using inr by blast
  then show ?thesis using e unfolding SparseSDMemory_remaining_values_def by simp
qed

lemma whole_rows_overread:
  assumes ok: "sta_ok sp" and a: "a = sp_sta_current_index_metadata sp" "a < sp_dim_sta sp"
    and s0: "sp = rows_config sp (sp_sta_counters_table sp) []" and len: "length (sp_STA_metadata sp) = sp_dim_sta sp * sp_K sp"
    and fits: "rows_size sp a (sp_dim_sta sp) < pm_num_ms sp"
  shows "SparseSDMemory_whole_rows sp = Inl OutOfBounds"
proof -
  obtain i j s n c where r: "rwhile (sp_dim_sta sp * sp_K sp)
       (\<lambda>(i, j, sp, n_ms, n). n_ms < pm_num_ms sp \<and> uadd (umul i (sp_K sp)) j < umul (sp_dim_sta sp) (sp_K sp))
       SparseSDMemory_whole_rows_step (a, 0, sp, 0, 0) = Inr (i, j, s, n, c)"
    and I: "rows_inv sp a (i, j, s, n, c)" and e: "i = sp_dim_sta sp \<or> n = pm_num_ms sp" using rows_loop [OF ok a(2) s0] by blast
  obtain t where t: "s = rows_config sp t (row_vns sp a i)" using I unfolding rows_inv_def by auto
  have v: "a \<le> i" "i \<le> sp_dim_sta sp" "j < sp_K sp" "n = rows_size sp a i + ones sp i j"
    using I ok unfolding rows_inv_def by (auto simp: sta_ok_def)
  have i: "i = sp_dim_sta sp"
  proof (rule ccontr)
    assume ne: "i \<noteq> sp_dim_sta sp"
    have "ones sp i j \<le> row_size sp i" using ones_mono [of j "sp_K sp"] v(3) by (simp add: row_size_def)
    then have "n \<le> rows_size sp a (Suc i)" using v(4) rows_size_Suc [OF v(1), of sp] by simp
    also have "\<dots> \<le> rows_size sp a (sp_dim_sta sp)" using ne v(1,2) by (intro rows_size_mono) simp_all
    finally show False using e ne fits by simp
  qed
  then have j: "j = 0" using I by (auto simp: rows_inv_def)
  have w: "SparseSDMemory_whole_rows sp = rbind (SparseSDMemory_last_row i j c s) (\<lambda>sp.
     if length (sp_configurationVNs sp) = 0 then SparseSDMemory_set_last i j (SparseSDMemory_push_vn c False sp)
     else Inr (sp\<lparr>sp_sta_last_j_metadata := sp_K sp\<rparr>))"
    by (simp only: SparseSDMemory_whole_rows_def a(1) [symmetric] r rbind_Inr prod.case)
  show ?thesis
    using remaining_beyond [OF ok len] ok by (simp add: w i j t SparseSDMemory_last_row_def SparseSDMemory_set_last_def sta_ok_def)
qed

end
