(* ===== verification/PortFeed.thy ===== *)
theory PortFeed
  imports MemPorts
begin

text \<open>
  A package that a controller sends to multipliers anywhere in the array is split over the ports of
  the distribution network: what waits for a multiplier in the fifo of its port.
\<close>

section \<open>What waits for a multiplier\<close>

definition for_ms :: "nat \<Rightarrow> 'd DataPackage \<Rightarrow> bool" where
  "for_ms x p = (case p_traffic_type p of
       BROADCAST \<Rightarrow> True
     | UNICAST \<Rightarrow> p_unicast_dest p = x
     | MULTICAST \<Rightarrow> (case p_dests p of None \<Rightarrow> False | Some ds \<Rightarrow> x < length ds \<and> ds ! x))"

text \<open>The packages for multiplier \<open>d\<close> in the fifos of operands, each with its kind and value.\<close>

definition queued :: "('d, 'z) ported \<Rightarrow> nat \<Rightarrow> (operand_t \<times> 'd) list" where
  "queued m d = map (\<lambda>p. (p_data_type p, p_data p))
     (filter (for_ms (d mod pm_ms_size_per_input_port m)) (f_fifo (pm_input_fifos m ! (d div pm_ms_size_per_input_port m))))"

definition ports_ok :: "('d, 'z) ported \<Rightarrow> bool" where
  "ports_ok m \<longleftrightarrow> 0 < pm_ms_size_per_input_port m \<and> pm_num_ms m = pm_n_read_ports m * pm_ms_size_per_input_port m
     \<and> length (pm_input_fifos m) = pm_n_read_ports m \<and> pm_num_ms m < u32_max"

text \<open>\<open>m'\<close> is \<open>m\<close> with more in the fifos of operands: \<open>f d\<close> for multiplier \<open>d\<close>.\<close>

definition feeds :: "(nat \<Rightarrow> (operand_t \<times> 'd) list) \<Rightarrow> ('d, 'z) ported \<Rightarrow> ('d, 'z) ported \<Rightarrow> bool" where
  "feeds f m m' \<longleftrightarrow> m' = m\<lparr>pm_input_fifos := pm_input_fifos m'\<rparr> \<and> length (pm_input_fifos m') = length (pm_input_fifos m)
     \<and> (\<forall>d < pm_num_ms m. queued m' d = queued m d @ f d)"

lemma queued_push:
  assumes "i < length (pm_input_fifos m)"
  shows "queued (m\<lparr>pm_input_fifos := (pm_input_fifos m)[i := Fifo_push p (pm_input_fifos m ! i)]\<rparr>) d =
    queued m d @ (if d div pm_ms_size_per_input_port m = i \<and> for_ms (d mod pm_ms_size_per_input_port m) p then [(p_data_type p, p_data p)] else [])"
  using assms by (cases "d div pm_ms_size_per_input_port m = i") (simp_all add: queued_def)

lemma ports_okD:
  assumes "ports_ok m" "d < pm_num_ms m"
  shows "d div pm_ms_size_per_input_port m < pm_n_read_ports m" "d div pm_ms_size_per_input_port m < length (pm_input_fifos m)"
    "d mod pm_ms_size_per_input_port m < pm_ms_size_per_input_port m"
proof -
  show "d div pm_ms_size_per_input_port m < pm_n_read_ports m" using assms by (simp add: ports_ok_def less_mult_imp_div_less)
  then show "d div pm_ms_size_per_input_port m < length (pm_input_fifos m)" using assms by (simp add: ports_ok_def)
  show "d mod pm_ms_size_per_input_port m < pm_ms_size_per_input_port m" using assms by (simp add: ports_ok_def)
qed

section \<open>Unicast\<close>

lemma send_unicast:
  assumes ok: "ports_ok m" and p: "p_traffic_type p = UNICAST" "p_data_type p \<noteq> PSUM" "p_unicast_dest p < pm_num_ms m"
  shows "\<exists>m'. mem_sendPackageToInputFifos p m = Inr m'
     \<and> feeds (\<lambda>d. if d = p_unicast_dest p then [(p_data_type p, p_data p)] else []) m m'"
proof -
  let ?per = "pm_ms_size_per_input_port m" and ?e = "p_unicast_dest p"
  let ?i = "?e div ?per" and ?n = "DataPackage_setIterationK (p_iteration_k p)
     ((DataPackage_traffic (p_size_package p) (p_data p) (p_data_type p) (?e div ?per) UNICAST)\<lparr>p_unicast_dest := ?e mod ?per\<rparr>)"
  have i: "?i < length (pm_input_fifos m)" "0 < ?per" using ports_okD [OF ok p(3)] ok by (simp_all add: ports_ok_def)
  let ?m = "m\<lparr>pm_input_fifos := (pm_input_fifos m)[?i := Fifo_push ?n (pm_input_fifos m ! ?i)]\<rparr>"
  have r: "mem_sendPackageToInputFifos p m = Inr ?m"
    using p i by (simp add: mem_sendPackageToInputFifos_def mem_push_port_def DataPackage_unicast_def Let_def)
  have n: "for_ms x ?n \<longleftrightarrow> ?e mod ?per = x" "p_data_type ?n = p_data_type p" "p_data ?n = p_data p" for x
    by (simp_all add: for_ms_def DataPackage_setIterationK_def DataPackage_traffic_def DataPackage_general_def)
  have "d div ?per = ?i \<and> ?e mod ?per = d mod ?per \<longleftrightarrow> d = ?e" for d by (metis div_mult_mod_eq)
  then have "feeds (\<lambda>d. if d = ?e then [(p_data_type p, p_data p)] else []) m ?m"
    unfolding feeds_def by (simp add: queued_push [OF i(1)] n)
  then show ?thesis using r by blast
qed

section \<open>Multicast\<close>

lemma local_dests:
  assumes ok: "ports_ok m" and l: "length dests = pm_num_ms m" and i: "i < pm_n_read_ports m"
  shows "rfold (\<lambda>j local_dest. rbind (rnth dests (umul i (pm_ms_size_per_input_port m) + j)) (\<lambda>b. Inr (local_dest @ [b])))
     [0..<pm_ms_size_per_input_port m] [] = Inr (map (\<lambda>j. dests ! (i * pm_ms_size_per_input_port m + j)) [0..<pm_ms_size_per_input_port m])"
proof -
  let ?per = "pm_ms_size_per_input_port m"
  have n: "pm_num_ms m = pm_n_read_ports m * ?per" "pm_num_ms m < u32_max" "0 < ?per" using ok by (simp_all add: ports_ok_def)
  have less: "i * ?per + j < pm_num_ms m" if "j < ?per" for j using index_less [OF i that] n(1) by simp
  have u: "umul i ?per = i * ?per" using less [OF n(3)] n(2) by (simp add: umul_small)
  have "rfold (\<lambda>j local_dest. rbind (rnth dests (umul i ?per + j)) (\<lambda>b. Inr (local_dest @ [b]))) [0..<k] [] =
      Inr (map (\<lambda>j. dests ! (i * ?per + j)) [0..<k])" if "k \<le> ?per" for k
    using that by (induction k) (simp_all add: rfold_append u less l)
  then show ?thesis by simp
qed

lemma send_multicast:
  assumes ok: "ports_ok m" and p: "p_traffic_type p = MULTICAST" "p_data_type p \<noteq> PSUM" "p_dests p = Some dests"
    and l: "length dests = pm_num_ms m"
  shows "\<exists>m'. mem_sendPackageToInputFifos p m = Inr m'
     \<and> feeds (\<lambda>d. if dests ! d then [(p_data_type p, p_data p)] else []) m m'"
proof -
  let ?per = "pm_ms_size_per_input_port m"
  let ?loc = "\<lambda>i. map (\<lambda>j. dests ! (i * ?per + j)) [0..<?per]"
  let ?n = "\<lambda>i. DataPackage_setIterationK (p_iteration_k p)
     (DataPackage_multicast (p_size_package p) (p_data p) (p_data_type p) i MULTICAST (?loc i) ?per)"
  let ?f = "\<lambda>i s. rderef (p_dests p) (\<lambda>dest. rbind (rfold (\<lambda>j local_dest. rbind (rnth dest (umul i ?per + j)) (\<lambda>b. Inr (local_dest @ [b]))) [0..<?per] [])
         (\<lambda>local_dest. if True \<in> set local_dest then mem_push_port (p_data_type p) i
            (DataPackage_setIterationK (p_iteration_k p) (DataPackage_multicast (p_size_package p) (p_data p) (p_data_type p) i MULTICAST local_dest ?per)) s
            else Inr s))"
  let ?I = "\<lambda>k s. s = m\<lparr>pm_input_fifos := pm_input_fifos s\<rparr> \<and> length (pm_input_fifos s) = length (pm_input_fifos m)
      \<and> (\<forall>d < pm_num_ms m. queued s d = queued m d @ (if d div ?per < k \<and> dests ! d then [(p_data_type p, p_data p)] else []))"
  have nreads: "pm_n_read_ports m = length (pm_input_fifos m)" using ok by (simp add: ports_ok_def)
  have n: "for_ms x (?n i) \<longleftrightarrow> dests ! (i * ?per + x)" "p_data_type (?n i) = p_data_type p" "p_data (?n i) = p_data p" if "x < ?per" for x i
    using that by (simp_all add: for_ms_def DataPackage_setIterationK_def DataPackage_multicast_def DataPackage_traffic_def DataPackage_general_def)
  have step: "\<exists>s'. ?f k s = Inr s' \<and> ?I (Suc k) s'" if k: "k < pm_n_read_ports m" and I: "?I k s" for k s
  proof -
    have s: "s = m\<lparr>pm_input_fifos := pm_input_fifos s\<rparr>" "length (pm_input_fifos s) = length (pm_input_fifos m)" using I by blast+
    have per: "pm_ms_size_per_input_port s = ?per" using arg_cong [OF s(1), of pm_ms_size_per_input_port] by simp
    have q: "queued s d = queued m d @ (if d div ?per < k \<and> dests ! d then [(p_data_type p, p_data p)] else [])" if "d < pm_num_ms m" for d
      using I that by blast
    have dv: "d = d div ?per * ?per + d mod ?per" for d by simp
    show ?thesis
    proof (cases "True \<in> set (?loc k)")
      case True
      let ?s = "s\<lparr>pm_input_fifos := (pm_input_fifos s)[k := Fifo_push (?n k) (pm_input_fifos s ! k)]\<rparr>"
      have "k < length (pm_input_fifos s)" using k s nreads by simp
      then have r: "?f k s = Inr ?s" using True p local_dests [OF ok l k] by (simp add: mem_push_port_def)
      have "queued ?s d = queued m d @ (if d div ?per < Suc k \<and> dests ! d then [(p_data_type p, p_data p)] else [])" if d: "d < pm_num_ms m" for d
        using queued_push [OF \<open>k < length (pm_input_fifos s)\<close>, of "?n k" d] n [OF ports_okD(3) [OF ok d], of k] dv [of d] unfolding per q [OF d]
        by (cases "d div ?per = k") auto
      moreover have "?s = m\<lparr>pm_input_fifos := pm_input_fifos ?s\<rparr>" using arg_cong [OF s(1), of "pm_input_fifos_update (\<lambda>_. pm_input_fifos ?s)"] by simp
      moreover have "length (pm_input_fifos ?s) = length (pm_input_fifos m)" using s(2) by simp
      ultimately show ?thesis using r by blast
    next
      case False
      then have r: "?f k s = Inr s" using p local_dests [OF ok l k] by simp
      have "dests ! d \<in> set (?loc k)" if "d < pm_num_ms m" "d div ?per = k" for d
        unfolding that(2) [symmetric] set_map using ports_okD(3) [OF ok that(1)] by (intro image_eqI [of _ _ "d mod ?per"]) simp_all
      then have "\<not> dests ! d" if "d < pm_num_ms m" "d div ?per = k" for d using False that by metis
      then have "queued s d = queued m d @ (if d div ?per < Suc k \<and> dests ! d then [(p_data_type p, p_data p)] else [])" if "d < pm_num_ms m" for d
        using q [OF that] that by (auto simp: less_Suc_eq)
      then show ?thesis using r s by blast
    qed
  qed
  have "\<exists>s'. rfold ?f [0..<pm_n_read_ports m] m = Inr s' \<and> ?I (pm_n_read_ports m) s'"
  proof (rule rfold_upt_total [where I = ?I])
    show "?I 0 m" by simp
  qed (rule step)
  then obtain s' where s': "rfold ?f [0..<pm_n_read_ports m] m = Inr s'" "?I (pm_n_read_ports m) s'" by blast
  have "mem_sendPackageToInputFifos p m = rfold ?f [0..<pm_n_read_ports m] m" using p by (simp add: mem_sendPackageToInputFifos_def Let_def cong: if_cong)
  moreover have "feeds (\<lambda>d. if dests ! d then [(p_data_type p, p_data p)] else []) m s'"
    unfolding feeds_def using s'(2) ports_okD(1) [OF ok] by auto
  ultimately show ?thesis using s'(1) by metis
qed

end
