(* ===== verification/SparseFeed.thy ===== *)
theory SparseFeed
  imports SparseRows PortFeed
begin

text \<open>
  The operands of an iteration of the sparse controller: what waits for every multiplier when the
  stationary rows and all rows of the streaming matrix have been distributed.
\<close>

section \<open>The matrices that the compressed arrays stand for\<close>

definition sta_val :: "'d::zero SparseSDMemory \<Rightarrow> nat \<Rightarrow> nat \<Rightarrow> 'd" where
  "sta_val sp r x = (if sta_set sp r x then sp_STA_address sp ! (rows_size sp 0 r + ones sp r x) else 0)"

definition str_ix :: "'d SparseSDMemory \<Rightarrow> nat \<Rightarrow> nat \<Rightarrow> nat" where
  "str_ix sp i j = i * sp_STR_DIST_VECTOR sp + j * sp_STR_DIST_ELEM sp"

definition str_set :: "'d SparseSDMemory \<Rightarrow> nat \<Rightarrow> nat \<Rightarrow> bool" where
  "str_set sp i j \<longleftrightarrow> sp_STR_metadata sp ! str_ix sp i j \<noteq> 0"

definition str_positions :: "'d SparseSDMemory \<Rightarrow> (nat \<times> nat) list" where
  "str_positions sp = List.product [0..<sp_dim_str sp] [0..<sp_K sp]"

definition str_rank :: "'d SparseSDMemory \<Rightarrow> nat \<Rightarrow> nat" where
  "str_rank sp k = length (filter (\<lambda>(i, j). str_set sp i j) (take k (str_positions sp)))"

definition str_val :: "'d::zero SparseSDMemory \<Rightarrow> nat \<Rightarrow> nat \<Rightarrow> 'd" where
  "str_val sp n x = (if str_set sp n x then sp_STR_address sp ! str_rank sp (n * sp_K sp + x) else 0)"

definition str_layout :: "'d SparseSDMemory \<Rightarrow> bool" where
  "str_layout sp \<longleftrightarrow> sp_STR_DIST_VECTOR sp = sp_K sp \<and> sp_STR_DIST_ELEM sp = 1 \<or> sp_STR_DIST_VECTOR sp = 1 \<and> sp_STR_DIST_ELEM sp = sp_dim_str sp"

definition str_ok :: "'d SparseSDMemory \<Rightarrow> bool" where
  "str_ok sp \<longleftrightarrow> sp_dim_str sp * sp_K sp < u32_max \<and> sp_dim_str sp < u32_max
     \<and> length (sp_str_counters_table sp) = sp_dim_str sp * sp_K sp \<and> sp_dim_str sp * sp_K sp \<le> length (sp_STR_metadata sp)
     \<and> str_rank sp (sp_dim_str sp * sp_K sp) \<le> length (sp_STR_address sp)
     \<and> str_layout sp"

lemma layout_less:
  assumes "str_layout sp" "i < sp_dim_str sp" "j < sp_K sp" shows "str_ix sp i j < sp_dim_str sp * sp_K sp"
proof -
  consider "sp_STR_DIST_VECTOR sp = sp_K sp" "sp_STR_DIST_ELEM sp = 1" | "sp_STR_DIST_VECTOR sp = 1" "sp_STR_DIST_ELEM sp = sp_dim_str sp"
    using assms(1) unfolding str_layout_def by blast
  then show ?thesis
  proof cases
    case 1
    then show ?thesis using index_less [of i "sp_dim_str sp" j "sp_K sp"] assms(2,3) by (simp add: str_ix_def)
  next
    case 2
    then show ?thesis using index_less [of j "sp_K sp" i "sp_dim_str sp"] assms(2,3) by (simp add: str_ix_def algebra_simps)
  qed
qed

lemma layout_inj:
  assumes "str_layout sp" "i < sp_dim_str sp" "j < sp_K sp" "i' < sp_dim_str sp" "j' < sp_K sp"
  shows "str_ix sp i j = str_ix sp i' j' \<longleftrightarrow> i = i' \<and> j = j'"
proof -
  have e: "a * n + b = a' * n + b' \<longleftrightarrow> a = a' \<and> b = b'" if "b < n" "b' < n" for a b a' b' n :: nat
    using that by (metis add.commute div_mult_self1 div_less add.right_neutral add_left_cancel less_nat_zero_code add_cancel_right_left)
  consider "sp_STR_DIST_VECTOR sp = sp_K sp" "sp_STR_DIST_ELEM sp = 1" | "sp_STR_DIST_VECTOR sp = 1" "sp_STR_DIST_ELEM sp = sp_dim_str sp"
    using assms(1) unfolding str_layout_def by blast
  then show ?thesis
  proof cases
    case 1
    then show ?thesis using e [of j "sp_K sp" j' i i'] assms(3,5) by (simp add: str_ix_def)
  next
    case 2
    then show ?thesis using e [of i "sp_dim_str sp" i' j j'] assms(2,4) by (auto simp: str_ix_def add.commute)
  qed
qed

lemma str_ok_layout: "str_ok sp \<Longrightarrow> str_layout sp"
  by (simp add: str_ok_def)

lemmas str_ix_less = layout_less [OF str_ok_layout]
lemmas str_ix_inj = layout_inj [OF str_ok_layout]

lemma str_index_ix:
  assumes "str_ok sp" "i < sp_dim_str sp" "j < sp_K sp" shows "str_index sp i j = str_ix sp i j"
proof -
  have "str_ix sp i j < u32_max" using str_ix_less [OF assms] assms(1) by (simp add: str_ok_def)
  then have b: "i * sp_STR_DIST_VECTOR sp + j * sp_STR_DIST_ELEM sp < u32_max" by (simp add: str_ix_def)
  then show ?thesis unfolding str_index_def str_ix_def by (subst umul_small, linarith, subst umul_small, linarith, rule uadd_small)
qed

lemma str_bit_ok:
  assumes "str_ok sp" "i < sp_dim_str sp" "j < sp_K sp" shows "str_bit sp i j = Inr (str_set sp i j)"
proof -
  have "str_ix sp i j < length (sp_STR_metadata sp)" using str_ix_less [OF assms] assms(1) by (simp add: str_ok_def)
  then show ?thesis using str_index_ix [OF assms] by (simp add: str_bit_def str_set_def)
qed

section \<open>The table of sources\<close>

lemma str_positions_nth:
  assumes "i < sp_dim_str sp" "j < sp_K sp"
  shows "i * sp_K sp + j < length (str_positions sp)" "str_positions sp ! (i * sp_K sp + j) = (i, j)"
proof -
  show l: "i * sp_K sp + j < length (str_positions sp)" using index_less [OF assms] by (simp add: str_positions_def)
  show "str_positions sp ! (i * sp_K sp + j) = (i, j)" using l assms by (simp add: str_positions_def product_nth)
qed

definition sources_known :: "'d SparseSDMemory \<Rightarrow> nat list \<Rightarrow> bool" where
  "sources_known sp t \<longleftrightarrow> length t = length (sp_str_counters_table sp)
     \<and> (\<forall>i j. i < sp_dim_str sp \<longrightarrow> j < sp_K sp \<longrightarrow> str_set sp i j \<longrightarrow> t ! str_ix sp i j = str_rank sp (i * sp_K sp + j))"

lemma source_table_ok:
  assumes ok: "str_ok sp"
  shows "\<exists>t n. SparseSDMemory_source_table sp = Inr (sp\<lparr>sp_str_counters_table := t, sp_n_ones_str_matrix := n\<rparr>) \<and> sources_known sp t"
proof -
  let ?ps = "str_positions sp"
  let ?f = "\<lambda>(i, j) (t, source_id). rbind (str_bit sp i j) (\<lambda>b.
         if b then rbind (rupd t (str_index sp i j) source_id) (\<lambda>t. Inr (t, uadd source_id 1)) else Inr (t, source_id))"
  let ?I = "\<lambda>k (t, n). length t = length (sp_str_counters_table sp) \<and> n = str_rank sp k
     \<and> (\<forall>m < k. case ?ps ! m of (i, j) \<Rightarrow> str_set sp i j \<longrightarrow> t ! str_ix sp i j = str_rank sp m)"
  have len: "length ?ps = sp_dim_str sp * sp_K sp" by (simp add: str_positions_def)
  have dist: "distinct ?ps" by (simp add: str_positions_def distinct_product)
  have rank: "str_rank sp k \<le> k" for k unfolding str_rank_def by (rule le_trans [OF length_filter_le]) simp
  have step: "\<exists>s'. ?f (?ps ! k) s = Inr s' \<and> ?I (Suc k) s'" if k: "k < length ?ps" and I: "?I k s" for k s
  proof -
    obtain t n where s: "s = (t, n)" by (cases s)
    obtain i j where p: "?ps ! k = (i, j)" by (cases "?ps ! k")
    then have "(i, j) \<in> set ?ps" using k nth_mem by metis
    then have ij: "i < sp_dim_str sp" "j < sp_K sp" by (auto simp: str_positions_def)
    have ix: "str_ix sp i j < length t" using str_ix_less [OF ok ij] I ok by (simp add: s str_ok_def)
    have r: "str_rank sp (Suc k) = (if str_set sp i j then Suc (str_rank sp k) else str_rank sp k)"
      using k p by (simp add: str_rank_def take_Suc_conv_app_nth)
    have n: "n = str_rank sp k" "n + 1 < u32_max" using I rank [of k] k len ok by (simp_all add: s str_ok_def)
    have old: "case ?ps ! m of (i', j') \<Rightarrow> str_set sp i' j' \<longrightarrow> t[str_ix sp i j := n] ! str_ix sp i' j' = str_rank sp m" if m: "m < k" for m
    proof -
      obtain i' j' where p': "?ps ! m = (i', j')" by (cases "?ps ! m")
      have "(i', j') \<in> set ?ps" using m k p' nth_mem [of m ?ps] by simp
      then have ij': "i' < sp_dim_str sp" "j' < sp_K sp" by (auto simp: str_positions_def)
      have "(i', j') \<noteq> (i, j)" using nth_eq_iff_index_eq [OF dist, of m k] m k p p' by auto
      then have "str_ix sp i' j' \<noteq> str_ix sp i j" using str_ix_inj [OF ok ij' ij] by simp
      moreover have "str_set sp i' j' \<longrightarrow> t ! str_ix sp i' j' = str_rank sp m" using I m p' by (auto simp: s)
      ultimately show ?thesis by (simp add: p')
    qed
    show ?thesis
    proof (cases "str_set sp i j")
      case True
      then have "?f (?ps ! k) s = Inr (t[str_ix sp i j := n], Suc n)" using ij ix n(2) by (simp add: p s str_bit_ok [OF ok] str_index_ix [OF ok] uadd_small)
      moreover have "?I (Suc k) (t[str_ix sp i j := n], Suc n)" using True I ix old r n(1) p by (auto simp: s less_Suc_eq)
      ultimately show ?thesis by blast
    next
      case False
      then have "?f (?ps ! k) s = Inr (t, n)" using ij by (simp add: p s str_bit_ok [OF ok])
      moreover have "?I (Suc k) (t, n)" using False I r p by (auto simp: s less_Suc_eq)
      ultimately show ?thesis by blast
    qed
  qed
  have "\<exists>s'. rfold ?f ?ps (sp_str_counters_table sp, 0) = Inr s' \<and> ?I (length ?ps) s'"
  proof (rule rfold_total [where I = ?I])
    show "?I 0 (sp_str_counters_table sp, 0)" by (simp add: str_rank_def)
  qed (rule step)
  then obtain s' where s': "rfold ?f ?ps (sp_str_counters_table sp, 0) = Inr s'" "?I (length ?ps) s'" by blast
  obtain t n where e: "s' = (t, n)" by (cases s')
  note r = s' [unfolded e]
  have "t ! str_ix sp i j = str_rank sp (i * sp_K sp + j)" if "i < sp_dim_str sp" "j < sp_K sp" "str_set sp i j" for i j
    using r(2) str_positions_nth [OF that(1,2)] that(3) by fastforce
  then have "sources_known sp t" using r(2) by (simp add: sources_known_def)
  moreover have "SparseSDMemory_source_table sp = Inr (sp\<lparr>sp_str_counters_table := t, sp_n_ones_str_matrix := n\<rparr>)"
    using r(1) unfolding str_positions_def by (simp add: SparseSDMemory_source_table_def)
  ultimately show ?thesis by blast
qed

section \<open>The multipliers of a row\<close>

lemma ones_surj: "m < ones sp r j \<Longrightarrow> \<exists>x < j. sta_set sp r x \<and> ones sp r x = m"
  by (induction j) (auto simp: ones_Suc less_Suc_eq split: if_splits)

lemma ones_inj: "sta_set sp r x \<Longrightarrow> sta_set sp r y \<Longrightarrow> ones sp r x = ones sp r y \<Longrightarrow> x = y"
proof (rule ccontr)
  have less: "ones sp r x < ones sp r y" if "sta_set sp r x" "x < y" for x y
    using ones_mono [of "Suc x" y sp r] that by (simp add: ones_Suc)
  assume a: "sta_set sp r x" "sta_set sp r y" "ones sp r x = ones sp r y" "x \<noteq> y"
  then show False using less [of x y] less [of y x] by linarith
qed

lemma ones_less: "sta_set sp r x \<Longrightarrow> x < sp_K sp \<Longrightarrow> ones sp r x < row_size sp r"
  using ones_mono [of "Suc x" "sp_K sp" sp r] by (simp add: ones_Suc row_size_def)

lemma row_of:
  assumes "d < rows_size sp a b" "a \<le> b" shows "\<exists>r. a \<le> r \<and> r < b \<and> rows_size sp a r \<le> d \<and> d < rows_size sp a (Suc r)"
  using assms(2,1)
proof (induction b rule: dec_induct)
  case (step b)
  then show ?case by (cases "d < rows_size sp a b") (auto simp: less_Suc_eq rows_size_Suc)
qed simp

lemma ms_of_row:
  assumes "a \<le> r" "sta_set sp r x" "x < sp_K sp"
  shows "rows_size sp a r \<le> ms_of sp a r x" "ms_of sp a r x < rows_size sp a (Suc r)"
  using ones_less [OF assms(2,3)] rows_size_Suc [OF assms(1), of sp] by (simp_all add: ms_of_def)

lemma ms_of_inj:
  assumes "a \<le> r" "a \<le> r'" "sta_set sp r x" "sta_set sp r' x'" "x < sp_K sp" "x' < sp_K sp" "ms_of sp a r x = ms_of sp a r' x'"
  shows "r = r' \<and> x = x'"
proof -
  have "r = r'"
  proof (rule ccontr)
    assume "r \<noteq> r'"
    then consider "Suc r \<le> r'" | "Suc r' \<le> r" by linarith
    then show False
      using rows_size_mono [of "Suc r" r' a sp] rows_size_mono [of "Suc r'" r a sp] ms_of_row [OF assms(1,3,5)] ms_of_row [OF assms(2,4,6)] assms(1,2,7)
      by cases auto
  qed
  then show ?thesis using assms(3,4,7) ones_inj by (auto simp: ms_of_def)
qed

lemma ms_of_surj:
  assumes "d < rows_size sp a b" "a \<le> b"
  shows "\<exists>r x. a \<le> r \<and> r < b \<and> x < sp_K sp \<and> sta_set sp r x \<and> ms_of sp a r x = d"
proof -
  obtain r where r: "a \<le> r" "r < b" "rows_size sp a r \<le> d" "d < rows_size sp a (Suc r)" using row_of [OF assms] by blast
  then have "d - rows_size sp a r < ones sp r (sp_K sp)" using rows_size_Suc [of a r sp] by (simp add: row_size_def)
  then obtain x where "x < sp_K sp" "sta_set sp r x" "ones sp r x = d - rows_size sp a r" using ones_surj by blast
  then show ?thesis using r by (intro exI [of _ r] exI [of _ x]) (simp add: ms_of_def)
qed


section \<open>The stationary elements\<close>

text \<open>\<open>s'\<close> is \<open>s\<close> with \<open>f d\<close> more for multiplier \<open>d\<close>; beside it only counters differ.\<close>

definition fed :: "(nat \<Rightarrow> (operand_t \<times> 'd) list) \<Rightarrow> 'd SparseSDMemory \<Rightarrow> 'd SparseSDMemory \<Rightarrow> bool" where
  "fed f s s' \<longleftrightarrow> (\<exists>fs ss k. s' = s\<lparr>pm_input_fifos := fs, pm_stats := ss, sp_n_ones_sta_matrix := k\<rparr> \<and> length fs = length (pm_input_fifos s))
     \<and> (\<forall>d < pm_num_ms s. queued s' d = queued s d @ f d)"

lemma fedI:
  "s' = s\<lparr>pm_input_fifos := fs, pm_stats := ss, sp_n_ones_sta_matrix := k\<rparr> \<Longrightarrow> length fs = length (pm_input_fifos s)
     \<Longrightarrow> (\<And>d. d < pm_num_ms s \<Longrightarrow> queued s' d = queued s d @ f d) \<Longrightarrow> fed f s s'"
  unfolding fed_def by blast

lemma fed_same:
  assumes "fed f s s'"
  shows "pm_num_ms s' = pm_num_ms s" "pm_ms_size_per_input_port s' = pm_ms_size_per_input_port s" "pm_n_read_ports s' = pm_n_read_ports s"
    "sp_K s' = sp_K s" "sp_STA_address s' = sp_STA_address s" "sp_STR_address s' = sp_STR_address s"
    "sp_sta_current_index_matrix s' = sp_sta_current_index_matrix s" "sp_configurationVNs s' = sp_configurationVNs s"
    "ports_ok s' = ports_ok s"
  using assms unfolding fed_def ports_ok_def by auto

lemma fed_refl: "fed (\<lambda>_. []) s s"
  by (rule fedI [where fs = "pm_input_fifos s" and ss = "pm_stats s" and k = "sp_n_ones_sta_matrix s"]) simp_all

lemma fed_trans:
  assumes "fed f s s'" "fed g s' s''" shows "fed (\<lambda>d. f d @ g d) s s''"
proof -
  obtain fs ss k where 1: "s' = s\<lparr>pm_input_fifos := fs, pm_stats := ss, sp_n_ones_sta_matrix := k\<rparr>" "length fs = length (pm_input_fifos s)"
    using assms(1) unfolding fed_def by blast
  obtain fs' ss' k' where 2: "s'' = s'\<lparr>pm_input_fifos := fs', pm_stats := ss', sp_n_ones_sta_matrix := k'\<rparr>" "length fs' = length (pm_input_fifos s')"
    using assms(2) unfolding fed_def by blast
  show ?thesis
  proof (rule fedI)
    show "s'' = s\<lparr>pm_input_fifos := fs', pm_stats := ss', sp_n_ones_sta_matrix := k'\<rparr>" using 1 2 by simp
    show "length fs' = length (pm_input_fifos s)" using 1 2 by simp
    show "queued s'' d = queued s d @ f d @ g d" if "d < pm_num_ms s" for d using assms fed_same(1) [OF assms(1)] that by (simp add: fed_def)
  qed
qed

text \<open>From the ports to the controller: the counters are updated before the package is sent.\<close>

lemma fed_send:
  assumes "feeds f (s\<lparr>pm_stats := ss, sp_n_ones_sta_matrix := k\<rparr>) s'" shows "fed f s s'"
proof -
  define fs where "fs = pm_input_fifos s'"
  have e: "s' = s\<lparr>pm_stats := ss, sp_n_ones_sta_matrix := k, pm_input_fifos := fs\<rparr>" "length fs = length (pm_input_fifos s)"
    "\<forall>d < pm_num_ms s. queued s' d = queued (s\<lparr>pm_stats := ss, sp_n_ones_sta_matrix := k\<rparr>) d @ f d"
    using assms unfolding feeds_def fs_def by simp_all
  show ?thesis
  proof (rule fedI)
    show "s' = s\<lparr>pm_input_fifos := fs, pm_stats := ss, sp_n_ones_sta_matrix := k\<rparr>" by (simp add: e(1))
    show "queued s' d = queued s d @ f d" if "d < pm_num_ms s" for d using e(3) that by (simp add: queued_def)
  qed (rule e(2))
qed

lemma send_stationary_ok:
  assumes ok: "ports_ok s" and k: "k < pm_num_ms s" and a: "sp_sta_current_index_matrix s + k < length (sp_STA_address s)" "sp_sta_current_index_matrix s + k < u32_max"
  shows "\<exists>s'. SparseSDMemory_send_stationary x (s, k, k) = Inr (s', Suc k, Suc k)
     \<and> fed (\<lambda>d. if d = k then [(WEIGHT, sp_STA_address s ! (sp_sta_current_index_matrix s + k))] else []) s s'"
proof -
  let ?d = "sp_STA_address s ! (sp_sta_current_index_matrix s + k)"
  let ?s = "s\<lparr>pm_stats := ss_n_SRAM_weight_reads_update (\<lambda>n. n + 1) (pm_stats s), sp_n_ones_sta_matrix := uadd (sp_n_ones_sta_matrix s) 1\<rparr>"
  let ?p = "(DataPackage_traffic sizeof_data_t ?d WEIGHT 0 UNICAST)\<lparr>p_unicast_dest := k\<rparr>"
  have p: "p_traffic_type ?p = UNICAST" "p_data_type ?p = WEIGHT" "p_unicast_dest ?p = k" "p_data ?p = ?d"
    by (simp_all add: DataPackage_traffic_def DataPackage_general_def)
  have "ports_ok ?s" using ok by (simp add: ports_ok_def)
  then obtain s' where s': "mem_sendPackageToInputFifos ?p ?s = Inr s'" "feeds (\<lambda>d. if d = k then [(WEIGHT, ?d)] else []) ?s s'"
    using send_unicast [of ?s ?p, unfolded p] k by auto
  have "Suc k < u32_max" using k ok by (simp add: ports_ok_def)
  then have "SparseSDMemory_send_stationary x (s, k, k) = Inr (s', Suc k, Suc k)"
    using s'(1) a by (simp add: SparseSDMemory_send_stationary_def DataPackage_unicast_def uadd_small)
  then show ?thesis using fed_send [OF s'(2)] by blast
qed

lemma send_stationary_loop:
  assumes "ports_ok s" "k + length xs \<le> pm_num_ms s" "sp_sta_current_index_matrix s + (k + length xs) \<le> length (sp_STA_address s)"
    "sp_sta_current_index_matrix s + (k + length xs) < u32_max"
  shows "\<exists>s'. rfold SparseSDMemory_send_stationary xs (s, k, k) = Inr (s', k + length xs, k + length xs)
     \<and> fed (\<lambda>d. if k \<le> d \<and> d < k + length xs then [(WEIGHT, sp_STA_address s ! (sp_sta_current_index_matrix s + d))] else []) s s'"
  using assms
proof (induction xs arbitrary: s k)
  case Nil
  have "(\<lambda>d. if k \<le> d \<and> d < k then [(WEIGHT, sp_STA_address s ! (sp_sta_current_index_matrix s + d))] else []) = (\<lambda>_. [])" by auto
  then show ?case using fed_refl [of s] by simp
next
  case (Cons x xs)
  obtain s1 where s1: "SparseSDMemory_send_stationary x (s, k, k) = Inr (s1, Suc k, Suc k)"
     "fed (\<lambda>d. if d = k then [(WEIGHT, sp_STA_address s ! (sp_sta_current_index_matrix s + k))] else []) s s1"
    using send_stationary_ok [OF Cons.prems(1), of k x] Cons.prems by auto
  note same = fed_same [OF s1(2)]
  obtain s2 where s2: "rfold SparseSDMemory_send_stationary xs (s1, Suc k, Suc k) = Inr (s2, Suc k + length xs, Suc k + length xs)"
    "fed (\<lambda>d. if Suc k \<le> d \<and> d < Suc k + length xs then [(WEIGHT, sp_STA_address s ! (sp_sta_current_index_matrix s + d))] else []) s1 s2"
    using Cons.IH [of s1 "Suc k", unfolded same] Cons.prems by auto
  have e: "(if d = k then [(WEIGHT, sp_STA_address s ! (sp_sta_current_index_matrix s + k))] else [])
      @ (if Suc k \<le> d \<and> d < Suc k + length xs then [(WEIGHT, sp_STA_address s ! (sp_sta_current_index_matrix s + d))] else [])
      = (if k \<le> d \<and> d < k + length (x # xs) then [(WEIGHT, sp_STA_address s ! (sp_sta_current_index_matrix s + d))] else [])" for d by auto
  show ?case using s1(1) s2(1) fed_trans [OF s1(2) s2(2), unfolded e] by auto
qed

lemma dist_sta_flat:
  fixes s :: "'d SparseSDMemory \<times> nat \<times> nat"
  assumes "\<forall>vn \<in> set vs. \<not> sv_folding vn"
  shows "rfold (\<lambda>vn (sp, dest, sub_address). rfold SparseSDMemory_send_stationary [(if sv_folding vn then 1 else 0)..<SparseVN_get_VN_Size vn]
           (sp, if sv_folding vn then uadd dest 1 else dest, sub_address)) vs s
    = rfold SparseSDMemory_send_stationary (concat (map (\<lambda>vn. [0..<sv_size vn]) vs)) s"
  using assms
proof (induction vs arbitrary: s)
  case (Cons vn vs)
  obtain sp dest sub where s: "s = (sp, dest, sub)" by (cases s)
  show ?case
  proof (cases "rfold SparseSDMemory_send_stationary [0..<sv_size vn] (sp, dest, sub)")
    case (Inr r)
    then show ?thesis using Cons by (simp add: s rfold_append SparseVN_get_VN_Size_def)
  next
    case (Inl e)
    then show ?thesis using Cons.prems by (simp add: s rfold_append SparseVN_get_VN_Size_def)
  qed
qed simp

lemma dist_sta_ok:
  fixes s :: "'d SparseSDMemory"
  assumes ok: "ports_ok s" and vs: "\<forall>vn \<in> set (sp_configurationVNs s). \<not> sv_folding vn" and n: "n = sum_list (map sv_size (sp_configurationVNs s))" "n \<le> pm_num_ms s"
    and a: "sp_sta_current_index_matrix s + n \<le> length (sp_STA_address s)" "sp_sta_current_index_matrix s + n < u32_max"
  shows "\<exists>s'. SparseSDMemory_dist_sta s = Inr s'
     \<and> fed (\<lambda>d. if d < n then [(WEIGHT, sp_STA_address s ! (sp_sta_current_index_matrix s + d))] else []) s s'"
proof -
  have e: "SparseSDMemory_dist_sta s = rbind (rfold SparseSDMemory_send_stationary
      (concat (map (\<lambda>vn. [0..<sv_size vn]) (sp_configurationVNs s))) (s, 0, 0)) (\<lambda>(sp, _). Inr sp)"
    unfolding SparseSDMemory_dist_sta_def by (subst dist_sta_flat [OF vs]) (rule refl)
  have l: "length (concat (map (\<lambda>vn. [0..<sv_size vn]) (sp_configurationVNs s))) = n" by (simp add: n(1) length_concat comp_def)
  show ?thesis
    using send_stationary_loop [OF ok, of 0 "concat (map (\<lambda>vn. [0..<sv_size vn]) (sp_configurationVNs s))", unfolded l] n(2) a by (auto simp: e)
qed

section \<open>A row of the streaming matrix\<close>

text \<open>The state after the configuration: the rows \<open>a\<close> to \<open>b\<close>, none of them empty, with their tables.\<close>

definition loaded_rows :: "nat \<Rightarrow> nat \<Rightarrow> 'd SparseSDMemory \<Rightarrow> bool" where
  "loaded_rows a b s \<longleftrightarrow> sta_ok s \<and> str_ok s \<and> ports_ok s \<and> a < b \<and> b \<le> sp_dim_sta s \<and> rows_size s a b \<le> pm_num_ms s
     \<and> sp_sta_current_index_metadata s = a \<and> sp_sta_current_j_metadata s = 0 \<and> sp_sta_last_j_metadata s = sp_K s
     \<and> length (sp_configurationVNs s) = b - a \<and> sources_known s (sp_str_counters_table s)
     \<and> (\<forall>r x. a \<le> r \<longrightarrow> r < b \<longrightarrow> x < sp_K s \<longrightarrow> sta_set s r x \<longrightarrow> sp_sta_counters_table s ! sta_ix s r x = ms_of s a r x)"

definition goes_to :: "nat \<Rightarrow> nat \<Rightarrow> 'd SparseSDMemory \<Rightarrow> nat \<Rightarrow> nat \<Rightarrow> bool" where
  "goes_to a b s j d \<longleftrightarrow> (\<exists>r. a \<le> r \<and> r < b \<and> sta_set s r j \<and> ms_of s a r j = d)"

lemma destinations_ok:
  assumes L: "loaded_rows a b s" and j: "j < sp_K s"
  shows "SparseSDMemory_destinations j s = Inr (map (goes_to a b s j) [0..<pm_num_ms s])"
proof -
  have l: "sta_ok s" "a < b" "b \<le> sp_dim_sta s" "rows_size s a b \<le> pm_num_ms s" "sp_sta_current_index_metadata s = a" "length (sp_configurationVNs s) = b - a"
    "\<And>r x. a \<le> r \<Longrightarrow> r < b \<Longrightarrow> x < sp_K s \<Longrightarrow> sta_set s r x \<Longrightarrow> sp_sta_counters_table s ! sta_ix s r x = ms_of s a r x"
    using L by (auto simp: loaded_rows_def)
  have u: "uadd a (b - a) = b" using l(1-3) by (subst uadd_small) (auto simp: sta_ok_def)
  let ?f = "\<lambda>i destinations. rbind (sta_bit s i j) (\<lambda>b. if b then rbind (rnth (sp_sta_counters_table s) (sta_index s i j))
      (\<lambda>dest. rupd destinations dest True) else Inr destinations)"
  have step: "rfold ?f [a..<a + k] (replicate (pm_num_ms s) False) = Inr (map (goes_to a (a + k) s j) [0..<pm_num_ms s])" if "a + k \<le> b" for k
    using that
  proof (induction k)
    case 0
    have "\<not> goes_to a a s j d" for d by (simp add: goes_to_def)
    then have "map (goes_to a a s j) [0..<pm_num_ms s] = replicate (pm_num_ms s) False" by (intro nth_equalityI) simp_all
    then show ?case by simp
  next
    case (Suc k)
    let ?r = "a + k"
    have r: "?r < b" "?r < sp_dim_sta s" using Suc.prems l(3) by simp_all
    have go: "goes_to a (a + Suc k) s j d \<longleftrightarrow> goes_to a ?r s j d \<or> sta_set s ?r j \<and> ms_of s a ?r j = d" for d
      unfolding goes_to_def add_Suc_right less_Suc_eq using le_add1 [of a k] by blast
    show ?case
    proof (cases "sta_set s ?r j")
      case True
      have "ms_of s a ?r j < rows_size s a (Suc ?r)" using ms_of_row(2) [OF _ True j] by simp
      also have "\<dots> \<le> rows_size s a b" using r(1) by (intro rows_size_mono) simp_all
      finally have m: "ms_of s a ?r j < pm_num_ms s" using l(4) by simp
      have ix: "sta_index s ?r j < length (sp_sta_counters_table s)" "sp_sta_counters_table s ! sta_index s ?r j = ms_of s a ?r j"
        using sta_index_ix [OF l(1) _ j, of ?r] sta_ix_less [OF l(1) r(2) j] l(1) l(7) [OF _ r(1) j True] r by (simp_all add: sta_ok_def)
      have g': "goes_to a (a + Suc k) s j = (\<lambda>d. goes_to a ?r s j d \<or> ms_of s a ?r j = d)" using True by (intro ext) (simp only: go simp_thms)
      have "(map (goes_to a ?r s j) [0..<pm_num_ms s])[ms_of s a ?r j := True] = map (goes_to a (a + Suc k) s j) [0..<pm_num_ms s]"
        unfolding g' using m by (intro nth_equalityI) (simp_all add: nth_list_update)
      then show ?thesis using Suc m ix True sta_bit_ok [OF l(1) r(2) j] by (simp add: rfold_append)
    next
      case False
      then have "goes_to a (a + Suc k) s j = goes_to a ?r s j" by (simp only: fun_eq_iff go simp_thms)
      then show ?thesis using Suc False sta_bit_ok [OF l(1) r(2) j] by (simp add: rfold_append)
    qed
  qed
  show ?thesis using step [of "b - a"] l(2) by (simp add: SparseSDMemory_destinations_def l(5,6) u Let_def)
qed

lemma send_streaming_ok:
  fixes s :: "'d::zero SparseSDMemory"
  assumes L: "loaded_rows a b s" and j: "j < sp_K s" and n: "sp_str_current_index s < sp_dim_str s"
  shows "\<exists>s'. SparseSDMemory_send_streaming j s = Inr s'
     \<and> fed (\<lambda>d. if goes_to a b s j d then [(IACTIVATION, str_val s (sp_str_current_index s) j)] else []) s s'"
proof -
  let ?n = "sp_str_current_index s" and ?ds = "map (goes_to a b s j) [0..<pm_num_ms s]"
  let ?v = "str_val s ?n j"
  have l: "str_ok s" "ports_ok s" "sources_known s (sp_str_counters_table s)" using L by (simp_all add: loaded_rows_def)
  obtain ss where ss: "SparseSDMemory_send_streaming j s = mem_sendPackageToInputFifos
      (DataPackage_multicast sizeof_data_t ?v IACTIVATION 0 MULTICAST ?ds (pm_num_ms s)) (s\<lparr>pm_stats := ss\<rparr>)"
  proof (cases "str_set s ?n j")
    case True
    have "?n * sp_K s + j < sp_dim_str s * sp_K s" by (rule index_less [OF n j])
    then have "?n * sp_K s + j < length (str_positions s)" by (simp add: str_positions_def)
    moreover have "str_positions s ! (?n * sp_K s + j) = (?n, j)" by (rule str_positions_nth(2) [OF n j])
    ultimately have "str_rank s (Suc (?n * sp_K s + j)) = Suc (str_rank s (?n * sp_K s + j))"
      using True by (simp add: str_rank_def take_Suc_conv_app_nth)
    moreover have "str_rank s (Suc (?n * sp_K s + j)) \<le> str_rank s (sp_dim_str s * sp_K s)"
    proof -
      have "take (sp_dim_str s * sp_K s) (str_positions s) = take (Suc (?n * sp_K s + j)) (str_positions s) @ drop (Suc (?n * sp_K s + j)) (str_positions s)"
        by (simp add: str_positions_def)
      then have "str_rank s (sp_dim_str s * sp_K s) = str_rank s (Suc (?n * sp_K s + j))
          + length (filter (\<lambda>(i, j). str_set s i j) (drop (Suc (?n * sp_K s + j)) (str_positions s)))"
        unfolding str_rank_def by (simp only: filter_append length_append)
      then show ?thesis by simp
    qed
    ultimately have k: "str_rank s (?n * sp_K s + j) < length (sp_STR_address s)" using l(1) by (simp add: str_ok_def)
    have ix: "str_index s ?n j < length (sp_str_counters_table s)" "sp_str_counters_table s ! str_index s ?n j = str_rank s (?n * sp_K s + j)"
      using str_index_ix [OF l(1) n j] str_ix_less [OF l(1) n j] l(1,3) n j True by (simp_all add: str_ok_def sources_known_def)
    show ?thesis
      using that [of "ss_n_SRAM_input_reads_update (\<lambda>n. n + 1) (pm_stats s)"] True k ix destinations_ok [OF L j] str_bit_ok [OF l(1) n j]
      by (simp add: SparseSDMemory_send_streaming_def str_val_def)
  next
    case False
    then show ?thesis
      using that [of "pm_stats s"] destinations_ok [OF L j] str_bit_ok [OF l(1) n j] by (simp add: SparseSDMemory_send_streaming_def str_val_def)
  qed
  let ?s = "s\<lparr>pm_stats := ss, sp_n_ones_sta_matrix := sp_n_ones_sta_matrix s\<rparr>"
  let ?p = "DataPackage_multicast sizeof_data_t ?v IACTIVATION 0 MULTICAST ?ds (pm_num_ms s)"
  have p: "p_traffic_type ?p = MULTICAST" "p_data_type ?p = IACTIVATION" "p_dests ?p = Some ?ds" "p_data ?p = ?v"
    by (simp_all add: DataPackage_multicast_def DataPackage_traffic_def DataPackage_general_def)
  have "ports_ok ?s" using l(2) by (simp add: ports_ok_def)
  then obtain s' where s': "mem_sendPackageToInputFifos ?p ?s = Inr s'" "feeds (\<lambda>d. if ?ds ! d then [(IACTIVATION, ?v)] else []) ?s s'"
    using send_multicast [of ?s ?p ?ds, unfolded p] by auto
  have "fed (\<lambda>d. if goes_to a b s j d then [(IACTIVATION, ?v)] else []) s s'"
    using fed_send [OF s'(2)] unfolding fed_def by auto
  then show ?thesis using s'(1) ss by auto
qed

text \<open>What the distribution reads of the state does not change while it fills fifos and counts.\<close>

lemma sparse_view [simp]:
  fixes s :: "'d::zero SparseSDMemory"
  defines "v \<equiv> \<lambda>fs ss k i. s\<lparr>pm_input_fifos := fs, pm_stats := ss, sp_n_ones_sta_matrix := k, sp_str_current_index := i\<rparr>"
  shows "sta_set (v fs ss k i) = sta_set s" "str_set (v fs ss k i) = str_set s" "ones (v fs ss k i) = ones s"
    "rows_size (v fs ss k i) = rows_size s" "ms_of (v fs ss k i) = ms_of s" "str_rank (v fs ss k i) = str_rank s"
    "sta_val (v fs ss k i) = sta_val s" "str_val (v fs ss k i) = str_val s" "sta_ok (v fs ss k i) = sta_ok s" "str_ok (v fs ss k i) = str_ok s"
    "sta_ix (v fs ss k i) = sta_ix s" "str_ix (v fs ss k i) = str_ix s" "sources_known (v fs ss k i) = sources_known s"
proof -
  show a: "sta_ix (v fs ss k i) = sta_ix s" "str_ix (v fs ss k i) = str_ix s" by (simp_all add: fun_eq_iff v_def sta_ix_def str_ix_def)
  show b: "sta_set (v fs ss k i) = sta_set s" "str_set (v fs ss k i) = str_set s"
    by (simp_all add: fun_eq_iff sta_set_def str_set_def a) (simp_all add: v_def)
  show c: "ones (v fs ss k i) = ones s" by (simp add: fun_eq_iff ones_def b)
  show d: "rows_size (v fs ss k i) = rows_size s" by (simp add: fun_eq_iff rows_size_def row_size_def c) (simp add: v_def)
  show "ms_of (v fs ss k i) = ms_of s" by (simp add: fun_eq_iff ms_of_def c d)
  have p: "str_positions (v fs ss k i) = str_positions s" by (simp add: v_def str_positions_def)
  show r: "str_rank (v fs ss k i) = str_rank s" by (simp add: fun_eq_iff str_rank_def b p)
  show "sta_val (v fs ss k i) = sta_val s" by (simp add: fun_eq_iff sta_val_def b c d) (simp add: v_def)
  show "str_val (v fs ss k i) = str_val s" by (simp add: fun_eq_iff str_val_def b r) (simp add: v_def)
  show "sta_ok (v fs ss k i) = sta_ok s" by (simp add: sta_ok_def v_def)
  show "str_ok (v fs ss k i) = str_ok s" by (simp add: str_ok_def str_layout_def r) (simp add: v_def)
  show "sources_known (v fs ss k i) = sources_known s" by (simp add: fun_eq_iff sources_known_def a b r) (simp add: v_def)
qed

lemma sparse_view_same:
  fixes s :: "'d::zero SparseSDMemory"
  assumes "fed f s s'" and L: "loaded_rows a b s"
  shows "goes_to a b (s'\<lparr>sp_str_current_index := i\<rparr>) = goes_to a b s" "str_val (s'\<lparr>sp_str_current_index := i\<rparr>) = str_val s" "loaded_rows a b (s'\<lparr>sp_str_current_index := i\<rparr>)" "sp_K (s'\<lparr>sp_str_current_index := i\<rparr>) = sp_K s" "sp_dim_str (s'\<lparr>sp_str_current_index := i\<rparr>) = sp_dim_str s"
    "sp_sta_last_j_metadata (s'\<lparr>sp_str_current_index := i\<rparr>) = sp_sta_last_j_metadata s" "sp_sta_current_j_metadata (s'\<lparr>sp_str_current_index := i\<rparr>) = sp_sta_current_j_metadata s" "sp_str_current_index (s'\<lparr>sp_str_current_index := i\<rparr>) = i"
    "queued (s'\<lparr>sp_str_current_index := i\<rparr>) = queued s'"
proof -
  define u where "u = s'\<lparr>sp_str_current_index := i\<rparr>"
  note d = u_def [symmetric]
  obtain fs ss k where e: "s' = s\<lparr>pm_input_fifos := fs, pm_stats := ss, sp_n_ones_sta_matrix := k\<rparr>" "length fs = length (pm_input_fifos s)"
    using assms(1) unfolding fed_def by blast
  have u: "u = s\<lparr>pm_input_fifos := fs, pm_stats := ss, sp_n_ones_sta_matrix := k, sp_str_current_index := i\<rparr>" by (simp add: u_def e(1))
  show "goes_to a b (s'\<lparr>sp_str_current_index := i\<rparr>) = goes_to a b s" unfolding d u by (simp add: fun_eq_iff goes_to_def)
  show "str_val (s'\<lparr>sp_str_current_index := i\<rparr>) = str_val s" unfolding d u by simp
  show "sp_K (s'\<lparr>sp_str_current_index := i\<rparr>) = sp_K s" "sp_dim_str (s'\<lparr>sp_str_current_index := i\<rparr>) = sp_dim_str s" "sp_sta_last_j_metadata (s'\<lparr>sp_str_current_index := i\<rparr>) = sp_sta_last_j_metadata s"
    "sp_sta_current_j_metadata (s'\<lparr>sp_str_current_index := i\<rparr>) = sp_sta_current_j_metadata s" "sp_str_current_index (s'\<lparr>sp_str_current_index := i\<rparr>) = i" by (simp_all add: d u)
  show "queued (s'\<lparr>sp_str_current_index := i\<rparr>) = queued s'" by (simp add: fun_eq_iff queued_def)
  show "loaded_rows a b (s'\<lparr>sp_str_current_index := i\<rparr>)" using L unfolding d u loaded_rows_def by (simp add: ports_ok_def e(2))
qed

lemma fed_index:
  "fed f s s' \<Longrightarrow> sp_str_current_index s' = sp_str_current_index s"
  unfolding fed_def by auto

lemma streaming_loop:
  fixes s :: "'d::zero SparseSDMemory"
  assumes L: "loaded_rows a b s" and n: "sp_str_current_index s < sp_dim_str s" and k: "k \<le> sp_K s"
  shows "\<exists>s'. rfold SparseSDMemory_send_streaming [0..<k] s = Inr s'
     \<and> fed (\<lambda>d. map (\<lambda>j. (IACTIVATION, str_val s (sp_str_current_index s) j)) (filter (\<lambda>j. goes_to a b s j d) [0..<k])) s s'"
  using k
proof (induction k)
  case 0
  then show ?case using fed_refl [of s] by simp
next
  case (Suc k)
  then obtain s1 where s1: "rfold SparseSDMemory_send_streaming [0..<k] s = Inr s1"
    "fed (\<lambda>d. map (\<lambda>j. (IACTIVATION, str_val s (sp_str_current_index s) j)) (filter (\<lambda>j. goes_to a b s j d) [0..<k])) s s1" by auto
  have same: "s1\<lparr>sp_str_current_index := sp_str_current_index s\<rparr> = s1" using fed_index [OF s1(2)] by simp
  note v = sparse_view_same [OF s1(2) L, where i = "sp_str_current_index s", unfolded same]
  obtain s2 where s2: "SparseSDMemory_send_streaming k s1 = Inr s2"
    "fed (\<lambda>d. if goes_to a b s k d then [(IACTIVATION, str_val s (sp_str_current_index s) k)] else []) s1 s2"
    using send_streaming_ok [OF v(3), of k, unfolded v] n Suc.prems by auto
  have "fed (\<lambda>d. map (\<lambda>j. (IACTIVATION, str_val s (sp_str_current_index s) j)) (filter (\<lambda>j. goes_to a b s j d) [0..<Suc k])) s s2"
  proof -
    have e: "(\<lambda>d. map (\<lambda>j. (IACTIVATION, str_val s (sp_str_current_index s) j)) (filter (\<lambda>j. goes_to a b s j d) [0..<Suc k])) =
      (\<lambda>d. map (\<lambda>j. (IACTIVATION, str_val s (sp_str_current_index s) j)) (filter (\<lambda>j. goes_to a b s j d) [0..<k])
        @ (if goes_to a b s k d then [(IACTIVATION, str_val s (sp_str_current_index s) k)] else []))" by (auto simp: fun_eq_iff)
    show ?thesis unfolding e by (rule fed_trans [OF s1(2) s2(2)])
  qed
  then show ?case using s1(1) s2(1) by (auto simp: rfold_append)
qed

text \<open>Every row of the streaming matrix brings an element for each multiplier that holds one.\<close>

definition row_ops :: "nat \<Rightarrow> nat \<Rightarrow> 'd::zero SparseSDMemory \<Rightarrow> nat \<Rightarrow> nat \<Rightarrow> (operand_t \<times> 'd) list" where
  "row_ops a b s n d = map (\<lambda>j. (IACTIVATION, str_val s n j)) (filter (\<lambda>j. goes_to a b s j d) [0..<sp_K s])"

lemma dist_str_ok:
  fixes s :: "'d::zero SparseSDMemory"
  assumes L: "loaded_rows a b s" and n: "sp_str_current_index s < sp_dim_str s"
  shows "\<exists>s'. SparseSDMemory_dist_str s = Inr (s'\<lparr>sp_str_current_index := Suc (sp_str_current_index s)\<rparr>)
     \<and> fed (row_ops a b s (sp_str_current_index s)) s s'"
proof -
  obtain s' where s': "rfold SparseSDMemory_send_streaming [0..<sp_K s] s = Inr s'" "fed (row_ops a b s (sp_str_current_index s)) s s'"
    using streaming_loop [OF L n order_refl] unfolding row_ops_def by blast
  have "Suc (sp_str_current_index s) < u32_max" using n L by (simp add: loaded_rows_def str_ok_def)
  then have "SparseSDMemory_dist_str s = Inr (s'\<lparr>sp_str_current_index := Suc (sp_str_current_index s)\<rparr>)"
    using s'(1) L fed_index [OF s'(2)] by (simp add: SparseSDMemory_dist_str_def loaded_rows_def uadd_small)
  then show ?thesis using s'(2) by blast
qed

lemma dist_str_rows:
  fixes s :: "'d::zero SparseSDMemory"
  assumes L: "loaded_rows a b s" and z: "sp_str_current_index s = 0" and m: "m \<le> sp_dim_str s"
  shows "\<exists>s'. rfold (\<lambda>_. SparseSDMemory_dist_str) [0..<m] s = Inr (s'\<lparr>sp_str_current_index := m\<rparr>)
     \<and> fed (\<lambda>d. concat (map (\<lambda>n. row_ops a b s n d) [0..<m])) s s'"
  using m
proof (induction m)
  case 0
  have "s\<lparr>sp_str_current_index := 0\<rparr> = s" using z by simp
  then show ?case using fed_refl [of s] by (intro exI [of _ s]) simp
next
  case (Suc m)
  then obtain s1 where s1: "rfold (\<lambda>_. SparseSDMemory_dist_str) [0..<m] s = Inr (s1\<lparr>sp_str_current_index := m\<rparr>)"
    "fed (\<lambda>d. concat (map (\<lambda>n. row_ops a b s n d) [0..<m])) s s1" by auto
  note v = sparse_view_same [OF s1(2) L, where i = m]
  let ?u = "s1\<lparr>sp_str_current_index := m\<rparr>"
  have ro: "row_ops a b ?u = row_ops a b s" unfolding row_ops_def fun_eq_iff v by simp
  obtain s2 where s2: "SparseSDMemory_dist_str ?u = Inr (s2\<lparr>sp_str_current_index := Suc m\<rparr>)" "fed (row_ops a b s m) ?u s2"
    using dist_str_ok [OF v(3), unfolded v ro] Suc.prems by auto
  have f: "fed (row_ops a b s m) s1 (s2\<lparr>sp_str_current_index := sp_str_current_index s1\<rparr>)"
  proof -
    obtain fs ss k where e: "s2 = ?u\<lparr>pm_input_fifos := fs, pm_stats := ss, sp_n_ones_sta_matrix := k\<rparr>" "length fs = length (pm_input_fifos ?u)"
      using s2(2) unfolding fed_def by blast
    show ?thesis
    proof (rule fedI)
      show "s2\<lparr>sp_str_current_index := sp_str_current_index s1\<rparr> = s1\<lparr>pm_input_fifos := fs, pm_stats := ss, sp_n_ones_sta_matrix := k\<rparr>"
        by (simp add: e(1))
      show "length fs = length (pm_input_fifos s1)" using e(2) by simp
      show "queued (s2\<lparr>sp_str_current_index := sp_str_current_index s1\<rparr>) d = queued s1 d @ row_ops a b s m d" if "d < pm_num_ms s1" for d
        using s2(2) that unfolding fed_def by (simp add: queued_def)
    qed
  qed
  have e: "(\<lambda>d. concat (map (\<lambda>n. row_ops a b s n d) [0..<Suc m])) = (\<lambda>d. concat (map (\<lambda>n. row_ops a b s n d) [0..<m]) @ row_ops a b s m d)"
    by (simp add: fun_eq_iff)
  have "fed (\<lambda>d. concat (map (\<lambda>n. row_ops a b s n d) [0..<Suc m])) s (s2\<lparr>sp_str_current_index := sp_str_current_index s1\<rparr>)"
    unfolding e by (rule fed_trans [OF s1(2) f])
  moreover have "rfold (\<lambda>_. SparseSDMemory_dist_str) [0..<Suc m] s =
      Inr ((s2\<lparr>sp_str_current_index := sp_str_current_index s1\<rparr>)\<lparr>sp_str_current_index := Suc m\<rparr>)" using s1(1) s2(1) by (simp add: rfold_append)
  ultimately show ?case by blast
qed

end
