(* ===== verification/SparseIter.thy ===== *)
theory SparseIter
  imports SparseFeed
begin

text \<open>
  An iteration of the sparse controller from its configuration to the last row of the streaming
  matrix: what waits for the multipliers then are the operands of the dot products.
\<close>

section \<open>Rows and multipliers\<close>

lemma rows_size_split:
  assumes "a \<le> b" "b \<le> c" shows "rows_size sp a b + rows_size sp b c = rows_size sp a c"
  using assms(2,1) by (induction c rule: dec_induct) (simp_all add: rows_size_Suc)

lemma rows_size_bound: "rows_size sp 0 b \<le> b * sp_K sp"
proof (induction b)
  case (Suc b)
  have "row_size sp b \<le> sp_K sp" unfolding row_size_def ones_def by (rule le_trans [OF length_filter_le]) simp
  then show ?case using Suc by (simp add: rows_size_Suc)
qed simp

lemma row_vns_size: "a \<le> b \<Longrightarrow> sum_list (map sv_size (row_vns sp a b)) = rows_size sp a b"
  by (induction b rule: dec_induct) (auto simp: row_vns_Suc rows_size_Suc row_vns_def [of _ a a])

lemma row_vns_length: "a \<le> b \<Longrightarrow> (\<And>r. a \<le> r \<Longrightarrow> r < b \<Longrightarrow> 0 < row_size sp r) \<Longrightarrow> length (row_vns sp a b) = b - a"
  unfolding row_vns_def by (subst filter_True) auto

lemma ms_list: "map (ms_of s a r) (filter (sta_set s r) [0..<j]) = [rows_size s a r..<rows_size s a r + ones s r j]"
  by (induction j) (simp_all add: ones_Suc ms_of_def)

lemma goes_to_ms:
  assumes "a \<le> r" "r < b" "sta_set s r x" "x < sp_K s" "j < sp_K s"
  shows "goes_to a b s j (ms_of s a r x) \<longleftrightarrow> j = x"
proof
  assume "goes_to a b s j (ms_of s a r x)"
  then obtain r' where r': "a \<le> r'" "sta_set s r' j" "ms_of s a r' j = ms_of s a r x" unfolding goes_to_def by blast
  show "j = x" using ms_of_inj [OF r'(1) assms(1) r'(2) assms(3,5,4) r'(3)] by simp
qed (use assms in \<open>auto simp: goes_to_def\<close>)

lemma row_ops_ms:
  assumes "a \<le> r" "r < b" "sta_set s r x" "x < sp_K s"
  shows "row_ops a b s n (ms_of s a r x) = [(IACTIVATION, str_val s n x)]"
proof -
  have "filter (\<lambda>j. goes_to a b s j (ms_of s a r x)) [0..<sp_K s] = filter (\<lambda>j. j = x) [0..<sp_K s]"
    by (rule filter_cong) (simp_all add: goes_to_ms [OF assms])
  also have "\<dots> = [x]"
  proof -
    have "[0..<sp_K s] = [0..<x] @ x # [Suc x..<sp_K s]" using assms(4) upt_add_eq_append [of 0 x "sp_K s - x"] by (simp add: upt_conv_Cons)
    then show ?thesis by (simp add: filter_empty_conv)
  qed
  finally show ?thesis by (simp add: row_ops_def)
qed

lemma row_ops_none:
  assumes "a \<le> b" "rows_size s a b \<le> d" shows "row_ops a b s n d = []"
proof -
  have "\<not> goes_to a b s j d" if "j < sp_K s" for j
  proof
    assume "goes_to a b s j d"
    then obtain r where r: "a \<le> r" "r < b" "sta_set s r j" "ms_of s a r j = d" unfolding goes_to_def by blast
    then have "d < rows_size s a (Suc r)" using ms_of_row(2) [OF r(1,3) that] by simp
    also have "\<dots> \<le> rows_size s a b" using r by (intro rows_size_mono) simp_all
    finally show False using assms by simp
  qed
  then show ?thesis by (simp add: row_ops_def filter_empty_conv)
qed

section \<open>The configuration\<close>

lemma config_view [simp]:
  fixes s :: "'d::zero SparseSDMemory"
  defines "v \<equiv> \<lambda>t vs ns k u n. s\<lparr>sp_sta_counters_table := t, sp_configurationVNs := vs, sp_vnat_table := ns,
      sp_sta_last_j_metadata := k, sp_str_counters_table := u, sp_n_ones_str_matrix := n\<rparr>"
  shows "sta_ix (v t vs ns k u n) = sta_ix s" "str_ix (v t vs ns k u n) = str_ix s" "sta_set (v t vs ns k u n) = sta_set s"
    "str_set (v t vs ns k u n) = str_set s" "ones (v t vs ns k u n) = ones s" "rows_size (v t vs ns k u n) = rows_size s"
    "ms_of (v t vs ns k u n) = ms_of s" "str_rank (v t vs ns k u n) = str_rank s" "sta_val (v t vs ns k u n) = sta_val s"
    "str_val (v t vs ns k u n) = str_val s" "queued (v t vs ns k u n) = queued s" "goes_to a b (v t vs ns k u n) = goes_to a b s"
    "row_ops a b (v t vs ns k u n) = row_ops a b s"
proof -
  show a: "sta_ix (v t vs ns k u n) = sta_ix s" "str_ix (v t vs ns k u n) = str_ix s" by (simp_all add: fun_eq_iff v_def sta_ix_def str_ix_def)
  show b: "sta_set (v t vs ns k u n) = sta_set s" "str_set (v t vs ns k u n) = str_set s"
    by (simp_all add: fun_eq_iff sta_set_def str_set_def a) (simp_all add: v_def)
  show c: "ones (v t vs ns k u n) = ones s" by (simp add: fun_eq_iff ones_def b)
  show d: "rows_size (v t vs ns k u n) = rows_size s" by (simp add: fun_eq_iff rows_size_def row_size_def c) (simp add: v_def)
  show m: "ms_of (v t vs ns k u n) = ms_of s" by (simp add: fun_eq_iff ms_of_def c d)
  have p: "str_positions (v t vs ns k u n) = str_positions s" by (simp add: v_def str_positions_def)
  show r: "str_rank (v t vs ns k u n) = str_rank s" by (simp add: fun_eq_iff str_rank_def b p)
  show "sta_val (v t vs ns k u n) = sta_val s" by (simp add: fun_eq_iff sta_val_def b c d) (simp add: v_def)
  show w: "str_val (v t vs ns k u n) = str_val s" by (simp add: fun_eq_iff str_val_def b r) (simp add: v_def)
  show "queued (v t vs ns k u n) = queued s" by (simp add: fun_eq_iff queued_def v_def)
  show g: "goes_to a b (v t vs ns k u n) = goes_to a b s" by (simp add: fun_eq_iff goes_to_def b m)
  have "sp_K (v t vs ns k u n) = sp_K s" by (simp add: v_def)
  then show "row_ops a b (v t vs ns k u n) = row_ops a b s" by (simp add: fun_eq_iff row_ops_def g w)
qed

text \<open>The state in which an iteration begins: row \<open>a\<close> is next and nothing is configured.\<close>

definition iteration_start :: "nat \<Rightarrow> 'd SparseSDMemory \<Rightarrow> bool" where
  "iteration_start a s \<longleftrightarrow> sta_ok s \<and> str_ok s \<and> ports_ok s \<and> spare_row s
     \<and> sp_sta_current_index_metadata s = a \<and> a < sp_dim_sta s \<and> sp_sta_current_j_metadata s = 0 \<and> sp_str_current_index s = 0
     \<and> sp_sta_current_index_matrix s = rows_size s 0 a \<and> sp_configurationVNs s = [] \<and> sp_vnat_table s = []
     \<and> rows_size s 0 (sp_dim_sta s) \<le> length (sp_STA_address s)"

lemma configured_rows:
  fixes s :: "'d::zero SparseSDMemory"
  assumes S: "iteration_start a s" and rows: "\<And>r. a \<le> r \<Longrightarrow> r < sp_dim_sta s \<Longrightarrow> 0 < row_size s r" and fits: "row_size s a \<le> pm_num_ms s"
  shows "\<exists>b t u n. rbind (SparseSDMemory_whole_rows s) SparseSDMemory_source_table =
       Inr (s\<lparr>sp_sta_counters_table := t, sp_configurationVNs := row_vns s a b, sp_vnat_table := replicate (length (row_vns s a b)) 0,
            sp_sta_last_j_metadata := sp_K s, sp_str_counters_table := u, sp_n_ones_str_matrix := n\<rparr>)
     \<and> a < b \<and> b \<le> sp_dim_sta s \<and> rows_size s a b \<le> pm_num_ms s \<and> (b < sp_dim_sta s \<longrightarrow> pm_num_ms s < rows_size s a (Suc b))
     \<and> loaded_rows a b (s\<lparr>sp_sta_counters_table := t, sp_configurationVNs := row_vns s a b, sp_vnat_table := replicate (length (row_vns s a b)) 0,
            sp_sta_last_j_metadata := sp_K s, sp_str_counters_table := u, sp_n_ones_str_matrix := n\<rparr>)"
proof -
  have l: "sta_ok s" "str_ok s" "ports_ok s" "spare_row s" "a = sp_sta_current_index_metadata s" "a < sp_dim_sta s" "sp_configurationVNs s = []" "sp_vnat_table s = []"
    using S by (simp_all add: iteration_start_def)
  have s0: "s = rows_config s (sp_sta_counters_table s) []" using l(7,8) by (simp add: rows_config_def)
  obtain b s1 where b: "SparseSDMemory_whole_rows s = Inr s1" "rows_taken s a b s1"
    using whole_rows_ok [OF l(1,5,6) s0 l(4) rows [OF order_refl l(6)] fits] by blast
  obtain t where t: "s1 = (rows_config s t (row_vns s a b))\<lparr>sp_sta_last_j_metadata := sp_K s\<rparr>" "length t = length (sp_sta_counters_table s)"
    "\<forall>r x. a \<le> r \<longrightarrow> r < b \<longrightarrow> x < sp_K s \<longrightarrow> sta_set s r x \<longrightarrow> t ! sta_ix s r x = ms_of s a r x"
    using b(2) unfolding rows_taken_def by blast
  have ab: "a < b" "b \<le> sp_dim_sta s" "rows_size s a b \<le> pm_num_ms s" using b(2) by (simp_all add: rows_taken_def)
  have next_row: "b < sp_dim_sta s \<longrightarrow> pm_num_ms s < rows_size s a (Suc b)"
    using b(2) rows [of b] ab(1) by (auto simp: rows_taken_def)
  let ?v = "\<lambda>u n. s\<lparr>sp_sta_counters_table := t, sp_configurationVNs := row_vns s a b, sp_vnat_table := replicate (length (row_vns s a b)) 0,
            sp_sta_last_j_metadata := sp_K s, sp_str_counters_table := u, sp_n_ones_str_matrix := n\<rparr>"
  have s1: "s1 = ?v (sp_str_counters_table s) (sp_n_ones_str_matrix s)" by (simp add: t(1) rows_config_def)
  have so: "str_ok (?v u n)" if "length u = length (sp_str_counters_table s)" for u n using that l(2) by (simp add: str_ok_def str_layout_def)
  have sk: "sources_known (?v u n) t' \<longleftrightarrow> sources_known s t'" if "length u = length (sp_str_counters_table s)" for u n t'
    using that by (simp add: sources_known_def)
  have "str_ok s1" unfolding s1 by (rule so) simp
  then obtain u n where u: "SparseSDMemory_source_table s1 = Inr (s1\<lparr>sp_str_counters_table := u, sp_n_ones_str_matrix := n\<rparr>)" "sources_known s1 u"
    using source_table_ok by blast
  have u': "sources_known s u" "length u = length (sp_str_counters_table s)" using u(2) sk unfolding s1 by (blast, simp add: sources_known_def)
  have e: "s1\<lparr>sp_str_counters_table := u, sp_n_ones_str_matrix := n\<rparr> = ?v u n" by (simp add: s1)
  have "loaded_rows a b (?v u n)"
  proof -
    have 1: "sta_ok (?v u n)" using l(1) t(2) by (simp add: sta_ok_def)
    have 2: "str_ok (?v u n)" by (rule so [OF u'(2)])
    have 3: "ports_ok (?v u n)" using l(3) by (simp add: ports_ok_def)
    have 4: "sources_known (?v u n) (sp_str_counters_table (?v u n))" using u' sk by simp
    have 5: "length (row_vns s a b) = b - a" using ab rows by (intro row_vns_length) simp_all
    have 6: "sp_sta_current_j_metadata s = 0" using S by (simp add: iteration_start_def)
    show ?thesis unfolding loaded_rows_def by (intro conjI 1 2 3 4) (use 5 6 ab l(5) t(3) in simp_all)
  qed
  then show ?thesis using b(1) u(1) ab next_row unfolding e by auto
qed

section \<open>The operands\<close>

definition load_and_stream :: "'d::zero SparseSDMemory \<Rightarrow> 'd SparseSDMemory res" where
  "load_and_stream s =
     rbind (rbind (SparseSDMemory_whole_rows s) SparseSDMemory_source_table) (\<lambda>s.
     rbind (SparseSDMemory_dist_sta s) (\<lambda>s.
     rfold (\<lambda>_. SparseSDMemory_dist_str) [0..<sp_dim_str s] s))"

lemma load_and_stream_ok:
  fixes s :: "'d::zero SparseSDMemory"
  assumes S: "iteration_start a s" and rows: "\<And>r. a \<le> r \<Longrightarrow> r < sp_dim_sta s \<Longrightarrow> 0 < row_size s r" and fits: "row_size s a \<le> pm_num_ms s"
  shows "\<exists>b s'. load_and_stream s = Inr s' \<and> a < b \<and> b \<le> sp_dim_sta s \<and> rows_size s a b \<le> pm_num_ms s
     \<and> (b < sp_dim_sta s \<longrightarrow> pm_num_ms s < rows_size s a (Suc b)) \<and> sp_configurationVNs s' = row_vns s a b
     \<and> (\<forall>d < pm_num_ms s. queued s' d = queued s d
          @ (if d < rows_size s a b then [(WEIGHT, sp_STA_address s ! (rows_size s 0 a + d))] else [])
          @ concat (map (\<lambda>n. row_ops a b s n d) [0..<sp_dim_str s]))"
proof -
  obtain b t u n where c: "rbind (SparseSDMemory_whole_rows s) SparseSDMemory_source_table =
       Inr (s\<lparr>sp_sta_counters_table := t, sp_configurationVNs := row_vns s a b, sp_vnat_table := replicate (length (row_vns s a b)) 0,
            sp_sta_last_j_metadata := sp_K s, sp_str_counters_table := u, sp_n_ones_str_matrix := n\<rparr>)"
     "a < b" "b \<le> sp_dim_sta s" "rows_size s a b \<le> pm_num_ms s" "b < sp_dim_sta s \<longrightarrow> pm_num_ms s < rows_size s a (Suc b)"
     "loaded_rows a b (s\<lparr>sp_sta_counters_table := t, sp_configurationVNs := row_vns s a b, sp_vnat_table := replicate (length (row_vns s a b)) 0,
            sp_sta_last_j_metadata := sp_K s, sp_str_counters_table := u, sp_n_ones_str_matrix := n\<rparr>)"
    using configured_rows [OF assms] by blast
  let ?s = "s\<lparr>sp_sta_counters_table := t, sp_configurationVNs := row_vns s a b, sp_vnat_table := replicate (length (row_vns s a b)) 0,
            sp_sta_last_j_metadata := sp_K s, sp_str_counters_table := u, sp_n_ones_str_matrix := n\<rparr>"
  have po: "ports_ok ?s" using c(6) unfolding loaded_rows_def by blast
  have total: "rows_size s 0 a + rows_size s a b = rows_size s 0 b" using c(2) by (intro rows_size_split) simp_all
  have upto: "rows_size s 0 b \<le> rows_size s 0 (sp_dim_sta s)" using c(3) by (intro rows_size_mono) simp_all
  have idx: "sp_sta_current_index_matrix s = rows_size s 0 a" "rows_size s 0 (sp_dim_sta s) \<le> length (sp_STA_address s)"
    "sp_str_current_index s = 0" using S by (simp_all add: iteration_start_def)
  have small: "rows_size s 0 (sp_dim_sta s) < u32_max"
    using rows_size_bound [of s "sp_dim_sta s"] S by (simp add: iteration_start_def sta_ok_def)
  have nf: "\<forall>vn \<in> set (row_vns s a b). \<not> sv_folding vn" by (auto simp: row_vns_def)
  have fields: "sp_STA_address ?s = sp_STA_address s" "sp_sta_current_index_matrix ?s = rows_size s 0 a" "sp_configurationVNs ?s = row_vns s a b"
    "pm_num_ms ?s = pm_num_ms s" by (simp_all add: idx(1))
  have "\<exists>s'. SparseSDMemory_dist_sta ?s = Inr s' \<and> fed (\<lambda>d. if d < rows_size s a b
      then [(WEIGHT, sp_STA_address ?s ! (sp_sta_current_index_matrix ?s + d))] else []) ?s s'"
    by (rule dist_sta_ok [OF po]) (use nf c(2,4) idx(2) total upto small in \<open>simp_all add: row_vns_size idx(1)\<close>)
  then obtain s3 where s3: "SparseSDMemory_dist_sta ?s = Inr s3"
    "fed (\<lambda>d. if d < rows_size s a b then [(WEIGHT, sp_STA_address s ! (rows_size s 0 a + d))] else []) ?s s3"
    unfolding fields by blast
  have same: "s3\<lparr>sp_str_current_index := 0\<rparr> = s3" using fed_index [OF s3(2)] idx by simp
  note v = sparse_view_same [OF s3(2) c(6), where i = 0, unfolded same]
  have ro: "row_ops a b s3 = row_ops a b s" unfolding row_ops_def fun_eq_iff v by simp
  have ds: "sp_dim_str s3 = sp_dim_str s" using v(5) by simp
  obtain s4 where s4: "rfold (\<lambda>_. SparseSDMemory_dist_str) [0..<sp_dim_str s] s3 = Inr (s4\<lparr>sp_str_current_index := sp_dim_str s\<rparr>)"
    "fed (\<lambda>d. concat (map (\<lambda>n. row_ops a b s n d) [0..<sp_dim_str s])) s3 s4"
    using dist_str_rows [OF v(3) v(8), of "sp_dim_str s", unfolded ro] ds by auto
  let ?r = "s4\<lparr>sp_str_current_index := sp_dim_str s\<rparr>"
  have q: "queued ?r d = queued s4 d" for d by (simp add: queued_def)
  have f: "fed (\<lambda>d. (if d < rows_size s a b then [(WEIGHT, sp_STA_address s ! (rows_size s 0 a + d))] else [])
      @ concat (map (\<lambda>n. row_ops a b s n d) [0..<sp_dim_str s])) ?s s4" by (rule fed_trans [OF s3(2) s4(2)])
  have "load_and_stream s = Inr ?r" unfolding load_and_stream_def c(1) using s3(1) s4(1) ds by simp
  moreover have "sp_configurationVNs ?r = row_vns s a b" using fed_same(8) [OF f] by simp
  moreover have "queued ?r d = queued s d @ (if d < rows_size s a b then [(WEIGHT, sp_STA_address s ! (rows_size s 0 a + d))] else [])
      @ concat (map (\<lambda>n. row_ops a b s n d) [0..<sp_dim_str s])" if "d < pm_num_ms s" for d
    using f that unfolding q fed_def by simp
  ultimately show ?thesis using c(2-5) by blast
qed

lemma sta_val_ms:
  assumes "a \<le> r" "sta_set s r x" shows "sp_STA_address s ! (rows_size s 0 a + ms_of s a r x) = sta_val s r x"
  using rows_size_split [of 0 a r s] assms by (simp add: sta_val_def ms_of_def add.assoc [symmetric])

lemma row_sum:
  fixes s :: "'d::semiring_0 SparseSDMemory" and f :: "nat \<Rightarrow> 'd"
  assumes "a \<le> r" "\<And>x. x < sp_K s \<Longrightarrow> sta_set s r x \<Longrightarrow> f (ms_of s a r x) = sta_val s r x * str_val s n x"
  shows "(\<Sum>d \<leftarrow> [rows_size s a r..<rows_size s a (Suc r)]. f d) = (\<Sum>x < sp_K s. sta_val s r x * str_val s n x)"
proof -
  have z: "sta_val s r x * str_val s n x = 0" if "\<not> sta_set s r x" for x using that by (simp add: sta_val_def)
  have "(\<Sum>d \<leftarrow> [rows_size s a r..<rows_size s a r + ones s r j]. f d) = (\<Sum>x < j. sta_val s r x * str_val s n x)" if "j \<le> sp_K s" for j
    using that
  proof (induction j)
    case (Suc j)
    show ?case
    proof (cases "sta_set s r j")
      case True
      then show ?thesis using Suc assms(2) [of j] by (simp add: ones_Suc ms_of_def)
    next
      case False
      then show ?thesis using Suc z by (simp add: ones_Suc)
    qed
  qed simp
  from this [of "sp_K s"] show ?thesis using rows_size_Suc [OF assms(1), of s] by (simp add: row_size_def)
qed

text \<open>The product of the weight and the \<open>n\<close>-th activation that wait for multiplier \<open>d\<close>.\<close>

definition product_at :: "nat \<Rightarrow> 'd::times SparseSDMemory \<Rightarrow> nat \<Rightarrow> 'd" where
  "product_at n s d = snd (queued s d ! 0) * snd (queued s d ! Suc n)"

end
