(* ===== verification/SparseTop.thy ===== *)
theory SparseTop
  imports SparseIter
begin

text \<open>
  The sparse controller from its constructor on: what loading a product establishes, the rows and
  operands of an iteration, and where the controller reads past its bitmap or loses rows.
\<close>

section \<open>Loading a product\<close>

definition sparse_machine ::
  "Config \<Rightarrow> cid option \<Rightarrow> DNNLayer \<Rightarrow> Dataflow \<Rightarrow> 'd list \<times> nat list \<Rightarrow> 'd list \<times> nat list \<Rightarrow> 'd list \<Rightarrow> 'd SparseSDMemory res" where
  "sparse_machine cfg write_connection layer dataflow = (\<lambda>(MK, MK_metadata) (KN, KN_metadata) out.
     rbind (SparseSDMemory_new cfg write_connection) (\<lambda>s.
     rbind (SparseSDMemory_setLayer layer MK KN out dataflow s) (SparseSDMemory_setSparseMetadata MK_metadata KN_metadata [])))"

text \<open>The sizes: the read ports divide the array, the bitmaps cover the matrices, the elements are there.\<close>

definition matrix_ok :: "nat \<Rightarrow> 'd list \<times> nat list \<Rightarrow> bool" where
  "matrix_ok n = (\<lambda>(d, bits). n \<le> length bits \<and> length (filter (\<lambda>k. bits ! k \<noteq> 0) [0..<n]) \<le> length d)"

definition ports_divide :: "Config \<Rightarrow> bool" where
  "ports_divide cfg \<longleftrightarrow> (let n = msn_ms_size (m_MSNetworkCfg cfg); p = sdc_n_read_ports (m_SDMemoryCfg cfg) in
     0 < n \<and> n < u32_max \<and> 0 < p \<and> p dvd n)"

definition spare_bits :: "nat \<Rightarrow> nat \<Rightarrow> 'd list \<times> nat list \<Rightarrow> bool" where
  "spare_bits n k = (\<lambda>(_, bits). n + n * k \<le> length bits \<and> Suc n * k \<le> length bits)"

section \<open>The elements of a matrix and the bits of its bitmap\<close>

lemma filter_bits:
  assumes "inj_on h (set xs)" "h ` set xs \<subseteq> {..<n}" "distinct xs"
  shows "length (filter (\<lambda>x. P (h x)) xs) \<le> length (filter P [0..<n])"
proof -
  have 1: "length (filter (\<lambda>x. P (h x)) xs) = card {x \<in> set xs. P (h x)}" using assms(3) by (metis distinct_card distinct_filter set_filter)
  have 2: "length (filter P [0..<n]) = card {k. k < n \<and> P k}" by (subst distinct_card [symmetric]) (auto intro: arg_cong [where f = card])
  have "card {x \<in> set xs. P (h x)} = card (h ` {x \<in> set xs. P (h x)})"
    using assms(1) by (intro card_image [symmetric]) (auto intro: inj_on_subset)
  also have "\<dots> \<le> card {k. k < n \<and> P k}" using assms(2) by (intro card_mono) auto
  finally show ?thesis using 1 2 by simp
qed

lemma rows_size_positions:
  "rows_size s 0 n = length (filter (\<lambda>(i, j). sta_set s i j) (List.product [0..<n] [0..<sp_K s]))"
proof (induction n)
  case (Suc n)
  have "length (filter (\<lambda>(i, j). sta_set s i j) (map (Pair n) [0..<sp_K s])) = row_size s n"
    by (simp add: filter_map comp_def row_size_def ones_def)
  moreover have "List.product [0..<Suc n] [0..<sp_K s] = List.product [0..<n] [0..<sp_K s] @ map (Pair n) [0..<sp_K s]"
    by (simp add: product_concat_map)
  ultimately show ?case using Suc by (simp add: rows_size_Suc)
qed simp

lemma sta_elements:
  assumes "sta_ok s"
  shows "rows_size s 0 (sp_dim_sta s) \<le> length (filter (\<lambda>k. sp_STA_metadata s ! k \<noteq> 0) [0..<sp_dim_sta s * sp_K s])"
  unfolding rows_size_positions sta_set_def case_prod_beta
  by (rule filter_bits [where h = "\<lambda>x. sta_ix s (fst x) (snd x)"])
    (auto simp: inj_on_def distinct_product sta_ix_less [OF assms] sta_ix_inj [OF assms])

lemma str_elements:
  assumes "str_layout s"
  shows "str_rank s (sp_dim_str s * sp_K s) \<le> length (filter (\<lambda>k. sp_STR_metadata s ! k \<noteq> 0) [0..<sp_dim_str s * sp_K s])"
proof -
  have "take (sp_dim_str s * sp_K s) (str_positions s) = str_positions s" by (simp add: str_positions_def)
  moreover have "length (filter (\<lambda>x. sp_STR_metadata s ! str_ix s (fst x) (snd x) \<noteq> 0) (str_positions s))
      \<le> length (filter (\<lambda>k. sp_STR_metadata s ! k \<noteq> 0) [0..<sp_dim_str s * sp_K s])"
    by (rule filter_bits [where h = "\<lambda>x. str_ix s (fst x) (snd x)"])
      (auto simp: inj_on_def distinct_product str_positions_def layout_less [OF assms] layout_inj [OF assms])
  ultimately show ?thesis unfolding str_rank_def str_set_def case_prod_beta by simp
qed

section \<open>The loaded controller\<close>

text \<open>The stationary and the streaming matrix of a dataflow, with their numbers of rows.\<close>

fun stationary :: "Dataflow \<Rightarrow> 'a \<Rightarrow> 'a \<Rightarrow> 'a" where
  "stationary MK_STA_KN_STR mk kn = mk"
| "stationary _ mk kn = kn"

definition loaded_from :: "Config \<Rightarrow> DNNLayer \<Rightarrow> Dataflow \<Rightarrow> 'd list \<times> nat list \<Rightarrow> 'd list \<times> nat list \<Rightarrow> 'd SparseSDMemory \<Rightarrow> bool" where
  "loaded_from cfg layer dataflow mk kn s \<longleftrightarrow>
     pm_num_ms s = msn_ms_size (m_MSNetworkCfg cfg) \<and> sp_K s = l_S layer
     \<and> sp_dim_sta s = stationary dataflow (l_K layer) (l_X layer) \<and> sp_dim_str s = stationary dataflow (l_X layer) (l_K layer)
     \<and> (sp_STA_address s, sp_STA_metadata s) = stationary dataflow mk kn \<and> (sp_STR_address s, sp_STR_metadata s) = stationary dataflow kn mk
     \<and> sp_STA_DIST_VECTOR s = stationary dataflow (l_S layer) 1 \<and> sp_STA_DIST_ELEM s = stationary dataflow 1 (l_X layer)
     \<and> sp_STR_DIST_VECTOR s = stationary dataflow 1 (l_S layer) \<and> sp_STR_DIST_ELEM s = stationary dataflow (l_X layer) 1"

lemma sparse_machine_loaded:
  fixes mk kn :: "'d::zero list \<times> nat list"
  assumes dims: "M = l_K layer" "K = l_S layer" "N = l_X layer" and cfg: "ports_divide cfg" and layer: "l_type layer = GEMM" "0 < M" "0 < K" "0 < N" "M + Suc M * K < u32_max" "N + Suc N * K < u32_max"
    and flow: "dataflow \<in> {MK_STA_KN_STR, MK_STR_KN_STA}" and mats: "matrix_ok (M * K) mk" "matrix_ok (N * K) kn"
  shows "\<exists>s. sparse_machine cfg c layer dataflow mk kn out = Inr s \<and> loaded_from cfg layer dataflow mk kn s
     \<and> (spare_bits (stationary dataflow M N) K (stationary dataflow mk kn) \<longrightarrow> iteration_start 0 s)
     \<and> sta_ok s \<and> sp_configurationVNs s = [] \<and> sp_vnat_table s = [] \<and> sp_sta_current_index_metadata s = 0 \<and> sp_sta_current_j_metadata s = 0
     \<and> sp_current_state s = CONFIGURING \<and> \<not> sp_execution_finished s \<and> sp_layer_loaded s \<and> sp_metadata_loaded s \<and> (\<forall>d < pm_num_ms s. queued s d = [])"
proof -
  obtain MK MKm KN KNm where e: "mk = (MK, MKm)" "kn = (KN, KNm)" by (cases mk, cases kn)
  obtain per where per: "msn_ms_size (m_MSNetworkCfg cfg) = sdc_n_read_ports (m_SDMemoryCfg cfg) * per" "0 < per" "0 < sdc_n_read_ports (m_SDMemoryCfg cfg)"
    "msn_ms_size (m_MSNetworkCfg cfg) < u32_max"
    using cfg by (auto simp: ports_divide_def Let_def elim!: dvdE)
  obtain s0 :: "'d SparseSDMemory" where s0: "SparseSDMemory_new cfg c = Inr s0" "pm_num_ms s0 = msn_ms_size (m_MSNetworkCfg cfg)"
    "pm_n_read_ports s0 = sdc_n_read_ports (m_SDMemoryCfg cfg)" "pm_ms_size_per_input_port s0 = per"
    "pm_input_fifos s0 = replicate (sdc_n_read_ports (m_SDMemoryCfg cfg)) (Fifo_new (sdc_write_buffer_capacity (m_SDMemoryCfg cfg)))"
    "sp_configurationVNs s0 = []" "sp_vnat_table s0 = []" "sp_sta_current_index_metadata s0 = 0" "sp_sta_current_index_matrix s0 = 0"
    "sp_sta_current_j_metadata s0 = 0" "sp_str_current_index s0 = 0" "sp_current_state s0 = CONFIGURING" "\<not> sp_execution_finished s0"
    using per by (simp add: SparseSDMemory_new_def MemPorts_new_def MemPorts.extend_def Let_def)
  have small: "M * K < u32_max" "N * K < u32_max" "M < u32_max" "N < u32_max" using layer by simp_all
  obtain s where s: "sparse_machine cfg c layer dataflow mk kn out = Inr s" "loaded_from cfg layer dataflow mk kn s"
    "length (sp_sta_counters_table s) = sp_dim_sta s * sp_K s" "length (sp_str_counters_table s) = sp_dim_str s * sp_K s"
    "pm_n_read_ports s = sdc_n_read_ports (m_SDMemoryCfg cfg)" "pm_ms_size_per_input_port s = per" "pm_input_fifos s = pm_input_fifos s0"
    "sp_configurationVNs s = []" "sp_vnat_table s = []" "sp_sta_current_index_metadata s = 0" "sp_sta_current_index_matrix s = 0"
    "sp_sta_current_j_metadata s = 0" "sp_str_current_index s = 0"
    "sp_current_state s = CONFIGURING" "sp_layer_loaded s" "sp_metadata_loaded s" "\<not> sp_execution_finished s"
    using flow layer(1) small s0 unfolding dims
    by (elim insertE emptyE) (simp_all add: sparse_machine_def e SparseSDMemory_setLayer_def SparseSDMemory_set_dataflow_def SparseSDMemory_setSparseMetadata_def loaded_from_def umul_small)
  note l = s(2) [unfolded loaded_from_def]
  have sta: "sta_ok s" unfolding sta_ok_def using l layer mats flow s(3) unfolding dims by (auto simp: e matrix_ok_def)
  have lay: "str_layout s" unfolding str_layout_def using l flow by auto
  have "matrix_ok (sp_dim_sta s * sp_K s) (sp_STA_address s, sp_STA_metadata s)" "matrix_ok (sp_dim_str s * sp_K s) (sp_STR_address s, sp_STR_metadata s)"
    using l mats flow unfolding dims by auto
  then have m: "rows_size s 0 (sp_dim_sta s) \<le> length (sp_STA_address s)" "str_rank s (sp_dim_str s * sp_K s) \<le> length (sp_STR_address s)"
    "sp_dim_str s * sp_K s \<le> length (sp_STR_metadata s)"
    using sta_elements [OF sta] str_elements [OF lay] by (auto simp: matrix_ok_def)
  have str: "str_ok s" unfolding str_ok_def using lay m s(4) l small flow unfolding dims by auto
  have po: "ports_ok s" unfolding ports_ok_def using per s l s0(5) by auto
  have sr: "spare_row s" if "spare_bits (stationary dataflow M N) K (stationary dataflow mk kn)" using that l flow unfolding spare_row_def dims by (auto simp: spare_bits_def)
  have "iteration_start 0 s" if "spare_bits (stationary dataflow M N) K (stationary dataflow mk kn)"
    unfolding iteration_start_def using sta str po sr [OF that] s m(1) by (simp add: sta_ok_def)
  moreover have "queued s d = []" if "d < pm_num_ms s" for d
  proof -
    have "pm_input_fifos s ! (d div pm_ms_size_per_input_port s) = Fifo_new (sdc_write_buffer_capacity (m_SDMemoryCfg cfg))"
      using ports_okD(2) [OF po that] unfolding s(7) s0(5) by simp
    then show ?thesis by (simp add: queued_def Fifo_new_def)
  qed
  ultimately show ?thesis using s sta by blast
qed
section \<open>Properties\<close>


text \<open>A machine of four multipliers and two ports, and a layer of two by three by two.\<close>

definition four_ports :: Config where
  "four_ports = Config_reset\<lparr>m_MSNetworkCfg := \<lparr>msn_multiplier_network_type = LINEAR, msn_ms_size = 4, msn_ms_rows = 0, msn_ms_cols = 0\<rparr>,
     m_SDMemoryCfg := (m_SDMemoryCfg Config_reset)\<lparr>sdc_n_read_ports := 2, sdc_n_write_ports := 1\<rparr>\<rparr>"

definition small_layer :: DNNLayer where
  "small_layer = uninit\<lparr>l_type := GEMM, l_K := 2, l_S := 3, l_X := 2\<rparr>"

lemma four_ports_ok: "ports_divide four_ports" "msn_ms_size (m_MSNetworkCfg four_ports) = 4"
  by (simp_all add: ports_divide_def four_ports_def u32_max_def)

lemma small_layer_ok: "l_type small_layer = GEMM" "l_K small_layer = 2" "l_S small_layer = 3" "l_X small_layer = 2"
  by (simp_all add: small_layer_def)



text \<open>
  C22: The check for a last cluster after the loop over whole rows reads the bitmap of the row after the last
  one it visited, also when there is no such row. With a bitmap of exactly the elements of the stationary
  matrix, as the driver allocates it, and a stationary matrix whose elements are fewer than the
  multipliers, the first cycle of the controller reads past the end of the bitmap.
\<close>

theorem sparse_overread:
  fixes mk kn :: "'d::zero list \<times> nat list"
  assumes dims: "M = l_K layer" "K = l_S layer" "N = l_X layer" and cfg: "ports_divide cfg" and layer: "l_type layer = GEMM" "0 < M" "0 < K" "0 < N"
    "M + Suc M * K < u32_max" "N + Suc N * K < u32_max"
    and flow: "dataflow \<in> {MK_STA_KN_STR, MK_STR_KN_STA}" and mats: "matrix_ok (M * K) mk" "matrix_ok (N * K) kn"
    and exact: "length (snd (stationary dataflow mk kn)) = stationary dataflow M N * K"
    and few: "length (filter (\<lambda>b. b \<noteq> 0) (snd (stationary dataflow mk kn))) < msn_ms_size (m_MSNetworkCfg cfg)"
  shows "\<exists>s. sparse_machine cfg c layer dataflow mk kn out = Inr s \<and> (\<forall>mn an st. SparseSDMemory_cycle (s, mn, an, st) = Inl OutOfBounds)"
proof -
  obtain s where s: "sparse_machine cfg c layer dataflow mk kn out = Inr s" "loaded_from cfg layer dataflow mk kn s"
    "sta_ok s" "sp_configurationVNs s = []" "sp_vnat_table s = []" "sp_sta_current_index_metadata s = 0" "sp_sta_current_j_metadata s = 0"
    "sp_current_state s = CONFIGURING" "sp_layer_loaded s" "sp_metadata_loaded s"
    using sparse_machine_loaded [OF dims cfg layer flow mats] by blast
  have l: "length (sp_STA_metadata s) = sp_dim_sta s * sp_K s" "pm_num_ms s = msn_ms_size (m_MSNetworkCfg cfg)"
    "sp_STA_metadata s = snd (stationary dataflow mk kn)"
    using s(2) exact flow dims unfolding loaded_from_def by (auto dest: arg_cong [of _ _ snd])
  have "rows_size s 0 (sp_dim_sta s) \<le> length (filter (\<lambda>k. sp_STA_metadata s ! k \<noteq> 0) [0..<length (sp_STA_metadata s)])"
    using sta_elements [OF s(3)] l(1) by simp
  also have "\<dots> = length (filter (\<lambda>b. b \<noteq> 0) (sp_STA_metadata s))"
    by (subst (3) map_nth [symmetric]) (simp only: filter_map length_map comp_def)
  also have "\<dots> < pm_num_ms s" using few l by simp
  finally have fits: "rows_size s 0 (sp_dim_sta s) < pm_num_ms s" .
  define v where "v = (\<lambda>s :: 'd SparseSDMemory. s\<lparr>pm_local_cycle := pm_local_cycle s + 1, pm_stats := ss_total_cycles_update (\<lambda>n. n + 1) (pm_stats s)\<rparr>)"
  have w: "SparseSDMemory_whole_rows (v s) = Inl OutOfBounds"
  proof (rule whole_rows_overread)
    show "sta_ok (v s)" using s(3) by (simp add: sta_ok_def v_def)
    show "0 = sp_sta_current_index_metadata (v s)" "0 < sp_dim_sta (v s)" using s(3,6) by (simp_all add: v_def sta_ok_def)
    show "v s = rows_config (v s) (sp_sta_counters_table (v s)) []" using s(4,5) by (simp add: rows_config_def v_def)
    show "length (sp_STA_metadata (v s)) = sp_dim_sta (v s) * sp_K (v s)" using l(1) by (simp add: v_def)
    have "sta_set (v s) = sta_set s" by (simp add: fun_eq_iff sta_set_def sta_ix_def v_def)
    then have "rows_size (v s) 0 (sp_dim_sta (v s)) = rows_size s 0 (sp_dim_sta s)"
      by (simp add: rows_size_def row_size_def ones_def) (simp add: v_def)
    then show "rows_size (v s) 0 (sp_dim_sta (v s)) < pm_num_ms (v s)" using fits by (simp add: v_def)
  qed
  have "(v s)\<lparr>sp_configurationVNs := [], sp_vnat_table := []\<rparr> = v s" using s(4,5) by (simp add: v_def)
  then have "SparseSDMemory_configure (v s, mn, an) = Inl OutOfBounds" for mn an
    using w s(7) by (simp add: SparseSDMemory_configure_def Let_def) (simp add: v_def)
  then have "SparseSDMemory_cycle (s, mn, an, st) = Inl OutOfBounds" for mn an st
    using s(8-10) by (simp add: SparseSDMemory_cycle_def v_def Let_def)
  then show ?thesis using s(1) by blast
qed

theorem sparse_overread_witness:
  "\<exists>s :: int SparseSDMemory. sparse_machine four_ports None small_layer MK_STA_KN_STR
       ([5, 6, 7], [1, 0, 1, 0, 1, 0]) ([1, 2, 3, 4], [1, 0, 1, 1, 0, 1]) [0, 0, 0, 0] = Inr s
   \<and> (\<forall>mn an st. SparseSDMemory_cycle (s, mn, an, st) = Inl OutOfBounds)"
proof -
  have m: "matrix_ok (2 * 3) ([5, 6, 7 :: int], [1, 0, 1, 0, 1, 0])" "matrix_ok (2 * 3) ([1, 2, 3, 4 :: int], [1, 0, 1, 1, 0, 1])" by code_simp+
  show ?thesis
    by (rule sparse_overread [where M = 2 and K = 3 and N = 2, OF _ _ _ _ _ _ _ _ _ _ _ m]) (simp_all add: small_layer_ok four_ports_ok u32_max_def)
qed

text \<open>
  C12: A package for multipliers anywhere in the array is split over the read ports: after
  \<open>sendPackageToInputFifos\<close> every multiplier among the destinations has the package once in the fifo of its
  port, addressed to it, behind what waited there before; no other multiplier gets anything.
\<close>

theorem multicast_split:
  assumes "ports_ok m" "p_traffic_type p = MULTICAST" "p_data_type p \<noteq> PSUM" "p_dests p = Some dests" "length dests = pm_num_ms m"
  shows "\<exists>m'. mem_sendPackageToInputFifos p m = Inr m' \<and> m' = m\<lparr>pm_input_fifos := pm_input_fifos m'\<rparr>
     \<and> (\<forall>d < pm_num_ms m. queued m' d = queued m d @ (if dests ! d then [(p_data_type p, p_data p)] else []))"
  using send_multicast [OF assms] unfolding feeds_def by blast

theorem multicast_split_witness:
  "\<exists>m m'. MemPorts_new four_ports None = Inr m
     \<and> mem_sendPackageToInputFifos (DataPackage_multicast sizeof_data_t (7::int) IACTIVATION 0 MULTICAST [False, True, True, False] 4) m = Inr m'
     \<and> queued m' 0 = [] \<and> queued m' 1 = [(IACTIVATION, 7)] \<and> queued m' 2 = [(IACTIVATION, 7)] \<and> queued m' 3 = []"
proof -
  obtain m :: "int MemPorts" where m: "MemPorts_new four_ports None = Inr m" "pm_num_ms m = 4" "pm_n_read_ports m = 2" "pm_ms_size_per_input_port m = 2"
    "pm_input_fifos m = replicate 2 (Fifo_new 256)"
    by (simp add: MemPorts_new_def four_ports_def Config_reset_def Let_def)
  have ok: "ports_ok m" using m by (simp add: ports_ok_def u32_max_def)
  let ?p = "DataPackage_multicast sizeof_data_t (7::int) IACTIVATION 0 MULTICAST [False, True, True, False] 4"
  have p: "p_traffic_type ?p = MULTICAST" "p_data_type ?p = IACTIVATION" "p_dests ?p = Some [False, True, True, False]" "p_data ?p = 7"
    by (simp_all add: DataPackage_multicast_def DataPackage_traffic_def DataPackage_general_def)
  have n: "IACTIVATION \<noteq> PSUM" "length [False, True, True, False] = pm_num_ms m" using m(2) by simp_all
  obtain m' where m': "mem_sendPackageToInputFifos ?p m = Inr m'"
    "\<forall>d < 4. queued m' d = queued m d @ (if [False, True, True, False] ! d then [(IACTIVATION, 7)] else [])"
    using multicast_split [of m ?p, unfolded p, OF ok refl n(1) refl n(2)] m(2) by auto
  have "queued m d = []" if "d < 4" for d
    using ports_okD(2) [OF ok, of d] that m(2) by (simp add: queued_def m(5) Fifo_new_def)
  then have "queued m' 0 = []" "queued m' 1 = [(IACTIVATION, 7)]" "queued m' 2 = [(IACTIVATION, 7)]" "queued m' 3 = []"
    using m'(2) [rule_format, of 0] m'(2) [rule_format, of 1] m'(2) [rule_format, of 2] m'(2) [rule_format, of 3] by simp_all
  then show ?thesis using m(1) m'(1) by blast
qed

end
