(* ===== verification/SparsePhase.thy ===== *)
theory SparsePhase
  imports SparseTop
begin

text \<open>
  The sparse controller clocked from cycle to cycle: the phases follow each other, and the iterations
  take the rows of the stationary matrix one after the other until all are done.
\<close>

section \<open>If it returns\<close>














section \<open>What a cycle leaves as it is\<close>

text \<open>The ports and everything that the extension of the record holds.\<close>

definition port_frame :: "('d, 'z) ported \<Rightarrow> nat \<times> nat \<times> nat \<times> nat \<times> 'z" where
  "port_frame m = (pm_num_ms m, pm_n_read_ports m, pm_ms_size_per_input_port m, length (pm_input_fifos m), MemPorts.more m)"

lemma port_frame_update [simp]:
  "port_frame (m\<lparr>pm_write_fifo := q\<rparr>) = port_frame m" "port_frame (m\<lparr>pm_stats := ss\<rparr>) = port_frame m"
  "port_frame (m\<lparr>pm_psum_fifos := ps\<rparr>) = port_frame m" "port_frame (m\<lparr>pm_local_cycle := k\<rparr>) = port_frame m"
  "length fs = length (pm_input_fifos m) \<Longrightarrow> port_frame (m\<lparr>pm_input_fifos := fs\<rparr>) = port_frame m"
  by (simp_all add: port_frame_def)









section \<open>The frame of the controller\<close>

text \<open>What no cycle changes, and what steers the next cycle.\<close>

definition fixed_part :: "'d SparseSDMemory \<Rightarrow> (nat \<times> nat \<times> nat \<times> nat) \<times> (nat \<times> nat \<times> nat \<times> nat \<times> nat \<times> nat \<times> nat)
    \<times> ('d list \<times> 'd list \<times> nat list \<times> nat list) \<times> nat \<times> nat" where
  "fixed_part s = ((pm_num_ms s, pm_n_read_ports s, pm_ms_size_per_input_port s, length (pm_input_fifos s)),
     (sp_dim_sta s, sp_K s, sp_dim_str s, sp_STA_DIST_ELEM s, sp_STA_DIST_VECTOR s, sp_STR_DIST_ELEM s, sp_STR_DIST_VECTOR s),
     (sp_STA_address s, sp_STR_address s, sp_STA_metadata s, sp_STR_metadata s), length (sp_sta_counters_table s), length (sp_str_counters_table s))"

definition control_part :: "'d SparseSDMemory \<Rightarrow> SparsityControllerState \<times> SparseVN list \<times> nat \<times> nat \<times> nat \<times> nat \<times> nat \<times> bool" where
  "control_part s = (sp_current_state s, sp_configurationVNs s, sp_sta_last_j_metadata s, sp_sta_current_j_metadata s,
     sp_sta_current_index_metadata s, sp_sta_current_index_matrix s, sp_str_current_index s, sp_execution_finished s)"

definition frame :: "'d SparseSDMemory \<Rightarrow> _" where
  "frame s = (fixed_part s, control_part s)"



lemma frame_update [simp]:
  "frame (s\<lparr>pm_stats := ss\<rparr>) = frame s" "frame (s\<lparr>pm_local_cycle := k\<rparr>) = frame s" "frame (s\<lparr>pm_write_fifo := q\<rparr>) = frame s"
  "frame (s\<lparr>sp_n_ones_sta_matrix := n\<rparr>) = frame s" "frame (s\<lparr>sp_vnat_table := v\<rparr>) = frame s" "frame (s\<lparr>sp_output_address := out\<rparr>) = frame s"
  "frame (s\<lparr>sp_current_output := n\<rparr>) = frame s" "frame (s\<lparr>sp_current_output_iteration := n\<rparr>) = frame s" "frame (s\<lparr>sp_sta_iter_completed := b\<rparr>) = frame s"
  "frame (s\<lparr>sp_output_size_iteration := n\<rparr>) = frame s"
  by (simp_all add: frame_def fixed_part_def control_part_def)











section \<open>The phases\<close>


text \<open>
  The state of a controller that started in \<open>s0\<close> and has configured the virtual neurons \<open>vs\<close> so far.
\<close>

definition taken :: "'d SparseSDMemory \<Rightarrow> SparseVN list \<Rightarrow> nat \<Rightarrow> nat \<Rightarrow> 'd SparseSDMemory \<Rightarrow> bool" where
  "taken s0 vs a b s \<longleftrightarrow> a < b \<and> b \<le> sp_dim_sta s0 \<and> rows_size s0 a b \<le> pm_num_ms s0 \<and> (b < sp_dim_sta s0 \<longrightarrow> pm_num_ms s0 < rows_size s0 a (Suc b))
     \<and> sp_sta_current_index_metadata s = a \<and> sp_sta_current_index_matrix s = rows_size s0 0 a \<and> sp_configurationVNs s = row_vns s0 a b
     \<and> sp_sta_last_j_metadata s = sp_K s0 \<and> vs = row_vns s0 0 b"


lemma taken_frame: "control_part s' = control_part s \<Longrightarrow> taken s0 vs a b s' = taken s0 vs a b s"
  by (simp add: taken_def control_part_def)




section \<open>A cycle\<close>












section \<open>Runs\<close>





end
