(* ===== verification/SparseResults.thy ===== *)
theory SparseResults
  imports SparseTop
begin

text \<open>
  Where the sparse controller writes the results that the bus brings: the \<open>n\<close>-th result of the \<open>v\<close>-th virtual
  neuron of an iteration is element \<open>n\<close> of the \<open>v\<close>-th row of the iteration.
\<close>

section \<open>The output matrix\<close>

text \<open>Element of stationary row \<open>i\<close> and streaming row \<open>n\<close>; which of the two is the row of the output depends on the dataflow.\<close>

definition res_ix :: "'d SparseSDMemory \<Rightarrow> nat \<Rightarrow> nat \<Rightarrow> nat" where
  "res_ix s i n = i * sp_OUT_DIST_VN s + n * sp_OUT_DIST_VN_ITERATION s"

definition result_at :: "'d SparseSDMemory \<Rightarrow> nat \<Rightarrow> nat \<Rightarrow> 'd" where
  "result_at s i n = sp_output_address s ! res_ix s i n"

definition outputs_ok :: "'d SparseSDMemory \<Rightarrow> bool" where
  "outputs_ok s \<longleftrightarrow> length (sp_output_address s) = sp_dim_sta s * sp_dim_str s \<and> sp_dim_sta s * sp_dim_str s < u32_max
     \<and> sp_dim_sta s < u32_max \<and> sp_dim_str s < u32_max
     \<and> (sp_OUT_DIST_VN s = sp_dim_str s \<and> sp_OUT_DIST_VN_ITERATION s = 1 \<or> sp_OUT_DIST_VN s = 1 \<and> sp_OUT_DIST_VN_ITERATION s = sp_dim_sta s)
     \<and> sp_sta_current_index_metadata s + length (sp_vnat_table s) \<le> sp_dim_sta s"

lemma res_ix_less:
  assumes "outputs_ok s" "i < sp_dim_sta s" "n < sp_dim_str s" shows "res_ix s i n < sp_dim_sta s * sp_dim_str s"
  using assms index_less [of i "sp_dim_sta s" n "sp_dim_str s"] index_less [of n "sp_dim_str s" i "sp_dim_sta s"]
  unfolding outputs_ok_def res_ix_def by (auto simp: algebra_simps)

lemma res_ix_inj:
  assumes "outputs_ok s" "i < sp_dim_sta s" "n < sp_dim_str s" "i' < sp_dim_sta s" "n' < sp_dim_str s"
  shows "res_ix s i n = res_ix s i' n' \<longleftrightarrow> i = i' \<and> n = n'"
proof -
  have e: "a * n + b = a' * n + b' \<longleftrightarrow> a = a' \<and> b = b'" if "b < n" "b' < n" for a b a' b' n :: nat
    using that by (metis add.commute div_mult_self1 div_less add.right_neutral add_left_cancel less_nat_zero_code add_cancel_right_left)
  consider "sp_OUT_DIST_VN s = sp_dim_str s" "sp_OUT_DIST_VN_ITERATION s = 1" | "sp_OUT_DIST_VN s = 1" "sp_OUT_DIST_VN_ITERATION s = sp_dim_sta s"
    using assms(1) unfolding outputs_ok_def by blast
  then show ?thesis
  proof cases
    case 1
    then show ?thesis using e [of n "sp_dim_str s" n' i i'] assms(3,5) by (simp add: res_ix_def)
  next
    case 2
    then show ?thesis using e [of i "sp_dim_sta s" i' n n'] assms(2,4) by (auto simp: res_ix_def add.commute)
  qed
qed

section \<open>Writing\<close>

lemma write_one:
  assumes ok: "outputs_ok s" and f: "f_fifo (pm_write_fifo s) = p # ps" and v: "p_VN p < length (sp_vnat_table s)"
    and n: "sp_vnat_table s ! p_VN p < sp_dim_str s" and c: "sp_current_output_iteration s < sp_output_size_iteration s" "sp_output_size_iteration s < u32_max"
  shows "\<exists>s'. SparseSDMemory_write s = Inr s' \<and> f_fifo (pm_write_fifo s') = ps
     \<and> sp_vnat_table s' = (sp_vnat_table s)[p_VN p := Suc (sp_vnat_table s ! p_VN p)]
     \<and> sp_output_address s' = (sp_output_address s)[res_ix s (sp_sta_current_index_metadata s + p_VN p) (sp_vnat_table s ! p_VN p) := p_data p]
     \<and> res_ix s' = res_ix s \<and> outputs_ok s' \<and> sp_sta_current_index_metadata s' = sp_sta_current_index_metadata s \<and> sp_dim_str s' = sp_dim_str s
     \<and> sp_dim_sta s' = sp_dim_sta s \<and> sp_output_size_iteration s' = sp_output_size_iteration s
     \<and> sp_current_output_iteration s' = (if Suc (sp_current_output_iteration s) = sp_output_size_iteration s then 0 else Suc (sp_current_output_iteration s))
     \<and> sp_sta_iter_completed s' = (Suc (sp_current_output_iteration s) = sp_output_size_iteration s \<or> sp_sta_iter_completed s)"
proof -
  let ?v = "p_VN p" and ?a = "sp_sta_current_index_metadata s"
  let ?k = "sp_vnat_table s ! ?v"
  have r: "?a + ?v < sp_dim_sta s" using ok v by (simp add: outputs_ok_def)
  have ix: "res_ix s (?a + ?v) ?k < sp_dim_sta s * sp_dim_str s" by (rule res_ix_less [OF ok r n])
  then have b: "(?a + ?v) * sp_OUT_DIST_VN s + ?k * sp_OUT_DIST_VN_ITERATION s < u32_max" "?a + ?v < u32_max"
    using ok r by (simp_all add: outputs_ok_def res_ix_def)
  have addr: "uadd (umul (uadd ?a ?v) (sp_OUT_DIST_VN s)) (umul ?k (sp_OUT_DIST_VN_ITERATION s)) = res_ix s (?a + ?v) ?k"
  proof -
    have "uadd ?a ?v = ?a + ?v" "umul (?a + ?v) (sp_OUT_DIST_VN s) = (?a + ?v) * sp_OUT_DIST_VN s"
      "umul ?k (sp_OUT_DIST_VN_ITERATION s) = ?k * sp_OUT_DIST_VN_ITERATION s" using b by (simp_all add: uadd_small umul_small)
    then show ?thesis using b(1) by (simp add: uadd_small res_ix_def)
  qed
  have u: "uadd ?k 1 = Suc ?k" "uadd (sp_current_output_iteration s) 1 = Suc (sp_current_output_iteration s)"
    using n ok c by (simp_all add: uadd_small outputs_ok_def)
  have len: "res_ix s (?a + ?v) ?k < length (sp_output_address s)" using ix ok by (simp add: outputs_ok_def)
  obtain q where q: "Fifo_pop (pm_write_fifo s) = Inr (p, q)" "f_fifo q = ps" using f by (auto simp: Fifo_pop_def)
  show ?thesis
    using q v len ok by (simp add: SparseSDMemory_write_def addr u [unfolded One_nat_def] Let_def) (simp add: fun_eq_iff res_ix_def outputs_ok_def)
qed

text \<open>The packages of virtual neuron \<open>v\<close>, and what the output holds when those in \<open>ps\<close> have been written.\<close>

definition of_vn :: "nat \<Rightarrow> 'd DataPackage list \<Rightarrow> 'd DataPackage list" where
  "of_vn v ps = filter (\<lambda>p. p_VN p = v) ps"

definition placed :: "'d SparseSDMemory \<Rightarrow> 'd DataPackage list \<Rightarrow> nat \<Rightarrow> nat \<Rightarrow> 'd" where
  "placed s ps i n = (let a = sp_sta_current_index_metadata s; v = i - a; k = sp_vnat_table s ! v in
     if a \<le> i \<and> v < length (sp_vnat_table s) \<and> k \<le> n \<and> n < k + length (of_vn v ps) then p_data (of_vn v ps ! (n - k)) else result_at s i n)"

lemma of_vn_snoc: "of_vn v (ps @ [p]) = of_vn v ps @ (if p_VN p = v then [p] else [])"
  by (simp add: of_vn_def)

lemma placed_snoc:
  assumes "p_VN p < length (sp_vnat_table s)"
  shows "placed s (ps @ [p]) i n = (if i = sp_sta_current_index_metadata s + p_VN p \<and> n = sp_vnat_table s ! p_VN p + length (of_vn (p_VN p) ps)
     then p_data p else placed s ps i n)"
proof (cases "i = sp_sta_current_index_metadata s + p_VN p")
  case True
  then have v: "i - sp_sta_current_index_metadata s = p_VN p" by simp
  let ?k = "sp_vnat_table s ! p_VN p" and ?c = "length (of_vn (p_VN p) ps)"
  consider "n < ?k" | "?k \<le> n" "n < ?k + ?c" | "n = ?k + ?c" | "?k + ?c < n" by linarith
  then show ?thesis
    using assms True unfolding placed_def Let_def v of_vn_snoc by cases (auto simp: nth_append)
next
  case False
  then have "p_VN p \<noteq> i - sp_sta_current_index_metadata s \<or> \<not> sp_sta_current_index_metadata s \<le> i" by auto
  then show ?thesis using False unfolding placed_def Let_def of_vn_snoc by auto
qed

lemma results_written:
  fixes s :: "'d SparseSDMemory"
  assumes ok: "outputs_ok s" and f: "f_fifo (pm_write_fifo s) = ps" and vn: "\<forall>p \<in> set ps. p_VN p < length (sp_vnat_table s)"
    and cnt: "\<forall>v < length (sp_vnat_table s). sp_vnat_table s ! v + length (of_vn v ps) \<le> sp_dim_str s"
    and cur: "sp_current_output_iteration s + length ps \<le> sp_output_size_iteration s" "sp_output_size_iteration s < u32_max"
    and m: "m \<le> length ps"
  shows "\<exists>s'. rfold (\<lambda>_. SparseSDMemory_write) [0..<m] s = Inr s' \<and> f_fifo (pm_write_fifo s') = drop m ps
     \<and> (\<forall>i < sp_dim_sta s. \<forall>n < sp_dim_str s. result_at s' i n = placed s (take m ps) i n)
     \<and> length (sp_vnat_table s') = length (sp_vnat_table s)
     \<and> (\<forall>v < length (sp_vnat_table s). sp_vnat_table s' ! v = sp_vnat_table s ! v + length (of_vn v (take m ps)))
     \<and> res_ix s' = res_ix s \<and> outputs_ok s' \<and> sp_sta_current_index_metadata s' = sp_sta_current_index_metadata s \<and> sp_dim_str s' = sp_dim_str s
     \<and> sp_dim_sta s' = sp_dim_sta s \<and> sp_output_size_iteration s' = sp_output_size_iteration s
     \<and> (0 < m \<longrightarrow> sp_sta_iter_completed s' = (sp_current_output_iteration s + m = sp_output_size_iteration s \<or> sp_sta_iter_completed s))
     \<and> (sp_current_output_iteration s + m < sp_output_size_iteration s \<longrightarrow> sp_current_output_iteration s' = sp_current_output_iteration s + m)
     \<and> (m = 0 \<longrightarrow> sp_sta_iter_completed s' = sp_sta_iter_completed s)"
  using m
proof (induction m)
  case 0
  have "placed s [] i n = result_at s i n" for i n by (auto simp: placed_def of_vn_def Let_def)
  then show ?case using f ok by (intro exI [of _ s]) (simp add: of_vn_def)
next
  case (Suc m)
  let ?p = "ps ! m" and ?T = "take m ps"
  have m: "m < length ps" "m \<le> length ps" using Suc.prems by simp_all
  obtain s1 where s1: "rfold (\<lambda>_. SparseSDMemory_write) [0..<m] s = Inr s1" "f_fifo (pm_write_fifo s1) = drop m ps"
     "\<forall>i < sp_dim_sta s. \<forall>n < sp_dim_str s. result_at s1 i n = placed s ?T i n"
     "length (sp_vnat_table s1) = length (sp_vnat_table s)"
     "\<forall>v < length (sp_vnat_table s). sp_vnat_table s1 ! v = sp_vnat_table s ! v + length (of_vn v ?T)"
     "res_ix s1 = res_ix s" "outputs_ok s1" "sp_sta_current_index_metadata s1 = sp_sta_current_index_metadata s" "sp_dim_str s1 = sp_dim_str s"
     "sp_dim_sta s1 = sp_dim_sta s" "sp_output_size_iteration s1 = sp_output_size_iteration s"
     "sp_current_output_iteration s + m < sp_output_size_iteration s \<longrightarrow> sp_current_output_iteration s1 = sp_current_output_iteration s + m"
     and fin: "0 < m \<longrightarrow> sp_sta_iter_completed s1 = (sp_current_output_iteration s + m = sp_output_size_iteration s \<or> sp_sta_iter_completed s)"
     "m = 0 \<longrightarrow> sp_sta_iter_completed s1 = sp_sta_iter_completed s"
    using Suc.IH [OF m(2)] by blast
  have c: "sp_current_output_iteration s + m < sp_output_size_iteration s" using cur(1) m(1) by simp
  have old: "sp_sta_iter_completed s1 = sp_sta_iter_completed s" using fin c by (cases m) auto
  have dr: "drop m ps = ?p # drop (Suc m) ps" "take (Suc m) ps = ?T @ [?p]" using m(1) by (simp_all add: Cons_nth_drop_Suc take_Suc_conv_app_nth)
  have v: "p_VN ?p < length (sp_vnat_table s)" using vn m(1) by simp
  let ?v = "p_VN ?p"
  let ?k = "sp_vnat_table s ! ?v + length (of_vn ?v ?T)"
  have k1: "sp_vnat_table s1 ! ?v = ?k" using s1(5) v by simp
  have "length (of_vn ?v (take (Suc m) ps)) \<le> length (of_vn ?v ps)"
    unfolding of_vn_def by (subst (2) append_take_drop_id [of "Suc m" ps, symmetric]) (simp only: filter_append length_append le_add1)
  then have k: "?k < sp_dim_str s" using cnt [rule_format, OF v] unfolding dr(2) by (simp add: of_vn_snoc)
  have c1: "sp_current_output_iteration s1 < sp_output_size_iteration s1" "sp_output_size_iteration s1 < u32_max" using s1(11,12) c cur(2) by simp_all
  have f1: "f_fifo (pm_write_fifo s1) = ?p # drop (Suc m) ps" using s1(2) dr(1) by simp
  have v1: "?v < length (sp_vnat_table s1)" using v s1(4) by simp
  have n1: "sp_vnat_table s1 ! ?v < sp_dim_str s1" using k k1 s1(9) by simp
  obtain s2 where w: "SparseSDMemory_write s1 = Inr s2" "f_fifo (pm_write_fifo s2) = drop (Suc m) ps"
     "sp_vnat_table s2 = (sp_vnat_table s1)[?v := Suc (sp_vnat_table s1 ! ?v)]"
     "sp_output_address s2 = (sp_output_address s1)[res_ix s1 (sp_sta_current_index_metadata s1 + ?v) (sp_vnat_table s1 ! ?v) := p_data ?p]"
     "res_ix s2 = res_ix s1" "outputs_ok s2" "sp_sta_current_index_metadata s2 = sp_sta_current_index_metadata s1" "sp_dim_str s2 = sp_dim_str s1"
     "sp_dim_sta s2 = sp_dim_sta s1" "sp_output_size_iteration s2 = sp_output_size_iteration s1"
     "sp_current_output_iteration s2 = (if Suc (sp_current_output_iteration s1) = sp_output_size_iteration s1 then 0 else Suc (sp_current_output_iteration s1))"
     "sp_sta_iter_completed s2 = (Suc (sp_current_output_iteration s1) = sp_output_size_iteration s1 \<or> sp_sta_iter_completed s1)"
    using write_one [OF s1(7) f1 v1 n1 c1] by blast
  note s2 = w(1,2) w(3) [unfolded k1] w(4) [unfolded k1 s1(6,8)] w(5-)
  have row: "sp_sta_current_index_metadata s + ?v < sp_dim_sta s" using ok v by (simp add: outputs_ok_def)
  have len: "res_ix s (sp_sta_current_index_metadata s + ?v) ?k < length (sp_output_address s1)"
    using res_ix_less [OF ok row k] s1(7,9,10) by (simp add: outputs_ok_def)
  have "result_at s2 i n = placed s (take (Suc m) ps) i n" if i: "i < sp_dim_sta s" "n < sp_dim_str s" for i n
  proof -
    have "result_at s2 i n = (if i = sp_sta_current_index_metadata s + ?v \<and> n = ?k then p_data ?p else result_at s1 i n)"
      using len res_ix_inj [OF ok row k i] unfolding result_at_def s2(4,5) s1(6) by (auto simp: nth_list_update)
    then show ?thesis using s1(3) i unfolding dr(2) placed_snoc [OF v] by simp
  qed
  moreover have "sp_vnat_table s2 ! w = sp_vnat_table s ! w + length (of_vn w (take (Suc m) ps))" if "w < length (sp_vnat_table s)" for w
    using s1(4,5) that unfolding dr(2) s2(3) by (simp add: of_vn_snoc nth_list_update)
  moreover have "rfold (\<lambda>_. SparseSDMemory_write) [0..<Suc m] s = Inr s2" using s1(1) s2(1) by (simp add: rfold_append)
  moreover have "sp_sta_iter_completed s2 = (sp_current_output_iteration s + Suc m = sp_output_size_iteration s \<or> sp_sta_iter_completed s)"
    using s2(12) s1(11,12) c old by simp
  moreover have "sp_current_output_iteration s + Suc m < sp_output_size_iteration s \<longrightarrow> sp_current_output_iteration s2 = sp_current_output_iteration s + Suc m"
    using s2(11) s1(11,12) c by simp
  ultimately show ?case using s2(2,3,5-10) s1(4,6,8-11) by (intro exI [of _ s2]) simp
qed

section \<open>The loop that writes\<close>

text \<open>Each iteration takes a package and raises the counter: the loop ends at half of the packages, rounded up.\<close>

lemma write_loop_half:
  fixes s :: "('d, 'z) ported"
  assumes w: "\<And>k. k \<le> (n + 1) div 2 \<Longrightarrow> \<exists>s'. rfold (\<lambda>_. write) [0..<k] s = Inr s' \<and> length (f_fifo (pm_write_fifo s')) = n - k"
  shows "mem_write_loop write s = rfold (\<lambda>_. write) [0..<(n + 1) div 2] s"
proof -
  let ?h = "(n + 1) div 2"
  let ?b = "\<lambda>(i, m :: ('d, 'z) ported). i < length (f_fifo (pm_write_fifo m))"
  let ?f = "\<lambda>(i, m). rbind (write m) (\<lambda>m. Inr (i + 1, m))"
  obtain t where t: "rfold (\<lambda>_. write) [0..<?h] s = Inr t" "length (f_fifo (pm_write_fifo t)) = n - ?h" using w [OF order_refl] by blast
  have stop: "rwhile fuel ?b ?f (?h, t) = Inr (?h, t)" for fuel using t(2) by (cases fuel) auto
  have "rwhile fuel ?b ?f (k, s') = Inr (?h, t)"
    if "?h - k \<le> fuel" "k \<le> ?h" "rfold (\<lambda>_. write) [0..<k] s = Inr s'" for k s' fuel
    using that
  proof (induction fuel arbitrary: k s')
    case 0
    then have "k = ?h" "s' = t" using t(1) by auto
    then show ?case using t(2) by simp
  next
    case (Suc fuel)
    show ?case
    proof (cases "k = ?h")
      case True
      then show ?thesis using Suc.prems(3) t(1) stop [of "Suc fuel"] by simp
    next
      case False
      then have k: "k < ?h" using Suc.prems(2) by simp
      obtain s1 where s1: "rfold (\<lambda>_. write) [0..<Suc k] s = Inr s1" using w [of "Suc k"] k by auto
      have "length (f_fifo (pm_write_fifo s')) = n - k" using w [of k] Suc.prems(2,3) by auto
      then have "?b (k, s')" using k by simp
      moreover have "write s' = Inr s1" using s1 Suc.prems(3) by (cases "write s'") (simp_all add: rfold_append)
      moreover have "rwhile fuel ?b ?f (Suc k, s1) = Inr (?h, t)" using Suc.prems(1) k s1 by (intro Suc.IH) simp_all
      ultimately show ?thesis by simp
    qed
  qed
  from this [of 0 n s] have "rwhile n ?b ?f (0, s) = Inr (?h, t)" by simp
  moreover have "length (f_fifo (pm_write_fifo s)) = n" using w [of 0] by simp
  ultimately show ?thesis using t(1) by (simp add: mem_write_loop_def)
qed

text \<open>
  C7: What one pass of the write loop does with the results that wait. It takes half of the packages, rounded up,
  in the order of their arrival, and writes each to its place: the \<open>k\<close>-th package of virtual neuron \<open>v\<close> since
  the configuration becomes element \<open>k\<close> of row \<open>a + v\<close>, in both layouts of the output; nothing else is
  written, the others keep waiting, and the iteration is reported complete when its last result is written.
\<close>

theorem sparse_results_placed:
  fixes s :: "'d SparseSDMemory"
  defines "ps \<equiv> f_fifo (pm_write_fifo s)" and "h \<equiv> (length (f_fifo (pm_write_fifo s)) + 1) div 2"
  assumes ok: "outputs_ok s" and vn: "\<forall>p \<in> set ps. p_VN p < length (sp_vnat_table s)"
    and cnt: "\<forall>v < length (sp_vnat_table s). sp_vnat_table s ! v + length (of_vn v ps) \<le> sp_dim_str s"
    and cur: "sp_current_output_iteration s + length ps \<le> sp_output_size_iteration s" "sp_output_size_iteration s < u32_max" and some: "ps \<noteq> []"
  shows "\<exists>s'. mem_write_loop SparseSDMemory_write s = Inr s' \<and> f_fifo (pm_write_fifo s') = drop h ps
     \<and> (\<forall>i < sp_dim_sta s. \<forall>n < sp_dim_str s. result_at s' i n = placed s (take h ps) i n)
     \<and> (\<forall>v < length (sp_vnat_table s). sp_vnat_table s' ! v = sp_vnat_table s ! v + length (of_vn v (take h ps)))
     \<and> sp_sta_iter_completed s' = (sp_current_output_iteration s + h = sp_output_size_iteration s \<or> sp_sta_iter_completed s)"
proof -
  have h: "h \<le> length ps" "0 < h" using some by (cases "length ps"; simp add: h_def ps_def)+
  have f: "f_fifo (pm_write_fifo s) = ps" by (simp add: ps_def)
  note W = results_written [OF ok f vn cnt cur]
  have hd: "(length ps + 1) div 2 = h" by (simp add: h_def ps_def)
  have "mem_write_loop SparseSDMemory_write s = rfold (\<lambda>_. SparseSDMemory_write) [0..<(length ps + 1) div 2] s"
  proof (rule write_loop_half)
    fix k assume "k \<le> (length ps + 1) div 2"
    then have "k \<le> length ps" using h hd by simp
    from W [OF this] obtain s' where "rfold (\<lambda>_. SparseSDMemory_write) [0..<k] s = Inr s'" "f_fifo (pm_write_fifo s') = drop k ps" by blast
    then show "\<exists>s'. rfold (\<lambda>_. SparseSDMemory_write) [0..<k] s = Inr s' \<and> length (f_fifo (pm_write_fifo s')) = length ps - k" by simp
  qed
  note e = this [unfolded hd]
  show ?thesis unfolding e using W [OF h(1)] h(2) by blast
qed

text \<open>Two rows of two elements, and three results that wait.\<close>

definition a_result :: "nat \<Rightarrow> int \<Rightarrow> int DataPackage" where
  "a_result v d = uninit\<lparr>p_data := d, p_VN := v\<rparr>"

definition three_waiting :: "int SparseSDMemory" where
  "three_waiting = uninit\<lparr>sp_dim_sta := 2, sp_dim_str := 2, sp_OUT_DIST_VN := 2, sp_OUT_DIST_VN_ITERATION := 1, sp_sta_current_index_metadata := 0,
     sp_vnat_table := [0, 0], sp_output_address := [0, 0, 0, 0], sp_current_output_iteration := 0, sp_output_size_iteration := 4,
     sp_sta_iter_completed := False, pm_write_fifo := Fifo_push_all [a_result 0 5, a_result 1 7, a_result 0 6] (Fifo_new 8)\<rparr>"

theorem sparse_results_placed_witness:
  "\<exists>s'. mem_write_loop SparseSDMemory_write three_waiting = Inr s' \<and> f_fifo (pm_write_fifo s') = [a_result 0 6]
     \<and> result_at s' 0 0 = 5 \<and> result_at s' 0 1 = 0 \<and> result_at s' 1 0 = 7 \<and> \<not> sp_sta_iter_completed s'"
proof -
  have f: "f_fifo (pm_write_fifo three_waiting) = [a_result 0 5, a_result 1 7, a_result 0 6]" by (simp add: three_waiting_def Fifo_new_def)
  have vn: "p_VN (a_result v d) = v" "p_data (a_result v d) = d" for v d by (simp_all add: a_result_def)
  have l: "sp_dim_sta three_waiting = 2" "sp_dim_str three_waiting = 2" "sp_vnat_table three_waiting = [0, 0]" "sp_current_output_iteration three_waiting = 0"
    "sp_output_size_iteration three_waiting = 4" "sp_sta_current_index_metadata three_waiting = 0" "\<not> sp_sta_iter_completed three_waiting"
    "sp_output_address three_waiting = [0, 0, 0, 0]" "res_ix three_waiting = (\<lambda>i n. i * 2 + n)"
    by (simp_all add: three_waiting_def res_ix_def fun_eq_iff)
  have ok: "outputs_ok three_waiting" by (simp add: outputs_ok_def three_waiting_def u32_max_def)
  let ?ps = "[a_result 0 5, a_result 1 7, a_result 0 6]"
  have p: "\<forall>p \<in> set ?ps. p_VN p < length [0, 0 :: nat]" "0 + length ?ps \<le> 4" "(4::nat) < u32_max" "?ps \<noteq> []" by (simp_all add: vn u32_max_def)
  have c: "\<forall>v < length [0, 0 :: nat]. [0, 0] ! v + length (of_vn v ?ps) \<le> 2" by (auto simp: of_vn_def vn less_Suc_eq)
  have h: "(length ?ps + 1) div 2 = 2" by simp
  obtain s' where s': "mem_write_loop SparseSDMemory_write three_waiting = Inr s'" "f_fifo (pm_write_fifo s') = drop 2 ?ps"
    "\<forall>i < 2. \<forall>n < 2. result_at s' i n = placed three_waiting (take 2 ?ps) i n" "sp_sta_iter_completed s' = (0 + 2 = (4::nat) \<or> False)"
    using sparse_results_placed [OF ok, unfolded f l h, OF p(1) c p(2-4)] l(7) by auto
  have "result_at s' 0 0 = 5" "result_at s' 0 1 = 0" "result_at s' 1 0 = 7"
    using s'(3) [rule_format, of 0 0] s'(3) [rule_format, of 0 1] s'(3) [rule_format, of 1 0]
    by (simp_all add: placed_def l of_vn_def vn Let_def result_at_def)
  then show ?thesis using s'(1,2,4) by (intro exI [of _ s']) simp
qed

end
