(* ===== verification/Spec2Isabelle.thy ===== *)
theory Spec2Isabelle
  imports Loading MeshRun DistTree Reference Ordering LinearTop ArtPorts SparsePhase SparseResults
begin

text \<open>
  A model of STONNE, a cycle-level simulator of accelerators for neural networks
  (\<^verbatim>\<open>src/stonne/stonne\<close>, C++), and the theorems that make it correct. File names below are relative
  to \<^verbatim>\<open>src/stonne/stonne/src\<close> unless a directory is named; definitions keep the names of the code.

  \<^bold>\<open>The program.\<close> A machine is a memory controller, a distribution network, a multiplier network, a
  reduction network and a bus, connected by links. \<^verbatim>\<open>STONNEModel.cpp\<close> builds the machine, loads a
  layer and a tile and then clocks the parts, one after the other, until the controller reports that
  the output is complete. Each part has its own state and a method \<^verbatim>\<open>cycle\<close>; parts interact only
  through links (\<^verbatim>\<open>Connection.cpp\<close>), which hold the packages of one cycle, and through the signals
  the controller sets when a tile starts.

  \<^bold>\<open>How the code is represented.\<close> A class is a record, an enumeration a datatype, a method a function
  on the record. A pointer to a link is an identifier (\<open>cid option\<close>) into a store of links, so that
  two units that share a link share its state. An assertion, a null pointer, a read or write out of
  bounds, a division by zero or the use of a value that was never set is a branch that returns
  \<open>Inl\<close> of an \<open>serr\<close>; a for-loop that can abort is \<open>rfold\<close>. \<open>unsigned int\<close> values that
  steer the control flow are natural numbers with the wrap-around written out (\<open>uadd\<close>, \<open>usub\<close>,
  \<open>umul\<close>); counters of statistics are 32-bit words. The element type of packages is a type
  variable, for which the code has \<^verbatim>\<open>float\<close>. No definition assumes a law of arithmetic, and sums are stated in
  the order of the code, so that they hold for \<^verbatim>\<open>float\<close> bit for bit. Two theorems do assume laws, and have them as
  hypotheses: the comparison with the reference implementation, that \<open>0 + x = x\<close>, and the one on
  the operands of a sparse iteration, that \<open>0\<close> is neutral and absorbing (\<open>semiring_0\<close>). Quotients that the code
  computes in \<^verbatim>\<open>float\<close> to size a loop are numbers rounded to 24 bits (\<open>f32_of_nat\<close>, \<open>f32_ceil_div\<close>); an
  \<^verbatim>\<open>int\<close> counter that overflows is the error \<open>IntOverflow\<close> where sizes can reach it. \<^verbatim>\<open>std::map\<close> is a list of entries in the order of keys, written by
  \<open>smap_put\<close>. Memory is not released in the model. Printing is left out.

  \<^bold>\<open>The theories.\<close>
    \<^item> \<open>Prelude\<close>: results that can abort, loops, ordered maps, unsigned and rounded arithmetic, the locale
      \<open>clocked\<close> (what a loop of steps returns).
    \<^item> \<open>Types\<close>: \<^verbatim>\<open>include/types.h\<close>, \<^verbatim>\<open>Stats.cpp\<close>, \<^verbatim>\<open>Config.cpp\<close>, \<^verbatim>\<open>Tile.cpp\<close>, \<^verbatim>\<open>DNNLayer.cpp\<close>,
      \<^verbatim>\<open>DataPackage.cpp\<close>.
    \<^item> \<open>Links\<close>: \<^verbatim>\<open>Connection.cpp\<close>, \<^verbatim>\<open>Fifo.cpp\<close>, \<^verbatim>\<open>LookupTable.cpp\<close>, and the locales \<open>channel\<close> and
      \<open>fifo_queue\<close> that state what their clients rely on; both are interpreted on the code's model.
    \<^item> \<open>DistNet\<close>, \<open>DistTree\<close>: the distribution network (\<^verbatim>\<open>DSwitch.cpp\<close>, \<^verbatim>\<open>DSNetwork.cpp\<close>,
      \<^verbatim>\<open>DSNetworkTop.cpp\<close>) and its routing.
    \<^item> \<open>Mesh\<close>, \<open>MeshSetup\<close>, \<open>MeshRun\<close>: the output-stationary mesh (\<^verbatim>\<open>MultiplierOS.cpp\<close>,
      \<^verbatim>\<open>OSMeshMN.cpp\<close>, \<^verbatim>\<open>CompilerMultiplierMesh.cpp\<close>), its construction and its systolic schedule.
    \<^item> \<open>MSwitch\<close>, \<open>LinearMN\<close>, \<open>LinearSignals\<close>, \<open>LinearRun\<close>, \<open>LinearTop\<close>: the linear multiplier
      network (\<^verbatim>\<open>MSwitch.cpp\<close>, \<^verbatim>\<open>MSNetwork.cpp\<close>, \<^verbatim>\<open>CompilerMSN.cpp\<close>), its signals and the reuse of
      activations between neighbours.
    \<^item> \<open>Accum\<close>: the temporal reduction network (\<^verbatim>\<open>Accumulator.cpp\<close>, \<^verbatim>\<open>AccumulationBuffer.cpp\<close>,
      \<^verbatim>\<open>TemporalRN.cpp\<close>).
    \<^item> \<open>ASwitch\<close>, \<open>ASNetwork\<close>, \<open>CompilerART\<close>: the adder tree (\<^verbatim>\<open>ASwitch.cpp\<close>, \<^verbatim>\<open>ASNetwork.cpp\<close>,
      \<^verbatim>\<open>CompilerART.cpp\<close>). \<open>ArtSignals\<close>, \<open>ArtLevel\<close>, \<open>ArtPlan\<close>, \<open>ArtConfig\<close>: what the compiler makes of
      virtual neurons that lie side by side, level by level. \<open>AdderCycle\<close>: the cycle of a switch in each
      configuration. \<open>ArtNet\<close>, \<open>ArtRoute\<close>: wiring and configuration of the switches. \<open>ArtJob\<close>,
      \<open>ArtWave\<close>, \<open>ArtCycle\<close>, \<open>ArtSum\<close>, \<open>ArtRun\<close>: waves of products on their way through the tree and when
      each partial sum is where. \<open>ArtTop\<close>: the contract \<open>tree_reduces\<close> and its proof. \<open>ArtPorts\<close>: the
      connections to the bus and the theorems.
    \<^item> \<open>Bus\<close>: \<^verbatim>\<open>CollectionBusLine.cpp\<close>, \<^verbatim>\<open>CollectionBus.cpp\<close>.
    \<^item> \<open>OSMem\<close>, \<open>MemRun\<close>: the memory controller \<^verbatim>\<open>OSMeshSDMemory.cpp\<close> and its phases.
    \<^item> \<open>MemPorts\<close>: ports, fifos and connections of the controllers of the linear machine. \<open>SparseMem\<close>: the
      sparse controller (\<^verbatim>\<open>SparseSDMemory.cpp\<close>). \<open>SparseRows\<close>: which rows an iteration takes. \<open>PortFeed\<close>:
      how a package is split over the ports. \<open>SparseFeed\<close>, \<open>SparseIter\<close>: the operands of an iteration.
      \<open>SparseTop\<close>: loading, and the theorems on an iteration. \<open>SparsePhase\<close>: the phases of the controller from
      cycle to cycle, and rules for results that may be errors (\<open>ok_res\<close>). \<open>SparseResults\<close>: where results go.
    \<^item> \<open>Stonne\<close>, \<open>Loading\<close>, \<open>Boot\<close>, \<open>Flow\<close>, \<open>Simulation\<close>: \<^verbatim>\<open>STONNEModel.cpp\<close> for the
      output-stationary machine: construction, loading, what is under way in a running tile, the loop.
    \<^item> \<open>Reference\<close>: the reference implementations of \<^verbatim>\<open>testbench.cpp\<close>.
    \<^item> \<open>Sparse\<close>, \<open>Ordering\<close>: the matrix routines of \<^verbatim>\<open>utility.cpp\<close>.

  \<^bold>\<open>What the theorems show.\<close> The first group (this theory) is about a whole simulation: a dense
  product on an output-stationary machine, from the constructor to the end of the loop, computes
  the product, agrees with the reference implementation the program checks itself with, does not
  depend on the tile, and always ends without an abort. The loop is \<open>partial_function\<close>, so that a
  result \<open>Some\<close> says that it ended; the invariant of the loop is \<open>running\<close>, and the interpretation
  \<open>machine\<close> of \<open>clocked\<close> says what the loop returns. The other groups are about the parts: the systolic schedule and
  the cycle of a multiplier; routing in the tree; conservation and fairness of a bus line; the sums
  of an accumulator; the signals and the sliding windows of the linear network; the adder tree, which
  refines the contract that a virtual neuron's sum leaves at one switch after a fixed delay; the rows and operands of an iteration
  of the sparse controller, its phases in every run, and the places of its results; what the loaders
  accept, refuse and let through; the lookup table; round trips of compressed formats and of
  reordered matrices. Theorems about errors show inputs on which the code aborts or
  on which a check does not check what it means to.

  \<^bold>\<open>Bounds.\<close> Sizes are below \<open>2 ^ 32\<close> where the code stores them as \<open>unsigned int\<close>; the hypotheses
  (\<open>gemm_ok\<close>, \<open>layer_ok\<close>, \<open>tile_fits\<close>) say which products must not wrap. \<open>Stonne_cycle\<close> has no fuel.
  The adder tree delivers every sum within \<open>2 * L\<close> cycles on \<open>2 ^ L\<close> multipliers; \<open>sizes_ok\<close> says which
  sizes of virtual neurons it sums. The distribution tree routes exactly up to \<open>2 ^ 23\<close> leaves, where its
  \<^verbatim>\<open>float\<close> middles are exact.
  The loops of the sparse controller over bitmaps are \<open>rwhile\<close> with the number of elements as fuel,
  which \<open>rows_loop\<close> shows to be enough.
  The parser of configuration files (\<^verbatim>\<open>external/cpptoml.h\<close>) is a parameter: the table it returns.

  \<^bold>\<open>Not modelled.\<close> The folded adder network (\<^verbatim>\<open>FENetwork.cpp\<close>), the controllers of the
  linear machine other than the sparse one (\<^verbatim>\<open>SDMemory.cpp\<close>, \<^verbatim>\<open>SparseDenseSDMemory.cpp\<close>) and the tile
  generators (\<^verbatim>\<open>TileGenerator\<close>). The sparse controller configures the linear multiplier network and the
  adder tree; \<open>Stonne\<close> is the output-stationary machine only, so it is not clocked together with them.
  The drivers of \<^verbatim>\<open>main.cpp\<close> and \<^verbatim>\<open>testbench.cpp\<close> generate random data and print; the bindings to
  PyTorch are glue. \<open>Stonne\<close> clocks the machine without the distribution network, as the code does:
  its call is commented out, so only networks with one multiplier per port deliver anything.
\<close>

section \<open>A machine to try the theorems on\<close>

lemma demo_os_config: "os_config small_config" "bus_ports small_config = 4"
  by (simp_all add: os_config_def os_parts_def small_config_def Config_reset_def bus_ports_def u32_max_def uadd_def)

lemma demo_gemm_ok: "gemm_ok small_config 3 3 2 2 2 1 [1, 2, 3, 4, 5, 6] [1, 0, 0, 1, 1, 1] (replicate 9 (0::int))"
  using demo_os_config
  by (simp add: gemm_ok_def tile_fits_def small_config_def u32_max_def)

lemma completed_output:
  "completed (job_of cfg M N K tM tN MK KN) sm \<longleftrightarrow> sm_execution_finished sm \<and> length (sm_output_address sm) = M * N
     \<and> (\<forall>m < M. \<forall>n < N. sm_output_address sm ! (m * N + n) =
          foldl (+) (MK ! (m * K) * KN ! (n * K)) (map (\<lambda>k. MK ! (m * K + k) * KN ! (n * K + k)) [1..<K]))"
proof -
  have t: "term_at (job_of cfg M N K tM tN MK KN) m n = (\<lambda>k. MK ! (m * K + k) * KN ! (n * K + k))" for m n
    by (simp add: fun_eq_iff term_at_def job_of_def)
  have "dot (job_of cfg M N K tM tN MK KN) m n =
      foldl (+) (MK ! (m * K) * KN ! (n * K)) (map (\<lambda>k. MK ! (m * K + k) * KN ! (n * K + k)) [1..<K])" for m n
    unfolding dot_def t by (simp add: job_of_def)
  then show ?thesis by (auto simp: completed_def out_ok_def job_of_def)
qed

lemma completed_nth:
  assumes "completed (job_of cfg M N K tM tN MK KN) sm" and "0 < N" and "i < M * N"
  shows "sm_output_address sm ! i = foldl (+) (MK ! (i div N * K) * KN ! (i mod N * K))
    (map (\<lambda>k. MK ! (i div N * K + k) * KN ! (i mod N * K + k)) [1..<K])"
proof -
  have "i div N < M" "i mod N < N" using assms(2,3) by (simp_all add: less_mult_imp_div_less)
  then have "sm_output_address sm ! (i div N * N + i mod N) = foldl (+) (MK ! (i div N * K) * KN ! (i mod N * K))
    (map (\<lambda>k. MK ! (i div N * K + k) * KN ! (i mod N * K + k)) [1..<K])"
    using assms(1) unfolding completed_output by blast
  then show ?thesis by simp
qed

lemma gemm_at_left_fold:
  fixes MK :: "'d::{zero,plus,times} list"
  assumes "\<forall>x::'d. 0 + x = x" and "0 < K"
  shows "gemm_at K MK KN m n =
    foldl (+) (MK ! (m * K) * KN ! (n * K)) (map (\<lambda>k. MK ! (m * K + k) * KN ! (n * K + k)) [1..<K])"
  using assms by (simp add: gemm_at_def upt_conv_Cons foldl_map)

lemma demo_running:
  "\<exists>s. running (job_of small_config 3 3 2 2 2 [1, 2, 3, 4, 5, 6] [1, 0, 0, 1, 1, 1 :: int]) s"
  using loaded_running [OF demo_gemm_ok] by blast

section \<open>The simulated product\<close>

text \<open>
  C1: a dense matrix product on an output-stationary machine, from the constructor to the end of
  the simulation. Whatever the sizes of the array and the tile, the loop ends without an abort and
  every element of the output is the left-to-right sum, in the order of \<open>K\<close>, of the products of a
  row of the first and a row of the (transposed) second matrix. No law of arithmetic is used: the
  result is the same, bit for bit, for any addition and multiplication.
\<close>

theorem gemm_simulation_correct:
  fixes MK KN out :: "'d::{plus,times} list"
  assumes "gemm_ok cfg M N K tM tN tK MK KN out"
  shows "\<exists>s. run_gemm cfg M N K tM tN tK MK KN out df = Some (Inr s) \<and> length (sm_output_address (st_mem s)) = M * N
     \<and> (\<forall>m < M. \<forall>n < N. sm_output_address (st_mem s) ! (m * N + n) =
          foldl (+) (MK ! (m * K) * KN ! (n * K)) (map (\<lambda>k. MK ! (m * K + k) * KN ! (n * K + k)) [1..<K]))"
  using run_gemm_completed [OF assms, of df] by (auto simp: completed_output)

theorem gemm_simulation_correct_witness:
  "\<exists>s. run_gemm small_config 3 3 2 2 2 1 [1, 2, 3, 4, 5, 6] [1, 0, 0, 1, 1, 1] (replicate 9 (0::int)) CNN_DATAFLOW
        = Some (Inr s)
     \<and> length (sm_output_address (st_mem s)) = 9
     \<and> sm_output_address (st_mem s) ! 0 = 1 \<and> sm_output_address (st_mem s) ! 5 = 7
     \<and> sm_output_address (st_mem s) ! 8 = 11"
proof -
  obtain s where s: "run_gemm small_config 3 3 2 2 2 1 [1, 2, 3, 4, 5, 6] [1, 0, 0, 1, 1, 1] (replicate 9 (0::int)) CNN_DATAFLOW
        = Some (Inr s)" "length (sm_output_address (st_mem s)) = 3 * 3"
    and e: "\<forall>m < 3. \<forall>n < 3. sm_output_address (st_mem s) ! (m * 3 + n) =
          foldl (+) ([1, 2, 3, 4, 5, 6::int] ! (m * 2) * [1, 0, 0, 1, 1, 1] ! (n * 2))
            (map (\<lambda>k. [1, 2, 3, 4, 5, 6] ! (m * 2 + k) * [1, 0, 0, 1, 1, 1] ! (n * 2 + k)) [1..<2])"
    using gemm_simulation_correct [OF demo_gemm_ok, of CNN_DATAFLOW] by blast
  have "sm_output_address (st_mem s) ! 0 = 1" using e [rule_format, of 0 0] by (simp add: upt_rec)
  moreover have "sm_output_address (st_mem s) ! 5 = 7" using e [rule_format, of 1 2] by (simp add: upt_rec)
  moreover have "sm_output_address (st_mem s) ! 8 = 11" using e [rule_format, of 2 2] by (simp add: upt_rec)
  ultimately show ?thesis using s by auto
qed


text \<open>
  C2: the check at the end of \<open>runDenseGEMMCommand\<close> of \<^verbatim>\<open>main.cpp\<close>. The program computes the
  product a second time with \<open>sequential_layer\<close> and compares: the two outputs are equal, not only
  up to the tolerance, whenever \<open>0 + x = x\<close> (the reference starts its sums at zero, the simulator
  at the first product).
\<close>

theorem gemm_simulation_matches_reference:
  fixes MK KN out cpu :: "'d::{zero,plus,times} list"
  assumes zero: "\<forall>x::'d. 0 + x = x" and gemm: "gemm_ok cfg M N K tM tN tK MK KN out" and cpu: "length cpu = M * N"
  shows "\<exists>s. run_gemm cfg M N K tM tN tK MK KN out df = Some (Inr s)
     \<and> sequential_layer 1 K 1 N 1 1 M K 1 MK KN cpu = Inr (sm_output_address (st_mem s))"
proof -
  have g: "0 < M" "0 < N" "0 < K" "M * N < u32_max" "M * K < u32_max" "N * K < u32_max" "length MK = M * K" "length KN = N * K"
    using gemm by (simp_all add: gemm_ok_def)
  have "M \<le> M * N" "K \<le> M * K" using g by simp_all
  then have MK: "M < u32_max" "K < u32_max" using g by linarith+
  obtain s where s: "run_gemm cfg M N K tM tN tK MK KN out df = Some (Inr s)"
    "completed (job_of cfg M N K tM tN MK KN) (st_mem s)" using run_gemm_completed [OF gemm] by blast
  obtain ref where r: "sequential_layer 1 K 1 N 1 1 M K 1 MK KN cpu = Inr ref" "length ref = M * N"
    "\<forall>m < M. \<forall>n < N. ref ! (m * N + n) = gemm_at K MK KN m n"
    using sequential_gemm [OF g(1,7,8) cpu g(5,6,4) MK] by blast
  have "ref = sm_output_address (st_mem s)"
  proof (rule nth_equalityI)
    show "length ref = length (sm_output_address (st_mem s))" using s(2) r(2) by (simp add: completed_output)
    fix i assume "i < length ref"
    then have i: "i < M * N" "i div N < M" "i mod N < N" using r(2) g by (simp_all add: less_mult_imp_div_less)
    then have "ref ! (i div N * N + i mod N) = gemm_at K MK KN (i div N) (i mod N)" using r(3) by blast
    then show "ref ! i = sm_output_address (st_mem s) ! i"
      unfolding completed_nth [OF s(2) g(2) i(1)] gemm_at_left_fold [OF zero g(3)] by simp
  qed
  with s(1) r(1) show ?thesis by blast
qed

theorem gemm_simulation_matches_reference_witness:
  "\<exists>s. run_gemm small_config 3 3 2 2 2 1 [1, 2, 3, 4, 5, 6] [1, 0, 0, 1, 1, 1] (replicate 9 (0::int)) CNN_DATAFLOW
        = Some (Inr s)
     \<and> sequential_layer 1 2 1 3 1 1 3 2 1 [1, 2, 3, 4, 5, 6] [1, 0, 0, 1, 1, 1] (replicate 9 7)
        = Inr (sm_output_address (st_mem s))"
  by (rule gemm_simulation_matches_reference [OF _ demo_gemm_ok]) simp_all

text \<open>
  C8: the tile does not matter. Two runs of one product, with any two tiles and on any two
  machines, write the same output.
\<close>

theorem gemm_tile_independent:
  fixes MK KN :: "'d::{plus,times} list"
  assumes "gemm_ok cfg M N K tM tN tK MK KN out" and "gemm_ok cfg' M N K tM' tN' tK' MK KN out'"
  shows "\<exists>s s'. run_gemm cfg M N K tM tN tK MK KN out df = Some (Inr s)
     \<and> run_gemm cfg' M N K tM' tN' tK' MK KN out' df' = Some (Inr s')
     \<and> sm_output_address (st_mem s) = sm_output_address (st_mem s')"
proof -
  obtain s s' where s: "run_gemm cfg M N K tM tN tK MK KN out df = Some (Inr s)"
      "run_gemm cfg' M N K tM' tN' tK' MK KN out' df' = Some (Inr s')"
    and c: "completed (job_of cfg M N K tM tN MK KN) (st_mem s)" "completed (job_of cfg' M N K tM' tN' MK KN) (st_mem s')"
    using run_gemm_completed [OF assms(1), of df] run_gemm_completed [OF assms(2), of df'] by (elim exE conjE) (rule that)
  have N: "0 < N" using assms(1) by (simp add: gemm_ok_def)
  have "sm_output_address (st_mem s) = sm_output_address (st_mem s')"
  proof (rule nth_equalityI)
    show "length (sm_output_address (st_mem s)) = length (sm_output_address (st_mem s'))"
      using c by (simp add: completed_output)
    fix i assume "i < length (sm_output_address (st_mem s))"
    then have i: "i < M * N" using c(1) by (simp add: completed_output)
    show "sm_output_address (st_mem s) ! i = sm_output_address (st_mem s') ! i"
      unfolding completed_nth [OF c(1) N i] completed_nth [OF c(2) N i] ..
  qed
  with s show ?thesis by blast
qed

theorem gemm_tile_independent_witness:
  "\<exists>s s'. run_gemm small_config 3 3 2 2 2 1 [1, 2, 3, 4, 5, 6] [1, 0, 0, 1, 1, 1] (replicate 9 (0::int)) CNN_DATAFLOW = Some (Inr s)
     \<and> run_gemm small_config 3 3 2 1 2 2 [1, 2, 3, 4, 5, 6] [1, 0, 0, 1, 1, 1] (replicate 9 (0::int)) CNN_DATAFLOW = Some (Inr s')
     \<and> sm_output_address (st_mem s) = sm_output_address (st_mem s')"
proof -
  have "gemm_ok small_config 3 3 2 1 2 2 [1, 2, 3, 4, 5, 6] [1, 0, 0, 1, 1, 1] (replicate 9 (0::int))"
    using demo_os_config by (simp add: gemm_ok_def tile_fits_def small_config_def u32_max_def)
  from gemm_tile_independent [OF demo_gemm_ok this] show ?thesis .
qed

text \<open>
  C9: no state of a running simulation is a dead end. From every state between two iterations of
  the loop (before a configuration cycle, or in any cycle of any tile with any set of results
  already stored) the loop returns, without an abort, with the complete output.
\<close>

theorem simulation_always_ends:
  fixes J :: "'d::{plus,times} job"
  assumes "job_ok J" and "running J s"
  shows "\<exists>s'. Stonne_cycle s = Some (Inr s') \<and> completed J (st_mem s')"
  using assms running_ends unfolding ends_well_def by blast

theorem simulation_always_ends_witness:
  "\<exists>(s :: int Stonne) s'. Stonne_cycle s = Some (Inr s')
     \<and> completed (job_of small_config 3 3 2 2 2 [1, 2, 3, 4, 5, 6] [1, 0, 0, 1, 1, 1]) (st_mem s')"
proof -
  let ?J = "job_of small_config 3 3 2 2 2 [1, 2, 3, 4, 5, 6] [1, 0, 0, 1, 1, 1 :: int]"
  obtain s where "running ?J s" using demo_running by blast
  from simulation_always_ends [OF gemm_job_ok [OF demo_gemm_ok] this] show ?thesis by blast
qed

end
